(* ===== verification/Prelude.thy ===== *)
theory Prelude
  imports Main "HOL-Library.Word"
begin

text \<open>
  Shared vocabulary of the development.

  \<^item> \<^bold>\<open>Machine types.\<close> \<open>byte\<close> is C's \<open>unsigned char\<close>, \<open>t_int\<close> the limb type of
    \<open>libsparkle/crypto/bignum.h\<close> on the LP64 targets the project builds for
    (\<open>unsigned long\<close>, 64 bits; \<open>ciL\<close> = 8, \<open>biL\<close> = 64, \<open>biH\<close> = 32).
  \<^item> \<^bold>\<open>Named collections.\<close> \<open>wp\<close> holds the equations that compute the weakest
    precondition of the store monad of theory CStore; \<open>limb_simps\<close> holds the facts about
    values of limb lists.
  \<^item> \<^bold>\<open>Generic lemmas\<close> on lists, words and integers that several components use.
\<close>

named_theorems wp \<open>weakest preconditions of monadic statements\<close>
named_theorems limb_simps \<open>values of limb lists\<close>

type_synonym byte = "8 word"
type_synonym t_int = "64 word"

unbundle bit_operations_syntax

abbreviation (input) BB :: int where "BB \<equiv> 18446744073709551616"

lemma BB_eq: "(2::int) ^ 64 = BB"
  by simp

lemma uint_limb_bounds [simp]: "0 \<le> uint (w :: t_int)" "uint (w :: t_int) < BB"
  using uint_bounded [of w] by simp_all

lemma uint_limb_le [simp]: "uint (w :: t_int) \<le> 18446744073709551615"
  using uint_limb_bounds(2) [of w] by linarith

lemma int_div_lessI: "0 < k \<Longrightarrow> a < k * m \<Longrightarrow> a div k < (m :: int)"
proof -
  assume k: "0 < k" and a: "a < k * m"
  have "k * (a div k) \<le> a" using k by (simp add: mult_div_mod_eq [symmetric] minus_mod_eq_mult_div [symmetric])
  with a have "k * (a div k) < k * m" by linarith
  with k show ?thesis by simp
qed

lemma sgn_int_simps [simp]:
  fixes x :: int
  shows "0 \<le> sgn x \<longleftrightarrow> 0 \<le> x" "sgn x < 0 \<longleftrightarrow> x < 0" "0 < sgn x \<longleftrightarrow> 0 < x" "sgn x \<le> 0 \<longleftrightarrow> x \<le> 0"
    "sgn x = 0 \<longleftrightarrow> x = 0"
  by (auto simp: sgn_if)

end
