(* ===== verification/CStore.thy ===== *)
theory CStore
  imports Prelude
begin

text \<open>
  The C store of the multi-precision integers (\<open>libsparkle/crypto/bignum.c\<close>) and the
  monad in which the operations of that file are written.

  \<^item> \<^bold>\<open>The struct.\<close> \<open>mpi\<close> is the struct of \<open>bignum.h\<close>: the sign \<open>s\<close>
    (\<open>mpi_s\<close>) and the limb array \<open>p\<close> (\<open>mpi_p\<close>, least significant limb first). The
    struct's \<open>n\<close> is always the length of the array \<open>p\<close> points to, and \<open>p\<close> is
    \<open>NULL\<close> exactly when \<open>n\<close> is 0; the model keeps \<open>n\<close> as \<open>mpi_n X\<close>, the
    length of the list, and \<open>NULL\<close> as the empty list.
  \<^item> \<^bold>\<open>Addresses.\<close> Operations take the addresses of their operands, as the C
    functions take pointers, so that the pointer comparisons of the code (\<open>X == B\<close>)
    and the effect of writing through one of two aliased pointers are part of the model.
    \<open>sp\<close> is the first address above the live automatic variables; \<open>locals k f\<close> runs
    \<open>f\<close> with \<open>k\<close> fresh \<open>mpi_init\<close>-ed structs and \<open>mpi_free\<close>s them on
    every exit, which is the shape of every function of the file. Cells at or above
    \<open>sp\<close> are dead storage, restored on exit.
  \<^item> \<^bold>\<open>Effects.\<close> A statement maps a store to \<open>None\<close> (undefined behaviour, a
    read outside an array, or a loop that does not end) or to a result and a store:
    \<open>Inl e\<close> is "return code \<open>e\<close>, go to cleanup" (the macro \<open>MPI_CHK\<close>), \<open>Inr x\<close>
    normal completion. \<open>oom\<close> is the outcome of the coming \<open>malloc\<close> calls (\<open>True\<close>: it
    returns \<open>NULL\<close>; after the list every call succeeds), \<open>rng\<close> the values the callback
    \<open>f_rng\<close> will return.
  \<^item> \<^bold>\<open>Reasoning.\<close> \<open>ok f \<sigma> Q\<close>: from \<open>\<sigma>\<close> the statement terminates without
    undefined behaviour, returns 0, and ends with \<open>Q\<close>. The collection \<open>wp\<close> computes
    it; \<open>ok_whilec\<close> and \<open>ok_forc\<close> are the loop rules (total correctness).
\<close>

record mpi =
  mpi_s :: int
  mpi_p :: "t_int list"

abbreviation mpi_n :: "mpi \<Rightarrow> nat" where
  "mpi_n X \<equiv> length (mpi_p X)"

type_synonym addr = nat

record mem =
  heap :: "nat \<Rightarrow> mpi"
  sp :: nat
  oom :: "bool list"
  rng :: "nat \<Rightarrow> int"

type_synonym 'a cm = "mem \<Rightarrow> ((int + 'a) \<times> mem) option"

subsection \<open>Statements\<close>

definition ret :: "'a \<Rightarrow> 'a cm" where
  "ret x = (\<lambda>\<sigma>. Some (Inr x, \<sigma>))"

definition throw :: "int \<Rightarrow> 'a cm" where
  "throw e = (\<lambda>\<sigma>. Some (Inl e, \<sigma>))"

definition bindc :: "'a cm \<Rightarrow> ('a \<Rightarrow> 'b cm) \<Rightarrow> 'b cm" where
  "bindc f g = (\<lambda>\<sigma>. case f \<sigma> of
       None \<Rightarrow> None
     | Some (r, \<sigma>') \<Rightarrow> (case r of Inl e \<Rightarrow> Some (Inl e, \<sigma>') | Inr x \<Rightarrow> g x \<sigma>'))"

definition seqc :: "'a cm \<Rightarrow> 'b cm \<Rightarrow> 'b cm" where
  "seqc f g = bindc f (\<lambda>_. g)"

text \<open>A value that may be undefined behaviour (an access outside an array).\<close>

definition defd :: "'a option \<Rightarrow> 'a cm" where
  "defd v = (\<lambda>\<sigma>. case v of None \<Rightarrow> None | Some x \<Rightarrow> Some (Inr x, \<sigma>))"

definition put :: "addr \<Rightarrow> mpi \<Rightarrow> mem \<Rightarrow> mem" where
  "put a v \<sigma> = \<sigma>\<lparr>heap := (heap \<sigma>)(a := v)\<rparr>"

definition rd :: "addr \<Rightarrow> mpi cm" where
  "rd a = (\<lambda>\<sigma>. Some (Inr (heap \<sigma> a), \<sigma>))"

definition wr :: "addr \<Rightarrow> mpi \<Rightarrow> unit cm" where
  "wr a v = (\<lambda>\<sigma>. Some (Inr (), put a v \<sigma>))"

definition malloc :: "bool cm" where
  "malloc = (\<lambda>\<sigma>. case oom \<sigma> of
       [] \<Rightarrow> Some (Inr True, \<sigma>)
     | fails # rest \<Rightarrow> Some (Inr (\<not> fails), \<sigma>\<lparr>oom := rest\<rparr>))"

definition f_rng :: "int cm" where
  "f_rng = (\<lambda>\<sigma>. Some (Inr (rng \<sigma> 0), \<sigma>\<lparr>rng := (\<lambda>k. rng \<sigma> (Suc k))\<rparr>))"

text \<open>A call whose return code is dropped, and one whose return code is inspected.\<close>

definition ignore :: "'a cm \<Rightarrow> unit cm" where
  "ignore f = (\<lambda>\<sigma>. case f \<sigma> of None \<Rightarrow> None | Some (_, \<sigma>') \<Rightarrow> Some (Inr (), \<sigma>'))"

definition code_of :: "'a cm \<Rightarrow> int cm" where
  "code_of f = (\<lambda>\<sigma>. case f \<sigma> of None \<Rightarrow> None
     | Some (r, \<sigma>') \<Rightarrow> Some (Inr (case r of Inl e \<Rightarrow> e | Inr _ \<Rightarrow> 0), \<sigma>'))"

text \<open>A statement with code that runs on every exit, after which the return code is rewritten.\<close>

definition finallyc :: "'a cm \<Rightarrow> unit cm \<Rightarrow> 'a cm" where
  "finallyc f g = (\<lambda>\<sigma>. case f \<sigma> of None \<Rightarrow> None
     | Some (r, \<sigma>') \<Rightarrow> (case g \<sigma>' of None \<Rightarrow> None | Some (_, \<sigma>'') \<Rightarrow> Some (r, \<sigma>'')))"

definition mpi_zero :: mpi where
  "mpi_zero = \<lparr>mpi_s = 1, mpi_p = []\<rparr>"

definition enter :: "nat \<Rightarrow> mem \<Rightarrow> mem" where
  "enter k \<sigma> = \<sigma>\<lparr>heap := (\<lambda>a. if sp \<sigma> \<le> a \<and> a < sp \<sigma> + k then mpi_zero else heap \<sigma> a),
                 sp := sp \<sigma> + k\<rparr>"

definition leave :: "mem \<Rightarrow> mem \<Rightarrow> mem" where
  "leave \<sigma> \<sigma>' = \<sigma>'\<lparr>heap := (\<lambda>a. if sp \<sigma> \<le> a then heap \<sigma> a else heap \<sigma>' a), sp := sp \<sigma>\<rparr>"

definition locals :: "nat \<Rightarrow> (addr \<Rightarrow> 'a cm) \<Rightarrow> 'a cm" where
  "locals k f = (\<lambda>\<sigma>. case f (sp \<sigma>) (enter k \<sigma>) of
       None \<Rightarrow> None | Some (r, \<sigma>') \<Rightarrow> Some (r, leave \<sigma> \<sigma>'))"

partial_function (option) whilec ::
  "('s \<Rightarrow> mem \<Rightarrow> bool option) \<Rightarrow> ('s \<Rightarrow> 's cm) \<Rightarrow> 's \<Rightarrow> 's cm" where
  "whilec c b v \<sigma> =
     (case c v \<sigma> of None \<Rightarrow> None
      | Some t \<Rightarrow>
          if t then (case b v \<sigma> of None \<Rightarrow> None
                     | Some (r, \<sigma>') \<Rightarrow> (case r of Inl e \<Rightarrow> Some (Inl e, \<sigma>') | Inr v' \<Rightarrow> whilec c b v' \<sigma>'))
          else Some (Inr v, \<sigma>))"

fun forc :: "'i list \<Rightarrow> ('i \<Rightarrow> unit cm) \<Rightarrow> unit cm" where
  "forc [] b = ret ()"
| "forc (i # is) b = seqc (b i) (forc is b)"

subsection \<open>Successful termination\<close>

definition ok :: "'a cm \<Rightarrow> mem \<Rightarrow> ('a \<Rightarrow> mem \<Rightarrow> bool) \<Rightarrow> bool" where
  "ok f \<sigma> Q \<longleftrightarrow> (\<exists>x \<sigma>'. f \<sigma> = Some (Inr x, \<sigma>') \<and> Q x \<sigma>')"

lemma okI: "f \<sigma> = Some (Inr x, \<sigma>') \<Longrightarrow> Q x \<sigma>' \<Longrightarrow> ok f \<sigma> Q"
  by (auto simp: ok_def)

lemma okE:
  assumes "ok f \<sigma> Q"
  obtains x \<sigma>' where "f \<sigma> = Some (Inr x, \<sigma>')" "Q x \<sigma>'"
  using assms by (auto simp: ok_def)

lemma ok_mono: "ok f \<sigma> Q \<Longrightarrow> (\<And>x \<sigma>'. Q x \<sigma>' \<Longrightarrow> Q' x \<sigma>') \<Longrightarrow> ok f \<sigma> Q'"
  by (auto simp: ok_def)

lemma ok_ret [wp]: "ok (ret x) \<sigma> Q \<longleftrightarrow> Q x \<sigma>"
  by (simp add: ok_def ret_def)

lemma ok_throw [wp]: "\<not> ok (throw e) \<sigma> Q"
  by (simp add: ok_def throw_def)

lemma ok_bindc [wp]: "ok (bindc f g) \<sigma> Q \<longleftrightarrow> ok f \<sigma> (\<lambda>x \<sigma>'. ok (g x) \<sigma>' Q)"
  by (force simp: ok_def bindc_def split: option.splits sum.splits)

lemma ok_seqc [wp]: "ok (seqc f g) \<sigma> Q \<longleftrightarrow> ok f \<sigma> (\<lambda>_ \<sigma>'. ok g \<sigma>' Q)"
  by (simp add: seqc_def ok_bindc)

lemma ok_defd [wp]: "ok (defd v) \<sigma> Q \<longleftrightarrow> (\<exists>x. v = Some x \<and> Q x \<sigma>)"
  by (auto simp: ok_def defd_def split: option.splits)

lemma ok_rd [wp]: "ok (rd a) \<sigma> Q \<longleftrightarrow> Q (heap \<sigma> a) \<sigma>"
  by (simp add: ok_def rd_def)

lemma ok_wr [wp]: "ok (wr a v) \<sigma> Q \<longleftrightarrow> Q () (put a v \<sigma>)"
  by (simp add: ok_def wr_def)

lemma ok_f_rng [wp]: "ok f_rng \<sigma> Q \<longleftrightarrow> Q (rng \<sigma> 0) (\<sigma>\<lparr>rng := (\<lambda>k. rng \<sigma> (Suc k))\<rparr>)"
  by (simp add: ok_def f_rng_def)

lemma ok_malloc [wp]:
  "ok malloc \<sigma> Q \<longleftrightarrow> (case oom \<sigma> of [] \<Rightarrow> Q True \<sigma> | x # r \<Rightarrow> Q (\<not> x) (\<sigma>\<lparr>oom := r\<rparr>))"
  by (auto simp: ok_def malloc_def split: list.splits)

lemma ok_locals [wp]:
  "ok (locals k f) \<sigma> Q \<longleftrightarrow> ok (f (sp \<sigma>)) (enter k \<sigma>) (\<lambda>x \<sigma>'. Q x (leave \<sigma> \<sigma>'))"
  by (force simp: ok_def locals_def split: option.splits)

lemma ok_if [wp]: "ok (if b then f else g) \<sigma> Q \<longleftrightarrow> (if b then ok f \<sigma> Q else ok g \<sigma> Q)"
  by simp

lemma ok_let [wp]: "ok (let x = t in f x) \<sigma> Q \<longleftrightarrow> ok (f t) \<sigma> Q"
  by simp

lemma ok_case_prod [wp]: "ok (case t of (x, y) \<Rightarrow> f x y) \<sigma> Q \<longleftrightarrow> ok (f (fst t) (snd t)) \<sigma> Q"
  by (simp add: case_prod_unfold)

lemma ok_ignore: "ok f \<sigma> (\<lambda>_. Q ()) \<Longrightarrow> ok (ignore f) \<sigma> Q"
  by (auto simp: ok_def ignore_def)

lemma ok_code_of: "ok f \<sigma> (\<lambda>_. Q 0) \<Longrightarrow> ok (code_of f) \<sigma> Q"
  by (auto simp: ok_def code_of_def)

lemma ok_finallyc: "ok f \<sigma> (\<lambda>x \<sigma>'. ok g \<sigma>' (\<lambda>_. Q x)) \<Longrightarrow> ok (finallyc f g) \<sigma> Q"
  by (force simp: ok_def finallyc_def)

lemma ok_forc_nil [wp]: "ok (forc [] b) \<sigma> Q \<longleftrightarrow> Q () \<sigma>"
  by (simp add: ok_ret)

lemma ok_forc:
  assumes "I xs \<sigma>"
    and "\<And>i is \<sigma>. I (i # is) \<sigma> \<Longrightarrow> ok (b i) \<sigma> (\<lambda>_. I is)"
    and "\<And>\<sigma>. I [] \<sigma> \<Longrightarrow> Q () \<sigma>"
  shows "ok (forc xs b) \<sigma> Q"
  using assms(1)
proof (induction xs arbitrary: \<sigma>)
  case Nil
  then show ?case by (simp add: wp assms(3))
next
  case (Cons i xs)
  then show ?case by (auto simp: wp intro!: ok_mono [OF assms(2)])
qed

lemma ok_for_down:
  assumes "lo \<le> hi" "I hi \<sigma>"
    and step: "\<And>i \<sigma>. lo \<le> i \<Longrightarrow> i < hi \<Longrightarrow> I (Suc i) \<sigma> \<Longrightarrow> ok (b i) \<sigma> (\<lambda>_. I i)"
    and exit: "\<And>\<sigma>. I lo \<sigma> \<Longrightarrow> Q () \<sigma>"
  shows "ok (forc (rev [lo..<hi]) b) \<sigma> Q"
  using assms(1,2) step
proof (induction hi arbitrary: \<sigma> rule: dec_induct)
  case base
  then show ?case by (simp add: wp exit)
next
  case (step hi)
  then show ?case by (auto simp: wp intro!: ok_mono [OF step.prems(2)])
qed

lemma ok_for_up:
  assumes "lo \<le> hi" "I lo \<sigma>"
    and "\<And>i \<sigma>. lo \<le> i \<Longrightarrow> i < hi \<Longrightarrow> I i \<sigma> \<Longrightarrow> ok (b i) \<sigma> (\<lambda>_. I (Suc i))"
    and "\<And>\<sigma>. I hi \<sigma> \<Longrightarrow> Q () \<sigma>"
  shows "ok (forc [lo..<hi] b) \<sigma> Q"
proof (rule ok_forc [where I = "\<lambda>is \<sigma>. \<exists>i. is = [i..<hi] \<and> lo \<le> i \<and> i \<le> hi \<and> I i \<sigma>"])
  fix i "is" \<sigma> assume "\<exists>j. i # is = [j..<hi] \<and> lo \<le> j \<and> j \<le> hi \<and> I j \<sigma>"
  then have h: "is = [Suc i..<hi]" "lo \<le> i" "i < hi" "I i \<sigma>"
    by (auto simp: upt_eq_Cons_conv dest: sym)
  then show "ok (b i) \<sigma> (\<lambda>_ \<sigma>. \<exists>j. is = [j..<hi] \<and> lo \<le> j \<and> j \<le> hi \<and> I j \<sigma>)"
    by (intro ok_mono [OF assms(3)]) auto
next
  fix \<sigma> assume "\<exists>i. [] = [i..<hi] \<and> lo \<le> i \<and> i \<le> hi \<and> I i \<sigma>"
  then have "I hi \<sigma>" by (auto dest: sym)
  then show "Q () \<sigma>" by (rule assms(4))
qed (use assms in auto)

lemma ok_whilec:
  assumes "I v \<sigma>"
    and step: "\<And>v \<sigma>. I v \<sigma> \<Longrightarrow> c v \<sigma> = Some True \<Longrightarrow>
        ok (b v) \<sigma> (\<lambda>v' \<sigma>'. I v' \<sigma>' \<and> m v' \<sigma>' < (m v \<sigma> :: nat))"
    and defined: "\<And>v \<sigma>. I v \<sigma> \<Longrightarrow> c v \<sigma> \<noteq> None"
    and exit: "\<And>v \<sigma>. I v \<sigma> \<Longrightarrow> c v \<sigma> = Some False \<Longrightarrow> Q v \<sigma>"
  shows "ok (whilec c b v) \<sigma> Q"
  using assms(1)
proof (induction "m v \<sigma>" arbitrary: v \<sigma> rule: less_induct)
  case less
  from less.prems defined obtain t where t: "c v \<sigma> = Some t" by blast
  show ?case
  proof (cases t)
    case True
    with step [OF less.prems] t obtain v' \<sigma>' where
      b: "b v \<sigma> = Some (Inr v', \<sigma>')" "I v' \<sigma>'" "m v' \<sigma>' < m v \<sigma>"
      by (auto simp: ok_def)
    with less.hyps have "ok (whilec c b v') \<sigma>' Q" by blast
    with True t b show ?thesis by (simp add: ok_def whilec.simps [of c b v \<sigma>])
  next
    case False
    with t exit [OF less.prems] show ?thesis by (simp add: ok_def whilec.simps [of c b v \<sigma>])
  qed
qed

subsection \<open>Reading a store after writes\<close>

lemma put_simps [simp]:
  "heap (put a v \<sigma>) x = (if x = a then v else heap \<sigma> x)"
  "sp (put a v \<sigma>) = sp \<sigma>" "oom (put a v \<sigma>) = oom \<sigma>" "rng (put a v \<sigma>) = rng \<sigma>"
  by (simp_all add: put_def)

lemma put_put [simp]: "put a v (put a w \<sigma>) = put a v \<sigma>"
  by (simp add: put_def)

lemma put_heap_id [simp]: "put a (heap \<sigma> a) \<sigma> = \<sigma>"
  by (simp add: put_def)

lemma put_commute: "a \<noteq> b \<Longrightarrow> put a v (put b w \<sigma>) = put b w (put a v \<sigma>)"
  by (simp add: put_def fun_upd_twist)

lemma enter_simps [simp]:
  "heap (enter k \<sigma>) x = (if sp \<sigma> \<le> x \<and> x < sp \<sigma> + k then mpi_zero else heap \<sigma> x)"
  "sp (enter k \<sigma>) = sp \<sigma> + k" "oom (enter k \<sigma>) = oom \<sigma>" "rng (enter k \<sigma>) = rng \<sigma>"
  by (simp_all add: enter_def)

lemma leave_simps [simp]:
  "sp (leave \<sigma> \<sigma>') = sp \<sigma>" "oom (leave \<sigma> \<sigma>') = oom \<sigma>'" "rng (leave \<sigma> \<sigma>') = rng \<sigma>'"
  "heap (leave \<sigma> \<sigma>') x = (if sp \<sigma> \<le> x then heap \<sigma> x else heap \<sigma>' x)"
  by (simp_all add: leave_def)

lemma leave_enter [simp]: "leave \<sigma> (enter k \<sigma>) = \<sigma>"
  by (auto simp: leave_def enter_def fun_eq_iff intro!: mem.equality)

lemma leave_put [simp]:
  "leave \<sigma> (put a v \<sigma>') = (if a < sp \<sigma> then put a v (leave \<sigma> \<sigma>') else leave \<sigma> \<sigma>')"
  by (auto simp: leave_def put_def fun_eq_iff intro!: mem.equality)

lemma mpi_zero_simps [simp]: "mpi_s mpi_zero = 1" "mpi_p mpi_zero = []"
  by (simp_all add: mpi_zero_def)

end
