(* ===== verification/Limbs.thy ===== *)
theory Limbs
  imports Prelude
begin

text \<open>
  Limb arrays: the value of a limb list, and the loops of \<open>bignum.c\<close> that work on raw
  limb arrays (the static helpers \<open>mpi_sub_hlp\<close> and \<open>mpi_mul_hlp\<close>, the carry loop of
  \<open>mpi_add_abs\<close>, the bit loops of the shifts). An access outside an array is \<open>None\<close>.

  The macro \<open>MULADDC_CORE\<close> of \<open>bn_mul.h\<close> is chosen at compile time; the locale
  \<open>muladdc\<close> states what \<open>mpi_mul_hlp\<close> needs of it, the row multiplication is proved
  inside it, and the two portable C variants are shown to be instances.
\<close>

subsection \<open>The value of a limb list\<close>

primrec nval :: "t_int list \<Rightarrow> int" where
  "nval [] = 0"
| "nval (w # ws) = uint w + BB * nval ws"

lemma nval_nonneg [simp]: "0 \<le> nval ws"
  by (induction ws) auto

lemma nval_less: "nval ws < BB ^ length ws"
proof (induction ws)
  case (Cons w ws)
  then have "nval ws \<le> BB ^ length ws - 1" by simp
  then have "BB * nval ws \<le> BB * (BB ^ length ws - 1)" by simp
  moreover have "uint w < BB" by simp
  ultimately have "uint w + BB * nval ws < BB * BB ^ length ws"
    unfolding right_diff_distrib by linarith
  then show ?case by simp
qed simp

lemma nval_append: "nval (xs @ ys) = nval xs + BB ^ length xs * nval ys"
  by (induction xs) (auto simp: algebra_simps)

lemma nval_replicate_0 [simp]: "nval (replicate k 0) = 0"
  by (induction k) auto

lemma nval_zeros: "(\<forall>w \<in> set ws. w = 0) \<Longrightarrow> nval ws = 0"
  by (induction ws) auto

lemma nval_eq_0_iff: "nval ws = 0 \<longleftrightarrow> (\<forall>w \<in> set ws. w = 0)"
proof (induction ws)
  case (Cons w ws)
  have "uint w + BB * nval ws = 0 \<longleftrightarrow> uint w = 0 \<and> nval ws = 0"
    by (metis add_nonneg_eq_0_iff mult_eq_0_iff mult_nonneg_nonneg nval_nonneg
        uint_limb_bounds(1) zero_neq_numeral zero_le_numeral)
  with Cons show ?case by (simp add: uint_0_iff)
qed simp

lemma nval_take_drop: "k \<le> length ws \<Longrightarrow> nval ws = nval (take k ws) + BB ^ k * nval (drop k ws)"
  using nval_append [of "take k ws" "drop k ws"] by simp

lemma nval_mod: "k \<le> length ws \<Longrightarrow> nval ws mod BB ^ k = nval (take k ws)"
  using nval_less [of "take k ws"] by (simp add: nval_take_drop [of k ws])

lemma nval_div: "k \<le> length ws \<Longrightarrow> nval ws div BB ^ k = nval (drop k ws)"
proof -
  assume k: "k \<le> length ws"
  have "0 \<le> nval (take k ws)" "nval (take k ws) < BB ^ k"
    using nval_less [of "take k ws"] k by simp_all
  then show ?thesis by (simp add: nval_take_drop [OF k])
qed

lemma nval_update:
  "i < length ws \<Longrightarrow> nval (ws[i := w]) = nval ws + BB ^ i * (uint w - uint (ws ! i))"
proof (induction ws arbitrary: i)
  case (Cons v ws)
  show ?case
  proof (cases i)
    case (Suc k)
    with Cons.prems Cons.IH [of k] show ?thesis by (simp add: distrib_left)
  qed simp
qed simp

lemma nval_inject: "length xs = length ys \<Longrightarrow> nval xs = nval ys \<longleftrightarrow> xs = ys"
proof (induction xs ys rule: list_induct2)
  case (Cons x xs y ys)
  have "uint x + BB * nval xs = uint y + BB * nval ys \<longleftrightarrow> uint x = uint y \<and> nval xs = nval ys"
  proof
    assume e: "uint x + BB * nval xs = uint y + BB * nval ys"
    then have "(uint x + BB * nval xs) mod BB = (uint y + BB * nval ys) mod BB" by simp
    then have "uint x = uint y" by simp
    with e show "uint x = uint y \<and> nval xs = nval ys" by simp
  qed simp
  with Cons show ?case by (simp add: word_uint_eq_iff)
qed simp

subsection \<open>Significant limbs\<close>

text \<open>
  \<open>for( i = n - 1; i >= 0; i-- ) if( p[i] != 0 ) break;\<close> leaves \<open>i + 1 = sig_limbs p\<close>
  (0 when every limb is 0).
\<close>

fun scan_limbs :: "t_int list \<Rightarrow> nat \<Rightarrow> nat" where
  "scan_limbs ws 0 = 0"
| "scan_limbs ws (Suc i) = (if ws ! i \<noteq> 0 then Suc i else scan_limbs ws i)"

definition sig_limbs :: "t_int list \<Rightarrow> nat" where
  "sig_limbs ws = scan_limbs ws (length ws)"

lemma scan_limbs_le: "scan_limbs ws k \<le> k"
  by (induction k) auto

lemma scan_limbs_zero: "scan_limbs ws k \<le> i \<Longrightarrow> i < k \<Longrightarrow> ws ! i = 0"
  by (induction k) (auto simp: less_Suc_eq split: if_splits)

lemma scan_limbs_nonzero: "scan_limbs ws k \<noteq> 0 \<Longrightarrow> ws ! (scan_limbs ws k - 1) \<noteq> 0"
  by (induction k) auto

lemma sig_limbs_le [simp]: "sig_limbs ws \<le> length ws"
  by (simp add: sig_limbs_def scan_limbs_le)

lemma sig_limbs_zero: "sig_limbs ws \<le> i \<Longrightarrow> i < length ws \<Longrightarrow> ws ! i = 0"
  by (simp add: sig_limbs_def scan_limbs_zero)

lemma sig_limbs_nonzero: "0 < sig_limbs ws \<Longrightarrow> ws ! (sig_limbs ws - 1) \<noteq> 0"
  using scan_limbs_nonzero [of ws "length ws"] by (simp add: sig_limbs_def)

lemma nval_drop_sig: "sig_limbs ws \<le> k \<Longrightarrow> nval (drop k ws) = 0"
proof (rule nval_zeros, rule ballI)
  fix w assume k: "sig_limbs ws \<le> k" and "w \<in> set (drop k ws)"
  then obtain i where "i < length ws - k" "w = ws ! (k + i)"
    by (auto simp: in_set_conv_nth)
  with k show "w = 0" by (simp add: sig_limbs_zero)
qed

lemma nval_take_sig: "sig_limbs ws \<le> k \<Longrightarrow> nval (take k ws) = nval ws"
proof (cases "k \<le> length ws")
  case True
  assume "sig_limbs ws \<le> k"
  then show ?thesis using nval_take_drop [OF True] nval_drop_sig by simp
qed simp

lemma nval_less_sig: "nval ws < BB ^ sig_limbs ws"
  using nval_less [of "take (sig_limbs ws) ws"] by (simp add: nval_take_sig)

lemma nval_ge_nth: "i < length ws \<Longrightarrow> uint (ws ! i) * BB ^ i \<le> nval ws"
proof -
  assume i: "i < length ws"
  then have "nval ws = nval (take i ws) + BB ^ i * (uint (ws ! i) + BB * nval (drop (Suc i) ws))"
    using nval_take_drop [of i ws] by (simp add: Cons_nth_drop_Suc [symmetric])
  then show ?thesis by (simp add: algebra_simps)
qed

lemma nval_ge_sig: "0 < sig_limbs ws \<Longrightarrow> BB ^ (sig_limbs ws - 1) \<le> nval ws"
proof -
  assume h: "0 < sig_limbs ws"
  let ?i = "sig_limbs ws - 1"
  have "0 < uint (ws ! ?i)"
    using sig_limbs_nonzero [OF h] by (simp add: word_neq_0_conv word_less_def)
  then have "BB ^ ?i \<le> uint (ws ! ?i) * BB ^ ?i" by simp
  moreover have "?i < length ws" using h sig_limbs_le [of ws] by linarith
  ultimately show ?thesis using nval_ge_nth [of ?i ws] by linarith
qed

lemma sig_limbs_eq_0_iff: "sig_limbs ws = 0 \<longleftrightarrow> nval ws = 0"
proof
  assume "sig_limbs ws = 0"
  then have "nval ws < 1" using nval_less_sig [of ws] by simp
  then show "nval ws = 0" using nval_nonneg [of ws] by linarith
next
  assume "nval ws = 0"
  then show "sig_limbs ws = 0"
    using nval_ge_sig [of ws] by (cases "sig_limbs ws") (auto dest: leD)
qed

lemma sig_limbs_less: "nval xs < BB ^ k \<Longrightarrow> sig_limbs xs \<le> k"
proof (rule ccontr)
  assume l: "nval xs < BB ^ k" and "\<not> sig_limbs xs \<le> k"
  then have "k \<le> sig_limbs xs - 1" "0 < sig_limbs xs" by simp_all
  then have "BB ^ k \<le> BB ^ (sig_limbs xs - 1)" by (simp add: power_increasing)
  with nval_ge_sig [OF \<open>0 < sig_limbs xs\<close>] l show False by linarith
qed

lemma sig_limbs_mono: "nval xs \<le> nval ys \<Longrightarrow> sig_limbs xs \<le> sig_limbs ys"
  using nval_less_sig [of ys] by (intro sig_limbs_less) linarith

lemma sig_limbs_cong: "nval xs = nval ys \<Longrightarrow> sig_limbs xs = sig_limbs ys"
  by (simp add: sig_limbs_mono antisym)

subsection \<open>Carry and borrow on words\<close>

lemma uint_add_carry: "uint (a + b) + BB * of_bool (a + b < b) = uint a + uint (b :: t_int)"
proof -
  have a: "uint a < BB" "uint b < BB" "0 \<le> uint a" "0 \<le> uint b" by simp_all
  have e: "uint (a + b) = (uint a + uint b) mod BB"
    by (simp add: uint_word_ariths)
  show ?thesis
  proof (cases "uint a + uint b < BB")
    case True
    with a e have "uint (a + b) = uint a + uint b" by simp
    with a show ?thesis by (simp add: word_less_def)
  next
    case False
    with a have "(uint a + uint b - BB) mod BB = uint a + uint b - BB"
      by (intro mod_pos_pos_trivial) linarith+
    then have "(uint a + uint b) mod BB = uint a + uint b - BB" by simp
    with a e show ?thesis by (simp add: word_less_def)
  qed
qed

lemma uint_sub_borrow: "uint (a - b) = uint a - uint (b :: t_int) + BB * of_bool (a < b)"
proof -
  have a: "uint a < BB" "uint b < BB" "0 \<le> uint a" "0 \<le> uint b" by simp_all
  have e: "uint (a - b) = (uint a - uint b) mod BB"
    by (simp add: uint_word_ariths)
  show ?thesis
  proof (cases "uint a < uint b")
    case True
    with a have "(uint a - uint b + BB) mod BB = uint a - uint b + BB"
      by (intro mod_pos_pos_trivial) linarith+
    then have "(uint a - uint b) mod BB = uint a - uint b + BB" by simp
    with True e show ?thesis by (simp add: word_less_def)
  next
    case False
    with a have "(uint a - uint b) mod BB = uint a - uint b"
      by (intro mod_pos_pos_trivial) linarith+
    with False e show ?thesis by (simp add: word_less_def)
  qed
qed

lemma carry_le_1:
  fixes r t x :: int
  assumes "r + BB * x = t" "t < 2 * BB" "0 \<le> r"
  shows "x \<le> 1"
  using assms by linarith

lemma uint_of_bool_limb [simp]: "uint (of_bool b :: t_int) = of_bool b"
  by simp

subsection \<open>The addition loop of mpi\_add\_abs\<close>

text \<open>
  \<open>for( i = 0; i <= j; i++, o++, p++ ) { *p += c; c = ( *p < c ); *p += *o; c += ( *p < *o ); }\<close>:
  the new array and the carry.
\<close>

fun add_loop :: "t_int list \<Rightarrow> t_int list \<Rightarrow> t_int \<Rightarrow> (t_int list \<times> t_int) option" where
  "add_loop [] ps c = Some (ps, c)"
| "add_loop (ob # os) [] c = None"
| "add_loop (ob # os) (q # ps) c =
     (let q1 = q + c; c1 = of_bool (q1 < c);
          q2 = q1 + ob; c2 = c1 + of_bool (q2 < ob)
      in map_option (\<lambda>(ps', c'). (q2 # ps', c')) (add_loop os ps c2))"

lemma add_step:
  fixes q c ob :: t_int
  assumes "uint c \<le> 1"
  defines "q1 \<equiv> q + c" defines "c2 \<equiv> of_bool (q1 < c) + of_bool (q1 + ob < ob) :: t_int"
  shows "uint (q1 + ob) + BB * uint c2 = uint q + uint ob + uint c" "uint c2 \<le> 1"
proof -
  let ?u = "of_bool (q1 < c) :: int" and ?v = "of_bool (q1 + ob < ob) :: int"
  have 1: "uint q1 + BB * ?u = uint q + uint c"
    unfolding q1_def by (rule uint_add_carry)
  have 2: "uint (q1 + ob) + BB * ?v = uint q1 + uint ob" by (rule uint_add_carry)
  have s: "uint (q1 + ob) + BB * (?u + ?v) = uint q + uint ob + uint c"
    using 1 2 by (simp add: algebra_simps)
  have "uint q + uint ob + uint c < 2 * BB"
    using assms(1) uint_limb_le [of q] uint_limb_le [of ob] by linarith
  with s have b: "?u + ?v \<le> 1"
    by (rule carry_le_1) simp
  then have "uint c2 = ?u + ?v"
    by (auto simp: c2_def split: if_splits)
  with s b show "uint (q1 + ob) + BB * uint c2 = uint q + uint ob + uint c" "uint c2 \<le> 1"
    by simp_all
qed

lemma add_loop_spec:
  assumes "uint c \<le> 1" "length os \<le> length ps"
  shows "\<exists>r c'. add_loop os ps c = Some (r, c') \<and> length r = length ps \<and> uint c' \<le> 1 \<and>
           nval r + BB ^ length os * uint c' = nval ps + nval os + uint c"
  using assms
proof (induction os ps c rule: add_loop.induct)
  case (3 ob os q ps c)
  let ?q1 = "q + c"
  let ?c2 = "of_bool (?q1 < c) + of_bool (?q1 + ob < ob) :: t_int"
  note st = add_step [OF 3(2), of q ob]
  from 3(3) have "length os \<le> length ps" by simp
  then obtain r c' where r: "add_loop os ps ?c2 = Some (r, c')" "length r = length ps"
      "uint c' \<le> 1" "nval r + BB ^ length os * uint c' = nval ps + nval os + uint ?c2"
    using 3(1) [OF refl refl refl refl] st(2) by auto
  have "BB * (nval r + BB ^ length os * uint c') = BB * (nval ps + nval os + uint ?c2)"
    using r(4) by simp
  with st(1) have "uint (?q1 + ob) + BB * nval r + BB * BB ^ length os * uint c'
      = uint q + BB * nval ps + (uint ob + BB * nval os) + uint c"
    by (simp add: distrib_left mult.assoc)
  with r show ?case by (simp add: Let_def)
qed auto

subsection \<open>mpi\_sub\_hlp\<close>

fun sub_borrow :: "t_int list \<Rightarrow> t_int \<Rightarrow> t_int list option" where
  "sub_borrow [] c = (if c \<noteq> 0 then None else Some [])"
| "sub_borrow (d # ds) c =
     (if c \<noteq> 0 then let z = of_bool (d < c) in map_option ((#) (d - c)) (sub_borrow ds z)
      else Some (d # ds))"

fun sub_loop :: "t_int list \<Rightarrow> t_int list \<Rightarrow> t_int \<Rightarrow> t_int list option" where
  "sub_loop [] ds c = sub_borrow ds c"
| "sub_loop (w # ss) [] c = None"
| "sub_loop (w # ss) (d # ds) c =
     (let z = of_bool (d < c); d1 = d - c; c1 = of_bool (d1 < w) + z
      in map_option ((#) (d1 - w)) (sub_loop ss ds c1))"

definition mpi_sub_hlp :: "nat \<Rightarrow> t_int list \<Rightarrow> t_int list \<Rightarrow> t_int list option" where
  "mpi_sub_hlp n ss ds = (if length ss < n then None else sub_loop (take n ss) ds 0)"

lemma sub_borrow_spec:
  assumes "uint c \<le> nval ds"
  shows "\<exists>r. sub_borrow ds c = Some r \<and> length r = length ds \<and> nval r = nval ds - uint c"
  using assms
proof (induction ds arbitrary: c)
  case Nil
  then have "uint c = 0" using uint_limb_bounds(1) [of c] by simp
  then show ?case by (simp add: uint_0_iff)
next
  case (Cons d ds)
  let ?z = "of_bool (d < c) :: t_int"
  have "uint ?z \<le> nval ds"
  proof (cases "d < c")
    case True
    with Cons.prems have "0 < BB * nval ds" by (auto simp: word_less_def)
    then show ?thesis by (simp add: zero_less_mult_iff)
  qed simp
  then obtain r where r: "sub_borrow ds ?z = Some r" "length r = length ds"
      "nval r = nval ds - uint ?z"
    using Cons.IH by blast
  then show ?case by (auto simp: Let_def uint_sub_borrow)
qed

lemma sub_step:
  fixes d c w :: t_int
  assumes "uint c \<le> 1"
  defines "c1 \<equiv> of_bool (d - c < w) + of_bool (d < c) :: t_int"
  shows "uint (d - c - w) = uint d - uint c - uint w + BB * uint c1" "uint c1 \<le> 1"
proof -
  let ?z = "of_bool (d < c) :: int" and ?v = "of_bool (d - c < w) :: int"
  have 1: "uint (d - c) = uint d - uint c + BB * ?z" by (rule uint_sub_borrow)
  have 2: "uint (d - c - w) = uint (d - c) - uint w + BB * ?v" by (rule uint_sub_borrow)
  have s: "uint (d - c - w) = uint d - uint c - uint w + BB * (?z + ?v)"
    using 1 2 by simp
  have "uint d + BB * (?z + ?v) = uint (d - c - w) + uint c + uint w" using s by simp
  moreover have "uint (d - c - w) + uint c + uint w < 2 * BB"
    using assms(1) uint_limb_le [of "d - c - w"] uint_limb_le [of w] by linarith
  ultimately have "?z + ?v \<le> 1" by (rule carry_le_1) simp
  then have "uint c1 = ?z + ?v"
    by (auto simp: c1_def split: if_splits)
  with s \<open>?z + ?v \<le> 1\<close>
  show "uint (d - c - w) = uint d - uint c - uint w + BB * uint c1" "uint c1 \<le> 1"
    by simp_all
qed

lemma sub_loop_spec:
  assumes "uint c \<le> 1" "length ss \<le> length ds" "nval ss + uint c \<le> nval ds"
  shows "\<exists>r. sub_loop ss ds c = Some r \<and> length r = length ds \<and>
           nval r = nval ds - nval ss - uint c"
  using assms
proof (induction ss ds c rule: sub_loop.induct)
  case (1 ds c)
  then show ?case using sub_borrow_spec by simp
next
  case (3 w ss d ds c)
  let ?c1 = "of_bool (d - c < w) + of_bool (d < c) :: t_int"
  note st = sub_step [OF 3(2), of d w]
  have "BB * (nval ss + uint ?c1) - BB * nval ds < BB"
    using st(1) 3(4) uint_limb_bounds [of "d - c - w"] unfolding distrib_left nval.simps by linarith
  then have "nval ss + uint ?c1 \<le> nval ds" by (simp add: right_diff_distrib [symmetric])
  moreover have "length ss \<le> length ds" using 3(3) by simp
  ultimately obtain r where r: "sub_loop ss ds ?c1 = Some r" "length r = length ds"
      "nval r = nval ds - nval ss - uint ?c1"
    using 3(1) [OF refl refl refl] st(2) by blast
  have "uint (d - c - w) + BB * nval r = uint d + BB * nval ds - (uint w + BB * nval ss) - uint c"
    using st(1) r(3) by (simp add: right_diff_distrib)
  with r(1,2) show ?case by (simp add: Let_def)
qed simp

lemma mpi_sub_hlp_spec:
  assumes "n \<le> length ss" "n \<le> length ds" "nval (take n ss) \<le> nval ds"
  shows "\<exists>r. mpi_sub_hlp n ss ds = Some r \<and> length r = length ds \<and>
           nval r = nval ds - nval (take n ss)"
  using sub_loop_spec [of 0 "take n ss" ds] assms by (simp add: mpi_sub_hlp_def)

subsection \<open>mpi\_mul\_hlp\<close>

text \<open>
  One \<open>MULADDC_CORE\<close>: from the multiplier \<open>b\<close>, the limbs \<open>*s\<close> and \<open>*d\<close> and the
  carry \<open>c\<close>, the new \<open>*d\<close> and the new carry. Three variants of the macro: plain C,
  C with a double-width type, and the instructions of the amd64 variant (\<open>mulq\<close> leaves
  the high half in \<open>rdx\<close>; \<open>adcq\<close> adds the carry flag of the \<open>addq\<close> before it).
\<close>

definition muladdc_generic :: "t_int \<Rightarrow> t_int \<Rightarrow> t_int \<Rightarrow> t_int \<Rightarrow> t_int \<times> t_int" where
  "muladdc_generic b sw d c =
     (let b0 = drop_bit 32 (push_bit 32 b); b1 = drop_bit 32 b;
          s0 = drop_bit 32 (push_bit 32 sw); s1 = drop_bit 32 sw;
          rx = s0 * b1; r0 = s0 * b0;
          ry = s1 * b0; r1 = s1 * b1;
          r1 = r1 + drop_bit 32 rx;
          r1 = r1 + drop_bit 32 ry;
          rx = push_bit 32 rx; ry = push_bit 32 ry;
          r0 = r0 + rx; r1 = r1 + of_bool (r0 < rx);
          r0 = r0 + ry; r1 = r1 + of_bool (r0 < ry);
          r0 = r0 + c; r1 = r1 + of_bool (r0 < c);
          r0 = r0 + d; r1 = r1 + of_bool (r0 < d)
      in (r0, r1))"

definition muladdc_longlong :: "t_int \<Rightarrow> t_int \<Rightarrow> t_int \<Rightarrow> t_int \<Rightarrow> t_int \<times> t_int" where
  "muladdc_longlong b sw d c =
     (let r = (ucast sw :: 128 word) * ucast b;
          r0 = ucast r; r1 = ucast (drop_bit 64 r);
          r0 = r0 + c; r1 = r1 + of_bool (r0 < c);
          r0 = r0 + d; r1 = r1 + of_bool (r0 < d)
      in (r0, r1))"

definition muladdc_amd64 :: "t_int \<Rightarrow> t_int \<Rightarrow> t_int \<Rightarrow> t_int \<Rightarrow> t_int \<times> t_int" where
  "muladdc_amd64 b sw d c =
     (let prod = (ucast sw :: 128 word) * ucast b;
          rax = ucast prod; rdx = ucast (drop_bit 64 prod);
          cf = BB \<le> uint rax + uint c; rax = rax + c;
          rcx = 0;
          rdx = rdx + of_bool cf;
          cf = BB \<le> uint d + uint rax; d = d + rax;
          rcx = rcx + rdx + of_bool cf
      in (d, rcx))"

text \<open>
  The row loop. The state is the limbs already written, the rest of \<open>s\<close> and \<open>d\<close>, and
  the carry; \<open>muladdc_rep k\<close> is \<open>k\<close> copies of the macro.
\<close>

type_synonym row_state = "t_int list \<times> t_int list \<times> t_int list \<times> t_int"

fun muladdc_step ::
  "(t_int \<Rightarrow> t_int \<Rightarrow> t_int \<Rightarrow> t_int \<Rightarrow> t_int \<times> t_int) \<Rightarrow> t_int \<Rightarrow> row_state \<Rightarrow> row_state option" where
  "muladdc_step core b (done, w # ss, d # ds, c) =
     (case core b w d c of (r0, r1) \<Rightarrow> Some (done @ [r0], ss, ds, r1))"
| "muladdc_step core b _ = None"

fun muladdc_rep ::
  "(t_int \<Rightarrow> t_int \<Rightarrow> t_int \<Rightarrow> t_int \<Rightarrow> t_int \<times> t_int) \<Rightarrow> t_int \<Rightarrow> nat \<Rightarrow> row_state \<Rightarrow> row_state option" where
  "muladdc_rep core b 0 st = Some st"
| "muladdc_rep core b (Suc k) st = Option.bind (muladdc_step core b st) (muladdc_rep core b k)"

fun mul_row ::
  "(t_int \<Rightarrow> t_int \<Rightarrow> t_int \<Rightarrow> t_int \<Rightarrow> t_int \<times> t_int) \<Rightarrow> t_int \<Rightarrow> nat \<Rightarrow> row_state \<Rightarrow> row_state option" where
  "mul_row core b i st =
     (if i \<ge> 16 then Option.bind (muladdc_rep core b 16 st) (mul_row core b (i - 16))
      else if i \<ge> 8 then Option.bind (muladdc_rep core b 8 st) (mul_row core b (i - 8))
      else if i > 0 then Option.bind (muladdc_rep core b 1 st) (mul_row core b (i - 1))
      else Some st)"

declare mul_row.simps [simp del]

text \<open>\<open>do { *d += c; c = ( *d < c ); d++; } while( c != 0 );\<close>\<close>

fun mul_carry :: "t_int list \<Rightarrow> t_int \<Rightarrow> t_int list option" where
  "mul_carry [] c = None"
| "mul_carry (d # ds) c =
     (let d' = d + c; c' = of_bool (d' < c)
      in if c' \<noteq> 0 then map_option ((#) d') (mul_carry ds c') else Some (d' # ds))"

definition mul_hlp_with ::
  "(t_int \<Rightarrow> t_int \<Rightarrow> t_int \<Rightarrow> t_int \<Rightarrow> t_int \<times> t_int) \<Rightarrow>
   nat \<Rightarrow> t_int list \<Rightarrow> t_int list \<Rightarrow> t_int \<Rightarrow> t_int list option" where
  "mul_hlp_with core i ss ds b =
     (case mul_row core b i ([], ss, ds, 0) of None \<Rightarrow> None
      | Some (done, _, rest, c) \<Rightarrow> map_option ((@) done) (mul_carry rest c))"

definition mpi_mul_hlp :: "nat \<Rightarrow> t_int list \<Rightarrow> t_int list \<Rightarrow> t_int \<Rightarrow> t_int list option" where
  "mpi_mul_hlp = mul_hlp_with muladdc_generic"

lemma muladdc_rep_add:
  "muladdc_rep core b (j + k) st = Option.bind (muladdc_rep core b j st) (muladdc_rep core b k)"
  by (induction j arbitrary: st) (auto split: Option.bind_splits)

text \<open>Unrolling the loop by 16 and by 8 changes nothing.\<close>

lemma mul_row_rep: "mul_row core b i st = muladdc_rep core b i st"
proof (induction i arbitrary: st rule: less_induct)
  case (less i)
  have e: "Option.bind (muladdc_rep core b k st) (mul_row core b (i - k)) = muladdc_rep core b i st"
    if "0 < k" "k \<le> i" for k
  proof -
    have "mul_row core b (i - k) = muladdc_rep core b (i - k)"
      using less [of "i - k"] that by auto
    then show ?thesis using muladdc_rep_add [of core b k "i - k" st] that by simp
  qed
  show ?case
    using e [of 16] e [of 8] e [of 1] by (subst mul_row.simps) auto
qed

lemma mul_carry_spec:
  assumes "nval ds + uint c < BB ^ length ds" "ds \<noteq> []"
  shows "\<exists>r. mul_carry ds c = Some r \<and> length r = length ds \<and> nval r = nval ds + uint c"
  using assms
proof (induction ds arbitrary: c)
  case (Cons d ds)
  let ?z = "of_bool (d + c < c) :: t_int"
  have ac: "uint (d + c) + BB * uint ?z = uint d + uint c"
    using uint_add_carry by simp
  show ?case
  proof (cases "d + c < c")
    case False
    with ac show ?thesis by (simp add: Let_def)
  next
    case True
    have "uint (d + c) + BB * (1 + nval ds) < BB * BB ^ length ds"
      using Cons.prems(1) ac True unfolding distrib_left nval.simps list.size power_Suc by simp
    then have "BB * (1 + nval ds) < BB * BB ^ length ds"
      using uint_limb_bounds(1) [of "d + c"] by linarith
    then have l: "nval ds + uint ?z < BB ^ length ds" using True by simp
    have "ds \<noteq> []"
    proof
      assume "ds = []"
      with l True show False by simp
    qed
    with Cons.IH [OF l] obtain r where "mul_carry ds ?z = Some r" "length r = length ds"
        "nval r = nval ds + uint ?z"
      by blast
    with True ac show ?thesis by (simp add: Let_def)
  qed
qed simp

locale muladdc =
  fixes core :: "t_int \<Rightarrow> t_int \<Rightarrow> t_int \<Rightarrow> t_int \<Rightarrow> t_int \<times> t_int"
  assumes core_exact:
    "uint (fst (core b w d c)) + BB * uint (snd (core b w d c)) = uint w * uint b + uint d + uint c"
begin

lemma muladdc_rep_spec:
  assumes "k \<le> length ss" "k \<le> length ds"
  shows "\<exists>done' c'. muladdc_rep core b k (out, ss, ds, c) = Some (out @ done', drop k ss, drop k ds, c') \<and>
           length done' = k \<and>
           nval done' + BB ^ k * uint c' = nval (take k ds) + nval (take k ss) * uint b + uint c"
  using assms
proof (induction k arbitrary: out ss ds c)
  case (Suc k)
  from Suc.prems obtain w ss' d ds' where l: "ss = w # ss'" "ds = d # ds'"
    by (cases ss; cases ds) auto
  let ?r0 = "fst (core b w d c)" and ?r1 = "snd (core b w d c)"
  from Suc.prems l obtain done' c' where r:
    "muladdc_rep core b k (out @ [?r0], ss', ds', ?r1) =
       Some ((out @ [?r0]) @ done', drop k ss', drop k ds', c')"
    "length done' = k"
    "nval done' + BB ^ k * uint c' = nval (take k ds') + nval (take k ss') * uint b + uint ?r1"
    using Suc.IH [of ss' ds' "out @ [?r0]" ?r1] by auto
  have "BB * (nval done' + BB ^ k * uint c') =
      BB * (nval (take k ds') + nval (take k ss') * uint b + uint ?r1)"
    using r(3) by simp
  with core_exact [of b w d c]
  have "uint ?r0 + BB * nval done' + BB * BB ^ k * uint c' =
      uint d + BB * nval (take k ds') + (uint w + BB * nval (take k ss')) * uint b + uint c"
    by (simp add: distrib_left distrib_right mult.assoc)
  with r(1,2) l show ?case
    by (intro exI [of _ "?r0 # done'"] exI [of _ c']) (simp add: case_prod_unfold)
qed simp

lemma mul_hlp_exact:
  assumes "i \<le> length ss" "i < length ds"
    and "nval ds + nval (take i ss) * uint b < BB ^ length ds"
  shows "\<exists>r. mul_hlp_with core i ss ds b = Some r \<and> length r = length ds \<and>
           nval r = nval ds + nval (take i ss) * uint b"
proof -
  obtain done' c' where r: "muladdc_rep core b i ([], ss, ds, 0) = Some (done', drop i ss, drop i ds, c')"
      "length done' = i"
      "nval done' + BB ^ i * uint c' = nval (take i ds) + nval (take i ss) * uint b"
    using muladdc_rep_spec [of i ss ds b "[]" 0] assms by auto
  have td: "nval ds = nval (take i ds) + BB ^ i * nval (drop i ds)"
    using assms nval_take_drop by simp
  have eq: "nval done' + BB ^ i * (nval (drop i ds) + uint c') = nval ds + nval (take i ss) * uint b"
    using r(3) td by (simp add: distrib_left)
  have "BB ^ i * (nval (drop i ds) + uint c') < BB ^ i * BB ^ length (drop i ds)"
    using eq assms nval_nonneg [of done'] by (simp add: power_add [symmetric] del: nval_nonneg)
  then have "nval (drop i ds) + uint c' < BB ^ length (drop i ds)" by simp
  then obtain q where "mul_carry (drop i ds) c' = Some q" "length q = length (drop i ds)"
      "nval q = nval (drop i ds) + uint c'"
    using mul_carry_spec [of "drop i ds" c'] assms(2) by auto
  with r eq assms show ?thesis
    by (simp add: mul_hlp_with_def mul_row_rep nval_append)
qed

end

subsection \<open>The variants of MULADDC\_CORE\<close>

lemma acc_step:
  fixes r0 r1 x :: t_int
  assumes "uint r0 + BB * uint r1 = t" "t + uint x < BB * BB"
  shows "uint (r0 + x) + BB * uint (r1 + of_bool (r0 + x < x)) = t + uint x"
proof -
  let ?k = "of_bool (r0 + x < x) :: int"
  have c: "uint (r0 + x) + BB * ?k = uint r0 + uint x" by (rule uint_add_carry)
  have e: "uint (r0 + x) + BB * (uint r1 + ?k) = t + uint x"
    using assms(1) c by (simp add: distrib_left)
  then have "BB * (uint r1 + ?k) < BB * BB"
    using assms(2) uint_limb_bounds(1) [of "r0 + x"] by linarith
  then have "uint r1 + ?k < BB" by simp
  then have "uint (r1 + of_bool (r0 + x < x)) = uint r1 + ?k"
    by (simp add: uint_word_ariths mod_pos_pos_trivial)
  with e show ?thesis by simp
qed

lemma limb_prod_bound:
  "uint (w :: t_int) * uint (b :: t_int) \<le> 340282366920938463426481119284349108225"
proof -
  have "uint w * uint b \<le> (BB - 1) * (BB - 1)" by (intro mult_mono) simp_all
  then show ?thesis by simp
qed

lemma muladdc_total_bound:
  "uint (w :: t_int) * uint (b :: t_int) + uint (d :: t_int) + uint (c :: t_int) < BB * BB"
  using limb_prod_bound [of w b] uint_limb_le [of d] uint_limb_le [of c] by linarith

lemma uint_wide_prod:
  "uint ((ucast (w :: t_int) :: 128 word) * ucast (b :: t_int)) = uint w * uint b"
proof -
  have "uint w * uint b < 2 ^ 128" "0 \<le> uint w * uint b"
    using limb_prod_bound [of w b] by auto
  moreover have "uint (ucast v :: 128 word) = uint v" for v :: t_int
  proof -
    have "uint v < 2 ^ 128" using uint_limb_bounds(2) [of v] by (rule less_trans) simp
    then show ?thesis by (simp add: unsigned_ucast_eq take_bit_eq_mod mod_pos_pos_trivial)
  qed
  ultimately show ?thesis by (simp add: uint_word_ariths)
qed

lemma wide_halves:
  fixes r :: "128 word"
  shows "uint (ucast r :: t_int) + BB * uint (ucast (drop_bit 64 r) :: t_int) = uint r"
proof -
  have "uint r < 2 ^ 128" using uint_bounded [of r] by simp
  then have "uint r div BB < BB" by (intro int_div_lessI) simp_all
  moreover have "uint (drop_bit 64 r) = uint r div BB"
    by (simp add: drop_bit_eq_div uint_div_distrib)
  moreover from this have "0 \<le> uint r div BB" by (simp add: pos_imp_zdiv_nonneg_iff)
  ultimately show ?thesis
    by (simp add: unsigned_ucast_eq take_bit_eq_mod mod_pos_pos_trivial)
qed

lemma muladdc_longlong_exact:
  "uint (fst (muladdc_longlong b w d c)) + BB * uint (snd (muladdc_longlong b w d c))
     = uint w * uint b + uint d + uint c"
proof -
  let ?r = "(ucast w :: 128 word) * ucast b"
  have "uint (ucast ?r :: t_int) + BB * uint (ucast (drop_bit 64 ?r) :: t_int) = uint w * uint b"
    by (simp only: wide_halves uint_wide_prod)
  note acc_step [OF this, of c]
  then show ?thesis
    using muladdc_total_bound [of w b d c] muladdc_total_bound [of w b 0 c]
    by (simp add: muladdc_longlong_def Let_def acc_step [where t = "uint w * uint b + uint c"])
qed

lemma carry_flag: "(BB \<le> uint a + uint b) = (a + b < (b :: t_int))"
proof (cases "a + b < b")
  case True
  with uint_add_carry [of a b] have "uint a + uint b = uint (a + b) + BB" by simp
  with True uint_limb_bounds(1) [of "a + b"] show ?thesis by linarith
next
  case False
  with uint_add_carry [of a b] have "uint a + uint b = uint (a + b)" by simp
  with False uint_limb_bounds(2) [of "a + b"] show ?thesis by linarith
qed

lemma carry_flag_commute: "(a + b < (a :: t_int)) = (a + b < b)"
  using carry_flag [of a b] carry_flag [of b a] by (simp add: add.commute)

lemma muladdc_amd64_eq: "muladdc_amd64 b w d c = muladdc_longlong b w d c"
  by (simp add: muladdc_amd64_def muladdc_longlong_def Let_def carry_flag carry_flag_commute
      add.commute [of d])

lemma half_limbs:
  fixes w :: t_int
  shows "uint (drop_bit 32 (push_bit 32 w)) = uint w mod 2 ^ 32"
    "uint (drop_bit 32 w) = uint w div 2 ^ 32"
    "uint (push_bit 32 w) = 2 ^ 32 * (uint w mod 2 ^ 32)"
proof -
  show "uint (drop_bit 32 w) = uint w div 2 ^ 32"
    by (simp add: drop_bit_eq_div uint_div_distrib)
  have "uint (push_bit 32 w) = (uint w * 2 ^ 32) mod (2 ^ 32 * 2 ^ 32)"
    by (simp add: push_bit_eq_mult uint_word_ariths)
  also have "\<dots> = 2 ^ 32 * (uint w mod 2 ^ 32)"
    by (simp only: mult.commute [of "uint w"] mod_mult_mult1)
  finally show 1: "uint (push_bit 32 w) = 2 ^ 32 * (uint w mod 2 ^ 32)" .
  then show "uint (drop_bit 32 (push_bit 32 w)) = uint w mod 2 ^ 32"
    by (simp add: drop_bit_eq_div uint_div_distrib)
qed

lemma uint_half_prod:
  assumes "uint (a :: t_int) < 2 ^ 32" "uint b < 2 ^ 32"
  shows "uint (a * b) = uint a * uint b" "uint a * uint b \<le> (2 ^ 32 - 1) * (2 ^ 32 - 1)"
proof -
  show b: "uint a * uint b \<le> (2 ^ 32 - 1) * (2 ^ 32 - 1)"
    using assms by (intro mult_mono) simp_all
  then show "uint (a * b) = uint a * uint b"
    by (simp add: uint_word_ariths mod_pos_pos_trivial)
qed

lemma muladdc_generic_exact:
  "uint (fst (muladdc_generic b w d c)) + BB * uint (snd (muladdc_generic b w d c))
     = uint w * uint b + uint d + uint c"
proof -
  define b0 b1 s0 s1 where
    "b0 = drop_bit 32 (push_bit 32 b)" and "b1 = drop_bit 32 b" and
    "s0 = drop_bit 32 (push_bit 32 w)" and "s1 = drop_bit 32 w"
  define rx ry where "rx = s0 * b1" and "ry = s1 * b0"
  define r1 where "r1 = s1 * b1 + drop_bit 32 rx + drop_bit 32 ry"
  define t0 where "t0 = uint (s0 * b0) + BB * uint r1"
  have half: "uint b0 < 2 ^ 32" "uint b1 < 2 ^ 32" "uint s0 < 2 ^ 32" "uint s1 < 2 ^ 32"
    by (simp_all add: half_limbs b0_def b1_def s0_def s1_def int_div_lessI)
  have split: "uint b = 2 ^ 32 * uint b1 + uint b0" "uint w = 2 ^ 32 * uint s1 + uint s0"
    by (simp_all add: half_limbs b0_def b1_def s0_def s1_def)
  note pr = uint_half_prod [OF half(3) half(1)] uint_half_prod [OF half(4) half(2)]
    uint_half_prod [OF half(3) half(2), folded rx_def] uint_half_prod [OF half(4) half(1), folded ry_def]
  have xy: "uint rx div 2 ^ 32 < 2 ^ 32" "uint ry div 2 ^ 32 < 2 ^ 32"
    by (simp_all add: int_div_lessI)
  have "uint (s1 * b1) + uint rx div 2 ^ 32 + uint ry div 2 ^ 32 < BB"
    using xy pr(3,4) by simp
  then have "(uint s1 * uint b1 + uint rx div 2 ^ 32 + uint ry div 2 ^ 32) mod BB =
      uint s1 * uint b1 + uint rx div 2 ^ 32 + uint ry div 2 ^ 32"
    using pr(3) by (intro mod_pos_pos_trivial) (simp_all add: pos_imp_zdiv_nonneg_iff)
  then have r1: "uint r1 = uint s1 * uint b1 + uint rx div 2 ^ 32 + uint ry div 2 ^ 32"
    by (simp add: r1_def uint_word_ariths half_limbs mod_simps)
  have dm: "4294967296 * (uint v mod 4294967296) + BB * (uint v div 4294967296) = 4294967296 * uint v"
    for v :: t_int
    using mod_mult_div_eq [of "uint v" 4294967296] by linarith
  have sum: "t0 + uint (push_bit 32 rx) + uint (push_bit 32 ry) = uint w * uint b"
    using dm [of rx] dm [of ry] pr(1,5,7)
    by (simp add: t0_def r1 half_limbs(3) split algebra_simps)
  have tb: "t0 + uint (push_bit 32 rx) + uint (push_bit 32 ry) + uint c + uint d < BB * BB"
    using muladdc_total_bound [of w b d c] sum by simp
  have nn: "0 \<le> uint (push_bit 32 rx)" "0 \<le> uint (push_bit 32 ry)" "0 \<le> uint c" "0 \<le> uint d"
    by simp_all
  note a1 = acc_step [OF t0_def [symmetric], of "push_bit 32 rx"]
  note a2 = acc_step [OF a1, of "push_bit 32 ry"]
  note a3 = acc_step [OF a2, of c]
  note a4 = acc_step [OF a3, of d]
  show ?thesis
    unfolding muladdc_generic_def Let_def fst_conv snd_conv b0_def [symmetric] b1_def [symmetric]
      s0_def [symmetric] s1_def [symmetric] rx_def [symmetric] ry_def [symmetric] r1_def [symmetric]
    by (rule trans [OF a4]) (use tb nn sum in linarith)+
qed

interpretation generic: muladdc muladdc_generic
  by unfold_locales (rule muladdc_generic_exact)

interpretation longlong: muladdc muladdc_longlong
  by unfold_locales (rule muladdc_longlong_exact)

interpretation amd64: muladdc muladdc_amd64
  by unfold_locales (simp add: muladdc_amd64_eq muladdc_longlong_exact)

lemmas mpi_mul_hlp_spec = generic.mul_hlp_exact [folded mpi_mul_hlp_def]

end
