(* ===== verification/Mpi_Base.thy ===== *)
theory Mpi_Base
  imports CStore Limbs
begin

text \<open>
  Storage and comparison of multi-precision integers: \<open>mpi_init\<close>, \<open>mpi_free\<close>,
  \<open>mpi_grow\<close>, \<open>mpi_copy\<close>, \<open>mpi_swap\<close>, \<open>mpi_lset\<close>, \<open>mpi_cmp_abs\<close>,
  \<open>mpi_cmp_mpi\<close>, \<open>mpi_cmp_int\<close> of \<open>libsparkle/crypto/bignum.c\<close>.

  \<open>mval X\<close> is the integer a struct denotes. \<open>wf X\<close> says the sign field is 1 or -1.
  Each operation has one rule for \<open>ok\<close> (named after it, with suffix \<open>_ok\<close>) that
  gives the cells it writes and what is known of the value written.
\<close>

definition mval :: "mpi \<Rightarrow> int" where
  "mval X = mpi_s X * nval (mpi_p X)"

definition wf :: "mpi \<Rightarrow> bool" where
  "wf X \<longleftrightarrow> mpi_s X = 1 \<or> mpi_s X = - 1"

subsection \<open>Definitions\<close>

text \<open>The return codes of \<open>bignum.h\<close>; 0 is success and 1 a failed allocation.\<close>

abbreviation (input) POLARSSL_ERR_MPI_FILE_IO_ERROR :: int where "POLARSSL_ERR_MPI_FILE_IO_ERROR \<equiv> 2"
abbreviation (input) POLARSSL_ERR_MPI_BAD_INPUT_DATA :: int where "POLARSSL_ERR_MPI_BAD_INPUT_DATA \<equiv> 4"
abbreviation (input) POLARSSL_ERR_MPI_INVALID_CHARACTER :: int where "POLARSSL_ERR_MPI_INVALID_CHARACTER \<equiv> 6"
abbreviation (input) POLARSSL_ERR_MPI_BUFFER_TOO_SMALL :: int where "POLARSSL_ERR_MPI_BUFFER_TOO_SMALL \<equiv> 8"
abbreviation (input) POLARSSL_ERR_MPI_NEGATIVE_VALUE :: int where "POLARSSL_ERR_MPI_NEGATIVE_VALUE \<equiv> 10"
abbreviation (input) POLARSSL_ERR_MPI_DIVISION_BY_ZERO :: int where "POLARSSL_ERR_MPI_DIVISION_BY_ZERO \<equiv> 12"
abbreviation (input) POLARSSL_ERR_MPI_NOT_ACCEPTABLE :: int where "POLARSSL_ERR_MPI_NOT_ACCEPTABLE \<equiv> 14"

definition mpi_init :: "addr \<Rightarrow> unit cm" where
  "mpi_init x = wr x \<lparr>mpi_s = 1, mpi_p = []\<rparr>"

definition mpi_free :: "addr \<Rightarrow> unit cm" where
  "mpi_free x = wr x \<lparr>mpi_s = 1, mpi_p = []\<rparr>"

definition mpi_grow :: "addr \<Rightarrow> nat \<Rightarrow> unit cm" where
  "mpi_grow x nblimbs =
     bindc (rd x) (\<lambda>X.
       if mpi_n X < nblimbs
       then bindc malloc (\<lambda>success.
              if \<not> success then throw 1
              else wr x (X\<lparr>mpi_p := mpi_p X @ replicate (nblimbs - mpi_n X) 0\<rparr>))
       else ret ())"

text \<open>
  \<open>for( i = Y->n - 1; i > 0; i-- ) if( Y->p[i] != 0 ) break; i++;\<close> stops at index 0:
  at least one limb is copied, unless there is none.
\<close>

definition copy_limbs :: "t_int list \<Rightarrow> nat" where
  "copy_limbs ws = (if ws = [] then 0 else max 1 (sig_limbs ws))"

definition mpi_copy :: "addr \<Rightarrow> addr \<Rightarrow> unit cm" where
  "mpi_copy x y =
     (if x = y then ret ()
      else bindc (rd y) (\<lambda>Y. let i = copy_limbs (mpi_p Y) in
        bindc (rd x) (\<lambda>X. seqc (wr x (X\<lparr>mpi_s := mpi_s Y\<rparr>))
          (seqc (mpi_grow x i)
            (bindc (rd x) (\<lambda>X.
              wr x (X\<lparr>mpi_p := take i (mpi_p Y) @ replicate (mpi_n X - i) 0\<rparr>)))))))"

definition mpi_swap :: "addr \<Rightarrow> addr \<Rightarrow> unit cm" where
  "mpi_swap x y =
     bindc (rd x) (\<lambda>T. bindc (rd y) (\<lambda>Y. seqc (wr x Y) (wr y T)))"

text \<open>
  The magnitude and sign of a C \<open>int\<close>: \<open>( z < 0 ) ? -z : z\<close>, undefined for \<open>INT_MIN\<close>
  whose negation overflows.
\<close>

definition int_mag :: "int \<Rightarrow> t_int option" where
  "int_mag z = (if - (2 ^ 31) < z \<and> z < 2 ^ 31 then Some (word_of_int \<bar>z\<bar>) else None)"

definition int_sign :: "int \<Rightarrow> int" where
  "int_sign z = (if z < 0 then - 1 else 1)"

definition mpi_lset :: "addr \<Rightarrow> int \<Rightarrow> unit cm" where
  "mpi_lset x z =
     seqc (mpi_grow x 1)
       (bindc (rd x) (\<lambda>X. bindc (defd (int_mag z)) (\<lambda>m.
          wr x (X\<lparr>mpi_p := (replicate (mpi_n X) 0)[0 := m], mpi_s := int_sign z\<rparr>))))"

text \<open>The final loop of the comparisons: \<open>for( ; i >= 0; i-- )\<close> from index \<open>k - 1\<close>.\<close>

fun cmp_limbs :: "t_int list \<Rightarrow> t_int list \<Rightarrow> nat \<Rightarrow> int" where
  "cmp_limbs xs ys 0 = 0"
| "cmp_limbs xs ys (Suc i) =
     (if xs ! i > ys ! i then 1 else if xs ! i < ys ! i then - 1 else cmp_limbs xs ys i)"

definition mpi_cmp_abs :: "mpi \<Rightarrow> mpi \<Rightarrow> int" where
  "mpi_cmp_abs X Y =
     (let i = sig_limbs (mpi_p X); j = sig_limbs (mpi_p Y) in
      if i = 0 \<and> j = 0 then 0
      else if i > j then 1
      else if j > i then - 1
      else cmp_limbs (mpi_p X) (mpi_p Y) i)"

definition mpi_cmp_mpi :: "mpi \<Rightarrow> mpi \<Rightarrow> int" where
  "mpi_cmp_mpi X Y =
     (let i = sig_limbs (mpi_p X); j = sig_limbs (mpi_p Y) in
      if i = 0 \<and> j = 0 then 0
      else if i > j then mpi_s X
      else if j > i then - mpi_s X
      else if mpi_s X > 0 \<and> mpi_s Y < 0 then 1
      else if mpi_s Y > 0 \<and> mpi_s X < 0 then - 1
      else mpi_s X * cmp_limbs (mpi_p X) (mpi_p Y) i)"

definition int_mpi :: "int \<Rightarrow> mpi option" where
  "int_mpi z = map_option (\<lambda>m. \<lparr>mpi_s = int_sign z, mpi_p = [m]\<rparr>) (int_mag z)"

definition mpi_cmp_int :: "mpi \<Rightarrow> int \<Rightarrow> int option" where
  "mpi_cmp_int X z = map_option (mpi_cmp_mpi X) (int_mpi z)"

subsection \<open>Comparison\<close>

lemma nval_pos: "nval ws \<noteq> 0 \<Longrightarrow> 0 < nval ws"
  using nval_nonneg [of ws] by linarith

lemma nval_take_Suc: "i < length ws \<Longrightarrow> nval (take (Suc i) ws) = nval (take i ws) + BB ^ i * uint (ws ! i)"
  by (simp add: take_Suc_conv_app_nth nval_append)

lemma sgn_top:
  fixes a b u v :: int
  assumes "0 \<le> a" "a < m" "0 \<le> b" "b < m"
  shows "sgn (a + m * u - (b + m * v)) = (if u > v then 1 else if u < v then - 1 else sgn (a - b))"
proof -
  have "a + m * u - (b + m * v) > 0" if "u > v"
  proof -
    have "m * (v + 1) \<le> m * u" using that assms by (intro mult_left_mono) auto
    with assms show ?thesis by (simp add: distrib_left)
  qed
  moreover have "a + m * u - (b + m * v) < 0" if "u < v"
  proof -
    have "m * (u + 1) \<le> m * v" using that assms by (intro mult_left_mono) auto
    with assms show ?thesis by (simp add: distrib_left)
  qed
  ultimately show ?thesis by (cases u v rule: linorder_cases) auto
qed

lemma cmp_limbs_sgn:
  "k \<le> length xs \<Longrightarrow> k \<le> length ys \<Longrightarrow>
   cmp_limbs xs ys k = sgn (nval (take k xs) - nval (take k ys))"
proof (induction k)
  case (Suc k)
  have "nval (take k xs) < BB ^ k" "nval (take k ys) < BB ^ k"
    using nval_less [of "take k xs"] nval_less [of "take k ys"] Suc.prems by auto
  with Suc show ?case
    by (simp add: nval_take_Suc sgn_top word_less_def)
qed simp

lemma nval_less_iff_sig: "sig_limbs xs < sig_limbs ys \<Longrightarrow> nval xs < nval ys"
proof -
  assume l: "sig_limbs xs < sig_limbs ys"
  then have "BB ^ sig_limbs xs \<le> BB ^ (sig_limbs ys - 1)" by (simp add: power_increasing)
  with nval_less_sig [of xs] nval_ge_sig [of ys] l show ?thesis by linarith
qed

lemma cmp_sig_limbs:
  "sig_limbs xs = sig_limbs ys \<Longrightarrow> cmp_limbs xs ys (sig_limbs xs) = sgn (nval xs - nval ys)"
  using sig_limbs_le [of xs] sig_limbs_le [of ys]
  by (simp add: cmp_limbs_sgn nval_take_sig)

lemma mpi_cmp_abs_sgn: "mpi_cmp_abs X Y = sgn (nval (mpi_p X) - nval (mpi_p Y))"
proof (cases "sig_limbs (mpi_p X)" "sig_limbs (mpi_p Y)" rule: linorder_cases)
  case less
  then show ?thesis using nval_less_iff_sig by (auto simp: mpi_cmp_abs_def)
next
  case greater
  then show ?thesis using nval_less_iff_sig by (auto simp: mpi_cmp_abs_def)
next
  case equal
  then show ?thesis using cmp_sig_limbs [OF equal]
    by (auto simp: mpi_cmp_abs_def Let_def sig_limbs_eq_0_iff [THEN iffD1])
qed

text \<open>
  The signed comparison is right whenever the signs agree or the second operand has no more
  significant limbs than the first. (With fewer limbs in \<open>X\<close> the code returns
  \<open>- X->s\<close>, which is the wrong answer when the signs differ.)
\<close>

lemma mpi_cmp_mpi_sgn:
  assumes "wf X" "wf Y"
    and "mpi_s X = mpi_s Y \<or> sig_limbs (mpi_p Y) \<le> sig_limbs (mpi_p X)"
  shows "mpi_cmp_mpi X Y = sgn (mval X - mval Y)"
proof -
  let ?x = "nval (mpi_p X)" and ?y = "nval (mpi_p Y)"
  have nn: "0 \<le> ?x" "0 \<le> ?y" by simp_all
  show ?thesis
  proof (cases "sig_limbs (mpi_p X)" "sig_limbs (mpi_p Y)" rule: linorder_cases)
    case less
    with assms(3) nval_less_iff_sig [OF less] assms(1) show ?thesis
      by (auto simp: mpi_cmp_mpi_def mval_def wf_def)
  next
    case greater
    then have "?y < ?x" "0 < ?x + ?y" using nval_less_iff_sig [OF greater] nn by linarith+
    with greater assms(1,2) show ?thesis
      by (auto simp: mpi_cmp_mpi_def mval_def wf_def sgn_if)
  next
    case equal
    show ?thesis
    proof (cases "sig_limbs (mpi_p X) = 0")
      case True
      with equal have "?x = 0" "?y = 0" by (simp_all add: sig_limbs_eq_0_iff)
      with True equal show ?thesis by (simp add: mpi_cmp_mpi_def mval_def)
    next
      case False
      with equal have "0 < ?x" "0 < ?y"
        by (auto intro!: nval_pos simp: sig_limbs_eq_0_iff [symmetric])
      then have "0 < ?x + ?y" "sgn (?x + ?y) = 1" by simp_all
      with False equal assms(1,2) cmp_sig_limbs [OF equal] show ?thesis
        by (auto simp: mpi_cmp_mpi_def mval_def wf_def sgn_if)
    qed
  qed
qed

lemma int_mag_Some: "- (2 ^ 31) < z \<Longrightarrow> z < 2 ^ 31 \<Longrightarrow> int_mag z = Some (word_of_int \<bar>z\<bar>)"
  by (simp add: int_mag_def)

lemma uint_int_mag:
  "- (2 ^ 31) < z \<Longrightarrow> z < 2 ^ 31 \<Longrightarrow> uint (word_of_int \<bar>z\<bar> :: t_int) = \<bar>z\<bar>"
  by (simp add: uint_word_of_int)

lemma int_mpi_Some:
  assumes "- (2 ^ 31) < z" "z < 2 ^ 31"
  shows "int_mpi z = Some \<lparr>mpi_s = int_sign z, mpi_p = [word_of_int \<bar>z\<bar>]\<rparr>"
  using assms by (simp add: int_mpi_def int_mag_Some)

lemma int_mpi_val:
  assumes "- (2 ^ 31) < z" "z < 2 ^ 31"
  shows "mval \<lparr>mpi_s = int_sign z, mpi_p = [word_of_int \<bar>z\<bar>]\<rparr> = z"
    "wf \<lparr>mpi_s = int_sign z, mpi_p = [word_of_int \<bar>z\<bar>]\<rparr>"
  using assms by (simp_all add: mval_def wf_def int_sign_def uint_int_mag)

lemma sig_limbs_single: "sig_limbs [w] = (if w = 0 then 0 else 1)"
  by (simp add: sig_limbs_def)

lemma mpi_cmp_int_0: "wf X \<Longrightarrow> mpi_cmp_int X 0 = Some (sgn (mval X))"
  using mpi_cmp_mpi_sgn [of X "\<lparr>mpi_s = 1, mpi_p = [0]\<rparr>"]
  by (simp add: mpi_cmp_int_def int_mpi_def int_mag_def int_sign_def wf_def sig_limbs_single)
     (simp add: mval_def)

lemma mpi_cmp_int_pos:
  assumes "mpi_s X = 1" "0 \<le> z" "z < 2 ^ 31"
  shows "mpi_cmp_int X z = Some (sgn (mval X - z))"
  using mpi_cmp_mpi_sgn [of X "\<lparr>mpi_s = int_sign z, mpi_p = [word_of_int \<bar>z\<bar>]\<rparr>"]
    assms int_mpi_val [of z]
  by (simp add: mpi_cmp_int_def int_mpi_Some wf_def int_sign_def)

subsection \<open>Store operations\<close>

lemma mpi_upd_eq [simp]: "X\<lparr>mpi_s := a, mpi_p := b\<rparr> = \<lparr>mpi_s = a, mpi_p = b\<rparr>"
  "X\<lparr>mpi_p := b, mpi_s := a\<rparr> = \<lparr>mpi_s = a, mpi_p = b\<rparr>"
  by (cases X, simp)+

definition grown :: "nat \<Rightarrow> mpi \<Rightarrow> mpi" where
  "grown k X = X\<lparr>mpi_p := mpi_p X @ replicate (k - mpi_n X) 0\<rparr>"

lemma grown_simps [simp]:
  "mpi_s (grown k X) = mpi_s X" "mpi_n (grown k X) = max (mpi_n X) k"
  "nval (mpi_p (grown k X)) = nval (mpi_p X)" "mval (grown k X) = mval X"
  "wf (grown k X) = wf X"
  by (auto simp: grown_def nval_append mval_def wf_def)

lemma grown_id: "k \<le> mpi_n X \<Longrightarrow> grown k X = X"
  by (simp add: grown_def)

lemma mpi_grow_ok [wp]:
  "oom \<sigma> = [] \<Longrightarrow> ok (mpi_grow x k) \<sigma> Q \<longleftrightarrow> Q () (put x (grown k (heap \<sigma> x)) \<sigma>)"
  by (simp add: mpi_grow_def wp grown_def)

lemma copy_limbs_le [simp]: "copy_limbs ws \<le> length ws"
  using sig_limbs_le [of ws] by (cases ws) (auto simp: copy_limbs_def)

lemma nval_take_copy_limbs [simp]: "nval (take (copy_limbs ws) ws) = nval ws"
  by (rule nval_take_sig) (simp add: copy_limbs_def sig_limbs_def)

definition copied :: "mpi \<Rightarrow> mpi \<Rightarrow> mpi" where
  "copied X Y = \<lparr>mpi_s = mpi_s Y, mpi_p = take (copy_limbs (mpi_p Y)) (mpi_p Y) @
     replicate (mpi_n X - copy_limbs (mpi_p Y)) 0\<rparr>"

lemma copied_simps [simp]:
  "mpi_s (copied X Y) = mpi_s Y" "mpi_n (copied X Y) = max (mpi_n X) (copy_limbs (mpi_p Y))"
  "nval (mpi_p (copied X Y)) = nval (mpi_p Y)" "mval (copied X Y) = mval Y"
  "wf (copied X Y) = wf Y"
  by (auto simp: copied_def nval_append mval_def wf_def)

lemma mpi_copy_ok [wp]:
  assumes "oom \<sigma> = []"
  shows "ok (mpi_copy x y) \<sigma> Q \<longleftrightarrow>
     (if x = y then Q () \<sigma> else Q () (put x (copied (heap \<sigma> x) (heap \<sigma> y)) \<sigma>))"
proof -
  have "a + (b - a) - b = a - b" for a b :: nat by simp
  with assms show ?thesis
    by (auto simp: mpi_copy_def wp Let_def grown_def copied_def)
qed

lemma mpi_swap_ok [wp]:
  "ok (mpi_swap x y) \<sigma> Q \<longleftrightarrow> Q () (put y (heap \<sigma> x) (put x (heap \<sigma> y) \<sigma>))"
  by (simp add: mpi_swap_def wp)

definition lset_val :: "nat \<Rightarrow> int \<Rightarrow> mpi" where
  "lset_val k z = \<lparr>mpi_s = int_sign z, mpi_p = word_of_int \<bar>z\<bar> # replicate (k - 1) 0\<rparr>"

lemma lset_val_simps [simp]:
  "mpi_s (lset_val k z) = int_sign z" "mpi_n (lset_val k z) = max k 1" "wf (lset_val k z)"
  "mpi_p (lset_val k z) \<noteq> []"
  by (auto simp: lset_val_def wf_def int_sign_def)

lemma mval_lset_val:
  "- (2 ^ 31) < z \<Longrightarrow> z < 2 ^ 31 \<Longrightarrow> nval (mpi_p (lset_val k z)) = \<bar>z\<bar>"
  "- (2 ^ 31) < z \<Longrightarrow> z < 2 ^ 31 \<Longrightarrow> mval (lset_val k z) = z"
  by (auto simp: lset_val_def mval_def int_sign_def uint_int_mag)

lemma mpi_lset_ok [wp]:
  assumes "oom \<sigma> = []" "- (2 ^ 31) < z" "z < 2 ^ 31"
  shows "ok (mpi_lset x z) \<sigma> Q \<longleftrightarrow> Q () (put x (lset_val (mpi_n (heap \<sigma> x)) z) \<sigma>)"
proof -
  have "(replicate (max (mpi_n X) 1) 0)[0 := m] = m # replicate (mpi_n X - 1) 0" for X :: mpi and m :: t_int
    by (cases "mpi_n X") (auto simp: max_def)
  with assms show ?thesis
    by (simp add: mpi_lset_def wp int_mag_Some lset_val_def)
qed

end
