(* ===== verification/Mpi_AddSub.thy ===== *)
theory Mpi_AddSub
  imports Mpi_Base
begin

text \<open>
  Addition and subtraction: \<open>mpi_add_abs\<close>, \<open>mpi_sub_abs\<close>, \<open>mpi_add_mpi\<close>,
  \<open>mpi_sub_mpi\<close>, \<open>mpi_add_int\<close>, \<open>mpi_sub_int\<close>.

  The results are exact for every aliasing of the three pointers but one: with
  \<open>X == A == B\<close> the loop of \<open>mpi_add_abs\<close> reads the limb it has just written and
  loses carries (\<open>add_loop_same\<close>).
\<close>

subsection \<open>Definitions\<close>

definition set_s :: "addr \<Rightarrow> int \<Rightarrow> unit cm" where
  "set_s x z = bindc (rd x) (\<lambda>X. wr x (X\<lparr>mpi_s := z\<rparr>))"

definition set_p :: "addr \<Rightarrow> t_int list \<Rightarrow> unit cm" where
  "set_p x ws = bindc (rd x) (\<lambda>X. wr x (X\<lparr>mpi_p := ws\<rparr>))"

text \<open>The loop of \<open>add_loop\<close> when \<open>o\<close> and \<open>p\<close> point to the same array.\<close>

fun add_loop_same :: "nat \<Rightarrow> t_int list \<Rightarrow> t_int \<Rightarrow> (t_int list \<times> t_int) option" where
  "add_loop_same 0 ps c = Some (ps, c)"
| "add_loop_same (Suc j) [] c = None"
| "add_loop_same (Suc j) (q # ps) c =
     (let q1 = q + c; c1 = of_bool (q1 < c);
          q2 = q1 + q1; c2 = c1 + of_bool (q2 < q2)
      in map_option (\<lambda>(ps', c'). (q2 # ps', c')) (add_loop_same j ps c2))"

text \<open>\<open>while( c != 0 )\<close>: propagate the carry, one limb more when the array is used up.\<close>

definition add_carry :: "addr \<Rightarrow> nat \<times> t_int \<Rightarrow> unit cm" where
  "add_carry x ic =
     seqc (whilec (\<lambda>(i, c) _. Some (c \<noteq> 0))
       (\<lambda>(i, c). bindc (rd x) (\<lambda>X.
          seqc (if i \<ge> mpi_n X then mpi_grow x (i + 1) else ret ())
            (bindc (rd x) (\<lambda>X. let w = mpi_p X ! i + c in
              seqc (set_p x ((mpi_p X)[i := w])) (ret (i + 1, of_bool (w < c)))))))
       ic) (ret ())"

text \<open>\<open>mpi_add_abs\<close> from \<open>X->s = 1\<close> on.\<close>

definition add_abs_tail :: "addr \<Rightarrow> addr \<Rightarrow> unit cm" where
  "add_abs_tail x b =
     seqc (set_s x 1)
       (bindc (rd b) (\<lambda>B. let j = sig_limbs (mpi_p B) in
         seqc (mpi_grow x j)
           (bindc (rd x) (\<lambda>X.
             bindc (defd (if x = b then add_loop_same j (mpi_p X) 0
                          else add_loop (take j (mpi_p B)) (mpi_p X) 0)) (\<lambda>pc.
               seqc (set_p x (fst pc)) (add_carry x (j, snd pc)))))))"

definition mpi_add_abs :: "addr \<Rightarrow> addr \<Rightarrow> addr \<Rightarrow> unit cm" where
  "mpi_add_abs x a0 b0 =
     (let a = (if x = b0 then x else a0); b = (if x = b0 then a0 else b0) in
      seqc (if x \<noteq> a then mpi_copy x a else ret ()) (add_abs_tail x b))"

definition mpi_sub_abs :: "addr \<Rightarrow> addr \<Rightarrow> addr \<Rightarrow> unit cm" where
  "mpi_sub_abs x a b0 =
     bindc (rd a) (\<lambda>A. bindc (rd b0) (\<lambda>B0.
       if mpi_cmp_abs A B0 < 0 then throw POLARSSL_ERR_MPI_NEGATIVE_VALUE
       else locals 1 (\<lambda>tb. let b = (if x = b0 then tb else b0) in
         seqc (if x = b0 then mpi_copy tb b0 else ret ())
           (seqc (if x \<noteq> a then mpi_copy x a else ret ())
             (seqc (set_s x 1)
               (bindc (rd b) (\<lambda>B. bindc (rd x) (\<lambda>X.
                 bindc (defd (mpi_sub_hlp (sig_limbs (mpi_p B)) (mpi_p B) (mpi_p X)))
                   (set_p x)))))))))"

definition mpi_add_mpi :: "addr \<Rightarrow> addr \<Rightarrow> addr \<Rightarrow> unit cm" where
  "mpi_add_mpi x a b =
     bindc (rd a) (\<lambda>A. bindc (rd b) (\<lambda>B.
       if mpi_s A * mpi_s B < 0
       then if mpi_cmp_abs A B \<ge> 0
            then seqc (mpi_sub_abs x a b) (set_s x (mpi_s A))
            else seqc (mpi_sub_abs x b a) (set_s x (- mpi_s A))
       else seqc (mpi_add_abs x a b) (set_s x (mpi_s A))))"

definition mpi_sub_mpi :: "addr \<Rightarrow> addr \<Rightarrow> addr \<Rightarrow> unit cm" where
  "mpi_sub_mpi x a b =
     bindc (rd a) (\<lambda>A. bindc (rd b) (\<lambda>B.
       if mpi_s A * mpi_s B > 0
       then if mpi_cmp_abs A B \<ge> 0
            then seqc (mpi_sub_abs x a b) (set_s x (mpi_s A))
            else seqc (mpi_sub_abs x b a) (set_s x (- mpi_s A))
       else seqc (mpi_add_abs x a b) (set_s x (mpi_s A))))"

definition mpi_add_int :: "addr \<Rightarrow> addr \<Rightarrow> int \<Rightarrow> unit cm" where
  "mpi_add_int x a z =
     bindc (defd (int_mpi z)) (\<lambda>B. locals 1 (\<lambda>b. seqc (wr b B) (mpi_add_mpi x a b)))"

definition mpi_sub_int :: "addr \<Rightarrow> addr \<Rightarrow> int \<Rightarrow> unit cm" where
  "mpi_sub_int x a z =
     bindc (defd (int_mpi z)) (\<lambda>B. locals 1 (\<lambda>b. seqc (wr b B) (mpi_sub_mpi x a b)))"

subsection \<open>Properties\<close>

lemma ok_set_s [wp]: "ok (set_s x z) \<sigma> Q \<longleftrightarrow> Q () (put x ((heap \<sigma> x)\<lparr>mpi_s := z\<rparr>) \<sigma>)"
  by (simp add: set_s_def wp)

lemma ok_set_p [wp]: "ok (set_p x z) \<sigma> Q \<longleftrightarrow> Q () (put x ((heap \<sigma> x)\<lparr>mpi_p := z\<rparr>) \<sigma>)"
  by (simp add: set_p_def wp)

lemma carry_step:
  assumes "i < length ws"
  shows "nval (ws[i := ws ! i + c]) + BB ^ Suc i * of_bool (ws ! i + c < c) = nval ws + BB ^ i * uint c"
proof -
  have "uint (ws ! i + c) + BB * of_bool (ws ! i + c < c) = uint (ws ! i) + uint c"
    by (rule uint_add_carry)
  then have "BB ^ i * (uint (ws ! i + c) - uint (ws ! i) + BB * of_bool (ws ! i + c < c)) = BB ^ i * uint c"
    by simp
  with assms show ?thesis by (simp add: nval_update distrib_left)
qed

lemma add_carry_ok:
  assumes "oom \<sigma> = []" "i \<le> mpi_n (heap \<sigma> x)" "uint c \<le> 1"
    and "\<And>ws. nval ws = nval (mpi_p (heap \<sigma> x)) + BB ^ i * uint c \<Longrightarrow>
          mpi_n (heap \<sigma> x) \<le> length ws \<Longrightarrow> Q () (put x ((heap \<sigma> x)\<lparr>mpi_p := ws\<rparr>) \<sigma>)"
  shows "ok (add_carry x (i, c)) \<sigma> Q"
proof -
  let ?X = "heap \<sigma> x"
  let ?I = "\<lambda>(i', c' :: t_int) \<sigma>'. \<exists>ws. \<sigma>' = put x (?X\<lparr>mpi_p := ws\<rparr>) \<sigma> \<and> i' \<le> length ws \<and>
      mpi_n ?X \<le> length ws \<and> uint c' \<le> 1 \<and>
      nval ws + BB ^ i' * uint c' = nval (mpi_p ?X) + BB ^ i * uint c"
  let ?m = "\<lambda>(i', c' :: t_int) \<sigma>'. if c' = 0 then 0 else mpi_n (heap \<sigma>' x) + 2 - i'"
  show ?thesis
    unfolding add_carry_def ok_seqc ok_ret
  proof (rule ok_whilec [where I = ?I and m = ?m])
    show "?I (i, c) \<sigma>" using assms by (auto intro!: exI [of _ "mpi_p ?X"])
  next
    fix v \<sigma>' assume I: "?I v \<sigma>'" and t: "(case v of (i, c) \<Rightarrow> \<lambda>_. Some (c \<noteq> 0)) \<sigma>' = Some True"
    then obtain i' c' ws where v: "v = (i', c')" "c' \<noteq> 0" and \<sigma>': "\<sigma>' = put x (?X\<lparr>mpi_p := ws\<rparr>) \<sigma>"
      and ws: "i' \<le> length ws" "mpi_n ?X \<le> length ws" "uint c' \<le> 1"
        "nval ws + BB ^ i' * uint c' = nval (mpi_p ?X) + BB ^ i * uint c"
      by (cases v) auto
    define us where "us = ws @ replicate (i' + 1 - length ws) 0"
    have us: "i' < length us" "length ws \<le> length us" "nval us = nval ws"
      using ws(1) by (auto simp: us_def nval_append)
    have last: "us ! i' + c' < c' \<Longrightarrow> i' < length ws"
      using ws(1) by (cases "i' = length ws") (auto simp: us_def nth_append)
    have len: "i' < length ws \<Longrightarrow> us = ws" by (simp add: us_def)
    have "nval (us[i' := us ! i' + c']) + BB ^ Suc i' * of_bool (us ! i' + c' < c') =
        nval (mpi_p ?X) + BB ^ i * uint c"
      using carry_step [OF us(1), of c'] us(3) ws(4) by simp
    then show "ok ((case v of (i, c) \<Rightarrow> bindc (rd x) (\<lambda>X.
          seqc (if i \<ge> mpi_n X then mpi_grow x (i + 1) else ret ())
            (bindc (rd x) (\<lambda>X. let w = mpi_p X ! i + c in
              seqc (set_p x ((mpi_p X)[i := w])) (ret (i + 1, of_bool (w < c))))))))
        \<sigma>' (\<lambda>v' \<sigma>''. ?I v' \<sigma>'' \<and> ?m v' \<sigma>'' < ?m v \<sigma>')"
      using us ws v last len assms(1)
      by (auto simp: wp \<sigma>' grown_def us_def Let_def)
  qed (use assms(4) in auto)
qed


lemma add_abs_tail_ok:
  assumes "oom \<sigma> = []" "x \<noteq> b"
    and Q: "\<And>v. mpi_s v = 1 \<Longrightarrow> nval (mpi_p v) = nval (mpi_p (heap \<sigma> x)) + nval (mpi_p (heap \<sigma> b)) \<Longrightarrow>
          mpi_n (heap \<sigma> x) \<le> mpi_n v \<Longrightarrow> Q () (put x v \<sigma>)"
  shows "ok (add_abs_tail x b) \<sigma> Q"
proof -
  let ?X = "heap \<sigma> x" and ?B = "heap \<sigma> b"
  let ?j = "sig_limbs (mpi_p ?B)"
  let ?G = "grown ?j (?X\<lparr>mpi_s := 1\<rparr>)"
  have "?j \<le> mpi_n ?G" "length (take ?j (mpi_p ?B)) = ?j" by simp_all
  then obtain r c where r: "add_loop (take ?j (mpi_p ?B)) (mpi_p ?G) 0 = Some (r, c)"
      "length r = mpi_n ?G" "uint c \<le> 1"
      "nval r + BB ^ ?j * uint c = nval (mpi_p ?X) + nval (mpi_p ?B)"
    using add_loop_spec [of 0 "take ?j (mpi_p ?B)" "mpi_p ?G"] by (auto simp: nval_take_sig)
  show ?thesis
    using assms r
    by (auto simp: wp Let_def add_abs_tail_def intro!: add_carry_ok Q)
qed

lemma mpi_add_abs_ok:
  assumes "oom \<sigma> = []" "\<not> (x = a \<and> x = b)"
    and "\<And>v. mpi_s v = 1 \<Longrightarrow> nval (mpi_p v) = nval (mpi_p (heap \<sigma> a)) + nval (mpi_p (heap \<sigma> b)) \<Longrightarrow>
          mpi_n (heap \<sigma> x) \<le> mpi_n v \<Longrightarrow> Q () (put x v \<sigma>)"
  shows "ok (mpi_add_abs x a b) \<sigma> Q"
  using assms by (auto simp: wp Let_def mpi_add_abs_def add.commute intro!: add_abs_tail_ok)

lemma sub_hlp_sig:
  assumes "nval ys \<le> nval xs"
  shows "\<exists>r. mpi_sub_hlp (sig_limbs ys) ys xs = Some r \<and> length r = length xs \<and>
      nval r = nval xs - nval ys"
  using mpi_sub_hlp_spec [of "sig_limbs ys" ys xs] sig_limbs_mono [OF assms] sig_limbs_le [of xs] assms
  by (simp add: nval_take_sig)

lemma mpi_sub_abs_ok:
  assumes "oom \<sigma> = []" "x < sp \<sigma>" "a < sp \<sigma>" "b < sp \<sigma>"
    and "nval (mpi_p (heap \<sigma> b)) \<le> nval (mpi_p (heap \<sigma> a))"
    and "\<And>v. mpi_s v = 1 \<Longrightarrow> nval (mpi_p v) = nval (mpi_p (heap \<sigma> a)) - nval (mpi_p (heap \<sigma> b)) \<Longrightarrow>
          mpi_n (heap \<sigma> x) \<le> mpi_n v \<Longrightarrow> Q () (put x v \<sigma>)"
  shows "ok (mpi_sub_abs x a b) \<sigma> Q"
proof -
  let ?A = "heap \<sigma> a" and ?B = "heap \<sigma> b" and ?X = "heap \<sigma> x"
  let ?x0 = "if x = a then ?X else copied ?X ?A"
  let ?b0 = "if x = b then copied mpi_zero ?B else ?B"
  have "nval (mpi_p ?b0) \<le> nval (mpi_p ?x0)" using assms(5) by simp
  from sub_hlp_sig [OF this] obtain r where
    r: "mpi_sub_hlp (sig_limbs (mpi_p ?b0)) (mpi_p ?b0) (mpi_p ?x0) = Some r"
      "length r = mpi_n ?x0" "nval r = nval (mpi_p ?A) - nval (mpi_p ?B)"
    by auto
  with assms show ?thesis
    by (auto simp: mpi_sub_abs_def wp Let_def mpi_cmp_abs_sgn)
qed

lemma mval_sign:
  assumes "wf X" "mval X \<noteq> 0"
  shows "mpi_s X = sgn (mval X)"
  using assms nval_pos [of "mpi_p X"] by (auto simp: wf_def mval_def)

lemma mpi_add_mpi_ok:
  assumes "oom \<sigma> = []" "x < sp \<sigma>" "a < sp \<sigma>" "b < sp \<sigma>" "wf (heap \<sigma> a)" "wf (heap \<sigma> b)"
    and "\<not> (x = a \<and> x = b)"
    and Q: "\<And>v. wf v \<Longrightarrow> mval v = mval (heap \<sigma> a) + mval (heap \<sigma> b) \<Longrightarrow>
          (mval v = 0 \<Longrightarrow> mpi_s v = mpi_s (heap \<sigma> a)) \<Longrightarrow>
          mpi_n (heap \<sigma> x) \<le> mpi_n v \<Longrightarrow> Q () (put x v \<sigma>)"
  shows "ok (mpi_add_mpi x a b) \<sigma> Q"
proof -
  let ?A = "heap \<sigma> a" and ?B = "heap \<sigma> b"
  consider "mpi_s ?A * mpi_s ?B < 0" "nval (mpi_p ?B) \<le> nval (mpi_p ?A)"
    | "mpi_s ?A * mpi_s ?B < 0" "nval (mpi_p ?A) < nval (mpi_p ?B)"
    | "mpi_s ?B = mpi_s ?A" "\<not> mpi_s ?A * mpi_s ?B < 0"
    using assms(5,6)
    by (cases "nval (mpi_p ?B) \<le> nval (mpi_p ?A)") (auto simp: wf_def not_le)
  then show ?thesis
  proof cases
    case 1
    with assms show ?thesis
      by (auto simp: mpi_add_mpi_def wp mpi_cmp_abs_sgn wf_def mval_def intro!: mpi_sub_abs_ok Q)
  next
    case 2
    with assms show ?thesis
      by (auto simp: mpi_add_mpi_def wp mpi_cmp_abs_sgn wf_def mval_def intro!: mpi_sub_abs_ok Q)
  next
    case 3
    with assms show ?thesis
      by (auto simp: mpi_add_mpi_def wp wf_def mval_def distrib_left intro!: mpi_add_abs_ok Q)
  qed
qed

lemma mpi_sub_mpi_ok:
  assumes "oom \<sigma> = []" "x < sp \<sigma>" "a < sp \<sigma>" "b < sp \<sigma>" "wf (heap \<sigma> a)" "wf (heap \<sigma> b)"
    and Q: "\<And>v. wf v \<Longrightarrow> mval v = mval (heap \<sigma> a) - mval (heap \<sigma> b) \<Longrightarrow>
          (mval v = 0 \<Longrightarrow> mpi_s v = mpi_s (heap \<sigma> a)) \<Longrightarrow>
          mpi_n (heap \<sigma> x) \<le> mpi_n v \<Longrightarrow> Q () (put x v \<sigma>)"
  shows "ok (mpi_sub_mpi x a b) \<sigma> Q"
proof -
  let ?A = "heap \<sigma> a" and ?B = "heap \<sigma> b"
  consider "mpi_s ?A * mpi_s ?B > 0" "nval (mpi_p ?B) \<le> nval (mpi_p ?A)"
    | "mpi_s ?A * mpi_s ?B > 0" "nval (mpi_p ?A) < nval (mpi_p ?B)"
    | "mpi_s ?B = - mpi_s ?A" "\<not> mpi_s ?A * mpi_s ?B > 0"
    using assms(5,6)
    by (cases "nval (mpi_p ?B) \<le> nval (mpi_p ?A)") (auto simp: wf_def not_le)
  then show ?thesis
  proof cases
    case 1
    with assms show ?thesis
      by (auto simp: mpi_sub_mpi_def wp mpi_cmp_abs_sgn wf_def mval_def intro!: mpi_sub_abs_ok Q)
  next
    case 2
    with assms show ?thesis
      by (auto simp: mpi_sub_mpi_def wp mpi_cmp_abs_sgn wf_def mval_def intro!: mpi_sub_abs_ok Q)
  next
    case 3
    then have "\<not> (x = a \<and> x = b)" using assms(5) by (auto simp: wf_def)
    with 3 assms show ?thesis
      by (auto simp: mpi_sub_mpi_def wp wf_def mval_def distrib_left intro!: mpi_add_abs_ok Q)
  qed
qed

lemma mpi_add_int_ok:
  assumes "oom \<sigma> = []" "x < sp \<sigma>" "a < sp \<sigma>" "wf (heap \<sigma> a)" "- (2 ^ 31) < z" "z < 2 ^ 31"
    and Q: "\<And>v. wf v \<Longrightarrow> mval v = mval (heap \<sigma> a) + z \<Longrightarrow>
          (mval v = 0 \<Longrightarrow> mpi_s v = mpi_s (heap \<sigma> a)) \<Longrightarrow>
          mpi_n (heap \<sigma> x) \<le> mpi_n v \<Longrightarrow> Q () (put x v \<sigma>)"
  shows "ok (mpi_add_int x a z) \<sigma> Q"
  using assms int_mpi_val [OF assms(5,6)]
  by (auto simp: mpi_add_int_def wp int_mpi_Some intro!: mpi_add_mpi_ok)

lemma mpi_sub_int_ok:
  assumes "oom \<sigma> = []" "x < sp \<sigma>" "a < sp \<sigma>" "wf (heap \<sigma> a)" "- (2 ^ 31) < z" "z < 2 ^ 31"
    and Q: "\<And>v. wf v \<Longrightarrow> mval v = mval (heap \<sigma> a) - z \<Longrightarrow>
          (mval v = 0 \<Longrightarrow> mpi_s v = mpi_s (heap \<sigma> a)) \<Longrightarrow>
          mpi_n (heap \<sigma> x) \<le> mpi_n v \<Longrightarrow> Q () (put x v \<sigma>)"
  shows "ok (mpi_sub_int x a z) \<sigma> Q"
  using assms int_mpi_val [OF assms(5,6)]
  by (auto simp: mpi_sub_int_def wp int_mpi_Some intro!: mpi_sub_mpi_ok)

end
