(* ===== verification/Mpi_Shift.thy ===== *)
theory Mpi_Shift
  imports Mpi_AddSub
begin

text \<open>
  Bit counts and shifts: \<open>mpi_lsb\<close>, \<open>mpi_msb\<close>, \<open>mpi_size\<close>, \<open>mpi_shift_l\<close>,
  \<open>mpi_shift_r\<close>.

  \<open>mpi_lsb\<close> is the number of trailing zero bits and \<open>mpi_msb\<close> the bit length of the
  magnitude; a left shift multiplies by a power of two and grows the array when it must, a
  right shift divides the magnitude, rounding towards zero.
\<close>

subsection \<open>Definitions\<close>

definition lsb_bits :: "t_int \<Rightarrow> nat option" where
  "lsb_bits w = find (\<lambda>j. drop_bit j w AND 1 \<noteq> 0) [0..<64]"

fun lsb_loop :: "t_int list \<Rightarrow> nat \<Rightarrow> nat" where
  "lsb_loop [] count = 0"
| "lsb_loop (w # ws) count =
     (case lsb_bits w of Some j \<Rightarrow> count + j | None \<Rightarrow> lsb_loop ws (count + 64))"

definition mpi_lsb :: "mpi \<Rightarrow> nat" where
  "mpi_lsb X = lsb_loop (mpi_p X) 0"

text \<open>\<open>for( j = biL - 1; j >= 0; j-- ) if( ( ( w >> j ) & 1 ) != 0 ) break;\<close> leaves
  \<open>j + 1 = msb_bits w 64\<close>.\<close>

fun msb_bits :: "t_int \<Rightarrow> nat \<Rightarrow> nat" where
  "msb_bits w 0 = 0"
| "msb_bits w (Suc j) = (if drop_bit j w AND 1 \<noteq> 0 then Suc j else msb_bits w j)"

definition mpi_msb :: "mpi \<Rightarrow> nat option" where
  "mpi_msb X =
     (if mpi_p X = [] then None
      else let i = copy_limbs (mpi_p X) - 1 in Some (i * 64 + msb_bits (mpi_p X ! i) 64))"

definition mpi_size :: "mpi \<Rightarrow> nat option" where
  "mpi_size X = map_option (\<lambda>m. (m + 7) div 8) (mpi_msb X)"

definition BITS_TO_LIMBS :: "nat \<Rightarrow> nat" where
  "BITS_TO_LIMBS i = (i + 64 - 1) div 64"

definition CHARS_TO_LIMBS :: "nat \<Rightarrow> nat" where
  "CHARS_TO_LIMBS i = (i + 8 - 1) div 8"

text \<open>The two limb-moving loops of the left shift, from the top limb down.\<close>

definition shl_limbs :: "nat \<Rightarrow> t_int list \<Rightarrow> t_int list" where
  "shl_limbs v0 ws =
     (if v0 > 0
      then fold (\<lambda>i q. q[i := 0]) (rev [0..<min v0 (length ws)])
             (fold (\<lambda>i q. q[i := q ! (i - v0)]) (rev [v0..<length ws]) ws)
      else ws)"

fun shl_bits :: "nat \<Rightarrow> t_int \<Rightarrow> t_int list \<Rightarrow> t_int list" where
  "shl_bits t1 r0 [] = []"
| "shl_bits t1 r0 (w # ws) =
     (let r1 = drop_bit (64 - t1) w in (push_bit t1 w OR r0) # shl_bits t1 r1 ws)"

definition shl_list :: "nat \<Rightarrow> t_int list \<Rightarrow> t_int list" where
  "shl_list count ws =
     (let v0 = count div 64; t1 = count mod 64; us = shl_limbs v0 ws
      in if t1 > 0 then take v0 us @ shl_bits t1 0 (drop v0 us) else us)"

definition mpi_shift_l :: "addr \<Rightarrow> nat \<Rightarrow> unit cm" where
  "mpi_shift_l x count =
      bindc (rd x) (\<lambda>X. bindc (defd (mpi_msb X)) (\<lambda>m.
        seqc (if mpi_n X * 64 < m + count then mpi_grow x (BITS_TO_LIMBS (m + count)) else ret ())
          (bindc (rd x) (\<lambda>X. set_p x (shl_list count (mpi_p X))))))"

text \<open>
  The right shift. The count is a C \<open>int\<close>: the quotient truncates towards zero and the
  mask keeps the low six bits, so a negative count (which \<open>mpi_is_prime\<close> can pass) skips
  the limb loop and shifts by the count modulo 64.
\<close>

definition shr_limbs :: "nat \<Rightarrow> t_int list \<Rightarrow> t_int list" where
  "shr_limbs v0 ws =
     (if v0 > 0
      then fold (\<lambda>i q. q[i := 0]) [length ws - v0..<length ws]
             (fold (\<lambda>i q. q[i := q ! (i + v0)]) [0..<length ws - v0] ws)
      else ws)"

text \<open>The bit loop, on the limbs from the most significant one down.\<close>

fun shr_bits :: "nat \<Rightarrow> t_int \<Rightarrow> t_int list \<Rightarrow> t_int list" where
  "shr_bits v1 r0 [] = []"
| "shr_bits v1 r0 (w # ws) =
     (let r1 = push_bit (64 - v1) w in (drop_bit v1 w OR r0) # shr_bits v1 r1 ws)"

definition shr_list :: "int \<Rightarrow> t_int list \<Rightarrow> t_int list" where
  "shr_list count ws =
     (let v0 = (if count < 0 then 0 else nat (count div 64)); v1 = nat (count mod 64);
          us = shr_limbs v0 ws
      in if v1 > 0 then rev (shr_bits v1 0 (rev us)) else us)"

definition mpi_shift_r :: "addr \<Rightarrow> int \<Rightarrow> unit cm" where
  "mpi_shift_r x count = bindc (rd x) (\<lambda>X. set_p x (shr_list count (mpi_p X)))"

lemma uint_drop_bit: "uint (drop_bit k (w :: t_int)) = uint w div 2 ^ k"
  by (rule trans [OF unsigned_drop_bit_eq]) (simp add: drop_bit_eq_div take_bit_int_eq_self)
lemma uint_push_bit: "uint (push_bit k (w :: t_int)) = (2 ^ k * uint w) mod BB"
  by (rule trans [OF unsigned_push_bit_eq]) (simp add: take_bit_eq_mod push_bit_eq_mult mult.commute)
lemma drop_cons_nth: "k < length ws \<Longrightarrow> drop k (ws[k := x]) = x # drop (Suc k) ws"
  by (induction ws arbitrary: k) (auto split: nat.splits)

subsection \<open>Bit counts\<close>

lemma limb_bit_test: "drop_bit j (w :: t_int) AND 1 \<noteq> 0 \<longleftrightarrow> bit w j"
  by (simp add: bit_iff_and_drop_bit_eq_1 and_one_eq mod_2_eq_odd)

lemma lsb_bits_Some:
  assumes "lsb_bits w = Some j"
  shows "j < 64" "2 ^ j dvd uint w" "odd (uint w div 2 ^ j)"
proof -
  from assms have j: "j < 64" "bit w j" "\<forall>i < j. \<not> bit w i"
    by (auto simp: lsb_bits_def find_Some_iff limb_bit_test)
  then show "j < 64" by simp
  show "odd (uint w div 2 ^ j)"
  proof -
    have "bit (uint w) j" using j(1,2) by (simp add: bit_uint_iff)
    then show ?thesis by (simp add: bit_iff_odd)
  qed
  have "take_bit j (uint w) = 0"
    using j(3) by (auto intro!: bit_eqI simp: bit_take_bit_iff bit_uint_iff)
  then show "2 ^ j dvd uint w" by (simp add: take_bit_eq_mod dvd_eq_mod_eq_0)
qed

lemma lsb_bits_None: "lsb_bits w = None \<Longrightarrow> w = 0"
  by (auto simp: lsb_bits_def find_None_iff limb_bit_test intro!: bit_word_eqI)

lemma lsb_loop_spec:
  assumes "nval ws \<noteq> 0"
  shows "\<exists>k. lsb_loop ws c = c + k \<and> 2 ^ k dvd nval ws \<and> odd (nval ws div 2 ^ k)"
  using assms
proof (induction ws arbitrary: c)
  case (Cons w ws)
  show ?case
  proof (cases "lsb_bits w")
    case None
    then have "w = 0" by (rule lsb_bits_None)
    with Cons obtain k where k: "lsb_loop ws (c + 64) = c + 64 + k" "2 ^ k dvd nval ws"
        "odd (nval ws div 2 ^ k)"
      by auto
    have "(2::int) ^ (64 + k) = BB * 2 ^ k" by (simp add: power_add)
    then show ?thesis
      using k None \<open>w = 0\<close> by (intro exI [of _ "64 + k"]) (simp add: dvd_mult_cancel_left)
  next
    case (Some j)
    note j = lsb_bits_Some [OF Some]
    have "BB = 2 ^ j * 2 ^ (64 - j)" using j(1) by (simp add: power_add [symmetric])
    then have B: "uint w + BB * nval ws = 2 ^ j * (uint w div 2 ^ j + 2 ^ (64 - j) * nval ws)"
      using j(2) by (simp add: distrib_left mult.assoc)
    have "even ((2::int) ^ (64 - j))" using j(1) by simp
    then show ?thesis
      using Some j B by (intro exI [of _ j]) simp
  qed
qed simp

lemma mpi_lsb_zero: "nval (mpi_p X) = 0 \<Longrightarrow> mpi_lsb X = 0"
proof -
  have "nval ws = 0 \<Longrightarrow> lsb_loop ws c = 0" for ws c
  proof (induction ws arbitrary: c)
    case (Cons w ws)
    then have "w = 0" "nval ws = 0" using nval_eq_0_iff [of "w # ws"] by (simp_all add: nval_zeros)
    moreover have "lsb_bits 0 = None" by (simp add: lsb_bits_def find_None_iff)
    ultimately show ?case using Cons.IH by simp
  qed simp
  then show "nval (mpi_p X) = 0 \<Longrightarrow> mpi_lsb X = 0" by (simp add: mpi_lsb_def)
qed

lemma mpi_lsb_spec:
  assumes "nval (mpi_p X) \<noteq> 0"
  shows "2 ^ mpi_lsb X dvd nval (mpi_p X)" "odd (nval (mpi_p X) div 2 ^ mpi_lsb X)"
  using lsb_loop_spec [OF assms, of 0] by (auto simp: mpi_lsb_def)

lemma msb_bits_spec:
  "k \<le> 64 \<Longrightarrow> msb_bits w k \<le> k \<and> take_bit k (uint w) < 2 ^ msb_bits w k \<and>
   (0 < msb_bits w k \<longrightarrow> bit w (msb_bits w k - 1))"
proof (induction k)
  case (Suc k)
  have "take_bit (Suc k) (uint w) = take_bit k (uint w) + 2 ^ k * of_bool (bit w k)"
    using Suc.prems by (simp add: take_bit_Suc_from_most bit_uint_iff)
  moreover have "take_bit k (uint w) < 2 ^ k" by simp
  ultimately show ?case
    using Suc by (simp add: limb_bit_test)
qed simp

lemma msb_bits_bounds:
  "uint w < 2 ^ msb_bits w 64" "w \<noteq> 0 \<Longrightarrow> 2 ^ (msb_bits w 64 - 1) \<le> uint w"
  "w \<noteq> 0 \<Longrightarrow> 0 < msb_bits w 64" "msb_bits w 64 \<le> 64"
proof -
  note sp = msb_bits_spec [of 64 w]
  show 1: "uint w < 2 ^ msb_bits w 64"
    using sp by (simp add: take_bit_int_eq_self)
  show "msb_bits w 64 \<le> 64" using sp by simp
  assume "w \<noteq> 0"
  then have "uint w \<noteq> 0" by (simp add: uint_0_iff)
  then show 3: "0 < msb_bits w 64"
  proof (cases "msb_bits w 64 = 0")
    case True
    with 1 have "uint w < 1" by simp
    with \<open>uint w \<noteq> 0\<close> uint_limb_bounds(1) [of w] show ?thesis by linarith
  qed simp
  with sp have "bit (uint w) (msb_bits w 64 - 1)" by (auto simp: bit_uint_iff)
  then have "uint w div 2 ^ (msb_bits w 64 - 1) \<noteq> 0" by (auto simp: bit_iff_odd)
  then show "2 ^ (msb_bits w 64 - 1) \<le> uint w"
    by (metis div_pos_pos_trivial not_less uint_limb_bounds(1))
qed


lemma copy_limbs_pred: "ws \<noteq> [] \<Longrightarrow> copy_limbs ws - 1 < length ws"
  using copy_limbs_le [of ws] by (cases ws) (auto simp: copy_limbs_def)

lemma nval_copy_limbs:
  assumes "ws \<noteq> []"
  defines "i \<equiv> copy_limbs ws - 1"
  shows "nval ws = nval (take i ws) + BB ^ i * uint (ws ! i)"
proof -
  have "copy_limbs ws = Suc i" using assms by (simp add: copy_limbs_def)
  then show ?thesis
    using nval_take_Suc [of i ws] copy_limbs_pred [OF assms(1)] nval_take_copy_limbs [of ws]
    by (simp add: i_def)
qed

lemma copy_limbs_nonzero: "nval ws \<noteq> 0 \<Longrightarrow> ws ! (copy_limbs ws - 1) \<noteq> 0"
proof -
  assume h: "nval ws \<noteq> 0"
  then have "0 < sig_limbs ws" "ws \<noteq> []" by (auto simp: sig_limbs_eq_0_iff [symmetric] sig_limbs_def)
  then show ?thesis using sig_limbs_nonzero [of ws] by (simp add: copy_limbs_def)
qed

lemma BB_power: "BB ^ i = 2 ^ (i * 64)"
  by (simp add: power_mult mult.commute [of i])

text \<open>\<open>mpi_msb\<close> is the bit length of the magnitude.\<close>

lemma mpi_msb_spec:
  assumes "mpi_msb X = Some m"
  shows "nval (mpi_p X) < 2 ^ m" "nval (mpi_p X) \<noteq> 0 \<Longrightarrow> 0 < m \<and> 2 ^ (m - 1) \<le> nval (mpi_p X)"
    "nval (mpi_p X) = 0 \<Longrightarrow> m = 0"
proof -
  let ?ws = "mpi_p X"
  let ?i = "copy_limbs ?ws - 1"
  let ?w = "?ws ! ?i"
  from assms have ne: "?ws \<noteq> []" and m: "m = ?i * 64 + msb_bits ?w 64"
    by (auto simp: mpi_msb_def Let_def split: if_splits)
  note v = nval_copy_limbs [OF ne]
  note b = msb_bits_bounds [of ?w]
  have lo: "nval (take ?i ?ws) < BB ^ ?i"
    using nval_less [of "take ?i ?ws"] copy_limbs_pred [OF ne] by simp
  have "nval ?ws < BB ^ ?i * (uint ?w + 1)" using v lo by (simp add: distrib_left)
  also have "\<dots> \<le> BB ^ ?i * 2 ^ msb_bits ?w 64" using b(1) by (intro mult_left_mono) auto
  finally show "nval ?ws < 2 ^ m" by (simp add: m power_add BB_power)
  show "m = 0" if "nval ?ws = 0"
  proof -
    from that have "sig_limbs ?ws = 0" by (simp add: sig_limbs_eq_0_iff)
    with ne have i: "?i = 0" by (simp add: copy_limbs_def)
    with that ne have "?w = 0" using nval_eq_0_iff [of ?ws] by simp
    then show ?thesis using i m b(1) msb_bits_spec [of 64 "?w"] by auto
  qed
  show "0 < m \<and> 2 ^ (m - 1) \<le> nval ?ws" if "nval ?ws \<noteq> 0"
  proof -
    have w: "?w \<noteq> 0" using copy_limbs_nonzero [OF that] .
    then have "m - 1 = ?i * 64 + (msb_bits ?w 64 - 1)" using b(3) m by simp
    then have "(2::int) ^ (m - 1) = BB ^ ?i * 2 ^ (msb_bits ?w 64 - 1)"
      by (simp add: power_add BB_power)
    also have "\<dots> \<le> BB ^ ?i * uint ?w" using b(2) [OF w] by (intro mult_left_mono) auto
    also have "\<dots> \<le> nval ?ws" using v by simp
    finally show ?thesis using b(3) [OF w] m by simp
  qed
qed

lemma mpi_msb_unique:
  assumes "mpi_msb X = Some m" "nval (mpi_p X) < 2 ^ k" "2 ^ (k - 1) \<le> nval (mpi_p X)" "0 < k"
  shows "m = k"
proof -
  have nz: "nval (mpi_p X) \<noteq> 0" using assms(3) zero_less_power [of "2::int" "k - 1"] by linarith
  note m = mpi_msb_spec [OF assms(1)]
  from m(2) [OF nz] assms(2) have "(2::int) ^ (m - 1) < 2 ^ k" by linarith
  moreover from m(1) assms(3) have "(2::int) ^ (k - 1) < 2 ^ m" by linarith
  ultimately show ?thesis using m(2) [OF nz] assms(4) by (auto dest!: power_less_imp_less_exp [rotated])
qed

lemma mpi_msb_defined: "mpi_p X \<noteq> [] \<Longrightarrow> \<exists>m. mpi_msb X = Some m"
  by (simp add: mpi_msb_def Let_def)

subsection \<open>Shifting left\<close>

lemma fold_zero: "k \<le> length ws \<Longrightarrow> fold (\<lambda>i q. q[i := 0]) (rev [0..<k]) ws = replicate k 0 @ drop k ws"
proof (induction k arbitrary: ws)
  case (Suc k)
  then have "fold (\<lambda>i q. q[i := 0]) (rev [0..<k]) (ws[k := 0]) = replicate k 0 @ drop k (ws[k := 0])"
    by simp
  moreover have "drop k (ws[k := 0]) = 0 # drop (Suc k) ws"
    using Suc.prems by (simp add: drop_cons_nth)
  ultimately show ?case by (simp add: replicate_append_same)
qed simp

lemma fold_move_up:
  assumes "length ws = v + k" "j \<le> k"
  shows "fold (\<lambda>i q. q[i := q ! (i - v)]) (rev [v + (k - j)..<v + k]) ws =
     take (v + (k - j)) ws @ take j (drop (k - j) ws)"
  using assms
proof (induction j)
  case (Suc j)
  let ?m = "k - Suc j"
  let ?q = "take (v + (k - j)) ws @ take j (drop (k - j) ws)"
  have kj: "k - j = Suc ?m" using Suc.prems by simp
  have "rev [v + ?m..<v + k] = rev [v + (k - j)..<v + k] @ [v + ?m]"
    using Suc.prems by (simp add: kj upt_conv_Cons)
  then have "fold (\<lambda>i q. q[i := q ! (i - v)]) (rev [v + ?m..<v + k]) ws = ?q[v + ?m := ?q ! ?m]"
    using Suc by simp
  also have "?q ! ?m = ws ! ?m"
    unfolding kj using Suc.prems by (simp add: nth_append del: add_Suc_right)
  also have "?q[v + ?m := ws ! ?m] = take (v + ?m) ws @ ws ! ?m # take j (drop (Suc ?m) ws)"
    using Suc.prems by (simp add: kj list_update_append take_Suc_conv_app_nth)
  also have "\<dots> = take (v + ?m) ws @ take (Suc j) (drop ?m ws)"
    using Suc.prems by (simp add: Cons_nth_drop_Suc [symmetric])
  finally show ?case .
qed simp

lemma shl_limbs_eq:
  assumes "v \<le> length ws"
  shows "shl_limbs v ws = replicate v 0 @ take (length ws - v) ws"
proof -
  let ?k = "length ws - v"
  have "fold (\<lambda>i q. q[i := q ! (i - v)]) (rev [v..<length ws]) ws = take v ws @ take ?k ws"
    using fold_move_up [of ws v ?k ?k] assms by simp
  then show ?thesis using assms by (simp add: shl_limbs_def fold_zero)
qed

lemma int_or_disjoint:
  fixes a r :: int
  assumes "0 \<le> r" "r < 2 ^ t"
  shows "2 ^ t * a OR r = 2 ^ t * a + r"
proof -
  have "take_bit t r = r" using assms by (simp add: take_bit_int_eq_self)
  then have "push_bit t a AND r = 0"
    by (metis (no_types, lifting) bit_eqI bit_and_iff bit_push_bit_iff bit_take_bit_iff bit_0_eq
        bot_apply bot_bool_def not_less)
  then show ?thesis by (simp add: disjunctive_add_eq_or push_bit_eq_mult mult.commute)
qed

lemma int_mod_high: "0 \<le> a \<Longrightarrow> a < k \<Longrightarrow> 0 < m \<Longrightarrow> (a + k * b) mod (k * m) = a + k * (b mod (m :: int))"
  by (simp add: zmod_zmult2_eq)

lemma shl_limb:
  assumes "0 < t" "t < 64" "uint r < 2 ^ t"
  shows "uint (push_bit t w OR r) + BB * uint (drop_bit (64 - t) w) = uint (w :: t_int) * 2 ^ t + uint (r :: t_int)"
proof -
  have B: "BB = 2 ^ t * 2 ^ (64 - t)" using assms by (simp add: power_add [symmetric])
  have "uint (push_bit t w) = (2 ^ t * uint w) mod BB" by (rule uint_push_bit)
  also have "\<dots> = 2 ^ t * (uint w mod 2 ^ (64 - t))" by (subst B) (simp only: mod_mult_mult1)
  finally have "uint (push_bit t w OR r) = 2 ^ t * (uint w mod 2 ^ (64 - t)) + uint r"
    using assms by (simp add: uint_or int_or_disjoint)
  moreover have "uint (drop_bit (64 - t) w) = uint w div 2 ^ (64 - t)" by (rule uint_drop_bit)
  moreover have "2 ^ t * (uint w mod 2 ^ (64 - t)) + BB * (uint w div 2 ^ (64 - t)) = uint w * 2 ^ t"
  proof -
    have "2 ^ t * (uint w mod 2 ^ (64 - t) + 2 ^ (64 - t) * (uint w div 2 ^ (64 - t))) = uint w * 2 ^ t"
      by (simp only: mod_mult_div_eq mult.commute)
    then show ?thesis by (simp only: B distrib_left mult.assoc)
  qed
  ultimately show ?thesis by linarith
qed

lemma length_shl_bits [simp]: "length (shl_bits t r ws) = length ws"
  by (induction ws arbitrary: r) (auto simp: Let_def)

lemma shl_bits_val:
  assumes "0 < t" "t < 64" "uint r < 2 ^ t"
  shows "nval (shl_bits t r ws) = (nval ws * 2 ^ t + uint r) mod BB ^ length ws"
  using assms(3)
proof (induction ws arbitrary: r)
  case (Cons w ws)
  let ?r1 = "drop_bit (64 - t) w" and ?u = "push_bit t w OR r"
  have "uint ?r1 = uint w div 2 ^ (64 - t)" by (rule uint_drop_bit)
  moreover have "BB = 2 ^ (64 - t) * 2 ^ t" using assms by (simp add: power_add [symmetric])
  ultimately have r1: "uint ?r1 < 2 ^ t" by (simp add: int_div_lessI)
  have "nval (shl_bits t r (w # ws)) = uint ?u + BB * ((nval ws * 2 ^ t + uint ?r1) mod BB ^ length ws)"
    using Cons.IH [OF r1] by (simp add: Let_def)
  also have "\<dots> = (uint ?u + BB * (nval ws * 2 ^ t + uint ?r1)) mod (BB * BB ^ length ws)"
    by (rule int_mod_high [symmetric]) simp_all
  also have "uint ?u + BB * (nval ws * 2 ^ t + uint ?r1) = nval (w # ws) * 2 ^ t + uint r"
    using shl_limb [OF assms(1,2) Cons.prems, of w] by (simp add: algebra_simps)
  finally show ?case by simp
qed simp

lemma shl_list_val:
  assumes "nval ws * 2 ^ count < BB ^ length ws" "count div 64 \<le> length ws"
  shows "nval (shl_list count ws) = nval ws * 2 ^ count" "length (shl_list count ws) = length ws"
proof -
  define v t us where "v = count div 64" and "t = count mod 64" and "us = shl_limbs v ws"
  let ?k = "length ws - v"
  have v: "v \<le> length ws" using assms(2) by (simp add: v_def)
  have l: "shl_list count ws = (if t > 0 then take v us @ shl_bits t 0 (drop v us) else us)"
    by (simp add: shl_list_def v_def t_def us_def Let_def)
  have us: "take v us = replicate v 0" "drop v us = take ?k ws" "length us = length ws"
    using v by (simp_all add: us_def shl_limbs_eq)
  have c: "(2::int) ^ count = BB ^ v * 2 ^ t"
    unfolding BB_power v_def t_def by (simp add: power_add [symmetric])
  have B: "BB ^ length ws = BB ^ v * BB ^ ?k" using v by (simp add: power_add [symmetric])
  have "BB ^ v * (nval ws * 2 ^ t) < BB ^ v * BB ^ ?k"
    using assms(1) unfolding c B by (simp add: ac_simps)
  then have lt: "nval ws * 2 ^ t < BB ^ ?k" by simp
  moreover have "nval ws \<le> nval ws * 2 ^ t" by (simp add: mult_le_cancel_left1 leD)
  ultimately have "nval ws < BB ^ ?k" by linarith
  then have tk: "nval (take ?k ws) = nval ws"
    by (intro nval_take_sig sig_limbs_less)
  have "nval (shl_bits t 0 (take ?k ws)) = nval ws * 2 ^ t" if "0 < t"
    using shl_bits_val [OF that, of 0 "take ?k ws"] lt tk v by (simp add: t_def)
  moreover have "nval us = BB ^ v * nval ws"
    using nval_take_drop [of v us] us tk v by simp
  ultimately show "nval (shl_list count ws) = nval ws * 2 ^ count"
    using us tk c by (auto simp: nval_append l)
  show "length (shl_list count ws) = length ws"
    using us v by (auto simp: l)
qed

lemma BITS_TO_LIMBS_bounds: "i \<le> BITS_TO_LIMBS i * 64" "BITS_TO_LIMBS i * 64 < i + 64"
  unfolding BITS_TO_LIMBS_def by linarith+

definition shl_len :: "nat \<Rightarrow> nat \<Rightarrow> nat" where
  "shl_len n i = (if n * 64 < i then BITS_TO_LIMBS i else n)"

lemma mpi_shift_l_ok:
  assumes "oom \<sigma> = []" "mpi_msb (heap \<sigma> x) = Some m"
    and Q: "\<And>v. mpi_s v = mpi_s (heap \<sigma> x) \<Longrightarrow> nval (mpi_p v) = nval (mpi_p (heap \<sigma> x)) * 2 ^ count \<Longrightarrow>
          mpi_n v = shl_len (mpi_n (heap \<sigma> x)) (m + count) \<Longrightarrow> Q () (put x v \<sigma>)"
  shows "ok (mpi_shift_l x count) \<sigma> Q"
proof -
  let ?X = "heap \<sigma> x"
  let ?n = "shl_len (mpi_n ?X) (m + count)"
  let ?G = "grown ?n ?X"
  have n: "m + count \<le> ?n * 64" "mpi_n ?X \<le> ?n"
    using BITS_TO_LIMBS_bounds(1) [of "m + count"] by (auto simp: shl_len_def)
  have "nval (mpi_p ?X) * 2 ^ count < 2 ^ m * 2 ^ count"
    using mpi_msb_spec(1) [OF assms(2)] by (intro mult_strict_right_mono) auto
  also have "\<dots> \<le> BB ^ ?n"
    unfolding BB_power using n(1) by (simp add: power_add [symmetric])
  finally have "nval (mpi_p ?G) * 2 ^ count < BB ^ mpi_n ?G" using n(2) by simp
  moreover have "count div 64 \<le> mpi_n ?G" using n by simp
  ultimately have r: "nval (shl_list count (mpi_p ?G)) = nval (mpi_p ?X) * 2 ^ count"
    "length (shl_list count (mpi_p ?G)) = ?n"
    using shl_list_val [of "mpi_p ?G" count] n(2) by simp_all
  have g: "ok (if mpi_n ?X * 64 < m + count then mpi_grow x (BITS_TO_LIMBS (m + count)) else ret ()) \<sigma> Q'
      = Q' () (put x ?G \<sigma>)" for Q'
    using assms(1) by (auto simp: wp shl_len_def grown_id)
  from Q [of "?G\<lparr>mpi_p := shl_list count (mpi_p ?G)\<rparr>"] r show ?thesis
    by (simp add: mpi_shift_l_def ok_bindc ok_rd ok_defd ok_seqc g ok_set_p assms(2))
qed

subsection \<open>Shifting right\<close>

lemma fold_move_down:
  assumes "j + v \<le> length ws"
  shows "fold (\<lambda>i q. q[i := q ! (i + v)]) [0..<j] ws = take j (drop v ws) @ drop j ws"
  using assms
proof (induction j)
  case (Suc j)
  let ?q = "take j (drop v ws) @ drop j ws"
  have "fold (\<lambda>i q. q[i := q ! (i + v)]) [0..<Suc j] ws = ?q[j := ?q ! (j + v)]"
    using Suc by simp
  also have "?q ! (j + v) = drop v ws ! j" using Suc.prems by (simp add: nth_append add.commute)
  also have "?q[j := drop v ws ! j] = take j (drop v ws) @ drop v ws ! j # drop (Suc j) ws"
    using Suc.prems by (simp add: list_update_append Cons_nth_drop_Suc [symmetric])
  also have "\<dots> = take (Suc j) (drop v ws) @ drop (Suc j) ws"
    using Suc.prems by (simp add: take_Suc_conv_app_nth)
  finally show ?case .
qed simp

lemma fold_zero_up:
  "m + j \<le> length ws \<Longrightarrow> fold (\<lambda>i q. q[i := 0]) [m..<m + j] ws = take m ws @ replicate j 0 @ drop (m + j) ws"
proof (induction j)
  case (Suc j)
  then show ?case
    by (simp add: list_update_append Cons_nth_drop_Suc [symmetric] replicate_append_same
        flip: append_assoc) (simp add: replicate_append_same [symmetric])
qed simp

lemma shr_limbs_eq:
  "shr_limbs v ws = drop v ws @ replicate (min v (length ws)) 0"
proof (cases "v \<le> length ws")
  case True
  let ?k = "length ws - v"
  have 1: "fold (\<lambda>i q. q[i := q ! (i + v)]) [0..<?k] ws = drop v ws @ drop ?k ws"
    using fold_move_down [of ?k v ws] True by simp
  have "fold (\<lambda>i q. q[i := 0]) [?k..<?k + v] (drop v ws @ drop ?k ws) = drop v ws @ replicate v 0"
    using True by (subst fold_zero_up) auto
  with 1 True show ?thesis by (auto simp: shr_limbs_def)
next
  case False
  then show ?thesis
    using fold_zero_up [of 0 "length ws" ws] by (simp add: shr_limbs_def)
qed

lemma nval_shr_limbs: "nval (shr_limbs v ws) = nval ws div BB ^ v" "length (shr_limbs v ws) = length ws"
proof -
  have e: "shr_limbs v ws = drop v ws @ replicate (min v (length ws)) 0"
    by (rule shr_limbs_eq)
  then show "length (shr_limbs v ws) = length ws" by simp
  show "nval (shr_limbs v ws) = nval ws div BB ^ v"
  proof (cases "v \<le> length ws")
    case True
    then show ?thesis by (simp add: e nval_append nval_div)
  next
    case False
    then have "BB ^ length ws \<le> BB ^ v" by (intro power_increasing) auto
    with nval_less [of ws] have "nval ws < BB ^ v" by linarith
    with False show ?thesis by (simp add: e div_pos_pos_trivial)
  qed
qed

lemma shr_limb:
  assumes "0 < t" "t < 64" "uint r = 2 ^ (64 - t) * h" "0 \<le> h" "h < 2 ^ t"
  shows "uint (drop_bit t w OR r) = uint (w :: t_int) div 2 ^ t + uint (r :: t_int)"
    "uint (push_bit (64 - t) w) = 2 ^ (64 - t) * (uint w mod 2 ^ t)"
proof -
  have B: "BB = 2 ^ (64 - t) * 2 ^ t" using assms by (simp add: power_add [symmetric])
  have "uint w div 2 ^ t < 2 ^ (64 - t)"
    by (rule int_div_lessI) (use B uint_limb_bounds(2) [of w] in \<open>simp_all add: mult.commute\<close>)
  then show "uint (drop_bit t w OR r) = uint w div 2 ^ t + uint r"
    using assms int_or_disjoint [of "uint w div 2 ^ t" "64 - t" h]
    by (simp add: uint_or uint_drop_bit or.commute add.commute pos_imp_zdiv_nonneg_iff)
  have "uint (push_bit (64 - t) w) = (2 ^ (64 - t) * uint w) mod BB" by (rule uint_push_bit)
  then show "uint (push_bit (64 - t) w) = 2 ^ (64 - t) * (uint w mod 2 ^ t)"
    by (simp only: B mod_mult_mult1)
qed

lemma length_shr_bits [simp]: "length (shr_bits t r ws) = length ws"
  by (induction ws arbitrary: r) (auto simp: Let_def)

lemma shr_bits_val:
  assumes "0 < t" "t < 64" "uint r = 2 ^ (64 - t) * h" "0 \<le> h" "h < 2 ^ t"
  shows "nval (rev (shr_bits t r ws)) = (nval (rev ws) + h * BB ^ length ws) div 2 ^ t"
  using assms(3-5)
proof (induction ws arbitrary: r h)
  case Nil
  then show ?case by (simp add: div_pos_pos_trivial)
next
  case (Cons w ws)
  let ?L = "BB ^ length ws" and ?h = "uint w mod 2 ^ t"
  have B: "BB = 2 ^ (64 - t) * 2 ^ t" using assms by (simp add: power_add [symmetric])
  note lb = shr_limb [OF assms(1,2) Cons.prems, of w]
  have w: "uint w = 2 ^ t * (uint w div 2 ^ t) + ?h" by simp
  have "nval (rev (shr_bits t r (w # ws))) =
      (nval (rev ws) + ?h * ?L) div 2 ^ t + ?L * (uint w div 2 ^ t + 2 ^ (64 - t) * h)"
    using Cons.IH [OF lb(2)] lb(1) Cons.prems(1) by (simp add: Let_def nval_append)
  also have "\<dots> = (nval (rev ws) + ?h * ?L + 2 ^ t * (?L * (uint w div 2 ^ t + 2 ^ (64 - t) * h))) div 2 ^ t"
    by simp
  also have "nval (rev ws) + ?h * ?L + 2 ^ t * (?L * (uint w div 2 ^ t + 2 ^ (64 - t) * h)) =
      nval (rev ws) + ?L * (2 ^ t * (uint w div 2 ^ t) + ?h) + h * (2 ^ (64 - t) * 2 ^ t) * ?L"
    by (simp only: distrib_left distrib_right ac_simps)
  also have "\<dots> = nval (rev (w # ws)) + h * BB ^ length (w # ws)"
    unfolding w [symmetric] B [symmetric] by (simp add: nval_append ac_simps)
  finally show ?case .
qed

text \<open>A right shift divides the magnitude.\<close>

lemma shr_list_val:
  "0 \<le> count \<Longrightarrow> nval (shr_list count ws) = nval ws div 2 ^ nat count"
  "length (shr_list count ws) = length ws"
proof -
  define v t us where "v = (if count < 0 then 0 else nat (count div 64))"
    and "t = nat (count mod 64)" and "us = shr_limbs v ws"
  have l: "shr_list count ws = (if t > 0 then rev (shr_bits t 0 (rev us)) else us)"
    by (simp add: shr_list_def v_def t_def us_def Let_def)
  then show "length (shr_list count ws) = length ws" by (simp add: us_def nval_shr_limbs)
  assume c: "0 \<le> count"
  have "nval (shr_list count ws) = nval us div 2 ^ t"
    using shr_bits_val [of t 0 0 "rev us"] by (auto simp: l t_def)
  also have "\<dots> = nval ws div (BB ^ v * 2 ^ t)"
    by (simp add: us_def nval_shr_limbs zdiv_zmult2_eq)
  also have "nat count = v * 64 + t" using c by (simp add: v_def t_def nat_div_distrib nat_mod_distrib)
  then have "BB ^ v * 2 ^ t = 2 ^ nat count" by (simp add: BB_power power_add)
  finally show "nval (shr_list count ws) = nval ws div 2 ^ nat count" .
qed

lemma mpi_shift_r_ok [wp]:
  "ok (mpi_shift_r x count) \<sigma> Q \<longleftrightarrow>
     Q () (put x ((heap \<sigma> x)\<lparr>mpi_p := shr_list count (mpi_p (heap \<sigma> x))\<rparr>) \<sigma>)"
  by (simp add: mpi_shift_r_def wp)

end
