(* ===== verification/Mpi_Mul.thy ===== *)
theory Mpi_Mul
  imports Mpi_Shift
begin

text \<open>
  Multiplication: \<open>mpi_mul_mpi\<close> and \<open>mpi_mul_int\<close> (schoolbook multiplication, HAC
  14.12), exact for every aliasing of the operands.
\<close>

subsection \<open>Definitions\<close>

text \<open>\<open>for( i++; j >= 0; j-- ) mpi_mul_hlp( i, A->p, X->p + j, B->p[j] );\<close>\<close>

definition mul_rows :: "addr \<Rightarrow> nat \<Rightarrow> nat \<Rightarrow> t_int list \<Rightarrow> t_int list \<Rightarrow> unit cm" where
  "mul_rows x i j as bs =
     forc (rev [0..<j]) (\<lambda>k. bindc (rd x) (\<lambda>X.
       bindc (defd (mpi_mul_hlp i as (drop k (mpi_p X)) (bs ! k))) (\<lambda>r.
         set_p x (take k (mpi_p X) @ r))))"

definition mpi_mul_mpi :: "addr \<Rightarrow> addr \<Rightarrow> addr \<Rightarrow> unit cm" where
  "mpi_mul_mpi x a0 b0 =
     locals 2 (\<lambda>ta. let tb = ta + 1;
         a = (if x = a0 then ta else a0); b = (if x = b0 then tb else b0) in
       seqc (if x = a0 then mpi_copy ta a0 else ret ())
         (seqc (if x = b0 then mpi_copy tb b0 else ret ())
           (bindc (rd a) (\<lambda>A. bindc (rd b) (\<lambda>B.
             let i = sig_limbs (mpi_p A); j = sig_limbs (mpi_p B) in
             seqc (mpi_grow x (i + j))
               (seqc (mpi_lset x 0)
                 (seqc (mul_rows x i j (mpi_p A) (mpi_p B))
                   (set_s x (mpi_s A * mpi_s B)))))))))"

definition mpi_mul_int :: "addr \<Rightarrow> addr \<Rightarrow> t_int \<Rightarrow> unit cm" where
  "mpi_mul_int x a z =
     locals 1 (\<lambda>b. seqc (wr b \<lparr>mpi_s = 1, mpi_p = [z]\<rparr>) (mpi_mul_mpi x a b))"

subsection \<open>Properties\<close>

lemma mul_row_step:
  assumes "i \<le> length as" "nval (take i as) = a" "k < length bs" "k < length ws"
    and "i + length bs \<le> length ws" "a < BB ^ i"
    and "nval ws = a * nval (drop (Suc k) bs) * BB ^ Suc k"
  shows "\<exists>r. mpi_mul_hlp i as (drop k ws) (bs ! k) = Some r \<and> length r = length ws - k \<and>
           nval (take k ws @ r) = a * nval (drop k bs) * BB ^ k"
proof -
  let ?w = "drop k ws"
  have a: "0 \<le> a" using assms(2) nval_nonneg by blast
  have b: "nval (drop k bs) = uint (bs ! k) + BB * nval (drop (Suc k) bs)"
    using assms(3) by (simp add: Cons_nth_drop_Suc [symmetric])
  have ws: "nval ws = BB ^ k * (BB * (a * nval (drop (Suc k) bs)))" using assms(7) by (simp add: ac_simps)
  have tk: "nval (take k ws) = 0"
    using nval_mod [of k ws] assms(4) ws by simp
  have dr: "nval ?w = BB * (a * nval (drop (Suc k) bs))"
    using nval_div [of k ws] assms(4) ws by simp
  have sum: "nval ?w + a * uint (bs ! k) = a * nval (drop k bs)"
    using dr b by (simp add: distrib_left)
  have "a * nval (drop k bs) \<le> a * BB ^ (length bs - k)"
    using nval_less [of "drop k bs"] a by (intro mult_left_mono) auto
  also have "\<dots> < BB ^ i * BB ^ (length bs - k)"
    using assms(6) by (intro mult_strict_right_mono) auto
  also have "\<dots> \<le> BB ^ length ?w"
    using assms(3,5) by (simp add: power_add [symmetric])
  finally have "nval ?w + nval (take i as) * uint (bs ! k) < BB ^ length ?w"
    using sum assms(2) by simp
  moreover have "i < length ?w" using assms(3,5) by simp
  ultimately obtain r where
    "mpi_mul_hlp i as ?w (bs ! k) = Some r" "length r = length ?w" "nval r = a * nval (drop k bs)"
    using mpi_mul_hlp_spec [of i as ?w "bs ! k"] assms(1,2) sum by auto
  with tk assms(4) show ?thesis by (simp add: nval_append min_def)
qed

lemma mul_rows_ok:
  assumes "i = sig_limbs as" "j = sig_limbs bs" "i + j \<le> mpi_n (heap \<sigma> x)"
    and "nval (mpi_p (heap \<sigma> x)) = 0" "0 < mpi_n (heap \<sigma> x)"
    and Q: "\<And>ws. nval ws = nval as * nval bs \<Longrightarrow> length ws = mpi_n (heap \<sigma> x) \<Longrightarrow> ws \<noteq> [] \<Longrightarrow>
          Q () (put x ((heap \<sigma> x)\<lparr>mpi_p := ws\<rparr>) \<sigma>)"
  shows "ok (mul_rows x i j as bs) \<sigma> Q"
proof -
  let ?X = "heap \<sigma> x"
  have ab: "nval (take i as) = nval as" "nval (take j bs) = nval bs" "j \<le> length bs"
      "length (take j bs) = j" "i \<le> length as" "nval as < BB ^ i"
    using nval_less_sig [of as] by (simp_all add: assms(1,2) nval_take_sig)
  let ?I = "\<lambda>k \<sigma>'. \<exists>ws. \<sigma>' = put x (?X\<lparr>mpi_p := ws\<rparr>) \<sigma> \<and>
      length ws = mpi_n ?X \<and> nval ws = nval as * nval (drop k (take j bs)) * BB ^ k"
  show ?thesis
    unfolding mul_rows_def
  proof (rule ok_for_down [where I = ?I])
    show "?I j \<sigma>" using assms(4) by (intro exI [of _ "mpi_p ?X"]) simp
  next
    fix k \<sigma>' assume "k < j" and "?I (Suc k) \<sigma>'"
    then obtain ws where \<sigma>': "\<sigma>' = put x (?X\<lparr>mpi_p := ws\<rparr>) \<sigma>" and ws: "length ws = mpi_n ?X"
        "nval ws = nval as * nval (drop (Suc k) (take j bs)) * BB ^ Suc k"
      by blast
    from mul_row_step [of i as "nval as" k "take j bs" ws] \<open>k < j\<close> ws ab assms(3)
    obtain r where "mpi_mul_hlp i as (drop k ws) (bs ! k) = Some r" "length r = length ws - k"
      "nval (take k ws @ r) = nval as * nval (drop k (take j bs)) * BB ^ k"
      by auto
    with \<open>k < j\<close> ws assms(3)
    show "ok (bindc (rd x) (\<lambda>X. bindc (defd (mpi_mul_hlp i as (drop k (mpi_p X)) (bs ! k))) (\<lambda>r.
         set_p x (take k (mpi_p X) @ r)))) \<sigma>' (\<lambda>_. ?I k)"
      by (auto simp: wp \<sigma>')
  qed (use Q ab assms(5) in \<open>auto simp flip: length_greater_0_conv\<close>)
qed

lemma mpi_mul_mpi_ok:
  assumes "oom \<sigma> = []" "x < sp \<sigma>" "a < sp \<sigma>" "b < sp \<sigma>"
    and Q: "\<And>v. mpi_s v = mpi_s (heap \<sigma> a) * mpi_s (heap \<sigma> b) \<Longrightarrow>
          nval (mpi_p v) = nval (mpi_p (heap \<sigma> a)) * nval (mpi_p (heap \<sigma> b)) \<Longrightarrow>
          mpi_n (heap \<sigma> x) \<le> mpi_n v \<Longrightarrow> 0 < mpi_n v \<Longrightarrow> Q () (put x v \<sigma>)"
  shows "ok (mpi_mul_mpi x a b) \<sigma> Q"
  using assms
  by (auto simp: mpi_mul_mpi_def wp Let_def mval_lset_val intro!: mul_rows_ok)

lemma mpi_mul_int_ok:
  assumes "oom \<sigma> = []" "x < sp \<sigma>" "a < sp \<sigma>"
    and Q: "\<And>v. mpi_s v = mpi_s (heap \<sigma> a) \<Longrightarrow>
          nval (mpi_p v) = nval (mpi_p (heap \<sigma> a)) * uint z \<Longrightarrow>
          mpi_n (heap \<sigma> x) \<le> mpi_n v \<Longrightarrow> 0 < mpi_n v \<Longrightarrow> Q () (put x v \<sigma>)"
  shows "ok (mpi_mul_int x a z) \<sigma> Q"
  using assms by (auto simp: mpi_mul_int_def wp intro!: mpi_mul_mpi_ok Q)

end
