(* ===== verification/Mpi_Qhat.thy ===== *)
theory Mpi_Qhat
  imports Mpi_Mul
begin

text \<open>
  The quotient digit of the long division: dividing two limbs by the top limb of the
  normalised divisor. Without \<open>POLARSSL_HAVE_LONGLONG\<close> (no build file of the project
  defines it) the code uses half-limb arithmetic (\<open>qhat_generic\<close>, after GMP's
  \<open>udiv_qrnnd_c\<close>); with it, a double-width division (\<open>qhat_longlong\<close>).

  \<open>mpi_div_mpi\<close> shifts the divisor so that its top bit is bit 62 of the top limb, while
  the half-limb algorithm was written for a divisor with bit 63 set. The partial quotient can
  then exceed 32 bits and the product \<open>q1 * d0\<close> can exceed 64 bits. This happens only when
  the low half \<open>d0\<close> of the top limb is \<open>0xFFFFFFFE\<close> or \<open>0xFFFFFFFF\<close>; the
  predicate \<open>udiv_safe\<close> excludes these two values, and for every other divisor the digit is
  exact.
\<close>

subsection \<open>Definitions\<close>

text \<open>\<open>while( r1 >= d && r1 < m ) q1--, r1 += d;\<close> (\<open>d\<close> is not 0 here).\<close>

function udiv_adjust :: "t_int \<Rightarrow> t_int \<Rightarrow> t_int \<Rightarrow> t_int \<Rightarrow> t_int \<times> t_int" where
  "udiv_adjust q r d m =
     (if d \<noteq> 0 \<and> r \<ge> d \<and> r < m then udiv_adjust (q - 1) (r + d) d m else (q, r))"
  by pat_completeness auto
termination
proof (relation "measure (\<lambda>(q, r, d, m). if d \<noteq> 0 \<and> r \<ge> d \<and> r < m then 2 ^ 64 - unat r else 0)")
  fix q r d m :: t_int
  assume h: "d \<noteq> 0 \<and> r \<ge> d \<and> r < m"
  have b: "unat r < 2 ^ 64" using unsigned_less [of r] by simp
  have "unat r < unat (r + d)" if "r + d \<ge> d"
    using h that b by (auto simp: unat_plus_if' word_le_nat_alt unat_gt_0 split: if_splits)
  with b show "((q - 1, r + d, d, m), q, r, d, m) \<in>
      measure (\<lambda>(q, r, d, m). if d \<noteq> 0 \<and> r \<ge> d \<and> r < m then 2 ^ 64 - unat r else 0)"
    using h by auto
qed simp

declare udiv_adjust.simps [simp del]

text \<open>\<open>if( r1 < m ) { q1--, r1 += d; while ... }\<close>\<close>

definition udiv_fix :: "t_int \<Rightarrow> t_int \<Rightarrow> t_int \<Rightarrow> t_int \<Rightarrow> t_int \<times> t_int" where
  "udiv_fix q r d m = (if r < m then udiv_adjust (q - 1) (r + d) d m else (q, r))"

definition qhat_generic :: "t_int \<Rightarrow> t_int \<Rightarrow> t_int \<Rightarrow> t_int option" where
  "qhat_generic d xi xi1 =
     (let d0 = drop_bit 32 (push_bit 32 d); d1 = drop_bit 32 d in
      if d1 = 0 then None
      else let q1 = xi div d1; r1 = xi - d1 * q1;
               r1 = push_bit 32 r1; r1 = r1 OR drop_bit 32 xi1;
               m = q1 * d0;
               (q1, r1) = udiv_fix q1 r1 d m;
               r1 = r1 - m;
               q0 = r1 div d1; r0 = r1 - d1 * q0;
               r0 = push_bit 32 r0; r0 = r0 OR drop_bit 32 (push_bit 32 xi1);
               m = q0 * d0;
               (q0, r0) = udiv_fix q0 r0 d m
           in Some (push_bit 32 q1 OR q0))"

definition qhat_longlong :: "t_int \<Rightarrow> t_int \<Rightarrow> t_int \<Rightarrow> t_int option" where
  "qhat_longlong d xi xi1 =
     (if d = 0 then None
      else let r = push_bit 64 (ucast xi :: 128 word) OR ucast xi1;
               r = r div ucast d;
               r = (if r > push_bit 64 1 - 1 then push_bit 64 1 - 1 else r)
           in Some (ucast r))"

definition udiv_safe :: "t_int \<Rightarrow> bool" where
  "udiv_safe d \<longleftrightarrow> uint d mod 2 ^ 32 < 2 ^ 32 - 2"

text \<open>What the division needs of the digit estimate.\<close>

locale digit_estimate =
  fixes qhat :: "t_int \<Rightarrow> t_int \<Rightarrow> t_int \<Rightarrow> t_int option" and safe :: "t_int \<Rightarrow> bool"
  assumes qhat_exact:
    "safe d \<Longrightarrow> 2 ^ 62 \<le> uint d \<Longrightarrow> uint d < 2 ^ 63 \<Longrightarrow> uint xi < uint d \<Longrightarrow>
     \<exists>q. qhat d xi xi1 = Some q \<and> uint q = (uint xi * BB + uint xi1) div uint d"

subsection \<open>The half-limb algorithm\<close>

lemma udiv_adjust_spec:
  assumes "0 < uint d" "uint d \<le> uint r" "uint r < uint m + uint d"
  shows "\<exists>k \<ge> 0. fst (udiv_adjust q r d m) = q - word_of_int k \<and>
     uint (snd (udiv_adjust q r d m) - m) = uint r + k * uint d - uint m \<and>
     0 \<le> uint r + k * uint d - uint m \<and> uint r + k * uint d - uint m < uint d"
  using assms
proof (induction q r d m rule: udiv_adjust.induct)
  case (1 q r d m)
  have d: "d \<noteq> 0" "r \<ge> d" using "1.prems" by (auto simp: word_le_def)
  show ?case
  proof (cases "r < m")
    case False
    then have "uint (r - m) = uint r - uint m"
      by (simp add: uint_sub_borrow)
    with False "1.prems" show ?thesis
      by (intro exI [of _ 0]) (simp add: udiv_adjust.simps [of q r d m] word_less_def)
  next
    case rm: True
    then have e: "udiv_adjust q r d m = udiv_adjust (q - 1) (r + d) d m"
      using d by (simp add: udiv_adjust.simps [of q r d m])
    have c: "uint (r + d) + BB * of_bool (r + d < d) = uint r + uint d" by (rule uint_add_carry)
    show ?thesis
    proof (cases "r + d < d")
      case True
      then have "\<not> d \<le> r + d" by (simp add: not_le)
      then have s: "udiv_adjust (q - 1) (r + d) d m = (q - 1, r + d)"
        by (simp only: udiv_adjust.simps [of "q - 1" "r + d" d m] simp_thms if_False)
      have u: "uint (r + d) = uint r + uint d - BB" using c True by simp
      have "uint r < uint m" using rm by (simp add: word_less_def)
      then have "uint (r + d) < uint m" using u uint_limb_bounds(2) [of d] by linarith
      then have "uint (r + d - m) = uint r + uint d - uint m"
        using u by (simp add: uint_sub_borrow word_less_def)
      moreover have "uint m \<le> uint r + uint d"
        using u uint_limb_bounds(1) [of "r + d"] uint_limb_bounds(2) [of m] by linarith
      ultimately show ?thesis using s e rm
        by (intro exI [of _ 1]) (simp add: word_less_def)
    next
      case False
      then have u: "uint (r + d) = uint r + uint d" using c by simp
      from "1.IH" [of] d rm "1.prems" u obtain k where k: "0 \<le> k"
        "fst (udiv_adjust (q - 1) (r + d) d m) = q - 1 - word_of_int k"
        "uint (snd (udiv_adjust (q - 1) (r + d) d m) - m) = uint r + uint d + k * uint d - uint m"
        "0 \<le> uint r + uint d + k * uint d - uint m" "uint r + uint d + k * uint d - uint m < uint d"
        by (auto simp: word_less_def)
      then show ?thesis
        using e by (intro exI [of _ "k + 1"]) (simp add: distrib_right add.assoc diff_diff_eq add.commute [of 1])
    qed
  qed
qed


text \<open>
  One half of the division: \<open>x * 2^32 + h\<close> by \<open>d = d1 * 2^32 + d0\<close>, from the
  estimate \<open>q = x div d1\<close>.
\<close>

lemma udiv_fix_spec:
  assumes "0 < uint d" "uint d < 2 ^ 63" "uint r < uint d"
  shows "\<exists>k. fst (udiv_fix q r d m) = q - word_of_int k \<and>
     uint (snd (udiv_fix q r d m) - m) = uint r + k * uint d - uint m \<and>
     0 \<le> uint r + k * uint d - uint m \<and> uint r + k * uint d - uint m < uint d"
proof (cases "r < m")
  case True
  have u: "uint (r + d) = uint r + uint d"
    using assms by (simp add: uint_plus_if')
  have "uint r < uint m" using True by (simp add: word_less_def)
  with u assms udiv_adjust_spec [of d "r + d" m "q - 1"] obtain k where
    "fst (udiv_adjust (q - 1) (r + d) d m) = q - 1 - word_of_int k"
    "uint (snd (udiv_adjust (q - 1) (r + d) d m) - m) = uint r + uint d + k * uint d - uint m"
    "0 \<le> uint r + uint d + k * uint d - uint m" "uint r + uint d + k * uint d - uint m < uint d"
    by auto
  with True show ?thesis
    by (intro exI [of _ "k + 1"]) (simp add: udiv_fix_def distrib_right)
next
  case False
  then have "uint (r - m) = uint r - uint m" by (simp add: uint_sub_borrow)
  with False assms show ?thesis
    by (intro exI [of _ 0]) (auto simp: udiv_fix_def word_less_def intro: le_less_trans [of _ "uint r"])
qed

lemma half_quotient_bound:
  fixes d1 d0 x :: int
  assumes "2 ^ 30 \<le> d1" "0 \<le> d0" "d0 < 2 ^ 32 - 2" "0 \<le> x" "x < d1 * 2 ^ 32 + d0"
  shows "x div d1 * d0 < 2 ^ 64"
proof -
  have "x < d1 * (2 ^ 32 + 4)" using assms by simp
  then have "x div d1 < 2 ^ 32 + 4" using assms by (intro int_div_lessI) (auto simp: mult.commute)
  then have "x div d1 * d0 \<le> (2 ^ 32 + 3) * (2 ^ 32 - 3)"
    using assms by (intro mult_mono) (auto simp: pos_imp_zdiv_nonneg_iff)
  then show ?thesis by simp
qed

lemma uint_low_half: "uint (drop_bit 32 (push_bit 32 w) :: t_int) = uint w mod 2 ^ 32"
proof -
  have "uint (push_bit 32 w) = 2 ^ 32 * (uint w mod 2 ^ 32)"
    using mult_mod_right [of "2 ^ 32" "uint w" "2 ^ 32"] by (simp add: uint_push_bit)
  then show ?thesis by (simp add: uint_drop_bit)
qed

lemma udiv_half:
  fixes d x h :: t_int
  defines "d1 \<equiv> drop_bit 32 d" and "d0 \<equiv> drop_bit 32 (push_bit 32 d)"
  defines "q \<equiv> x div d1"
  defines "r \<equiv> push_bit 32 (x - d1 * q) OR h"
  assumes "udiv_safe d" "2 ^ 62 \<le> uint d" "uint d < 2 ^ 63" "uint x < uint d" "uint h < 2 ^ 32"
  shows "fst (udiv_fix q r d (q * d0)) = word_of_int ((uint x * 2 ^ 32 + uint h) div uint d)"
    "uint (snd (udiv_fix q r d (q * d0)) - q * d0) = (uint x * 2 ^ 32 + uint h) mod uint d"
proof -
  let ?b = "2 ^ 32 :: int"
  have d1: "uint d1 = uint d div ?b" by (simp add: d1_def uint_drop_bit)
  have d0: "uint d0 = uint d mod ?b" by (simp add: d0_def uint_low_half)
  have dd: "uint d = uint d1 * ?b + uint d0" unfolding d1 d0 by simp
  have d1b: "2 ^ 30 \<le> uint d1" "uint d1 < 2 ^ 31" and d0b: "0 \<le> uint d0" "uint d0 < ?b - 2"
    using assms(5-7) by (auto simp: d1 udiv_safe_def d0 simp del: uint_limb_bounds)
  let ?q = "uint x div uint d1" and ?p = "uint x mod uint d1"
  have q: "uint q = ?q" by (simp add: q_def uint_div)
  have p: "uint (x - d1 * q) = ?p" by (simp add: q_def minus_mult_div_eq_mod uint_mod)
  have pb: "0 \<le> ?p" "?p < uint d1" "?p < ?b"
    using d1b by (auto intro: less_trans [OF pos_mod_bound])
  have "uint (push_bit 32 (x - d1 * q)) = ?b * ?p"
    unfolding uint_push_bit p using pb by (intro mod_pos_pos_trivial) (auto simp del: pos_mod_bound)
  then have r: "uint r = ?p * ?b + uint h"
    unfolding r_def using assms(9) int_or_disjoint [of "uint h" 32 ?p]
    by (simp add: uint_or mult.commute)
  have rd: "uint r < uint d"
  proof -
    have "(?p + 1) * ?b \<le> uint d1 * ?b" using pb by (intro mult_right_mono) auto
    then have "?p * ?b + ?b \<le> uint d1 * ?b" by (simp only: distrib_right mult_1_left)
    with r dd d0b(1) assms(9) show ?thesis by linarith
  qed
  have m: "uint (q * d0) = ?q * uint d0"
    using half_quotient_bound [of "uint d1" "uint d0" "uint x"] d1b d0b assms(8) dd
      uint_mult_lem [of q d0] unfolding q by simp
  have id: "uint x * ?b + uint h = ?q * uint d + (uint r - uint (q * d0))"
  proof -
    have "uint x = ?q * uint d1 + ?p" by simp
    then have "uint x * ?b = ?q * uint d1 * ?b + ?p * ?b" by (metis distrib_right)
    then show ?thesis using r m dd by (simp add: distrib_left algebra_simps)
  qed
  from udiv_fix_spec [OF _ assms(7) rd, of q "q * d0"] assms(6) obtain k where
    k: "fst (udiv_fix q r d (q * d0)) = q - word_of_int k"
     "uint (snd (udiv_fix q r d (q * d0)) - q * d0) = uint r + k * uint d - uint (q * d0)"
     "0 \<le> uint r + k * uint d - uint (q * d0)" "uint r + k * uint d - uint (q * d0) < uint d"
    by auto
  let ?R = "uint r + k * uint d - uint (q * d0)"
  have eq: "uint x * ?b + uint h = ?R + uint d * (?q - k)"
    using id by (simp add: algebra_simps)
  have "(uint x * ?b + uint h) div uint d = ?q - k" "(uint x * ?b + uint h) mod uint d = ?R"
    unfolding eq using k(3,4) by simp_all
  moreover have "q = word_of_int ?q" using q by (metis word_of_int_uint)
  ultimately show "fst (udiv_fix q r d (q * d0)) = word_of_int ((uint x * ?b + uint h) div uint d)"
    "uint (snd (udiv_fix q r d (q * d0)) - q * d0) = (uint x * ?b + uint h) mod uint d"
    using k by simp_all
qed

lemma two_step_div:
  fixes x h l d b :: int
  assumes "0 < d"
  shows "((x * b + h) * b + l) div d = (x * b + h) div d * b + ((x * b + h) mod d * b + l) div d"
proof -
  let ?y = "x * b + h"
  have "?y * b + l = (?y div d * d + ?y mod d) * b + l" by simp
  also have "\<dots> = (?y mod d * b + l) + (?y div d * b) * d" by (simp only: distrib_right distrib_left ac_simps)
  finally have e: "?y * b + l = (?y mod d * b + l) + (?y div d * b) * d" .
  show ?thesis unfolding e using assms by (subst div_mult_self1) auto
qed

lemma digit_bound:
  fixes x h d b :: int
  assumes "0 \<le> x" "x < d" "0 \<le> h" "h < b"
  shows "0 \<le> (x * b + h) div d" "(x * b + h) div d < b"
proof -
  show "0 \<le> (x * b + h) div d" using assms by (simp add: pos_imp_zdiv_nonneg_iff)
  have "(x + 1) * b \<le> d * b" using assms by (intro mult_right_mono) auto
  then have "x * b + h < d * b" using assms by (simp add: distrib_right)
  then show "(x * b + h) div d < b"
    using assms by (intro int_div_lessI) (auto simp: mult.commute)
qed

lemma qhat_generic_exact:
  assumes "udiv_safe d" "2 ^ 62 \<le> uint d" "uint d < 2 ^ 63" "uint xi < uint d"
  shows "\<exists>q. qhat_generic d xi xi1 = Some q \<and> uint q = (uint xi * BB + uint xi1) div uint d"
proof -
  let ?b = "2 ^ 32 :: int"
  let ?h1 = "drop_bit 32 xi1" and ?h0 = "drop_bit 32 (push_bit 32 xi1)"
  have h: "uint ?h1 < ?b" "uint ?h0 < ?b" "uint xi1 = uint ?h1 * ?b + uint ?h0"
    unfolding uint_low_half uint_drop_bit [of 32 xi1] by (auto intro!: int_div_lessI)
  let ?d1 = "drop_bit 32 d" and ?d0 = "drop_bit 32 (push_bit 32 d)"
  have "0 < uint ?d1" using assms(2) by (simp add: uint_drop_bit)
  then have nz: "?d1 \<noteq> 0" by auto
  let ?q1 = "xi div ?d1"
  let ?f1 = "udiv_fix ?q1 (push_bit 32 (xi - ?d1 * ?q1) OR ?h1) d (?q1 * ?d0)"
  let ?x = "snd ?f1 - ?q1 * ?d0"
  let ?q0 = "?x div ?d1"
  let ?f0 = "udiv_fix ?q0 (push_bit 32 (?x - ?d1 * ?q0) OR ?h0) d (?q0 * ?d0)"
  note s1 = udiv_half [OF assms h(1)]
  have x: "uint ?x < uint d" unfolding s1(2) using assms(2) by (intro pos_mod_bound) simp
  note s0 = udiv_half [OF assms(1-3) x h(2)]
  let ?Q1 = "(uint xi * ?b + uint ?h1) div uint d" and ?Q0 = "(uint ?x * ?b + uint ?h0) div uint d"
  have Q: "0 \<le> ?Q1" "?Q1 < ?b" "0 \<le> ?Q0" "?Q0 < ?b"
    using digit_bound [OF _ assms(4) _ h(1)] digit_bound [OF _ x _ h(2)] by auto
  have u: "uint (word_of_int ?Q1 :: t_int) = ?Q1" "uint (word_of_int ?Q0 :: t_int) = ?Q0"
    using Q by (simp_all add: uint_word_of_int)
  have "qhat_generic d xi xi1 = Some (push_bit 32 (fst ?f1) OR fst ?f0)"
    using nz by (simp add: qhat_generic_def Let_def case_prod_unfold)
  moreover have "uint (push_bit 32 (fst ?f1) OR fst ?f0) = ?b * ?Q1 + ?Q0"
  proof -
    have "uint (push_bit 32 (fst ?f1)) = ?b * ?Q1"
      unfolding s1(1) uint_push_bit u using Q by (intro mod_pos_pos_trivial) auto
    then show ?thesis
      unfolding uint_or s0(1) u using int_or_disjoint [OF Q(3,4)] by simp
  qed
  moreover have "(uint xi * BB + uint xi1) div uint d = ?b * ?Q1 + ?Q0"
  proof -
    have e: "uint xi * BB + uint xi1 = (uint xi * ?b + uint ?h1) * ?b + uint ?h0"
      using h(3) by (simp add: distrib_right)
    have "0 < uint d" using assms(2) by simp
    then show ?thesis by (simp only: e two_step_div s1(2) mult.commute [of ?b])
  qed
  ultimately show ?thesis by simp
qed

lemma uint_ucast_wide: "uint (ucast (w :: t_int) :: 128 word) = uint w"
  by (simp add: unsigned_ucast_eq take_bit_eq_mod)
     (auto intro!: mod_pos_pos_trivial less_trans [OF uint_limb_bounds(2)])

lemma qhat_longlong_exact:
  assumes "0 < uint d" "uint xi < uint d"
  shows "\<exists>q. qhat_longlong d xi xi1 = Some q \<and> uint q = (uint xi * BB + uint xi1) div uint d"
proof -
  let ?x = "uint xi * BB + uint xi1"
  let ?r = "push_bit 64 (ucast xi :: 128 word) OR ucast xi1"
  have Q: "0 \<le> ?x div uint d" "?x div uint d < BB"
    using digit_bound [of "uint xi" "uint d" "uint xi1" BB] assms by auto
  have "uint xi * BB \<le> (BB - 1) * BB" by (intro mult_right_mono) (auto simp: uint_limb_le)
  then have "(uint xi * BB) mod 2 ^ 128 = uint xi * BB" by (intro mod_pos_pos_trivial) auto
  then have "uint (push_bit 64 (ucast xi :: 128 word)) = 2 ^ 64 * uint xi"
    by (simp add: push_bit_eq_mult uint_word_ariths uint_ucast_wide)
  then have r: "uint ?r = ?x"
    using int_or_disjoint [of "uint xi1" 64 "uint xi"]
    by (simp add: uint_or uint_ucast_wide mult.commute)
  have "uint (?r div ucast d) = ?x div uint d"
    unfolding uint_div r by (simp add: uint_ucast_wide)
  moreover from this have "\<not> ?r div ucast d > push_bit 64 1 - 1"
    using Q by (simp add: word_less_def push_bit_eq_mult)
  moreover have "d \<noteq> 0" using assms by auto
  ultimately show ?thesis
    using Q by (simp add: qhat_longlong_def Let_def unsigned_ucast_eq take_bit_eq_mod)
qed

interpretation qhat_gen: digit_estimate qhat_generic udiv_safe
  by unfold_locales (rule qhat_generic_exact)

interpretation qhat_ll: digit_estimate qhat_longlong "\<lambda>_. True"
  by unfold_locales (rule qhat_longlong_exact; simp)

end
