(* ===== verification/Mpi_Div.thy ===== *)
theory Mpi_Div
  imports Mpi_Qhat
begin

text \<open>
  Long division: \<open>mpi_div_mpi\<close> (HAC 14.20), \<open>mpi_div_int\<close>, \<open>mpi_mod_mpi\<close>,
  \<open>mpi_mod_int\<close>. The routine for the quotient digit is the parameter \<open>qhat\<close>
  (\<open>qhat_generic\<close> or \<open>qhat_longlong\<close>, chosen at compile time); the correctness
  lemma is proved once from the law of \<open>digit_estimate\<close>.

  \<open>Q\<close> and \<open>R\<close> may be \<open>NULL\<close> (\<open>None\<close>). The signs of \<open>A\<close> and \<open>B\<close>
  are read after \<open>Q\<close> has been written, as in the code.
\<close>

subsection \<open>Definitions\<close>

definition get_limb :: "addr \<Rightarrow> nat \<Rightarrow> t_int cm" where
  "get_limb x i = bindc (rd x) (\<lambda>X. defd (if i < mpi_n X then Some (mpi_p X ! i) else None))"

definition set_limb :: "addr \<Rightarrow> nat \<Rightarrow> t_int \<Rightarrow> unit cm" where
  "set_limb x i w =
     bindc (rd x) (\<lambda>X. bindc (defd (if i < mpi_n X then Some ((mpi_p X)[i := w]) else None)) (set_p x))"

text \<open>The three limbs the quotient digit is tested with, and the body of that loop.\<close>

definition div_T1 :: "addr \<Rightarrow> addr \<Rightarrow> nat \<Rightarrow> t_int \<Rightarrow> unit cm" where
  "div_T1 t1 y t d =
     seqc (mpi_lset t1 0)
       (bindc (if t < 1 then ret 0 else get_limb y (t - 1)) (\<lambda>w.
         seqc (set_limb t1 0 w)
           (bindc (get_limb y t) (\<lambda>w.
             seqc (set_limb t1 1 w) (mpi_mul_int t1 t1 d)))))"

definition div_T2 :: "addr \<Rightarrow> addr \<Rightarrow> nat \<Rightarrow> unit cm" where
  "div_T2 t2 x i =
     seqc (mpi_lset t2 0)
       (bindc (if i < 2 then ret 0 else get_limb x (i - 2)) (\<lambda>w.
         seqc (set_limb t2 0 w)
           (bindc (if i < 1 then ret 0 else get_limb x (i - 1)) (\<lambda>w.
             seqc (set_limb t2 1 w) (bindc (get_limb x i) (set_limb t2 2))))))"

definition div_test :: "addr \<Rightarrow> addr \<Rightarrow> addr \<Rightarrow> addr \<Rightarrow> addr \<Rightarrow> nat \<Rightarrow> nat \<Rightarrow> bool cm" where
  "div_test x y z t1 t2 t i =
     bindc (get_limb z (i - t - 1)) (\<lambda>d.
       seqc (set_limb z (i - t - 1) (d - 1))
         (seqc (div_T1 t1 y t (d - 1))
           (seqc (div_T2 t2 x i)
             (bindc (rd t1) (\<lambda>T1. bindc (rd t2) (\<lambda>T2. ret (mpi_cmp_mpi T1 T2 > 0)))))))"

text \<open>The first estimate of the digit: \<open>~0\<close> or the quotient of the top limbs.\<close>

definition div_estimate ::
  "(t_int \<Rightarrow> t_int \<Rightarrow> t_int \<Rightarrow> t_int option) \<Rightarrow> addr \<Rightarrow> addr \<Rightarrow> nat \<Rightarrow> nat \<Rightarrow> t_int cm" where
  "div_estimate qhat x y t i =
     bindc (get_limb x i) (\<lambda>xi. bindc (get_limb y t) (\<lambda>yt.
       if xi \<ge> yt then ret (- 1)
       else bindc (get_limb x (i - 1)) (\<lambda>xi1. defd (qhat yt xi xi1))))"

text \<open>Subtracting the digit's multiple of the divisor, and the correction if it was too large.\<close>

definition div_subtract :: "addr \<Rightarrow> addr \<Rightarrow> addr \<Rightarrow> addr \<Rightarrow> nat \<Rightarrow> unit cm" where
  "div_subtract x y z t1 j =
     bindc (get_limb z j) (\<lambda>d.
       seqc (mpi_mul_int t1 y d)
         (seqc (mpi_shift_l t1 (64 * j))
           (seqc (mpi_sub_mpi x x t1)
             (bindc (rd x) (\<lambda>X. bindc (defd (mpi_cmp_int X 0)) (\<lambda>c.
               if c < 0
               then seqc (mpi_copy t1 y)
                      (seqc (mpi_shift_l t1 (64 * j))
                        (seqc (mpi_add_mpi x x t1)
                          (bindc (get_limb z j) (\<lambda>d. set_limb z j (d - 1)))))
               else ret ()))))))"

text \<open>The body of the loop over the digits.\<close>

definition div_digit ::
  "(t_int \<Rightarrow> t_int \<Rightarrow> t_int \<Rightarrow> t_int option) \<Rightarrow> addr \<Rightarrow> addr \<Rightarrow> addr \<Rightarrow> addr \<Rightarrow> addr \<Rightarrow> nat \<Rightarrow> nat \<Rightarrow> unit cm" where
  "div_digit qhat x y z t1 t2 t i =
     bindc (div_estimate qhat x y t i) (\<lambda>d.
       seqc (set_limb z (i - t - 1) (d + 1))
         (seqc (whilec (\<lambda>go _. Some go) (\<lambda>_. div_test x y z t1 t2 t i) True)
           (div_subtract x y z t1 (i - t - 1))))"

text \<open>\<open>while( mpi_cmp_mpi( &X, &Y ) >= 0 ) { Z.p[n - t]++; X -= Y }\<close>\<close>

definition div_top :: "addr \<Rightarrow> addr \<Rightarrow> addr \<Rightarrow> nat \<Rightarrow> unit cm" where
  "div_top x y z j =
     whilec (\<lambda>_ \<sigma>. Some (mpi_cmp_mpi (heap \<sigma> x) (heap \<sigma> y) \<ge> 0))
       (\<lambda>_. bindc (get_limb z j) (\<lambda>d.
          seqc (set_limb z j (d + 1)) (ignore (mpi_sub_mpi x x y)))) ()"

text \<open>The normalising shift by \<open>biL - 1 - k\<close>, and the copies before it; the result is \<open>k\<close>.\<close>

definition div_shift :: "addr \<Rightarrow> addr \<Rightarrow> nat \<Rightarrow> nat cm" where
  "div_shift x y m =
     (let k = m mod 64 in
      if k < 63
      then seqc (mpi_shift_l x (63 - k)) (seqc (mpi_shift_l y (63 - k)) (ret (63 - k)))
      else ret 0)"

definition div_setup :: "addr \<Rightarrow> addr \<Rightarrow> addr \<Rightarrow> addr \<Rightarrow> addr \<Rightarrow> addr \<Rightarrow> addr \<Rightarrow> nat cm" where
  "div_setup x y z t1 t2 a b =
     seqc (mpi_copy x a) (seqc (mpi_copy y b) (seqc (set_s y 1) (seqc (set_s x 1)
       (bindc (rd a) (\<lambda>A.
         seqc (mpi_grow z (mpi_n A + 2)) (seqc (mpi_lset z 0)
           (seqc (mpi_grow t1 2) (seqc (mpi_grow t2 3)
             (bindc (rd y) (\<lambda>Y. bindc (defd (mpi_msb Y)) (div_shift x y)))))))))))"

text \<open>Writing the results.\<close>

definition div_quotient :: "addr option \<Rightarrow> addr \<Rightarrow> addr \<Rightarrow> addr \<Rightarrow> unit cm" where
  "div_quotient q z a b =
     (case q of None \<Rightarrow> ret ()
      | Some q \<Rightarrow> seqc (ignore (mpi_copy q z))
          (bindc (rd a) (\<lambda>A. bindc (rd b) (\<lambda>B. set_s q (mpi_s A * mpi_s B)))))"

definition div_remainder :: "addr option \<Rightarrow> addr \<Rightarrow> nat \<Rightarrow> addr \<Rightarrow> unit cm" where
  "div_remainder r x k a =
     (case r of None \<Rightarrow> ret ()
      | Some r \<Rightarrow> seqc (mpi_shift_r x (int k)) (seqc (ignore (mpi_copy r x))
          (bindc (rd a) (\<lambda>A. seqc (set_s r (mpi_s A))
            (bindc (rd r) (\<lambda>R. bindc (defd (mpi_cmp_int R 0)) (\<lambda>c.
              if c = 0 then set_s r 1 else ret ())))))))"

definition div_main ::
  "(t_int \<Rightarrow> t_int \<Rightarrow> t_int \<Rightarrow> t_int option) \<Rightarrow> addr \<Rightarrow> addr option \<Rightarrow> addr option \<Rightarrow> addr \<Rightarrow> addr \<Rightarrow> unit cm" where
  "div_main qhat x q r a b =
     (let y = x + 1; z = x + 2; t1 = x + 3; t2 = x + 4 in
      bindc (div_setup x y z t1 t2 a b) (\<lambda>k.
        bindc (rd x) (\<lambda>X. bindc (rd y) (\<lambda>Y. let n = mpi_n X - 1; t = mpi_n Y - 1 in
          seqc (ignore (mpi_shift_l y (64 * (n - t))))
            (seqc (div_top x y z (n - t))
              (seqc (mpi_shift_r y (int (64 * (n - t))))
                (seqc (forc (rev [Suc t..<Suc n]) (div_digit qhat x y z t1 t2 t))
                  (seqc (div_quotient q z a b) (div_remainder r x k a)))))))))"

definition mpi_div_mpi ::
  "(t_int \<Rightarrow> t_int \<Rightarrow> t_int \<Rightarrow> t_int option) \<Rightarrow> addr option \<Rightarrow> addr option \<Rightarrow> addr \<Rightarrow> addr \<Rightarrow> unit cm" where
  "mpi_div_mpi qhat q r a b =
     bindc (rd b) (\<lambda>B. bindc (defd (mpi_cmp_int B 0)) (\<lambda>c.
       if c = 0 then throw POLARSSL_ERR_MPI_DIVISION_BY_ZERO
       else locals 5 (\<lambda>x.
         bindc (rd a) (\<lambda>A.
           if mpi_cmp_abs A B < 0
           then seqc (case q of None \<Rightarrow> ret () | Some q \<Rightarrow> mpi_lset q 0)
                  (case r of None \<Rightarrow> ret () | Some r \<Rightarrow> mpi_copy r a)
           else div_main qhat x q r a b))))"

definition mpi_div_int ::
  "(t_int \<Rightarrow> t_int \<Rightarrow> t_int \<Rightarrow> t_int option) \<Rightarrow> addr option \<Rightarrow> addr option \<Rightarrow> addr \<Rightarrow> int \<Rightarrow> unit cm" where
  "mpi_div_int qhat q r a b =
     bindc (defd (int_mpi b)) (\<lambda>B. locals 1 (\<lambda>t. seqc (wr t B) (mpi_div_mpi qhat q r a t)))"

subsection \<open>Properties\<close>

lemma ok_get_limb [wp]:
  "ok (get_limb x i) \<sigma> Q \<longleftrightarrow> i < mpi_n (heap \<sigma> x) \<and> Q (mpi_p (heap \<sigma> x) ! i) \<sigma>"
  by (simp add: get_limb_def wp)

lemma ok_set_limb [wp]:
  "ok (set_limb x i w) \<sigma> Q \<longleftrightarrow>
     i < mpi_n (heap \<sigma> x) \<and> Q () (put x ((heap \<sigma> x)\<lparr>mpi_p := (mpi_p (heap \<sigma> x))[i := w]\<rparr>) \<sigma>)"
  by (simp add: set_limb_def wp)

text \<open>Two stores that agree outside a set of addresses.\<close>

definition frame :: "addr set \<Rightarrow> mem \<Rightarrow> mem \<Rightarrow> bool" where
  "frame S \<sigma> \<sigma>' \<longleftrightarrow> (\<forall>a. a \<notin> S \<longrightarrow> heap \<sigma>' a = heap \<sigma> a) \<and> sp \<sigma>' = sp \<sigma> \<and> oom \<sigma>' = oom \<sigma> \<and> rng \<sigma>' = rng \<sigma>"

lemma frame_refl [simp]: "frame S \<sigma> \<sigma>"
  by (simp add: frame_def)

lemma frame_put: "frame S \<sigma> \<sigma>' \<Longrightarrow> a \<in> S \<Longrightarrow> frame S \<sigma> (put a v \<sigma>')"
  by (auto simp: frame_def)

lemma frame_trans: "frame S \<sigma> \<sigma>' \<Longrightarrow> frame T \<sigma>' \<sigma>'' \<Longrightarrow> S \<subseteq> U \<Longrightarrow> T \<subseteq> U \<Longrightarrow> frame U \<sigma> \<sigma>''"
  by (auto simp: frame_def) (metis subsetD)

lemma frameD:
  assumes "frame S \<sigma> \<sigma>'"
  shows "a \<notin> S \<Longrightarrow> heap \<sigma>' a = heap \<sigma> a" "sp \<sigma>' = sp \<sigma>" "oom \<sigma>' = oom \<sigma>" "rng \<sigma>' = rng \<sigma>"
  using assms by (auto simp: frame_def)

lemma mem_eqI:
  "(\<And>a. heap \<sigma> a = heap \<tau> a) \<Longrightarrow> sp \<sigma> = sp \<tau> \<Longrightarrow> oom \<sigma> = oom \<tau> \<Longrightarrow> rng \<sigma> = rng \<tau> \<Longrightarrow> \<sigma> = (\<tau> :: mem)"
  by (simp add: fun_eq_iff)

lemma nval_mval: "wf X \<Longrightarrow> 0 \<le> mval X \<Longrightarrow> nval (mpi_p X) = mval X"
  using nval_nonneg [of "mpi_p X"] by (auto simp: mval_def wf_def simp del: nval_nonneg)

text \<open>Reading the top limbs of a number.\<close>

lemma limb_div:
  "i < length ws \<Longrightarrow> nval ws div BB ^ i = uint (ws ! i) + BB * (nval ws div BB ^ Suc i)"
  using nval_div [of i ws] nval_div [of "Suc i" ws] by (simp add: Cons_nth_drop_Suc [symmetric])

lemma top_limb:
  "i < length ws \<Longrightarrow> nval ws < BB ^ Suc i \<Longrightarrow> nval ws div BB ^ i = uint (ws ! i)"
  using limb_div [of i ws] by (simp add: div_pos_pos_trivial)

definition top2 :: "t_int list \<Rightarrow> nat \<Rightarrow> int" where
  "top2 ys t = (if t < 1 then 0 else uint (ys ! (t - 1))) + BB * uint (ys ! t)"

definition top3 :: "t_int list \<Rightarrow> nat \<Rightarrow> int" where
  "top3 xs i = (if i < 2 then 0 else uint (xs ! (i - 2))) + BB * (if i < 1 then 0 else uint (xs ! (i - 1)))
     + BB ^ 2 * uint (xs ! i)"

lemma top2_div:
  assumes "i < length ws" "nval ws < BB ^ Suc i"
  shows "top2 ws i = nval ws * BB div BB ^ i"
proof (cases i)
  case 0
  then show ?thesis using top_limb [OF assms] by (simp add: top2_def)
next
  case (Suc k)
  then have "nval ws * BB div BB ^ i = nval ws div BB ^ k" by simp
  with Suc limb_div [of k ws] top_limb [OF assms] assms(1) show ?thesis by (simp add: top2_def)
qed

lemma top3_div:
  assumes "i < length ws" "nval ws < BB ^ Suc i" "0 < i"
  shows "top3 ws i = nval ws * BB div BB ^ (i - 1)"
proof (cases "i = 1")
  case True
  then show ?thesis using top2_div [OF assms(1,2)] by (simp add: top3_def top2_def)
next
  case False
  then obtain k where k: "i = Suc (Suc k)" using assms(3) by (cases i; cases "i - 1") auto
  then have "nval ws * BB div BB ^ (i - 1) = nval ws div BB ^ k" by simp
  with k limb_div [of k ws] limb_div [of "Suc k" ws] top_limb [OF assms(1,2)] assms(1) show ?thesis
    by (simp add: top3_def power2_eq_square)
qed

lemma lset_two:
  assumes "2 \<le> k"
  shows "nval ((mpi_p (lset_val k 0))[0 := u, Suc 0 := w]) = uint u + BB * uint w"
    "length ((mpi_p (lset_val k 0))[0 := u, Suc 0 := w]) = k"
proof -
  obtain m where "k = Suc (Suc m)" using assms by (metis add_2_eq_Suc le_Suc_ex)
  then show "nval ((mpi_p (lset_val k 0))[0 := u, Suc 0 := w]) = uint u + BB * uint w"
    "length ((mpi_p (lset_val k 0))[0 := u, Suc 0 := w]) = k"
    by (simp_all add: lset_val_def)
qed

lemma lset_three:
  assumes "3 \<le> k"
  shows "nval ((mpi_p (lset_val k 0))[0 := u, Suc 0 := v, 2 := w]) = uint u + BB * uint v + BB ^ 2 * uint w"
    "length ((mpi_p (lset_val k 0))[0 := u, Suc 0 := v, 2 := w]) = k"
proof -
  obtain m where "k = Suc (Suc (Suc m))" using assms by (metis add_Suc_right le_Suc_ex numeral_3_eq_3 add.commute)
  then show "nval ((mpi_p (lset_val k 0))[0 := u, Suc 0 := v, 2 := w]) = uint u + BB * uint v + BB ^ 2 * uint w"
    "length ((mpi_p (lset_val k 0))[0 := u, Suc 0 := v, 2 := w]) = k"
    by (simp_all add: lset_val_def numeral_2_eq_2)
qed

lemma div_T1_ok:
  assumes "oom \<sigma> = []" "t1 < sp \<sigma>" "t1 \<noteq> y" "2 \<le> mpi_n (heap \<sigma> t1)" "t < mpi_n (heap \<sigma> y)"
    and Q: "\<And>v. mpi_s v = 1 \<Longrightarrow> nval (mpi_p v) = top2 (mpi_p (heap \<sigma> y)) t * uint d \<Longrightarrow>
          2 \<le> mpi_n v \<Longrightarrow> Q () (put t1 v \<sigma>)"
  shows "ok (div_T1 t1 y t d) \<sigma> Q"
  using assms lset_two [OF assms(4)]
  by (auto simp: div_T1_def wp top2_def int_sign_def intro!: mpi_mul_int_ok Q)

lemma div_T2_ok:
  assumes "oom \<sigma> = []" "t2 \<noteq> x" "3 \<le> mpi_n (heap \<sigma> t2)" "i < mpi_n (heap \<sigma> x)"
    and Q: "\<And>v. mpi_s v = 1 \<Longrightarrow> nval (mpi_p v) = top3 (mpi_p (heap \<sigma> x)) i \<Longrightarrow>
          3 \<le> mpi_n v \<Longrightarrow> Q () (put t2 v \<sigma>)"
  shows "ok (div_T2 t2 x i) \<sigma> Q"
  using assms lset_three [OF assms(3)]
  by (auto simp: div_T2_def wp top3_def int_sign_def intro!: Q)

lemma div_test_ok:
  assumes "oom \<sigma> = []" "t1 < sp \<sigma>" "distinct [x, y, z, t1, t2]"
    and "2 \<le> mpi_n (heap \<sigma> t1)" "3 \<le> mpi_n (heap \<sigma> t2)"
    and "t < mpi_n (heap \<sigma> y)" "i < mpi_n (heap \<sigma> x)" "i - t - 1 < mpi_n (heap \<sigma> z)"
    and Q: "\<And>v1 v2 go. 2 \<le> mpi_n v1 \<Longrightarrow> 3 \<le> mpi_n v2 \<Longrightarrow>
      go = (top3 (mpi_p (heap \<sigma> x)) i < top2 (mpi_p (heap \<sigma> y)) t * uint (mpi_p (heap \<sigma> z) ! (i - t - 1) - 1)) \<Longrightarrow>
      Q go (put t2 v2 (put t1 v1 (put z ((heap \<sigma> z)\<lparr>mpi_p := (mpi_p (heap \<sigma> z))
              [i - t - 1 := mpi_p (heap \<sigma> z) ! (i - t - 1) - 1]\<rparr>) \<sigma>)))"
  shows "ok (div_test x y z t1 t2 t i) \<sigma> Q"
  using assms
  by (auto simp: div_test_def wp mpi_cmp_mpi_sgn wf_def mval_def sgn_if
      intro!: div_T1_ok div_T2_ok Q)

lemma int_div_mult_bounds:
  fixes X Y :: int
  assumes "0 < Y"
  shows "X div Y * Y \<le> X" "X < (X div Y + 1) * Y"
proof -
  have "X = X div Y * Y + X mod Y" by simp
  moreover have "0 \<le> X mod Y" "X mod Y < Y" using assms by simp_all
  ultimately show "X div Y * Y \<le> X" "X < (X div Y + 1) * Y" unfolding distrib_right by linarith+
qed

lemma digit_lower:
  fixes X Y P :: int
  assumes "0 < P" "y2 * P \<le> Y * BB" "X * BB < (x3 + 1) * P" "0 \<le> X" "0 < Y"
  shows "y2 * (X div Y) \<le> x3"
proof -
  let ?q = "X div Y"
  have q: "0 \<le> ?q" "?q * Y \<le> X"
    using assms int_div_mult_bounds [of Y X] by (auto simp: pos_imp_zdiv_nonneg_iff)
  have "y2 * P * ?q \<le> Y * BB * ?q" using assms q by (intro mult_right_mono) auto
  also have "\<dots> = ?q * Y * BB" by simp
  also have "\<dots> \<le> X * BB" using q by (intro mult_right_mono) auto
  also note assms(3)
  finally have "(y2 * ?q) * P < (x3 + 1) * P" by (simp add: ac_simps)
  then show ?thesis using assms(1) by (simp add: mult_less_cancel_right)
qed

lemma digit_upper:
  fixes X Y P :: int
  assumes "0 < P" "Y * BB < (y2 + 1) * P" "x3 * P \<le> X * BB" "0 \<le> X" "0 < Y" "X < Y * BB" "BB \<le> y2"
    and "y2 * c \<le> x3"
  shows "c \<le> X div Y + 1"
proof (rule ccontr)
  let ?q = "X div Y"
  assume "\<not> c \<le> ?q + 1"
  then have "y2 * (?q + 2) \<le> y2 * c" using assms by (intro mult_left_mono) auto
  then have "y2 * (?q + 2) \<le> x3" using assms(8) by linarith
  then have "y2 * (?q + 2) * P \<le> x3 * P" using assms(1) by (intro mult_right_mono) auto
  also note assms(3)
  also have "X * BB \<le> (?q + 1) * Y * BB"
    using int_div_mult_bounds(2) [OF assms(5), of X] by (intro mult_right_mono) auto
  also have "\<dots> = (?q + 1) * (Y * BB)" by simp
  also have "\<dots> < (?q + 1) * ((y2 + 1) * P)"
    using assms by (intro mult_strict_left_mono) (auto simp: pos_imp_zdiv_nonneg_iff add_nonneg_pos)
  finally have "(y2 * (?q + 2)) * P < ((?q + 1) * (y2 + 1)) * P" by (simp add: ac_simps)
  then have "y2 * (?q + 2) < (?q + 1) * (y2 + 1)" using assms(1) by (simp add: mult_less_cancel_right)
  then have "y2 < ?q + 1" by (simp add: algebra_simps)
  moreover have "?q < BB" using assms by (intro int_div_lessI) (auto simp: mult.commute)
  ultimately show False using assms(7) by linarith
qed

lemma div_loop_ok:
  assumes "oom \<sigma> = []" "t1 < sp \<sigma>" "distinct [x, y, z, t1, t2]"
    and "2 \<le> mpi_n (heap \<sigma> t1)" "3 \<le> mpi_n (heap \<sigma> t2)"
    and "t < mpi_n (heap \<sigma> y)" "i < mpi_n (heap \<sigma> x)"
    and z: "heap \<sigma> z = Z\<lparr>mpi_p := zs[j := word_of_int (c0 + 1)]\<rparr>" "j = i - t - 1" "j < length zs"
    and c0: "0 \<le> qs" "qs \<le> c0" "c0 < BB"
    and qs: "top2 (mpi_p (heap \<sigma> y)) t * qs \<le> top3 (mpi_p (heap \<sigma> x)) i"
    and Q: "\<And>c v1 v2. qs \<le> c \<Longrightarrow> c < BB \<Longrightarrow> top2 (mpi_p (heap \<sigma> y)) t * c \<le> top3 (mpi_p (heap \<sigma> x)) i \<Longrightarrow>
      2 \<le> mpi_n v1 \<Longrightarrow> 3 \<le> mpi_n v2 \<Longrightarrow>
      Q False (put t2 v2 (put t1 v1 (put z (Z\<lparr>mpi_p := zs[j := word_of_int c]\<rparr>) \<sigma>)))"
  shows "ok (whilec (\<lambda>go _. Some go) (\<lambda>_. div_test x y z t1 t2 t i) True) \<sigma> Q"
proof -
  let ?y = "top2 (mpi_p (heap \<sigma> y)) t" and ?x = "top3 (mpi_p (heap \<sigma> x)) i"
  let ?I = "\<lambda>go \<sigma>'. \<exists>c v1 v2. qs \<le> c \<and> c < BB \<and> (\<not> go \<longrightarrow> ?y * c \<le> ?x) \<and> 2 \<le> mpi_n v1 \<and> 3 \<le> mpi_n v2 \<and>
      \<sigma>' = put t2 v2 (put t1 v1 (put z (Z\<lparr>mpi_p := zs[j := word_of_int (if go then c + 1 else c)]\<rparr>) \<sigma>))"
  let ?m = "\<lambda>go \<sigma>'. if go then Suc (unat (mpi_p (heap \<sigma>' z) ! j - 1)) else 0"
  show ?thesis
  proof (rule ok_whilec [where I = ?I and m = ?m])
    have "\<sigma> = put t2 (heap \<sigma> t2) (put t1 (heap \<sigma> t1) (put z (Z\<lparr>mpi_p := zs[j := word_of_int (c0 + 1)]\<rparr>) \<sigma>))"
      using z(1) [symmetric] by simp
    then show "?I True \<sigma>" using c0 assms(4,5) by auto
  next
    fix go \<sigma>' assume "?I go \<sigma>'" "Some go = Some True"
    then obtain c v1 v2 where c: "qs \<le> c" "c < BB" and v: "2 \<le> mpi_n v1" "3 \<le> mpi_n v2" and go: "go"
      and \<sigma>': "\<sigma>' = put t2 v2 (put t1 v1 (put z (Z\<lparr>mpi_p := zs[j := word_of_int (c + 1)]\<rparr>) \<sigma>))"
      by auto
    have u: "uint (word_of_int c :: t_int) = c" using c c0 by (simp add: uint_word_of_int)
    have w: "(word_of_int (c + 1) :: t_int) - 1 = word_of_int c" by simp
    have un: "unat (word_of_int c - 1 :: t_int) < unat (word_of_int c :: t_int)" if "c > 0"
    proof -
      have "(word_of_int c :: t_int) \<noteq> 0" using u that by auto
      then show ?thesis by (simp add: unat_minus_one unat_gt_0)
    qed
    show "ok (div_test x y z t1 t2 t i) \<sigma>' (\<lambda>go' \<sigma>''. ?I go' \<sigma>'' \<and> ?m go' \<sigma>'' < ?m go \<sigma>')"
    proof (rule div_test_ok)
      fix u1 u2 go' assume uu: "2 \<le> mpi_n u1" "3 \<le> mpi_n u2"
        and g: "go' = (top3 (mpi_p (heap \<sigma>' x)) i < top2 (mpi_p (heap \<sigma>' y)) t * uint (mpi_p (heap \<sigma>' z) ! (i - t - 1) - 1))"
      let ?s = "put t2 u2 (put t1 u1 (put z ((heap \<sigma>' z)\<lparr>mpi_p := (mpi_p (heap \<sigma>' z))
              [i - t - 1 := mpi_p (heap \<sigma>' z) ! (i - t - 1) - 1]\<rparr>) \<sigma>'))"
      have g': "go' = (?x < ?y * c)"
        using g assms(3) z(2,3) by (simp add: \<sigma>' u w)
      have s: "?s = put t2 u2 (put t1 u1 (put z (Z\<lparr>mpi_p := zs[j := word_of_int c]\<rparr>) \<sigma>))"
        using assms(3) z(2,3) w by (simp add: \<sigma>' put_commute [of z] put_commute [of t1 t2])
      have "go' \<Longrightarrow> qs < c" using g' qs c(1) by (cases "qs = c") auto
      then have "?I go' ?s"
        unfolding s using c uu g' by (intro exI [of _ "if go' then c - 1 else c"]) auto
      moreover have "?m go' ?s < ?m go \<sigma>'"
        unfolding s using go \<open>go' \<Longrightarrow> qs < c\<close> c0(1) assms(3) z(2,3) un by (auto simp: \<sigma>' w)
      ultimately show "?I go' ?s \<and> ?m go' ?s < ?m go \<sigma>'" by blast
    qed (use assms z v in \<open>auto simp: \<sigma>'\<close>)
  qed (auto intro: Q)
qed

text \<open>The divisor after normalisation: its top limb is limb \<open>t\<close>, with bit 62 the highest set.\<close>

definition normal :: "mpi \<Rightarrow> nat \<Rightarrow> bool" where
  "normal Y t \<longleftrightarrow> mpi_s Y = 1 \<and> t < mpi_n Y \<and> nval (mpi_p Y) < BB ^ Suc t \<and>
     2 ^ 62 \<le> uint (mpi_p Y ! t) \<and> uint (mpi_p Y ! t) < 2 ^ 63"

lemma normal_bounds:
  assumes "normal Y t" "i = Suc (t + j)"
  defines "Y' \<equiv> nval (mpi_p Y) * BB ^ j"
  shows "0 < nval (mpi_p Y)" "uint (mpi_p Y ! t) * BB ^ (i - 1) \<le> Y'"
    "top2 (mpi_p Y) t * BB ^ (i - 1) \<le> Y' * BB" "Y' * BB < (top2 (mpi_p Y) t + 1) * BB ^ (i - 1)"
    "BB \<le> top2 (mpi_p Y) t" "nval (mpi_p Y) * BB ^ (i - t) = Y' * BB"
proof -
  let ?y = "nval (mpi_p Y)" and ?d = "uint (mpi_p Y ! t)" and ?y2 = "top2 (mpi_p Y) t"
  have n: "t < mpi_n Y" "?y < BB ^ Suc t" "2 ^ 62 \<le> ?d" using assms(1) by (simp_all add: normal_def)
  have p: "BB ^ (i - 1) = BB ^ t * BB ^ j" using assms(2) by (simp add: power_add)
  have d: "?d * BB ^ t \<le> ?y" using top_limb [OF n(1,2)] int_div_mult_bounds(1) [of "BB ^ t" ?y] by simp
  then show "uint (mpi_p Y ! t) * BB ^ (i - 1) \<le> Y'"
    unfolding Y'_def p by (simp add: mult.assoc [symmetric] mult_right_mono)
  have "(0::int) < BB ^ t" by simp
  with n(3) have "0 < ?d * BB ^ t" by (intro mult_pos_pos) auto
  with d show "0 < ?y" by linarith
  have y2: "?y2 * BB ^ t \<le> ?y * BB" "?y * BB < (?y2 + 1) * BB ^ t"
    using top2_div [OF n(1,2)] int_div_mult_bounds [of "BB ^ t" "?y * BB"] by simp_all
  have "?y2 * BB ^ (i - 1) = ?y2 * BB ^ t * BB ^ j" unfolding p by (simp only: ac_simps)
  also have "\<dots> \<le> ?y * BB * BB ^ j" using y2(1) by (intro mult_right_mono) auto
  finally show "?y2 * BB ^ (i - 1) \<le> Y' * BB" by (simp only: Y'_def ac_simps)
  have "Y' * BB = ?y * BB * BB ^ j" by (simp only: Y'_def ac_simps)
  also have "\<dots> < (?y2 + 1) * BB ^ t * BB ^ j" using y2(2) by (intro mult_strict_right_mono) auto
  finally show "Y' * BB < (?y2 + 1) * BB ^ (i - 1)" unfolding p by (simp only: ac_simps)
  have "0 \<le> (if t < 1 then 0 else uint (mpi_p Y ! (t - 1)))" by simp
  moreover have "BB * 1 \<le> BB * ?d" using n(3) by (intro mult_left_mono) auto
  ultimately show "BB \<le> ?y2" unfolding top2_def by linarith
  show "?y * BB ^ (i - t) = Y' * BB" using assms(2) by (simp add: Y'_def)
qed

lemma partial_bound:
  assumes "normal Y t" "t < i" "nval xs < nval (mpi_p Y) * BB ^ (i - t)"
  shows "nval xs < BB ^ Suc i"
proof -
  have "nval (mpi_p Y) * BB ^ (i - t) < BB ^ Suc t * BB ^ (i - t)"
    using assms(1) by (intro mult_strict_right_mono) (auto simp: normal_def)
  also have "\<dots> = BB ^ Suc i" using assms(2) by (simp add: power_add [symmetric])
  finally show ?thesis using assms(3) by simp
qed

lemma shift_limbs_ok:
  assumes "oom \<sigma> = []" "mpi_p (heap \<sigma> x) \<noteq> []"
    and "\<And>v. mpi_s v = mpi_s (heap \<sigma> x) \<Longrightarrow> nval (mpi_p v) = nval (mpi_p (heap \<sigma> x)) * BB ^ j \<Longrightarrow>
          mpi_n (heap \<sigma> x) \<le> mpi_n v \<Longrightarrow> Q () (put x v \<sigma>)"
  shows "ok (mpi_shift_l x (64 * j)) \<sigma> Q"
proof -
  obtain m where m: "mpi_msb (heap \<sigma> x) = Some m" using mpi_msb_defined [OF assms(2)] by blast
  have "mpi_n (heap \<sigma> x) \<le> shl_len (mpi_n (heap \<sigma> x)) (m + 64 * j)"
    using BITS_TO_LIMBS_bounds(1) [of "m + 64 * j"] by (auto simp: shl_len_def)
  then show ?thesis
    by (intro mpi_shift_l_ok [OF assms(1) m] assms(3)) (auto simp: BB_power mult.commute)
qed

lemma div_subtract_ok:
  fixes \<sigma> x y j
  defines "Y' \<equiv> nval (mpi_p (heap \<sigma> y)) * BB ^ j"
  defines "qs \<equiv> mval (heap \<sigma> x) div Y'"
  assumes "oom \<sigma> = []" "x < sp \<sigma>" "y < sp \<sigma>" "t1 < sp \<sigma>" "distinct [x, y, z, t1]"
    and "mpi_s (heap \<sigma> y) = 1" "0 < nval (mpi_p (heap \<sigma> y))" "wf (heap \<sigma> x)"
    and z: "j < mpi_n (heap \<sigma> z)" "mpi_p (heap \<sigma> z) ! j = word_of_int c" "0 \<le> c" "c < BB"
    and c: "c = qs \<or> c = qs + 1"
    and Q: "\<And>vx v1. wf vx \<Longrightarrow> mval vx = mval (heap \<sigma> x) mod Y' \<Longrightarrow>
      mpi_n (heap \<sigma> x) \<le> mpi_n vx \<Longrightarrow> mpi_n (heap \<sigma> t1) \<le> mpi_n v1 \<Longrightarrow>
      Q () (put z ((heap \<sigma> z)\<lparr>mpi_p := (mpi_p (heap \<sigma> z))[j := word_of_int qs]\<rparr>) (put x vx (put t1 v1 \<sigma>)))"
  shows "ok (div_subtract x y z t1 j) \<sigma> Q"
proof -
  let ?X = "mval (heap \<sigma> x)"
  have Y0: "0 < Y'" using assms(9) by (simp add: Y'_def)
  have yne: "mpi_p (heap \<sigma> y) \<noteq> []" using assms(9) by auto
  have u: "uint (word_of_int c :: t_int) = c" using z by (simp add: uint_word_of_int)
  have X: "?X = Y' * qs + ?X mod Y'" by (simp add: qs_def)
  have m: "0 \<le> ?X mod Y'" "?X mod Y' < Y'" using Y0 by simp_all
  have cmp: "wf v \<Longrightarrow> (c = qs \<longrightarrow> mval v = ?X mod Y') \<Longrightarrow> (c = qs + 1 \<longrightarrow> mval v = ?X mod Y' - Y') \<Longrightarrow>
      mval v < 0 \<longleftrightarrow> c = qs + 1" for v using m c by auto
  have T: "nval (mpi_p (heap \<sigma> y)) * c * BB ^ j = Y' * c" by (simp add: Y'_def)
  have w1: "word_of_int (qs + 1) - 1 = (word_of_int qs :: t_int)" by simp
  have dist: "x \<noteq> y" "x \<noteq> z" "x \<noteq> t1" "y \<noteq> z" "y \<noteq> t1" "z \<noteq> t1" using assms(7) by auto
  have step: "ok (mpi_mul_int t1 y (word_of_int c)) \<sigma> (\<lambda>_ \<sigma>'. ok (mpi_shift_l t1 (64 * j)) \<sigma>'
      (\<lambda>_ \<sigma>''. ok (mpi_sub_mpi x x t1) \<sigma>'' P))"
    if P: "\<And>vx v1. wf vx \<Longrightarrow> mval vx = ?X - Y' * c \<Longrightarrow> mpi_n (heap \<sigma> x) \<le> mpi_n vx \<Longrightarrow>
      mpi_n (heap \<sigma> t1) \<le> mpi_n v1 \<Longrightarrow> mpi_p v1 \<noteq> [] \<Longrightarrow> P () (put x vx (put t1 v1 \<sigma>))" for P
  proof (rule mpi_mul_int_ok, goal_cases)
    case (4 v)
    show ?case
    proof (rule shift_limbs_ok, goal_cases)
      case (3 v')
      have v': "mpi_s v' = 1" "mval v' = Y' * c" "wf v'"
        using 3 4 u assms(8) T by (simp_all add: mval_def wf_def)
      show ?case
      proof (rule mpi_sub_mpi_ok, goal_cases)
        case (7 vx)
        have "mpi_n (heap \<sigma> t1) \<le> mpi_n v'" "0 < mpi_n v'" using 3(3) 4(3,4) by auto
        with 7 v' dist P [of vx v'] show ?case by simp
      qed (use assms(3-6,10) dist v' in auto)
    qed (use assms(3) 4 in auto)
  qed (use assms(3,5,6) in auto)
  show ?thesis
  proof (cases "c = qs")
    case True
    have id: "(mpi_p (heap \<sigma> z))[j := word_of_int qs] = mpi_p (heap \<sigma> z)"
      using True z(2) by (metis list_update_id)
    have Q': "Q () (put x vx (put t1 v1 \<sigma>))"
      if "wf vx" "mval vx = ?X mod Y'" "mpi_n (heap \<sigma> x) \<le> mpi_n vx" "mpi_n (heap \<sigma> t1) \<le> mpi_n v1" for vx v1
      using Q [OF that] dist by (simp add: id put_commute [of z])
    have "?X - Y' * c = ?X mod Y'" using X True by simp
    with m(1) show ?thesis
      unfolding div_subtract_def ok_bindc ok_seqc ok_get_limb z(2)
      by (intro conjI z(1) step) (auto simp: wp dist mpi_cmp_int_0 intro!: Q')
  next
    case False
    then have cq: "c = qs + 1" using c by simp
    then have neg: "?X - Y' * c = ?X mod Y' - Y'" using X by (simp add: distrib_left)
    have w: "word_of_int c - 1 = (word_of_int qs :: t_int)" using cq by simp
    have undo: "ok (mpi_copy t1 y) (put x vx (put t1 v1 \<sigma>)) (\<lambda>_ \<tau>. ok (mpi_shift_l t1 (64 * j)) \<tau>
        (\<lambda>_ \<tau>. ok (mpi_add_mpi x x t1) \<tau> (\<lambda>_ \<tau>. ok (get_limb z j) \<tau>
        (\<lambda>d \<tau>. ok (set_limb z j (d - 1)) \<tau> Q))))"
      if vx: "wf vx" "mval vx = ?X mod Y' - Y'" "mpi_n (heap \<sigma> x) \<le> mpi_n vx"
        "mpi_n (heap \<sigma> t1) \<le> mpi_n v1" "mpi_p v1 \<noteq> []" for vx v1
    proof -
      let ?s = "put t1 (copied v1 (heap \<sigma> y)) (put x vx \<sigma>)"
      have cp: "mpi_p (copied v1 (heap \<sigma> y)) \<noteq> []" "mpi_n (heap \<sigma> t1) \<le> mpi_n (copied v1 (heap \<sigma> y))"
        using vx by (auto simp flip: length_greater_0_conv)
      have "ok (mpi_shift_l t1 (64 * j)) ?s
        (\<lambda>_ \<tau>. ok (mpi_add_mpi x x t1) \<tau> (\<lambda>_ \<tau>. ok (get_limb z j) \<tau>
        (\<lambda>d \<tau>. ok (set_limb z j (d - 1)) \<tau> Q)))"
      proof (rule shift_limbs_ok, goal_cases)
        case (3 v')
        have v': "mval v' = Y'" "wf v'" "mpi_n (heap \<sigma> t1) \<le> mpi_n v'"
          using 3 cp vx(4) assms(8) dist by (simp_all add: mval_def wf_def Y'_def)
        show ?case
        proof (rule mpi_add_mpi_ok, goal_cases)
          case (8 u)
          then show ?case
            using vx v' z dist w Q [of u v'] by (simp add: wp put_commute [of t1 x])
        qed (use assms(3-6,10) dist v' vx in auto)
      qed (use assms(3) cp dist in auto)
      then show ?thesis
        using dist by (simp add: mpi_copy_ok assms(3) put_commute [of t1 x])
    qed
    from neg m(2) show ?thesis
      unfolding div_subtract_def ok_bindc ok_seqc ok_get_limb z(2)
      by (intro conjI z(1) step) (simp add: ok_rd ok_defd ok_if ok_bindc ok_seqc dist mpi_cmp_int_0 undo)
  qed
qed

context digit_estimate
begin

lemma div_estimate_ok:
  assumes "normal (heap \<sigma> y) t" "safe (mpi_p (heap \<sigma> y) ! t)" "t < i" "i < mpi_n (heap \<sigma> x)"
    and X: "nval (mpi_p (heap \<sigma> x)) < nval (mpi_p (heap \<sigma> y)) * BB ^ (i - t)"
    and Q: "\<And>d. nval (mpi_p (heap \<sigma> x)) div (nval (mpi_p (heap \<sigma> y)) * BB ^ (i - t - 1)) \<le> uint d \<Longrightarrow> Q d \<sigma>"
  shows "ok (div_estimate qhat x y t i) \<sigma> Q"
proof -
  let ?X = "nval (mpi_p (heap \<sigma> x))" and ?j = "i - t - 1"
  let ?Y' = "nval (mpi_p (heap \<sigma> y)) * BB ^ ?j"
  let ?d = "mpi_p (heap \<sigma> y) ! t" and ?xi = "mpi_p (heap \<sigma> x) ! i" and ?xi1 = "mpi_p (heap \<sigma> x) ! (i - 1)"
  have i: "i = Suc (t + ?j)" using assms(3) by simp
  note Y = normal_bounds [OF assms(1) i]
  have Y0: "0 < ?Y'" using Y(1) by simp
  have ts: "t < mpi_n (heap \<sigma> y)" "2 ^ 62 \<le> uint ?d" "uint ?d < 2 ^ 63" using assms(1) by (auto simp: normal_def)
  show ?thesis
  proof (cases "?xi \<ge> ?d")
    case True
    have "?X div ?Y' < BB" using X Y0 Y(6) by (intro int_div_lessI) (auto simp: mult.commute)
    moreover have "uint (- 1 :: t_int) = BB - 1" by (simp add: unsigned_minus_1_eq_mask mask_eq_exp_minus_1)
    ultimately have "?X div ?Y' \<le> uint (- 1 :: t_int)" by linarith
    with True ts assms(3,4) show ?thesis by (simp add: div_estimate_def wp Q)
  next
    case False
    then have "uint ?xi < uint ?d" by (simp add: word_le_def)
    with qhat_exact [OF assms(2) ts(2,3)] obtain q where
      q: "qhat ?d ?xi ?xi1 = Some q" "uint q = (uint ?xi * BB + uint ?xi1) div uint ?d" by blast
    have "?X div BB ^ (i - 1) = uint ?xi * BB + uint ?xi1"
      using limb_div [of "i - 1" "mpi_p (heap \<sigma> x)"] top_limb [of i "mpi_p (heap \<sigma> x)"] assms(3,4)
        partial_bound [OF assms(1,3) X] by simp
    moreover have "?X div ?Y' \<le> ?X div BB ^ (i - 1) div uint ?d"
    proof -
      have "0 < uint ?d * BB ^ (i - 1)" using ts(2) by (intro mult_pos_pos) auto
      then have "?X div ?Y' \<le> ?X div (BB ^ (i - 1) * uint ?d)"
        using Y(2) by (intro zdiv_mono2) (auto simp: mult.commute)
      then show ?thesis by (simp add: zdiv_zmult2_eq)
    qed
    ultimately show ?thesis
      using False q ts assms(3,4) by (simp add: div_estimate_def wp Q)
  qed
qed

lemma div_digit_ok:
  fixes \<sigma> x y t i
  defines "Y' \<equiv> nval (mpi_p (heap \<sigma> y)) * BB ^ (i - t - 1)"
  defines "qs \<equiv> mval (heap \<sigma> x) div Y'"
  assumes "oom \<sigma> = []" "x < sp \<sigma>" "y < sp \<sigma>" "t1 < sp \<sigma>" "distinct [x, y, z, t1, t2]"
    and Y: "normal (heap \<sigma> y) t" "safe (mpi_p (heap \<sigma> y) ! t)" and i: "t < i" "i < mpi_n (heap \<sigma> x)"
    and n: "2 \<le> mpi_n (heap \<sigma> t1)" "3 \<le> mpi_n (heap \<sigma> t2)" "i - t - 1 < mpi_n (heap \<sigma> z)"
    and X: "wf (heap \<sigma> x)" "0 \<le> mval (heap \<sigma> x)" "mval (heap \<sigma> x) < nval (mpi_p (heap \<sigma> y)) * BB ^ (i - t)"
    and Q: "\<And>vx v1 v2. wf vx \<Longrightarrow> mval vx = mval (heap \<sigma> x) mod Y' \<Longrightarrow> mpi_n (heap \<sigma> x) \<le> mpi_n vx \<Longrightarrow>
      2 \<le> mpi_n v1 \<Longrightarrow> 3 \<le> mpi_n v2 \<Longrightarrow>
      Q () (put z ((heap \<sigma> z)\<lparr>mpi_p := (mpi_p (heap \<sigma> z))[i - t - 1 := word_of_int qs]\<rparr>)
             (put x vx (put t1 v1 (put t2 v2 \<sigma>))))"
  shows "ok (div_digit qhat x y z t1 t2 t i) \<sigma> Q"
proof -
  let ?X = "mval (heap \<sigma> x)" and ?j = "i - t - 1" and ?Z = "heap \<sigma> z"
  let ?y2 = "top2 (mpi_p (heap \<sigma> y)) t" and ?x3 = "top3 (mpi_p (heap \<sigma> x)) i"
  have nX: "nval (mpi_p (heap \<sigma> x)) = ?X" using X(1,2) by (rule nval_mval)
  have ii: "i = Suc (t + ?j)" using i by simp
  note Yb = normal_bounds [OF Y(1) ii, folded Y'_def]
  have Y0: "0 < Y'" using Yb(1) by (simp add: Y'_def)
  have P: "(0::int) < BB ^ (i - 1)" by simp
  have x3: "?x3 * BB ^ (i - 1) \<le> ?X * BB" "?X * BB < (?x3 + 1) * BB ^ (i - 1)"
    using top3_div [OF i(2) partial_bound [OF Y(1) i(1) X(3) [folded nX]]] i
      int_div_mult_bounds [OF P, of "?X * BB"]
    by (simp_all add: nX)
  have XY: "?X < Y' * BB" using X(3) Yb(6) by simp
  have qs: "0 \<le> qs" "?y2 * qs \<le> ?x3"
    using digit_lower [OF P Yb(3) x3(2) X(2) Y0] X(2) Y0 by (simp_all add: qs_def pos_imp_zdiv_nonneg_iff)
  have dist: "x \<noteq> y" "x \<noteq> z" "x \<noteq> t1" "x \<noteq> t2" "y \<noteq> z" "y \<noteq> t1" "y \<noteq> t2" "z \<noteq> t1" "z \<noteq> t2" "t1 \<noteq> t2"
    using assms(7) by auto
  show ?thesis
    unfolding div_digit_def ok_bindc
  proof (rule div_estimate_ok [OF Y i], goal_cases)
    case 1 then show ?case using X(3) by (simp add: nX)
  next
    case (2 d)
    then have d: "qs \<le> uint d" by (simp add: qs_def Y'_def nX)
    let ?s1 = "put z (?Z\<lparr>mpi_p := (mpi_p ?Z)[?j := word_of_int (uint d + 1)]\<rparr>) \<sigma>"
    have d1: "d + 1 = word_of_int (uint d + 1)" by simp
    have "ok (whilec (\<lambda>go _. Some go) (\<lambda>_. div_test x y z t1 t2 t i) True) ?s1
        (\<lambda>_ \<tau>. ok (div_subtract x y z t1 ?j) \<tau> Q)"
    proof (rule div_loop_ok [where Z = ?Z and zs = "mpi_p ?Z" and j = ?j and ?c0.0 = "uint d" and qs = qs])
      fix c v1 v2
      assume v: "2 \<le> mpi_n v1" "3 \<le> mpi_n v2" and c: "qs \<le> c" "c < BB"
        and "top2 (mpi_p (heap ?s1 y)) t * c \<le> top3 (mpi_p (heap ?s1 x)) i"
      then have "?y2 * c \<le> ?x3" using dist by simp
      then have "c \<le> qs + 1"
        using digit_upper [OF P Yb(4) x3(1) X(2) Y0 XY Yb(5)] by (simp add: qs_def)
      then have cc: "c = qs \<or> c = qs + 1" using c(1) by linarith
      let ?s = "put t2 v2 (put t1 v1 (put z (?Z\<lparr>mpi_p := (mpi_p ?Z)[?j := word_of_int c]\<rparr>) \<sigma>))"
      have s: "put t2 v2 (put t1 v1 (put z (?Z\<lparr>mpi_p := (mpi_p ?Z)[?j := word_of_int c]\<rparr>) ?s1)) = ?s"
        using dist by (intro mem_eqI) simp_all
      have hs: "heap ?s x = heap \<sigma> x" "heap ?s y = heap \<sigma> y" "sp ?s = sp \<sigma>" "oom ?s = []"
          "heap ?s z = ?Z\<lparr>mpi_p := (mpi_p ?Z)[?j := word_of_int c]\<rparr>"
        using dist assms(3) by simp_all
      have ys: "mpi_s (heap \<sigma> y) = 1" using Y(1) by (simp add: normal_def)
      have c0: "0 \<le> c" using c(1) qs(1) by linarith
      have "ok (div_subtract x y z t1 ?j) ?s Q"
      proof (rule div_subtract_ok [where c = c], goal_cases)
        case (14 vx u1)
        have e: "put z ((heap ?s z)\<lparr>mpi_p := (mpi_p (heap ?s z))[?j := word_of_int qs]\<rparr>) (put x vx (put t1 u1 ?s))
           = put z (?Z\<lparr>mpi_p := (mpi_p ?Z)[?j := word_of_int qs]\<rparr>) (put x vx (put t1 u1 (put t2 v2 \<sigma>)))"
          using dist by (intro mem_eqI) simp_all
        show ?case
          using 14 dist v unfolding hs(1,2) by (fold Y'_def, fold qs_def, unfold e) (intro Q, simp_all)
      qed (unfold hs, use assms(4-7) ys X(1) n(3) c(2) c0 cc [unfolded qs_def Y'_def] Yb(1) in \<open>simp_all\<close>)
      then show "ok (div_subtract x y z t1 ?j)
          (put t2 v2 (put t1 v1 (put z (?Z\<lparr>mpi_p := (mpi_p ?Z)[?j := word_of_int c]\<rparr>) ?s1))) Q"
        unfolding s .
    qed (use assms(3-7) n i Y qs d dist in \<open>auto simp: normal_def\<close>)
    then show ?case
      unfolding ok_seqc ok_set_limb d1 using n(3) by simp
  qed
qed

text \<open>The loop over the digits: \<open>Z * Y + X\<close> is constant and \<open>X\<close> ends below \<open>Y\<close>.\<close>

lemma div_digits_ok:
  assumes "oom \<sigma> = []" "x < sp \<sigma>" "y < sp \<sigma>" "t1 < sp \<sigma>" "distinct [x, y, z, t1, t2]"
    and Y: "normal (heap \<sigma> y) t" "safe (mpi_p (heap \<sigma> y) ! t)" and tn: "t \<le> n" "n < mpi_n (heap \<sigma> x)"
    and len: "2 \<le> mpi_n (heap \<sigma> t1)" "3 \<le> mpi_n (heap \<sigma> t2)" "n - t < mpi_n (heap \<sigma> z)"
    and X: "wf (heap \<sigma> x)" "0 \<le> mval (heap \<sigma> x)" "mval (heap \<sigma> x) < nval (mpi_p (heap \<sigma> y)) * BB ^ (n - t)"
    and Z: "\<And>l. l < n - t \<Longrightarrow> mpi_p (heap \<sigma> z) ! l = 0"
    and Q: "\<And>vz vx v1 v2. wf vx \<Longrightarrow> 0 \<le> mval vx \<Longrightarrow> mval vx < nval (mpi_p (heap \<sigma> y)) \<Longrightarrow>
      mpi_s vz = mpi_s (heap \<sigma> z) \<Longrightarrow>
      nval (mpi_p vz) * nval (mpi_p (heap \<sigma> y)) + mval vx =
        nval (mpi_p (heap \<sigma> z)) * nval (mpi_p (heap \<sigma> y)) + mval (heap \<sigma> x) \<Longrightarrow>
      Q () (put z vz (put x vx (put t1 v1 (put t2 v2 \<sigma>))))"
  shows "ok (forc (rev [Suc t..<Suc n]) (div_digit qhat x y z t1 t2 t)) \<sigma> Q"
proof -
  let ?y = "nval (mpi_p (heap \<sigma> y))"
  let ?A = "nval (mpi_p (heap \<sigma> z)) * ?y + mval (heap \<sigma> x)"
  let ?I = "\<lambda>k \<tau>. \<exists>vz vx v1 v2. \<tau> = put z vz (put x vx (put t1 v1 (put t2 v2 \<sigma>))) \<and>
      wf vx \<and> 0 \<le> mval vx \<and> mval vx < ?y * BB ^ (k - 1 - t) \<and> n < mpi_n vx \<and> 2 \<le> mpi_n v1 \<and> 3 \<le> mpi_n v2 \<and>
      mpi_s vz = mpi_s (heap \<sigma> z) \<and> n - t < mpi_n vz \<and> nval (mpi_p vz) * ?y + mval vx = ?A \<and>
      (\<forall>l<k - 1 - t. mpi_p vz ! l = 0)"
  have dist: "x \<noteq> y" "x \<noteq> z" "x \<noteq> t1" "x \<noteq> t2" "y \<noteq> z" "y \<noteq> t1" "y \<noteq> t2" "z \<noteq> t1" "z \<noteq> t2" "t1 \<noteq> t2"
    using assms(5) by auto
  show ?thesis
  proof (rule ok_for_down [where I = ?I])
    show "?I (Suc n) \<sigma>"
      using X Z tn len by (intro exI [of _ "heap \<sigma> z"] exI [of _ "heap \<sigma> x"] exI [of _ "heap \<sigma> t1"]
        exI [of _ "heap \<sigma> t2"]) simp
  next
    fix i \<tau> assume i: "Suc t \<le> i" "i < Suc n" and "?I (Suc i) \<tau>"
    then obtain vz vx v1 v2 where \<tau>: "\<tau> = put z vz (put x vx (put t1 v1 (put t2 v2 \<sigma>)))"
      and v: "wf vx" "0 \<le> mval vx" "mval vx < ?y * BB ^ (i - t)" "n < mpi_n vx" "2 \<le> mpi_n v1" "3 \<le> mpi_n v2"
        "mpi_s vz = mpi_s (heap \<sigma> z)" "n - t < mpi_n vz" "nval (mpi_p vz) * ?y + mval vx = ?A"
        "\<forall>l<i - t. mpi_p vz ! l = 0"
      by auto
    let ?l = "i - t - 1"
    let ?Y' = "?y * BB ^ ?l"
    have ii: "i = Suc (t + ?l)" using i by simp
    have h: "heap \<tau> x = vx" "heap \<tau> y = heap \<sigma> y" "heap \<tau> z = vz" "heap \<tau> t1 = v1" "heap \<tau> t2 = v2"
      "oom \<tau> = oom \<sigma>" "sp \<tau> = sp \<sigma>"
      using dist by (simp_all add: \<tau>)
    have Y0: "0 < ?Y'" using normal_bounds(1) [OF Y(1) ii] by simp
    let ?q = "mval vx div ?Y'"
    have q: "0 \<le> ?q" "?q < BB"
    proof -
      show "0 \<le> ?q" using v(2) Y0 by (simp add: pos_imp_zdiv_nonneg_iff)
      have "mval vx < ?Y' * BB" using v(3) normal_bounds(6) [OF Y(1) ii] by simp
      then show "?q < BB" using Y0 by (intro int_div_lessI) (auto simp: mult.commute)
    qed
    have l: "?l < mpi_n vz" "mpi_p vz ! ?l = 0" using v(8,10) i by auto
    have upd: "nval ((mpi_p vz)[?l := word_of_int ?q]) = nval (mpi_p vz) + BB ^ ?l * ?q"
      using q l by (simp add: nval_update uint_word_of_int)
    have tot: "nval ((mpi_p vz)[?l := word_of_int ?q]) * ?y + mval vx mod ?Y' = ?A"
    proof -
      have "(nval (mpi_p vz) + BB ^ ?l * ?q) * ?y + mval vx mod ?Y' =
          nval (mpi_p vz) * ?y + (?q * ?Y' + mval vx mod ?Y')"
        by (simp only: distrib_right distrib_left ac_simps)
      also have "?q * ?Y' + mval vx mod ?Y' = mval vx" by (rule div_mult_mod_eq)
      finally show ?thesis unfolding upd using v(9) by simp
    qed
    show "ok (div_digit qhat x y z t1 t2 t i) \<tau> (\<lambda>_. ?I i)"
    proof (rule div_digit_ok, goal_cases)
      case (16 ux u1 u2)
      let ?uz = "vz\<lparr>mpi_p := (mpi_p vz)[?l := word_of_int ?q]\<rparr>"
      have e: "put z ?uz (put x ux (put t1 u1 (put t2 u2 \<tau>))) = put z ?uz (put x ux (put t1 u1 (put t2 u2 \<sigma>)))"
        using dist by (intro mem_eqI) (simp_all add: \<tau>)
      have m: "mval ux = mval vx mod ?Y'" "0 \<le> mval ux" "mval ux < ?Y'" using 16(2) Y0 by (simp_all add: h)
      have c: "wf ux" "n < mpi_n ux" "2 \<le> mpi_n u1" "3 \<le> mpi_n u2" using 16 v(4) by (simp_all add: h)
      have "i - 1 - t = ?l" by simp
      then have b: "mval ux < ?y * BB ^ (i - 1 - t)" using m(3) by simp
      have z: "mpi_s ?uz = mpi_s (heap \<sigma> z)" "n - t < mpi_n ?uz" using v(7,8) by simp_all
      have t: "nval (mpi_p ?uz) * ?y + mval ux = ?A" using tot m(1) by simp
      have l0: "\<forall>k<i - 1 - t. mpi_p ?uz ! k = 0" using v(10) by auto
      show ?case
        unfolding h e by (intro exI conjI) (rule refl c m(2) b z t l0)+
    qed (unfold h, use assms(1-5) Y i v tn in simp_all)
  next
    fix \<tau> assume "?I (Suc t) \<tau>"
    then show "Q () \<tau>" by (elim exE conjE, hypsubst, intro Q) simp_all
  qed (use tn in simp)
qed

end

end
