(* ===== verification/Mpi_Div_Setup.thy ===== *)
theory Mpi_Div_Setup
  imports Mpi_Div
begin

text \<open>
  The normalisation of the long division: \<open>div_setup_ok\<close> says that the copies of the
  operands are shifted by the same count \<open>k\<close> so that the divisor's highest bit is bit 62 of
  its top limb.
\<close>

subsection \<open>Setting up\<close>

lemma ok_seq_to: "ok f \<sigma> (\<lambda>_ \<rho>. \<rho> = \<tau>) \<Longrightarrow> ok g \<tau> Q \<Longrightarrow> ok (seqc f g) \<sigma> Q"
  by (auto simp: ok_seqc intro: ok_mono)

lemma ok_bind_to: "ok f \<sigma> (\<lambda>w \<rho>. w = v \<and> \<rho> = \<tau>) \<Longrightarrow> ok (g v) \<tau> Q \<Longrightarrow> ok (bindc f g) \<sigma> Q"
  by (auto simp: ok_bindc intro: ok_mono)

text \<open>The store after \<open>div_setup\<close>: shifted copies of \<open>|A|\<close> and \<open>|B|\<close>, a zero \<open>Z\<close>.\<close>

lemma bit_length_limbs:
  assumes "mpi_msb Y = Some m" "nval (mpi_p Y) \<noteq> 0"
  shows "sig_limbs (mpi_p Y) * 64 < m + 64" "m \<le> sig_limbs (mpi_p Y) * 64"
proof -
  let ?w = "nval (mpi_p Y)" and ?s = "sig_limbs (mpi_p Y)"
  have m: "?w < 2 ^ m" "0 < m" "2 ^ (m - 1) \<le> ?w" using mpi_msb_spec [OF assms(1)] assms(2) by auto
  have s: "?w < BB ^ ?s" "BB ^ (?s - 1) \<le> ?w" "0 < ?s"
    using nval_less_sig [of "mpi_p Y"] nval_ge_sig [of "mpi_p Y"] sig_limbs_eq_0_iff [of "mpi_p Y"] assms(2)
    by (cases "sig_limbs (mpi_p Y)"; simp)+
  have "(2::int) ^ ((?s - 1) * 64) < 2 ^ m" using m(1) s(2) unfolding BB_power by linarith
  then have "(?s - 1) * 64 < m" by simp
  then show "?s * 64 < m + 64" using s(3) by (cases ?s) auto
  have "(2::int) ^ (m - 1) < 2 ^ (?s * 64)" using m(3) s(1) unfolding BB_power by linarith
  then have "m - 1 < ?s * 64" by simp
  then show "m \<le> ?s * 64" using m(2) by linarith
qed

lemma normal_limbs:
  assumes "s * 64 < m + 64" "m \<le> s * 64" "0 < m"
  shows "shl_len s (m + (63 - m mod 64)) * 64 = m + (63 - m mod 64) + 1"
proof -
  define u k where "u = m div 64" and "k = m mod 64"
  have m: "m = 64 * u + k" "k < 64" by (simp_all add: u_def k_def)
  have "m + (63 - m mod 64) = 64 * u + 63" using m by (simp add: k_def [symmetric])
  moreover have "s = (if k = 0 then u else u + 1)" using assms m by (auto split: if_splits)
  ultimately show ?thesis
    using m by (auto simp: shl_len_def BITS_TO_LIMBS_def)
qed

lemma shl_len_le:
  assumes "m \<le> s * 64" "c \<le> 63"
  shows "shl_len s (m + c) \<le> s + 1"
  using assms BITS_TO_LIMBS_bounds(2) [of "m + c"] by (auto simp: shl_len_def)

lemma normalI:
  assumes "mpi_s v = 1" "mpi_n v * 64 = b + 1" "nval (mpi_p v) < 2 ^ b" "2 ^ (b - 1) \<le> nval (mpi_p v)" "0 < b"
  shows "normal v (mpi_n v - 1)"
proof -
  let ?t = "mpi_n v - 1"
  have t: "?t < mpi_n v" "b = ?t * 64 + 63" using assms(2) by auto
  have st: "Suc ?t = mpi_n v" using t(1) by simp
  have n: "nval (mpi_p v) < BB ^ Suc ?t" unfolding st by (rule nval_less)
  have w: "nval (mpi_p v) div BB ^ ?t = uint (mpi_p v ! ?t)" by (rule top_limb [OF t(1) n])
  have "2 ^ (b - 1) = 2 ^ 62 * BB ^ ?t" "2 ^ b = 2 ^ 63 * BB ^ ?t"
    unfolding BB_power t(2) by (simp_all add: power_add)
  then have b: "nval (mpi_p v) < BB ^ ?t * 2 ^ 63" "2 ^ 62 * BB ^ ?t \<le> nval (mpi_p v)"
    using assms(3,4) by (simp_all add: mult.commute)
  have "2 ^ 62 * BB ^ ?t div BB ^ ?t = 2 ^ 62" by simp
  then have "2 ^ 62 \<le> nval (mpi_p v) div BB ^ ?t"
    using zdiv_mono1 [OF b(2), of "BB ^ ?t"] by simp
  moreover have "nval (mpi_p v) div BB ^ ?t < 2 ^ 63" using b(1) by (intro int_div_lessI) auto
  ultimately show ?thesis using w t(1) n assms(1) by (simp add: normal_def)
qed

lemma copied_zero_nonzero:
  assumes "nval (mpi_p A) \<noteq> 0"
  shows "mpi_n (copied mpi_zero A) = sig_limbs (mpi_p A)" "mpi_p (copied mpi_zero A) \<noteq> []"
proof -
  have "0 < sig_limbs (mpi_p A)" using assms by (simp add: sig_limbs_eq_0_iff neq0_conv [symmetric] del: neq0_conv)
  then have "copy_limbs (mpi_p A) = sig_limbs (mpi_p A)" by (auto simp: copy_limbs_def sig_limbs_def)
  with \<open>0 < sig_limbs (mpi_p A)\<close> show "mpi_n (copied mpi_zero A) = sig_limbs (mpi_p A)"
    "mpi_p (copied mpi_zero A) \<noteq> []" by (auto simp flip: length_greater_0_conv)
qed

lemma copied_zero_simps:
  assumes "nval (mpi_p A) \<noteq> 0"
  shows "mpi_s ((copied mpi_zero A)\<lparr>mpi_s := 1\<rparr>) = 1"
    "nval (mpi_p ((copied mpi_zero A)\<lparr>mpi_s := 1\<rparr>)) = nval (mpi_p A)"
    "mpi_n ((copied mpi_zero A)\<lparr>mpi_s := 1\<rparr>) = sig_limbs (mpi_p A)"
    "mpi_p ((copied mpi_zero A)\<lparr>mpi_s := 1\<rparr>) \<noteq> []"
  using copied_zero_nonzero [OF assms] by simp_all

text \<open>The state the digit loops start from, for operands of magnitude \<open>A\<close> and \<open>B\<close>.\<close>

definition div_ready :: "int \<Rightarrow> int \<Rightarrow> nat \<Rightarrow> nat \<Rightarrow> mpi \<Rightarrow> mpi \<Rightarrow> mpi \<Rightarrow> bool" where
  "div_ready A B nA k vx vy vz \<longleftrightarrow>
     mpi_s vx = 1 \<and> nval (mpi_p vx) = A * 2 ^ k \<and> mpi_n vx \<le> nA + 1 \<and>
     nval (mpi_p vy) = B * 2 ^ k \<and> normal vy (mpi_n vy - 1) \<and>
     mpi_s vz = 1 \<and> mpi_p vz = replicate (nA + 2) 0"

lemma div_setup_ok:
  fixes x :: addr
  defines "y \<equiv> x + 1" and "z \<equiv> x + 2" and "t1 \<equiv> x + 3" and "t2 \<equiv> x + 4"
  assumes mem: "oom \<sigma> = []" "a < x" "b < x" "\<And>c. x \<le> c \<Longrightarrow> c < x + 5 \<Longrightarrow> heap \<sigma> c = mpi_zero"
    and AB: "nval (mpi_p (heap \<sigma> a)) \<noteq> 0" "nval (mpi_p (heap \<sigma> b)) \<noteq> 0"
    and Q: "\<And>k vx vy vz v1 v2. div_ready (nval (mpi_p (heap \<sigma> a))) (nval (mpi_p (heap \<sigma> b)))
        (mpi_n (heap \<sigma> a)) k vx vy vz \<Longrightarrow> mpi_n v1 = 2 \<Longrightarrow> mpi_n v2 = 3 \<Longrightarrow>
        Q k (put z vz (put y vy (put x vx (put t1 v1 (put t2 v2 \<sigma>)))))"
  shows "ok (div_setup x y z t1 t2 a b) \<sigma> Q"
proof -
  let ?A = "heap \<sigma> a" and ?B = "heap \<sigma> b"
  let ?X = "(copied mpi_zero ?A)\<lparr>mpi_s := 1\<rparr>" and ?Y = "(copied mpi_zero ?B)\<lparr>mpi_s := 1\<rparr>"
  let ?z = "lset_val (mpi_n ?A + 2) 0" and ?t1 = "grown 2 mpi_zero" and ?t2 = "grown 3 mpi_zero"
  let ?s = "\<lambda>vx vy. put z ?z (put y vy (put x vx (put t1 ?t1 (put t2 ?t2 \<sigma>))))"
  note X = copied_zero_simps [OF AB(1)] and Y = copied_zero_simps [OF AB(2)]
  have dist: "x \<noteq> y" "x \<noteq> z" "x \<noteq> t1" "x \<noteq> t2" "y \<noteq> z" "y \<noteq> t1" "y \<noteq> t2" "z \<noteq> t1" "z \<noteq> t2" "t1 \<noteq> t2"
    by (simp_all add: y_def z_def t1_def t2_def)
  have ab: "a \<noteq> x" "a \<noteq> y" "a \<noteq> z" "a \<noteq> t1" "a \<noteq> t2" "b \<noteq> x" "b \<noteq> y" "b \<noteq> z" "b \<noteq> t1" "b \<noteq> t2"
    using mem(2,3) by (auto simp: y_def z_def t1_def t2_def)
  have h0: "heap \<sigma> x = mpi_zero" "heap \<sigma> y = mpi_zero" "heap \<sigma> z = mpi_zero" "heap \<sigma> t1 = mpi_zero" "heap \<sigma> t2 = mpi_zero"
    by (auto simp: mem(4) y_def z_def t1_def t2_def)
  obtain mA where mA: "mpi_msb ?X = Some mA" using mpi_msb_defined [OF X(4)] by blast
  obtain mB where mB: "mpi_msb ?Y = Some mB" using mpi_msb_defined [OF Y(4)] by blast
  have lA: "mA \<le> sig_limbs (mpi_p ?A) * 64"
    using bit_length_limbs(2) [OF mA] X(2) AB(1) sig_limbs_cong [OF X(2)] by simp
  have lB: "sig_limbs (mpi_p ?B) * 64 < mB + 64" "mB \<le> sig_limbs (mpi_p ?B) * 64"
    using bit_length_limbs [OF mB] Y(2) AB(2) sig_limbs_cong [OF Y(2)] by simp_all
  have mB0: "0 < mB" "2 ^ (mB - 1) \<le> nval (mpi_p ?B)" "nval (mpi_p ?B) < 2 ^ mB"
    using mpi_msb_spec [OF mB] Y(2) AB(2) by simp_all
  define k where "k = 63 - mB mod 64"
  have ready: "div_ready (nval (mpi_p ?A)) (nval (mpi_p ?B)) (mpi_n ?A) k vx vy ?z"
    if v: "mpi_s vx = 1" "nval (mpi_p vx) = nval (mpi_p ?A) * 2 ^ k" "mpi_n vx = shl_len (sig_limbs (mpi_p ?A)) (mA + k)"
      "mpi_s vy = 1" "nval (mpi_p vy) = nval (mpi_p ?B) * 2 ^ k" "mpi_n vy = shl_len (sig_limbs (mpi_p ?B)) (mB + k)"
    for vx vy
  proof -
    have "normal vy (mpi_n vy - 1)"
    proof (rule normalI [where b = "mB + k"])
      show "mpi_n vy * 64 = mB + k + 1" using normal_limbs [OF lB mB0(1)] v(6) by (simp only: k_def)
      show "nval (mpi_p vy) < 2 ^ (mB + k)"
        unfolding v(5) power_add using mB0(3) by (intro mult_strict_right_mono) auto
      have "mB + k - 1 = mB - 1 + k" using mB0(1) by simp
      then show "2 ^ (mB + k - 1) \<le> nval (mpi_p vy)"
        unfolding v(5) using mB0(2) by (simp only: power_add) (intro mult_right_mono, auto)
    qed (use v mB0 in auto)
    moreover have "mpi_n vx \<le> mpi_n ?A + 1"
      using shl_len_le [OF lA, of k] k_def v(3) sig_limbs_le [of "mpi_p ?A"] by linarith
    moreover have "mpi_p ?z = replicate (mpi_n ?A + 2) 0" by (simp add: lset_val_def)
    ultimately show ?thesis
      using v by (simp add: div_ready_def int_sign_def)
  qed
  have Q': "Q k (?s vx vy)"
    if "mpi_s vx = 1" "nval (mpi_p vx) = nval (mpi_p ?A) * 2 ^ k" "mpi_n vx = shl_len (sig_limbs (mpi_p ?A)) (mA + k)"
      "mpi_s vy = 1" "nval (mpi_p vy) = nval (mpi_p ?B) * 2 ^ k" "mpi_n vy = shl_len (sig_limbs (mpi_p ?B)) (mB + k)"
    for vx vy
    by (rule Q [OF ready [OF that]]) simp_all
  have shift: "ok (div_shift x y mB) (?s ?X ?Y) Q"
  proof (cases "mB mod 64 < 63")
    case True
    have "ok (mpi_shift_l x k) (?s ?X ?Y) (\<lambda>_ \<tau>. ok (mpi_shift_l y k) \<tau> (\<lambda>_. Q k))"
    proof (rule mpi_shift_l_ok [where m = mA], goal_cases)
      case (3 vx)
      have vx: "mpi_s vx = 1" "nval (mpi_p vx) = nval (mpi_p ?A) * 2 ^ k"
        "mpi_n vx = shl_len (sig_limbs (mpi_p ?A)) (mA + k)"
        using 3 dist X by simp_all
      show ?case
      proof (rule mpi_shift_l_ok [where m = mB], goal_cases)
        case (3 vy)
        have e: "put y vy (put x vx (?s ?X ?Y)) = ?s vx vy"
          using dist by (intro mem_eqI) simp_all
        show ?case unfolding e using 3 dist Y by (intro Q' vx) simp_all
      qed (use dist mem(1) mB in simp_all)
    qed (use dist mem(1) mA in simp_all)
    with True show ?thesis by (simp add: div_shift_def Let_def ok_seqc ok_ret k_def)
  next
    case False
    then have k0: "k = 0" "mB mod 64 = 63" unfolding k_def by simp_all
    have "mpi_n ?X = shl_len (sig_limbs (mpi_p ?A)) (mA + k)" "mpi_n ?Y = shl_len (sig_limbs (mpi_p ?B)) (mB + k)"
      using lA lB X(3) Y(3) by (simp_all add: k0 shl_len_def)
    then have "Q k (?s ?X ?Y)" using X Y k0(1) by (intro Q') simp_all
    then show ?thesis using k0 by (simp add: div_shift_def Let_def ok_ret)
  qed
  let ?s4 = "put x ?X (put y ?Y \<sigma>)"
  let ?s8 = "put t2 ?t2 (put t1 ?t1 (put z ?z ?s4))"
  have s8: "?s8 = ?s ?X ?Y" using dist by (intro mem_eqI) simp_all
  have zz: "lset_val (Suc (Suc (mpi_n ?A))) 0 = ?z" by simp
  show ?thesis
    unfolding div_setup_def
  proof (rule ok_seq_to [where \<tau> = "put x (copied mpi_zero ?A) \<sigma>"],
      simp add: mpi_copy_ok mem(1) ab h0 ab(1) [symmetric])
    show "ok (seqc (mpi_copy y b) (seqc (set_s y 1) (seqc (set_s x 1)
       (bindc (rd a) (\<lambda>A.
         seqc (mpi_grow z (mpi_n A + 2)) (seqc (mpi_lset z 0)
           (seqc (mpi_grow t1 2) (seqc (mpi_grow t2 3)
             (bindc (rd y) (\<lambda>Y. bindc (defd (mpi_msb Y)) (div_shift x y)))))))))))
        (put x (copied mpi_zero ?A) \<sigma>) Q"
      apply (rule ok_seq_to [where \<tau> = "put y (copied mpi_zero ?B) (put x (copied mpi_zero ?A) \<sigma>)"])
       apply (simp add: mpi_copy_ok mem(1) ab h0 ab [symmetric] dist dist [symmetric])
      apply (rule ok_seq_to [where \<tau> = "put y ?Y (put x (copied mpi_zero ?A) \<sigma>)"])
       apply (simp add: ok_set_s dist dist [symmetric])
      apply (rule ok_seq_to [where \<tau> = "put x ?X (put y ?Y \<sigma>)"])
       apply (simp add: ok_set_s dist dist [symmetric] put_commute [of x y])
      apply (rule ok_bind_to [where \<tau> = "put x ?X (put y ?Y \<sigma>)" and v = ?A])
       apply (simp add: ok_rd ab)
      apply (rule ok_seq_to [where \<tau> = "put z (grown (mpi_n ?A + 2) mpi_zero) ?s4"])
       apply (simp add: mpi_grow_ok mem(1) h0 dist dist [symmetric])
      apply (rule ok_seq_to [where \<tau> = "put z ?z ?s4"])
       apply (simp add: mpi_lset_ok mem(1))
      apply (rule ok_seq_to [where \<tau> = "put t1 ?t1 (put z ?z ?s4)"])
       apply (simp add: mpi_grow_ok mem(1) h0 dist dist [symmetric])
      apply (rule ok_seq_to [where \<tau> = ?s8])
       apply (simp add: mpi_grow_ok mem(1) h0 dist dist [symmetric])
      apply (rule ok_bind_to [where \<tau> = ?s8 and v = ?Y])
       apply (simp add: ok_rd dist dist [symmetric])
      apply (rule ok_bind_to [where \<tau> = ?s8 and v = mB])
       apply (simp add: ok_defd mB)
      apply (unfold s8, rule shift)
      done
  qed
qed

end
