(* ===== verification/Mpi_Divmod.thy ===== *)
theory Mpi_Divmod
  imports Mpi_Div_Setup "HOL-Library.Log_Nat"
begin

text \<open>
  The long division as a whole: the top digit, the results. The rule \<open>mpi_div_mpi_ok\<close>
  gives quotient and remainder of the truncating division; then \<open>mpi_div_int\<close>,
  \<open>mpi_mod_mpi\<close> and \<open>mpi_mod_int\<close>.
\<close>

subsection \<open>Definitions\<close>

definition mpi_mod_mpi ::
  "(t_int \<Rightarrow> t_int \<Rightarrow> t_int \<Rightarrow> t_int option) \<Rightarrow> addr \<Rightarrow> addr \<Rightarrow> addr \<Rightarrow> unit cm" where
  "mpi_mod_mpi qhat r a b =
     bindc (rd b) (\<lambda>B. bindc (defd (mpi_cmp_int B 0)) (\<lambda>c.
       if c < 0 then throw POLARSSL_ERR_MPI_NEGATIVE_VALUE
       else seqc (mpi_div_mpi qhat None (Some r) a b)
         (seqc (whilec (\<lambda>_ \<sigma>. map_option (\<lambda>c. c < 0) (mpi_cmp_int (heap \<sigma> r) 0))
                  (\<lambda>_. mpi_add_mpi r r b) ())
           (whilec (\<lambda>_ \<sigma>. Some (mpi_cmp_mpi (heap \<sigma> r) (heap \<sigma> b) \<ge> 0))
                  (\<lambda>_. mpi_sub_mpi r r b) ()))))"

text \<open>One half limb of \<open>mpi_mod_int\<close>: shift in \<open>biH\<close> bits, reduce.\<close>

definition mod_half :: "t_int \<Rightarrow> t_int \<Rightarrow> t_int \<Rightarrow> t_int" where
  "mod_half b y x = (let y = push_bit 32 y OR drop_bit 32 x; z = y div b in y - z * b)"

fun mod_limbs :: "t_int \<Rightarrow> t_int list \<Rightarrow> t_int \<Rightarrow> t_int" where
  "mod_limbs b [] y = y"
| "mod_limbs b (x # xs) y = mod_limbs b xs (mod_half b (mod_half b y x) (push_bit 32 x))"

definition mpi_mod_int :: "mpi \<Rightarrow> int \<Rightarrow> (int + t_int) option" where
  "mpi_mod_int A b =
     (if b = 0 then Some (Inl POLARSSL_ERR_MPI_DIVISION_BY_ZERO)
      else if b < 0 then Some (Inl POLARSSL_ERR_MPI_NEGATIVE_VALUE)
      else if b = 1 then Some (Inr 0)
      else if b = 2 then (case mpi_p A of [] \<Rightarrow> None | p0 # _ \<Rightarrow> Some (Inr (p0 AND 1)))
      else let y = mod_limbs (word_of_int b) (rev (mpi_p A)) 0
           in Some (Inr (if mpi_s A < 0 \<and> y \<noteq> 0 then word_of_int b - y else y)))"

subsection \<open>The top digit\<close>

lemma mval_s1: "mpi_s X = 1 \<Longrightarrow> mval X = nval (mpi_p X)"
  by (simp add: mval_def)

lemma div_top_ok:
  assumes "oom \<sigma> = []" "x < sp \<sigma>" "y < sp \<sigma>" "distinct [x, y, z]"
    and s: "mpi_s (heap \<sigma> x) = 1" "mpi_s (heap \<sigma> y) = 1"
    and A: "0 < nval (mpi_p (heap \<sigma> y))" "nval (mpi_p (heap \<sigma> x)) < 4 * nval (mpi_p (heap \<sigma> y))"
    and z: "j < mpi_n (heap \<sigma> z)" "mpi_p (heap \<sigma> z) ! j = 0"
    and Q: "\<And>c vx. 0 \<le> c \<Longrightarrow> c < 4 \<Longrightarrow> mpi_s vx = 1 \<Longrightarrow> nval (mpi_p vx) < nval (mpi_p (heap \<sigma> y)) \<Longrightarrow>
      c * nval (mpi_p (heap \<sigma> y)) + nval (mpi_p vx) = nval (mpi_p (heap \<sigma> x)) \<Longrightarrow>
      mpi_n (heap \<sigma> x) \<le> mpi_n vx \<Longrightarrow>
      Q () (put z ((heap \<sigma> z)\<lparr>mpi_p := (mpi_p (heap \<sigma> z))[j := word_of_int c]\<rparr>) (put x vx \<sigma>))"
  shows "ok (div_top x y z j) \<sigma> Q"
proof -
  let ?Z = "heap \<sigma> z" and ?Y = "nval (mpi_p (heap \<sigma> y))" and ?A = "nval (mpi_p (heap \<sigma> x))"
  let ?I = "\<lambda>_ \<tau>. \<exists>c vx. \<tau> = put z (?Z\<lparr>mpi_p := (mpi_p ?Z)[j := word_of_int c]\<rparr>) (put x vx \<sigma>) \<and>
      0 \<le> c \<and> mpi_s vx = 1 \<and> c * ?Y + nval (mpi_p vx) = ?A \<and> mpi_n (heap \<sigma> x) \<le> mpi_n vx"
  have dist: "x \<noteq> y" "x \<noteq> z" "y \<noteq> z" using assms(4) by auto
  have id: "(mpi_p ?Z)[j := 0] = mpi_p ?Z" using z(2) by (metis list_update_id)
  have c4: "c < 4" if "c * ?Y + nval (mpi_p vx) = ?A" for c vx
  proof (rule ccontr)
    assume "\<not> c < 4"
    then have "4 * ?Y \<le> c * ?Y" using A(1) by (intro mult_right_mono) auto
    with that A(2) nval_nonneg [of "mpi_p vx"] show False by linarith
  qed
  show ?thesis
    unfolding div_top_def
  proof (rule ok_whilec [where I = ?I and m = "\<lambda>_ \<tau>. nat (nval (mpi_p (heap \<tau> x)))"])
    show "?I () \<sigma>" using s id by (intro exI [of _ 0] exI [of _ "heap \<sigma> x"]) simp
  next
    fix v :: unit and \<tau> assume "?I v \<tau>" and t: "Some (mpi_cmp_mpi (heap \<tau> x) (heap \<tau> y) \<ge> 0) = Some True"
    then obtain c vx where \<tau>: "\<tau> = put z (?Z\<lparr>mpi_p := (mpi_p ?Z)[j := word_of_int c]\<rparr>) (put x vx \<sigma>)"
      and c: "0 \<le> c" "mpi_s vx = 1" "c * ?Y + nval (mpi_p vx) = ?A" "mpi_n (heap \<sigma> x) \<le> mpi_n vx"
      by blast
    have h: "heap \<tau> x = vx" "heap \<tau> y = heap \<sigma> y" "heap \<tau> z = ?Z\<lparr>mpi_p := (mpi_p ?Z)[j := word_of_int c]\<rparr>"
      "sp \<tau> = sp \<sigma>" "oom \<tau> = []"
      using dist assms(1) by (simp_all add: \<tau>)
    have ge: "?Y \<le> nval (mpi_p vx)"
      using t s c(2) unfolding h by (simp add: mpi_cmp_mpi_sgn wf_def mval_def sgn_if split: if_splits)
    let ?z' = "?Z\<lparr>mpi_p := (mpi_p ?Z)[j := word_of_int (c + 1)]\<rparr>"
    have "ok (mpi_sub_mpi x x y) (put z ?z' \<tau>) (\<lambda>_ \<rho>. ?I () \<rho> \<and>
        nat (nval (mpi_p (heap \<rho> x))) < nat (nval (mpi_p (heap \<tau> x))))"
    proof (rule mpi_sub_mpi_ok, goal_cases)
      case (7 u)
      have hz: "heap (put z ?z' \<tau>) x = vx" "heap (put z ?z' \<tau>) y = heap \<sigma> y" using dist h by simp_all
      have u: "wf u" "mval u = nval (mpi_p vx) - ?Y" "mval u = 0 \<Longrightarrow> mpi_s u = 1" "mpi_n vx \<le> mpi_n u"
        using 7 [unfolded hz] c(2) s(2) mval_s1 by simp_all
      have us: "mpi_s u = 1" using u(1-3) ge mval_sign [OF u(1)] by (cases "mval u = 0") (auto simp: sgn_if)
      have un: "nval (mpi_p u) = nval (mpi_p vx) - ?Y" using u(2) us by (simp add: mval_def)
      have e: "put x u (put z ?z' \<tau>) = put z ?z' (put x u \<sigma>)" using dist by (intro mem_eqI) (simp_all add: \<tau>)
      have "?I () (put z ?z' (put x u \<sigma>))"
        using c u un us by (intro exI [of _ "c + 1"] exI [of _ u]) (simp add: distrib_right)
      then show ?case unfolding e using un ge A(1) dist by (simp add: h)
    qed (use assms(1-3) dist h c s in \<open>simp_all add: wf_def\<close>)
    note sub = this
    have eq: "(heap \<tau> z)\<lparr>mpi_p := (mpi_p (heap \<tau> z))[j := mpi_p (heap \<tau> z) ! j + 1]\<rparr> = ?z'"
      using z(1) by (simp add: h)
    have jl: "j < mpi_n (heap \<tau> z)" using z(1) by (simp add: h)
    show "ok (bindc (get_limb z j) (\<lambda>d. seqc (set_limb z j (d + 1)) (ignore (mpi_sub_mpi x x y)))) \<tau>
        (\<lambda>v' \<rho>. ?I v' \<rho> \<and> nat (nval (mpi_p (heap \<rho> x))) < nat (nval (mpi_p (heap \<tau> x))))"
      unfolding ok_bindc ok_get_limb ok_seqc ok_set_limb eq
      by (intro conjI jl ok_ignore sub)
  next
    fix v :: unit and \<tau> assume "?I v \<tau>" and t: "Some (mpi_cmp_mpi (heap \<tau> x) (heap \<tau> y) \<ge> 0) = Some False"
    then obtain c vx where \<tau>: "\<tau> = put z (?Z\<lparr>mpi_p := (mpi_p ?Z)[j := word_of_int c]\<rparr>) (put x vx \<sigma>)"
      and c: "0 \<le> c" "mpi_s vx = 1" "c * ?Y + nval (mpi_p vx) = ?A" "mpi_n (heap \<sigma> x) \<le> mpi_n vx"
      by blast
    have h: "heap \<tau> x = vx" "heap \<tau> y = heap \<sigma> y" using dist by (simp_all add: \<tau>)
    have "nval (mpi_p vx) < ?Y"
      using t s c(2) unfolding h by (simp add: mpi_cmp_mpi_sgn wf_def mval_def sgn_if split: if_splits)
    then show "Q v \<tau>" using c c4 [OF c(3)] by (cases v) (simp add: \<tau> Q)
  qed simp
qed

subsection \<open>The results\<close>

definition put_opt :: "addr option \<Rightarrow> mpi \<Rightarrow> mem \<Rightarrow> mem" where
  "put_opt q v \<sigma> = (case q of None \<Rightarrow> \<sigma> | Some a \<Rightarrow> put a v \<sigma>)"

lemma put_opt_simps [simp]: "put_opt None v \<sigma> = \<sigma>" "put_opt (Some a) v \<sigma> = put a v \<sigma>"
  by (simp_all add: put_opt_def)

text \<open>Quotient and remainder of the truncating division, as the code leaves them.\<close>

definition div_result :: "mpi \<Rightarrow> mpi \<Rightarrow> mpi \<Rightarrow> mpi \<Rightarrow> bool" where
  "div_result A B vq vr \<longleftrightarrow>
     nval (mpi_p vq) = nval (mpi_p A) div nval (mpi_p B) \<and>
     (mpi_s vq = mpi_s A * mpi_s B \<or> nval (mpi_p vq) = 0 \<and> mpi_s vq = 1) \<and>
     nval (mpi_p vr) = nval (mpi_p A) mod nval (mpi_p B) \<and>
     (mpi_s vr = mpi_s A \<or> nval (mpi_p vr) = 0 \<and> mpi_s vr = 1) \<and>
     (nval (mpi_p vr) = 0 \<longrightarrow> mpi_s vr = 1 \<or> nval (mpi_p A) = 0)"

lemma div_result_wf: "div_result A B vq vr \<Longrightarrow> wf A \<Longrightarrow> wf B \<Longrightarrow> wf vq \<and> wf vr"
  by (auto simp: div_result_def wf_def)

lemma div_result_mval:
  assumes "div_result A B vq vr" "wf A" "wf B" "nval (mpi_p B) \<noteq> 0"
  shows "mval A = mval vq * mval B + mval vr" "\<bar>mval vr\<bar> < \<bar>mval B\<bar>" "mval vr = 0 \<or> sgn (mval vr) = sgn (mval A)"
proof -
  let ?a = "nval (mpi_p A)" and ?b = "nval (mpi_p B)"
  have b: "0 < ?b" using assms(4) by (rule nval_pos)
  have s: "mval vq = mpi_s A * mpi_s B * (?a div ?b)" "mval vr = mpi_s A * (?a mod ?b)"
    using assms(1) by (auto simp: div_result_def mval_def)
  have ss: "mpi_s B * mpi_s B = 1" using assms(3) by (auto simp: wf_def)
  have "mval vq * mval B = (mpi_s B * mpi_s B) * (mpi_s A * (?a div ?b * ?b))"
    unfolding s by (simp only: mval_def ac_simps)
  then have "mval vq * mval B + mval vr = mpi_s A * (?a div ?b * ?b + ?a mod ?b)"
    unfolding s(2) ss by (simp only: distrib_left mult_1_left)
  then show "mval A = mval vq * mval B + mval vr" unfolding div_mult_mod_eq by (simp add: mval_def)
  have m: "0 \<le> ?a mod ?b" "?a mod ?b < ?b" using b by simp_all
  then show "\<bar>mval vr\<bar> < \<bar>mval B\<bar>"
    using assms(2,3) unfolding s by (auto simp: mval_def wf_def)
  show "mval vr = 0 \<or> sgn (mval vr) = sgn (mval A)"
  proof (cases "?a mod ?b = 0")
    case False
    then have "0 < ?a mod ?b" "?a \<noteq> 0" using m by auto
    then have "0 < ?a" by (intro nval_pos) simp
    with \<open>0 < ?a mod ?b\<close> show ?thesis unfolding s by (simp add: mval_def sgn_mult)
  qed (simp add: s)
qed

lemma div_quotient_ok:
  assumes "oom \<sigma> = []" "mpi_s (heap \<sigma> z) = 1" "q \<noteq> Some z" "q \<noteq> Some b" "q = Some a \<longrightarrow> mpi_s (heap \<sigma> a) = 1"
    and Q: "\<And>v. mpi_s v = mpi_s (heap \<sigma> a) * mpi_s (heap \<sigma> b) \<Longrightarrow> nval (mpi_p v) = nval (mpi_p (heap \<sigma> z)) \<Longrightarrow>
       (\<forall>q'. q = Some q' \<longrightarrow> mpi_n (heap \<sigma> q') \<le> mpi_n v) \<Longrightarrow> Q () (put_opt q v \<sigma>)"
  shows "ok (div_quotient q z a b) \<sigma> Q"
proof (cases q)
  case None
  then show ?thesis
    using Q [of "(heap \<sigma> z)\<lparr>mpi_s := mpi_s (heap \<sigma> a) * mpi_s (heap \<sigma> b)\<rparr>"] by (simp add: div_quotient_def ok_ret)
next
  case (Some q')
  let ?v = "(copied (heap \<sigma> q') (heap \<sigma> z))\<lparr>mpi_s := mpi_s (heap \<sigma> a) * mpi_s (heap \<sigma> b)\<rparr>"
  from assms Some have "q' \<noteq> z" "b \<noteq> q'" "a = q' \<longrightarrow> mpi_s (heap \<sigma> a) = 1" by auto
  then show ?thesis
    using Q [of ?v] Some assms(1,2)
    by (auto simp: div_quotient_def wp intro!: ok_ignore)
qed

lemma div_remainder_ok:
  assumes "oom \<sigma> = []" "r \<noteq> Some x" "a \<noteq> x" "wf (heap \<sigma> x)" "wf (heap \<sigma> a)" "0 \<le> mval (heap \<sigma> x)"
    and "r = Some a \<longrightarrow> mpi_s (heap \<sigma> a) = 1"
    and Q: "\<And>v w. nval (mpi_p v) = nval (mpi_p (heap \<sigma> x)) div 2 ^ k \<Longrightarrow>
       mpi_s v = (if nval (mpi_p v) = 0 then 1 else mpi_s (heap \<sigma> a)) \<Longrightarrow>
       (\<forall>r'. r = Some r' \<longrightarrow> mpi_n (heap \<sigma> r') \<le> mpi_n v) \<Longrightarrow> Q () (put_opt r v (put x w \<sigma>))"
  shows "ok (div_remainder r x k a) \<sigma> Q"
proof (cases r)
  case None
  let ?p = "shr_list (int k) (mpi_p (heap \<sigma> x))"
  have "Q () (put_opt r \<lparr>mpi_s = if nval ?p = 0 then 1 else mpi_s (heap \<sigma> a), mpi_p = ?p\<rparr> (put x (heap \<sigma> x) \<sigma>))"
    using None by (intro Q) (simp_all add: shr_list_val)
  with None show ?thesis by (simp add: div_remainder_def ok_ret)
next
  case (Some r')
  let ?X = "(heap \<sigma> x)\<lparr>mpi_p := shr_list (int k) (mpi_p (heap \<sigma> x))\<rparr>"
  have X: "nval (mpi_p ?X) = nval (mpi_p (heap \<sigma> x)) div 2 ^ k" by (simp add: shr_list_val)
  have r': "r' \<noteq> x" "r' = a \<longrightarrow> mpi_s (heap \<sigma> a) = 1" using assms Some by auto
  let ?c = "copied (heap \<sigma> r') ?X"
  let ?s = "if r' = a then mpi_s (heap \<sigma> x) else mpi_s (heap \<sigma> a)"
  have n: "nval (mpi_p ?c) = nval (mpi_p (heap \<sigma> x)) div 2 ^ k" "mpi_n (heap \<sigma> r') \<le> mpi_n ?c"
    using X by simp_all
  have s: "nval (mpi_p (heap \<sigma> x)) div 2 ^ k \<noteq> 0 \<Longrightarrow> ?s = mpi_s (heap \<sigma> a)"
  proof -
    assume nz: "nval (mpi_p (heap \<sigma> x)) div 2 ^ k \<noteq> 0"
    then have "nval (mpi_p (heap \<sigma> x)) \<noteq> 0" by auto
    then have "0 < nval (mpi_p (heap \<sigma> x))" by (rule nval_pos)
    then have "mpi_s (heap \<sigma> x) = 1" using assms(4,6) by (auto simp: wf_def mval_def)
    with r'(2) show "?s = mpi_s (heap \<sigma> a)" by simp
  qed
  have wfs: "wf (?c\<lparr>mpi_s := ?s\<rparr>)" using assms(4,5) by (simp add: wf_def)
  have cmp: "mpi_cmp_int (?c\<lparr>mpi_s := ?s\<rparr>) 0 = Some (sgn (?s * (nval (mpi_p (heap \<sigma> x)) div 2 ^ k)))"
    using mpi_cmp_int_0 [OF wfs] X by (simp add: mval_def)
  have zero: "sgn (?s * (nval (mpi_p (heap \<sigma> x)) div 2 ^ k)) = 0 \<longleftrightarrow> nval (mpi_p (heap \<sigma> x)) div 2 ^ k = 0"
    using wfs by (auto simp: wf_def sgn_0_0)
  let ?t = "put r' ?c (put x ?X \<sigma>)"
  have ha: "mpi_s (heap ?t a) = ?s" using assms(3) by simp
  have "ok (bindc (rd r') (\<lambda>R. bindc (defd (mpi_cmp_int R 0)) (\<lambda>c. if c = 0 then set_s r' 1 else ret ())))
       (put r' (?c\<lparr>mpi_s := ?s\<rparr>) (put x ?X \<sigma>)) Q"
  proof (cases "nval (mpi_p (heap \<sigma> x)) div 2 ^ k = 0")
    case True
    have "Q () (put_opt r (?c\<lparr>mpi_s := 1\<rparr>) (put x ?X \<sigma>))"
      using True n Some by (intro Q) simp_all
    then show ?thesis
      using True Some cmp by (simp add: ok_bindc ok_rd ok_defd ok_set_s)
  next
    case False
    have "Q () (put_opt r (?c\<lparr>mpi_s := ?s\<rparr>) (put x ?X \<sigma>))"
      using False n Some s by (intro Q) simp_all
    then show ?thesis
      using False Some zero by (simp add: ok_bindc ok_rd ok_defd ok_ret cmp del: sgn_mult)
  qed
  then show ?thesis
    unfolding div_remainder_def Some option.case
    apply -
    apply (rule ok_seq_to [where \<tau> = "put x ?X \<sigma>"])
     apply (simp add: mpi_shift_r_ok)
    apply (rule ok_seq_to [where \<tau> = ?t])
     apply (rule ok_ignore, simp add: mpi_copy_ok assms(1) r')
    apply (rule ok_bind_to [where \<tau> = ?t and v = "heap ?t a"])
     apply (simp add: ok_rd)
    apply (rule ok_seq_to [where \<tau> = "put r' (?c\<lparr>mpi_s := ?s\<rparr>) (put x ?X \<sigma>)"])
     apply (simp only: ok_set_s ha, simp)
    apply assumption
    done
qed

subsection \<open>The division\<close>

text \<open>The top 63 bits of the divisor, which its normalised top limb will hold, are safe.\<close>

definition div_safe :: "(t_int \<Rightarrow> bool) \<Rightarrow> int \<Rightarrow> bool" where
  "div_safe safe b \<longleftrightarrow> safe (word_of_int (b * 2 ^ 63 div 2 ^ floorlog 2 (nat b)))"

lemma floorlog_unique:
  assumes "2 ^ (e - 1) \<le> b \<and> b < 2 ^ e" "0 < e"
  shows "floorlog 2 (nat b) = e"
proof (rule antisym)
  have "nat b < 2 ^ e" using assms(1) by (simp add: nat_less_iff)
  then show "floorlog 2 (nat b) \<le> e" by (intro floorlog_leI) auto
  show "e \<le> floorlog 2 (nat b)"
  proof (rule ccontr)
    assume "\<not> e \<le> floorlog 2 (nat b)"
    then have "floorlog 2 (nat b) \<le> e - 1" by simp
    then have "nat b < 2 ^ (e - 1)" by (rule floorlog_leD) simp
    then have "b < 2 ^ (e - 1)" using assms(1) by (simp add: nat_less_iff)
    with assms(1) show False by simp
  qed
qed

lemma div_safe_normal:
  assumes "div_safe safe b" "normal vy t" "nval (mpi_p vy) = b * 2 ^ k" "0 < b"
  shows "safe (mpi_p vy ! t)"
proof -
  let ?w = "nval (mpi_p vy)"
  have n: "t < mpi_n vy" "?w < BB ^ Suc t" "2 ^ 62 \<le> uint (mpi_p vy ! t)" "uint (mpi_p vy ! t) < 2 ^ 63"
    using assms(2) by (auto simp: normal_def)
  have w: "?w div BB ^ t = uint (mpi_p vy ! t)" by (rule top_limb [OF n(1,2)])
  have B: "(0::int) < BB ^ t" by simp
  have lo: "2 ^ (t * 64 + 62) \<le> ?w"
  proof -
    have "2 ^ 62 * BB ^ t \<le> ?w div BB ^ t * BB ^ t" unfolding w using n(3) by (intro mult_right_mono) auto
    also note int_div_mult_bounds(1) [OF B]
    finally show ?thesis by (simp add: BB_power power_add)
  qed
  have hi: "?w < 2 ^ (t * 64 + 63)"
  proof -
    have "?w < (?w div BB ^ t + 1) * BB ^ t" by (rule int_div_mult_bounds(2) [OF B])
    also have "\<dots> \<le> 2 ^ 63 * BB ^ t" unfolding w using n(4) by (intro mult_right_mono) auto
    finally show ?thesis by (simp add: BB_power power_add mult.commute)
  qed
  have k: "k < t * 64 + 63"
  proof -
    have "(2::int) ^ k \<le> b * 2 ^ k" using assms(4) by simp
    with hi assms(3) have "(2::int) ^ k < 2 ^ (t * 64 + 63)" by linarith
    then show ?thesis by simp
  qed
  let ?e = "t * 64 + 63 - k"
  have "2 ^ (?e - 1) \<le> b \<and> b < 2 ^ ?e"
  proof
    have "(2::int) ^ (?e - 1) * 2 ^ k = 2 ^ (t * 64 + 62)" using k by (simp add: power_add [symmetric])
    with lo assms(3) have "(2::int) ^ (?e - 1) * 2 ^ k \<le> b * 2 ^ k" by simp
    then show "2 ^ (?e - 1) \<le> b" by simp
    have "(2::int) ^ ?e * 2 ^ k = 2 ^ (t * 64 + 63)" using k by (simp add: power_add [symmetric])
    with hi assms(3) have "b * 2 ^ k < 2 ^ ?e * 2 ^ k" by simp
    then show "b < 2 ^ ?e" by simp
  qed
  then have "floorlog 2 (nat b) = ?e"
    using k by (intro floorlog_unique) auto
  moreover have "b * 2 ^ 63 div 2 ^ ?e = ?w div BB ^ t"
  proof -
    have "b * 2 ^ 63 div 2 ^ ?e = (b * 2 ^ 63) * 2 ^ k div (2 ^ ?e * 2 ^ k)" by simp
    also have "(2::int) ^ ?e * 2 ^ k = 2 ^ (t * 64 + 63)" using k by (simp add: power_add [symmetric])
    also have "(2::int) ^ (t * 64 + 63) = BB ^ t * 2 ^ 63" by (simp add: BB_power power_add)
    also have "(b * 2 ^ 63) * 2 ^ k = ?w * 2 ^ 63" using assms(3) by simp
    finally show ?thesis by simp
  qed
  ultimately show ?thesis using assms(1) w by (simp add: div_safe_def)
qed

lemma normal_cong:
  assumes "normal Y t" "mpi_s Y' = 1" "nval (mpi_p Y') = nval (mpi_p Y)" "t < mpi_n Y'"
  shows "normal Y' t" "mpi_p Y' ! t = mpi_p Y ! t"
proof -
  have n: "t < mpi_n Y" "nval (mpi_p Y) < BB ^ Suc t" using assms(1) by (auto simp: normal_def)
  have "uint (mpi_p Y' ! t) = uint (mpi_p Y ! t)"
    using top_limb [OF n] top_limb [OF assms(4)] n(2) assms(3) by simp
  then show e: "mpi_p Y' ! t = mpi_p Y ! t" by (rule word_eq_iff_unsigned [THEN iffD2])
  show "normal Y' t" using assms n by (simp add: normal_def e)
qed

lemma normal_ge: "normal Y t \<Longrightarrow> 2 ^ 62 * BB ^ t \<le> nval (mpi_p Y)"
proof -
  assume "normal Y t"
  then have n: "t < mpi_n Y" "nval (mpi_p Y) < BB ^ Suc t" "2 ^ 62 \<le> uint (mpi_p Y ! t)"
    by (auto simp: normal_def)
  have "2 ^ 62 * BB ^ t \<le> nval (mpi_p Y) div BB ^ t * BB ^ t"
    unfolding top_limb [OF n(1,2)] using n(3) by (intro mult_right_mono) auto
  also have "\<dots> \<le> nval (mpi_p Y)" by (rule int_div_mult_bounds) simp
  finally show ?thesis .
qed

lemma nval_single: "j < N \<Longrightarrow> nval ((replicate N 0)[j := w]) = uint w * BB ^ j"
  by (simp add: nval_update mult.commute)

lemma zeros_below: "j < N \<Longrightarrow> l < j \<Longrightarrow> (replicate N 0)[j := w] ! l = 0"
  by simp

lemma scaled_division:
  fixes z b a r :: int
  assumes "z * (b * 2 ^ k) + r = a * 2 ^ k" "0 \<le> r" "r < b * 2 ^ k"
  shows "z = a div b" "r div 2 ^ k = a mod b"
proof -
  have "r = (a - z * b) * 2 ^ k" using assms(1) by (simp add: left_diff_distrib)
  then have r: "r div 2 ^ k = a - z * b" "(a - z * b) * 2 ^ k < b * 2 ^ k" "0 \<le> (a - z * b) * 2 ^ k"
    using assms by simp_all
  then have b: "0 \<le> a - z * b" "a - z * b < b" by (simp_all add: zero_le_mult_iff)
  have "a = b * z + (a - z * b)" by simp
  from int_div_pos_eq [OF this b] int_mod_pos_eq [OF this b]
  show "z = a div b" "r div 2 ^ k = a mod b" using r(1) by simp_all
qed

context digit_estimate
begin

text \<open>From the normalised operands to quotient and remainder in \<open>Z\<close> and \<open>X\<close>.\<close>

lemma div_core_ok:
  fixes x :: addr
  defines "y \<equiv> x + 1" and "z \<equiv> x + 2" and "t1 \<equiv> x + 3" and "t2 \<equiv> x + 4"
  assumes mem: "oom \<sigma> = []" "sp \<sigma> = x + 5"
    and r: "div_ready A B nA k (heap \<sigma> x) (heap \<sigma> y) (heap \<sigma> z)"
    and n: "2 \<le> mpi_n (heap \<sigma> t1)" "3 \<le> mpi_n (heap \<sigma> t2)"
    and AB: "B \<le> A" "0 < B" and s: "div_safe safe B"
    and nt: "n = mpi_n (heap \<sigma> x) - 1" "t = mpi_n (heap \<sigma> y) - 1"
    and Q: "\<And>vx vy vz v1 v2. mpi_s vz = 1 \<Longrightarrow> nval (mpi_p vz) = A div B \<Longrightarrow> wf vx \<Longrightarrow> 0 \<le> mval vx \<Longrightarrow>
      nval (mpi_p vx) div 2 ^ k = A mod B \<Longrightarrow>
      Q () (put z vz (put y vy (put x vx (put t1 v1 (put t2 v2 \<sigma>)))))"
  shows "ok (seqc (ignore (mpi_shift_l y (64 * (n - t))))
            (seqc (div_top x y z (n - t))
              (seqc (mpi_shift_r y (int (64 * (n - t))))
                (forc (rev [Suc t..<Suc n]) (div_digit qhat x y z t1 t2 t))))) \<sigma> Q"
proof -
  let ?X = "heap \<sigma> x" and ?Y = "heap \<sigma> y" and ?Z = "heap \<sigma> z"
  let ?b = "nval (mpi_p ?Y)" and ?j = "n - t"
  have dist: "x \<noteq> y" "x \<noteq> z" "x \<noteq> t1" "x \<noteq> t2" "y \<noteq> z" "y \<noteq> t1" "y \<noteq> t2" "z \<noteq> t1" "z \<noteq> t2" "t1 \<noteq> t2"
    by (simp_all add: y_def z_def t1_def t2_def)
  have spx: "x < x + 5" "y < x + 5" "t1 < x + 5" by (simp_all add: y_def t1_def)
  have r: "mpi_s ?X = 1" "nval (mpi_p ?X) = A * 2 ^ k" "mpi_n ?X \<le> nA + 1" "?b = B * 2 ^ k"
    "normal ?Y t" "mpi_s ?Z = 1" "mpi_p ?Z = replicate (nA + 2) 0"
    using r by (auto simp: div_ready_def nt(2))
  have Y: "mpi_s ?Y = 1" "t < mpi_n ?Y" using r(5) by (auto simp: normal_def)
  have b0: "0 < ?b" using AB(2) by (simp add: r(4))
  have ba: "?b \<le> nval (mpi_p ?X)" using AB(1) by (simp add: r(2,4))
  have X0: "mpi_p ?X \<noteq> []" using ba b0 by auto
  have Sn: "Suc n = mpi_n ?X" using X0 by (simp add: nt(1))
  have nX: "nval (mpi_p ?X) < BB ^ Suc n" unfolding Sn by (rule nval_less)
  have tn: "t \<le> n"
  proof -
    have "(1::int) * BB ^ t \<le> 2 ^ 62 * BB ^ t" by (intro mult_right_mono) auto
    then have "BB ^ t < BB ^ Suc n" using normal_ge [OF r(5)] ba nX by linarith
    then have "t < Suc n" by (rule power_less_imp_less_exp [rotated]) simp
    then show ?thesis by simp
  qed
  have jA: "?j < nA + 2" using r(3) Sn by linarith
  have jz: "?j < mpi_n ?Z" "mpi_p ?Z ! ?j = 0"
    using jA nth_replicate [OF jA, of "0 :: t_int"] by (simp_all add: r(7) del: replicate.simps)
  have A4: "nval (mpi_p ?X) < 4 * (?b * BB ^ ?j)"
  proof -
    have "2 ^ 62 * BB ^ t * BB ^ ?j \<le> ?b * BB ^ ?j" using normal_ge [OF r(5)] by (intro mult_right_mono) auto
    moreover have "BB ^ Suc n = 4 * (2 ^ 62 * BB ^ t * BB ^ ?j)" using tn by (simp add: mult.assoc power_add [symmetric])
    ultimately show ?thesis using nX by linarith
  qed
  have sh: "ok (mpi_shift_l y (64 * ?j)) \<sigma> (\<lambda>_ \<tau>. \<exists>v. \<tau> = put y v \<sigma> \<and> mpi_s v = 1 \<and>
      nval (mpi_p v) = ?b * BB ^ ?j \<and> t < mpi_n v)"
    using mem(1) Y by (intro shift_limbs_ok) auto
  show ?thesis
    unfolding ok_seqc
  proof (rule ok_ignore, rule ok_mono [OF sh], elim exE conjE, hypsubst, goal_cases)
    case (1 _ _ v)
    note v = 1
    show ?case
    proof (rule div_top_ok, goal_cases)
      case (11 c vx)
      let ?z = "?Z\<lparr>mpi_p := (mpi_p ?Z)[?j := word_of_int c]\<rparr>"
      let ?v = "v\<lparr>mpi_p := shr_list (int (64 * ?j)) (mpi_p v)\<rparr>"
      let ?s = "put y ?v (put z ?z (put x vx (put y v \<sigma>)))"
      have vx: "0 \<le> c" "c < 4" "mpi_s vx = 1" "nval (mpi_p vx) < ?b * BB ^ ?j"
        "c * (?b * BB ^ ?j) + nval (mpi_p vx) = A * 2 ^ k" "Suc n \<le> mpi_n vx"
        using 11 v dist r(2) Sn by simp_all
      have "nat (int (64 * ?j)) = ?j * 64" by simp
      then have vb: "nval (mpi_p ?v) = ?b" "mpi_s ?v = 1" "t < mpi_n ?v"
        using v by (simp_all add: shr_list_val BB_power)
      note vn = normal_cong [OF r(5) vb(2,1,3)]
      have sv: "safe (mpi_p ?v ! t)" unfolding vn(2) by (rule div_safe_normal [OF s r(5) r(4) AB(2)])
      have hs: "heap ?s x = vx" "heap ?s y = ?v" "heap ?s z = ?z" "heap ?s t1 = heap \<sigma> t1" "heap ?s t2 = heap \<sigma> t2"
        "sp ?s = x + 5" "oom ?s = []"
        using dist mem by simp_all
      have zv: "nval (mpi_p ?z) = c * BB ^ ?j"
        using nval_single [OF jA, of "word_of_int c"] vx(1,2) by (simp add: r(7) uint_word_of_int del: replicate.simps)
      have zl: "?j < mpi_n ?z" "mpi_p ?z ! l = 0" if "l < ?j" for l
        using jA zeros_below [OF jA that] by (simp_all add: r(7) del: replicate.simps)
      have zj: "?j < mpi_n ?z" using jA by (simp add: r(7) del: replicate.simps)
      have wx: "wf vx" using vx(3) by (simp add: wf_def)
      have vb2: "nval (mpi_p vx) < nval (mpi_p ?v) * BB ^ ?j" unfolding vb(1) by (rule vx(4))
      have nn: "n < mpi_n vx" using vx(6) by simp
      have "ok (forc (rev [Suc t..<Suc n]) (div_digit qhat x y z t1 t2 t)) ?s Q"
      proof (rule div_digits_ok, goal_cases)
        case (17 uz ux u1 u2)
        have tot: "nval (mpi_p uz) * (B * 2 ^ k) + mval ux = A * 2 ^ k" "mval ux < B * 2 ^ k" "0 \<le> mval ux" "wf ux" "mpi_s uz = 1"
          using 17 vx(3,5) r(6) unfolding hs zv vb r(4) by (simp_all add: mval_s1 ac_simps)
        note sd = scaled_division [OF tot(1) tot(3) tot(2)]
        have e: "put z uz (put x ux (put t1 u1 (put t2 u2 ?s))) = put z uz (put y ?v (put x ux (put t1 u1 (put t2 u2 \<sigma>))))"
          using dist by (intro mem_eqI) simp_all
        show ?case unfolding e using tot sd by (intro Q) (simp_all add: nval_mval)
      qed (unfold hs mval_s1 [OF vx(3)], (rule refl spx vn(1) sv tn nn n zj wx nval_nonneg vb2 zl(2) | simp add: dist)+)
      then show ?case
        using dist by (simp add: mpi_shift_r_ok)
    qed (use v dist mem spx r(1,2) Y b0 A4 jz in simp_all)
  qed
qed

end

lemma leave_frame:
  assumes "frame {a. sp \<sigma> \<le> a} (enter k \<sigma>) \<tau>"
  shows "leave \<sigma> \<tau> = \<sigma>"
  using assms by (intro mem_eqI) (auto simp: frame_def)

lemma leave_put_opt: "\<forall>q'. q = Some q' \<longrightarrow> q' < sp \<sigma> \<Longrightarrow> leave \<sigma> (put_opt q v \<tau>) = put_opt q v (leave \<sigma> \<tau>)"
  by (cases q) simp_all

lemma put_opt_other: "q \<noteq> Some x \<Longrightarrow> heap (put_opt q v \<sigma>) x = heap \<sigma> x"
  "sp (put_opt q v \<sigma>) = sp \<sigma>" "oom (put_opt q v \<sigma>) = oom \<sigma>" "rng (put_opt q v \<sigma>) = rng \<sigma>"
  by (cases q; auto)+

text \<open>When the result operands may coincide with the other operands.\<close>

definition div_args :: "mem \<Rightarrow> addr option \<Rightarrow> addr option \<Rightarrow> addr \<Rightarrow> addr \<Rightarrow> bool" where
  "div_args \<sigma> q r a b \<longleftrightarrow>
     a < sp \<sigma> \<and> b < sp \<sigma> \<and> (\<forall>q'. q = Some q' \<longrightarrow> q' < sp \<sigma>) \<and> (\<forall>r'. r = Some r' \<longrightarrow> r' < sp \<sigma>) \<and>
     q \<noteq> Some b \<and> r \<noteq> Some b \<and> (q \<noteq> None \<longrightarrow> q \<noteq> r) \<and>
     (q = Some a \<longrightarrow> r = None \<and> mpi_s (heap \<sigma> a) = 1) \<and> (r = Some a \<longrightarrow> mpi_s (heap \<sigma> a) = 1)"

context digit_estimate
begin

lemma div_main_ok:
  assumes "oom \<sigma> = []" "div_args \<sigma> q r a b" "wf (heap \<sigma> a)" "wf (heap \<sigma> b)"
    and AB: "nval (mpi_p (heap \<sigma> b)) \<le> nval (mpi_p (heap \<sigma> a))" "0 < nval (mpi_p (heap \<sigma> b))"
    and s: "div_safe safe (nval (mpi_p (heap \<sigma> b)))"
    and Q: "\<And>vq vr. div_result (heap \<sigma> a) (heap \<sigma> b) vq vr \<Longrightarrow>
       (\<forall>q'. q = Some q' \<longrightarrow> mpi_n (heap \<sigma> q') \<le> mpi_n vq) \<Longrightarrow>
       (\<forall>r'. r = Some r' \<longrightarrow> mpi_n (heap \<sigma> r') \<le> mpi_n vr) \<Longrightarrow> Q () (put_opt r vr (put_opt q vq \<sigma>))"
  shows "ok (div_main qhat (sp \<sigma>) q r a b) (enter 5 \<sigma>) (\<lambda>u \<tau>. Q u (leave \<sigma> \<tau>))"
proof -
  let ?x = "sp \<sigma>" let ?y = "?x + 1" let ?z = "?x + 2" let ?t1 = "?x + 3" let ?t2 = "?x + 4"
  let ?A = "heap \<sigma> a" and ?B = "heap \<sigma> b"
  let ?e = "enter 5 \<sigma>"
  have ar: "a < ?x" "b < ?x" "q \<noteq> Some b" "r \<noteq> Some b" "q \<noteq> None \<longrightarrow> q \<noteq> r" "q = Some a \<longrightarrow> r = None"
    "q = Some a \<longrightarrow> mpi_s ?A = 1" "r = Some a \<longrightarrow> mpi_s ?A = 1"
    "\<forall>q'. q = Some q' \<longrightarrow> q' < ?x" "\<forall>r'. r = Some r' \<longrightarrow> r' < ?x"
    using assms(2) by (auto simp: div_args_def)
  show ?thesis
    unfolding div_main_def Let_def ok_bindc
  proof (rule div_setup_ok, goal_cases)
    case (7 k vx vy vz v1 v2)
    let ?s = "put ?z vz (put ?y vy (put ?x vx (put ?t1 v1 (put ?t2 v2 ?e))))"
    have hs: "heap ?s ?x = vx" "heap ?s ?y = vy" "heap ?s ?z = vz" "heap ?s ?t1 = v1" "heap ?s ?t2 = v2"
      "sp ?s = ?x + 5" "oom ?s = []"
      using assms(1) by simp_all
    have ea: "heap ?e a = ?A" "heap ?e b = ?B" using ar by simp_all
    let ?n = "mpi_n vx - 1" and ?t = "mpi_n vy - 1"
    show ?case
      unfolding ok_rd hs ok_seqc
    proof (rule div_core_ok [where \<sigma> = ?s and x = ?x and A = "nval (mpi_p ?A)" and B = "nval (mpi_p ?B)"
          and nA = "mpi_n ?A" and k = k and n = ?n and t = ?t, unfolded ok_seqc hs], goal_cases)
      case (11 ux uy uz u1 u2)
      let ?s' = "put ?z uz (put ?y uy (put ?x ux (put ?t1 u1 (put ?t2 u2 ?s))))"
      have h': "heap ?s' a = ?A" "heap ?s' b = ?B" "oom ?s' = []" "heap ?s' ?z = uz" "heap ?s' ?x = ux"
        using ar assms(1) by simp_all
      have low: "c < ?x \<Longrightarrow> heap ?s' c = heap \<sigma> c" for c by simp
      have fr: "leave \<sigma> ?s' = \<sigma>"
        by (intro leave_frame [where k = 5] frame_put frame_refl) simp_all
      have qz: "q \<noteq> Some ?z" "q \<noteq> Some ?x" "r \<noteq> Some ?x" using ar(9,10) by auto
      show ?case
      proof (rule div_quotient_ok, goal_cases)
        case (6 vq)
        let ?s'' = "put_opt q vq ?s'"
        have vq: "mpi_s vq = mpi_s ?A * mpi_s ?B" "nval (mpi_p vq) = nval (mpi_p ?A) div nval (mpi_p ?B)"
          "\<forall>q'. q = Some q' \<longrightarrow> mpi_n (heap \<sigma> q') \<le> mpi_n vq"
          using 6 11(2) ar(9) unfolding h' by auto
        have h'': "heap ?s'' ?x = ux" "oom ?s'' = []" using h' qz by (simp_all add: put_opt_other)
        have res: "div_result ?A ?B vq vr"
          if "nval (mpi_p vr) = nval (mpi_p ?A) mod nval (mpi_p ?B)"
            "mpi_s vr = (if nval (mpi_p vr) = 0 then 1 else mpi_s ?A)" for vr
          using vq(1,2) that by (simp add: div_result_def)
        show ?case
        proof (cases r)
          case None
          let ?r = "shr_list (int k) (mpi_p ux)"
          let ?vr = "\<lparr>mpi_s = if nval ?r = 0 then 1 else mpi_s ?A, mpi_p = ?r\<rparr>"
          have "nval ?r = nval (mpi_p ?A) mod nval (mpi_p ?B)" using 11(5) by (simp add: shr_list_val)
          then have "Q () (put_opt r ?vr (put_opt q vq \<sigma>))"
            using vq(3) None by (intro Q res) simp_all
          with None ar(9) show ?thesis
            by (simp add: div_remainder_def ok_ret leave_put_opt fr)
        next
          case (Some r')
          then have qa: "q \<noteq> Some a" "q \<noteq> r" using ar(5,6) by auto
          then have ha: "heap ?s'' a = ?A" using h' by (simp add: put_opt_other)
          have hr: "heap ?s'' r' = heap \<sigma> r'" using Some ar(10) qa low [of r'] by (simp add: put_opt_other)
          show ?thesis
          proof (rule div_remainder_ok, goal_cases)
            case (8 vr w)
            have vr: "nval (mpi_p vr) = nval (mpi_p ?A) mod nval (mpi_p ?B)"
              "mpi_s vr = (if nval (mpi_p vr) = 0 then 1 else mpi_s ?A)" "mpi_n (heap \<sigma> r') \<le> mpi_n vr"
              using 8 11(5) Some hr unfolding h'' ha by simp_all
            have "put ?x w ?s'' = put_opt q vq (put ?x w ?s')"
              using qz(2) by (cases q) (auto intro!: put_commute)
            moreover have "leave \<sigma> (put ?x w ?s') = \<sigma>"
              by (intro leave_frame [where k = 5] frame_put frame_refl) simp_all
            ultimately have e: "leave \<sigma> (put_opt r vr (put ?x w ?s'')) = put_opt r vr (put_opt q vq \<sigma>)"
              using ar(9,10) by (simp add: leave_put_opt)
            show ?case
              unfolding e using vq(3) vr(3) Some by (intro Q res vr(1,2)) auto
          qed (unfold h'' ha, use ar(1,8) qz assms(3) 11(3,4) in auto)
        qed
      qed (unfold h', use 11(1) qz ar(3,7) in auto)
    qed (use 7 assms(1) AB s ea in \<open>simp_all\<close>)
  qed (use assms(1) ar AB in auto)
qed

end

lemma div_result_small:
  assumes "nval (mpi_p A) < nval (mpi_p B)"
    and "nval (mpi_p vq) = 0" "mpi_s vq = 1" "nval (mpi_p vr) = nval (mpi_p A)" "mpi_s vr = mpi_s A"
  shows "div_result A B vq vr"
  using assms by (simp add: div_result_def div_pos_pos_trivial mod_pos_pos_trivial)

lemma div_early_ok:
  assumes "oom \<sigma> = []" "div_args \<sigma> q r a b"
    and AB: "nval (mpi_p (heap \<sigma> a)) < nval (mpi_p (heap \<sigma> b))"
    and Q: "\<And>vq vr. div_result (heap \<sigma> a) (heap \<sigma> b) vq vr \<Longrightarrow>
       (\<forall>q'. q = Some q' \<longrightarrow> mpi_n (heap \<sigma> q') \<le> mpi_n vq) \<Longrightarrow>
       (\<forall>r'. r = Some r' \<longrightarrow> mpi_n (heap \<sigma> r') \<le> mpi_n vr) \<Longrightarrow> Q () (put_opt r vr (put_opt q vq \<sigma>))"
  shows "ok (seqc (case q of None \<Rightarrow> ret () | Some q \<Rightarrow> mpi_lset q 0)
                  (case r of None \<Rightarrow> ret () | Some r \<Rightarrow> mpi_copy r a)) (enter 5 \<sigma>) (\<lambda>u \<tau>. Q u (leave \<sigma> \<tau>))"
proof -
  let ?A = "heap \<sigma> a"
  have ar: "a < sp \<sigma>" "q \<noteq> None \<longrightarrow> q \<noteq> r" "q = Some a \<longrightarrow> r = None"
    "\<forall>q'. q = Some q' \<longrightarrow> q' < sp \<sigma>" "\<forall>r'. r = Some r' \<longrightarrow> r' < sp \<sigma>"
    using assms(2) by (auto simp: div_args_def)
  define vq where "vq = lset_val (case q of None \<Rightarrow> 0 | Some q' \<Rightarrow> mpi_n (heap \<sigma> q')) 0"
  define vr where "vr = (case r of None \<Rightarrow> ?A | Some r' \<Rightarrow> if r' = a then ?A else copied (heap \<sigma> r') ?A)"
  have res: "div_result ?A (heap \<sigma> b) vq vr"
    by (rule div_result_small [OF AB])
       (auto simp: vq_def vr_def mval_lset_val int_sign_def split: option.split)
  have "Q () (put_opt r vr (put_opt q vq \<sigma>))"
    by (rule Q [OF res]) (auto simp: vq_def vr_def)
  moreover have "leave \<sigma> (enter 5 \<sigma>) = \<sigma>" by (rule leave_frame [where k = 5]) simp
  moreover have "put a ?A \<sigma>' = \<sigma>'" if "heap \<sigma>' a = ?A" for \<sigma>' using that put_heap_id [of a \<sigma>'] by simp
  ultimately show ?thesis
    using ar assms(1)
    by (cases q; cases r) (auto simp: wp vq_def vr_def mpi_lset_ok mpi_copy_ok split: if_splits)
qed

context digit_estimate
begin

lemma mpi_div_mpi_ok:
  assumes "oom \<sigma> = []" "div_args \<sigma> q r a b" "wf (heap \<sigma> a)" "wf (heap \<sigma> b)" "mval (heap \<sigma> b) \<noteq> 0"
    and "div_safe safe \<bar>mval (heap \<sigma> b)\<bar>"
    and Q: "\<And>vq vr. div_result (heap \<sigma> a) (heap \<sigma> b) vq vr \<Longrightarrow>
       (\<forall>q'. q = Some q' \<longrightarrow> mpi_n (heap \<sigma> q') \<le> mpi_n vq) \<Longrightarrow>
       (\<forall>r'. r = Some r' \<longrightarrow> mpi_n (heap \<sigma> r') \<le> mpi_n vr) \<Longrightarrow> Q () (put_opt r vr (put_opt q vq \<sigma>))"
  shows "ok (mpi_div_mpi qhat q r a b) \<sigma> Q"
proof -
  let ?A = "heap \<sigma> a" and ?B = "heap \<sigma> b"
  have ab: "a < sp \<sigma>" "b < sp \<sigma>" using assms(2) by (auto simp: div_args_def)
  have B: "nval (mpi_p ?B) \<noteq> 0" "\<bar>mval ?B\<bar> = nval (mpi_p ?B)"
    using assms(4,5) by (auto simp: mval_def wf_def)
  have c: "mpi_cmp_int ?B 0 = Some (sgn (mval ?B))" "sgn (mval ?B) \<noteq> 0"
    using mpi_cmp_int_0 [OF assms(4)] assms(5) by (simp_all add: sgn_0_0)
  show ?thesis
  proof (cases "nval (mpi_p ?A) < nval (mpi_p ?B)")
    case True
    then have neg: "mpi_cmp_abs ?A ?B < 0" by (simp add: mpi_cmp_abs_sgn)
    have "ok (seqc (case q of None \<Rightarrow> ret () | Some q \<Rightarrow> mpi_lset q 0)
                  (case r of None \<Rightarrow> ret () | Some r \<Rightarrow> mpi_copy r a)) (enter 5 \<sigma>) (\<lambda>u \<tau>. Q u (leave \<sigma> \<tau>))"
      by (rule div_early_ok [OF assms(1,2) True]) (rule Q)
    then show ?thesis
      using c neg ab by (simp add: mpi_div_mpi_def ok_bindc ok_rd ok_defd ok_locals)
  next
    case False
    then have pos: "\<not> mpi_cmp_abs ?A ?B < 0" by (simp add: mpi_cmp_abs_sgn sgn_if)
    have "ok (div_main qhat (sp \<sigma>) q r a b) (enter 5 \<sigma>) (\<lambda>u \<tau>. Q u (leave \<sigma> \<tau>))"
      using False assms(6) nval_pos [OF B(1)] by (intro div_main_ok assms(1-4) Q) (simp_all add: B(2))
    then show ?thesis
      using c pos ab by (simp add: mpi_div_mpi_def ok_bindc ok_rd ok_defd ok_locals)
  qed
qed

end

end
