(* ===== verification/Mpi_Mod.thy ===== *)
theory Mpi_Mod
  imports Mpi_Divmod
begin

text \<open>Correctness of \<open>mpi_div_int\<close>, \<open>mpi_mod_mpi\<close> and \<open>mpi_mod_int\<close>.\<close>

context digit_estimate
begin

lemma mpi_div_int_ok:
  assumes "oom \<sigma> = []" "a < sp \<sigma>" "wf (heap \<sigma> a)" "\<forall>q'. q = Some q' \<longrightarrow> q' < sp \<sigma>" "\<forall>r'. r = Some r' \<longrightarrow> r' < sp \<sigma>"
    and "q \<noteq> None \<longrightarrow> q \<noteq> r" "q = Some a \<longrightarrow> r = None \<and> mpi_s (heap \<sigma> a) = 1" "r = Some a \<longrightarrow> mpi_s (heap \<sigma> a) = 1"
    and b: "b \<noteq> 0" "- (2 ^ 31) < b" "b < 2 ^ 31" "div_safe safe \<bar>b\<bar>"
    and Q: "\<And>vq vr. div_result (heap \<sigma> a) \<lparr>mpi_s = int_sign b, mpi_p = [word_of_int \<bar>b\<bar>]\<rparr> vq vr \<Longrightarrow>
       Q () (put_opt r vr (put_opt q vq \<sigma>))"
  shows "ok (mpi_div_int qhat q r a b) \<sigma> Q"
proof -
  let ?B = "\<lparr>mpi_s = int_sign b, mpi_p = [word_of_int \<bar>b\<bar>]\<rparr>"
  let ?t = "sp \<sigma>" and ?s = "put (sp \<sigma>) ?B (enter 1 \<sigma>)"
  have B: "wf ?B" "mval ?B = b" using int_mpi_val [OF b(2,3)] by simp_all
  have h: "heap ?s a = heap \<sigma> a" "heap ?s ?t = ?B" using assms(2) by simp_all
  have qr: "q \<noteq> Some ?t" "r \<noteq> Some ?t" using assms(4,5) by auto
  have lv: "leave \<sigma> ?s = \<sigma>" by (intro leave_frame [where k = 1] frame_put frame_refl) simp
  have sp: "sp ?s = sp \<sigma> + 1" "oom ?s = []" using assms(1) by simp_all
  have args: "div_args ?s q r a ?t"
    unfolding div_args_def h sp using assms(2,4-8) qr by (auto intro: less_SucI)
  have hB: "wf (heap ?s ?t)" "mval (heap ?s ?t) \<noteq> 0" "div_safe safe \<bar>mval (heap ?s ?t)\<bar>"
    unfolding h B(2) using B(1) b by simp_all
  have hA: "wf (heap ?s a)" unfolding h by (rule assms(3))
  have "ok (mpi_div_mpi qhat q r a ?t) ?s (\<lambda>u \<tau>. Q u (leave \<sigma> \<tau>))"
  proof (rule mpi_div_mpi_ok, goal_cases)
    case (7 vq vr)
    then show ?case using assms(4,5) lv Q [of vq vr] unfolding h by (simp add: leave_put_opt del: leave_put)
  qed (rule sp(2) args hA hB)+
  then show ?thesis
    by (simp add: mpi_div_int_def int_mpi_Some [OF b(2,3)] ok_bindc ok_seqc ok_defd ok_locals ok_wr)
qed

text \<open>The modulo for a positive modulus: the result is the least non-negative residue.\<close>

lemma mpi_mod_mpi_ok:
  assumes "oom \<sigma> = []" "r < sp \<sigma>" "a < sp \<sigma>" "b < sp \<sigma>" "r \<noteq> b" "r = a \<longrightarrow> mpi_s (heap \<sigma> a) = 1"
    and "wf (heap \<sigma> a)" "mval (heap \<sigma> a) = 0 \<longrightarrow> mpi_s (heap \<sigma> a) = 1"
    and B: "wf (heap \<sigma> b)" "0 < mval (heap \<sigma> b)" "div_safe safe (mval (heap \<sigma> b))"
    and Q: "\<And>v. mpi_s v = 1 \<Longrightarrow> nval (mpi_p v) = mval (heap \<sigma> a) mod mval (heap \<sigma> b) \<Longrightarrow>
       mpi_n (heap \<sigma> r) \<le> mpi_n v \<Longrightarrow> Q () (put r v \<sigma>)"
  shows "ok (mpi_mod_mpi qhat r a b) \<sigma> Q"
proof -
  let ?A = "heap \<sigma> a" and ?B = "heap \<sigma> b"
  let ?m = "mval ?A mod mval ?B"
  have Bs: "mpi_s ?B = 1" "nval (mpi_p ?B) = mval ?B"
    using B mval_sign [OF B(1)] by (auto simp: nval_mval)
  have cB: "mpi_cmp_int ?B 0 = Some 1" using mpi_cmp_int_0 [OF B(1)] B(2) by simp
  define good where "good v \<longleftrightarrow> wf v \<and> \<bar>mval v\<bar> < mval ?B \<and> mval v mod mval ?B = ?m \<and>
     (mval v = 0 \<longrightarrow> mpi_s v = 1) \<and> mpi_n (heap \<sigma> r) \<le> mpi_n v" for v
  have cmp: "mpi_cmp_int v 0 = Some (sgn (mval v))" if "good v" for v
    using that mpi_cmp_int_0 by (simp add: good_def)
  have fin: "mpi_s v = 1" "nval (mpi_p v) = ?m" "mpi_cmp_mpi v ?B < 0" if "good v" "0 \<le> mval v" for v
  proof -
    show s: "mpi_s v = 1" using that mval_sign [of v] by (cases "mval v = 0") (auto simp: good_def)
    have "mval v = ?m" using that mod_pos_pos_trivial [of "mval v" "mval ?B"] by (simp add: good_def)
    then show n: "nval (mpi_p v) = ?m" using s by (simp add: mval_s1)
    have "mpi_cmp_mpi v ?B = sgn (mval v - mval ?B)"
      using that B(1) s Bs(1) by (intro mpi_cmp_mpi_sgn) (auto simp: good_def)
    then show "mpi_cmp_mpi v ?B < 0" using that by (simp add: good_def)
  qed
  have loop2: "ok (whilec (\<lambda>_ \<sigma>. Some (mpi_cmp_mpi (heap \<sigma> r) (heap \<sigma> b) \<ge> 0))
                  (\<lambda>_. mpi_sub_mpi r r b) ()) (put r v \<sigma>) Q" if "good v" "0 \<le> mval v" for v
    using fin [OF that] that(1) assms(5) Q [of v]
    by (subst ok_def, subst whilec.simps) (auto simp: good_def)
  have loop1: "ok (whilec (\<lambda>_ \<sigma>. map_option (\<lambda>c. c < 0) (mpi_cmp_int (heap \<sigma> r) 0))
                  (\<lambda>_. mpi_add_mpi r r b) ()) (put r v \<sigma>)
        (\<lambda>_ \<tau>. \<exists>v. \<tau> = put r v \<sigma> \<and> good v \<and> 0 \<le> mval v)" if "good v" for v
  proof (rule ok_whilec [where I = "\<lambda>_ \<tau>. \<exists>v. \<tau> = put r v \<sigma> \<and> good v"
        and m = "\<lambda>_ \<tau>. if mval (heap \<tau> r) < 0 then 1 else 0"], goal_cases)
    case (2 u \<tau>)
    then obtain w where w: "\<tau> = put r w \<sigma>" "good w" by blast
    have neg: "mval w < 0" using 2(2) w cmp [OF w(2)] by simp
    show ?case
      unfolding w(1)
    proof (rule mpi_add_mpi_ok, goal_cases)
      case (8 v)
      then have v: "wf v" "mval v = mval w + mval ?B" "mpi_n w \<le> mpi_n v" using assms(5) by simp_all
      then have "good v" "0 < mval v" using w(2) neg by (auto simp: good_def)
      then show ?case using neg by (auto intro!: exI [of _ v])
    qed (use w(2) assms B(1) in \<open>auto simp: good_def\<close>)
  next
    case (3 u \<tau>)
    then show ?case using cmp by auto
  next
    case (4 u \<tau>)
    then obtain w where w: "\<tau> = put r w \<sigma>" "good w" by blast
    have "0 \<le> mval w" using 4(2) w cmp [OF w(2)] by (simp add: not_less)
    then show ?case using w by blast
  qed (use that in blast)
  have "ok (mpi_div_mpi qhat None (Some r) a b) \<sigma> (\<lambda>_ \<tau>. \<exists>v. \<tau> = put r v \<sigma> \<and> good v)"
  proof (rule mpi_div_mpi_ok, goal_cases)
    case (7 vq vr)
    have nz: "nval (mpi_p ?B) \<noteq> 0" using B(2) Bs(2) by simp
    note m = div_result_mval [OF 7(1) assms(7) B(1) nz]
    have "mval vr mod mval ?B = ?m" unfolding m(1) by simp
    moreover have "mval vr = 0 \<longrightarrow> mpi_s vr = 1"
    proof
      assume "mval vr = 0"
      have wv: "wf vr" using div_result_wf [OF 7(1) assms(7) B(1)] by blast
      then have n0: "nval (mpi_p vr) = 0" using \<open>mval vr = 0\<close> nval_mval by force
      show "mpi_s vr = 1"
      proof (cases "nval (mpi_p ?A) = 0")
        case True
        then have "mpi_s ?A = 1" using assms(8) by (simp add: mval_def)
        then show ?thesis using 7(1) by (auto simp: div_result_def)
      next
        case False
        then show ?thesis using 7(1) n0 by (auto simp: div_result_def)
      qed
    qed
    ultimately have "good vr"
      using div_result_wf [OF 7(1) assms(7) B(1)] m(2) B(2) 7(3) by (auto simp: good_def)
    then show ?case by auto
  qed (use assms B in \<open>auto simp: div_args_def\<close>)
  then have "ok (mpi_div_mpi qhat None (Some r) a b) \<sigma> (\<lambda>_ \<tau>.
      ok (whilec (\<lambda>_ \<sigma>. map_option (\<lambda>c. c < 0) (mpi_cmp_int (heap \<sigma> r) 0))
                  (\<lambda>_. mpi_add_mpi r r b) ()) \<tau> (\<lambda>_ \<tau>.
      ok (whilec (\<lambda>_ \<sigma>. Some (mpi_cmp_mpi (heap \<sigma> r) (heap \<sigma> b) \<ge> 0))
                  (\<lambda>_. mpi_sub_mpi r r b) ()) \<tau> Q))"
    by (rule ok_mono) (auto intro: ok_mono [OF loop1] loop2)
  then show ?thesis
    unfolding mpi_mod_mpi_def ok_bindc ok_rd ok_defd cB by (simp add: ok_seqc)
qed

end

lemma mod_mult_add: "(a mod n * c + d) mod n = (a * c + d) mod (n :: int)"
  by (subst mod_add_left_eq [symmetric], subst mod_mult_left_eq, subst mod_add_left_eq) (rule refl)

lemma mod_half_spec:
  assumes "uint y < uint b" "uint b < 2 ^ 31"
  shows "uint (mod_half b y x) = (uint y * 2 ^ 32 + uint x div 2 ^ 32) mod uint b"
proof -
  let ?w = "push_bit 32 y OR drop_bit 32 x"
  have "uint (push_bit 32 y) = 2 ^ 32 * uint y"
    unfolding uint_push_bit using assms by (intro mod_pos_pos_trivial) auto
  moreover have "uint x div 2 ^ 32 < 2 ^ 32" by (intro int_div_lessI) auto
  ultimately have w: "uint ?w = uint y * 2 ^ 32 + uint x div 2 ^ 32"
    using int_or_disjoint [of "uint x div 2 ^ 32" 32 "uint y"]
    by (simp add: uint_or uint_drop_bit mult.commute pos_imp_zdiv_nonneg_iff)
  have "mod_half b y x = ?w mod b"
    by (simp add: mod_half_def Let_def minus_div_mult_eq_mod)
  then show ?thesis by (simp add: uint_mod w)
qed

lemma mod_limb_spec:
  assumes "uint y < uint b" "uint b < 2 ^ 31"
  shows "uint (mod_half b (mod_half b y x) (push_bit 32 x)) = (uint y * BB + uint x) mod uint b"
proof -
  let ?b = "uint b" and ?h = "uint x div 2 ^ 32" and ?l = "uint x mod 2 ^ 32"
  have b: "0 < ?b" using assms(1) uint_limb_bounds(1) [of y] by linarith
  have "uint (mod_half b y x) < ?b" unfolding mod_half_spec [OF assms] using b by simp
  moreover have "uint (push_bit 32 x) div 2 ^ 32 = ?l"
    using uint_low_half [of x] by (simp add: uint_drop_bit)
  ultimately have "uint (mod_half b (mod_half b y x) (push_bit 32 x)) =
      ((uint y * 2 ^ 32 + ?h) mod ?b * 2 ^ 32 + ?l) mod ?b"
    using mod_half_spec [OF _ assms(2)] mod_half_spec [OF assms] by simp
  also have "\<dots> = ((uint y * 2 ^ 32 + ?h) * 2 ^ 32 + ?l) mod ?b"
    by (rule mod_mult_add)
  also have "(uint y * 2 ^ 32 + ?h) * 2 ^ 32 + ?l = uint y * BB + (?h * 2 ^ 32 + ?l)"
    by (simp add: distrib_right)
  also have "?h * 2 ^ 32 + ?l = uint x" by (rule div_mult_mod_eq)
  finally show ?thesis .
qed

lemma mod_limbs_spec:
  assumes "uint y < uint b" "uint b < 2 ^ 31"
  shows "uint (mod_limbs b xs y) = (uint y * BB ^ length xs + nval (rev xs)) mod uint b"
  using assms(1)
proof (induction xs arbitrary: y)
  case Nil
  then show ?case by (simp add: mod_pos_pos_trivial)
next
  case (Cons x xs)
  let ?y = "mod_half b (mod_half b y x) (push_bit 32 x)"
  have b: "0 < uint b" using Cons.prems uint_limb_bounds(1) [of y] by linarith
  note y = mod_limb_spec [OF Cons.prems assms(2), of x]
  have "uint ?y < uint b" unfolding y using b by simp
  from Cons.IH [OF this] have "uint (mod_limbs b (x # xs) y) =
      ((uint y * BB + uint x) mod uint b * BB ^ length xs + nval (rev xs)) mod uint b" by (simp add: y)
  also have "\<dots> = ((uint y * BB + uint x) * BB ^ length xs + nval (rev xs)) mod uint b"
    by (rule mod_mult_add)
  also have "(uint y * BB + uint x) * BB ^ length xs + nval (rev xs) =
      uint y * BB ^ length (x # xs) + nval (rev (x # xs))"
    by (simp add: nval_append distrib_right)
  finally show ?case .
qed

lemma mpi_mod_int_spec:
  assumes "wf A" "0 < b" "b < 2 ^ 31" "mpi_p A \<noteq> []"
  shows "\<exists>w. mpi_mod_int A b = Some (Inr w) \<and> uint w = mval A mod b"
proof -
  let ?n = "nval (mpi_p A)"
  consider "b = 1" | "b = 2" | "2 < b" using assms(2) by linarith
  then show ?thesis
  proof cases
    case 1
    then show ?thesis by (simp add: mpi_mod_int_def)
  next
    case 2
    obtain p0 ps where p: "mpi_p A = p0 # ps" using assms(4) by (cases "mpi_p A") auto
    have "uint (p0 AND 1) = uint p0 mod 2" by (simp add: and_one_eq uint_mod)
    also have "\<dots> = ?n mod 2" by (simp add: p mod_add_right_eq [symmetric] mod_mult_left_eq [symmetric])
    also have "\<dots> = mval A mod 2" using assms(1) by (auto simp: wf_def mval_def mod_2_eq_odd)
    finally show ?thesis using 2 p by (simp add: mpi_mod_int_def)
  next
    case 3
    let ?b = "word_of_int b :: t_int"
    have ub: "uint ?b = b" using assms(2,3) by (simp add: uint_word_of_int)
    let ?y = "mod_limbs ?b (rev (mpi_p A)) 0"
    have y: "uint ?y = ?n mod b" using mod_limbs_spec [of 0 ?b] ub assms(2,3) by simp
    let ?w = "if mpi_s A < 0 \<and> ?y \<noteq> 0 then ?b - ?y else ?y"
    have "uint ?w = mval A mod b"
    proof (cases "mpi_s A < 0 \<and> ?y \<noteq> 0")
      case True
      then have s: "mpi_s A = - 1" and nz: "?n mod b \<noteq> 0" using assms(1) y by (auto simp: wf_def uint_0_iff)
      have m: "0 \<le> ?n mod b" "?n mod b < b" using assms(2) by simp_all
      then have "uint (?b - ?y) = b - ?n mod b" using ub y by (simp add: uint_sub_if')
      also have "\<dots> = - ?n mod b" using nz by (simp add: zmod_zminus1_eq_if)
      finally show ?thesis using True s by (simp add: mval_def)
    next
      case False
      then have "mpi_s A = 1 \<or> ?n mod b = 0" using assms(1) y by (auto simp: wf_def)
      then show ?thesis
        using False y assms(1) by (auto simp: mval_def wf_def zmod_zminus1_eq_if)
    qed
    then show ?thesis using 3 by (intro exI [of _ ?w]) (simp add: mpi_mod_int_def Let_def)
  qed
qed

lemma mpi_mod_int_errors:
  "mpi_mod_int A 0 = Some (Inl POLARSSL_ERR_MPI_DIVISION_BY_ZERO)"
  "b < 0 \<Longrightarrow> mpi_mod_int A b = Some (Inl POLARSSL_ERR_MPI_NEGATIVE_VALUE)"
  by (simp_all add: mpi_mod_int_def)

end
