(* ===== verification/Mpi_Mont.thy ===== *)
theory Mpi_Mont
  imports Mpi_Mod
begin

text \<open>
  Montgomery arithmetic: \<open>mpi_montg_init\<close>, \<open>mpi_montmul\<close>, \<open>mpi_montred\<close> of
  \<open>bignum.c\<close>. The buffer \<open>T\<close> and the pointer \<open>d\<close> that walks through it are a list
  and an index; an access outside one of the arrays has no result.
\<close>

subsection \<open>Definitions\<close>

definition mpi_montg_init :: "mpi \<Rightarrow> t_int option" where
  "mpi_montg_init N =
     (case mpi_p N of [] \<Rightarrow> None
      | m0 # _ \<Rightarrow>
          let x = m0;
              x = x + push_bit 1 ((m0 + 2) AND 4);
              x = x * (2 - m0 * x);
              x = x * (2 - m0 * x);
              x = x * (2 - m0 * x);
              x = x * (2 - m0 * x)
          in Some (NOT x + 1))"

text \<open>\<open>T = (T + u0*B + u1*N) / 2^biL\<close>, with \<open>d = T->p + i\<close>.\<close>

definition mont_step ::
  "nat \<Rightarrow> nat \<Rightarrow> t_int list \<Rightarrow> t_int list \<Rightarrow> t_int list \<Rightarrow> t_int \<Rightarrow> nat \<Rightarrow> t_int list \<Rightarrow> t_int list option" where
  "mont_step n m as bs ns mm i ts =
     (if length as \<le> i \<or> bs = [] \<or> length ts \<le> i + n + 2 then None
      else let d = drop i ts; u0 = as ! i; u1 = (d ! 0 + u0 * bs ! 0) * mm in
        Option.bind (mpi_mul_hlp m bs d u0) (\<lambda>d.
          Option.bind (mpi_mul_hlp n ns d u1) (\<lambda>d.
            Some (take i ts @ d[0 := u0, n + 2 := 0]))))"

fun mont_loop ::
  "nat \<Rightarrow> nat \<Rightarrow> t_int list \<Rightarrow> t_int list \<Rightarrow> t_int list \<Rightarrow> t_int \<Rightarrow> nat list \<Rightarrow> t_int list \<Rightarrow> t_int list option" where
  "mont_loop n m as bs ns mm [] ts = Some ts"
| "mont_loop n m as bs ns mm (i # is) ts =
     Option.bind (mont_step n m as bs ns mm i ts) (mont_loop n m as bs ns mm is)"

definition mpi_montmul :: "addr \<Rightarrow> addr \<Rightarrow> addr \<Rightarrow> t_int \<Rightarrow> addr \<Rightarrow> unit cm" where
  "mpi_montmul a b n mm t =
     bindc (rd t) (\<lambda>T. seqc (set_p t (replicate (mpi_n T) 0))
       (bindc (rd a) (\<lambda>A. bindc (rd b) (\<lambda>B. bindc (rd n) (\<lambda>N. bindc (rd t) (\<lambda>T.
         let k = mpi_n N; m = (if mpi_n B < k then mpi_n B else k) in
         bindc (defd (mont_loop k m (mpi_p A) (mpi_p B) (mpi_p N) mm [0..<k] (mpi_p T))) (\<lambda>ts.
           bindc (defd (if k + 1 \<le> mpi_n A \<and> k + (k + 1) \<le> length ts
                        then Some (take (k + 1) (drop k ts) @ drop (k + 1) (mpi_p A)) else None)) (\<lambda>as.
             seqc (set_p t ts) (seqc (set_p a as)
               (bindc (rd a) (\<lambda>A. bindc (rd n) (\<lambda>N. bindc (rd t) (\<lambda>T.
                 if mpi_cmp_abs A N \<ge> 0
                 then bindc (defd (mpi_sub_hlp k (mpi_p N) (mpi_p A))) (set_p a)
                 else bindc (defd (mpi_sub_hlp k (mpi_p A) (mpi_p T))) (set_p t))))))))))))))"

definition mpi_montred :: "addr \<Rightarrow> addr \<Rightarrow> t_int \<Rightarrow> addr \<Rightarrow> unit cm" where
  "mpi_montred a n mm t =
     locals 1 (\<lambda>u. seqc (wr u \<lparr>mpi_s = 1, mpi_p = [1]\<rparr>) (mpi_montmul a u n mm t))"

subsection \<open>The constant\<close>

lemma int_and_4: "(a :: int) AND 4 = 4 * (a div 4 mod 2)"
proof -
  have "a AND 2 ^ k = (if bit a k then 2 ^ k else 0)" for k
    by (rule bit_eqI) (auto simp: bit_and_iff bit_exp_iff)
  from this [of 2] have "a AND 4 = (if bit a 2 then 4 else 0)" by simp
  also have "bit a 2 \<longleftrightarrow> odd (a div 4)" by (simp add: bit_iff_odd)
  finally show ?thesis by (simp add: mod_2_eq_odd)
qed

lemma mod16_cases:
  fixes m :: int
  assumes "odd m"
  shows "(m * (m + 2 * (4 * ((m + 2) div 4 mod 2))) - 1) mod 16 = 0"
proof -
  define q r where "q = m div 16" and "r = m mod 16"
  have m: "m = 16 * q + r" "0 \<le> r" "r < 16" "odd r"
    using assms by (simp_all add: q_def r_def) (metis dvd_mod_iff even_numeral numeral_Bit0_div_2)
  have "m + 2 = (r + 2) + (4 * q) * 4" using m(1) by simp
  then have "(m + 2) div 4 = (r + 2) div 4 + (2 * q) * 2" by simp
  then have d: "(m + 2) div 4 mod 2 = (r + 2) div 4 mod 2" by (simp only: mod_mult_self1)
  have "(m * (m + 2 * (4 * ((r + 2) div 4 mod 2))) - 1) mod 16 = (r * (r + 2 * (4 * ((r + 2) div 4 mod 2))) - 1) mod 16"
    unfolding m(1) by (simp add: mod_eq_dvd_iff algebra_simps)
  also have "\<dots> = 0"
  proof -
    have "r \<in> set [0..15]" using m(2,3) by simp
    then show ?thesis using m(4) by (auto simp: upto.simps)
  qed
  finally show ?thesis unfolding d .
qed

lemma mod8_div4: "(a mod BB) div 4 mod 2 = (a :: int) div 4 mod 2"
proof -
  have "a mod BB = a - 8 * (2 ^ 61 * (a div BB))" by (simp add: minus_mult_div_eq_mod [symmetric])
  moreover have "(a - 8 * t) div 4 mod 2 = a div 4 mod 2" for t :: int
  proof -
    have "a - 8 * t = a + (- 2 * t) * 4" by simp
    then have "(a - 8 * t) div 4 = a div 4 + (- t) * 2" by simp
    then show ?thesis by (simp only: mod_mult_self1)
  qed
  ultimately show ?thesis by metis
qed

lemma inverse_start:
  fixes m0 :: t_int
  assumes "odd (uint m0)"
  shows "16 dvd uint (m0 * (m0 + push_bit 1 ((m0 + 2) AND 4)) - 1)"
proof -
  let ?m = "uint m0"
  let ?c = "4 * ((?m + 2) div 4 mod 2)"
  have "uint (m0 + 2) AND 4 = ?c"
    unfolding int_and_4 by (simp add: uint_word_ariths mod8_div4)
  then have c: "uint ((m0 + 2) AND 4) = ?c" by (simp add: uint_and)
  have "uint (push_bit 1 ((m0 + 2) AND 4)) = 2 * ?c"
    unfolding uint_push_bit c by simp
  then have p: "push_bit 1 ((m0 + 2) AND 4) = word_of_int (2 * ?c)" by (metis word_of_int_uint)
  have "m0 * (m0 + push_bit 1 ((m0 + 2) AND 4)) - 1 = word_of_int (?m * (?m + 2 * ?c) - 1)"
    unfolding p by simp
  moreover have "uint (word_of_int x :: t_int) = x mod BB" for x by (simp add: uint_word_of_int)
  ultimately have "uint (m0 * (m0 + push_bit 1 ((m0 + 2) AND 4)) - 1) = (?m * (?m + 2 * ?c) - 1) mod BB"
    by (simp only:)
  moreover have "(16 :: int) dvd BB" by simp
  moreover have "16 dvd ?m * (?m + 2 * ?c) - 1" using mod16_cases [OF assms] by (simp only: dvd_eq_mod_eq_0)
  ultimately show ?thesis by (simp only: dvd_mod)
qed

lemma newton_step: "m * (x * (2 - m * x)) - 1 = - ((m * x - 1) ^ 2)" for m x :: t_int
  by (simp add: algebra_simps power2_eq_square)

lemma inverse_steps:
  fixes m x :: t_int
  assumes "16 dvd uint (m * x - 1)"
  defines "s \<equiv> \<lambda>x. x * (2 - m * x)"
  shows "m * s (s (s (s x))) = 1"
proof -
  obtain k where "uint (m * x - 1) = 16 * k" using assms(1) by (auto elim: dvdE)
  then have "m * x - 1 = word_of_int (16 * k)" by (metis word_of_int_uint)
  then have e: "m * x - 1 = 16 * word_of_int k" by simp
  have "m * s (s (s (s x))) - 1 = - ((m * x - 1) ^ 16)"
    unfolding s_def newton_step by simp
  also have "\<dots> = 0"
  proof -
    have z: "(16 :: t_int) ^ 16 = 0" by (simp add: word_eq_iff_unsigned)
    show ?thesis unfolding e power_mult_distrib z by (simp only: mult_zero_left minus_zero)
  qed
  finally show ?thesis by simp
qed

lemma mpi_montg_init_spec:
  assumes "mpi_p N \<noteq> []" "odd (nval (mpi_p N))"
  shows "\<exists>mm. mpi_montg_init N = Some mm \<and> mpi_p N ! 0 * mm = - 1"
proof -
  obtain m0 ms where N: "mpi_p N = m0 # ms" using assms(1) by (cases "mpi_p N") auto
  have "odd (uint m0)" using assms(2) by (simp add: N)
  from inverse_steps [OF inverse_start [OF this]] show ?thesis
    by (simp add: mpi_montg_init_def N Let_def minus_eq_not_plus_1 [symmetric])
qed

subsection \<open>One step\<close>

lemma word_of_nval: "xs \<noteq> [] \<Longrightarrow> (word_of_int (nval xs) :: t_int) = xs ! 0"
proof (cases xs)
  case (Cons x ys)
  have "(18446744073709551616 :: t_int) = 0" by (simp add: word_eq_iff_unsigned)
  then have "(word_of_int (BB * nval ys) :: t_int) = 0" by (simp only: of_int_mult of_int_numeral mult_zero_left)
  then have "(word_of_int (uint x + BB * nval ys) :: t_int) = x"
    by (simp only: of_int_add word_of_int_uint add_0_right)
  with Cons show ?thesis by simp
qed simp

lemma mont_bound:
  fixes D B N u v :: int
  assumes "D < B + N" "0 \<le> B" "0 \<le> N" "u < BB" "v < BB" "0 \<le> D"
  shows "D + u * B + v * N < (B + N) * BB"
proof -
  have "u * B \<le> (BB - 1) * B" "v * N \<le> (BB - 1) * N" using assms by (auto intro!: mult_right_mono)
  moreover have "(B + N) * BB = (BB - 1) * B + (BB - 1) * N + (B + N)" by (simp add: algebra_simps)
  ultimately show ?thesis using assms(1) by linarith
qed

lemma nval_update_zero: "k < length ws \<Longrightarrow> nval ws < BB ^ k \<Longrightarrow> nval (ws[k := 0]) = nval ws"
proof -
  assume k: "k < length ws" "nval ws < BB ^ k"
  have "\<not> 1 \<le> uint (ws ! k)"
  proof
    assume "1 \<le> uint (ws ! k)"
    then have "1 * BB ^ k \<le> uint (ws ! k) * BB ^ k" by (intro mult_right_mono) auto
    with nval_ge_nth [OF k(1)] k(2) show False by linarith
  qed
  then have "uint (ws ! k) = 0" using uint_limb_bounds(1) [of "ws ! k"] by linarith
  with k show ?thesis by (simp add: nval_update)
qed

lemma mont_step_spec:
  assumes i: "i < length as" "bs \<noteq> []" "m \<le> length bs" "length ns = n" "i + n + 2 < length ts" "0 < m"
    and mm: "ns ! 0 * mm = - 1" "0 < n"
    and B: "nval (take m bs) < BB ^ n" "m \<le> n"
    and D: "nval (drop i ts) < nval (take m bs) + nval ns"
  shows "\<exists>ts' v. mont_step n m as bs ns mm i ts = Some ts' \<and> length ts' = length ts \<and> 0 \<le> v \<and>
     nval (drop (Suc i) ts') * BB = nval (drop i ts) + uint (as ! i) * nval (take m bs) + v * nval ns \<and>
     nval (drop (Suc i) ts') < nval (take m bs) + nval ns \<and> take (Suc i) ts' = take i ts @ [as ! i]"
proof -
  let ?d = "drop i ts" and ?u = "as ! i" and ?B = "nval (take m bs)" and ?N = "nval ns"
  let ?v = "(?d ! 0 + ?u * bs ! 0) * mm"
  have N: "?N < BB ^ n" using nval_less [of ns] i(4) by simp
  have ld: "n + 3 \<le> length ?d" using i(5) by simp
  have tot: "nval ?d + uint ?u * ?B + uint ?v * ?N < (?B + ?N) * BB"
    by (rule mont_bound) (use D in simp_all)
  have "(?B + ?N) * BB < BB ^ n * 2 * BB" using B N by (intro mult_strict_right_mono) auto
  also have "\<dots> \<le> BB ^ n * BB * BB" by (intro mult_right_mono mult_left_mono) auto
  finally have cap2: "(?B + ?N) * BB < BB ^ (n + 2)" by (simp add: power_add power2_eq_square mult.assoc)
  have capl: "BB ^ (n + 2) \<le> BB ^ length ?d" using ld by (intro power_increasing) auto
  have nn: "0 \<le> uint ?u * ?B" "0 \<le> uint ?v * ?N" by simp_all
  have "nval ?d + ?B * uint ?u < BB ^ length ?d" using tot cap2 capl nn by (simp only: mult.commute [of ?B])
  then obtain d1 where d1: "mpi_mul_hlp m bs ?d ?u = Some d1" "length d1 = length ?d"
      "nval d1 = nval ?d + ?B * uint ?u"
    using mpi_mul_hlp_spec [of m bs ?d ?u] i(3) B(2) ld by auto
  have "nval d1 + ?N * uint ?v < BB ^ length d1"
    using tot cap2 capl d1(2,3) by (simp only: mult.commute [of ?B] mult.commute [of ?N])
  then obtain d2 where d2: "mpi_mul_hlp n ns d1 ?v = Some d2" "length d2 = length ?d"
      "nval d2 = nval d1 + ?N * uint ?v"
    using mpi_mul_hlp_spec [of n ns d1 ?v] i(4) ld d1(2) by auto
  have v2: "nval d2 = nval ?d + uint ?u * ?B + uint ?v * ?N" using d1(3) d2(3) by (simp add: mult.commute)
  have ne: "d2 \<noteq> []" "?d \<noteq> []" "take m bs \<noteq> []" "ns \<noteq> []" using d2(2) ld i mm(2) by auto
  have "d2 ! 0 = word_of_int (nval ?d + uint ?u * ?B + uint ?v * ?N)"
    using word_of_nval [OF ne(1)] v2 by simp
  also have "\<dots> = ?d ! 0 + ?u * (take m bs ! 0) + ?v * ns ! 0"
    by (simp only: of_int_add of_int_mult word_of_int_uint word_of_nval [OF ne(2)] word_of_nval [OF ne(3)] word_of_nval [OF ne(4)])
  also have "take m bs ! 0 = bs ! 0" using i(6) by simp
  also have "?d ! 0 + ?u * bs ! 0 + ?v * ns ! 0 = (?d ! 0 + ?u * bs ! 0) * (1 + ns ! 0 * mm)"
    by (simp add: algebra_simps)
  also have "\<dots> = 0" by (simp add: mm(1))
  finally have z: "d2 ! 0 = 0" .
  let ?r = "d2[0 := ?u, n + 2 := 0]"
  obtain x ys where d2c: "d2 = x # ys" using ne(1) by (cases d2) auto
  with z have x0: "x = 0" by simp
  have ys: "nval ys * BB = nval d2" by (simp add: d2c x0)
  have lys: "n + 1 < length ys" using d2(2) ld d2c by simp
  have "nval ys * BB < (?B + ?N) * BB" using ys v2 tot by simp
  then have ysb: "nval ys < ?B + ?N" by simp
  have "?B + ?N < BB ^ n * 2" using B N by simp
  also have "\<dots> \<le> BB ^ n * BB" by (intro mult_left_mono) auto
  finally have "nval ys < BB ^ (n + 1)" using ysb by simp
  then have yz: "nval (ys[n + 1 := 0]) = nval ys" by (rule nval_update_zero [OF lys])
  have r: "?r = ?u # ys[n + 1 := 0]" by (simp add: d2c)
  have "i < length ts" using i(5) by simp
  then have "length (take i ts) = i" by simp
  then have dr: "drop (Suc i) (take i ts @ ?r) = ys[n + 1 := 0]" "take (Suc i) (take i ts @ ?r) = take i ts @ [?u]"
    unfolding r by simp_all
  have st: "mont_step n m as bs ns mm i ts = Some (take i ts @ ?r)"
    using i d1(1) d2(1) by (simp add: mont_step_def Let_def)
  show ?thesis
    using st dr yz ysb ys v2 \<open>i < length ts\<close> d2(2)
    by (intro exI [of _ "take i ts @ ?r"] exI [of _ "uint ?v"]) simp
qed

subsection \<open>The multiplication\<close>

definition mont_inv :: "t_int list \<Rightarrow> int \<Rightarrow> int \<Rightarrow> nat \<Rightarrow> t_int list \<Rightarrow> bool" where
  "mont_inv as B N i ts \<longleftrightarrow> take i ts = take i as \<and> nval (drop i ts) < B + N \<and>
     (\<exists>K\<ge>0. nval (drop i ts) * BB ^ i = nval (take i as) * B + K * N)"

lemma mont_inv_step:
  assumes "mont_inv as B N i ts" "i < length as" "0 \<le> v"
    and s: "nval (drop (Suc i) ts') * BB = nval (drop i ts) + uint (as ! i) * B + v * N"
      "nval (drop (Suc i) ts') < B + N" "take (Suc i) ts' = take i ts @ [as ! i]"
  shows "mont_inv as B N (Suc i) ts'"
proof -
  from assms(1) obtain K where K: "0 \<le> K" "nval (drop i ts) * BB ^ i = nval (take i as) * B + K * N"
    and t: "take i ts = take i as" by (auto simp: mont_inv_def)
  have "nval (drop (Suc i) ts') * BB ^ Suc i = (nval (drop (Suc i) ts') * BB) * BB ^ i" by simp
  also have "\<dots> = nval (drop i ts) * BB ^ i + uint (as ! i) * BB ^ i * B + v * BB ^ i * N"
    unfolding s(1) by (simp add: algebra_simps)
  also have "\<dots> = nval (take (Suc i) as) * B + (K + v * BB ^ i) * N"
    unfolding K(2) nval_take_Suc [OF assms(2)] by (simp add: algebra_simps)
  finally have "\<exists>K\<ge>0. nval (drop (Suc i) ts') * BB ^ Suc i = nval (take (Suc i) as) * B + K * N"
    using K(1) assms(3) by (intro exI [of _ "K + v * BB ^ i"]) simp
  then show ?thesis
    using s t assms(2) by (simp add: mont_inv_def take_Suc_conv_app_nth)
qed

lemma mont_loop_spec:
  assumes "n \<le> length as" "bs \<noteq> []" "m \<le> length bs" "length ns = n" "0 < m" "m \<le> n"
    and mm: "ns ! 0 * mm = - 1" and B: "nval (take m bs) < BB ^ n"
    and "i \<le> n" "2 * n + 2 \<le> length ts" "mont_inv as (nval (take m bs)) (nval ns) i ts"
  shows "\<exists>ts'. mont_loop n m as bs ns mm [i..<n] ts = Some ts' \<and> length ts' = length ts \<and>
     mont_inv as (nval (take m bs)) (nval ns) n ts'"
  using assms(9-)
proof (induction "n - i" arbitrary: i ts)
  case 0
  then show ?case by simp
next
  case (Suc k)
  then have i: "i < n" by simp
  have D: "nval (drop i ts) < nval (take m bs) + nval ns" using Suc.prems by (simp add: mont_inv_def)
  from mont_step_spec [of i as bs m ns n ts mm] i assms D Suc.prems(2)
  obtain ts1 v where st: "mont_step n m as bs ns mm i ts = Some ts1" "length ts1 = length ts" "0 \<le> v"
    "nval (drop (Suc i) ts1) * BB = nval (drop i ts) + uint (as ! i) * nval (take m bs) + v * nval ns"
    "nval (drop (Suc i) ts1) < nval (take m bs) + nval ns" "take (Suc i) ts1 = take i ts @ [as ! i]"
    by auto
  have "mont_inv as (nval (take m bs)) (nval ns) (Suc i) ts1"
    using i assms(1) by (intro mont_inv_step [OF Suc.prems(3) _ st(3-6)]) simp
  moreover have "k = n - Suc i" using Suc.hyps(2) by simp
  ultimately
  obtain ts' where "mont_loop n m as bs ns mm [Suc i..<n] ts1 = Some ts'" "length ts' = length ts1"
    "mont_inv as (nval (take m bs)) (nval ns) n ts'"
    using Suc.hyps(1) [of "Suc i" ts1] Suc.prems(2) st(2) i by auto
  then show ?case using st i by (auto simp: upt_conv_Cons)
qed

lemma mont_reduce:
  fixes D B N A R :: int
  assumes "D * R = A * B + K * N" "D < B + N" "B \<le> N" "0 \<le> D" "0 < N"
  defines "r \<equiv> if N \<le> D then D - N else D"
  shows "0 \<le> r" "r < N" "(r * R) mod N = (A * B) mod N"
proof -
  show "0 \<le> r" "r < N" using assms by (auto simp: r_def)
  have "r * R = A * B + (if N \<le> D then K - R else K) * N"
    using assms(1) by (auto simp: r_def left_diff_distrib)
  then show "(r * R) mod N = (A * B) mod N" by simp
qed

text \<open>The operand requirements of \<open>mpi_montmul\<close>: odd modulus, its constant, room in the operands.\<close>

definition mont_ctx :: "mem \<Rightarrow> addr \<Rightarrow> t_int \<Rightarrow> addr \<Rightarrow> bool" where
  "mont_ctx \<sigma> n mm t \<longleftrightarrow> mpi_p (heap \<sigma> n) \<noteq> [] \<and> mpi_p (heap \<sigma> n) ! 0 * mm = - 1 \<and>
     0 < nval (mpi_p (heap \<sigma> n)) \<and> n \<noteq> t \<and> mpi_n (heap \<sigma> t) = 2 * (mpi_n (heap \<sigma> n) + 1)"

lemma mpi_montmul_ok:
  fixes \<sigma> n
  defines "N \<equiv> nval (mpi_p (heap \<sigma> n))" and "k \<equiv> mpi_n (heap \<sigma> n)"
  assumes c: "mont_ctx \<sigma> n mm t" and d: "a \<noteq> n" "a \<noteq> t" "b \<noteq> t"
    and A: "k + 1 \<le> mpi_n (heap \<sigma> a)" "nval (mpi_p (heap \<sigma> a)) < BB ^ k"
    and B: "mpi_p (heap \<sigma> b) \<noteq> []" "nval (mpi_p (heap \<sigma> b)) \<le> N"
    and Q: "\<And>va vt. mpi_s va = mpi_s (heap \<sigma> a) \<Longrightarrow> mpi_n va = mpi_n (heap \<sigma> a) \<Longrightarrow> nval (mpi_p va) < N \<Longrightarrow>
      (nval (mpi_p va) * BB ^ k) mod N = (nval (mpi_p (heap \<sigma> a)) * nval (mpi_p (heap \<sigma> b))) mod N \<Longrightarrow>
      mpi_n vt = mpi_n (heap \<sigma> t) \<Longrightarrow> Q () (put a va (put t vt \<sigma>))"
  shows "ok (mpi_montmul a b n mm t) \<sigma> Q"
proof -
  let ?as = "mpi_p (heap \<sigma> a)" and ?bs = "mpi_p (heap \<sigma> b)" and ?ns = "mpi_p (heap \<sigma> n)"
  let ?T = "heap \<sigma> t"
  let ?m = "if mpi_n (heap \<sigma> b) < k then mpi_n (heap \<sigma> b) else k"
  let ?ts = "replicate (mpi_n ?T) (0 :: t_int)"
  have ctx: "?ns \<noteq> []" "?ns ! 0 * mm = - 1" "0 < N" "n \<noteq> t" "mpi_n ?T = 2 * (k + 1)"
    using c by (auto simp: mont_ctx_def N_def k_def)
  have k: "length ?ns = k" "0 < k" using ctx(1) by (simp_all add: k_def)
  have NB: "N < BB ^ k" using nval_less [of ?ns] by (simp add: N_def k_def)
  have m: "?m \<le> length ?bs" "0 < ?m" "?m \<le> k" using B(1) k(2) by auto
  have tb: "nval (take ?m ?bs) = nval ?bs"
  proof (cases "mpi_n (heap \<sigma> b) < k")
    case False
    have "sig_limbs ?bs \<le> k" using B(2) NB by (intro sig_limbs_less) linarith
    then show ?thesis using False by (simp add: nval_take_sig)
  qed simp
  have ta: "nval (take k ?as) = nval ?as" by (rule nval_take_sig, rule sig_limbs_less, rule A(2))
  have B0: "0 \<le> nval ?bs" by simp
  have "mont_inv ?as (nval (take ?m ?bs)) (nval ?ns) 0 ?ts"
    using ctx(3) B0 unfolding tb mont_inv_def by (auto simp: N_def intro: exI [of _ 0] add_nonneg_pos)
  from mont_loop_spec [OF _ B(1) m(1) k(1) m(2,3) ctx(2) _ _ _ this] A(1) B(2) NB ctx(5)
  obtain ts where ts: "mont_loop k ?m ?as ?bs ?ns mm [0..<k] ?ts = Some ts" "length ts = mpi_n ?T"
      "mont_inv ?as (nval ?bs) N k ts"
    unfolding tb by (auto simp: N_def)
  let ?D = "nval (drop k ts)"
  from ts(3) obtain K where K: "?D * BB ^ k = nval ?as * nval ?bs + K * N" and Db: "?D < nval ?bs + N"
    and low: "take k ts = take k ?as"
    unfolding mont_inv_def ta by auto
  define r where "r = (if N \<le> ?D then ?D - N else ?D)"
  have r: "0 \<le> r" "r < N" "(r * BB ^ k) mod N = (nval ?as * nval ?bs) mod N"
    using mont_reduce [OF K Db B(2) _ ctx(3)] by (simp_all add: r_def)
  let ?as' = "take (k + 1) (drop k ts) @ drop (k + 1) ?as"
  have D2: "?D < BB ^ (k + 1)"
  proof -
    have "?D < BB ^ k * 2" using Db B(2) NB by simp
    also have "\<dots> \<le> BB ^ k * BB" by (intro mult_left_mono) auto
    finally show ?thesis by simp
  qed
  have hi: "nval (drop (k + 1) ?as) = 0"
    using A(2) by (intro nval_drop_sig) (use sig_limbs_less [OF A(2)] in simp)
  have tk: "nval (take (k + 1) (drop k ts)) = ?D" using D2 by (intro nval_take_sig sig_limbs_less)
  have a': "nval ?as' = ?D" "length ?as' = mpi_n (heap \<sigma> a)"
    using tk hi A(1) ts(2) ctx(5) by (simp_all add: nval_append)
  have bounds: "k + 1 \<le> mpi_n (heap \<sigma> a)" "k + (k + 1) \<le> length ts" using A(1) ts(2) ctx(5) by simp_all
  let ?s = "put a ((heap \<sigma> a)\<lparr>mpi_p := ?as'\<rparr>) (put t (?T\<lparr>mpi_p := ts\<rparr>) \<sigma>)"
  have tail: "ok (if mpi_cmp_abs ((heap \<sigma> a)\<lparr>mpi_p := ?as'\<rparr>) (heap \<sigma> n) \<ge> 0
                 then bindc (defd (mpi_sub_hlp k ?ns ?as')) (set_p a)
                 else bindc (defd (mpi_sub_hlp k ?as' ts)) (set_p t)) ?s Q"
  proof (cases "N \<le> ?D")
    case True
    then have c: "mpi_cmp_abs ((heap \<sigma> a)\<lparr>mpi_p := ?as'\<rparr>) (heap \<sigma> n) \<ge> 0"
      using a'(1) by (simp add: mpi_cmp_abs_sgn N_def sgn_if del: append_take_drop_id)
    obtain w where w: "mpi_sub_hlp k ?ns ?as' = Some w" "length w = length ?as'" "nval w = ?D - N"
      using mpi_sub_hlp_spec [of k ?ns ?as'] k(1) a' bounds True by (auto simp: N_def)
    have "Q () (put a ((heap \<sigma> a)\<lparr>mpi_p := w\<rparr>) (put t (?T\<lparr>mpi_p := ts\<rparr>) \<sigma>))"
      using w r a'(2) ts(2) True by (intro Q) (simp_all add: r_def)
    then show ?thesis using c w(1) d by (simp add: ok_bindc ok_defd ok_set_p)
  next
    case False
    then have c: "\<not> mpi_cmp_abs ((heap \<sigma> a)\<lparr>mpi_p := ?as'\<rparr>) (heap \<sigma> n) \<ge> 0"
      using a'(1) by (simp add: mpi_cmp_abs_sgn N_def sgn_if del: append_take_drop_id)
    have "?D < BB ^ k" using False NB by linarith
    then have "nval (take k ?as') = ?D" using a'(1) by (subst nval_take_sig) (auto intro!: sig_limbs_less)
    moreover have "nval ts = nval (take k ts) + BB ^ k * ?D" using bounds(2) by (intro nval_take_drop) simp
    moreover have "1 * ?D \<le> BB ^ k * ?D" by (intro mult_right_mono) auto
    ultimately have "nval (take k ?as') \<le> nval ts" using nval_nonneg [of "take k ts"] by linarith
    then obtain w where w: "mpi_sub_hlp k ?as' ts = Some w" "length w = length ts"
      using mpi_sub_hlp_spec [of k ?as' ts] a'(2) bounds by (auto simp del: append_take_drop_id)
    have "Q () (put a ((heap \<sigma> a)\<lparr>mpi_p := ?as'\<rparr>) (put t (?T\<lparr>mpi_p := w\<rparr>) \<sigma>))"
      using w r a' ts(2) False by (intro Q) (simp_all add: r_def)
    moreover have "put t (?T\<lparr>mpi_p := w\<rparr>) ?s = put a ((heap \<sigma> a)\<lparr>mpi_p := ?as'\<rparr>) (put t (?T\<lparr>mpi_p := w\<rparr>) \<sigma>)"
      using d(2) by (intro mem_eqI) simp_all
    ultimately show ?thesis using c w(1) d by (simp add: ok_bindc ok_defd ok_set_p)
  qed
  have hs: "heap (put t (?T\<lparr>mpi_p := ?ts\<rparr>) \<sigma>) a = heap \<sigma> a" "heap (put t (?T\<lparr>mpi_p := ?ts\<rparr>) \<sigma>) b = heap \<sigma> b"
    "heap (put t (?T\<lparr>mpi_p := ?ts\<rparr>) \<sigma>) n = heap \<sigma> n" "heap (put t (?T\<lparr>mpi_p := ?ts\<rparr>) \<sigma>) t = ?T\<lparr>mpi_p := ?ts\<rparr>"
    using d ctx(4) by simp_all
  have hs2: "heap ?s a = (heap \<sigma> a)\<lparr>mpi_p := ?as'\<rparr>" "heap ?s n = heap \<sigma> n" "heap ?s t = ?T\<lparr>mpi_p := ts\<rparr>"
    "heap (put t (?T\<lparr>mpi_p := ts\<rparr>) \<sigma>) a = heap \<sigma> a"
    using d ctx(4) by simp_all
  show ?thesis
    unfolding mpi_montmul_def ok_bindc ok_rd ok_seqc ok_set_p Let_def hs ok_defd k_def [symmetric]
    apply (rule exI [of _ ts], rule conjI)
    subgoal using ts(1) by simp
    apply (rule exI [of _ ?as'], rule conjI)
    subgoal using bounds by simp
    subgoal using tail d ctx(4) by (simp add: put_commute [of t a] ok_bindc ok_defd ok_set_p ok_if del: append_take_drop_id split: if_splits)
    done
qed

lemma leave_put_low: "a < sp \<sigma> \<Longrightarrow> leave \<sigma> (put a v \<tau>) = put a v (leave \<sigma> \<tau>)"
  by simp

lemma mpi_montred_ok:
  fixes \<sigma> n
  defines "N \<equiv> nval (mpi_p (heap \<sigma> n))" and "k \<equiv> mpi_n (heap \<sigma> n)"
  assumes c: "mont_ctx \<sigma> n mm t" and d: "a \<noteq> n" "a \<noteq> t" "a < sp \<sigma>" "n < sp \<sigma>" "t < sp \<sigma>"
    and A: "k + 1 \<le> mpi_n (heap \<sigma> a)" "nval (mpi_p (heap \<sigma> a)) < BB ^ k"
    and Q: "\<And>va vt. mpi_s va = mpi_s (heap \<sigma> a) \<Longrightarrow> mpi_n va = mpi_n (heap \<sigma> a) \<Longrightarrow> nval (mpi_p va) < N \<Longrightarrow>
      (nval (mpi_p va) * BB ^ k) mod N = nval (mpi_p (heap \<sigma> a)) mod N \<Longrightarrow>
      mpi_n vt = mpi_n (heap \<sigma> t) \<Longrightarrow> Q () (put a va (put t vt \<sigma>))"
  shows "ok (mpi_montred a n mm t) \<sigma> Q"
proof -
  let ?u = "sp \<sigma>" and ?U = "\<lparr>mpi_s = 1, mpi_p = [1]\<rparr>"
  let ?s = "put ?u ?U (enter 1 \<sigma>)"
  have hs: "heap ?s a = heap \<sigma> a" "heap ?s n = heap \<sigma> n" "heap ?s t = heap \<sigma> t" "heap ?s ?u = ?U"
    using d by simp_all
  have lv: "leave \<sigma> ?s = \<sigma>" by (intro leave_frame [where k = 1] frame_put frame_refl) simp
  have c': "mont_ctx ?s n mm t" using c d unfolding mont_ctx_def hs by simp
  have "1 \<le> N" using c by (simp add: mont_ctx_def N_def)
  have "ok (mpi_montmul a ?u n mm t) ?s (\<lambda>u \<tau>. Q u (leave \<sigma> \<tau>))"
  proof (rule mpi_montmul_ok [OF c'], goal_cases)
    case (8 va vt)
    have "leave \<sigma> (put a va (put t vt ?s)) = put a va (put t vt \<sigma>)"
      using d lv by (simp only: leave_put_low)
    then show ?case using 8 unfolding hs by (simp add: Q N_def k_def)
  qed (use d A \<open>1 \<le> N\<close> in \<open>simp_all add: hs N_def k_def\<close>)
  then show ?thesis by (simp add: mpi_montred_def ok_locals ok_seqc ok_wr)
qed

end
