(* ===== verification/Mpi_Expm.thy ===== *)
theory Mpi_Expm
  imports Mpi_Mont
begin

text \<open>
  Sliding-window modular exponentiation, \<open>mpi_exp_mod\<close> of \<open>bignum.c\<close>. The local
  \<open>mpi W[64]\<close> are the cells \<open>w .. w + 63\<close>; the scan over the exponent bits is a loop over
  the C variables \<open>nblimbs\<close>, \<open>bufsize\<close>, \<open>state\<close>, \<open>nbits\<close>, \<open>wbits\<close>.
\<close>

subsection \<open>Definitions\<close>

definition expm_wsize :: "nat \<Rightarrow> nat" where
  "expm_wsize i = (if i > 671 then 6 else if i > 239 then 5 else if i > 79 then 4 else if i > 23 then 3 else 1)"

text \<open>\<open>R^2 mod N\<close>, computed or taken from the caller's cache.\<close>

definition expm_RR ::
  "(t_int \<Rightarrow> t_int \<Rightarrow> t_int \<Rightarrow> t_int option) \<Rightarrow> addr \<Rightarrow> addr \<Rightarrow> addr option \<Rightarrow> unit cm" where
  "expm_RR qhat rr n cache =
     bindc (case cache of None \<Rightarrow> ret [] | Some c \<Rightarrow> bindc (rd c) (\<lambda>C. ret (mpi_p C))) (\<lambda>p.
       if cache = None \<or> p = []
       then seqc (mpi_lset rr 1)
              (bindc (rd n) (\<lambda>N. seqc (mpi_shift_l rr (mpi_n N * 2 * 64))
                (seqc (mpi_mod_mpi qhat rr rr n)
                  (case cache of None \<Rightarrow> ret () | Some c \<Rightarrow> bindc (rd rr) (wr c)))))
       else (case cache of None \<Rightarrow> ret () | Some c \<Rightarrow> bindc (rd c) (wr rr)))"

text \<open>\<open>W[1] = A * R mod N\<close> and \<open>X = R mod N\<close>.\<close>

definition expm_start ::
  "(t_int \<Rightarrow> t_int \<Rightarrow> t_int \<Rightarrow> t_int option) \<Rightarrow> addr \<Rightarrow> addr \<Rightarrow> addr \<Rightarrow> t_int \<Rightarrow> addr \<Rightarrow> addr \<Rightarrow> addr \<Rightarrow> unit cm" where
  "expm_start qhat x a n mm rr t w =
     seqc (bindc (rd a) (\<lambda>A. bindc (rd n) (\<lambda>N.
            if mpi_cmp_mpi A N \<ge> 0 then ignore (mpi_mod_mpi qhat (w + 1) a n) else ignore (mpi_copy (w + 1) a))))
       (seqc (mpi_montmul (w + 1) rr n mm t)
         (seqc (mpi_copy x rr) (mpi_montred x n mm t)))"

text \<open>The table \<open>W[1 << (wsize - 1)] .. W[(1 << wsize) - 1]\<close>.\<close>

definition expm_table :: "addr \<Rightarrow> t_int \<Rightarrow> addr \<Rightarrow> addr \<Rightarrow> nat \<Rightarrow> unit cm" where
  "expm_table n mm t w wsize =
     (if wsize > 1
      then let j = push_bit (wsize - 1) 1 in
        bindc (rd n) (\<lambda>N. seqc (mpi_grow (w + j) (mpi_n N + 1)) (seqc (mpi_copy (w + j) (w + 1))
          (seqc (forc [0..<wsize - 1] (\<lambda>_. mpi_montmul (w + j) (w + j) n mm t))
            (forc [j + 1..<push_bit wsize 1] (\<lambda>i.
               seqc (mpi_grow (w + i) (mpi_n N + 1)) (seqc (mpi_copy (w + i) (w + (i - 1)))
                 (mpi_montmul (w + i) (w + 1) n mm t)))))))
      else ret ())"

type_synonym expm_vars = "nat \<times> nat \<times> nat \<times> nat \<times> nat"

definition expm_more :: "expm_vars \<Rightarrow> mem \<Rightarrow> bool option" where
  "expm_more = (\<lambda>(nblimbs, bufsize, _) \<sigma>. Some (\<not> (bufsize = 0 \<and> nblimbs = 0)))"

definition expm_bit ::
  "addr \<Rightarrow> addr \<Rightarrow> addr \<Rightarrow> t_int \<Rightarrow> addr \<Rightarrow> addr \<Rightarrow> nat \<Rightarrow> expm_vars \<Rightarrow> expm_vars cm" where
  "expm_bit x e n mm t w wsize = (\<lambda>(nblimbs, bufsize, state, nbits, wbits).
     let nblimbs' = (if bufsize = 0 then nblimbs - 1 else nblimbs);
         bufsize' = (if bufsize = 0 then 64 else bufsize) - 1 in
     bindc (get_limb e nblimbs') (\<lambda>l. let ei = drop_bit bufsize' l AND 1 in
       if ei = 0 \<and> state = 0 then ret (nblimbs', bufsize', state, nbits, wbits)
       else if ei = 0 \<and> state = 1
       then seqc (mpi_montmul x x n mm t) (ret (nblimbs', bufsize', state, nbits, wbits))
       else let nbits' = nbits + 1; wbits' = wbits OR push_bit (wsize - nbits') (unat ei) in
         if nbits' = wsize
         then seqc (forc [0..<wsize] (\<lambda>_. mpi_montmul x x n mm t))
                (seqc (mpi_montmul x (w + wbits') n mm t) (ret (nblimbs', bufsize', 1, 0, 0)))
         else ret (nblimbs', bufsize', 2, nbits', wbits')))"

fun expm_rest :: "addr \<Rightarrow> addr \<Rightarrow> t_int \<Rightarrow> addr \<Rightarrow> addr \<Rightarrow> nat \<Rightarrow> nat \<Rightarrow> nat \<Rightarrow> unit cm" where
  "expm_rest x n mm t w wsize 0 wbits = ret ()"
| "expm_rest x n mm t w wsize (Suc j) wbits =
     seqc (mpi_montmul x x n mm t)
       (let wbits = push_bit 1 wbits in
        seqc (if wbits AND push_bit wsize 1 \<noteq> 0 then mpi_montmul x (w + 1) n mm t else ret ())
          (expm_rest x n mm t w wsize j wbits))"

definition expm_scan :: "addr \<Rightarrow> addr \<Rightarrow> addr \<Rightarrow> t_int \<Rightarrow> addr \<Rightarrow> addr \<Rightarrow> nat \<Rightarrow> unit cm" where
  "expm_scan x e n mm t w wsize =
     bindc (rd e) (\<lambda>E.
       bindc (whilec expm_more (expm_bit x e n mm t w wsize) (mpi_n E, 0, 0, 0, 0))
         (\<lambda>(_, _, _, nbits, wbits). expm_rest x n mm t w wsize nbits wbits))"

definition mpi_exp_mod ::
  "(t_int \<Rightarrow> t_int \<Rightarrow> t_int \<Rightarrow> t_int option) \<Rightarrow> addr \<Rightarrow> addr \<Rightarrow> addr \<Rightarrow> addr \<Rightarrow> addr option \<Rightarrow> unit cm" where
  "mpi_exp_mod qhat x a e n cache =
     bindc (rd n) (\<lambda>N. bindc (defd (mpi_cmp_int N 0)) (\<lambda>c.
       if c < 0 then throw POLARSSL_ERR_MPI_BAD_INPUT_DATA
       else bindc (get_limb n 0) (\<lambda>p0.
         if p0 AND 1 = 0 then throw POLARSSL_ERR_MPI_BAD_INPUT_DATA
         else bindc (defd (mpi_montg_init N)) (\<lambda>mm.
           locals 66 (\<lambda>rr. let t = rr + 1; w = rr + 2 in
             seqc (forc [0..<64] (\<lambda>i. wr (w + i) \<lparr>mpi_s = 0, mpi_p = []\<rparr>))
               (bindc (rd e) (\<lambda>E. bindc (defd (mpi_msb E)) (\<lambda>i. let wsize = expm_wsize i; j = mpi_n N + 1 in
                 seqc (mpi_grow x j) (seqc (mpi_grow (w + 1) j) (seqc (mpi_grow t (j * 2))
                   (seqc (expm_RR qhat rr n cache)
                     (seqc (expm_start qhat x a n mm rr t w)
                       (seqc (expm_table n mm t w wsize)
                         (seqc (expm_scan x e n mm t w wsize) (mpi_montred x n mm t)))))))))))))))"

subsection \<open>Montgomery representatives\<close>

definition rep :: "int \<Rightarrow> int \<Rightarrow> mpi \<Rightarrow> int \<Rightarrow> bool" where
  "rep N R v y \<longleftrightarrow> nval (mpi_p v) < N \<and> nval (mpi_p v) mod N = (y * R) mod N"

lemma odd_coprime_BB: "odd N \<Longrightarrow> coprime N (BB ^ k)" for N :: int
  unfolding BB_power by simp

lemma mod_cancel:
  assumes "coprime N (R :: int)" "(p * R) mod N = (q * R) mod N"
  shows "p mod N = q mod N"
proof -
  have "N dvd (p - q) * R" using assms(2) by (simp add: mod_eq_dvd_iff left_diff_distrib)
  then have "N dvd p - q" using assms(1) by (simp add: coprime_dvd_mult_left_iff)
  then show ?thesis by (simp add: mod_eq_dvd_iff)
qed

lemma rep_mult:
  assumes "coprime N R" "nval (mpi_p v) < N"
    and m: "(nval (mpi_p v) * R) mod N = (a * b) mod N"
    and a: "a mod N = (y * R) mod N" and b: "b mod N = (z * R) mod N"
  shows "rep N R v (y * z)"
proof -
  have "(a * b) mod N = (a mod N * (b mod N)) mod N" by (simp only: mod_mult_eq)
  also have "\<dots> = ((y * R) * (z * R)) mod N" unfolding a b by (rule mod_mult_eq)
  finally have "(nval (mpi_p v) * R) mod N = (y * z * R * R) mod N" using m by (simp add: ac_simps)
  from mod_cancel [OF assms(1) this] assms(2) show ?thesis by (simp add: rep_def)
qed

text \<open>
  The state of the exponentiation: only \<open>X\<close> and \<open>T\<close> have changed, and \<open>X\<close> represents \<open>y\<close>.
\<close>

definition expm_st :: "mem \<Rightarrow> addr \<Rightarrow> addr \<Rightarrow> int \<Rightarrow> int \<Rightarrow> int \<Rightarrow> mem \<Rightarrow> bool" where
  "expm_st \<sigma> x t N R y \<tau> \<longleftrightarrow> (\<exists>vx vt. \<tau> = put x vx (put t vt \<sigma>) \<and> mpi_s vx = mpi_s (heap \<sigma> x) \<and>
     mpi_n vx = mpi_n (heap \<sigma> x) \<and> mpi_n vt = mpi_n (heap \<sigma> t) \<and> rep N R vx y)"

lemma expm_stI:
  "\<tau> = put x vx (put t vt \<sigma>) \<Longrightarrow> mpi_s vx = mpi_s (heap \<sigma> x) \<Longrightarrow> mpi_n vx = mpi_n (heap \<sigma> x) \<Longrightarrow>
   mpi_n vt = mpi_n (heap \<sigma> t) \<Longrightarrow> rep N R vx y \<Longrightarrow> expm_st \<sigma> x t N R y \<tau>"
  by (auto simp: expm_st_def)

text \<open>The operands of the multiplications from \<open>\<sigma>\<close> on.\<close>

definition expm_ctx :: "mem \<Rightarrow> addr \<Rightarrow> addr \<Rightarrow> t_int \<Rightarrow> addr \<Rightarrow> bool" where
  "expm_ctx \<sigma> x n mm t \<longleftrightarrow> mont_ctx \<sigma> n mm t \<and> odd (nval (mpi_p (heap \<sigma> n))) \<and> x \<noteq> n \<and> x \<noteq> t \<and>
     mpi_n (heap \<sigma> n) + 1 \<le> mpi_n (heap \<sigma> x)"

lemma montmul_st:
  fixes \<sigma> n
  defines "N \<equiv> nval (mpi_p (heap \<sigma> n))" and "R \<equiv> BB ^ mpi_n (heap \<sigma> n)"
  assumes c: "expm_ctx \<sigma> x n mm t" and st: "expm_st \<sigma> x t N R y \<tau>" and bt: "b \<noteq> t"
    and b: "(b = x \<and> z = y) \<or> (b \<noteq> x \<and> mpi_p (heap \<sigma> b) \<noteq> [] \<and> rep N R (heap \<sigma> b) z)"
  shows "ok (mpi_montmul x b n mm t) \<tau> (\<lambda>_. expm_st \<sigma> x t N R (y * z))"
proof -
  from st obtain vx vt where \<tau>: "\<tau> = put x vx (put t vt \<sigma>)" and v: "mpi_s vx = mpi_s (heap \<sigma> x)"
    "mpi_n vx = mpi_n (heap \<sigma> x)" "mpi_n vt = mpi_n (heap \<sigma> t)" "rep N R vx y"
    by (auto simp: expm_st_def)
  have d: "x \<noteq> n" "x \<noteq> t" "n \<noteq> t" "mpi_n (heap \<sigma> n) + 1 \<le> mpi_n (heap \<sigma> x)" "odd N"
    and m: "mont_ctx \<sigma> n mm t" using c by (auto simp: expm_ctx_def mont_ctx_def N_def)
  have h: "heap \<tau> x = vx" "heap \<tau> t = vt" "heap \<tau> n = heap \<sigma> n" using d by (simp_all add: \<tau>)
  have m': "mont_ctx \<tau> n mm t" using m v(3) by (simp add: mont_ctx_def h)
  have co: "coprime N R" unfolding R_def using d(5) by (rule odd_coprime_BB)
  have hb: "mpi_p (heap \<tau> b) \<noteq> []" "nval (mpi_p (heap \<tau> b)) < N" "nval (mpi_p (heap \<tau> b)) mod N = (z * R) mod N"
    using b bt v(2,4) d(4) by (auto simp: \<tau> rep_def simp flip: length_greater_0_conv)
  have NR: "N < R" using nval_less [of "mpi_p (heap \<sigma> n)"] by (simp add: N_def R_def)
  show ?thesis
  proof (rule mpi_montmul_ok [OF m'], goal_cases)
    case (8 va wt)
    have "rep N R va (y * z)"
      by (rule rep_mult [OF co _ 8(4) [unfolded h, folded N_def R_def]])
        (use 8(3) hb(3) v(4) in \<open>simp_all add: h rep_def N_def [symmetric]\<close>)
    moreover have "put x va (put t wt \<tau>) = put x va (put t wt \<sigma>)"
      using d by (intro mem_eqI) (simp_all add: \<tau>)
    ultimately show ?case
      using 8(1,2,5) v unfolding h by (intro expm_stI [where vx = va and vt = wt]) simp_all
  qed (use d bt v hb NR in \<open>simp_all add: h rep_def N_def [symmetric] R_def [symmetric]\<close>)
qed

text \<open>Squarings, and the loops of the scan.\<close>

lemma square_loop:
  fixes \<sigma> n
  defines "N \<equiv> nval (mpi_p (heap \<sigma> n))" and "R \<equiv> BB ^ mpi_n (heap \<sigma> n)"
  assumes c: "expm_ctx \<sigma> x n mm t" and st: "expm_st \<sigma> x t N R y \<tau>"
  shows "ok (forc [0..<j] (\<lambda>_. mpi_montmul x x n mm t)) \<tau> (\<lambda>_. expm_st \<sigma> x t N R (y ^ 2 ^ j))"
proof (rule ok_for_up [where I = "\<lambda>i. expm_st \<sigma> x t N R (y ^ 2 ^ i)"])
  fix i \<rho> assume "expm_st \<sigma> x t N R (y ^ 2 ^ i) \<rho>"
  moreover have "x \<noteq> t" using c by (simp add: expm_ctx_def)
  moreover have "y ^ 2 ^ i * y ^ 2 ^ i = y ^ 2 ^ Suc i" by (simp add: power_add [symmetric] mult_2)
  ultimately show "ok (mpi_montmul x x n mm t) \<rho> (\<lambda>_. expm_st \<sigma> x t N R (y ^ 2 ^ Suc i))"
    using montmul_st [OF c [unfolded N_def R_def], of "y ^ 2 ^ i" \<rho> x "y ^ 2 ^ i"]
    by (simp add: N_def R_def)
qed (use st in simp_all)

text \<open>The table of odd and even powers the scan multiplies with.\<close>

definition expm_tab :: "mem \<Rightarrow> addr \<Rightarrow> int \<Rightarrow> int \<Rightarrow> int \<Rightarrow> nat \<Rightarrow> bool" where
  "expm_tab \<sigma> w N R A wsize \<longleftrightarrow> (\<forall>i. (i = 1 \<or> 2 ^ (wsize - 1) \<le> i \<and> i < 2 ^ wsize) \<longrightarrow>
     mpi_p (heap \<sigma> (w + i)) \<noteq> [] \<and> rep N R (heap \<sigma> (w + i)) (A ^ i))"

lemma top_bits_step:
  fixes wb j s :: nat
  assumes "Suc j \<le> s"
  shows "(if push_bit 1 wb AND push_bit s 1 \<noteq> 0 then 2 ^ j else 0) + push_bit 1 wb mod 2 ^ s div 2 ^ (s - j)
    = wb mod 2 ^ s div 2 ^ (s - Suc j)"
proof -
  obtain r where s: "s = Suc r" using assms by (cases s) auto
  have bit: "push_bit 1 wb AND push_bit s 1 \<noteq> 0 \<longleftrightarrow> odd (wb div 2 ^ r)"
  proof -
    have "push_bit 1 wb AND 2 ^ s = (if bit (push_bit 1 wb) s then 2 ^ s else 0)"
      by (rule bit_eqI) (auto simp: bit_and_iff bit_exp_iff)
    moreover have "bit (push_bit 1 wb) s \<longleftrightarrow> bit wb r" by (simp add: s bit_Suc push_bit_eq_mult)
    ultimately show ?thesis by (simp add: push_bit_eq_mult bit_iff_odd)
  qed
  let ?v = "wb mod 2 ^ r" and ?b = "wb div 2 ^ r mod 2"
  have m: "wb mod 2 ^ s = ?b * 2 ^ r + ?v"
    using mod_mult2_eq [of wb "2 ^ r" 2] by (simp add: s mult.commute)
  have "push_bit 1 wb mod 2 ^ s = (2 * wb) mod (2 * 2 ^ r)" by (simp add: s push_bit_eq_mult mult.commute)
  then have m2: "push_bit 1 wb mod 2 ^ s = 2 * ?v" by (simp only: mult_mod_right)
  have e: "s - j = Suc (r - j)" "s - Suc j = r - j" "r = j + (r - j)" using assms s by simp_all
  have "(?b * 2 ^ r + ?v) div 2 ^ (r - j) = ?b * 2 ^ j + ?v div 2 ^ (r - j)"
  proof -
    have e': "?b * 2 ^ r = (?b * 2 ^ j) * 2 ^ (r - j)" using e(3) by (metis mult.assoc power_add)
    show ?thesis unfolding e' by (rule div_mult_self3) simp
  qed
  moreover have "2 * ?v div 2 ^ (s - j) = ?v div 2 ^ (r - j)" unfolding e(1) by simp
  ultimately show ?thesis
    unfolding m m2 e(2) bit by (auto simp: odd_iff_mod_2_eq_one)
qed

lemma expm_rest_ok:
  fixes \<sigma> n
  defines "N \<equiv> nval (mpi_p (heap \<sigma> n))" and "R \<equiv> BB ^ mpi_n (heap \<sigma> n)"
  assumes c: "expm_ctx \<sigma> x n mm t" and tab: "expm_tab \<sigma> w N R A wsize" and w: "x < w" "t < w"
    and "expm_st \<sigma> x t N R y \<tau>" "j \<le> wsize"
  shows "ok (expm_rest x n mm t w wsize j wb) \<tau>
    (\<lambda>_. expm_st \<sigma> x t N R (y ^ 2 ^ j * A ^ (wb mod 2 ^ wsize div 2 ^ (wsize - j))))"
  using assms(7,8)
proof (induction j arbitrary: y \<tau> wb)
  case 0
  then show ?case by (simp add: wp)
next
  case (Suc j)
  note mm = montmul_st [OF c, folded N_def R_def]
  have xt: "x \<noteq> t" using c by (simp add: expm_ctx_def)
  have W1: "mpi_p (heap \<sigma> (w + 1)) \<noteq> []" "rep N R (heap \<sigma> (w + 1)) A"
    using tab by (auto simp: expm_tab_def dest: spec [of _ 1])
  let ?wb = "push_bit 1 wb" and ?b = "push_bit 1 wb AND push_bit wsize 1 \<noteq> 0"
  have "ok (mpi_montmul x x n mm t) \<tau> (\<lambda>_. expm_st \<sigma> x t N R (y * y))"
    using xt by (intro mm Suc.prems) auto
  note sq = this
  have opt: "ok (if ?b then mpi_montmul x (w + 1) n mm t else ret ()) \<rho>
      (\<lambda>_. expm_st \<sigma> x t N R (y * y * A ^ (if ?b then 1 else 0)))" if "expm_st \<sigma> x t N R (y * y) \<rho>" for \<rho>
    using mm [OF that, of "w + 1" A] W1 w that by (auto simp: wp)
  have rest: "ok (expm_rest x n mm t w wsize j ?wb) \<rho>
      (\<lambda>_. expm_st \<sigma> x t N R (y ^ 2 ^ Suc j * A ^ (wb mod 2 ^ wsize div 2 ^ (wsize - Suc j))))"
    if "expm_st \<sigma> x t N R (y * y * A ^ (if ?b then 1 else 0)) \<rho>" for \<rho>
  proof -
    let ?e = "?wb mod 2 ^ wsize div 2 ^ (wsize - j)"
    have sq: "(y * y) ^ 2 ^ j = y ^ 2 ^ Suc j"
      by (simp only: power2_eq_square [symmetric] power_mult [symmetric] power_Suc)
    have "(y * y * A ^ (if ?b then 1 else 0)) ^ 2 ^ j = y ^ 2 ^ Suc j * A ^ (if ?b then 2 ^ j else 0)"
    proof -
      have "(y * y * A ^ c) ^ 2 ^ j = y ^ 2 ^ Suc j * A ^ (c * 2 ^ j)" for c
        unfolding power_mult_distrib [of "y * y"] sq by (simp only: power_mult)
      from this [of "if ?b then 1 else 0"] show ?thesis by (cases ?b) (simp_all del: power_Suc)
    qed
    then have "(y * y * A ^ (if ?b then 1 else 0)) ^ 2 ^ j * A ^ ?e = y ^ 2 ^ Suc j * A ^ ((if ?b then 2 ^ j else 0) + ?e)"
      by (simp only: power_add mult.assoc)
    also have "(if ?b then 2 ^ j else 0) + ?e = wb mod 2 ^ wsize div 2 ^ (wsize - Suc j)"
      using Suc.prems(2) by (rule top_bits_step)
    finally show ?thesis using Suc.IH [OF that, of ?wb] Suc.prems(2) by simp
  qed
  show ?case
    unfolding expm_rest.simps Let_def ok_seqc
    by (rule ok_mono [OF sq], rule ok_mono [OF opt], assumption, rule rest)
qed

subsection \<open>The scan\<close>

text \<open>Exponents are naturals: \<open>mag X\<close> is the magnitude of \<open>X\<close>.\<close>

definition mag :: "mpi \<Rightarrow> nat" where
  "mag X = nat (nval (mpi_p X))"

lemma mag_bit:
  assumes "nb < mpi_n X" "bs < 64"
  shows "mag X div 2 ^ (nb * 64 + bs) mod 2 = unat (drop_bit bs (mpi_p X ! nb) AND 1)"
proof -
  let ?w = "mpi_p X ! nb"
  have "nval (mpi_p X) div 2 ^ (nb * 64 + bs) = nval (mpi_p X) div BB ^ nb div 2 ^ bs"
    by (simp add: power_add BB_power zdiv_zmult2_eq)
  also have "nval (mpi_p X) div BB ^ nb = uint ?w + BB * (nval (mpi_p X) div BB ^ Suc nb)"
    by (rule limb_div [OF assms(1)])
  also have "(uint ?w + BB * c) div 2 ^ bs mod 2 = uint ?w div 2 ^ bs mod 2" for c
  proof -
    have "(2::int) * 2 ^ (63 - bs) * 2 ^ bs = 2 ^ (Suc (63 - bs) + bs)" by (simp add: power_add)
    also have "Suc (63 - bs) + bs = 64" using assms(2) by simp
    finally have "BB = (2 * 2 ^ (63 - bs)) * 2 ^ bs" by simp
    then have "uint ?w + BB * c = uint ?w + (2 * 2 ^ (63 - bs) * c) * 2 ^ bs" by (simp only: ac_simps)
    then have "(uint ?w + BB * c) div 2 ^ bs = (2 * 2 ^ (63 - bs) * c) + uint ?w div 2 ^ bs"
      by (simp only: div_mult_self1) simp
    also have "\<dots> = uint ?w div 2 ^ bs + (2 ^ (63 - bs) * c) * 2" by simp
    finally show ?thesis by (simp only: mod_mult_self1)
  qed
  finally have "nval (mpi_p X) div 2 ^ (nb * 64 + bs) mod 2 = uint ?w div 2 ^ bs mod 2" .
  moreover have "int (mag X div 2 ^ (nb * 64 + bs) mod 2) = nval (mpi_p X) div 2 ^ (nb * 64 + bs) mod 2"
    by (simp add: mag_def of_nat_div of_nat_mod)
  moreover have "int (unat (drop_bit bs ?w AND 1)) = uint ?w div 2 ^ bs mod 2"
    by (simp add: unat_eq_nat_uint and_one_eq uint_mod uint_drop_bit)
  ultimately show ?thesis by (simp only: of_nat_eq_iff [symmetric, where ?'a = int])
qed

definition expm_inv ::
  "mem \<Rightarrow> addr \<Rightarrow> addr \<Rightarrow> int \<Rightarrow> int \<Rightarrow> int \<Rightarrow> mpi \<Rightarrow> nat \<Rightarrow> expm_vars \<Rightarrow> mem \<Rightarrow> bool" where
  "expm_inv \<sigma> x t N R A E wsize = (\<lambda>(nb, bs, st, nbits, wbits) \<tau>.
     bs < 64 \<and> nb * 64 + bs \<le> mpi_n E * 64 \<and>
     (\<exists>y. expm_st \<sigma> x t N R (A ^ y) \<tau> \<and>
        mag E div 2 ^ (nb * 64 + bs) = y * 2 ^ nbits + wbits div 2 ^ (wsize - nbits) \<and>
        (st = 0 \<and> nbits = 0 \<and> wbits = 0 \<and> y = 0 \<or> st = 1 \<and> nbits = 0 \<and> wbits = 0 \<or>
         st = 2 \<and> 0 < nbits \<and> nbits < wsize \<and> 2 ^ (wsize - 1) \<le> wbits \<and> wbits < 2 ^ wsize \<and>
         2 ^ (wsize - nbits) dvd wbits)))"

lemma expm_invI:
  assumes "bs < 64" "nb * 64 + bs \<le> mpi_n E * 64" "expm_st \<sigma> x t N R (A ^ y) \<tau>"
    and "mag E div 2 ^ (nb * 64 + bs) = y * 2 ^ nbits + wbits div 2 ^ (wsize - nbits)"
    and "st = 0 \<and> nbits = 0 \<and> wbits = 0 \<and> y = 0 \<or> st = 1 \<and> nbits = 0 \<and> wbits = 0 \<or>
         st = 2 \<and> 0 < nbits \<and> nbits < wsize \<and> 2 ^ (wsize - 1) \<le> wbits \<and> wbits < 2 ^ wsize \<and>
         2 ^ (wsize - nbits) dvd wbits"
  shows "expm_inv \<sigma> x t N R A E wsize (nb, bs, st, nbits, wbits) \<tau>"
  using assms by (auto simp: expm_inv_def)

lemma nat_or_disjoint: "r < 2 ^ t \<Longrightarrow> (2 ^ t * a) OR r = 2 ^ t * a + (r :: nat)"
proof -
  assume "r < 2 ^ t"
  then have "int r < 2 ^ t" by (metis of_nat_less_iff of_nat_numeral of_nat_power)
  then have "int ((2 ^ t * a) OR r) = int (2 ^ t * a + r)"
    using int_or_disjoint [of "int r" t "int a"] by (simp add: of_nat_or_eq)
  then show ?thesis by (simp only: of_nat_eq_iff)
qed

lemma window_step:
  fixes wbits ei nbits wsize :: nat
  assumes "ei \<le> 1" "nbits < wsize" "2 ^ (wsize - nbits) dvd wbits" "wbits < 2 ^ wsize"
  defines "w \<equiv> wbits OR push_bit (wsize - (nbits + 1)) ei"
  shows "w = wbits + ei * 2 ^ (wsize - (nbits + 1))" "w < 2 ^ wsize" "2 ^ (wsize - (nbits + 1)) dvd w"
    "w div 2 ^ (wsize - (nbits + 1)) = 2 * (wbits div 2 ^ (wsize - nbits)) + ei"
proof -
  let ?s = "wsize - (nbits + 1)"
  have s: "wsize - nbits = Suc ?s" using assms(2) by simp
  obtain q where q: "wbits = 2 ^ Suc ?s * q" using assms(3) unfolding s by (auto elim: dvdE)
  have "push_bit ?s ei < 2 ^ Suc ?s" using assms(1) by (cases "ei = 0") (auto simp: push_bit_eq_mult le_Suc_eq)
  then show w: "w = wbits + ei * 2 ^ ?s"
    unfolding w_def q by (subst nat_or_disjoint) (simp_all add: push_bit_eq_mult)
  have w2: "w = 2 ^ ?s * (2 * q + ei)" unfolding w q by (simp add: algebra_simps)
  then show "2 ^ ?s dvd w" by simp
  have "wbits div 2 ^ (wsize - nbits) = q" unfolding s q by simp
  then show "w div 2 ^ ?s = 2 * (wbits div 2 ^ (wsize - nbits)) + ei" unfolding w2 by simp
  have p: "(2::nat) ^ wsize = 2 ^ Suc ?s * 2 ^ nbits" using assms(2) by (simp only: power_add [symmetric]) simp
  then have "2 ^ Suc ?s * q < 2 ^ Suc ?s * 2 ^ nbits" using assms(4) unfolding q by (simp only:)
  then have "q + 1 \<le> 2 ^ nbits" by simp
  then have "2 ^ Suc ?s * (q + 1) \<le> 2 ^ wsize" unfolding p by (rule mult_le_mono2)
  moreover have "2 * q + ei < 2 * (q + 1)" using assms(1) by simp
  then have "2 ^ ?s * (2 * q + ei) < 2 ^ ?s * (2 * (q + 1))" by (rule mult_strict_left_mono) simp
  then have "w < 2 ^ Suc ?s * (q + 1)" unfolding w2 by (simp only: power_Suc ac_simps)
  ultimately show "w < 2 ^ wsize" by linarith
qed

lemma expm_bit_ok:
  fixes \<sigma> n
  defines "N \<equiv> nval (mpi_p (heap \<sigma> n))" and "R \<equiv> BB ^ mpi_n (heap \<sigma> n)"
  assumes c: "expm_ctx \<sigma> x n mm t" and tab: "expm_tab \<sigma> w N R A wsize" and w: "x < w" "t < w"
    and ws: "0 < wsize" and e: "e \<noteq> x" "e \<noteq> t"
    and I: "expm_inv \<sigma> x t N R A (heap \<sigma> e) wsize v \<tau>" and more: "expm_more v \<tau> = Some True"
  shows "ok (expm_bit x e n mm t w wsize v) \<tau> (\<lambda>v' \<tau>'. expm_inv \<sigma> x t N R A (heap \<sigma> e) wsize v' \<tau>' \<and>
     (case v' of (nb, bs, _) \<Rightarrow> nb * 64 + bs) < (case v of (nb, bs, _) \<Rightarrow> nb * 64 + bs))"
proof -
  let ?E = "heap \<sigma> e"
  obtain nb bs st nbits wbits where v: "v = (nb, bs, st, nbits, wbits)" by (cases v) auto
  from I obtain y where st: "expm_st \<sigma> x t N R (A ^ y) \<tau>" and
    pos: "bs < 64" "nb * 64 + bs \<le> mpi_n ?E * 64" and
    h: "mag ?E div 2 ^ (nb * 64 + bs) = y * 2 ^ nbits + wbits div 2 ^ (wsize - nbits)" and
    state: "st = 0 \<and> nbits = 0 \<and> wbits = 0 \<and> y = 0 \<or> st = 1 \<and> nbits = 0 \<and> wbits = 0 \<or>
         st = 2 \<and> 0 < nbits \<and> nbits < wsize \<and> 2 ^ (wsize - 1) \<le> wbits \<and> wbits < 2 ^ wsize \<and>
         2 ^ (wsize - nbits) dvd wbits"
    by (auto simp: v expm_inv_def)
  define nb' bs' where "nb' = (if bs = 0 then nb - 1 else nb)" and "bs' = (if bs = 0 then 64 else bs) - 1"
  have p: "nb * 64 + bs = Suc (nb' * 64 + bs')" using more by (auto simp: v expm_more_def nb'_def bs'_def)
  have b: "nb' < mpi_n ?E" "bs' < 64" using pos more by (cases "bs = 0"; auto simp: v expm_more_def nb'_def bs'_def)+
  define l where "l = mpi_p ?E ! nb'"
  define ei where "ei = unat (drop_bit bs' l AND 1)"
  define P where "P = nb' * 64 + bs'"
  have eb: "mag ?E div 2 ^ P mod 2 = ei" using mag_bit [OF b] by (simp add: ei_def l_def P_def)
  have "ei < 2" unfolding eb [symmetric] by simp
  then have ei1: "ei \<le> 1" by simp
  have pP: "nb * 64 + bs = Suc P" unfolding P_def by (rule p)
  have h': "mag ?E div 2 ^ P = 2 * (mag ?E div 2 ^ (nb * 64 + bs)) + ei"
    unfolding pP power_Suc2 div_mult2_eq eb [symmetric] by (rule mult_div_mod_eq [symmetric])
  have P: "P < nb * 64 + bs" using pP by simp
  have body: "ok (expm_bit x e n mm t w wsize v) \<tau> Q \<longleftrightarrow>
      (if ei = 0 \<and> st = 0 then Q (nb', bs', st, nbits, wbits) \<tau>
       else if ei = 0 \<and> st = 1 then ok (mpi_montmul x x n mm t) \<tau> (\<lambda>_. Q (nb', bs', st, nbits, wbits))
       else if nbits + 1 = wsize
       then ok (forc [0..<wsize] (\<lambda>_. mpi_montmul x x n mm t)) \<tau> (\<lambda>_ \<rho>.
              ok (mpi_montmul x (w + (wbits OR push_bit (wsize - (nbits + 1)) ei)) n mm t) \<rho> (\<lambda>_. Q (nb', bs', 1, 0, 0)))
       else Q (nb', bs', 2, nbits + 1, wbits OR push_bit (wsize - (nbits + 1)) ei) \<tau>)" for Q
  proof -
    have eT: "heap \<tau> e = ?E" using st e by (auto simp: expm_st_def)
    have zero: "drop_bit bs' l AND 1 = 0 \<longleftrightarrow> ei = 0" by (simp add: ei_def unat_eq_0)
    show ?thesis
      unfolding v expm_bit_def case_prod_conv Let_def nb'_def [symmetric] bs'_def [symmetric]
        ok_bindc ok_get_limb eT l_def [symmetric] zero ei_def [symmetric]
      using b(1) by (simp only: ok_if ok_seqc ok_ret simp_thms)
  qed
  have eT: "heap \<tau> e = ?E" using st e by (auto simp: expm_st_def)
  note mm = montmul_st [OF c, folded N_def R_def]
  have xt: "x \<noteq> t" using c by (simp add: expm_ctx_def)
  have zero: "drop_bit bs' l AND 1 = 0 \<longleftrightarrow> ei = 0" by (simp add: ei_def unat_eq_0)
  have bnd: "P \<le> mpi_n ?E * 64" using P pos(2) by linarith
  show ?thesis
  proof (cases "ei = 0 \<and> (st = 0 \<or> st = 1)")
    case True
    then have nw: "nbits = 0" "wbits = 0" using state by auto
    show ?thesis
    proof (cases "st = 0")
      case True
      then have y: "y = 0" using state by auto
      have v0: "mag ?E div 2 ^ P = 0" using h' h nw y \<open>ei = 0 \<and> _\<close> by simp
      have "expm_inv \<sigma> x t N R A ?E wsize (nb', bs', 0, nbits, wbits) \<tau>"
        by (rule expm_invI [where y = 0, OF b(2) bnd [unfolded P_def]], fold P_def)
          (use v0 st y nw in simp_all)
      then show ?thesis
        unfolding body using True \<open>ei = 0 \<and> _\<close> P by (simp add: v P_def)
    next
      case False
      then have st1: "st = 1" using \<open>ei = 0 \<and> _\<close> by simp
      have val0: "mag ?E div 2 ^ P = (y + y) * 2 ^ 0 + 0 div 2 ^ wsize" using h' h nw \<open>ei = 0 \<and> _\<close> by simp
      have inv: "expm_inv \<sigma> x t N R A ?E wsize (nb', bs', st, nbits, wbits) \<rho>"
        if "expm_st \<sigma> x t N R (A ^ y * A ^ y) \<rho>" for \<rho>
        by (rule expm_invI [where y = "y + y", OF b(2) bnd [unfolded P_def]], fold P_def)
          (use that st1 nw val0 in \<open>simp_all add: power_add\<close>)
      have "ok (mpi_montmul x x n mm t) \<tau> (\<lambda>_. expm_st \<sigma> x t N R (A ^ y * A ^ y))"
        using xt by (intro mm st) auto
      then have "ok (mpi_montmul x x n mm t) \<tau> (\<lambda>_. expm_inv \<sigma> x t N R A ?E wsize (nb', bs', st, nbits, wbits))"
        by (rule ok_mono) (rule inv)
      then show ?thesis
        unfolding body using st1 \<open>ei = 0 \<and> _\<close> P by (simp add: v P_def)
    qed
  next
    case False
    have st3: "st = 0 \<or> st = 1 \<or> st = 2" and nbl: "nbits < wsize" and dv: "2 ^ (wsize - nbits) dvd wbits"
      and wl: "wbits < 2 ^ wsize" and first: "nbits = 0 \<longrightarrow> ei = 1"
      using state ws False ei1 by auto
    define wb where "wb = wbits OR push_bit (wsize - (nbits + 1)) ei"
    note win = window_step [OF ei1 nbl dv wl, folded wb_def]
    have val: "mag ?E div 2 ^ P = y * 2 ^ (nbits + 1) + wb div 2 ^ (wsize - (nbits + 1))"
      using h' h win(4) by simp
    have top: "2 ^ (wsize - 1) \<le> wb"
    proof (cases "nbits = 0")
      case True
      then show ?thesis using first win(1) by simp
    next
      case False
      then have "2 ^ (wsize - 1) \<le> wbits" using state by auto
      then show ?thesis using win(1) by simp
    qed
    have go: "\<not> (ei = 0 \<and> st = 0)" "\<not> (ei = 0 \<and> st = 1)" using False by auto
    show ?thesis
    proof (cases "nbits + 1 = wsize")
      case True
      have sq: "ok (forc [0..<wsize] (\<lambda>_. mpi_montmul x x n mm t)) \<tau> (\<lambda>_. expm_st \<sigma> x t N R ((A ^ y) ^ 2 ^ wsize))"
        by (rule square_loop [OF c st [unfolded N_def R_def], folded N_def R_def])
      have tw: "mpi_p (heap \<sigma> (w + wb)) \<noteq> []" "rep N R (heap \<sigma> (w + wb)) (A ^ wb)"
        using tab top win(2) by (auto simp: expm_tab_def)
      have mul: "ok (mpi_montmul x (w + wb) n mm t) \<rho> (\<lambda>_. expm_st \<sigma> x t N R ((A ^ y) ^ 2 ^ wsize * A ^ wb))"
        if "expm_st \<sigma> x t N R ((A ^ y) ^ 2 ^ wsize) \<rho>" for \<rho>
        using tw w by (intro mm that) auto
      have e: "(A ^ y) ^ 2 ^ wsize * A ^ wb = A ^ (y * 2 ^ wsize + wb)"
        by (simp add: power_add power_mult)
      have inv: "expm_inv \<sigma> x t N R A ?E wsize (nb', bs', 1, 0, 0) \<rho>"
        if "expm_st \<sigma> x t N R ((A ^ y) ^ 2 ^ wsize * A ^ wb) \<rho>" for \<rho>
        by (rule expm_invI [where y = "y * 2 ^ wsize + wb", OF b(2) bnd [unfolded P_def]], fold P_def)
          (use that [unfolded e] val [unfolded True] in simp_all)
      have "ok (forc [0..<wsize] (\<lambda>_. mpi_montmul x x n mm t)) \<tau> (\<lambda>_ \<rho>.
          ok (mpi_montmul x (w + wb) n mm t) \<rho> (\<lambda>_. expm_inv \<sigma> x t N R A ?E wsize (nb', bs', 1, 0, 0)))"
        by (rule ok_mono [OF sq]) (rule ok_mono [OF mul], assumption, rule inv)
      then show ?thesis
        unfolding body wb_def [symmetric] using True go P by (auto simp: v P_def)
    next
      case False
      have "expm_inv \<sigma> x t N R A ?E wsize (nb', bs', 2, nbits + 1, wb) \<tau>"
        by (rule expm_invI [where y = y, OF b(2) bnd [unfolded P_def]], fold P_def)
          (use st val top win(2,3) nbl False in simp_all)
      then show ?thesis
        unfolding body wb_def [symmetric] using False go P by (auto simp: v P_def)
    qed
  qed
qed

lemma expm_scan_ok:
  fixes \<sigma> n
  defines "N \<equiv> nval (mpi_p (heap \<sigma> n))" and "R \<equiv> BB ^ mpi_n (heap \<sigma> n)"
  assumes c: "expm_ctx \<sigma> x n mm t" and tab: "expm_tab \<sigma> w N R A wsize" and w: "x < w" "t < w"
    and ws: "0 < wsize" and e: "e \<noteq> x" "e \<noteq> t" and st: "expm_st \<sigma> x t N R 1 \<tau>"
  shows "ok (expm_scan x e n mm t w wsize) \<tau> (\<lambda>_. expm_st \<sigma> x t N R (A ^ mag (heap \<sigma> e)))"
proof -
  let ?E = "heap \<sigma> e" and ?v0 = "(mpi_n (heap \<sigma> e), 0, 0, 0, 0) :: expm_vars"
  have eT: "heap \<tau> e = ?E" using st e by (auto simp: expm_st_def)
  have "nval (mpi_p ?E) < 2 ^ (mpi_n ?E * 64)" using nval_less [of "mpi_p ?E"] by (simp add: BB_power)
  then have "mag ?E < 2 ^ (mpi_n ?E * 64)" by (simp add: mag_def nat_less_iff)
  then have I0: "expm_inv \<sigma> x t N R A ?E wsize ?v0 \<tau>"
    using st by (intro expm_invI [where y = 0]) simp_all
  have loop: "ok (whilec expm_more (expm_bit x e n mm t w wsize) ?v0) \<tau>
      (\<lambda>v \<rho>. expm_inv \<sigma> x t N R A ?E wsize v \<rho> \<and> expm_more v \<rho> = Some False)"
  proof (rule ok_whilec [where I = "expm_inv \<sigma> x t N R A ?E wsize"
        and m = "\<lambda>(nb, bs, _) _. nb * 64 + bs"], goal_cases)
    case (2 v \<rho>)
    have m: "(\<lambda>(nb, bs, _) _. nb * 64 + bs) v' \<rho>' = (case v' of (nb, bs, _) \<Rightarrow> nb * 64 + bs)"
      for v' :: expm_vars and \<rho>' :: mem by (simp add: case_prod_unfold)
    show ?case
      unfolding m using expm_bit_ok [OF c tab [unfolded N_def R_def] w ws e] 2 by (simp add: N_def R_def)
  qed (use I0 in \<open>auto simp: expm_more_def\<close>)
  have rest: "ok (case v of (_, _, _, nbits, wbits) \<Rightarrow> expm_rest x n mm t w wsize nbits wbits) \<rho>
      (\<lambda>_. expm_st \<sigma> x t N R (A ^ mag ?E))"
    if I: "expm_inv \<sigma> x t N R A ?E wsize v \<rho> \<and> expm_more v \<rho> = Some False" for v \<rho>
  proof -
    obtain nb bs s nbits wbits where v: "v = (nb, bs, s, nbits, wbits)" by (cases v) auto
    then have z: "nb = 0" "bs = 0" using I by (auto simp: expm_more_def)
    obtain y where y: "expm_st \<sigma> x t N R (A ^ y) \<rho>" "mag ?E = y * 2 ^ nbits + wbits div 2 ^ (wsize - nbits)"
      and nb: "nbits \<le> wsize" "wbits < 2 ^ wsize"
      using I ws by (auto simp: v z expm_inv_def)
    have "(A ^ y) ^ 2 ^ nbits * A ^ (wbits mod 2 ^ wsize div 2 ^ (wsize - nbits)) = A ^ mag ?E"
      using nb(2) by (simp add: y(2) power_add power_mult)
    with expm_rest_ok [OF c tab [unfolded N_def R_def] w y(1) [unfolded N_def R_def] nb(1), of wbits]
    show ?thesis by (simp add: v N_def R_def)
  qed
  show ?thesis
    unfolding expm_scan_def ok_bindc ok_rd eT by (rule ok_mono [OF loop]) (rule rest)
qed

end
