(* ===== verification/Mpi_Exp_Mod.thy ===== *)
theory Mpi_Exp_Mod
  imports Mpi_Expm
begin

text \<open>
  \<open>mpi_exp_mod\<close> as a whole: for an odd modulus and a non-negative base the result is
  \<open>A ^ |E| mod N\<close>.
\<close>

context digit_estimate
begin

lemma expm_RR_ok:
  fixes \<sigma> n
  defines "N \<equiv> nval (mpi_p (heap \<sigma> n))" and "R \<equiv> BB ^ mpi_n (heap \<sigma> n)"
  assumes "oom \<sigma> = []" "rr < sp \<sigma>" "n < sp \<sigma>" "rr \<noteq> n" "cache \<noteq> Some n" "cache \<noteq> Some rr"
    and N: "mpi_s (heap \<sigma> n) = 1" "0 < N" "div_safe safe N"
    and C: "\<And>c. cache = Some c \<Longrightarrow> mpi_p (heap \<sigma> c) \<noteq> [] \<Longrightarrow>
        mpi_s (heap \<sigma> c) = 1 \<and> nval (mpi_p (heap \<sigma> c)) = (R * R) mod N"
    and Q: "\<And>v. mpi_s v = 1 \<Longrightarrow> mpi_p v \<noteq> [] \<Longrightarrow> nval (mpi_p v) = (R * R) mod N \<Longrightarrow>
        Q () (put_opt cache v (put rr v \<sigma>))"
  shows "ok (expm_RR qhat rr n cache) \<sigma> Q"
proof -
  let ?N = "heap \<sigma> n"
  have mN: "mval ?N = N" using N(1) by (simp add: N_def mval_s1)
  have fresh: "ok (seqc (mpi_lset rr 1)
              (bindc (rd n) (\<lambda>N. seqc (mpi_shift_l rr (mpi_n N * 2 * 64))
                (seqc (mpi_mod_mpi qhat rr rr n)
                  (case cache of None \<Rightarrow> ret () | Some c \<Rightarrow> bindc (rd rr) (wr c)))))) \<sigma> Q"
  proof -
    let ?L = "lset_val (mpi_n (heap \<sigma> rr)) 1"
    have tail: "ok (case cache of None \<Rightarrow> ret () | Some c \<Rightarrow> bindc (rd rr) (wr c)) (put rr v \<sigma>) Q"
      if "mpi_s v = 1" "mpi_p v \<noteq> []" "nval (mpi_p v) = (R * R) mod N" for v
      using Q [OF that] by (cases cache) (simp_all add: wp)
    have sh: "ok (mpi_shift_l rr (64 * (2 * mpi_n ?N))) (put rr ?L \<sigma>) (\<lambda>_ \<tau>.
        ok (mpi_mod_mpi qhat rr rr n) \<tau> (\<lambda>_ \<tau>. ok (case cache of None \<Rightarrow> ret () | Some c \<Rightarrow> bindc (rd rr) (wr c)) \<tau> Q))"
    proof (rule shift_limbs_ok, goal_cases)
      case (3 u)
      have u: "mpi_s u = 1" "nval (mpi_p u) = R * R" "mpi_p u \<noteq> []"
        using 3 by (auto simp: int_sign_def mval_lset_val R_def power_add [symmetric] mult_2 simp flip: length_greater_0_conv)
      show ?case
      proof (rule mpi_mod_mpi_ok, goal_cases)
        case (12 v)
        have "nval (mpi_p v) = (R * R) mod N" "mpi_n u \<le> mpi_n v"
          using 12(2,3) u assms(6) mN by (simp_all add: mval_s1)
        then show ?case using 12(1) u(3) tail [of v] by (auto simp flip: length_greater_0_conv)
      qed (use assms(3-6) u N mN in \<open>simp_all add: wf_def mval_s1\<close>)
    qed (use assms(3) in simp_all)
    show ?thesis
      using sh assms(3,6) by (simp add: ok_seqc ok_bindc ok_rd mpi_lset_ok mult.commute mult.left_commute)
  qed
  show ?thesis
  proof (cases "\<exists>c. cache = Some c \<and> mpi_p (heap \<sigma> c) \<noteq> []")
    case True
    then obtain c where c: "cache = Some c" "mpi_p (heap \<sigma> c) \<noteq> []" by blast
    have "put c (heap \<sigma> c) (put rr (heap \<sigma> c) \<sigma>) = put rr (heap \<sigma> c) \<sigma>"
      using assms(8) c by (intro mem_eqI) simp_all
    then show ?thesis
      using C [OF c] c Q [of "heap \<sigma> c"] by (simp add: expm_RR_def wp)
  next
    case False
    then show ?thesis using fresh by (auto simp: expm_RR_def wp split: option.split)
  qed
qed

text \<open>The two Montgomery representatives the scan starts from.\<close>

lemma expm_start_ok:
  fixes \<sigma> n
  defines "N \<equiv> nval (mpi_p (heap \<sigma> n))" and "R \<equiv> BB ^ mpi_n (heap \<sigma> n)"
  assumes "oom \<sigma> = []" "x < sp \<sigma>" "a < sp \<sigma>" "n < sp \<sigma>" "rr < sp \<sigma>" "t < sp \<sigma>" "w + 1 < sp \<sigma>"
    and d: "distinct [x, n, rr, t, w + 1]" "a \<notin> {t, w + 1}"
    and c: "mont_ctx \<sigma> n mm t" "odd N" "mpi_s (heap \<sigma> n) = 1" "div_safe safe N"
    and len: "mpi_n (heap \<sigma> n) + 1 \<le> mpi_n (heap \<sigma> x)" "mpi_n (heap \<sigma> n) + 1 \<le> mpi_n (heap \<sigma> (w + 1))"
    and A: "mpi_s (heap \<sigma> a) = 1"
    and RR: "mpi_s (heap \<sigma> rr) = 1" "mpi_p (heap \<sigma> rr) \<noteq> []" "nval (mpi_p (heap \<sigma> rr)) = (R * R) mod N"
    and Q: "\<And>vx v1 vt. mpi_s vx = 1 \<Longrightarrow> mpi_n (heap \<sigma> x) \<le> mpi_n vx \<Longrightarrow> rep N R vx 1 \<Longrightarrow>
      mpi_n (heap \<sigma> (w + 1)) \<le> mpi_n v1 \<Longrightarrow> rep N R v1 (mval (heap \<sigma> a)) \<Longrightarrow> mpi_n vt = mpi_n (heap \<sigma> t) \<Longrightarrow>
      Q () (put x vx (put (w + 1) v1 (put t vt \<sigma>)))"
  shows "ok (expm_start qhat x a n mm rr t w) \<sigma> Q"
proof -
  let ?N = "heap \<sigma> n" and ?A = "heap \<sigma> a" and ?W = "w + 1"
  have dist: "x \<noteq> n" "x \<noteq> rr" "x \<noteq> t" "x \<noteq> ?W" "n \<noteq> rr" "n \<noteq> t" "n \<noteq> ?W" "rr \<noteq> t" "rr \<noteq> ?W" "t \<noteq> ?W"
    "a \<noteq> t" "a \<noteq> ?W"
    using d by auto
  have N0: "0 < N" "N < R" using c(1) nval_less [of "mpi_p ?N"] by (auto simp: mont_ctx_def N_def R_def)
  have mN: "mval ?N = N" "mval ?A = nval (mpi_p ?A)" using c(3) A by (simp_all add: N_def mval_s1)
  have co: "coprime N R" unfolding R_def using c(2) by (rule odd_coprime_BB)
  have RRb: "nval (mpi_p (heap \<sigma> rr)) < N" unfolding RR(3) using N0(1) by simp
  \<comment> \<open>loading \<open>W[1]\<close>\<close>
  have load: "ok (bindc (rd a) (\<lambda>A. bindc (rd n) (\<lambda>N.
            if mpi_cmp_mpi A N \<ge> 0 then ignore (mpi_mod_mpi qhat ?W a n) else ignore (mpi_copy ?W a)))) \<sigma>
      (\<lambda>_ \<tau>. \<exists>v. \<tau> = put ?W v \<sigma> \<and> mpi_n (heap \<sigma> ?W) \<le> mpi_n v \<and> nval (mpi_p v) < N \<and>
          nval (mpi_p v) mod N = mval ?A mod N)"
  proof -
    have cmp: "mpi_cmp_mpi ?A ?N = sgn (mval ?A - N)"
      using mpi_cmp_mpi_sgn [of ?A ?N] A c(3) mN(1) by (simp add: wf_def)
    show ?thesis
    proof (cases "N \<le> mval ?A")
      case True
      have "ok (mpi_mod_mpi qhat ?W a n) \<sigma> (\<lambda>_ \<tau>. \<exists>v. \<tau> = put ?W v \<sigma> \<and> mpi_n (heap \<sigma> ?W) \<le> mpi_n v \<and>
          nval (mpi_p v) < N \<and> nval (mpi_p v) mod N = mval ?A mod N)"
        by (rule mpi_mod_mpi_ok)
          (use assms(3,5-9) dist A c(3,4) mN N0 in \<open>auto simp: wf_def intro!: exI\<close>)
      then show ?thesis using True cmp by (auto simp: ok_bindc ok_rd intro: ok_ignore)
    next
      case False
      then show ?thesis
        using cmp dist(12) assms(3) mN(2)
        by (auto simp: ok_bindc ok_rd mpi_copy_ok intro!: ok_ignore exI [of _ "copied (heap \<sigma> ?W) ?A"])
    qed
  qed
  have rest: "ok (mpi_montmul ?W rr n mm t) \<tau> (\<lambda>_ \<tau>. ok (mpi_copy x rr) \<tau> (\<lambda>_ \<tau>. ok (mpi_montred x n mm t) \<tau> Q))"
    if v: "\<tau> = put ?W v \<sigma>" "mpi_n (heap \<sigma> ?W) \<le> mpi_n v" "nval (mpi_p v) < N"
          "nval (mpi_p v) mod N = mval ?A mod N" for v \<tau>
  proof -
    have h: "heap \<tau> ?W = v" "heap \<tau> rr = heap \<sigma> rr" "heap \<tau> n = ?N" "heap \<tau> t = heap \<sigma> t" "heap \<tau> x = heap \<sigma> x"
      using dist by (simp_all add: v(1))
    have c': "mont_ctx \<tau> n mm t" using c(1) by (simp add: mont_ctx_def h)
    show ?thesis
    proof (rule mpi_montmul_ok [OF c'], goal_cases)
      case (8 v1 vt)
      have "(nval (mpi_p v1) * R) mod N = (nval (mpi_p v) * ((R * R) mod N)) mod N"
        using 8(4) unfolding h RR(3) by (simp only: N_def R_def)
      also have "\<dots> = (mval ?A * (R * R)) mod N"
        using v(4) by (metis mod_mult_left_eq mod_mult_right_eq)
      finally have "(nval (mpi_p v1) * R) mod N = (mval ?A * R * R) mod N" by (simp add: ac_simps)
      from mod_cancel [OF co this] 8(3) have r1: "rep N R v1 (mval ?A)"
        by (simp add: rep_def h N_def)
      let ?\<rho> = "put ?W v1 (put t vt \<tau>)" and ?x = "copied (heap \<sigma> x) (heap \<sigma> rr)"
      let ?\<rho>' = "put x ?x ?\<rho>"
      have h2: "heap ?\<rho> rr = heap \<sigma> rr" "heap ?\<rho> x = heap \<sigma> x" "oom ?\<rho> = []"
        "heap ?\<rho>' n = ?N" "heap ?\<rho>' t = vt" "heap ?\<rho>' x = ?x" "sp ?\<rho>' = sp \<sigma>"
        using dist assms(3) by (simp_all add: v(1))
      have c2: "mont_ctx ?\<rho>' n mm t" using c(1) 8(5) unfolding mont_ctx_def h2 h by simp
      have "ok (mpi_montred x n mm t) ?\<rho>' Q"
      proof (rule mpi_montred_ok [OF c2], goal_cases)
        case (8 vx wt)
        note g = 8 [unfolded h2]
        have "(nval (mpi_p vx) * R) mod N = (R * R) mod N"
          using g(4) by (simp add: N_def [symmetric] R_def [symmetric] RR(3))
        from mod_cancel [OF co this] g(3) have rx: "rep N R vx 1" by (simp add: rep_def N_def)
        have e: "put x vx (put t wt ?\<rho>') = put x vx (put ?W v1 (put t wt \<sigma>))"
          using dist by (intro mem_eqI) (simp_all add: v(1))
        show ?case
          unfolding e using g(1,2,5) \<open>mpi_n v1 = _\<close> \<open>mpi_n vt = _\<close> RR(1) v(2) dist by (intro Q rx r1) (simp_all add: v(1))
      qed (use dist assms(4-8) len RRb N0 in \<open>simp_all add: h2 v(1) N_def [symmetric] R_def [symmetric]\<close>)
      then show ?case using dist(2) h2 by (simp add: mpi_copy_ok)
    qed (use dist RR(2) RRb len v(1-3) N0 in \<open>simp_all add: h N_def [symmetric] R_def [symmetric]\<close>)
  qed
  show ?thesis
    unfolding expm_start_def ok_seqc
    by (rule ok_mono [OF load]) (elim exE conjE, rule rest)
qed

end

subsection \<open>The table\<close>

definition tab_inv :: "mem \<Rightarrow> addr \<Rightarrow> addr \<Rightarrow> int \<Rightarrow> int \<Rightarrow> int \<Rightarrow> nat \<Rightarrow> nat \<Rightarrow> mem \<Rightarrow> bool" where
  "tab_inv \<sigma> t w N R A lo i \<tau> \<longleftrightarrow> frame ({t} \<union> {w + lo..<w + i}) \<sigma> \<tau> \<and> mpi_n (heap \<tau> t) = mpi_n (heap \<sigma> t) \<and>
     (\<forall>k. k = 1 \<or> lo \<le> k \<and> k < i \<longrightarrow> mpi_p (heap \<tau> (w + k)) \<noteq> [] \<and> rep N R (heap \<tau> (w + k)) (A ^ k))"

lemma tab_entry:
  fixes n :: addr and \<tau> :: mem
  defines "N \<equiv> nval (mpi_p (heap \<tau> n))" and "R \<equiv> BB ^ mpi_n (heap \<tau> n)"
  assumes c: "mont_ctx \<tau> n mm t" "odd N" and d: "d \<noteq> n" "d \<noteq> t" "d \<noteq> src" and oom: "oom \<tau> = []"
    and r: "rep N R (heap \<tau> src) z"
    and body: "\<And>v. expm_ctx (put d v \<tau>) d n mm t \<Longrightarrow> expm_st (put d v \<tau>) d t N R z (put d v \<tau>) \<Longrightarrow>
      heap (put d v \<tau>) n = heap \<tau> n \<Longrightarrow> ok f (put d v \<tau>) Q"
  shows "ok (seqc (mpi_grow d (mpi_n (heap \<tau> n) + 1)) (seqc (mpi_copy d src) f)) \<tau> Q"
proof -
  let ?g = "grown (mpi_n (heap \<tau> n) + 1) (heap \<tau> d)"
  let ?v = "copied ?g (heap \<tau> src)"
  have nt: "n \<noteq> t" using c(1) by (simp add: mont_ctx_def)
  have h: "heap (put d ?v \<tau>) n = heap \<tau> n" "heap (put d ?v \<tau>) t = heap \<tau> t" "heap (put d ?v \<tau>) d = ?v"
    using d by simp_all
  have 1: "expm_ctx (put d ?v \<tau>) d n mm t"
    unfolding expm_ctx_def mont_ctx_def h using c d by (simp add: mont_ctx_def N_def)
  have "put d ?v (put t (heap \<tau> t) (put d ?v \<tau>)) = put d ?v \<tau>" by (intro mem_eqI) simp_all
  then have 2: "expm_st (put d ?v \<tau>) d t N R z (put d ?v \<tau>)"
    using r by (intro expm_stI [where vx = ?v and vt = "heap \<tau> t"]) (use d(2) in \<open>simp_all add: h rep_def\<close>)
  have "ok f (put d ?v \<tau>) Q" by (rule body [OF 1 2 h(1)])
  then show ?thesis using oom d(3) by (simp add: ok_seqc mpi_grow_ok mpi_copy_ok)
qed

lemma tab_inv_step:
  assumes I: "tab_inv \<sigma> t w N R A lo i \<tau>" and "lo \<le> i" "1 < i" "t < w"
    and s: "expm_st (put (w + i) v \<tau>) (w + i) t N R (A ^ i) \<rho>" and v: "mpi_p v \<noteq> []"
  shows "tab_inv \<sigma> t w N R A lo (Suc i) \<rho>"
proof -
  from s obtain vx vt where \<rho>: "\<rho> = put (w + i) vx (put t vt \<tau>)" and vx: "mpi_n vx = mpi_n v"
    "mpi_n vt = mpi_n (heap \<tau> t)" "rep N R vx (A ^ i)"
  proof (unfold expm_st_def, elim exE conjE)
    fix vx vt assume a: "\<rho> = put (w + i) vx (put t vt (put (w + i) v \<tau>))"
      "mpi_n vx = mpi_n (heap (put (w + i) v \<tau>) (w + i))" "mpi_n vt = mpi_n (heap (put (w + i) v \<tau>) t)" "rep N R vx (A ^ i)"
    have "\<rho> = put (w + i) vx (put t vt \<tau>)" unfolding a(1) by (intro mem_eqI) simp_all
    with a(2-4) \<open>t < w\<close> that show thesis by simp
  qed
  have hk: "heap \<rho> (w + k) = (if k = i then vx else heap \<tau> (w + k))" for k using \<open>t < w\<close> by (simp add: \<rho>)
  have "frame ({t} \<union> {w + lo..<w + Suc i}) \<sigma> \<rho>"
    using I assms(2) by (auto simp: tab_inv_def frame_def \<rho>)
  moreover have "mpi_n (heap \<rho> t) = mpi_n (heap \<sigma> t)" using I vx(2) \<open>t < w\<close> by (simp add: tab_inv_def \<rho>)
  moreover have "mpi_p vx \<noteq> []" using vx(1) v by (simp flip: length_greater_0_conv)
  then have "k = 1 \<or> lo \<le> k \<and> k < Suc i \<longrightarrow> mpi_p (heap \<rho> (w + k)) \<noteq> [] \<and> rep N R (heap \<rho> (w + k)) (A ^ k)" for k
    unfolding hk using I assms(3) vx(3) by (auto simp: tab_inv_def less_Suc_eq)
  ultimately show ?thesis unfolding tab_inv_def by blast
qed

lemma tab_ctx:
  assumes I: "tab_inv \<sigma> t w N R A lo i \<tau>" and c: "mont_ctx \<sigma> n mm t" and "n < w"
  shows "mont_ctx \<tau> n mm t" "heap \<tau> n = heap \<sigma> n" "oom \<tau> = oom \<sigma>"
proof -
  have "n \<noteq> t" using c by (simp add: mont_ctx_def)
  then show h: "heap \<tau> n = heap \<sigma> n" using I \<open>n < w\<close> by (auto simp: tab_inv_def frame_def)
  show "mont_ctx \<tau> n mm t" using c I by (simp add: mont_ctx_def h tab_inv_def)
  show "oom \<tau> = oom \<sigma>" using I by (simp add: tab_inv_def frame_def)
qed

lemma expm_table_ok:
  fixes \<sigma> n
  defines "N \<equiv> nval (mpi_p (heap \<sigma> n))" and "R \<equiv> BB ^ mpi_n (heap \<sigma> n)"
  assumes c: "mont_ctx \<sigma> n mm t" "odd N" and w: "t < w" "n < w" and oom: "oom \<sigma> = []" "0 < wsize"
    and W1: "mpi_p (heap \<sigma> (w + 1)) \<noteq> []" "rep N R (heap \<sigma> (w + 1)) A"
  shows "ok (expm_table n mm t w wsize) \<sigma> (\<lambda>_. tab_inv \<sigma> t w N R A (2 ^ (wsize - 1)) (2 ^ wsize))"
proof (cases "wsize = 1")
  case True
  have "tab_inv \<sigma> t w N R A (2 ^ (wsize - 1)) (2 ^ wsize) \<sigma>"
    using W1 True by (auto simp: tab_inv_def le_less_Suc_eq numeral_2_eq_2)
  then show ?thesis using True by (simp add: expm_table_def wp)
next
  case False
  define j where "j = (2::nat) ^ (wsize - 1)"
  have ws: "wsize = Suc (wsize - 1)" "1 < wsize" using False oom by simp_all
  have j2: "2 ^ wsize = 2 * j" unfolding j_def by (subst ws(1)) simp
  have "2 ^ 1 \<le> j" unfolding j_def using ws(2) by (intro power_increasing) simp_all
  then have j: "1 < j" by simp
  have I0: "tab_inv \<sigma> t w N R A j j \<sigma>" using W1 by (auto simp: tab_inv_def)
  have nt: "n \<noteq> t" using c(1) by (simp add: mont_ctx_def)
  have first: "ok (seqc (mpi_grow (w + j) (mpi_n (heap \<sigma> n) + 1)) (seqc (mpi_copy (w + j) (w + 1))
      (forc [0..<wsize - 1] (\<lambda>_. mpi_montmul (w + j) (w + j) n mm t)))) \<sigma> (\<lambda>_. tab_inv \<sigma> t w N R A j (Suc j))"
  proof (rule tab_entry [OF c(1) c(2) [unfolded N_def] _ _ _ oom(1) W1(2) [unfolded N_def R_def]], goal_cases)
    case (4 v)
    have v: "mpi_p v \<noteq> []" using 4(1) by (simp add: expm_ctx_def flip: length_greater_0_conv)
    show ?case
    proof (rule ok_mono [OF square_loop [OF 4(1), where y = A and \<tau> = "put (w + j) v \<sigma>"]], unfold 4(3))
      show "expm_st (put (w + j) v \<sigma>) (w + j) t (nval (mpi_p (heap \<sigma> n))) (BB ^ mpi_n (heap \<sigma> n)) A (put (w + j) v \<sigma>)"
        by (rule 4(2))
      fix x \<rho> assume "expm_st (put (w + j) v \<sigma>) (w + j) t (nval (mpi_p (heap \<sigma> n))) (BB ^ mpi_n (heap \<sigma> n)) (A ^ 2 ^ (wsize - 1)) \<rho>"
      then show "tab_inv \<sigma> t w N R A j (Suc j) \<rho>"
        by (intro tab_inv_step [OF I0 _ j w(1) _ v]) (simp_all add: N_def R_def j_def)
    qed
  qed (use w j in simp_all)
  have entry: "ok (seqc (mpi_grow (w + i) (mpi_n (heap \<sigma> n) + 1)) (seqc (mpi_copy (w + i) (w + (i - 1)))
      (mpi_montmul (w + i) (w + 1) n mm t))) \<tau> (\<lambda>_. tab_inv \<sigma> t w N R A j (Suc i))"
    if i: "Suc j \<le> i" and I: "tab_inv \<sigma> t w N R A j i \<tau>" for i \<tau>
  proof -
    note h = tab_ctx [OF I c(1) w(2)]
    have prev: "rep N R (heap \<tau> (w + (i - 1))) (A ^ (i - 1))" "mpi_p (heap \<tau> (w + 1)) \<noteq> []" "rep N R (heap \<tau> (w + 1)) A"
      using I [unfolded tab_inv_def, THEN conjunct2, THEN conjunct2, THEN spec, of "i - 1"]
        I [unfolded tab_inv_def, THEN conjunct2, THEN conjunct2, THEN spec, of 1] i j by auto
    have Ai: "A ^ (i - 1) * A = A ^ i" using i by (cases i) simp_all
    show ?thesis
    proof (unfold h(2) [symmetric], rule tab_entry [OF h(1) _ _ _ _ _ prev(1) [unfolded N_def R_def h(2) [symmetric]]], goal_cases)
      case (6 v)
      have v: "mpi_p v \<noteq> []" using 6(1) by (simp add: expm_ctx_def flip: length_greater_0_conv)
      have W: "heap (put (w + i) v \<tau>) (w + 1) = heap \<tau> (w + 1)" using i j by simp
      have "ok (mpi_montmul (w + i) (w + 1) n mm t) (put (w + i) v \<tau>)
          (\<lambda>_. expm_st (put (w + i) v \<tau>) (w + i) t (nval (mpi_p (heap (put (w + i) v \<tau>) n)))
            (BB ^ mpi_n (heap (put (w + i) v \<tau>) n)) (A ^ (i - 1) * A))"
        by (rule montmul_st [OF 6(1)], unfold 6(3) W h(2))
          (use 6(2) prev i j w in \<open>simp_all add: h N_def R_def\<close>)
      then show ?case
        unfolding 6(3) h(2) Ai N_def [symmetric] R_def [symmetric]
        by (rule ok_mono) (use i j in \<open>intro tab_inv_step [OF I _ _ w(1) _ v], simp_all\<close>)
    qed (use c w j i oom in \<open>simp_all add: h N_def\<close>)
  qed
  have loop: "ok (forc [j + 1..<2 * j] (\<lambda>i. seqc (mpi_grow (w + i) (mpi_n (heap \<sigma> n) + 1))
       (seqc (mpi_copy (w + i) (w + (i - 1))) (mpi_montmul (w + i) (w + 1) n mm t)))) \<tau> (\<lambda>_. tab_inv \<sigma> t w N R A j (2 * j))"
    if "tab_inv \<sigma> t w N R A j (Suc j) \<tau>" for \<tau>
    using that j by (intro ok_for_up [where I = "tab_inv \<sigma> t w N R A j"] entry) simp_all
  have pb: "push_bit (wsize - 1) 1 = j" "push_bit wsize 1 = 2 * j"
    by (simp_all only: push_bit_eq_mult j_def mult_1 j2 [unfolded j_def])
  show ?thesis
    using ok_mono [OF first loop] ws(2)
    by (simp only: expm_table_def if_True Let_def pb ok_bindc ok_rd ok_seqc j2 j_def [symmetric])
qed

subsection \<open>The exponentiation\<close>

lemma expm_clear_ok:
  "ok (forc [0..<k] (\<lambda>i. wr (w + i) v)) \<sigma> (\<lambda>_ \<tau>. frame {w..<w + k} \<sigma> \<tau>)"
proof (rule ok_for_up [where I = "\<lambda>_ \<tau>. frame {w..<w + k} \<sigma> \<tau>"])
  fix i \<tau> assume "i < k" "frame {w..<w + k} \<sigma> \<tau>"
  then show "ok (wr (w + i) v) \<tau> (\<lambda>_ \<tau>. frame {w..<w + k} \<sigma> \<tau>)" by (simp add: ok_wr frame_put)
qed simp_all

lemma nval_odd_hd: "ws \<noteq> [] \<Longrightarrow> odd (nval ws) \<longleftrightarrow> ws ! 0 AND 1 \<noteq> 0"
  using limb_bit_test [of 0 "hd ws"] bit_uint_iff [of "hd ws" 0] by (cases ws) (simp_all add: bit_0)

context digit_estimate
begin

lemma mpi_exp_mod_ok:
  fixes \<sigma> n
  defines "N \<equiv> nval (mpi_p (heap \<sigma> n))" and "R \<equiv> BB ^ mpi_n (heap \<sigma> n)"
  assumes oom: "oom \<sigma> = []" and low: "x < sp \<sigma>" "a < sp \<sigma>" "e < sp \<sigma>" "n < sp \<sigma>" "\<And>c. cache = Some c \<Longrightarrow> c < sp \<sigma>"
    and d: "x \<noteq> n" "x \<noteq> e" and dc: "cache \<noteq> Some n" "cache \<noteq> Some x" "cache \<noteq> Some a" "cache \<noteq> Some e"
    and N: "mpi_s (heap \<sigma> n) = 1" "odd N" "div_safe safe N"
    and A: "mpi_s (heap \<sigma> a) = 1" and E: "mpi_p (heap \<sigma> e) \<noteq> []"
    and C: "\<And>c. cache = Some c \<Longrightarrow> mpi_p (heap \<sigma> c) \<noteq> [] \<Longrightarrow>
        mpi_s (heap \<sigma> c) = 1 \<and> nval (mpi_p (heap \<sigma> c)) = (R * R) mod N"
    and Q: "\<And>vx vc. mpi_s vx = 1 \<Longrightarrow> nval (mpi_p vx) = mval (heap \<sigma> a) ^ mag (heap \<sigma> e) mod N \<Longrightarrow>
        mpi_n (heap \<sigma> x) \<le> mpi_n vx \<Longrightarrow>
        (cache \<noteq> None \<Longrightarrow> mpi_s vc = 1 \<and> mpi_p vc \<noteq> [] \<and> nval (mpi_p vc) = (R * R) mod N) \<Longrightarrow>
        Q () (put_opt cache vc (put x vx \<sigma>))"
  shows "ok (mpi_exp_mod qhat x a e n cache) \<sigma> Q"
proof -
  let ?N = "heap \<sigma> n" and ?A = "heap \<sigma> a" and ?E = "heap \<sigma> e"
  let ?k = "mpi_n ?N" and ?\<sigma>0 = "enter 66 \<sigma>" and ?rr = "sp \<sigma>"
  let ?t = "?rr + 1" and ?w = "?rr + 2"
  define F where "F = {u. sp \<sigma> \<le> u} \<union> {x} \<union> set_option cache"
  have N0: "0 < N" unfolding N_def by (rule nval_pos) (use N(2) in \<open>auto simp: N_def\<close>)
  have pN: "mpi_p ?N \<noteq> []" using N0 by (auto simp: N_def)
  obtain mm where mm: "mpi_montg_init ?N = Some mm" "mpi_p ?N ! 0 * mm = - 1"
    using mpi_montg_init_spec [OF pN] N(2) by (auto simp: N_def)
  obtain msb where msb: "mpi_msb ?E = Some msb" using mpi_msb_defined [OF E] by blast
  let ?ws = "expm_wsize msb"
  have ws: "0 < ?ws" by (simp add: expm_wsize_def)
  have co: "coprime N R" unfolding R_def using N(2) by (rule odd_coprime_BB)
  have low': "n \<notin> F" "e \<notin> F" "a \<notin> F \<or> a = x" using low d dc by (auto simp: F_def)
  \<comment> \<open>the last steps\<close>
  have fin: "ok (seqc (expm_table n mm ?t ?w ?ws) (seqc (expm_scan x e n mm ?t ?w ?ws) (mpi_montred x n mm ?t))) \<tau>
      (\<lambda>u \<tau>'. Q u (leave \<sigma> \<tau>'))"
    if f: "frame F ?\<sigma>0 \<tau>" and vx: "mpi_s (heap \<tau> x) = 1" "?k + 1 \<le> mpi_n (heap \<tau> x)" "mpi_n (heap \<sigma> x) \<le> mpi_n (heap \<tau> x)"
      "rep N R (heap \<tau> x) 1"
    and W1: "mpi_p (heap \<tau> (?w + 1)) \<noteq> []" "rep N R (heap \<tau> (?w + 1)) (mval ?A)" and vt: "mpi_n (heap \<tau> ?t) = 2 * (?k + 1)"
    and vc: "\<And>c. cache = Some c \<Longrightarrow> mpi_s (heap \<tau> c) = 1 \<and> mpi_p (heap \<tau> c) \<noteq> [] \<and> nval (mpi_p (heap \<tau> c)) = (R * R) mod N"
    for \<tau>
  proof -
    have hn: "heap \<tau> n = ?N" "heap \<tau> e = ?E" "sp \<tau> = sp \<sigma> + 66" "oom \<tau> = []"
      using f low' low oom by (simp_all add: frame_def)
    have c: "mont_ctx \<tau> n mm ?t"
      using mm(2) pN N0 vt low by (simp add: mont_ctx_def hn N_def)
    have tab: "ok (expm_table n mm ?t ?w ?ws) \<tau> (\<lambda>_. tab_inv \<tau> ?t ?w N R (mval ?A) (2 ^ (?ws - 1)) (2 ^ ?ws))"
      using expm_table_ok [OF c, where w = ?w and wsize = ?ws and A = "mval ?A"] N(2) low hn(4) ws W1
      by (simp add: hn N_def R_def)
    have scan: "ok (seqc (expm_scan x e n mm ?t ?w ?ws) (mpi_montred x n mm ?t)) \<rho> (\<lambda>u \<tau>'. Q u (leave \<sigma> \<tau>'))"
      if I: "tab_inv \<tau> ?t ?w N R (mval ?A) (2 ^ (?ws - 1)) (2 ^ ?ws) \<rho>" for \<rho>
    proof -
      have f2: "frame ({?t} \<union> {?w + 2 ^ (?ws - 1)..<?w + 2 ^ ?ws}) \<tau> \<rho>" using I by (simp add: tab_inv_def)
      have h: "heap \<rho> n = ?N" "heap \<rho> e = ?E" "heap \<rho> x = heap \<tau> x" "sp \<rho> = sp \<sigma> + 66"
        using f2 hn low by (auto simp: frame_def)
      have c2: "mont_ctx \<rho> n mm ?t" using tab_ctx [OF I c] low by simp
      have ec: "expm_ctx \<rho> x n mm ?t" using c2 N(2) d low vx(2) by (simp add: expm_ctx_def h N_def)
      have et: "expm_tab \<rho> ?w N R (mval ?A) ?ws" using I by (auto simp: tab_inv_def expm_tab_def)
      have st0: "expm_st \<rho> x ?t N R 1 \<rho>"
        by (rule expm_stI [where vx = "heap \<rho> x" and vt = "heap \<rho> ?t"]) (simp, use vx(4) in \<open>simp_all add: h\<close>)
      have es: "ok (expm_scan x e n mm ?t ?w ?ws) \<rho> (\<lambda>_. expm_st \<rho> x ?t N R (mval ?A ^ mag ?E))"
        using expm_scan_ok [OF ec _ _ _ ws, where e = e and A = "mval ?A" and w = ?w and \<tau> = \<rho>] et st0 low d
        by (simp add: h N_def R_def)
      have red: "ok (mpi_montred x n mm ?t) \<mu> (\<lambda>u \<tau>'. Q u (leave \<sigma> \<tau>'))"
        if "expm_st \<rho> x ?t N R (mval ?A ^ mag ?E) \<mu>" for \<mu>
      proof -
        from that obtain vx' vt' where \<mu>: "\<mu> = put x vx' (put ?t vt' \<rho>)" and g: "mpi_s vx' = 1"
          "mpi_n vx' = mpi_n (heap \<tau> x)" "mpi_n vt' = mpi_n (heap \<rho> ?t)" "rep N R vx' (mval ?A ^ mag ?E)"
          using vx(1) by (auto simp: expm_st_def h)
        have hm: "heap \<mu> n = ?N" "heap \<mu> x = vx'" "heap \<mu> ?t = vt'" "sp \<mu> = sp \<sigma> + 66" "?t < sp \<mu>"
          using d low by (simp_all add: \<mu> h)
        have c3: "mont_ctx \<mu> n mm ?t" using c2 g(3) unfolding mont_ctx_def hm h by simp
        have NR: "N < R" using nval_less [of "mpi_p ?N"] by (simp add: N_def R_def)
        show ?thesis
        proof (rule mpi_montred_ok [OF c3], goal_cases)
          case (8 va wt)
          have v8: "nval (mpi_p va) < N" "(nval (mpi_p va) * R) mod N = (mval ?A ^ mag ?E * R) mod N"
            using 8(3,4) g(4) unfolding hm by (simp_all add: N_def R_def rep_def)
          have val: "nval (mpi_p va) = mval ?A ^ mag ?E mod N"
            using mod_cancel [OF co v8(2)] v8(1) by simp
          let ?\<theta> = "put x va (put ?t wt \<mu>)"
          have eq: "leave \<sigma> ?\<theta> = put_opt cache v (put x va \<sigma>)" if "\<And>c. cache = Some c \<Longrightarrow> v = heap \<tau> c" for v
          proof (rule mem_eqI, goal_cases)
            case (1 u)
            have "heap ?\<theta> u = heap \<tau> u" if "u \<noteq> x" "u < sp \<sigma>"
              using that f2 by (simp add: \<mu> frame_def)
            moreover have "heap \<tau> u = heap \<sigma> u" if "u \<noteq> x" "u < sp \<sigma>" "cache \<noteq> Some u"
              using that f by (auto simp: frame_def F_def)
            ultimately show ?case using that low dc(2) by (cases cache) auto
          qed (use f2 f in \<open>simp_all add: \<mu> frame_def put_opt_def split: option.splits\<close>)
          define v where "v = heap \<tau> (the cache)"
          have v: "\<And>c. cache = Some c \<Longrightarrow> v = heap \<tau> c" by (simp add: v_def)
          have lv: "leave \<sigma> ?\<theta> = put_opt cache v (put x va \<sigma>)" by (rule eq) (rule v)
          show ?case
            unfolding lv using 8(1,2) vx(3) g(1,2) v vc val by (intro Q) (auto simp: hm)
        qed (use d low g vx(2) NR in \<open>simp_all add: hm rep_def N_def [symmetric] R_def [symmetric]\<close>)
      qed
      show ?thesis unfolding ok_seqc by (rule ok_mono [OF es]) (rule red)
    qed
    show ?thesis unfolding ok_seqc by (rule ok_mono [OF tab]) (rule scan [unfolded ok_seqc])
  qed
  let ?tail = "seqc (expm_table n mm ?t ?w ?ws) (seqc (expm_scan x e n mm ?t ?w ?ws) (mpi_montred x n mm ?t))"
  have start: "ok (seqc (expm_start qhat x a n mm ?rr ?t ?w) ?tail) \<tau> (\<lambda>u \<tau>'. Q u (leave \<sigma> \<tau>'))"
    if f: "frame F ?\<sigma>0 \<tau>" and xa: "?k + 1 \<le> mpi_n (heap \<tau> x)" "mpi_n (heap \<sigma> x) \<le> mpi_n (heap \<tau> x)"
        "mval (heap \<tau> a) = mval ?A" "mpi_s (heap \<tau> a) = 1"
      and W1: "?k + 1 \<le> mpi_n (heap \<tau> (?w + 1))" and vt: "mpi_n (heap \<tau> ?t) = 2 * (?k + 1)"
      and RR: "mpi_s (heap \<tau> ?rr) = 1" "mpi_p (heap \<tau> ?rr) \<noteq> []" "nval (mpi_p (heap \<tau> ?rr)) = (R * R) mod N"
      and vc: "\<And>c. cache = Some c \<Longrightarrow> mpi_s (heap \<tau> c) = 1 \<and> mpi_p (heap \<tau> c) \<noteq> [] \<and> nval (mpi_p (heap \<tau> c)) = (R * R) mod N"
    for \<tau>
  proof -
    have hn: "heap \<tau> n = ?N" "sp \<tau> = sp \<sigma> + 66" "oom \<tau> = []"
      using f low' low oom by (simp_all add: frame_def)
    have c: "mont_ctx \<tau> n mm ?t" using mm(2) pN N0 vt low by (simp add: mont_ctx_def hn N_def)
    show ?thesis
    proof (unfold ok_seqc, rule expm_start_ok, goal_cases)
      case (20 vx v1 vt)
      let ?\<theta> = "put x vx (put (?w + 1) v1 (put ?t vt \<tau>))"
      have "frame F ?\<sigma>0 ?\<theta>" using f by (intro frame_put) (simp_all add: F_def)
      moreover have "heap ?\<theta> c = heap \<tau> c" if "cache = Some c" for c using that low dc by auto
      ultimately show ?case
        using 20 xa W1 vt vc low by (intro fin [unfolded ok_seqc]) (auto simp: hn N_def R_def simp flip: length_greater_0_conv)
    qed (use low d N A oom xa W1 RR c in \<open>simp_all add: hn N_def R_def\<close>)
  qed
  have RR: "ok (seqc (expm_RR qhat ?rr n cache) (seqc (expm_start qhat x a n mm ?rr ?t ?w) ?tail)) \<tau> (\<lambda>u \<tau>'. Q u (leave \<sigma> \<tau>'))"
    if f: "frame F ?\<sigma>0 \<tau>" and xa: "?k + 1 \<le> mpi_n (heap \<tau> x)" "mpi_n (heap \<sigma> x) \<le> mpi_n (heap \<tau> x)"
        "mval (heap \<tau> a) = mval ?A" "mpi_s (heap \<tau> a) = 1"
      and W1: "?k + 1 \<le> mpi_n (heap \<tau> (?w + 1))" and vt: "mpi_n (heap \<tau> ?t) = 2 * (?k + 1)"
      and vc: "\<And>c. cache = Some c \<Longrightarrow> heap \<tau> c = heap \<sigma> c"
    for \<tau>
  proof -
    have hn: "heap \<tau> n = ?N" "sp \<tau> = sp \<sigma> + 66" "oom \<tau> = []"
      using f low' low oom by (simp_all add: frame_def)
    have cl: "cache = Some c \<Longrightarrow> c < sp \<sigma> \<and> c \<noteq> x \<and> c \<noteq> a" for c using low dc by auto
    show ?thesis
    proof (unfold ok_seqc, rule expm_RR_ok, goal_cases)
      case (11 v)
      let ?\<theta> = "put_opt cache v (put ?rr v \<tau>)"
      have h: "heap ?\<theta> u = (if u = ?rr \<or> cache = Some u then v else heap \<tau> u)" for u by (cases cache) auto
      have "frame F ?\<sigma>0 ?\<theta>" using f by (cases cache) (auto intro!: frame_put simp: F_def)
      moreover have "cache \<noteq> Some x" "cache \<noteq> Some a" "x \<noteq> ?rr" "a \<noteq> ?rr" using dc low by auto
      moreover have "cache \<noteq> Some ?t" "cache \<noteq> Some (?w + 1)" using cl [of ?t] cl [of "?w + 1"] by auto
      ultimately show ?case
        using 11 xa W1 vt by (intro start [unfolded ok_seqc]) (auto simp: h hn N_def R_def)
    qed (use low d N oom cl dc vc C N0 in \<open>auto simp: hn N_def R_def\<close>)
  qed
  have grow: "ok (bindc (rd e) (\<lambda>E. bindc (defd (mpi_msb E)) (\<lambda>i. let wsize = expm_wsize i; j = ?k + 1 in
      seqc (mpi_grow x j) (seqc (mpi_grow (?w + 1) j) (seqc (mpi_grow ?t (j * 2))
        (seqc (expm_RR qhat ?rr n cache)
          (seqc (expm_start qhat x a n mm ?rr ?t ?w)
            (seqc (expm_table n mm ?t ?w wsize)
              (seqc (expm_scan x e n mm ?t ?w wsize) (mpi_montred x n mm ?t))))))))))
      \<tau> (\<lambda>u \<tau>'. Q u (leave \<sigma> \<tau>'))" if f: "frame {?w..<?w + 64} ?\<sigma>0 \<tau>" for \<tau>
  proof -
    have h: "heap \<tau> u = heap \<sigma> u" if "u < sp \<sigma>" for u using f that by (simp add: frame_def)
    have ht: "heap \<tau> ?t = mpi_zero" using f by (simp add: frame_def)
    have o: "oom \<tau> = []" using f oom by (simp add: frame_def)
    let ?\<theta> = "put ?t (grown ((?k + 1) * 2) mpi_zero) (put (?w + 1) (grown (?k + 1) (heap \<tau> (?w + 1)))
        (put x (grown (?k + 1) (heap \<sigma> x)) \<tau>))"
    have "frame F ?\<sigma>0 \<tau>" using f by (auto simp: frame_def F_def)
    then have "frame F ?\<sigma>0 ?\<theta>" by (intro frame_put) (simp_all add: F_def)
    then have "ok (seqc (expm_RR qhat ?rr n cache) (seqc (expm_start qhat x a n mm ?rr ?t ?w) ?tail)) ?\<theta> (\<lambda>u \<tau>'. Q u (leave \<sigma> \<tau>'))"
      using low A dc by (intro RR) (auto simp: h)
    then show ?thesis
      using o low h [of e] h [of x] ht by (simp add: ok_seqc ok_bindc ok_rd ok_defd msb mpi_grow_ok Let_def)
  qed
  have c0: "mpi_cmp_int ?N 0 = Some (sgn N)"
    using N(1) by (simp add: mpi_cmp_int_0 wf_def mval_s1 N_def)
  have p0: "mpi_p ?N ! 0 AND 1 \<noteq> 0" using N(2) pN by (simp add: nval_odd_hd N_def)
  have body: "ok (seqc (forc [0..<64] (\<lambda>i. wr (?w + i) \<lparr>mpi_s = 0, mpi_p = []\<rparr>))
      (bindc (rd e) (\<lambda>E. bindc (defd (mpi_msb E)) (\<lambda>i. let wsize = expm_wsize i; j = ?k + 1 in
      seqc (mpi_grow x j) (seqc (mpi_grow (?w + 1) j) (seqc (mpi_grow ?t (j * 2))
        (seqc (expm_RR qhat ?rr n cache)
          (seqc (expm_start qhat x a n mm ?rr ?t ?w)
            (seqc (expm_table n mm ?t ?w wsize)
              (seqc (expm_scan x e n mm ?t ?w wsize) (mpi_montred x n mm ?t)))))))))))
      ?\<sigma>0 (\<lambda>u \<tau>'. Q u (leave \<sigma> \<tau>'))"
    unfolding ok_seqc [of "forc _ _"] by (rule ok_mono [OF expm_clear_ok]) (rule grow)
  show ?thesis
    unfolding mpi_exp_mod_def ok_bindc ok_rd ok_defd c0
    using body N0 p0 pN mm(1) by (simp add: ok_bindc ok_get_limb ok_defd ok_locals Let_def del: forc.simps)
qed

end

lemma mpi_exp_mod_errors:
  assumes "wf (heap \<sigma> n)" "mpi_p (heap \<sigma> n) \<noteq> []" "mval (heap \<sigma> n) < 0 \<or> even (mval (heap \<sigma> n))"
  shows "mpi_exp_mod qhat x a e n cache \<sigma> = Some (Inl POLARSSL_ERR_MPI_BAD_INPUT_DATA, \<sigma>)"
proof (cases "mval (heap \<sigma> n) < 0")
  case True
  then show ?thesis
    using mpi_cmp_int_0 [OF assms(1)] by (simp add: mpi_exp_mod_def bindc_def rd_def defd_def throw_def)
next
  case False
  then have "even (nval (mpi_p (heap \<sigma> n)))" using assms(1,3) by (auto simp: mval_def wf_def)
  then have "mpi_p (heap \<sigma> n) ! 0 AND 1 = 0" using nval_odd_hd [OF assms(2)] by simp
  then show ?thesis
    using False mpi_cmp_int_0 [OF assms(1)] assms(2)
    by (simp add: mpi_exp_mod_def bindc_def rd_def defd_def throw_def get_limb_def)
qed

end
