(* ===== verification/Mpi_Gcd.thy ===== *)
theory Mpi_Gcd
  imports Mpi_Exp_Mod
begin

text \<open>
  The number-theoretic functions of \<open>bignum.c\<close>: the binary greatest common divisor
  \<open>mpi_gcd\<close> (HAC 14.54) and the binary modular inverse \<open>mpi_inv_mod\<close> (HAC 14.61).
\<close>

subsection \<open>Definitions\<close>

definition shift_out :: "addr \<Rightarrow> unit cm" where
  "shift_out x = bindc (rd x) (\<lambda>X. mpi_shift_r x (int (mpi_lsb X)))"

definition gcd_step :: "addr \<Rightarrow> addr \<Rightarrow> unit cm" where
  "gcd_step ta tb =
     seqc (shift_out ta) (seqc (shift_out tb)
       (bindc (rd ta) (\<lambda>TA. bindc (rd tb) (\<lambda>TB.
         if mpi_cmp_mpi TA TB \<ge> 0
         then seqc (mpi_sub_abs ta ta tb) (mpi_shift_r ta 1)
         else seqc (mpi_sub_abs tb tb ta) (mpi_shift_r tb 1)))))"

definition gcd_loop :: "addr \<Rightarrow> addr \<Rightarrow> unit cm" where
  "gcd_loop ta tb =
     whilec (\<lambda>_ \<sigma>. map_option (\<lambda>c. c \<noteq> 0) (mpi_cmp_int (heap \<sigma> ta) 0)) (\<lambda>_. gcd_step ta tb) ()"

definition mpi_gcd :: "addr \<Rightarrow> addr \<Rightarrow> addr \<Rightarrow> unit cm" where
  "mpi_gcd g a b =
     locals 3 (\<lambda>tg. let ta = tg + 1; tb = tg + 2 in
       seqc (mpi_copy ta a) (seqc (mpi_copy tb b)
         (bindc (rd ta) (\<lambda>TA. bindc (rd tb) (\<lambda>TB.
           let lz = mpi_lsb TA; lzt = mpi_lsb TB; lz = (if lzt < lz then lzt else lz) in
           seqc (mpi_shift_r ta (int lz)) (seqc (mpi_shift_r tb (int lz))
             (seqc (set_s tb 1) (seqc (set_s ta 1)
               (seqc (gcd_loop ta tb)
                 (seqc (mpi_shift_l tb lz) (mpi_copy g tb)))))))))))"

text \<open>One inner loop of \<open>mpi_inv_mod\<close>: \<open>while( ( TU.p[0] & 1 ) == 0 )\<close>, with the cofactors.\<close>

definition inv_halve :: "addr \<Rightarrow> addr \<Rightarrow> addr \<Rightarrow> addr \<Rightarrow> addr \<Rightarrow> unit cm" where
  "inv_halve tu u1 u2 ta tb =
     whilec (\<lambda>_ \<sigma>. case mpi_p (heap \<sigma> tu) of [] \<Rightarrow> None | p0 # _ \<Rightarrow> Some (p0 AND 1 = 0))
       (\<lambda>_. seqc (mpi_shift_r tu 1)
          (bindc (get_limb u1 0) (\<lambda>l1. bindc (get_limb u2 0) (\<lambda>l2.
            seqc (if l1 AND 1 \<noteq> 0 \<or> l2 AND 1 \<noteq> 0
                  then seqc (mpi_add_mpi u1 u1 tb) (mpi_sub_mpi u2 u2 ta) else ret ())
              (seqc (mpi_shift_r u1 1) (mpi_shift_r u2 1)))))) ()"

definition inv_reduce :: "addr \<Rightarrow> addr \<Rightarrow> addr \<Rightarrow> addr \<Rightarrow> addr \<Rightarrow> addr \<Rightarrow> unit cm" where
  "inv_reduce tu u1 u2 tv v1 v2 =
     bindc (rd tu) (\<lambda>TU. bindc (rd tv) (\<lambda>TV.
       if mpi_cmp_mpi TU TV \<ge> 0
       then seqc (mpi_sub_mpi tu tu tv) (seqc (mpi_sub_mpi u1 u1 v1) (mpi_sub_mpi u2 u2 v2))
       else seqc (mpi_sub_mpi tv tv tu) (seqc (mpi_sub_mpi v1 v1 u1) (mpi_sub_mpi v2 v2 u2))))"

text \<open>\<open>do ... while( mpi_cmp_int( &TU, 0 ) != 0 )\<close>: the loop variable says whether to go on.\<close>

definition inv_loop :: "addr \<Rightarrow> addr \<Rightarrow> addr \<Rightarrow> addr \<Rightarrow> addr \<Rightarrow> addr \<Rightarrow> addr \<Rightarrow> addr \<Rightarrow> unit cm" where
  "inv_loop tu u1 u2 tv v1 v2 ta tb =
     seqc (whilec (\<lambda>more _. Some more)
       (\<lambda>_. seqc (inv_halve tu u1 u2 ta tb) (seqc (inv_halve tv v1 v2 ta tb)
          (seqc (inv_reduce tu u1 u2 tv v1 v2)
            (bindc (rd tu) (\<lambda>TU. bindc (defd (mpi_cmp_int TU 0)) (\<lambda>c. ret (c \<noteq> 0))))))) True) (ret ())"

definition inv_range :: "addr \<Rightarrow> addr \<Rightarrow> unit cm" where
  "inv_range v1 n =
     seqc (whilec (\<lambda>_ \<sigma>. map_option (\<lambda>c. c < 0) (mpi_cmp_int (heap \<sigma> v1) 0))
             (\<lambda>_. mpi_add_mpi v1 v1 n) ())
       (whilec (\<lambda>_ \<sigma>. Some (mpi_cmp_mpi (heap \<sigma> v1) (heap \<sigma> n) \<ge> 0))
             (\<lambda>_. mpi_sub_mpi v1 v1 n) ())"

definition mpi_inv_mod ::
  "(t_int \<Rightarrow> t_int \<Rightarrow> t_int \<Rightarrow> t_int option) \<Rightarrow> addr \<Rightarrow> addr \<Rightarrow> addr \<Rightarrow> unit cm" where
  "mpi_inv_mod qhat x a n =
     bindc (rd n) (\<lambda>N. bindc (defd (mpi_cmp_int N 0)) (\<lambda>c.
       if c \<le> 0 then throw POLARSSL_ERR_MPI_BAD_INPUT_DATA
       else locals 9 (\<lambda>ta.
         let tu = ta + 1; u1 = ta + 2; u2 = ta + 3; g = ta + 4;
             tb = ta + 5; tv = ta + 6; v1 = ta + 7; v2 = ta + 8 in
         seqc (mpi_gcd g a n)
           (bindc (rd g) (\<lambda>G. bindc (defd (mpi_cmp_int G 1)) (\<lambda>c.
             if c \<noteq> 0 then throw POLARSSL_ERR_MPI_NOT_ACCEPTABLE
             else seqc (mpi_mod_mpi qhat ta a n)
               (seqc (mpi_copy tu ta) (seqc (mpi_copy tb n) (seqc (mpi_copy tv n)
                 (seqc (mpi_lset u1 1) (seqc (mpi_lset u2 0)
                   (seqc (mpi_lset v1 0) (seqc (mpi_lset v2 1)
                     (seqc (inv_loop tu u1 u2 tv v1 v2 ta tb)
                       (seqc (inv_range v1 n) (mpi_copy x v1))))))))))))))))"

end
