(* ===== verification/Mpi_Gcd_Correct.thy ===== *)
theory Mpi_Gcd_Correct
  imports Mpi_Gcd
begin

text \<open>
  Correctness of the binary greatest common divisor: the loop keeps the gcd and one of the
  two numbers odd, and their sum decreases.
\<close>

subsection \<open>The greatest common divisor\<close>

lemma put_other [simp]: "a \<noteq> b \<Longrightarrow> put b v (put a w (put b u \<sigma>)) = put a w (put b v \<sigma>)"
  by (metis put_commute put_put)

lemma shift_out_ok:
  assumes "\<And>v. mpi_s v = mpi_s (heap \<sigma> x) \<Longrightarrow> nval (mpi_p v) = nval (mpi_p (heap \<sigma> x)) div 2 ^ mpi_lsb (heap \<sigma> x) \<Longrightarrow>
    mpi_n v = mpi_n (heap \<sigma> x) \<Longrightarrow> Q () (put x v \<sigma>)"
  shows "ok (shift_out x) \<sigma> Q"
  unfolding shift_out_def wp by (rule assms) (simp_all add: shr_list_val)

lemma gcd_odd_part: "odd b \<Longrightarrow> gcd (2 ^ k * a) b = gcd a (b :: int)"
  by (rule gcd_mult_left_left_cancel) simp

text \<open>The odd parts have the same gcd if it is odd.\<close>

lemma gcd_odd_parts:
  fixes a b :: int
  assumes "odd a \<or> odd b" "2 ^ k dvd a" "odd (a div 2 ^ k)" "2 ^ l dvd b" "odd (b div 2 ^ l)"
  shows "gcd (a div 2 ^ k) (b div 2 ^ l) = gcd a b"
proof -
  have e: "a = 2 ^ k * (a div 2 ^ k)" "b = 2 ^ l * (b div 2 ^ l)" using assms(2,4) by simp_all
  have "gcd (a div 2 ^ k) (b div 2 ^ l) = gcd a (b div 2 ^ l)"
    by (subst (2) e(1)) (rule gcd_odd_part [OF assms(5), symmetric])
  moreover have "gcd (a div 2 ^ k) (b div 2 ^ l) = gcd (a div 2 ^ k) b"
    by (subst (2) e(2)) (metis gcd.commute gcd_odd_part assms(3))
  moreover have "odd a \<Longrightarrow> k = 0" "odd b \<Longrightarrow> l = 0"
    using assms(2,4) by (metis dvd_trans dvd_power neq0_conv)+
  ultimately show ?thesis using assms(1) by auto
qed

lemma gcd_half_diff:
  fixes a b :: int
  assumes "odd a" "odd b"
  shows "gcd ((a - b) div 2) b = gcd a b"
proof -
  have "a - b = 2 ^ 1 * ((a - b) div 2)" using assms by simp
  then have "gcd (a - b) b = gcd ((a - b) div 2) b" using gcd_odd_part [OF assms(2), of 1] by metis
  then show ?thesis by (simp add: gcd_diff1)
qed

definition gcd_inv :: "addr \<Rightarrow> addr \<Rightarrow> mem \<Rightarrow> int \<Rightarrow> mem \<Rightarrow> bool" where
  "gcd_inv ta tb \<sigma> g \<rho> \<longleftrightarrow> (\<exists>A B. \<rho> = put ta A (put tb B \<sigma>) \<and> mpi_s A = 1 \<and> mpi_s B = 1 \<and>
     gcd (nval (mpi_p A)) (nval (mpi_p B)) = g \<and> 0 < nval (mpi_p B) \<and>
     (nval (mpi_p A) = 0 \<or> odd (nval (mpi_p A)) \<or> odd (nval (mpi_p B))))"

lemma gcd_invI:
  "mpi_s A = 1 \<Longrightarrow> mpi_s B = 1 \<Longrightarrow> gcd (nval (mpi_p A)) (nval (mpi_p B)) = g \<Longrightarrow> 0 < nval (mpi_p B) \<Longrightarrow>
   nval (mpi_p A) = 0 \<or> odd (nval (mpi_p A)) \<or> odd (nval (mpi_p B)) \<Longrightarrow> gcd_inv ta tb \<sigma> g (put ta A (put tb B \<sigma>))"
  by (auto simp: gcd_inv_def)

lemma gcd_step_ok:
  assumes "ta \<noteq> tb" "ta < sp \<sigma>" "tb < sp \<sigma>" "oom \<sigma> = []"
    and i: "gcd_inv ta tb \<sigma> g \<rho>" "nval (mpi_p (heap \<rho> ta)) \<noteq> 0"
  shows "ok (gcd_step ta tb) \<rho> (\<lambda>_ \<rho>'. gcd_inv ta tb \<sigma> g \<rho>' \<and>
    nval (mpi_p (heap \<rho>' ta)) + nval (mpi_p (heap \<rho>' tb)) < nval (mpi_p (heap \<rho> ta)) + nval (mpi_p (heap \<rho> tb)))"
proof -
  obtain A B where r: "\<rho> = put ta A (put tb B \<sigma>)" "mpi_s A = 1" "mpi_s B = 1"
    "gcd (nval (mpi_p A)) (nval (mpi_p B)) = g" "0 < nval (mpi_p B)"
    "odd (nval (mpi_p A)) \<or> odd (nval (mpi_p B))" "nval (mpi_p A) \<noteq> 0"
    using i assms(1) by (auto simp: gcd_inv_def)
  have B0: "nval (mpi_p B) \<noteq> 0" using r(5) by simp
  define a b where "a = nval (mpi_p A) div 2 ^ mpi_lsb A" and "b = nval (mpi_p B) div 2 ^ mpi_lsb B"
  note la = mpi_lsb_spec [OF r(7), folded a_def] and lb = mpi_lsb_spec [OF B0, folded b_def]
  have g: "gcd a b = g" using gcd_odd_parts [OF r(6)] la lb r(4) unfolding a_def b_def by blast
  have le: "a \<le> nval (mpi_p A)" "b \<le> nval (mpi_p B)"
    using zdiv_mono2 [of "nval (mpi_p A)" 1 "2 ^ mpi_lsb A"] zdiv_mono2 [of "nval (mpi_p B)" 1 "2 ^ mpi_lsb B"]
    by (simp_all add: a_def b_def)
  have "0 \<le> a" "0 \<le> b" by (simp_all add: a_def b_def pos_imp_zdiv_nonneg_iff)
  moreover have "a \<noteq> 0" "b \<noteq> 0" using la(2) lb(2) by auto
  ultimately have pos: "0 < a" "0 < b" by linarith+
  have decr: "(a - b) div 2 + b < nval (mpi_p A) + nval (mpi_p B)" "a + (b - a) div 2 < nval (mpi_p A) + nval (mpi_p B)"
    using le pos by linarith+
  have ga: "gcd ((a - b) div 2) b = g" and gb: "gcd a ((b - a) div 2) = g"
    using gcd_half_diff [OF la(2) lb(2)] gcd_half_diff [OF lb(2) la(2)] g by (simp_all add: gcd.commute)
  have diff: "even (b - a)" using la(2) lb(2) by simp
  show ?thesis
    unfolding gcd_step_def ok_seqc ok_bindc ok_rd r(1)
  proof (intro shift_out_ok)
    fix va vb :: mpi
    assume va: "mpi_s va = mpi_s (heap (put ta A (put tb B \<sigma>)) ta)"
      "nval (mpi_p va) = nval (mpi_p (heap (put ta A (put tb B \<sigma>)) ta)) div 2 ^ mpi_lsb (heap (put ta A (put tb B \<sigma>)) ta)"
    let ?s = "put ta va (put ta A (put tb B \<sigma>))"
    assume vb: "mpi_s vb = mpi_s (heap ?s tb)"
      "nval (mpi_p vb) = nval (mpi_p (heap ?s tb)) div 2 ^ mpi_lsb (heap ?s tb)"
    from va vb r(2,3) assms(1) have v: "mpi_s va = 1" "mpi_s vb = 1" "nval (mpi_p va) = a" "nval (mpi_p vb) = b"
      by (simp_all add: a_def b_def)
    have c: "mpi_cmp_mpi va vb = sgn (a - b)" using v by (subst mpi_cmp_mpi_sgn) (simp_all add: wf_def mval_def)
    show "ok (if 0 \<le> mpi_cmp_mpi (heap (put tb vb ?s) ta) (heap (put tb vb ?s) tb)
        then seqc (mpi_sub_abs ta ta tb) (mpi_shift_r ta 1) else seqc (mpi_sub_abs tb tb ta) (mpi_shift_r tb 1))
        (put tb vb ?s) (\<lambda>_ \<rho>'. gcd_inv ta tb \<sigma> g \<rho>' \<and> nval (mpi_p (heap \<rho>' ta)) + nval (mpi_p (heap \<rho>' tb))
        < nval (mpi_p (heap (put ta A (put tb B \<sigma>)) ta)) + nval (mpi_p (heap (put ta A (put tb B \<sigma>)) tb)))"
    proof (cases "b \<le> a")
      case True
      then have "ok (mpi_sub_abs ta ta tb) (put tb vb ?s) (\<lambda>_ \<rho>. ok (mpi_shift_r ta 1) \<rho> (\<lambda>_ \<rho>'. gcd_inv ta tb \<sigma> g \<rho>' \<and>
          nval (mpi_p (heap \<rho>' ta)) + nval (mpi_p (heap \<rho>' tb)) < nval (mpi_p A) + nval (mpi_p B)))"
        using assms(1-4) v ga pos decr lb(2)
        by (intro mpi_sub_abs_ok) (auto simp: wp shr_list_val intro!: gcd_invI)
      then show ?thesis using True assms(1) c v by (simp add: wp)
    next
      case False
      then have "0 < b - a" by simp
      moreover from diff obtain k where "b - a = 2 * k" by (elim evenE)
      ultimately have "0 < (b - a) div 2" by simp
      then have "ok (mpi_sub_abs tb tb ta) (put tb vb ?s) (\<lambda>_ \<rho>. ok (mpi_shift_r tb 1) \<rho> (\<lambda>_ \<rho>'. gcd_inv ta tb \<sigma> g \<rho>' \<and>
          nval (mpi_p (heap \<rho>' ta)) + nval (mpi_p (heap \<rho>' tb)) < nval (mpi_p A) + nval (mpi_p B)))"
        using False assms(1-4) v gb pos decr la(2)
        by (intro mpi_sub_abs_ok) (auto simp: wp shr_list_val intro!: gcd_invI)
      then show ?thesis using False assms(1) c v by (simp add: wp)
    qed
  qed
qed

lemma gcd_loop_ok:
  assumes "ta \<noteq> tb" "ta < sp \<sigma>" "tb < sp \<sigma>" "oom \<sigma> = []" "gcd_inv ta tb \<sigma> g \<rho>"
    and Q: "\<And>A B. mpi_s B = 1 \<Longrightarrow> nval (mpi_p B) = g \<Longrightarrow> mpi_p B \<noteq> [] \<Longrightarrow> Q () (put ta A (put tb B \<sigma>))"
  shows "ok (gcd_loop ta tb) \<rho> Q"
  unfolding gcd_loop_def
proof (rule ok_whilec [where I = "\<lambda>_. gcd_inv ta tb \<sigma> g" and
      m = "\<lambda>_ \<rho>. nat (nval (mpi_p (heap \<rho> ta)) + nval (mpi_p (heap \<rho> tb)))"])
  have cmp: "mpi_cmp_int (heap \<tau> ta) 0 = Some (sgn (nval (mpi_p (heap \<tau> ta))))" if "gcd_inv ta tb \<sigma> g \<tau>" for \<tau>
    using that assms(1) mpi_cmp_int_pos [of "heap \<tau> ta" 0] by (auto simp: gcd_inv_def mval_def)
  fix \<tau> :: mem and v :: unit assume i: "gcd_inv ta tb \<sigma> g \<tau>"
  show "map_option (\<lambda>c. c \<noteq> 0) (mpi_cmp_int (heap \<tau> ta) 0) \<noteq> None" by (simp add: cmp [OF i])
  show "ok (gcd_step ta tb) \<tau> (\<lambda>_ \<rho>'. gcd_inv ta tb \<sigma> g \<rho>' \<and>
      nat (nval (mpi_p (heap \<rho>' ta)) + nval (mpi_p (heap \<rho>' tb))) < nat (nval (mpi_p (heap \<tau> ta)) + nval (mpi_p (heap \<tau> tb))))"
    if "map_option (\<lambda>c. c \<noteq> 0) (mpi_cmp_int (heap \<tau> ta) 0) = Some True"
  proof -
    have "nval (mpi_p (heap \<tau> ta)) \<noteq> 0" using that by (auto simp: cmp [OF i])
    from gcd_step_ok [OF assms(1-4) i this] show ?thesis
      by (rule ok_mono) (metis nat_mono_iff add_nonneg_nonneg nval_nonneg order_le_less_trans)
  qed
  show "Q v \<tau>" if "map_option (\<lambda>c. c \<noteq> 0) (mpi_cmp_int (heap \<tau> ta) 0) = Some False"
  proof -
    have "nval (mpi_p (heap \<tau> ta)) = 0" using that by (auto simp: cmp [OF i])
    moreover obtain A B where r: "\<tau> = put ta A (put tb B \<sigma>)" "mpi_s B = 1"
      "gcd (nval (mpi_p A)) (nval (mpi_p B)) = g" "0 < nval (mpi_p B)" using i by (auto simp: gcd_inv_def)
    ultimately have "nval (mpi_p B) = g" by simp
    moreover have "mpi_p B \<noteq> []" using r(4) by auto
    ultimately show ?thesis using Q [OF r(2), of A] r(1) by simp
  qed
qed (rule assms)

text \<open>The common power of two taken out before the loop.\<close>

lemma gcd_common_power:
  fixes a b :: int
  assumes "2 ^ k dvd a" "2 ^ k dvd b"
  shows "gcd (a div 2 ^ k) (b div 2 ^ k) * 2 ^ k = gcd a b"
proof -
  obtain c d where "a = 2 ^ k * c" "b = 2 ^ k * d" using assms by (elim dvdE)
  then show ?thesis by (simp add: gcd_mult_left)
qed

lemma lsb_min:
  assumes "nval (mpi_p A) \<noteq> 0" "nval (mpi_p B) \<noteq> 0"
  defines "k \<equiv> min (mpi_lsb A) (mpi_lsb B)"
  shows "2 ^ k dvd nval (mpi_p A)" "2 ^ k dvd nval (mpi_p B)"
    "odd (nval (mpi_p A) div 2 ^ k) \<or> odd (nval (mpi_p B) div 2 ^ k)"
proof -
  note a = mpi_lsb_spec [OF assms(1)] and b = mpi_lsb_spec [OF assms(2)]
  show "2 ^ k dvd nval (mpi_p A)" "2 ^ k dvd nval (mpi_p B)"
    using dvd_trans [OF le_imp_power_dvd [of k "mpi_lsb A" 2] a(1)] dvd_trans [OF le_imp_power_dvd [of k "mpi_lsb B" 2] b(1)]
    by (simp_all add: k_def)
  show "odd (nval (mpi_p A) div 2 ^ k) \<or> odd (nval (mpi_p B) div 2 ^ k)"
    using a(2) b(2) by (cases "mpi_lsb A \<le> mpi_lsb B") (simp_all add: k_def min_def)
qed

lemma lsb_min_gcd:
  fixes A B :: mpi
  assumes "nval (mpi_p B) \<noteq> 0"
  defines "k \<equiv> min (mpi_lsb A) (mpi_lsb B)"
  shows "gcd (nval (mpi_p A) div 2 ^ k) (nval (mpi_p B) div 2 ^ k) * 2 ^ k = gcd (nval (mpi_p A)) (nval (mpi_p B))"
    "0 < nval (mpi_p B) div 2 ^ k"
    "nval (mpi_p A) div 2 ^ k = 0 \<or> odd (nval (mpi_p A) div 2 ^ k) \<or> odd (nval (mpi_p B) div 2 ^ k)"
proof -
  have d: "2 ^ k dvd nval (mpi_p A) \<and> 2 ^ k dvd nval (mpi_p B) \<and>
    (nval (mpi_p A) div 2 ^ k = 0 \<or> odd (nval (mpi_p A) div 2 ^ k) \<or> odd (nval (mpi_p B) div 2 ^ k))"
  proof (cases "nval (mpi_p A) = 0")
    case True
    then show ?thesis by (simp add: k_def mpi_lsb_zero)
  next
    case False
    show ?thesis using lsb_min [OF False assms(1)] by (simp add: k_def)
  qed
  then show "gcd (nval (mpi_p A) div 2 ^ k) (nval (mpi_p B) div 2 ^ k) * 2 ^ k = gcd (nval (mpi_p A)) (nval (mpi_p B))"
    by (intro gcd_common_power) simp_all
  have "nval (mpi_p B) div 2 ^ k \<noteq> 0" using d assms(1) by (metis dvd_div_eq_0_iff)
  then show "0 < nval (mpi_p B) div 2 ^ k"
    using pos_imp_zdiv_nonneg_iff [of "2 ^ k" "nval (mpi_p B)"] nval_nonneg [of "mpi_p B"] by simp
  show "nval (mpi_p A) div 2 ^ k = 0 \<or> odd (nval (mpi_p A) div 2 ^ k) \<or> odd (nval (mpi_p B) div 2 ^ k)" using d by blast
qed

lemma mpi_gcd_ok:
  assumes "oom \<sigma> = []" "g < sp \<sigma>" "a < sp \<sigma>" "b < sp \<sigma>" and b: "nval (mpi_p (heap \<sigma> b)) \<noteq> 0"
    and Q: "\<And>v. mpi_s v = 1 \<Longrightarrow> nval (mpi_p v) = gcd (nval (mpi_p (heap \<sigma> a))) (nval (mpi_p (heap \<sigma> b))) \<Longrightarrow>
       mpi_n (heap \<sigma> g) \<le> mpi_n v \<Longrightarrow> Q () (put g v \<sigma>)"
  shows "ok (mpi_gcd g a b) \<sigma> Q"
proof -
  define t where "t = sp \<sigma>"
  let ?A = "copied mpi_zero (heap \<sigma> a)" and ?B = "copied mpi_zero (heap \<sigma> b)"
  define k where "k = min (mpi_lsb ?A) (mpi_lsb ?B)"
  have nz: "nval (mpi_p ?B) \<noteq> 0" using b by simp
  note k = lsb_min_gcd [OF nz, of ?A, folded k_def, simplified]
  have "ok (gcd_loop (Suc t) (Suc (Suc t)))
     (put (Suc t) \<lparr>mpi_s = 1, mpi_p = shr_list (int k) (mpi_p ?A)\<rparr>
        (put (Suc (Suc t)) \<lparr>mpi_s = 1, mpi_p = shr_list (int k) (mpi_p ?B)\<rparr> (enter 3 \<sigma>)))
     (\<lambda>_ \<sigma>'. ok (mpi_shift_l (Suc (Suc t)) k) \<sigma>' (\<lambda>_ \<sigma>'. ok (mpi_copy g (Suc (Suc t))) \<sigma>' (\<lambda>_ \<sigma>'. Q () (leave \<sigma> \<sigma>'))))"
  proof (rule gcd_loop_ok)
    show "gcd_inv (Suc t) (Suc (Suc t)) (enter 3 \<sigma>) (gcd (nval (mpi_p (heap \<sigma> a)) div 2 ^ k) (nval (mpi_p (heap \<sigma> b)) div 2 ^ k))
       (put (Suc t) \<lparr>mpi_s = 1, mpi_p = shr_list (int k) (mpi_p ?A)\<rparr>
        (put (Suc (Suc t)) \<lparr>mpi_s = 1, mpi_p = shr_list (int k) (mpi_p ?B)\<rparr> (enter 3 \<sigma>)))"
      using k by (intro gcd_invI) (simp_all add: shr_list_val)
    fix A B :: mpi assume B: "mpi_s B = 1" "mpi_p B \<noteq> []"
      "nval (mpi_p B) = gcd (nval (mpi_p (heap \<sigma> a)) div 2 ^ k) (nval (mpi_p (heap \<sigma> b)) div 2 ^ k)"
    obtain m where m: "mpi_msb B = Some m" using mpi_msb_defined [OF B(2)] by blast
    show "ok (mpi_shift_l (Suc (Suc t)) k) (put (Suc t) A (put (Suc (Suc t)) B (enter 3 \<sigma>)))
      (\<lambda>_ \<sigma>'. ok (mpi_copy g (Suc (Suc t))) \<sigma>' (\<lambda>_ \<sigma>'. Q () (leave \<sigma> \<sigma>')))"
    proof (rule mpi_shift_l_ok)
      fix v :: mpi assume v: "mpi_s v = mpi_s (heap (put (Suc t) A (put (Suc (Suc t)) B (enter 3 \<sigma>))) (Suc (Suc t)))"
        "nval (mpi_p v) = nval (mpi_p (heap (put (Suc t) A (put (Suc (Suc t)) B (enter 3 \<sigma>))) (Suc (Suc t)))) * 2 ^ k"
      have "Q () (put g (copied (heap \<sigma> g) v) \<sigma>)" by (rule Q) (use v B k in simp_all)
      then show "ok (mpi_copy g (Suc (Suc t))) (put (Suc (Suc t)) v (put (Suc t) A (put (Suc (Suc t)) B (enter 3 \<sigma>))))
          (\<lambda>_ \<sigma>'. Q () (leave \<sigma> \<sigma>'))"
        using assms(1,2) by (simp add: wp t_def)
    qed (use assms m in simp_all)
  qed (use assms in \<open>simp_all add: t_def\<close>)
  then show ?thesis
    using assms(1-4)
    by (cases "mpi_lsb ?B < mpi_lsb ?A") (simp_all add: mpi_gcd_def wp Let_def k_def t_def put_commute)
qed

end
