(* ===== verification/Mpi_Inv_Correct.thy ===== *)
theory Mpi_Inv_Correct
  imports Mpi_Gcd_Correct
begin

text \<open>
  Correctness of the binary modular inverse. Each of \<open>TU\<close> and \<open>TV\<close> stays the combination
  \<open>U1 * TA + U2 * TB\<close> of the two inputs its cofactors say; the pair keeps its gcd and shrinks.
\<close>

subsection \<open>Parity and halving\<close>

lemma even_mval_iff: "wf X \<Longrightarrow> even (mval X) \<longleftrightarrow> even (nval (mpi_p X))"
  by (auto simp: wf_def mval_def)

lemma limb0_odd: "mpi_p X \<noteq> [] \<Longrightarrow> wf X \<Longrightarrow> (mpi_p X ! 0 AND 1 \<noteq> 0) = odd (mval X)"
proof -
  assume p: "mpi_p X \<noteq> []" and w: "wf X"
  then obtain l ls where l: "mpi_p X = l # ls" by (cases "mpi_p X") auto
  have "even (nval (mpi_p X)) \<longleftrightarrow> even (uint l)" by (simp add: l)
  moreover have "even (uint l) \<longleftrightarrow> \<not> bit l 0" using bit_uint_iff [of l 0] by (simp add: bit_0)
  ultimately show ?thesis using limb_bit_test [of 0 l] even_mval_iff [OF w] by (simp add: l)
qed

lemma shr1_val:
  assumes "wf X" "even (mval X)"
  shows "mval (X\<lparr>mpi_p := shr_list 1 (mpi_p X)\<rparr>) = mval X div 2" "wf (X\<lparr>mpi_p := shr_list 1 (mpi_p X)\<rparr>)"
proof -
  have "even (nval (mpi_p X))" using assms even_mval_iff by blast
  then show "mval (X\<lparr>mpi_p := shr_list 1 (mpi_p X)\<rparr>) = mval X div 2"
    using assms(1) by (auto simp: mval_def wf_def shr_list_val elim!: evenE)
qed (use assms in \<open>simp add: wf_def\<close>)

lemma cofactor_parity:
  fixes x y c d :: int
  assumes "odd x \<or> odd y" "even (c * x + d * y)" "odd c \<or> odd d"
  shows "even (c + y)" "even (d - x)"
  using assms by auto

lemma half_combination: "even c \<Longrightarrow> even d \<Longrightarrow> (c * x + d * y) div 2 = c div 2 * x + d div 2 * (y :: int)"
proof -
  assume "even c" "even d"
  then obtain p q where "c = 2 * p" "d = 2 * q" by (elim evenE)
  moreover have "2 * p * x + 2 * q * y = 2 * (p * x + q * y)" by (simp add: distrib_left)
  ultimately show ?thesis by simp
qed

lemma sign_pos: "wf X \<Longrightarrow> 0 < mval X \<Longrightarrow> mpi_s X = 1"
  using nval_nonneg [of "mpi_p X"] by (auto simp: wf_def mval_def simp del: nval_nonneg)

definition cofs :: "addr \<Rightarrow> addr \<Rightarrow> addr \<Rightarrow> int \<Rightarrow> int \<Rightarrow> mem \<Rightarrow> bool" where
  "cofs t c d x y \<rho> \<longleftrightarrow> mpi_s (heap \<rho> t) = 1 \<and> wf (heap \<rho> c) \<and> wf (heap \<rho> d) \<and> mpi_p (heap \<rho> c) \<noteq> [] \<and> mpi_p (heap \<rho> d) \<noteq> [] \<and>
     mval (heap \<rho> t) = mval (heap \<rho> c) * x + mval (heap \<rho> d) * y"

lemma cofs_frame:
  "cofs t c d x y \<rho> \<Longrightarrow> frame S \<rho> \<rho>' \<Longrightarrow> t \<notin> S \<Longrightarrow> c \<notin> S \<Longrightarrow> d \<notin> S \<Longrightarrow> cofs t c d x y \<rho>'"
  by (simp add: cofs_def frameD)

text \<open>The adjustment of odd cofactors.\<close>

lemma adjust_ok:
  assumes d: "distinct [t, c, d, ta, tb]" and "oom \<rho> = []" "c < sp \<rho>" "d < sp \<rho>" "ta < sp \<rho>" "tb < sp \<rho>"
    and w: "wf (heap \<rho> ta)" "wf (heap \<rho> tb)" and xy: "mval (heap \<rho> ta) = x" "mval (heap \<rho> tb) = y" "odd x \<or> odd y"
    and W: "wf (heap \<rho> c)" "wf (heap \<rho> d)" "mpi_p (heap \<rho> c) \<noteq> []" "mpi_p (heap \<rho> d) \<noteq> []"
    and e: "even (mval (heap \<rho> c) * x + mval (heap \<rho> d) * y)"
    and Q: "\<And>C D. wf C \<Longrightarrow> wf D \<Longrightarrow> mpi_p C \<noteq> [] \<Longrightarrow> mpi_p D \<noteq> [] \<Longrightarrow> even (mval C) \<Longrightarrow> even (mval D) \<Longrightarrow>
       mval C * x + mval D * y = mval (heap \<rho> c) * x + mval (heap \<rho> d) * y \<Longrightarrow> Q () (put d D (put c C \<rho>))"
  shows "ok (if mpi_p (heap \<rho> c) ! 0 AND 1 \<noteq> 0 \<or> mpi_p (heap \<rho> d) ! 0 AND 1 \<noteq> 0
     then seqc (mpi_add_mpi c c tb) (mpi_sub_mpi d d ta) else ret ()) \<rho> Q"
proof (cases "odd (mval (heap \<rho> c)) \<or> odd (mval (heap \<rho> d))")
  case True
  note p = cofactor_parity [OF xy(3) e True]
  have "ok (mpi_add_mpi c c tb) \<rho> (\<lambda>_ \<rho>'. ok (mpi_sub_mpi d d ta) \<rho>' Q)"
  proof (rule mpi_add_mpi_ok)
    fix C assume C: "wf C" "mval C = mval (heap \<rho> c) + mval (heap \<rho> tb)" "mpi_n (heap \<rho> c) \<le> mpi_n C"
    show "ok (mpi_sub_mpi d d ta) (put c C \<rho>) Q"
    proof (rule mpi_sub_mpi_ok)
      fix D assume D: "wf D" "mval D = mval (heap (put c C \<rho>) d) - mval (heap (put c C \<rho>) ta)" "mpi_n (heap (put c C \<rho>) d) \<le> mpi_n D"
      have cd: "mval C = mval (heap \<rho> c) + y" "mval D = mval (heap \<rho> d) - x" using C(2) D(2) d xy by auto
      have n: "mpi_p C \<noteq> []" "mpi_p D \<noteq> []" using C(3) D(3) W(3,4) d by auto
      have "(mval (heap \<rho> c) + y) * x + (mval (heap \<rho> d) - x) * y = mval (heap \<rho> c) * x + mval (heap \<rho> d) * y"
        by (simp add: algebra_simps)
      with cd p show "Q () (put d D (put c C \<rho>))" by (intro Q C(1) D(1) n) simp_all
    qed (use assms in auto)
  qed (use assms in auto)
  then show ?thesis using True limb0_odd W by (simp add: wp)
next
  case False
  then show ?thesis using Q [of "heap \<rho> c" "heap \<rho> d"] limb0_odd W by (simp add: wp)
qed

lemma halve_step_ok:
  assumes d: "distinct [t, c, d, ta, tb]" and "oom \<rho> = []" "c < sp \<rho>" "d < sp \<rho>" "ta < sp \<rho>" "tb < sp \<rho>"
    and w: "wf (heap \<rho> ta)" "wf (heap \<rho> tb)" and xy: "mval (heap \<rho> ta) = x" "mval (heap \<rho> tb) = y" "odd x \<or> odd y"
    and i: "cofs t c d x y \<rho>" "even (mval (heap \<rho> t))"
  shows "ok (seqc (mpi_shift_r t 1)
          (bindc (get_limb c 0) (\<lambda>l1. bindc (get_limb d 0) (\<lambda>l2.
            seqc (if l1 AND 1 \<noteq> 0 \<or> l2 AND 1 \<noteq> 0
                  then seqc (mpi_add_mpi c c tb) (mpi_sub_mpi d d ta) else ret ())
              (seqc (mpi_shift_r c 1) (mpi_shift_r d 1)))))) \<rho>
     (\<lambda>_ \<rho>'. frame {t, c, d} \<rho> \<rho>' \<and> cofs t c d x y \<rho>' \<and> mval (heap \<rho>' t) = mval (heap \<rho> t) div 2)"
proof -
  have ne: "t \<noteq> c" "c \<noteq> t" "t \<noteq> d" "d \<noteq> t" "c \<noteq> d" "d \<noteq> c" using d by auto
  define T where "T = (heap \<rho> t)\<lparr>mpi_p := shr_list 1 (mpi_p (heap \<rho> t))\<rparr>"
  have T: "mval T = mval (heap \<rho> t) div 2" "mpi_s T = 1"
    using i shr1_val [of "heap \<rho> t"] by (simp_all add: T_def cofs_def wf_def)
  have hp: "heap (put t T \<rho>) c = heap \<rho> c" "heap (put t T \<rho>) d = heap \<rho> d"
    "heap (put t T \<rho>) ta = heap \<rho> ta" "heap (put t T \<rho>) tb = heap \<rho> tb" using d by auto
  have ev: "even (mval (heap \<rho> c) * x + mval (heap \<rho> d) * y)" "wf (heap \<rho> c)" "wf (heap \<rho> d)"
    "mpi_p (heap \<rho> c) \<noteq> []" "mpi_p (heap \<rho> d) \<noteq> []" using i by (simp_all only: cofs_def simp_thms)
  have "ok (if mpi_p (heap (put t T \<rho>) c) ! 0 AND 1 \<noteq> 0 \<or> mpi_p (heap (put t T \<rho>) d) ! 0 AND 1 \<noteq> 0
     then seqc (mpi_add_mpi c c tb) (mpi_sub_mpi d d ta) else ret ()) (put t T \<rho>)
     (\<lambda>_ \<rho>'. ok (seqc (mpi_shift_r c 1) (mpi_shift_r d 1)) \<rho>'
       (\<lambda>_ \<rho>'. frame {t, c, d} \<rho> \<rho>' \<and> cofs t c d x y \<rho>' \<and> mval (heap \<rho>' t) = mval (heap \<rho> t) div 2))"
  proof (rule adjust_ok [OF d])
    fix C D assume C: "wf C" "wf D" "mpi_p C \<noteq> []" "mpi_p D \<noteq> []" "even (mval C)" "even (mval D)"
      "mval C * x + mval D * y = mval (heap (put t T \<rho>) c) * x + mval (heap (put t T \<rho>) d) * y"
    have sum: "mval C * x + mval D * y = mval (heap \<rho> t)" using C(7) i(1) by (simp only: cofs_def hp)
    define C' D' where "C' = C\<lparr>mpi_p := shr_list 1 (mpi_p C)\<rparr>" and "D' = D\<lparr>mpi_p := shr_list 1 (mpi_p D)\<rparr>"
    have v: "mval C' = mval C div 2" "wf C'" "mval D' = mval D div 2" "wf D'"
      unfolding C'_def D'_def using shr1_val [OF C(1,5)] shr1_val [OF C(2,6)] by simp_all
    have "mpi_n C' = mpi_n C" "mpi_n D' = mpi_n D" by (simp_all add: C'_def D'_def shr_list_val)
    then have n: "mpi_p C' \<noteq> []" "mpi_p D' \<noteq> []" using C(3,4) by auto
    have "mval T = mval C' * x + mval D' * y" unfolding T v(1,3) half_combination [OF C(5,6), symmetric] sum by (rule refl)
    then have "cofs t c d x y (put d D' (put c C' (put t T \<rho>)))" using ne v(2,4) n T(2) by (simp add: cofs_def)
    moreover have "frame {t, c, d} \<rho> (put d D' (put c C' (put t T \<rho>)))" by (intro frame_put frame_refl) simp_all
    moreover have "mval (heap (put d D' (put c C' (put t T \<rho>))) t) = mval (heap \<rho> t) div 2" using ne T(1) by simp
    ultimately have "frame {t, c, d} \<rho> (put d D' (put c C' (put t T \<rho>))) \<and> cofs t c d x y (put d D' (put c C' (put t T \<rho>))) \<and>
        mval (heap (put d D' (put c C' (put t T \<rho>))) t) = mval (heap \<rho> t) div 2" by (intro conjI)
    then show "ok (seqc (mpi_shift_r c 1) (mpi_shift_r d 1)) (put d D (put c C (put t T \<rho>)))
       (\<lambda>_ \<rho>'. frame {t, c, d} \<rho> \<rho>' \<and> cofs t c d x y \<rho>' \<and> mval (heap \<rho>' t) = mval (heap \<rho> t) div 2)"
      using ne by (simp add: ok_seqc mpi_shift_r_ok C'_def D'_def put_commute [of d c])
  qed (simp_all only: hp ev put_simps(2-4) assms simp_thms)
  then show ?thesis
    using i(1) ne by (simp add: ok_seqc ok_bindc ok_get_limb T_def [symmetric] mpi_shift_r_ok cofs_def)
qed

text \<open>The inner loops divide by the power of two in \<open>TU\<close>.\<close>

lemma inv_halve_ok:
  assumes d: "distinct [t, c, d, ta, tb]" and "oom \<rho> = []" "c < sp \<rho>" "d < sp \<rho>" "ta < sp \<rho>" "tb < sp \<rho>"
    and w: "wf (heap \<rho> ta)" "wf (heap \<rho> tb)" and xy: "mval (heap \<rho> ta) = x" "mval (heap \<rho> tb) = y" "odd x \<or> odd y"
    and i: "cofs t c d x y \<rho>" "0 < mval (heap \<rho> t)"
    and Q: "\<And>\<rho>'. frame {t, c, d} \<rho> \<rho>' \<Longrightarrow> cofs t c d x y \<rho>' \<Longrightarrow> odd (mval (heap \<rho>' t)) \<Longrightarrow> 0 < mval (heap \<rho>' t) \<Longrightarrow>
       (\<exists>k. mval (heap \<rho> t) = 2 ^ k * mval (heap \<rho>' t)) \<Longrightarrow> Q () \<rho>'"
  shows "ok (inv_halve t c d ta tb) \<rho> Q"
  unfolding inv_halve_def
proof (rule ok_whilec [where m = "\<lambda>_ \<tau>. nat (mval (heap \<tau> t))" and
      I = "\<lambda>_ \<tau>. frame {t, c, d} \<rho> \<tau> \<and> cofs t c d x y \<tau> \<and> 0 < mval (heap \<tau> t) \<and> (\<exists>k. mval (heap \<rho> t) = 2 ^ k * mval (heap \<tau> t))"])
  show "frame {t, c, d} \<rho> \<rho> \<and> cofs t c d x y \<rho> \<and> 0 < mval (heap \<rho> t) \<and> (\<exists>k. mval (heap \<rho> t) = 2 ^ k * mval (heap \<rho> t))"
    using i by (intro conjI exI [of _ 0]) simp_all
  have cond: "(case mpi_p (heap \<tau> t) of [] \<Rightarrow> None | p0 # _ \<Rightarrow> Some (p0 AND 1 = 0)) = Some (even (mval (heap \<tau> t)))"
    if "cofs t c d x y \<tau>" "0 < mval (heap \<tau> t)" for \<tau>
  proof -
    have p: "mpi_p (heap \<tau> t) \<noteq> []" using that(2) by (auto simp: mval_def)
    have "wf (heap \<tau> t)" using that(1) by (simp add: cofs_def wf_def)
    from limb0_odd [OF p this] p show ?thesis by (cases "mpi_p (heap \<tau> t)") auto
  qed
  fix v :: unit and \<tau> :: mem
  assume I: "frame {t, c, d} \<rho> \<tau> \<and> cofs t c d x y \<tau> \<and> 0 < mval (heap \<tau> t) \<and> (\<exists>k. mval (heap \<rho> t) = 2 ^ k * mval (heap \<tau> t))"
  then have f: "frame {t, c, d} \<rho> \<tau>" and co: "cofs t c d x y \<tau>" and pos: "0 < mval (heap \<tau> t)" by blast+
  obtain k where k: "mval (heap \<rho> t) = 2 ^ k * mval (heap \<tau> t)" using I by blast
  show "(case mpi_p (heap \<tau> t) of [] \<Rightarrow> None | p0 # _ \<Rightarrow> Some (p0 AND 1 = 0)) \<noteq> None" using cond [OF co pos] by simp
  show "Q v \<tau>" if "(case mpi_p (heap \<tau> t) of [] \<Rightarrow> None | p0 # _ \<Rightarrow> Some (p0 AND 1 = 0)) = Some False"
  proof -
    have "odd (mval (heap \<tau> t))" using that cond [OF co pos] by simp
    then show ?thesis using Q [OF f co _ pos] k by auto
  qed
  assume "(case mpi_p (heap \<tau> t) of [] \<Rightarrow> None | p0 # _ \<Rightarrow> Some (p0 AND 1 = 0)) = Some True"
  then have e: "even (mval (heap \<tau> t))" using cond [OF co pos] by simp
  have nt: "ta \<notin> {t, c, d}" "tb \<notin> {t, c, d}" using d by auto
  note h = frameD(1) [OF f nt(1)] frameD(1) [OF f nt(2)] frameD(2-4) [OF f]
  let ?P = "\<lambda>\<rho>'. frame {t, c, d} \<tau> \<rho>' \<and> cofs t c d x y \<rho>' \<and> mval (heap \<rho>' t) = mval (heap \<tau> t) div 2"
  have "ok (seqc (mpi_shift_r t 1)
          (bindc (get_limb c 0) (\<lambda>l1. bindc (get_limb d 0) (\<lambda>l2.
            seqc (if l1 AND 1 \<noteq> 0 \<or> l2 AND 1 \<noteq> 0
                  then seqc (mpi_add_mpi c c tb) (mpi_sub_mpi d d ta) else ret ())
              (seqc (mpi_shift_r c 1) (mpi_shift_r d 1)))))) \<tau> (\<lambda>_. ?P)"
    by (rule halve_step_ok [OF d]) (simp_all only: h assms co e simp_thms)
  then show "ok (seqc (mpi_shift_r t 1)
          (bindc (get_limb c 0) (\<lambda>l1. bindc (get_limb d 0) (\<lambda>l2.
            seqc (if l1 AND 1 \<noteq> 0 \<or> l2 AND 1 \<noteq> 0
                  then seqc (mpi_add_mpi c c tb) (mpi_sub_mpi d d ta) else ret ())
              (seqc (mpi_shift_r c 1) (mpi_shift_r d 1)))))) \<tau>
      (\<lambda>_ \<tau>'. (frame {t, c, d} \<rho> \<tau>' \<and> cofs t c d x y \<tau>' \<and> 0 < mval (heap \<tau>' t) \<and> (\<exists>k. mval (heap \<rho> t) = 2 ^ k * mval (heap \<tau>' t)))
         \<and> nat (mval (heap \<tau>' t)) < nat (mval (heap \<tau> t)))"
  proof (rule ok_mono)
    fix u :: unit and \<tau>' assume p: "?P \<tau>'"
    obtain b where b: "mval (heap \<tau> t) = 2 * b" using e by (elim evenE)
    then have b': "mval (heap \<tau>' t) = b" "0 < b" using p pos by simp_all
    have "mval (heap \<rho> t) = 2 ^ Suc k * mval (heap \<tau>' t)" using k b b' by simp
    moreover have "frame {t, c, d} \<rho> \<tau>'" using frame_trans [OF f, of "{t, c, d}" \<tau>' "{t, c, d}"] p by blast
    ultimately show "(frame {t, c, d} \<rho> \<tau>' \<and> cofs t c d x y \<tau>' \<and> 0 < mval (heap \<tau>' t) \<and> (\<exists>k. mval (heap \<rho> t) = 2 ^ k * mval (heap \<tau>' t)))
         \<and> nat (mval (heap \<tau>' t)) < nat (mval (heap \<tau> t))"
      using p b b' by (intro conjI) (blast | simp)+
  qed
qed

subsection \<open>The reduction\<close>

lemma cofs_sub_ok:
  assumes d: "distinct [t, c, d, s, p, q]" and "oom \<rho> = []" "t < sp \<rho>" "c < sp \<rho>" "d < sp \<rho>" "s < sp \<rho>" "p < sp \<rho>" "q < sp \<rho>"
    and i: "cofs t c d x y \<rho>" "cofs s p q x y \<rho>" and le: "mval (heap \<rho> s) \<le> mval (heap \<rho> t)"
  shows "ok (seqc (mpi_sub_mpi t t s) (seqc (mpi_sub_mpi c c p) (mpi_sub_mpi d d q))) \<rho>
    (\<lambda>_ \<rho>'. frame {t, c, d} \<rho> \<rho>' \<and> cofs t c d x y \<rho>' \<and> mval (heap \<rho>' t) = mval (heap \<rho> t) - mval (heap \<rho> s))"
proof -
  have wf_t: "wf (heap \<rho> t)" "wf (heap \<rho> s)" using i by (simp_all add: cofs_def wf_def)
  have ne: "t \<noteq> c" "c \<noteq> t" "t \<noteq> d" "d \<noteq> t" "c \<noteq> d" "d \<noteq> c" "p \<noteq> t" "q \<noteq> t" "p \<noteq> c" "q \<noteq> c" using d by auto
  show ?thesis unfolding ok_seqc
  proof (rule mpi_sub_mpi_ok)
    fix T assume T: "wf T" "mval T = mval (heap \<rho> t) - mval (heap \<rho> s)" "mval T = 0 \<Longrightarrow> mpi_s T = mpi_s (heap \<rho> t)"
    have T1: "mpi_s T = 1"
    proof (cases "mval T = 0")
      case True
      then show ?thesis using T(3) i(1) by (simp add: cofs_def)
    next
      case False
      then show ?thesis using T(2) le by (intro sign_pos T(1)) simp
    qed
    show "ok (mpi_sub_mpi c c p) (put t T \<rho>) (\<lambda>_ \<rho>'. ok (mpi_sub_mpi d d q) \<rho>'
      (\<lambda>_ \<rho>'. frame {t, c, d} \<rho> \<rho>' \<and> cofs t c d x y \<rho>' \<and> mval (heap \<rho>' t) = mval (heap \<rho> t) - mval (heap \<rho> s)))"
    proof (rule mpi_sub_mpi_ok)
      fix C assume C: "wf C" "mval C = mval (heap (put t T \<rho>) c) - mval (heap (put t T \<rho>) p)" "mpi_n (heap (put t T \<rho>) c) \<le> mpi_n C"
      show "ok (mpi_sub_mpi d d q) (put c C (put t T \<rho>))
        (\<lambda>_ \<rho>'. frame {t, c, d} \<rho> \<rho>' \<and> cofs t c d x y \<rho>' \<and> mval (heap \<rho>' t) = mval (heap \<rho> t) - mval (heap \<rho> s))"
      proof (rule mpi_sub_mpi_ok)
        fix D assume D: "wf D" "mval D = mval (heap (put c C (put t T \<rho>)) d) - mval (heap (put c C (put t T \<rho>)) q)"
          "mpi_n (heap (put c C (put t T \<rho>)) d) \<le> mpi_n D"
        have v: "mval C = mval (heap \<rho> c) - mval (heap \<rho> p)" "mval D = mval (heap \<rho> d) - mval (heap \<rho> q)"
          using C(2) D(2) ne by simp_all
        have n: "mpi_p C \<noteq> []" "mpi_p D \<noteq> []" using C(3) D(3) ne i(1) by (auto simp: cofs_def)
        have e: "mval (heap \<rho> t) = mval (heap \<rho> c) * x + mval (heap \<rho> d) * y" "mval (heap \<rho> s) = mval (heap \<rho> p) * x + mval (heap \<rho> q) * y"
          using i by (simp_all only: cofs_def)
        have "mval T = mval C * x + mval D * y" unfolding T(2) v e by (simp add: left_diff_distrib)
        then have "cofs t c d x y (put d D (put c C (put t T \<rho>)))" using ne C(1) D(1) n T1 by (simp add: cofs_def)
        moreover have "frame {t, c, d} \<rho> (put d D (put c C (put t T \<rho>)))" by (intro frame_put frame_refl) simp_all
        moreover have "mval (heap (put d D (put c C (put t T \<rho>))) t) = mval (heap \<rho> t) - mval (heap \<rho> s)" using ne T(2) by simp
        ultimately show "frame {t, c, d} \<rho> (put d D (put c C (put t T \<rho>))) \<and> cofs t c d x y (put d D (put c C (put t T \<rho>))) \<and>
          mval (heap (put d D (put c C (put t T \<rho>))) t) = mval (heap \<rho> t) - mval (heap \<rho> s)" by (intro conjI)
      qed (use assms ne in \<open>simp_all add: cofs_def\<close>)
    qed (use assms ne in \<open>simp_all add: cofs_def\<close>)
  qed (use assms wf_t in simp_all)
qed

lemma inv_reduce_ok:
  assumes d: "distinct [t, c, d, s, p, q]" and "oom \<rho> = []" "t < sp \<rho>" "c < sp \<rho>" "d < sp \<rho>" "s < sp \<rho>" "p < sp \<rho>" "q < sp \<rho>"
    and i: "cofs t c d x y \<rho>" "cofs s p q x y \<rho>" and pos: "0 < mval (heap \<rho> t)" "0 < mval (heap \<rho> s)"
    and Q: "\<And>\<rho>'. frame {t, c, d, s, p, q} \<rho> \<rho>' \<Longrightarrow> cofs t c d x y \<rho>' \<Longrightarrow> cofs s p q x y \<rho>' \<Longrightarrow>
       0 \<le> mval (heap \<rho>' t) \<Longrightarrow> 0 < mval (heap \<rho>' s) \<Longrightarrow>
       mval (heap \<rho>' t) + mval (heap \<rho>' s) < mval (heap \<rho> t) + mval (heap \<rho> s) \<Longrightarrow>
       gcd (mval (heap \<rho>' t)) (mval (heap \<rho>' s)) = gcd (mval (heap \<rho> t)) (mval (heap \<rho> s)) \<Longrightarrow> Q () \<rho>'"
  shows "ok (inv_reduce t c d s p q) \<rho> Q"
proof -
  have ne: "t \<notin> {s, p, q}" "c \<notin> {s, p, q}" "d \<notin> {s, p, q}" "s \<notin> {t, c, d}" "p \<notin> {t, c, d}" "q \<notin> {t, c, d}" using d by auto
  have d': "distinct [s, p, q, t, c, d]" using d by auto
  have c: "mpi_cmp_mpi (heap \<rho> t) (heap \<rho> s) = sgn (mval (heap \<rho> t) - mval (heap \<rho> s))"
    using i by (intro mpi_cmp_mpi_sgn) (simp_all add: cofs_def wf_def)
  show ?thesis
  proof (cases "mval (heap \<rho> s) \<le> mval (heap \<rho> t)")
    case True
    have "ok (seqc (mpi_sub_mpi t t s) (seqc (mpi_sub_mpi c c p) (mpi_sub_mpi d d q))) \<rho> Q"
    proof (rule ok_mono [OF cofs_sub_ok [OF d assms(2-8) i True]])
      fix u :: unit and \<rho>' assume r: "frame {t, c, d} \<rho> \<rho>' \<and> cofs t c d x y \<rho>' \<and> mval (heap \<rho>' t) = mval (heap \<rho> t) - mval (heap \<rho> s)"
      then have f: "frame {t, c, d} \<rho> \<rho>'" by blast
      have s: "heap \<rho>' s = heap \<rho> s" using frameD(1) [OF f ne(4)] .
      have "frame {t, c, d, s, p, q} \<rho> \<rho>'" by (rule frame_trans [OF f frame_refl [of "{}"]]) auto
      then show "Q u \<rho>'"
        using Q [of \<rho>'] r cofs_frame [OF i(2) f ne(4-6)] True pos s by (simp add: gcd_diff1)
    qed
    then show ?thesis using True by (simp add: inv_reduce_def wp c)
  next
    case False
    then have le: "mval (heap \<rho> t) \<le> mval (heap \<rho> s)" by simp
    have "ok (seqc (mpi_sub_mpi s s t) (seqc (mpi_sub_mpi p p c) (mpi_sub_mpi q q d))) \<rho> Q"
    proof (rule ok_mono [OF cofs_sub_ok [OF d' assms(2) assms(6-8) assms(3-5) i(2,1) le]])
      fix u :: unit and \<rho>' assume r: "frame {s, p, q} \<rho> \<rho>' \<and> cofs s p q x y \<rho>' \<and> mval (heap \<rho>' s) = mval (heap \<rho> s) - mval (heap \<rho> t)"
      then have f: "frame {s, p, q} \<rho> \<rho>'" by blast
      have s: "heap \<rho>' t = heap \<rho> t" using frameD(1) [OF f ne(1)] .
      have "frame {t, c, d, s, p, q} \<rho> \<rho>'" by (rule frame_trans [OF f frame_refl [of "{}"]]) auto
      then show "Q u \<rho>'"
        using Q [of \<rho>'] r cofs_frame [OF i(1) f ne(1-3)] False pos s gcd_diff1 [of "mval (heap \<rho> s)" "mval (heap \<rho> t)"]
        by (simp add: gcd.commute)
    qed
    then show ?thesis using False by (simp add: inv_reduce_def wp c)
  qed
qed

subsection \<open>The loops\<close>

lemma mpi_cmp_int_0_sgn: "cofs t c d x y \<tau> \<Longrightarrow> mpi_cmp_int (heap \<tau> t) 0 = Some (sgn (mval (heap \<tau> t)))"
  by (rule mpi_cmp_int_0) (simp add: cofs_def wf_def)

lemma odd_part_le: "a = 2 ^ k * b \<Longrightarrow> 0 < b \<Longrightarrow> b \<le> (a :: int)"
  using mult_right_mono [of 1 "2 ^ k" b] by simp

lemma inv_loop_ok:
  assumes d: "distinct [tu, u1, u2, tv, v1, v2, ta, tb]" and "oom \<rho> = []"
    and l: "tu < sp \<rho>" "u1 < sp \<rho>" "u2 < sp \<rho>" "tv < sp \<rho>" "v1 < sp \<rho>" "v2 < sp \<rho>" "ta < sp \<rho>" "tb < sp \<rho>"
    and w: "wf (heap \<rho> ta)" "wf (heap \<rho> tb)" and xy: "mval (heap \<rho> ta) = x" "mval (heap \<rho> tb) = y" "odd x \<or> odd y"
    and i: "cofs tu u1 u2 x y \<rho>" "cofs tv v1 v2 x y \<rho>" "0 < mval (heap \<rho> tu)" "0 < mval (heap \<rho> tv)"
      "coprime (mval (heap \<rho> tu)) (mval (heap \<rho> tv))"
    and Q: "\<And>\<rho>'. frame {tu, u1, u2, tv, v1, v2} \<rho> \<rho>' \<Longrightarrow> wf (heap \<rho>' v1) \<Longrightarrow>
       mval (heap \<rho>' v1) * x + mval (heap \<rho>' v2) * y = 1 \<Longrightarrow> Q () \<rho>'"
  shows "ok (inv_loop tu u1 u2 tv v1 v2 ta tb) \<rho> Q"
proof -
  let ?S = "{tu, u1, u2, tv, v1, v2}"
  let ?J = "\<lambda>\<tau>. frame ?S \<rho> \<tau> \<and> cofs tu u1 u2 x y \<tau> \<and> cofs tv v1 v2 x y \<tau> \<and> 0 \<le> mval (heap \<tau> tu) \<and> 0 < mval (heap \<tau> tv) \<and>
      coprime (mval (heap \<tau> tu)) (mval (heap \<tau> tv))"
  have dd: "distinct [tu, u1, u2, ta, tb]" "distinct [tv, v1, v2, ta, tb]" "distinct [tu, u1, u2, tv, v1, v2]"
    "ta \<notin> ?S" "tb \<notin> ?S" "tu \<notin> {tv, v1, v2}" "u1 \<notin> {tv, v1, v2}" "u2 \<notin> {tv, v1, v2}"
    "tv \<notin> {tu, u1, u2}" "v1 \<notin> {tu, u1, u2}" "v2 \<notin> {tu, u1, u2}" "ta \<notin> {tu, u1, u2}" "tb \<notin> {tu, u1, u2}"
    using d by auto
  have step: "ok (inv_halve tu u1 u2 ta tb) \<tau> (\<lambda>_ \<tau>'. ok (seqc (inv_halve tv v1 v2 ta tb)
          (seqc (inv_reduce tu u1 u2 tv v1 v2)
            (bindc (rd tu) (\<lambda>TU. bindc (defd (mpi_cmp_int TU 0)) (\<lambda>c. ret (c \<noteq> 0)))))) \<tau>'
         (\<lambda>more \<tau>'. (?J \<tau>' \<and> (more \<longleftrightarrow> 0 < mval (heap \<tau>' tu))) \<and>
            nat (mval (heap \<tau>' tu) + mval (heap \<tau>' tv)) < nat (mval (heap \<tau> tu) + mval (heap \<tau> tv))))"
    if J: "?J \<tau>" "0 < mval (heap \<tau> tu)" for \<tau>
  proof -
    from J(1) have f: "frame ?S \<rho> \<tau>" by blast
    note h = frameD(1) [OF f dd(4)] frameD(1) [OF f dd(5)] frameD(2-4) [OF f]
    show ?thesis
    proof (rule inv_halve_ok [OF dd(1)])
      fix \<tau>1 assume f1: "frame {tu, u1, u2} \<tau> \<tau>1" and c1: "cofs tu u1 u2 x y \<tau>1" and p1: "0 < mval (heap \<tau>1 tu)"
        and k1: "\<exists>k. mval (heap \<tau> tu) = 2 ^ k * mval (heap \<tau>1 tu)"
      note h1 = frameD(1) [OF f1 dd(12)] frameD(1) [OF f1 dd(13)] frameD(2-4) [OF f1] frameD(1) [OF f1 dd(9)]
      have c1': "cofs tv v1 v2 x y \<tau>1" using cofs_frame [OF _ f1 dd(9-11)] J(1) by blast
      show "ok (seqc (inv_halve tv v1 v2 ta tb) (seqc (inv_reduce tu u1 u2 tv v1 v2)
            (bindc (rd tu) (\<lambda>TU. bindc (defd (mpi_cmp_int TU 0)) (\<lambda>c. ret (c \<noteq> 0)))))) \<tau>1
         (\<lambda>more \<tau>'. (?J \<tau>' \<and> (more \<longleftrightarrow> 0 < mval (heap \<tau>' tu))) \<and>
            nat (mval (heap \<tau>' tu) + mval (heap \<tau>' tv)) < nat (mval (heap \<tau> tu) + mval (heap \<tau> tv)))"
        unfolding ok_seqc
      proof (rule inv_halve_ok [OF dd(2)])
        fix \<tau>2 assume f2: "frame {tv, v1, v2} \<tau>1 \<tau>2" and c2: "cofs tv v1 v2 x y \<tau>2" and p2: "0 < mval (heap \<tau>2 tv)"
          and k2: "\<exists>k. mval (heap \<tau>1 tv) = 2 ^ k * mval (heap \<tau>2 tv)"
        have c2': "cofs tu u1 u2 x y \<tau>2" using cofs_frame [OF c1 f2 dd(6-8)] .
        have e2: "heap \<tau>2 tu = heap \<tau>1 tu" using frameD(1) [OF f2 dd(6)] .
        have cop: "coprime (mval (heap \<tau>2 tu)) (mval (heap \<tau>2 tv))"
          using J(1) k1 k2 h1(6) e2 by (auto simp: coprime_mult_left_iff coprime_mult_right_iff)
        have le: "mval (heap \<tau>2 tu) \<le> mval (heap \<tau> tu)" "mval (heap \<tau>2 tv) \<le> mval (heap \<tau> tv)"
          using k1 k2 p1 p2 e2 h1(6) by (metis odd_part_le)+
        show "ok (inv_reduce tu u1 u2 tv v1 v2) \<tau>2 (\<lambda>_ \<rho>'. ok (bindc (rd tu) (\<lambda>TU. bindc (defd (mpi_cmp_int TU 0)) (\<lambda>c. ret (c \<noteq> 0)))) \<rho>'
         (\<lambda>more \<tau>'. (?J \<tau>' \<and> (more \<longleftrightarrow> 0 < mval (heap \<tau>' tu))) \<and>
            nat (mval (heap \<tau>' tu) + mval (heap \<tau>' tv)) < nat (mval (heap \<tau> tu) + mval (heap \<tau> tv))))"
        proof (rule inv_reduce_ok [OF dd(3)])
          fix \<tau>3 assume f3: "frame ?S \<tau>2 \<tau>3" and c3: "cofs tu u1 u2 x y \<tau>3" "cofs tv v1 v2 x y \<tau>3"
            and p3: "0 \<le> mval (heap \<tau>3 tu)" "0 < mval (heap \<tau>3 tv)"
            and m3: "mval (heap \<tau>3 tu) + mval (heap \<tau>3 tv) < mval (heap \<tau>2 tu) + mval (heap \<tau>2 tv)"
            and g3: "gcd (mval (heap \<tau>3 tu)) (mval (heap \<tau>3 tv)) = gcd (mval (heap \<tau>2 tu)) (mval (heap \<tau>2 tv))"
          have "frame ?S \<tau> \<tau>1" by (rule frame_trans [OF f1 frame_refl [of "{}"]]) auto
          moreover have "frame ?S \<tau>1 \<tau>2" by (rule frame_trans [OF f2 frame_refl [of "{}"]]) auto
          ultimately have "frame ?S \<rho> \<tau>3"
            by (meson f f3 frame_trans order_refl)
          moreover have "coprime (mval (heap \<tau>3 tu)) (mval (heap \<tau>3 tv))" using g3 cop by (simp add: coprime_iff_gcd_eq_1)
          moreover have "nat (mval (heap \<tau>3 tu) + mval (heap \<tau>3 tv)) < nat (mval (heap \<tau> tu) + mval (heap \<tau> tv))"
            using m3 le p3 by linarith
          ultimately show "ok (bindc (rd tu) (\<lambda>TU. bindc (defd (mpi_cmp_int TU 0)) (\<lambda>c. ret (c \<noteq> 0)))) \<tau>3
           (\<lambda>more \<tau>'. (?J \<tau>' \<and> (more \<longleftrightarrow> 0 < mval (heap \<tau>' tu))) \<and>
            nat (mval (heap \<tau>' tu) + mval (heap \<tau>' tv)) < nat (mval (heap \<tau> tu) + mval (heap \<tau> tv)))"
            using c3 p3 mpi_cmp_int_0_sgn [OF c3(1)] by (simp add: wp order_less_le)
        qed (use frameD(2,3) [OF f2] h1 h assms c2 c2' p1 p2 e2 in simp_all)
      qed (use h1 h assms c1' J(1) in simp_all)
    qed (use h assms J in simp_all)
  qed
  have "ok (whilec (\<lambda>more _. Some more)
       (\<lambda>_. seqc (inv_halve tu u1 u2 ta tb) (seqc (inv_halve tv v1 v2 ta tb)
          (seqc (inv_reduce tu u1 u2 tv v1 v2)
            (bindc (rd tu) (\<lambda>TU. bindc (defd (mpi_cmp_int TU 0)) (\<lambda>c. ret (c \<noteq> 0))))))) True) \<rho> (\<lambda>_. Q ())"
  proof (rule ok_whilec [where m = "\<lambda>_ \<tau>. nat (mval (heap \<tau> tu) + mval (heap \<tau> tv))" and
        I = "\<lambda>more \<tau>. ?J \<tau> \<and> (more \<longleftrightarrow> 0 < mval (heap \<tau> tu))"])
    fix more \<tau> assume I: "?J \<tau> \<and> (more \<longleftrightarrow> 0 < mval (heap \<tau> tu))" and "Some more = Some False"
    then have z: "mval (heap \<tau> tu) = 0" and c: "cofs tv v1 v2 x y \<tau>" by auto
    have "\<bar>mval (heap \<tau> tv)\<bar> = 1" "0 < mval (heap \<tau> tv)" using I z by simp_all
    then have "mval (heap \<tau> tv) = 1" by linarith
    then show "Q () \<tau>" using I c by (intro Q) (simp_all add: cofs_def)
  qed (use i step in \<open>simp_all add: ok_seqc\<close>)
  then show ?thesis by (simp add: inv_loop_def wp)
qed

text \<open>The final range reduction. A number that is 0 modulo \<open>N\<close> does not occur (a negative zero
  would be compared wrongly).\<close>

lemma inv_range_ok:
  assumes "v \<noteq> n" "oom \<rho> = []" "v < sp \<rho>" "n < sp \<rho>" "wf (heap \<rho> v)" "mpi_s (heap \<rho> n) = 1"
    and N: "mval (heap \<rho> n) = N" "0 < N" "\<not> N dvd mval (heap \<rho> v)"
    and Q: "\<And>V. mpi_s V = 1 \<Longrightarrow> mval V = mval (heap \<rho> v) mod N \<Longrightarrow> Q () (put v V \<rho>)"
  shows "ok (inv_range v n) \<rho> Q"
proof -
  let ?z = "mval (heap \<rho> v)"
  let ?I = "\<lambda>\<tau>. \<exists>V. \<tau> = put v V \<rho> \<and> wf V \<and> mval V mod N = ?z mod N"
  have nz: "V \<noteq> 0" if "V mod N = ?z mod N" for V using that N(3) by (auto simp: mod_eq_0_iff_dvd)
  have wn: "wf (heap \<rho> n)" using assms(6) by (simp add: wf_def)
  have "ok (whilec (\<lambda>_ \<sigma>. map_option (\<lambda>c. c < 0) (mpi_cmp_int (heap \<sigma> v) 0)) (\<lambda>_. mpi_add_mpi v v n) ()) \<rho>
    (\<lambda>_ \<tau>. ok (whilec (\<lambda>_ \<sigma>. Some (mpi_cmp_mpi (heap \<sigma> v) (heap \<sigma> n) \<ge> 0)) (\<lambda>_. mpi_sub_mpi v v n) ()) \<tau> Q)"
  proof (rule ok_whilec [where I = "\<lambda>_. ?I" and m = "\<lambda>_ \<tau>. nat (- mval (heap \<tau> v))"])
    show "?I \<rho>" using assms(5) by (intro exI [of _ "heap \<rho> v"]) simp
    fix u :: unit and \<tau> assume "?I \<tau>"
    then obtain V where V: "\<tau> = put v V \<rho>" "wf V" "mval V mod N = ?z mod N" by blast
    have c: "mpi_cmp_int (heap \<tau> v) 0 = Some (sgn (mval V))" using V mpi_cmp_int_0 [of V] by simp
    show "map_option (\<lambda>c. c < 0) (mpi_cmp_int (heap \<tau> v) 0) \<noteq> None" by (simp add: c)
    show "ok (mpi_add_mpi v v n) \<tau> (\<lambda>_ \<tau>'. ?I \<tau>' \<and> nat (- mval (heap \<tau>' v)) < nat (- mval (heap \<tau> v)))"
      if "map_option (\<lambda>c. c < 0) (mpi_cmp_int (heap \<tau> v) 0) = Some True"
    proof (rule mpi_add_mpi_ok)
      fix W assume W: "wf W" "mval W = mval (heap \<tau> v) + mval (heap \<tau> n)"
      then have w: "mval W = mval V + N" using V assms(1) N by simp
      then have "mval W mod N = ?z mod N" using V(3) by simp
      then show "?I (put v W \<tau>) \<and> nat (- mval (heap (put v W \<tau>) v)) < nat (- mval (heap \<tau> v))"
        using V W(1) w N(2) that c by auto
    qed (use assms V wn in simp_all)
    assume "map_option (\<lambda>c. c < 0) (mpi_cmp_int (heap \<tau> v) 0) = Some False"
    then have "\<not> mval V < 0" unfolding c by simp
    with nz [OF V(3)] have "0 < mval V" by linarith
    then have s: "mpi_s V = 1" by (rule sign_pos [OF V(2)])
    let ?K = "\<lambda>\<tau>. \<exists>V. \<tau> = put v V \<rho> \<and> mpi_s V = 1 \<and> 0 \<le> mval V \<and> mval V mod N = ?z mod N"
    show "ok (whilec (\<lambda>_ \<sigma>. Some (mpi_cmp_mpi (heap \<sigma> v) (heap \<sigma> n) \<ge> 0)) (\<lambda>_. mpi_sub_mpi v v n) ()) \<tau> Q"
    proof (rule ok_whilec [where I = "\<lambda>_. ?K" and m = "\<lambda>_ \<tau>. nat (mval (heap \<tau> v))"])
      show "?K \<tau>" using V s \<open>0 < mval V\<close> by auto
      fix u :: unit and \<tau> assume "?K \<tau>"
      then obtain V where V: "\<tau> = put v V \<rho>" "mpi_s V = 1" "0 \<le> mval V" "mval V mod N = ?z mod N" by blast
      have c: "mpi_cmp_mpi (heap \<tau> v) (heap \<tau> n) = sgn (mval V - N)"
        using V assms(1,6) N(1) by (subst mpi_cmp_mpi_sgn) (simp_all add: wf_def)
      show "ok (mpi_sub_mpi v v n) \<tau> (\<lambda>_ \<tau>'. ?K \<tau>' \<and> nat (mval (heap \<tau>' v)) < nat (mval (heap \<tau> v)))"
        if "Some (mpi_cmp_mpi (heap \<tau> v) (heap \<tau> n) \<ge> 0) = Some True"
      proof (rule mpi_sub_mpi_ok)
        fix W assume W: "wf W" "mval W = mval (heap \<tau> v) - mval (heap \<tau> n)" "mval W = 0 \<Longrightarrow> mpi_s W = mpi_s (heap \<tau> v)"
        then have w: "mval W = mval V - N" using V assms(1) N by simp
        then have m: "mval W mod N = ?z mod N" using V(4) by simp
        have "0 \<le> mval W" using that c w by simp
        have "heap \<tau> v = V" using V(1) by simp
        then have "mpi_s W = 1" using W(3) V(2) sign_pos [OF W(1)] \<open>0 \<le> mval W\<close> by (cases "mval W = 0") simp_all
        then show "?K (put v W \<tau>) \<and> nat (mval (heap (put v W \<tau>) v)) < nat (mval (heap \<tau> v))"
          using V(1,3) m w \<open>0 \<le> mval W\<close> N(2) by (intro conjI exI [of _ W]) simp_all
      qed (use assms V wn in \<open>simp_all add: wf_def\<close>)
      show "Q u \<tau>" if "Some (mpi_cmp_mpi (heap \<tau> v) (heap \<tau> n) \<ge> 0) = Some False"
      proof -
        have "mval V < N" using that unfolding c by simp
        then have "mval V = ?z mod N" using V(3,4) mod_pos_pos_trivial [of "mval V" N] by simp
        then show ?thesis using Q [OF V(2)] V(1) by simp
      qed
    qed simp
  qed
  then show ?thesis by (simp add: inv_range_def wp)
qed

subsection \<open>The whole function\<close>

lemma ok_seqI: "ok f \<sigma> (\<lambda>_. P) \<Longrightarrow> (\<And>\<rho>. P \<rho> \<Longrightarrow> ok g \<rho> Q) \<Longrightarrow> ok (seqc f g) \<sigma> Q"
  by (auto simp: ok_seqc intro: ok_mono)

lemma lset_01: "mval (lset_val 0 1) = 1" "mval (lset_val 0 0) = 0"
  using mval_lset_val(2) [of 0 0] mval_lset_val(2) [of 1 0] by simp_all

text \<open>The main part, on the state after \<open>mpi_mod_mpi\<close>.\<close>

lemma inv_main_ok:
  assumes "oom \<rho> = []" "x < t" "n < t" "sp \<rho> = t + 9" "mpi_s (heap \<rho> n) = 1"
    and N: "mval (heap \<rho> n) = N" "1 < N" and A: "mpi_s (heap \<rho> t) = 1" "mval (heap \<rho> t) = A" "0 < A" "coprime A N"
    and z: "\<And>k. 0 < k \<Longrightarrow> k < 9 \<Longrightarrow> k \<noteq> 4 \<Longrightarrow> heap \<rho> (t + k) = mpi_zero"
    and Q: "\<And>V \<rho>'. frame {a. t \<le> a} \<rho> \<rho>' \<Longrightarrow> mpi_s V = 1 \<Longrightarrow> 0 \<le> mval V \<Longrightarrow> mval V < N \<Longrightarrow> (mval V * A) mod N = 1 \<Longrightarrow>
      Q () (put x V \<rho>')"
  shows "ok (seqc (mpi_copy (t + 1) t) (seqc (mpi_copy (t + 5) n) (seqc (mpi_copy (t + 6) n)
                 (seqc (mpi_lset (t + 2) 1) (seqc (mpi_lset (t + 3) 0)
                   (seqc (mpi_lset (t + 7) 0) (seqc (mpi_lset (t + 8) 1)
                     (seqc (inv_loop (t + 1) (t + 2) (t + 3) (t + 6) (t + 7) (t + 8) t (t + 5))
                       (seqc (inv_range (t + 7) n) (mpi_copy x (t + 7)))))))))))
     \<rho> Q"
proof -
  define \<rho>1 where "\<rho>1 = put (t + 8) (lset_val 0 1) (put (t + 7) (lset_val 0 0) (put (t + 3) (lset_val 0 0) (put (t + 2) (lset_val 0 1)
     (put (t + 6) (copied mpi_zero (heap \<rho> n)) (put (t + 5) (copied mpi_zero (heap \<rho> n)) (put (t + 1) (copied mpi_zero (heap \<rho> t)) \<rho>))))))"
  have h: "heap \<rho>1 t = heap \<rho> t" "heap \<rho>1 n = heap \<rho> n" "heap \<rho>1 (t + 1) = copied mpi_zero (heap \<rho> t)"
    "heap \<rho>1 (t + 5) = copied mpi_zero (heap \<rho> n)" "heap \<rho>1 (t + 6) = copied mpi_zero (heap \<rho> n)"
    "heap \<rho>1 (t + 2) = lset_val 0 1" "heap \<rho>1 (t + 3) = lset_val 0 0" "heap \<rho>1 (t + 7) = lset_val 0 0" "heap \<rho>1 (t + 8) = lset_val 0 1"
    "sp \<rho>1 = t + 9" "oom \<rho>1 = []" "rng \<rho>1 = rng \<rho>"
    using assms(1-4) by (simp_all add: \<rho>1_def)
  have f1: "frame {a. t \<le> a} \<rho> \<rho>1" unfolding \<rho>1_def by (intro frame_put frame_refl) simp_all
  have odd: "odd A \<or> odd N" using A(4) by (auto elim!: evenE)
  have c: "cofs (t + 1) (t + 2) (t + 3) A N \<rho>1" "cofs (t + 6) (t + 7) (t + 8) A N \<rho>1"
    unfolding cofs_def h using A N assms(5) by (simp_all add: lset_01)
  have "ok (inv_loop (t + 1) (t + 2) (t + 3) (t + 6) (t + 7) (t + 8) t (t + 5)) \<rho>1
     (\<lambda>_ \<rho>'. ok (inv_range (t + 7) n) \<rho>' (\<lambda>_ \<tau>. ok (mpi_copy x (t + 7)) \<tau> Q))"
  proof (rule inv_loop_ok)
    fix \<rho>' assume f: "frame {t + 1, t + 2, t + 3, t + 6, t + 7, t + 8} \<rho>1 \<rho>'" and w: "wf (heap \<rho>' (t + 7))"
      and e: "mval (heap \<rho>' (t + 7)) * A + mval (heap \<rho>' (t + 8)) * N = 1"
    have hn: "heap \<rho>' n = heap \<rho> n" using frameD(1) [OF f, of n] assms(3) h by simp
    have ef: "mval (heap \<rho>' (t + 7)) * A mod N = 1"
    proof -
      have "mval (heap \<rho>' (t + 7)) * A = 1 + N * - mval (heap \<rho>' (t + 8))" using e by (simp add: algebra_simps)
      then show ?thesis using N(2) by (simp only: mod_mult_self2) simp
    qed
    have nd: "\<not> N dvd mval (heap \<rho>' (t + 7))"
    proof
      assume "N dvd mval (heap \<rho>' (t + 7))"
      then have "N dvd mval (heap \<rho>' (t + 7)) * A" by simp
      then show False using ef by simp
    qed
    show "ok (inv_range (t + 7) n) \<rho>' (\<lambda>_ \<tau>. ok (mpi_copy x (t + 7)) \<tau> Q)"
    proof (rule inv_range_ok)
      fix V assume V: "mpi_s V = 1" "mval V = mval (heap \<rho>' (t + 7)) mod N"
      have "frame {a. t \<le> a} \<rho>1 \<rho>'" by (rule frame_trans [OF f frame_refl [of "{}"]]) auto
      then have "frame {a. t \<le> a} \<rho> \<rho>'" by (rule frame_trans [OF f1]) simp_all
      then have f': "frame {a. t \<le> a} \<rho> (put (t + 7) V \<rho>')" by (rule frame_put) simp
      have "Q () (put x (copied (heap \<rho>' x) V) (put (t + 7) V \<rho>'))"
        using N(2) V ef by (intro Q [OF f']) (simp_all add: mod_mult_left_eq)
      then show "ok (mpi_copy x (t + 7)) (put (t + 7) V \<rho>') Q"
        using assms(2) frameD(3) [OF f] h by (simp add: wp)
    qed (use assms frameD(2,3) [OF f] h hn w nd in simp_all)
  qed (use c A N assms h odd in \<open>simp_all add: wf_def\<close>)
  then show ?thesis
    using assms(1-4) z [of 1] z [of 2] z [of 3] z [of 5] z [of 6] z [of 7] z [of 8]
    by (simp add: wp \<rho>1_def)
qed

context digit_estimate
begin

lemma mpi_inv_mod_ok:
  assumes "oom \<sigma> = []" "x < sp \<sigma>" "a < sp \<sigma>" "n < sp \<sigma>" "wf (heap \<sigma> a)" "mpi_s (heap \<sigma> n) = 1"
    and N: "mval (heap \<sigma> n) = N" "1 < N" "coprime (mval (heap \<sigma> a)) N" "div_safe safe N"
    and Q: "\<And>v. mpi_s v = 1 \<Longrightarrow> 0 \<le> mval v \<Longrightarrow> mval v < N \<Longrightarrow> (mval v * mval (heap \<sigma> a)) mod N = 1 \<Longrightarrow> Q () (put x v \<sigma>)"
  shows "ok (mpi_inv_mod qhat x a n) \<sigma> Q"
proof -
  define t where "t = sp \<sigma>"
  let ?A = "mval (heap \<sigma> a)"
  have nN: "nval (mpi_p (heap \<sigma> n)) = N" using N(1) assms(6) by (simp add: mval_def)
  have wn: "wf (heap \<sigma> n)" using assms(6) by (simp add: wf_def)
  have c0: "mpi_cmp_int (heap \<sigma> n) 0 = Some 1" using mpi_cmp_int_0 [OF wn] N by simp
  have a0: "?A \<noteq> 0" using N(2,3) by auto
  let ?main = "seqc (mpi_copy (t + 1) t) (seqc (mpi_copy (t + 5) n) (seqc (mpi_copy (t + 6) n)
                 (seqc (mpi_lset (t + 2) 1) (seqc (mpi_lset (t + 3) 0)
                   (seqc (mpi_lset (t + 7) 0) (seqc (mpi_lset (t + 8) 1)
                     (seqc (inv_loop (t + 1) (t + 2) (t + 3) (t + 6) (t + 7) (t + 8) t (t + 5))
                       (seqc (inv_range (t + 7) n) (mpi_copy x (t + 7))))))))))"
  have "ok (seqc (mpi_gcd (t + 4) a n) (bindc (rd (t + 4)) (\<lambda>G. bindc (defd (mpi_cmp_int G 1)) (\<lambda>c.
             if c \<noteq> 0 then throw POLARSSL_ERR_MPI_NOT_ACCEPTABLE else seqc (mpi_mod_mpi qhat t a n) ?main))))
      (enter 9 \<sigma>) (\<lambda>_ \<sigma>'. Q () (leave \<sigma> \<sigma>'))"
  proof (rule ok_seqI)
    show "ok (mpi_gcd (t + 4) a n) (enter 9 \<sigma>) (\<lambda>_ \<rho>. \<exists>G. \<rho> = put (t + 4) G (enter 9 \<sigma>) \<and> mpi_s G = 1 \<and> mval G = 1)"
    proof (rule mpi_gcd_ok)
      fix G :: mpi assume G: "mpi_s G = 1"
        "nval (mpi_p G) = gcd (nval (mpi_p (heap (enter 9 \<sigma>) a))) (nval (mpi_p (heap (enter 9 \<sigma>) n)))"
      have "gcd (nval (mpi_p (heap \<sigma> a))) N = gcd ?A N" using assms(5) by (auto simp: mval_def wf_def)
      then have "mval G = 1" using G N(3) assms(3,4) nN by (simp add: mval_def coprime_iff_gcd_eq_1)
      then show "\<exists>G'. put (t + 4) G (enter 9 \<sigma>) = put (t + 4) G' (enter 9 \<sigma>) \<and> mpi_s G' = 1 \<and> mval G' = 1" using G(1) by blast
    qed (use assms nN in \<open>simp_all add: t_def\<close>)
    fix \<rho> assume "\<exists>G. \<rho> = put (t + 4) G (enter 9 \<sigma>) \<and> mpi_s G = 1 \<and> mval G = 1"
    then obtain G where G: "\<rho> = put (t + 4) G (enter 9 \<sigma>)" "mpi_s G = 1" "mval G = 1" by blast
    have "ok (seqc (mpi_mod_mpi qhat t a n) ?main) \<rho> (\<lambda>_ \<sigma>'. Q () (leave \<sigma> \<sigma>'))"
    proof (rule ok_seqI)
      show "ok (mpi_mod_mpi qhat t a n) \<rho> (\<lambda>_ \<tau>. \<exists>V. \<tau> = put t V \<rho> \<and> mpi_s V = 1 \<and> nval (mpi_p V) = ?A mod N)"
        by (rule mpi_mod_mpi_ok) (use assms a0 G(1) wn in \<open>auto simp: t_def\<close>)
      fix \<tau> assume "\<exists>V. \<tau> = put t V \<rho> \<and> mpi_s V = 1 \<and> nval (mpi_p V) = ?A mod N"
      then obtain V where V: "\<tau> = put t V \<rho>" "mpi_s V = 1" "mval V = ?A mod N" by (auto simp: mval_def)
      have cop: "coprime (?A mod N) N" using N(2,3) by simp
      then have "?A mod N \<noteq> 0" using N(2) by auto
      then have pos: "0 < ?A mod N" using N(2) pos_mod_sign [of N ?A] by linarith
      show "ok ?main \<tau> (\<lambda>_ \<sigma>'. Q () (leave \<sigma> \<sigma>'))"
      proof (rule inv_main_ok [where N = N and A = "?A mod N"])
        fix V' :: mpi and \<rho>' assume f: "frame {a. t \<le> a} \<tau> \<rho>'" and V': "mpi_s V' = 1" "0 \<le> mval V'" "mval V' < N" "(mval V' * (?A mod N)) mod N = 1"
        have "frame {a. sp \<sigma> \<le> a} (enter 9 \<sigma>) \<tau>" unfolding V(1) G(1) by (intro frame_put frame_refl) (simp_all add: t_def)
        then have "frame {a. sp \<sigma> \<le> a} (enter 9 \<sigma>) \<rho>'" by (rule frame_trans [OF _ f]) (simp_all add: t_def)
        then have "leave \<sigma> \<rho>' = \<sigma>" by (rule leave_frame)
        moreover have "Q () (put x V' \<sigma>)" using V' by (intro Q) (simp_all add: mod_mult_right_eq)
        ultimately show "Q () (leave \<sigma> (put x V' \<rho>'))" using assms(2) by simp
      qed (use assms G(1) V cop pos in \<open>simp_all add: t_def\<close>)
    qed
    moreover have "mpi_cmp_int G 1 = Some 0" using mpi_cmp_int_pos [of G 1] G by simp
    ultimately show "ok (bindc (rd (t + 4)) (\<lambda>G. bindc (defd (mpi_cmp_int G 1)) (\<lambda>c.
             if c \<noteq> 0 then throw POLARSSL_ERR_MPI_NOT_ACCEPTABLE else seqc (mpi_mod_mpi qhat t a n) ?main))) \<rho>
        (\<lambda>_ \<sigma>'. Q () (leave \<sigma> \<sigma>'))"
      by (simp add: ok_bindc ok_rd ok_defd G(1))
  qed
  then show ?thesis
    unfolding mpi_inv_mod_def Let_def ok_bindc [of "rd n"] ok_rd t_def
    by (simp add: c0 ok_bindc [of "defd (Some 1)"] ok_defd ok_locals)
qed

end

text \<open>A number that has no inverse.\<close>

lemma mpi_inv_mod_not_coprime:
  assumes "oom \<sigma> = []" "a < sp \<sigma>" "n < sp \<sigma>" "wf (heap \<sigma> a)" "mpi_s (heap \<sigma> n) = 1"
    and N: "0 < mval (heap \<sigma> n)" "\<not> coprime (mval (heap \<sigma> a)) (mval (heap \<sigma> n))"
  shows "mpi_inv_mod qhat x a n \<sigma> = Some (Inl POLARSSL_ERR_MPI_NOT_ACCEPTABLE, \<sigma>)"
proof -
  let ?g = "gcd (mval (heap \<sigma> a)) (mval (heap \<sigma> n))"
  have nN: "nval (mpi_p (heap \<sigma> n)) = mval (heap \<sigma> n)" using assms(5) by (simp add: mval_def)
  have "ok (mpi_gcd (sp \<sigma> + 4) a n) (enter 9 \<sigma>) (\<lambda>_ \<rho>. \<exists>G. \<rho> = put (sp \<sigma> + 4) G (enter 9 \<sigma>) \<and> mpi_s G = 1 \<and> mval G = ?g)"
  proof (rule mpi_gcd_ok)
    fix G :: mpi assume G: "mpi_s G = 1"
      "nval (mpi_p G) = gcd (nval (mpi_p (heap (enter 9 \<sigma>) a))) (nval (mpi_p (heap (enter 9 \<sigma>) n)))"
    have "gcd (nval (mpi_p (heap \<sigma> a))) (mval (heap \<sigma> n)) = ?g" using assms(4) by (auto simp: mval_def wf_def)
    then have "mval G = ?g" using G assms(2,3) nN by (simp add: mval_def [of G])
    then show "\<exists>G'. put (sp \<sigma> + 4) G (enter 9 \<sigma>) = put (sp \<sigma> + 4) G' (enter 9 \<sigma>) \<and> mpi_s G' = 1 \<and> mval G' = ?g" using G(1) by blast
  qed (use assms nN in simp_all)
  then obtain G where G: "mpi_gcd (sp \<sigma> + 4) a n (enter 9 \<sigma>) = Some (Inr (), put (sp \<sigma> + 4) G (enter 9 \<sigma>))"
    "mpi_s G = 1" "mval G = ?g" unfolding ok_def by (elim exE conjE) simp
  have "mpi_cmp_int G 1 = Some (sgn (?g - 1))" using mpi_cmp_int_pos [of G 1] G(2,3) by simp
  moreover have "?g \<noteq> 1" using N(2) by (simp add: coprime_iff_gcd_eq_1)
  moreover have "mpi_cmp_int (heap \<sigma> n) 0 = Some 1" using mpi_cmp_int_0 [of "heap \<sigma> n"] assms(5) N(1) by (simp add: wf_def)
  ultimately show ?thesis
    by (simp add: mpi_inv_mod_def bindc_def rd_def defd_def locals_def seqc_def throw_def Let_def G(1) sgn_eq_0_iff)
qed

lemma mpi_inv_mod_bad_modulus:
  assumes "wf (heap \<sigma> n)" "mval (heap \<sigma> n) \<le> 0"
  shows "mpi_inv_mod qhat x a n \<sigma> = Some (Inl POLARSSL_ERR_MPI_BAD_INPUT_DATA, \<sigma>)"
  using assms by (simp add: mpi_inv_mod_def bindc_def rd_def defd_def throw_def mpi_cmp_int_0)

end
