(* ===== verification/Mpi_Digits.thy ===== *)
theory Mpi_Digits
  imports Mpi_Inv_Correct
begin

text \<open>
  When the quotient digits of the long division are exact. The program is built without
  \<open>POLARSSL_HAVE_LONGLONG\<close>, so \<open>mpi_div_mpi\<close> uses \<open>qhat_generic\<close>, whose digits are exact when the top
  63 bits of the divisor do not end in the half-limb \<open>0xFFFFFFFE\<close> or \<open>0xFFFFFFFF\<close>. In a build with it the
  digits of \<open>qhat_longlong\<close> are exact for every divisor. \<open>exact_digits qhat B\<close> covers both builds, and every
  theorem on a function that divides by \<open>B\<close> has it as a hypothesis.
\<close>

definition exact_digits :: "(t_int \<Rightarrow> t_int \<Rightarrow> t_int \<Rightarrow> t_int option) \<Rightarrow> int \<Rightarrow> bool" where
  "exact_digits qhat B \<longleftrightarrow> qhat = qhat_generic \<and> div_safe udiv_safe B \<or> qhat = qhat_longlong"

lemma exact_digits_longlong [simp]: "exact_digits qhat_longlong B"
  by (simp add: exact_digits_def)

lemma exact_digits_generic: "div_safe udiv_safe B \<Longrightarrow> exact_digits qhat_generic B"
  by (simp add: exact_digits_def)

text \<open>In either build the digit satisfies the contract of the division.\<close>

lemma exact_digits_estimate:
  assumes "exact_digits qhat B"
  obtains safe where "digit_estimate qhat safe" "div_safe safe B"
proof (cases "qhat = qhat_longlong")
  case True
  have "digit_estimate qhat (\<lambda>_. True)" unfolding True by (rule qhat_ll.digit_estimate_axioms)
  then show ?thesis by (rule that) (simp add: div_safe_def)
next
  case False
  then have g: "qhat = qhat_generic" "div_safe udiv_safe B" using assms by (auto simp: exact_digits_def)
  have "digit_estimate qhat udiv_safe" unfolding g(1) by (rule qhat_gen.digit_estimate_axioms)
  then show ?thesis using g(2) by (rule that)
qed

text \<open>Divisors of at most 31 bits are safe: their top 63 bits end in a zero half-limb.\<close>

lemma div_safe_small:
  assumes "0 < B" "B < 2 ^ 31"
  shows "div_safe udiv_safe B"
proof -
  define e where "e = floorlog 2 (nat B)"
  have e: "e \<le> 31"
  proof -
    have "floorlog 2 (nat B) \<le> 31" using assms by (simp add: floorlog_le_iff nat_less_iff)
    then show ?thesis by (simp add: e_def)
  qed
  have "B * 2 ^ 63 = (B * 2 ^ (31 - e) * 2 ^ 32) * 2 ^ e"
    using e by (simp only: mult.assoc power_add [symmetric]) simp
  then have d: "B * 2 ^ 63 div 2 ^ e = B * 2 ^ (31 - e) * 2 ^ 32"
    by (simp only: nonzero_mult_div_cancel_right power_not_zero zero_neq_numeral [symmetric] not_False_eq_True)
  have "uint (word_of_int (B * 2 ^ (31 - e) * 2 ^ 32) :: t_int) mod 2 ^ 32 = B * 2 ^ (31 - e) * 2 ^ 32 mod 2 ^ 64 mod 2 ^ 32"
    by (simp only: uint_word_of_int) simp
  also have "\<dots> = 0" by (subst mod_mod_cancel) simp_all
  finally show ?thesis unfolding div_safe_def udiv_safe_def e_def [symmetric] d by simp
qed

text \<open>How the condition is checked for a concrete divisor, of \<open>e\<close> bits.\<close>

lemma div_safe_check:
  assumes "2 ^ (e - 1) \<le> B \<and> B < 2 ^ e" "0 < e" "(B * 2 ^ 63 div 2 ^ e) mod 2 ^ 64 mod 2 ^ 32 < 2 ^ 32 - 2"
  shows "div_safe udiv_safe B"
  unfolding div_safe_def udiv_safe_def floorlog_unique [OF assms(1,2)]
  using assms(3) by (simp only: uint_word_of_int) simp

end
