(* ===== verification/Mpi_Correct.thy ===== *)
theory Mpi_Correct
  imports Mpi_Digits
begin

text \<open>
  The arithmetic of \<open>bignum.c\<close> as results of whole calls. A call succeeds when no
  allocation fails (\<open>oom \<sigma> = []\<close>): it returns 0, writes only the result operand, and the
  value written is the exact integer.
\<close>

subsection \<open>Concrete stores for the witnesses\<close>

definition store_of :: "mpi list \<Rightarrow> mem" where
  "store_of vs = \<lparr>heap = (\<lambda>a. if a < length vs then vs ! a else mpi_zero), sp = length vs,
     oom = [], rng = (\<lambda>_. 0)\<rparr>"

definition small :: "int \<Rightarrow> mpi" where
  "small z = \<lparr>mpi_s = int_sign z, mpi_p = [word_of_int \<bar>z\<bar>]\<rparr>"

lemma store_of_simps [simp]:
  "heap (store_of vs) a = (if a < length vs then vs ! a else mpi_zero)"
  "sp (store_of vs) = length vs" "oom (store_of vs) = []"
  by (simp_all add: store_of_def)

lemma small_simps [simp]:
  "mpi_s (small z) = int_sign z" "mpi_p (small z) = [word_of_int \<bar>z\<bar>]" "wf (small z)"
  "- (2 ^ 31) < z \<Longrightarrow> z < 2 ^ 31 \<Longrightarrow> mval (small z) = z"
  using int_mpi_val [of z] by (simp_all add: small_def wf_def int_sign_def)

text \<open>From a triple to the result of the call.\<close>

lemma run_put:
  assumes "ok f \<sigma> (\<lambda>_ \<sigma>'. \<exists>v. \<sigma>' = put x v \<sigma> \<and> P v)"
  shows "\<exists>v. f \<sigma> = Some (Inr (), put x v \<sigma>) \<and> P v"
  using assms by (auto simp: ok_def)

subsection \<open>Addition, subtraction, multiplication\<close>

text \<open>C3: \<open>mpi_add_mpi\<close> computes the exact sum for every aliasing of its operands except \<open>X == A == B\<close>.\<close>

theorem mpi_add_mpi_correct:
  assumes "oom \<sigma> = []" "x < sp \<sigma>" "a < sp \<sigma>" "b < sp \<sigma>" "wf (heap \<sigma> a)" "wf (heap \<sigma> b)"
    and "\<not> (x = a \<and> x = b)"
  shows "\<exists>v. mpi_add_mpi x a b \<sigma> = Some (Inr (), put x v \<sigma>) \<and> wf v \<and>
           mval v = mval (heap \<sigma> a) + mval (heap \<sigma> b)"
  using mpi_add_mpi_ok [of \<sigma> x a b "\<lambda>_ \<sigma>'. \<exists>v. \<sigma>' = put x v \<sigma> \<and> wf v \<and>
           mval v = mval (heap \<sigma> a) + mval (heap \<sigma> b)"] assms
  by (auto simp: ok_def)

theorem mpi_add_mpi_correct_witness:
  "\<exists>v. mpi_add_mpi 0 0 1 (store_of [small (- 7), small 12]) =
     Some (Inr (), put 0 v (store_of [small (- 7), small 12])) \<and> wf v \<and> mval v = 5"
  using mpi_add_mpi_correct [of "store_of [small (- 7), small 12]" 0 0 1] by simp

text \<open>\<open>mpi_sub_mpi\<close> computes the exact difference for every aliasing of its operands.\<close>

theorem mpi_sub_mpi_correct:
  assumes "oom \<sigma> = []" "x < sp \<sigma>" "a < sp \<sigma>" "b < sp \<sigma>" "wf (heap \<sigma> a)" "wf (heap \<sigma> b)"
  shows "\<exists>v. mpi_sub_mpi x a b \<sigma> = Some (Inr (), put x v \<sigma>) \<and> wf v \<and>
           mval v = mval (heap \<sigma> a) - mval (heap \<sigma> b)"
  by (rule run_put, rule mpi_sub_mpi_ok) (use assms in blast)+

theorem mpi_sub_mpi_correct_witness:
  "\<exists>v. mpi_sub_mpi 1 0 1 (store_of [small (- 7), small 12]) =
     Some (Inr (), put 1 v (store_of [small (- 7), small 12])) \<and> wf v \<and> mval v = - 19"
  using mpi_sub_mpi_correct [of "store_of [small (- 7), small 12]" 1 0 1] by simp

text \<open>C4: \<open>mpi_mul_mpi\<close> computes the exact product for every aliasing of its operands.\<close>

theorem mpi_mul_mpi_correct:
  assumes "oom \<sigma> = []" "x < sp \<sigma>" "a < sp \<sigma>" "b < sp \<sigma>" "wf (heap \<sigma> a)" "wf (heap \<sigma> b)"
  shows "\<exists>v. mpi_mul_mpi x a b \<sigma> = Some (Inr (), put x v \<sigma>) \<and> wf v \<and>
           mval v = mval (heap \<sigma> a) * mval (heap \<sigma> b)"
  by (rule run_put, rule mpi_mul_mpi_ok) (use assms in \<open>auto simp: wf_def mval_def\<close>)

theorem mpi_mul_mpi_correct_witness:
  "\<exists>v. mpi_mul_mpi 0 0 1 (store_of [small (- 7), small 12]) =
     Some (Inr (), put 0 v (store_of [small (- 7), small 12])) \<and> wf v \<and> mval v = - 84"
  using mpi_mul_mpi_correct [of "store_of [small (- 7), small 12]" 0 0 1] by simp

subsection \<open>Division\<close>



text \<open>the two ways to compute a quotient digit agree on every normalised divisor that is
  \<open>udiv_safe\<close>: the half-limb algorithm of the portable build is the double-limb division.\<close>

theorem qhat_generic_longlong:
  assumes "udiv_safe d" "2 ^ 62 \<le> uint d" "uint d < 2 ^ 63" "uint xi < uint d"
  shows "\<exists>q. qhat_generic d xi xi1 = Some q \<and> qhat_longlong d xi xi1 = Some q \<and>
           uint q = (uint xi * 2 ^ 64 + uint xi1) div uint d"
proof -
  obtain p q where pq: "qhat_generic d xi xi1 = Some p" "uint p = (uint xi * BB + uint xi1) div uint d"
    "qhat_longlong d xi xi1 = Some q" "uint q = (uint xi * BB + uint xi1) div uint d"
    using qhat_gen.qhat_exact [OF assms, of xi1] qhat_ll.qhat_exact [OF _ assms(2-4), of xi1] by auto
  then have "p = q" by (simp add: word_uint_eq_iff)
  then show ?thesis using pq by (auto simp: BB_eq)
qed

theorem qhat_generic_longlong_witness:
  "\<exists>q. qhat_generic 0x5000000000000003 7 9 = Some q \<and> qhat_longlong 0x5000000000000003 7 9 = Some q \<and>
     uint q = (7 * 2 ^ 64 + 9) div 0x5000000000000003"
  using qhat_generic_longlong [of "0x5000000000000003" 7 9] by (simp add: udiv_safe_def)

text \<open>\<open>mpi_mod_mpi\<close> writes the mathematical residue, non-negative for every sign of \<open>A\<close>.\<close>

theorem mpi_mod_mpi_correct:
  assumes "oom \<sigma> = []" "r < sp \<sigma>" "a < sp \<sigma>" "b < sp \<sigma>" "r \<noteq> b" "r \<noteq> a"
    and "wf (heap \<sigma> a)" "mval (heap \<sigma> a) \<noteq> 0" "wf (heap \<sigma> b)" "0 < mval (heap \<sigma> b)"
    and digits: "exact_digits qhat (mval (heap \<sigma> b))"
  shows "\<exists>v. mpi_mod_mpi qhat r a b \<sigma> = Some (Inr (), put r v \<sigma>) \<and>
           wf v \<and> mval v = mval (heap \<sigma> a) mod mval (heap \<sigma> b)"
proof -
  obtain safe where safe: "digit_estimate qhat safe" "div_safe safe (mval (heap \<sigma> b))" using digits by (rule exact_digits_estimate)
  show ?thesis
    by (rule run_put, rule digit_estimate.mpi_mod_mpi_ok [OF safe(1)]) (use assms safe(2) in \<open>auto simp: wf_def mval_def\<close>)
qed

theorem mpi_mod_mpi_correct_witness:
  "\<exists>v. mpi_mod_mpi qhat_generic 0 1 2 (store_of [mpi_zero, small (- 7), small 3]) =
     Some (Inr (), put 0 v (store_of [mpi_zero, small (- 7), small 3])) \<and> wf v \<and> mval v = 2"
  using mpi_mod_mpi_correct [of "store_of [mpi_zero, small (- 7), small 3]" 0 1 2 qhat_generic]
    exact_digits_generic [OF div_safe_small [of 3]] by (simp add: numeral_nat)

text \<open>C40: \<open>mpi_mod_int\<close> returns the residue of \<open>A\<close>, for every sign of \<open>A\<close>, below the divisor.\<close>

theorem mpi_mod_int_correct:
  assumes "wf A" "mpi_p A \<noteq> []" "0 < b" "b < 2 ^ 31"
  shows "\<exists>w. mpi_mod_int A b = Some (Inr w) \<and> uint w = mval A mod b \<and> uint w < b"
  using mpi_mod_int_spec [OF assms(1,3,4,2)] assms(3) by (metis pos_mod_bound)

theorem mpi_mod_int_correct_witness:
  "\<exists>w. mpi_mod_int (small (- 1000)) 7 = Some (Inr w) \<and> uint w = 1 \<and> uint w < 7"
  using mpi_mod_int_correct [of "small (- 1000)" 7] by simp

text \<open>division and modulus report their domain errors and change nothing: a zero divisor
  gives 12, a negative modulus 10.\<close>

theorem division_errors:
  assumes "wf (heap \<sigma> b)"
  shows "(mval (heap \<sigma> b) = 0 \<longrightarrow> mpi_div_mpi qhat q r a b \<sigma> = Some (Inl 12, \<sigma>)) \<and>
    (mval (heap \<sigma> b) < 0 \<longrightarrow> mpi_mod_mpi qhat r' a b \<sigma> = Some (Inl 10, \<sigma>))"
  using assms
  by (simp add: mpi_div_mpi_def mpi_mod_mpi_def bindc_def rd_def defd_def throw_def mpi_cmp_int_0)

theorem division_errors_witness:
  "mpi_div_mpi qhat_generic None (Some 0) 1 2 (store_of [mpi_zero, small 5, small 0]) =
     Some (Inl 12, store_of [mpi_zero, small 5, small 0]) \<and>
   mpi_mod_mpi qhat_generic 0 1 2 (store_of [mpi_zero, small 5, small (- 1)]) =
     Some (Inl 10, store_of [mpi_zero, small 5, small (- 1)])"
  using division_errors [of "store_of [mpi_zero, small 5, small 0]" 2 qhat_generic None "Some 0" 1 0]
    division_errors [of "store_of [mpi_zero, small 5, small (- 1)]" 2 qhat_generic None "Some 0" 1 0]
  by (simp add: numeral_nat)

subsection \<open>Modular exponentiation\<close>

text \<open>C1: For an odd positive modulus and a base that is not negative \<open>mpi_exp_mod\<close> computes \<open>A ^ |E| mod N\<close>, also when the result
  overwrites the base, and leaves in the caller's cache the constant \<open>R * R mod N\<close> of this modulus, which a
  later call with the same modulus may reuse; the cache has to be empty before or hold this constant. This is so with the half-limb quotient
  digit of the program's build for every modulus whose top 63 bits do not end in \<open>0xFFFFFFFE\<close> or \<open>0xFFFFFFFF\<close>, and
  with the double-limb digit for every modulus. No allocation fails.\<close>

theorem mpi_exp_mod_correct:
  assumes "oom \<sigma> = []" "x < sp \<sigma>" "a < sp \<sigma>" "e < sp \<sigma>" "n < sp \<sigma>" "c < sp \<sigma>"
    and "x \<noteq> n" "x \<noteq> e" "c \<notin> {n, x, a, e}"
    and "mpi_s (heap \<sigma> n) = 1" "odd (mval (heap \<sigma> n))" "mpi_s (heap \<sigma> a) = 1" "wf (heap \<sigma> e)" "mpi_p (heap \<sigma> e) \<noteq> []"
    and "mpi_p (heap \<sigma> c) = [] \<or> mpi_s (heap \<sigma> c) = 1 \<and>
       mval (heap \<sigma> c) = (BB ^ mpi_n (heap \<sigma> n) * BB ^ mpi_n (heap \<sigma> n)) mod mval (heap \<sigma> n)"
    and digits: "exact_digits qhat (mval (heap \<sigma> n))"
  shows "\<exists>v vc. mpi_exp_mod qhat x a e n (Some c) \<sigma> = Some (Inr (), put c vc (put x v \<sigma>)) \<and>
           mpi_s v = 1 \<and> mval v = mval (heap \<sigma> a) ^ nat \<bar>mval (heap \<sigma> e)\<bar> mod mval (heap \<sigma> n) \<and>
           mpi_s vc = 1 \<and> mpi_p vc \<noteq> [] \<and>
           mval vc = (BB ^ mpi_n (heap \<sigma> n) * BB ^ mpi_n (heap \<sigma> n)) mod mval (heap \<sigma> n)"
proof -
  have n: "nval (mpi_p (heap \<sigma> n)) = mval (heap \<sigma> n)" using assms(10) by (simp add: mval_def)
  obtain safe where safe: "digit_estimate qhat safe" "div_safe safe (mval (heap \<sigma> n))" using digits by (rule exact_digits_estimate)
  have m: "mag (heap \<sigma> e) = nat \<bar>mval (heap \<sigma> e)\<bar>" using assms(13) by (auto simp: mag_def mval_def wf_def)
  have "ok (mpi_exp_mod qhat x a e n (Some c)) \<sigma> (\<lambda>_ \<sigma>'. \<exists>v vc. \<sigma>' = put c vc (put x v \<sigma>) \<and>
      mpi_s v = 1 \<and> nval (mpi_p v) = mval (heap \<sigma> a) ^ mag (heap \<sigma> e) mod mval (heap \<sigma> n) \<and> mpi_s vc = 1 \<and> mpi_p vc \<noteq> [] \<and>
      nval (mpi_p vc) = (BB ^ mpi_n (heap \<sigma> n) * BB ^ mpi_n (heap \<sigma> n)) mod mval (heap \<sigma> n))"
  proof (rule digit_estimate.mpi_exp_mod_ok [OF safe(1)])
    show "odd (nval (mpi_p (heap \<sigma> n)))" unfolding n by fact
    show "div_safe safe (nval (mpi_p (heap \<sigma> n)))" unfolding n by (rule safe(2))
    fix c' assume "Some c = Some c'" "mpi_p (heap \<sigma> c') \<noteq> []"
    then have c: "c' = c" "mpi_p (heap \<sigma> c) \<noteq> []" by simp_all
    then have "mpi_s (heap \<sigma> c) = 1" using assms(15) by blast
    moreover from this have "nval (mpi_p (heap \<sigma> c)) = mval (heap \<sigma> c)" by (simp add: mval_def)
    ultimately show "mpi_s (heap \<sigma> c') = 1 \<and> nval (mpi_p (heap \<sigma> c')) =
        (BB ^ mpi_n (heap \<sigma> n) * BB ^ mpi_n (heap \<sigma> n)) mod nval (mpi_p (heap \<sigma> n))"
      unfolding n c(1) using assms(15) c(2) by (simp only:) blast
  qed (use assms in \<open>simp_all only: option.inject put_opt_simps n, blast+\<close>)
  then obtain v vc where "mpi_exp_mod qhat x a e n (Some c) \<sigma> = Some (Inr (), put c vc (put x v \<sigma>))"
    "mpi_s v = 1" "nval (mpi_p v) = mval (heap \<sigma> a) ^ mag (heap \<sigma> e) mod mval (heap \<sigma> n)" "mpi_s vc = 1" "mpi_p vc \<noteq> []"
    "nval (mpi_p vc) = (BB ^ mpi_n (heap \<sigma> n) * BB ^ mpi_n (heap \<sigma> n)) mod mval (heap \<sigma> n)"
    unfolding ok_def by (elim exE conjE) simp
  then show ?thesis unfolding m by (intro exI [of _ v] exI [of _ vc]) (simp add: mval_def [of v] mval_def [of vc])
qed

theorem mpi_exp_mod_correct_witness:
  "\<exists>v vc. mpi_exp_mod qhat_generic 0 1 2 3 (Some 4) (store_of [mpi_zero, small 3, small 4, small 7, mpi_zero]) =
       Some (Inr (), put 4 vc (put 0 v (store_of [mpi_zero, small 3, small 4, small 7, mpi_zero]))) \<and>
     mpi_s v = 1 \<and> mval v = 4"
  using mpi_exp_mod_correct [of "store_of [mpi_zero, small 3, small 4, small 7, mpi_zero]" 0 1 2 3 4 qhat_generic]
    exact_digits_generic [OF div_safe_small [of 7]]
  by (auto simp: numeral_nat int_sign_def)

text \<open>\<open>mpi_exp_mod\<close> rejects a negative or even modulus with \<open>BAD_INPUT_DATA\<close> and changes nothing.\<close>

theorem mpi_exp_mod_rejects:
  assumes "wf (heap \<sigma> n)" "mpi_p (heap \<sigma> n) \<noteq> []" "mval (heap \<sigma> n) < 0 \<or> even (mval (heap \<sigma> n))"
  shows "mpi_exp_mod qhat x a e n cache \<sigma> = Some (Inl 4, \<sigma>)"
  using assms by (rule mpi_exp_mod_errors)

theorem mpi_exp_mod_rejects_witness:
  "mpi_exp_mod qhat_generic 0 1 2 3 None (store_of [mpi_zero, small 3, small 4, small 8]) =
     Some (Inl 4, store_of [mpi_zero, small 3, small 4, small 8])"
  using mpi_exp_mod_rejects [of "store_of [mpi_zero, small 3, small 4, small 8]" 3 qhat_generic 0 1 2 None]
  by (simp add: numeral_nat)

subsection \<open>Shifts, comparison, copying\<close>

text \<open>shifting left and then right by the same count gives the number back, whatever the
  length of the limb array became in between.\<close>

theorem mpi_shift_round_trip:
  assumes "oom \<sigma> = []" "mpi_p (heap \<sigma> x) \<noteq> []"
  shows "\<exists>v. seqc (mpi_shift_l x count) (mpi_shift_r x (int count)) \<sigma> = Some (Inr (), put x v \<sigma>) \<and>
           mpi_s v = mpi_s (heap \<sigma> x) \<and> mval v = mval (heap \<sigma> x)"
proof -
  obtain m where "mpi_msb (heap \<sigma> x) = Some m" using mpi_msb_defined [OF assms(2)] by blast
  then have "ok (mpi_shift_l x count) \<sigma> (\<lambda>_ \<rho>. ok (mpi_shift_r x (int count)) \<rho>
      (\<lambda>_ \<sigma>'. \<exists>v. \<sigma>' = put x v \<sigma> \<and> mpi_s v = mpi_s (heap \<sigma> x) \<and> mval v = mval (heap \<sigma> x)))"
    by (rule mpi_shift_l_ok [OF assms(1)]) (auto simp: wp mval_def shr_list_val)
  then show ?thesis by (intro run_put) (simp add: wp)
qed

theorem mpi_shift_round_trip_witness:
  "\<exists>v. seqc (mpi_shift_l 0 77) (mpi_shift_r 0 (int 77)) (store_of [small (- 5)]) =
       Some (Inr (), put 0 v (store_of [small (- 5)])) \<and> mpi_s v = - 1 \<and> mval v = - 5"
  using mpi_shift_round_trip [of "store_of [small (- 5)]" 0 77] by (simp add: int_sign_def)

text \<open>C29: \<open>mpi_cmp_mpi\<close> returns the sign of the difference for two numbers of the same sign (for
  different signs it looks at the lengths first).\<close>

theorem mpi_cmp_mpi_correct:
  assumes "wf X" "wf Y" "mpi_s X = mpi_s Y"
  shows "mpi_cmp_mpi X Y = sgn (mval X - mval Y)"
  using assms by (intro mpi_cmp_mpi_sgn) simp_all

theorem mpi_cmp_mpi_correct_witness:
  "mpi_cmp_mpi (small (- 5)) (small (- 9)) = 1"
  using mpi_cmp_mpi_correct [of "small (- 5)" "small (- 9)"] by (simp add: int_sign_def)

text \<open>C26: the three cores of the row multiplication of \<open>bn_mul.h\<close> (half limbs, double limb, amd64)
  compute the same limb and the same carry.\<close>

theorem muladdc_cores_agree:
  "muladdc_generic b w d c = muladdc_longlong b w d c \<and> muladdc_amd64 b w d c = muladdc_longlong b w d c"
proof -
  have same: "p = q" if e: "uint (fst p) + BB * uint (snd p) = uint (fst q) + BB * uint (snd q)" for p q :: "t_int \<times> t_int"
  proof -
    have "uint (fst p) = uint (fst q)" using arg_cong [OF e, of "\<lambda>z. z mod BB"] by simp
    with e show ?thesis by (simp add: prod_eq_iff word_uint_eq_iff)
  qed
  show ?thesis
    using same [of "muladdc_generic b w d c" "muladdc_longlong b w d c"]
    by (simp add: muladdc_generic_exact muladdc_longlong_exact muladdc_amd64_eq)
qed

text \<open>C32: when \<open>malloc\<close> fails, \<open>mpi_grow\<close> reports 1 and leaves every number as it was.\<close>

theorem mpi_grow_out_of_memory:
  assumes "oom \<sigma> = True # rest" "mpi_n (heap \<sigma> x) < k"
  shows "mpi_grow x k \<sigma> = Some (Inl 1, \<sigma>\<lparr>oom := rest\<rparr>)"
  using assms by (simp add: mpi_grow_def bindc_def seqc_def rd_def malloc_def throw_def)

theorem mpi_grow_out_of_memory_witness:
  "mpi_grow 0 5 ((store_of [small 3])\<lparr>oom := [True, False]\<rparr>) =
     Some (Inl 1, (store_of [small 3])\<lparr>oom := [False]\<rparr>)"
  using mpi_grow_out_of_memory [of "(store_of [small 3])\<lparr>oom := [True, False]\<rparr>" "[False]" 0 5] by simp

end
