(* ===== verification/Mpi_Number_Correct.thy ===== *)
theory Mpi_Number_Correct
  imports Mpi_Correct Mpi_Inv_Correct
begin

text \<open>
  What the number-theoretic functions of \<open>bignum.c\<close> promise.
\<close>

lemma gcd_12_18: "gcd (12 :: int) 18 = 6"
  by (simp add: gcd_non_0_int)

lemma coprime_3_10: "coprime (3 :: int) 10"
  by (simp add: coprime_iff_gcd_eq_1 gcd_non_0_int)

lemma coprime_4_10: "\<not> coprime (4 :: int) 10"
  using coprime_common_divisor [of "4 :: int" 10 2] by auto

text \<open>C5: \<open>mpi_gcd\<close> terminates and writes the greatest common divisor, for all signs and for every
  aliasing of its operands; only a zero second operand is excluded.\<close>

theorem mpi_gcd_correct:
  assumes "oom \<sigma> = []" "g < sp \<sigma>" "a < sp \<sigma>" "b < sp \<sigma>" "wf (heap \<sigma> a)" "wf (heap \<sigma> b)" "mval (heap \<sigma> b) \<noteq> 0"
  shows "\<exists>v. mpi_gcd g a b \<sigma> = Some (Inr (), put g v \<sigma>) \<and> mpi_s v = 1 \<and>
           mval v = gcd (mval (heap \<sigma> a)) (mval (heap \<sigma> b))"
proof -
  have abs: "gcd (nval (mpi_p (heap \<sigma> a))) (nval (mpi_p (heap \<sigma> b))) = gcd (mval (heap \<sigma> a)) (mval (heap \<sigma> b))"
    using assms(5,6) by (auto simp: mval_def wf_def)
  show ?thesis
  proof (rule run_put, rule mpi_gcd_ok)
    show "nval (mpi_p (heap \<sigma> b)) \<noteq> 0" using assms(7) by (auto simp: mval_def)
    fix v :: mpi assume "mpi_s v = 1" "nval (mpi_p v) = gcd (nval (mpi_p (heap \<sigma> a))) (nval (mpi_p (heap \<sigma> b)))"
    then show "\<exists>w. put g v \<sigma> = put g w \<sigma> \<and> mpi_s w = 1 \<and> mval w = gcd (mval (heap \<sigma> a)) (mval (heap \<sigma> b))"
      unfolding abs by (intro exI [of _ v]) (simp add: mval_def [of v])
  qed (rule assms)+
qed

theorem mpi_gcd_correct_witness:
  "\<exists>v. mpi_gcd 0 0 1 (store_of [small (- 12), small 18]) =
     Some (Inr (), put 0 v (store_of [small (- 12), small 18])) \<and> mpi_s v = 1 \<and> mval v = 6"
  using mpi_gcd_correct [of "store_of [small (- 12), small 18]" 0 0 1] gcd_12_18 by simp

text \<open>C6: \<open>mpi_inv_mod\<close> terminates and writes the inverse in the range \<open>0 \<le> X < N\<close>, for a number of either
  sign that is coprime to a modulus above 1, odd or even, as long as no allocation fails. With the half-limb quotient digit of the program's
  build the top 63 bits of the modulus must not end in \<open>0xFFFFFFFE\<close> or \<open>0xFFFFFFFF\<close>; with the double-limb digit every modulus will do.\<close>

theorem mpi_inv_mod_correct:
  assumes "oom \<sigma> = []" "x < sp \<sigma>" "a < sp \<sigma>" "n < sp \<sigma>" "wf (heap \<sigma> a)" "mpi_s (heap \<sigma> n) = 1"
    and "1 < mval (heap \<sigma> n)" "coprime (mval (heap \<sigma> a)) (mval (heap \<sigma> n))"
    and digits: "exact_digits qhat (mval (heap \<sigma> n))"
  shows "\<exists>v. mpi_inv_mod qhat x a n \<sigma> = Some (Inr (), put x v \<sigma>) \<and> mpi_s v = 1 \<and>
           0 \<le> mval v \<and> mval v < mval (heap \<sigma> n) \<and> (mval v * mval (heap \<sigma> a)) mod mval (heap \<sigma> n) = 1"
proof -
  obtain safe where safe: "digit_estimate qhat safe" "div_safe safe (mval (heap \<sigma> n))" using digits by (rule exact_digits_estimate)
  show ?thesis
    by (rule run_put, rule digit_estimate.mpi_inv_mod_ok [OF safe(1) assms(1-6) refl assms(7,8) safe(2)]) auto
qed

theorem mpi_inv_mod_correct_witness:
  "\<exists>v. mpi_inv_mod qhat_generic 0 1 2 (store_of [mpi_zero, small (- 3), small 10]) =
     Some (Inr (), put 0 v (store_of [mpi_zero, small (- 3), small 10])) \<and> mpi_s v = 1 \<and>
     0 \<le> mval v \<and> mval v < 10 \<and> (mval v * (- 3)) mod 10 = 1"
  using mpi_inv_mod_correct [of "store_of [mpi_zero, small (- 3), small 10]" 0 1 2 qhat_generic]
    exact_digits_generic [OF div_safe_small [of 10]]
  by (simp add: numeral_nat int_sign_def coprime_3_10)

text \<open>C7: \<open>mpi_inv_mod\<close> reports a modulus that is not positive (4) and a number without inverse (14), and
  then leaves every operand as it was.\<close>

theorem mpi_inv_mod_errors:
  assumes "oom \<sigma> = []" "a < sp \<sigma>" "n < sp \<sigma>" "wf (heap \<sigma> a)" "wf (heap \<sigma> n)"
  shows "(mval (heap \<sigma> n) \<le> 0 \<longrightarrow> mpi_inv_mod qhat x a n \<sigma> = Some (Inl 4, \<sigma>)) \<and>
    (0 < mval (heap \<sigma> n) \<and> \<not> coprime (mval (heap \<sigma> a)) (mval (heap \<sigma> n)) \<longrightarrow> mpi_inv_mod qhat x a n \<sigma> = Some (Inl 14, \<sigma>))"
  using mpi_inv_mod_bad_modulus [OF assms(5)] mpi_inv_mod_not_coprime [OF assms(1-4)] sign_pos [OF assms(5)] by blast

theorem mpi_inv_mod_errors_witness:
  "mpi_inv_mod qhat_longlong 0 1 2 (store_of [mpi_zero, small 4, small 10]) = Some (Inl 14, store_of [mpi_zero, small 4, small 10]) \<and>
   mpi_inv_mod qhat_longlong 0 1 2 (store_of [mpi_zero, small 4, small 0]) = Some (Inl 4, store_of [mpi_zero, small 4, small 0])"
  using mpi_inv_mod_errors [of "store_of [mpi_zero, small 4, small 10]" 1 2 qhat_longlong 0]
    mpi_inv_mod_errors [of "store_of [mpi_zero, small 4, small 0]" 1 2 qhat_longlong 0]
  by (simp add: numeral_nat coprime_4_10)

end
