(* ===== verification/Mpi_Text.thy ===== *)
theory Mpi_Text
  imports Mpi_Exp_Mod
begin

text \<open>
  Conversions of \<open>bignum.c\<close>: ASCII strings (\<open>mpi_read_string\<close>, \<open>mpi_write_string\<close>),
  lines of a file (\<open>mpi_read_file\<close>, \<open>mpi_write_file\<close>) and big-endian octet strings
  (\<open>mpi_read_binary\<close>, \<open>mpi_write_binary\<close>). A C string is the list of its characters
  before the terminating NUL, a character a byte.
\<close>

subsection \<open>Digits\<close>

definition mpi_get_digit :: "int \<Rightarrow> byte \<Rightarrow> int + t_int" where
  "mpi_get_digit radix c =
     (let d = 255;
          d = (if c \<ge> 0x30 \<and> c \<le> 0x39 then ucast (c - 0x30) else d);
          d = (if c \<ge> 0x41 \<and> c \<le> 0x46 then ucast (c - 0x37) else d);
          d = (if c \<ge> 0x61 \<and> c \<le> 0x66 then ucast (c - 0x57) else d)
      in if d \<ge> word_of_int radix then Inl POLARSSL_ERR_MPI_INVALID_CHARACTER else Inr d)"

definition chk :: "int + 'a \<Rightarrow> 'a cm" where
  "chk r = (case r of Inl e \<Rightarrow> throw e | Inr x \<Rightarrow> ret x)"

subsection \<open>Reading a string\<close>

text \<open>\<open>for( i = strlen( s ) - 1, j = 0; i >= 0; i--, j++ )\<close>, on the reversed string.\<close>

fun read_hex :: "addr \<Rightarrow> int \<Rightarrow> nat \<Rightarrow> byte list \<Rightarrow> unit cm" where
  "read_hex x radix j [] = ret ()"
| "read_hex x radix j (c # cs) =
     (if cs = [] \<and> c = 0x2D then set_s x (- 1)
      else bindc (chk (mpi_get_digit radix c)) (\<lambda>d.
        bindc (get_limb x (j div 16)) (\<lambda>l.
          seqc (set_limb x (j div 16) (l OR push_bit (j mod 16 * 4) d)) (read_hex x radix (j + 1) cs))))"

text \<open>\<open>for( i = 0; i < strlen( s ); i++ )\<close>; the digit is passed on as an \<open>int\<close>.\<close>

fun read_radix :: "addr \<Rightarrow> addr \<Rightarrow> int \<Rightarrow> nat \<Rightarrow> byte list \<Rightarrow> unit cm" where
  "read_radix t x radix i [] = ret ()"
| "read_radix t x radix i (c # cs) =
     (if i = 0 \<and> c = 0x2D then seqc (set_s x (- 1)) (read_radix t x radix (i + 1) cs)
      else bindc (chk (mpi_get_digit radix c)) (\<lambda>d.
        seqc (mpi_mul_int t x (word_of_int radix))
          (bindc (rd x) (\<lambda>X.
            seqc (if mpi_s X = 1 then mpi_add_int x t (uint d) else mpi_sub_int x t (uint d))
              (read_radix t x radix (i + 1) cs)))))"

definition mpi_read_string :: "addr \<Rightarrow> int \<Rightarrow> byte list \<Rightarrow> unit cm" where
  "mpi_read_string x radix s =
     (if radix < 2 \<or> radix > 16 then throw POLARSSL_ERR_MPI_BAD_INPUT_DATA
      else locals 1 (\<lambda>t.
        if radix = 16
        then seqc (mpi_grow x (BITS_TO_LIMBS (length s * 4)))
               (seqc (mpi_lset x 0) (read_hex x radix 0 (rev s)))
        else seqc (mpi_lset x 0) (read_radix t x radix 0 s)))"

subsection \<open>Writing a string\<close>

definition digit_char :: "t_int \<Rightarrow> byte" where
  "digit_char r = (if r < 10 then ucast (r + 0x30) else ucast (r + 0x37))"

text \<open>The recursive helper: \<open>out\<close> is what has been written at \<open>*p\<close>.\<close>

definition write_digit ::
  "(t_int \<Rightarrow> t_int \<Rightarrow> t_int \<Rightarrow> t_int option) \<Rightarrow> addr \<Rightarrow> int \<Rightarrow> (t_int \<times> int) cm" where
  "write_digit qhat x radix =
     bindc (rd x) (\<lambda>X. bindc (defd (mpi_mod_int X radix)) (\<lambda>m. bindc (chk m) (\<lambda>r.
       seqc (mpi_div_int qhat None (Some x) x radix)
         (bindc (rd x) (\<lambda>X. bindc (defd (mpi_cmp_int X 0)) (\<lambda>c. ret (r, c)))))))"

partial_function (option) write_rec ::
  "(t_int \<Rightarrow> t_int \<Rightarrow> t_int \<Rightarrow> t_int option) \<Rightarrow> addr \<Rightarrow> int \<Rightarrow> byte list \<Rightarrow> byte list cm" where
  "write_rec qhat x radix out \<sigma> =
     Option.bind (write_digit qhat x radix \<sigma>) (\<lambda>(res, \<sigma>').
       case res of Inl e \<Rightarrow> Some (Inl e, \<sigma>')
       | Inr (r, c) \<Rightarrow>
           if c \<noteq> 0
           then Option.bind (write_rec qhat x radix out \<sigma>') (\<lambda>(res, \<sigma>'').
                  Some (map_sum id (\<lambda>out. out @ [digit_char r]) res, \<sigma>''))
           else Some (Inr (out @ [digit_char r]), \<sigma>'))"

definition mpi_write_hlp ::
  "(t_int \<Rightarrow> t_int \<Rightarrow> t_int \<Rightarrow> t_int option) \<Rightarrow> addr \<Rightarrow> int \<Rightarrow> byte list \<Rightarrow> byte list cm" where
  "mpi_write_hlp qhat x radix out =
     (if radix < 2 \<or> radix > 16 then throw POLARSSL_ERR_MPI_BAD_INPUT_DATA else write_rec qhat x radix out)"

text \<open>The bytes of a limb array, most significant first, and \<open>sprintf( p, "%02X", c )\<close>.\<close>

definition limb_bytes :: "t_int \<Rightarrow> byte list" where
  "limb_bytes w = map (\<lambda>j. ucast (drop_bit (j * 8) w AND 0xFF)) (rev [0..<8])"

definition hex_char :: "byte \<Rightarrow> byte" where
  "hex_char d = (if d < 10 then d + 0x30 else d + 0x37)"

definition sprintf_02X :: "byte \<Rightarrow> byte list" where
  "sprintf_02X c = [hex_char (drop_bit 4 c), hex_char (c AND 0xF)]"

text \<open>
  The two loops of the radix 16 case over the bytes: a zero byte before the first non-zero one
  is skipped unless it is the last one (\<open>i + j == 0\<close>).
\<close>

fun write_hex :: "bool \<Rightarrow> byte list \<Rightarrow> byte list" where
  "write_hex k [] = []"
| "write_hex k (c # cs) =
     (if c = 0 \<and> \<not> k \<and> cs \<noteq> [] then write_hex k cs else sprintf_02X c @ write_hex True cs)"

text \<open>The number of bytes \<open>*slen\<close> must have.\<close>

definition string_room :: "int \<Rightarrow> nat \<Rightarrow> nat" where
  "string_room radix m =
     (let n = m; n = (if radix \<ge> 4 then drop_bit 1 n else n);
          n = (if radix \<ge> 16 then drop_bit 1 n else n) in n + 3)"

text \<open>The result is the return code, what has been written to \<open>s\<close>, and \<open>*slen\<close>.\<close>

definition mpi_write_string ::
  "(t_int \<Rightarrow> t_int \<Rightarrow> t_int \<Rightarrow> t_int option) \<Rightarrow> addr \<Rightarrow> int \<Rightarrow> int \<Rightarrow> (int \<times> byte list \<times> int) cm" where
  "mpi_write_string qhat x radix slen =
     (if radix < 2 \<or> radix > 16 then throw POLARSSL_ERR_MPI_BAD_INPUT_DATA
      else bindc (rd x) (\<lambda>X. bindc (defd (mpi_msb X)) (\<lambda>m. let n = string_room radix m in
        if slen < int n then ret (POLARSSL_ERR_MPI_BUFFER_TOO_SMALL, [], int n)
        else locals 1 (\<lambda>t.
          let p = (if mpi_s X = - 1 then [0x2D] else []) in
          bindc (if radix = 16
                 then ret (p @ write_hex False (concat (map limb_bytes (rev (mpi_p X)))))
                 else seqc (mpi_copy t x)
                   (bindc (rd t) (\<lambda>T. seqc (if mpi_s T = - 1 then set_s t 1 else ret ())
                     (mpi_write_hlp qhat t radix p))))
            (\<lambda>p. ret (0, p @ [0], int (length p) + 1))))))"

subsection \<open>Files\<close>

text \<open>
  \<open>fgets( s, k + 1, fin )\<close>: at most \<open>k\<close> characters of the input, up to and including
  the first newline; \<open>None\<close> at the end of the input. The second component is what is
  left to read.
\<close>

fun fgets :: "nat \<Rightarrow> byte list \<Rightarrow> byte list \<times> byte list" where
  "fgets 0 cs = ([], cs)"
| "fgets (Suc k) [] = ([], [])"
| "fgets (Suc k) (c # cs) = (if c = 0x0A then ([c], cs) else let (l, r) = fgets k cs in (c # l, r))"

text \<open>\<open>if( s[slen - 1] == c ) { slen--; s[slen] = 0; }\<close>; undefined for an empty string.\<close>

definition strip_last :: "byte \<Rightarrow> byte list \<Rightarrow> byte list option" where
  "strip_last c s = (if s = [] then None else Some (if last s = c then butlast s else s))"

definition trailing_digits :: "int \<Rightarrow> byte list \<Rightarrow> byte list" where
  "trailing_digits radix s = rev (takeWhile (\<lambda>c. case mpi_get_digit radix c of Inl _ \<Rightarrow> False | Inr _ \<Rightarrow> True) (rev s))"

definition mpi_read_file :: "addr \<Rightarrow> int \<Rightarrow> byte list \<Rightarrow> byte list cm" where
  "mpi_read_file x radix fin =
     (if fin = [] then throw POLARSSL_ERR_MPI_FILE_IO_ERROR
      else let (l, rest) = fgets 1022 fin; s = takeWhile (\<lambda>c. c \<noteq> 0) l in
        bindc (defd (strip_last 0x0A s)) (\<lambda>s.
          bindc (defd (strip_last 0x0D s)) (\<lambda>s.
            seqc (mpi_read_string x radix (trailing_digits radix s)) (ret rest))))"

text \<open>
  \<open>fwrite( buf, 1, len, fout )\<close> writes all of \<open>buf\<close> or a part of it, as its
  argument \<open>fw\<close> says (the file system); \<open>printf\<close> is the case \<open>fout = None\<close>.
  The result is the return code and what has been written.
\<close>

definition mpi_write_file ::
  "(t_int \<Rightarrow> t_int \<Rightarrow> t_int \<Rightarrow> t_int option) \<Rightarrow> byte list \<Rightarrow> addr \<Rightarrow> int \<Rightarrow> (nat \<Rightarrow> nat \<Rightarrow> nat) option \<Rightarrow> (int \<times> byte list) cm" where
  "mpi_write_file qhat p x radix fout =
     bindc (mpi_write_string qhat x radix 1022) (\<lambda>(r, s, n).
       if r \<noteq> 0 then throw r
       else let s = takeWhile (\<lambda>c. c \<noteq> 0) s @ [0x0D, 0x0A] in
         case fout of None \<Rightarrow> ret (0, p @ s)
         | Some fw \<Rightarrow>
             let k = fw 0 (length p) in
             if k \<noteq> length p then ret (POLARSSL_ERR_MPI_FILE_IO_ERROR, take k p)
             else let k = fw 1 (length s) in
               ret (if k \<noteq> length s then POLARSSL_ERR_MPI_FILE_IO_ERROR else 0, p @ take k s))"

subsection \<open>Octet strings\<close>

definition mpi_read_binary :: "addr \<Rightarrow> byte list \<Rightarrow> unit cm" where
  "mpi_read_binary x buf =
     (let buflen = length buf; n = length (takeWhile (\<lambda>b. b = 0) buf) in
      seqc (mpi_grow x (CHARS_TO_LIMBS (buflen - n)))
        (seqc (mpi_lset x 0)
          (forc [0..<buflen - n] (\<lambda>j.
             bindc (get_limb x (j div 8)) (\<lambda>l.
               set_limb x (j div 8) (l OR push_bit (j mod 8 * 8) (ucast (buf ! (buflen - 1 - j)))))))))"

text \<open>The result of the export is the return code and the contents of \<open>buf\<close>.\<close>

definition mpi_write_binary :: "mpi \<Rightarrow> nat \<Rightarrow> (int + byte list) option" where
  "mpi_write_binary X buflen =
     (case mpi_size X of None \<Rightarrow> None
      | Some n \<Rightarrow>
          if buflen < n then Some (Inl POLARSSL_ERR_MPI_BUFFER_TOO_SMALL)
          else Some (Inr (fold (\<lambda>j buf. buf[buflen - 1 - j := ucast (drop_bit (j mod 8 * 8) (mpi_p X ! (j div 8)))])
                            [0..<n] (replicate buflen 0))))"

end
