(* ===== verification/Mpi_Prime.thy ===== *)
theory Mpi_Prime
  imports Mpi_Exp_Mod
begin

text \<open>
  Primality: the trial divisions and the Miller-Rabin rounds of \<open>mpi_is_prime\<close> (HAC 4.24)
  and the search of \<open>mpi_gen_prime\<close>. The values of the callback \<open>f_rng\<close> are read from
  the store; the bytes of a limb array are addressed in little-endian order.
\<close>

subsection \<open>Definitions\<close>

definition small_prime :: "int list" where
  "small_prime = [
     3, 5, 7, 11, 13, 17, 19, 23, 29, 31, 37, 41,
     43, 47, 53, 59, 61, 67, 71, 73, 79, 83, 89, 97,
     101, 103, 107, 109, 113, 127, 131, 137, 139, 149, 151, 157,
     163, 167, 173, 179, 181, 191, 193, 197, 199, 211, 223, 227,
     229, 233, 239, 241, 251, 257, 263, 269, 271, 277, 281, 283,
     293, 307, 311, 313, 317, 331, 337, 347, 349, 353, 359, 367,
     373, 379, 383, 389, 397, 401, 409, 419, 421, 431, 433, 439,
     443, 449, 457, 461, 463, 467, 479, 487, 491, 499, 503, 509,
     521, 523, 541, 547, 557, 563, 569, 571, 577, 587, 593, 599,
     601, 607, 613, 617, 619, 631, 641, 643, 647, 653, 659, 661,
     673, 677, 683, 691, 701, 709, 719, 727, 733, 739, 743, 751,
     757, 761, 769, 773, 787, 797, 809, 811, 821, 823, 827, 829,
     839, 853, 857, 859, 863, 877, 881, 883, 887, 907, 911, 919,
     929, 937, 941, 947, 953, 967, 971, 977, 983, 991, 997, - 103]"

text \<open>\<open>for( i = 0; small_prime[i] > 0; i++ )\<close>: \<open>True\<close> says \<open>X\<close> is a small prime.\<close>

fun trial_division :: "addr \<Rightarrow> int \<Rightarrow> int list \<Rightarrow> bool cm" where
  "trial_division x xs [] = defd None"
| "trial_division x xs (p # ps) =
     (if p \<le> 0 then ret False
      else bindc (rd x) (\<lambda>X. bindc (defd (mpi_cmp_int X p)) (\<lambda>c.
        if c \<le> 0 then ret True
        else bindc (defd (mpi_mod_int X p)) (\<lambda>m.
          case m of
            Inl e \<Rightarrow> seqc (set_s x xs) (throw e)
          | Inr r \<Rightarrow> if r = 0 then throw POLARSSL_ERR_MPI_NOT_ACCEPTABLE else trial_division x xs ps))))"

text \<open>\<open>for( j = 0; j < A.n * ciL; j++ ) *p++ = (unsigned char) f_rng( p_rng );\<close>\<close>

definition set_byte :: "nat \<Rightarrow> byte \<Rightarrow> t_int \<Rightarrow> t_int" where
  "set_byte k b l = (l AND NOT (push_bit (k * 8) 0xFF)) OR push_bit (k * 8) (ucast b)"

definition fill_random :: "addr \<Rightarrow> unit cm" where
  "fill_random a = bindc (rd a) (\<lambda>A. forc [0..<mpi_n A * 8] (\<lambda>j.
     bindc f_rng (\<lambda>v. bindc (get_limb a (j div 8)) (\<lambda>l.
       set_limb a (j div 8) (set_byte (j mod 8) (word_of_int v) l)))))"

text \<open>HAC, table 4.4.\<close>

definition prime_rounds :: "nat \<Rightarrow> nat" where
  "prime_rounds i = (if i \<ge> 1300 then 2 else if i \<ge> 850 then 3 else if i \<ge> 650 then 4
     else if i \<ge> 350 then 8 else if i \<ge> 250 then 12 else if i \<ge> 150 then 18 else 27)"

text \<open>
  \<open>while( j < s && mpi_cmp_mpi( &A, &W ) != 0 )\<close>; the second component is set by \<open>break\<close>.
\<close>

definition prime_squares ::
  "(t_int \<Rightarrow> t_int \<Rightarrow> t_int \<Rightarrow> t_int option) \<Rightarrow> addr \<Rightarrow> addr \<Rightarrow> addr \<Rightarrow> addr \<Rightarrow> nat \<Rightarrow> unit cm" where
  "prime_squares qhat x w t a s =
     seqc (whilec (\<lambda>(j, brk) \<sigma>. Some (\<not> brk \<and> j < s \<and> mpi_cmp_mpi (heap \<sigma> a) (heap \<sigma> w) \<noteq> 0))
       (\<lambda>(j, brk). seqc (mpi_mul_mpi t a a) (seqc (mpi_mod_mpi qhat a t x)
          (bindc (rd a) (\<lambda>A. bindc (defd (mpi_cmp_int A 1)) (\<lambda>c.
            if c = 0 then ret (j, True) else ret (j + 1, False)))))) (1, False)) (ret ())"

definition prime_round ::
  "(t_int \<Rightarrow> t_int \<Rightarrow> t_int \<Rightarrow> t_int option) \<Rightarrow> addr \<Rightarrow> addr \<Rightarrow> addr \<Rightarrow> addr \<Rightarrow> addr \<Rightarrow> addr \<Rightarrow> nat \<Rightarrow> unit cm" where
  "prime_round qhat x w r t a rr s =
     bindc (rd x) (\<lambda>X. seqc (mpi_grow a (mpi_n X)) (seqc (fill_random a)
       (bindc (rd a) (\<lambda>A. bindc (defd (mpi_msb A)) (\<lambda>ma.
         bindc (rd w) (\<lambda>W. bindc (defd (mpi_msb W)) (\<lambda>mw.
           let j = int ma - int mw in
           seqc (mpi_shift_r a (j + 1))
             (bindc (get_limb a 0) (\<lambda>l. seqc (set_limb a 0 (l OR 3))
               (seqc (mpi_exp_mod qhat a a r x (Some rr))
                 (bindc (rd a) (\<lambda>A. bindc (rd w) (\<lambda>W. bindc (defd (mpi_cmp_int A 1)) (\<lambda>c.
                   if mpi_cmp_mpi A W = 0 \<or> c = 0 then ret ()
                   else seqc (prime_squares qhat x w t a s)
                     (bindc (rd a) (\<lambda>A. bindc (rd w) (\<lambda>W. bindc (defd (mpi_cmp_int A 1)) (\<lambda>c.
                       if mpi_cmp_mpi A W \<noteq> 0 \<or> c = 0
                       then throw POLARSSL_ERR_MPI_NOT_ACCEPTABLE else ret ()))))))))))))))))))"

text \<open>
  The five locals \<open>W, R, T, A, RR\<close> are the cells \<open>w .. w + 4\<close>. The code takes
  \<open>mpi_lsb( &W )\<close> before it stores \<open>X - 1\<close> in \<open>W\<close>, and its early returns skip the
  statement \<open>X->s = xs\<close> of the cleanup.
\<close>

definition mpi_is_prime :: "(t_int \<Rightarrow> t_int \<Rightarrow> t_int \<Rightarrow> t_int option) \<Rightarrow> addr \<Rightarrow> unit cm" where
  "mpi_is_prime qhat x =
     bindc (rd x) (\<lambda>X. bindc (defd (mpi_cmp_int X 0)) (\<lambda>c0. bindc (defd (mpi_cmp_int X 1)) (\<lambda>c1.
       if c0 = 0 \<or> c1 = 0 then throw POLARSSL_ERR_MPI_NOT_ACCEPTABLE
       else bindc (defd (mpi_cmp_int X 2)) (\<lambda>c2.
         if c2 = 0 then ret ()
         else locals 5 (\<lambda>w. let r = w + 1; t = w + 2; a = w + 3; rr = w + 4; xs = mpi_s X in
           seqc (set_s x 1)
             (bindc (get_limb x 0) (\<lambda>p0.
               if p0 AND 1 = 0 then throw POLARSSL_ERR_MPI_NOT_ACCEPTABLE
               else bindc (trial_division x xs small_prime) (\<lambda>small.
                 if small then ret ()
                 else finallyc
                   (bindc (rd w) (\<lambda>W. let s = mpi_lsb W in
                     seqc (mpi_sub_int w x 1) (seqc (mpi_copy r w) (seqc (mpi_shift_r r (int s))
                       (bindc (rd x) (\<lambda>X. bindc (defd (mpi_msb X)) (\<lambda>i.
                         forc [0..<prime_rounds i] (\<lambda>_. prime_round qhat x w r t a rr s))))))))
                   (set_s x xs)))))))))"

text \<open>The search of \<open>mpi_gen_prime\<close>; the loop variable is the C variable \<open>ret\<close>.\<close>

definition gen_plain :: "(t_int \<Rightarrow> t_int \<Rightarrow> t_int \<Rightarrow> t_int option) \<Rightarrow> addr \<Rightarrow> unit cm" where
  "gen_plain qhat x =
     bindc (code_of (mpi_is_prime qhat x)) (\<lambda>r.
       seqc (whilec (\<lambda>r _. Some (r \<noteq> 0))
         (\<lambda>r. if r \<noteq> POLARSSL_ERR_MPI_NOT_ACCEPTABLE then throw r
               else seqc (mpi_add_int x x 2) (code_of (mpi_is_prime qhat x))) r) (ret ()))"

definition gen_dh :: "(t_int \<Rightarrow> t_int \<Rightarrow> t_int \<Rightarrow> t_int option) \<Rightarrow> addr \<Rightarrow> addr \<Rightarrow> unit cm" where
  "gen_dh qhat x y =
     seqc (mpi_sub_int y x 1) (seqc (mpi_shift_r y 1)
       (seqc (whilec (\<lambda>more _. Some more)
         (\<lambda>_. bindc (code_of (mpi_is_prime qhat x)) (\<lambda>r1.
            bindc (if r1 = 0 then code_of (mpi_is_prime qhat y) else ret r1) (\<lambda>r.
              if r1 = 0 \<and> r = 0 then ret False
              else if r \<noteq> POLARSSL_ERR_MPI_NOT_ACCEPTABLE then throw r
              else seqc (mpi_add_int y x 1) (seqc (mpi_add_int x x 2)
                     (seqc (mpi_shift_r y 1) (ret True)))))) True) (ret ())))"

definition mpi_gen_prime ::
  "(t_int \<Rightarrow> t_int \<Rightarrow> t_int \<Rightarrow> t_int option) \<Rightarrow> addr \<Rightarrow> int \<Rightarrow> int \<Rightarrow> unit cm" where
  "mpi_gen_prime qhat x nbits dh_flag =
     (if nbits < 3 then throw POLARSSL_ERR_MPI_BAD_INPUT_DATA
      else locals 1 (\<lambda>y.
        seqc (mpi_grow x (BITS_TO_LIMBS (nat nbits))) (seqc (mpi_lset x 0) (seqc (fill_random x)
          (bindc (rd x) (\<lambda>X. bindc (defd (mpi_msb X)) (\<lambda>k.
            seqc (if int k < nbits then mpi_shift_l x (nat nbits - k) else ret ())
              (seqc (if int k > nbits then mpi_shift_r x (int k - nbits) else ret ())
                (bindc (get_limb x 0) (\<lambda>l. seqc (set_limb x 0 (l OR 3))
                  (if dh_flag = 0 then gen_plain qhat x else gen_dh qhat x y)))))))))))"

end
