(* ===== verification/Rsa.thy ===== *)
theory Rsa
  imports Mpi_Gcd Mpi_Text Mpi_Prime
begin

text \<open>
  The RSA cryptosystem of \<open>libsparkle/crypto/rsa.c\<close> on the integers of \<open>bignum.c\<close>.

  The eleven integers of an \<open>rsa_context\<close> are consecutive cells of the store from
  \<open>rsa_base\<close> on, in the order of the struct; the other fields are the record. Octet buffers
  are byte lists; an output buffer is a result.
\<close>

subsection \<open>The context\<close>

record rsa_context =
  rsa_len :: nat
  rsa_base :: addr
  rsa_padding :: int
  rsa_hash_id :: int
  rsa_f_rng :: bool

definition rN :: "rsa_context \<Rightarrow> addr" where "rN ctx = rsa_base ctx"
definition rE :: "rsa_context \<Rightarrow> addr" where "rE ctx = rsa_base ctx + 1"
definition rD :: "rsa_context \<Rightarrow> addr" where "rD ctx = rsa_base ctx + 2"
definition rP :: "rsa_context \<Rightarrow> addr" where "rP ctx = rsa_base ctx + 3"
definition rQ :: "rsa_context \<Rightarrow> addr" where "rQ ctx = rsa_base ctx + 4"
definition rDP :: "rsa_context \<Rightarrow> addr" where "rDP ctx = rsa_base ctx + 5"
definition rDQ :: "rsa_context \<Rightarrow> addr" where "rDQ ctx = rsa_base ctx + 6"
definition rQP :: "rsa_context \<Rightarrow> addr" where "rQP ctx = rsa_base ctx + 7"
definition rRN :: "rsa_context \<Rightarrow> addr" where "rRN ctx = rsa_base ctx + 8"
definition rRP :: "rsa_context \<Rightarrow> addr" where "rRP ctx = rsa_base ctx + 9"
definition rRQ :: "rsa_context \<Rightarrow> addr" where "rRQ ctx = rsa_base ctx + 10"

abbreviation (input) POLARSSL_ERR_RSA_BAD_INPUT_DATA :: int where "POLARSSL_ERR_RSA_BAD_INPUT_DATA \<equiv> - 0x400"
abbreviation (input) POLARSSL_ERR_RSA_INVALID_PADDING :: int where "POLARSSL_ERR_RSA_INVALID_PADDING \<equiv> - 0x410"
abbreviation (input) POLARSSL_ERR_RSA_KEY_GEN_FAILED :: int where "POLARSSL_ERR_RSA_KEY_GEN_FAILED \<equiv> - 0x420"
abbreviation (input) POLARSSL_ERR_RSA_KEY_CHECK_FAILED :: int where "POLARSSL_ERR_RSA_KEY_CHECK_FAILED \<equiv> - 0x430"
abbreviation (input) POLARSSL_ERR_RSA_PUBLIC_FAILED :: int where "POLARSSL_ERR_RSA_PUBLIC_FAILED \<equiv> - 0x440"
abbreviation (input) POLARSSL_ERR_RSA_PRIVATE_FAILED :: int where "POLARSSL_ERR_RSA_PRIVATE_FAILED \<equiv> - 0x450"
abbreviation (input) POLARSSL_ERR_RSA_VERIFY_FAILED :: int where "POLARSSL_ERR_RSA_VERIFY_FAILED \<equiv> - 0x460"
abbreviation (input) POLARSSL_ERR_RSA_OUTPUT_TOO_LARGE :: int where "POLARSSL_ERR_RSA_OUTPUT_TOO_LARGE \<equiv> - 0x470"

abbreviation (input) RSA_PKCS_V15 :: int where "RSA_PKCS_V15 \<equiv> 0"
abbreviation (input) RSA_PUBLIC :: int where "RSA_PUBLIC \<equiv> 0"
abbreviation (input) RSA_SIGN :: byte where "RSA_SIGN \<equiv> 1"
abbreviation (input) RSA_CRYPT :: byte where "RSA_CRYPT \<equiv> 2"
abbreviation (input) SIG_RSA_RAW :: int where "SIG_RSA_RAW \<equiv> 0"
abbreviation (input) SIG_RSA_MD2 :: int where "SIG_RSA_MD2 \<equiv> 2"
abbreviation (input) SIG_RSA_MD4 :: int where "SIG_RSA_MD4 \<equiv> 3"
abbreviation (input) SIG_RSA_MD5 :: int where "SIG_RSA_MD5 \<equiv> 4"
abbreviation (input) SIG_RSA_SHA1 :: int where "SIG_RSA_SHA1 \<equiv> 5"
abbreviation (input) SIG_RSA_SHA224 :: int where "SIG_RSA_SHA224 \<equiv> 14"
abbreviation (input) SIG_RSA_SHA256 :: int where "SIG_RSA_SHA256 \<equiv> 11"
abbreviation (input) SIG_RSA_SHA384 :: int where "SIG_RSA_SHA384 \<equiv> 12"
abbreviation (input) SIG_RSA_SHA512 :: int where "SIG_RSA_SHA512 \<equiv> 13"

definition ASN1_STR_CONSTRUCTED_SEQUENCE :: "byte list" where
  "ASN1_STR_CONSTRUCTED_SEQUENCE = [0x30]"

definition ASN1_STR_NULL :: "byte list" where
  "ASN1_STR_NULL = [0x05]"

definition ASN1_STR_OID :: "byte list" where
  "ASN1_STR_OID = [0x06]"

definition ASN1_STR_OCTET_STRING :: "byte list" where
  "ASN1_STR_OCTET_STRING = [0x04]"

definition OID_DIGEST_ALG_MDX :: "byte list" where
  "OID_DIGEST_ALG_MDX = [0x2A, 0x86, 0x48, 0x86, 0xF7, 0x0D, 0x02, 0x00]"

definition OID_HASH_ALG_SHA1 :: "byte list" where
  "OID_HASH_ALG_SHA1 = [0x2b, 0x0e, 0x03, 0x02, 0x1a]"

definition OID_HASH_ALG_SHA2X :: "byte list" where
  "OID_HASH_ALG_SHA2X = [0x60, 0x86, 0x48, 0x01, 0x65, 0x03, 0x04, 0x02, 0x00]"

definition ASN1_HASH_MDX :: "byte list" where
  "ASN1_HASH_MDX = ASN1_STR_CONSTRUCTED_SEQUENCE @ [0x20] @ ASN1_STR_CONSTRUCTED_SEQUENCE @ [0x0C] @
     ASN1_STR_OID @ [0x08] @ OID_DIGEST_ALG_MDX @ ASN1_STR_NULL @ [0x00] @ ASN1_STR_OCTET_STRING @ [0x10]"

definition ASN1_HASH_SHA1 :: "byte list" where
  "ASN1_HASH_SHA1 = ASN1_STR_CONSTRUCTED_SEQUENCE @ [0x21] @ ASN1_STR_CONSTRUCTED_SEQUENCE @ [0x09] @
     ASN1_STR_OID @ [0x05] @ OID_HASH_ALG_SHA1 @ ASN1_STR_NULL @ [0x00] @ ASN1_STR_OCTET_STRING @ [0x14]"

definition ASN1_HASH_SHA2X :: "byte list" where
  "ASN1_HASH_SHA2X = ASN1_STR_CONSTRUCTED_SEQUENCE @ [0x11] @ ASN1_STR_CONSTRUCTED_SEQUENCE @ [0x0d] @
     ASN1_STR_OID @ [0x09] @ OID_HASH_ALG_SHA2X @ ASN1_STR_NULL @ [0x00] @ ASN1_STR_OCTET_STRING @ [0x00]"

lemmas asn1_defs = ASN1_HASH_MDX_def ASN1_HASH_SHA1_def ASN1_HASH_SHA2X_def ASN1_STR_CONSTRUCTED_SEQUENCE_def
  ASN1_STR_NULL_def ASN1_STR_OID_def ASN1_STR_OCTET_STRING_def OID_DIGEST_ALG_MDX_def OID_HASH_ALG_SHA1_def
  OID_HASH_ALG_SHA2X_def

text \<open>\<open>return( base | ret )\<close> for the \<open>ret\<close> of a failed statement.\<close>

definition or_err :: "int \<Rightarrow> 'a cm \<Rightarrow> 'a cm" where
  "or_err base f = (\<lambda>\<sigma>. map_option (\<lambda>(r, \<sigma>'). (map_sum (\<lambda>e. base OR e) id r, \<sigma>')) (f \<sigma>))"

subsection \<open>Keys\<close>

text \<open>\<open>memset( ctx, 0, sizeof( rsa_context ) )\<close> leaves the sign fields 0.\<close>

definition rsa_init :: "addr \<Rightarrow> int \<Rightarrow> int \<Rightarrow> bool \<Rightarrow> rsa_context cm" where
  "rsa_init base padding hash_id has_rng =
     seqc (forc [0..<11] (\<lambda>i. wr (base + i) \<lparr>mpi_s = 0, mpi_p = []\<rparr>))
       (ret \<lparr>rsa_len = 0, rsa_base = base, rsa_padding = padding, rsa_hash_id = hash_id, rsa_f_rng = has_rng\<rparr>)"

definition rsa_free :: "rsa_context \<Rightarrow> unit cm" where
  "rsa_free ctx = forc [rRQ ctx, rRP ctx, rRN ctx, rQP ctx, rDQ ctx, rDP ctx, rQ ctx, rP ctx, rD ctx, rE ctx, rN ctx] mpi_free"

text \<open>
  One turn of the \<open>do ... while\<close> of \<open>rsa_gen_key\<close>; a \<open>continue\<close> goes to the loop
  condition, which reads the \<open>G\<close> of an earlier turn.
\<close>

definition rsa_gen_primes ::
  "(t_int \<Rightarrow> t_int \<Rightarrow> t_int \<Rightarrow> t_int option) \<Rightarrow> rsa_context \<Rightarrow> int \<Rightarrow> addr \<Rightarrow> addr \<Rightarrow> addr \<Rightarrow> addr \<Rightarrow> unit cm" where
  "rsa_gen_primes qhat ctx nbits p1 q1 h g =
     seqc (mpi_gen_prime qhat (rP ctx) ((nbits + 1) div 2) 0)
       (seqc (mpi_gen_prime qhat (rQ ctx) ((nbits + 1) div 2) 0)
         (seqc (bindc (rd (rP ctx)) (\<lambda>P. bindc (rd (rQ ctx)) (\<lambda>Q.
                  if mpi_cmp_mpi P Q < 0 then mpi_swap (rP ctx) (rQ ctx) else ret ())))
           (bindc (rd (rP ctx)) (\<lambda>P. bindc (rd (rQ ctx)) (\<lambda>Q.
             if mpi_cmp_mpi P Q = 0 then ret ()
             else seqc (mpi_mul_mpi (rN ctx) (rP ctx) (rQ ctx))
               (bindc (rd (rN ctx)) (\<lambda>N. bindc (defd (mpi_msb N)) (\<lambda>m.
                 if int m \<noteq> nbits then ret ()
                 else seqc (mpi_sub_int p1 (rP ctx) 1) (seqc (mpi_sub_int q1 (rQ ctx) 1)
                   (seqc (mpi_mul_mpi h p1 q1) (mpi_gcd g (rE ctx) h)))))))))))"

definition rsa_gen_key ::
  "(t_int \<Rightarrow> t_int \<Rightarrow> t_int \<Rightarrow> t_int option) \<Rightarrow> rsa_context \<Rightarrow> int \<Rightarrow> int \<Rightarrow> rsa_context cm" where
  "rsa_gen_key qhat ctx nbits exponent =
     (if \<not> rsa_f_rng ctx \<or> nbits < 128 \<or> exponent < 3 then throw POLARSSL_ERR_RSA_BAD_INPUT_DATA
      else (\<lambda>\<sigma>. case locals 4 (\<lambda>p1. let q1 = p1 + 1; h = p1 + 2; g = p1 + 3 in
          seqc (mpi_lset (rE ctx) exponent)
            (seqc (whilec (\<lambda>more _. Some more)
               (\<lambda>_. seqc (rsa_gen_primes qhat ctx nbits p1 q1 h g)
                  (bindc (rd g) (\<lambda>G. bindc (defd (mpi_cmp_int G 1)) (\<lambda>c. ret (c \<noteq> 0))))) True)
              (seqc (mpi_inv_mod qhat (rD ctx) (rE ctx) h)
                (seqc (mpi_mod_mpi qhat (rDP ctx) (rD ctx) p1)
                  (seqc (mpi_mod_mpi qhat (rDQ ctx) (rD ctx) q1)
                    (seqc (mpi_inv_mod qhat (rQP ctx) (rQ ctx) (rP ctx))
                      (bindc (rd (rN ctx)) (\<lambda>N. bindc (defd (mpi_msb N)) (\<lambda>m.
                        ret (ctx\<lparr>rsa_len := (m + 7) div 8\<rparr>)))))))))) \<sigma> of
        None \<Rightarrow> None
      | Some (Inr ctx', \<sigma>') \<Rightarrow> Some (Inr ctx', \<sigma>')
      | Some (Inl e, \<sigma>') \<Rightarrow> seqc (rsa_free ctx) (throw (POLARSSL_ERR_RSA_KEY_GEN_FAILED OR e)) \<sigma>'))"

definition rsa_check_pubkey :: "rsa_context \<Rightarrow> unit cm" where
  "rsa_check_pubkey ctx =
     bindc (rd (rN ctx)) (\<lambda>N. bindc (rd (rE ctx)) (\<lambda>E.
       if mpi_p N = [] \<or> mpi_p E = [] then throw POLARSSL_ERR_RSA_KEY_CHECK_FAILED
       else if mpi_p N ! 0 AND 1 = 0 \<or> mpi_p E ! 0 AND 1 = 0 then throw POLARSSL_ERR_RSA_KEY_CHECK_FAILED
       else bindc (defd (mpi_msb N)) (\<lambda>mN.
         if mN < 128 \<or> mN > 4096 then throw POLARSSL_ERR_RSA_KEY_CHECK_FAILED
         else bindc (defd (mpi_msb E)) (\<lambda>mE.
           if mE < 2 \<or> mE > 64 then throw POLARSSL_ERR_RSA_KEY_CHECK_FAILED else ret ()))))"

definition rsa_check_privkey ::
  "(t_int \<Rightarrow> t_int \<Rightarrow> t_int \<Rightarrow> t_int option) \<Rightarrow> rsa_context \<Rightarrow> unit cm" where
  "rsa_check_privkey qhat ctx =
     seqc (rsa_check_pubkey ctx)
       (bindc (rd (rP ctx)) (\<lambda>P. bindc (rd (rQ ctx)) (\<lambda>Q. bindc (rd (rD ctx)) (\<lambda>D.
         if mpi_p P = [] \<or> mpi_p Q = [] \<or> mpi_p D = [] then throw POLARSSL_ERR_RSA_KEY_CHECK_FAILED
         else locals 7 (\<lambda>pq. let de = pq + 1; p1 = pq + 2; q1 = pq + 3; h = pq + 4; i = pq + 5; g = pq + 6 in
           seqc (or_err POLARSSL_ERR_RSA_KEY_CHECK_FAILED
              (seqc (mpi_mul_mpi pq (rP ctx) (rQ ctx)) (seqc (mpi_mul_mpi de (rD ctx) (rE ctx))
                (seqc (mpi_sub_int p1 (rP ctx) 1) (seqc (mpi_sub_int q1 (rQ ctx) 1)
                  (seqc (mpi_mul_mpi h p1 q1) (seqc (mpi_mod_mpi qhat i de h) (mpi_gcd g (rE ctx) h))))))))
             (bindc (rd pq) (\<lambda>PQ. bindc (rd (rN ctx)) (\<lambda>N. bindc (rd i) (\<lambda>I. bindc (rd g) (\<lambda>G.
               bindc (defd (mpi_cmp_int I 1)) (\<lambda>cI. bindc (defd (mpi_cmp_int G 1)) (\<lambda>cG.
                 if mpi_cmp_mpi PQ N = 0 \<and> cI = 0 \<and> cG = 0 then ret ()
                 else throw POLARSSL_ERR_RSA_KEY_CHECK_FAILED))))))))))))"

subsection \<open>The two operations\<close>

text \<open>\<open>mpi_read_binary( &T, input, ctx->len )\<close>: a shorter buffer is read past its end.\<close>

definition read_octets :: "addr \<Rightarrow> byte list \<Rightarrow> nat \<Rightarrow> unit cm" where
  "read_octets t input len = (if length input < len then defd None else mpi_read_binary t (take len input))"

definition rsa_public ::
  "(t_int \<Rightarrow> t_int \<Rightarrow> t_int \<Rightarrow> t_int option) \<Rightarrow> rsa_context \<Rightarrow> byte list \<Rightarrow> byte list cm" where
  "rsa_public qhat ctx input =
     locals 1 (\<lambda>t.
       seqc (or_err POLARSSL_ERR_RSA_PUBLIC_FAILED (read_octets t input (rsa_len ctx)))
         (bindc (rd t) (\<lambda>T. bindc (rd (rN ctx)) (\<lambda>N.
           if mpi_cmp_mpi T N \<ge> 0 then throw POLARSSL_ERR_RSA_BAD_INPUT_DATA
           else or_err POLARSSL_ERR_RSA_PUBLIC_FAILED
             (seqc (mpi_exp_mod qhat t t (rE ctx) (rN ctx) (Some (rRN ctx)))
               (bindc (rd t) (\<lambda>T. bindc (defd (mpi_write_binary T (rsa_len ctx))) chk)))))))"

definition rsa_crt :: "(t_int \<Rightarrow> t_int \<Rightarrow> t_int \<Rightarrow> t_int option) \<Rightarrow> rsa_context \<Rightarrow> addr \<Rightarrow> addr \<Rightarrow> addr \<Rightarrow> unit cm" where
  "rsa_crt qhat ctx t t1 t2 =
     seqc (mpi_exp_mod qhat t1 t (rDP ctx) (rP ctx) (Some (rRP ctx)))
       (seqc (mpi_exp_mod qhat t2 t (rDQ ctx) (rQ ctx) (Some (rRQ ctx)))
         (seqc (mpi_sub_mpi t t1 t2) (seqc (mpi_mul_mpi t1 t (rQP ctx))
           (seqc (mpi_mod_mpi qhat t t1 (rP ctx))
             (seqc (mpi_mul_mpi t1 t (rQ ctx)) (mpi_add_mpi t t2 t1))))))"

definition rsa_private ::
  "(t_int \<Rightarrow> t_int \<Rightarrow> t_int \<Rightarrow> t_int option) \<Rightarrow> rsa_context \<Rightarrow> byte list \<Rightarrow> byte list cm" where
  "rsa_private qhat ctx input =
     locals 3 (\<lambda>t. let t1 = t + 1; t2 = t + 2 in
       seqc (or_err POLARSSL_ERR_RSA_PRIVATE_FAILED (read_octets t input (rsa_len ctx)))
         (bindc (rd t) (\<lambda>T. bindc (rd (rN ctx)) (\<lambda>N.
           if mpi_cmp_mpi T N \<ge> 0 then throw POLARSSL_ERR_RSA_BAD_INPUT_DATA
           else or_err POLARSSL_ERR_RSA_PRIVATE_FAILED
             (seqc (rsa_crt qhat ctx t t1 t2)
               (bindc (rd t) (\<lambda>T. bindc (defd (mpi_write_binary T (rsa_len ctx))) chk)))))))"

definition rsa_op ::
  "(t_int \<Rightarrow> t_int \<Rightarrow> t_int \<Rightarrow> t_int option) \<Rightarrow> rsa_context \<Rightarrow> int \<Rightarrow> byte list \<Rightarrow> byte list cm" where
  "rsa_op qhat ctx mode input = (if mode = RSA_PUBLIC then rsa_public qhat ctx input else rsa_private qhat ctx input)"

subsection \<open>Padding\<close>

text \<open>
  \<open>nb_pad\<close> non-zero random bytes: the list holds the results of the coming calls of
  \<open>rand\<close>, and a run that uses them up has no result.
\<close>

fun nonzero_pad :: "nat \<Rightarrow> int list \<Rightarrow> byte list option" where
  "nonzero_pad 0 rs = Some []"
| "nonzero_pad (Suc k) [] = None"
| "nonzero_pad (Suc k) (r # rs) =
     (let b = word_of_int r :: byte in
      if b = 0 then nonzero_pad (Suc k) rs else map_option ((#) b) (nonzero_pad k rs))"

text \<open>The result of an operation on \<open>int\<close>; a signed overflow has none.\<close>

definition c_int :: "int \<Rightarrow> int option" where
  "c_int z = (if - (2 ^ 31) \<le> z \<and> z < 2 ^ 31 then Some z else None)"

text \<open>\<open>memcpy( p, xs, k )\<close> reads \<open>k\<close> bytes of \<open>xs\<close>; a negative \<open>k\<close> is a huge \<open>size_t\<close>.\<close>

definition take_exact :: "int \<Rightarrow> 'a list \<Rightarrow> 'a list option" where
  "take_exact k xs = (if k < 0 \<or> int (length xs) < k then None else Some (take (nat k) xs))"

definition rsa_pkcs1_encrypt ::
  "(t_int \<Rightarrow> t_int \<Rightarrow> t_int \<Rightarrow> t_int option) \<Rightarrow> int list \<Rightarrow> rsa_context \<Rightarrow> int \<Rightarrow> int \<Rightarrow> byte list \<Rightarrow> byte list cm" where
  "rsa_pkcs1_encrypt qhat rand ctx mode ilen input =
     (let olen = int (rsa_len ctx) in
      if rsa_padding ctx = RSA_PKCS_V15
      then if ilen < 0 then throw POLARSSL_ERR_RSA_BAD_INPUT_DATA
           else bindc (defd (c_int (ilen + 11))) (\<lambda>need.
             if olen < need then throw POLARSSL_ERR_RSA_BAD_INPUT_DATA
             else let nb_pad = olen - 3 - ilen in
               bindc (defd (nonzero_pad (nat nb_pad) rand)) (\<lambda>pad.
                 bindc (defd (take_exact ilen input)) (\<lambda>m.
                   rsa_op qhat ctx mode ([0, RSA_CRYPT] @ pad @ [0] @ m))))
      else throw POLARSSL_ERR_RSA_INVALID_PADDING)"

text \<open>
  \<open>while( *p != 0 )\<close>: skip the padding, to what follows the zero byte; \<open>None\<close> when the
  end of the buffer is reached or a byte is not a padding byte.
\<close>

fun skip_pad :: "(byte \<Rightarrow> bool) \<Rightarrow> byte list \<Rightarrow> byte list option" where
  "skip_pad good [] = None"
| "skip_pad good (c # cs) = (if c = 0 then Some cs else if cs = [] \<or> \<not> good c then None else skip_pad good cs)"

definition rsa_pkcs1_decrypt ::
  "(t_int \<Rightarrow> t_int \<Rightarrow> t_int \<Rightarrow> t_int option) \<Rightarrow> rsa_context \<Rightarrow> int \<Rightarrow> byte list \<Rightarrow> int \<Rightarrow> byte list cm" where
  "rsa_pkcs1_decrypt qhat ctx mode input output_max_len =
     (let ilen = rsa_len ctx in
      if ilen < 16 \<or> ilen > 1024 then throw POLARSSL_ERR_RSA_BAD_INPUT_DATA
      else bindc (rsa_op qhat ctx mode input) (\<lambda>buf.
        if rsa_padding ctx = RSA_PKCS_V15
        then if buf ! 0 \<noteq> 0 \<or> buf ! 1 \<noteq> RSA_CRYPT then throw POLARSSL_ERR_RSA_INVALID_PADDING
             else (case skip_pad (\<lambda>_. True) (drop 2 buf) of
                 None \<Rightarrow> throw POLARSSL_ERR_RSA_INVALID_PADDING
               | Some p \<Rightarrow> if int (length p) > output_max_len then throw POLARSSL_ERR_RSA_OUTPUT_TOO_LARGE else ret p)
        else throw POLARSSL_ERR_RSA_INVALID_PADDING))"

subsection \<open>Signatures\<close>

text \<open>The length of the encoded digest; \<open>None\<close> for an unknown hash.\<close>

definition digest_info_len :: "int \<Rightarrow> int \<Rightarrow> int option" where
  "digest_info_len hash_id hashlen =
     (if hash_id = SIG_RSA_RAW then Some hashlen
      else if hash_id = SIG_RSA_MD2 \<or> hash_id = SIG_RSA_MD4 \<or> hash_id = SIG_RSA_MD5 then Some 34
      else if hash_id = SIG_RSA_SHA1 then Some 35
      else if hash_id = SIG_RSA_SHA224 then Some 47
      else if hash_id = SIG_RSA_SHA256 then Some 51
      else if hash_id = SIG_RSA_SHA384 then Some 67
      else if hash_id = SIG_RSA_SHA512 then Some 83
      else None)"

definition digest_info :: "int \<Rightarrow> int \<Rightarrow> byte list \<Rightarrow> (int + byte list) option" where
  "digest_info hash_id hashlen hash =
     (let mdx = (\<lambda>b. map_option (\<lambda>h. Inr ((ASN1_HASH_MDX @ h)[13 := b])) (take_exact 16 hash));
          sha2 = (\<lambda>k b. map_option (\<lambda>h. Inr ((ASN1_HASH_SHA2X @ h)[1 := 0x11 + word_of_int k, 14 := b, 18 := word_of_int k]))
                       (take_exact k hash))
      in if hash_id = SIG_RSA_RAW then map_option Inr (take_exact hashlen hash)
         else if hash_id = SIG_RSA_MD2 then mdx 2
         else if hash_id = SIG_RSA_MD4 then mdx 4
         else if hash_id = SIG_RSA_MD5 then mdx 5
         else if hash_id = SIG_RSA_SHA1 then map_option (\<lambda>h. Inr (ASN1_HASH_SHA1 @ h)) (take_exact 20 hash)
         else if hash_id = SIG_RSA_SHA224 then sha2 28 4
         else if hash_id = SIG_RSA_SHA256 then sha2 32 1
         else if hash_id = SIG_RSA_SHA384 then sha2 48 2
         else if hash_id = SIG_RSA_SHA512 then sha2 64 3
         else Some (Inl POLARSSL_ERR_RSA_BAD_INPUT_DATA))"

definition rsa_pkcs1_sign ::
  "(t_int \<Rightarrow> t_int \<Rightarrow> t_int \<Rightarrow> t_int option) \<Rightarrow> rsa_context \<Rightarrow> int \<Rightarrow> int \<Rightarrow> int \<Rightarrow> byte list \<Rightarrow> byte list cm" where
  "rsa_pkcs1_sign qhat ctx mode hash_id hashlen hash =
     (let olen = int (rsa_len ctx) in
      if rsa_padding ctx = RSA_PKCS_V15
      then (case digest_info_len hash_id hashlen of
          None \<Rightarrow> throw POLARSSL_ERR_RSA_BAD_INPUT_DATA
        | Some k \<Rightarrow> bindc (defd (c_int (olen - 3 - k))) (\<lambda>nb_pad.
            if nb_pad < 8 then throw POLARSSL_ERR_RSA_BAD_INPUT_DATA
            else bindc (defd (digest_info hash_id hashlen hash)) (\<lambda>d. bindc (chk d) (\<lambda>p.
              rsa_op qhat ctx mode ([0, RSA_SIGN] @ replicate (nat nb_pad) 0xFF @ [0] @ p)))))
      else throw POLARSSL_ERR_RSA_INVALID_PADDING)"

text \<open>\<open>memcmp( a, b, k ) == 0\<close>.\<close>

definition memcmp_eq :: "byte list \<Rightarrow> byte list \<Rightarrow> nat \<Rightarrow> bool option" where
  "memcmp_eq a b k = (if length a < k \<or> length b < k then None else Some (take k a = take k b))"

text \<open>The comparison of the decrypted digest \<open>p\<close>, case by case; the result is the return code.\<close>

definition check_digest :: "int \<Rightarrow> int \<Rightarrow> byte list \<Rightarrow> byte list \<Rightarrow> int option" where
  "check_digest hash_id hashlen hash p0 =
     (let len = length p0; yes_no = (\<lambda>b. if b then 0 else POLARSSL_ERR_RSA_VERIFY_FAILED);
          md = len = 34; c = (if md then p0 ! 13 else 0); p = (if md then p0[13 := 0] else p0)
      in if md \<and> take 18 p \<noteq> ASN1_HASH_MDX then Some POLARSSL_ERR_RSA_VERIFY_FAILED
         else if md \<and> (c = 2 \<and> hash_id = SIG_RSA_MD2 \<or> c = 4 \<and> hash_id = SIG_RSA_MD4 \<or> c = 5 \<and> hash_id = SIG_RSA_MD5)
         then map_option yes_no (memcmp_eq (drop 18 p) hash 16)
         else if len = 35 \<and> hash_id = SIG_RSA_SHA1
         then (if take 15 p = ASN1_HASH_SHA1 then map_option yes_no (memcmp_eq (drop 15 p) hash 20)
               else Some POLARSSL_ERR_RSA_VERIFY_FAILED)
         else if len = 19 + 28 \<and> p ! 14 = 4 \<and> hash_id = SIG_RSA_SHA224 \<or>
                 len = 19 + 32 \<and> p ! 14 = 1 \<and> hash_id = SIG_RSA_SHA256 \<or>
                 len = 19 + 48 \<and> p ! 14 = 2 \<and> hash_id = SIG_RSA_SHA384 \<or>
                 len = 19 + 64 \<and> p ! 14 = 3 \<and> hash_id = SIG_RSA_SHA512
         then let c = p ! 1 - 17; p = p[1 := 17, 14 := 0] in
              if p ! 18 = c \<and> take 18 p = take 18 ASN1_HASH_SHA2X
              then map_option yes_no (memcmp_eq (drop 19 p) hash (unat c))
              else Some POLARSSL_ERR_RSA_VERIFY_FAILED
         else if int len = hashlen \<and> hash_id = SIG_RSA_RAW
         then map_option yes_no (memcmp_eq p hash len)
         else Some POLARSSL_ERR_RSA_INVALID_PADDING)"

definition rsa_pkcs1_verify ::
  "(t_int \<Rightarrow> t_int \<Rightarrow> t_int \<Rightarrow> t_int option) \<Rightarrow> rsa_context \<Rightarrow> int \<Rightarrow> int \<Rightarrow> int \<Rightarrow> byte list \<Rightarrow> byte list \<Rightarrow> unit cm" where
  "rsa_pkcs1_verify qhat ctx mode hash_id hashlen hash sig =
     (let siglen = rsa_len ctx in
      if siglen < 16 \<or> siglen > 1024 then throw POLARSSL_ERR_RSA_BAD_INPUT_DATA
      else bindc (rsa_op qhat ctx mode sig) (\<lambda>buf.
        if rsa_padding ctx = RSA_PKCS_V15
        then if buf ! 0 \<noteq> 0 \<or> buf ! 1 \<noteq> RSA_SIGN then throw POLARSSL_ERR_RSA_INVALID_PADDING
             else (case skip_pad (\<lambda>c. c = 0xFF) (drop 2 buf) of
                 None \<Rightarrow> throw POLARSSL_ERR_RSA_INVALID_PADDING
               | Some p \<Rightarrow> bindc (defd (check_digest hash_id hashlen hash p)) (\<lambda>r. if r = 0 then ret () else throw r))
        else throw POLARSSL_ERR_RSA_INVALID_PADDING))"

end
