(* ===== verification/Mpi_Octets.thy ===== *)
theory Mpi_Octets
  imports Mpi_Text
begin

text \<open>
  Correctness of the octet-string conversions: \<open>mpi_read_binary\<close> reads the big-endian value
  of a buffer, \<open>mpi_write_binary\<close> writes it back, right-aligned and padded with zeros.
\<close>

subsection \<open>The value of an octet string\<close>

fun le_octets :: "byte list \<Rightarrow> int" where
  "le_octets [] = 0"
| "le_octets (b # bs) = uint b + 256 * le_octets bs"

definition os2ip :: "byte list \<Rightarrow> int" where
  "os2ip buf = le_octets (rev buf)"

lemma uint_byte_bounds: "0 \<le> uint (b :: byte)" "uint (b :: byte) < 256"
  using uint_bounded [of b] by simp_all

lemma le_octets_nonneg [simp]: "0 \<le> le_octets bs"
  by (induction bs) simp_all

lemma le_octets_less: "le_octets bs < 256 ^ length bs"
proof (induction bs)
  case (Cons b bs)
  then have "1 + le_octets bs \<le> 256 ^ length bs" by simp
  with uint_byte_bounds(2) [of b] show ?case by (simp only: le_octets.simps list.size power_Suc add_Suc_right) simp
qed simp

lemma le_octets_append: "le_octets (xs @ ys) = le_octets xs + 256 ^ length xs * le_octets ys"
  by (induction xs) (simp_all add: distrib_left)

lemma le_octets_zeros [simp]: "le_octets (replicate k 0) = 0"
  by (induction k) simp_all

lemma le_octets_inject: "length xs = length ys \<Longrightarrow> le_octets xs = le_octets ys \<Longrightarrow> xs = ys"
proof (induction xs ys rule: list_induct2)
  case (Cons x xs y ys)
  have "uint x = (uint x + 256 * le_octets xs) mod 256" using uint_byte_bounds [of x] by simp
  also have "\<dots> = uint y" using Cons.prems uint_byte_bounds [of y] by simp
  finally have "x = y" by (simp add: word_uint_eq_iff)
  with Cons show ?case by simp
qed simp

lemma os2ip_less: "0 \<le> os2ip buf" "os2ip buf < 256 ^ length buf"
  using le_octets_less [of "rev buf"] by (simp_all add: os2ip_def)

lemma os2ip_inject: "length xs = length ys \<Longrightarrow> os2ip xs = os2ip ys \<Longrightarrow> xs = ys"
  using le_octets_inject [of "rev xs" "rev ys"] by (simp add: os2ip_def)

lemma os2ip_zeros: "os2ip (replicate k 0 @ buf) = os2ip buf"
  by (simp add: os2ip_def le_octets_append)

lemma os2ip_skip: "os2ip (drop (length (takeWhile (\<lambda>b. b = 0) buf)) buf) = os2ip buf"
proof -
  have "takeWhile (\<lambda>b. b = 0) buf = replicate (length (takeWhile (\<lambda>b. b = 0) buf)) 0"
    by (rule replicate_eqI) (auto dest: set_takeWhileD)
  then show ?thesis
    using os2ip_zeros [of "length (takeWhile (\<lambda>b. b = 0) buf)" "dropWhile (\<lambda>b. b = 0) buf"]
    by (metis dropWhile_eq_drop takeWhile_dropWhile_id)
qed

lemma nat_pow_256: "(256 :: int) ^ j = 2 ^ (8 * j)"
  by (simp add: power_mult)

lemma BB_256: "BB ^ i * 256 ^ r = 256 ^ (8 * i + r)"
proof -
  have "BB = 256 ^ 8" by simp
  then show ?thesis by (simp only: power_mult power_add)
qed

text \<open>One octet more, in its limb.\<close>

lemma put_octet:
  assumes "j div 8 < length ws" "nval ws < 256 ^ j"
  shows "nval (ws[j div 8 := ws ! (j div 8) OR push_bit (j mod 8 * 8) (ucast (b :: byte))]) = nval ws + 256 ^ j * uint b"
proof -
  let ?i = "j div 8" and ?k = "j mod 8 * 8"
  have j: "j = 8 * ?i + j mod 8" by simp
  have "BB ^ ?i * 256 ^ (j mod 8) = 256 ^ j" by (subst (3) j) (rule BB_256)
  then have less: "nval ws < BB ^ ?i * 256 ^ (j mod 8)" using assms(2) by simp
  have "uint (ws ! ?i) * BB ^ ?i \<le> nval ws" by (rule nval_ge_nth) (rule assms(1))
  then have "BB ^ ?i * uint (ws ! ?i) \<le> nval ws" by (simp only: mult.commute)
  then have "BB ^ ?i * uint (ws ! ?i) < BB ^ ?i * 256 ^ (j mod 8)" using less by linarith
  then have w: "uint (ws ! ?i) < 2 ^ ?k" unfolding nat_pow_256 by (simp add: mult.commute)
  have k: "?k \<le> 56" by simp
  have "(2::int) ^ ?k * uint b < 2 ^ ?k * 2 ^ 8" using uint_byte_bounds(2) [of b] by (intro mult_strict_left_mono) simp_all
  also have "\<dots> = 2 ^ (?k + 8)" by (simp only: power_add)
  also have "\<dots> \<le> 2 ^ 64" using k by (intro power_increasing) simp_all
  finally have "uint (push_bit ?k (ucast b :: t_int)) = 2 ^ ?k * uint b"
    by (simp add: uint_push_bit uint_up_ucast is_up)
  then have "uint (ws ! ?i OR push_bit ?k (ucast b)) = uint (ws ! ?i) + 2 ^ ?k * uint b"
    using int_or_disjoint [of "uint (ws ! ?i)" ?k "uint b"] w by (simp add: uint_or or.commute add.commute)
  then have "nval (ws[?i := ws ! ?i OR push_bit ?k (ucast b)]) = nval ws + BB ^ ?i * (2 ^ ?k * uint b)"
    by (simp add: nval_update [OF assms(1)])
  also have "BB ^ ?i * (2 ^ ?k * uint b) = (BB ^ ?i * 256 ^ (j mod 8)) * uint b"
    unfolding nat_pow_256 by (simp add: mult.commute)
  finally show ?thesis unfolding \<open>BB ^ ?i * 256 ^ (j mod 8) = 256 ^ j\<close> .
qed

subsection \<open>Reading\<close>

lemma CHARS_TO_LIMBS_index: "j < m \<Longrightarrow> j div 8 < CHARS_TO_LIMBS m"
  unfolding CHARS_TO_LIMBS_def by linarith

lemma mpi_read_binary_ok:
  assumes "oom \<sigma> = []"
    and Q: "\<And>v. mpi_s v = 1 \<Longrightarrow> nval (mpi_p v) = os2ip buf \<Longrightarrow> mpi_p v \<noteq> [] \<Longrightarrow> Q () (put x v \<sigma>)"
  shows "ok (mpi_read_binary x buf) \<sigma> Q"
proof -
  define n m where "n = length (takeWhile (\<lambda>b. b = 0) buf)" and "m = length buf - n"
  have nm: "n \<le> length buf" by (simp add: n_def length_takeWhile_le)
  define N where "N = max (CHARS_TO_LIMBS m) (mpi_n (heap \<sigma> x))"
  define r where "r = rev (drop n buf)"
  have r: "length r = m" "le_octets r = os2ip buf" using os2ip_skip [of buf] by (simp_all add: r_def m_def n_def os2ip_def)
  have nth: "buf ! (length buf - 1 - j) = r ! j" if "j < m" for j
    using that nm by (simp add: r_def m_def rev_nth)
  let ?I = "\<lambda>j \<tau>. \<exists>v. \<tau> = put x v \<sigma> \<and> mpi_s v = 1 \<and> max N 1 = mpi_n v \<and> nval (mpi_p v) = le_octets (take j r)"
  have "ok (forc [0..<m] (\<lambda>j. bindc (get_limb x (j div 8)) (\<lambda>l.
      set_limb x (j div 8) (l OR push_bit (j mod 8 * 8) (ucast (buf ! (length buf - 1 - j))))))) (put x (lset_val N 0) \<sigma>) Q"
  proof (rule ok_for_up [where I = ?I])
    show "?I 0 (put x (lset_val N 0) \<sigma>)" using mval_lset_val(1) [of 0 N] by (auto simp: int_sign_def)
    fix j \<tau> assume j: "j < m" and "?I j \<tau>"
    then obtain v where v: "\<tau> = put x v \<sigma>" "mpi_s v = 1" "max N 1 = mpi_n v" "nval (mpi_p v) = le_octets (take j r)" by blast
    have l: "j div 8 < mpi_n v" using CHARS_TO_LIMBS_index [OF j] v(3) by (simp add: N_def)
    have less: "nval (mpi_p v) < 256 ^ j" using le_octets_less [of "take j r"] j r(1) v(4) by simp
    have "take (Suc j) r = take j r @ [r ! j]" using j r(1) by (simp add: take_Suc_conv_app_nth)
    then have "nval ((mpi_p v)[j div 8 := mpi_p v ! (j div 8) OR push_bit (j mod 8 * 8) (ucast (r ! j))]) = le_octets (take (Suc j) r)"
      using put_octet [OF l less, of "r ! j"] v(4) j r(1) by (simp add: le_octets_append)
    then show "ok (bindc (get_limb x (j div 8)) (\<lambda>l.
      set_limb x (j div 8) (l OR push_bit (j mod 8 * 8) (ucast (buf ! (length buf - 1 - j)))))) \<tau> (\<lambda>_. ?I (Suc j))"
      using v l nth [OF j] by (simp add: wp) (intro exI conjI, rule refl, simp_all)
  next
    fix \<tau> assume "?I m \<tau>"
    then obtain v where v: "\<tau> = put x v \<sigma>" "mpi_s v = 1" "max N 1 = mpi_n v" "nval (mpi_p v) = le_octets (take m r)" by blast
    then have "mpi_p v \<noteq> []" by (cases "mpi_p v") auto
    then show "Q () \<tau>" using v r by (auto intro: Q)
  qed simp
  then show ?thesis
    using assms(1) by (simp add: mpi_read_binary_def Let_def wp N_def m_def n_def max.commute)
qed

subsection \<open>Writing\<close>

text \<open>Octet \<open>j\<close> of a limb list.\<close>

definition octet :: "t_int list \<Rightarrow> nat \<Rightarrow> byte" where
  "octet ws j = ucast (drop_bit (j mod 8 * 8) (ws ! (j div 8)))"

lemma uint_octet:
  assumes "j div 8 < length ws"
  shows "uint (octet ws j) = nval ws div 256 ^ j mod 256"
proof -
  let ?i = "j div 8" and ?k = "j mod 8 * 8"
  have "uint (octet ws j) = uint (ws ! ?i) div 2 ^ ?k mod 2 ^ 8"
    by (simp add: octet_def unsigned_ucast_eq uint_drop_bit take_bit_eq_mod)
  also have "\<dots> = (uint (ws ! ?i) + BB * (nval ws div BB ^ Suc ?i)) div 2 ^ ?k mod 2 ^ 8"
  proof -
    have "?k + 8 \<le> 64" by simp
    then have "BB = 2 ^ ?k * (2 ^ 8 * 2 ^ (64 - (?k + 8)))"
      by (simp only: power_add [symmetric] le_add_diff_inverse BB_eq [symmetric] add.assoc [symmetric])
    then have e: "BB * z = 2 ^ ?k * (2 ^ 8 * (2 ^ (64 - (?k + 8)) * z))" for z by (simp only: mult.assoc)
    show ?thesis unfolding e by (subst div_mult_self2) simp_all
  qed
  also have "\<dots> = nval ws div BB ^ ?i div 2 ^ ?k mod 2 ^ 8" by (simp only: limb_div [OF assms, symmetric])
  also have "nval ws div BB ^ ?i div 2 ^ ?k = nval ws div (BB ^ ?i * 256 ^ (j mod 8))"
    unfolding nat_pow_256 by (subst zdiv_zmult2_eq) (simp_all add: mult.commute [of _ 8])
  also have "BB ^ ?i * 256 ^ (j mod 8) = 256 ^ j" unfolding BB_256 by simp
  finally show ?thesis by simp
qed

lemma le_octets_digits:
  assumes "\<And>j. j < n \<Longrightarrow> uint (f j) = v div 256 ^ j mod 256" "0 \<le> v"
  shows "le_octets (map f [0..<n]) = v mod 256 ^ n"
  using assms(1)
proof (induction n)
  case (Suc n)
  have "v mod 256 ^ Suc n = v mod (256 ^ n * 256)" by (simp only: power_Suc2)
  also have "\<dots> = v mod 256 ^ n + 256 ^ n * (v div 256 ^ n mod 256)" by (simp add: zmod_zmult2_eq)
  finally show ?case using Suc by (simp add: le_octets_append)
qed simp

lemma fold_write_octets:
  assumes "n \<le> L"
  shows "fold (\<lambda>j buf. buf[L - 1 - j := f j]) [0..<n] (replicate L 0) = replicate (L - n) 0 @ rev (map f [0..<n])"
  using assms
proof (induction n)
  case (Suc n)
  then have "fold (\<lambda>j buf. buf[L - 1 - j := f j]) [0..<n] (replicate L 0) = replicate (L - n) 0 @ rev (map f [0..<n])" by simp
  moreover have "L - n = Suc (L - Suc n)" "L - 1 - n = L - Suc n" using Suc.prems by simp_all
  ultimately show ?case
    by (simp add: replicate_app_Cons_same [symmetric] list_update_append del: replicate.simps(2))
       (simp add: replicate_append_same [symmetric] list_update_append)
qed simp

lemma mpi_size_bounds:
  assumes "mpi_size X = Some n"
  shows "nval (mpi_p X) < 256 ^ n" "j < n \<Longrightarrow> j div 8 < mpi_n X" "nval (mpi_p X) < 256 ^ k \<Longrightarrow> n \<le> k"
proof -
  obtain m where m: "mpi_msb X = Some m" "n = (m + 7) div 8" using assms by (auto simp: mpi_size_def)
  have "m \<le> 8 * n" using m(2) by linarith
  then have "(2 :: int) ^ m \<le> 256 ^ n" unfolding nat_pow_256 by (intro power_increasing) simp_all
  with mpi_msb_spec(1) [OF m(1)] show "nval (mpi_p X) < 256 ^ n" by linarith
  have up: "m \<le> c" if "nval (mpi_p X) < 2 ^ c" for c
  proof (cases "nval (mpi_p X) = 0")
    case False
    have "(2 :: int) ^ (m - 1) < 2 ^ c" using mpi_msb_spec(2) [OF m(1) False] that by linarith
    then have "m - 1 < c" by (rule power_less_imp_less_exp [rotated]) simp
    then show ?thesis by linarith
  qed (use mpi_msb_spec(3) [OF m(1)] in simp)
  have "m \<le> mpi_n X * 64" using nval_less [of "mpi_p X"] by (intro up) (simp add: BB_power)
  then show "j < n \<Longrightarrow> j div 8 < mpi_n X" using m(2) by linarith
  show "n \<le> k" if "nval (mpi_p X) < 256 ^ k"
    using up [of "8 * k"] that m(2) unfolding nat_pow_256 by linarith
qed

lemma mpi_write_binary_spec:
  assumes "mpi_p X \<noteq> []"
  shows "nval (mpi_p X) < 256 ^ k \<Longrightarrow> \<exists>buf. mpi_write_binary X k = Some (Inr buf) \<and> length buf = k \<and> os2ip buf = nval (mpi_p X)"
    "256 ^ k \<le> nval (mpi_p X) \<Longrightarrow> mpi_write_binary X k = Some (Inl POLARSSL_ERR_MPI_BUFFER_TOO_SMALL)"
proof -
  obtain n where n: "mpi_size X = Some n" using mpi_msb_defined [OF assms] by (auto simp: mpi_size_def)
  note b = mpi_size_bounds [OF n]
  {
    assume "nval (mpi_p X) < 256 ^ k"
    then have k: "n \<le> k" by (rule b(3))
    let ?buf = "replicate (k - n) 0 @ rev (map (octet (mpi_p X)) [0..<n])"
    have "mpi_write_binary X k = Some (Inr ?buf)"
      using k fold_write_octets [OF k, of "octet (mpi_p X)"] by (simp add: mpi_write_binary_def n octet_def)
    moreover have "os2ip ?buf = nval (mpi_p X)"
      unfolding os2ip_zeros using b(1) le_octets_digits [of n "octet (mpi_p X)" "nval (mpi_p X)"] uint_octet b(2)
      by (simp add: os2ip_def)
    ultimately show "\<exists>buf. mpi_write_binary X k = Some (Inr buf) \<and> length buf = k \<and> os2ip buf = nval (mpi_p X)"
      using k by (intro exI [of _ ?buf]) simp
  }
  assume "256 ^ k \<le> nval (mpi_p X)"
  then have "(256 :: int) ^ k < 256 ^ n" using b(1) by linarith
  then have "k < n" by (rule power_less_imp_less_exp [rotated]) simp
  then show "mpi_write_binary X k = Some (Inl POLARSSL_ERR_MPI_BUFFER_TOO_SMALL)" by (simp add: mpi_write_binary_def n)
qed

end
