(* ===== verification/Fermat.thy ===== *)
theory Fermat
  imports Prelude
begin

text \<open>
  The number theory behind RSA: Fermat's little theorem by the binomial theorem, the key
  equation, and the recombination of the two residues by the Chinese remainder theorem.
\<close>

subsection \<open>Primes\<close>

definition prim :: "int \<Rightarrow> bool" where
  "prim p \<longleftrightarrow> 1 < p \<and> (\<forall>d. 0 < d \<longrightarrow> d dvd p \<longrightarrow> d = 1 \<or> d = p)"

lemma prim_coprime: "prim p \<Longrightarrow> \<not> p dvd a \<Longrightarrow> coprime a p"
proof -
  assume p: "prim p" and a: "\<not> p dvd a"
  have "0 < gcd a p" using p by (simp add: prim_def)
  then have "gcd a p = 1 \<or> gcd a p = p" using p by (simp add: prim_def)
  moreover have "gcd a p \<noteq> p"
  proof
    assume "gcd a p = p"
    then have "p dvd a" using gcd_dvd1 [of a p] by simp
    with a show False ..
  qed
  ultimately show ?thesis by (simp add: coprime_iff_gcd_eq_1)
qed

lemma prim_dvd_mult: "prim p \<Longrightarrow> p dvd a * b \<Longrightarrow> p dvd a \<or> p dvd b"
  using prim_coprime [of p a] by (metis coprime_commute coprime_dvd_mult_right_iff)

lemma prim_distinct_coprime: "prim p \<Longrightarrow> prim q \<Longrightarrow> p \<noteq> q \<Longrightarrow> coprime p q"
proof -
  assume p: "prim p" and q: "prim q" and ne: "p \<noteq> q"
  have "\<not> p dvd q"
  proof
    assume "p dvd q"
    moreover have "0 < p" "1 < p" using p by (simp_all add: prim_def)
    ultimately show False using q ne unfolding prim_def by force
  qed
  then show ?thesis using prim_coprime [OF p, of q] by (simp add: coprime_commute)
qed

subsection \<open>Fermat's little theorem\<close>

lemma prim_dvd_choose:
  assumes "prim (int p)" "0 < k" "k < p"
  shows "int p dvd int (p choose k)"
proof -
  obtain m where m: "p = Suc m" using assms(2,3) by (cases p) auto
  obtain j where j: "k = Suc j" using assms(2) by (cases k) auto
  have "Suc j * (Suc m choose Suc j) = Suc m * (m choose j)" by (rule Suc_times_binomial)
  then have "k * (p choose k) = p * (m choose j)" unfolding m j .
  then have "int k * int (p choose k) = int p * int (m choose j)" by (simp only: of_nat_mult [symmetric])
  then have "int p dvd int k * int (p choose k)" by simp
  moreover have "\<not> int p dvd int k" using assms(2,3) by (simp add: nat_dvd_not_less)
  ultimately show ?thesis using prim_dvd_mult [OF assms(1)] by blast
qed

lemma binomial_mod:
  assumes "prim (int p)"
  shows "(a + 1) ^ p mod int p = (a ^ p + 1) mod int p"
proof -
  have p: "0 < p" using assms by (simp add: prim_def)
  have "(a + 1) ^ p = (\<Sum>k\<le>p. of_nat (p choose k) * a ^ k)" using binomial_ring [of a 1 p] by simp
  also have "{..p} = insert 0 (insert p {0<..<p})" using p by auto
  also have "(\<Sum>k\<in>insert 0 (insert p {0<..<p}). of_nat (p choose k) * a ^ k) = 1 + (a ^ p + (\<Sum>k\<in>{0<..<p}. int (p choose k) * a ^ k))"
    using p by simp
  finally have e: "(a + 1) ^ p = (a ^ p + 1) + (\<Sum>k\<in>{0<..<p}. int (p choose k) * a ^ k)" by simp
  have "int p dvd (\<Sum>k\<in>{0<..<p}. int (p choose k) * a ^ k)"
    using prim_dvd_choose [OF assms] by (intro dvd_sum dvd_mult2) simp
  then show ?thesis unfolding e by (simp add: mod_eq_dvd_iff)
qed

lemma fermat_nat: "prim (int p) \<Longrightarrow> int a ^ p mod int p = int a mod int p"
proof (induction a)
  case 0
  then have "p \<noteq> 0" by (auto simp: prim_def)
  then show ?case by (simp add: zero_power)
next
  case (Suc a)
  have "int (Suc a) ^ p mod int p = (int a ^ p + 1) mod int p" using binomial_mod [OF Suc.prems, of "int a"] by (simp add: add.commute)
  also have "\<dots> = (int a + 1) mod int p" using Suc by (intro mod_add_cong) simp_all
  finally show ?case by (simp add: add.commute)
qed

lemma fermat: "prim p \<Longrightarrow> a ^ nat p mod p = a mod p"
proof -
  assume p: "prim p"
  then have p0: "0 < p" by (simp add: prim_def)
  have "a ^ nat p mod p = (a mod p) ^ nat p mod p" by (simp add: power_mod)
  also have "a mod p = int (nat (a mod p))" using p0 by simp
  also have "int (nat (a mod p)) ^ nat p mod p = int (nat (a mod p)) mod p" using fermat_nat [of "nat p" "nat (a mod p)"] p p0 by simp
  finally show ?thesis using p0 by simp
qed

lemma fermat_iterate:
  assumes "prim p"
  shows "a ^ (1 + k * nat (p - 1)) mod p = a mod p"
proof (induction k)
  case (Suc k)
  have "1 < p" using assms by (simp add: prim_def)
  then have p: "nat p = 1 + nat (p - 1)" by linarith
  have "a ^ (1 + Suc k * nat (p - 1)) = a ^ (1 + k * nat (p - 1)) * a ^ nat (p - 1)" by (simp add: power_add)
  then have "a ^ (1 + Suc k * nat (p - 1)) mod p = (a mod p) * a ^ nat (p - 1) mod p" using Suc by (metis mod_mult_left_eq)
  also have "\<dots> = a ^ nat p mod p" unfolding p by (simp add: mod_mult_left_eq)
  finally show ?case using fermat [OF assms] by simp
qed simp

text \<open>The two exponents cancel modulo \<open>p\<close>.\<close>

lemma rsa_key_equation:
  assumes "prim p" "p \<noteq> 2" "(int e * int d) mod (p - 1) = 1"
  shows "(a ^ e) ^ d mod p = a mod p"
proof -
  have "1 < p" using assms(1) by (simp add: prim_def)
  have "e * d \<noteq> 0" using assms(3) by (intro notI) (auto simp del: of_nat_mult)
  then have "1 \<le> e * d" by simp
  have "(int (e * d)) mod (p - 1) = 1 mod (p - 1)" using assms(2,3) \<open>1 < p\<close> by simp
  then have "(p - 1) dvd int (e * d) - 1" by (simp only: mod_eq_dvd_iff)
  then obtain k where k: "int (e * d) - 1 = (p - 1) * k" by (elim dvdE)
  have "0 \<le> (p - 1) * k" using \<open>1 \<le> e * d\<close> k by linarith
  then have "0 \<le> k" using \<open>1 < p\<close> by (simp add: zero_le_mult_iff)
  then have "int (e * d) = int (1 + nat k * nat (p - 1))" using k \<open>1 < p\<close> by (simp add: mult.commute)
  then have "e * d = 1 + nat k * nat (p - 1)" by (simp only: of_nat_eq_iff)
  then show ?thesis using fermat_iterate [OF assms(1), of a "nat k"] by (simp only: power_mult [symmetric])
qed

subsection \<open>Recombination\<close>

lemma coprime_mod_eq:
  fixes a b :: int
  assumes "coprime p q" "a mod p = b mod p" "a mod q = b mod q"
  shows "a mod (p * q) = b mod (p * q)"
  using assms by (simp add: mod_eq_dvd_iff divides_mult)

text \<open>Garner's formula, as \<open>rsa_private\<close> computes it.\<close>

lemma garner:
  fixes x y p q i :: int
  assumes "0 < p" "0 < q" "(i * q) mod p = 1" "0 \<le> y" "y < q"
  defines "r \<equiv> y + ((x - y) * i mod p) * q"
  shows "r mod p = x mod p" "r mod q = y" "0 \<le> r" "r < p * q"
proof -
  have "r mod p = (y + (x - y) * (i * q)) mod p"
    unfolding r_def mult.assoc [symmetric] by (intro mod_add_cong refl mod_mult_left_eq)
  also have "\<dots> = (y + (x - y) * ((i * q) mod p)) mod p" by (metis mod_add_right_eq mod_mult_right_eq)
  also have "\<dots> = x mod p" by (simp add: assms(3))
  finally show "r mod p = x mod p" .
  show "r mod q = y" "0 \<le> r" using assms by simp_all
  have "(x - y) * i mod p \<le> p - 1" using pos_mod_bound [OF assms(1), of "(x - y) * i"] by linarith
  then have "((x - y) * i mod p) * q \<le> (p - 1) * q" using assms(2) by (intro mult_right_mono) simp_all
  then show "r < p * q" using assms(5) by (simp add: r_def left_diff_distrib)
qed

end
