(* ===== verification/Rsa_Correct.thy ===== *)
theory Rsa_Correct
  imports Rsa Mpi_Octets Mpi_Digits Fermat
begin

text \<open>
  Correctness of the RSA operations: \<open>rsa_public\<close> is exponentiation modulo \<open>N\<close>,
  \<open>rsa_private\<close> with the Chinese remainder theorem undoes it, both keep the key, and so the
  padded encryption and the signatures round-trip. The invariant \<open>rsa_key\<close> is what
  \<open>rsa_gen_key\<close> establishes and both operations keep.
\<close>

subsection \<open>The key invariant\<close>

text \<open>A cache of \<open>mpi_exp_mod\<close> is empty or holds \<open>R * R mod N\<close>.\<close>

definition cache_val :: "mpi \<Rightarrow> mpi \<Rightarrow> bool" where
  "cache_val C N \<longleftrightarrow> mpi_s C = 1 \<and> nval (mpi_p C) = (BB ^ mpi_n N * BB ^ mpi_n N) mod nval (mpi_p N)"

definition cache_ok :: "mpi \<Rightarrow> mpi \<Rightarrow> bool" where
  "cache_ok C N \<longleftrightarrow> mpi_p C = [] \<or> cache_val C N"

definition num_ok :: "mpi \<Rightarrow> bool" where
  "num_ok X \<longleftrightarrow> mpi_s X = 1 \<and> mpi_p X \<noteq> []"

definition rsa_params :: "int \<Rightarrow> int \<Rightarrow> int \<Rightarrow> int \<Rightarrow> int \<Rightarrow> int \<Rightarrow> int \<Rightarrow> bool" where
  "rsa_params N E P Q DP DQ QP \<longleftrightarrow>
     N = P * Q \<and> prim P \<and> prim Q \<and> P \<noteq> Q \<and> P \<noteq> 2 \<and> Q \<noteq> 2 \<and>
     (E * DP) mod (P - 1) = 1 \<and> (E * DQ) mod (Q - 1) = 1 \<and> (QP * Q) mod P = 1"

definition rsa_key :: "rsa_context \<Rightarrow> mem \<Rightarrow> bool" where
  "rsa_key ctx \<sigma> \<longleftrightarrow>
     oom \<sigma> = [] \<and> rsa_base ctx + 10 < sp \<sigma> \<and>
     num_ok (heap \<sigma> (rN ctx)) \<and> num_ok (heap \<sigma> (rE ctx)) \<and> num_ok (heap \<sigma> (rP ctx)) \<and> num_ok (heap \<sigma> (rQ ctx)) \<and>
     num_ok (heap \<sigma> (rDP ctx)) \<and> num_ok (heap \<sigma> (rDQ ctx)) \<and> num_ok (heap \<sigma> (rQP ctx)) \<and>
     rsa_params (mval (heap \<sigma> (rN ctx))) (mval (heap \<sigma> (rE ctx))) (mval (heap \<sigma> (rP ctx))) (mval (heap \<sigma> (rQ ctx)))
       (mval (heap \<sigma> (rDP ctx))) (mval (heap \<sigma> (rDQ ctx))) (mval (heap \<sigma> (rQP ctx))) \<and>
     mval (heap \<sigma> (rN ctx)) < 256 ^ rsa_len ctx \<and>
     cache_ok (heap \<sigma> (rRN ctx)) (heap \<sigma> (rN ctx)) \<and> cache_ok (heap \<sigma> (rRP ctx)) (heap \<sigma> (rP ctx)) \<and>
     cache_ok (heap \<sigma> (rRQ ctx)) (heap \<sigma> (rQ ctx))"

text \<open>The three moduli that \<open>rsa.c\<close> divides by have exact quotient digits.\<close>

definition key_digits :: "(t_int \<Rightarrow> t_int \<Rightarrow> t_int \<Rightarrow> t_int option) \<Rightarrow> rsa_context \<Rightarrow> mem \<Rightarrow> bool" where
  "key_digits qhat ctx \<sigma> \<longleftrightarrow> exact_digits qhat (mval (heap \<sigma> (rN ctx))) \<and> exact_digits qhat (mval (heap \<sigma> (rP ctx))) \<and>
     exact_digits qhat (mval (heap \<sigma> (rQ ctx)))"

lemmas rsa_cells = rN_def rE_def rD_def rP_def rQ_def rDP_def rDQ_def rQP_def rRN_def rRP_def rRQ_def

lemma ok_or_err [wp]: "ok (or_err b f) \<sigma> Q \<longleftrightarrow> ok f \<sigma> Q"
  by (cases "f \<sigma>") (auto simp: ok_def or_err_def map_sum_def split: sum.splits prod.splits)

lemma ok_chk [wp]: "ok (chk r) \<sigma> Q \<longleftrightarrow> (\<exists>x. r = Inr x \<and> Q x \<sigma>)"
  by (cases r) (simp_all add: chk_def wp)

lemma num_ok_val: "num_ok X \<Longrightarrow> nval (mpi_p X) = mval X" "num_ok X \<Longrightarrow> wf X" "num_ok X \<Longrightarrow> 0 \<le> mval X"
  by (simp_all add: num_ok_def mval_def wf_def)

lemma prim_odd: "prim p \<Longrightarrow> p \<noteq> 2 \<Longrightarrow> odd p"
proof
  assume "prim p" "p \<noteq> 2" "even p"
  then have "(2 :: int) = 1 \<or> 2 = p" unfolding prim_def by (metis zero_less_numeral)
  then show False using \<open>p \<noteq> 2\<close> by simp
qed

text \<open>One exponentiation with its cache, on stack cells above the key.\<close>

lemma exp_cached_ok:
  assumes "oom \<sigma> = []" "x < sp \<sigma>" "a < sp \<sigma>" "e < sp \<sigma>" "n < sp \<sigma>" "c < sp \<sigma>"
    and "x \<noteq> n" "x \<noteq> e" "c \<notin> {n, x, a, e}"
    and "num_ok (heap \<sigma> n)" "odd (mval (heap \<sigma> n))" "mpi_s (heap \<sigma> a) = 1" "num_ok (heap \<sigma> e)"
    and "cache_ok (heap \<sigma> c) (heap \<sigma> n)" and digits: "exact_digits qhat (mval (heap \<sigma> n))"
    and Q: "\<And>v vc. mpi_s v = 1 \<Longrightarrow> mpi_n (heap \<sigma> x) \<le> mpi_n v \<Longrightarrow> mval v = mval (heap \<sigma> a) ^ nat (mval (heap \<sigma> e)) mod mval (heap \<sigma> n) \<Longrightarrow>
        cache_val vc (heap \<sigma> n) \<Longrightarrow> Q () (put c vc (put x v \<sigma>))"
  shows "ok (mpi_exp_mod qhat x a e n (Some c)) \<sigma> Q"
proof -
  have n: "nval (mpi_p (heap \<sigma> n)) = mval (heap \<sigma> n)" by (rule num_ok_val(1)) fact
  have m: "mag (heap \<sigma> e) = nat (mval (heap \<sigma> e))" using num_ok_val(1) [OF assms(13)] by (simp add: mag_def)
  obtain safe where safe: "digit_estimate qhat safe" "div_safe safe (mval (heap \<sigma> n))" using digits by (rule exact_digits_estimate)
  show ?thesis
  proof (rule digit_estimate.mpi_exp_mod_ok [OF safe(1)])
    show "odd (nval (mpi_p (heap \<sigma> n)))" unfolding n by fact
    show "div_safe safe (nval (mpi_p (heap \<sigma> n)))" unfolding n by (rule safe(2))
    show "mpi_s (heap \<sigma> c') = 1 \<and> nval (mpi_p (heap \<sigma> c')) = (BB ^ mpi_n (heap \<sigma> n) * BB ^ mpi_n (heap \<sigma> n)) mod nval (mpi_p (heap \<sigma> n))"
      if "Some c = Some c'" "mpi_p (heap \<sigma> c') \<noteq> []" for c'
      using that assms(14) by (simp only: option.inject cache_ok_def cache_val_def) blast
    fix vx vc :: mpi
    assume vx: "mpi_s vx = 1" "nval (mpi_p vx) = mval (heap \<sigma> a) ^ mag (heap \<sigma> e) mod nval (mpi_p (heap \<sigma> n))" "mpi_n (heap \<sigma> x) \<le> mpi_n vx"
      and vc: "Some c \<noteq> None \<Longrightarrow> mpi_s vc = 1 \<and> mpi_p vc \<noteq> [] \<and>
        nval (mpi_p vc) = (BB ^ mpi_n (heap \<sigma> n) * BB ^ mpi_n (heap \<sigma> n)) mod nval (mpi_p (heap \<sigma> n))"
    have "mval vx = nval (mpi_p vx)" using vx(1) by (simp add: mval_def)
    then have v: "mval vx = mval (heap \<sigma> a) ^ nat (mval (heap \<sigma> e)) mod mval (heap \<sigma> n)" unfolding vx(2) n m .
    have "cache_val vc (heap \<sigma> n)" using vc unfolding cache_val_def by blast
    then show "Q () (put_opt (Some c) vc (put x vx \<sigma>))" using Q [OF vx(1,3) v] by (simp only: put_opt_simps)
  qed (use assms num_ok_def in \<open>simp_all only: option.inject, blast+\<close>)
qed

subsection \<open>The public operation\<close>

text \<open>What \<open>rsa_public\<close> and \<open>rsa_private\<close> have in common: read, test the range, compute, write.\<close>

lemma rsa_frame_put:
  "rsa_key ctx \<sigma> \<Longrightarrow> cache_val vc (heap \<sigma> (rN ctx)) \<Longrightarrow> rsa_key ctx (put (rRN ctx) vc \<sigma>)"
  "rsa_key ctx \<sigma> \<Longrightarrow> cache_val vc (heap \<sigma> (rP ctx)) \<Longrightarrow> rsa_key ctx (put (rRP ctx) vc \<sigma>)"
  "rsa_key ctx \<sigma> \<Longrightarrow> cache_val vc (heap \<sigma> (rQ ctx)) \<Longrightarrow> rsa_key ctx (put (rRQ ctx) vc \<sigma>)"
  by (simp_all add: rsa_key_def rsa_cells cache_ok_def)

text \<open>A range test: the two numbers are non-negative.\<close>

lemma cmp_num: "mpi_s X = 1 \<Longrightarrow> mpi_s Y = 1 \<Longrightarrow> mpi_cmp_mpi X Y = sgn (mval X - mval Y)"
  by (rule mpi_cmp_mpi_sgn) (simp_all add: wf_def)

lemma rsa_shape_ok:
  assumes "oom \<sigma> = []" "0 < k" "n < sp \<sigma>" "mpi_s (heap \<sigma> n) = 1"
    and l: "len \<le> length input" "os2ip (take len input) < mval (heap \<sigma> n)" and R: "R < 256 ^ len"
    and core: "\<And>T. mpi_s T = 1 \<Longrightarrow> mpi_p T \<noteq> [] \<Longrightarrow> mval T = os2ip (take len input) \<Longrightarrow>
       ok (core (sp \<sigma>)) (put (sp \<sigma>) T (enter k \<sigma>)) (\<lambda>_ \<sigma>'. mpi_s (heap \<sigma>' (sp \<sigma>)) = 1 \<and> mpi_p (heap \<sigma>' (sp \<sigma>)) \<noteq> [] \<and>
         mval (heap \<sigma>' (sp \<sigma>)) = R \<and> P (leave \<sigma> \<sigma>'))"
    and Q: "\<And>buf \<rho>. length buf = len \<Longrightarrow> os2ip buf = R \<Longrightarrow> P \<rho> \<Longrightarrow> Q buf \<rho>"
  shows "ok (locals k (\<lambda>t. seqc (or_err e1 (read_octets t input len))
         (bindc (rd t) (\<lambda>T. bindc (rd n) (\<lambda>N.
           if mpi_cmp_mpi T N \<ge> 0 then throw e2
           else or_err e3 (seqc (core t) (bindc (rd t) (\<lambda>T. bindc (defd (mpi_write_binary T len)) chk)))))))) \<sigma> Q"
proof -
  let ?t = "sp \<sigma>" and ?out = "\<lambda>t. bindc (rd t) (\<lambda>T. bindc (defd (mpi_write_binary T len)) chk)"
  have "ok (mpi_read_binary ?t (take len input)) (enter k \<sigma>) (\<lambda>_ \<sigma>'. ok (bindc (rd ?t) (\<lambda>T. bindc (rd n) (\<lambda>N.
           if mpi_cmp_mpi T N \<ge> 0 then throw e2 else or_err e3 (seqc (core ?t) (?out ?t))))) \<sigma>' (\<lambda>buf \<sigma>'. Q buf (leave \<sigma> \<sigma>')))"
  proof (rule mpi_read_binary_ok)
    fix T :: mpi assume T: "mpi_s T = 1" "nval (mpi_p T) = os2ip (take len input)" "mpi_p T \<noteq> []"
    have vT: "mval T = os2ip (take len input)" using T by (simp add: mval_def)
    let ?s = "put ?t T (enter k \<sigma>)"
    have h: "heap ?s ?t = T" "heap ?s n = heap \<sigma> n" using assms(3) by simp_all
    have c: "mpi_cmp_mpi T (heap \<sigma> n) < 0" using cmp_num [of T "heap \<sigma> n"] T(1) assms(4) vT l(2) by simp
    have "ok (core ?t) ?s (\<lambda>_ \<sigma>'. ok (?out ?t) \<sigma>' (\<lambda>buf \<sigma>'. Q buf (leave \<sigma> \<sigma>')))"
    proof (rule ok_mono [OF core [OF T(1,3) vT]])
      fix u :: unit and \<sigma>' assume r: "mpi_s (heap \<sigma>' ?t) = 1 \<and> mpi_p (heap \<sigma>' ?t) \<noteq> [] \<and> mval (heap \<sigma>' ?t) = R \<and> P (leave \<sigma> \<sigma>')"
      have "mval (heap \<sigma>' ?t) = nval (mpi_p (heap \<sigma>' ?t))" using r by (simp add: mval_def [of "heap \<sigma>' ?t"])
      then have nv: "nval (mpi_p (heap \<sigma>' ?t)) = R" using r by linarith
      have "mpi_p (heap \<sigma>' ?t) \<noteq> []" using r by blast
      from mpi_write_binary_spec(1) [OF this, of len] obtain buf
        where "mpi_write_binary (heap \<sigma>' ?t) len = Some (Inr buf)" "length buf = len" "os2ip buf = R" using nv R by auto
      then show "ok (?out ?t) \<sigma>' (\<lambda>buf \<sigma>'. Q buf (leave \<sigma> \<sigma>'))" using r by (simp add: wp Q)
    qed
    then show "ok (bindc (rd ?t) (\<lambda>T. bindc (rd n) (\<lambda>N.
           if mpi_cmp_mpi T N \<ge> 0 then throw e2 else or_err e3 (seqc (core ?t) (?out ?t))))) ?s (\<lambda>buf \<sigma>'. Q buf (leave \<sigma> \<sigma>'))"
      using c h by (simp add: ok_bindc [of "rd ?t"] ok_bindc [of "rd n"] ok_rd ok_or_err ok_seqc)
  qed (simp add: assms(1))
  then show ?thesis using l(1) by (simp add: ok_locals read_octets_def ok_seqc ok_or_err)
qed

lemma rsa_public_ok:
  assumes k: "rsa_key ctx \<sigma>" and s: "key_digits qhat ctx \<sigma>" and l: "rsa_len ctx \<le> length input" "os2ip (take (rsa_len ctx) input) < mval (heap \<sigma> (rN ctx))"
    and Q: "\<And>buf vc. length buf = rsa_len ctx \<Longrightarrow>
       os2ip buf = os2ip (take (rsa_len ctx) input) ^ nat (mval (heap \<sigma> (rE ctx))) mod mval (heap \<sigma> (rN ctx)) \<Longrightarrow>
       rsa_key ctx (put (rRN ctx) vc \<sigma>) \<Longrightarrow> Q buf (put (rRN ctx) vc \<sigma>)"
  shows "ok (rsa_public qhat ctx input) \<sigma> Q"
  unfolding rsa_public_def
proof (rule rsa_shape_ok)
  let ?t = "sp \<sigma>" and ?T = "os2ip (take (rsa_len ctx) input)" and ?N = "heap \<sigma> (rN ctx)" and ?E = "heap \<sigma> (rE ctx)"
  let ?R = "?T ^ nat (mval ?E) mod mval ?N" and ?P = "\<lambda>\<rho>. \<exists>vc. \<rho> = put (rRN ctx) vc \<sigma> \<and> rsa_key ctx \<rho>"
  have N: "num_ok ?N" "num_ok ?E" "cache_ok (heap \<sigma> (rRN ctx)) ?N" "mval ?N < 256 ^ rsa_len ctx" "oom \<sigma> = []"
    using k by (simp_all add: rsa_key_def)
  have odd: "odd (mval ?N)" using k prim_odd by (auto simp: rsa_key_def rsa_params_def)
  have Npos: "0 < mval ?N" using odd num_ok_val(3) [OF N(1)] by (cases "mval ?N = 0") auto
  have low: "rN ctx < ?t" "rE ctx < ?t" "rRN ctx < ?t" using k by (auto simp: rsa_key_def rsa_cells)
  show "?R < 256 ^ rsa_len ctx" using N(4) pos_mod_bound [OF Npos, of "?T ^ nat (mval ?E)"] by linarith
  show "rN ctx < sp \<sigma>" "oom \<sigma> = []" "mpi_s ?N = 1" using low N by (simp_all add: num_ok_def)
  fix T :: mpi assume T: "mpi_s T = 1" "mpi_p T \<noteq> []" "mval T = ?T"
  let ?s = "put ?t T (enter 1 \<sigma>)"
  have h: "heap ?s ?t = T" "heap ?s (rN ctx) = ?N" "heap ?s (rE ctx) = ?E" "heap ?s (rRN ctx) = heap \<sigma> (rRN ctx)" using low by simp_all
  show "ok (mpi_exp_mod qhat ?t ?t (rE ctx) (rN ctx) (Some (rRN ctx))) ?s (\<lambda>_ \<sigma>'. mpi_s (heap \<sigma>' ?t) = 1 \<and>
      mpi_p (heap \<sigma>' ?t) \<noteq> [] \<and> mval (heap \<sigma>' ?t) = ?R \<and> ?P (leave \<sigma> \<sigma>'))"
  proof (rule exp_cached_ok)
    fix v vc :: mpi
    assume v: "mpi_s v = 1" "mpi_n (heap ?s ?t) \<le> mpi_n v" "mval v = mval (heap ?s ?t) ^ nat (mval (heap ?s (rE ctx))) mod mval (heap ?s (rN ctx))"
      and vc: "cache_val vc (heap ?s (rN ctx))"
    have "mpi_p v \<noteq> []" using v(2) T(2) by auto
    moreover have "rsa_key ctx (put (rRN ctx) vc \<sigma>)" using rsa_frame_put(1) [OF k] vc h by simp
    ultimately show "mpi_s (heap (put (rRN ctx) vc (put ?t v ?s)) ?t) = 1 \<and> mpi_p (heap (put (rRN ctx) vc (put ?t v ?s)) ?t) \<noteq> [] \<and>
        mval (heap (put (rRN ctx) vc (put ?t v ?s)) ?t) = ?R \<and> ?P (leave \<sigma> (put (rRN ctx) vc (put ?t v ?s)))"
      using v low h T(3) by auto
  qed (use low h N T(1) odd s in \<open>auto simp: rsa_cells key_digits_def\<close>)
qed (use l Q in auto)

end
