(* ===== verification/Rsa_Private.thy ===== *)
theory Rsa_Private
  imports Rsa_Correct
begin

text \<open>
  Correctness of \<open>rsa_private\<close>: the exponentiations modulo \<open>P\<close> and \<open>Q\<close> and Garner's
  recombination give the \<open>D\<close>-th power modulo \<open>N\<close>, so \<open>rsa_private\<close> undoes \<open>rsa_public\<close>.
\<close>

subsection \<open>The recombination\<close>

lemma crt_combine_ok:
  assumes "oom \<sigma> = []" "t < sp \<sigma>" "t1 < sp \<sigma>" "t2 < sp \<sigma>" "i < sp \<sigma>" "p < sp \<sigma>" "q < sp \<sigma>"
    and d: "t \<noteq> t1" "t \<noteq> t2" "t1 \<noteq> t2" "t \<notin> {i, p, q}" "t1 \<notin> {i, p, q}"
    and n: "mpi_s (heap \<sigma> t1) = 1" "mpi_s (heap \<sigma> t2) = 1" "num_ok (heap \<sigma> i)" "num_ok (heap \<sigma> p)" "num_ok (heap \<sigma> q)"
    and P: "0 < mval (heap \<sigma> p)" "0 < mval (heap \<sigma> i)" and digits: "exact_digits qhat (mval (heap \<sigma> p))"
    and ne: "mpi_p (heap \<sigma> t) \<noteq> []"
    and Q: "\<And>v v1. num_ok v \<Longrightarrow> mval v = mval (heap \<sigma> t2) +
        ((mval (heap \<sigma> t1) - mval (heap \<sigma> t2)) * mval (heap \<sigma> i) mod mval (heap \<sigma> p)) * mval (heap \<sigma> q) \<Longrightarrow>
        Q () (put t v (put t1 v1 \<sigma>))"
  shows "ok (seqc (mpi_sub_mpi t t1 t2) (seqc (mpi_mul_mpi t1 t i)
           (seqc (mpi_mod_mpi qhat t t1 p)
             (seqc (mpi_mul_mpi t1 t q) (mpi_add_mpi t t2 t1))))) \<sigma> Q"
  unfolding ok_seqc
proof (rule mpi_sub_mpi_ok)
  let ?x = "mval (heap \<sigma> t1)" and ?y = "mval (heap \<sigma> t2)" and ?i = "mval (heap \<sigma> i)" and ?p = "mval (heap \<sigma> p)" and ?q = "mval (heap \<sigma> q)"
  let ?m = "(?x - ?y) * ?i mod ?p"
  obtain safe where safe: "digit_estimate qhat safe" "div_safe safe ?p" using digits by (rule exact_digits_estimate)
  have dne: "t1 \<noteq> t" "t2 \<noteq> t" "t2 \<noteq> t1" "i \<noteq> t" "p \<noteq> t" "q \<noteq> t" "i \<noteq> t1" "p \<noteq> t1" "q \<noteq> t1" using d by auto
  fix a :: mpi assume a: "wf a" "mval a = ?x - ?y" "mval a = 0 \<Longrightarrow> mpi_s a = mpi_s (heap \<sigma> t1)" "mpi_n (heap \<sigma> t) \<le> mpi_n a"
  show "ok (mpi_mul_mpi t1 t i) (put t a \<sigma>) (\<lambda>_ \<sigma>'. ok (mpi_mod_mpi qhat t t1 p) \<sigma>'
      (\<lambda>_ \<sigma>'. ok (mpi_mul_mpi t1 t q) \<sigma>' (\<lambda>_ \<sigma>'. ok (mpi_add_mpi t t2 t1) \<sigma>' Q)))"
  proof (rule mpi_mul_mpi_ok)
    fix b :: mpi assume b: "mpi_s b = mpi_s (heap (put t a \<sigma>) t) * mpi_s (heap (put t a \<sigma>) i)"
      "nval (mpi_p b) = nval (mpi_p (heap (put t a \<sigma>) t)) * nval (mpi_p (heap (put t a \<sigma>) i))"
    have si: "mpi_s (heap \<sigma> i) = 1" using n(3) by (simp add: num_ok_def)
    have sb: "mpi_s b = mpi_s a" using b(1) dne si by simp
    have vb: "mval b = mval a * ?i" using b(2) sb dne si by (simp add: mval_def)
    have wb: "wf b" using a(1) sb by (simp add: wf_def)
    have zb: "mval b = 0 \<Longrightarrow> mpi_s b = 1" using a(3) vb P(2) sb n(1) by simp
    show "ok (mpi_mod_mpi qhat t t1 p) (put t1 b (put t a \<sigma>))
      (\<lambda>_ \<sigma>'. ok (mpi_mul_mpi t1 t q) \<sigma>' (\<lambda>_ \<sigma>'. ok (mpi_add_mpi t t2 t1) \<sigma>' Q))"
    proof (rule digit_estimate.mpi_mod_mpi_ok [OF safe(1)])
      let ?s = "put t1 b (put t a \<sigma>)"
      fix c :: mpi assume c: "mpi_s c = 1" "nval (mpi_p c) = mval (heap ?s t1) mod mval (heap ?s p)" "mpi_n (heap ?s t) \<le> mpi_n c"
      have vc: "nval (mpi_p c) = ?m" using c(2) vb a(2) dne by simp
      have nc: "mpi_n (heap \<sigma> t) \<le> mpi_n c" using c(3) a(4) d(1) by simp
      show "ok (mpi_mul_mpi t1 t q) (put t c ?s) (\<lambda>_ \<sigma>'. ok (mpi_add_mpi t t2 t1) \<sigma>' Q)"
      proof (rule mpi_mul_mpi_ok)
        let ?s = "put t c (put t1 b (put t a \<sigma>))"
        fix e :: mpi assume e: "mpi_s e = mpi_s (heap ?s t) * mpi_s (heap ?s q)" "nval (mpi_p e) = nval (mpi_p (heap ?s t)) * nval (mpi_p (heap ?s q))"
        have se: "mpi_s e = 1" using e(1) c(1) n(5) dne by (simp add: num_ok_def)
        have ve: "mval e = ?m * ?q" using e(2) se vc dne num_ok_val(1) [OF n(5)] by (simp add: mval_def [of e])
        show "ok (mpi_add_mpi t t2 t1) (put t1 e ?s) Q"
        proof (rule mpi_add_mpi_ok)
          let ?s = "put t1 e (put t c (put t1 b (put t a \<sigma>)))"
          fix f :: mpi assume f: "wf f" "mval f = mval (heap ?s t2) + mval (heap ?s t1)" "mval f = 0 \<Longrightarrow> mpi_s f = mpi_s (heap ?s t2)" "mpi_n (heap ?s t) \<le> mpi_n f"
          have vf: "mval f = ?y + ?m * ?q" using f(2) ve dne by simp
          have "0 \<le> ?m" using P(1) by simp
          then have "0 \<le> mval f" using vf n(2,5) by (simp add: num_ok_val(3) mval_def [of "heap \<sigma> t2"])
          then have sf: "mpi_s f = 1" using f(3) n(2) dne mval_sign [OF f(1)] by (cases "mval f = 0") (auto simp: sgn_if)
          have "mpi_n (heap \<sigma> t) \<le> mpi_n f" using f(4) nc d(1) by simp
          then have "num_ok f" using sf ne by (auto simp: num_ok_def)
          from Q [OF this vf, of e] show "Q () (put t f ?s)" using d(1) by (simp add: put_commute [of t1 t])
        qed (use assms(1-7) n(2) dne se in \<open>simp_all add: wf_def\<close>)
      qed (use assms(1-7) in simp_all)
    qed (use assms(1-7) dne wb zb num_ok_val(2) [OF n(4)] P(1) safe(2) in simp_all)
  qed (use assms(1-7) in simp_all)
qed (use assms(1-4) n(1,2) in \<open>simp_all add: wf_def\<close>)

subsection \<open>Both halves\<close>

lemma rsa_crt_ok:
  assumes k: "rsa_key ctx \<sigma>" and dig: "key_digits qhat ctx \<sigma>" and sp: "sp \<tau> = sp \<sigma> + 3" "oom \<tau> = []" and low: "\<And>a. a < sp \<sigma> \<Longrightarrow> heap \<tau> a = heap \<sigma> a"
    and T: "mpi_s (heap \<tau> (sp \<sigma>)) = 1" "mpi_p (heap \<tau> (sp \<sigma>)) \<noteq> []"
    and Q: "\<And>\<tau>' vp vq. num_ok (heap \<tau>' (sp \<sigma>)) \<Longrightarrow>
        (let z = mval (heap \<tau> (sp \<sigma>)); p = mval (heap \<sigma> (rP ctx)); q = mval (heap \<sigma> (rQ ctx));
             x = z ^ nat (mval (heap \<sigma> (rDP ctx))) mod p; y = z ^ nat (mval (heap \<sigma> (rDQ ctx))) mod q
         in mval (heap \<tau>' (sp \<sigma>)) = y + ((x - y) * mval (heap \<sigma> (rQP ctx)) mod p) * q) \<Longrightarrow>
        cache_val vp (heap \<sigma> (rP ctx)) \<Longrightarrow> cache_val vq (heap \<sigma> (rQ ctx)) \<Longrightarrow>
        leave \<sigma> \<tau>' = put (rRQ ctx) vq (put (rRP ctx) vp (leave \<sigma> \<tau>)) \<Longrightarrow> Q () \<tau>'"
  shows "ok (rsa_crt qhat ctx (sp \<sigma>) (sp \<sigma> + 1) (sp \<sigma> + 2)) \<tau> Q"
proof -
  let ?t = "sp \<sigma>" and ?t1 = "sp \<sigma> + 1" and ?t2 = "sp \<sigma> + 2"
  let ?P = "heap \<sigma> (rP ctx)" and ?Q = "heap \<sigma> (rQ ctx)" and ?DP = "heap \<sigma> (rDP ctx)" and ?DQ = "heap \<sigma> (rDQ ctx)" and ?QP = "heap \<sigma> (rQP ctx)"
  have h: "heap \<tau> (rP ctx) = ?P" "heap \<tau> (rQ ctx) = ?Q" "heap \<tau> (rDP ctx) = ?DP" "heap \<tau> (rDQ ctx) = ?DQ" "heap \<tau> (rQP ctx) = ?QP"
    "heap \<tau> (rRP ctx) = heap \<sigma> (rRP ctx)" "heap \<tau> (rRQ ctx) = heap \<sigma> (rRQ ctx)"
    using k low by (simp_all add: rsa_key_def rsa_cells)
  have cells: "rP ctx < ?t" "rQ ctx < ?t" "rDP ctx < ?t" "rDQ ctx < ?t" "rQP ctx < ?t" "rRP ctx < ?t" "rRQ ctx < ?t"
    using k by (simp_all add: rsa_key_def rsa_cells)
  have num: "num_ok ?P" "num_ok ?Q" "num_ok ?DP" "num_ok ?DQ" "num_ok ?QP" "cache_ok (heap \<sigma> (rRP ctx)) ?P" "cache_ok (heap \<sigma> (rRQ ctx)) ?Q"
    using k by (simp_all add: rsa_key_def)
  have par: "prim (mval ?P)" "prim (mval ?Q)" "mval ?P \<noteq> 2" "mval ?Q \<noteq> 2" "mval ?QP * mval ?Q mod mval ?P = 1"
    using k by (simp_all add: rsa_key_def rsa_params_def)
  have ex: "exact_digits qhat (mval ?P)" "exact_digits qhat (mval ?Q)" using dig by (simp_all add: key_digits_def)
  have odd: "odd (mval ?P)" "odd (mval ?Q)" using par prim_odd by auto
  have pos: "0 < mval ?P" "0 < mval ?QP"
  proof -
    show "0 < mval ?P" using par(1) by (simp add: prim_def)
    have "mval ?QP \<noteq> 0" using par(5) by auto
    then show "0 < mval ?QP" using num_ok_val(3) [OF num(5)] by linarith
  qed
  have ne: "rP ctx \<noteq> rRP ctx" "rQ ctx \<noteq> rRP ctx" "rDQ ctx \<noteq> rRP ctx" "rRQ ctx \<noteq> rRP ctx" "rQP ctx \<noteq> rRP ctx"
    "rP ctx \<noteq> rRQ ctx" "rQ ctx \<noteq> rRQ ctx" "rQP ctx \<noteq> rRQ ctx" "rDQ ctx \<noteq> rRQ ctx" "rDP ctx \<noteq> rRP ctx"
    by (simp_all add: rsa_cells)
  show ?thesis unfolding rsa_crt_def ok_seqc [of "mpi_exp_mod a b c d e f" for a b c d e f]
  proof (rule exp_cached_ok)
    fix x1 vp :: mpi
    assume x1: "mpi_s x1 = 1" "mval x1 = mval (heap \<tau> ?t) ^ nat (mval (heap \<tau> (rDP ctx))) mod mval (heap \<tau> (rP ctx))"
      and vp: "cache_val vp (heap \<tau> (rP ctx))"
    let ?s = "put (rRP ctx) vp (put ?t1 x1 \<tau>)"
    have hs: "heap ?s ?t = heap \<tau> ?t" "heap ?s (rQ ctx) = ?Q" "heap ?s (rDQ ctx) = ?DQ" "heap ?s (rRQ ctx) = heap \<sigma> (rRQ ctx)"
      using cells ne h by simp_all
    show "ok (mpi_exp_mod qhat ?t2 ?t (rDQ ctx) (rQ ctx) (Some (rRQ ctx))) ?s (\<lambda>_ \<sigma>'. ok (seqc (mpi_sub_mpi ?t ?t1 ?t2)
      (seqc (mpi_mul_mpi ?t1 ?t (rQP ctx)) (seqc (mpi_mod_mpi qhat ?t ?t1 (rP ctx))
        (seqc (mpi_mul_mpi ?t1 ?t (rQ ctx)) (mpi_add_mpi ?t ?t2 ?t1))))) \<sigma>' Q)"
    proof (rule exp_cached_ok)
      fix x2 vq :: mpi
      assume x2: "mpi_s x2 = 1" "mval x2 = mval (heap ?s ?t) ^ nat (mval (heap ?s (rDQ ctx))) mod mval (heap ?s (rQ ctx))"
        and vq: "cache_val vq (heap ?s (rQ ctx))"
      let ?s2 = "put (rRQ ctx) vq (put ?t2 x2 ?s)"
      have h2: "heap ?s2 ?t = heap \<tau> ?t" "heap ?s2 ?t1 = x1" "heap ?s2 ?t2 = x2" "heap ?s2 (rP ctx) = ?P" "heap ?s2 (rQ ctx) = ?Q" "heap ?s2 (rQP ctx) = ?QP"
        using cells ne h by simp_all
      show "ok (seqc (mpi_sub_mpi ?t ?t1 ?t2)
        (seqc (mpi_mul_mpi ?t1 ?t (rQP ctx)) (seqc (mpi_mod_mpi qhat ?t ?t1 (rP ctx))
        (seqc (mpi_mul_mpi ?t1 ?t (rQ ctx)) (mpi_add_mpi ?t ?t2 ?t1))))) ?s2 Q"
      proof (rule crt_combine_ok)
        fix v v1 :: mpi
        assume v: "num_ok v" and vv: "mval v = mval (heap ?s2 ?t2) + (mval (heap ?s2 ?t1) - mval (heap ?s2 ?t2)) *
            mval (heap ?s2 (rQP ctx)) mod mval (heap ?s2 (rP ctx)) * mval (heap ?s2 (rQ ctx))"
        let ?r = "put ?t v (put ?t1 v1 ?s2)"
        have hv: "heap ?r ?t = v" by simp
        show "Q () ?r"
        proof (rule Q)
          show "num_ok (heap ?r ?t)" using v hv by simp
          show "let z = mval (heap \<tau> (sp \<sigma>)); p = mval (heap \<sigma> (rP ctx)); q = mval (heap \<sigma> (rQ ctx));
             x = z ^ nat (mval (heap \<sigma> (rDP ctx))) mod p; y = z ^ nat (mval (heap \<sigma> (rDQ ctx))) mod q
             in mval (heap ?r (sp \<sigma>)) = y + ((x - y) * mval (heap \<sigma> (rQP ctx)) mod p) * q"
            unfolding hv vv h2 Let_def x1(2) x2(2) hs h ..
          show "cache_val vp ?P" using vp h by simp
          show "cache_val vq ?Q" using vq hs by simp
          show "leave \<sigma> ?r = put (rRQ ctx) vq (put (rRP ctx) vp (leave \<sigma> \<tau>))" using cells by simp
        qed
      qed (unfold h2, insert num(1-5) pos x1(1) x2(1) T(2) cells sp ex, simp_all)
    qed (use hs num odd T(1) cells ne sp ex in auto)
  qed (use h num odd cells ne sp T(1) ex in auto)
qed

subsection \<open>The private operation\<close>

lemma rsa_root:
  assumes pr: "rsa_params N E P Q DP DQ QP" and nn: "0 \<le> E" "0 \<le> DP" "0 \<le> DQ" and z: "0 \<le> z" "z < N"
  defines "x \<equiv> z ^ nat DP mod P" and "y \<equiv> z ^ nat DQ mod Q"
  defines "r \<equiv> y + ((x - y) * QP mod P) * Q"
  shows "0 \<le> r" "r < N" "r ^ nat E mod N = z"
proof -
  have p: "prim P" "prim Q" "P \<noteq> 2" "Q \<noteq> 2" "P \<noteq> Q" and N: "N = P * Q" and QP: "(QP * Q) mod P = 1" using pr by (simp_all add: rsa_params_def)
  have "1 < P" "1 < Q" using p by (simp_all add: prim_def)
  then have pos: "0 < P" "0 < Q" by simp_all
  have y: "0 \<le> y" "y < Q" using pos by (simp_all add: y_def)
  note g = garner [OF pos QP y, of x, folded r_def]
  show "0 \<le> r" "r < N" using g N by simp_all
  have P: "r ^ nat E mod P = z mod P"
  proof -
    have "r mod P = z ^ nat DP mod P" unfolding g(1) x_def by simp
    then have "r ^ nat E mod P = (z ^ nat DP) ^ nat E mod P" by (metis power_mod)
    then show ?thesis using rsa_key_equation [OF p(1,3), of "nat DP" "nat E" z] pr nn by (simp add: rsa_params_def mult.commute)
  qed
  have Q: "r ^ nat E mod Q = z mod Q"
  proof -
    have "r mod Q = z ^ nat DQ mod Q" unfolding g(2) y_def ..
    then have "r ^ nat E mod Q = (z ^ nat DQ) ^ nat E mod Q" by (metis power_mod)
    then show ?thesis using rsa_key_equation [OF p(2,4), of "nat DQ" "nat E" z] pr nn by (simp add: rsa_params_def mult.commute)
  qed
  have "r ^ nat E mod N = z mod N" unfolding N by (rule coprime_mod_eq [OF prim_distinct_coprime [OF p(1,2,5)] P Q])
  then show "r ^ nat E mod N = z" using z by simp
qed

lemma rsa_root_unique:
  assumes pr: "rsa_params N E P Q DP DQ QP" and nn: "0 \<le> E" "0 \<le> DP" "0 \<le> DQ"
    and "0 \<le> a" "a < N" "0 \<le> b" "b < N" "a ^ nat E mod N = b ^ nat E mod N"
  shows "a = b"
proof -
  have p: "prim P" "prim Q" "P \<noteq> 2" "Q \<noteq> 2" "P \<noteq> Q" and N: "N = P * Q" using pr by (simp_all add: rsa_params_def)
  have "u mod f = v mod f" if "prim f" "f \<noteq> 2" "E * d mod (f - 1) = 1" "0 \<le> d" "f dvd N" "u ^ nat E mod N = v ^ nat E mod N" for u v f d
  proof -
    have "u ^ nat E mod f = v ^ nat E mod f" using that(5,6) by (metis mod_mod_cancel)
    then have "(u ^ nat E) ^ nat d mod f = (v ^ nat E) ^ nat d mod f" by (metis power_mod)
    then show ?thesis using rsa_key_equation [OF that(1,2), of "nat E" "nat d"] that(3,4) nn by simp
  qed
  note k = this
  have "a mod P = b mod P" by (rule k [of P DP]) (use pr p N nn assms(9) in \<open>simp_all add: rsa_params_def\<close>)
  moreover have "a mod Q = b mod Q" by (rule k [of Q DQ]) (use pr p N nn assms(9) in \<open>simp_all add: rsa_params_def\<close>)
  ultimately have "a mod N = b mod N" unfolding N by (rule coprime_mod_eq [OF prim_distinct_coprime [OF p(1,2,5)]])
  then show ?thesis using assms by simp
qed

lemma rsa_private_ok:
  assumes k: "rsa_key ctx \<sigma>" and dig: "key_digits qhat ctx \<sigma>" and l: "rsa_len ctx \<le> length input" "os2ip (take (rsa_len ctx) input) < mval (heap \<sigma> (rN ctx))"
    and Q: "\<And>buf vp vq. length buf = rsa_len ctx \<Longrightarrow> os2ip buf < mval (heap \<sigma> (rN ctx)) \<Longrightarrow>
       os2ip buf ^ nat (mval (heap \<sigma> (rE ctx))) mod mval (heap \<sigma> (rN ctx)) = os2ip (take (rsa_len ctx) input) \<Longrightarrow>
       rsa_key ctx (put (rRQ ctx) vq (put (rRP ctx) vp \<sigma>)) \<Longrightarrow> Q buf (put (rRQ ctx) vq (put (rRP ctx) vp \<sigma>))"
  shows "ok (rsa_private qhat ctx input) \<sigma> Q"
  unfolding rsa_private_def Let_def
proof (rule rsa_shape_ok)
  let ?t = "sp \<sigma>" and ?z = "os2ip (take (rsa_len ctx) input)"
  define N E P QQ DP DQ QP where v: "N = mval (heap \<sigma> (rN ctx))" "E = mval (heap \<sigma> (rE ctx))" "P = mval (heap \<sigma> (rP ctx))" "QQ = mval (heap \<sigma> (rQ ctx))"
    "DP = mval (heap \<sigma> (rDP ctx))" "DQ = mval (heap \<sigma> (rDQ ctx))" "QP = mval (heap \<sigma> (rQP ctx))"
  define r where "r = (let x = ?z ^ nat DP mod P; y = ?z ^ nat DQ mod QQ in y + ((x - y) * QP mod P) * QQ)"
  have N: "num_ok (heap \<sigma> (rN ctx))" "N < 256 ^ rsa_len ctx" "oom \<sigma> = []" using k by (simp_all add: rsa_key_def v)
  have nn: "0 \<le> E" "0 \<le> DP" "0 \<le> DQ" using k num_ok_val(3) by (simp_all add: rsa_key_def v)
  have pr: "rsa_params N E P QQ DP DQ QP" using k by (simp add: rsa_key_def v)
  have zN: "?z < N" using l(2) by (simp add: v)
  have r: "0 \<le> r" "r < N" "r ^ nat E mod N = ?z" using rsa_root [OF pr nn os2ip_less(1) zN] unfolding r_def Let_def by blast+
  show "r < 256 ^ rsa_len ctx" using r N by linarith
  show "rN ctx < sp \<sigma>" "oom \<sigma> = []" "mpi_s (heap \<sigma> (rN ctx)) = 1" using k by (simp_all add: rsa_key_def rsa_cells num_ok_def)
  let ?P = "\<lambda>\<rho>. \<exists>vp vq. \<rho> = put (rRQ ctx) vq (put (rRP ctx) vp \<sigma>) \<and> rsa_key ctx \<rho>"
  show "\<And>buf \<rho>. length buf = rsa_len ctx \<Longrightarrow> os2ip buf = r \<Longrightarrow> ?P \<rho> \<Longrightarrow> Q buf \<rho>" using Q r v by auto
  fix T :: mpi assume T: "mpi_s T = 1" "mpi_p T \<noteq> []" "mval T = ?z"
  let ?s = "put ?t T (enter 3 \<sigma>)"
  have ht: "heap ?s ?t = T" by simp
  show "ok (rsa_crt qhat ctx ?t (?t + 1) (?t + 2)) ?s (\<lambda>_ \<sigma>'. mpi_s (heap \<sigma>' ?t) = 1 \<and>
      mpi_p (heap \<sigma>' ?t) \<noteq> [] \<and> mval (heap \<sigma>' ?t) = r \<and> ?P (leave \<sigma> \<sigma>'))"
  proof (rule rsa_crt_ok [OF k dig])
    fix \<tau>' vp vq
    assume n: "num_ok (heap \<tau>' ?t)" and m: "let z = mval (heap ?s ?t); p = mval (heap \<sigma> (rP ctx)); q = mval (heap \<sigma> (rQ ctx));
             x = z ^ nat (mval (heap \<sigma> (rDP ctx))) mod p; y = z ^ nat (mval (heap \<sigma> (rDQ ctx))) mod q
         in mval (heap \<tau>' ?t) = y + ((x - y) * mval (heap \<sigma> (rQP ctx)) mod p) * q"
      and c: "cache_val vp (heap \<sigma> (rP ctx))" "cache_val vq (heap \<sigma> (rQ ctx))" and lv: "leave \<sigma> \<tau>' = put (rRQ ctx) vq (put (rRP ctx) vp (leave \<sigma> ?s))"
    have "mval (heap \<tau>' ?t) = r" using m unfolding ht T(3) r_def v Let_def .
    moreover have "leave \<sigma> \<tau>' = put (rRQ ctx) vq (put (rRP ctx) vp \<sigma>)" using lv by simp
    moreover have "rsa_key ctx (put (rRQ ctx) vq (put (rRP ctx) vp \<sigma>))"
      by (rule rsa_frame_put(3) [OF rsa_frame_put(2) [OF k c(1)]]) (use c(2) in \<open>simp add: rsa_cells\<close>)
    ultimately show "mpi_s (heap \<tau>' ?t) = 1 \<and> mpi_p (heap \<tau>' ?t) \<noteq> [] \<and> mval (heap \<tau>' ?t) = r \<and> ?P (leave \<sigma> \<tau>')"
      using n by (auto simp: num_ok_def)
  qed (use T N in simp_all)
qed (use l in simp_all)

end
