(* ===== verification/Rsa_Key.thy ===== *)
theory Rsa_Key
  imports Rsa_Private Mpi_Correct
begin

text \<open>
  A concrete RSA key for the witnesses: its two primes are Proth numbers, proved prime by
  Proth's criterion, so that every hypothesis of the theorems on \<open>rsa.c\<close> can be checked.
\<close>

subsection \<open>Proth's criterion\<close>

lemma minus_one_pow_mod:
  assumes "x mod p = (-1) mod (p :: int)"
  shows "x ^ k mod p = (-1) ^ k mod p"
  using assms by (metis power_mod)

lemma two_adic:
  assumes "0 < (n :: nat)"
  obtains j u where "n = 2 ^ j * u" "odd u"
  using assms
proof (induction n arbitrary: thesis rule: less_induct)
  case (less n)
  show ?case
  proof (cases "odd n")
    case True
    then show ?thesis using less.prems(1) [of 0 n] by simp
  next
    case False
    then obtain m where m: "n = 2 * m" by (metis evenE)
    then have "m < n" "0 < m" using less.prems by simp_all
    then obtain j u where "m = 2 ^ j * u" "odd u" using less.IH by blast
    then show ?thesis using less.prems(1) [of "Suc j" u] m by simp
  qed
qed

lemma proth_divisor:
  assumes p: "prim p" "p dvd N" "odd N" and x: "x ^ 2 ^ (m - 1) mod N = (-1) mod N" and "0 < m"
  shows "2 ^ m dvd p - 1"
proof -
  have p1: "1 < p" using p by (simp add: prim_def)
  have odd: "odd p" using p(2,3) by (auto elim: dvdE)
  have x': "x ^ 2 ^ (m - 1) mod p = (-1) mod p" using x p(2) by (metis mod_mod_cancel)
  have "0 < nat (p - 1)" using p1 by simp
  then obtain j u where j: "nat (p - 1) = 2 ^ j * u" "odd u" by (rule two_adic)
  have "m \<le> j"
  proof (rule ccontr)
    assume "\<not> m \<le> j"
    then have e: "m - 1 = j + (m - 1 - j)" by simp
    have u: "x ^ (2 ^ (m - 1) * u) mod p = (-1) mod p"
      using minus_one_pow_mod [OF x', of u] j(2) by (simp add: power_mult)
    have "\<not> p dvd x"
    proof
      assume "p dvd x"
      then have "p dvd x ^ 2 ^ (m - 1)" by (rule dvd_trans) (simp add: dvd_power)
      then have "p dvd -1" using x' by (metis dvd_imp_mod_0 dvd_eq_mod_eq_0)
      then show False using p1 zdvd_imp_le [of p 1] by simp
    qed
    have "x * x ^ nat (p - 1) mod p = x * 1 mod p"
      using fermat [OF p(1), of x] p1 by (simp add: power_Suc [symmetric] nat_diff_distrib Suc_nat_eq_nat_zadd1 del: power_Suc)
    then have "p dvd x * (x ^ nat (p - 1) - 1)" by (simp only: mod_eq_dvd_iff right_diff_distrib)
    then have "p dvd x ^ nat (p - 1) - 1" using prim_dvd_mult [OF p(1)] \<open>\<not> p dvd x\<close> by blast
    then have f: "x ^ nat (p - 1) mod p = 1 mod p" by (simp add: mod_eq_dvd_iff)
    have "2 ^ (m - 1) * u = nat (p - 1) * 2 ^ (m - 1 - j)"
      unfolding j(1) by (subst e, simp only: power_add mult_ac)
    then have "x ^ (2 ^ (m - 1) * u) mod p = (x ^ nat (p - 1)) ^ 2 ^ (m - 1 - j) mod p" by (simp add: power_mult)
    also have "\<dots> = 1 mod p" using f by (metis power_mod power_one)
    finally have "(-1) mod p = 1 mod p" using u by simp
    then have "p dvd 1 - (-1)" by (metis mod_eq_dvd_iff)
    then have "p dvd 2" by simp
    then have "p \<le> 2" by (rule zdvd_imp_le) simp
    then show False using p1 odd by presburger
  qed
  then have "(2 :: nat) ^ m dvd nat (p - 1)" unfolding j(1) by (simp add: le_imp_power_dvd)
  then have "int (2 ^ m) dvd int (nat (p - 1))" by (simp only: of_nat_dvd_iff)
  then show ?thesis using p1 by simp
qed

lemma prim_divisor:
  assumes "1 < (n :: int)"
  shows "\<exists>p. prim p \<and> p dvd n"
proof -
  have "\<exists>p. prim p \<and> p dvd int k" if "1 < k" for k
    using that
  proof (induction k rule: less_induct)
    case (less k)
    show ?case
    proof (cases "prim (int k)")
      case False
      then obtain d where d: "0 < d" "d dvd int k" "d \<noteq> 1" "d \<noteq> int k" using less.prems by (auto simp: prim_def)
      then have "d < int k" using zdvd_imp_le [of d "int k"] less.prems by simp
      then have "nat d < k" "1 < nat d" using d by linarith+
      then obtain p where "prim p" "p dvd int (nat d)" using less.IH by blast
      then have "prim p \<and> p dvd int k" using d by (auto intro: dvd_trans)
      then show ?thesis by blast
    qed auto
  qed
  from this [of "nat n"] show ?thesis using assms by simp
qed

theorem proth:
  fixes k :: int
  assumes "0 < m" "0 < k" "k < 2 ^ m" "N = k * 2 ^ m + 1" and x: "(a ^ nat k) ^ 2 ^ (m - 1) mod N = (-1) mod N"
  shows "prim N"
proof -
  have N1: "1 < N" and odd: "odd N" using assms by simp_all
  have big: "2 ^ m < p" if "prim p" "p dvd N" for p
  proof -
    have "2 ^ m dvd p - 1" by (rule proth_divisor [OF that odd x assms(1)])
    moreover have "0 < p - 1" using that by (simp add: prim_def)
    ultimately show ?thesis using zdvd_imp_le [of "2 ^ m" "p - 1"] by simp
  qed
  show ?thesis unfolding prim_def
  proof (intro conjI allI impI N1)
    fix d assume d: "0 < d" "d dvd N"
    then obtain e where e: "N = d * e" by (elim dvdE)
    then have "0 < e" using d N1 by (metis less_trans zero_less_mult_pos zero_less_one)
    have large: "2 ^ m < c" if "0 < c" "c \<noteq> 1" "c dvd N" for c
    proof -
      have "1 < c" using that by linarith
      then obtain p where "prim p" "p dvd c" using prim_divisor by blast
      moreover have "p \<le> c" using \<open>p dvd c\<close> that by (simp add: zdvd_imp_le)
      ultimately show ?thesis using big [of p] that(3) by (meson dvd_trans less_le_trans)
    qed
    show "d = 1 \<or> d = N"
    proof (rule ccontr)
      assume n: "\<not> (d = 1 \<or> d = N)"
      then have "e \<noteq> 1" using e by auto
      then have "2 ^ m + 1 \<le> d" "2 ^ m + 1 \<le> e" using large [of d] large [of e] d n e \<open>0 < e\<close> by simp_all
      then have sq: "(2 ^ m + 1) * (2 ^ m + 1) \<le> N" unfolding e using d by (intro mult_mono) simp_all
      have "(k + 1) * 2 ^ m \<le> 2 ^ m * 2 ^ m" using assms(3) by (intro mult_right_mono) simp_all
      then have "N \<le> 2 ^ m * 2 ^ m" using assms(4) zero_less_power [of "2 :: int" m] by (simp add: distrib_right; linarith)
      moreover have "(2 ^ m + 1) * (2 ^ m + 1) = 2 ^ m * 2 ^ m + 2 * 2 ^ m + (1 :: int)" by (simp add: algebra_simps)
      ultimately show False using sq zero_less_power [of "2 :: int" m] by linarith
    qed
  qed
qed

subsection \<open>Two large primes\<close>

fun square_mod :: "nat \<Rightarrow> int \<Rightarrow> int \<Rightarrow> int" where
  "square_mod 0 x N = x"
| "square_mod (Suc k) x N = square_mod k (x * x mod N) N"

lemma square_mod_spec: "square_mod k x N mod N = x ^ 2 ^ k mod N"
  by (induction k arbitrary: x) (simp_all add: power_mult power2_eq_square power_mod [of "_ * _"])

lemma square_mod_numeral: "square_mod (numeral k) x N = square_mod (pred_numeral k) (x * x mod N) N"
  by (simp add: numeral_eq_Suc)

lemma proth_check:
  fixes k :: int
  assumes "square_mod m b N mod N = (-1) mod N" "b = a ^ nat k" "0 < k" "k < 2 ^ Suc m" "N = k * 2 ^ Suc m + 1"
  shows "prim N"
  by (rule proth [of "Suc m" k N a]) (use assms square_mod_spec in auto)

lemma prim_P: "prim 221360928884514619393"
proof (rule proth_check [of 65 125 _ 5 3])
  show "square_mod 65 125 221360928884514619393 mod 221360928884514619393 = (-1) mod 221360928884514619393"
    by code_simp
qed simp_all

lemma prim_Q: "prim 180143985094819841"
proof (rule proth_check [of 54 243 _ 3 5])
  show "square_mod 54 243 180143985094819841 mod 180143985094819841 = (-1) mod 180143985094819841"
    by code_simp
qed simp_all

subsection \<open>The key\<close>

definition demo_ctx :: rsa_context where
  "demo_ctx = \<lparr>rsa_len = 16, rsa_base = 0, rsa_padding = RSA_PKCS_V15, rsa_hash_id = 0, rsa_f_rng = False\<rparr>"

definition demo_num :: "t_int list \<Rightarrow> mpi" where
  "demo_num ls = \<lparr>mpi_s = 1, mpi_p = ls\<rparr>"

definition demo_key :: mem where
  "demo_key = store_of
     [demo_num [180143985094819841, 2161727821137838092],
      demo_num [7],
      demo_num [7905747460161236407, 926454780487644891],
      demo_num [1, 12],
      demo_num [180143985094819841],
      demo_num [7905747460161236407, 3],
      demo_num [51469710027091383],
      demo_num [11292207888744175759, 10],
      mpi_zero, mpi_zero, mpi_zero]"

lemma demo_num_simps [simp]:
  "mpi_s (demo_num ls) = 1" "mpi_p (demo_num ls) = ls" "mval (demo_num ls) = nval ls"
  "num_ok (demo_num ls) \<longleftrightarrow> ls \<noteq> []"
  by (simp_all add: demo_num_def mval_def num_ok_def)

lemma demo_params:
  "rsa_params (nval [180143985094819841, 2161727821137838092]) (nval [7]) (nval [1, 12]) (nval [180143985094819841]) (nval [7905747460161236407, 3]) (nval [51469710027091383]) (nval [11292207888744175759, 10])"
  using prim_P prim_Q by (simp add: rsa_params_def BB_eq)

lemma demo_cells:
  "heap demo_key (rN demo_ctx) = demo_num [180143985094819841, 2161727821137838092]"
  "heap demo_key (rE demo_ctx) = demo_num [7]"
  "heap demo_key (rP demo_ctx) = demo_num [1, 12]"
  "heap demo_key (rQ demo_ctx) = demo_num [180143985094819841]"
  "heap demo_key (rDP demo_ctx) = demo_num [7905747460161236407, 3]"
  "heap demo_key (rDQ demo_ctx) = demo_num [51469710027091383]"
  "heap demo_key (rQP demo_ctx) = demo_num [11292207888744175759, 10]"
  "heap demo_key (rRN demo_ctx) = mpi_zero" "heap demo_key (rRP demo_ctx) = mpi_zero" "heap demo_key (rRQ demo_ctx) = mpi_zero"
  "oom demo_key = []" "rsa_base demo_ctx + 10 < sp demo_key" "rsa_len demo_ctx = 16" "rsa_padding demo_ctx = RSA_PKCS_V15"
  by (simp_all add: demo_ctx_def demo_key_def rsa_cells numeral_nat)

lemma demo_modulus: "nval [180143985094819841, 2161727821137838092] = 39876839873547476408655284678019776513"
  by (simp add: BB_eq)

lemma demo_key_ok: "rsa_key demo_ctx demo_key"
  unfolding rsa_key_def demo_cells demo_num_simps
  by (intro conjI demo_params) (simp_all add: cache_ok_def demo_modulus demo_cells(12))

text \<open>Its three moduli have exact digits in both builds.\<close>

lemma demo_safe:
  "div_safe udiv_safe 39876839873547476408655284678019776513" "div_safe udiv_safe 221360928884514619393"
  "div_safe udiv_safe 180143985094819841"
  by (rule div_safe_check [of 125], simp_all) (rule div_safe_check [of 68] div_safe_check [of 58], simp_all)+

lemma demo_digits: "key_digits qhat_generic demo_ctx demo_key"
proof -
  have v: "nval [1, 12] = 221360928884514619393" "nval [180143985094819841] = 180143985094819841" by (simp_all add: BB_eq)
  show ?thesis
    unfolding key_digits_def demo_cells demo_num_simps demo_modulus v using demo_safe by (intro conjI exact_digits_generic)
qed

end
