(* ===== verification/Rsa_Roundtrip.thy ===== *)
theory Rsa_Roundtrip
  imports Rsa_Key
begin

text \<open>
  What \<open>rsa.c\<close> promises to its callers: the two operations are inverse to each other, padded
  messages decrypt to themselves and signatures verify, with the key kept by every call.
\<close>

subsection \<open>One operation\<close>

text \<open>The relation of input and output: the public operation raises to the \<open>E\<close>-th power, the
  private operation extracts the root.\<close>

definition rsa_rel :: "int \<Rightarrow> int \<Rightarrow> int \<Rightarrow> int \<Rightarrow> int \<Rightarrow> bool" where
  "rsa_rel mode N E a b \<longleftrightarrow> (if mode = RSA_PUBLIC then b = a ^ nat E mod N else b ^ nat E mod N = a)"

definition same_key :: "rsa_context \<Rightarrow> mem \<Rightarrow> mem \<Rightarrow> bool" where
  "same_key ctx \<sigma> \<sigma>' \<longleftrightarrow> rsa_key ctx \<sigma>' \<and> heap \<sigma>' (rN ctx) = heap \<sigma> (rN ctx) \<and> heap \<sigma>' (rE ctx) = heap \<sigma> (rE ctx) \<and>
     (\<forall>a. a \<notin> {rRN ctx, rRP ctx, rRQ ctx} \<longrightarrow> heap \<sigma>' a = heap \<sigma> a) \<and> sp \<sigma>' = sp \<sigma>"

lemma same_key_caches:
  "rsa_key ctx (put (rRN ctx) v \<sigma>) \<Longrightarrow> same_key ctx \<sigma> (put (rRN ctx) v \<sigma>)"
  "rsa_key ctx (put (rRQ ctx) v (put (rRP ctx) w \<sigma>)) \<Longrightarrow> same_key ctx \<sigma> (put (rRQ ctx) v (put (rRP ctx) w \<sigma>))"
  by (simp_all add: same_key_def rsa_cells)

lemma same_key_trans: "same_key ctx \<sigma> \<rho> \<Longrightarrow> same_key ctx \<rho> \<tau> \<Longrightarrow> same_key ctx \<sigma> \<tau>"
  by (simp add: same_key_def)

lemma same_key_digits: "same_key ctx \<sigma> \<rho> \<Longrightarrow> key_digits qhat ctx \<rho> = key_digits qhat ctx \<sigma>"
  by (simp add: same_key_def key_digits_def rsa_cells)

lemma rsa_modulus_pos: "rsa_key ctx \<sigma> \<Longrightarrow> 0 < mval (heap \<sigma> (rN ctx))"
  by (auto simp: rsa_key_def rsa_params_def prim_def)

lemma rsa_op_ok:
  assumes k: "rsa_key ctx \<sigma>" and dig: "key_digits qhat ctx \<sigma>" and l: "length input = rsa_len ctx" "os2ip input < mval (heap \<sigma> (rN ctx))"
    and Q: "\<And>buf \<sigma>'. length buf = rsa_len ctx \<Longrightarrow> os2ip buf < mval (heap \<sigma> (rN ctx)) \<Longrightarrow>
       rsa_rel mode (mval (heap \<sigma> (rN ctx))) (mval (heap \<sigma> (rE ctx))) (os2ip input) (os2ip buf) \<Longrightarrow>
       same_key ctx \<sigma> \<sigma>' \<Longrightarrow> Q buf \<sigma>'"
  shows "ok (rsa_op qhat ctx mode input) \<sigma> Q"
proof (cases "mode = RSA_PUBLIC")
  case True
  have "ok (rsa_public qhat ctx input) \<sigma> Q"
  proof (rule rsa_public_ok [OF k dig], goal_cases)
    case (3 buf vc)
    have "os2ip buf < mval (heap \<sigma> (rN ctx))" using 3(2) rsa_modulus_pos [OF k] by simp
    then show ?case using 3 l(1) True same_key_caches(1) by (intro Q) (simp_all add: rsa_rel_def)
  qed (use l in simp_all)
  then show ?thesis using True by (simp add: rsa_op_def)
next
  case False
  have "ok (rsa_private qhat ctx input) \<sigma> Q"
  proof (rule rsa_private_ok [OF k dig], goal_cases)
    case (3 buf vp vq)
    then show ?case using l(1) False same_key_caches(2) by (intro Q) (simp_all add: rsa_rel_def)
  qed (use l in simp_all)
  then show ?thesis using False by (simp add: rsa_op_def)
qed

lemma rsa_rel_inverse:
  assumes k: "rsa_key ctx \<sigma>" and m: "(mode = RSA_PUBLIC) \<noteq> (mode' = RSA_PUBLIC)"
    and N: "N = mval (heap \<sigma> (rN ctx))" "E = mval (heap \<sigma> (rE ctx))"
    and r: "rsa_rel mode N E a b" "rsa_rel mode' N E b c" and bnd: "0 \<le> a" "a < N" "0 \<le> c" "c < N"
  shows "c = a"
proof (cases "mode = RSA_PUBLIC")
  case True
  then have "c ^ nat E mod N = a ^ nat E mod N" using m r by (simp add: rsa_rel_def)
  moreover have pr: "rsa_params N E (mval (heap \<sigma> (rP ctx))) (mval (heap \<sigma> (rQ ctx))) (mval (heap \<sigma> (rDP ctx))) (mval (heap \<sigma> (rDQ ctx))) (mval (heap \<sigma> (rQP ctx)))"
    and nn: "0 \<le> E" "0 \<le> mval (heap \<sigma> (rDP ctx))" "0 \<le> mval (heap \<sigma> (rDQ ctx))"
    using k num_ok_val(3) by (simp_all add: rsa_key_def N)
  ultimately show ?thesis using rsa_root_unique [OF pr nn bnd(3,4,1,2)] by simp
next
  case False
  then show ?thesis using m r by (simp add: rsa_rel_def)
qed

lemma rsa_inverse_ok:
  assumes k: "rsa_key ctx \<sigma>" and dig: "key_digits qhat ctx \<sigma>" and m: "(mode = RSA_PUBLIC) \<noteq> (mode' = RSA_PUBLIC)"
    and l: "length input = rsa_len ctx" "os2ip input < mval (heap \<sigma> (rN ctx))"
    and Q: "\<And>\<sigma>'. same_key ctx \<sigma> \<sigma>' \<Longrightarrow> Q input \<sigma>'"
  shows "ok (rsa_op qhat ctx mode input) \<sigma> (\<lambda>c \<sigma>'. length c = rsa_len ctx \<and> ok (rsa_op qhat ctx mode' c) \<sigma>' Q)"
proof (rule rsa_op_ok [OF k dig l])
  fix c \<rho>
  assume c: "length c = rsa_len ctx" "os2ip c < mval (heap \<sigma> (rN ctx))"
    and r: "rsa_rel mode (mval (heap \<sigma> (rN ctx))) (mval (heap \<sigma> (rE ctx))) (os2ip input) (os2ip c)" and s: "same_key ctx \<sigma> \<rho>"
  have e: "heap \<rho> (rN ctx) = heap \<sigma> (rN ctx)" "heap \<rho> (rE ctx) = heap \<sigma> (rE ctx)" "rsa_key ctx \<rho>" using s by (simp_all add: same_key_def)
  have dr: "key_digits qhat ctx \<rho>" using dig same_key_digits [OF s] by simp
  have "ok (rsa_op qhat ctx mode' c) \<rho> Q"
  proof (rule rsa_op_ok [OF e(3) dr c(1) c(2) [folded e(1)]])
    fix buf \<tau>
    assume b: "length buf = rsa_len ctx" "os2ip buf < mval (heap \<rho> (rN ctx))"
      "rsa_rel mode' (mval (heap \<rho> (rN ctx))) (mval (heap \<rho> (rE ctx))) (os2ip c) (os2ip buf)" and t: "same_key ctx \<rho> \<tau>"
    have "os2ip buf = os2ip input"
      using rsa_rel_inverse [OF k m refl refl r b(3) [unfolded e] os2ip_less(1) l(2) os2ip_less(1) b(2) [unfolded e]] .
    then have "buf = input" using b(1) l(1) by (intro os2ip_inject) simp_all
    then show "Q buf \<tau>" using Q [OF same_key_trans [OF s t]] by simp
  qed
  then show "length c = rsa_len ctx \<and> ok (rsa_op qhat ctx mode' c) \<rho> Q" using c by simp
qed

text \<open>A result of two calls in a row.\<close>

lemma run_two:
  assumes "ok f \<sigma> (\<lambda>c \<sigma>'. R c \<and> ok (g c) \<sigma>' (\<lambda>x \<tau>. x = y \<and> P \<tau>))"
  shows "\<exists>\<tau>. bindc f g \<sigma> = Some (Inr y, \<tau>) \<and> P \<tau>"
proof -
  have "ok (bindc f g) \<sigma> (\<lambda>x \<tau>. x = y \<and> P \<tau>)" unfolding ok_bindc using assms by (rule ok_mono) blast
  then show ?thesis by (auto simp: ok_def)
qed

subsection \<open>Padding\<close>

lemma nonzero_pad_some: "nonzero_pad k rs = Some pad \<Longrightarrow> length pad = k \<and> 0 \<notin> set pad"
  by (induction k rs arbitrary: pad rule: nonzero_pad.induct) (auto simp: Let_def split: if_splits)

lemma nonzero_pad_pos:
  "0 < k \<Longrightarrow> nonzero_pad k (r # rs) =
     (if (word_of_int r :: byte) = 0 then nonzero_pad k rs else map_option ((#) (word_of_int r)) (nonzero_pad (k - 1) rs))"
  by (cases k) (simp_all add: Let_def)

lemma skip_pad_pad: "0 \<notin> set pad \<Longrightarrow> \<forall>c\<in>set pad. good c \<Longrightarrow> skip_pad good (pad @ 0 # m) = Some m"
  by (induction pad) auto

lemma block_in_range:
  assumes "rsa_key ctx \<sigma>" "256 ^ (rsa_len ctx - 1) \<le> mval (heap \<sigma> (rN ctx))" "length (0 # m) = rsa_len ctx"
  shows "os2ip (0 # m) < mval (heap \<sigma> (rN ctx))"
proof -
  have "os2ip (0 # m) = os2ip m" using os2ip_zeros [of 1 m] by simp
  also have "\<dots> < 256 ^ length m" by (rule os2ip_less)
  also have "length m = rsa_len ctx - 1" using assms(3) by simp
  finally show ?thesis using assms(2) by linarith
qed

subsection \<open>Properties\<close>

text \<open>Whatever the input below \<open>N\<close>, \<open>rsa_public\<close> returns the \<open>E\<close>-th power modulo \<open>N\<close> in \<open>ctx->len\<close>
  octets; of the store only the cache \<open>RN\<close> changes, and the key invariant is kept.\<close>

theorem rsa_public_correct:
  assumes "rsa_key ctx \<sigma>" "key_digits qhat ctx \<sigma>" "length input = rsa_len ctx" "os2ip input < mval (heap \<sigma> (rN ctx))"
  shows "\<exists>buf v. rsa_public qhat ctx input \<sigma> = Some (Inr buf, put (rRN ctx) v \<sigma>) \<and>
           length buf = rsa_len ctx \<and> os2ip buf = os2ip input ^ nat (mval (heap \<sigma> (rE ctx))) mod mval (heap \<sigma> (rN ctx)) \<and>
           rsa_key ctx (put (rRN ctx) v \<sigma>)"
proof -
  have "ok (rsa_public qhat ctx input) \<sigma> (\<lambda>buf \<sigma>'. \<exists>v. \<sigma>' = put (rRN ctx) v \<sigma> \<and> length buf = rsa_len ctx \<and>
      os2ip buf = os2ip input ^ nat (mval (heap \<sigma> (rE ctx))) mod mval (heap \<sigma> (rN ctx)) \<and> rsa_key ctx (put (rRN ctx) v \<sigma>))"
    by (rule rsa_public_ok [OF assms(1,2)]) (use assms in auto)
  then show ?thesis by (auto simp: ok_def)
qed

theorem rsa_public_correct_witness:
  "\<exists>buf v. rsa_public qhat_generic demo_ctx (replicate 15 0 @ [5]) demo_key = Some (Inr buf, put (rRN demo_ctx) v demo_key) \<and>
     length buf = 16 \<and> os2ip buf = 5 ^ 7 \<and> rsa_key demo_ctx (put (rRN demo_ctx) v demo_key)"
proof -
  have v: "os2ip (replicate 15 0 @ [5]) = 5" "length (replicate 15 0 @ [5 :: byte]) = rsa_len demo_ctx"
    by (simp_all add: os2ip_zeros demo_cells) (simp add: os2ip_def)
  show ?thesis
    using rsa_public_correct [OF demo_key_ok demo_digits v(2)]
    by (simp add: v(1) demo_cells demo_modulus)
qed

text \<open>\<open>rsa_private\<close>, by the Chinese remainder theorem, returns the number below \<open>N\<close> whose \<open>E\<close>-th power
  is the input; of the store only the caches \<open>RP\<close> and \<open>RQ\<close> change, and the key invariant is kept.\<close>

theorem rsa_private_correct:
  assumes "rsa_key ctx \<sigma>" "key_digits qhat ctx \<sigma>" "length input = rsa_len ctx" "os2ip input < mval (heap \<sigma> (rN ctx))"
  shows "\<exists>buf v w. rsa_private qhat ctx input \<sigma> = Some (Inr buf, put (rRQ ctx) w (put (rRP ctx) v \<sigma>)) \<and>
           length buf = rsa_len ctx \<and> os2ip buf < mval (heap \<sigma> (rN ctx)) \<and>
           os2ip buf ^ nat (mval (heap \<sigma> (rE ctx))) mod mval (heap \<sigma> (rN ctx)) = os2ip input \<and>
           rsa_key ctx (put (rRQ ctx) w (put (rRP ctx) v \<sigma>))"
proof -
  have "ok (rsa_private qhat ctx input) \<sigma> (\<lambda>buf \<sigma>'. \<exists>v w. \<sigma>' = put (rRQ ctx) w (put (rRP ctx) v \<sigma>) \<and> length buf = rsa_len ctx \<and>
      os2ip buf < mval (heap \<sigma> (rN ctx)) \<and>
      os2ip buf ^ nat (mval (heap \<sigma> (rE ctx))) mod mval (heap \<sigma> (rN ctx)) = os2ip input \<and> rsa_key ctx (put (rRQ ctx) w (put (rRP ctx) v \<sigma>)))"
    by (rule rsa_private_ok [OF assms(1,2)]) (use assms in auto)
  then show ?thesis by (auto simp: ok_def)
qed

theorem rsa_private_correct_witness:
  "\<exists>buf v w. rsa_private qhat_generic demo_ctx (replicate 15 0 @ [5]) demo_key =
       Some (Inr buf, put (rRQ demo_ctx) w (put (rRP demo_ctx) v demo_key)) \<and>
     length buf = 16 \<and> os2ip buf ^ 7 mod mval (heap demo_key (rN demo_ctx)) = 5"
proof -
  have v: "os2ip (replicate 15 0 @ [5]) = 5" "length (replicate 15 0 @ [5 :: byte]) = rsa_len demo_ctx"
    by (simp_all add: os2ip_zeros demo_cells) (simp add: os2ip_def)
  show ?thesis
    using rsa_private_correct [OF demo_key_ok demo_digits v(2)]
    by (auto simp: v(1) demo_cells demo_modulus)
qed

text \<open>C11: The two operations undo each other in both orders, for every input below \<open>N\<close>, as long as no allocation fails. With the half-limb quotient digit of the program's
  build this is so for keys whose three moduli \<open>N\<close>, \<open>P\<close> and \<open>Q\<close> do not end, in their top 63 bits, in \<open>0xFFFFFFFE\<close> or \<open>0xFFFFFFFF\<close>; with the
  double-limb digit for every key.\<close>

theorem rsa_round_trip:
  assumes "rsa_key ctx \<sigma>" "key_digits qhat ctx \<sigma>" "length input = rsa_len ctx" "os2ip input < mval (heap \<sigma> (rN ctx))"
    and "(mode = RSA_PUBLIC) \<noteq> (mode' = RSA_PUBLIC)"
  shows "\<exists>\<tau>. bindc (rsa_op qhat ctx mode input) (rsa_op qhat ctx mode') \<sigma> = Some (Inr input, \<tau>) \<and> same_key ctx \<sigma> \<tau>"
  by (rule run_two, rule rsa_inverse_ok [OF assms(1,2,5,3,4)]) simp

theorem rsa_round_trip_witness:
  "\<exists>\<tau>. bindc (rsa_op qhat_generic demo_ctx RSA_PUBLIC (replicate 15 0 @ [5])) (rsa_op qhat_generic demo_ctx 1) demo_key =
     Some (Inr (replicate 15 0 @ [5]), \<tau>) \<and> same_key demo_ctx demo_key \<tau>"
proof -
  have v: "os2ip (replicate 15 0 @ [5]) = 5" "length (replicate 15 0 @ [5 :: byte]) = rsa_len demo_ctx"
    by (simp_all add: os2ip_zeros demo_cells) (simp add: os2ip_def)
  show ?thesis
    using rsa_round_trip [OF demo_key_ok demo_digits v(2), of RSA_PUBLIC 1]
    by (simp add: v(1) demo_cells demo_modulus)
qed

text \<open>C8: PKCS #1 v1.5 encryption of the first \<open>ilen\<close> octets of a buffer, followed by decryption with the other half of the key, returns
  these octets, for every \<open>ilen\<close> that leaves room for the padding, an \<open>N\<close> of as many octets as \<open>ctx->len\<close> says, and whatever \<open>rand\<close> returns,
  as long as no allocation fails. With the half-limb quotient digit of the program's
  build this is so for keys whose three moduli \<open>N\<close>, \<open>P\<close> and \<open>Q\<close> do not end, in their top 63 bits, in \<open>0xFFFFFFFE\<close> or \<open>0xFFFFFFFF\<close>; with the
  double-limb digit for every key.\<close>

theorem rsa_encrypt_decrypt:
  assumes k: "rsa_key ctx \<sigma>" and dig: "key_digits qhat ctx \<sigma>" and N: "256 ^ (rsa_len ctx - 1) \<le> mval (heap \<sigma> (rN ctx))"
    and len: "16 \<le> rsa_len ctx" "rsa_len ctx \<le> 1024" "0 \<le> ilen" "ilen \<le> int (length msg)" "ilen + 11 \<le> int (rsa_len ctx)" "ilen \<le> output_max_len"
    and v15: "rsa_padding ctx = RSA_PKCS_V15" and pad: "nonzero_pad (nat (int (rsa_len ctx) - 3 - ilen)) rand = Some pad"
    and m: "(mode = RSA_PUBLIC) \<noteq> (mode' = RSA_PUBLIC)"
  shows "\<exists>\<tau>. bindc (rsa_pkcs1_encrypt qhat rand ctx mode ilen msg)
             (\<lambda>c. rsa_pkcs1_decrypt qhat ctx mode' c output_max_len) \<sigma> = Some (Inr (take (nat ilen) msg), \<tau>) \<and> same_key ctx \<sigma> \<tau>"
proof (rule run_two)
  let ?m = "take (nat ilen) msg"
  let ?b = "0 # RSA_CRYPT # pad @ 0 # ?m"
  note p = nonzero_pad_some [OF pad]
  have lm: "length ?m = nat ilen" using len by simp
  have l: "length ?b = rsa_len ctx" using p len lm by simp
  have s: "skip_pad (\<lambda>_. True) (drop 2 ?b) = Some ?m" using skip_pad_pad [of pad "\<lambda>_. True" ?m] p by simp
  have i: "c_int (ilen + 11) = Some (ilen + 11)" "take_exact ilen msg = Some ?m" using len by (simp_all add: c_int_def take_exact_def)
  have "ok (rsa_op qhat ctx mode ?b) \<sigma> (\<lambda>c \<sigma>'. length c = rsa_len ctx \<and> ok (rsa_op qhat ctx mode' c) \<sigma>'
      (\<lambda>buf \<sigma>'. buf = ?b \<and> same_key ctx \<sigma> \<sigma>'))"
    by (rule rsa_inverse_ok [OF k dig m l block_in_range [OF k N l]]) simp
  then show "ok (rsa_pkcs1_encrypt qhat rand ctx mode ilen msg) \<sigma>
      (\<lambda>c \<sigma>'. True \<and> ok (rsa_pkcs1_decrypt qhat ctx mode' c output_max_len) \<sigma>' (\<lambda>x \<tau>. x = ?m \<and> same_key ctx \<sigma> \<tau>))"
    unfolding rsa_pkcs1_encrypt_def rsa_pkcs1_decrypt_def using len lm v15 pad s i
    by (auto simp: wp Let_def elim!: ok_mono)
qed

theorem rsa_encrypt_decrypt_witness:
  "\<exists>\<tau>. bindc (rsa_pkcs1_encrypt qhat_generic [17, 256, 18, 19, 20, 21, 22, 23, 24, 25, 26] demo_ctx RSA_PUBLIC 3 [104, 105, 33, 34])
     (\<lambda>c. rsa_pkcs1_decrypt qhat_generic demo_ctx 1 c 100) demo_key = Some (Inr [104, 105, 33], \<tau>) \<and> same_key demo_ctx demo_key \<tau>"
proof -
  have "nonzero_pad (nat (int (rsa_len demo_ctx) - 3 - 3)) [17, 256, 18, 19, 20, 21, 22, 23, 24, 25, 26] =
      Some [17, 18, 19, 20, 21, 22, 23, 24, 25, 26]"
    by (simp add: demo_cells nonzero_pad_pos)
  then show ?thesis
    using rsa_encrypt_decrypt [OF demo_key_ok demo_digits, of 3 "[104, 105, 33, 34]" 100 _ _ RSA_PUBLIC 1] by (simp add: demo_cells demo_modulus)
qed

subsection \<open>Signatures\<close>

lemma update_numeral: "(x # xs)[numeral k := v] = x # xs[pred_numeral k := v]"
  by (simp add: numeral_eq_Suc)

lemma mdx_digest:
  "length h = 16 \<Longrightarrow> length ((ASN1_HASH_MDX @ h)[13 := b]) = 34"
  "length h = 16 \<Longrightarrow> (ASN1_HASH_MDX @ h)[13 := b] ! 13 = b"
  "(ASN1_HASH_MDX @ h)[13 := b, 13 := 0] = ASN1_HASH_MDX @ h"
  "length ASN1_HASH_MDX = 18" "length ASN1_HASH_SHA1 = 15"
  by (simp_all add: asn1_defs update_numeral)

lemma sha2_digest:
  "length ((ASN1_HASH_SHA2X @ h)[1 := u, 14 := b, 18 := v]) = 19 + length h"
  "(ASN1_HASH_SHA2X @ h)[1 := u, 14 := b, 18 := v] ! 14 = b"
  "(ASN1_HASH_SHA2X @ h)[1 := u, 14 := b, 18 := v] ! 1 = u"
  "(ASN1_HASH_SHA2X @ h)[1 := u, 14 := b, 18 := v, 1 := 17, 14 := 0] = take 18 ASN1_HASH_SHA2X @ v # h"
  "length ASN1_HASH_SHA2X = 19"
  by (simp_all add: asn1_defs update_numeral)

lemma memcmp_prefix: "k \<le> length hash \<Longrightarrow> memcmp_eq (take k hash) hash k = Some True"
  by (simp add: memcmp_eq_def)

lemma digest_cases:
  assumes "digest_info hash_id hashlen hash = Some (Inr d)"
  obtains
    (raw) "hash_id = SIG_RSA_RAW" "0 \<le> hashlen" "hashlen \<le> int (length hash)" "d = take (nat hashlen) hash"
  | (mdx) b where "b = 2 \<and> hash_id = SIG_RSA_MD2 \<or> b = 4 \<and> hash_id = SIG_RSA_MD4 \<or> b = 5 \<and> hash_id = SIG_RSA_MD5"
      "16 \<le> length hash" "d = (ASN1_HASH_MDX @ take 16 hash)[13 := b]"
  | (sha1) "hash_id = SIG_RSA_SHA1" "20 \<le> length hash" "d = ASN1_HASH_SHA1 @ take 20 hash"
  | (sha2) k b where "k = 28 \<and> b = 4 \<and> hash_id = SIG_RSA_SHA224 \<or> k = 32 \<and> b = 1 \<and> hash_id = SIG_RSA_SHA256 \<or>
        k = 48 \<and> b = 2 \<and> hash_id = SIG_RSA_SHA384 \<or> k = 64 \<and> b = 3 \<and> hash_id = SIG_RSA_SHA512"
      "k \<le> length hash" "d = (ASN1_HASH_SHA2X @ take k hash)[1 := 17 + of_nat k, 14 := b, 18 := of_nat k]"
  using assms by (fastforce simp: digest_info_def take_exact_def Let_def split: if_splits)

lemma digest_checks:
  assumes "digest_info hash_id hashlen hash = Some (Inr d)" "hash_id \<noteq> SIG_RSA_RAW \<or> hashlen \<noteq> 34"
  shows "check_digest hash_id hashlen hash d = Some 0 \<and> digest_info_len hash_id hashlen = Some (int (length d))"
  using assms(1)
proof (cases rule: digest_cases)
  case raw
  then have "nat hashlen \<noteq> 34" using assms(2) by auto
  moreover have "\<not> length hash < nat hashlen" using raw by simp
  ultimately show ?thesis using raw by (auto simp: check_digest_def digest_info_len_def memcmp_eq_def Let_def)
next
  case (mdx b)
  have h: "length (take 16 hash) = 16" using mdx(2) by simp
  have "hash_id = SIG_RSA_MD2 \<or> hash_id = SIG_RSA_MD4 \<or> hash_id = SIG_RSA_MD5" using mdx(1) by blast
  then have "digest_info_len hash_id hashlen = Some 34" by (auto simp: digest_info_len_def)
  moreover have "check_digest hash_id hashlen hash d = Some 0"
    unfolding check_digest_def mdx(3) mdx_digest(1,2) [OF h] mdx_digest(3) using mdx(1)
    by (simp add: mdx_digest memcmp_prefix [OF mdx(2)])
  ultimately show ?thesis unfolding mdx(3) mdx_digest(1) [OF h] by simp
next
  case sha1
  then show ?thesis by (simp add: check_digest_def digest_info_len_def mdx_digest memcmp_prefix)
next
  case (sha2 k b)
  have l: "length d = 19 + k" using sha2(2) unfolding sha2(3) sha2_digest(1) by simp
  have k: "k = 28 \<or> k = 32 \<or> k = 48 \<or> k = 64" using sha2(1) by blast
  have u: "unat (of_nat k :: byte) = k" using k by auto
  have "digest_info_len hash_id hashlen = Some (int (length d))" unfolding l using sha2(1) by (auto simp: digest_info_len_def)
  moreover have "check_digest hash_id hashlen hash d = Some 0"
  proof -
    have e: "take 18 d' = take 18 ASN1_HASH_SHA2X \<and> d' ! 18 = of_nat k \<and> drop 19 d' = take k hash"
      if "d' = d[1 := 17, 14 := 0]" for d'
      unfolding that sha2(3) sha2_digest(4) by (simp add: nth_append sha2_digest(5))
    have n: "d ! 14 = b" "d ! 1 = 17 + of_nat k" unfolding sha2(3) sha2_digest(2,3) by simp_all
    have ne: "length d \<noteq> 34" "length d \<noteq> 35" using l k by auto
    show ?thesis unfolding check_digest_def Let_def using sha2(1) ne e [OF refl]
      by (simp add: n n(2) [unfolded One_nat_def] l u memcmp_prefix [OF sha2(2)])
  qed
  ultimately show ?thesis by simp
qed

text \<open>C9: A signature verifies with the other half of the key, for every supported digest that leaves room for the padding and an \<open>N\<close> of as
  many octets as \<open>ctx->len\<close> says, as long as no allocation fails; the raw mode is excluded at 34 octets, a length the verification
  takes for an MD digest. With the half-limb quotient digit of the program's
  build this is so for keys whose three moduli \<open>N\<close>, \<open>P\<close> and \<open>Q\<close> do not end, in their top 63 bits, in \<open>0xFFFFFFFE\<close> or \<open>0xFFFFFFFF\<close>; with the
  double-limb digit for every key.\<close>

theorem rsa_sign_verify:
  assumes k: "rsa_key ctx \<sigma>" and dig: "key_digits qhat ctx \<sigma>" and N: "256 ^ (rsa_len ctx - 1) \<le> mval (heap \<sigma> (rN ctx))"
    and len: "16 \<le> rsa_len ctx" "rsa_len ctx \<le> 1024" and v15: "rsa_padding ctx = RSA_PKCS_V15"
    and d: "digest_info hash_id hashlen hash = Some (Inr d)" "length d + 11 \<le> rsa_len ctx"
    and raw: "hash_id \<noteq> SIG_RSA_RAW \<or> hashlen \<noteq> 34"
    and m: "(mode = RSA_PUBLIC) \<noteq> (mode' = RSA_PUBLIC)"
  shows "\<exists>\<tau>. bindc (rsa_pkcs1_sign qhat ctx mode hash_id hashlen hash)
             (rsa_pkcs1_verify qhat ctx mode' hash_id hashlen hash) \<sigma> = Some (Inr (), \<tau>) \<and> same_key ctx \<sigma> \<tau>"
proof (rule run_two)
  let ?pad = "replicate (nat (int (rsa_len ctx) - 3 - int (length d))) (0xFF :: byte)"
  let ?b = "0 # RSA_SIGN # ?pad @ 0 # d"
  have n: "nat (int (rsa_len ctx) - 3 - int (length d)) = rsa_len ctx - 3 - length d" by simp
  have l: "length ?b = rsa_len ctx" using d(2) by (simp add: n)
  have s: "skip_pad (\<lambda>c. c = 0xFF) (drop 2 ?b) = Some d" using skip_pad_pad [of ?pad "\<lambda>c. c = 0xFF" d] by simp
  note c = digest_checks [OF d(1) raw, THEN conjunct1] digest_checks [OF d(1) raw, THEN conjunct2]
  have i: "c_int (int (rsa_len ctx) - 3 - int (length d)) = Some (int (rsa_len ctx) - 3 - int (length d))" using len d(2) by (simp add: c_int_def)
  have "ok (rsa_op qhat ctx mode ?b) \<sigma> (\<lambda>c \<sigma>'. length c = rsa_len ctx \<and> ok (rsa_op qhat ctx mode' c) \<sigma>'
      (\<lambda>buf \<sigma>'. buf = ?b \<and> same_key ctx \<sigma> \<sigma>'))"
    by (rule rsa_inverse_ok [OF k dig m l block_in_range [OF k N l]]) simp
  then show "ok (rsa_pkcs1_sign qhat ctx mode hash_id hashlen hash) \<sigma>
      (\<lambda>c \<sigma>'. True \<and> ok (rsa_pkcs1_verify qhat ctx mode' hash_id hashlen hash c) \<sigma>' (\<lambda>x \<tau>. x = () \<and> same_key ctx \<sigma> \<tau>))"
    unfolding rsa_pkcs1_sign_def rsa_pkcs1_verify_def c Let_def using len v15 d s c(1) i
    by (auto simp: wp elim!: ok_mono)
qed

theorem rsa_sign_verify_witness:
  "\<exists>\<tau>. bindc (rsa_pkcs1_sign qhat_generic demo_ctx 1 SIG_RSA_RAW 4 [1, 2, 3, 4])
     (rsa_pkcs1_verify qhat_generic demo_ctx RSA_PUBLIC SIG_RSA_RAW 4 [1, 2, 3, 4]) demo_key = Some (Inr (), \<tau>) \<and> same_key demo_ctx demo_key \<tau>"
proof -
  have "digest_info SIG_RSA_RAW 4 [1, 2, 3, 4] = Some (Inr [1, 2, 3, 4])" by (simp add: digest_info_def take_exact_def)
  then show ?thesis
    by (rule rsa_sign_verify [OF demo_key_ok demo_digits, rotated 4]) (simp_all add: demo_cells demo_modulus)
qed

subsection \<open>Rejected calls\<close>

lemma rsa_range_error:
  assumes "oom \<sigma> = []" "0 < k" "n < sp \<sigma>" "mpi_s (heap \<sigma> n) = 1"
    and l: "len \<le> length input" "mval (heap \<sigma> n) \<le> os2ip (take len input)"
  shows "locals k (\<lambda>t. seqc (or_err e1 (read_octets t input len))
         (bindc (rd t) (\<lambda>T. bindc (rd n) (\<lambda>N. if mpi_cmp_mpi T N \<ge> 0 then throw e2 else f t)))) \<sigma> = Some (Inl e2, \<sigma>)"
proof -
  let ?t = "sp \<sigma>"
  have "ok (mpi_read_binary ?t (take len input)) (enter k \<sigma>) (\<lambda>_ \<sigma>'. \<exists>T. \<sigma>' = put ?t T (enter k \<sigma>) \<and> mpi_s T = 1 \<and> mval T = os2ip (take len input))"
    by (rule mpi_read_binary_ok) (use assms(1,2) in \<open>auto simp: mval_def\<close>)
  then obtain T where T: "mpi_read_binary ?t (take len input) (enter k \<sigma>) = Some (Inr (), put ?t T (enter k \<sigma>))"
    "mpi_s T = 1" "mval T = os2ip (take len input)" by (auto simp: ok_def)
  have "0 \<le> mpi_cmp_mpi T (heap \<sigma> n)" using cmp_num [OF T(2) assms(4)] T(3) l(2) by (simp add: sgn_if)
  then show ?thesis using T(1) l(1) assms(3)
    by (simp add: locals_def seqc_def bindc_def or_err_def read_octets_def rd_def throw_def map_sum_def)
qed

lemma rsa_op_range:
  assumes "oom \<sigma> = []" "rN ctx < sp \<sigma>" "mpi_s (heap \<sigma> (rN ctx)) = 1"
    and "rsa_len ctx \<le> length input" "mval (heap \<sigma> (rN ctx)) \<le> os2ip (take (rsa_len ctx) input)"
  shows "rsa_op qhat ctx mode input \<sigma> = Some (Inl POLARSSL_ERR_RSA_BAD_INPUT_DATA, \<sigma>)"
proof -
  have "rsa_public qhat ctx input \<sigma> = Some (Inl POLARSSL_ERR_RSA_BAD_INPUT_DATA, \<sigma>)"
    unfolding rsa_public_def by (rule rsa_range_error [OF assms(1) _ assms(2-5)]) simp
  moreover have "rsa_private qhat ctx input \<sigma> = Some (Inl POLARSSL_ERR_RSA_BAD_INPUT_DATA, \<sigma>)"
    unfolding rsa_private_def Let_def by (rule rsa_range_error [OF assms(1) _ assms(2-5)]) simp
  ultimately show ?thesis by (simp add: rsa_op_def)
qed

text \<open>What is left when the padding is skipped.\<close>

lemma skip_pad_iff: "skip_pad (\<lambda>_. True) xs = Some m \<longleftrightarrow> (\<exists>pad. xs = pad @ 0 # m \<and> 0 \<notin> set pad)"
proof
  show "skip_pad (\<lambda>_. True) xs = Some m \<Longrightarrow> \<exists>pad. xs = pad @ 0 # m \<and> 0 \<notin> set pad"
  proof (induction xs)
    case (Cons c cs)
    then show ?case by (cases "c = 0") (auto split: if_splits intro: exI [of _ "[]"] exI [of _ "c # _"])
  qed simp
next
  assume "\<exists>pad. xs = pad @ 0 # m \<and> 0 \<notin> set pad"
  then show "skip_pad (\<lambda>_. True) xs = Some m" using skip_pad_pad by auto
qed

definition padded :: "byte list \<Rightarrow> byte list \<Rightarrow> bool" where
  "padded b m \<longleftrightarrow> (\<exists>pad. b = [0, RSA_CRYPT] @ pad @ [0] @ m \<and> 0 \<notin> set pad)"

lemma padded_iff:
  assumes "2 \<le> length b"
  shows "padded b m \<longleftrightarrow> b ! 0 = 0 \<and> b ! 1 = RSA_CRYPT \<and> skip_pad (\<lambda>_. True) (drop 2 b) = Some m"
proof -
  obtain x y zs where b: "b = x # y # zs" using assms by (cases b; cases "tl b") auto
  show ?thesis unfolding b by (auto simp: padded_def skip_pad_iff)
qed

text \<open>C33: What \<open>rsa_pkcs1_decrypt\<close> returns, for every input of \<open>ctx->len\<close> octets. A key length outside 16 to 1024 octets and an input that is not
  below \<open>N\<close> are refused with \<open>BAD_INPUT_DATA\<close>. Otherwise let \<open>b\<close> be the block below \<open>N\<close> that the operation gives: the \<open>E\<close>-th power of the input, or its root. When \<open>b\<close> is 0, 2,
  bytes that are not zero, a zero and a message, this message is the result, or \<open>OUTPUT_TOO_LARGE\<close> if it is longer than
  \<open>output_max_len\<close>; when it has no such form, and in another padding mode, the result is \<open>INVALID_PADDING\<close>. The key is kept. No allocation fails, and the
  quotient digits are exact for the three moduli, as in the round trips.\<close>

theorem rsa_decrypt_exact:
  assumes k: "rsa_key ctx \<sigma>" and dig: "key_digits qhat ctx \<sigma>" and l: "length input = rsa_len ctx"
  shows "if rsa_len ctx < 16 \<or> 1024 < rsa_len ctx \<or> mval (heap \<sigma> (rN ctx)) \<le> os2ip input
    then rsa_pkcs1_decrypt qhat ctx mode input n \<sigma> = Some (Inl POLARSSL_ERR_RSA_BAD_INPUT_DATA, \<sigma>)
    else \<exists>b r \<tau>. length b = rsa_len ctx \<and> os2ip b < mval (heap \<sigma> (rN ctx)) \<and>
      rsa_rel mode (mval (heap \<sigma> (rN ctx))) (mval (heap \<sigma> (rE ctx))) (os2ip input) (os2ip b) \<and>
      rsa_pkcs1_decrypt qhat ctx mode input n \<sigma> = Some (r, \<tau>) \<and> same_key ctx \<sigma> \<tau> \<and>
      (if rsa_padding ctx = RSA_PKCS_V15 \<and> (\<exists>m. padded b m)
       then \<exists>m. padded b m \<and> r = (if int (length m) \<le> n then Inr m else Inl POLARSSL_ERR_RSA_OUTPUT_TOO_LARGE)
       else r = Inl POLARSSL_ERR_RSA_INVALID_PADDING)"
proof -
  have c: "oom \<sigma> = []" "rN ctx < sp \<sigma>" "mpi_s (heap \<sigma> (rN ctx)) = 1" using k by (simp_all add: rsa_key_def rsa_cells num_ok_def)
  consider "rsa_len ctx < 16 \<or> 1024 < rsa_len ctx"
    | "\<not> (rsa_len ctx < 16 \<or> 1024 < rsa_len ctx)" "mval (heap \<sigma> (rN ctx)) \<le> os2ip input"
    | "\<not> (rsa_len ctx < 16 \<or> 1024 < rsa_len ctx)" "os2ip input < mval (heap \<sigma> (rN ctx))" by linarith
  then show ?thesis
  proof cases
    case 1
    then show ?thesis by (auto simp: rsa_pkcs1_decrypt_def throw_def)
  next
    case 2
    have "rsa_op qhat ctx mode input \<sigma> = Some (Inl POLARSSL_ERR_RSA_BAD_INPUT_DATA, \<sigma>)"
      by (rule rsa_op_range [OF c]) (use l 2 in simp_all)
    then show ?thesis using 2 by (simp add: rsa_pkcs1_decrypt_def Let_def bindc_def)
  next
    case 3
    have "ok (rsa_op qhat ctx mode input) \<sigma> (\<lambda>b \<tau>. length b = rsa_len ctx \<and> os2ip b < mval (heap \<sigma> (rN ctx)) \<and>
        rsa_rel mode (mval (heap \<sigma> (rN ctx))) (mval (heap \<sigma> (rE ctx))) (os2ip input) (os2ip b) \<and> same_key ctx \<sigma> \<tau>)"
      by (rule rsa_op_ok [OF k dig l 3(2)]) blast
    then obtain b \<tau> where b: "rsa_op qhat ctx mode input \<sigma> = Some (Inr b, \<tau>)" "length b = rsa_len ctx" "os2ip b < mval (heap \<sigma> (rN ctx))"
      "rsa_rel mode (mval (heap \<sigma> (rN ctx))) (mval (heap \<sigma> (rE ctx))) (os2ip input) (os2ip b)" "same_key ctx \<sigma> \<tau>" unfolding ok_def by auto
    have pb: "padded b m \<longleftrightarrow> b ! 0 = 0 \<and> b ! 1 = RSA_CRYPT \<and> skip_pad (\<lambda>_. True) (drop 2 b) = Some m" for m
      by (rule padded_iff) (use b(2) 3(1) in simp)
    have "\<exists>r. rsa_pkcs1_decrypt qhat ctx mode input n \<sigma> = Some (r, \<tau>) \<and> (if rsa_padding ctx = RSA_PKCS_V15 \<and> (\<exists>m. padded b m)
       then \<exists>m. padded b m \<and> r = (if int (length m) \<le> n then Inr m else Inl POLARSSL_ERR_RSA_OUTPUT_TOO_LARGE)
       else r = Inl POLARSSL_ERR_RSA_INVALID_PADDING)"
      unfolding rsa_pkcs1_decrypt_def pb using 3(1) by (auto simp: bindc_def b(1) throw_def ret_def Let_def not_le split: option.splits)
    then show ?thesis using 3 b(2-5) by (simp only: if_False simp_thms not_le [symmetric]) blast
  qed
qed

theorem rsa_decrypt_exact_witness:
  "rsa_pkcs1_decrypt qhat_generic demo_ctx 1 (replicate 16 0xFF) 100 demo_key = Some (Inl POLARSSL_ERR_RSA_BAD_INPUT_DATA, demo_key) \<and>
   (\<exists>\<tau>. rsa_pkcs1_decrypt qhat_generic demo_ctx 1 (replicate 16 0) 100 demo_key = Some (Inl POLARSSL_ERR_RSA_INVALID_PADDING, \<tau>))"
proof
  have v: "39876839873547476408655284678019776513 \<le> os2ip (replicate 16 0xFF)" by code_simp
  have l: "length (replicate 16 (x :: byte)) = rsa_len demo_ctx" for x by (simp add: demo_cells)
  have "mval (heap demo_key (rN demo_ctx)) \<le> os2ip (replicate 16 0xFF)" using v by (simp only: demo_cells demo_num_simps demo_modulus)
  then have "rsa_len demo_ctx < 16 \<or> 1024 < rsa_len demo_ctx \<or> mval (heap demo_key (rN demo_ctx)) \<le> os2ip (replicate 16 0xFF)" by blast
  from rsa_decrypt_exact [OF demo_key_ok demo_digits l, of "0xFF" 1 100, unfolded if_P [OF this]]
  show "rsa_pkcs1_decrypt qhat_generic demo_ctx 1 (replicate 16 0xFF) 100 demo_key = Some (Inl POLARSSL_ERR_RSA_BAD_INPUT_DATA, demo_key)" .
  have z: "os2ip (replicate 16 0) = 0" using os2ip_zeros [of 16 "[]"] by (simp add: os2ip_def)
  obtain b r \<tau> where b: "length b = 16" "os2ip b < mval (heap demo_key (rN demo_ctx))"
    "rsa_rel 1 (mval (heap demo_key (rN demo_ctx))) 7 0 (os2ip b)"
    "rsa_pkcs1_decrypt qhat_generic demo_ctx 1 (replicate 16 0) 100 demo_key = Some (r, \<tau>)"
    "if \<exists>m. padded b m then \<exists>m. padded b m \<and> r = (if int (length m) \<le> 100 then Inr m else Inl POLARSSL_ERR_RSA_OUTPUT_TOO_LARGE)
       else r = Inl POLARSSL_ERR_RSA_INVALID_PADDING"
    using rsa_decrypt_exact [OF demo_key_ok demo_digits l, of 0 1 100] rsa_modulus_pos [OF demo_key_ok] z by (auto simp: demo_cells demo_num_simps)
  have "os2ip b = 0"
  proof (rule rsa_rel_inverse [OF demo_key_ok _ refl refl])
    show "rsa_rel RSA_PUBLIC (mval (heap demo_key (rN demo_ctx))) (mval (heap demo_key (rE demo_ctx))) 0 0" by (simp add: rsa_rel_def demo_cells)
    show "rsa_rel 1 (mval (heap demo_key (rN demo_ctx))) (mval (heap demo_key (rE demo_ctx))) 0 (os2ip b)" using b(3) by (simp add: demo_cells)
  qed (use b(2) rsa_modulus_pos [OF demo_key_ok] os2ip_less(1) in simp_all)
  then have "b = replicate 16 0" using b(1) z by (intro os2ip_inject) simp_all
  then have "\<not> padded b m" for m using padded_iff [of b m] by (simp add: numeral_eq_Suc)
  then show "\<exists>\<tau>. rsa_pkcs1_decrypt qhat_generic demo_ctx 1 (replicate 16 0) 100 demo_key = Some (Inl POLARSSL_ERR_RSA_INVALID_PADDING, \<tau>)"
    using b(4,5) by simp
qed

subsection \<open>Sequences of calls\<close>

text \<open>What a call may do to the store, whether it succeeds or not.\<close>

definition keeps_key :: "(t_int \<Rightarrow> t_int \<Rightarrow> t_int \<Rightarrow> t_int option) \<Rightarrow> rsa_context \<Rightarrow> 'a cm \<Rightarrow> bool" where
  "keeps_key qhat ctx f \<longleftrightarrow> (\<forall>\<sigma> r \<sigma>'. rsa_key ctx \<sigma> \<longrightarrow> key_digits qhat ctx \<sigma> \<longrightarrow> f \<sigma> = Some (r, \<sigma>') \<longrightarrow> same_key ctx \<sigma> \<sigma>')"

lemma same_key_refl: "rsa_key ctx \<sigma> \<Longrightarrow> same_key ctx \<sigma> \<sigma>"
  by (simp add: same_key_def)

lemma same_key_D: "same_key ctx \<sigma> \<sigma>' \<Longrightarrow> rsa_key ctx \<sigma>'"
  by (simp add: same_key_def)

lemma ok_same_key: "ok f \<sigma> (\<lambda>_. same_key ctx \<sigma>) \<Longrightarrow> f \<sigma> = Some (r, \<sigma>') \<Longrightarrow> same_key ctx \<sigma> \<sigma>'"
  by (auto simp: ok_def)

named_theorems keeps

lemma keeps_basic [keeps]:
  "keeps_key qhat ctx (ret x)" "keeps_key qhat ctx (throw e)" "keeps_key qhat ctx (defd v)" "keeps_key qhat ctx (chk w)"
  by (auto simp: keeps_key_def ret_def throw_def defd_def chk_def same_key_refl split: option.splits sum.splits)

lemma keeps_bind [keeps]:
  assumes "keeps_key qhat ctx f" "\<And>x. keeps_key qhat ctx (g x)"
  shows "keeps_key qhat ctx (bindc f g)"
  unfolding keeps_key_def
proof (intro allI impI)
  fix \<sigma> r \<tau> assume k: "rsa_key ctx \<sigma>" and dig: "key_digits qhat ctx \<sigma>" and b: "bindc f g \<sigma> = Some (r, \<tau>)"
  then obtain x \<rho> where f: "f \<sigma> = Some (x, \<rho>)" by (auto simp: bindc_def split: option.splits)
  then have s: "same_key ctx \<sigma> \<rho>" using assms(1) k dig by (simp add: keeps_key_def)
  show "same_key ctx \<sigma> \<tau>"
  proof (cases x)
    case (Inl e)
    then show ?thesis using b f s by (simp add: bindc_def)
  next
    case (Inr y)
    then have "g y \<rho> = Some (r, \<tau>)" using b f by (simp add: bindc_def)
    then have "same_key ctx \<rho> \<tau>" using assms(2) [of y] same_key_D [OF s] dig same_key_digits [OF s] by (simp add: keeps_key_def)
    with s show ?thesis by (rule same_key_trans)
  qed
qed

lemma keeps_op [keeps]: "keeps_key qhat ctx (rsa_op qhat ctx mode input)"
  unfolding keeps_key_def
proof (intro allI impI)
  fix \<sigma> r \<sigma>' assume k: "rsa_key ctx \<sigma>" and dig: "key_digits qhat ctx \<sigma>" and r: "rsa_op qhat ctx mode input \<sigma> = Some (r, \<sigma>')"
  have c: "oom \<sigma> = []" "rN ctx < sp \<sigma>" "mpi_s (heap \<sigma> (rN ctx)) = 1"
    using k by (simp_all add: rsa_key_def rsa_cells num_ok_def)
  consider "length input < rsa_len ctx"
    | "rsa_len ctx \<le> length input" "mval (heap \<sigma> (rN ctx)) \<le> os2ip (take (rsa_len ctx) input)"
    | "rsa_len ctx \<le> length input" "os2ip (take (rsa_len ctx) input) < mval (heap \<sigma> (rN ctx))" by linarith
  then show "same_key ctx \<sigma> \<sigma>'"
  proof cases
    case 1
    then have "rsa_op qhat ctx mode input \<sigma> = None"
      by (simp add: rsa_op_def rsa_public_def rsa_private_def Let_def locals_def seqc_def bindc_def or_err_def read_octets_def defd_def)
    then show ?thesis using r by simp
  next
    case 2
    have "rsa_op qhat ctx mode input \<sigma> = Some (Inl POLARSSL_ERR_RSA_BAD_INPUT_DATA, \<sigma>)" by (rule rsa_op_range [OF c 2])
    then show ?thesis using r same_key_refl [OF k] by simp
  next
    case 3
    have "ok (rsa_public qhat ctx input) \<sigma> (\<lambda>_. same_key ctx \<sigma>)"
      by (rule rsa_public_ok [OF k dig 3]) (rule same_key_caches)
    moreover have "ok (rsa_private qhat ctx input) \<sigma> (\<lambda>_. same_key ctx \<sigma>)"
      by (rule rsa_private_ok [OF k dig 3]) (rule same_key_caches)
    ultimately show ?thesis using r ok_same_key by (simp add: rsa_op_def split: if_splits)
  qed
qed

lemma keeps_padded [keeps]:
  "keeps_key qhat ctx (rsa_pkcs1_encrypt qhat rand ctx mode ilen msg)"
  "keeps_key qhat ctx (rsa_pkcs1_decrypt qhat ctx mode c n)"
  "keeps_key qhat ctx (rsa_pkcs1_sign qhat ctx mode hash_id hashlen hash)"
  "keeps_key qhat ctx (rsa_pkcs1_verify qhat ctx mode hash_id hashlen hash sig)"
  unfolding rsa_pkcs1_encrypt_def rsa_pkcs1_decrypt_def rsa_pkcs1_sign_def rsa_pkcs1_verify_def Let_def
  by (auto intro!: keeps split: option.splits)

text \<open>A program that uses the key: any sequence of the calls, with any arguments.\<close>

inductive rsa_calls :: "(t_int \<Rightarrow> t_int \<Rightarrow> t_int \<Rightarrow> t_int option) \<Rightarrow> rsa_context \<Rightarrow> mem \<Rightarrow> mem \<Rightarrow> bool" for qhat ctx where
  stop: "rsa_calls qhat ctx \<sigma> \<sigma>"
| op: "rsa_calls qhat ctx \<sigma> \<rho> \<Longrightarrow> rsa_op qhat ctx mode input \<rho> = Some (r, \<tau>) \<Longrightarrow> rsa_calls qhat ctx \<sigma> \<tau>"
| encrypt: "rsa_calls qhat ctx \<sigma> \<rho> \<Longrightarrow> rsa_pkcs1_encrypt qhat rand ctx mode ilen msg \<rho> = Some (r, \<tau>) \<Longrightarrow> rsa_calls qhat ctx \<sigma> \<tau>"
| decrypt: "rsa_calls qhat ctx \<sigma> \<rho> \<Longrightarrow> rsa_pkcs1_decrypt qhat ctx mode c n \<rho> = Some (r, \<tau>) \<Longrightarrow> rsa_calls qhat ctx \<sigma> \<tau>"
| sign: "rsa_calls qhat ctx \<sigma> \<rho> \<Longrightarrow> rsa_pkcs1_sign qhat ctx mode hash_id hashlen hash \<rho> = Some (r, \<tau>) \<Longrightarrow> rsa_calls qhat ctx \<sigma> \<tau>"
| verify: "rsa_calls qhat ctx \<sigma> \<rho> \<Longrightarrow> rsa_pkcs1_verify qhat ctx mode hash_id hashlen hash sig \<rho> = Some (v, \<tau>) \<Longrightarrow> rsa_calls qhat ctx \<sigma> \<tau>"

lemma keeps_step: "keeps_key qhat ctx f \<Longrightarrow> key_digits qhat ctx \<sigma> \<Longrightarrow> same_key ctx \<sigma> \<rho> \<Longrightarrow> f \<rho> = Some (r, \<tau>) \<Longrightarrow> same_key ctx \<sigma> \<tau>"
  by (meson keeps_key_def same_key_D same_key_digits same_key_trans)

text \<open>C10: The key invariant holds after every sequence of calls with any arguments, whether they return a result or an error code, as long as
  no allocation fails: the numbers of the key and the caller's memory are as before, and the three caches are empty or hold what
  \<open>mpi_exp_mod\<close> expects of them. With the half-limb quotient digit of the program's
  build this is so for keys whose three moduli \<open>N\<close>, \<open>P\<close> and \<open>Q\<close> do not end, in their top 63 bits, in \<open>0xFFFFFFFE\<close> or \<open>0xFFFFFFFF\<close>; with the
  double-limb digit for every key.\<close>

theorem rsa_key_invariant:
  assumes "rsa_calls qhat ctx \<sigma> \<tau>" "rsa_key ctx \<sigma>" "key_digits qhat ctx \<sigma>"
  shows "rsa_key ctx \<tau> \<and> (\<forall>a. a \<notin> {rRN ctx, rRP ctx, rRQ ctx} \<longrightarrow> heap \<tau> a = heap \<sigma> a) \<and> sp \<tau> = sp \<sigma>"
proof -
  have "same_key ctx \<sigma> \<tau>" using assms
    by (induction rule: rsa_calls.induct) (auto intro: same_key_refl keeps_step keeps)
  then show ?thesis by (simp add: same_key_def)
qed

theorem rsa_key_invariant_witness:
  "\<exists>buf \<tau>. rsa_op qhat_generic demo_ctx 1 (replicate 15 0 @ [5]) demo_key = Some (Inr buf, \<tau>) \<and> rsa_key demo_ctx \<tau>"
proof -
  have v: "os2ip (replicate 15 0 @ [5]) = 5" "length (replicate 15 0 @ [5 :: byte]) = rsa_len demo_ctx"
    by (simp_all add: os2ip_zeros demo_cells) (simp add: os2ip_def)
  have "ok (rsa_op qhat_generic demo_ctx 1 (replicate 15 0 @ [5])) demo_key (\<lambda>_ _. True)"
    by (rule rsa_op_ok [OF demo_key_ok demo_digits v(2)]) (simp_all add: v(1) demo_cells demo_modulus)
  then obtain buf \<tau> where "rsa_op qhat_generic demo_ctx 1 (replicate 15 0 @ [5]) demo_key = Some (Inr buf, \<tau>)"
    by (auto simp: ok_def)
  moreover from rsa_key_invariant [OF rsa_calls.op [OF rsa_calls.stop this] demo_key_ok demo_digits] have "rsa_key demo_ctx \<tau>" by blast
  ultimately show ?thesis by blast
qed

end
