(* ===== verification/Inet_Chksum.thy ===== *)
theory Inet_Chksum
  imports Prelude
begin

text \<open>
  Byte order and the Internet checksum of lwIP: \<open>htons\<close>, \<open>htonl\<close> of
  \<open>core/ipv4/inet.c\<close> (little-endian hosts) and all of \<open>core/ipv4/inet_chksum.c\<close>. A
  buffer is the list of its bytes; its address matters to the two word-wise versions of
  \<open>lwip_standard_chksum\<close> and is their argument. A pbuf chain is the list of the
  payloads of its pbufs.
\<close>

type_synonym u8_t = "8 word"
type_synonym u16_t = "16 word"
type_synonym u32_t = "32 word"

subsection \<open>Definitions\<close>

definition htons :: "u16_t \<Rightarrow> u16_t" where
  "htons n = push_bit 8 (n AND 0xff) OR drop_bit 8 (n AND 0xff00)"

definition ntohs :: "u16_t \<Rightarrow> u16_t" where
  "ntohs n = htons n"

definition htonl :: "u32_t \<Rightarrow> u32_t" where
  "htonl n = push_bit 24 (n AND 0xff) OR push_bit 8 (n AND 0xff00) OR drop_bit 8 (n AND 0xff0000)
     OR drop_bit 24 (n AND 0xff000000)"

definition ntohl :: "u32_t \<Rightarrow> u32_t" where
  "ntohl n = htonl n"

definition SWAP_BYTES_IN_WORD :: "u32_t \<Rightarrow> u32_t" where
  "SWAP_BYTES_IN_WORD w = push_bit 8 (w AND 0xff) OR drop_bit 8 (w AND 0xff00)"

definition FOLD_U32T :: "u32_t \<Rightarrow> u32_t" where
  "FOLD_U32T u = drop_bit 16 u + (u AND 0xffff)"

text \<open>Version 1: octets in network order, the loop \<open>while (len > 1)\<close>.\<close>

fun sum_octets :: "u32_t \<Rightarrow> byte list \<Rightarrow> u32_t" where
  "sum_octets acc (a # b # bs) =
     (let src = push_bit 8 (ucast a :: u16_t); src = src OR ucast b in sum_octets (acc + ucast src) bs)"
| "sum_octets acc [a] = (let src = push_bit 8 (ucast a :: u16_t) in acc + ucast src)"
| "sum_octets acc [] = acc"

definition lwip_standard_chksum :: "byte list \<Rightarrow> u16_t" where
  "lwip_standard_chksum bs =
     (let acc = sum_octets 0 bs;
          acc = drop_bit 16 acc + (acc AND 0xffff);
          acc = (if acc AND 0xffff0000 \<noteq> 0 then drop_bit 16 acc + (acc AND 0xffff) else acc)
      in htons (ucast acc))"

text \<open>\<open>*ps\<close>, \<open>*pl\<close> and the two bytes of \<open>t\<close> on a little-endian host.\<close>

definition ld16 :: "byte \<Rightarrow> byte \<Rightarrow> u16_t" where
  "ld16 a b = ucast a OR push_bit 8 (ucast b)"

definition ld32 :: "byte \<Rightarrow> byte \<Rightarrow> byte \<Rightarrow> byte \<Rightarrow> u32_t" where
  "ld32 a b c d = ucast a OR push_bit 8 (ucast b) OR push_bit 16 (ucast c) OR push_bit 24 (ucast d)"

text \<open>Version 2: \<open>sum += *ps++\<close>, then the left-over byte goes to \<open>t\<close>.\<close>

fun sum_halves :: "u32_t \<Rightarrow> u16_t \<Rightarrow> byte list \<Rightarrow> u32_t \<times> u16_t" where
  "sum_halves s t (a # b # bs) = sum_halves (s + ucast (ld16 a b)) t bs"
| "sum_halves s t [a] = (s, (t AND 0xff00) OR ucast a)"
| "sum_halves s t [] = (s, t)"

definition lwip_standard_chksum_2 :: "nat \<Rightarrow> byte list \<Rightarrow> u16_t" where
  "lwip_standard_chksum_2 addr bs =
     (let odd = addr mod 2 = 1;
          (t, bs) = (case bs of b # bs' \<Rightarrow> if odd then (push_bit 8 (ucast b), bs') else (0, bs) | [] \<Rightarrow> (0, bs));
          (sum, t) = sum_halves 0 t bs;
          sum = sum + ucast t;
          sum = FOLD_U32T sum; sum = FOLD_U32T sum
      in ucast (if odd then SWAP_BYTES_IN_WORD sum else sum))"

text \<open>Version 3: two 32-bit words a turn with the carry added back (ping, pong).\<close>

definition add_back :: "u32_t \<Rightarrow> u32_t \<Rightarrow> u32_t" where
  "add_back s w = (let tmp = s + w in if tmp < s then tmp + 1 else tmp)"

fun sum_words :: "u32_t \<Rightarrow> byte list \<Rightarrow> u32_t \<times> byte list" where
  "sum_words s (a # b # c # d # e # f # g # h # bs) =
     sum_words (add_back (add_back s (ld32 a b c d)) (ld32 e f g h)) bs"
| "sum_words s bs = (s, bs)"

definition lwip_standard_chksum_3 :: "nat \<Rightarrow> byte list \<Rightarrow> u16_t" where
  "lwip_standard_chksum_3 addr bs =
     (let odd = addr mod 2 = 1;
          (t, bs, addr) = (case bs of
              b # bs' \<Rightarrow> if odd then (push_bit 8 (ucast b), bs', addr + 1) else (0, bs, addr) | [] \<Rightarrow> (0, bs, addr));
          (sum, bs) = (case bs of
              a # b # bs' \<Rightarrow> if addr mod 4 \<noteq> 0 then (ucast (ld16 a b), bs') else (0, bs) | _ \<Rightarrow> (0, bs));
          (sum, bs) = sum_words sum bs;
          sum = FOLD_U32T sum;
          (sum, t) = sum_halves sum t bs;
          sum = sum + ucast t;
          sum = FOLD_U32T sum; sum = FOLD_U32T sum
      in ucast (if odd then SWAP_BYTES_IN_WORD sum else sum))"

definition inet_chksum :: "byte list \<Rightarrow> u16_t" where
  "inet_chksum bs = NOT (lwip_standard_chksum bs)"

text \<open>\<open>for(q = p; q != NULL; q = q->next)\<close>: the accumulator and \<open>swapped\<close>.\<close>

fun chksum_chain :: "u32_t \<Rightarrow> bool \<Rightarrow> byte list list \<Rightarrow> u32_t \<times> bool" where
  "chksum_chain acc swapped [] = (acc, swapped)"
| "chksum_chain acc swapped (q # qs) =
     (let acc = acc + ucast (lwip_standard_chksum q);
          acc = FOLD_U32T acc
      in if length q mod 2 \<noteq> 0 then chksum_chain (SWAP_BYTES_IN_WORD acc) (\<not> swapped) qs
         else chksum_chain acc swapped qs)"

definition inet_chksum_pbuf :: "byte list list \<Rightarrow> u16_t" where
  "inet_chksum_pbuf p =
     (let (acc, swapped) = chksum_chain 0 False p;
          acc = (if swapped then SWAP_BYTES_IN_WORD acc else acc)
      in NOT (ucast (acc AND 0xffff)))"

text \<open>The pseudo header: addresses in network order, protocol, length.\<close>

definition pseudo_fold :: "u32_t \<Rightarrow> u32_t \<Rightarrow> u32_t \<Rightarrow> u8_t \<Rightarrow> u16_t \<Rightarrow> u16_t" where
  "pseudo_fold acc src dest proto proto_len =
     (let acc = acc + (src AND 0xffff);
          acc = acc + (drop_bit 16 src AND 0xffff);
          acc = acc + (dest AND 0xffff);
          acc = acc + (drop_bit 16 dest AND 0xffff);
          acc = acc + ucast (htons (ucast proto));
          acc = acc + ucast (htons proto_len);
          acc = FOLD_U32T acc; acc = FOLD_U32T acc
      in NOT (ucast (acc AND 0xffff)))"

definition inet_chksum_pseudo :: "byte list list \<Rightarrow> u32_t \<Rightarrow> u32_t \<Rightarrow> u8_t \<Rightarrow> u16_t \<Rightarrow> u16_t" where
  "inet_chksum_pseudo p src dest proto proto_len =
     (let (acc, swapped) = chksum_chain 0 False p;
          acc = (if swapped then SWAP_BYTES_IN_WORD acc else acc)
      in pseudo_fold acc src dest proto proto_len)"

text \<open>The UDP-Lite variant stops after \<open>chksum_len\<close> bytes; its loop condition reads it.\<close>

fun chksum_chain_partial :: "u32_t \<Rightarrow> bool \<Rightarrow> nat \<Rightarrow> byte list list \<Rightarrow> u32_t \<times> bool" where
  "chksum_chain_partial acc swapped chksum_len [] = (acc, swapped)"
| "chksum_chain_partial acc swapped chksum_len (q # qs) =
     (if chksum_len = 0 then (acc, swapped)
      else let chklen = min (length q) chksum_len;
               acc = acc + ucast (lwip_standard_chksum (take chklen q));
               chksum_len = chksum_len - chklen;
               acc = FOLD_U32T acc
           in if length q mod 2 \<noteq> 0 then chksum_chain_partial (SWAP_BYTES_IN_WORD acc) (\<not> swapped) chksum_len qs
              else chksum_chain_partial acc swapped chksum_len qs)"

definition inet_chksum_pseudo_partial :: "byte list list \<Rightarrow> u32_t \<Rightarrow> u32_t \<Rightarrow> u8_t \<Rightarrow> u16_t \<Rightarrow> nat \<Rightarrow> u16_t" where
  "inet_chksum_pseudo_partial p src dest proto proto_len chksum_len =
     (let (acc, swapped) = chksum_chain_partial 0 False chksum_len p;
          acc = (if swapped then SWAP_BYTES_IN_WORD acc else acc)
      in pseudo_fold acc src dest proto proto_len)"

subsection \<open>One's complement sums\<close>

text \<open>The representative of a number modulo 65535 a folded sum has: 0 only for 0.\<close>

definition ones :: "nat \<Rightarrow> nat" where
  "ones s = (if s = 0 then 0 else (s - 1) mod 65535 + 1)"

lemma ones_0 [simp]: "ones 0 = 0" by (simp add: ones_def)

lemma ones_le: "ones s \<le> 65535"
  by (auto simp: ones_def Suc_le_eq)

lemma ones_mod: "ones s mod 65535 = s mod 65535"
  by (cases s) (simp_all add: ones_def mod_Suc_eq)

lemma ones_eq_0 [simp]: "ones s = 0 \<longleftrightarrow> s = 0"
  by (simp add: ones_def)

lemma mod_inj_pos: "a \<le> m \<Longrightarrow> b \<le> m \<Longrightarrow> a mod m = b mod m \<Longrightarrow> 0 < a \<Longrightarrow> 0 < b \<Longrightarrow> a = (b :: nat)"
  by (cases "a = m"; cases "b = m") simp_all

lemma ones_pos [simp]: "0 < ones s \<longleftrightarrow> 0 < s"
  by (simp add: ones_def)

lemma ones_unique:
  assumes "a \<le> 65535" "a mod 65535 = s mod 65535" "a = 0 \<longleftrightarrow> s = 0"
  shows "a = ones s"
proof (cases "s = 0")
  case False
  then show ?thesis
    using mod_inj_pos [OF assms(1) ones_le [of s]] assms by (simp add: ones_mod)
qed (use assms in simp)

lemma ones_cong: "a mod 65535 = b mod 65535 \<Longrightarrow> (a = 0 \<longleftrightarrow> b = 0) \<Longrightarrow> ones a = ones b"
  by (rule ones_unique) (simp_all add: ones_le ones_mod)

lemma ones_ones [simp]: "ones (ones a) = ones a"
  by (rule ones_cong) (simp_all add: ones_mod)

lemma ones_add: "ones (ones a + b) = ones (a + b)" "ones (b + ones a) = ones (b + a)"
  by (rule ones_cong, rule mod_add_cong, simp_all add: ones_mod)+

lemma ones_add_cong: "ones a = ones a' \<Longrightarrow> ones b = ones b' \<Longrightarrow> ones (a + b) = ones (a' + b')"
  by (metis ones_add)

lemma ones_id: "s \<le> 65535 \<Longrightarrow> ones s = s"
  using ones_unique [of s s] by simp

text \<open>Multiplying by 256 exchanges the bytes.\<close>

lemma ones_256_twice: "ones (256 * ones (256 * s)) = ones s"
proof (rule ones_cong)
  have "(256 * ones (256 * s)) mod 65535 = (256 * (256 * s)) mod 65535" by (metis mod_mult_right_eq ones_mod)
  also have "256 * (256 * s) = s + 65535 * s" by simp
  also have "(s + 65535 * s) mod 65535 = s mod 65535" by (rule mod_mult_self2)
  finally show "(256 * ones (256 * s)) mod 65535 = s mod 65535" .
qed simp

subsection \<open>Words\<close>

lemma and_masks:
  fixes w :: "'a :: len word"
  shows "w AND 0xff = take_bit 8 w" "w AND 0xffff = take_bit 16 w"
  by (simp_all add: take_bit_eq_mask mask_numeral)

lemma unat_drop: "unat (drop_bit k (w :: 'a :: len word)) = unat w div 2 ^ k"
  by (subst unsigned_drop_bit_eq) (simp add: drop_bit_eq_div take_bit_nat_eq_self unsigned_less)

lemma unat_take: "unat (take_bit k (w :: 'a :: len word)) = unat w mod 2 ^ k"
  by (subst unsigned_take_bit_eq) (rule take_bit_eq_mod)

lemma unat_fold: "unat (FOLD_U32T u) = unat u div 65536 + unat u mod 65536"
proof -
  have "unat u div 65536 + unat u mod 65536 < 2 ^ 32"
    using unsigned_less [of u, where ?'a = nat] by simp
  then have "unat (drop_bit 16 u) + unat (take_bit 16 u) < 2 ^ LENGTH(32)"
    by (simp only: unat_drop unat_take) simp
  then have "unat (drop_bit 16 u + take_bit 16 u) = unat (drop_bit 16 u) + unat (take_bit 16 u)"
    by (rule unat_add_lem [THEN iffD1])
  then show ?thesis unfolding FOLD_U32T_def and_masks unat_drop unat_take by simp
qed

lemma nat_or_push: "b < 2 ^ k \<Longrightarrow> a * 2 ^ k OR b = a * 2 ^ k + (b :: nat)"
proof -
  assume "b < 2 ^ k"
  then have b: "take_bit k b = b" by (simp add: take_bit_nat_eq_self)
  have "push_bit k a AND take_bit k b = 0" by (rule bit_eqI) (auto simp: bit_simps)
  then show ?thesis unfolding b by (simp add: disjunctive_add_eq_or push_bit_eq_mult)
qed

lemma unat_or_push:
  fixes a b :: "'a :: len word"
  assumes "unat b < 2 ^ k" "unat a * 2 ^ k < 2 ^ LENGTH('a)"
  shows "unat (push_bit k a OR b) = unat a * 2 ^ k + unat b"
proof -
  have p: "unat (push_bit k a) = unat a * 2 ^ k" using assms(2) by (subst unsigned_push_bit_eq) (simp only: push_bit_eq_mult take_bit_nat_eq_self)
  have "unat (push_bit k a OR b) = unat (push_bit k a) OR unat b" by (rule unsigned_or_eq)
  also have "\<dots> = unat a * 2 ^ k + unat b"
    unfolding p by (rule nat_or_push [OF assms(1)])
  finally show ?thesis .
qed

lemma unat_byte [simp]: "unat (b :: byte) < 256" "unat (b :: byte) \<le> 255"
  using unsigned_less [of b, where ?'a = nat] by simp_all

lemma unat_half [simp]: "unat (w :: u16_t) < 65536" "unat (w :: u16_t) \<le> 65535"
  using unsigned_less [of w, where ?'a = nat] by simp_all

lemma unat_ucast_up:
  assumes "LENGTH('a) \<le> LENGTH('b)"
  shows "unat (ucast (w :: 'a :: len word) :: 'b :: len word) = unat w"
proof -
  have "unat w < 2 ^ LENGTH('b)"
    using assms by (intro order_less_le_trans [OF unsigned_less power_increasing]) simp_all
  then show ?thesis by (simp add: unsigned_ucast_eq take_bit_nat_eq_self)
qed

lemma unat_be16: "unat (push_bit 8 (ucast a :: u16_t) OR ucast (b :: byte)) = unat (a :: byte) * 256 + unat b"
proof -
  have "unat a * 256 < 65536" using unat_byte(2) [of a] by linarith
  then show ?thesis by (subst unat_or_push) (simp_all add: unat_ucast_up)
qed

lemma unat_ld16: "unat (ld16 a b) = unat a + unat b * 256"
  using unat_be16 [of b a] by (simp add: ld16_def or.commute)

lemma unat_ld32: "unat (ld32 a b c d) = unat (ld16 a b) + unat (ld16 c d) * 65536"
proof -
  have "ld32 a b c d = push_bit 16 (ucast (ld16 c d)) OR ucast (ld16 a b)"
    by (rule bit_word_eqI) (auto simp: ld32_def ld16_def bit_simps dest: bit_imp_le_length)
  moreover have "unat (ld16 c d) * 65536 < 4294967296" using unat_half(2) [of "ld16 c d"] by linarith
  ultimately show ?thesis
    using unat_or_push [of "ucast (ld16 a b) :: u32_t" 16 "ucast (ld16 c d)"] by (simp add: unat_ucast_up)
qed

lemma unat_swap: "unat (SWAP_BYTES_IN_WORD w) = unat w mod 256 * 256 + unat w div 256 mod 256"
proof -
  have "SWAP_BYTES_IN_WORD w = push_bit 8 (take_bit 8 w) OR take_bit 8 (drop_bit 8 w)"
    by (rule bit_word_eqI) (auto simp: SWAP_BYTES_IN_WORD_def and_masks(1) bit_simps)
  moreover have "unat w mod 256 * 256 < 4294967296" using mod_less_divisor [of 256 "unat w"] by linarith
  ultimately show ?thesis
    using unat_or_push [of "take_bit 8 (drop_bit 8 w)" 8 "take_bit 8 w"]
    by (simp only: unat_take unat_drop) simp
qed

lemma unat_htons: "unat (htons n) = unat n mod 256 * 256 + unat n div 256"
proof -
  have "htons n = push_bit 8 (take_bit 8 n) OR drop_bit 8 n"
    by (rule bit_word_eqI) (auto simp: htons_def and_masks(1) bit_simps dest: bit_imp_le_length)
  moreover have "unat n mod 256 * 256 < 65536" using mod_less_divisor [of 256 "unat n"] by linarith
  moreover have "unat n div 256 < 256" using unat_half(1) [of n] by linarith
  ultimately show ?thesis
    using unat_or_push [of "drop_bit 8 n" 8 "take_bit 8 n"]
    by (simp only: unat_take unat_drop) simp
qed

subsection \<open>Sums of a buffer\<close>

text \<open>The sum of the 16-bit words of a buffer, read in network order and in little-endian order.\<close>

fun be_sum :: "byte list \<Rightarrow> nat" where
  "be_sum (a # b # bs) = unat a * 256 + unat b + be_sum bs"
| "be_sum [a] = unat a * 256"
| "be_sum [] = 0"

fun le_sum :: "byte list \<Rightarrow> nat" where
  "le_sum (a # b # bs) = unat a + unat b * 256 + le_sum bs"
| "le_sum [a] = unat a"
| "le_sum [] = 0"

lemma be_sum_cons: "be_sum (a # bs) = unat a * 256 + le_sum bs"
proof (induction bs arbitrary: a rule: le_sum.induct)
  case (1 b c bs)
  then show ?case using "1.IH" [of c] by simp
qed simp_all

lemma le_sum_cons: "le_sum (a # bs) = unat a + be_sum bs"
  by (cases bs) (simp_all add: be_sum_cons)

lemma sum_append:
  "le_sum (xs @ ys) = le_sum xs + (if even (length xs) then le_sum ys else be_sum ys)"
  "be_sum (xs @ ys) = be_sum xs + (if even (length xs) then be_sum ys else le_sum ys)"
  by (induction xs) (simp_all add: be_sum_cons le_sum_cons)

lemma sum_bounds: "le_sum bs * 2 \<le> 65535 * length bs + 65535" "be_sum bs * 2 \<le> 65535 * length bs + 65535"
proof -
  show "le_sum bs * 2 \<le> 65535 * length bs + 65535"
  proof (induction bs rule: le_sum.induct)
    case (1 a b bs)
    then show ?case using unat_byte(2) [of a] unat_byte(2) [of b] unfolding le_sum.simps list.size distrib_left distrib_right by linarith
  next
    case (2 a)
    then show ?case using unat_byte(2) [of a] unfolding le_sum.simps list.size distrib_left distrib_right by linarith
  qed simp
  show "be_sum bs * 2 \<le> 65535 * length bs + 65535"
  proof (induction bs rule: be_sum.induct)
    case (1 a b bs)
    then show ?case using unat_byte(2) [of a] unat_byte(2) [of b] unfolding be_sum.simps list.size distrib_left distrib_right by linarith
  next
    case (2 a)
    then show ?case using unat_byte(2) [of a] unfolding be_sum.simps list.size distrib_left distrib_right by linarith
  qed simp
qed

lemma swap_ones: "x \<le> 65535 \<Longrightarrow> x mod 256 * 256 + x div 256 = ones (256 * x)"
proof (rule ones_unique)
  assume x: "x \<le> 65535"
  have "x mod 256 \<le> 255" "x div 256 \<le> 255" using x by auto
  then show "x mod 256 * 256 + x div 256 \<le> 65535" by linarith
  have "256 * x = x mod 256 * 256 + x div 256 + x div 256 * 65535"
    using mult_div_mod_eq [of 256 x] by linarith
  then show "(x mod 256 * 256 + x div 256) mod 65535 = 256 * x mod 65535" by (simp only: mod_mult_self1)
  show "x mod 256 * 256 + x div 256 = 0 \<longleftrightarrow> 256 * x = 0"
    using mult_div_mod_eq [of 256 x] by auto
qed

lemma sum_swap: "ones (256 * be_sum bs) = ones (le_sum bs)" "ones (256 * le_sum bs) = ones (be_sum bs)"
proof -
  have "be_sum bs = 0 \<longleftrightarrow> le_sum bs = 0" by (induction bs rule: le_sum.induct) auto
  moreover have "256 * be_sum bs mod 65535 = le_sum bs mod 65535"
  proof (induction bs rule: le_sum.induct)
    case (1 a b bs)
    have "256 * be_sum (a # b # bs) = unat a + unat b * 256 + 256 * be_sum bs + unat a * 65535" by simp
    then have "256 * be_sum (a # b # bs) mod 65535 = (unat a + unat b * 256 + 256 * be_sum bs) mod 65535" by (simp only: mod_mult_self1)
    also have "\<dots> = (unat a + unat b * 256 + le_sum bs) mod 65535" using 1 by (intro mod_add_cong) simp_all
    finally show ?case by simp
  next
    case (2 a)
    have "256 * be_sum [a] = unat a + unat a * 65535" by simp
    then show ?case by (simp only: mod_mult_self1 le_sum.simps)
  qed simp
  ultimately show 1: "ones (256 * be_sum bs) = ones (le_sum bs)" by (intro ones_cong) auto
  have "ones (be_sum bs) = ones (256 * ones (256 * be_sum bs))" by (simp add: ones_256_twice)
  also have "\<dots> = ones (256 * le_sum bs)" unfolding 1
    by (rule ones_cong) (metis mod_mult_right_eq ones_mod, simp)
  finally show "ones (256 * le_sum bs) = ones (be_sum bs)" by simp
qed

subsection \<open>The three versions\<close>

lemma unat_add_small: "unat a + unat b < 4294967296 \<Longrightarrow> unat (a + b :: u32_t) = unat a + unat b"
  using unat_add_lem [of a b] by simp

lemma nat_fold:
  fixes x :: nat
  defines "y \<equiv> x div 65536 + x mod 65536"
  shows "y mod 65535 = x mod 65535" "y = 0 \<longleftrightarrow> x = 0" "x \<le> 131070 \<Longrightarrow> y \<le> 65535" "x < 4294967296 \<Longrightarrow> y \<le> 131070"
proof -
  have x: "x = y + x div 65536 * 65535" unfolding y_def using mult_div_mod_eq [of 65536 x] by linarith
  then have "x mod 65535 = (y + x div 65536 * 65535) mod 65535" by (rule arg_cong)
  also have "\<dots> = y mod 65535" by (rule mod_mult_self1)
  finally show "y mod 65535 = x mod 65535" by simp
  show "y = 0 \<longleftrightarrow> x = 0" unfolding y_def using mult_div_mod_eq [of 65536 x] by auto
  have m: "x mod 65536 \<le> 65535" using mod_less_divisor [of 65536 x] by linarith
  show "y \<le> 65535" if "x \<le> 131070"
  proof (cases "x < 65536")
    case False
    then have "x div 65536 = 1" using that by (intro div_nat_eqI) simp_all
    then show ?thesis unfolding y_def using mult_div_mod_eq [of 65536 x] that by linarith
  qed (simp add: y_def)
  show "y \<le> 131070" if "x < 4294967296"
  proof -
    have "x div 65536 < 65536" using that by (simp add: less_mult_imp_div_less)
    then show ?thesis unfolding y_def using m by linarith
  qed
qed

lemma fold_ones:
  assumes "unat u \<le> 131070"
  shows "unat (FOLD_U32T u) = ones (unat u)"
  unfolding unat_fold using nat_fold [of "unat u"] assms by (intro ones_unique) simp_all

lemma fold_fold_ones: "unat (FOLD_U32T (FOLD_U32T u)) = ones (unat u)"
proof -
  have "unat u < 4294967296" using unsigned_less [of u, where ?'a = nat] by simp
  then have f: "unat (FOLD_U32T u) \<le> 131070" unfolding unat_fold by (rule nat_fold(4))
  show ?thesis
    unfolding fold_ones [OF f] unat_fold [of u] by (rule ones_cong) (rule nat_fold(1), rule nat_fold(2))
qed

lemma sum_octets_spec: "unat acc + be_sum bs < 4294967296 \<Longrightarrow> unat (sum_octets acc bs) = unat acc + be_sum bs"
proof (induction acc bs rule: sum_octets.induct)
  case (1 acc a b bs)
  then show ?case by (simp add: Let_def unat_ucast_up unat_be16 unat_add_small)
next
  case (2 acc a)
  have "unat (push_bit 8 (ucast a) :: u16_t) = unat a * 256" using unat_be16 [of a 0] by simp
  then show ?case using 2 by (simp add: Let_def unat_ucast_up unat_add_small)
qed simp

lemma high_half: "drop_bit 16 (w :: u32_t) = drop_bit 16 (w AND 0xffff0000)"
proof -
  have m: "(0xffff0000 :: u32_t) = push_bit 16 (mask 16)" by (simp add: mask_numeral push_bit_eq_mult)
  show ?thesis unfolding m by (rule bit_word_eqI) (auto simp: bit_simps dest: bit_imp_le_length)
qed

lemma fold_idle:
  assumes "w AND 0xffff0000 = 0"
  shows "FOLD_U32T w = w"
proof (rule word_unat_eq_iff [THEN iffD2])
  have "drop_bit 16 w = 0" using high_half [of w] assms by simp
  then have "unat w div 65536 = 0" using unat_drop [of 16 w] by simp
  then show "unat (FOLD_U32T w) = unat w" unfolding unat_fold using mult_div_mod_eq [of 65536 "unat w"] by simp
qed

lemma unat_ucast_half: "unat w \<le> 65535 \<Longrightarrow> unat (ucast (w :: u32_t) :: u16_t) = unat w"
  by (simp add: unsigned_ucast_eq take_bit_nat_eq_self)

lemma ones_256: "ones (256 * ones s) = ones (256 * s)"
  by (rule ones_cong) (metis mod_mult_right_eq ones_mod, simp)

lemma chksum_spec:
  assumes "length bs \<le> 65535"
  shows "unat (lwip_standard_chksum bs) = ones (le_sum bs)"
proof -
  define acc where "acc = sum_octets 0 bs"
  define r where "r = (if FOLD_U32T acc AND 0xffff0000 \<noteq> 0 then FOLD_U32T (FOLD_U32T acc) else FOLD_U32T acc)"
  have "be_sum bs < 4294967296" using sum_bounds(2) [of bs] assms by linarith
  then have "unat acc = be_sum bs" using sum_octets_spec [of 0 bs] by (simp add: acc_def)
  moreover have "r = FOLD_U32T (FOLD_U32T acc)" by (simp add: r_def fold_idle)
  ultimately have r: "unat r = ones (be_sum bs)" using fold_fold_ones [of acc] by simp
  then have "unat (ucast r :: u16_t) = ones (be_sum bs)" using ones_le [of "be_sum bs"] by (simp add: unat_ucast_half)
  then have "unat (htons (ucast r)) = ones (256 * ones (be_sum bs))"
    using swap_ones [OF ones_le] by (simp add: unat_htons)
  moreover have "lwip_standard_chksum bs = htons (ucast r)"
    unfolding lwip_standard_chksum_def r_def acc_def FOLD_U32T_def Let_def by (rule refl)
  ultimately show ?thesis by (simp add: ones_256 sum_swap)
qed

lemma sum_halves_spec:
  assumes "sum_halves s t bs = (s', t')" "t AND 0xff = 0" "unat s + le_sum bs < 4294967296"
  shows "unat s' + unat t' = unat s + unat t + le_sum bs \<and> unat s' \<le> unat s + le_sum bs"
  using assms
proof (induction s t bs rule: sum_halves.induct)
  case (1 s t a b bs)
  then show ?case by (simp add: unat_ucast_up unat_ld16 unat_add_small)
next
  case (2 s t a)
  have "(t AND 0xff00) OR ucast a = push_bit 8 (drop_bit 8 t) OR ucast a"
  proof -
    have m: "(0xff00 :: u16_t) = push_bit 8 (mask 8)" by (simp add: mask_numeral push_bit_eq_mult)
    show ?thesis unfolding m by (rule bit_word_eqI) (auto simp: bit_simps)
  qed
  moreover have "unat (drop_bit 8 t) * 2 ^ 8 < 2 ^ LENGTH(16)"
    using unat_half(1) [of t] by (simp add: unat_drop less_mult_imp_div_less)
  ultimately have "unat ((t AND 0xff00) OR ucast a) = unat t div 256 * 256 + unat a"
    using unat_or_push [of "ucast a :: u16_t" 8 "drop_bit 8 t"] by (simp add: unat_drop unat_ucast_up)
  moreover have "unat t mod 256 = 0" using 2(2) unat_take [of 8 t] by (simp add: and_masks)
  ultimately show ?case using 2 mult_div_mod_eq [of 256 "unat t"] by auto
qed auto

lemma swap_word_ones: "unat w \<le> 65535 \<Longrightarrow> unat (SWAP_BYTES_IN_WORD w) = ones (256 * unat w)"
proof -
  assume w: "unat w \<le> 65535"
  then have "unat w div 256 < 256" by (simp add: less_mult_imp_div_less)
  then show ?thesis using swap_ones [OF w] by (simp add: unat_swap)
qed

lemma fold_result:
  assumes "unat r = ones (if od then be_sum bs else le_sum bs)"
  shows "unat (ucast (if od then SWAP_BYTES_IN_WORD r else r) :: u16_t) = ones (le_sum bs)"
proof -
  have "unat r \<le> 65535" using assms ones_le by simp
  then have "unat (if od then SWAP_BYTES_IN_WORD r else r) = ones (le_sum bs)"
    using assms swap_word_ones [of r] by (cases od) (simp_all add: ones_256 sum_swap)
  then show ?thesis using ones_le [of "le_sum bs"] by (simp add: unat_ucast_half)
qed

lemma chksum_2_spec:
  assumes "length bs \<le> 131072"
  shows "unat (lwip_standard_chksum_2 addr bs) = ones (le_sum bs)"
proof -
  let ?odd = "addr mod 2 = 1"
  define t :: u16_t and ys where "t = (case bs of b # _ \<Rightarrow> if ?odd then push_bit 8 (ucast b) else 0 | [] \<Rightarrow> 0)"
    and "ys = (case bs of _ # bs' \<Rightarrow> if ?odd then bs' else bs | [] \<Rightarrow> bs)"
  obtain s t' where st: "sum_halves 0 t ys = (s, t')" by fastforce
  have t: "t AND 0xff = 0" unfolding and_masks t_def
    by (rule bit_word_eqI) (auto simp: bit_simps split: list.splits)
  have tot: "unat t + le_sum ys = (if ?odd then be_sum bs else le_sum bs)"
  proof (cases bs)
    case (Cons b bs')
    have "unat (push_bit 8 (ucast b) :: u16_t) = unat b * 256" using unat_be16 [of b 0] by simp
    then show ?thesis by (simp add: Cons t_def ys_def be_sum_cons)
  qed (simp_all add: t_def ys_def)
  have b: "unat t + le_sum ys < 4294967296"
  proof -
    have "le_sum bs < 4294967296" "be_sum bs < 4294967296" using sum_bounds [of bs] assms by linarith+
    then show ?thesis unfolding tot by simp
  qed
  from sum_halves_spec [OF st t] b have s: "unat s + unat t' = unat t + le_sum ys" by simp
  define r where "r = FOLD_U32T (FOLD_U32T (s + ucast t'))"
  have "unat (s + ucast t') = unat t + le_sum ys" using s b by (simp add: unat_add_small unat_ucast_up)
  then have r: "unat r = ones (if ?odd then be_sum bs else le_sum bs)" by (simp add: r_def fold_fold_ones tot)
  have e: "lwip_standard_chksum_2 addr bs = ucast (if ?odd then SWAP_BYTES_IN_WORD r else r)"
    using st by (cases bs) (auto simp: lwip_standard_chksum_2_def Let_def t_def ys_def r_def)
  show ?thesis unfolding e by (rule fold_result [OF r])
qed

text \<open>Adding back the carry keeps the sum modulo \<open>2^32 - 1\<close>, a multiple of 65535.\<close>

lemma unat_add_back: "unat (add_back s w) = (if unat s + unat w < 4294967296 then unat s + unat w else unat s + unat w - 4294967295)"
proof (cases "unat s + unat w < 4294967296")
  case True
  then have "unat (s + w) = unat s + unat w" by (rule unat_add_small)
  then have "\<not> s + w < s" by (simp add: word_less_nat_alt)
  then show ?thesis using True \<open>unat (s + w) = _\<close> by (simp add: add_back_def)
next
  case False
  have b: "unat s < 4294967296" "unat w < 4294967296"
    using unsigned_less [of s, where ?'a = nat] unsigned_less [of w, where ?'a = nat] by simp_all
  have "unat (s + w) = (unat s + unat w) mod 4294967296" by (simp add: unat_word_ariths)
  also have "\<dots> = unat s + unat w - 4294967296" using False b by (simp add: mod_if)
  finally have t: "unat (s + w) = unat s + unat w - 4294967296" .
  then have "s + w < s" using b False unfolding word_less_nat_alt by linarith
  moreover have "unat (s + w + 1) = unat (s + w) + 1" using unat_add_small [of "s + w" 1] t b by simp
  ultimately show ?thesis using False t by (simp add: add_back_def)
qed

lemma add_back_ones: "ones (unat (add_back s w)) = ones (unat s + unat w)"
proof (cases "unat s + unat w < 4294967296")
  case False
  let ?y = "unat s + unat w - 4294967295"
  have "unat s + unat w = ?y + 65537 * 65535" using False by simp
  then have "(unat s + unat w) mod 65535 = (?y + 65537 * 65535) mod 65535" by (rule arg_cong)
  also have "\<dots> = ?y mod 65535" by (rule mod_mult_self1)
  finally show ?thesis using False unfolding unat_add_back by (intro ones_cong) auto
qed (simp add: unat_add_back)

lemma sum_words_spec:
  "sum_words s bs = (s', bs') \<Longrightarrow> length bs' < 8 \<and> ones (unat s' + le_sum bs') = ones (unat s + le_sum bs)"
proof (induction s bs rule: sum_words.induct)
  case (1 s a b c d e f g h bs)
  have w: "ones (unat (ld32 a b c d)) = ones (le_sum [a, b, c, d])" for a b c d
  proof -
    have "unat (ld32 a b c d) = le_sum [a, b, c, d] + unat (ld16 c d) * 65535"
      by (simp add: unat_ld32 unat_ld16)
    then have "unat (ld32 a b c d) mod 65535 = (le_sum [a, b, c, d] + unat (ld16 c d) * 65535) mod 65535" by (rule arg_cong)
    also have "\<dots> = le_sum [a, b, c, d] mod 65535" by (rule mod_mult_self1)
    finally show ?thesis by (intro ones_cong) (simp_all add: unat_ld32 unat_ld16)
  qed
  let ?s = "add_back (add_back s (ld32 a b c d)) (ld32 e f g h)"
  have "ones (unat ?s) = ones (unat (add_back s (ld32 a b c d)) + unat (ld32 e f g h))" by (rule add_back_ones)
  also have "\<dots> = ones (unat s + le_sum [a, b, c, d] + le_sum [e, f, g, h])"
    by (intro ones_add_cong w) (use ones_add_cong [OF refl w, of "unat s"] in \<open>simp add: add_back_ones\<close>)
  finally have "ones (unat ?s + le_sum bs) = ones (unat s + le_sum [a, b, c, d] + le_sum [e, f, g, h] + le_sum bs)"
    by (rule ones_add_cong) (rule refl)
  then show ?case using 1 by (simp add: ac_simps)
qed auto

lemma chksum_3_spec: "unat (lwip_standard_chksum_3 addr bs) = ones (le_sum bs)"
proof -
  let ?odd = "addr mod 2 = 1"
  define t :: u16_t and ys and addr' where "t = (case bs of b # _ \<Rightarrow> if ?odd then push_bit 8 (ucast b) else 0 | [] \<Rightarrow> 0)"
    and "ys = (case bs of _ # bs' \<Rightarrow> if ?odd then bs' else bs | [] \<Rightarrow> bs)"
    and "addr' = (case bs of _ # _ \<Rightarrow> if ?odd then addr + 1 else addr | [] \<Rightarrow> addr)"
  obtain s0 zs where z: "(case ys of a # b # bs' \<Rightarrow> if addr' mod 4 \<noteq> 0 then (ucast (ld16 a b), bs') else (0, ys) | _ \<Rightarrow> (0, ys)) = (s0 :: u32_t, zs)"
    by fastforce
  have z1: "unat s0 + le_sum zs = le_sum ys"
    using z by (auto split: list.splits if_splits simp: unat_ucast_up unat_ld16)
  obtain s1 us where u: "sum_words s0 zs = (s1, us)" by fastforce
  note w = sum_words_spec [OF u]
  obtain s2 t' where st: "sum_halves (FOLD_U32T s1) t us = (s2, t')" by fastforce
  have t: "t AND 0xff = 0" unfolding and_masks t_def
    by (rule bit_word_eqI) (auto simp: bit_simps split: list.splits)
  have tot: "unat t + le_sum ys = (if ?odd then be_sum bs else le_sum bs)"
  proof (cases bs)
    case (Cons b bs')
    have "unat (push_bit 8 (ucast b) :: u16_t) = unat b * 256" using unat_be16 [of b 0] by simp
    then show ?thesis by (simp add: Cons t_def ys_def be_sum_cons)
  qed (simp_all add: t_def ys_def)
  have f: "unat (FOLD_U32T s1) \<le> 131070" "ones (unat (FOLD_U32T s1)) = ones (unat s1)"
    unfolding unat_fold using nat_fold [of "unat s1"] unsigned_less [of s1, where ?'a = nat]
    by (auto intro: ones_cong)
  have l: "le_sum us < 1000000" using sum_bounds(1) [of us] w by linarith
  from sum_halves_spec [OF st t] f(1) l have s: "unat s2 + unat t' = unat (FOLD_U32T s1) + unat t + le_sum us" by simp
  have b: "unat (FOLD_U32T s1) + unat t + le_sum us < 4294967296" using f(1) l unat_half(1) [of t] by linarith
  define r where "r = FOLD_U32T (FOLD_U32T (s2 + ucast t'))"
  have "unat (s2 + ucast t') = unat t + (unat (FOLD_U32T s1) + le_sum us)" using s b by (simp add: unat_add_small unat_ucast_up)
  then have "unat r = ones (unat t + (unat (FOLD_U32T s1) + le_sum us))" by (simp add: r_def fold_fold_ones)
  also have "\<dots> = ones (unat t + (unat s1 + le_sum us))" by (intro ones_add_cong refl f(2))
  also have "\<dots> = ones (unat t + (unat s0 + le_sum zs))" using w by (intro ones_add_cong [OF refl]) simp
  finally have r: "unat r = ones (if ?odd then be_sum bs else le_sum bs)" by (simp add: z1 tot)
  have e: "lwip_standard_chksum_3 addr bs = ucast (if ?odd then SWAP_BYTES_IN_WORD r else r)"
  proof -
    have "(case bs of b # bs' \<Rightarrow> if ?odd then (push_bit 8 (ucast b), bs', addr + 1) else (0, bs, addr) | [] \<Rightarrow> (0, bs, addr)) = (t, ys, addr')"
      by (simp add: t_def ys_def addr'_def split: list.split)
    then show ?thesis
      unfolding lwip_standard_chksum_3_def Let_def by (simp only: prod.case z u st r_def)
  qed
  show ?thesis unfolding e by (rule fold_result [OF r])
qed

subsection \<open>Chains\<close>

lemma ones_256_square: "ones (256 * (256 * s)) = ones s"
  by (metis ones_256 ones_256_twice)

definition seq_sum :: "bool \<Rightarrow> byte list \<Rightarrow> nat" where
  "seq_sum sw bs = (if sw then be_sum bs else le_sum bs)"

lemma seq_sum_append: "seq_sum sw (xs @ ys) = seq_sum sw xs + seq_sum (sw \<noteq> odd (length xs)) ys"
  by (auto simp: seq_sum_def sum_append)

lemma chain_step:
  assumes "unat acc = ones (if sw then 256 * s else s)" "length q \<le> 65535"
  defines "acc' \<equiv> FOLD_U32T (acc + ucast (lwip_standard_chksum q))"
  shows "unat acc' = ones (if sw then 256 * (s + seq_sum sw q) else s + seq_sum sw q)"
    "unat (SWAP_BYTES_IN_WORD acc') = ones (if \<not> sw then 256 * (s + seq_sum sw q) else s + seq_sum sw q)"
proof -
  have u: "unat (acc + ucast (lwip_standard_chksum q)) = ones (if sw then 256 * s else s) + ones (le_sum q)"
    using assms(1,2) ones_le [of "if sw then 256 * s else s"] ones_le [of "le_sum q"]
    by (simp add: unat_add_small unat_ucast_up chksum_spec)
  have "unat (acc + ucast (lwip_standard_chksum q)) \<le> 131070"
    unfolding u using ones_le [of "if sw then 256 * s else s"] ones_le [of "le_sum q"] by linarith
  then have "unat acc' = ones (ones (if sw then 256 * s else s) + ones (le_sum q))"
    unfolding acc'_def by (simp only: fold_ones u)
  also have "\<dots> = ones ((if sw then 256 * s else s) + (if sw then 256 * seq_sum sw q else seq_sum sw q))"
    by (intro ones_add_cong) (simp_all add: seq_sum_def sum_swap)
  finally show 1: "unat acc' = ones (if sw then 256 * (s + seq_sum sw q) else s + seq_sum sw q)"
    by (cases sw) (simp_all add: distrib_left)
  then have "unat acc' \<le> 65535" using ones_le by simp
  then show "unat (SWAP_BYTES_IN_WORD acc') = ones (if \<not> sw then 256 * (s + seq_sum sw q) else s + seq_sum sw q)"
    by (cases sw) (simp_all only: swap_word_ones 1 if_True if_False simp_thms ones_256 ones_256_square)
qed

lemma chain_spec:
  assumes "unat acc = ones (if sw then 256 * s else s)" "\<forall>q \<in> set qs. length q \<le> 65535"
    and "chksum_chain acc sw qs = (acc', sw')"
  shows "unat acc' = ones (if sw' then 256 * (s + seq_sum sw (concat qs)) else s + seq_sum sw (concat qs))"
  using assms
proof (induction acc sw qs arbitrary: s rule: chksum_chain.induct)
  case (1 acc sw)
  then show ?case by (simp add: seq_sum_def)
next
  case (2 acc sw q qs)
  let ?a = "FOLD_U32T (acc + ucast (lwip_standard_chksum q))"
  have q: "length q \<le> 65535" using 2(4) by simp
  note st = chain_step [OF 2(3) q]
  show ?case
  proof (cases "odd (length q)")
    case True
    then have "chksum_chain (SWAP_BYTES_IN_WORD ?a) (\<not> sw) qs = (acc', sw')"
      using 2(5) by (simp add: Let_def odd_iff_mod_2_eq_one)
    from 2(1) [OF refl refl _ st(2) _ this] True 2(4) show ?thesis
      by (simp add: seq_sum_append odd_iff_mod_2_eq_one add.assoc)
  next
    case False
    then have "chksum_chain ?a sw qs = (acc', sw')"
      using 2(5) by (simp add: Let_def even_iff_mod_2_eq_zero)
    from 2(2) [OF refl refl _ st(1) _ this] False 2(4) show ?thesis
      by (simp add: seq_sum_append even_iff_mod_2_eq_zero add.assoc)
  qed
qed

lemma chain_unswap:
  assumes "unat acc = ones (if sw then 256 * s else s)"
  shows "unat (if sw then SWAP_BYTES_IN_WORD acc else acc) = ones s"
proof -
  have "unat acc \<le> 65535" using assms ones_le by simp
  then show ?thesis using assms swap_word_ones [of acc] by (cases sw) (simp_all add: ones_256_twice)
qed

lemma chain_total:
  assumes "\<forall>q \<in> set p. length q \<le> 65535" "chksum_chain 0 False p = (acc, sw)"
  shows "unat (if sw then SWAP_BYTES_IN_WORD acc else acc) = ones (le_sum (concat p))"
  using chain_spec [of 0 False 0 p acc sw] assms by (intro chain_unswap) (simp add: seq_sum_def)

lemma unat_not: "unat (NOT w :: u16_t) = 65535 - unat w"
proof -
  have "NOT w = - 1 - w" by (simp add: not_eq_complement)
  moreover have "unat (- 1 - w) = unat (- 1 :: u16_t) - unat w" by (rule unat_sub) simp
  ultimately show ?thesis by (simp add: unsigned_minus_1_eq_mask mask_eq_exp_minus_1)
qed

lemma inet_chksum_spec: "length bs \<le> 65535 \<Longrightarrow> unat (inet_chksum bs) = 65535 - ones (le_sum bs)"
  by (simp add: inet_chksum_def unat_not chksum_spec)

lemma inet_chksum_pbuf_spec:
  assumes "\<forall>q \<in> set p. length q \<le> 65535"
  shows "unat (inet_chksum_pbuf p) = 65535 - ones (le_sum (concat p))"
proof -
  obtain acc sw where c: "chksum_chain 0 False p = (acc, sw)" by fastforce
  let ?r = "if sw then SWAP_BYTES_IN_WORD acc else acc"
  have r: "unat ?r = ones (le_sum (concat p))" by (rule chain_total [OF assms c])
  then have "unat (ucast (?r AND 0xffff) :: u16_t) = ones (le_sum (concat p))"
    using ones_le [of "le_sum (concat p)"] unfolding and_masks by (subst unat_ucast_half) (simp_all add: unat_take)
  then show ?thesis by (simp add: inet_chksum_pbuf_def c unat_not)
qed

subsection \<open>The pseudo header\<close>

text \<open>The bytes of a word in memory (little-endian).\<close>

definition bytes16 :: "u16_t \<Rightarrow> byte list" where
  "bytes16 w = [ucast w, ucast (drop_bit 8 w)]"

definition bytes32 :: "u32_t \<Rightarrow> byte list" where
  "bytes32 w = [ucast w, ucast (drop_bit 8 w), ucast (drop_bit 16 w), ucast (drop_bit 24 w)]"

text \<open>The pseudo header of RFC 793: source, destination, zero, protocol, length in network order.\<close>

definition pseudo_header :: "u32_t \<Rightarrow> u32_t \<Rightarrow> u8_t \<Rightarrow> u16_t \<Rightarrow> byte list" where
  "pseudo_header src dest proto proto_len = bytes32 src @ bytes32 dest @ [0, proto] @ bytes16 (htons proto_len)"

lemma ld16_bytes: "ld16 (ucast w) (ucast (drop_bit 8 w)) = (w :: u16_t)"
  unfolding ld16_def by (rule bit_word_eqI) (auto simp: bit_simps)

lemma le_sum_bytes16 [simp]: "le_sum (bytes16 w) = unat w"
  using unat_ld16 [of "ucast w" "ucast (drop_bit 8 w)"] by (simp add: bytes16_def ld16_bytes)

lemma le_sum_bytes32 [simp]: "le_sum (bytes32 w) = unat (w AND 0xffff) + unat (drop_bit 16 w AND 0xffff)"
proof -
  let ?l = "ucast w :: u16_t" and ?h = "ucast (drop_bit 16 w) :: u16_t"
  have "bytes32 w = bytes16 ?l @ bytes16 ?h"
    unfolding bytes32_def bytes16_def by (simp, intro conjI; rule bit_word_eqI; simp add: bit_simps)
  moreover have "unat ?l = unat (w AND 0xffff)" "unat ?h = unat (drop_bit 16 w AND 0xffff)"
    unfolding and_masks unat_take unsigned_ucast_eq by (simp_all add: take_bit_eq_mod)
  ultimately show ?thesis by (simp add: sum_append) (simp add: bytes16_def)
qed

lemma length_bytes [simp]: "length (bytes16 w) = 2" "length (bytes32 v) = 4"
  by (simp_all add: bytes16_def bytes32_def)

lemma pseudo_fold_spec:
  assumes "unat acc \<le> 65535"
  shows "unat (pseudo_fold acc src dest proto proto_len) =
    65535 - ones (unat acc + le_sum (pseudo_header src dest proto proto_len))"
proof -
  let ?parts = "unat acc + unat (src AND 0xffff) + unat (drop_bit 16 src AND 0xffff) + unat (dest AND 0xffff)
      + unat (drop_bit 16 dest AND 0xffff) + unat (htons (ucast proto)) + unat (htons proto_len)"
  let ?t = "acc + (src AND 0xffff) + (drop_bit 16 src AND 0xffff) + (dest AND 0xffff)
      + (drop_bit 16 dest AND 0xffff) + ucast (htons (ucast proto)) + ucast (htons proto_len)"
  have m: "unat (w AND 0xffff) \<le> 65535" for w :: u32_t
    unfolding and_masks unat_take using mod_less_divisor [of 65536 "unat w"] by simp
  have add: "unat (a + b) = unat a + unat b \<and> unat (a + b) \<le> k + 65535"
    if "unat a \<le> k" "k \<le> 1000000" "unat b \<le> 65535" for a b :: u32_t and k
  proof -
    have "unat a + unat b < 4294967296" using that by linarith
    then have "unat (a + b) = unat a + unat b" by (rule unat_add_small)
    then show ?thesis using that by linarith
  qed
  have h: "unat (ucast (htons v) :: u32_t) = unat (htons v)" "unat (ucast (htons v) :: u32_t) \<le> 65535" for v
    by (simp_all add: unat_ucast_up)
  note s1 = add [OF assms _ m [of src]]
  note s2 = add [OF s1 [THEN conjunct2] _ m [of "drop_bit 16 src"]]
  note s3 = add [OF s2 [THEN conjunct2] _ m [of dest]]
  note s4 = add [OF s3 [THEN conjunct2] _ m [of "drop_bit 16 dest"]]
  note s5 = add [OF s4 [THEN conjunct2] _ h(2) [of "ucast proto"]]
  note s6 = add [OF s5 [THEN conjunct2] _ h(2) [of proto_len]]
  have "unat ?t = ?parts" using s1 s2 s3 s4 s5 s6 by (simp only: h)
  then have r: "unat (FOLD_U32T (FOLD_U32T ?t)) = ones ?parts" by (simp add: fold_fold_ones)
  have "unat (htons (ucast proto)) = unat proto * 256"
    by (simp add: unat_htons unat_ucast_up)
  then have p: "?parts = unat acc + le_sum (pseudo_header src dest proto proto_len)"
    by (simp add: pseudo_header_def sum_append le_sum_cons be_sum_cons)
  have "unat (ucast (FOLD_U32T (FOLD_U32T ?t) AND 0xffff) :: u16_t) = ones ?parts"
    using r ones_le [of ?parts] unfolding and_masks by (subst unat_ucast_half) (simp_all add: unat_take)
  then show ?thesis unfolding p by (simp add: pseudo_fold_def Let_def unat_not)
qed

lemma inet_chksum_pseudo_spec:
  assumes "\<forall>q \<in> set p. length q \<le> 65535"
  shows "unat (inet_chksum_pseudo p src dest proto proto_len) =
    65535 - ones (le_sum (pseudo_header src dest proto proto_len @ concat p))"
proof -
  obtain acc sw where c: "chksum_chain 0 False p = (acc, sw)" by fastforce
  let ?r = "if sw then SWAP_BYTES_IN_WORD acc else acc"
  have r: "unat ?r = ones (le_sum (concat p))" by (rule chain_total [OF assms c])
  have "even (length (pseudo_header src dest proto proto_len))" by (simp add: pseudo_header_def)
  then have s: "ones (unat ?r + le_sum (pseudo_header src dest proto proto_len)) =
      ones (le_sum (pseudo_header src dest proto proto_len @ concat p))"
    unfolding r by (simp add: ones_add sum_append add.commute)
  have e: "inet_chksum_pseudo p src dest proto proto_len = pseudo_fold ?r src dest proto proto_len"
    by (simp add: inet_chksum_pseudo_def c)
  show ?thesis unfolding e s [symmetric] by (rule pseudo_fold_spec) (simp add: r ones_le)
qed

subsection \<open>Byte order\<close>

lemma htons_htons [simp]: "htons (htons n) = n"
proof -
  have m: "(0xff00 :: u16_t) = push_bit 8 (mask 8)" by (simp add: mask_numeral push_bit_eq_mult)
  show ?thesis unfolding htons_def m and_masks by (rule bit_word_eqI) (auto simp: bit_simps)
qed

lemma htonl_bytes: "bytes32 (htonl n) = rev (bytes32 n)"
proof -
  have m: "(0xff00 :: u32_t) = push_bit 8 (mask 8)" "(0xff0000 :: u32_t) = push_bit 16 (mask 8)"
    "(0xff000000 :: u32_t) = push_bit 24 (mask 8)" by (simp_all add: mask_numeral push_bit_eq_mult)
  show ?thesis unfolding htonl_def m and_masks bytes32_def
    by (simp, intro conjI; rule bit_word_eqI; auto simp: bit_simps)
qed

end
