(* ===== verification/Inet_Addr.thy ===== *)
theory Inet_Addr
  imports Inet_Chksum
begin

text \<open>
  Internet addresses: \<open>inet_addr\<close>, \<open>inet_aton\<close>, \<open>inet_ntoa\<close> of
  \<open>core/ipv4/inet.c\<close> and \<open>ip_addr_isbroadcast\<close> of \<open>core/ipv4/ip_addr.c\<close>. An
  address is the \<open>u32_t\<close> in network order as the struct stores it; its first byte in
  memory is its low byte. A string is the list of its characters before the NUL.
\<close>

subsection \<open>Definitions\<close>

definition isdigit :: "byte \<Rightarrow> bool" where
  "isdigit c \<longleftrightarrow> 0x30 \<le> c \<and> c \<le> 0x39"

definition islower :: "byte \<Rightarrow> bool" where
  "islower c \<longleftrightarrow> 0x61 \<le> c \<and> c \<le> 0x7A"

definition isxdigit :: "byte \<Rightarrow> bool" where
  "isxdigit c \<longleftrightarrow> isdigit c \<or> 0x61 \<le> c \<and> c \<le> 0x66 \<or> 0x41 \<le> c \<and> c \<le> 0x46"

definition isspace :: "byte \<Rightarrow> bool" where
  "isspace c \<longleftrightarrow> c = 0x20 \<or> c = 0x0C \<or> c = 0x0A \<or> c = 0x0D \<or> c = 0x09 \<or> c = 0x0B"

text \<open>\<open>*cp\<close>: the terminating NUL at the end.\<close>

definition cur :: "byte list \<Rightarrow> byte" where
  "cur cs = (case cs of [] \<Rightarrow> 0 | c # _ \<Rightarrow> c)"

text \<open>The inner loop: digits of one part.\<close>

fun aton_digits :: "u32_t \<Rightarrow> u32_t \<Rightarrow> byte list \<Rightarrow> u32_t \<times> byte list" where
  "aton_digits base v [] = (v, [])"
| "aton_digits base v (c # cs) =
     (if isdigit c then aton_digits base (v * base + ucast (c - 0x30)) cs
      else if base = 16 \<and> isxdigit c
      then aton_digits base (push_bit 4 v OR ucast (c + 10 - (if islower c then 0x61 else 0x41))) cs
      else (v, c # cs))"

text \<open>One part: \<open>0x\<close> is hexadecimal, a leading \<open>0\<close> octal.\<close>

definition aton_part :: "byte list \<Rightarrow> u32_t \<times> byte list" where
  "aton_part cs =
     (if cur cs = 0x30
      then let cs = tl cs in
           if cur cs = 0x78 \<or> cur cs = 0x58 then aton_digits 16 0 (tl cs) else aton_digits 8 0 cs
      else aton_digits 10 0 cs)"

text \<open>The outer loop: the parts before the last one, the last value, what is left.\<close>

function aton_parts :: "u32_t list \<Rightarrow> byte list \<Rightarrow> (u32_t list \<times> u32_t \<times> byte list) option" where
  "aton_parts pp cs =
     (if \<not> isdigit (cur cs) then None
      else let (v, cs) = aton_part cs in
        if cur cs = 0x2E
        then (if length pp \<ge> 3 then None else aton_parts (pp @ [v]) (tl cs))
        else Some (pp, v, cs))"
  by pat_completeness auto
termination
  by (relation "measure (\<lambda>(pp, _). 4 - length pp)") auto

declare aton_parts.simps [simp del]

definition inet_aton :: "byte list \<Rightarrow> u32_t option" where
  "inet_aton cp =
     Option.bind (aton_parts [] cp) (\<lambda>(parts, v, cs).
       if cur cs \<noteq> 0 \<and> \<not> isspace (cur cs) then None
       else map_option htonl
         (if length parts = 0 then Some v
          else if length parts = 1
          then (if v > 0xffffff then None else Some (v OR push_bit 24 (parts ! 0)))
          else if length parts = 2
          then (if v > 0xffff then None else Some (v OR (push_bit 24 (parts ! 0) OR push_bit 16 (parts ! 1))))
          else (if v > 0xff then None
                else Some (v OR (push_bit 24 (parts ! 0) OR push_bit 16 (parts ! 1) OR push_bit 8 (parts ! 2))))))"

definition INADDR_NONE :: u32_t where
  "INADDR_NONE = 0xffffffff"

definition inet_addr :: "byte list \<Rightarrow> u32_t" where
  "inet_addr cp = (case inet_aton cp of Some v \<Rightarrow> v | None \<Rightarrow> INADDR_NONE)"

text \<open>The \<open>do ... while(*ap)\<close> loop: the digits of a byte, least significant first (\<open>inv\<close>).\<close>

fun ntoa_inv :: "nat \<Rightarrow> byte list" where
  "ntoa_inv ap = (0x30 + of_nat (ap mod 10)) # (if ap div 10 \<noteq> 0 then ntoa_inv (ap div 10) else [])"

declare ntoa_inv.simps [simp del]

definition inet_ntoa :: "u32_t \<Rightarrow> byte list" where
  "inet_ntoa s_addr = butlast (concat (map (\<lambda>ap. rev (ntoa_inv (unat ap)) @ [0x2E]) (bytes32 s_addr)))"

record netif_addr =
  nif_flags :: u8_t
  nif_ip_addr :: u32_t
  nif_netmask :: u32_t

definition NETIF_FLAG_BROADCAST :: u8_t where
  "NETIF_FLAG_BROADCAST = 0x02"

definition ip_addr_netcmp :: "u32_t \<Rightarrow> u32_t \<Rightarrow> u32_t \<Rightarrow> bool" where
  "ip_addr_netcmp addr1 addr2 nm \<longleftrightarrow> addr1 AND nm = addr2 AND nm"

definition ip_addr_isbroadcast :: "u32_t \<Rightarrow> netif_addr \<Rightarrow> bool" where
  "ip_addr_isbroadcast addr netif =
     (if NOT addr = 0 \<or> addr = 0 then True
      else if nif_flags netif AND NETIF_FLAG_BROADCAST = 0 then False
      else if addr = nif_ip_addr netif then False
      else if ip_addr_netcmp addr (nif_ip_addr netif) (nif_netmask netif) \<and>
              addr AND NOT (nif_netmask netif) = 0xffffffff AND NOT (nif_netmask netif) then True
      else False)"

definition ip_addr_ismulticast :: "u32_t \<Rightarrow> bool" where
  "ip_addr_ismulticast addr \<longleftrightarrow> addr AND ntohl 0xf0000000 = ntohl 0xe0000000"

definition ip_addr_islinklocal :: "u32_t \<Rightarrow> bool" where
  "ip_addr_islinklocal addr \<longleftrightarrow> addr AND ntohl 0xffff0000 = ntohl 0xa9fe0000"

subsection \<open>Printing and parsing\<close>

definition dec :: "nat \<Rightarrow> byte list" where
  "dec n = rev (ntoa_inv n)"

lemma dec_rec: "dec n = (if n < 10 then [] else dec (n div 10)) @ [0x30 + of_nat (n mod 10)]"
  by (simp add: dec_def ntoa_inv.simps [of n] div_eq_0_iff)

lemma digit_cases: "d < 10 \<Longrightarrow> d \<in> {0, 1, 2, 3, 4, 5, 6, 7, 8, 9 :: nat}"
  by auto

lemma isdigit_digit: "d < 10 \<Longrightarrow> isdigit (0x30 + of_nat d)"
  by (drule digit_cases) (auto simp: isdigit_def)

lemma digit_value: "d < 10 \<Longrightarrow> ucast ((0x30 + of_nat d) - 0x30 :: byte) = (of_nat d :: u32_t)"
  by (drule digit_cases) auto

lemma dec_digits: "\<forall>c \<in> set (dec n). isdigit c"
proof (induction n rule: less_induct)
  case (less n)
  have "\<forall>c \<in> set (dec (n div 10)). isdigit c" if "\<not> n < 10" using that less [of "n div 10"] by simp
  then have "\<forall>c \<in> set (if n < 10 then [] else dec (n div 10)). isdigit c" by simp
  then show ?case using isdigit_digit [of "n mod 10"] by (subst dec_rec) (simp only: set_append ball_Un list.set ball_simps simp_thms mod_less_divisor zero_less_numeral)
qed

lemma dec_nonempty [simp]: "dec n \<noteq> []"
  by (subst dec_rec) simp

lemma aton_digits_append:
  "\<forall>c \<in> set ds. isdigit c \<Longrightarrow> aton_digits base v (ds @ cs) = aton_digits base (fold (\<lambda>c v. v * base + ucast (c - 0x30)) ds v) cs"
  by (induction ds arbitrary: v) simp_all

lemma dec_value: "fold (\<lambda>c v. v * 10 + ucast (c - 0x30)) (dec n) 0 = (of_nat n :: u32_t)"
proof (induction n rule: less_induct)
  case (less n)
  have IH: "fold (\<lambda>c v. v * 10 + ucast (c - 0x30)) (if n < 10 then [] else dec (n div 10)) 0 = (of_nat (n div 10) :: u32_t)"
    using less by (cases "n < 10") auto
  have "of_nat (n div 10) * 10 + of_nat (n mod 10) = (of_nat (n div 10 * 10 + n mod 10) :: u32_t)"
    by (simp only: of_nat_add of_nat_mult of_nat_numeral)
  also have "n div 10 * 10 + n mod 10 = n" by simp
  finally show ?case
    by (subst dec_rec) (simp only: fold_append fold_simps o_apply IH digit_value mod_less_divisor zero_less_numeral)
qed

text \<open>A decimal number without leading zeros starts with 0 only if it is 0.\<close>

lemma dec_hd: "n \<noteq> 0 \<Longrightarrow> hd (dec n) \<noteq> 0x30"
proof (induction n rule: less_induct)
  case (less n)
  show ?case
  proof (cases "n < 10")
    case True
    then have "n \<in> {1, 2, 3, 4, 5, 6, 7, 8, 9}" using less.prems by auto
    then show ?thesis using True by (subst dec_rec) auto
  next
    case False
    then show ?thesis using less.IH [of "n div 10"] by (subst dec_rec) (simp add: hd_append)
  qed
qed

lemma aton_part_dec:
  assumes "cs = [] \<or> \<not> isdigit (hd cs) \<and> hd cs \<noteq> 0x78 \<and> hd cs \<noteq> 0x58"
  shows "aton_part (dec n @ cs) = (of_nat n, cs)"
proof (cases "n = 0")
  case True
  have "dec 0 = [0x30]" by (subst dec_rec) simp
  then show ?thesis using assms True by (cases cs) (auto simp: aton_part_def cur_def)
next
  case False
  have "aton_digits 10 v cs = (v, cs)" for v using assms by (cases cs) auto
  then show ?thesis
    using dec_hd [OF False] aton_digits_append [OF dec_digits, of 10 0 n cs] dec_value [of n]
    by (cases "dec n") (auto simp: aton_part_def cur_def)
qed

lemma inet_ntoa_dotted:
  "inet_ntoa s = (case bytes32 s of [a, b, c, d] \<Rightarrow>
     dec (unat a) @ [0x2E] @ dec (unat b) @ [0x2E] @ dec (unat c) @ [0x2E] @ dec (unat d))"
  by (simp add: inet_ntoa_def bytes32_def dec_def butlast_append)

lemma length_dec_10: "n < 10 \<Longrightarrow> length (dec n) \<le> 1"
  by (subst dec_rec) simp

lemma length_dec_100: "n < 100 \<Longrightarrow> length (dec n) \<le> 2"
  using length_dec_10 [of "n div 10"] by (subst dec_rec) auto

lemma length_dec: "n < 1000 \<Longrightarrow> length (dec n) \<le> 3"
  using length_dec_100 [of "n div 10"] by (subst dec_rec) auto

lemma unat_byte_bound: "unat (a :: byte) < 256"
  using unsigned_less [of a] by simp

lemma of_nat_unat_byte: "of_nat (unat (a :: byte)) = (ucast a :: u32_t)"
  by simp

lemma cur_dec: "isdigit (cur (dec n @ cs))"
  using dec_digits [of n] by (cases "dec n") (auto simp: cur_def)

lemma aton_parts_dot:
  assumes "length pp < 3"
  shows "aton_parts pp (dec n @ 0x2E # cs) = aton_parts (pp @ [of_nat n]) cs"
  using assms aton_part_dec [of "0x2E # cs" n] cur_dec [of n "0x2E # cs"]
  by (subst aton_parts.simps) (simp add: cur_def [of "0x2E # cs"] isdigit_def)

lemma aton_parts_last: "aton_parts pp (dec n) = Some (pp, of_nat n, [])"
  using aton_part_dec [of "[]" n] cur_dec [of n "[]"]
  by (subst aton_parts.simps) (simp add: cur_def [of "[]"])

lemma aton_parts_ntoa:
  "aton_parts [] (dec a @ 0x2E # dec b @ 0x2E # dec c @ 0x2E # dec d) = Some ([of_nat a, of_nat b, of_nat c], of_nat d, [])"
  by (simp add: aton_parts_dot aton_parts_last)

lemma inet_ntoa_bytes:
  "inet_ntoa s = dec (unat (ucast s :: byte)) @ 0x2E # dec (unat (ucast (drop_bit 8 s) :: byte)) @ 0x2E #
     dec (unat (ucast (drop_bit 16 s) :: byte)) @ 0x2E # dec (unat (ucast (drop_bit 24 s) :: byte))"
  by (simp add: inet_ntoa_dotted bytes32_def)

lemma byte_le_ff: "(ucast (b :: byte) :: u32_t) \<le> 0xff"
  using unat_byte_bound [of b] unat_ucast_up [of b, where ?'b = 32] by (simp add: word_le_nat_alt)

lemma nobit: "8 \<le> n \<Longrightarrow> bit (x :: byte) n = False"
  using bit_imp_le_length [of x n] by auto

lemma bytes_or:
  fixes a b c d :: byte
  defines "w \<equiv> ucast d OR (push_bit 24 (ucast a) OR push_bit 16 (ucast b) OR push_bit 8 (ucast c)) :: u32_t"
  shows "ucast (drop_bit 8 w) = c" "ucast (drop_bit 16 w) = b" "ucast (drop_bit 24 w) = a" "ucast w = d"
  unfolding w_def by (rule bit_word_eqI; simp add: bit_simps nobit)+

lemma bytes32_or:
  "bytes32 (ucast d OR (push_bit 24 (ucast a) OR push_bit 16 (ucast b) OR push_bit 8 (ucast c))) = [d, c, b, a]"
  for a b c d :: byte
  unfolding bytes32_def bytes_or ..

lemma bit_of_byte:
  fixes v w :: u32_t
  assumes "(ucast (drop_bit k v) :: byte) = ucast (drop_bit k w)" "m < 8"
  shows "bit v (k + m) = bit w (k + m)"
  using arg_cong [OF assms(1), of "\<lambda>x. bit x m"] assms(2) by (simp add: bit_simps)

lemma bytes32_inject: "bytes32 v = bytes32 w \<Longrightarrow> v = w"
proof (rule bit_word_eqI)
  fix m assume a: "bytes32 v = bytes32 w" and m: "m < LENGTH(32)"
  have e: "(ucast (drop_bit 0 v) :: byte) = ucast (drop_bit 0 w)" "(ucast (drop_bit 8 v) :: byte) = ucast (drop_bit 8 w)"
    "(ucast (drop_bit 16 v) :: byte) = ucast (drop_bit 16 w)" "(ucast (drop_bit 24 v) :: byte) = ucast (drop_bit 24 w)"
    using a by (simp_all add: bytes32_def)
  have "m div 8 \<in> {0, 1, 2, 3}" using m by auto
  moreover have "m = 8 * (m div 8) + m mod 8" "m mod 8 < 8" by simp_all
  ultimately show "bit v m = bit w m"
    using bit_of_byte [OF e(1), of "m mod 8"] bit_of_byte [OF e(2), of "m mod 8"]
      bit_of_byte [OF e(3), of "m mod 8"] bit_of_byte [OF e(4), of "m mod 8"]
    by (elim insertE emptyE) simp_all
qed

lemma htonl_htonl [simp]: "htonl (htonl w) = w"
  by (rule bytes32_inject) (simp add: htonl_bytes)

lemma inet_aton_ntoa: "inet_aton (inet_ntoa s) = Some s"
proof -
  let ?a = "ucast s :: byte" and ?b = "ucast (drop_bit 8 s) :: byte" and
    ?c = "ucast (drop_bit 16 s) :: byte" and ?d = "ucast (drop_bit 24 s) :: byte"
  have "bytes32 (htonl (ucast ?d OR (push_bit 24 (ucast ?a) OR push_bit 16 (ucast ?b) OR push_bit 8 (ucast ?c)))) = bytes32 s"
    unfolding htonl_bytes bytes32_or by (simp add: bytes32_def)
  then have "htonl (ucast ?d OR (push_bit 24 (ucast ?a) OR push_bit 16 (ucast ?b) OR push_bit 8 (ucast ?c))) = s"
    by (rule bytes32_inject)
  then show ?thesis
    using byte_le_ff [of ?d]
    by (simp only: inet_ntoa_bytes inet_aton_def aton_parts_ntoa of_nat_unat_byte) (simp add: cur_def not_less [symmetric])
qed

lemma length_inet_ntoa: "7 \<le> length (inet_ntoa s) \<and> length (inet_ntoa s) \<le> 15"
proof -
  have l: "1 \<le> length (dec n)" for n using dec_nonempty [of n] by (cases "dec n") auto
  have u: "length (dec (unat (b :: byte))) \<le> 3" for b
    using length_dec [of "unat b"] unat_byte_bound [of b] by linarith
  show ?thesis unfolding inet_ntoa_bytes length_append list.size
    using l [of "unat (ucast s :: byte)"] u [of "ucast s"]
      l [of "unat (ucast (drop_bit 8 s) :: byte)"] u [of "ucast (drop_bit 8 s)"]
      l [of "unat (ucast (drop_bit 16 s) :: byte)"] u [of "ucast (drop_bit 16 s)"]
      l [of "unat (ucast (drop_bit 24 s) :: byte)"] u [of "ucast (drop_bit 24 s)"] by linarith
qed

text \<open>A broadcast address of a netif: all ones, all zeros, or the net with an all-ones host part.\<close>

lemma net_split: "a AND m = i AND m \<and> a AND NOT m = NOT m \<longleftrightarrow> a = (i AND m) OR NOT m" for a i m :: u32_t
proof
  assume "a AND m = i AND m \<and> a AND NOT m = NOT m"
  then have "(a AND m) OR (a AND NOT m) = (i AND m) OR NOT m" by simp
  also have "(a AND m) OR (a AND NOT m) = a" by (simp flip: bit.conj_disj_distrib)
  finally show "a = (i AND m) OR NOT m" .
next
  assume "a = (i AND m) OR NOT m"
  then show "a AND m = i AND m \<and> a AND NOT m = NOT m"
    by (auto intro!: bit_word_eqI simp: bit_simps)
qed

lemma all_ones: "(0xffffffff :: u32_t) = NOT 0"
  by simp

lemma isbroadcast_iff:
  "ip_addr_isbroadcast addr n \<longleftrightarrow> addr = 0xffffffff \<or> addr = 0 \<or>
     nif_flags n AND NETIF_FLAG_BROADCAST \<noteq> 0 \<and> addr \<noteq> nif_ip_addr n \<and>
     addr = (nif_ip_addr n AND nif_netmask n) OR NOT (nif_netmask n)"
proof -
  have "NOT addr = 0 \<longleftrightarrow> addr = NOT 0" by (metis bit.double_compl)
  then show ?thesis
    using net_split [of addr "nif_netmask n" "nif_ip_addr n"]
    unfolding ip_addr_isbroadcast_def ip_addr_netcmp_def all_ones by auto
qed

end
