(* ===== verification/Divergences.thy ===== *)
theory Divergences
  imports Rsa_Key Inet_Addr Mpi_Text Mpi_Gcd Blowfish
begin

text \<open>
  Places where the code does not do what its comments or callers expect, as evaluations of the
  model on concrete inputs.
\<close>

text \<open>\<open>mpi_cmp_mpi\<close> takes 0 for smaller than -5: the test on the lengths answers with the sign of \<open>X\<close> alone.\<close>

lemma cmp_zero_negative: "mpi_cmp_mpi (small 0) (small (- 5)) = - 1"
  by code_simp

text \<open>A raw signature of 34 octets does not verify: its length is taken for an MD digest.\<close>

lemma raw_34_rejected:
  "check_digest SIG_RSA_RAW 34 (replicate 34 7) (replicate 34 7) = Some POLARSSL_ERR_RSA_VERIFY_FAILED"
  by code_simp

text \<open>\<open>inet_aton\<close> accepts "1.256.0.1", whose second part runs over into the first.\<close>

lemma aton_part_overflow:
  "inet_aton [0x31, 0x2E, 0x32, 0x35, 0x36, 0x2E, 0x30, 0x2E, 0x31] = inet_aton [0x31, 0x2E, 0x30, 0x2E, 0x30, 0x2E, 0x31]"
  by code_simp

text \<open>\<open>mpi_write_string\<close> of -1 in base 16 fills a buffer of three characters with four.\<close>

lemma write_string_overruns:
  "mpi_write_string qhat 0 16 3 (store_of [small (- 1)]) =
     Some (Inr (0, [0x2D, 0x30, 0x31, 0], 4), store_of [small (- 1)])"
proof -
  have m: "mpi_msb (small (- 1)) = Some 1" "mpi_s (small (- 1)) = - 1"
    "write_hex False (limb_bytes 1) = [0x30, 0x31]" "int_sign (- 1) = - 1"
    by code_simp+
  have h: "heap (store_of [small (- 1)]) 0 = small (- 1)" by simp
  show ?thesis
    unfolding mpi_write_string_def bindc_def rd_def defd_def ret_def h m locals_def
    by (simp add: string_room_def h m)
qed

text \<open>\<open>mpi_read_file\<close> keeps the trailing digits of the line, so the sign of a number written by
  \<open>mpi_write_file\<close> is lost.\<close>

lemma read_file_drops_sign: "trailing_digits 10 [0x2D, 0x35] = [0x35]"
  by code_simp

text \<open>\<open>do_bf_setkey\<close> with an empty key divides by zero.\<close>

lemma setkey_empty: "do_bf_setkey [] = None"
  by (simp add: do_bf_setkey_def)

text \<open>The half-limb quotient digit for a divisor whose top limb ends in \<open>0xFFFFFFFF\<close>: the double-limb digit, which is exact, is larger by almost
  \<open>2^64\<close>, and no later correction of \<open>mpi_div_mpi\<close> makes a digit larger.\<close>

lemma unsafe_digit:
  "\<not> udiv_safe 0x7FFFFFFFFFFFFFFF" "qhat_generic 0x7FFFFFFFFFFFFFFF 0x7FFFFFFFFFFFFFFE 0 = Some 0x1FFFFFFFE"
  "qhat_longlong 0x7FFFFFFFFFFFFFFF 0x7FFFFFFFFFFFFFFE 0 = Some 0xFFFFFFFFFFFFFFFD"
  by code_simp+

text \<open>\<open>rsa_pkcs1_encrypt\<close> with a length near the largest \<open>int\<close>: \<open>ilen + 11\<close> overflows.\<close>

lemma encrypt_length_overflows:
  assumes "2 ^ 31 - 11 \<le> ilen" "rsa_padding ctx = RSA_PKCS_V15"
  shows "rsa_pkcs1_encrypt qhat rand ctx mode ilen input \<sigma> = None"
  using assms by (simp add: rsa_pkcs1_encrypt_def c_int_def bindc_def defd_def)

end
