(* ===== verification/Blowfish_Correct.thy ===== *)
theory Blowfish_Correct
  imports Blowfish
begin

text \<open>
  What the block cipher promises: the unrolled code is a 16-round Feistel network,
  decryption inverts encryption for every key, and the key schedule rejects exactly the
  keys whose tables have a repeated entry.
\<close>

text \<open>C35: the 16 unrolled rounds of \<open>do_encrypt\<close> and \<open>decrypt\<close> are a Feistel network: the sub-keys
  are used in ascending order in one, in descending order in the other, and the last two whiten the output.\<close>

theorem blowfish_feistel:
  "do_encrypt bc s = bf_X (bf_p bc ! 17) (bf_p bc ! 16) (fold (bf_S bc) [0..<16] s) \<and>
   decrypt bc s = bf_X (bf_p bc ! 0) (bf_p bc ! 1) (fold (bf_S bc) (rev [2..<18]) s)"
  by (simp only: do_encrypt_rounds decrypt_rounds simp_thms)

text \<open>C37: for every context, decrypting an encrypted 8-byte block gives the block back, and encrypting a
  decrypted one too.\<close>

theorem blowfish_round_trip:
  assumes "length b = 8"
  shows "Option.bind (do_encrypt_block bc b) (do_decrypt_block bc) = Some b \<and>
         Option.bind (do_decrypt_block bc b) (do_encrypt_block bc) = Some b"
  using block_decrypt_encrypt [OF assms, of bc] block_encrypt_decrypt [OF assms, of bc] by auto

theorem blowfish_round_trip_witness:
  "Option.bind (do_encrypt_block \<lparr>bf_s0 = ks0, bf_s1 = ks1, bf_s2 = ks2, bf_s3 = ks3, bf_p = ps\<rparr> [1, 2, 3, 4, 5, 6, 7, 8])
     (do_decrypt_block \<lparr>bf_s0 = ks0, bf_s1 = ks1, bf_s2 = ks2, bf_s3 = ks3, bf_p = ps\<rparr>) = Some [1, 2, 3, 4, 5, 6, 7, 8]"
  using blowfish_round_trip [of "[1, 2, 3, 4, 5, 6, 7, 8]"] by simp

text \<open>C38: the key schedule returns, for every non-empty key, a context with 18 sub-keys and four tables of
  256 entries, and the code \<open>-1\<close> exactly if a table has a repeated entry.\<close>

theorem do_bf_setkey_correct:
  assumes "key \<noteq> []"
  shows "\<exists>r c. do_bf_setkey key = Some (r, c) \<and> bf_shape c \<and> (r = 0 \<or> r = - 1) \<and>
     (r = 0 \<longleftrightarrow> distinct (bf_s0 c) \<and> distinct (bf_s1 c) \<and> distinct (bf_s2 c) \<and> distinct (bf_s3 c))"
  using do_bf_setkey_spec [OF assms] by auto

theorem do_bf_setkey_correct_witness:
  "\<exists>r c. do_bf_setkey [1, 2, 3] = Some (r, c) \<and> bf_shape c \<and> (r = 0 \<or> r = - 1) \<and>
     (r = 0 \<longleftrightarrow> distinct (bf_s0 c) \<and> distinct (bf_s1 c) \<and> distinct (bf_s2 c) \<and> distinct (bf_s3 c))"
  by (rule do_bf_setkey_correct) simp

end
