(* ===== verification/Inet_Correct.thy ===== *)
theory Inet_Correct
  imports Inet_Addr
begin

text \<open>
  What the checksum and address functions of lwIP promise: the three summing routines are
  one function, a chain is summed as the concatenation of its buffers, a stored checksum
  verifies, and printing and parsing an address are inverse.
\<close>

subsection \<open>Checksums\<close>

text \<open>C35: the three routines \<open>lwip_standard_chksum\<close> of \<open>inet_chksum.c\<close> compute the same sum, wherever
  the buffer starts.\<close>

theorem chksum_versions_agree:
  assumes "length bs \<le> 65535"
  shows "lwip_standard_chksum_2 addr bs = lwip_standard_chksum bs \<and> lwip_standard_chksum_3 addr bs = lwip_standard_chksum bs"
  using chksum_spec [OF assms] chksum_2_spec [of bs addr] chksum_3_spec [of addr bs] assms
  by (simp add: word_unat_eq_iff)

theorem chksum_versions_agree_witness:
  "lwip_standard_chksum_2 3 [1, 2, 3, 4, 5, 6, 7, 8, 9, 10, 11, 12, 13] = lwip_standard_chksum [1, 2, 3, 4, 5, 6, 7, 8, 9, 10, 11, 12, 13] \<and>
   lwip_standard_chksum_3 3 [1, 2, 3, 4, 5, 6, 7, 8, 9, 10, 11, 12, 13] = lwip_standard_chksum [1, 2, 3, 4, 5, 6, 7, 8, 9, 10, 11, 12, 13]"
  using chksum_versions_agree [of "[1, 2, 3, 4, 5, 6, 7, 8, 9, 10, 11, 12, 13]" 3] by simp

text \<open>C34: \<open>inet_chksum_pbuf\<close> of a chain is \<open>inet_chksum\<close> of its data in one buffer, wherever the chain is
  cut, odd cuts included.\<close>

theorem inet_chksum_pbuf_concat:
  assumes "length (concat p) \<le> 65535"
  shows "inet_chksum_pbuf p = inet_chksum (concat p)"
proof -
  have "length q \<le> 65535" if "q \<in> set p" for q
    using that assms member_le_sum_list [of "length q" "map length p"] by (simp add: length_concat)
  then show ?thesis using inet_chksum_pbuf_spec [of p] inet_chksum_spec [OF assms] by (simp add: word_unat_eq_iff)
qed

theorem inet_chksum_pbuf_concat_witness:
  "inet_chksum_pbuf [[1, 2, 3], [], [4], [5, 6]] = inet_chksum [1, 2, 3, 4, 5, 6]"
  using inet_chksum_pbuf_concat [of "[[1, 2, 3], [], [4], [5, 6]]"] by simp

text \<open>The complement of a sum completes it to the non-zero representative of 0.\<close>

lemma ones_complete: "ones (s + (65535 - ones s)) = 65535"
proof -
  have "(s + (65535 - ones s)) mod 65535 = (ones s + (65535 - ones s)) mod 65535"
    using ones_mod [of s] by (intro mod_add_cong) simp_all
  also have "\<dots> = 0" using ones_le [of s] by simp
  finally have d: "(s + (65535 - ones s)) mod 65535 = 0" .
  have "0 < s + (65535 - ones s)" by (cases "s = 0") simp_all
  with d obtain k where "s + (65535 - ones s) = 65535 * k" "0 < k" by (auto simp: mod_eq_0_iff_dvd elim!: dvdE)
  then obtain j where "s + (65535 - ones s) - 1 = 65535 * j + 65534" by (cases k) auto
  with \<open>0 < s + (65535 - ones s)\<close> show ?thesis by (simp add: ones_def)
qed

text \<open>A header whose checksum field was computed with the field zero and then stored (as \<open>ip.c\<close>,
  \<open>icmp.c\<close> and the transport protocols do) passes the receiver's test \<open>inet_chksum(...) == 0\<close>.\<close>

theorem inet_chksum_verifies:
  assumes "even (length xs)" "length xs + length ys \<le> 65533"
  shows "inet_chksum (xs @ bytes16 (inet_chksum (xs @ [0, 0] @ ys)) @ ys) = 0"
proof -
  let ?s = "le_sum xs + le_sum ys"
  define c where "c = inet_chksum (xs @ [0, 0] @ ys)"
  have "le_sum (xs @ [0, 0] @ ys) = ?s" using assms(1) by (simp add: sum_append)
  then have c: "unat c = 65535 - ones ?s" using inet_chksum_spec [of "xs @ [0, 0] @ ys"] assms(2) by (simp only: c_def) simp
  have "le_sum (xs @ bytes16 c @ ys) = ?s + unat c" using assms(1) by (simp add: sum_append)
  then have "unat (inet_chksum (xs @ bytes16 c @ ys)) = 65535 - ones (?s + (65535 - ones ?s))"
    using inet_chksum_spec [of "xs @ bytes16 c @ ys"] assms(2) by (simp add: c)
  then show ?thesis unfolding c_def [symmetric] by (simp add: ones_complete word_unat_eq_iff)
qed

theorem inet_chksum_verifies_witness:
  "inet_chksum ([0x45, 0] @ bytes16 (inet_chksum ([0x45, 0] @ [0, 0] @ [0x40, 0x11, 7])) @ [0x40, 0x11, 7]) = 0"
  by (rule inet_chksum_verifies) simp_all

text \<open>C36: \<open>inet_chksum_pseudo\<close> is the checksum of the pseudo header of RFC 793 followed by the data of the
  chain.\<close>

theorem inet_chksum_pseudo_header:
  assumes "length (concat p) \<le> 65523"
  shows "inet_chksum_pseudo p src dest proto len = inet_chksum (pseudo_header src dest proto len @ concat p)"
proof -
  have "length q \<le> 65535" if "q \<in> set p" for q
    using that assms member_le_sum_list [of "length q" "map length p"] by (simp add: length_concat)
  then show ?thesis
    using inet_chksum_pseudo_spec [of p src dest proto len] inet_chksum_spec [of "pseudo_header src dest proto len @ concat p"] assms
    by (simp add: word_unat_eq_iff pseudo_header_def del: append_Cons append_assoc)
qed

theorem inet_chksum_pseudo_header_witness:
  "inet_chksum_pseudo [[1, 2, 3], [4]] 0x0100007F 0x0200007F 17 4 =
   inet_chksum (pseudo_header 0x0100007F 0x0200007F 17 4 @ [1, 2, 3, 4])"
  using inet_chksum_pseudo_header [of "[[1, 2, 3], [4]]" "0x0100007F" "0x0200007F" 17 4] by simp

text \<open>The partial chain: a buffer that is cut ends the sum.\<close>

lemma partial_spec:
  assumes "unat acc = ones (if sw then 256 * s else s)" "\<forall>q \<in> set qs. length q \<le> 65535"
    and "chksum_chain_partial acc sw n qs = (acc', sw')"
  shows "unat acc' = ones (if sw' then 256 * (s + seq_sum sw (take n (concat qs))) else s + seq_sum sw (take n (concat qs)))"
  using assms
proof (induction acc sw n qs arbitrary: s rule: chksum_chain_partial.induct)
  case (1 acc sw n)
  then show ?case by (simp add: seq_sum_def)
next
  case (2 acc sw n q qs)
  show ?case
  proof (cases "n = 0")
    case True
    then show ?thesis using 2 by (simp add: seq_sum_def)
  next
    case n: False
    define m where "m = min (length q) n"
    let ?a = "FOLD_U32T (acc + ucast (lwip_standard_chksum (take m q)))"
    have q: "length (take m q) \<le> 65535" using 2(4) by (auto simp: m_def)
    note st = chain_step [OF 2(3) q]
    have split: "take n (concat (q # qs)) = take m q @ take (n - m) (concat qs)"
      by (cases "length q \<le> n") (simp_all add: m_def)
    have l: "odd (length (take m q)) = odd (length q) \<or> n - m = 0" by (auto simp: m_def)
    have sum: "seq_sum sw (take n (concat (q # qs))) = seq_sum sw (take m q) + seq_sum (sw \<noteq> odd (length q)) (take (n - m) (concat qs))"
    proof (cases "n - m = 0")
      case False
      with l show ?thesis unfolding split seq_sum_append by (simp only: simp_thms)
    qed (simp only: split seq_sum_append, simp add: seq_sum_def)
    show ?thesis
    proof (cases "odd (length q)")
      case True
      then have "chksum_chain_partial (SWAP_BYTES_IN_WORD ?a) (\<not> sw) (n - m) qs = (acc', sw')"
        using 2(5) n by (simp add: Let_def odd_iff_mod_2_eq_one m_def)
      from 2(1) [OF n m_def refl refl refl _ st(2) _ this] True 2(4) show ?thesis
        unfolding sum by (simp add: odd_iff_mod_2_eq_one add.assoc)
    next
      case False
      then have "chksum_chain_partial ?a sw (n - m) qs = (acc', sw')"
        using 2(5) n by (simp add: Let_def even_iff_mod_2_eq_zero m_def)
      from 2(2) [OF n m_def refl refl refl _ st(1) _ this] False 2(4) show ?thesis
        unfolding sum by (simp add: even_iff_mod_2_eq_zero add.assoc)
    qed
  qed
qed

text \<open>\<open>inet_chksum_pseudo_partial\<close> (UDP-Lite) is the checksum of the pseudo header followed by the
  first \<open>chksum_len\<close> bytes of the chain.\<close>

theorem inet_chksum_pseudo_partial_prefix:
  assumes "length (concat p) \<le> 65523"
  shows "inet_chksum_pseudo_partial p src dest proto len n = inet_chksum (pseudo_header src dest proto len @ take n (concat p))"
proof -
  have q: "\<forall>q \<in> set p. length q \<le> 65535"
    using assms member_le_sum_list [of "length q" "map length p" for q] by (fastforce simp: length_concat)
  obtain acc sw where c: "chksum_chain_partial 0 False n p = (acc, sw)" by fastforce
  let ?r = "if sw then SWAP_BYTES_IN_WORD acc else acc" and ?h = "pseudo_header src dest proto len"
  have "unat acc = ones (if sw then 256 * le_sum (take n (concat p)) else le_sum (take n (concat p)))"
    using partial_spec [of 0 False 0 p n acc sw] q c by (simp add: seq_sum_def)
  then have r: "unat ?r = ones (le_sum (take n (concat p)))" by (rule chain_unswap)
  have "even (length ?h)" by (simp add: pseudo_header_def)
  then have s: "ones (unat ?r + le_sum ?h) = ones (le_sum (?h @ take n (concat p)))"
    unfolding r by (simp add: ones_add sum_append add.commute)
  have "unat (pseudo_fold ?r src dest proto len) = 65535 - ones (le_sum (?h @ take n (concat p)))"
    unfolding s [symmetric] by (rule pseudo_fold_spec) (simp add: r ones_le)
  then show ?thesis
    using inet_chksum_spec [of "?h @ take n (concat p)"] assms
    by (simp add: inet_chksum_pseudo_partial_def c word_unat_eq_iff pseudo_header_def del: append_Cons append_assoc)
qed

theorem inet_chksum_pseudo_partial_prefix_witness:
  "inet_chksum_pseudo_partial [[1, 2, 3], [4]] 0x0100007F 0x0200007F 136 4 2 =
   inet_chksum (pseudo_header 0x0100007F 0x0200007F 136 4 @ [1, 2])"
  using inet_chksum_pseudo_partial_prefix [of "[[1, 2, 3], [4]]" "0x0100007F" "0x0200007F" 136 4 2] by simp

subsection \<open>Addresses\<close>

text \<open>C36: \<open>htonl\<close> reverses the bytes in memory and is its own inverse, as is \<open>htons\<close>.\<close>

theorem byte_order_involution:
  "htonl (htonl w) = w \<and> ntohl (htonl w) = w \<and> htons (htons v) = v \<and> bytes32 (htonl w) = rev (bytes32 w)"
  by (simp add: ntohl_def htonl_bytes)

text \<open>C39: parsing the dotted form \<open>inet_ntoa\<close> prints gives the address back.\<close>

theorem inet_ntoa_aton: "inet_aton (inet_ntoa s) = Some s \<and> inet_addr (inet_ntoa s) = s"
  by (simp add: inet_aton_ntoa inet_addr_def)

text \<open>C33: the string and its NUL fit the static buffer \<open>char str[16]\<close> of \<open>inet_ntoa\<close>, each number
  the buffer \<open>char inv[3]\<close>.\<close>

theorem inet_ntoa_fits:
  "length (inet_ntoa s) + 1 \<le> 16 \<and> length (ntoa_inv (unat (b :: byte))) \<le> 3"
proof -
  have "length (ntoa_inv (unat b)) \<le> 3"
    using length_dec [of "unat b"] unat_byte_bound [of b] by (simp add: dec_def)
  then show ?thesis using length_inet_ntoa [of s] by simp
qed

text \<open>the broadcast addresses of a netif are all ones, all zeros and, if the netif can
  broadcast and has another address, its net with an all-ones host part.\<close>

theorem ip_addr_isbroadcast_exact:
  "ip_addr_isbroadcast addr n \<longleftrightarrow> addr = 0xffffffff \<or> addr = 0 \<or>
     nif_flags n AND NETIF_FLAG_BROADCAST \<noteq> 0 \<and> addr \<noteq> nif_ip_addr n \<and>
     addr = (nif_ip_addr n AND nif_netmask n) OR NOT (nif_netmask n)"
  by (rule isbroadcast_iff)

end
