(* ===== verification/Pbuf.thy ===== *)
theory Pbuf
  imports Prelude "HOL-Library.Monad_Syntax"
begin

text \<open>
  The packet buffers of \<open>lwip/src/core/pbuf.c\<close>: reference-counted chains in a store of
  \<open>struct pbuf\<close>, with the free lists of \<open>memp.c\<close> they are taken from.

  The port defines \<open>LWIP_PLATFORM_ASSERT\<close> as \<open>abort()\<close>, so a failed \<open>LWIP_ASSERT\<close> or \<open>LWIP_ERROR\<close>
  has no result; neither has a dangling pointer or an access outside a block. \<open>MEM_ALIGNMENT\<close> is 1,
  so the alignment macros are the identity. \<open>MEM_LIBC_MALLOC\<close> is 1: \<open>mem_malloc\<close> is the C library's, here
  one more list of blocks to hand out, and \<open>mem_realloc\<close> returns its argument.
\<close>

subsection \<open>Buffers and pools\<close>

type_synonym paddr = nat

datatype pbuf_layer = PBUF_TRANSPORT | PBUF_IP | PBUF_LINK | PBUF_RAW
datatype pbuf_type = PBUF_RAM | PBUF_ROM | PBUF_REF | PBUF_POOL

text \<open>Where a payload pointer points: into the block of a pbuf, behind the struct, or outside.\<close>

datatype block = Own paddr | Ext nat

record pbuf =
  pb_next :: "paddr option"
  pb_payload :: "(block \<times> int) option"
  pb_tot_len :: "16 word"
  pb_len :: "16 word"
  pb_type :: pbuf_type
  pb_flags :: "8 word"
  pb_ref :: "16 word"

datatype pool = MEMP_PBUF | MEMP_PBUF_POOL | MEM_HEAP

text \<open>
  The store: the live pbufs, the free lists, the bytes of the blocks, whether \<open>pbuf_free_ooseq\<close> is
  queued, and whether the mailbox of the tcpip thread has room for it.
\<close>

record pmem =
  pbs :: "paddr \<Rightarrow> pbuf option"
  memp_tab :: "pool \<Rightarrow> paddr list"
  bytes_of :: "block \<Rightarrow> 8 word list"
  ooseq_queued :: bool
  mbox_room :: bool

definition put_pb :: "paddr \<Rightarrow> pbuf \<Rightarrow> pmem \<Rightarrow> pmem" where
  "put_pb a b \<sigma> = \<sigma>\<lparr>pbs := (pbs \<sigma>)(a \<mapsto> b)\<rparr>"

definition guard :: "bool \<Rightarrow> unit option" where
  "guard b = (if b then Some () else None)"

definition memp_malloc :: "pool \<Rightarrow> pmem \<Rightarrow> paddr option \<times> pmem" where
  "memp_malloc t \<sigma> = (case memp_tab \<sigma> t of
       [] \<Rightarrow> (None, \<sigma>)
     | a # as \<Rightarrow> (Some a, \<sigma>\<lparr>memp_tab := (memp_tab \<sigma>)(t := as)\<rparr>))"

definition memp_free :: "pool \<Rightarrow> paddr \<Rightarrow> pmem \<Rightarrow> pmem" where
  "memp_free t a \<sigma> = \<sigma>\<lparr>pbs := (pbs \<sigma>)(a := None), memp_tab := (memp_tab \<sigma>)(t := a # memp_tab \<sigma> t)\<rparr>"

definition pool_of :: "pbuf_type \<Rightarrow> pool" where
  "pool_of ty = (case ty of PBUF_POOL \<Rightarrow> MEMP_PBUF_POOL | PBUF_ROM \<Rightarrow> MEMP_PBUF | PBUF_REF \<Rightarrow> MEMP_PBUF | PBUF_RAM \<Rightarrow> MEM_HEAP)"

definition pbuf_pool_is_empty :: "pmem \<Rightarrow> pmem" where
  "pbuf_pool_is_empty \<sigma> = (if ooseq_queued \<sigma> then \<sigma> else \<sigma>\<lparr>ooseq_queued := mbox_room \<sigma>\<rparr>)"

definition ERR_ARG :: int where
  "ERR_ARG = - 10"

subsection \<open>Reference counts\<close>

definition pbuf_ref :: "paddr option \<Rightarrow> pmem \<Rightarrow> pmem option" where
  "pbuf_ref p \<sigma> = (case p of None \<Rightarrow> Some \<sigma>
     | Some a \<Rightarrow> do { b \<leftarrow> pbs \<sigma> a; Some (put_pb a (b\<lparr>pb_ref := pb_ref b + 1\<rparr>) \<sigma>) })"

text \<open>The loop of \<open>pbuf_free\<close>.\<close>

partial_function (option) free_loop :: "8 word \<Rightarrow> paddr option \<Rightarrow> pmem \<Rightarrow> (8 word \<times> pmem) option" where
  "free_loop count p \<sigma> = (case p of None \<Rightarrow> Some (count, \<sigma>)
     | Some a \<Rightarrow> do {
         b \<leftarrow> pbs \<sigma> a;
         guard (pb_ref b > 0);
         let ref = pb_ref b - 1;
         if ref = 0
         then free_loop (count + 1) (pb_next b) (memp_free (pool_of (pb_type b)) a \<sigma>)
         else Some (count, put_pb a (b\<lparr>pb_ref := ref\<rparr>) \<sigma>) })"

definition pbuf_free :: "paddr option \<Rightarrow> pmem \<Rightarrow> (8 word \<times> pmem) option" where
  "pbuf_free p \<sigma> = do { guard (p \<noteq> None); free_loop 0 p \<sigma> }"

partial_function (option) pbuf_clen_loop :: "8 word \<Rightarrow> paddr option \<Rightarrow> pmem \<Rightarrow> 8 word option" where
  "pbuf_clen_loop n p \<sigma> = (case p of None \<Rightarrow> Some n
     | Some a \<Rightarrow> do { b \<leftarrow> pbs \<sigma> a; pbuf_clen_loop (n + 1) (pb_next b) \<sigma> })"

definition pbuf_clen :: "paddr option \<Rightarrow> pmem \<Rightarrow> 8 word option" where
  "pbuf_clen p \<sigma> = pbuf_clen_loop 0 p \<sigma>"

subsection \<open>Allocation\<close>

definition PBUF_TRANSPORT_HLEN :: nat where "PBUF_TRANSPORT_HLEN = 20"
definition PBUF_IP_HLEN :: nat where "PBUF_IP_HLEN = 20"
definition PBUF_LINK_HLEN :: nat where "PBUF_LINK_HLEN = 14"
definition TCP_MSS :: nat where "TCP_MSS = 536"
definition PBUF_POOL_BUFSIZE :: nat where "PBUF_POOL_BUFSIZE = TCP_MSS + 40 + PBUF_LINK_HLEN"

definition header_offset :: "pbuf_layer \<Rightarrow> nat" where
  "header_offset layer = (case layer of
       PBUF_TRANSPORT \<Rightarrow> PBUF_TRANSPORT_HLEN + PBUF_IP_HLEN + PBUF_LINK_HLEN
     | PBUF_IP \<Rightarrow> PBUF_IP_HLEN + PBUF_LINK_HLEN
     | PBUF_LINK \<Rightarrow> PBUF_LINK_HLEN
     | PBUF_RAW \<Rightarrow> 0)"

text \<open>A block of \<open>n\<close> bytes: the contents are those the memory had.\<close>

definition fit :: "nat \<Rightarrow> 8 word list \<Rightarrow> 8 word list" where
  "fit n xs = take n (xs @ replicate n 0)"

definition new_block :: "paddr \<Rightarrow> nat \<Rightarrow> pmem \<Rightarrow> pmem" where
  "new_block a n \<sigma> = \<sigma>\<lparr>bytes_of := (bytes_of \<sigma>)(Own a := fit n (bytes_of \<sigma> (Own a)))\<rparr>"

definition new_pbuf :: "(block \<times> int) option \<Rightarrow> nat \<Rightarrow> nat \<Rightarrow> pbuf_type \<Rightarrow> pbuf" where
  "new_pbuf pay tot l ty = \<lparr>pb_next = None, pb_payload = pay, pb_tot_len = of_nat tot, pb_len = of_nat l,
     pb_type = ty, pb_flags = 0, pb_ref = 1\<rparr>"

text \<open>The tail of a pool chain: \<open>p\<close> is its head, \<open>r\<close> its last pbuf so far.\<close>

function alloc_tail :: "paddr \<Rightarrow> paddr \<Rightarrow> nat \<Rightarrow> pmem \<Rightarrow> (paddr option \<times> pmem) option" where
  "alloc_tail p r rem_len \<sigma> =
     (if rem_len = 0 then Some (Some p, \<sigma>)
      else case memp_malloc MEMP_PBUF_POOL \<sigma> of
          (None, \<sigma>) \<Rightarrow> do { (n, \<sigma>) \<leftarrow> pbuf_free (Some p) (pbuf_pool_is_empty \<sigma>); Some (None, \<sigma>) }
        | (Some q, \<sigma>) \<Rightarrow> do {
            br \<leftarrow> pbs \<sigma> r;
            guard (rem_len < 0xffff);
            let l = min rem_len PBUF_POOL_BUFSIZE;
            let \<sigma> = put_pb r (br\<lparr>pb_next := Some q\<rparr>) (new_block q PBUF_POOL_BUFSIZE \<sigma>);
            alloc_tail p q (rem_len - l) (put_pb q (new_pbuf (Some (Own q, 0)) rem_len l PBUF_POOL) \<sigma>) })"
  by pat_completeness auto
termination
  by (relation "measure (\<lambda>(p, r, n, \<sigma>). n)") (auto simp: PBUF_POOL_BUFSIZE_def)

declare alloc_tail.simps [simp del]

definition pbuf_alloc :: "pbuf_layer \<Rightarrow> 16 word \<Rightarrow> pbuf_type \<Rightarrow> pmem \<Rightarrow> (paddr option \<times> pmem) option" where
  "pbuf_alloc layer length0 ty \<sigma> =
     (let offset = header_offset layer; n = unat length0 in
      case memp_malloc (pool_of ty) \<sigma> of
        (None, \<sigma>) \<Rightarrow> Some (None, if ty = PBUF_POOL then pbuf_pool_is_empty \<sigma> else \<sigma>)
      | (Some p, \<sigma>) \<Rightarrow>
          (case ty of
             PBUF_POOL \<Rightarrow>
               let l = min n (PBUF_POOL_BUFSIZE - offset);
                   \<sigma> = put_pb p (new_pbuf (Some (Own p, int offset)) n l ty) (new_block p PBUF_POOL_BUFSIZE \<sigma>)
               in alloc_tail p p (n - l) \<sigma>
           | PBUF_RAM \<Rightarrow>
               Some (Some p, put_pb p (new_pbuf (Some (Own p, int offset)) n n ty) (new_block p (offset + n) \<sigma>))
           | _ \<Rightarrow> Some (Some p, put_pb p (new_pbuf None n n ty) \<sigma>)))"

subsection \<open>Headers and lengths\<close>

partial_function (option) realloc_walk :: "nat \<Rightarrow> int \<Rightarrow> paddr option \<Rightarrow> pmem \<Rightarrow> (nat \<times> paddr \<times> pmem) option" where
  "realloc_walk rem_len grow q \<sigma> = (case q of None \<Rightarrow> None
     | Some a \<Rightarrow> do {
         b \<leftarrow> pbs \<sigma> a;
         if rem_len > unat (pb_len b)
         then do {
           guard (grow < 0xffff);
           realloc_walk (rem_len - unat (pb_len b)) grow (pb_next b)
             (put_pb a (b\<lparr>pb_tot_len := pb_tot_len b + word_of_int grow\<rparr>) \<sigma>) }
         else Some (rem_len, a, \<sigma>) })"

definition pbuf_realloc :: "paddr option \<Rightarrow> 16 word \<Rightarrow> pmem \<Rightarrow> pmem option" where
  "pbuf_realloc p new_len \<sigma> = do {
     a \<leftarrow> p; b \<leftarrow> pbs \<sigma> a;
     if new_len \<ge> pb_tot_len b then Some \<sigma>
     else do {
       (rem_len, q, \<sigma>) \<leftarrow> realloc_walk (unat new_len) (uint new_len - uint (pb_tot_len b)) p \<sigma>;
       b \<leftarrow> pbs \<sigma> q;
       let \<sigma> = put_pb q (b\<lparr>pb_len := of_nat rem_len, pb_tot_len := of_nat rem_len\<rparr>) \<sigma>;
       \<sigma> \<leftarrow> (if pb_next b \<noteq> None then map_option snd (pbuf_free (pb_next b) \<sigma>) else Some \<sigma>);
       b \<leftarrow> pbs \<sigma> q;
       Some (put_pb q (b\<lparr>pb_next := None\<rparr>) \<sigma>) } }"

text \<open>\<open>header_size_increment\<close> is an \<open>s16_t\<close>. A pointer can be compared with the start of its own block only.\<close>

definition pbuf_header :: "paddr option \<Rightarrow> int \<Rightarrow> pmem \<Rightarrow> (8 word \<times> pmem) option" where
  "pbuf_header p inc \<sigma> = do {
     a \<leftarrow> p;
     if inc = 0 then Some (0, \<sigma>)
     else do {
       b \<leftarrow> pbs \<sigma> a;
       guard (inc < 0 \<longrightarrow> - inc \<le> uint (pb_len b));
       let moved = put_pb a (b\<lparr>pb_payload := map_option (\<lambda>(blk, off). (blk, off - inc)) (pb_payload b),
            pb_len := pb_len b + word_of_int inc, pb_tot_len := pb_tot_len b + word_of_int inc\<rparr>) \<sigma>;
       if pb_type b = PBUF_RAM \<or> pb_type b = PBUF_POOL
       then do {
         (blk, off) \<leftarrow> pb_payload b;
         guard (blk = Own a);
         Some (if off - inc < 0 then (1, \<sigma>) else (0, moved)) }
       else Some (if inc < 0 then (0, moved) else (1, \<sigma>)) } }"

subsection \<open>Chains\<close>

partial_function (option) cat_loop :: "paddr \<Rightarrow> paddr \<Rightarrow> pmem \<Rightarrow> (paddr \<times> pmem) option" where
  "cat_loop p t \<sigma> = do {
     b \<leftarrow> pbs \<sigma> p;
     case pb_next b of None \<Rightarrow> Some (p, \<sigma>)
     | Some n \<Rightarrow> do {
         bt \<leftarrow> pbs \<sigma> t;
         cat_loop n t (put_pb p (b\<lparr>pb_tot_len := pb_tot_len b + pb_tot_len bt\<rparr>) \<sigma>) } }"

definition pbuf_cat :: "paddr option \<Rightarrow> paddr option \<Rightarrow> pmem \<Rightarrow> pmem option" where
  "pbuf_cat h t \<sigma> = do {
     h \<leftarrow> h; t \<leftarrow> t;
     (p, \<sigma>) \<leftarrow> cat_loop h t \<sigma>;
     b \<leftarrow> pbs \<sigma> p;
     guard (pb_tot_len b = pb_len b);
     bt \<leftarrow> pbs \<sigma> t;
     Some (put_pb p (b\<lparr>pb_tot_len := pb_tot_len b + pb_tot_len bt, pb_next := Some t\<rparr>) \<sigma>) }"

definition pbuf_chain :: "paddr option \<Rightarrow> paddr option \<Rightarrow> pmem \<Rightarrow> pmem option" where
  "pbuf_chain h t \<sigma> = do { \<sigma> \<leftarrow> pbuf_cat h t \<sigma>; pbuf_ref t \<sigma> }"

definition pbuf_dechain :: "paddr \<Rightarrow> pmem \<Rightarrow> (paddr option \<times> pmem) option" where
  "pbuf_dechain p \<sigma> = do {
     b \<leftarrow> pbs \<sigma> p;
     (tail_gone, \<sigma>) \<leftarrow> (case pb_next b of None \<Rightarrow> Some (1, \<sigma>)
       | Some q \<Rightarrow> do {
           bq \<leftarrow> pbs \<sigma> q;
           guard (uint (pb_tot_len bq) = uint (pb_tot_len b) - uint (pb_len b));
           let \<sigma> = put_pb q (bq\<lparr>pb_tot_len := pb_tot_len b - pb_len b\<rparr>) \<sigma>;
           b \<leftarrow> pbs \<sigma> p;
           pbuf_free (Some q) (put_pb p (b\<lparr>pb_next := None, pb_tot_len := pb_len b\<rparr>) \<sigma>) });
     b' \<leftarrow> pbs \<sigma> p;
     guard (pb_tot_len b' = pb_len b');
     Some (if tail_gone > 0 then None else pb_next b, \<sigma>) }"

subsection \<open>Contents\<close>

text \<open>\<open>n\<close> bytes from \<open>k\<close> bytes behind a payload pointer.\<close>

definition in_block :: "(block \<times> int) option \<Rightarrow> nat \<Rightarrow> nat \<Rightarrow> pmem \<Rightarrow> bool" where
  "in_block pay k n \<sigma> = (case pay of None \<Rightarrow> False
     | Some (blk, off) \<Rightarrow> 0 \<le> off \<and> nat off + k + n \<le> length (bytes_of \<sigma> blk))"

definition load :: "(block \<times> int) option \<Rightarrow> nat \<Rightarrow> nat \<Rightarrow> pmem \<Rightarrow> 8 word list option" where
  "load pay k n \<sigma> = do {
     guard (in_block pay k n \<sigma>);
     (blk, off) \<leftarrow> pay;
     Some (take n (drop (nat off + k) (bytes_of \<sigma> blk))) }"

definition store :: "(block \<times> int) option \<Rightarrow> nat \<Rightarrow> 8 word list \<Rightarrow> pmem \<Rightarrow> pmem option" where
  "store pay k xs \<sigma> = do {
     guard (in_block pay k (length xs) \<sigma>);
     (blk, off) \<leftarrow> pay;
     let o' = nat off + k; let old = bytes_of \<sigma> blk;
     Some (\<sigma>\<lparr>bytes_of := (bytes_of \<sigma>)(blk := take o' old @ xs @ drop (o' + length xs) old)\<rparr>) }"

text \<open>\<open>MEMCPY\<close> of overlapping areas is undefined.\<close>

definition overlap :: "(block \<times> int) option \<Rightarrow> nat \<Rightarrow> (block \<times> int) option \<Rightarrow> nat \<Rightarrow> nat \<Rightarrow> bool" where
  "overlap d kd s ks n = (case (d, s) of
       (Some (bd, od), Some (bs, os)) \<Rightarrow> bd = bs \<and> od + int kd < os + int ks + int n \<and> os + int ks < od + int kd + int n
     | _ \<Rightarrow> False)"

text \<open>No packet queues: a pbuf that ends a packet ends its chain.\<close>

definition one_packet :: "paddr option \<Rightarrow> pmem \<Rightarrow> unit option" where
  "one_packet p \<sigma> = (case p of None \<Rightarrow> Some ()
     | Some a \<Rightarrow> do { b \<leftarrow> pbs \<sigma> a; guard (pb_len b = pb_tot_len b \<longrightarrow> pb_next b = None) })"

partial_function (option) copy_loop :: "paddr option \<Rightarrow> paddr option \<Rightarrow> nat \<Rightarrow> nat \<Rightarrow> pmem \<Rightarrow> (int \<times> pmem) option" where
  "copy_loop p_to p_from offset_to offset_from \<sigma> = do {
     t \<leftarrow> p_to; f \<leftarrow> p_from;
     bt \<leftarrow> pbs \<sigma> t; bf \<leftarrow> pbs \<sigma> f;
     let lt = unat (pb_len bt); let lf = unat (pb_len bf);
     let n = (if int lt - int offset_to \<ge> int lf - int offset_from then lf - offset_from else lt - offset_to);
     guard (\<not> overlap (pb_payload bt) offset_to (pb_payload bf) offset_from n);
     xs \<leftarrow> load (pb_payload bf) offset_from n \<sigma>;
     \<sigma> \<leftarrow> store (pb_payload bt) offset_to xs \<sigma>;
     guard (offset_to + n \<le> lt);
     let (p_to, offset_to) = (if offset_to + n = lt then (pb_next bt, 0) else (p_to, offset_to + n));
     guard (offset_from + n \<le> lf);
     let (p_from, offset_from) = (if offset_from + n \<ge> lf then (pb_next bf, 0) else (p_from, offset_from + n));
     one_packet p_from \<sigma>; one_packet p_to \<sigma>;
     if p_from = None then Some (0, \<sigma>) else copy_loop p_to p_from offset_to offset_from \<sigma> }"

definition pbuf_copy :: "paddr option \<Rightarrow> paddr option \<Rightarrow> pmem \<Rightarrow> (int \<times> pmem) option" where
  "pbuf_copy p_to p_from \<sigma> = do {
     t \<leftarrow> p_to; f \<leftarrow> p_from; bt \<leftarrow> pbs \<sigma> t; bf \<leftarrow> pbs \<sigma> f;
     guard (pb_tot_len bt \<ge> pb_tot_len bf);
     copy_loop p_to p_from 0 0 \<sigma> }"

text \<open>The result is what has been written to \<open>dataptr\<close>; its length is the result of the function.\<close>

partial_function (option) partial_loop :: "paddr option \<Rightarrow> nat \<Rightarrow> nat \<Rightarrow> 8 word list \<Rightarrow> pmem \<Rightarrow> 8 word list option" where
  "partial_loop p len offset acc \<sigma> =
     (if len = 0 then Some acc
      else case p of None \<Rightarrow> Some acc
      | Some a \<Rightarrow> do {
          b \<leftarrow> pbs \<sigma> a;
          if offset \<noteq> 0 \<and> offset \<ge> unat (pb_len b)
          then partial_loop (pb_next b) len (offset - unat (pb_len b)) acc \<sigma>
          else do {
            let n = min (unat (pb_len b) - offset) len;
            xs \<leftarrow> load (pb_payload b) offset n \<sigma>;
            partial_loop (pb_next b) (len - n) 0 (acc @ xs) \<sigma> } })"

definition pbuf_copy_partial :: "paddr option \<Rightarrow> 16 word \<Rightarrow> 16 word \<Rightarrow> pmem \<Rightarrow> 8 word list option" where
  "pbuf_copy_partial buf len offset \<sigma> = do {
     guard (buf \<noteq> None); partial_loop buf (unat len) (unat offset) [] \<sigma> }"

partial_function (option) take_loop :: "paddr option \<Rightarrow> 8 word list \<Rightarrow> pmem \<Rightarrow> pmem option" where
  "take_loop p data \<sigma> =
     (if data = [] then Some \<sigma>
      else case p of None \<Rightarrow> None
      | Some a \<Rightarrow> do {
          b \<leftarrow> pbs \<sigma> a;
          let n = min (length data) (unat (pb_len b));
          \<sigma> \<leftarrow> store (pb_payload b) 0 (take n data) \<sigma>;
          take_loop (pb_next b) (drop n data) \<sigma> })"

text \<open>\<open>len\<close> is the length of \<open>data\<close>, which a \<open>u16_t\<close> holds.\<close>

definition pbuf_take :: "paddr option \<Rightarrow> 8 word list \<Rightarrow> pmem \<Rightarrow> (int \<times> pmem) option" where
  "pbuf_take buf data \<sigma> = do {
     a \<leftarrow> buf; b \<leftarrow> pbs \<sigma> a;
     if unat (pb_tot_len b) < length data then Some (ERR_ARG, \<sigma>)
     else do { \<sigma> \<leftarrow> take_loop buf data \<sigma>; Some (0, \<sigma>) } }"

definition pbuf_coalesce :: "paddr \<Rightarrow> pbuf_layer \<Rightarrow> pmem \<Rightarrow> (paddr \<times> pmem) option" where
  "pbuf_coalesce p layer \<sigma> = do {
     b \<leftarrow> pbs \<sigma> p;
     if pb_next b = None then Some (p, \<sigma>)
     else do {
       (q, \<sigma>) \<leftarrow> pbuf_alloc layer (pb_tot_len b) PBUF_RAM \<sigma>;
       case q of None \<Rightarrow> Some (p, \<sigma>)
       | Some q \<Rightarrow> do {
           (err, \<sigma>) \<leftarrow> pbuf_copy (Some q) (Some p) \<sigma>;
           guard (err = 0);
           (n, \<sigma>) \<leftarrow> pbuf_free (Some p) \<sigma>;
           Some (q, \<sigma>) } } }"

end
