(* ===== verification/Pbuf_Refs.thy ===== *)
theory Pbuf_Refs
  imports Pbuf "HOL-Library.Multiset"
begin

text \<open>
  The reference counts of \<open>pbuf.c\<close>: the count of a pbuf is the number of pointers to it, from
  other pbufs and from outside, so that nothing is freed while it is pointed to and nothing is lost.
\<close>

subsection \<open>Chains\<close>

fun chain :: "pmem \<Rightarrow> paddr option \<Rightarrow> paddr list \<Rightarrow> bool" where
  "chain \<sigma> p [] \<longleftrightarrow> p = None"
| "chain \<sigma> p (a # as) \<longleftrightarrow> p = Some a \<and> (case pbs \<sigma> a of None \<Rightarrow> False | Some b \<Rightarrow> chain \<sigma> (pb_next b) as)"

lemma chain_None [simp]: "chain \<sigma> None as \<longleftrightarrow> as = []"
  by (cases as) auto

lemma chain_Some: "chain \<sigma> (Some a) as \<longleftrightarrow> (\<exists>b bs. as = a # bs \<and> pbs \<sigma> a = Some b \<and> chain \<sigma> (pb_next b) bs)"
  by (cases as) (auto split: option.splits)

lemma chain_inject: "chain \<sigma> p as \<Longrightarrow> chain \<sigma> p bs \<Longrightarrow> as = bs"
proof (induction as arbitrary: p bs)
  case Nil
  then show ?case by (cases bs) auto
next
  case (Cons a as)
  then show ?case by (cases bs) (auto split: option.splits)
qed

lemma chain_suffix: "chain \<sigma> p (xs @ a # ys) \<Longrightarrow> chain \<sigma> (Some a) (a # ys)"
proof (induction xs arbitrary: p)
  case Nil
  then show ?case by simp
next
  case (Cons x xs)
  obtain b :: pbuf where "chain \<sigma> (pb_next b) (xs @ a # ys)" using Cons.prems by (cases "pbs \<sigma> x") auto
  then show ?case by (rule Cons.IH)
qed

lemma chain_distinct: "chain \<sigma> p as \<Longrightarrow> distinct as"
proof (induction as arbitrary: p)
  case (Cons a as)
  have "a \<notin> set as"
  proof
    assume "a \<in> set as"
    then obtain xs ys where as: "as = xs @ a # ys" by (meson split_list)
    have "chain \<sigma> (Some a) (a # ys)" using Cons.prems chain_suffix [of \<sigma> p "a # xs" a ys] by (simp add: as)
    moreover have "chain \<sigma> (Some a) (a # as)" using Cons.prems by simp
    ultimately have "a # ys = a # as" by (rule chain_inject)
    then show False using as by simp
  qed
  then show ?case using Cons by (auto split: option.splits)
qed simp

lemma chain_cong:
  "(\<And>x. x \<in> set as \<Longrightarrow> map_option pb_next (pbs \<sigma>' x) = map_option pb_next (pbs \<sigma> x)) \<Longrightarrow> chain \<sigma>' p as = chain \<sigma> p as"
proof (induction as arbitrary: p)
  case (Cons a as)
  have "map_option pb_next (pbs \<sigma>' a) = map_option pb_next (pbs \<sigma> a)" by (rule Cons.prems) simp
  moreover have "chain \<sigma>' q as = chain \<sigma> q as" for q by (rule Cons.IH) (use Cons.prems in simp)
  ultimately show ?case by (cases "pbs \<sigma> a"; cases "pbs \<sigma>' a") simp_all
qed simp

lemma chain_dom: "chain \<sigma> p as \<Longrightarrow> set as \<subseteq> dom (pbs \<sigma>)"
  by (induction as arbitrary: p) (auto split: option.splits)

subsection \<open>The invariant\<close>

definition preds :: "pmem \<Rightarrow> paddr \<Rightarrow> paddr set" where
  "preds \<sigma> a = {c. \<exists>b. pbs \<sigma> c = Some b \<and> pb_next b = Some a}"

text \<open>
  \<open>ext a\<close> is the number of pointers to \<open>a\<close> held outside of the chains. The free lists hold
  distinct blocks none of which is in use.
\<close>

definition pool_inv :: "pmem \<Rightarrow> bool" where
  "pool_inv \<sigma> \<longleftrightarrow> (\<forall>t. distinct (memp_tab \<sigma> t) \<and> set (memp_tab \<sigma> t) \<inter> dom (pbs \<sigma>) = {}) \<and>
     (\<forall>t u. t \<noteq> u \<longrightarrow> set (memp_tab \<sigma> t) \<inter> set (memp_tab \<sigma> u) = {})"

definition ref_inv :: "pmem \<Rightarrow> (paddr \<Rightarrow> nat) \<Rightarrow> bool" where
  "ref_inv \<sigma> ext \<longleftrightarrow> finite (dom (pbs \<sigma>)) \<and>
     (\<forall>a b. pbs \<sigma> a = Some b \<longrightarrow> 0 < unat (pb_ref b) \<and> unat (pb_ref b) = ext a + card (preds \<sigma> a) \<and>
        (\<exists>as. chain \<sigma> (Some a) as)) \<and>
     (\<forall>a. 0 < ext a \<longrightarrow> a \<in> dom (pbs \<sigma>))"

definition pbuf_inv :: "pmem \<Rightarrow> (paddr \<Rightarrow> nat) \<Rightarrow> bool" where
  "pbuf_inv \<sigma> ext \<longleftrightarrow> ref_inv \<sigma> ext \<and> pool_inv \<sigma>"

lemma preds_finite: "ref_inv \<sigma> ext \<Longrightarrow> finite (preds \<sigma> a)"
  unfolding ref_inv_def preds_def by (rule finite_subset [of _ "dom (pbs \<sigma>)"]) auto

lemma ref_invD:
  assumes "ref_inv \<sigma> ext" "pbs \<sigma> a = Some b"
  shows "0 < unat (pb_ref b)" "unat (pb_ref b) = ext a + card (preds \<sigma> a)" "\<exists>as. chain \<sigma> (Some a) as"
  using assms unfolding ref_inv_def by blast+

lemma put_pb_simps [simp]:
  "pbs (put_pb a b \<sigma>) = (pbs \<sigma>)(a \<mapsto> b)" "memp_tab (put_pb a b \<sigma>) = memp_tab \<sigma>" "bytes_of (put_pb a b \<sigma>) = bytes_of \<sigma>"
  by (simp_all add: put_pb_def)

lemma memp_free_simps [simp]:
  "pbs (memp_free t a \<sigma>) = (pbs \<sigma>)(a := None)" "memp_tab (memp_free t a \<sigma>) = (memp_tab \<sigma>)(t := a # memp_tab \<sigma> t)"
  "bytes_of (memp_free t a \<sigma>) = bytes_of \<sigma>"
  by (simp_all add: memp_free_def)

lemma pool_inv_put: "pool_inv \<sigma> \<Longrightarrow> a \<in> dom (pbs \<sigma>) \<Longrightarrow> pool_inv (put_pb a b \<sigma>)"
  by (auto simp: pool_inv_def)

lemma pool_inv_free: "pool_inv \<sigma> \<Longrightarrow> a \<in> dom (pbs \<sigma>) \<Longrightarrow> pool_inv (memp_free t a \<sigma>)"
proof -
  assume p: "pool_inv \<sigma>" and a: "a \<in> dom (pbs \<sigma>)"
  then have n: "a \<notin> set (memp_tab \<sigma> u)" for u by (auto simp: pool_inv_def)
  have q: "distinct (memp_tab \<sigma> u)" "set (memp_tab \<sigma> u) \<inter> dom (pbs \<sigma>) = {}" for u using p by (simp_all add: pool_inv_def)
  have d: "u \<noteq> v \<Longrightarrow> set (memp_tab \<sigma> u) \<inter> set (memp_tab \<sigma> v) = {}" for u v using p by (simp add: pool_inv_def)
  show ?thesis unfolding pool_inv_def
  proof (intro conjI allI impI)
    fix u v
    show "distinct (memp_tab (memp_free t a \<sigma>) u)" using q(1) [of u] n [of u] by (cases "u = t") simp_all
    show "set (memp_tab (memp_free t a \<sigma>) u) \<inter> dom (pbs (memp_free t a \<sigma>)) = {}" using q(2) [of u] by auto
    assume "u \<noteq> v"
    then show "set (memp_tab (memp_free t a \<sigma>) u) \<inter> set (memp_tab (memp_free t a \<sigma>) v) = {}"
      using d [of u v] n [of u] n [of v] by auto
  qed
qed

text \<open>A change of a count, of a length or of the payload leaves the links as they are.\<close>

lemma ref_inv_relink:
  assumes i: "ref_inv \<sigma> ext" and b: "pbs \<sigma> a = Some b" "pb_next b' = pb_next b" "0 < unat (pb_ref b')"
    and e: "int (unat (pb_ref b')) - int (unat (pb_ref b)) = int (ext' a) - int (ext a)" "\<And>x. x \<noteq> a \<Longrightarrow> ext' x = ext x"
  shows "ref_inv (put_pb a b' \<sigma>) ext'"
proof -
  have p: "preds (put_pb a b' \<sigma>) x = preds \<sigma> x" for x using b by (auto simp: preds_def)
  have c: "chain (put_pb a b' \<sigma>) q as = chain \<sigma> q as" for q as
    by (rule chain_cong) (use b in auto)
  have r: "unat (pb_ref b') = ext' a + card (preds \<sigma> a)" using ref_invD(2) [OF i b(1)] e(1) by linarith
  show ?thesis unfolding ref_inv_def p c
  proof (intro conjI allI impI)
    show "finite (dom (pbs (put_pb a b' \<sigma>)))" using i by (simp add: ref_inv_def)
    show "x \<in> dom (pbs (put_pb a b' \<sigma>))" if "0 < ext' x" for x
      using that i e(2) by (cases "x = a") (auto simp: ref_inv_def)
    fix x bx assume x: "pbs (put_pb a b' \<sigma>) x = Some bx"
    show "0 < unat (pb_ref bx)" using x b(3) ref_invD(1) [OF i, of x] by (cases "x = a") auto
    show "unat (pb_ref bx) = ext' x + card (preds \<sigma> x)" using x r ref_invD(2) [OF i, of x] e(2) by (cases "x = a") auto
    show "\<exists>as. chain \<sigma> (Some x) as" using x b(1) ref_invD(3) [OF i, of x] by (cases "x = a") auto
  qed
qed

text \<open>Freeing a pbuf nobody points to hands its pointer to the next one over.\<close>

lemma ref_inv_dealloc:
  assumes i: "ref_inv \<sigma> ext" and b: "pbs \<sigma> a = Some b" "unat (pb_ref b) = 1" "0 < ext a"
  defines "ext' \<equiv> (\<lambda>x. if x = a then 0 else if pb_next b = Some x then ext x + 1 else ext x)"
  shows "ref_inv (memp_free t a \<sigma>) ext'"
proof -
  let ?s = "memp_free t a \<sigma>"
  have e: "ext a = 1" "card (preds \<sigma> a) = 0" using ref_invD(2) [OF i b(1)] b by simp_all
  then have none: "preds \<sigma> a = {}" using preds_finite [OF i] by simp
  have p: "preds ?s x = preds \<sigma> x - {a}" for x by (auto simp: preds_def)
  have acard: "card (preds \<sigma> x) = card (preds \<sigma> x - {a}) + (if pb_next b = Some x then 1 else 0)" for x
  proof (cases "pb_next b = Some x")
    case True
    then have "a \<in> preds \<sigma> x" using b by (simp add: preds_def)
    then show ?thesis using True card_Suc_Diff1 [OF preds_finite [OF i], of a x] by simp
  next
    case False
    then have "a \<notin> preds \<sigma> x" using b by (auto simp: preds_def)
    then show ?thesis using False by simp
  qed
  have notin: "a \<notin> set as" if c: "chain \<sigma> (Some x) as" "x \<noteq> a" for x as
  proof
    assume "a \<in> set as"
    then obtain xs ys where as: "as = xs @ a # ys" by (meson split_list)
    have "\<exists>y. y \<in> preds \<sigma> a" if "chain \<sigma> (Some x) (xs @ a # ys)" "x \<noteq> a" for x xs
      using that
    proof (induction xs arbitrary: x)
      case Nil
      then show ?case by simp
    next
      case (Cons z zs)
      then obtain bz where z: "z = x" "pbs \<sigma> z = Some bz" "chain \<sigma> (pb_next bz) (zs @ a # ys)" by (auto split: option.splits)
      show ?case
      proof (cases zs)
        case Nil
        then have "pb_next bz = Some a" using z(3) by simp
        then show ?thesis using z by (auto simp: preds_def)
      next
        case (Cons w ws)
        then have n: "pb_next bz = Some w" using z(3) by simp
        then have "z \<in> preds \<sigma> w" using z by (auto simp: preds_def)
        show ?thesis
        proof (cases "w = a")
          case True
          then show ?thesis using \<open>z \<in> preds \<sigma> w\<close> by blast
        next
          case False
          then show ?thesis using Cons.IH z(3) n by simp
        qed
      qed
    qed
    then show False using c as none by blast
  qed
  have ch: "\<exists>as. chain ?s (Some x) as" if x: "x \<noteq> a" "pbs \<sigma> x = Some bx" for x bx
  proof -
    obtain as where as: "chain \<sigma> (Some x) as" using ref_invD(3) [OF i x(2)] by blast
    have "chain ?s (Some x) as = chain \<sigma> (Some x) as"
      by (rule chain_cong) (use notin [OF as x(1)] in auto)
    then show ?thesis using as by blast
  qed
  have nextdom: "y \<in> dom (pbs \<sigma>)" if "pb_next b = Some y" for y
    using ref_invD(3) [OF i b(1)] b(1) that by (auto simp: chain_Some)
  have na: "pb_next b \<noteq> Some a" using none b(1) by (auto simp: preds_def)
  show ?thesis unfolding ref_inv_def
  proof (intro conjI allI impI)
    show "finite (dom (pbs ?s))" using i by (simp add: ref_inv_def)
    show "x \<in> dom (pbs ?s)" if "0 < ext' x" for x
      using that i nextdom na by (auto simp: ext'_def ref_inv_def split: if_splits)
    fix x bx assume "pbs ?s x = Some bx"
    then have x: "x \<noteq> a" "pbs \<sigma> x = Some bx" by (auto split: if_splits)
    show "0 < unat (pb_ref bx)" using ref_invD(1) [OF i x(2)] .
    show "unat (pb_ref bx) = ext' x + card (preds ?s x)"
      unfolding p using ref_invD(2) [OF i x(2)] acard [of x] x(1) by (simp add: ext'_def)
    show "\<exists>as. chain ?s (Some x) as" using ch [OF x] .
  qed
qed

subsection \<open>\<open>pbuf_free\<close>\<close>

definition ref_of :: "pmem \<Rightarrow> paddr \<Rightarrow> nat" where
  "ref_of \<sigma> a = (case pbs \<sigma> a of None \<Rightarrow> 0 | Some b \<Rightarrow> unat (pb_ref b))"

text \<open>The pbufs that \<open>pbuf_free\<close> deallocates: as long as the count is 1.\<close>

definition freed :: "pmem \<Rightarrow> paddr list \<Rightarrow> paddr list" where
  "freed \<sigma> as = takeWhile (\<lambda>a. ref_of \<sigma> a = 1) as"

text \<open>The blocks among them that go back to a pool.\<close>

definition of_pool :: "pmem \<Rightarrow> pool \<Rightarrow> paddr list \<Rightarrow> paddr list" where
  "of_pool \<sigma> t as = filter (\<lambda>a. map_option (\<lambda>b. pool_of (pb_type b)) (pbs \<sigma> a) = Some t) as"

text \<open>The pbufs afterwards: the freed ones are gone, the next one has lost a reference.\<close>

definition unref :: "pmem \<Rightarrow> paddr list \<Rightarrow> paddr \<Rightarrow> pbuf option" where
  "unref \<sigma> as x = (if x \<in> set (freed \<sigma> as) then None
     else if length (freed \<sigma> as) < length as \<and> x = as ! length (freed \<sigma> as)
     then map_option (\<lambda>b. b\<lparr>pb_ref := pb_ref b - 1\<rparr>) (pbs \<sigma> x) else pbs \<sigma> x)"

definition drop_ext :: "paddr option \<Rightarrow> (paddr \<Rightarrow> nat) \<Rightarrow> paddr \<Rightarrow> nat" where
  "drop_ext p ext = (case p of None \<Rightarrow> ext | Some a \<Rightarrow> ext(a := ext a - 1))"

lemma ref_of_Some: "pbs \<sigma> a = Some b \<Longrightarrow> ref_of \<sigma> a = unat (pb_ref b)"
  by (simp add: ref_of_def)

lemma unat_ref_1: "unat (r :: 16 word) = 1 \<longleftrightarrow> r - 1 = 0"
  using word_unat_eq_iff [of r 1] by simp

lemma free_loop_ok:
  assumes "chain \<sigma> p as" "pbuf_inv \<sigma> ext" "\<And>a. p = Some a \<Longrightarrow> 0 < ext a"
  shows "\<exists>\<sigma>'. free_loop c p \<sigma> = Some (c + of_nat (length (freed \<sigma> as)), \<sigma>') \<and> pbuf_inv \<sigma>' (drop_ext p ext) \<and>
     pbs \<sigma>' = unref \<sigma> as \<and> bytes_of \<sigma>' = bytes_of \<sigma> \<and>
     (\<forall>t. mset (memp_tab \<sigma>' t) = mset (of_pool \<sigma> t (freed \<sigma> as)) + mset (memp_tab \<sigma> t))"
  using assms
proof (induction as arbitrary: p \<sigma> c ext)
  case Nil
  then show ?case by (simp add: free_loop.simps freed_def unref_def drop_ext_def of_pool_def fun_eq_iff)
next
  case (Cons a as)
  then obtain b where b: "p = Some a" "pbs \<sigma> a = Some b" "chain \<sigma> (pb_next b) as" by (cases "pbs \<sigma> a") auto
  have dist: "distinct (a # as)" by (rule chain_distinct [OF Cons.prems(1)])
  have i: "ref_inv \<sigma> ext" "pool_inv \<sigma>" using Cons.prems(2) by (simp_all add: pbuf_inv_def)
  have dom: "a \<in> dom (pbs \<sigma>)" using b(2) by blast
  have pos: "0 < ext a" using Cons.prems(3) b(1) by simp
  have r0: "0 < unat (pb_ref b)" by (rule ref_invD [OF i(1) b(2)])
  then have guard: "0 < pb_ref b" by (simp add: word_gt_0 unat_gt_0)
  show ?case
  proof (cases "unat (pb_ref b) = 1")
    case True
    define ext' where "ext' = (\<lambda>x. if x = a then 0 else if pb_next b = Some x then ext x + 1 else ext x)"
    let ?s = "memp_free (pool_of (pb_type b)) a \<sigma>"
    have e1: "ext a = 1" using ref_invD(2) [OF i(1) b(2)] True pos by simp
    have na: "pb_next b \<noteq> Some a" using b(3) dist by (cases as) auto
    have inv: "pbuf_inv ?s ext'" unfolding pbuf_inv_def ext'_def
      using ref_inv_dealloc [OF i(1) b(2) True pos] pool_inv_free [OF i(2) dom] by blast
    have ch: "chain ?s (pb_next b) as = chain \<sigma> (pb_next b) as"
      by (rule chain_cong) (use dist in auto)
    have fr: "freed ?s as = freed \<sigma> as" unfolding freed_def
      by (rule takeWhile_cong) (use dist in \<open>auto simp: ref_of_def\<close>)
    have dx: "drop_ext (pb_next b) ext' = drop_ext p ext"
      using na e1 b(1) by (auto simp: drop_ext_def ext'_def fun_eq_iff split: option.splits)
    have fa: "freed \<sigma> (a # as) = a # freed \<sigma> as" using True b(2) by (simp add: freed_def ref_of_Some)
    have sub: "set (freed \<sigma> as) \<subseteq> set as" by (auto simp: freed_def dest: set_takeWhileD)
    have un: "unref ?s as = unref \<sigma> (a # as)"
    proof
      fix x
      have "length (freed \<sigma> as) < length as \<Longrightarrow> as ! length (freed \<sigma> as) \<noteq> a" using dist nth_mem by fastforce
      then show "unref ?s as x = unref \<sigma> (a # as) x" unfolding unref_def fr fa by (auto simp: nth_Cons')
    qed
    have pr: "\<And>y. pb_next b = Some y \<Longrightarrow> 0 < ext' y" using na by (auto simp: ext'_def)
    have po: "of_pool ?s t (freed \<sigma> as) = of_pool \<sigma> t (freed \<sigma> as)" for t unfolding of_pool_def
      by (rule filter_cong) (use dist sub in auto)
    have pa: "mset (of_pool \<sigma> t (freed \<sigma> as)) + mset (memp_tab ?s t) = mset (of_pool \<sigma> t (a # freed \<sigma> as)) + mset (memp_tab \<sigma> t)" for t
      using b(2) by (simp add: of_pool_def)
    from Cons.IH [of ?s "pb_next b" ext' "c + 1", unfolded ch, OF b(3) inv pr] obtain \<sigma>'
      where "free_loop (c + 1) (pb_next b) ?s = Some (c + 1 + of_nat (length (freed \<sigma> as)), \<sigma>')"
        "pbuf_inv \<sigma>' (drop_ext p ext)" "pbs \<sigma>' = unref \<sigma> (a # as)" "bytes_of \<sigma>' = bytes_of \<sigma>"
        "\<forall>t. mset (memp_tab \<sigma>' t) = mset (of_pool \<sigma> t (a # freed \<sigma> as)) + mset (memp_tab \<sigma> t)"
      unfolding fr dx un po pa by auto
    moreover have "pb_ref b - 1 = 0" using True by (simp only: unat_ref_1)
    ultimately show ?thesis unfolding fa
      by (subst free_loop.simps) (auto simp: b guard guard_def)
  next
    case False
    let ?b = "b\<lparr>pb_ref := pb_ref b - 1\<rparr>"
    have u: "unat (pb_ref b - 1) = unat (pb_ref b) - 1" using r0 by (simp add: unat_minus_one unat_gt_0)
    have inv: "pbuf_inv (put_pb a ?b \<sigma>) (drop_ext p ext)" unfolding pbuf_inv_def
    proof
      show "ref_inv (put_pb a ?b \<sigma>) (drop_ext p ext)"
        by (rule ref_inv_relink [OF i(1) b(2)]) (use r0 False pos u b(1) in \<open>auto simp: drop_ext_def\<close>)
      show "pool_inv (put_pb a ?b \<sigma>)" by (rule pool_inv_put [OF i(2) dom])
    qed
    have fa: "freed \<sigma> (a # as) = []" using False b(2) by (simp add: freed_def ref_of_Some)
    have "pb_ref b - 1 \<noteq> 0" using False unfolding unat_ref_1 .
    then show ?thesis using inv
      by (subst free_loop.simps) (auto simp: b guard guard_def fa unref_def of_pool_def fun_eq_iff Let_def)
  qed
qed

lemma pbuf_free_ok:
  assumes "pbuf_inv \<sigma> ext" "0 < ext a" "chain \<sigma> (Some a) as"
  shows "\<exists>\<sigma>'. pbuf_free (Some a) \<sigma> = Some (of_nat (length (freed \<sigma> as)), \<sigma>') \<and> pbuf_inv \<sigma>' (ext(a := ext a - 1)) \<and>
     pbs \<sigma>' = unref \<sigma> as \<and> bytes_of \<sigma>' = bytes_of \<sigma> \<and>
     (\<forall>t. mset (memp_tab \<sigma>' t) = mset (of_pool \<sigma> t (freed \<sigma> as)) + mset (memp_tab \<sigma> t))"
  using free_loop_ok [OF assms(3,1), of 0] assms(2) by (simp add: pbuf_free_def guard_def drop_ext_def)

subsection \<open>New pbufs and links\<close>

lemma preds_in_dom:
  assumes "ref_inv \<sigma> ext" "c \<in> preds \<sigma> a"
  shows "a \<in> dom (pbs \<sigma>)"
proof -
  obtain b where b: "pbs \<sigma> c = Some b" "pb_next b = Some a" using assms(2) by (auto simp: preds_def)
  then obtain as where "chain \<sigma> (Some c) as" using ref_invD(3) [OF assms(1)] by blast
  then show ?thesis using b by (auto simp: chain_Some)
qed

lemma chain_put_other: "a \<notin> set as \<Longrightarrow> chain \<sigma> p as \<Longrightarrow> chain (put_pb a b \<sigma>) p as"
  by (subst chain_cong [of as "put_pb a b \<sigma>" \<sigma>]) auto

lemma ref_inv_new:
  assumes i: "ref_inv \<sigma> ext" and a: "a \<notin> dom (pbs \<sigma>)" and b: "pb_next b = None" "pb_ref b = 1"
  shows "ref_inv (put_pb a b \<sigma>) (ext(a := 1))"
proof -
  let ?s = "put_pb a b \<sigma>"
  have none: "preds \<sigma> a = {}" using preds_in_dom [OF i] a by blast
  have p: "preds ?s x = preds \<sigma> x" for x using a b(1) by (auto simp: preds_def)
  have c: "chain ?s q as" if "chain \<sigma> q as" for q as
    using that chain_dom [OF that] a by (intro chain_put_other) auto
  show ?thesis unfolding ref_inv_def p
  proof (intro conjI allI impI)
    show "finite (dom (pbs ?s))" using i by (simp add: ref_inv_def)
    show "x \<in> dom (pbs ?s)" if "0 < (ext(a := 1)) x" for x using that i by (auto simp: ref_inv_def split: if_splits)
    fix x bx assume x: "pbs ?s x = Some bx"
    show "0 < unat (pb_ref bx)" using x b ref_invD(1) [OF i, of x] by (cases "x = a") auto
    show "unat (pb_ref bx) = (ext(a := 1)) x + card (preds \<sigma> x)" using x b none ref_invD(2) [OF i, of x] by (cases "x = a") auto
    show "\<exists>as. chain ?s (Some x) as"
    proof (cases "x = a")
      case True
      then have "chain ?s (Some x) [x]" using b by simp
      then show ?thesis by blast
    next
      case False
      then show ?thesis using x ref_invD(3) [OF i, of x] c by auto
    qed
  qed
qed

lemma chain_end:
  assumes "chain \<sigma> p as" "r \<in> set as" "pbs \<sigma> r = Some b" "pb_next b = None"
  shows "\<exists>xs. as = xs @ [r]"
proof -
  obtain xs ys where as: "as = xs @ r # ys" using assms(2) by (meson split_list)
  then have "chain \<sigma> (Some r) (r # ys)" using assms(1) chain_suffix by blast
  then have "ys = []" using assms(3,4) by simp
  then show ?thesis using as by blast
qed

lemma chain_append:
  assumes "chain \<sigma> p (xs @ [r])" "pbs \<sigma> r = Some b" "pb_next b' = Some t" "chain \<sigma> (Some t) ts" "r \<notin> set ts"
  shows "chain (put_pb r b' \<sigma>) p (xs @ r # ts)"
proof -
  have t: "chain (put_pb r b' \<sigma>) (Some t) ts"
    using assms(4,5) by (rule chain_put_other [rotated])
  show ?thesis using assms(1) chain_distinct [OF assms(1)]
  proof (induction xs arbitrary: p)
    case Nil
    then show ?case using assms(3) t by simp
  next
    case (Cons x xs)
    then obtain bx :: pbuf where "p = Some x" "pbs \<sigma> x = Some bx" "chain \<sigma> (pb_next bx) (xs @ [r])" by (cases "pbs \<sigma> x") auto
    then show ?case using Cons.IH Cons.prems(2) by simp
  qed
qed

text \<open>The last pbuf of a chain takes over an outside reference.\<close>

lemma ref_inv_link:
  assumes i: "ref_inv \<sigma> ext" and r: "pbs \<sigma> r = Some b" "pb_next b = None" "pb_next b' = Some t" "pb_ref b' = pb_ref b"
    and t: "0 < ext t" "chain \<sigma> (Some t) ts" "r \<notin> set ts"
  shows "ref_inv (put_pb r b' \<sigma>) (ext(t := ext t - 1))"
proof -
  let ?s = "put_pb r b' \<sigma>"
  have p: "preds ?s x = (if x = t then insert r (preds \<sigma> x) else preds \<sigma> x)" for x using r by (auto simp: preds_def)
  have rn: "r \<notin> preds \<sigma> t" using r by (auto simp: preds_def)
  have c: "\<exists>as. chain ?s (Some x) as" if x: "x \<in> dom (pbs \<sigma>)" for x
  proof -
    obtain as where as: "chain \<sigma> (Some x) as" using x ref_invD(3) [OF i] by blast
    show ?thesis
    proof (cases "r \<in> set as")
      case True
      then obtain xs where "as = xs @ [r]" using chain_end [OF as _ r(1,2)] by blast
      then show ?thesis using chain_append [of \<sigma> "Some x" xs r b b' t ts] as r t by blast
    next
      case False
      then have "chain ?s (Some x) as" using as by (rule chain_put_other)
      then show ?thesis by blast
    qed
  qed
  show ?thesis unfolding ref_inv_def
  proof (intro conjI allI impI)
    show "finite (dom (pbs ?s))" using i by (simp add: ref_inv_def)
    show "x \<in> dom (pbs ?s)" if "0 < (ext(t := ext t - 1)) x" for x using that i t(1) by (auto simp: ref_inv_def split: if_splits)
    fix x bx assume x: "pbs ?s x = Some bx"
    then obtain bo where bo: "pbs \<sigma> x = Some bo" "pb_ref bx = pb_ref bo" using r by (cases "x = r") auto
    show "0 < unat (pb_ref bx)" using ref_invD(1) [OF i bo(1)] bo(2) by simp
    show "unat (pb_ref bx) = (ext(t := ext t - 1)) x + card (preds ?s x)"
      unfolding p using ref_invD(2) [OF i bo(1)] bo(2) t(1) rn preds_finite [OF i, of t] by simp
    show "\<exists>as. chain ?s (Some x) as" by (rule c) (use bo(1) in blast)
  qed
qed

end
