(* ===== verification/Pbuf_Inv.thy ===== *)
theory Pbuf_Inv
  imports Pbuf_Refs
begin

text \<open>
  Allocation and the operations that change the links of chains keep the invariant of
  \<open>struct pbuf\<close>: reference counts, total lengths and payload pointers.
\<close>

subsection \<open>Lengths and payloads\<close>

definition tot_of :: "pmem \<Rightarrow> paddr option \<Rightarrow> nat" where
  "tot_of \<sigma> p = (case p of None \<Rightarrow> 0 | Some a \<Rightarrow> (case pbs \<sigma> a of None \<Rightarrow> 0 | Some b \<Rightarrow> unat (pb_tot_len b)))"

definition plen :: "pmem \<Rightarrow> paddr \<Rightarrow> nat" where
  "plen \<sigma> a = (case pbs \<sigma> a of None \<Rightarrow> 0 | Some b \<Rightarrow> unat (pb_len b))"

text \<open>\<open>p->tot_len == p->len + (p->next ? p->next->tot_len : 0)\<close>; \<open>r\<close> still waits for \<open>n\<close> bytes.\<close>

definition len_pend :: "pmem \<Rightarrow> paddr option \<Rightarrow> nat \<Rightarrow> bool" where
  "len_pend \<sigma> r n \<longleftrightarrow> (\<forall>a b. pbs \<sigma> a = Some b \<longrightarrow>
     unat (pb_tot_len b) = unat (pb_len b) + (if r = Some a then n else tot_of \<sigma> (pb_next b)))"

definition len_inv :: "pmem \<Rightarrow> bool" where
  "len_inv \<sigma> \<longleftrightarrow> (\<forall>a b. pbs \<sigma> a = Some b \<longrightarrow> unat (pb_tot_len b) = unat (pb_len b) + tot_of \<sigma> (pb_next b))"

text \<open>A pbuf with its own memory points into it.\<close>

definition data_ok :: "pmem \<Rightarrow> paddr \<Rightarrow> pbuf \<Rightarrow> bool" where
  "data_ok \<sigma> a b \<longleftrightarrow> (pb_type b = PBUF_RAM \<or> pb_type b = PBUF_POOL \<longrightarrow>
     (\<exists>off. pb_payload b = Some (Own a, off) \<and> 0 \<le> off \<and> nat off + unat (pb_len b) \<le> length (bytes_of \<sigma> (Own a))))"

definition data_inv :: "pmem \<Rightarrow> bool" where
  "data_inv \<sigma> \<longleftrightarrow> (\<forall>a b. pbs \<sigma> a = Some b \<longrightarrow> data_ok \<sigma> a b)"

definition packet_inv :: "pmem \<Rightarrow> (paddr \<Rightarrow> nat) \<Rightarrow> bool" where
  "packet_inv \<sigma> ext \<longleftrightarrow> pbuf_inv \<sigma> ext \<and> len_inv \<sigma> \<and> data_inv \<sigma>"

lemma tot_of_simps [simp]: "tot_of \<sigma> None = 0" "pbs \<sigma> a = Some b \<Longrightarrow> tot_of \<sigma> (Some a) = unat (pb_tot_len b)"
  by (simp_all add: tot_of_def)

lemma len_inv_chain: "len_inv \<sigma> \<Longrightarrow> chain \<sigma> p as \<Longrightarrow> tot_of \<sigma> p = sum_list (map (plen \<sigma>) as)"
proof (induction as arbitrary: p)
  case (Cons a as)
  then obtain b :: pbuf where "p = Some a" "pbs \<sigma> a = Some b" "chain \<sigma> (pb_next b) as" by (cases "pbs \<sigma> a") auto
  then show ?case using Cons by (auto simp: plen_def len_inv_def)
qed simp

lemma chain_pbs: "pbs \<sigma>' = pbs \<sigma> \<Longrightarrow> chain \<sigma>' p as = chain \<sigma> p as"
  by (rule chain_cong) simp

lemma ref_inv_pbs: "pbs \<sigma>' = pbs \<sigma> \<Longrightarrow> ref_inv \<sigma>' ext = ref_inv \<sigma> ext"
  by (simp add: ref_inv_def preds_def chain_pbs [of \<sigma>' \<sigma>])

lemma tot_of_pbs: "pbs \<sigma>' = pbs \<sigma> \<Longrightarrow> tot_of \<sigma>' p = tot_of \<sigma> p"
  by (cases p) (simp_all add: tot_of_def)

lemma len_pend_pbs: "pbs \<sigma>' = pbs \<sigma> \<Longrightarrow> len_pend \<sigma>' r n = len_pend \<sigma> r n"
  by (simp add: len_pend_def tot_of_pbs [of \<sigma>' \<sigma>])

lemma new_block_simps [simp]:
  "pbs (new_block a n \<sigma>) = pbs \<sigma>" "memp_tab (new_block a n \<sigma>) = memp_tab \<sigma>"
  "bytes_of (new_block a n \<sigma>) x = (if x = Own a then fit n (bytes_of \<sigma> (Own a)) else bytes_of \<sigma> x)"
  by (simp_all add: new_block_def)

lemma length_fit [simp]: "length (fit n xs) = n"
  by (simp add: fit_def)

lemma new_pbuf_simps [simp]:
  "pb_next (new_pbuf pay t l ty) = None" "pb_ref (new_pbuf pay t l ty) = 1" "pb_type (new_pbuf pay t l ty) = ty"
  "pb_payload (new_pbuf pay t l ty) = pay" "pb_len (new_pbuf pay t l ty) = of_nat l" "pb_tot_len (new_pbuf pay t l ty) = of_nat t"
  by (simp_all add: new_pbuf_def)

lemma memp_malloc_some:
  assumes "pool_inv \<sigma>" "memp_malloc t \<sigma> = (Some q, \<sigma>')"
  shows "q \<notin> dom (pbs \<sigma>)" "pool_inv (put_pb q b \<sigma>')" "pbs \<sigma>' = pbs \<sigma>" "bytes_of \<sigma>' = bytes_of \<sigma>"
    "mset (memp_tab \<sigma> u) = mset (memp_tab \<sigma>' u) + (if u = t then {#q#} else {#})"
proof -
  obtain qs where q: "memp_tab \<sigma> t = q # qs" "\<sigma>' = \<sigma>\<lparr>memp_tab := (memp_tab \<sigma>)(t := qs)\<rparr>"
    using assms(2) by (auto simp: memp_malloc_def split: list.splits)
  have p: "distinct (memp_tab \<sigma> u)" "set (memp_tab \<sigma> u) \<inter> dom (pbs \<sigma>) = {}" for u using assms(1) by (simp_all add: pool_inv_def)
  have d: "u \<noteq> v \<Longrightarrow> set (memp_tab \<sigma> u) \<inter> set (memp_tab \<sigma> v) = {}" for u v using assms(1) by (simp add: pool_inv_def)
  show "q \<notin> dom (pbs \<sigma>)" using p(2) [of t] q(1) by auto
  show "pbs \<sigma>' = pbs \<sigma>" "bytes_of \<sigma>' = bytes_of \<sigma>" using q(2) by simp_all
  show "mset (memp_tab \<sigma> u) = mset (memp_tab \<sigma>' u) + (if u = t then {#q#} else {#})" using q by simp
  have n: "q \<notin> set (memp_tab \<sigma>' u)" for u using p(1) [of t] d [of u t] q by (cases "u = t") auto
  show "pool_inv (put_pb q b \<sigma>')" unfolding pool_inv_def
  proof (intro conjI allI impI)
    fix u v
    show "distinct (memp_tab (put_pb q b \<sigma>') u)" using p(1) [of u] q by (cases "u = t") simp_all
    show "set (memp_tab (put_pb q b \<sigma>') u) \<inter> dom (pbs (put_pb q b \<sigma>')) = {}"
      using p(2) [of u] n [of u] q by (cases "u = t") auto
    assume "u \<noteq> v"
    then show "set (memp_tab (put_pb q b \<sigma>') u) \<inter> set (memp_tab (put_pb q b \<sigma>') v) = {}"
      using d [of u v] q by (auto split: if_splits)
  qed
qed

lemma memp_malloc_none: "memp_malloc t \<sigma> = (None, \<sigma>') \<Longrightarrow> \<sigma>' = \<sigma>"
  by (auto simp: memp_malloc_def split: list.splits)

lemma pool_empty_simps [simp]:
  "pbs (pbuf_pool_is_empty \<sigma>) = pbs \<sigma>" "memp_tab (pbuf_pool_is_empty \<sigma>) = memp_tab \<sigma>" "bytes_of (pbuf_pool_is_empty \<sigma>) = bytes_of \<sigma>"
  by (simp_all add: pbuf_pool_is_empty_def)

lemma pbuf_inv_pool_empty: "pbuf_inv (pbuf_pool_is_empty \<sigma>) ext = pbuf_inv \<sigma> ext"
  by (simp add: pbuf_inv_def pool_inv_def ref_inv_pbs [of "pbuf_pool_is_empty \<sigma>" \<sigma>])

subsection \<open>Freeing keeps lengths and payloads\<close>

lemma unref_Some: "unref \<sigma> as x = Some b \<Longrightarrow> \<exists>b0. pbs \<sigma> x = Some b0 \<and> pb_next b = pb_next b0 \<and> pb_len b = pb_len b0 \<and>
    pb_tot_len b = pb_tot_len b0 \<and> pb_payload b = pb_payload b0 \<and> pb_type b = pb_type b0"
  by (auto simp: unref_def split: if_splits)

lemma pbuf_inv_next:
  assumes "ref_inv \<sigma> ext" "pbs \<sigma> a = Some b" "pb_next b = Some n"
  shows "n \<in> dom (pbs \<sigma>)"
  using ref_invD(3) [OF assms(1,2)] assms(2,3) by (auto simp: chain_Some)

lemma packet_inv_free:
  assumes l: "\<And>a b. pbs \<sigma> a = Some b \<Longrightarrow> a \<in> dom (pbs \<sigma>') \<Longrightarrow> unat (pb_tot_len b) = unat (pb_len b) + tot_of \<sigma> (pb_next b)"
    and i: "data_inv \<sigma>" and u: "pbs \<sigma>' = unref \<sigma> as" "bytes_of \<sigma>' = bytes_of \<sigma>" and p: "pbuf_inv \<sigma>' ext"
  shows "packet_inv \<sigma>' ext"
proof -
  have "len_inv \<sigma>'" unfolding len_inv_def
  proof (intro allI impI)
    fix a b assume b: "pbs \<sigma>' a = Some b"
    then obtain b0 where b0: "pbs \<sigma> a = Some b0" "pb_next b = pb_next b0" "pb_len b = pb_len b0" "pb_tot_len b = pb_tot_len b0"
      using unref_Some [of \<sigma> as a b] u(1) by auto
    have "tot_of \<sigma>' (pb_next b) = tot_of \<sigma> (pb_next b)"
    proof (cases "pb_next b")
      case (Some n)
      then obtain bn where n: "pbs \<sigma>' n = Some bn" using pbuf_inv_next p b by (fastforce simp: pbuf_inv_def)
      then obtain bn0 where "pbs \<sigma> n = Some bn0" "pb_tot_len bn = pb_tot_len bn0" using unref_Some [of \<sigma> as n bn] u(1) by auto
      then show ?thesis using Some n by simp
    qed simp
    then show "unat (pb_tot_len b) = unat (pb_len b) + tot_of \<sigma>' (pb_next b)" using l [OF b0(1)] b b0 by auto
  qed
  moreover have "data_inv \<sigma>'" unfolding data_inv_def
  proof (intro allI impI)
    fix a b assume b: "pbs \<sigma>' a = Some b"
    then obtain b0 where b0: "pbs \<sigma> a = Some b0" "pb_len b = pb_len b0" "pb_payload b = pb_payload b0" "pb_type b = pb_type b0"
      using unref_Some [of \<sigma> as a b] u(1) by auto
    then show "data_ok \<sigma>' a b" using i u(2) by (simp add: data_inv_def data_ok_def)
  qed
  ultimately show ?thesis using p by (simp add: packet_inv_def)
qed

end
