(* ===== verification/Pbuf_Alloc.thy ===== *)
theory Pbuf_Alloc
  imports Pbuf_Inv
begin

text \<open>
  \<open>pbuf_alloc\<close>: a new chain of the requested length that keeps the invariant, or nothing at all.
\<close>

subsection \<open>The tail of a pool chain\<close>

text \<open>The chain under construction: head \<open>p\<close>, last pbuf \<open>r\<close>, \<open>rem\<close> bytes still to come.\<close>

definition building :: "pmem \<Rightarrow> (paddr \<Rightarrow> nat) \<Rightarrow> paddr \<Rightarrow> paddr list \<Rightarrow> paddr \<Rightarrow> nat \<Rightarrow> bool" where
  "building \<sigma> ext p xs r rem \<longleftrightarrow> pbuf_inv \<sigma> ext \<and> 0 < ext p \<and> chain \<sigma> (Some p) (xs @ [r]) \<and>
     (\<forall>a\<in>set (xs @ [r]). \<exists>b. pbs \<sigma> a = Some b \<and> pb_ref b = 1 \<and> pb_type b = PBUF_POOL) \<and>
     len_pend \<sigma> (Some r) rem \<and> data_inv \<sigma>"

lemma building_last: "building \<sigma> ext p xs r rem \<Longrightarrow> \<exists>b. pbs \<sigma> r = Some b \<and> pb_next b = None \<and> pb_ref b = 1 \<and> pb_type b = PBUF_POOL"
proof -
  assume b: "building \<sigma> ext p xs r rem"
  then obtain br where "pbs \<sigma> r = Some br" "pb_ref br = 1" "pb_type br = PBUF_POOL" by (auto simp: building_def)
  moreover have "chain \<sigma> (Some r) [r]" using b chain_suffix [of \<sigma> "Some p" xs r "[]"] by (simp add: building_def)
  ultimately show ?thesis by simp
qed

lemma ref_of_ones: "(\<And>a. a \<in> set as \<Longrightarrow> \<exists>b. pbs \<sigma> a = Some b \<and> pb_ref b = 1 \<and> pb_type b = PBUF_POOL) \<Longrightarrow>
    freed \<sigma> as = as \<and> of_pool \<sigma> t as = (if t = MEMP_PBUF_POOL then as else [])"
proof
  assume a: "\<And>a. a \<in> set as \<Longrightarrow> \<exists>b. pbs \<sigma> a = Some b \<and> pb_ref b = 1 \<and> pb_type b = PBUF_POOL"
  have "\<forall>a\<in>set as. ref_of \<sigma> a = 1" using a by (fastforce simp: ref_of_def)
  then show "freed \<sigma> as = as" by (simp add: freed_def takeWhile_eq_all_conv)
  have "\<forall>a\<in>set as. map_option (\<lambda>b. pool_of (pb_type b)) (pbs \<sigma> a) = Some MEMP_PBUF_POOL" using a by (fastforce simp: pool_of_def)
  then show "of_pool \<sigma> t as = (if t = MEMP_PBUF_POOL then as else [])" by (auto simp: of_pool_def intro!: filter_True filter_False)
qed

lemma unref_all: "freed \<sigma> as = as \<Longrightarrow> unref \<sigma> as = (\<lambda>x. if x \<in> set as then None else pbs \<sigma> x)"
  by (auto simp: unref_def fun_eq_iff)

text \<open>One more pbuf.\<close>

lemma building_step:
  assumes b: "building \<sigma> ext p xs r rem" and m: "memp_malloc MEMP_PBUF_POOL \<sigma> = (Some q, \<sigma>1)" and r: "pbs \<sigma> r = Some br"
    and l: "l = min rem PBUF_POOL_BUFSIZE" "rem \<le> 65535"
  defines "\<sigma>2 \<equiv> put_pb q (new_pbuf (Some (Own q, 0)) rem l PBUF_POOL)
      (put_pb r (br\<lparr>pb_next := Some q\<rparr>) (new_block q PBUF_POOL_BUFSIZE \<sigma>1))"
  shows "building \<sigma>2 ext p (xs @ [r]) q (rem - l)" "q \<notin> dom (pbs \<sigma>)"
    "pbs \<sigma>2 = (pbs \<sigma>)(r \<mapsto> br\<lparr>pb_next := Some q\<rparr>, q \<mapsto> new_pbuf (Some (Own q, 0)) rem l PBUF_POOL)"
    "mset (memp_tab \<sigma> t) = mset (memp_tab \<sigma>2 t) + (if t = MEMP_PBUF_POOL then {#q#} else {#})"
    "\<And>x. x \<noteq> Own q \<Longrightarrow> bytes_of \<sigma>2 x = bytes_of \<sigma> x"
proof -
  let ?nb = "new_pbuf (Some (Own q, 0)) rem l PBUF_POOL" and ?br = "br\<lparr>pb_next := Some q\<rparr>"
  have i: "ref_inv \<sigma> ext" "pool_inv \<sigma>" and pos: "0 < ext p" and ch: "chain \<sigma> (Some p) (xs @ [r])"
    and len: "len_pend \<sigma> (Some r) rem" and dat: "data_inv \<sigma>" using b by (simp_all add: building_def pbuf_inv_def)
  note mm = memp_malloc_some [OF i(2) m]
  have brn: "pb_next br = None" "pb_ref br = 1" using building_last [OF b] r by auto
  have qr: "q \<noteq> r" using mm(1) r by auto
  have extq: "ext q = 0" using mm(1) i(1) by (auto simp: ref_inv_def)
  show "q \<notin> dom (pbs \<sigma>)" by (rule mm)
  show pbs2: "pbs \<sigma>2 = (pbs \<sigma>)(r \<mapsto> ?br, q \<mapsto> ?nb)" using mm(3) by (simp add: \<sigma>2_def)
  show "mset (memp_tab \<sigma> t) = mset (memp_tab \<sigma>2 t) + (if t = MEMP_PBUF_POOL then {#q#} else {#})" using mm(5) [of t] by (simp add: \<sigma>2_def)
  show by2: "bytes_of \<sigma>2 x = bytes_of \<sigma> x" if "x \<noteq> Own q" for x using that mm(4) by (simp add: \<sigma>2_def)
  let ?s1 = "put_pb q ?nb \<sigma>"
  have r1: "ref_inv ?s1 (ext(q := 1))" by (rule ref_inv_new [OF i(1) mm(1)]) simp_all
  have "ref_inv (put_pb r ?br ?s1) ((ext(q := 1))(q := (ext(q := 1)) q - 1))"
    by (rule ref_inv_link [OF r1, where b = br and ts = "[q]"]) (use r brn qr in auto)
  moreover have "(ext(q := 1))(q := (ext(q := 1)) q - 1) = ext" using extq by auto
  ultimately have ref2: "ref_inv \<sigma>2 ext" using ref_inv_pbs [of \<sigma>2 "put_pb r ?br ?s1" ext] pbs2 qr by (auto simp: fun_upd_twist)
  have pool2: "pool_inv \<sigma>2"
  proof -
    have p: "pool_inv (put_pb q ?nb \<sigma>1)" by (rule mm)
    have dr: "r \<in> dom (pbs \<sigma>1)" using mm(3) r by auto
    have "pbs \<sigma>2 = (pbs (put_pb q ?nb \<sigma>1))(r \<mapsto> ?br)" using mm(3) qr by (simp add: \<sigma>2_def fun_upd_twist)
    moreover have "memp_tab \<sigma>2 = memp_tab (put_pb q ?nb \<sigma>1)" by (simp add: \<sigma>2_def)
    ultimately show ?thesis using p dr by (simp add: pool_inv_def insert_absorb)
  qed
  have chs: "chain ?s1 (Some p) (xs @ [r])"
    by (rule chain_put_other [OF _ ch]) (use chain_dom [OF ch] mm(1) in auto)
  have "chain (put_pb r ?br ?s1) (Some p) (xs @ r # [q])"
    by (rule chain_append [OF chs, where b = br and t = q]) (use r qr in auto)
  then have ch2: "chain \<sigma>2 (Some p) ((xs @ [r]) @ [q])"
    using chain_pbs [of \<sigma>2 "put_pb r ?br ?s1"] pbs2 qr by (auto simp: fun_upd_twist)
  have lw: "unat (of_nat l :: 16 word) = l" "unat (of_nat rem :: 16 word) = rem" using l by (simp_all add: unat_of_nat)
  have len2: "len_pend \<sigma>2 (Some q) (rem - l)" unfolding len_pend_def
  proof (intro allI impI)
    fix a ba assume a: "pbs \<sigma>2 a = Some ba"
    consider "a = q" | "a = r" "a \<noteq> q" | "a \<noteq> r" "a \<noteq> q" by blast
    then show "unat (pb_tot_len ba) = unat (pb_len ba) + (if Some q = Some a then rem - l else tot_of \<sigma>2 (pb_next ba))"
    proof cases
      case 1
      then have "ba = ?nb" using a pbs2 by simp
      then show ?thesis using 1 lw l(1) by simp
    next
      case 2
      then have ba: "ba = ?br" using a pbs2 by simp
      have "unat (pb_tot_len br) = unat (pb_len br) + rem" using len r by (simp add: len_pend_def)
      then show ?thesis using 2 ba pbs2 lw by simp
    next
      case 3
      then have ba: "pbs \<sigma> a = Some ba" using a pbs2 by simp
      have "tot_of \<sigma>2 (pb_next ba) = tot_of \<sigma> (pb_next ba)"
      proof (cases "pb_next ba")
        case (Some n)
        then have "n \<noteq> q" using pbuf_inv_next [OF i(1) ba Some] mm(1) by auto
        then show ?thesis using Some pbs2 r by (simp add: tot_of_def)
      qed simp
      then show ?thesis using len ba 3 by (simp add: len_pend_def)
    qed
  qed
  have dat2: "data_inv \<sigma>2" unfolding data_inv_def
  proof (intro allI impI)
    fix a ba assume a: "pbs \<sigma>2 a = Some ba"
    show "data_ok \<sigma>2 a ba"
    proof (cases "a = q")
      case True
      then have "ba = ?nb" using a pbs2 by simp
      then show ?thesis using True lw l(1) by (simp add: data_ok_def \<sigma>2_def)
    next
      case False
      then have "\<exists>b0. pbs \<sigma> a = Some b0 \<and> pb_type ba = pb_type b0 \<and> pb_payload ba = pb_payload b0 \<and> pb_len ba = pb_len b0"
        using a pbs2 r by (cases "a = r") auto
      then show ?thesis using dat False by2 [of "Own a"] by (auto simp: data_inv_def data_ok_def)
    qed
  qed
  have "\<forall>a\<in>set ((xs @ [r]) @ [q]). \<exists>b. pbs \<sigma>2 a = Some b \<and> pb_ref b = 1 \<and> pb_type b = PBUF_POOL"
    using b r pbs2 by (auto simp: building_def)
  then show "building \<sigma>2 ext p (xs @ [r]) q (rem - l)"
    using ref2 pool2 pos ch2 len2 dat2 by (simp add: building_def pbuf_inv_def)
qed

text \<open>Either the whole tail, or the chain so far is back in the pool.\<close>

definition untouched :: "pmem \<Rightarrow> pmem \<Rightarrow> paddr set \<Rightarrow> bool" where
  "untouched \<sigma> \<sigma>' D \<longleftrightarrow> (\<forall>x\<in>D. pbs \<sigma>' x = pbs \<sigma> x \<and> bytes_of \<sigma>' (Own x) = bytes_of \<sigma> (Own x)) \<and> (\<forall>n. bytes_of \<sigma>' (Ext n) = bytes_of \<sigma> (Ext n))"

lemma untouched_trans: "untouched \<sigma> \<rho> D \<Longrightarrow> untouched \<rho> \<tau> D \<Longrightarrow> untouched \<sigma> \<tau> D"
  by (simp add: untouched_def)

lemma building_free:
  assumes b: "building \<sigma> ext p xs r rem"
  shows "\<exists>n \<sigma>'. pbuf_free (Some p) \<sigma> = Some (n, \<sigma>') \<and> packet_inv \<sigma>' (ext(p := ext p - 1)) \<and>
    pbs \<sigma>' = (\<lambda>x. if x \<in> set (xs @ [r]) then None else pbs \<sigma> x) \<and> bytes_of \<sigma>' = bytes_of \<sigma> \<and>
    (\<forall>t. mset (memp_tab \<sigma>' t) = mset (memp_tab \<sigma> t) + (if t = MEMP_PBUF_POOL then mset (xs @ [r]) else {#}))"
proof -
  let ?as = "xs @ [r]"
  have i: "pbuf_inv \<sigma> ext" "0 < ext p" "chain \<sigma> (Some p) ?as" using b by (simp_all add: building_def)
  have "\<exists>b. pbs \<sigma> a = Some b \<and> pb_ref b = 1 \<and> pb_type b = PBUF_POOL" if "a \<in> set ?as" for a
    using b that unfolding building_def by blast
  from ref_of_ones [of ?as \<sigma>, OF this]
  have f: "freed \<sigma> ?as = ?as" "of_pool \<sigma> t ?as = (if t = MEMP_PBUF_POOL then ?as else [])" for t by blast+
  note u = unref_all [OF f(1)]
  obtain \<sigma>' where s: "pbuf_free (Some p) \<sigma> = Some (of_nat (length ?as), \<sigma>')" "pbuf_inv \<sigma>' (ext(p := ext p - 1))"
    "pbs \<sigma>' = unref \<sigma> ?as" "bytes_of \<sigma>' = bytes_of \<sigma>"
    "\<forall>t. mset (memp_tab \<sigma>' t) = mset (of_pool \<sigma> t ?as) + mset (memp_tab \<sigma> t)"
    using pbuf_free_ok [OF i] unfolding f(1) by blast
  have "packet_inv \<sigma>' (ext(p := ext p - 1))"
  proof (rule packet_inv_free [OF _ _ s(3,4,2)])
    show "data_inv \<sigma>" using b by (simp add: building_def)
    fix a ba assume a: "pbs \<sigma> a = Some ba" "a \<in> dom (pbs \<sigma>')"
    then have "a \<noteq> r" using s(3) u by auto
    then show "unat (pb_tot_len ba) = unat (pb_len ba) + tot_of \<sigma> (pb_next ba)" using b a(1) by (simp add: building_def len_pend_def)
  qed
  moreover have "mset (memp_tab \<sigma>' t) = mset (memp_tab \<sigma> t) + (if t = MEMP_PBUF_POOL then mset ?as else {#})" for t
    using s(5) f(2) [of t] by simp
  moreover have "pbs \<sigma>' = (\<lambda>x. if x \<in> set ?as then None else pbs \<sigma> x)" using s(3) u by simp
  ultimately show ?thesis using s(1,4) by blast
qed

lemma building_pool_empty: "building (pbuf_pool_is_empty \<sigma>) ext p xs r rem = building \<sigma> ext p xs r rem"
  by (simp add: building_def pbuf_inv_pool_empty chain_pbs [of "pbuf_pool_is_empty \<sigma>" \<sigma>] len_pend_pbs [of "pbuf_pool_is_empty \<sigma>" \<sigma>] data_inv_def data_ok_def)

lemma alloc_tail_ok:
  assumes "building \<sigma> ext p xs r rem" "rem < 65535" "D \<subseteq> dom (pbs \<sigma>)" "D \<inter> set (xs @ [r]) = {}"
  shows "\<exists>res \<sigma>'. alloc_tail p r rem \<sigma> = Some (res, \<sigma>') \<and> untouched \<sigma> \<sigma>' D \<and>
    (case res of
       None \<Rightarrow> packet_inv \<sigma>' (ext(p := ext p - 1)) \<and> pbs \<sigma>' = (\<lambda>x. if x \<in> set (xs @ [r]) then None else pbs \<sigma> x) \<and>
         (\<forall>t. mset (memp_tab \<sigma>' t) = mset (memp_tab \<sigma> t) + (if t = MEMP_PBUF_POOL then mset (xs @ [r]) else {#}))
     | Some q \<Rightarrow> q = p \<and> packet_inv \<sigma>' ext \<and>
         (\<exists>b b'. pbs \<sigma> p = Some b \<and> pbs \<sigma>' p = Some b' \<and> pb_tot_len b' = pb_tot_len b \<and> pb_payload b' = pb_payload b \<and> pb_len b' = pb_len b))"
  using assms
proof (induction rem arbitrary: \<sigma> xs r rule: less_induct)
  case (less rem)
  obtain br where r: "pbs \<sigma> r = Some br" "pb_next br = None" using building_last [OF less.prems(1)] by blast
  obtain bp where bp: "pbs \<sigma> p = Some bp" using less.prems(1) by (cases xs; cases "pbs \<sigma> p") (auto simp: building_def)
  show ?case
  proof (cases "rem = 0")
    case True
    have "len_inv \<sigma>" unfolding len_inv_def
    proof (intro allI impI)
      fix a b assume "pbs \<sigma> a = Some b"
      then show "unat (pb_tot_len b) = unat (pb_len b) + tot_of \<sigma> (pb_next b)"
        using less.prems(1) True r by (cases "a = r") (auto simp: building_def len_pend_def)
    qed
    then show ?thesis using True less.prems(1) bp
      by (subst alloc_tail.simps) (auto simp: building_def packet_inv_def untouched_def)
  next
    case False
    obtain q \<sigma>1 where m: "memp_malloc MEMP_PBUF_POOL \<sigma> = (q, \<sigma>1)" by fastforce
    show ?thesis
    proof (cases q)
      case None
      have e: "\<sigma>1 = \<sigma>" using m None memp_malloc_none by simp
      obtain n \<sigma>' where f: "pbuf_free (Some p) (pbuf_pool_is_empty \<sigma>) = Some (n, \<sigma>')" "packet_inv \<sigma>' (ext(p := ext p - 1))"
        "pbs \<sigma>' = (\<lambda>x. if x \<in> set (xs @ [r]) then None else pbs \<sigma> x)" "bytes_of \<sigma>' = bytes_of \<sigma>"
        "\<forall>t. mset (memp_tab \<sigma>' t) = mset (memp_tab \<sigma> t) + (if t = MEMP_PBUF_POOL then mset (xs @ [r]) else {#})"
        using building_free [of "pbuf_pool_is_empty \<sigma>" ext p xs r rem] less.prems(1)
        unfolding building_pool_empty pool_empty_simps by blast
      have "untouched \<sigma> \<sigma>' D" using f(3,4) less.prems(4) by (auto simp: untouched_def)
      then show ?thesis using f False m None e by (subst alloc_tail.simps) auto
    next
      case (Some q')
      define l where "l = min rem PBUF_POOL_BUFSIZE"
      define \<sigma>2 where "\<sigma>2 = put_pb q' (new_pbuf (Some (Own q', 0)) rem l PBUF_POOL)
        (put_pb r (br\<lparr>pb_next := Some q'\<rparr>) (new_block q' PBUF_POOL_BUFSIZE \<sigma>1))"
      note st = building_step [OF less.prems(1) m [unfolded Some] r(1) l_def, folded \<sigma>2_def]
      have rem: "rem \<le> 65535" using less.prems(2) by simp
      note st = st [OF rem]
      have lt: "rem - l < rem" using False by (simp add: l_def PBUF_POOL_BUFSIZE_def TCP_MSS_def)
      have D: "D \<subseteq> dom (pbs \<sigma>2)" "D \<inter> set ((xs @ [r]) @ [q']) = {}" using less.prems(3,4) st(2,3) by auto
      have unt: "untouched \<sigma> \<sigma>2 D"
        using st(2,3,5) less.prems(3,4) by (auto simp: untouched_def subset_iff)
      have bp2: "\<exists>b. pbs \<sigma>2 p = Some b \<and> pb_tot_len b = pb_tot_len bp \<and> pb_payload b = pb_payload bp \<and> pb_len b = pb_len bp"
        using st(2,3) bp r by (cases "p = r") auto
      have lt2: "rem - l < 65535" using less.prems(2) by simp
      from less.IH [OF lt st(1) lt2 D] obtain res \<sigma>'
        where res: "alloc_tail p q' (rem - l) \<sigma>2 = Some (res, \<sigma>')" "untouched \<sigma>2 \<sigma>' D"
        and c: "case res of
           None \<Rightarrow> packet_inv \<sigma>' (ext(p := ext p - 1)) \<and> pbs \<sigma>' = (\<lambda>x. if x \<in> set ((xs @ [r]) @ [q']) then None else pbs \<sigma>2 x) \<and>
             (\<forall>t. mset (memp_tab \<sigma>' t) = mset (memp_tab \<sigma>2 t) + (if t = MEMP_PBUF_POOL then mset ((xs @ [r]) @ [q']) else {#}))
         | Some q \<Rightarrow> q = p \<and> packet_inv \<sigma>' ext \<and>
             (\<exists>b b'. pbs \<sigma>2 p = Some b \<and> pbs \<sigma>' p = Some b' \<and> pb_tot_len b' = pb_tot_len b \<and> pb_payload b' = pb_payload b \<and> pb_len b' = pb_len b)"
        by (elim exE conjE) (rule that)
      have run: "alloc_tail p r rem \<sigma> = Some (res, \<sigma>')"
        using res(1) False m Some r memp_malloc_some(3) [of \<sigma> MEMP_PBUF_POOL q' \<sigma>1] less.prems(1,2)
        by (subst alloc_tail.simps) (simp add: guard_def Let_def l_def \<sigma>2_def building_def pbuf_inv_def)
      have u: "untouched \<sigma> \<sigma>' D" using unt res(2) by (rule untouched_trans)
      show ?thesis
      proof (cases res)
        case None
        have "pbs \<sigma>' = (\<lambda>x. if x \<in> set (xs @ [r]) then None else pbs \<sigma> x)"
          using c None st(2,3) by (auto simp: fun_eq_iff)
        moreover have "mset (memp_tab \<sigma>' t) = mset (memp_tab \<sigma> t) + (if t = MEMP_PBUF_POOL then mset (xs @ [r]) else {#})" for t
          using c None st(4) [of t] by simp
        ultimately show ?thesis using run u c None by auto
      next
        case (Some q0)
        then show ?thesis using run u c bp bp2 by auto
      qed
    qed
  qed
qed

subsection \<open>\<open>pbuf_alloc\<close>\<close>

lemma alloc_head:
  assumes i: "packet_inv \<sigma> ext" and m: "memp_malloc t \<sigma> = (Some p, \<sigma>1)"
    and b: "pb_next b = None" "pb_ref b = 1" "unat (pb_tot_len b) = unat (pb_len b) + rem"
    and \<sigma>2: "pbs \<sigma>2 = (pbs \<sigma>)(p \<mapsto> b)" "memp_tab \<sigma>2 = memp_tab \<sigma>1" "\<And>x. x \<noteq> Own p \<Longrightarrow> bytes_of \<sigma>2 x = bytes_of \<sigma> x"
    and d: "data_ok \<sigma>2 p b"
  shows "pbuf_inv \<sigma>2 (ext(p := 1))" "len_pend \<sigma>2 (Some p) rem" "data_inv \<sigma>2" "untouched \<sigma> \<sigma>2 (dom (pbs \<sigma>))" "p \<notin> dom (pbs \<sigma>)"
proof -
  have inv: "ref_inv \<sigma> ext" "pool_inv \<sigma>" "len_inv \<sigma>" "data_inv \<sigma>" using i by (simp_all add: packet_inv_def pbuf_inv_def)
  note mm = memp_malloc_some [OF inv(2) m]
  show new: "p \<notin> dom (pbs \<sigma>)" by (rule mm)
  have "ref_inv (put_pb p b \<sigma>) (ext(p := 1))" by (rule ref_inv_new [OF inv(1) mm(1) b(1,2)])
  then have "ref_inv \<sigma>2 (ext(p := 1))" using ref_inv_pbs [of \<sigma>2 "put_pb p b \<sigma>"] \<sigma>2(1) by simp
  moreover have "pool_inv \<sigma>2" using mm(2) [of b] \<sigma>2(1,2) mm(3) by (simp add: pool_inv_def)
  ultimately show "pbuf_inv \<sigma>2 (ext(p := 1))" by (simp add: pbuf_inv_def)
  show "untouched \<sigma> \<sigma>2 (dom (pbs \<sigma>))" using \<sigma>2(1,3) new by (auto simp: untouched_def)
  show "len_pend \<sigma>2 (Some p) rem" unfolding len_pend_def
  proof (intro allI impI)
    fix a ba assume a: "pbs \<sigma>2 a = Some ba"
    show "unat (pb_tot_len ba) = unat (pb_len ba) + (if Some p = Some a then rem else tot_of \<sigma>2 (pb_next ba))"
    proof (cases "a = p")
      case True
      then show ?thesis using a b(3) \<sigma>2(1) by simp
    next
      case False
      then have ba: "pbs \<sigma> a = Some ba" using a \<sigma>2(1) by simp
      have "tot_of \<sigma>2 (pb_next ba) = tot_of \<sigma> (pb_next ba)"
      proof (cases "pb_next ba")
        case (Some n)
        then have "n \<noteq> p" using pbuf_inv_next [OF inv(1) ba Some] new by auto
        then show ?thesis using Some \<sigma>2(1) by (simp add: tot_of_def)
      qed simp
      then show ?thesis using inv(3) ba False by (simp add: len_inv_def)
    qed
  qed
  show "data_inv \<sigma>2" unfolding data_inv_def
  proof (intro allI impI)
    fix a ba assume a: "pbs \<sigma>2 a = Some ba"
    show "data_ok \<sigma>2 a ba"
    proof (cases "a = p")
      case True
      then show ?thesis using a d \<sigma>2(1) by simp
    next
      case False
      then show ?thesis using a inv(4) \<sigma>2(1) \<sigma>2(3) [of "Own a"] by (simp add: data_inv_def data_ok_def)
    qed
  qed
qed

lemma len_pend_0: "len_pend \<sigma> (Some p) 0 \<Longrightarrow> pbs \<sigma> p = Some b \<Longrightarrow> pb_next b = None \<Longrightarrow> len_inv \<sigma>"
  unfolding len_inv_def
proof (intro allI impI)
  fix a ba assume l: "len_pend \<sigma> (Some p) 0" and p: "pbs \<sigma> p = Some b" "pb_next b = None" and a: "pbs \<sigma> a = Some ba"
  have "unat (pb_tot_len ba) = unat (pb_len ba) + (if Some p = Some a then 0 else tot_of \<sigma> (pb_next ba))"
    using l a unfolding len_pend_def by blast
  then show "unat (pb_tot_len ba) = unat (pb_len ba) + tot_of \<sigma> (pb_next ba)" using p a by (cases "a = p") simp_all
qed

definition alloc_result :: "pmem \<Rightarrow> (paddr \<Rightarrow> nat) \<Rightarrow> pbuf_layer \<Rightarrow> 16 word \<Rightarrow> pbuf_type \<Rightarrow> paddr option \<Rightarrow> pmem \<Rightarrow> bool" where
  "alloc_result \<sigma> ext layer n ty res \<sigma>' \<longleftrightarrow> untouched \<sigma> \<sigma>' (dom (pbs \<sigma>)) \<and>
    (case res of
       None \<Rightarrow> packet_inv \<sigma>' ext \<and> pbs \<sigma>' = pbs \<sigma> \<and> (\<forall>t. mset (memp_tab \<sigma>' t) = mset (memp_tab \<sigma> t))
     | Some p \<Rightarrow> p \<notin> dom (pbs \<sigma>) \<and> packet_inv \<sigma>' (ext(p := 1)) \<and> tot_of \<sigma>' (Some p) = unat n \<and>
         (\<exists>b. pbs \<sigma>' p = Some b \<and> (ty = PBUF_RAM \<longrightarrow> pb_len b = n \<and> pb_next b = None) \<and>
            (ty = PBUF_RAM \<or> ty = PBUF_POOL \<longrightarrow> pb_payload b = Some (Own p, int (header_offset layer)))))"

lemma pool_room: "header_offset layer < PBUF_POOL_BUFSIZE"
  by (cases layer) (simp_all add: header_offset_def PBUF_POOL_BUFSIZE_def PBUF_TRANSPORT_HLEN_def PBUF_IP_HLEN_def PBUF_LINK_HLEN_def TCP_MSS_def)

lemma alloc_pool_ok:
  assumes i: "packet_inv \<sigma> ext" and m: "memp_malloc MEMP_PBUF_POOL \<sigma> = (Some p, \<sigma>1)"
  shows "\<exists>res \<sigma>'. pbuf_alloc layer n PBUF_POOL \<sigma> = Some (res, \<sigma>') \<and> alloc_result \<sigma> ext layer n PBUF_POOL res \<sigma>'"
proof -
  define off where "off = header_offset layer"
  define l where "l = min (unat n) (PBUF_POOL_BUFSIZE - off)"
  let ?b = "new_pbuf (Some (Own p, int off)) (unat n) l PBUF_POOL"
  define \<sigma>2 where "\<sigma>2 = put_pb p ?b (new_block p PBUF_POOL_BUFSIZE \<sigma>1)"
  have pool: "pool_inv \<sigma>" using i by (simp add: packet_inv_def pbuf_inv_def)
  note mm = memp_malloc_some [OF pool m]
  have room: "off < PBUF_POOL_BUFSIZE" using pool_room by (simp add: off_def)
  have nlt: "unat n < 65536" using unsigned_less [of n] by simp
  have "l \<le> unat n" by (simp add: l_def)
  then have lw: "unat (of_nat l :: 16 word) = l" "l \<le> unat n" using nlt by (simp_all add: unat_of_nat)
  have s2: "pbs \<sigma>2 = (pbs \<sigma>)(p \<mapsto> ?b)" "memp_tab \<sigma>2 = memp_tab \<sigma>1" "\<And>x. x \<noteq> Own p \<Longrightarrow> bytes_of \<sigma>2 x = bytes_of \<sigma> x"
    using mm(3,4) by (simp_all add: \<sigma>2_def)
  have d: "data_ok \<sigma>2 p ?b" using room lw by (simp add: data_ok_def \<sigma>2_def l_def)
  note h = alloc_head [OF i m, of ?b "unat n - l" \<sigma>2, OF _ _ _ s2 d]
  have h: "pbuf_inv \<sigma>2 (ext(p := 1))" "len_pend \<sigma>2 (Some p) (unat n - l)" "data_inv \<sigma>2" "untouched \<sigma> \<sigma>2 (dom (pbs \<sigma>))" "p \<notin> dom (pbs \<sigma>)"
    using h lw by simp_all
  have bld: "building \<sigma>2 (ext(p := 1)) p [] p (unat n - l)" unfolding building_def using h s2(1) by simp
  have rem: "unat n - l < 65535" using room nlt by (simp add: l_def)
  have dom: "dom (pbs \<sigma>) \<subseteq> dom (pbs \<sigma>2)" "dom (pbs \<sigma>) \<inter> set ([] @ [p]) = {}" using h(5) s2(1) by auto
  have run: "pbuf_alloc layer n PBUF_POOL \<sigma> = alloc_tail p p (unat n - l) \<sigma>2"
    using m by (simp add: pbuf_alloc_def pool_of_def Let_def off_def l_def \<sigma>2_def)
  obtain res \<sigma>' where r: "alloc_tail p p (unat n - l) \<sigma>2 = Some (res, \<sigma>')" "untouched \<sigma>2 \<sigma>' (dom (pbs \<sigma>))"
    and c: "case res of
       None \<Rightarrow> packet_inv \<sigma>' ((ext(p := 1))(p := (ext(p := 1)) p - 1)) \<and> pbs \<sigma>' = (\<lambda>x. if x \<in> set ([] @ [p]) then None else pbs \<sigma>2 x) \<and>
         (\<forall>t. mset (memp_tab \<sigma>' t) = mset (memp_tab \<sigma>2 t) + (if t = MEMP_PBUF_POOL then mset ([] @ [p]) else {#}))
     | Some q \<Rightarrow> q = p \<and> packet_inv \<sigma>' (ext(p := 1)) \<and>
         (\<exists>b b'. pbs \<sigma>2 p = Some b \<and> pbs \<sigma>' p = Some b' \<and> pb_tot_len b' = pb_tot_len b \<and> pb_payload b' = pb_payload b \<and> pb_len b' = pb_len b)"
    using alloc_tail_ok [OF bld rem dom] by (elim exE conjE) (rule that)
  have ext0: "ext p = 0" using i h(5) by (auto simp: packet_inv_def pbuf_inv_def ref_inv_def)
  have unt: "untouched \<sigma> \<sigma>' (dom (pbs \<sigma>))" using h(4) r(2) by (rule untouched_trans)
  have "alloc_result \<sigma> ext layer n PBUF_POOL res \<sigma>'"
  proof (cases res)
    case None
    have "pbs \<sigma> p = None" using h(5) by auto
    then have "pbs \<sigma>' = pbs \<sigma>" using c None s2(1) by (auto simp: fun_eq_iff)
    moreover have "packet_inv \<sigma>' ext"
    proof -
      have "(ext(p := 1))(p := (ext(p := 1)) p - 1) = ext" using ext0 by auto
      then show ?thesis using c None by simp
    qed
    moreover have "mset (memp_tab \<sigma>' t) = mset (memp_tab \<sigma> t)" for t using c None mm(5) [of t] s2(2) by simp
    ultimately show ?thesis using unt None by (simp add: alloc_result_def)
  next
    case (Some q)
    then show ?thesis using unt c s2(1) h(5) by (auto simp: alloc_result_def off_def)
  qed
  then show ?thesis using run r(1) by auto
qed

lemma alloc_single_ok:
  assumes i: "packet_inv \<sigma> ext" and m: "memp_malloc (pool_of ty) \<sigma> = (Some p, \<sigma>1)" and ty: "ty \<noteq> PBUF_POOL"
  shows "\<exists>res \<sigma>'. pbuf_alloc layer n ty \<sigma> = Some (res, \<sigma>') \<and> alloc_result \<sigma> ext layer n ty res \<sigma>'"
proof -
  define off where "off = header_offset layer"
  define b where "b = (if ty = PBUF_RAM then new_pbuf (Some (Own p, int off)) (unat n) (unat n) ty else new_pbuf None (unat n) (unat n) ty)"
  define \<sigma>2 where "\<sigma>2 = (if ty = PBUF_RAM then put_pb p b (new_block p (off + unat n) \<sigma>1) else put_pb p b \<sigma>1)"
  have pool: "pool_inv \<sigma>" using i by (simp add: packet_inv_def pbuf_inv_def)
  note mm = memp_malloc_some [OF pool m]
  have s2: "pbs \<sigma>2 = (pbs \<sigma>)(p \<mapsto> b)" "memp_tab \<sigma>2 = memp_tab \<sigma>1" "\<And>x. x \<noteq> Own p \<Longrightarrow> bytes_of \<sigma>2 x = bytes_of \<sigma> x"
    using mm(3,4) by (simp_all add: \<sigma>2_def)
  have b: "pb_next b = None" "pb_ref b = 1" "unat (pb_tot_len b) = unat (pb_len b) + 0" "pb_len b = n" "pb_tot_len b = n" "pb_type b = ty"
    by (simp_all add: b_def)
  have d: "data_ok \<sigma>2 p b" using ty by (simp add: data_ok_def b(4,6)) (simp add: \<sigma>2_def b_def)
  note h = alloc_head [OF i m b(1-3) s2 d]
  have len: "len_inv \<sigma>2" by (rule len_pend_0 [OF h(2)]) (use s2(1) b(1) in auto)
  have "pbuf_alloc layer n ty \<sigma> = Some (Some p, \<sigma>2)"
    using m ty by (cases ty) (simp_all add: pbuf_alloc_def Let_def b_def \<sigma>2_def off_def)
  moreover have "alloc_result \<sigma> ext layer n ty (Some p) \<sigma>2"
  proof -
    have "packet_inv \<sigma>2 (ext(p := 1))" using h(1,3) len by (simp add: packet_inv_def)
    moreover have "pbs \<sigma>2 p = Some b" "tot_of \<sigma>2 (Some p) = unat n" using s2(1) b(5) by simp_all
    moreover have "ty = PBUF_RAM \<longrightarrow> pb_payload b = Some (Own p, int off)" by (simp add: b_def)
    ultimately show ?thesis unfolding alloc_result_def using h(4,5) b(1,4) ty by (simp add: off_def)
  qed
  ultimately show ?thesis by blast
qed

lemma pbuf_alloc_ok:
  assumes i: "packet_inv \<sigma> ext"
  shows "\<exists>res \<sigma>'. pbuf_alloc layer n ty \<sigma> = Some (res, \<sigma>') \<and> alloc_result \<sigma> ext layer n ty res \<sigma>'"
proof -
  obtain p \<sigma>1 where m: "memp_malloc (pool_of ty) \<sigma> = (p, \<sigma>1)" by fastforce
  show ?thesis
  proof (cases p)
    case None
    let ?s = "if ty = PBUF_POOL then pbuf_pool_is_empty \<sigma> else \<sigma>"
    have e: "\<sigma>1 = \<sigma>" using m None memp_malloc_none by simp
    have "pbuf_alloc layer n ty \<sigma> = Some (None, ?s)" using m None e by (simp add: pbuf_alloc_def Let_def)
    moreover have "alloc_result \<sigma> ext layer n ty None ?s"
      using i by (auto simp: alloc_result_def untouched_def packet_inv_def pbuf_inv_pool_empty data_inv_def data_ok_def len_inv_def
          tot_of_pbs [of "pbuf_pool_is_empty \<sigma>" \<sigma>])
    ultimately show ?thesis by blast
  next
    case (Some a)
    then show ?thesis using alloc_pool_ok [OF i, of a \<sigma>1] alloc_single_ok [OF i, of ty a \<sigma>1] m
      by (cases "ty = PBUF_POOL") (simp_all add: pool_of_def)
  qed
qed

end
