(* ===== verification/Pbuf_Chain.thy ===== *)
theory Pbuf_Chain
  imports Pbuf_Alloc
begin

text \<open>
  The operations that link and unlink chains: \<open>pbuf_cat\<close>, \<open>pbuf_chain\<close>, \<open>pbuf_dechain\<close>, \<open>pbuf_realloc\<close>,
  and \<open>pbuf_header\<close>, with what they do to the contents.
\<close>

subsection \<open>Contents\<close>

definition pdata :: "pmem \<Rightarrow> paddr \<Rightarrow> 8 word list" where
  "pdata \<sigma> a = (case pbs \<sigma> a of None \<Rightarrow> [] | Some b \<Rightarrow>
     (case pb_payload b of None \<Rightarrow> [] | Some (blk, off) \<Rightarrow> take (unat (pb_len b)) (drop (nat off) (bytes_of \<sigma> blk))))"

definition content :: "pmem \<Rightarrow> paddr list \<Rightarrow> 8 word list" where
  "content \<sigma> as = concat (map (pdata \<sigma>) as)"

definition readable :: "pmem \<Rightarrow> paddr list \<Rightarrow> bool" where
  "readable \<sigma> as \<longleftrightarrow> (\<forall>a\<in>set as. \<exists>b. pbs \<sigma> a = Some b \<and> in_block (pb_payload b) 0 (unat (pb_len b)) \<sigma>)"

lemma content_simps [simp]: "content \<sigma> [] = []" "content \<sigma> (a # as) = pdata \<sigma> a @ content \<sigma> as" "content \<sigma> (xs @ ys) = content \<sigma> xs @ content \<sigma> ys"
  by (simp_all add: content_def)

lemma pdata_cong:
  assumes "map_option (\<lambda>b. (pb_payload b, pb_len b)) (pbs \<sigma>' a) = map_option (\<lambda>b. (pb_payload b, pb_len b)) (pbs \<sigma> a)" "bytes_of \<sigma>' = bytes_of \<sigma>"
  shows "pdata \<sigma>' a = pdata \<sigma> a"
  using assms by (cases "pbs \<sigma> a"; cases "pbs \<sigma>' a") (auto simp: pdata_def split: option.splits)

lemma length_pdata: "pbs \<sigma> a = Some b \<Longrightarrow> in_block (pb_payload b) 0 (unat (pb_len b)) \<sigma> \<Longrightarrow> length (pdata \<sigma> a) = unat (pb_len b)"
  by (auto simp: pdata_def in_block_def split: option.splits)

lemma length_content: "readable \<sigma> as \<Longrightarrow> length (content \<sigma> as) = sum_list (map (plen \<sigma>) as)"
  by (induction as) (auto simp: readable_def plen_def length_pdata)

subsection \<open>Changes that leave links and counts alone\<close>

lemma ref_inv_cong:
  assumes "\<And>x. map_option (\<lambda>b. (pb_next b, pb_ref b)) (pbs \<sigma>' x) = map_option (\<lambda>b. (pb_next b, pb_ref b)) (pbs \<sigma> x)"
  shows "ref_inv \<sigma>' ext = ref_inv \<sigma> ext"
proof -
  have dom: "pbs \<sigma>' x = None \<longleftrightarrow> pbs \<sigma> x = None" for x using assms [of x] by auto
  have d: "dom (pbs \<sigma>') = dom (pbs \<sigma>)" using dom by (auto simp: dom_def)
  have n: "map_option pb_next (pbs \<sigma>' x) = map_option pb_next (pbs \<sigma> x)" "map_option pb_ref (pbs \<sigma>' x) = map_option pb_ref (pbs \<sigma> x)" for x
    using assms [of x] by (cases "pbs \<sigma> x"; cases "pbs \<sigma>' x"; auto)+
  have c: "chain \<sigma>' p as = chain \<sigma> p as" for p as by (rule chain_cong) (rule n)
  have p: "preds \<sigma>' a = preds \<sigma> a" for a
  proof -
    have "(\<exists>b. pbs \<sigma>' c = Some b \<and> pb_next b = Some a) \<longleftrightarrow> (\<exists>b. pbs \<sigma> c = Some b \<and> pb_next b = Some a)" for c
      using n(1) [of c] by (cases "pbs \<sigma> c"; cases "pbs \<sigma>' c") auto
    then show ?thesis by (simp add: preds_def)
  qed
  have one: "(\<forall>b. pbs \<sigma>' a = Some b \<longrightarrow> F (pb_ref b)) \<longleftrightarrow> (\<forall>b. pbs \<sigma> a = Some b \<longrightarrow> F (pb_ref b))" for a and F :: "16 word \<Rightarrow> bool"
    using n(2) [of a] by (cases "pbs \<sigma> a"; cases "pbs \<sigma>' a") auto
  show ?thesis unfolding ref_inv_def d c p
    using one [of _ "\<lambda>r. 0 < unat r \<and> unat r = ext _ + card (preds \<sigma> _) \<and> (\<exists>as. chain \<sigma> (Some _) as)"] by meson
qed

lemma pool_inv_cong: "dom (pbs \<sigma>') = dom (pbs \<sigma>) \<Longrightarrow> memp_tab \<sigma>' = memp_tab \<sigma> \<Longrightarrow> pool_inv \<sigma>' = pool_inv \<sigma>"
  by (simp add: pool_inv_def)

text \<open>No pointer from outside into the chain: what the note \<open>MAY NOT be called on a packet queue\<close> is about.\<close>

definition isolated :: "pmem \<Rightarrow> paddr list \<Rightarrow> bool" where
  "isolated \<sigma> as \<longleftrightarrow> (\<forall>x\<in>set as. preds \<sigma> x \<subseteq> set as)"

subsection \<open>\<open>pbuf_cat\<close> and \<open>pbuf_chain\<close>\<close>

definition add_tot :: "16 word \<Rightarrow> pbuf \<Rightarrow> pbuf" where
  "add_tot n b = b\<lparr>pb_tot_len := pb_tot_len b + n\<rparr>"

lemma add_tot_simps [simp]:
  "pb_next (add_tot n b) = pb_next b" "pb_ref (add_tot n b) = pb_ref b" "pb_len (add_tot n b) = pb_len b"
  "pb_payload (add_tot n b) = pb_payload b" "pb_type (add_tot n b) = pb_type b" "pb_tot_len (add_tot n b) = pb_tot_len b + n"
  by (simp_all add: add_tot_def)

lemma cat_loop_ok:
  assumes "chain \<sigma> (Some p) (xs @ [r])" "pbs \<sigma> t = Some bt" "t \<notin> set xs"
  shows "\<exists>\<sigma>'. cat_loop p t \<sigma> = Some (r, \<sigma>') \<and> memp_tab \<sigma>' = memp_tab \<sigma> \<and> bytes_of \<sigma>' = bytes_of \<sigma> \<and>
    pbs \<sigma>' = (\<lambda>x. if x \<in> set xs then map_option (add_tot (pb_tot_len bt)) (pbs \<sigma> x) else pbs \<sigma> x)"
  using assms
proof (induction xs arbitrary: p \<sigma>)
  case Nil
  then obtain b where "p = r" "pbs \<sigma> r = Some b" "pb_next b = None" by (cases "pbs \<sigma> r") auto
  then show ?case by (subst cat_loop.simps) simp
next
  case (Cons x xs)
  then obtain b :: pbuf where b: "p = x" "pbs \<sigma> x = Some b" "chain \<sigma> (pb_next b) (xs @ [r])" by (cases "pbs \<sigma> x") auto
  obtain n where n: "pb_next b = Some n" using b(3) by (cases "pb_next b") auto
  let ?s = "put_pb x (add_tot (pb_tot_len bt) b) \<sigma>"
  have dist: "x \<notin> set (xs @ [r])" using chain_distinct [OF Cons.prems(1)] by simp
  have "chain ?s (Some n) (xs @ [r])" using chain_put_other [OF dist b(3)] n by simp
  moreover have "pbs ?s t = Some bt" "t \<notin> set xs" using Cons.prems(2,3) by auto
  ultimately obtain \<sigma>' where s: "cat_loop n t ?s = Some (r, \<sigma>')" "memp_tab \<sigma>' = memp_tab \<sigma>" "bytes_of \<sigma>' = bytes_of \<sigma>"
    "pbs \<sigma>' = (\<lambda>y. if y \<in> set xs then map_option (add_tot (pb_tot_len bt)) (pbs ?s y) else pbs ?s y)"
    using Cons.IH [of ?s n] by auto
  have "cat_loop p t \<sigma> = Some (r, \<sigma>')" using b(1,2) n s(1) Cons.prems(2) by (subst cat_loop.simps) (simp add: add_tot_def)
  moreover have "pbs \<sigma>' = (\<lambda>y. if y \<in> set (x # xs) then map_option (add_tot (pb_tot_len bt)) (pbs \<sigma> y) else pbs \<sigma> y)"
    using s(4) b(2) dist by (auto simp: fun_eq_iff)
  ultimately show ?case using s(2,3) by blast
qed

lemma pbuf_cat_ok:
  assumes i: "packet_inv \<sigma> ext" and h: "chain \<sigma> (Some h) hs" and t: "chain \<sigma> (Some t) ts" "0 < ext t"
    and d: "set hs \<inter> set ts = {}" "isolated \<sigma> hs" and fits: "tot_of \<sigma> (Some h) + tot_of \<sigma> (Some t) < 65536"
  shows "\<exists>\<sigma>'. pbuf_cat (Some h) (Some t) \<sigma> = Some \<sigma>' \<and> packet_inv \<sigma>' (ext(t := ext t - 1)) \<and> chain \<sigma>' (Some h) (hs @ ts) \<and>
    (\<forall>a. pdata \<sigma>' a = pdata \<sigma> a) \<and> bytes_of \<sigma>' = bytes_of \<sigma> \<and> (\<forall>x. x \<notin> set hs \<longrightarrow> pbs \<sigma>' x = pbs \<sigma> x)"
proof -
  obtain xs r where hs: "hs = xs @ [r]" using h by (cases hs rule: rev_exhaust) auto
  have inv: "ref_inv \<sigma> ext" "pool_inv \<sigma>" "len_inv \<sigma>" "data_inv \<sigma>" using i by (simp_all add: packet_inv_def pbuf_inv_def)
  obtain bt where bt: "pbs \<sigma> t = Some bt" "t \<in> set ts" using t(1) by (auto simp: chain_Some)
  have tn: "t \<notin> set xs" "t \<noteq> r" using bt(2) d(1) hs by auto
  let ?T = "pb_tot_len bt"
  obtain \<sigma>1 where c: "cat_loop h t \<sigma> = Some (r, \<sigma>1)" "memp_tab \<sigma>1 = memp_tab \<sigma>" "bytes_of \<sigma>1 = bytes_of \<sigma>"
    "pbs \<sigma>1 = (\<lambda>x. if x \<in> set xs then map_option (add_tot ?T) (pbs \<sigma> x) else pbs \<sigma> x)"
    using cat_loop_ok [OF _ bt(1) tn(1), of h r] h hs by auto
  have dist: "distinct hs" by (rule chain_distinct [OF h])
  have rx: "r \<notin> set xs" using dist hs by simp
  have "chain \<sigma> (Some r) [r]" using h hs chain_suffix [of \<sigma> "Some h" xs r "[]"] by simp
  then obtain br where br: "pbs \<sigma> r = Some br" "pb_next br = None" by (cases "pbs \<sigma> r") auto
  have last: "pb_tot_len br = pb_len br"
  proof -
    have "unat (pb_tot_len br) = unat (pb_len br) + tot_of \<sigma> (pb_next br)" using inv(3) br(1) by (simp add: len_inv_def)
    then show ?thesis using br(2) by (simp add: word_unat_eq_iff)
  qed
  let ?br = "br\<lparr>pb_tot_len := pb_tot_len br + ?T, pb_next := Some t\<rparr>"
  let ?s = "put_pb r ?br \<sigma>1"
  have s1: "pbs \<sigma>1 r = Some br" "pbs \<sigma>1 t = Some bt" using c(4) rx br(1) bt(1) tn by simp_all
  have run: "pbuf_cat (Some h) (Some t) \<sigma> = Some ?s" using c(1) s1 last by (simp add: pbuf_cat_def guard_def)
  have same: "map_option (\<lambda>b. (pb_next b, pb_ref b)) (pbs \<sigma>1 x) = map_option (\<lambda>b. (pb_next b, pb_ref b)) (pbs \<sigma> x)" for x
    using c(4) by (cases "pbs \<sigma> x") auto
  have ch1: "chain \<sigma>1 p as = chain \<sigma> p as" for p as
  proof (rule chain_cong)
    fix x show "map_option pb_next (pbs \<sigma>1 x) = map_option pb_next (pbs \<sigma> x)" using c(4) by (cases "pbs \<sigma> x") auto
  qed
  have r1: "ref_inv \<sigma>1 ext" using inv(1) ref_inv_cong [of \<sigma>1 \<sigma> ext, OF same] by simp
  have ref: "ref_inv ?s (ext(t := ext t - 1))"
    by (rule ref_inv_link [OF r1 s1(1) br(2), of ?br t ts]) (use t ch1 d(1) hs in auto)
  have dom1: "dom (pbs \<sigma>1) = dom (pbs \<sigma>)" using c(4) by (auto simp: dom_def split: if_splits)
  have pool: "pool_inv ?s" using pool_inv_put [of \<sigma>1 r ?br] pool_inv_cong [of \<sigma>1 \<sigma>] inv(2) dom1 c(2) s1(1) by auto
  have ch: "chain ?s (Some h) (hs @ ts)"
    using chain_append [of \<sigma>1 "Some h" xs r br ?br t ts] ch1 h hs s1(1) t(1) d(1) by auto
  have T: "unat ?T = tot_of \<sigma> (Some t)" using bt(1) by simp
  have pbs': "pbs ?s x = (if x = r then Some ?br else if x \<in> set xs then map_option (add_tot ?T) (pbs \<sigma> x) else pbs \<sigma> x)" for x
    using c(4) by simp
  have bound: "unat (pb_tot_len b) \<le> tot_of \<sigma> (Some h)" if "x \<in> set hs" "pbs \<sigma> x = Some b" for x b
  proof -
    obtain us vs where "hs = us @ x # vs" using \<open>x \<in> set hs\<close> by (meson split_list)
    then have "tot_of \<sigma> (Some x) = sum_list (map (plen \<sigma>) (x # vs))" "tot_of \<sigma> (Some h) = sum_list (map (plen \<sigma>) (us @ x # vs))"
      using len_inv_chain [OF inv(3)] h chain_suffix [of \<sigma> "Some h" us x vs] by blast+
    then show ?thesis using that(2) by simp
  qed
  have add: "unat (pb_tot_len b + ?T) = unat (pb_tot_len b) + unat ?T" if "x \<in> set hs" "pbs \<sigma> x = Some b" for x b
    using bound [OF that] fits T by (simp add: unat_word_ariths)
  have tot': "tot_of ?s (Some x) = tot_of \<sigma> (Some x) + (if x \<in> set hs then unat ?T else 0)" if "x \<in> dom (pbs \<sigma>)" for x
  proof -
    obtain b where b: "pbs \<sigma> x = Some b" using \<open>x \<in> dom (pbs \<sigma>)\<close> by blast
    show ?thesis
    proof (cases "x \<in> set hs")
      case True
      then have "\<exists>b'. pbs ?s x = Some b' \<and> pb_tot_len b' = pb_tot_len b + ?T" using pbs' [of x] b br hs by (cases "x = r") auto
      then show ?thesis using add [OF True b] b True by auto
    next
      case False
      then have "pbs ?s x = Some b" using pbs' [of x] b hs by simp
      then show ?thesis using False b by simp
    qed
  qed
  have len: "len_inv ?s" unfolding len_inv_def
  proof (intro allI impI)
    fix a b' assume b': "pbs ?s a = Some b'"
    then obtain b where b: "pbs \<sigma> a = Some b" "pb_len b' = pb_len b" using pbs' [of a] br by (cases "a = r"; cases "pbs \<sigma> a") (auto split: if_splits)
    have old: "unat (pb_tot_len b) = unat (pb_len b) + tot_of \<sigma> (pb_next b)" using inv(3) b(1) by (simp add: len_inv_def)
    have new: "unat (pb_tot_len b') = unat (pb_tot_len b) + (if a \<in> set hs then unat ?T else 0)"
      using tot' [of a] tot_of_simps(2) [OF b'] tot_of_simps(2) [OF b(1)] b(1) by (simp only: domI)
    show "unat (pb_tot_len b') = unat (pb_len b') + tot_of ?s (pb_next b')"
    proof (cases "a = r")
      case True
      then have "b' = ?br" "b = br" using pbs' [of a] b' b br by auto
      moreover have "tot_of ?s (Some t) = unat ?T"
        by (rule tot_of_simps(2)) (use tn s1(2) in simp)
      ultimately show ?thesis using new old True hs br(2) by simp
    next
      case False
      then have n: "pb_next b' = pb_next b" using pbs' [of a] b' b by (auto split: if_splits)
      show ?thesis
      proof (cases "pb_next b")
        case None
        then have "a \<notin> set hs" using chain_end [OF h _ b(1)] False hs by fastforce
        then show ?thesis using None n new old b(2) by simp
      next
        case (Some y)
        have y: "y \<in> dom (pbs \<sigma>)" using pbuf_inv_next [OF inv(1) b(1) Some] .
        have "y \<in> set hs \<longleftrightarrow> a \<in> set hs"
        proof
          assume "y \<in> set hs"
          moreover have "a \<in> preds \<sigma> y" using b(1) Some by (simp add: preds_def)
          ultimately show "a \<in> set hs" using d(2) by (auto simp: isolated_def)
        next
          assume "a \<in> set hs"
          then obtain us vs where us: "hs = us @ a # vs" by (meson split_list)
          then have "chain \<sigma> (Some a) (a # vs)" using h chain_suffix by blast
          then have "chain \<sigma> (Some y) vs" using b(1) Some by simp
          then show "y \<in> set hs" using us by (auto simp: chain_Some)
        qed
        then show ?thesis using tot' [OF y] Some n new old b(2) by auto
      qed
    qed
  qed
  have pay: "\<exists>b. pbs \<sigma> a = Some b \<and> pb_len b' = pb_len b \<and> pb_payload b' = pb_payload b \<and> pb_type b' = pb_type b" if "pbs ?s a = Some b'" for a b'
    using that pbs' [of a] br by (cases "a = r"; cases "pbs \<sigma> a") (auto split: if_splits)
  have dat: "data_inv ?s" unfolding data_inv_def
  proof (intro allI impI)
    fix a b' assume "pbs ?s a = Some b'"
    then show "data_ok ?s a b'" using pay inv(4) c(3) by (fastforce simp: data_inv_def data_ok_def)
  qed
  have pd: "pdata ?s a = pdata \<sigma> a" for a
    by (rule pdata_cong) (use pbs' [of a] br c(3) in \<open>cases "pbs \<sigma> a"; auto\<close>)+
  have "packet_inv ?s (ext(t := ext t - 1))" using ref pool len dat by (simp add: packet_inv_def pbuf_inv_def)
  moreover have "\<forall>x. x \<notin> set hs \<longrightarrow> pbs ?s x = pbs \<sigma> x" using c(4) hs by auto
  moreover have "bytes_of ?s = bytes_of \<sigma>" using c(3) by simp
  ultimately show ?thesis using run ch pd by blast
qed

lemma packet_inv_ref:
  assumes i: "packet_inv \<sigma> ext" and b: "pbs \<sigma> t = Some b" "unat (pb_ref b) < 65535"
  shows "\<exists>\<sigma>'. pbuf_ref (Some t) \<sigma> = Some \<sigma>' \<and> packet_inv \<sigma>' (ext(t := ext t + 1)) \<and> (\<forall>p as. chain \<sigma>' p as = chain \<sigma> p as) \<and>
    (\<forall>a. pdata \<sigma>' a = pdata \<sigma> a) \<and> bytes_of \<sigma>' = bytes_of \<sigma> \<and> pbs \<sigma>' = (pbs \<sigma>)(t \<mapsto> b\<lparr>pb_ref := pb_ref b + 1\<rparr>)"
proof -
  let ?b = "b\<lparr>pb_ref := pb_ref b + 1\<rparr>" and ?s = "put_pb t (b\<lparr>pb_ref := pb_ref b + 1\<rparr>) \<sigma>"
  have inv: "ref_inv \<sigma> ext" "pool_inv \<sigma>" "len_inv \<sigma>" "data_inv \<sigma>" using i by (simp_all add: packet_inv_def pbuf_inv_def)
  have u: "unat (pb_ref b + 1) = unat (pb_ref b) + 1" using b(2) by (simp add: unat_word_ariths)
  have "ref_inv ?s (ext(t := ext t + 1))" by (rule ref_inv_relink [OF inv(1) b(1)]) (use u in auto)
  moreover have "pool_inv ?s" using pool_inv_put [OF inv(2)] b(1) by blast
  moreover have "tot_of ?s p = tot_of \<sigma> p" for p using b(1) by (cases p) (auto simp: tot_of_def)
  then have "len_inv ?s" using inv(3) b(1) by (auto simp: len_inv_def)
  moreover have "data_inv ?s" using inv(4) b(1) by (auto simp: data_inv_def data_ok_def)
  ultimately have "packet_inv ?s (ext(t := ext t + 1))" by (simp add: packet_inv_def pbuf_inv_def)
  moreover have "chain ?s p as = chain \<sigma> p as" for p as by (rule chain_cong) (use b(1) in auto)
  moreover have "pdata ?s a = pdata \<sigma> a" for a by (rule pdata_cong) (use b(1) in auto)
  moreover have "pbuf_ref (Some t) \<sigma> = Some ?s" using b(1) by (simp add: pbuf_ref_def)
  ultimately show ?thesis by auto
qed

subsection \<open>Taking a chain apart\<close>

lemma chain_truncate:
  assumes "chain \<sigma> p (xs @ r # ys)" "pbs \<sigma> r = Some b" "pb_next b' = None"
  shows "chain (put_pb r b' \<sigma>) p (xs @ [r])"
  using assms(1) chain_distinct [OF assms(1)]
proof (induction xs arbitrary: p)
  case Nil
  then show ?case using assms(3) by (cases "pbs \<sigma> r") auto
next
  case (Cons x xs)
  then obtain bx :: pbuf where "p = Some x" "pbs \<sigma> x = Some bx" "chain \<sigma> (pb_next bx) (xs @ r # ys)" by (cases "pbs \<sigma> x") auto
  then show ?case using Cons.IH Cons.prems(2) by simp
qed

lemma ref_inv_unlink:
  assumes i: "ref_inv \<sigma> ext" and r: "pbs \<sigma> r = Some b" "pb_next b = Some t" "pb_next b' = None" "pb_ref b' = pb_ref b"
  shows "ref_inv (put_pb r b' \<sigma>) (ext(t := ext t + 1))"
proof -
  let ?s = "put_pb r b' \<sigma>"
  have p: "preds ?s x = preds \<sigma> x - (if x = t then {r} else {})" for x using r by (auto simp: preds_def)
  have rt: "r \<in> preds \<sigma> t" using r by (simp add: preds_def)
  have td: "t \<in> dom (pbs \<sigma>)" using pbuf_inv_next [OF i r(1,2)] .
  have c: "\<exists>as. chain ?s (Some x) as" if x: "x \<in> dom (pbs \<sigma>)" for x
  proof -
    obtain as where as: "chain \<sigma> (Some x) as" using x ref_invD(3) [OF i] by blast
    show ?thesis
    proof (cases "r \<in> set as")
      case True
      then obtain xs ys where "as = xs @ r # ys" by (meson split_list)
      then show ?thesis using chain_truncate [of \<sigma> "Some x" xs r ys b b'] as r by blast
    next
      case False
      then show ?thesis using as chain_put_other by blast
    qed
  qed
  show ?thesis unfolding ref_inv_def
  proof (intro conjI allI impI)
    show "finite (dom (pbs ?s))" using i by (simp add: ref_inv_def)
    show "x \<in> dom (pbs ?s)" if "0 < (ext(t := ext t + 1)) x" for x using that i td by (auto simp: ref_inv_def split: if_splits)
    fix x bx assume x: "pbs ?s x = Some bx"
    then obtain bo where bo: "pbs \<sigma> x = Some bo" "pb_ref bx = pb_ref bo" using r by (cases "x = r") auto
    show "0 < unat (pb_ref bx)" using ref_invD(1) [OF i bo(1)] bo(2) by simp
    have "card (preds \<sigma> t) = card (preds \<sigma> t - {r}) + 1" using card_Suc_Diff1 [OF preds_finite [OF i] rt] by simp
    then show "unat (pb_ref bx) = (ext(t := ext t + 1)) x + card (preds ?s x)"
      unfolding p using ref_invD(2) [OF i bo(1)] bo(2) by simp
    show "\<exists>as. chain ?s (Some x) as" by (rule c) (use bo(1) in blast)
  qed
qed

end
