(* ===== verification/Pbuf_Ops.thy ===== *)
theory Pbuf_Ops
  imports Pbuf_Chain
begin

text \<open>
  \<open>pbuf_realloc\<close> cuts a chain to its first bytes and releases the rest; \<open>pbuf_header\<close> moves the
  start of the payload.
\<close>

subsection \<open>\<open>pbuf_free\<close> does not look at the pbufs before its argument\<close>

lemma memp_free_put: "a \<noteq> q \<Longrightarrow> memp_free t a (put_pb q b \<sigma>) = put_pb q b (memp_free t a \<sigma>)"
  by (simp add: memp_free_def put_pb_def fun_upd_twist)

lemma put_pb_commute: "a \<noteq> q \<Longrightarrow> put_pb a b (put_pb q c \<sigma>) = put_pb q c (put_pb a b \<sigma>)"
  by (simp add: put_pb_def fun_upd_twist)

lemma free_loop_put:
  assumes "chain \<sigma> p as" "q \<notin> set as"
  shows "free_loop c p (put_pb q b \<sigma>) = map_option (\<lambda>(k, \<sigma>'). (k, put_pb q b \<sigma>')) (free_loop c p \<sigma>)"
  using assms
proof (induction as arbitrary: p \<sigma> c)
  case Nil
  then show ?case by (simp add: free_loop.simps)
next
  case (Cons a as)
  then obtain ba :: pbuf where a: "p = Some a" "pbs \<sigma> a = Some ba" "chain \<sigma> (pb_next ba) as" by (cases "pbs \<sigma> a") auto
  have dist: "a \<notin> set as" using chain_distinct [OF Cons.prems(1)] by simp
  let ?s = "memp_free (pool_of (pb_type ba)) a \<sigma>"
  have "chain ?s (pb_next ba) as = chain \<sigma> (pb_next ba) as" by (rule chain_cong) (use dist in auto)
  then have "free_loop (c + 1) (pb_next ba) (put_pb q b ?s) = map_option (\<lambda>(k, \<sigma>'). (k, put_pb q b \<sigma>')) (free_loop (c + 1) (pb_next ba) ?s)"
    using Cons.IH [of ?s "pb_next ba" "c + 1"] a(3) Cons.prems(2) by simp
  then show ?case using a(1,2) Cons.prems(2)
    by (subst (1 2) free_loop.simps) (simp add: guard_def memp_free_put put_pb_commute Let_def)
qed

subsection \<open>\<open>pbuf_realloc\<close>\<close>

lemma u16_less: "unat (w :: 16 word) < 65536"
  using unsigned_less [of w] by simp

definition sub_tot :: "nat \<Rightarrow> pbuf \<Rightarrow> pbuf" where
  "sub_tot d b = b\<lparr>pb_tot_len := pb_tot_len b + word_of_int (- int d)\<rparr>"

lemma sub_tot_simps [simp]:
  "pb_next (sub_tot n b) = pb_next b" "pb_ref (sub_tot n b) = pb_ref b" "pb_len (sub_tot n b) = pb_len b"
  "pb_payload (sub_tot n b) = pb_payload b" "pb_type (sub_tot n b) = pb_type b"
  "pb_tot_len (sub_tot n b) = pb_tot_len b - of_nat n"
  by (simp_all add: sub_tot_def)

lemma realloc_walk_ok:
  assumes "chain \<sigma> (Some p) as" "rem \<le> sum_list (map (plen \<sigma>) as)"
  shows "\<exists>xs q ys rem' \<sigma>'. realloc_walk rem (- int d) (Some p) \<sigma> = Some (rem', q, \<sigma>') \<and> as = xs @ q # ys \<and>
     rem = sum_list (map (plen \<sigma>) xs) + rem' \<and> rem' \<le> plen \<sigma> q \<and> (xs = [] \<or> 0 < rem') \<and> memp_tab \<sigma>' = memp_tab \<sigma> \<and> bytes_of \<sigma>' = bytes_of \<sigma> \<and>
     pbs \<sigma>' = (\<lambda>x. if x \<in> set xs then map_option (sub_tot d) (pbs \<sigma> x) else pbs \<sigma> x)"
  using assms
proof (induction as arbitrary: p rem \<sigma>)
  case (Cons a as)
  then obtain b :: pbuf where b: "p = a" "pbs \<sigma> a = Some b" "chain \<sigma> (pb_next b) as" by (cases "pbs \<sigma> a") auto
  have pl: "plen \<sigma> a = unat (pb_len b)" using b(2) by (simp add: plen_def)
  have dist: "a \<notin> set as" using chain_distinct [OF Cons.prems(1)] by simp
  show ?case
  proof (cases "rem > unat (pb_len b)")
    case False
    then show ?thesis using b pl by (intro exI [of _ "[]"] exI [of _ a] exI [of _ as] exI [of _ rem] exI [of _ \<sigma>])
        (simp add: realloc_walk.simps)
  next
    case True
    let ?s = "put_pb a (sub_tot d b) \<sigma>"
    obtain n where n: "pb_next b = Some n" using True Cons.prems(2) b(3) pl by (cases "pb_next b") auto
    have ch: "chain ?s (Some n) as" using chain_put_other [OF dist b(3)] n by simp
    have eq: "map (plen ?s) zs = map (plen \<sigma>) zs" for zs using b(2) by (auto simp: plen_def)
    have "rem - unat (pb_len b) \<le> sum_list (map (plen ?s) as)" using Cons.prems(2) True pl unfolding eq by simp
    from Cons.IH [OF ch this] obtain xs q ys rem' \<sigma>'
      where r: "realloc_walk (rem - unat (pb_len b)) (- int d) (Some n) ?s = Some (rem', q, \<sigma>')" "as = xs @ q # ys"
        "rem - unat (pb_len b) = sum_list (map (plen ?s) xs) + rem'" "rem' \<le> plen ?s q" "memp_tab \<sigma>' = memp_tab ?s" "bytes_of \<sigma>' = bytes_of ?s"
        "pbs \<sigma>' = (\<lambda>x. if x \<in> set xs then map_option (sub_tot d) (pbs ?s x) else pbs ?s x)" "xs = [] \<or> 0 < rem'"
      by (elim exE conjE) (rule that; assumption)
    have run: "realloc_walk rem (- int d) (Some p) \<sigma> = Some (rem', q, \<sigma>')"
      using r(1) True b(1,2) n by (subst realloc_walk.simps) (simp add: guard_def sub_tot_def)
    have sum: "rem = sum_list (map (plen \<sigma>) (a # xs)) + rem'" using r(3) True pl unfolding eq by simp
    have pos: "0 < rem'" using r(3,8) True by auto
    have q: "rem' \<le> plen \<sigma> q" using r(4) dist r(2) by (auto simp: plen_def split: if_splits)
    have "pbs \<sigma>' = (\<lambda>x. if x \<in> set (a # xs) then map_option (sub_tot d) (pbs \<sigma> x) else pbs \<sigma> x)"
      using r(7) dist r(2) b(2) by (auto simp: fun_eq_iff)
    then show ?thesis using run sum q pos r(2,5,6)
      by (intro exI [of _ "a # xs"] exI [of _ q] exI [of _ ys] exI [of _ rem'] exI [of _ \<sigma>']) simp
  qed
qed simp

lemma unref_out: "x \<notin> set as \<Longrightarrow> unref \<sigma> as x = pbs \<sigma> x"
  using nth_mem [of "length (freed \<sigma> as)" as] by (auto simp: unref_def freed_def dest: set_takeWhileD)

lemma unref_cong:
  assumes "\<And>x. x \<in> set ys \<Longrightarrow> pbs \<sigma> x = pbs \<tau> x"
  shows "freed \<sigma> ys = freed \<tau> ys" "of_pool \<sigma> t (freed \<sigma> ys) = of_pool \<tau> t (freed \<tau> ys)" "x \<in> set ys \<Longrightarrow> unref \<sigma> ys x = unref \<tau> ys x"
proof -
  show f: "freed \<sigma> ys = freed \<tau> ys" unfolding freed_def by (rule takeWhile_cong) (use assms in \<open>simp_all add: ref_of_def\<close>)
  show "of_pool \<sigma> t (freed \<sigma> ys) = of_pool \<tau> t (freed \<tau> ys)" unfolding f of_pool_def
    by (rule filter_cong [OF refl]) (use assms in \<open>auto simp: freed_def dest: set_takeWhileD\<close>)
  show "x \<in> set ys \<Longrightarrow> unref \<sigma> ys x = unref \<tau> ys x" using assms by (simp add: unref_def f)
qed

lemma pbuf_realloc_ok:
  assumes i: "packet_inv \<sigma> ext" and ch: "chain \<sigma> (Some p) as" and iso: "isolated \<sigma> as" and n: "unat new_len < tot_of \<sigma> (Some p)"
    and rd: "readable \<sigma> as"
  shows "\<exists>\<sigma>' xs q ys. pbuf_realloc (Some p) new_len \<sigma> = Some \<sigma>' \<and> packet_inv \<sigma>' ext \<and> as = xs @ q # ys \<and> chain \<sigma>' (Some p) (xs @ [q]) \<and>
    content \<sigma>' (xs @ [q]) = take (unat new_len) (content \<sigma> as) \<and> (xs = [] \<or> length (content \<sigma> xs) < unat new_len) \<and>
    (\<forall>x\<in>set ys. pbs \<sigma>' x = unref \<sigma> ys x) \<and> (\<forall>x. x \<notin> set as \<longrightarrow> pbs \<sigma>' x = pbs \<sigma> x) \<and>
    (\<forall>t. mset (memp_tab \<sigma>' t) = mset (of_pool \<sigma> t (freed \<sigma> ys)) + mset (memp_tab \<sigma> t))"
proof -
  have inv: "ref_inv \<sigma> ext" "pool_inv \<sigma>" "len_inv \<sigma>" "data_inv \<sigma>" using i by (simp_all add: packet_inv_def pbuf_inv_def)
  obtain bp where bp: "pbs \<sigma> p = Some bp" using ch by (auto simp: chain_Some)
  define d where "d = unat (pb_tot_len bp) - unat new_len"
  have T: "tot_of \<sigma> (Some p) = sum_list (map (plen \<sigma>) as)" by (rule len_inv_chain [OF inv(3) ch])
  have dle: "unat new_len < unat (pb_tot_len bp)" using n bp by simp
  have grow: "uint new_len - uint (pb_tot_len bp) = - int d" using dle by (simp add: d_def of_nat_diff)
  obtain xs q ys rem \<sigma>1 where w: "realloc_walk (unat new_len) (- int d) (Some p) \<sigma> = Some (rem, q, \<sigma>1)" "as = xs @ q # ys"
     "unat new_len = sum_list (map (plen \<sigma>) xs) + rem" "rem \<le> plen \<sigma> q" "memp_tab \<sigma>1 = memp_tab \<sigma>" "bytes_of \<sigma>1 = bytes_of \<sigma>"
     "pbs \<sigma>1 = (\<lambda>x. if x \<in> set xs then map_option (sub_tot d) (pbs \<sigma> x) else pbs \<sigma> x)" "xs = [] \<or> 0 < rem"
    using realloc_walk_ok [OF ch less_imp_le [OF n [unfolded T]], of d] by (elim exE conjE) (rule that; assumption)
  have dist: "distinct as" by (rule chain_distinct [OF ch])
  have qn: "q \<notin> set xs" "q \<notin> set ys" using dist w(2) by auto
  have chq: "chain \<sigma> (Some q) (q # ys)" using ch w(2) chain_suffix by blast
  then obtain bq where bq: "pbs \<sigma> q = Some bq" "chain \<sigma> (pb_next bq) ys" by (cases "pbs \<sigma> q") auto
  have bq1: "pbs \<sigma>1 q = Some bq" using w(7) qn bq(1) by simp
  let ?b1 = "bq\<lparr>pb_len := of_nat rem, pb_tot_len := of_nat rem\<rparr>"
  let ?b2 = "?b1\<lparr>pb_next := None\<rparr>"
  let ?s2 = "put_pb q ?b2 \<sigma>1"
  have pq: "plen \<sigma> q = unat (pb_len bq)" using bq(1) by (simp add: plen_def)
  have remw: "unat (of_nat rem :: 16 word) = rem" using w(4) pq u16_less [of "pb_len bq"] by (simp add: unat_of_nat)
  have same: "map_option (\<lambda>b. (pb_next b, pb_ref b)) (pbs \<sigma>1 x) = map_option (\<lambda>b. (pb_next b, pb_ref b)) (pbs \<sigma> x)" for x
    using w(7) by (cases "pbs \<sigma> x") auto
  have samen: "map_option pb_next (pbs \<sigma>1 x) = map_option pb_next (pbs \<sigma> x)" for x using w(7) by (cases "pbs \<sigma> x") auto
  have ch1: "chain \<sigma>1 z zs = chain \<sigma> z zs" for z zs by (rule chain_cong) (rule samen)
  have r1: "ref_inv \<sigma>1 ext" using inv(1) ref_inv_cong [of \<sigma>1 \<sigma> ext, OF same] by simp
  have dom1: "dom (pbs \<sigma>1) = dom (pbs \<sigma>)" using w(7) by (auto simp: dom_def split: if_splits)
  have pool2: "pool_inv ?s2" using pool_inv_put [of \<sigma>1 q ?b2] pool_inv_cong [of \<sigma>1 \<sigma>] inv(2) dom1 w(5) bq1 by auto
  define ext2 where "ext2 = (case pb_next bq of None \<Rightarrow> ext | Some t \<Rightarrow> ext(t := ext t + 1))"
  have ref2: "ref_inv ?s2 ext2"
  proof (cases "pb_next bq")
    case None
    then show ?thesis using ref_inv_relink [OF r1 bq1, of ?b2 ext] ref_invD(1) [OF r1 bq1] by (simp add: ext2_def)
  next
    case (Some t)
    then show ?thesis using ref_inv_unlink [OF r1 bq1 Some, of ?b2] by (simp add: ext2_def)
  qed
  have ch2: "chain ?s2 (Some p) (xs @ [q])" by (rule chain_truncate [of _ _ xs q ys bq]) (use ch ch1 w(2) bq1 in auto)
  have suffix: "tot_of \<sigma> (Some x) = sum_list (map (plen \<sigma>) (x # vs)) \<and> chain \<sigma> (Some x) (x # vs)" if "as = us @ x # vs" for us x vs
    using len_inv_chain [OF inv(3)] ch chain_suffix [of \<sigma> "Some p" us x vs] that by blast
  have total: "unat (pb_tot_len bp) = sum_list (map (plen \<sigma>) as)" using T bp by simp
  have dsum: "d + unat new_len = sum_list (map (plen \<sigma>) as)" using total dle by (simp add: d_def)
  have tot2: "tot_of ?s2 (Some x) = sum_list (map (plen \<sigma>) (x # vs)) + rem" if x: "xs = us @ x # vs" for us x vs
  proof -
    obtain b where b: "pbs \<sigma> x = Some b" using suffix [of us x "vs @ q # ys"] w(2) x by (cases "pbs \<sigma> x") auto
    have "unat (pb_tot_len b) = sum_list (map (plen \<sigma>) (x # vs @ q # ys))" using suffix [of us x "vs @ q # ys"] w(2) x b by simp
    moreover have "d = plen \<sigma> q + sum_list (map (plen \<sigma>) ys) - rem" using dsum w(2,3,4) by simp
    ultimately have t: "d \<le> unat (pb_tot_len b)" "unat (pb_tot_len b) - d = sum_list (map (plen \<sigma>) (x # vs)) + rem" using w(4) by simp_all
    have d16: "unat (of_nat d :: 16 word) = d" using t(1) u16_less [of "pb_tot_len b"] by (simp add: unat_of_nat)
    have "pbs ?s2 x = Some (sub_tot d b)" using w(7) b x qn by auto
    then show ?thesis using t d16 by (simp add: unat_sub word_le_nat_alt)
  qed
  have tot2q: "tot_of ?s2 (Some q) = rem" using remw by simp
  have len2: "len_inv ?s2" unfolding len_inv_def
  proof (intro allI impI)
    fix a b assume b: "pbs ?s2 a = Some b"
    show "unat (pb_tot_len b) = unat (pb_len b) + tot_of ?s2 (pb_next b)"
    proof (cases "a = q")
      case True
      then show ?thesis using b by auto
    next
      case aq: False
      show ?thesis
      proof (cases "a \<in> set xs")
        case True
        then obtain us vs where us: "xs = us @ a # vs" by (meson split_list)
        obtain b0 where b0: "pbs \<sigma> a = Some b0" "b = sub_tot d b0" using b aq True w(7) by auto
        have ta: "unat (pb_tot_len b) = sum_list (map (plen \<sigma>) (a # vs)) + rem" using tot2 [OF us] b by simp
        have "chain \<sigma> (Some a) (a # vs @ q # ys)" using suffix [of us a "vs @ q # ys"] w(2) us by simp
        then have nx: "chain \<sigma> (pb_next b0) (vs @ q # ys)" using b0(1) by simp
        have "tot_of ?s2 (pb_next b0) = sum_list (map (plen \<sigma>) vs) + rem"
        proof (cases vs)
          case Nil
          then have "pb_next b0 = Some q" using nx by simp
          then show ?thesis using tot2q Nil by simp
        next
          case (Cons v vs')
          then have "pb_next b0 = Some v" using nx by simp
          then show ?thesis using tot2 [of "us @ [a]" v vs'] us Cons by simp
        qed
        moreover have "plen \<sigma> a = unat (pb_len b)" using b0 by (simp add: plen_def)
        ultimately show ?thesis using ta b0(2) by simp
      next
        case False
        then have b0: "pbs \<sigma> a = Some b" using b aq w(7) by simp
        have "tot_of ?s2 (pb_next b) = tot_of \<sigma> (pb_next b)"
        proof (cases "pb_next b")
          case (Some y)
          have "a \<in> preds \<sigma> y" using b0 Some by (simp add: preds_def)
          have "y \<notin> set (xs @ [q])"
          proof
            assume y: "y \<in> set (xs @ [q])"
            then have "a \<in> set as" using iso \<open>a \<in> preds \<sigma> y\<close> w(2) by (auto simp: isolated_def)
            then have "a \<in> set ys" using False aq w(2) by simp
            then obtain us vs where ys: "ys = us @ a # vs" by (meson split_list)
            have "chain \<sigma> (Some a) (a # vs)" using suffix [of "xs @ q # us" a vs] w(2) ys by simp
            then have "y \<in> set ys" using b0 Some ys by (auto simp: chain_Some)
            then show False using y dist w(2) by auto
          qed
          then show ?thesis using Some w(7) by (simp add: tot_of_def)
        qed simp
        then show ?thesis using inv(3) b0 by (simp add: len_inv_def)
      qed
    qed
  qed
  have dat2: "data_inv ?s2" unfolding data_inv_def
  proof (intro allI impI)
    fix a b assume b: "pbs ?s2 a = Some b"
    have "\<exists>b0. pbs \<sigma> a = Some b0 \<and> pb_type b = pb_type b0 \<and> pb_payload b = pb_payload b0 \<and> unat (pb_len b) \<le> unat (pb_len b0)"
    proof (cases "a = q")
      case True
      then have "b = ?b2" using b by simp
      then show ?thesis using True bq(1) remw w(4) pq by simp
    next
      case False
      then show ?thesis using b w(7) by (auto split: if_splits)
    qed
    then show "data_ok ?s2 a b" using inv(4) w(6) unfolding data_inv_def data_ok_def by fastforce
  qed
  have p2: "packet_inv ?s2 ext2" using ref2 pool2 len2 dat2 by (simp add: packet_inv_def pbuf_inv_def)
  have pd2: "pdata ?s2 x = pdata \<sigma> x" if "x \<in> set xs" for x
    by (rule pdata_cong) (use that w(6,7) qn in \<open>auto simp: option.map_comp comp_def\<close>)
  have pdq: "pdata ?s2 q = take rem (pdata \<sigma> q)"
    using bq(1) remw w(4,6) pq by (auto simp: pdata_def min_def split: option.splits)
  have lenx: "length (content \<sigma> xs) = sum_list (map (plen \<sigma>) xs)" using length_content [of \<sigma> xs] rd w(2) by (simp add: readable_def)
  have lenq: "length (pdata \<sigma> q) = plen \<sigma> q" using rd w(2) bq(1) length_pdata [of \<sigma> q bq] pq by (auto simp: readable_def)
  have cont2: "content ?s2 (xs @ [q]) = take (unat new_len) (content \<sigma> as)"
  proof -
    have "content ?s2 xs = content \<sigma> xs" using pd2 by (simp add: content_def cong: map_cong)
    then show ?thesis using pdq lenx lenq w(2,3,4) by simp
  qed
  have fit: "xs = [] \<or> length (content \<sigma> xs) < unat new_len" using w(3,8) lenx by auto
  have same2: "pbs ?s2 x = pbs \<sigma> x" if "x \<in> set ys" for x using that dist w(2,7) by auto
  have out2: "pbs ?s2 x = pbs \<sigma> x" if "x \<notin> set as" for x using that w(2,7) by auto
  note rest = unref_cong [where \<sigma> = "?s2" and \<tau> = \<sigma> and ys = ys, OF same2]
  show ?thesis
  proof (cases "pb_next bq")
    case None
    then have ys: "ys = []" using bq(2) by (cases ys) auto
    from None have b2: "?b1 = ?b2" by simp
    have "pbuf_realloc (Some p) new_len \<sigma> = Some (put_pb q ?b2 (put_pb q ?b1 \<sigma>1))"
      using bp dle w(1) bq1 None grow by (simp add: pbuf_realloc_def word_le_nat_alt)
    moreover have "put_pb q ?b2 (put_pb q ?b1 \<sigma>1) = ?s2" by (simp add: put_pb_def)
    moreover have "ext2 = ext" using None by (simp add: ext2_def)
    ultimately show ?thesis using p2 ch2 cont2 fit out2 w(2,5) ys by (intro exI [of _ ?s2] exI [of _ xs] exI [of _ q] exI [of _ ys]) (auto simp: freed_def of_pool_def)
  next
    case (Some t)
    have tys: "chain \<sigma> (Some t) ys" using bq(2) Some by simp
    have ch2t: "chain ?s2 (Some t) ys" using chain_put_other [OF qn(2)] tys ch1 by simp
    have extt: "0 < ext2 t" using Some by (simp add: ext2_def)
    obtain \<sigma>3 where f: "pbuf_free (Some t) ?s2 = Some (of_nat (length (freed ?s2 ys)), \<sigma>3)" "pbuf_inv \<sigma>3 (ext2(t := ext2 t - 1))"
      "pbs \<sigma>3 = unref ?s2 ys" "bytes_of \<sigma>3 = bytes_of ?s2"
      "\<forall>t. mset (memp_tab \<sigma>3 t) = mset (of_pool ?s2 t (freed ?s2 ys)) + mset (memp_tab ?s2 t)"
      using pbuf_free_ok [of ?s2 ext2 t ys] extt ch2t p2 by (auto simp: packet_inv_def)
    have out: "x \<notin> set ys \<Longrightarrow> pbs \<sigma>3 x = pbs ?s2 x" for x
      using f(3) unref_out [of x ys ?s2] by simp
    have e: "ext2(t := ext2 t - 1) = ext" using Some by (auto simp: ext2_def)
    have p3: "packet_inv \<sigma>3 ext" using packet_inv_free [OF _ dat2 f(3,4)] len2 f(2) e by (auto simp: len_inv_def)
    have "free_loop 0 (Some t) (put_pb q ?b1 ?s2) = map_option (\<lambda>(k, \<sigma>'). (k, put_pb q ?b1 \<sigma>')) (free_loop 0 (Some t) ?s2)"
      by (rule free_loop_put [OF ch2t qn(2)])
    then have "pbuf_free (Some t) (put_pb q ?b1 ?s2) = Some (of_nat (length (freed ?s2 ys)), put_pb q ?b1 \<sigma>3)"
      using f(1) by (simp add: pbuf_free_def guard_def)
    moreover have "put_pb q ?b1 ?s2 = put_pb q ?b1 \<sigma>1" by (simp add: put_pb_def)
    ultimately have fr: "pbuf_free (Some t) (put_pb q ?b1 \<sigma>1) = Some (of_nat (length (freed ?s2 ys)), put_pb q ?b1 \<sigma>3)" by simp
    have "pbuf_realloc (Some p) new_len \<sigma> = Some (put_pb q ?b2 (put_pb q ?b1 \<sigma>3))"
      using bp dle w(1) bq1 Some grow fr by (simp add: pbuf_realloc_def word_le_nat_alt)
    moreover have "put_pb q ?b2 (put_pb q ?b1 \<sigma>3) = \<sigma>3"
      using out [OF qn(2)] by (simp add: put_pb_def fun_upd_idem)
    ultimately have run: "pbuf_realloc (Some p) new_len \<sigma> = Some \<sigma>3" by simp
    have dis: "x \<notin> set ys" if "x \<in> set (xs @ [q])" for x using that dist w(2) by auto
    have "chain \<sigma>3 (Some p) (xs @ [q]) = chain ?s2 (Some p) (xs @ [q])" by (rule chain_cong) (use out dis in auto)
    moreover have "pdata \<sigma>3 x = pdata ?s2 x" if "x \<in> set (xs @ [q])" for x
      by (rule pdata_cong) (use out [OF dis [OF that]] f(4) in auto)
    then have "content \<sigma>3 (xs @ [q]) = content ?s2 (xs @ [q])" unfolding content_def by (intro arg_cong [where f = concat] map_cong refl)
    moreover have "pbs \<sigma>3 x = pbs \<sigma> x" if "x \<notin> set as" for x using out [of x] out2 [OF that] that w(2) by auto
    ultimately show ?thesis using run p3 ch2 cont2 fit f(3,5) rest w(2,5)
      by (intro exI [of _ \<sigma>3] exI [of _ xs] exI [of _ q] exI [of _ ys]) (simp only: put_pb_simps simp_thms, blast)
  qed
qed

subsection \<open>\<open>pbuf_dechain\<close>\<close>

lemma pbuf_dechain_ok:
  assumes i: "packet_inv \<sigma> ext" and ch: "chain \<sigma> (Some p) (p # as)" and pre: "preds \<sigma> p = {}" and short: "length as < 256"
  shows "\<exists>res \<sigma>'. pbuf_dechain p \<sigma> = Some (res, \<sigma>') \<and> packet_inv \<sigma>' ext \<and> chain \<sigma>' (Some p) [p] \<and> pdata \<sigma>' p = pdata \<sigma> p \<and>
    (as \<noteq> [] \<and> 1 < ref_of \<sigma> (hd as) \<longrightarrow> res = Some (hd as)) \<and> (as = [] \<or> ref_of \<sigma> (hd as) = 1 \<longrightarrow> res = None)"
proof -
  have inv: "ref_inv \<sigma> ext" "pool_inv \<sigma>" "len_inv \<sigma>" "data_inv \<sigma>" using i by (simp_all add: packet_inv_def pbuf_inv_def)
  obtain b where b: "pbs \<sigma> p = Some b" "chain \<sigma> (pb_next b) as" using ch by (cases "pbs \<sigma> p") auto
  have tot: "unat (pb_tot_len b) = unat (pb_len b) + tot_of \<sigma> (pb_next b)" using inv(3) b(1) by (simp add: len_inv_def)
  show ?thesis
  proof (cases as)
    case Nil
    then have n: "pb_next b = None" using b(2) by simp
    then have "pb_tot_len b = pb_len b" using tot by (simp add: word_unat_eq_iff)
    then show ?thesis using b(1) n ch Nil i by (simp add: pbuf_dechain_def guard_def)
  next
    case (Cons q qs)
    then obtain bq where n: "pb_next b = Some q" and bq: "pbs \<sigma> q = Some bq" using b(2) by (cases "pbs \<sigma> q") auto
    have pn: "p \<notin> set as" "p \<noteq> q" using chain_distinct [OF ch] Cons by auto
    have tq: "pb_tot_len bq = pb_tot_len b - pb_len b"
      using tot n bq by (simp add: word_unat_eq_iff unat_sub word_le_nat_alt)
    have bq_id: "bq\<lparr>pb_tot_len := pb_tot_len b - pb_len b\<rparr> = bq" using tq by simp
    let ?b = "b\<lparr>pb_next := None, pb_tot_len := pb_len b\<rparr>"
    let ?s = "put_pb p ?b \<sigma>"
    have s_eq: "put_pb p ?b (put_pb q (bq\<lparr>pb_tot_len := pb_tot_len b - pb_len b\<rparr>) \<sigma>) = ?s"
      unfolding bq_id using bq pn(2) by (simp add: put_pb_def fun_upd_idem)
    have ref2: "ref_inv ?s (ext(q := ext q + 1))" by (rule ref_inv_unlink [OF inv(1) b(1) n]) simp_all
    have pool2: "pool_inv ?s" using pool_inv_put [OF inv(2)] b(1) by blast
    have len2: "len_inv ?s" unfolding len_inv_def
    proof (intro allI impI)
      fix a ba assume a: "pbs ?s a = Some ba"
      show "unat (pb_tot_len ba) = unat (pb_len ba) + tot_of ?s (pb_next ba)"
      proof (cases "a = p")
        case True
        then show ?thesis using a by auto
      next
        case False
        then have a0: "pbs \<sigma> a = Some ba" using a by simp
        have "tot_of ?s (pb_next ba) = tot_of \<sigma> (pb_next ba)"
        proof (cases "pb_next ba")
          case (Some y)
          then have "y \<noteq> p" using pre a0 by (auto simp: preds_def)
          then show ?thesis using Some by (simp add: tot_of_def)
        qed simp
        then show ?thesis using inv(3) a0 by (simp add: len_inv_def)
      qed
    qed
    have dat2: "data_inv ?s" unfolding data_inv_def
    proof (intro allI impI)
      fix a ba assume a: "pbs ?s a = Some ba"
      then have "\<exists>b0. pbs \<sigma> a = Some b0 \<and> pb_type ba = pb_type b0 \<and> pb_payload ba = pb_payload b0 \<and> pb_len ba = pb_len b0"
        using b(1) by (cases "a = p") auto
      then show "data_ok ?s a ba" using inv(4) by (auto simp: data_inv_def data_ok_def)
    qed
    have ch2: "chain ?s (Some q) as" using chain_put_other [OF pn(1)] b(2) n by simp
    obtain \<sigma>' where f: "pbuf_free (Some q) ?s = Some (of_nat (length (freed ?s as)), \<sigma>')" "pbuf_inv \<sigma>' ((ext(q := ext q + 1))(q := (ext(q := ext q + 1)) q - 1))"
      "pbs \<sigma>' = unref ?s as" "bytes_of \<sigma>' = bytes_of ?s"
      using pbuf_free_ok [of ?s "ext(q := ext q + 1)" q as] ref2 pool2 ch2 by (auto simp: pbuf_inv_def)
    have e: "(ext(q := ext q + 1))(q := (ext(q := ext q + 1)) q - 1) = ext" by auto
    have p': "pbs \<sigma>' p = Some ?b" using f(3) unref_out [OF pn(1), of ?s] by simp
    have inv': "packet_inv \<sigma>' ext" using packet_inv_free [OF _ dat2 f(3,4)] len2 f(2) e by (auto simp: len_inv_def)
    have le: "length (freed ?s as) < 256" using short length_takeWhile_le [of _ as] le_less_trans unfolding freed_def by blast
    have cnt: "(of_nat (length (freed ?s as)) :: 8 word) > 0 \<longleftrightarrow> ref_of \<sigma> q = 1"
    proof -
      have "unat (of_nat (length (freed ?s as)) :: 8 word) = length (freed ?s as)" using le by (simp add: unat_of_nat)
      moreover have "0 < length (freed ?s as) \<longleftrightarrow> ref_of \<sigma> q = 1" using Cons pn(2) by (simp add: freed_def ref_of_def)
      ultimately show ?thesis by (simp add: word_less_nat_alt)
    qed
    have "uint (pb_tot_len bq) = uint (pb_tot_len b) - uint (pb_len b)"
    proof -
      have "unat (pb_tot_len b) = unat (pb_len b) + unat (pb_tot_len bq)" using tot n bq by simp
      then show ?thesis unfolding uint_nat by linarith
    qed
    then have run: "pbuf_dechain p \<sigma> = Some (if ref_of \<sigma> q = 1 then None else Some q, \<sigma>')"
      using b(1) n bq s_eq f(1) p' cnt pn(2) by (simp add: pbuf_dechain_def guard_def)
    have "pdata \<sigma>' p = pdata \<sigma> p" by (rule pdata_cong) (use p' b(1) f(4) in auto)
    then show ?thesis using run inv' p' Cons by auto
  qed
qed

subsection \<open>\<open>pbuf_header\<close>\<close>

text \<open>A header that is hidden leaves the rest of the data; one that is revealed comes in front.\<close>

lemma pbuf_header_ok:
  assumes i: "packet_inv \<sigma> ext" and b: "pbs \<sigma> p = Some b" "pb_type b = PBUF_RAM \<or> pb_type b = PBUF_POOL" and pre: "preds \<sigma> p = {}"
    and inc: "- uint (pb_len b) \<le> inc" "uint (pb_tot_len b) + inc < 65536"
  shows "\<exists>r \<sigma>'. pbuf_header (Some p) inc \<sigma> = Some (r, \<sigma>') \<and> packet_inv \<sigma>' ext \<and>
    (r \<noteq> 0 \<longrightarrow> \<sigma>' = \<sigma> \<and> 0 < inc) \<and>
    (r = 0 \<longrightarrow> (if inc \<le> 0 then pdata \<sigma>' p = drop (nat (- inc)) (pdata \<sigma> p) else drop (nat inc) (pdata \<sigma>' p) = pdata \<sigma> p) \<and>
       int (tot_of \<sigma>' (Some p)) = int (tot_of \<sigma> (Some p)) + inc \<and> pbuf_header (Some p) (- inc) \<sigma>' = Some (0, \<sigma>))"
proof -
  have inv: "ref_inv \<sigma> ext" "pool_inv \<sigma>" "len_inv \<sigma>" "data_inv \<sigma>" using i by (simp_all add: packet_inv_def pbuf_inv_def)
  obtain off where off: "pb_payload b = Some (Own p, off)" "0 \<le> off" "nat off + unat (pb_len b) \<le> length (bytes_of \<sigma> (Own p))"
    using inv(4) b by (auto simp: data_inv_def data_ok_def)
  have tot: "unat (pb_tot_len b) = unat (pb_len b) + tot_of \<sigma> (pb_next b)" using inv(3) b(1) by (simp add: len_inv_def)
  have lt: "uint (pb_len b) \<le> uint (pb_tot_len b)" using tot unfolding uint_nat by linarith
  define b' where "b' = b\<lparr>pb_payload := Some (Own p, off - inc), pb_len := pb_len b + word_of_int inc, pb_tot_len := pb_tot_len b + word_of_int inc\<rparr>"
  let ?s = "put_pb p b' \<sigma>"
  have l': "uint (pb_len b') = uint (pb_len b) + inc" "uint (pb_tot_len b') = uint (pb_tot_len b) + inc"
    using inc lt by (simp_all add: b'_def uint_word_ariths uint_word_of_int mod_simps)
  show ?thesis
  proof (cases "inc = 0")
    case True
    then show ?thesis using i by (simp add: pbuf_header_def)
  next
    case nz: False
    show ?thesis
    proof (cases "off - inc < 0")
      case True
      then have "pbuf_header (Some p) inc \<sigma> = Some (1, \<sigma>)" using nz b off inc by (auto simp: pbuf_header_def guard_def)
      moreover have "0 < inc" using True off(2) by linarith
      ultimately show ?thesis using i by auto
    next
      case False
      then have run: "pbuf_header (Some p) inc \<sigma> = Some (0, ?s)"
        using nz b off inc by (auto simp: pbuf_header_def guard_def b'_def)
      have ref: "ref_inv ?s ext" by (rule ref_inv_relink [OF inv(1) b(1)]) (use ref_invD(1) [OF inv(1) b(1)] in \<open>auto simp: b'_def\<close>)
      have pool: "pool_inv ?s" using pool_inv_put [OF inv(2)] b(1) by blast
      have tt: "unat (pb_tot_len b') = unat (pb_len b') + tot_of \<sigma> (pb_next b)"
      proof -
        have "int (unat (pb_tot_len b')) = int (unat (pb_len b')) + int (tot_of \<sigma> (pb_next b))"
          using l' tot unfolding uint_nat by linarith
        then show ?thesis by linarith
      qed
      have nx: "tot_of ?s (pb_next ba) = tot_of \<sigma> (pb_next ba)" if "pbs \<sigma> a = Some ba" for a ba
      proof (cases "pb_next ba")
        case (Some y)
        then have "y \<noteq> p" using pre that by (auto simp: preds_def)
        then show ?thesis using Some by (simp add: tot_of_def)
      qed simp
      have len: "len_inv ?s" unfolding len_inv_def
      proof (intro allI impI)
        fix a ba assume a: "pbs ?s a = Some ba"
        show "unat (pb_tot_len ba) = unat (pb_len ba) + tot_of ?s (pb_next ba)"
        proof (cases "a = p")
          case True
          then have "ba = b'" using a by simp
          then show ?thesis using tt nx [OF b(1)] by (simp add: b'_def)
        next
          case False
          then show ?thesis using a nx inv(3) by (simp add: len_inv_def)
        qed
      qed
      have fit': "nat (off - inc) + unat (pb_len b') \<le> length (bytes_of \<sigma> (Own p))"
      proof -
        have "int (nat (off - inc)) + int (unat (pb_len b')) = int (nat off) + int (unat (pb_len b))"
          using l'(1) False off(2) unfolding uint_nat by linarith
        then show ?thesis using off(3) by linarith
      qed
      have dat: "data_inv ?s" unfolding data_inv_def
      proof (intro allI impI)
        fix a ba assume a: "pbs ?s a = Some ba"
        show "data_ok ?s a ba"
        proof (cases "a = p")
          case True
          then have "ba = b'" using a by simp
          then show ?thesis using True fit' False by (auto simp: data_ok_def b'_def)
        next
          case False
          then show ?thesis using a inv(4) by (simp add: data_inv_def data_ok_def)
        qed
      qed
      have p': "packet_inv ?s ext" using ref pool len dat by (simp add: packet_inv_def pbuf_inv_def)
      have d: "pdata \<sigma> p = take (unat (pb_len b)) (drop (nat off) (bytes_of \<sigma> (Own p)))"
        "pdata ?s p = take (unat (pb_len b')) (drop (nat (off - inc)) (bytes_of \<sigma> (Own p)))"
        using b(1) off(1) by (simp_all add: pdata_def) (simp add: b'_def)
      have dd: "if inc \<le> 0 then pdata ?s p = drop (nat (- inc)) (pdata \<sigma> p) else drop (nat inc) (pdata ?s p) = pdata \<sigma> p"
      proof (cases "inc \<le> 0")
        case True
        have "nat (off - inc) = nat (- inc) + nat off" "unat (pb_len b') = unat (pb_len b) - nat (- inc)"
          using True off(2) l'(1) unfolding uint_nat by linarith+
        then show ?thesis unfolding d using True by (simp add: drop_take)
      next
        case neg: False
        have "nat off = nat inc + nat (off - inc)" "unat (pb_len b) = unat (pb_len b') - nat inc"
          using neg off(2) False l'(1) unfolding uint_nat by linarith+
        then show ?thesis unfolding d using neg by (simp add: drop_take)
      qed
      have tt': "int (tot_of ?s (Some p)) = int (tot_of \<sigma> (Some p)) + inc" 
      proof -
        have "tot_of ?s (Some p) = unat (pb_tot_len b')" "tot_of \<sigma> (Some p) = unat (pb_tot_len b)" using b(1) by simp_all
        then show ?thesis using l'(2) unfolding uint_nat by linarith
      qed
      have again: "pbuf_header (Some p) (- inc) ?s = Some (0, \<sigma>)"
      proof -
        have g: "- inc < 0 \<longrightarrow> inc \<le> uint (pb_len b')" using l'(1) by simp
        have ty: "pb_type b' = PBUF_RAM \<or> pb_type b' = PBUF_POOL" "pb_payload b' = Some (Own p, off - inc)" using b(2) by (simp_all add: b'_def)
        have "b'\<lparr>pb_payload := Some (Own p, off), pb_len := pb_len b' + word_of_int (- inc), pb_tot_len := pb_tot_len b' + word_of_int (- inc)\<rparr> = b"
          using off(1) by (simp add: b'_def)
        moreover have "put_pb p b ?s = \<sigma>" using b(1) by (simp add: put_pb_def fun_upd_idem)
        ultimately show ?thesis using nz g ty off(2) by (simp add: pbuf_header_def guard_def)
      qed
      show ?thesis using run p' dd tt' again by auto
    qed
  qed
qed

end
