(* ===== verification/Pbuf_Copy.thy ===== *)
theory Pbuf_Copy
  imports Pbuf_Ops
begin

text \<open>
  Copying: \<open>pbuf_copy_partial\<close> reads a part of the contents of a chain, \<open>pbuf_take\<close> and \<open>pbuf_copy\<close> write
  the first bytes of one, and \<open>pbuf_coalesce\<close> replaces a chain by a single buffer.
\<close>

subsection \<open>Reading\<close>

lemma load_pdata:
  assumes "pbs \<sigma> a = Some b" "in_block (pb_payload b) 0 (unat (pb_len b)) \<sigma>" "k + n \<le> unat (pb_len b)"
  shows "load (pb_payload b) k n \<sigma> = Some (take n (drop k (pdata \<sigma> a)))"
proof -
  obtain blk off where o: "pb_payload b = Some (blk, off)" "0 \<le> off" "nat off + unat (pb_len b) \<le> length (bytes_of \<sigma> blk)"
    using assms(2) by (auto simp: in_block_def split: option.splits)
  have "take n (drop k (pdata \<sigma> a)) = take n (drop (nat off + k) (bytes_of \<sigma> blk))"
    using assms(1,3) o by (simp add: pdata_def drop_take min_def add.commute)
  then show ?thesis using o assms(3) by (simp add: load_def in_block_def guard_def)
qed

lemma partial_loop_ok:
  assumes "chain \<sigma> p as" "readable \<sigma> as"
  shows "partial_loop p len off acc \<sigma> = Some (acc @ take len (drop off (content \<sigma> as)))"
  using assms
proof (induction as arbitrary: p len off acc)
  case Nil
  then show ?case by (simp add: partial_loop.simps)
next
  case (Cons a as)
  then obtain b :: pbuf where b: "p = Some a" "pbs \<sigma> a = Some b" "chain \<sigma> (pb_next b) as" by (cases "pbs \<sigma> a") auto
  have rd: "in_block (pb_payload b) 0 (unat (pb_len b)) \<sigma>" "readable \<sigma> as" using Cons.prems(2) b(2) by (auto simp: readable_def)
  have ld: "length (pdata \<sigma> a) = unat (pb_len b)" by (rule length_pdata [OF b(2) rd(1)])
  note IH = Cons.IH [OF b(3) rd(2)]
  show ?case
  proof (cases "len = 0")
    case True
    then show ?thesis by (simp add: partial_loop.simps)
  next
    case False
    show ?thesis
    proof (cases "off \<noteq> 0 \<and> off \<ge> unat (pb_len b)")
      case True
      then show ?thesis using False b IH [of len "off - unat (pb_len b)" acc] ld by (subst partial_loop.simps) simp
    next
      case F: False
      define n where "n = min (unat (pb_len b) - off) len"
      have le: "off \<le> unat (pb_len b)" using F by (cases "off = 0") auto
      have "off + n \<le> unat (pb_len b)" using le by (simp add: n_def)
      then have l: "load (pb_payload b) off n \<sigma> = Some (take n (drop off (pdata \<sigma> a)))" by (rule load_pdata [OF b(2) rd(1)])
      have "take len (drop off (content \<sigma> (a # as))) = take n (drop off (pdata \<sigma> a)) @ take (len - n) (content \<sigma> as)"
        using le ld by (auto simp: n_def min_def)
      moreover have "partial_loop p len off acc \<sigma> = partial_loop (pb_next b) (len - n) 0 (acc @ take n (drop off (pdata \<sigma> a))) \<sigma>"
        using False F b(1,2) l by (subst partial_loop.simps) (auto simp: n_def Let_def)
      ultimately show ?thesis using IH [of "len - n" 0] by simp
    qed
  qed
qed

lemma pbuf_copy_partial_ok:
  "chain \<sigma> (Some p) as \<Longrightarrow> readable \<sigma> as \<Longrightarrow> pbuf_copy_partial (Some p) len off \<sigma> = Some (take (unat len) (drop (unat off) (content \<sigma> as)))"
  by (simp add: pbuf_copy_partial_def guard_def partial_loop_ok)

subsection \<open>Writing\<close>

text \<open>Chains of pbufs with memory of their own.\<close>

definition owns :: "pmem \<Rightarrow> paddr list \<Rightarrow> bool" where
  "owns \<sigma> as \<longleftrightarrow> (\<forall>a\<in>set as. \<exists>b off. pbs \<sigma> a = Some b \<and> pb_payload b = Some (Own a, off) \<and> 0 \<le> off \<and>
     nat off + unat (pb_len b) \<le> length (bytes_of \<sigma> (Own a)))"

lemma owns_readable: "owns \<sigma> as \<Longrightarrow> readable \<sigma> as"
  by (fastforce simp: owns_def readable_def in_block_def)

lemma owns_types:
  assumes "data_inv \<sigma>" "\<And>a. a \<in> set as \<Longrightarrow> \<exists>b. pbs \<sigma> a = Some b \<and> (pb_type b = PBUF_RAM \<or> pb_type b = PBUF_POOL)"
  shows "owns \<sigma> as"
  using assms unfolding owns_def data_inv_def data_ok_def by blast

text \<open>Only bytes of blocks in \<open>A\<close> have changed.\<close>

definition wrote :: "pmem \<Rightarrow> pmem \<Rightarrow> paddr set \<Rightarrow> bool" where
  "wrote \<sigma> \<sigma>' A \<longleftrightarrow> pbs \<sigma>' = pbs \<sigma> \<and> memp_tab \<sigma>' = memp_tab \<sigma> \<and> (\<forall>x. x \<notin> Own ` A \<longrightarrow> bytes_of \<sigma>' x = bytes_of \<sigma> x) \<and>
     (\<forall>x. length (bytes_of \<sigma>' x) = length (bytes_of \<sigma> x))"

lemma wrote_refl: "wrote \<sigma> \<sigma> A"
  by (simp add: wrote_def)

lemma wrote_trans: "wrote \<sigma> \<rho> A \<Longrightarrow> wrote \<rho> \<tau> B \<Longrightarrow> A \<subseteq> C \<Longrightarrow> B \<subseteq> C \<Longrightarrow> wrote \<sigma> \<tau> C"
  unfolding wrote_def by (metis image_mono subsetD)

lemma wrote_inv: "wrote \<sigma> \<sigma>' A \<Longrightarrow> packet_inv \<sigma>' ext = packet_inv \<sigma> ext"
proof -
  assume w: "wrote \<sigma> \<sigma>' A"
  then have p: "pbs \<sigma>' = pbs \<sigma>" "memp_tab \<sigma>' = memp_tab \<sigma>" "\<And>x. length (bytes_of \<sigma>' x) = length (bytes_of \<sigma> x)" by (simp_all add: wrote_def)
  have "data_inv \<sigma>' = data_inv \<sigma>" by (simp add: data_inv_def data_ok_def p)
  moreover have "len_inv \<sigma>' = len_inv \<sigma>" by (simp add: len_inv_def p tot_of_pbs [OF p(1)])
  moreover have "pool_inv \<sigma>' = pool_inv \<sigma>" by (simp add: pool_inv_def p)
  ultimately show ?thesis by (simp add: packet_inv_def pbuf_inv_def ref_inv_pbs [OF p(1)])
qed

lemma wrote_owns: "wrote \<sigma> \<sigma>' A \<Longrightarrow> owns \<sigma>' as = owns \<sigma> as"
  by (simp add: wrote_def owns_def)

lemma wrote_readable: "wrote \<sigma> \<sigma>' A \<Longrightarrow> readable \<sigma>' as = readable \<sigma> as"
proof -
  assume w: "wrote \<sigma> \<sigma>' A"
  then have "in_block pay k n \<sigma>' = in_block pay k n \<sigma>" for pay k n by (cases pay) (auto simp: wrote_def in_block_def)
  then show ?thesis using w by (simp add: wrote_def readable_def)
qed

lemma wrote_chain: "wrote \<sigma> \<sigma>' A \<Longrightarrow> chain \<sigma>' p as = chain \<sigma> p as"
  by (rule chain_pbs) (simp add: wrote_def)

lemma wrote_plen: "wrote \<sigma> \<sigma>' A \<Longrightarrow> plen \<sigma>' = plen \<sigma>"
  by (simp add: wrote_def plen_def fun_eq_iff)

text \<open>The chain does not point into blocks of \<open>A\<close>.\<close>

definition apart :: "pmem \<Rightarrow> paddr list \<Rightarrow> paddr set \<Rightarrow> bool" where
  "apart \<sigma> as A \<longleftrightarrow> (\<forall>a\<in>set as. \<forall>b blk off. pbs \<sigma> a = Some b \<longrightarrow> pb_payload b = Some (blk, off) \<longrightarrow> blk \<notin> Own ` A)"

lemma wrote_pdata: "wrote \<sigma> \<sigma>' A \<Longrightarrow> apart \<sigma> [a] A \<Longrightarrow> pdata \<sigma>' a = pdata \<sigma> a"
  by (cases "pbs \<sigma> a") (auto simp: wrote_def pdata_def apart_def split: option.splits)

lemma wrote_content:
  assumes "wrote \<sigma> \<sigma>' A" "apart \<sigma> as A"
  shows "content \<sigma>' as = content \<sigma> as"
  unfolding content_def by (intro arg_cong [where f = concat] map_cong refl wrote_pdata [OF assms(1)]) (use assms(2) in \<open>simp add: apart_def\<close>)

lemma owns_apart: "owns \<sigma> as \<Longrightarrow> set as \<inter> A = {} \<Longrightarrow> apart \<sigma> as A"
  by (fastforce simp: owns_def apart_def)

definition patch :: "nat \<Rightarrow> 'a list \<Rightarrow> 'a list \<Rightarrow> 'a list" where
  "patch k xs c = take k c @ xs @ drop (k + length xs) c"

lemma length_patch: "k + length xs \<le> length c \<Longrightarrow> length (patch k xs c) = length c"
  by (simp add: patch_def)

lemma patch_patch: "k + length xs + length ys \<le> length c \<Longrightarrow> patch (k + length xs) ys (patch k xs c) = patch k (xs @ ys) c"
  by (simp add: patch_def ac_simps)

lemma patch_append1: "k + length xs \<le> length c \<Longrightarrow> patch k xs c @ d = patch k xs (c @ d)"
  by (simp add: patch_def)

lemma patch_append2: "c @ patch 0 xs d = patch (length c) xs (c @ d)"
  by (simp add: patch_def)

lemma nth_patch: "k + length xs \<le> length c \<Longrightarrow> i < length c \<Longrightarrow>
    patch k xs c ! i = (if i < k then c ! i else if i < k + length xs then xs ! (i - k) else c ! i)"
  by (auto simp: patch_def nth_append)

lemma window_patch:
  assumes "k + length xs \<le> l" "off + l \<le> length c"
  shows "take l (drop off (patch (off + k) xs c)) = patch k xs (take l (drop off c))"
proof (rule nth_equalityI)
  show "length (take l (drop off (patch (off + k) xs c))) = length (patch k xs (take l (drop off c)))"
    using assms by (simp add: length_patch)
  fix i assume "i < length (take l (drop off (patch (off + k) xs c)))"
  then have "i < l" by simp
  then show "take l (drop off (patch (off + k) xs c)) ! i = patch k xs (take l (drop off c)) ! i"
    using assms by (simp add: nth_patch length_patch)
qed

lemma store_ok:
  assumes o: "owns \<sigma> [a]" and b: "pbs \<sigma> a = Some b" and k: "k + length xs \<le> unat (pb_len b)"
  shows "\<exists>\<sigma>'. store (pb_payload b) k xs \<sigma> = Some \<sigma>' \<and> wrote \<sigma> \<sigma>' {a} \<and> pdata \<sigma>' a = patch k xs (pdata \<sigma> a)"
proof -
  obtain off where off: "pb_payload b = Some (Own a, off)" "0 \<le> off" "nat off + unat (pb_len b) \<le> length (bytes_of \<sigma> (Own a))"
    using o b by (auto simp: owns_def)
  let ?old = "bytes_of \<sigma> (Own a)" and ?o = "nat off + k"
  let ?s = "\<sigma>\<lparr>bytes_of := (bytes_of \<sigma>)(Own a := patch ?o xs ?old)\<rparr>"
  have fit: "?o + length xs \<le> length ?old" using off(3) k by simp
  have "store (pb_payload b) k xs \<sigma> = Some ?s" using off(1,2) fit by (simp add: store_def in_block_def guard_def Let_def patch_def)
  moreover have "wrote \<sigma> ?s {a}" using length_patch [OF fit] by (simp add: wrote_def)
  moreover have "pdata ?s a = patch k xs (pdata \<sigma> a)"
    using b off(1) window_patch [OF k off(3)] by (simp add: pdata_def)
  ultimately show ?thesis by blast
qed

subsection \<open>\<open>pbuf_take\<close>\<close>

lemma store_chain:
  assumes o: "owns \<sigma> (a # as)" "a \<notin> set as" and b: "pbs \<sigma> a = Some b" and k: "k + length xs \<le> unat (pb_len b)"
  shows "\<exists>\<sigma>'. store (pb_payload b) k xs \<sigma> = Some \<sigma>' \<and> wrote \<sigma> \<sigma>' {a} \<and> content \<sigma>' (a # as) = patch k xs (content \<sigma> (a # as)) \<and>
    pdata \<sigma>' a = patch k xs (pdata \<sigma> a) \<and> content \<sigma>' as = content \<sigma> as"
proof -
  have oa: "owns \<sigma> [a]" and os: "owns \<sigma> as" using o(1) by (simp_all add: owns_def)
  obtain \<sigma>' where s: "store (pb_payload b) k xs \<sigma> = Some \<sigma>'" "wrote \<sigma> \<sigma>' {a}" "pdata \<sigma>' a = patch k xs (pdata \<sigma> a)"
    using store_ok [OF oa b k] by blast
  have "content \<sigma>' as = content \<sigma> as" by (rule wrote_content [OF s(2) owns_apart [OF os]]) (use o(2) in simp)
  moreover have "length (pdata \<sigma> a) = unat (pb_len b)" using owns_readable [OF oa] b by (auto simp: readable_def intro: length_pdata)
  ultimately show ?thesis using s k by (simp add: patch_append1)
qed

lemma take_loop_ok:
  assumes "chain \<sigma> p as" "owns \<sigma> as" "length data \<le> length (content \<sigma> as)"
  shows "\<exists>\<sigma>'. take_loop p data \<sigma> = Some \<sigma>' \<and> wrote \<sigma> \<sigma>' (set as) \<and> content \<sigma>' as = patch 0 data (content \<sigma> as)"
  using assms
proof (induction as arbitrary: p data \<sigma>)
  case Nil
  then show ?case by (simp add: take_loop.simps wrote_refl patch_def)
next
  case (Cons a as)
  then obtain b :: pbuf where b: "p = Some a" "pbs \<sigma> a = Some b" "chain \<sigma> (pb_next b) as" by (cases "pbs \<sigma> a") auto
  have a: "a \<notin> set as" using chain_distinct [OF Cons.prems(1)] by simp
  have ld: "length (pdata \<sigma> a) = unat (pb_len b)" using owns_readable [OF Cons.prems(2)] b(2) by (auto simp: readable_def intro: length_pdata)
  show ?case
  proof (cases "data = []")
    case True
    then show ?thesis by (simp add: take_loop.simps wrote_refl patch_def)
  next
    case False
    define n where "n = min (length data) (unat (pb_len b))"
    have n: "0 + length (take n data) \<le> unat (pb_len b)" by (simp add: n_def)
    obtain \<rho> where r: "store (pb_payload b) 0 (take n data) \<sigma> = Some \<rho>" "wrote \<sigma> \<rho> {a}" "pdata \<rho> a = patch 0 (take n data) (pdata \<sigma> a)"
      "content \<rho> as = content \<sigma> as"
      using store_chain [OF Cons.prems(2) a b(2) n] by blast
    have ch: "chain \<rho> (pb_next b) as" using b(3) by (simp add: wrote_chain [OF r(2)])
    have ow: "owns \<rho> as" using Cons.prems(2) by (simp add: wrote_owns [OF r(2)]) (simp add: owns_def)
    have le: "length (drop n data) \<le> length (content \<rho> as)" using Cons.prems(3) r(4) ld by (auto simp: n_def min_def)
    obtain \<sigma>' where s: "take_loop (pb_next b) (drop n data) \<rho> = Some \<sigma>'" "wrote \<rho> \<sigma>' (set as)"
      "content \<sigma>' as = patch 0 (drop n data) (content \<rho> as)"
      using Cons.IH [OF ch ow le] by blast
    have oa: "owns \<rho> [a]" using Cons.prems(2) by (simp add: wrote_owns [OF r(2)]) (simp add: owns_def)
    have "pdata \<sigma>' a = pdata \<rho> a" by (rule wrote_pdata [OF s(2) owns_apart [OF oa]]) (use a in simp)
    then have "content \<sigma>' (a # as) = patch 0 data (content \<sigma> (a # as))"
      using s(3) r(3,4) ld by (auto simp: patch_def n_def min_def)
    moreover have "take_loop p data \<sigma> = Some \<sigma>'" using False b(1,2) r(1) s(1) by (subst take_loop.simps) (simp add: n_def Let_def)
    moreover have "wrote \<sigma> \<sigma>' (set (a # as))" by (rule wrote_trans [OF r(2) s(2)]) auto
    ultimately show ?thesis by blast
  qed
qed

lemma pbuf_take_ok:
  assumes i: "packet_inv \<sigma> ext" and c: "chain \<sigma> (Some p) as" and o: "owns \<sigma> as"
  shows "if length data \<le> length (content \<sigma> as)
    then \<exists>\<sigma>'. pbuf_take (Some p) data \<sigma> = Some (0, \<sigma>') \<and> wrote \<sigma> \<sigma>' (set as) \<and> content \<sigma>' as = patch 0 data (content \<sigma> as)
    else pbuf_take (Some p) data \<sigma> = Some (ERR_ARG, \<sigma>)"
proof -
  obtain b :: pbuf where b: "pbs \<sigma> p = Some b" using c by (auto simp: chain_Some)
  have "unat (pb_tot_len b) = length (content \<sigma> as)"
    using len_inv_chain [OF _ c] i b length_content [OF owns_readable [OF o]] by (simp add: packet_inv_def)
  then show ?thesis using take_loop_ok [OF c o, of data] b by (auto simp: pbuf_take_def)
qed

subsection \<open>\<open>pbuf_copy\<close>\<close>

definition nonempty :: "pmem \<Rightarrow> paddr list \<Rightarrow> bool" where
  "nonempty \<sigma> as \<longleftrightarrow> (\<forall>a\<in>set as. 0 < plen \<sigma> a)"

lemma one_packet_ok:
  assumes "chain \<sigma> p as" "len_inv \<sigma>" "nonempty \<sigma> as"
  shows "one_packet p \<sigma> = Some ()"
proof (cases p)
  case (Some a)
  then obtain b :: pbuf and bs where b: "as = a # bs" "pbs \<sigma> a = Some b" "chain \<sigma> (pb_next b) bs" using assms(1) by (auto simp: chain_Some)
  have "pb_next b = None" if "pb_len b = pb_tot_len b"
  proof (cases bs)
    case Nil
    then show ?thesis using b(3) by simp
  next
    case (Cons c cs)
    have "unat (pb_tot_len b) = unat (pb_len b) + tot_of \<sigma> (pb_next b)" using assms(2) b(2) by (simp add: len_inv_def)
    moreover have "0 < tot_of \<sigma> (pb_next b)"
      unfolding len_inv_chain [OF assms(2) b(3)] using assms(3) by (simp add: Cons b(1) nonempty_def)
    ultimately show ?thesis using that by simp
  qed
  then show ?thesis using Some b(2) by (simp add: one_packet_def guard_def)
qed (simp add: one_packet_def)

lemma wrote_len_inv: "wrote \<sigma> \<sigma>' A \<Longrightarrow> len_inv \<sigma>' = len_inv \<sigma>"
  by (simp add: wrote_def len_inv_def tot_of_pbs [of \<sigma>' \<sigma>])

lemma wrote_nonempty: "wrote \<sigma> \<sigma>' A \<Longrightarrow> nonempty \<sigma>' as = nonempty \<sigma> as"
  by (simp add: nonempty_def wrote_plen)

lemma wrote_apart: "wrote \<sigma> \<sigma>' A \<Longrightarrow> apart \<sigma>' as B = apart \<sigma> as B"
  by (simp add: wrote_def apart_def)

definition copyable :: "pmem \<Rightarrow> paddr option \<Rightarrow> paddr option \<Rightarrow> paddr list \<Rightarrow> paddr list \<Rightarrow> bool" where
  "copyable \<sigma> p q ts fs \<longleftrightarrow> chain \<sigma> p ts \<and> chain \<sigma> q fs \<and> owns \<sigma> ts \<and> readable \<sigma> fs \<and> apart \<sigma> fs (set ts) \<and> len_inv \<sigma> \<and>
     nonempty \<sigma> ts \<and> nonempty \<sigma> fs"

lemma wrote_copyable: "wrote \<sigma> \<sigma>' A \<Longrightarrow> copyable \<sigma>' p q ts fs = copyable \<sigma> p q ts fs"
  by (simp add: copyable_def wrote_chain wrote_owns wrote_readable wrote_apart wrote_len_inv wrote_nonempty)

lemma copyable_next:
  assumes "copyable \<sigma> p q (t # ts) fs" "pbs \<sigma> t = Some b"
  shows "copyable \<sigma> (pb_next b) q ts fs"
  using assms by (auto simp: copyable_def owns_def nonempty_def apart_def)

lemma copyable_next_from:
  assumes "copyable \<sigma> p q ts (f # fs)" "pbs \<sigma> f = Some b"
  shows "copyable \<sigma> p (pb_next b) ts fs"
  using assms by (auto simp: copyable_def readable_def nonempty_def apart_def)

lemma plen_Some: "pbs \<sigma> a = Some b \<Longrightarrow> plen \<sigma> a = unat (pb_len b)"
  by (simp add: plen_def)

text \<open>One round copies \<open>n\<close> bytes; then one of the two chains advances.\<close>

lemma copy_round:
  assumes c: "copyable \<sigma> (Some t) (Some f) (t # ts) (f # fs)" and b: "pbs \<sigma> t = Some bt" "pbs \<sigma> f = Some bf"
    and o: "kt < unat (pb_len bt)" "kf < unat (pb_len bf)"
  defines "n \<equiv> min (unat (pb_len bt) - kt) (unat (pb_len bf) - kf)"
  defines "to' \<equiv> if kt + n = unat (pb_len bt) then (pb_next bt, 0) else (Some t, kt + n)"
  defines "from' \<equiv> if kf + n \<ge> unat (pb_len bf) then (pb_next bf, 0) else (Some f, kf + n)"
  defines "xs \<equiv> take n (drop kf (pdata \<sigma> f))"
  shows "\<exists>\<rho>. copy_loop (Some t) (Some f) kt kf \<sigma> =
      (if fst from' = None then Some (0, \<rho>) else copy_loop (fst to') (fst from') (snd to') (snd from') \<rho>) \<and>
    wrote \<sigma> \<rho> {t} \<and> content \<rho> (t # ts) = patch kt xs (content \<sigma> (t # ts)) \<and> length xs = n \<and> content \<rho> (f # fs) = content \<sigma> (f # fs)"
proof -
  have ch: "chain \<sigma> (Some t) (t # ts)" "chain \<sigma> (Some f) (f # fs)" and ow: "owns \<sigma> (t # ts)" and rd: "readable \<sigma> (f # fs)"
    and ap: "apart \<sigma> (f # fs) (set (t # ts))" using c by (simp_all add: copyable_def)
  have ne: "t \<notin> set ts" using chain_distinct [OF ch(1)] by simp
  have inb: "in_block (pb_payload bf) 0 (unat (pb_len bf)) \<sigma>" using rd b(2) by (simp add: readable_def)
  have ld: "load (pb_payload bf) kf n \<sigma> = Some xs" unfolding xs_def by (rule load_pdata [OF b(2) inb]) (use o in \<open>simp add: n_def\<close>)
  have lx: "length xs = n" using length_pdata [OF b(2) inb] by (simp add: xs_def n_def)
  have "kt + length xs \<le> unat (pb_len bt)" using o lx by (simp add: n_def)
  then obtain \<rho> where r: "store (pb_payload bt) kt xs \<sigma> = Some \<rho>" "wrote \<sigma> \<rho> {t}" "content \<rho> (t # ts) = patch kt xs (content \<sigma> (t # ts))"
    using store_chain [OF ow ne b(1)] by blast
  have cf: "content \<rho> (f # fs) = content \<sigma> (f # fs)" by (rule wrote_content [OF r(2)]) (use ap in \<open>auto simp: apart_def\<close>)
  obtain off where pt: "pb_payload bt = Some (Own t, off)" using ow b(1) by (auto simp: owns_def)
  have ov: "\<not> overlap (pb_payload bt) kt (pb_payload bf) kf n"
  proof (cases "pb_payload bf")
    case (Some po)
    obtain blk off' where po: "po = (blk, off')" by (cases po)
    have "blk \<notin> Own ` set (t # ts)" using ap b(2) Some unfolding po apart_def by simp
    then have "blk \<noteq> Own t" by simp
    then show ?thesis using Some by (auto simp: po overlap_def pt)
  qed (simp add: overlap_def pt)
  have cr: "copyable \<rho> (Some t) (Some f) (t # ts) (f # fs)" using c by (simp add: wrote_copyable [OF r(2)])
  have b': "pbs \<rho> t = Some bt" "pbs \<rho> f = Some bf" using b r(2) by (simp_all add: wrote_def)
  have "copyable \<rho> (pb_next bt) (Some f) ts (f # fs)" "copyable \<rho> (Some t) (pb_next bf) (t # ts) fs"
    by (rule copyable_next [OF cr b'(1)], rule copyable_next_from [OF cr b'(2)])
  then have "one_packet (pb_next bt) \<rho> = Some ()" "one_packet (Some t) \<rho> = Some ()" "one_packet (pb_next bf) \<rho> = Some ()" "one_packet (Some f) \<rho> = Some ()"
    using cr by (auto simp: copyable_def simp del: chain.simps intro: one_packet_ok)
  then have op: "one_packet (fst to') \<rho> = Some ()" "one_packet (fst from') \<rho> = Some ()"
    by (simp_all add: to'_def from'_def)
  have "(if int m - int kf \<le> int l - int kt then m - kf else l - kt) = min (l - kt) (m - kf)" if "kt < l" "kf < m" for l m using that by auto
  from this [OF o] have n: "(if uint (pb_len bf) - int kf \<le> uint (pb_len bt) - int kt then unat (pb_len bf) - kf else unat (pb_len bt) - kt) = n"
    by (simp add: n_def)
  have nn: "kt + n \<le> unat (pb_len bt)" "kf + n \<le> unat (pb_len bf)" using o by (simp_all add: n_def)
  have "copy_loop (Some t) (Some f) kt kf \<sigma> =
      (if fst from' = None then Some (0, \<rho>) else copy_loop (fst to') (fst from') (snd to') (snd from') \<rho>)"
    using o op
    by (subst copy_loop.simps) (auto simp: Let_def b n nn ov ld r(1) guard_def to'_def from'_def split: prod.splits)
  then show ?thesis using r(2,3) lx cf by blast
qed

lemma copy_loop_ok:
  assumes "copyable \<sigma> p q ts fs" "fs \<noteq> []" "kf < plen \<sigma> (hd fs)" "ts \<noteq> [] \<Longrightarrow> kt < plen \<sigma> (hd ts)"
    "length (content \<sigma> fs) + kt \<le> length (content \<sigma> ts) + kf"
  shows "\<exists>\<sigma>'. copy_loop p q kt kf \<sigma> = Some (0, \<sigma>') \<and> wrote \<sigma> \<sigma>' (set ts) \<and>
    content \<sigma>' ts = patch kt (drop kf (content \<sigma> fs)) (content \<sigma> ts)"
  using assms
proof (induction "length ts + length fs" arbitrary: \<sigma> p q ts fs kt kf rule: less_induct)
  case less
  obtain f fs' where fs: "fs = f # fs'" using less.prems(2) by (cases fs) auto
  have lens: "length (content \<sigma> ts) = sum_list (map (plen \<sigma>) ts)" "length (content \<sigma> fs) = sum_list (map (plen \<sigma>) fs)"
    using less.prems(1) by (simp_all add: copyable_def length_content owns_readable)
  obtain t ts' where ts: "ts = t # ts'" using less.prems(3,5) lens fs by (cases ts) auto
  obtain bt bf where b: "pbs \<sigma> t = Some bt" "pbs \<sigma> f = Some bf" and pq: "p = Some t" "q = Some f"
    using less.prems(1) unfolding ts fs copyable_def by (auto split: option.splits)
  have k: "kt < unat (pb_len bt)" "kf < unat (pb_len bf)" using less.prems(3,4) by (simp_all add: ts fs plen_Some [OF b(1)] plen_Some [OF b(2)])
  define n where "n = min (unat (pb_len bt) - kt) (unat (pb_len bf) - kf)"
  define to' where "to' = (if kt + n = unat (pb_len bt) then (pb_next bt, 0) else (Some t, kt + n))"
  define from' where "from' = (if kf + n \<ge> unat (pb_len bf) then (pb_next bf, 0) else (Some f, kf + n))"
  define xs where "xs = take n (drop kf (pdata \<sigma> f))"
  have c: "copyable \<sigma> (Some t) (Some f) (t # ts') (f # fs')" using less.prems(1) by (simp add: ts fs pq)
  obtain \<rho> where r: "copy_loop p q kt kf \<sigma> =
      (if fst from' = None then Some (0, \<rho>) else copy_loop (fst to') (fst from') (snd to') (snd from') \<rho>)"
    "wrote \<sigma> \<rho> {t}" "content \<rho> ts = patch kt xs (content \<sigma> ts)" "length xs = n" "content \<rho> fs = content \<sigma> fs"
    using copy_round [OF c b k] unfolding ts fs pq n_def to'_def from'_def xs_def by blast
  define ts1 where "ts1 = (if kt + n = unat (pb_len bt) then ts' else ts)"
  define fs1 where "fs1 = (if kf + n \<ge> unat (pb_len bf) then fs' else fs)"
  have cr: "copyable \<rho> (Some t) (Some f) ts fs" using c by (simp add: wrote_copyable [OF r(2)] ts fs)
  have b': "pbs \<rho> t = Some bt" "pbs \<rho> f = Some bf" using b r(2) by (simp_all add: wrote_def)
  define ys where "ys = drop (snd from') (content \<rho> fs1)"
  have n: "kt + n \<le> unat (pb_len bt)" "kf + n \<le> unat (pb_len bf)" "kt + n = unat (pb_len bt) \<or> kf + n = unat (pb_len bf)"
    using k by (auto simp: n_def)
  have c1: "copyable \<rho> (fst to') (fst from') ts1 fs1"
    using copyable_next [of \<rho> "Some t" _ t ts' _ bt] copyable_next_from [of \<rho> _ "Some f" _ f fs' bf] cr b'
    by (simp add: to'_def from'_def ts1_def fs1_def ts fs)
  have lt: "length (pdata \<rho> t) = unat (pb_len bt)" and lf: "length (pdata \<rho> f) = unat (pb_len bf)" "pdata \<rho> f = pdata \<sigma> f"
  proof -
    have "readable \<rho> ts" "readable \<rho> fs" using cr by (simp_all add: copyable_def owns_readable)
    then show "length (pdata \<rho> t) = unat (pb_len bt)" "length (pdata \<rho> f) = unat (pb_len bf)"
      using b' by (auto simp: readable_def ts fs intro: length_pdata)
    have "apart \<sigma> [f] {t}" using c by (auto simp: copyable_def apart_def)
    then show "pdata \<rho> f = pdata \<sigma> f" by (rule wrote_pdata [OF r(2)])
  qed
  have split: "drop kf (content \<sigma> fs) = xs @ ys"
  proof -
    have "drop kf (content \<sigma> fs) = take n (drop kf (content \<rho> fs)) @ drop (kf + n) (content \<rho> fs)"
      using append_take_drop_id [of n "drop kf (content \<rho> fs)"] r(5) by (simp add: add.commute)
    moreover have "take n (drop kf (content \<rho> fs)) = xs" using n(2) lf by (simp add: xs_def fs)
    moreover have "drop (kf + n) (content \<rho> fs) = ys" using n(2) lf by (simp add: ys_def fs1_def from'_def fs)
    ultimately show ?thesis by simp
  qed
  have total: "kt + length xs + length ys \<le> length (content \<sigma> ts)"
    using less.prems(5) arg_cong [OF split, of length] k(2) lens(2) n(2) by (simp add: fs plen_Some [OF b(2)])
  have lr: "length (content \<rho> ts) = length (content \<sigma> ts)" using r(3) total by (simp add: length_patch)
  have rest: "wrote \<sigma> \<sigma>' (set ts) \<and> content \<sigma>' ts = patch kt (drop kf (content \<sigma> fs)) (content \<sigma> ts)"
    if w: "wrote \<rho> \<sigma>' (set ts)" "content \<sigma>' ts = patch (kt + n) ys (content \<rho> ts)" for \<sigma>'
  proof
    show "wrote \<sigma> \<sigma>' (set ts)" by (rule wrote_trans [OF r(2) w(1)]) (simp_all add: ts)
    show "content \<sigma>' ts = patch kt (drop kf (content \<sigma> fs)) (content \<sigma> ts)"
      unfolding w(2) r(3) split r(4) [symmetric] by (rule patch_patch [OF total])
  qed
  show ?case
  proof (cases "fst from' = None")
    case True
    then have "ys = []" using c1 by (simp add: ys_def copyable_def)
    then have "content \<rho> ts = patch (kt + n) ys (content \<rho> ts)" by (simp add: patch_def)
    then show ?thesis using rest [OF wrote_refl] r(1) True by auto
  next
    case False
    have f1: "fs1 \<noteq> []" using False c1 by (auto simp: copyable_def)
    have ne: "nonempty \<rho> ts1" "nonempty \<rho> fs1" using c1 by (simp_all add: copyable_def)
    have "snd from' < plen \<rho> (hd fs1)"
      using f1 ne(2) n(2) by (cases fs1) (auto simp: nonempty_def from'_def fs1_def fs plen_Some [OF b'(2)])
    moreover have "snd to' < plen \<rho> (hd ts1)" if "ts1 \<noteq> []"
      using that ne(1) n(1) by (cases ts1) (auto simp: nonempty_def to'_def ts1_def ts plen_Some [OF b'(1)])
    moreover have "length (content \<rho> fs1) + snd to' \<le> length (content \<rho> ts1) + snd from'"
      using total r(4) lr lt by (auto simp: ys_def ts1_def ts to'_def)

    moreover have "length ts1 + length fs1 < length ts + length fs" using n by (auto simp: ts1_def fs1_def ts fs)
    ultimately obtain \<sigma>' where s: "copy_loop (fst to') (fst from') (snd to') (snd from') \<rho> = Some (0, \<sigma>')" "wrote \<rho> \<sigma>' (set ts1)"
      "content \<sigma>' ts1 = patch (snd to') ys (content \<rho> ts1)"
      using less.hyps [OF _ c1 f1, of "snd from'" "snd to'"] unfolding ys_def by blast
    have "wrote \<rho> \<sigma>' (set ts)" by (rule wrote_trans [OF wrote_refl s(2), of "{}"]) (auto simp: ts1_def ts)
    moreover have "content \<sigma>' ts = patch (kt + n) ys (content \<rho> ts)"
    proof (cases "kt + n = unat (pb_len bt)")
      case True
      then have ts1: "ts1 = ts'" "snd to' = 0" by (simp_all add: ts1_def to'_def)
      have "owns \<rho> [t]" using cr by (simp add: copyable_def ts owns_def)
      moreover have "t \<notin> set ts'" using cr chain_distinct [of \<rho> "Some t" ts] by (simp add: copyable_def ts)
      ultimately have "pdata \<sigma>' t = pdata \<rho> t" using wrote_pdata [OF s(2) owns_apart] by (simp add: ts1)
      then show ?thesis using s(3) True lt by (simp add: ts1 ts patch_append2)
    qed (use s(3) in \<open>simp add: ts1_def to'_def\<close>)
    ultimately show ?thesis using rest r(1) False s(1) by auto
  qed
qed

lemma pbuf_copy_ok:
  assumes i: "packet_inv \<sigma> ext" and c: "copyable \<sigma> (Some t) (Some f) ts fs"
  shows "if length (content \<sigma> fs) \<le> length (content \<sigma> ts)
    then \<exists>\<sigma>'. pbuf_copy (Some t) (Some f) \<sigma> = Some (0, \<sigma>') \<and> wrote \<sigma> \<sigma>' (set ts) \<and>
      content \<sigma>' ts = patch 0 (content \<sigma> fs) (content \<sigma> ts) \<and> content \<sigma>' fs = content \<sigma> fs
    else pbuf_copy (Some t) (Some f) \<sigma> = None"
proof -
  have ch: "chain \<sigma> (Some t) ts" "chain \<sigma> (Some f) fs" and rd: "readable \<sigma> ts" "readable \<sigma> fs" and ap: "apart \<sigma> fs (set ts)"
    and ne: "nonempty \<sigma> ts" "nonempty \<sigma> fs" using c by (simp_all add: copyable_def owns_readable)
  obtain bt bf where b: "pbs \<sigma> t = Some bt" "pbs \<sigma> f = Some bf" using ch by (auto simp: chain_Some)
  have len: "unat (pb_tot_len bt) = length (content \<sigma> ts)" "unat (pb_tot_len bf) = length (content \<sigma> fs)"
    using len_inv_chain [OF _ ch(1)] len_inv_chain [OF _ ch(2)] i b rd by (simp_all add: packet_inv_def length_content)
  have gd: "guard (pb_tot_len bf \<le> pb_tot_len bt) = (if length (content \<sigma> fs) \<le> length (content \<sigma> ts) then Some () else None)"
    by (simp add: guard_def word_le_nat_alt len)
  show ?thesis
  proof (cases "length (content \<sigma> fs) \<le> length (content \<sigma> ts)")
    case True
    have "fs \<noteq> []" "ts \<noteq> []" using ch by auto
    then have "0 < plen \<sigma> (hd fs)" "0 < plen \<sigma> (hd ts)" using ne by (simp_all add: nonempty_def)
    then obtain \<sigma>' where s: "copy_loop (Some t) (Some f) 0 0 \<sigma> = Some (0, \<sigma>')" "wrote \<sigma> \<sigma>' (set ts)"
      "content \<sigma>' ts = patch 0 (drop 0 (content \<sigma> fs)) (content \<sigma> ts)"
      using copy_loop_ok [OF c \<open>fs \<noteq> []\<close>, of 0 0] True by auto
    have "pbuf_copy (Some t) (Some f) \<sigma> = Some (0, \<sigma>')" using True b gd s(1) by (simp add: pbuf_copy_def)
    then show ?thesis using True s(2,3) wrote_content [OF s(2) ap] by simp
  next
    case False
    then show ?thesis using b gd by (simp add: pbuf_copy_def)
  qed
qed

subsection \<open>\<open>pbuf_coalesce\<close>\<close>

lemma packet_free_ok:
  assumes i: "packet_inv \<sigma> ext" and e: "0 < ext a" and c: "chain \<sigma> (Some a) as"
  shows "\<exists>\<sigma>'. pbuf_free (Some a) \<sigma> = Some (of_nat (length (freed \<sigma> as)), \<sigma>') \<and> packet_inv \<sigma>' (ext(a := ext a - 1)) \<and>
     pbs \<sigma>' = unref \<sigma> as \<and> bytes_of \<sigma>' = bytes_of \<sigma> \<and>
     (\<forall>t. mset (memp_tab \<sigma>' t) = mset (of_pool \<sigma> t (freed \<sigma> as)) + mset (memp_tab \<sigma> t))"
proof -
  have inv: "pbuf_inv \<sigma> ext" "len_inv \<sigma>" "data_inv \<sigma>" using i by (simp_all add: packet_inv_def)
  obtain \<sigma>' where s: "pbuf_free (Some a) \<sigma> = Some (of_nat (length (freed \<sigma> as)), \<sigma>')" "pbuf_inv \<sigma>' (ext(a := ext a - 1))"
    "pbs \<sigma>' = unref \<sigma> as" "bytes_of \<sigma>' = bytes_of \<sigma>"
    "\<forall>t. mset (memp_tab \<sigma>' t) = mset (of_pool \<sigma> t (freed \<sigma> as)) + mset (memp_tab \<sigma> t)"
    using pbuf_free_ok [OF inv(1) e c] by (elim exE conjE) (rule that)
  have "packet_inv \<sigma>' (ext(a := ext a - 1))"
    by (rule packet_inv_free [OF _ inv(3) s(3,4,2)]) (use inv(2) in \<open>simp add: len_inv_def\<close>)
  then show ?thesis using s by blast
qed

text \<open>Copying a chain into a new single buffer.\<close>

lemma alloc_copy_ok:
  assumes i: "packet_inv \<sigma> ext" and ch: "chain \<sigma> (Some p) as" and rd: "readable \<sigma> as" and ne: "nonempty \<sigma> as"
    and ap: "apart \<sigma> as (- dom (pbs \<sigma>))" and b: "pbs \<sigma> p = Some b" and q: "memp_tab \<sigma> MEM_HEAP = q # qs"
  shows "\<exists>\<rho> \<tau> b'. pbuf_alloc layer (pb_tot_len b) PBUF_RAM \<sigma> = Some (Some q, \<rho>) \<and> pbuf_copy (Some q) (Some p) \<rho> = Some (0, \<tau>) \<and>
    q \<notin> dom (pbs \<sigma>) \<and> packet_inv \<tau> (ext(q := 1)) \<and> content \<tau> [q] = content \<sigma> as \<and> chain \<tau> (Some p) as \<and>
    pbs \<tau> = (pbs \<sigma>)(q \<mapsto> b') \<and> pb_next b' = None \<and> pb_type b' = PBUF_RAM \<and> pb_ref b' = 1 \<and> pb_len b' = pb_tot_len b \<and>
    (\<forall>k. k \<noteq> Own q \<longrightarrow> bytes_of \<tau> k = bytes_of \<sigma> k) \<and> (\<forall>t. t \<noteq> MEM_HEAP \<longrightarrow> memp_tab \<tau> t = memp_tab \<sigma> t)"
proof -
  define \<rho> where "\<rho> = snd (the (pbuf_alloc layer (pb_tot_len b) PBUF_RAM \<sigma>))"
  let ?n = "pb_tot_len b" and ?off = "header_offset layer"
  let ?bq = "new_pbuf (Some (Own q, int ?off)) (unat ?n) (unat ?n) PBUF_RAM"
  have run: "pbuf_alloc layer ?n PBUF_RAM \<sigma> = Some (Some q, \<rho>)" and pr: "pbs \<rho> = (pbs \<sigma>)(q \<mapsto> ?bq)" and
    br: "k \<noteq> Own q \<Longrightarrow> bytes_of \<rho> k = bytes_of \<sigma> k" and mr: "t \<noteq> MEM_HEAP \<Longrightarrow> memp_tab \<rho> t = memp_tab \<sigma> t" for k t
    by (simp_all add: \<rho>_def pbuf_alloc_def pool_of_def memp_malloc_def q Let_def)
  have "alloc_result \<sigma> ext layer ?n PBUF_RAM (Some q) \<rho>" using pbuf_alloc_ok [OF i, of layer ?n PBUF_RAM] run by simp
  then have r: "q \<notin> dom (pbs \<sigma>)" "packet_inv \<rho> (ext(q := 1))" by (simp_all add: alloc_result_def)
  have dom: "set as \<subseteq> dom (pbs \<sigma>)" by (rule chain_dom [OF ch])
  then have qas: "q \<notin> set as" using r(1) by blast
  then have pb: "pbs \<rho> a = pbs \<sigma> a" if "a \<in> set as" for a using that pr by auto
  have by': "bytes_of \<rho> blk = bytes_of \<sigma> blk" if "a \<in> set as" "pbs \<sigma> a = Some ba" "pb_payload ba = Some (blk, off)" for a ba blk off
  proof -
    have "blk \<notin> Own ` (- dom (pbs \<sigma>))" using ap that unfolding apart_def by blast
    then have "blk \<noteq> Own q" using r(1) by blast
    then show ?thesis by (rule br)
  qed
  have ch': "chain \<rho> (Some p) as" using ch chain_cong [of as \<rho> \<sigma> "Some p"] pb by simp
  have ib: "in_block (pb_payload ba) 0 n \<rho> = in_block (pb_payload ba) 0 n \<sigma>" if "a \<in> set as" "pbs \<sigma> a = Some ba" for a ba n
    using by' [OF that] by (auto simp: in_block_def split: option.splits)
  have rd': "readable \<rho> as" using rd pb ib unfolding readable_def by metis
  have "pdata \<rho> a = pdata \<sigma> a" if "a \<in> set as" for a
    using by' [OF that] pb [OF that] by (auto simp: pdata_def split: option.splits)
  then have co: "content \<rho> as = content \<sigma> as" by (simp add: content_def cong: map_cong)
  have inv: "len_inv \<rho>" "data_inv \<rho>" using r(2) by (simp_all add: packet_inv_def)
  have ne': "nonempty \<rho> as" using ne pb by (simp add: nonempty_def plen_def)
  have bq: "pbs \<rho> q = Some ?bq" using pr by simp
  have pin: "p \<in> set as" using ch by (auto simp: chain_Some)
  have tot: "unat ?n = length (content \<rho> as)"
    using len_inv_chain [OF inv(1) ch'] length_content [OF rd'] pb [OF pin] b by simp
  have pos: "0 < unat ?n" using tot length_content [OF rd'] ne' pin member_le_sum_list [of "plen \<rho> p" "map (plen \<rho>) as"] by (force simp: nonempty_def)
  have chq: "chain \<rho> (Some q) [q]" using bq by simp
  have ow: "owns \<rho> [q]" by (rule owns_types [OF inv(2)]) (use bq in simp)
  have "apart \<rho> as {q}" using ap r(1) pb unfolding apart_def by fastforce
  then have cp: "copyable \<rho> (Some q) (Some p) [q] as"
    using chq ch' ow rd' inv(1) ne' pos bq by (simp add: copyable_def nonempty_def plen_def)
  have lq: "length (content \<rho> [q]) = unat ?n" using length_content [OF owns_readable [OF ow]] bq by (simp add: plen_def)
  then obtain \<tau> where t: "pbuf_copy (Some q) (Some p) \<rho> = Some (0, \<tau>)" "wrote \<rho> \<tau> {q}"
    "content \<tau> [q] = patch 0 (content \<rho> as) (content \<rho> [q])"
    using pbuf_copy_ok [OF r(2) cp] tot by auto
  have "content \<tau> [q] = content \<sigma> as" using t(3) lq tot co by (simp add: patch_def)
  moreover have "packet_inv \<tau> (ext(q := 1))" using r(2) by (simp add: wrote_inv [OF t(2)])
  moreover have "chain \<tau> (Some p) as" using ch' by (simp add: wrote_chain [OF t(2)])
  moreover have "\<forall>k. k \<noteq> Own q \<longrightarrow> bytes_of \<tau> k = bytes_of \<sigma> k" using t(2) br by (simp add: wrote_def)
  moreover have "\<forall>t. t \<noteq> MEM_HEAP \<longrightarrow> memp_tab \<tau> t = memp_tab \<sigma> t" using t(2) mr by (simp add: wrote_def)
  moreover have "pbs \<tau> = (pbs \<sigma>)(q \<mapsto> ?bq)" using t(2) pr by (simp add: wrote_def)
  ultimately show ?thesis using run t(1) r(1) by (intro exI [of _ \<rho>] exI [of _ \<tau>] exI [of _ ?bq] conjI) simp_all
qed

lemma pbuf_coalesce_ok:
  assumes i: "packet_inv \<sigma> ext" and ch: "chain \<sigma> (Some p) as" and e: "0 < ext p" and rd: "readable \<sigma> as" and ne: "nonempty \<sigma> as"
    and ap: "apart \<sigma> as (- dom (pbs \<sigma>))"
  shows "\<exists>r \<sigma>'. pbuf_coalesce p layer \<sigma> = Some (r, \<sigma>') \<and>
    (if length as = 1 \<or> memp_tab \<sigma> MEM_HEAP = [] then r = p \<and> \<sigma>' = \<sigma>
     else r \<notin> dom (pbs \<sigma>) \<and> chain \<sigma>' (Some r) [r] \<and> content \<sigma>' [r] = content \<sigma> as \<and> packet_inv \<sigma>' (ext(r := 1, p := ext p - 1)))"
proof -
  obtain b as' where b: "pbs \<sigma> p = Some b" "chain \<sigma> (pb_next b) as'" "as = p # as'" using ch by (auto simp: chain_Some)
  have one: "pb_next b = None \<longleftrightarrow> length as = 1" using b(2,3) by (cases as') auto
  show ?thesis
  proof (cases "length as = 1 \<or> memp_tab \<sigma> MEM_HEAP = []")
    case True
    have "memp_tab \<sigma> MEM_HEAP = [] \<Longrightarrow> pbuf_alloc layer (pb_tot_len b) PBUF_RAM \<sigma> = Some (None, \<sigma>)"
      by (simp add: pbuf_alloc_def pool_of_def memp_malloc_def)
    then show ?thesis using True b(1) one by (auto simp: pbuf_coalesce_def)
  next
    case False
    obtain q qs where q: "memp_tab \<sigma> MEM_HEAP = q # qs" using False by (cases "memp_tab \<sigma> MEM_HEAP") auto
    let ?n = "pb_tot_len b"
    obtain \<rho> \<tau> b' where t: "pbuf_alloc layer ?n PBUF_RAM \<sigma> = Some (Some q, \<rho>)" "pbuf_copy (Some q) (Some p) \<rho> = Some (0, \<tau>)"
      "q \<notin> dom (pbs \<sigma>)" "packet_inv \<tau> (ext(q := 1))" "content \<tau> [q] = content \<sigma> as" "chain \<tau> (Some p) as"
      "pbs \<tau> = (pbs \<sigma>)(q \<mapsto> b')" "pb_next b' = None"
      using alloc_copy_ok [OF i ch rd ne ap b(1) q, of layer] by blast
    have pq: "p \<noteq> q" "q \<notin> set as" using t(3) chain_dom [OF ch] b(1) by auto
    obtain \<sigma>' where s: "pbuf_free (Some p) \<tau> = Some (of_nat (length (freed \<tau> as)), \<sigma>')"
      "packet_inv \<sigma>' ((ext(q := 1))(p := (ext(q := 1)) p - 1))" "pbs \<sigma>' = unref \<tau> as" "bytes_of \<sigma>' = bytes_of \<tau>"
      using packet_free_ok [OF t(4) _ t(6)] e pq(1) by auto
    have qq: "pbs \<sigma>' q = pbs \<tau> q" using s(3) unref_out [OF pq(2)] by simp
    obtain n where nx: "pb_next b = Some n" using False one by auto
    have "pbuf_coalesce p layer \<sigma> = Some (q, \<sigma>')"
      using nx b(1) t(1,2) s(1) by (simp add: pbuf_coalesce_def guard_def)
    moreover have "chain \<sigma>' (Some q) [q]" using qq t(7,8) by simp
    moreover have "content \<sigma>' [q] = content \<sigma> as" using t(5) pdata_cong [of \<sigma>' q \<tau>] qq s(4) by simp
    moreover have "packet_inv \<sigma>' (ext(q := 1, p := ext p - 1))" using s(2) pq(1) by simp
    ultimately show ?thesis using False t(3) by auto
  qed
qed

end
