(* ===== verification/Pbuf_Correct.thy ===== *)
theory Pbuf_Correct
  imports Pbuf_Copy
begin

text \<open>
  The properties of the packet buffers, with their witnesses on a store of six free blocks.
\<close>

subsection \<open>New chains have memory of their own\<close>

definition fresh_pool :: "paddr set \<Rightarrow> pmem \<Rightarrow> bool" where
  "fresh_pool D \<sigma> \<longleftrightarrow> (\<forall>a b. pbs \<sigma> a = Some b \<longrightarrow> a \<notin> D \<longrightarrow> (pb_type b = PBUF_POOL \<or> pb_type b = PBUF_RAM) \<and> (\<forall>n. pb_next b = Some n \<longrightarrow> n \<notin> D))"

lemma fresh_put: "fresh_pool D \<sigma> \<Longrightarrow> pb_type b = PBUF_POOL \<or> pb_type b = PBUF_RAM \<Longrightarrow> (\<And>n. pb_next b = Some n \<Longrightarrow> n \<notin> D) \<Longrightarrow> fresh_pool D (put_pb a b \<sigma>)"
  by (simp add: fresh_pool_def)

lemma fresh_pbs: "pbs \<sigma>' = pbs \<sigma> \<Longrightarrow> fresh_pool D \<sigma>' = fresh_pool D \<sigma>"
  by (simp add: fresh_pool_def)

lemma alloc_tail_fresh:
  "alloc_tail p r n \<sigma> = Some (Some p', \<sigma>') \<Longrightarrow> r \<notin> D \<Longrightarrow> set (memp_tab \<sigma> MEMP_PBUF_POOL) \<inter> D = {} \<Longrightarrow> fresh_pool D \<sigma> \<Longrightarrow> fresh_pool D \<sigma>'"
proof (induction n arbitrary: r \<sigma> rule: less_induct)
  case (less n)
  show ?case
  proof (cases "n = 0")
    case True
    then show ?thesis using less.prems by (simp add: alloc_tail.simps)
  next
    case False
    show ?thesis
    proof (cases "memp_tab \<sigma> MEMP_PBUF_POOL")
      case Nil
      then show ?thesis using less.prems(1) False by (subst (asm) alloc_tail.simps) (auto simp: memp_malloc_def split: Option.bind_splits)
    next
      case (Cons q qs)
      obtain br :: pbuf where br: "pbs \<sigma> r = Some br" using less.prems(1) False Cons by (subst (asm) alloc_tail.simps) (auto simp: memp_malloc_def split: Option.bind_splits)
      let ?l = "min n PBUF_POOL_BUFSIZE"
      let ?s = "put_pb q (new_pbuf (Some (Own q, 0)) n ?l PBUF_POOL) (put_pb r (br\<lparr>pb_next := Some q\<rparr>)
        (new_block q PBUF_POOL_BUFSIZE (\<sigma>\<lparr>memp_tab := (memp_tab \<sigma>)(MEMP_PBUF_POOL := qs)\<rparr>)))"
      have run: "alloc_tail p q (n - ?l) ?s = Some (Some p', \<sigma>')"
        using less.prems(1) False Cons br by (subst (asm) alloc_tail.simps) (simp add: memp_malloc_def guard_def Let_def split: if_splits)
      have q: "q \<notin> D" using less.prems(3) Cons by simp
      have ty: "pb_type br = PBUF_POOL \<or> pb_type br = PBUF_RAM" using less.prems(2,4) br unfolding fresh_pool_def by blast
      have "fresh_pool D ?s"
        by (intro fresh_put) (use less.prems(4) ty q in \<open>simp_all add: fresh_pbs [of "new_block _ _ _" \<sigma>]\<close>)
      moreover have "n - ?l < n" using False by (simp add: PBUF_POOL_BUFSIZE_def)
      ultimately show ?thesis using less.IH [OF _ run q] less.prems(3) Cons by simp
    qed
  qed
qed

lemma fresh_chain:
  "chain \<sigma> p as \<Longrightarrow> fresh_pool D \<sigma> \<Longrightarrow> (\<And>a. p = Some a \<Longrightarrow> a \<notin> D) \<Longrightarrow> data_inv \<sigma> \<Longrightarrow> owns \<sigma> as \<and> set as \<inter> D = {}"
proof (induction as arbitrary: p)
  case Nil
  then show ?case by (simp add: owns_def)
next
  case (Cons a as)
  obtain b :: pbuf where b: "p = Some a" "pbs \<sigma> a = Some b" "chain \<sigma> (pb_next b) as" using Cons.prems(1) by (cases "pbs \<sigma> a") auto
  have f: "pb_type b = PBUF_POOL \<or> pb_type b = PBUF_RAM" "\<And>n. pb_next b = Some n \<Longrightarrow> n \<notin> D"
    using Cons.prems(2,3) b(1,2) by (auto simp: fresh_pool_def)
  have "owns \<sigma> [a]" by (rule owns_types [OF Cons.prems(4)]) (use b(2) f(1) in auto)
  then show ?case using Cons.IH [OF b(3) Cons.prems(2) f(2) Cons.prems(4)] Cons.prems(3) b(1) by (auto simp: owns_def)
qed

lemma pbuf_alloc_owns:
  assumes i: "packet_inv \<sigma> ext" and ty: "ty = PBUF_RAM \<or> ty = PBUF_POOL" and r: "pbuf_alloc layer n ty \<sigma> = Some (Some p, \<sigma>')"
  shows "\<exists>as. chain \<sigma>' (Some p) as \<and> owns \<sigma>' as \<and> set as \<inter> dom (pbs \<sigma>) = {} \<and> length (content \<sigma>' as) = unat n"
proof -
  let ?D = "dom (pbs \<sigma>)"
  have al: "p \<notin> ?D" "packet_inv \<sigma>' (ext(p := 1))" "tot_of \<sigma>' (Some p) = unat n" "p \<in> dom (pbs \<sigma>')"
    using pbuf_alloc_ok [OF i, of layer n ty] r by (auto simp: alloc_result_def)
  obtain q qs where q: "memp_tab \<sigma> (pool_of ty) = q # qs"
    using r ty by (cases "memp_tab \<sigma> (pool_of ty)") (auto simp: pbuf_alloc_def memp_malloc_def Let_def)
  have pool: "set (memp_tab \<sigma> t) \<inter> ?D = {}" for t using i by (simp add: packet_inv_def pbuf_inv_def pool_inv_def)
  then have qD: "q \<notin> ?D" using q by (metis IntI empty_iff list.set_intros(1))
  have old: "fresh_pool ?D (put_pb q b \<rho>)" if "pbs \<rho> = pbs \<sigma>" "pb_next b = None" "pb_type b = PBUF_POOL \<or> pb_type b = PBUF_RAM" for b \<rho>
    using that by (auto simp: fresh_pool_def)
  have fr: "fresh_pool ?D \<sigma>'"
  proof (cases "ty = PBUF_RAM")
    case True
    then have "\<sigma>' = put_pb q (new_pbuf (Some (Own q, int (header_offset layer))) (unat n) (unat n) PBUF_RAM)
        (new_block q (header_offset layer + unat n) (\<sigma>\<lparr>memp_tab := (memp_tab \<sigma>)(MEM_HEAP := qs)\<rparr>))"
      using r q by (auto simp: pbuf_alloc_def memp_malloc_def pool_of_def Let_def)
    then show ?thesis by (simp add: old)
  next
    case False
    then have ty: "ty = PBUF_POOL" using ty by simp
    let ?l = "min (unat n) (PBUF_POOL_BUFSIZE - header_offset layer)"
    let ?s = "put_pb q (new_pbuf (Some (Own q, int (header_offset layer))) (unat n) ?l PBUF_POOL)
      (new_block q PBUF_POOL_BUFSIZE (\<sigma>\<lparr>memp_tab := (memp_tab \<sigma>)(MEMP_PBUF_POOL := qs)\<rparr>))"
    have "alloc_tail q q (unat n - ?l) ?s = Some (Some p, \<sigma>')"
      using r q ty by (simp add: pbuf_alloc_def memp_malloc_def pool_of_def Let_def)
    moreover have "set (memp_tab ?s MEMP_PBUF_POOL) \<inter> ?D = {}" using pool [of MEMP_PBUF_POOL] q ty by (auto simp: pool_of_def)
    moreover have "fresh_pool ?D ?s" by (rule old) (simp_all add: ty)
    ultimately show ?thesis using alloc_tail_fresh [of q q "unat n - ?l" ?s p \<sigma>' ?D] qD by simp
  qed
  have "ref_inv \<sigma>' (ext(p := 1))" using al(2) by (simp add: packet_inv_def pbuf_inv_def)
  then obtain as where as: "chain \<sigma>' (Some p) as" using ref_invD(3) al(4) by blast
  have "owns \<sigma>' as \<and> set as \<inter> ?D = {}" by (rule fresh_chain [OF as fr]) (use al in \<open>simp_all add: packet_inv_def\<close>)
  moreover have "length (content \<sigma>' as) = unat n" if "owns \<sigma>' as"
    using length_content [OF owns_readable [OF that]] len_inv_chain [OF _ as] al(2,3) by (simp add: packet_inv_def)
  ultimately show ?thesis using as by blast
qed

subsection \<open>A concrete store\<close>

definition demo_pmem :: pmem where
  "demo_pmem = \<lparr>pbs = Map.empty, memp_tab = (\<lambda>t. case t of MEMP_PBUF \<Rightarrow> [1, 2] | MEMP_PBUF_POOL \<Rightarrow> [3, 4] | MEM_HEAP \<Rightarrow> [5, 6, 7]),
     bytes_of = (\<lambda>_. []), ooseq_queued = False, mbox_room = True\<rparr>"

text \<open>Two buffers of three and two bytes, and the chain of both.\<close>

definition demo_one :: pmem where
  "demo_one = snd (the (pbuf_alloc PBUF_RAW 3 PBUF_RAM demo_pmem))"

definition demo_two :: pmem where
  "demo_two = snd (the (pbuf_alloc PBUF_RAW 2 PBUF_RAM demo_one))"

definition demo_chain :: pmem where
  "demo_chain = the (pbuf_cat (Some 5) (Some 6) demo_two)"

lemma demo_pmem_inv: "packet_inv demo_pmem (\<lambda>_. 0)"
  by (auto simp: packet_inv_def pbuf_inv_def ref_inv_def pool_inv_def len_inv_def data_inv_def demo_pmem_def split: pool.splits)

lemmas demo_run = pbuf_alloc_def pool_of_def memp_malloc_def Let_def header_offset_def new_pbuf_def

lemma demo_one: "pbuf_alloc PBUF_RAW 3 PBUF_RAM demo_pmem = Some (Some 5, demo_one)"
  "pbs demo_one = [5 \<mapsto> \<lparr>pb_next = None, pb_payload = Some (Own 5, 0), pb_tot_len = 3, pb_len = 3, pb_type = PBUF_RAM, pb_flags = 0, pb_ref = 1\<rparr>]"
  "memp_tab demo_one MEM_HEAP = [6, 7]"
  by (simp_all add: demo_one_def demo_pmem_def demo_run)

lemma demo_two: "pbuf_alloc PBUF_RAW 2 PBUF_RAM demo_one = Some (Some 6, demo_two)"
  "pbs demo_two = [5 \<mapsto> \<lparr>pb_next = None, pb_payload = Some (Own 5, 0), pb_tot_len = 3, pb_len = 3, pb_type = PBUF_RAM, pb_flags = 0, pb_ref = 1\<rparr>,
     6 \<mapsto> \<lparr>pb_next = None, pb_payload = Some (Own 6, 0), pb_tot_len = 2, pb_len = 2, pb_type = PBUF_RAM, pb_flags = 0, pb_ref = 1\<rparr>]"
  "memp_tab demo_two MEM_HEAP = [7]"
  by (simp_all add: demo_two_def demo_one demo_run)

lemma demo_one_inv: "packet_inv demo_one ((\<lambda>_. 0)(5 := 1))"
  using pbuf_alloc_ok [OF demo_pmem_inv, of PBUF_RAW 3 PBUF_RAM] by (auto simp: demo_one alloc_result_def)

lemma demo_two_inv: "packet_inv demo_two ((\<lambda>_. 0)(5 := 1, 6 := 1))"
  using pbuf_alloc_ok [OF demo_one_inv, of PBUF_RAW 2 PBUF_RAM] by (auto simp: demo_two alloc_result_def)

lemma demo_chain: "pbuf_cat (Some 5) (Some 6) demo_two = Some demo_chain"
  "pbs demo_chain = [5 \<mapsto> \<lparr>pb_next = Some 6, pb_payload = Some (Own 5, 0), pb_tot_len = 5, pb_len = 3, pb_type = PBUF_RAM, pb_flags = 0, pb_ref = 1\<rparr>,
     6 \<mapsto> \<lparr>pb_next = None, pb_payload = Some (Own 6, 0), pb_tot_len = 2, pb_len = 2, pb_type = PBUF_RAM, pb_flags = 0, pb_ref = 1\<rparr>]"
  "memp_tab demo_chain = memp_tab demo_two"
  by (auto simp: demo_chain_def pbuf_cat_def demo_two cat_loop.simps guard_def)

lemma demo_chains: "chain demo_two (Some 5) [5]" "chain demo_two (Some 6) [6]" "isolated demo_two [5]" "chain demo_chain (Some 5) [5, 6]"
  "isolated demo_chain [5, 6]"
  by (auto simp: demo_two demo_chain isolated_def preds_def split: if_splits)

lemma demo_chain_inv: "packet_inv demo_chain ((\<lambda>_. 0)(5 := 1))"
proof -
  have "((\<lambda>_. 0)(5 := 1, 6 := 1))(6 := ((\<lambda>_. 0)(5 := 1, 6 := 1)) 6 - 1) = ((\<lambda>_. 0)(5 := 1) :: paddr \<Rightarrow> nat)" by auto
  then show ?thesis using pbuf_cat_ok [OF demo_two_inv demo_chains(1,2) _ _ demo_chains(3)] by (auto simp: demo_two demo_chain(1))
qed

lemma demo_own: "owns demo_two [5]" "owns demo_two [6]" "owns demo_chain [5, 6]"
  using demo_two_inv demo_chain_inv by (auto intro!: owns_types simp: packet_inv_def demo_two demo_chain)


subsection \<open>Properties\<close>

text \<open>C12: \<open>pbuf_alloc\<close> is all or nothing. In a store in which the reference counts, the pools, the lengths and the payload
  pointers are right it always returns; it does not touch a buffer in use; when it returns no buffer,
  the pools hold what they held, however much of a chain it had built, and otherwise the new packet has the
  requested length, exactly one reference, and room for the headers of the layer.\<close>
theorem pbuf_alloc_all_or_nothing:
  assumes "packet_inv \<sigma> ext"
  shows "\<exists>res \<sigma>'. pbuf_alloc layer n ty \<sigma> = Some (res, \<sigma>') \<and> untouched \<sigma> \<sigma>' (dom (pbs \<sigma>)) \<and>
    (case res of
       None \<Rightarrow> packet_inv \<sigma>' ext \<and> pbs \<sigma>' = pbs \<sigma> \<and> (\<forall>t. mset (memp_tab \<sigma>' t) = mset (memp_tab \<sigma> t))
     | Some p \<Rightarrow> p \<notin> dom (pbs \<sigma>) \<and> packet_inv \<sigma>' (ext(p := 1)) \<and> tot_of \<sigma>' (Some p) = unat n \<and>
         (ty = PBUF_RAM \<or> ty = PBUF_POOL \<longrightarrow> map_option pb_payload (pbs \<sigma>' p) = Some (Some (Own p, int (header_offset layer)))))"
proof -
  obtain res \<sigma>' where r: "pbuf_alloc layer n ty \<sigma> = Some (res, \<sigma>')" "alloc_result \<sigma> ext layer n ty res \<sigma>'"
    using pbuf_alloc_ok [OF assms] by blast
  show ?thesis by (intro exI conjI, rule r(1)) (use r(2) in \<open>auto simp: alloc_result_def split: option.splits\<close>)
qed

theorem pbuf_alloc_all_or_nothing_witness:
  "(\<exists>res \<sigma>'. pbuf_alloc PBUF_TRANSPORT 2000 PBUF_POOL demo_pmem = Some (res, \<sigma>') \<and> (\<forall>t. res = None \<longrightarrow> mset (memp_tab \<sigma>' t) = mset (memp_tab demo_pmem t)))"
  using pbuf_alloc_all_or_nothing [OF demo_pmem_inv, of PBUF_TRANSPORT 2000 PBUF_POOL] by (elim exE conjE, intro exI conjI) (auto split: option.splits)

text \<open>C13: \<open>pbuf_free\<close> on a reference the caller holds gives up exactly that reference: the counts, lengths and
  pools stay right, so no buffer that is still pointed to is freed. It frees the longest prefix
  of the chain whose counts are one, returns its length modulo 256, takes one from the next count, and
  gives each freed buffer back to the pool it came from.\<close>
theorem pbuf_free_counts:
  assumes "packet_inv \<sigma> ext" "0 < ext a" "chain \<sigma> (Some a) as"
  shows "\<exists>\<sigma>'. pbuf_free (Some a) \<sigma> = Some (of_nat (length (freed \<sigma> as)), \<sigma>') \<and> packet_inv \<sigma>' (ext(a := ext a - 1)) \<and>
     (\<forall>x. x \<notin> set as \<longrightarrow> pbs \<sigma>' x = pbs \<sigma> x) \<and> (\<forall>x\<in>set as. pbs \<sigma>' x = None \<longleftrightarrow> x \<in> set (freed \<sigma> as)) \<and>
     (\<forall>t. mset (memp_tab \<sigma>' t) = mset (of_pool \<sigma> t (freed \<sigma> as)) + mset (memp_tab \<sigma> t))"
proof -
  obtain \<sigma>' where s: "pbuf_free (Some a) \<sigma> = Some (of_nat (length (freed \<sigma> as)), \<sigma>')" "packet_inv \<sigma>' (ext(a := ext a - 1))"
    "pbs \<sigma>' = unref \<sigma> as" "\<forall>t. mset (memp_tab \<sigma>' t) = mset (of_pool \<sigma> t (freed \<sigma> as)) + mset (memp_tab \<sigma> t)"
    using packet_free_ok [OF assms] by (elim exE conjE) (rule that)
  have "pbs \<sigma>' x = None \<longleftrightarrow> x \<in> set (freed \<sigma> as)" if "x \<in> set as" for x
    using chain_dom [OF assms(3)] that by (auto simp: s(3) unref_def)
  then show ?thesis using s(1,2,4) by (auto simp: s(3) unref_out)
qed

theorem pbuf_free_counts_witness:
  "\<exists>\<sigma>'. pbuf_free (Some 5) demo_chain = Some (2, \<sigma>') \<and> pbs \<sigma>' 5 = None \<and> pbs \<sigma>' 6 = None \<and>
     mset (memp_tab \<sigma>' MEM_HEAP) = {#5, 6, 7#}"
  using pbuf_free_counts [OF demo_chain_inv _ demo_chains(4)]
  by (auto simp: freed_def ref_of_def of_pool_def pool_of_def demo_chain demo_two)

text \<open>C15: \<open>pbuf_cat\<close> appends: the contents of the chain it leaves at \<open>h\<close> are those of \<open>h\<close> followed by those of
  \<open>t\<close>, the lengths of all buffers of the new chain are right, and the caller's reference to \<open>t\<close> has moved into the chain.\<close>
theorem pbuf_cat_concat:
  assumes "packet_inv \<sigma> ext" "chain \<sigma> (Some h) hs" "chain \<sigma> (Some t) ts" "0 < ext t" "set hs \<inter> set ts = {}" "isolated \<sigma> hs"
    "tot_of \<sigma> (Some h) + tot_of \<sigma> (Some t) < 65536"
  shows "\<exists>\<sigma>'. pbuf_cat (Some h) (Some t) \<sigma> = Some \<sigma>' \<and> packet_inv \<sigma>' (ext(t := ext t - 1)) \<and> chain \<sigma>' (Some h) (hs @ ts) \<and>
    content \<sigma>' (hs @ ts) = content \<sigma> hs @ content \<sigma> ts"
proof -
  obtain \<sigma>' where s: "pbuf_cat (Some h) (Some t) \<sigma> = Some \<sigma>'" "packet_inv \<sigma>' (ext(t := ext t - 1))" "chain \<sigma>' (Some h) (hs @ ts)"
    "\<forall>a. pdata \<sigma>' a = pdata \<sigma> a"
    using pbuf_cat_ok [OF assms] by (elim exE conjE) (rule that)
  have "pdata \<sigma>' = pdata \<sigma>" using s(4) by (simp add: fun_eq_iff)
  then have "content \<sigma>' as = content \<sigma> as" for as by (simp add: content_def)
  then show ?thesis using s(1-3) by auto
qed

theorem pbuf_cat_concat_witness:
  "\<exists>\<sigma>'. pbuf_cat (Some 5) (Some 6) demo_two = Some \<sigma>' \<and> chain \<sigma>' (Some 5) [5, 6] \<and> content \<sigma>' [5, 6] = content demo_two [5] @ content demo_two [6]"
  using pbuf_cat_concat [OF demo_two_inv demo_chains(1,2) _ _ demo_chains(3)] by (auto simp: demo_two)

text \<open>C16: \<open>pbuf_realloc\<close> to a length that is not smaller changes nothing. To a smaller length it leaves the shortest prefix of the chain (but at least
  its first buffer) that holds \<open>new_len\<close> bytes: its contents are the first \<open>new_len\<close> bytes of the old ones and all its lengths are
  right. The buffers behind lose the reference from the chain: those whose counts are one, up to the first that is
  held by someone else, are freed, and go back to their pools. No other buffer changes. No buffer outside links into the chain, and its payloads lie in memory.\<close>
theorem pbuf_realloc_shrinks:
  assumes "packet_inv \<sigma> ext" "chain \<sigma> (Some p) as" "isolated \<sigma> as" "readable \<sigma> as"
  shows "if tot_of \<sigma> (Some p) \<le> unat new_len then pbuf_realloc (Some p) new_len \<sigma> = Some \<sigma>
    else \<exists>\<sigma>' xs q ys. pbuf_realloc (Some p) new_len \<sigma> = Some \<sigma>' \<and> packet_inv \<sigma>' ext \<and>
      as = xs @ q # ys \<and> chain \<sigma>' (Some p) (xs @ [q]) \<and> content \<sigma>' (xs @ [q]) = take (unat new_len) (content \<sigma> as) \<and>
      (xs = [] \<or> length (content \<sigma> xs) < unat new_len) \<and>
      (\<forall>x\<in>set ys. pbs \<sigma>' x = None \<longleftrightarrow> x \<in> set (freed \<sigma> ys)) \<and> (\<forall>x. x \<notin> set as \<longrightarrow> pbs \<sigma>' x = pbs \<sigma> x) \<and>
      (\<forall>t. mset (memp_tab \<sigma>' t) = mset (of_pool \<sigma> t (freed \<sigma> ys)) + mset (memp_tab \<sigma> t))"
proof (cases "unat new_len < tot_of \<sigma> (Some p)")
  case True
  obtain \<sigma>' xs q ys where s: "pbuf_realloc (Some p) new_len \<sigma> = Some \<sigma>'" "packet_inv \<sigma>' ext" "as = xs @ q # ys" "chain \<sigma>' (Some p) (xs @ [q])"
    "content \<sigma>' (xs @ [q]) = take (unat new_len) (content \<sigma> as)" "xs = [] \<or> length (content \<sigma> xs) < unat new_len"
    "\<forall>x\<in>set ys. pbs \<sigma>' x = unref \<sigma> ys x" "\<forall>x. x \<notin> set as \<longrightarrow> pbs \<sigma>' x = pbs \<sigma> x"
    "\<forall>t. mset (memp_tab \<sigma>' t) = mset (of_pool \<sigma> t (freed \<sigma> ys)) + mset (memp_tab \<sigma> t)"
    using pbuf_realloc_ok [OF assms(1-3) True assms(4)] by (elim exE conjE) (rule that)
  have "pbs \<sigma>' x = None \<longleftrightarrow> x \<in> set (freed \<sigma> ys)" if "x \<in> set ys" for x
    using chain_dom [OF assms(2)] that s(3,7) by (auto simp: unref_def)
  then show ?thesis using True s(1-6,8,9) by (simp only: not_le [symmetric] if_False) blast
next
  case False
  obtain b :: pbuf where b: "pbs \<sigma> p = Some b" using assms(2) by (auto simp: chain_Some)
  then show ?thesis using False by (simp add: pbuf_realloc_def word_le_nat_alt)
qed

theorem pbuf_realloc_shrinks_witness:
  "\<exists>\<sigma>'. pbuf_realloc (Some 5) 2 demo_chain = Some \<sigma>' \<and> chain \<sigma>' (Some 5) [5] \<and> content \<sigma>' [5] = take 2 (content demo_chain [5, 6]) \<and> pbs \<sigma>' 6 = None"
proof -
  have l: "length (content demo_chain [5]) = 3" "tot_of demo_chain (Some 5) = 5"
    using length_content [of demo_chain "[5]"] owns_readable [OF demo_own(3)] by (auto simp: readable_def plen_def demo_chain)
  then have n: "\<not> tot_of demo_chain (Some 5) \<le> unat (2 :: 16 word)" by simp
  obtain \<sigma>' xs q ys where s: "pbuf_realloc (Some 5) 2 demo_chain = Some \<sigma>'" "[5, 6] = xs @ q # ys" "chain \<sigma>' (Some 5) (xs @ [q])"
    "content \<sigma>' (xs @ [q]) = take (unat (2 :: 16 word)) (content demo_chain [5, 6])" "xs = [] \<or> length (content demo_chain xs) < unat (2 :: 16 word)"
    "\<forall>x\<in>set ys. pbs \<sigma>' x = None \<longleftrightarrow> x \<in> set (freed demo_chain ys)"
    using pbuf_realloc_shrinks [OF demo_chain_inv demo_chains(4,5) owns_readable [OF demo_own(3)], of 2, unfolded if_not_P [OF n]]
    by (elim exE conjE) (rule that; assumption)
  have "xs = [] \<and> q = 5 \<and> ys = [6]" using s(2,5) l(1) by (auto simp: Cons_eq_append_conv append_eq_Cons_conv)
  then show ?thesis using s by (auto simp: freed_def ref_of_def demo_chain)
qed

text \<open>\<open>pbuf_header\<close> on the first buffer of a packet with memory of its own moves the payload by \<open>inc\<close>: a negative
  \<open>inc\<close> hides the first bytes, a positive one uncovers bytes in front of them or is refused with the store unchanged,
  the lengths follow, and moving back by \<open>-inc\<close> restores the store exactly.\<close>
theorem pbuf_header_undo:
  assumes "packet_inv \<sigma> ext" "pbs \<sigma> p = Some b" "pb_type b = PBUF_RAM \<or> pb_type b = PBUF_POOL" "preds \<sigma> p = {}"
    "- uint (pb_len b) \<le> inc" "uint (pb_tot_len b) + inc < 65536"
  shows "\<exists>r \<sigma>'. pbuf_header (Some p) inc \<sigma> = Some (r, \<sigma>') \<and> packet_inv \<sigma>' ext \<and>
    (r \<noteq> 0 \<longrightarrow> \<sigma>' = \<sigma> \<and> 0 < inc) \<and>
    (r = 0 \<longrightarrow> (if inc \<le> 0 then pdata \<sigma>' p = drop (nat (- inc)) (pdata \<sigma> p) else drop (nat inc) (pdata \<sigma>' p) = pdata \<sigma> p) \<and>
       int (tot_of \<sigma>' (Some p)) = int (tot_of \<sigma> (Some p)) + inc \<and> pbuf_header (Some p) (- inc) \<sigma>' = Some (0, \<sigma>))"
  by (rule pbuf_header_ok [OF assms])

theorem pbuf_header_undo_witness:
  "\<exists>\<sigma>'. pbuf_header (Some 5) (- 2) demo_chain = Some (0, \<sigma>') \<and> tot_of \<sigma>' (Some 5) = 3 \<and> pbuf_header (Some 5) 2 \<sigma>' = Some (0, demo_chain)"
proof -
  have "preds demo_chain 5 = {}" by (auto simp: preds_def demo_chain split: if_splits)
  then show ?thesis
    using pbuf_header_undo [OF demo_chain_inv, of 5 _ "- 2"] by (auto simp: demo_chain)
qed

text \<open>C14: What is put into a new packet can be read back. A packet of \<open>n\<close> bytes from \<open>pbuf_alloc\<close>, be it one block or a
  chain from the pool, takes with \<open>pbuf_take\<close> any data of at most \<open>n\<close> bytes and answers \<open>ERR_ARG\<close> for more;
  after that \<open>pbuf_copy_partial\<close> with any length and offset returns that window of the data, and the buffers that
  were in use before have not changed.\<close>
theorem pbuf_take_read_back:
  assumes "packet_inv \<sigma> ext" "ty = PBUF_RAM \<or> ty = PBUF_POOL" "pbuf_alloc layer n ty \<sigma> = Some (Some p, \<rho>)"
  shows "if length data \<le> unat n
    then \<exists>\<sigma>'. pbuf_take (Some p) data \<rho> = Some (0, \<sigma>') \<and> packet_inv \<sigma>' (ext(p := 1)) \<and> untouched \<rho> \<sigma>' (dom (pbs \<sigma>)) \<and>
      (\<forall>len off. unat len + unat off \<le> length data \<longrightarrow> pbuf_copy_partial (Some p) len off \<sigma>' = Some (take (unat len) (drop (unat off) data)))
    else pbuf_take (Some p) data \<rho> = Some (ERR_ARG, \<rho>)"
proof -
  obtain as where as: "chain \<rho> (Some p) as" "owns \<rho> as" "set as \<inter> dom (pbs \<sigma>) = {}" "length (content \<rho> as) = unat n"
    using pbuf_alloc_owns [OF assms] by blast
  have i: "packet_inv \<rho> (ext(p := 1))" using pbuf_alloc_ok [OF assms(1), of layer n ty] assms(3) by (simp add: alloc_result_def)
  show ?thesis
  proof (cases "length data \<le> unat n")
    case True
    then obtain \<sigma>' where s: "pbuf_take (Some p) data \<rho> = Some (0, \<sigma>')" "wrote \<rho> \<sigma>' (set as)" "content \<sigma>' as = patch 0 data (content \<rho> as)"
      using pbuf_take_ok [OF i as(1,2), of data] as(4) by auto
    have rd: "chain \<sigma>' (Some p) as" "readable \<sigma>' as" using as(1,2) by (simp_all add: wrote_chain [OF s(2)] wrote_readable [OF s(2)] owns_readable)
    have "pbuf_copy_partial (Some p) len off \<sigma>' = Some (take (unat len) (drop (unat off) data))" if "unat len + unat off \<le> length data" for len off
      using pbuf_copy_partial_ok [OF rd, of len off] that s(3) by (simp add: patch_def)
    moreover have "untouched \<rho> \<sigma>' (dom (pbs \<sigma>))" using s(2) as(3) by (auto simp: untouched_def wrote_def)
    ultimately show ?thesis using True s(1) i by (auto simp: wrote_inv [OF s(2)])
  next
    case False
    then show ?thesis using pbuf_take_ok [OF i as(1,2), of data] as(4) by simp
  qed
qed

theorem pbuf_take_read_back_witness:
  "(\<exists>\<sigma>'. pbuf_take (Some 6) [10, 11] demo_two = Some (0, \<sigma>') \<and> pbuf_copy_partial (Some 6) 1 1 \<sigma>' = Some [11]) \<and>
    pbuf_take (Some 6) [10, 11, 12] demo_two = Some (ERR_ARG, demo_two)"
proof -
  obtain \<sigma>' where "pbuf_take (Some 6) [10, 11] demo_two = Some (0, \<sigma>')"
    "\<forall>len off. unat len + unat off \<le> 2 \<longrightarrow> pbuf_copy_partial (Some 6) len off \<sigma>' = Some (take (unat len) (drop (unat off) [10, 11]))"
    using pbuf_take_read_back [OF demo_one_inv _ demo_two(1), of "[10, 11]"] by auto
  moreover from this(2) have "pbuf_copy_partial (Some 6) 1 1 \<sigma>' = Some [11]" by (auto dest!: spec [of _ "1 :: 16 word"])
  ultimately show ?thesis using pbuf_take_read_back [OF demo_one_inv _ demo_two(1), of "[10, 11, 12]"] by auto
qed

text \<open>C17: \<open>pbuf_copy\<close> from one chain to another, cut into buffers in any other way, overwrites the first bytes of
  the target's contents with the source's contents and changes nothing else; it returns exactly
  when the target is long enough. The chains have no empty buffers, the target has memory of its own, and the
  source has no payload in it.\<close>
theorem pbuf_copy_transfers:
  assumes "packet_inv \<sigma> ext" "copyable \<sigma> (Some t) (Some f) ts fs"
  shows "if length (content \<sigma> fs) \<le> length (content \<sigma> ts)
    then \<exists>\<sigma>'. pbuf_copy (Some t) (Some f) \<sigma> = Some (0, \<sigma>') \<and> packet_inv \<sigma>' ext \<and> wrote \<sigma> \<sigma>' (set ts) \<and>
      content \<sigma>' ts = content \<sigma> fs @ drop (length (content \<sigma> fs)) (content \<sigma> ts) \<and> content \<sigma>' fs = content \<sigma> fs
    else pbuf_copy (Some t) (Some f) \<sigma> = None"
  using pbuf_copy_ok [OF assms] assms(1) by (auto simp: patch_def wrote_inv split: if_splits)

lemma demo_copyable: "copyable demo_two (Some 5) (Some 6) [5] [6]"
  using demo_two_inv demo_own by (auto simp: copyable_def demo_chains owns_readable nonempty_def plen_def demo_two apart_def packet_inv_def)

theorem pbuf_copy_transfers_witness:
  "\<exists>\<sigma>'. pbuf_copy (Some 5) (Some 6) demo_two = Some (0, \<sigma>') \<and> take 2 (content \<sigma>' [5]) = content demo_two [6]"
proof -
  have "length (content demo_two [6]) = 2" "length (content demo_two [5]) = 3"
    using length_content [OF owns_readable [OF demo_own(1)]] length_content [OF owns_readable [OF demo_own(2)]] by (simp_all add: plen_def demo_two)
  then show ?thesis using pbuf_copy_transfers [OF demo_two_inv demo_copyable] by auto
qed



text \<open>\<open>pbuf_dechain\<close> undoes \<open>pbuf_chain\<close>: after a packet has been chained to a single buffer, with a
  reference of its own kept, taking the chain apart at that buffer returns the packet and the store is the one before.\<close>
theorem pbuf_chain_dechain:
  assumes "pbs \<sigma> h = Some bh" "pb_next bh = None" "pb_tot_len bh = pb_len bh" "pbs \<sigma> t = Some bt" "h \<noteq> t"
    "0 < unat (pb_ref bt)" "unat (pb_ref bt) < 65535" "unat (pb_len bh) + unat (pb_tot_len bt) < 65536"
  shows "\<exists>\<sigma>'. pbuf_chain (Some h) (Some t) \<sigma> = Some \<sigma>' \<and> pbuf_dechain h \<sigma>' = Some (Some t, \<sigma>)"
proof -
  let ?h = "bh\<lparr>pb_tot_len := pb_len bh + pb_tot_len bt, pb_next := Some t\<rparr>" and ?t = "bt\<lparr>pb_ref := pb_ref bt + 1\<rparr>"
  define \<sigma>' where "\<sigma>' = put_pb t ?t (put_pb h ?h \<sigma>)"
  have "pbuf_chain (Some h) (Some t) \<sigma> = Some \<sigma>'"
    using assms(1-5) by (simp add: pbuf_chain_def pbuf_cat_def cat_loop.simps pbuf_ref_def guard_def \<sigma>'_def)
  moreover have "pbuf_dechain h \<sigma>' = Some (Some t, \<sigma>)"
  proof -
    have s: "pbs \<sigma>' h = Some ?h" "pbs \<sigma>' t = Some ?t" using assms(5) by (simp_all add: \<sigma>'_def)
    have tot: "uint (pb_tot_len bt) = uint (pb_len bh + pb_tot_len bt) - uint (pb_len bh)"
      using assms(8) unfolding uint_nat by (simp add: unat_word_ariths)
    have r: "0 < pb_ref bt + 1" "pb_ref bt \<noteq> 0" using assms(6,7) by (auto simp: word_gt_0 unat_word_ariths unat_eq_0 [symmetric] simp del: unat_eq_0)
    have bh: "bh\<lparr>pb_next := None, pb_tot_len := pb_len bh\<rparr> = bh" "bh\<lparr>pb_tot_len := pb_len bh, pb_next := None\<rparr> = bh" using assms(2,3) by (cases bh, simp)+
    have undo: "(pbs \<sigma>)(h \<mapsto> bh, t \<mapsto> bt) = pbs \<sigma>" "(pbs \<sigma>)(t \<mapsto> bt, h \<mapsto> bh) = pbs \<sigma>" using assms(1,4) by auto
    show ?thesis
      using assms(3,5) s tot r undo
      by (simp add: pbuf_dechain_def guard_def pbuf_free_def free_loop.simps bh)
        (simp add: \<sigma>'_def put_pb_def fun_upd_twist)
  qed
  ultimately show ?thesis by blast
qed

theorem pbuf_chain_dechain_witness:
  "\<exists>\<sigma>'. pbuf_chain (Some 5) (Some 6) demo_two = Some \<sigma>' \<and> pbuf_dechain 5 \<sigma>' = Some (Some 6, demo_two)"
  by (rule pbuf_chain_dechain [of _ _ "the (pbs demo_two 5)" _ "the (pbs demo_two 6)"]) (simp_all add: demo_two)

end
