(* ===== verification/Etharp.thy ===== *)
theory Etharp
  imports Pbuf Inet_Addr
begin

text \<open>
  The ARP module \<open>lwip/src/netif/etharp.c\<close>: the table of addresses with the packets that wait for one,
  its timer, and the handlers of incoming frames and outgoing packets, over the packet buffers of \<open>Pbuf\<close>.

  The build has \<open>ARP_QUEUEING\<close>, \<open>ETHARP_TRUST_IP_MAC\<close>, and neither DHCP, AUTOIP, SNMP, VLAN, PPPoE nor
  address hints. The driver is a parameter: \<open>linkoutput\<close> reads the frame, records it in \<open>link_out\<close> and
  returns the next value of \<open>link_err\<close> (\<open>ERR_OK\<close> when the list is used up); like the drivers it is written for, it
  leaves the buffers as they are. The elements of the pool \<open>MEMP_ARP_QUEUE\<close> carry a queue
  entry each and are counted.
\<close>

subsection \<open>State\<close>

definition ARP_MAXAGE :: u8_t where "ARP_MAXAGE = 240"
definition ARP_MAXPENDING :: u8_t where "ARP_MAXPENDING = 2"
definition ARP_TABLE_SIZE :: nat where "ARP_TABLE_SIZE = 10"
definition MEMP_NUM_ARP_QUEUE :: nat where "MEMP_NUM_ARP_QUEUE = 30"
definition HWTYPE_ETHERNET :: u16_t where "HWTYPE_ETHERNET = 1"
definition ETHTYPE_ARP :: u16_t where "ETHTYPE_ARP = 0x0806"
definition ETHTYPE_IP :: u16_t where "ETHTYPE_IP = 0x0800"
definition ARP_REQUEST :: u16_t where "ARP_REQUEST = 1"
definition ARP_REPLY :: u16_t where "ARP_REPLY = 2"
definition ETHARP_HWADDR_LEN :: nat where "ETHARP_HWADDR_LEN = 6"
definition SIZEOF_ETH_HDR :: nat where "SIZEOF_ETH_HDR = 14"
definition SIZEOF_ETHARP_HDR :: nat where "SIZEOF_ETHARP_HDR = 28"
definition SIZEOF_ETHARP_PACKET :: nat where "SIZEOF_ETHARP_PACKET = SIZEOF_ETH_HDR + SIZEOF_ETHARP_HDR"
definition ETHARP_TRY_HARD :: u8_t where "ETHARP_TRY_HARD = 1"
definition ETHARP_FIND_ONLY :: u8_t where "ETHARP_FIND_ONLY = 2"
definition ERR_MEM :: int where "ERR_MEM = - 1"
definition ERR_BUF :: int where "ERR_BUF = - 2"
definition ERR_RTE :: int where "ERR_RTE = - 4"

datatype etharp_state = ETHARP_STATE_EMPTY | ETHARP_STATE_PENDING | ETHARP_STATE_STABLE

type_synonym eth_addr = "byte list"

definition ethbroadcast :: eth_addr where "ethbroadcast = replicate 6 0xff"
definition ethzero :: eth_addr where "ethzero = replicate 6 0"

text \<open>The waiting packets \<open>ae_q\<close> are the \<open>p\<close> fields of the linked \<open>etharp_q_entry\<close> elements.\<close>

record etharp_entry =
  ae_q :: "paddr list"
  ae_ipaddr :: u32_t
  ae_ethaddr :: eth_addr
  ae_state :: etharp_state
  ae_ctime :: u8_t
  ae_netif :: u8_t

record netif = netif_addr +
  nif_gw :: u32_t
  nif_hwaddr :: eth_addr
  nif_hwaddr_len :: u8_t
  nif_num :: u8_t

record arp =
  arp_table :: "etharp_entry list"
  etharp_cached_entry :: nat
  arp_free :: nat
  arp_mem :: pmem
  link_err :: "int list"
  link_out :: "byte list list"

definition set_entry :: "nat \<Rightarrow> (etharp_entry \<Rightarrow> etharp_entry) \<Rightarrow> arp \<Rightarrow> arp" where
  "set_entry i f s = s\<lparr>arp_table := (arp_table s)[i := f (arp_table s ! i)]\<rparr>"

text \<open>A call that works on the buffers only.\<close>

definition on_mem :: "(pmem \<Rightarrow> ('a \<times> pmem) option) \<Rightarrow> arp \<Rightarrow> ('a \<times> arp) option" where
  "on_mem f s = do { (x, \<sigma>) \<leftarrow> f (arp_mem s); Some (x, s\<lparr>arp_mem := \<sigma>\<rparr>) }"

subsection \<open>Fields of a header\<close>

text \<open>The pointer is \<open>k\<close> bytes behind the payload of the pbuf; fields have network byte order.\<close>

definition get_bytes :: "paddr \<Rightarrow> nat \<Rightarrow> nat \<Rightarrow> arp \<Rightarrow> byte list option" where
  "get_bytes p k n s = do { b \<leftarrow> pbs (arp_mem s) p; load (pb_payload b) k n (arp_mem s) }"

definition put_bytes :: "paddr \<Rightarrow> nat \<Rightarrow> byte list \<Rightarrow> arp \<Rightarrow> arp option" where
  "put_bytes p k xs s = do {
     b \<leftarrow> pbs (arp_mem s) p; \<sigma> \<leftarrow> store (pb_payload b) k xs (arp_mem s); Some (s\<lparr>arp_mem := \<sigma>\<rparr>) }"

definition get16 :: "paddr \<Rightarrow> nat \<Rightarrow> arp \<Rightarrow> u16_t option" where
  "get16 p k s = do { xs \<leftarrow> get_bytes p k 2 s; Some (ld16 (xs ! 0) (xs ! 1)) }"

definition get32 :: "paddr \<Rightarrow> nat \<Rightarrow> arp \<Rightarrow> u32_t option" where
  "get32 p k s = do { xs \<leftarrow> get_bytes p k 4 s; Some (ld32 (xs ! 0) (xs ! 1) (xs ! 2) (xs ! 3)) }"

subsection \<open>The driver\<close>

definition linkoutput :: "paddr \<Rightarrow> arp \<Rightarrow> (int \<times> arp) option" where
  "linkoutput p s = do {
     b \<leftarrow> pbs (arp_mem s) p;
     frame \<leftarrow> partial_loop (Some p) (unat (pb_tot_len b)) 0 [] (arp_mem s);
     Some (case link_err s of [] \<Rightarrow> 0 | e # es \<Rightarrow> e, s\<lparr>link_err := tl (link_err s), link_out := link_out s @ [frame]\<rparr>) }"

subsection \<open>The queue and the timer\<close>

fun free_etharp_q :: "paddr list \<Rightarrow> arp \<Rightarrow> arp option" where
  "free_etharp_q [] s = Some s"
| "free_etharp_q (p # q) s = do {
     (n, s) \<leftarrow> on_mem (pbuf_free (Some p)) s;
     free_etharp_q q (s\<lparr>arp_free := arp_free s + 1\<rparr>) }"

definition etharp_tmr_entry :: "nat \<Rightarrow> arp \<Rightarrow> arp option" where
  "etharp_tmr_entry i s =
     (let s = set_entry i (\<lambda>e. e\<lparr>ae_ctime := ae_ctime e + 1\<rparr>) s; e = arp_table s ! i in
      if ae_state e = ETHARP_STATE_STABLE \<and> ae_ctime e \<ge> ARP_MAXAGE \<or> ae_state e = ETHARP_STATE_PENDING \<and> ae_ctime e \<ge> ARP_MAXPENDING
      then do {
        s \<leftarrow> (if ae_q e \<noteq> [] then do { s \<leftarrow> free_etharp_q (ae_q e) s; Some (set_entry i (\<lambda>e. e\<lparr>ae_q := []\<rparr>) s) } else Some s);
        Some (set_entry i (\<lambda>e. e\<lparr>ae_state := ETHARP_STATE_EMPTY\<rparr>) s) }
      else Some s)"

fun etharp_tmr_loop :: "nat list \<Rightarrow> arp \<Rightarrow> arp option" where
  "etharp_tmr_loop [] s = Some s"
| "etharp_tmr_loop (i # is) s = do { s \<leftarrow> etharp_tmr_entry i s; etharp_tmr_loop is s }"

definition etharp_tmr :: "arp \<Rightarrow> arp option" where
  "etharp_tmr s = etharp_tmr_loop [0..<ARP_TABLE_SIZE] s"

subsection \<open>Finding an entry\<close>

text \<open>The candidates of the sweep; an index of \<open>ARP_TABLE_SIZE\<close> stands for none.\<close>

record sweep =
  sw_empty :: nat
  sw_stable :: nat
  sw_age_stable :: u8_t
  sw_pending :: nat
  sw_age_pending :: u8_t
  sw_queue :: nat
  sw_age_queue :: u8_t

definition sweep_start :: sweep where
  "sweep_start = \<lparr>sw_empty = ARP_TABLE_SIZE, sw_stable = ARP_TABLE_SIZE, sw_age_stable = 0, sw_pending = ARP_TABLE_SIZE,
     sw_age_pending = 0, sw_queue = ARP_TABLE_SIZE, sw_age_queue = 0\<rparr>"

text \<open>The loop: the index of a match, or the candidates.\<close>

fun find_sweep :: "u32_t option \<Rightarrow> nat \<Rightarrow> etharp_entry list \<Rightarrow> sweep \<Rightarrow> nat + sweep" where
  "find_sweep ipaddr i [] w = Inr w"
| "find_sweep ipaddr i (e # es) w =
     (if sw_empty w = ARP_TABLE_SIZE \<and> ae_state e = ETHARP_STATE_EMPTY then find_sweep ipaddr (i + 1) es (w\<lparr>sw_empty := i\<rparr>)
      else if ae_state e = ETHARP_STATE_PENDING
      then if ipaddr = Some (ae_ipaddr e) then Inl i
           else if ae_q e \<noteq> []
           then find_sweep ipaddr (i + 1) es
             (if ae_ctime e \<ge> sw_age_queue w then w\<lparr>sw_queue := i, sw_age_queue := ae_ctime e\<rparr> else w)
           else find_sweep ipaddr (i + 1) es
             (if ae_ctime e \<ge> sw_age_pending w then w\<lparr>sw_pending := i, sw_age_pending := ae_ctime e\<rparr> else w)
      else if ae_state e = ETHARP_STATE_STABLE
      then if ipaddr = Some (ae_ipaddr e) then Inl i
           else find_sweep ipaddr (i + 1) es
             (if ae_ctime e \<ge> sw_age_stable w then w\<lparr>sw_stable := i, sw_age_stable := ae_ctime e\<rparr> else w)
      else find_sweep ipaddr (i + 1) es w)"

text \<open>Choosing the least destructive entry; \<open>None\<close> as its result is \<open>ERR_MEM\<close>.\<close>

definition find_recycle :: "sweep \<Rightarrow> arp \<Rightarrow> (nat option \<times> arp) option" where
  "find_recycle w s =
     (if sw_empty w < ARP_TABLE_SIZE then Some (Some (sw_empty w), s)
      else if sw_stable w < ARP_TABLE_SIZE then do { guard (ae_q (arp_table s ! sw_stable w) = []); Some (Some (sw_stable w), s) }
      else if sw_pending w < ARP_TABLE_SIZE then Some (Some (sw_pending w), s)
      else if sw_queue w < ARP_TABLE_SIZE then do {
        s \<leftarrow> free_etharp_q (ae_q (arp_table s ! sw_queue w)) s;
        Some (Some (sw_queue w), set_entry (sw_queue w) (\<lambda>e. e\<lparr>ae_q := []\<rparr>) s) }
      else Some (None, s))"

definition find_entry :: "u32_t option \<Rightarrow> u8_t \<Rightarrow> arp \<Rightarrow> (int \<times> arp) option" where
  "find_entry ipaddr flags s =
     (let c = arp_table s ! etharp_cached_entry s in
      if ae_state c = ETHARP_STATE_STABLE \<and> ipaddr = Some (ae_ipaddr c) then Some (int (etharp_cached_entry s), s)
      else case find_sweep ipaddr 0 (arp_table s) sweep_start of
        Inl i \<Rightarrow> Some (int i, s\<lparr>etharp_cached_entry := i\<rparr>)
      | Inr w \<Rightarrow>
          if sw_empty w = ARP_TABLE_SIZE \<and> flags AND ETHARP_TRY_HARD = 0 \<or> flags AND ETHARP_FIND_ONLY \<noteq> 0 then Some (ERR_MEM, s)
          else do {
            (r, s) \<leftarrow> find_recycle w s;
            case r of None \<Rightarrow> Some (ERR_MEM, s)
            | Some i \<Rightarrow> do {
                guard (i < ARP_TABLE_SIZE);
                let s = set_entry i (\<lambda>e. e\<lparr>ae_state := ETHARP_STATE_EMPTY\<rparr>) s;
                let s = (case ipaddr of None \<Rightarrow> s | Some a \<Rightarrow> set_entry i (\<lambda>e. e\<lparr>ae_ipaddr := a\<rparr>) s);
                let s = set_entry i (\<lambda>e. e\<lparr>ae_ctime := 0\<rparr>) s;
                Some (int i, s\<lparr>etharp_cached_entry := i\<rparr>) } })"

subsection \<open>Updating an entry\<close>

text \<open>The address is six bytes; the loop writes those of both fields.\<close>

definition etharp_send_ip :: "netif \<Rightarrow> paddr \<Rightarrow> eth_addr \<Rightarrow> eth_addr \<Rightarrow> arp \<Rightarrow> (int \<times> arp) option" where
  "etharp_send_ip netif p src dst s = do {
     guard (unat (nif_hwaddr_len netif) = ETHARP_HWADDR_LEN);
     s \<leftarrow> put_bytes p 0 (take ETHARP_HWADDR_LEN dst) s;
     s \<leftarrow> put_bytes p 6 (take ETHARP_HWADDR_LEN src) s;
     s \<leftarrow> put_bytes p 12 (bytes16 (htons ETHTYPE_IP)) s;
     linkoutput p s }"

text \<open>The loop that sends the queued packets.\<close>

partial_function (option) send_queue :: "netif \<Rightarrow> nat \<Rightarrow> eth_addr \<Rightarrow> arp \<Rightarrow> arp option" where
  "send_queue netif i ethaddr s = (case ae_q (arp_table s ! i) of [] \<Rightarrow> Some s
     | p # q \<Rightarrow> do {
         let s = set_entry i (\<lambda>e. e\<lparr>ae_q := q\<rparr>) s;
         let s = s\<lparr>arp_free := arp_free s + 1\<rparr>;
         (err, s) \<leftarrow> etharp_send_ip netif p (nif_hwaddr netif) ethaddr s;
         (n, s) \<leftarrow> on_mem (pbuf_free (Some p)) s;
         send_queue netif i ethaddr s })"

definition update_arp_entry :: "netif \<Rightarrow> u32_t \<Rightarrow> eth_addr \<Rightarrow> u8_t \<Rightarrow> arp \<Rightarrow> (int \<times> arp) option" where
  "update_arp_entry netif ipaddr ethaddr flags s = do {
     guard (unat (nif_hwaddr_len netif) = ETHARP_HWADDR_LEN);
     if ipaddr = 0 \<or> ip_addr_isbroadcast ipaddr (netif_addr.truncate netif) \<or> ip_addr_ismulticast ipaddr then Some (ERR_ARG, s)
     else do {
       (i, s) \<leftarrow> find_entry (Some ipaddr) flags s;
       if i < 0 then Some (i, s)
       else do {
         let s = set_entry (nat i) (\<lambda>e. e\<lparr>ae_state := ETHARP_STATE_STABLE\<rparr>) s;
         let s = set_entry (nat i) (\<lambda>e. e\<lparr>ae_netif := nif_num netif\<rparr>) s;
         let s = set_entry (nat i) (\<lambda>e. e\<lparr>ae_ethaddr := take ETHARP_HWADDR_LEN ethaddr\<rparr>) s;
         let s = set_entry (nat i) (\<lambda>e. e\<lparr>ae_ctime := 0\<rparr>) s;
         s \<leftarrow> send_queue netif (nat i) ethaddr s;
         Some (0, s) } } }"

text \<open>The result carries what is stored through \<open>eth_ret\<close> and \<open>ip_ret\<close>.\<close>

definition etharp_find_addr :: "u32_t \<Rightarrow> arp \<Rightarrow> ((int \<times> (eth_addr \<times> u32_t) option) \<times> arp) option" where
  "etharp_find_addr ipaddr s = do {
     (i, s) \<leftarrow> find_entry (Some ipaddr) ETHARP_FIND_ONLY s;
     let e = arp_table s ! nat i;
     Some (if i \<ge> 0 \<and> ae_state e = ETHARP_STATE_STABLE then (i, Some (ae_ethaddr e, ae_ipaddr e)) else (- 1, None), s) }"

subsection \<open>Incoming frames\<close>

text \<open>The source address of the Ethernet header is at 6, that of the IP header at 14 + 12.\<close>

definition etharp_ip_input :: "netif \<Rightarrow> paddr \<Rightarrow> arp \<Rightarrow> arp option" where
  "etharp_ip_input netif p s = do {
     src \<leftarrow> get32 p (SIZEOF_ETH_HDR + 12) s;
     if \<not> ip_addr_netcmp src (nif_ip_addr netif) (nif_netmask netif) then Some s
     else do {
       mac \<leftarrow> get_bytes p 6 ETHARP_HWADDR_LEN s;
       (err, s) \<leftarrow> update_arp_entry netif src mac 0 s;
       Some s } }"

text \<open>
  The ARP header starts at 14: \<open>hwtype\<close> 14, \<open>proto\<close> 16, \<open>_hwlen_protolen\<close> 18, \<open>opcode\<close> 20, \<open>shwaddr\<close> 22,
  \<open>sipaddr\<close> 28, \<open>dhwaddr\<close> 32, \<open>dipaddr\<close> 38.
\<close>

definition arp_hdr_ok :: "paddr \<Rightarrow> arp \<Rightarrow> bool option" where
  "arp_hdr_ok p s = do {
     hwtype \<leftarrow> get16 p 14 s; lens \<leftarrow> get16 p 18 s; proto \<leftarrow> get16 p 16 s; type \<leftarrow> get16 p 12 s;
     Some (hwtype = htons HWTYPE_ETHERNET \<and> lens = htons (push_bit 8 (of_nat ETHARP_HWADDR_LEN) OR 4) \<and>
       proto = htons ETHTYPE_IP \<and> type = htons ETHTYPE_ARP) }"

definition arp_reply :: "netif \<Rightarrow> eth_addr \<Rightarrow> paddr \<Rightarrow> arp \<Rightarrow> arp option" where
  "arp_reply netif ethaddr p s = do {
     s \<leftarrow> put_bytes p 20 (bytes16 (htons ARP_REPLY)) s;
     sip \<leftarrow> get_bytes p 28 4 s;
     s \<leftarrow> put_bytes p 38 sip s;
     s \<leftarrow> put_bytes p 28 (bytes32 (nif_ip_addr netif)) s;
     guard (unat (nif_hwaddr_len netif) = ETHARP_HWADDR_LEN);
     shw \<leftarrow> get_bytes p 22 ETHARP_HWADDR_LEN s;
     s \<leftarrow> put_bytes p 32 shw s;
     s \<leftarrow> put_bytes p 0 shw s;
     s \<leftarrow> put_bytes p 22 (take ETHARP_HWADDR_LEN ethaddr) s;
     s \<leftarrow> put_bytes p 6 (take ETHARP_HWADDR_LEN ethaddr) s;
     (err, s) \<leftarrow> linkoutput p s;
     Some s }"

definition etharp_arp_input :: "netif \<Rightarrow> eth_addr \<Rightarrow> paddr \<Rightarrow> arp \<Rightarrow> arp option" where
  "etharp_arp_input netif ethaddr p s = do {
     b \<leftarrow> pbs (arp_mem s) p;
     if unat (pb_len b) < SIZEOF_ETHARP_PACKET then map_option snd (on_mem (pbuf_free (Some p)) s)
     else do {
       hdr_ok \<leftarrow> arp_hdr_ok p s;
       if \<not> hdr_ok then map_option snd (on_mem (pbuf_free (Some p)) s)
       else do {
         sip \<leftarrow> get32 p 28 s; dip \<leftarrow> get32 p 38 s; shw \<leftarrow> get_bytes p 22 ETHARP_HWADDR_LEN s;
         let for_us = nif_ip_addr netif \<noteq> 0 \<and> dip = nif_ip_addr netif;
         (err, s) \<leftarrow> update_arp_entry netif sip shw (if for_us then ETHARP_TRY_HARD else 0) s;
         opcode \<leftarrow> get16 p 20 s;
         s \<leftarrow> (if htons opcode = ARP_REQUEST \<and> for_us then arp_reply netif ethaddr p s else Some s);
         map_option snd (on_mem (pbuf_free (Some p)) s) } } }"

subsection \<open>Outgoing packets\<close>

definition etharp_raw :: "netif \<Rightarrow> eth_addr \<Rightarrow> eth_addr \<Rightarrow> eth_addr \<Rightarrow> u32_t \<Rightarrow> eth_addr \<Rightarrow> u32_t \<Rightarrow> u16_t \<Rightarrow> arp \<Rightarrow> (int \<times> arp) option" where
  "etharp_raw netif ethsrc ethdst hwsrc ipsrc hwdst ipdst opcode s = do {
     (p, s) \<leftarrow> on_mem (pbuf_alloc PBUF_RAW (of_nat SIZEOF_ETHARP_PACKET) PBUF_RAM) s;
     case p of None \<Rightarrow> Some (ERR_MEM, s)
     | Some p \<Rightarrow> do {
         b \<leftarrow> pbs (arp_mem s) p;
         guard (unat (pb_len b) \<ge> SIZEOF_ETHARP_PACKET);
         s \<leftarrow> put_bytes p 20 (bytes16 (htons opcode)) s;
         guard (unat (nif_hwaddr_len netif) = ETHARP_HWADDR_LEN);
         s \<leftarrow> put_bytes p 22 (take ETHARP_HWADDR_LEN hwsrc) s;
         s \<leftarrow> put_bytes p 32 (take ETHARP_HWADDR_LEN hwdst) s;
         s \<leftarrow> put_bytes p 0 (take ETHARP_HWADDR_LEN ethdst) s;
         s \<leftarrow> put_bytes p 6 (take ETHARP_HWADDR_LEN ethsrc) s;
         s \<leftarrow> put_bytes p 28 (bytes32 ipsrc) s;
         s \<leftarrow> put_bytes p 38 (bytes32 ipdst) s;
         s \<leftarrow> put_bytes p 14 (bytes16 (htons HWTYPE_ETHERNET)) s;
         s \<leftarrow> put_bytes p 16 (bytes16 (htons ETHTYPE_IP)) s;
         s \<leftarrow> put_bytes p 18 (bytes16 (htons (push_bit 8 (of_nat ETHARP_HWADDR_LEN) OR 4))) s;
         s \<leftarrow> put_bytes p 12 (bytes16 (htons ETHTYPE_ARP)) s;
         (result, s) \<leftarrow> linkoutput p s;
         (n, s) \<leftarrow> on_mem (pbuf_free (Some p)) s;
         Some (result, s) } }"

definition etharp_request :: "netif \<Rightarrow> u32_t \<Rightarrow> arp \<Rightarrow> (int \<times> arp) option" where
  "etharp_request netif ipaddr s =
     etharp_raw netif (nif_hwaddr netif) ethbroadcast (nif_hwaddr netif) (nif_ip_addr netif) ethzero ipaddr ARP_REQUEST s"

text \<open>The loop that looks for a pbuf that is not \<open>PBUF_ROM\<close>: \<open>p\<close> at its end.\<close>

partial_function (option) copy_needed :: "paddr option \<Rightarrow> pmem \<Rightarrow> paddr option option" where
  "copy_needed p \<sigma> = (case p of None \<Rightarrow> Some None
     | Some a \<Rightarrow> do {
         b \<leftarrow> pbs \<sigma> a;
         guard (pb_len b \<noteq> pb_tot_len b \<or> pb_next b = None);
         if pb_type b \<noteq> PBUF_ROM then Some (Some a) else copy_needed (pb_next b) \<sigma> })"

text \<open>Queueing \<open>q\<close> on entry \<open>i\<close>; \<open>result\<close> is what the call would return otherwise.\<close>

definition arp_enqueue :: "nat \<Rightarrow> paddr \<Rightarrow> int \<Rightarrow> arp \<Rightarrow> (int \<times> arp) option" where
  "arp_enqueue i q result s = do {
     c \<leftarrow> copy_needed (Some q) (arp_mem s);
     (p, s) \<leftarrow> (case c of
         Some c \<Rightarrow> do {
           bc \<leftarrow> pbs (arp_mem s) c;
           (p, s) \<leftarrow> on_mem (pbuf_alloc PBUF_RAW (pb_tot_len bc) PBUF_RAM) s;
           case p of None \<Rightarrow> Some (None, s)
           | Some p \<Rightarrow> do {
               (err, s) \<leftarrow> on_mem (pbuf_copy (Some p) (Some q)) s;
               if err \<noteq> 0 then do { (n, s) \<leftarrow> on_mem (pbuf_free (Some p)) s; Some (None, s) }
               else Some (Some p, s) } }
       | None \<Rightarrow> do { \<sigma> \<leftarrow> pbuf_ref (Some q) (arp_mem s); Some (Some q, s\<lparr>arp_mem := \<sigma>\<rparr>) });
     case p of None \<Rightarrow> Some (result, s)
     | Some p \<Rightarrow>
         if arp_free s > 0
         then Some (0, set_entry i (\<lambda>e. e\<lparr>ae_q := ae_q e @ [p]\<rparr>) (s\<lparr>arp_free := arp_free s - 1\<rparr>))
         else do { (n, s) \<leftarrow> on_mem (pbuf_free (Some p)) s; Some (result, s) } }"

definition etharp_query :: "netif \<Rightarrow> u32_t \<Rightarrow> paddr option \<Rightarrow> arp \<Rightarrow> (int \<times> arp) option" where
  "etharp_query netif ipaddr q s =
     (if ip_addr_isbroadcast ipaddr (netif_addr.truncate netif) \<or> ip_addr_ismulticast ipaddr \<or> ipaddr = 0 then Some (ERR_ARG, s)
      else do {
        (i, s) \<leftarrow> find_entry (Some ipaddr) ETHARP_TRY_HARD s;
        if i < 0 then Some (i, s)
        else do {
          let i = nat i;
          let s = (if ae_state (arp_table s ! i) = ETHARP_STATE_EMPTY then set_entry i (\<lambda>e. e\<lparr>ae_state := ETHARP_STATE_PENDING\<rparr>) s else s);
          (result, s) \<leftarrow> (if ae_state (arp_table s ! i) = ETHARP_STATE_PENDING \<or> q = None then etharp_request netif ipaddr s
            else Some (ERR_MEM, s));
          case q of None \<Rightarrow> Some (result, s)
          | Some q \<Rightarrow>
              if ae_state (arp_table s ! i) = ETHARP_STATE_STABLE
              then etharp_send_ip netif q (nif_hwaddr netif) (ae_ethaddr (arp_table s ! i)) s
              else if ae_state (arp_table s ! i) = ETHARP_STATE_PENDING then arp_enqueue i q result s
              else Some (result, s) } })"

definition ip4_addr2 :: "u32_t \<Rightarrow> u16_t" where "ip4_addr2 a = ucast (drop_bit 16 (ntohl a)) AND 0xff"
definition ip4_addr3 :: "u32_t \<Rightarrow> u16_t" where "ip4_addr3 a = ucast (drop_bit 8 (ntohl a)) AND 0xff"
definition ip4_addr4 :: "u32_t \<Rightarrow> u16_t" where "ip4_addr4 a = ucast (ntohl a) AND 0xff"

definition etharp_output :: "netif \<Rightarrow> paddr \<Rightarrow> u32_t \<Rightarrow> arp \<Rightarrow> (int \<times> arp) option" where
  "etharp_output netif q ipaddr s = do {
     (r, s) \<leftarrow> on_mem (pbuf_header (Some q) (int SIZEOF_ETH_HDR)) s;
     if r \<noteq> 0 then Some (ERR_BUF, s)
     else if ip_addr_isbroadcast ipaddr (netif_addr.truncate netif) then etharp_send_ip netif q (nif_hwaddr netif) ethbroadcast s
     else if ip_addr_ismulticast ipaddr
     then etharp_send_ip netif q (nif_hwaddr netif)
       [0x01, 0x00, 0x5e, ucast (ip4_addr2 ipaddr AND 0x7f), ucast (ip4_addr3 ipaddr), ucast (ip4_addr4 ipaddr)] s
     else if \<not> ip_addr_netcmp ipaddr (nif_ip_addr netif) (nif_netmask netif)
     then if nif_gw netif \<noteq> 0 then etharp_query netif (nif_gw netif) (Some q) s else Some (ERR_RTE, s)
     else etharp_query netif ipaddr (Some q) s }"

text \<open>\<open>ip_input\<close> takes the packet over.\<close>

definition ethernet_input :: "(paddr \<Rightarrow> netif \<Rightarrow> arp \<Rightarrow> arp option) \<Rightarrow> paddr \<Rightarrow> netif \<Rightarrow> arp \<Rightarrow> (int \<times> arp) option" where
  "ethernet_input ip_input p netif s = do {
     type \<leftarrow> get16 p 12 s;
     s \<leftarrow> (if htons type = ETHTYPE_IP
       then do {
         s \<leftarrow> etharp_ip_input netif p s;
         (r, s) \<leftarrow> on_mem (pbuf_header (Some p) (- int SIZEOF_ETH_HDR)) s;
         guard (r = 0);
         ip_input p netif s }
       else if htons type = ETHTYPE_ARP then etharp_arp_input netif (nif_hwaddr netif) p s
       else map_option snd (on_mem (pbuf_free (Some p)) s));
     Some (0, s) }"

end
