(* ===== verification/Etharp_Table.thy ===== *)
theory Etharp_Table
  imports Etharp Pbuf_Copy
begin

text \<open>
  The ARP table: what \<open>find_entry\<close> finds, what it recycles, and the invariant of the table.
\<close>

subsection \<open>The sweep\<close>

definition arp_match :: "u32_t option \<Rightarrow> etharp_entry \<Rightarrow> bool" where
  "arp_match ip e \<longleftrightarrow> ae_state e \<noteq> ETHARP_STATE_EMPTY \<and> ip = Some (ae_ipaddr e)"

definition is_stable :: "etharp_entry \<Rightarrow> bool" where
  "is_stable e \<longleftrightarrow> ae_state e = ETHARP_STATE_STABLE"

definition is_idle :: "etharp_entry \<Rightarrow> bool" where
  "is_idle e \<longleftrightarrow> ae_state e = ETHARP_STATE_PENDING \<and> ae_q e = []"

definition is_busy :: "etharp_entry \<Rightarrow> bool" where
  "is_busy e \<longleftrightarrow> ae_state e = ETHARP_STATE_PENDING \<and> ae_q e \<noteq> []"

text \<open>\<open>i\<close> is the oldest of the first \<open>n\<close> entries with \<open>P\<close>, of age \<open>a\<close>.\<close>

definition oldest :: "(etharp_entry \<Rightarrow> bool) \<Rightarrow> etharp_entry list \<Rightarrow> nat \<Rightarrow> nat \<Rightarrow> u8_t \<Rightarrow> bool" where
  "oldest P tab n i a \<longleftrightarrow> (if \<exists>j<n. P (tab ! j)
     then i < n \<and> P (tab ! i) \<and> ae_ctime (tab ! i) = a \<and> (\<forall>j<n. P (tab ! j) \<longrightarrow> ae_ctime (tab ! j) \<le> a)
     else i = ARP_TABLE_SIZE \<and> a = 0)"

definition first_empty :: "etharp_entry list \<Rightarrow> nat \<Rightarrow> nat \<Rightarrow> bool" where
  "first_empty tab n i \<longleftrightarrow> (\<forall>j<n. j < i \<longrightarrow> ae_state (tab ! j) \<noteq> ETHARP_STATE_EMPTY) \<and>
     (if \<exists>j<n. ae_state (tab ! j) = ETHARP_STATE_EMPTY then i < n \<and> ae_state (tab ! i) = ETHARP_STATE_EMPTY else i = ARP_TABLE_SIZE)"

definition sweep_inv :: "etharp_entry list \<Rightarrow> nat \<Rightarrow> sweep \<Rightarrow> bool" where
  "sweep_inv tab n w \<longleftrightarrow> first_empty tab n (sw_empty w) \<and> oldest is_stable tab n (sw_stable w) (sw_age_stable w) \<and>
     oldest is_idle tab n (sw_pending w) (sw_age_pending w) \<and> oldest is_busy tab n (sw_queue w) (sw_age_queue w)"

lemma oldest_skip: "\<not> P (tab ! n) \<Longrightarrow> oldest P tab (Suc n) i a = oldest P tab n i a"
  unfolding oldest_def Ex_less_Suc All_less_Suc by (auto simp: less_Suc_eq)

lemma oldest_new:
  assumes "oldest P tab n i a" "P (tab ! n)" "a \<le> ae_ctime (tab ! n)"
  shows "oldest P tab (Suc n) n (ae_ctime (tab ! n))"
proof -
  have "ae_ctime (tab ! j) \<le> ae_ctime (tab ! n)" if "j < n" "P (tab ! j)" for j
    using assms(1,3) that unfolding oldest_def by (metis order_trans)
  then show ?thesis using assms(2) unfolding oldest_def by (auto simp: less_Suc_eq)
qed

lemma oldest_keep:
  assumes "oldest P tab n i a" "P (tab ! n)" "\<not> a \<le> ae_ctime (tab ! n)"
  shows "oldest P tab (Suc n) i a"
proof -
  have "a \<noteq> 0" using assms(3) by auto
  then have "\<exists>j<n. P (tab ! j)" using assms(1) by (auto simp: oldest_def split: if_splits)
  then have "i < n \<and> P (tab ! i) \<and> ae_ctime (tab ! i) = a \<and> (\<forall>j<n. P (tab ! j) \<longrightarrow> ae_ctime (tab ! j) \<le> a)" using assms(1) by (simp add: oldest_def)
  then show ?thesis using assms(2,3) unfolding oldest_def by (auto simp: less_Suc_eq)
qed

lemma first_empty_skip: "ae_state (tab ! n) \<noteq> ETHARP_STATE_EMPTY \<Longrightarrow> first_empty tab n i \<Longrightarrow> first_empty tab (Suc n) i"
  unfolding first_empty_def Ex_less_Suc All_less_Suc by (auto simp: less_Suc_eq split: if_splits)

lemma first_empty_new:
  assumes "first_empty tab n i" "n < ARP_TABLE_SIZE" "ae_state (tab ! n) = ETHARP_STATE_EMPTY"
  shows "first_empty tab (Suc n) (if i = ARP_TABLE_SIZE then n else i)"
proof (cases "i = ARP_TABLE_SIZE")
  case True
  then have "\<forall>j<n. ae_state (tab ! j) \<noteq> ETHARP_STATE_EMPTY" using assms(1,2) by (simp add: first_empty_def)
  then show ?thesis using True assms(3) by (auto simp: first_empty_def less_Suc_eq)
next
  case False
  then have "i < n \<and> ae_state (tab ! i) = ETHARP_STATE_EMPTY \<and> (\<forall>j<n. j < i \<longrightarrow> ae_state (tab ! j) \<noteq> ETHARP_STATE_EMPTY)"
    using assms(1) by (auto simp: first_empty_def split: if_splits)
  then show ?thesis using False assms(3) by (auto simp: first_empty_def less_Suc_eq)
qed

lemma sweep_step:
  assumes i: "sweep_inv tab n w" and n: "n < ARP_TABLE_SIZE" and m: "\<not> arp_match ip (tab ! n)"
  shows "\<exists>w'. find_sweep ip n (tab ! n # es) w = find_sweep ip (Suc n) es w' \<and> sweep_inv tab (Suc n) w'"
proof -
  let ?e = "tab ! n"
  have p: "first_empty tab n (sw_empty w)" "oldest is_stable tab n (sw_stable w) (sw_age_stable w)"
    "oldest is_idle tab n (sw_pending w) (sw_age_pending w)" "oldest is_busy tab n (sw_queue w) (sw_age_queue w)"
    using i by (simp_all add: sweep_inv_def)
  note skips = oldest_skip [of is_stable tab n] oldest_skip [of is_idle tab n] oldest_skip [of is_busy tab n]
  note kinds = is_stable_def is_idle_def is_busy_def
  show ?thesis
  proof (cases "ae_state ?e")
    case ETHARP_STATE_EMPTY
    let ?w = "w\<lparr>sw_empty := if sw_empty w = ARP_TABLE_SIZE then n else sw_empty w\<rparr>"
    have "find_sweep ip n (?e # es) w = find_sweep ip (Suc n) es ?w" using ETHARP_STATE_EMPTY by simp
    moreover have "sweep_inv tab (Suc n) ?w"
      using p(2-4) first_empty_new [OF p(1) n ETHARP_STATE_EMPTY] skips ETHARP_STATE_EMPTY by (simp add: sweep_inv_def kinds)
    ultimately show ?thesis by blast
  next
    case ETHARP_STATE_STABLE
    let ?w = "if ae_ctime ?e \<ge> sw_age_stable w then w\<lparr>sw_stable := n, sw_age_stable := ae_ctime ?e\<rparr> else w"
    have "find_sweep ip n (?e # es) w = find_sweep ip (Suc n) es ?w" using ETHARP_STATE_STABLE m by (auto simp: arp_match_def)
    moreover have "sweep_inv tab (Suc n) ?w"
      using p(3,4) first_empty_skip [OF _ p(1)] oldest_new [OF p(2)] oldest_keep [OF p(2)] skips(2,3) ETHARP_STATE_STABLE
      by (simp add: sweep_inv_def kinds)
    ultimately show ?thesis by blast
  next
    case P: ETHARP_STATE_PENDING
    show ?thesis
    proof (cases "ae_q ?e = []")
      case True
      let ?w = "if ae_ctime ?e \<ge> sw_age_pending w then w\<lparr>sw_pending := n, sw_age_pending := ae_ctime ?e\<rparr> else w"
      have "find_sweep ip n (?e # es) w = find_sweep ip (Suc n) es ?w" using P True m by (auto simp: arp_match_def)
      moreover have "sweep_inv tab (Suc n) ?w"
        using p(2,4) first_empty_skip [OF _ p(1)] oldest_new [OF p(3)] oldest_keep [OF p(3)] skips(1,3) P True
        by (simp add: sweep_inv_def kinds)
      ultimately show ?thesis by blast
    next
      case False
      let ?w = "if ae_ctime ?e \<ge> sw_age_queue w then w\<lparr>sw_queue := n, sw_age_queue := ae_ctime ?e\<rparr> else w"
      have "find_sweep ip n (?e # es) w = find_sweep ip (Suc n) es ?w" using P False m by (auto simp: arp_match_def)
      moreover have "sweep_inv tab (Suc n) ?w"
        using p(2,3) first_empty_skip [OF _ p(1)] oldest_new [OF p(4)] oldest_keep [OF p(4)] skips(1,2) P False
        by (simp add: sweep_inv_def kinds)
      ultimately show ?thesis by blast
    qed
  qed
qed

lemma find_sweep_ok:
  assumes "length tab = ARP_TABLE_SIZE" "n \<le> ARP_TABLE_SIZE" "sweep_inv tab n w"
  shows "case find_sweep ip n (drop n tab) w of
      Inl i \<Rightarrow> n \<le> i \<and> i < ARP_TABLE_SIZE \<and> arp_match ip (tab ! i)
    | Inr w' \<Rightarrow> sweep_inv tab ARP_TABLE_SIZE w' \<and> (\<forall>j<ARP_TABLE_SIZE. n \<le> j \<longrightarrow> \<not> arp_match ip (tab ! j))"
  using assms
proof (induction "ARP_TABLE_SIZE - n" arbitrary: n w)
  case 0
  then show ?case by simp
next
  case (Suc k)
  then have n: "n < ARP_TABLE_SIZE" by simp
  let ?e = "tab ! n"
  have d: "drop n tab = ?e # drop (Suc n) tab" using n Suc.prems(1) by (simp add: Cons_nth_drop_Suc)
  show ?case
  proof (cases "arp_match ip ?e")
    case True
    then have "find_sweep ip n (drop n tab) w = Inl n" unfolding d by (cases "ae_state ?e") (auto simp: arp_match_def)
    then show ?thesis using True n by simp
  next
    case False
    obtain w' where w: "find_sweep ip n (drop n tab) w = find_sweep ip (Suc n) (drop (Suc n) tab) w'" "sweep_inv tab (Suc n) w'"
      using sweep_step [OF Suc.prems(3) n False, of "drop (Suc n) tab"] unfolding d by blast
    have later: "n \<le> j \<longleftrightarrow> j = n \<or> Suc n \<le> j" for j by auto
    have k: "k = ARP_TABLE_SIZE - Suc n" "Suc n \<le> ARP_TABLE_SIZE" using Suc.hyps(2) n by simp_all
    show ?thesis using Suc.hyps(1) [OF k(1) Suc.prems(1) k(2) w(2)] False unfolding w(1)
      by (cases "find_sweep ip (Suc n) (drop (Suc n) tab) w'") (auto simp: later)
  qed
qed

subsection \<open>The table\<close>

definition entry_ok :: "etharp_entry \<Rightarrow> bool" where
  "entry_ok e \<longleftrightarrow> (ae_state e \<noteq> ETHARP_STATE_PENDING \<longrightarrow> ae_q e = []) \<and> (ae_state e = ETHARP_STATE_STABLE \<longrightarrow> length (ae_ethaddr e) = ETHARP_HWADDR_LEN) \<and>
     (ae_state e = ETHARP_STATE_PENDING \<longrightarrow> ae_ctime e < ARP_MAXPENDING) \<and> (ae_state e = ETHARP_STATE_STABLE \<longrightarrow> ae_ctime e < ARP_MAXAGE)"

text \<open>No two entries in use have the same address.\<close>

definition tab_inv :: "etharp_entry list \<Rightarrow> bool" where
  "tab_inv tab \<longleftrightarrow> length tab = ARP_TABLE_SIZE \<and> (\<forall>i<ARP_TABLE_SIZE. entry_ok (tab ! i)) \<and>
     (\<forall>i<ARP_TABLE_SIZE. \<forall>j<ARP_TABLE_SIZE. ae_state (tab ! i) \<noteq> ETHARP_STATE_EMPTY \<longrightarrow> ae_state (tab ! j) \<noteq> ETHARP_STATE_EMPTY \<longrightarrow>
        ae_ipaddr (tab ! i) = ae_ipaddr (tab ! j) \<longrightarrow> i = j)"

text \<open>How much is lost when an entry is recycled.\<close>

definition rank :: "etharp_entry \<Rightarrow> nat" where
  "rank e = (if ae_state e = ETHARP_STATE_EMPTY then 0 else if is_stable e then 1 else if is_idle e then 2 else 3)"

definition arp_choice :: "etharp_entry list \<Rightarrow> nat \<Rightarrow> bool" where
  "arp_choice tab i \<longleftrightarrow> i < ARP_TABLE_SIZE \<and> (\<forall>j<ARP_TABLE_SIZE. rank (tab ! i) \<le> rank (tab ! j)) \<and>
     (\<forall>j<ARP_TABLE_SIZE. rank (tab ! j) = rank (tab ! i) \<longrightarrow> (if rank (tab ! i) = 0 then i \<le> j else ae_ctime (tab ! j) \<le> ae_ctime (tab ! i)))"

definition fresh_entry :: "u32_t \<Rightarrow> etharp_entry \<Rightarrow> etharp_entry" where
  "fresh_entry a e = e\<lparr>ae_q := [], ae_state := ETHARP_STATE_EMPTY, ae_ipaddr := a, ae_ctime := 0\<rparr>"

lemma rank_simps:
  "rank e = 0 \<longleftrightarrow> ae_state e = ETHARP_STATE_EMPTY" "rank e = Suc 0 \<longleftrightarrow> is_stable e" "rank e = 2 \<longleftrightarrow> is_idle e" "rank e = 3 \<longleftrightarrow> is_busy e"
  by (cases "ae_state e"; auto simp: rank_def is_stable_def is_idle_def is_busy_def)+

lemma rank_le: "rank e \<le> 3"
  by (simp add: rank_def)

lemma oldest_none: "oldest P tab n i a \<Longrightarrow> n \<le> ARP_TABLE_SIZE \<Longrightarrow> \<not> i < ARP_TABLE_SIZE \<Longrightarrow> j < n \<Longrightarrow> \<not> P (tab ! j)"
  by (auto simp: oldest_def split: if_splits)

lemma first_empty_some:
  assumes "first_empty tab n i" "i < ARP_TABLE_SIZE"
  shows "ae_state (tab ! i) = ETHARP_STATE_EMPTY" "i < n" "j < i \<Longrightarrow> ae_state (tab ! j) \<noteq> ETHARP_STATE_EMPTY"
proof -
  have "\<exists>j<n. ae_state (tab ! j) = ETHARP_STATE_EMPTY" using assms unfolding first_empty_def by (metis less_irrefl)
  then have "i < n \<and> ae_state (tab ! i) = ETHARP_STATE_EMPTY" using assms(1) unfolding first_empty_def by simp
  moreover have "\<forall>j<n. j < i \<longrightarrow> ae_state (tab ! j) \<noteq> ETHARP_STATE_EMPTY" using assms(1) unfolding first_empty_def by blast
  ultimately show "ae_state (tab ! i) = ETHARP_STATE_EMPTY" "i < n" "j < i \<Longrightarrow> ae_state (tab ! j) \<noteq> ETHARP_STATE_EMPTY" by auto
qed

lemma first_empty_none: "first_empty tab n i \<Longrightarrow> n \<le> ARP_TABLE_SIZE \<Longrightarrow> \<not> i < ARP_TABLE_SIZE \<Longrightarrow> j < n \<Longrightarrow> ae_state (tab ! j) \<noteq> ETHARP_STATE_EMPTY"
  unfolding first_empty_def by (metis order.strict_trans2)

lemma oldest_some: "oldest P tab n i a \<Longrightarrow> i < ARP_TABLE_SIZE \<Longrightarrow> i < n \<and> P (tab ! i) \<and> (\<forall>j<n. P (tab ! j) \<longrightarrow> ae_ctime (tab ! j) \<le> ae_ctime (tab ! i))"
  by (auto simp: oldest_def split: if_splits)

lemma free_etharp_q_table: "free_etharp_q q s = Some s' \<Longrightarrow> arp_table s' = arp_table s \<and> etharp_cached_entry s' = etharp_cached_entry s \<and>
    link_err s' = link_err s \<and> link_out s' = link_out s"
  by (induction q s rule: free_etharp_q.induct) (force simp: on_mem_def split: Option.bind_splits)+

lemma set_entry_same: "f (arp_table s ! i) = arp_table s ! i \<Longrightarrow> set_entry i f s = s"
  by (simp add: set_entry_def)

lemma choiceI:
  assumes "i < ARP_TABLE_SIZE" "rank (tab ! i) = r" "\<And>j. j < ARP_TABLE_SIZE \<Longrightarrow> r \<le> rank (tab ! j)"
    "\<And>j. j < ARP_TABLE_SIZE \<Longrightarrow> rank (tab ! j) = r \<Longrightarrow> if r = 0 then i \<le> j else ae_ctime (tab ! j) \<le> ae_ctime (tab ! i)"
  shows "arp_choice tab i"
  using assms by (simp add: arp_choice_def)

lemma rank_cases:
  "ae_state e \<noteq> ETHARP_STATE_EMPTY \<Longrightarrow> Suc 0 \<le> rank e"
  "ae_state e \<noteq> ETHARP_STATE_EMPTY \<Longrightarrow> \<not> is_stable e \<Longrightarrow> 2 \<le> rank e"
  "ae_state e \<noteq> ETHARP_STATE_EMPTY \<Longrightarrow> \<not> is_stable e \<Longrightarrow> \<not> is_idle e \<Longrightarrow> 3 \<le> rank e"
  by (simp_all add: rank_def)

lemma find_recycle_ok:
  assumes w: "sweep_inv (arp_table s) ARP_TABLE_SIZE w" and t: "tab_inv (arp_table s)"
  shows "\<exists>i. arp_choice (arp_table s) i \<and>
    find_recycle w s = map_option (\<lambda>s'. (Some i, set_entry i (\<lambda>e. e\<lparr>ae_q := []\<rparr>) s')) (free_etharp_q (ae_q (arp_table s ! i)) s)"
proof -
  let ?tab = "arp_table s"
  have p: "first_empty ?tab ARP_TABLE_SIZE (sw_empty w)" "oldest is_stable ?tab ARP_TABLE_SIZE (sw_stable w) (sw_age_stable w)"
    "oldest is_idle ?tab ARP_TABLE_SIZE (sw_pending w) (sw_age_pending w)" "oldest is_busy ?tab ARP_TABLE_SIZE (sw_queue w) (sw_age_queue w)"
    using w by (simp_all add: sweep_inv_def)
  have free: "map_option (\<lambda>s'. (Some i, set_entry i (\<lambda>e. e\<lparr>ae_q := []\<rparr>) s')) (free_etharp_q (ae_q (?tab ! i)) s) = Some (Some i, s)"
    if "ae_q (?tab ! i) = []" for i
    using that set_entry_same [of "\<lambda>e. e\<lparr>ae_q := []\<rparr>" s i] by (cases "?tab ! i") simp
  have q: "ae_state (?tab ! i) \<noteq> ETHARP_STATE_PENDING \<Longrightarrow> ae_q (?tab ! i) = []" if "i < ARP_TABLE_SIZE" for i
    using t that by (simp add: tab_inv_def entry_ok_def)
  show ?thesis
  proof (cases "sw_empty w < ARP_TABLE_SIZE")
    case True
    note e = first_empty_some [OF p(1) True]
    have "arp_choice ?tab (sw_empty w)"
    proof (rule choiceI [where r = 0])
      show "if (0 :: nat) = 0 then sw_empty w \<le> j else ae_ctime (?tab ! j) \<le> ae_ctime (?tab ! sw_empty w)" if "rank (?tab ! j) = 0" for j
        using that e(3) [of j] by (cases "j < sw_empty w") (simp_all add: rank_simps)
    qed (use True e(1) in \<open>simp_all add: rank_simps\<close>)
    moreover have "find_recycle w s = Some (Some (sw_empty w), s)" using True by (simp add: find_recycle_def)
    ultimately show ?thesis using free [OF q] True e(1) by (metis etharp_state.distinct(1))
  next
    case E: False
    have noE: "ae_state (?tab ! j) \<noteq> ETHARP_STATE_EMPTY" if "j < ARP_TABLE_SIZE" for j
      by (rule first_empty_none [OF p(1) order_refl E that])
    show ?thesis
    proof (cases "sw_stable w < ARP_TABLE_SIZE")
      case True
      note o = oldest_some [OF p(2) True]
      have "arp_choice ?tab (sw_stable w)"
        using True o noE by (intro choiceI [where r = 1]) (auto simp: rank_simps intro: rank_cases)
      moreover have qe: "ae_q (?tab ! sw_stable w) = []" using o q [OF True] by (simp add: is_stable_def)
      moreover have "find_recycle w s = Some (Some (sw_stable w), s)" using True E qe by (simp add: find_recycle_def guard_def)
      ultimately show ?thesis using free by metis
    next
      case S: False
      note noS = oldest_none [OF p(2) order_refl S]
      show ?thesis
      proof (cases "sw_pending w < ARP_TABLE_SIZE")
        case True
        note o = oldest_some [OF p(3) True]
        have "arp_choice ?tab (sw_pending w)"
          using True o noE noS by (intro choiceI [where r = 2]) (auto simp: rank_simps intro: rank_cases)
        moreover have qe: "ae_q (?tab ! sw_pending w) = []" using o by (simp add: is_idle_def)
        moreover have "find_recycle w s = Some (Some (sw_pending w), s)" using True E S by (simp add: find_recycle_def)
        ultimately show ?thesis using free by metis
      next
        case P: False
        note noP = oldest_none [OF p(3) order_refl P]
        have "is_busy (?tab ! 0)" using noE [of 0] noS [of 0] noP [of 0]
          by (cases "ae_state (?tab ! 0)") (auto simp: ARP_TABLE_SIZE_def is_stable_def is_idle_def is_busy_def)
        then have Q: "sw_queue w < ARP_TABLE_SIZE" using oldest_none [OF p(4) order_refl, of 0] by (auto simp: ARP_TABLE_SIZE_def)
        note o = oldest_some [OF p(4) Q]
        have "arp_choice ?tab (sw_queue w)"
          using Q o noE noS noP by (intro choiceI [where r = 3]) (auto simp: rank_simps intro: rank_cases)
        moreover have "find_recycle w s = map_option (\<lambda>s'. (Some (sw_queue w), set_entry (sw_queue w) (\<lambda>e. e\<lparr>ae_q := []\<rparr>) s')) (free_etharp_q (ae_q (?tab ! sw_queue w)) s)"
          using E S P Q by (cases "free_etharp_q (ae_q (?tab ! sw_queue w)) s") (simp_all add: find_recycle_def)
        ultimately show ?thesis by blast
      qed
    qed
  qed
qed

lemma find_entry_found:
  assumes t: "tab_inv (arp_table s)" and c: "etharp_cached_entry s < ARP_TABLE_SIZE" and m: "i < ARP_TABLE_SIZE" "arp_match (Some a) (arp_table s ! i)"
  shows "find_entry (Some a) flags s = Some (int i, s\<lparr>etharp_cached_entry := i\<rparr>)"
proof -
  have uniq: "j = i" if "j < ARP_TABLE_SIZE" "arp_match (Some a) (arp_table s ! j)" for j
    using t m that unfolding tab_inv_def arp_match_def by (metis option.inject)
  show ?thesis
  proof (cases "ae_state (arp_table s ! etharp_cached_entry s) = ETHARP_STATE_STABLE \<and> a = ae_ipaddr (arp_table s ! etharp_cached_entry s)")
    case True
    then have "etharp_cached_entry s = i" using uniq [OF c] by (simp add: arp_match_def)
    then show ?thesis using True by (simp add: find_entry_def)
  next
    case False
    have "sweep_inv (arp_table s) 0 sweep_start" by (simp add: sweep_inv_def sweep_start_def first_empty_def oldest_def)
    moreover have "length (arp_table s) = ARP_TABLE_SIZE" using t by (simp add: tab_inv_def)
    ultimately have sw: "case find_sweep (Some a) 0 (arp_table s) sweep_start of
        Inl i \<Rightarrow> 0 \<le> i \<and> i < ARP_TABLE_SIZE \<and> arp_match (Some a) (arp_table s ! i)
      | Inr w' \<Rightarrow> sweep_inv (arp_table s) ARP_TABLE_SIZE w' \<and> (\<forall>j<ARP_TABLE_SIZE. 0 \<le> j \<longrightarrow> \<not> arp_match (Some a) (arp_table s ! j))"
      using find_sweep_ok [of "arp_table s" 0 sweep_start "Some a"] by simp
    have "find_sweep (Some a) 0 (arp_table s) sweep_start = Inl i"
    proof (cases "find_sweep (Some a) 0 (arp_table s) sweep_start")
      case (Inl j)
      then show ?thesis using sw uniq [of j] by simp
    next
      case (Inr w)
      then show ?thesis using sw m by simp
    qed
    then show ?thesis using False by (auto simp: find_entry_def Let_def)
  qed
qed

lemma find_entry_miss:
  assumes t: "tab_inv (arp_table s)" and c: "etharp_cached_entry s < ARP_TABLE_SIZE"
    and m: "\<And>i. i < ARP_TABLE_SIZE \<Longrightarrow> \<not> arp_match (Some a) (arp_table s ! i)"
  shows "\<exists>w. sweep_inv (arp_table s) ARP_TABLE_SIZE w \<and> find_sweep (Some a) 0 (arp_table s) sweep_start = Inr w \<and>
    \<not> (ae_state (arp_table s ! etharp_cached_entry s) = ETHARP_STATE_STABLE \<and> Some a = Some (ae_ipaddr (arp_table s ! etharp_cached_entry s)))"
proof -
  have "sweep_inv (arp_table s) 0 sweep_start" by (simp add: sweep_inv_def sweep_start_def first_empty_def oldest_def)
  moreover have "length (arp_table s) = ARP_TABLE_SIZE" using t by (simp add: tab_inv_def)
  ultimately have sw: "case find_sweep (Some a) 0 (arp_table s) sweep_start of
      Inl i \<Rightarrow> 0 \<le> i \<and> i < ARP_TABLE_SIZE \<and> arp_match (Some a) (arp_table s ! i)
    | Inr w' \<Rightarrow> sweep_inv (arp_table s) ARP_TABLE_SIZE w' \<and> (\<forall>j<ARP_TABLE_SIZE. 0 \<le> j \<longrightarrow> \<not> arp_match (Some a) (arp_table s ! j))"
    using find_sweep_ok [of "arp_table s" 0 sweep_start "Some a"] by simp
  obtain w where w: "find_sweep (Some a) 0 (arp_table s) sweep_start = Inr w"
    using sw m by (cases "find_sweep (Some a) 0 (arp_table s) sweep_start") auto
  then show ?thesis using sw m [OF c] by (auto simp: arp_match_def)
qed

lemma find_entry_full:
  assumes t: "tab_inv (arp_table s)" and c: "etharp_cached_entry s < ARP_TABLE_SIZE"
    and m: "\<And>i. i < ARP_TABLE_SIZE \<Longrightarrow> \<not> arp_match (Some a) (arp_table s ! i)"
    and e: "(\<forall>i<ARP_TABLE_SIZE. ae_state (arp_table s ! i) \<noteq> ETHARP_STATE_EMPTY) \<and> flags AND ETHARP_TRY_HARD = 0 \<or> flags AND ETHARP_FIND_ONLY \<noteq> 0"
  shows "find_entry (Some a) flags s = Some (ERR_MEM, s)"
proof -
  obtain w where w: "sweep_inv (arp_table s) ARP_TABLE_SIZE w" "find_sweep (Some a) 0 (arp_table s) sweep_start = Inr w"
    "\<not> (ae_state (arp_table s ! etharp_cached_entry s) = ETHARP_STATE_STABLE \<and> Some a = Some (ae_ipaddr (arp_table s ! etharp_cached_entry s)))"
    using find_entry_miss [OF t c m] by blast
  have "sw_empty w = ARP_TABLE_SIZE" if "\<forall>i<ARP_TABLE_SIZE. ae_state (arp_table s ! i) \<noteq> ETHARP_STATE_EMPTY"
    using w(1) that unfolding sweep_inv_def first_empty_def by metis
  then show ?thesis using e w(2,3) unfolding find_entry_def Let_def by auto
qed

lemma find_entry_new:
  assumes t: "tab_inv (arp_table s)" and c: "etharp_cached_entry s < ARP_TABLE_SIZE"
    and m: "\<And>i. i < ARP_TABLE_SIZE \<Longrightarrow> \<not> arp_match (Some a) (arp_table s ! i)"
    and e: "\<not> ((\<forall>i<ARP_TABLE_SIZE. ae_state (arp_table s ! i) \<noteq> ETHARP_STATE_EMPTY) \<and> flags AND ETHARP_TRY_HARD = 0 \<or> flags AND ETHARP_FIND_ONLY \<noteq> 0)"
  shows "\<exists>i. arp_choice (arp_table s) i \<and> find_entry (Some a) flags s =
    map_option (\<lambda>s'. (int i, (set_entry i (fresh_entry a) s')\<lparr>etharp_cached_entry := i\<rparr>)) (free_etharp_q (ae_q (arp_table s ! i)) s)"
proof -
  obtain w where w: "sweep_inv (arp_table s) ARP_TABLE_SIZE w" "find_sweep (Some a) 0 (arp_table s) sweep_start = Inr w"
    "\<not> (ae_state (arp_table s ! etharp_cached_entry s) = ETHARP_STATE_STABLE \<and> Some a = Some (ae_ipaddr (arp_table s ! etharp_cached_entry s)))"
    using find_entry_miss [OF t c m] by blast
  obtain i where i: "arp_choice (arp_table s) i" "find_recycle w s =
      map_option (\<lambda>s'. (Some i, set_entry i (\<lambda>e. e\<lparr>ae_q := []\<rparr>) s')) (free_etharp_q (ae_q (arp_table s ! i)) s)"
    using find_recycle_ok [OF w(1) t] by blast
  have "sw_empty w \<noteq> ARP_TABLE_SIZE" if "\<exists>i<ARP_TABLE_SIZE. ae_state (arp_table s ! i) = ETHARP_STATE_EMPTY"
    using w(1) that unfolding sweep_inv_def first_empty_def by (metis less_irrefl)
  then have f: "\<not> (sw_empty w = ARP_TABLE_SIZE \<and> flags AND ETHARP_TRY_HARD = 0 \<or> flags AND ETHARP_FIND_ONLY \<noteq> 0)" using e by blast
  have li: "i < ARP_TABLE_SIZE" using i(1) by (simp add: arp_choice_def)
  have "length (arp_table s) = ARP_TABLE_SIZE" using t by (simp add: tab_inv_def)
  then have "find_entry (Some a) flags s =
    map_option (\<lambda>s'. (int i, (set_entry i (fresh_entry a) s')\<lparr>etharp_cached_entry := i\<rparr>)) (free_etharp_q (ae_q (arp_table s ! i)) s)"
    unfolding find_entry_def Let_def if_not_P [OF w(3)] w(2) sum.case if_not_P [OF f] i(2) using li
    by (cases "free_etharp_q (ae_q (arp_table s ! i)) s") (auto simp: guard_def set_entry_def fresh_entry_def free_etharp_q_table)
  then show ?thesis using i(1) by blast
qed

end
