(* ===== verification/Etharp_Queue.thy ===== *)
theory Etharp_Queue
  imports Etharp_Table
begin

text \<open>
  The packets that wait for an address: they are single buffers with the queue's reference as their only one, and
  each takes an element of the pool. Freeing and sending them keeps this.
\<close>

subsection \<open>The buffers behind the table\<close>

definition waiting :: "etharp_entry list \<Rightarrow> paddr list" where
  "waiting tab = concat (map ae_q tab)"

definition queued_ok :: "pmem \<Rightarrow> paddr \<Rightarrow> bool" where
  "queued_ok \<sigma> p \<longleftrightarrow> (\<exists>b. pbs \<sigma> p = Some b \<and> pb_type b = PBUF_RAM \<and> pb_next b = None \<and> pb_ref b = 1 \<and> SIZEOF_ETH_HDR \<le> unat (pb_len b))"

definition with_q :: "(paddr \<Rightarrow> nat) \<Rightarrow> paddr list \<Rightarrow> paddr \<Rightarrow> nat" where
  "with_q ext W a = ext a + (if a \<in> set W then 1 else 0)"

definition mem_inv :: "arp \<Rightarrow> (paddr \<Rightarrow> nat) \<Rightarrow> paddr list \<Rightarrow> bool" where
  "mem_inv s ext W \<longleftrightarrow> distinct W \<and> arp_free s + length W = MEMP_NUM_ARP_QUEUE \<and> (\<forall>p\<in>set W. queued_ok (arp_mem s) p) \<and>
     packet_inv (arp_mem s) (with_q ext W)"

definition arp_inv :: "arp \<Rightarrow> (paddr \<Rightarrow> nat) \<Rightarrow> bool" where
  "arp_inv s ext \<longleftrightarrow> tab_inv (arp_table s) \<and> etharp_cached_entry s < ARP_TABLE_SIZE \<and> mem_inv s ext (waiting (arp_table s))"

text \<open>Only buffers in \<open>A\<close> and their memory have changed.\<close>

definition others :: "pmem \<Rightarrow> pmem \<Rightarrow> paddr set \<Rightarrow> bool" where
  "others \<sigma> \<sigma>' A \<longleftrightarrow> (\<forall>x. x \<notin> A \<longrightarrow> pbs \<sigma>' x = pbs \<sigma> x) \<and> (\<forall>k. k \<notin> Own ` A \<longrightarrow> bytes_of \<sigma>' k = bytes_of \<sigma> k)"

lemma others_refl [simp]: "others \<sigma> \<sigma> A"
  by (simp add: others_def)

lemma others_trans: "others \<sigma> \<rho> A \<Longrightarrow> others \<rho> \<tau> B \<Longrightarrow> A \<subseteq> C \<Longrightarrow> B \<subseteq> C \<Longrightarrow> others \<sigma> \<tau> C"
  unfolding others_def by (metis image_mono subsetD)

lemma wrote_others: "wrote \<sigma> \<sigma>' A \<Longrightarrow> others \<sigma> \<sigma>' A"
  by (simp add: wrote_def others_def)

lemma others_queued: "others \<sigma> \<sigma>' A \<Longrightarrow> p \<notin> A \<Longrightarrow> queued_ok \<sigma>' p = queued_ok \<sigma> p"
  by (simp add: others_def queued_ok_def)

lemma mem_inv_mset:
  assumes "mset W = mset V"
  shows "mem_inv s ext W = mem_inv s ext V"
proof -
  have "distinct W = distinct V" using assms by (metis distinct_count_atmost_1 set_mset_mset)
  moreover have "set W = set V" "length W = length V" using assms by (metis set_mset_mset, metis size_mset)
  moreover have "with_q ext W = with_q ext V" using calculation(2) by (simp add: with_q_def fun_eq_iff)
  ultimately show ?thesis by (simp add: mem_inv_def)
qed

lemma mem_inv_cong: "arp_mem s' = arp_mem s \<Longrightarrow> arp_free s' = arp_free s \<Longrightarrow> mem_inv s' ext W = mem_inv s ext W"
  by (simp add: mem_inv_def)

subsection \<open>Freeing\<close>

lemma queued_chain: "queued_ok \<sigma> p \<Longrightarrow> chain \<sigma> (Some p) [p]"
  by (auto simp: queued_ok_def)

lemma free_queued: "queued_ok \<sigma> p \<Longrightarrow> pbuf_free (Some p) \<sigma> = Some (1, memp_free MEM_HEAP p \<sigma>)"
  by (auto simp: queued_ok_def pbuf_free_def guard_def free_loop.simps pool_of_def)

lemma memp_free_others: "p \<in> A \<Longrightarrow> others \<sigma> (memp_free t p \<sigma>) A"
  by (simp add: others_def)

lemma mem_inv_free:
  assumes "mem_inv s ext (p # W)"
  shows "mem_inv (s\<lparr>arp_mem := memp_free MEM_HEAP p (arp_mem s), arp_free := arp_free s + 1\<rparr>) ext W"
proof -
  have i: "p \<notin> set W" "distinct W" "queued_ok (arp_mem s) p" "packet_inv (arp_mem s) (with_q ext (p # W))" "\<forall>q\<in>set W. queued_ok (arp_mem s) q"
    using assms by (simp_all add: mem_inv_def)
  have "0 < with_q ext (p # W) p" by (simp add: with_q_def)
  then have "packet_inv (memp_free MEM_HEAP p (arp_mem s)) ((with_q ext (p # W))(p := with_q ext (p # W) p - 1))"
    using packet_free_ok [OF i(4) _ queued_chain [OF i(3)]] free_queued [OF i(3)] by auto
  moreover have "(with_q ext (p # W))(p := with_q ext (p # W) p - 1) = with_q ext W" using i(1) by (auto simp: with_q_def)
  moreover have "queued_ok (memp_free MEM_HEAP p (arp_mem s)) q" if "q \<in> set W" for q
    using others_queued [OF memp_free_others [of p "{p}"], of q] i(1,5) that by auto
  ultimately show ?thesis using assms i(2) by (simp add: mem_inv_def)
qed

lemma free_etharp_q_ok:
  assumes "mem_inv s ext (q @ W)"
  shows "\<exists>s'. free_etharp_q q s = Some s' \<and> mem_inv s' ext W \<and> others (arp_mem s) (arp_mem s') (set q)"
  using assms
proof (induction q arbitrary: s)
  case (Cons p q)
  let ?s = "s\<lparr>arp_mem := memp_free MEM_HEAP p (arp_mem s), arp_free := arp_free s + 1\<rparr>"
  have "queued_ok (arp_mem s) p" using Cons.prems by (simp add: mem_inv_def)
  then have run: "free_etharp_q (p # q) s = free_etharp_q q ?s" by (simp add: on_mem_def free_queued)
  have "mem_inv ?s ext (q @ W)" using mem_inv_free [of s ext p "q @ W"] Cons.prems by simp
  then obtain s' where s: "free_etharp_q q ?s = Some s'" "mem_inv s' ext W" "others (arp_mem ?s) (arp_mem s') (set q)" using Cons.IH by blast
  have "others (arp_mem s) (arp_mem s') (set (p # q))"
    by (rule others_trans [OF _ s(3)]) (auto intro: memp_free_others [of p "{p}"])
  then show ?case using run s(1,2) by auto
qed auto

subsection \<open>Sending\<close>

text \<open>The payloads are in the memory of the buffers themselves or outside of all of them.\<close>

definition plain :: "pmem \<Rightarrow> paddr list \<Rightarrow> bool" where
  "plain \<sigma> as \<longleftrightarrow> (\<forall>a\<in>set as. \<forall>b blk off. pbs \<sigma> a = Some b \<longrightarrow> pb_payload b = Some (blk, off) \<longrightarrow> blk = Own a \<or> (\<exists>n. blk = Ext n))"

lemma plain_apart: "plain \<sigma> as \<Longrightarrow> set as \<inter> A = {} \<Longrightarrow> apart \<sigma> as A"
  unfolding plain_def apart_def by blast

lemma wrote_plain: "wrote \<sigma> \<sigma>' A \<Longrightarrow> plain \<sigma>' as = plain \<sigma> as"
  by (simp add: wrote_def plain_def)

definition sendable :: "pmem \<Rightarrow> paddr \<Rightarrow> paddr list \<Rightarrow> bool" where
  "sendable \<sigma> p as \<longleftrightarrow> chain \<sigma> (Some p) (p # as) \<and> owns \<sigma> [p] \<and> readable \<sigma> as \<and> plain \<sigma> as \<and> SIZEOF_ETH_HDR \<le> plen \<sigma> p"

definition ip_frame :: "eth_addr \<Rightarrow> eth_addr \<Rightarrow> byte list \<Rightarrow> byte list" where
  "ip_frame dst src c = dst @ src @ bytes16 (htons ETHTYPE_IP) @ drop SIZEOF_ETH_HDR c"

lemma readable_Cons: "readable \<sigma> (a # as) \<longleftrightarrow> readable \<sigma> [a] \<and> readable \<sigma> as"
  by (auto simp: readable_def)

lemma sendable_readable: "sendable \<sigma> p as \<Longrightarrow> readable \<sigma> (p # as)"
  unfolding readable_Cons [of _ p as] using owns_readable by (auto simp: sendable_def)

lemma put_bytes_ok:
  assumes s: "sendable (arp_mem s) p as" and k: "k + length xs \<le> plen (arp_mem s) p"
  shows "\<exists>\<sigma>'. put_bytes p k xs s = Some (s\<lparr>arp_mem := \<sigma>'\<rparr>) \<and> wrote (arp_mem s) \<sigma>' {p} \<and> sendable \<sigma>' p as \<and> plen \<sigma>' p = plen (arp_mem s) p \<and>
    content \<sigma>' (p # as) = patch k xs (content (arp_mem s) (p # as)) \<and> pdata \<sigma>' p = patch k xs (pdata (arp_mem s) p)"
proof -
  let ?\<sigma> = "arp_mem s"
  have c: "chain ?\<sigma> (Some p) (p # as)" "owns ?\<sigma> [p]" "readable ?\<sigma> as" "plain ?\<sigma> as" using s by (simp_all add: sendable_def)
  have "apart ?\<sigma> as {p}" by (rule plain_apart [OF c(4)]) (use chain_distinct [OF c(1)] in simp)
  note c = c this
  obtain b where b: "pbs ?\<sigma> p = Some b" using c(1) by (cases "pbs ?\<sigma> p") auto
  obtain \<sigma>' where w: "store (pb_payload b) k xs ?\<sigma> = Some \<sigma>'" "wrote ?\<sigma> \<sigma>' {p}" "pdata \<sigma>' p = patch k xs (pdata ?\<sigma> p)"
    using store_ok [OF c(2) b] k b by (auto simp: plen_def)
  have "length (pdata ?\<sigma> p) = plen ?\<sigma> p" using length_pdata [OF b] owns_readable [OF c(2)] b by (simp add: readable_def plen_def)
  then have "content \<sigma>' (p # as) = patch k xs (content ?\<sigma> (p # as))"
    using w(3) wrote_content [OF w(2) c(5)] k by (simp add: patch_append1)
  moreover have "sendable \<sigma>' p as"
    using s by (simp add: sendable_def wrote_chain [OF w(2)] wrote_owns [OF w(2)] wrote_readable [OF w(2)] wrote_plain [OF w(2)] wrote_plen [OF w(2)] del: chain.simps)
  moreover have "put_bytes p k xs s = Some (s\<lparr>arp_mem := \<sigma>'\<rparr>)" using b w(1) by (simp add: put_bytes_def)
  ultimately show ?thesis using w(2,3) wrote_plen [OF w(2)] by auto
qed

definition sent :: "arp \<Rightarrow> pmem \<Rightarrow> byte list \<Rightarrow> arp" where
  "sent s \<sigma>' frame = s\<lparr>arp_mem := \<sigma>', link_err := tl (link_err s), link_out := link_out s @ [frame]\<rparr>"

definition link_result :: "arp \<Rightarrow> int" where
  "link_result s = (case link_err s of [] \<Rightarrow> 0 | e # es \<Rightarrow> e)"

lemma linkoutput_ok:
  assumes "chain (arp_mem s) (Some p) as" "readable (arp_mem s) as" "len_inv (arp_mem s)"
  shows "linkoutput p s = Some (link_result s, sent s (arp_mem s) (content (arp_mem s) as))"
proof -
  obtain b :: pbuf where b: "pbs (arp_mem s) p = Some b" using assms(1) by (auto simp: chain_Some)
  then have "unat (pb_tot_len b) = length (content (arp_mem s) as)"
    using len_inv_chain [OF assms(3,1)] length_content [OF assms(2)] by simp
  then show ?thesis using b partial_loop_ok [OF assms(1,2), of "unat (pb_tot_len b)" 0 "[]"]
    by (simp add: linkoutput_def link_result_def sent_def)
qed

lemma etharp_send_ip_ok:
  assumes s: "sendable (arp_mem s) p as" and l: "len_inv (arp_mem s)" and hw: "unat (nif_hwaddr_len netif) = 6"
    and a: "length src = 6" "length dst = 6"
  shows "\<exists>\<sigma>'. etharp_send_ip netif p src dst s = Some (link_result s, sent s \<sigma>' (ip_frame dst src (content (arp_mem s) (p # as)))) \<and>
    wrote (arp_mem s) \<sigma>' {p}"
proof -
  let ?\<sigma> = "arp_mem s" and ?c = "content (arp_mem s) (p # as)"
  have len: "14 \<le> plen ?\<sigma> p" using s by (simp add: sendable_def SIZEOF_ETH_HDR_def)
  obtain \<sigma>1 where 1: "put_bytes p 0 dst s = Some (s\<lparr>arp_mem := \<sigma>1\<rparr>)" "wrote ?\<sigma> \<sigma>1 {p}" "sendable \<sigma>1 p as" "plen \<sigma>1 p = plen ?\<sigma> p"
    "content \<sigma>1 (p # as) = patch 0 dst ?c" using put_bytes_ok [OF s, of 0 dst] a len by auto
  obtain \<sigma>2 where 2: "put_bytes p 6 src (s\<lparr>arp_mem := \<sigma>1\<rparr>) = Some (s\<lparr>arp_mem := \<sigma>2\<rparr>)" "wrote \<sigma>1 \<sigma>2 {p}" "sendable \<sigma>2 p as" "plen \<sigma>2 p = plen ?\<sigma> p"
    "content \<sigma>2 (p # as) = patch 6 src (content \<sigma>1 (p # as))" using put_bytes_ok [of "s\<lparr>arp_mem := \<sigma>1\<rparr>" p as 6 src] 1(3,4) a len by auto
  let ?ty = "bytes16 (htons ETHTYPE_IP)"
  obtain \<sigma>3 where 3: "put_bytes p 12 ?ty (s\<lparr>arp_mem := \<sigma>2\<rparr>) = Some (s\<lparr>arp_mem := \<sigma>3\<rparr>)" "wrote \<sigma>2 \<sigma>3 {p}" "sendable \<sigma>3 p as"
    "content \<sigma>3 (p # as) = patch 12 ?ty (content \<sigma>2 (p # as))" using put_bytes_ok [of "s\<lparr>arp_mem := \<sigma>2\<rparr>" p as 12 ?ty] 2(3,4) len by (auto simp: bytes16_def)
  have w: "wrote ?\<sigma> \<sigma>3 {p}" using wrote_trans [OF wrote_trans [OF 1(2) 2(2)] 3(2)] by auto
  have lc: "14 \<le> length ?c" using length_content [OF sendable_readable [OF s]] len by simp
  have "content \<sigma>3 (p # as) = patch (0 + length (dst @ src)) ?ty (patch 0 (dst @ src) ?c)"
    using patch_patch [of 0 dst src ?c] 1(5) 2(5) 3(4) a lc by simp
  also have "\<dots> = ip_frame dst src ?c"
    unfolding ip_frame_def using patch_patch [of 0 "dst @ src" ?ty ?c] a lc by (simp add: patch_def bytes16_def SIZEOF_ETH_HDR_def)
  finally have fr: "content \<sigma>3 (p # as) = ip_frame dst src ?c" .
  have "chain \<sigma>3 (Some p) (p # as)" using 3(3) unfolding sendable_def by blast
  then have "linkoutput p (s\<lparr>arp_mem := \<sigma>3\<rparr>) = Some (link_result s, sent s \<sigma>3 (content \<sigma>3 (p # as)))"
    using linkoutput_ok [of "s\<lparr>arp_mem := \<sigma>3\<rparr>" p "p # as"] sendable_readable [OF 3(3)] l wrote_len_inv [OF w] by (simp add: link_result_def sent_def)
  then have "etharp_send_ip netif p src dst s = Some (link_result s, sent s \<sigma>3 (ip_frame dst src ?c))"
    unfolding etharp_send_ip_def using hw a 1(1) 2(1) 3(1) fr by (simp add: guard_def ETHARP_HWADDR_LEN_def)
  then show ?thesis using w by blast
qed

lemma queued_sendable:
  assumes "queued_ok \<sigma> p" "data_inv \<sigma>"
  shows "sendable \<sigma> p []"
proof -
  obtain b where b: "pbs \<sigma> p = Some b" "pb_type b = PBUF_RAM" "pb_next b = None" "SIZEOF_ETH_HDR \<le> unat (pb_len b)" using assms(1) by (auto simp: queued_ok_def)
  have "owns \<sigma> [p]" by (rule owns_types [OF assms(2)]) (use b in auto)
  then show ?thesis using b by (simp add: sendable_def readable_def plain_def plen_def)
qed

lemma others_pdata: "others \<sigma> \<sigma>' A \<Longrightarrow> a \<notin> A \<Longrightarrow> apart \<sigma> [a] A \<Longrightarrow> pdata \<sigma>' a = pdata \<sigma> a"
  by (cases "pbs \<sigma> a") (auto simp: others_def pdata_def apart_def split: option.splits)

lemma mem_inv_wrote: "wrote (arp_mem s) \<sigma>' A \<Longrightarrow> arp_mem s' = \<sigma>' \<Longrightarrow> arp_free s' = arp_free s \<Longrightarrow> mem_inv s' ext W = mem_inv s ext W"
  using wrote_inv [of "arp_mem s" \<sigma>' A] by (simp add: mem_inv_def queued_ok_def) (simp add: wrote_def)

lemma sent_simps [simp]:
  "arp_mem (sent s \<sigma> f) = \<sigma>" "arp_free (sent s \<sigma> f) = arp_free s" "arp_table (sent s \<sigma> f) = arp_table s"
  "etharp_cached_entry (sent s \<sigma> f) = etharp_cached_entry s" "link_out (sent s \<sigma> f) = link_out s @ [f]" "link_err (sent s \<sigma> f) = tl (link_err s)"
  by (simp_all add: sent_def)

lemma set_entry_simps [simp]:
  "arp_mem (set_entry i f s) = arp_mem s" "arp_free (set_entry i f s) = arp_free s" "link_err (set_entry i f s) = link_err s"
  "link_out (set_entry i f s) = link_out s" "etharp_cached_entry (set_entry i f s) = etharp_cached_entry s"
  "arp_table (set_entry i f s) = (arp_table s)[i := f (arp_table s ! i)]"
  by (simp_all add: set_entry_def)

lemma send_queue_ok:
  assumes "mem_inv s ext (ae_q (arp_table s ! i) @ W)" "i < length (arp_table s)" "unat (nif_hwaddr_len netif) = 6" "length (nif_hwaddr netif) = 6" "length mac = 6"
  shows "\<exists>s'. send_queue netif i mac s = Some s' \<and> mem_inv s' ext W \<and> others (arp_mem s) (arp_mem s') (set (ae_q (arp_table s ! i))) \<and>
    arp_table s' = (arp_table s)[i := (arp_table s ! i)\<lparr>ae_q := []\<rparr>] \<and> etharp_cached_entry s' = etharp_cached_entry s \<and>
    link_out s' = link_out s @ map (\<lambda>p. ip_frame mac (nif_hwaddr netif) (content (arp_mem s) [p])) (ae_q (arp_table s ! i)) \<and>
    link_err s' = drop (length (ae_q (arp_table s ! i))) (link_err s)"
  using assms
proof (induction "ae_q (arp_table s ! i)" arbitrary: s)
  case Nil
  then have "(arp_table s ! i)\<lparr>ae_q := []\<rparr> = arp_table s ! i" by (cases "arp_table s ! i") simp
  then have "(arp_table s)[i := (arp_table s ! i)\<lparr>ae_q := []\<rparr>] = arp_table s" by simp
  moreover have "send_queue netif i mac s = Some s" using Nil.hyps by (subst send_queue.simps) simp
  ultimately show ?case using Nil.prems(1) Nil.hyps [symmetric] by simp
next
  case (Cons p q)
  let ?\<sigma> = "arp_mem s"
  have inv: "packet_inv ?\<sigma> (with_q ext (p # q @ W))" "distinct (p # q @ W)" "\<forall>x\<in>set (p # q @ W). queued_ok ?\<sigma> x"
    using Cons.prems(1) Cons.hyps(2) [symmetric] by (simp_all add: mem_inv_def)
  have di: "data_inv ?\<sigma>" "len_inv ?\<sigma>" using inv(1) by (simp_all add: packet_inv_def)
  let ?s1 = "(set_entry i (\<lambda>e. e\<lparr>ae_q := q\<rparr>) s)\<lparr>arp_free := arp_free s + 1\<rparr>"
  let ?f = "ip_frame mac (nif_hwaddr netif) (content ?\<sigma> [p])"
  have qp: "queued_ok ?\<sigma> p" using inv(3) by simp
  obtain \<sigma>' where w: "etharp_send_ip netif p (nif_hwaddr netif) mac ?s1 = Some (link_result ?s1, sent ?s1 \<sigma>' ?f)" "wrote ?\<sigma> \<sigma>' {p}"
    using etharp_send_ip_ok [of ?s1 p "[]" netif "nif_hwaddr netif" mac] queued_sendable [OF qp di(1)] di(2) Cons.prems(3-5) by auto
  have qp': "queued_ok \<sigma>' p" using qp w(2) by (simp add: queued_ok_def wrote_def)
  let ?s3 = "(sent ?s1 \<sigma>' ?f)\<lparr>arp_mem := memp_free MEM_HEAP p \<sigma>'\<rparr>"
  have run: "send_queue netif i mac s = send_queue netif i mac ?s3"
    using Cons.hyps(2) [symmetric] w(1) by (subst send_queue.simps) (simp add: Let_def on_mem_def free_queued [OF qp'])
  have "mem_inv (s\<lparr>arp_mem := \<sigma>'\<rparr>) ext (p # q @ W)" using Cons.prems(1) Cons.hyps(2) [symmetric] mem_inv_wrote [OF w(2), of "s\<lparr>arp_mem := \<sigma>'\<rparr>"] by simp
  then have m3: "mem_inv ?s3 ext (q @ W)" using mem_inv_free [of "s\<lparr>arp_mem := \<sigma>'\<rparr>" ext p "q @ W"] by (simp add: mem_inv_def)
  have t3: "arp_table ?s3 = (arp_table s)[i := (arp_table s ! i)\<lparr>ae_q := q\<rparr>]" by simp
  have o3: "others ?\<sigma> (arp_mem ?s3) {p}" using others_trans [OF wrote_others [OF w(2)] memp_free_others [of p "{p}"]] by simp
  have cont: "content (arp_mem ?s3) [x] = content ?\<sigma> [x]" if "x \<in> set q" for x
  proof -
    have "x \<noteq> p" "sendable ?\<sigma> x []" using inv that queued_sendable di(1) by auto
    then have "apart ?\<sigma> [x] {p}" using owns_apart [of ?\<sigma> "[x]" "{p}"] by (auto simp: sendable_def)
    then show ?thesis using others_pdata [OF o3, of x] \<open>x \<noteq> p\<close> by simp
  qed
  have hq: "q = ae_q (arp_table ?s3 ! i)" using Cons.prems(2) by (simp add: t3)
  obtain s' where s: "send_queue netif i mac ?s3 = Some s'" "mem_inv s' ext W" "others (arp_mem ?s3) (arp_mem s') (set q)"
    "arp_table s' = (arp_table ?s3)[i := (arp_table ?s3 ! i)\<lparr>ae_q := []\<rparr>]" "etharp_cached_entry s' = etharp_cached_entry ?s3"
    "link_out s' = link_out ?s3 @ map (\<lambda>p. ip_frame mac (nif_hwaddr netif) (content (arp_mem ?s3) [p])) q" "link_err s' = drop (length q) (link_err ?s3)"
    using Cons.hyps(1) [OF hq] m3 Cons.prems(2-5) unfolding hq [symmetric] by (simp only: t3 length_list_update) blast
  have "others ?\<sigma> (arp_mem s') (set (p # q))" by (rule others_trans [OF o3 s(3)]) auto
  moreover have "link_out s' = link_out s @ map (\<lambda>p. ip_frame mac (nif_hwaddr netif) (content ?\<sigma> [p])) (p # q)"
    using s(6) cont by (simp cong: map_cong)
  moreover have "arp_table s' = (arp_table s)[i := (arp_table s ! i)\<lparr>ae_q := []\<rparr>]" using s(4) Cons.prems(2) by simp
  ultimately show ?case unfolding Cons.hyps(2) [symmetric] using run s(1,2,5,7) by (auto simp: drop_Suc)
qed

end
