(* ===== verification/Etharp_Ops.thy ===== *)
theory Etharp_Ops
  imports Etharp_Queue
begin

text \<open>
  The operations on the table: \<open>find_entry\<close>, \<open>update_arp_entry\<close> and \<open>etharp_tmr\<close> keep the invariant of
  the table and of the waiting packets.
\<close>

subsection \<open>One entry at a time\<close>

definition rest :: "etharp_entry list \<Rightarrow> nat \<Rightarrow> paddr list" where
  "rest tab i = waiting (take i tab) @ waiting (drop (Suc i) tab)"

lemma waiting_simps [simp]: "waiting [] = []" "waiting (e # es) = ae_q e @ waiting es" "waiting (xs @ ys) = waiting xs @ waiting ys"
  by (simp_all add: waiting_def)

lemma waiting_split: "i < length tab \<Longrightarrow> mset (waiting tab) = mset (ae_q (tab ! i) @ rest tab i)"
  by (subst id_take_nth_drop [of i tab]) (simp_all add: rest_def)

lemma rest_update [simp]: "rest (tab[i := e]) i = rest tab i"
  by (simp add: rest_def)

lemma mem_inv_split: "i < length (arp_table s) \<Longrightarrow> mem_inv s ext (waiting (arp_table s)) = mem_inv s ext (ae_q (arp_table s ! i) @ rest (arp_table s) i)"
  by (rule mem_inv_mset) (rule waiting_split)

lemma set_waiting: "set (waiting tab) = (\<Union>e\<in>set tab. set (ae_q e))"
  by (simp add: waiting_def)

lemma queue_waiting: "k < length tab \<Longrightarrow> set (ae_q (tab ! k)) \<subseteq> set (waiting tab)"
  using nth_mem [of k tab] unfolding set_waiting by blast

lemma others_mono: "others \<sigma> \<sigma>' A \<Longrightarrow> A \<subseteq> B \<Longrightarrow> others \<sigma> \<sigma>' B"
  unfolding others_def by blast

lemma tab_inv_set:
  assumes t: "tab_inv tab" and e: "entry_ok e"
    and u: "\<And>j. ae_state e \<noteq> ETHARP_STATE_EMPTY \<Longrightarrow> j < ARP_TABLE_SIZE \<Longrightarrow> j \<noteq> i \<Longrightarrow> \<not> arp_match (Some (ae_ipaddr e)) (tab ! j)"
  shows "tab_inv (tab[i := e])"
  unfolding tab_inv_def
proof (intro conjI allI impI)
  have l: "length tab = ARP_TABLE_SIZE" using t by (simp add: tab_inv_def)
  then show "length (tab[i := e]) = ARP_TABLE_SIZE" by simp
  fix j assume j: "j < ARP_TABLE_SIZE"
  show "entry_ok (tab[i := e] ! j)" using t e j by (cases "i = j") (simp_all add: tab_inv_def)
  fix k assume k: "k < ARP_TABLE_SIZE" "ae_state (tab[i := e] ! j) \<noteq> ETHARP_STATE_EMPTY" "ae_state (tab[i := e] ! k) \<noteq> ETHARP_STATE_EMPTY"
    "ae_ipaddr (tab[i := e] ! j) = ae_ipaddr (tab[i := e] ! k)"
  show "j = k"
  proof (rule ccontr)
    assume n: "j \<noteq> k"
    consider "j = i" "k \<noteq> i" | "k = i" "j \<noteq> i" | "j \<noteq> i" "k \<noteq> i" using n by blast
    then show False
    proof cases
      case 1
      then show ?thesis using u [of k] k j l by (simp add: arp_match_def)
    next
      case 2
      then show ?thesis using u [of j] k j l by (simp add: arp_match_def)
    next
      case 3
      then show ?thesis using t j k n unfolding tab_inv_def by simp
    qed
  qed
qed

text \<open>What the driver sees is left alone.\<close>

definition same_link :: "arp \<Rightarrow> arp \<Rightarrow> bool" where
  "same_link s s' \<longleftrightarrow> link_out s' = link_out s \<and> link_err s' = link_err s"

lemma arp_invD:
  assumes "arp_inv s ext"
  shows "tab_inv (arp_table s)" "length (arp_table s) = ARP_TABLE_SIZE" "etharp_cached_entry s < ARP_TABLE_SIZE" "mem_inv s ext (waiting (arp_table s))"
    "packet_inv (arp_mem s) (with_q ext (waiting (arp_table s)))" "\<And>i. i < ARP_TABLE_SIZE \<Longrightarrow> entry_ok (arp_table s ! i)"
  using assms by (auto simp: arp_inv_def tab_inv_def mem_inv_def)

subsection \<open>\<open>find_entry\<close>\<close>

definition arp_queue :: "etharp_entry list \<Rightarrow> u32_t \<Rightarrow> paddr list" where
  "arp_queue tab a = concat (map ae_q (filter (arp_match (Some a)) tab))"

text \<open>The entry that is returned: an old one, or a new empty one.\<close>

definition arp_entry :: "arp \<Rightarrow> u32_t \<Rightarrow> nat \<Rightarrow> arp \<Rightarrow> bool" where
  "arp_entry s a i s' \<longleftrightarrow> i < ARP_TABLE_SIZE \<and> ae_ipaddr (arp_table s' ! i) = a \<and>
     (\<forall>j<ARP_TABLE_SIZE. j \<noteq> i \<longrightarrow> \<not> arp_match (Some a) (arp_table s' ! j)) \<and>
     (if arp_match (Some a) (arp_table s ! i) then s' = s\<lparr>etharp_cached_entry := i\<rparr>
      else ae_state (arp_table s' ! i) = ETHARP_STATE_EMPTY \<and> (\<forall>j<ARP_TABLE_SIZE. \<not> arp_match (Some a) (arp_table s ! j)) \<and>
        arp_table s' = (arp_table s)[i := fresh_entry a (arp_table s ! i)])"

lemma find_entry_ok:
  assumes i: "arp_inv s ext"
  shows "\<exists>r s'. find_entry (Some a) flags s = Some (r, s') \<and> arp_inv s' ext \<and> others (arp_mem s) (arp_mem s') (set (waiting (arp_table s))) \<and>
    same_link s s' \<and> (if r < 0 then r = ERR_MEM \<and> s' = s else arp_entry s a (nat r) s')"
proof -
  note I = arp_invD [OF i]
  show ?thesis
  proof (cases "\<exists>j<ARP_TABLE_SIZE. arp_match (Some a) (arp_table s ! j)")
    case True
    then obtain j where j: "j < ARP_TABLE_SIZE" "arp_match (Some a) (arp_table s ! j)" by blast
    let ?s = "s\<lparr>etharp_cached_entry := j\<rparr>"
    have "arp_inv ?s ext" using i j(1) by (simp add: arp_inv_def mem_inv_def)
    moreover have "arp_entry s a j ?s"
      using j I(1) unfolding arp_entry_def by (auto simp: arp_match_def tab_inv_def)
    ultimately show ?thesis using find_entry_found [OF I(1,3) j, of flags] by (intro exI [of _ "int j"] exI [of _ ?s]) (simp add: same_link_def)
  next
    case False
    then have m: "\<And>j. j < ARP_TABLE_SIZE \<Longrightarrow> \<not> arp_match (Some a) (arp_table s ! j)" by blast
    show ?thesis
    proof (cases "(\<forall>i<ARP_TABLE_SIZE. ae_state (arp_table s ! i) \<noteq> ETHARP_STATE_EMPTY) \<and> flags AND ETHARP_TRY_HARD = 0 \<or> flags AND ETHARP_FIND_ONLY \<noteq> 0")
      case True
      then show ?thesis using find_entry_full [OF I(1,3) m True] i by (intro exI [of _ ERR_MEM] exI [of _ s]) (simp add: same_link_def ERR_MEM_def)
    next
      case False
      obtain k where k: "arp_choice (arp_table s) k" "find_entry (Some a) flags s =
          map_option (\<lambda>s'. (int k, (set_entry k (fresh_entry a) s')\<lparr>etharp_cached_entry := k\<rparr>)) (free_etharp_q (ae_q (arp_table s ! k)) s)"
        using find_entry_new [OF I(1,3) m False] by blast
      have lk: "k < ARP_TABLE_SIZE" using k(1) by (simp add: arp_choice_def)
      have lk': "k < length (arp_table s)" using lk I(2) by simp
      obtain s1 where s1: "free_etharp_q (ae_q (arp_table s ! k)) s = Some s1" "mem_inv s1 ext (rest (arp_table s) k)"
        "others (arp_mem s) (arp_mem s1) (set (ae_q (arp_table s ! k)))"
        using free_etharp_q_ok [of s ext "ae_q (arp_table s ! k)" "rest (arp_table s) k"] I(4) mem_inv_split [OF lk'] by blast
      note ft = free_etharp_q_table [OF s1(1)]
      let ?e = "fresh_entry a (arp_table s ! k)"
      let ?s = "(set_entry k (fresh_entry a) s1)\<lparr>etharp_cached_entry := k\<rparr>"
      have tab: "arp_table ?s = (arp_table s)[k := ?e]" using ft by simp
      have "tab_inv (arp_table ?s)" unfolding tab by (rule tab_inv_set [OF I(1)]) (simp_all add: fresh_entry_def entry_ok_def)
      moreover have "mem_inv ?s ext (waiting (arp_table ?s))"
      proof -
        have "mset (waiting (arp_table ?s)) = mset (rest (arp_table s) k)"
          using waiting_split [of k "(arp_table s)[k := ?e]"] lk' unfolding tab by (simp add: fresh_entry_def)
        from mem_inv_mset [OF this] show ?thesis using s1(2) by (simp add: mem_inv_def)
      qed
      ultimately have inv: "arp_inv ?s ext" using lk by (simp add: arp_inv_def)
      have "others (arp_mem s) (arp_mem ?s) (set (waiting (arp_table s)))"
        using others_mono [OF s1(3) queue_waiting [OF lk']] by simp
      moreover have "arp_entry s a k ?s" using lk lk' m unfolding arp_entry_def tab by (auto simp: fresh_entry_def)
      ultimately show ?thesis using k(2) s1(1) inv ft by (intro exI [of _ "int k"] exI [of _ ?s]) (simp add: same_link_def)
    qed
  qed
qed

subsection \<open>\<open>update_arp_entry\<close>\<close>

definition mac_ok :: "netif \<Rightarrow> eth_addr \<Rightarrow> bool" where
  "mac_ok netif mac \<longleftrightarrow> unat (nif_hwaddr_len netif) = ETHARP_HWADDR_LEN \<and> length (nif_hwaddr netif) = ETHARP_HWADDR_LEN \<and> length mac = ETHARP_HWADDR_LEN"

definition unicast :: "netif \<Rightarrow> u32_t \<Rightarrow> bool" where
  "unicast netif a \<longleftrightarrow> \<not> (a = 0 \<or> ip_addr_isbroadcast a (netif_addr.truncate netif) \<or> ip_addr_ismulticast a)"

definition stable_entry :: "etharp_entry \<Rightarrow> u32_t \<Rightarrow> eth_addr \<Rightarrow> bool" where
  "stable_entry e a mac \<longleftrightarrow> ae_state e = ETHARP_STATE_STABLE \<and> ae_ipaddr e = a \<and> ae_ethaddr e = mac \<and> ae_ctime e = 0"

text \<open>The packets that wait for the address \<open>a\<close>.\<close>

lemma arp_queue_match:
  assumes t: "tab_inv tab" and i: "i < ARP_TABLE_SIZE"
    and m: "\<And>j. j < ARP_TABLE_SIZE \<Longrightarrow> j \<noteq> i \<Longrightarrow> \<not> arp_match (Some a) (tab ! j)"
  shows "arp_queue tab a = (if arp_match (Some a) (tab ! i) then ae_q (tab ! i) else [])"
proof -
  have l: "i < length tab" "length tab = ARP_TABLE_SIZE" using t i by (simp_all add: tab_inv_def)
  have "\<not> arp_match (Some a) e" if "e \<in> set (take i tab)" for e
    using that m l by (auto simp: in_set_conv_nth)
  moreover have "\<not> arp_match (Some a) e" if "e \<in> set (drop (Suc i) tab)" for e
    using that m l by (auto simp: in_set_conv_nth)
  ultimately have f: "filter (arp_match (Some a)) (take i tab) = []" "filter (arp_match (Some a)) (drop (Suc i) tab) = []"
    by (simp_all add: filter_empty_conv)
  show ?thesis unfolding arp_queue_def
    by (subst (1) id_take_nth_drop [OF l(1)]) (simp add: f)
qed

lemma update_arp_entry_ok:
  assumes i: "arp_inv s ext" and hw: "mac_ok netif mac"
  shows "\<exists>r s'. update_arp_entry netif a mac flags s = Some (r, s') \<and> arp_inv s' ext \<and> others (arp_mem s) (arp_mem s') (set (waiting (arp_table s))) \<and>
    (if \<not> unicast netif a then r = ERR_ARG \<and> s' = s
     else if r = 0 then (\<exists>k<ARP_TABLE_SIZE. stable_entry (arp_table s' ! k) a mac) \<and>
       link_out s' = link_out s @ map (\<lambda>p. ip_frame mac (nif_hwaddr netif) (content (arp_mem s) [p])) (arp_queue (arp_table s) a)
     else r = ERR_MEM \<and> s' = s)"
proof (cases "unicast netif a")
  case False
  then show ?thesis using i hw by (auto simp: update_arp_entry_def unicast_def mac_ok_def guard_def)
next
  case U: True
  obtain r s1 where f: "find_entry (Some a) flags s = Some (r, s1)" "arp_inv s1 ext" "others (arp_mem s) (arp_mem s1) (set (waiting (arp_table s)))"
    "same_link s s1" "if r < 0 then r = ERR_MEM \<and> s1 = s else arp_entry s a (nat r) s1"
    using find_entry_ok [OF i] by blast
  show ?thesis
  proof (cases "r < 0")
    case True
    then show ?thesis using f U hw i by (auto simp: update_arp_entry_def unicast_def mac_ok_def guard_def ERR_MEM_def)
  next
    case False
    let ?k = "nat r"
    have e: "arp_entry s a ?k s1" using f(5) False by simp
    have k: "?k < ARP_TABLE_SIZE" "ae_ipaddr (arp_table s1 ! ?k) = a"
      "\<And>j. j < ARP_TABLE_SIZE \<Longrightarrow> j \<noteq> ?k \<Longrightarrow> \<not> arp_match (Some a) (arp_table s1 ! j)" using e by (simp_all add: arp_entry_def)
    note I = arp_invD [OF f(2)]
    let ?upd = "\<lambda>e. e\<lparr>ae_state := ETHARP_STATE_STABLE, ae_netif := nif_num netif, ae_ethaddr := mac, ae_ctime := 0\<rparr>"
    let ?s2 = "set_entry ?k ?upd s1"
    have tk: "arp_table ?s2 ! ?k = ?upd (arp_table s1 ! ?k)" using k(1) I(2) by simp
    have m2: "mem_inv ?s2 ext (ae_q (arp_table ?s2 ! ?k) @ rest (arp_table s1) ?k)"
      using I(4) mem_inv_split [of ?k s1 ext] k(1) I(2) by (simp add: mem_inv_def)
    obtain s' where s: "send_queue netif ?k mac ?s2 = Some s'" "mem_inv s' ext (rest (arp_table s1) ?k)"
      "others (arp_mem ?s2) (arp_mem s') (set (ae_q (arp_table ?s2 ! ?k)))"
      "arp_table s' = (arp_table ?s2)[?k := (arp_table ?s2 ! ?k)\<lparr>ae_q := []\<rparr>]" "etharp_cached_entry s' = etharp_cached_entry ?s2"
      "link_out s' = link_out ?s2 @ map (\<lambda>p. ip_frame mac (nif_hwaddr netif) (content (arp_mem ?s2) [p])) (ae_q (arp_table ?s2 ! ?k))"
      using send_queue_ok [OF m2, of netif mac] k(1) I(2) hw by (auto simp: mac_ok_def ETHARP_HWADDR_LEN_def)
    let ?e = "(?upd (arp_table s1 ! ?k))\<lparr>ae_q := []\<rparr>"
    have tab: "arp_table s' = (arp_table s1)[?k := ?e]" using s(4) tk by simp
    have run: "update_arp_entry netif a mac flags s = Some (0, s')"
      using f(1) False U hw s(1) k(1) I(2) by (simp add: update_arp_entry_def unicast_def mac_ok_def guard_def Let_def set_entry_def)
    have "tab_inv (arp_table s')" unfolding tab
      by (rule tab_inv_set [OF I(1)]) (use k hw in \<open>simp_all add: entry_ok_def mac_ok_def ARP_MAXAGE_def\<close>)
    moreover have "mem_inv s' ext (waiting (arp_table s'))"
      using s(2) mem_inv_split [of ?k s' ext] k(1) I(2) by (simp add: tab)
    ultimately have inv: "arp_inv s' ext" using s(5) I(3) by (simp add: arp_inv_def)
    have qs: "ae_q (arp_table s1 ! ?k) = arp_queue (arp_table s) a \<and>
      (ae_q (arp_table s1 ! ?k) \<noteq> [] \<longrightarrow> arp_mem s1 = arp_mem s \<and> arp_table s1 = arp_table s)"
    proof (cases "arp_match (Some a) (arp_table s ! ?k)")
      case True
      then have "s1 = s\<lparr>etharp_cached_entry := ?k\<rparr>" using e by (simp add: arp_entry_def)
      then have "arp_table s1 = arp_table s" "arp_mem s1 = arp_mem s" by simp_all
      then show ?thesis using arp_queue_match [OF arp_invD(1) [OF i] k(1)] k(3) True by simp
    next
      case False
      then have "ae_state (arp_table s1 ! ?k) = ETHARP_STATE_EMPTY" "\<forall>j<ARP_TABLE_SIZE. \<not> arp_match (Some a) (arp_table s ! j)"
        using e unfolding arp_entry_def if_not_P [OF False] by blast+
      then have "ae_q (arp_table s1 ! ?k) = []" "arp_queue (arp_table s) a = []"
        using I(6) [OF k(1)] arp_queue_match [OF arp_invD(1) [OF i] k(1)] k(1) by (simp_all add: entry_ok_def)
      then show ?thesis by simp
    qed
    then have q1: "ae_q (arp_table s1 ! ?k) = arp_queue (arp_table s) a" and
      same: "ae_q (arp_table s1 ! ?k) \<noteq> [] \<Longrightarrow> arp_mem s1 = arp_mem s \<and> arp_table s1 = arp_table s" by blast+
    have "others (arp_mem s) (arp_mem s') (set (waiting (arp_table s)))"
    proof (cases "ae_q (arp_table s1 ! ?k) = []")
      case True
      then show ?thesis using others_trans [OF f(3), of "arp_mem s'" "{}"] s(3) tk by simp
    next
      case False
      then have "arp_mem s1 = arp_mem s" "arp_table s1 = arp_table s" using same by simp_all
      then show ?thesis using others_mono [OF s(3), of "set (waiting (arp_table s))"] queue_waiting [of ?k "arp_table s"] tk k(1) I(2) by simp
    qed
    moreover have "link_out s' = link_out s @ map (\<lambda>p. ip_frame mac (nif_hwaddr netif) (content (arp_mem s) [p])) (arp_queue (arp_table s) a)"
      using s(6) tk q1 same f(4) by (cases "ae_q (arp_table s1 ! ?k) = []") (auto simp: same_link_def)
    moreover have "stable_entry (arp_table s' ! ?k) a mac" using k I(2) by (simp add: tab stable_entry_def)
    ultimately show ?thesis using run inv U k(1) by auto
  qed
qed

subsection \<open>The timer\<close>

definition arp_expired :: "etharp_entry \<Rightarrow> bool" where
  "arp_expired e \<longleftrightarrow> ae_state e = ETHARP_STATE_STABLE \<and> ae_ctime e \<ge> ARP_MAXAGE \<or> ae_state e = ETHARP_STATE_PENDING \<and> ae_ctime e \<ge> ARP_MAXPENDING"

definition tick :: "etharp_entry \<Rightarrow> etharp_entry" where
  "tick e = (let e = e\<lparr>ae_ctime := ae_ctime e + 1\<rparr> in if arp_expired e then e\<lparr>ae_q := [], ae_state := ETHARP_STATE_EMPTY\<rparr> else e)"

lemma entry_ok_tick: "entry_ok e \<Longrightarrow> entry_ok (tick e)"
  by (auto simp: entry_ok_def tick_def arp_expired_def Let_def not_le)

lemma tick_match: "arp_match ip (tick e) \<Longrightarrow> arp_match ip e"
  by (auto simp: arp_match_def tick_def Let_def split: if_splits)

lemma etharp_tmr_entry_ok:
  assumes i: "arp_inv s ext" and k: "k < ARP_TABLE_SIZE"
  shows "\<exists>s'. etharp_tmr_entry k s = Some s' \<and> arp_inv s' ext \<and> others (arp_mem s) (arp_mem s') (set (waiting (arp_table s))) \<and>
    same_link s s' \<and> arp_table s' = (arp_table s)[k := tick (arp_table s ! k)] \<and> etharp_cached_entry s' = etharp_cached_entry s"
proof -
  note I = arp_invD [OF i]
  have k': "k < length (arp_table s)" using k I(2) by simp
  let ?e = "arp_table s ! k"
  let ?e1 = "?e\<lparr>ae_ctime := ae_ctime ?e + 1\<rparr>"
  let ?s1 = "set_entry k (\<lambda>e. e\<lparr>ae_ctime := ae_ctime e + 1\<rparr>) s"
  have tk: "arp_table ?s1 ! k = ?e1" using k' by simp
  have tabinv: "tab_inv ((arp_table s)[k := tick ?e])"
    by (rule tab_inv_set [OF I(1) entry_ok_tick [OF I(6) [OF k]]])
      (use I(1) k in \<open>auto simp: tab_inv_def arp_match_def tick_def Let_def split: if_splits\<close>)
  have m1: "mem_inv ?s1 ext (ae_q ?e1 @ rest (arp_table s) k)" using I(4) mem_inv_split [OF k'] by (simp add: mem_inv_def)
  obtain s2 where s2: "free_etharp_q (ae_q ?e1) ?s1 = Some s2" "mem_inv s2 ext (rest (arp_table s) k)" "others (arp_mem ?s1) (arp_mem s2) (set (ae_q ?e1))"
    using free_etharp_q_ok [OF m1] by blast
  note ft = free_etharp_q_table [OF s2(1)]
  show ?thesis
  proof (cases "arp_expired ?e1")
    case True
    let ?s' = "set_entry k (\<lambda>e. e\<lparr>ae_q := [], ae_state := ETHARP_STATE_EMPTY\<rparr>) s2"
    have tab: "arp_table ?s' = (arp_table s)[k := tick ?e]" using ft True k' by (simp add: tick_def Let_def)
    have run: "etharp_tmr_entry k s = Some ?s'"
    proof (cases "ae_q ?e = []")
      case True
      then have "s2 = ?s1" using s2(1) by simp
      moreover have "?e1\<lparr>ae_q := [], ae_state := ETHARP_STATE_EMPTY\<rparr> = ?e1\<lparr>ae_state := ETHARP_STATE_EMPTY\<rparr>" using True by (cases ?e) simp
      ultimately have "?s' = set_entry k (\<lambda>e. e\<lparr>ae_state := ETHARP_STATE_EMPTY\<rparr>) ?s1"
        unfolding set_entry_def [of _ _ ?s1] set_entry_def [of _ _ s2] tk by (simp only: tk)
      then show ?thesis using \<open>arp_expired ?e1\<close> True tk unfolding etharp_tmr_entry_def Let_def arp_expired_def by (simp only: simp_thms if_True if_False) simp
    next
      case False
      then show ?thesis using \<open>arp_expired ?e1\<close> s2(1) tk ft k' by (simp add: etharp_tmr_entry_def Let_def arp_expired_def set_entry_def)
    qed
    have "mset (waiting (arp_table ?s')) = mset (rest (arp_table s) k)"
      using waiting_split [of k "(arp_table s)[k := tick ?e]"] k' True unfolding tab by (simp add: tick_def Let_def)
    from mem_inv_mset [OF this] have "mem_inv ?s' ext (waiting (arp_table ?s'))" using s2(2) by (simp add: mem_inv_def)
    then have "arp_inv ?s' ext" using tabinv I(3) ft unfolding arp_inv_def tab by simp
    moreover have "others (arp_mem s) (arp_mem ?s') (set (waiting (arp_table s)))" using others_mono [OF s2(3)] queue_waiting [OF k'] by simp
    ultimately show ?thesis using run tab ft by (intro exI [of _ ?s']) (simp add: same_link_def)
  next
    case False
    then have tab: "arp_table ?s1 = (arp_table s)[k := tick ?e]" by (simp add: tick_def Let_def)
    have "mem_inv ?s1 ext (waiting (arp_table ?s1))" using m1 mem_inv_split [of k ?s1 ext] k' by simp
    then have "arp_inv ?s1 ext" using tabinv I(3) unfolding arp_inv_def tab by simp
    moreover have "etharp_tmr_entry k s = Some ?s1" using False tk unfolding etharp_tmr_entry_def Let_def arp_expired_def by (simp only: tk if_False)
    ultimately show ?thesis using tab by (intro exI [of _ ?s1]) (simp add: same_link_def)
  qed
qed

lemma etharp_tmr_loop_ok:
  "arp_inv s ext \<Longrightarrow> k \<le> ARP_TABLE_SIZE \<Longrightarrow> \<exists>s'. etharp_tmr_loop [k..<ARP_TABLE_SIZE] s = Some s' \<and> arp_inv s' ext \<and>
    others (arp_mem s) (arp_mem s') (set (waiting (arp_table s))) \<and> same_link s s' \<and>
    arp_table s' = take k (arp_table s) @ map tick (drop k (arp_table s))"
proof (induction "ARP_TABLE_SIZE - k" arbitrary: k s)
  case 0
  then show ?case using arp_invD(2) [OF 0(2)] by (simp add: same_link_def)
next
  case (Suc n)
  then have k: "k < ARP_TABLE_SIZE" by simp
  have n: "n = ARP_TABLE_SIZE - Suc k" using Suc.hyps(2) by linarith
  have len: "length (arp_table s) = ARP_TABLE_SIZE" by (rule arp_invD [OF Suc.prems(1)])
  obtain s1 where s1: "etharp_tmr_entry k s = Some s1" "arp_inv s1 ext" "others (arp_mem s) (arp_mem s1) (set (waiting (arp_table s)))" "same_link s s1"
    "arp_table s1 = (arp_table s)[k := tick (arp_table s ! k)]"
    using etharp_tmr_entry_ok [OF Suc.prems(1) k] by blast
  have sub: "set (waiting (arp_table s1)) \<subseteq> set (waiting (arp_table s))"
  proof -
    have "set (ae_q (tick (arp_table s ! k))) \<subseteq> set (waiting (arp_table s))"
      using queue_waiting [of k "arp_table s"] k len by (simp add: tick_def Let_def)
    moreover have "set (arp_table s1) \<subseteq> insert (tick (arp_table s ! k)) (set (arp_table s))" unfolding s1(5) by (rule set_update_subset_insert)
    ultimately show ?thesis unfolding set_waiting by auto
  qed
  obtain s' where s': "etharp_tmr_loop [Suc k..<ARP_TABLE_SIZE] s1 = Some s'" "arp_inv s' ext" "others (arp_mem s1) (arp_mem s') (set (waiting (arp_table s1)))"
    "same_link s1 s'" "arp_table s' = take (Suc k) (arp_table s1) @ map tick (drop (Suc k) (arp_table s1))"
    using Suc.hyps(1) [OF n s1(2)] k by auto
  have "arp_table s' = take k (arp_table s) @ map tick (drop k (arp_table s))"
    using k len unfolding s'(5) s1(5) by (simp add: take_Suc_conv_app_nth Cons_nth_drop_Suc [symmetric])
  moreover have "etharp_tmr_loop [k..<ARP_TABLE_SIZE] s = Some s'" using k s1(1) s'(1) by (simp add: upt_conv_Cons)
  moreover have "others (arp_mem s) (arp_mem s') (set (waiting (arp_table s)))" by (rule others_trans [OF s1(3) s'(3)]) (use sub in auto)
  ultimately show ?case using s'(2,4) s1(4) by (auto simp: same_link_def)
qed

lemma etharp_tmr_ok:
  assumes "arp_inv s ext"
  shows "\<exists>s'. etharp_tmr s = Some s' \<and> arp_inv s' ext \<and> others (arp_mem s) (arp_mem s') (set (waiting (arp_table s))) \<and> same_link s s' \<and>
    arp_table s' = map tick (arp_table s)"
  using etharp_tmr_loop_ok [OF assms, of 0] by (simp add: etharp_tmr_def)

text \<open>An entry that is not refreshed is gone after its maximal age.\<close>

lemma tick_empty: "ae_state e = ETHARP_STATE_EMPTY \<Longrightarrow> ae_state (tick e) = ETHARP_STATE_EMPTY"
  by (simp add: tick_def Let_def)

lemma tick_age:
  "ae_state (tick e) \<noteq> ETHARP_STATE_EMPTY \<Longrightarrow> entry_ok e \<Longrightarrow>
    ae_state (tick e) = ae_state e \<and> unat (ae_ctime (tick e)) = Suc (unat (ae_ctime e)) \<and> ae_ipaddr (tick e) = ae_ipaddr e"
proof -
  assume a: "ae_state (tick e) \<noteq> ETHARP_STATE_EMPTY" "entry_ok e"
  have t: "tick e = e\<lparr>ae_ctime := ae_ctime e + 1\<rparr>" using a(1) by (auto simp: tick_def Let_def)
  have "ae_state e \<noteq> ETHARP_STATE_EMPTY" using a(1) tick_empty by blast
  then have "ae_ctime e < ARP_MAXAGE" using a(2)
    by (cases "ae_state e") (auto simp: entry_ok_def ARP_MAXAGE_def ARP_MAXPENDING_def elim: order.strict_trans)
  then have "unat (ae_ctime e) < 240" by (simp add: word_less_nat_alt ARP_MAXAGE_def)
  then show ?thesis by (simp add: t unat_word_ariths)
qed

lemma tick_power:
  assumes "entry_ok e"
  shows "entry_ok ((tick ^^ n) e) \<and> (ae_state ((tick ^^ n) e) \<noteq> ETHARP_STATE_EMPTY \<longrightarrow>
    ae_state ((tick ^^ n) e) = ae_state e \<and> unat (ae_ctime ((tick ^^ n) e)) = unat (ae_ctime e) + n)"
proof (induction n)
  case (Suc n)
  let ?f = "(tick ^^ n) e"
  have ok: "entry_ok ?f" using Suc by blast
  have "ae_state (tick ?f) = ae_state e \<and> unat (ae_ctime (tick ?f)) = unat (ae_ctime e) + Suc n" if ne: "ae_state (tick ?f) \<noteq> ETHARP_STATE_EMPTY"
  proof -
    have "ae_state ?f \<noteq> ETHARP_STATE_EMPTY" using ne tick_empty by blast
    then show ?thesis using tick_age [OF ne ok] Suc by simp
  qed
  then show ?case using entry_ok_tick [OF ok] by (simp del: One_nat_def)
qed (use assms in simp)

lemma tick_expires:
  assumes "entry_ok e" "ae_state e = ETHARP_STATE_PENDING \<Longrightarrow> 2 \<le> n" "ae_state e = ETHARP_STATE_STABLE \<Longrightarrow> 240 \<le> n"
  shows "ae_state ((tick ^^ n) e) = ETHARP_STATE_EMPTY"
proof (rule ccontr)
  let ?f = "(tick ^^ n) e"
  assume n: "ae_state ?f \<noteq> ETHARP_STATE_EMPTY"
  then have f: "entry_ok ?f" "ae_state ?f = ae_state e" "unat (ae_ctime ?f) = unat (ae_ctime e) + n" using tick_power [OF assms(1), of n] by auto
  show False
  proof (cases "ae_state ?f")
    case ETHARP_STATE_PENDING
    then have "unat (ae_ctime ?f) < 2" using f(1) by (simp add: entry_ok_def ARP_MAXPENDING_def word_less_nat_alt)
    then show ?thesis using f assms(2) ETHARP_STATE_PENDING by simp
  next
    case ETHARP_STATE_STABLE
    then have "unat (ae_ctime ?f) < 240" using f(1) by (simp add: entry_ok_def ARP_MAXAGE_def word_less_nat_alt)
    then show ?thesis using f assms(3) ETHARP_STATE_STABLE by simp
  qed (use n in simp)
qed

end
