(* ===== verification/Etharp_Packets.thy ===== *)
theory Etharp_Packets
  imports Etharp_Ops
begin

text \<open>
  ARP packets and outgoing IP packets: what \<open>etharp_raw\<close>, \<open>etharp_query\<close> and \<open>etharp_output\<close> put on
  the link and into the queue.
\<close>

subsection \<open>Writing a header field by field\<close>

lemma patch_concat:
  assumes "j < length segs" "length (segs ! j) = length xs" "k = sum_list (map length (take j segs))"
  shows "patch k xs (concat segs) = concat (segs[j := xs])"
proof -
  have s: "segs = take j segs @ segs ! j # drop (Suc j) segs" by (rule id_take_nth_drop [OF assms(1)])
  have k: "length (concat (take j segs)) = k" using assms(3) by (simp add: length_concat)
  have "concat segs = concat (take j segs) @ segs ! j @ concat (drop (Suc j) segs)" by (subst s) simp
  then have "patch k xs (concat segs) = concat (take j segs) @ xs @ concat (drop (Suc j) segs)"
    using k assms(2) by (simp add: patch_def)
  then show ?thesis by (simp add: upd_conv_take_nth_drop [OF assms(1)])
qed

fun chop :: "nat list \<Rightarrow> 'a list \<Rightarrow> 'a list list" where
  "chop [] c = []"
| "chop (n # ns) c = take n c # chop ns (drop n c)"

lemma concat_chop: "length c = sum_list ns \<Longrightarrow> concat (chop ns c) = c"
  by (induction ns c rule: chop.induct) simp_all

lemma length_chop: "length c = sum_list ns \<Longrightarrow> map length (chop ns c) = ns"
  by (induction ns c rule: chop.induct) simp_all

fun put_all :: "paddr \<Rightarrow> (nat \<times> byte list) list \<Rightarrow> arp \<Rightarrow> arp option" where
  "put_all p [] s = Some s"
| "put_all p ((k, xs) # r) s = do { s \<leftarrow> put_bytes p k xs s; put_all p r s }"

definition patch_all :: "(nat \<times> byte list) list \<Rightarrow> byte list \<Rightarrow> byte list" where
  "patch_all kvs c = fold (\<lambda>(k, xs). patch k xs) kvs c"

lemma put_all_ok:
  assumes "sendable (arp_mem s) p as" "\<forall>(k, xs)\<in>set kvs. k + length xs \<le> plen (arp_mem s) p"
  shows "\<exists>\<sigma>'. put_all p kvs s = Some (s\<lparr>arp_mem := \<sigma>'\<rparr>) \<and> wrote (arp_mem s) \<sigma>' {p} \<and> sendable \<sigma>' p as \<and>
    content \<sigma>' (p # as) = patch_all kvs (content (arp_mem s) (p # as)) \<and> pdata \<sigma>' p = patch_all kvs (pdata (arp_mem s) p)"
  using assms
proof (induction kvs arbitrary: s)
  case Nil
  then show ?case by (intro exI [of _ "arp_mem s"]) (simp add: patch_all_def wrote_refl)
next
  case (Cons kv kvs)
  obtain k xs where kv: "kv = (k, xs)" by (cases kv)
  obtain \<rho> where r: "put_bytes p k xs s = Some (s\<lparr>arp_mem := \<rho>\<rparr>)" "wrote (arp_mem s) \<rho> {p}" "sendable \<rho> p as" "plen \<rho> p = plen (arp_mem s) p"
    "content \<rho> (p # as) = patch k xs (content (arp_mem s) (p # as))" "pdata \<rho> p = patch k xs (pdata (arp_mem s) p)"
    using put_bytes_ok [OF Cons.prems(1), of k xs] Cons.prems(2) by (auto simp: kv)
  obtain \<sigma>' where s: "put_all p kvs (s\<lparr>arp_mem := \<rho>\<rparr>) = Some (s\<lparr>arp_mem := \<sigma>'\<rparr>)" "wrote \<rho> \<sigma>' {p}" "sendable \<sigma>' p as"
    "content \<sigma>' (p # as) = patch_all kvs (content \<rho> (p # as))" "pdata \<sigma>' p = patch_all kvs (pdata \<rho> p)"
    using Cons.IH [of "s\<lparr>arp_mem := \<rho>\<rparr>"] r(3,4) Cons.prems(2) by auto
  have "wrote (arp_mem s) \<sigma>' {p}" by (rule wrote_trans [OF r(2) s(2)]) auto
  then show ?case using r(1,5,6) s by (intro exI [of _ \<sigma>']) (simp add: kv patch_all_def)
qed

subsection \<open>ARP packets\<close>

definition arp_packet :: "eth_addr \<Rightarrow> eth_addr \<Rightarrow> eth_addr \<Rightarrow> u32_t \<Rightarrow> eth_addr \<Rightarrow> u32_t \<Rightarrow> u16_t \<Rightarrow> byte list" where
  "arp_packet ethsrc ethdst hwsrc ipsrc hwdst ipdst opcode = ethdst @ ethsrc @ bytes16 (htons ETHTYPE_ARP) @
     bytes16 (htons HWTYPE_ETHERNET) @ bytes16 (htons ETHTYPE_IP) @ bytes16 (htons 0x0604) @ bytes16 (htons opcode) @
     hwsrc @ bytes32 ipsrc @ hwdst @ bytes32 ipdst"

abbreviation arp_fields :: "nat list" where
  "arp_fields \<equiv> [6, 6, 2, 2, 2, 2, 2, 6, 4, 6, 4]"

lemma eleven:
  assumes "map length segs = arp_fields"
  shows "\<exists>a b c d e f g h i j k. segs = [a, b, c, d, e, f, g, h, i, j, k] \<and> length a = 6 \<and> length b = 6 \<and> length c = 2 \<and> length d = 2 \<and>
    length e = 2 \<and> length f = 2 \<and> length g = 2 \<and> length h = 6 \<and> length i = 4 \<and> length j = 6 \<and> length k = 4"
  using assms by (simp add: map_eq_Cons_conv) blast

lemma raw_fields:
  assumes c: "length c = 42" and l: "length ethsrc = 6" "length ethdst = 6" "length hwsrc = 6" "length hwdst = 6"
  shows "patch_all [(20, bytes16 (htons opcode)), (22, hwsrc), (32, hwdst), (0, ethdst), (6, ethsrc), (28, bytes32 ipsrc), (38, bytes32 ipdst),
      (14, bytes16 (htons HWTYPE_ETHERNET)), (16, bytes16 (htons ETHTYPE_IP)), (18, bytes16 (htons 0x0604)), (12, bytes16 (htons ETHTYPE_ARP))] c =
    arp_packet ethsrc ethdst hwsrc ipsrc hwdst ipdst opcode"
proof -
  have "map length (chop arp_fields c) = arp_fields" by (rule length_chop) (simp add: c)
  then obtain a0 a1 a2 a3 a4 a5 a6 a7 a8 a9 a10 where ch: "chop arp_fields c = [a0, a1, a2, a3, a4, a5, a6, a7, a8, a9, a10]"
    and la: "length a0 = 6" "length a1 = 6" "length a2 = 2" "length a3 = 2" "length a4 = 2" "length a5 = 2" "length a6 = 2" "length a7 = 6"
      "length a8 = 4" "length a9 = 6" "length a10 = 4"
    using eleven by blast
  have cc: "c = concat [a0, a1, a2, a3, a4, a5, a6, a7, a8, a9, a10]" using concat_chop [of c arp_fields] c unfolding ch by simp
  note p = patch_concat [of 6] patch_concat [of 7] patch_concat [of 9] patch_concat [of 0] patch_concat [of 1] patch_concat [of 8] patch_concat [of 10]
    patch_concat [of 3] patch_concat [of 4] patch_concat [of 5] patch_concat [of 2]
  show ?thesis unfolding cc patch_all_def
    by (simp add: p la l del: concat.simps) (simp add: arp_packet_def)
qed

lemma put_all_raw:
  assumes "unat (nif_hwaddr_len netif) = 6" "length ethsrc = 6" "length ethdst = 6" "length hwsrc = 6" "length hwdst = 6"
    and "pbuf_alloc PBUF_RAW 42 PBUF_RAM (arp_mem s) = Some (Some p, \<rho>)" "pbs \<rho> p = Some b" "unat (pb_len b) = 42"
  shows "etharp_raw netif ethsrc ethdst hwsrc ipsrc hwdst ipdst opcode s = do {
     s \<leftarrow> put_all p [(20, bytes16 (htons opcode)), (22, hwsrc), (32, hwdst), (0, ethdst), (6, ethsrc), (28, bytes32 ipsrc), (38, bytes32 ipdst),
      (14, bytes16 (htons HWTYPE_ETHERNET)), (16, bytes16 (htons ETHTYPE_IP)), (18, bytes16 (htons 0x0604)), (12, bytes16 (htons ETHTYPE_ARP))] (s\<lparr>arp_mem := \<rho>\<rparr>);
     (result, s) \<leftarrow> linkoutput p s;
     (n, s) \<leftarrow> on_mem (pbuf_free (Some p)) s;
     Some (result, s) }"
proof -
  have "(push_bit 8 (of_nat ETHARP_HWADDR_LEN) OR 4 :: u16_t) = 0x0604" by (simp add: ETHARP_HWADDR_LEN_def)
  then show ?thesis using assms
    by (simp add: etharp_raw_def on_mem_def SIZEOF_ETHARP_PACKET_def SIZEOF_ETH_HDR_def SIZEOF_ETHARP_HDR_def ETHARP_HWADDR_LEN_def guard_def)
qed

lemma etharp_raw_ok:
  assumes i: "packet_inv (arp_mem s) ext" and hw: "unat (nif_hwaddr_len netif) = 6"
    and l: "length ethsrc = 6" "length ethdst = 6" "length hwsrc = 6" "length hwdst = 6"
  shows "\<exists>\<sigma>'. etharp_raw netif ethsrc ethdst hwsrc ipsrc hwdst ipdst opcode s =
      Some (if memp_tab (arp_mem s) MEM_HEAP = [] then (ERR_MEM, s)
        else (link_result s, sent s \<sigma>' (arp_packet ethsrc ethdst hwsrc ipsrc hwdst ipdst opcode))) \<and>
    packet_inv \<sigma>' ext \<and> others (arp_mem s) \<sigma>' (- dom (pbs (arp_mem s))) \<and> pbs \<sigma>' = pbs (arp_mem s) \<and> memp_tab \<sigma>' = memp_tab (arp_mem s)"
proof (cases "memp_tab (arp_mem s) MEM_HEAP")
  case Nil
  have "pbuf_alloc PBUF_RAW 42 PBUF_RAM (arp_mem s) = Some (None, arp_mem s)"
    using Nil by (simp add: pbuf_alloc_def pool_of_def memp_malloc_def)
  then have "etharp_raw netif ethsrc ethdst hwsrc ipsrc hwdst ipdst opcode s = Some (ERR_MEM, s)"
    by (simp add: etharp_raw_def on_mem_def SIZEOF_ETHARP_PACKET_def SIZEOF_ETH_HDR_def SIZEOF_ETHARP_HDR_def)
  then show ?thesis using Nil i by (intro exI [of _ "arp_mem s"]) simp
next
  case (Cons q qs)
  let ?\<sigma> = "arp_mem s"
  define \<rho> where "\<rho> = snd (the (pbuf_alloc PBUF_RAW 42 PBUF_RAM ?\<sigma>))"
  let ?bq = "new_pbuf (Some (Own q, int (header_offset PBUF_RAW))) 42 42 PBUF_RAM"
  have run: "pbuf_alloc PBUF_RAW 42 PBUF_RAM ?\<sigma> = Some (Some q, \<rho>)" and pr: "pbs \<rho> = (pbs ?\<sigma>)(q \<mapsto> ?bq)" and
    br: "\<And>k. k \<noteq> Own q \<Longrightarrow> bytes_of \<rho> k = bytes_of ?\<sigma> k" and mr: "memp_tab \<rho> = (memp_tab ?\<sigma>)(MEM_HEAP := qs)"
    by (simp_all add: \<rho>_def pbuf_alloc_def pool_of_def memp_malloc_def Cons Let_def)
  have "alloc_result ?\<sigma> ext PBUF_RAW 42 PBUF_RAM (Some q) \<rho>" using pbuf_alloc_ok [OF i, of PBUF_RAW 42 PBUF_RAM] run by simp
  then have r: "q \<notin> dom (pbs ?\<sigma>)" "packet_inv \<rho> (ext(q := 1))" by (simp_all add: alloc_result_def)
  have bq: "pbs \<rho> q = Some ?bq" using pr by simp
  then have qr: "queued_ok \<rho> q" by (simp add: queued_ok_def SIZEOF_ETH_HDR_def)
  have inv: "data_inv \<rho>" "len_inv \<rho>" using r(2) by (simp_all add: packet_inv_def)
  have sd: "sendable \<rho> q []" by (rule queued_sendable [OF qr inv(1)])
  have pl: "plen \<rho> q = 42" using bq by (simp add: plen_def)
  let ?fs = "[(20, bytes16 (htons opcode)), (22, hwsrc), (32, hwdst), (0, ethdst), (6, ethsrc), (28, bytes32 ipsrc), (38, bytes32 ipdst),
      (14, bytes16 (htons HWTYPE_ETHERNET)), (16, bytes16 (htons ETHTYPE_IP)), (18, bytes16 (htons 0x0604)), (12, bytes16 (htons ETHTYPE_ARP))]"
  let ?frame = "arp_packet ethsrc ethdst hwsrc ipsrc hwdst ipdst opcode"
  obtain \<tau> where t: "put_all q ?fs (s\<lparr>arp_mem := \<rho>\<rparr>) = Some (s\<lparr>arp_mem := \<tau>\<rparr>)" "wrote \<rho> \<tau> {q}" "sendable \<tau> q []"
    "content \<tau> [q] = patch_all ?fs (content \<rho> [q])"
    using put_all_ok [of "s\<lparr>arp_mem := \<rho>\<rparr>" q "[]" ?fs] sd l pl by auto
  have "length (content \<rho> [q]) = 42" using length_content [OF sendable_readable [OF sd]] pl by simp
  then have ct: "content \<tau> [q] = ?frame" using t(4) raw_fields [OF _ l] by simp
  have qt: "queued_ok \<tau> q" using qr t(2) by (simp add: queued_ok_def wrote_def)
  have it: "packet_inv \<tau> (ext(q := 1))" using r(2) by (simp add: wrote_inv [OF t(2)])
  have lo: "linkoutput q (s\<lparr>arp_mem := \<tau>\<rparr>) = Some (link_result s, sent s \<tau> ?frame)"
    using linkoutput_ok [of "s\<lparr>arp_mem := \<tau>\<rparr>" q "[q]"] queued_chain [OF qt] sendable_readable [OF t(3)] it ct
    by (simp add: packet_inv_def link_result_def sent_def)
  let ?\<sigma>' = "memp_free MEM_HEAP q \<tau>"
  have ext0: "ext q = 0" using i r(1) by (auto simp: packet_inv_def pbuf_inv_def ref_inv_def)
  have "packet_inv ?\<sigma>' ((ext(q := 1))(q := (ext(q := 1)) q - 1))"
    using packet_free_ok [OF it _ queued_chain [OF qt]] free_queued [OF qt] by auto
  moreover have "(ext(q := 1))(q := (ext(q := 1)) q - 1) = ext" using ext0 by auto
  moreover have "pbs ?\<sigma>' = pbs ?\<sigma>"
  proof -
    have "pbs ?\<sigma> q = None" using r(1) by auto
    then have "(pbs ?\<sigma>)(q := None) = pbs ?\<sigma>" by (simp add: fun_upd_idem_iff)
    then show ?thesis using t(2) pr by (simp add: wrote_def)
  qed
  moreover have "memp_tab ?\<sigma>' = memp_tab ?\<sigma>" using t(2) mr Cons by (auto simp: wrote_def fun_eq_iff)
  moreover have "others ?\<sigma> ?\<sigma>' (- dom (pbs ?\<sigma>))"
  proof -
    have "bytes_of ?\<sigma>' k = bytes_of ?\<sigma> k" if "k \<notin> Own ` (- dom (pbs ?\<sigma>))" for k
    proof -
      have "k \<noteq> Own q" using that r(1) by blast
      then show ?thesis using t(2) br by (simp add: wrote_def)
    qed
    then show ?thesis using \<open>pbs ?\<sigma>' = pbs ?\<sigma>\<close> by (simp add: others_def)
  qed
  moreover have "etharp_raw netif ethsrc ethdst hwsrc ipsrc hwdst ipdst opcode s = Some (link_result s, sent s ?\<sigma>' ?frame)"
    using put_all_raw [OF hw l run bq] t(1) lo free_queued [OF qt] by (simp add: on_mem_def sent_def del: put_all.simps)
  ultimately show ?thesis using Cons by (intro exI [of _ ?\<sigma>']) simp
qed

subsection \<open>The packets of the clients\<close>

definition packet_ok :: "pmem \<Rightarrow> paddr \<Rightarrow> paddr list \<Rightarrow> bool" where
  "packet_ok \<sigma> q as \<longleftrightarrow> sendable \<sigma> q as \<and> nonempty \<sigma> (q # as) \<and> (\<exists>b. pbs \<sigma> q = Some b \<and> (pb_type b = PBUF_RAM \<or> pb_type b = PBUF_POOL))"

lemma waiting_unlinked:
  assumes "packet_inv \<sigma> (with_q ext W)" "w \<in> set W" "queued_ok \<sigma> w"
  shows "preds \<sigma> w = {}" "ext w = 0"
proof -
  obtain b where b: "pbs \<sigma> w = Some b" "pb_ref b = 1" using assms(3) by (auto simp: queued_ok_def)
  have i: "ref_inv \<sigma> (with_q ext W)" using assms(1) by (simp add: packet_inv_def pbuf_inv_def)
  have "1 = ext w + 1 + card (preds \<sigma> w)" using ref_invD(2) [OF i b(1)] b(2) assms(2) by (simp add: with_q_def)
  then show "preds \<sigma> w = {}" "ext w = 0" using preds_finite [OF i, of w] by simp_all
qed

lemma chain_preds: "chain \<sigma> p as \<Longrightarrow> w \<in> set as \<Longrightarrow> p \<noteq> Some w \<Longrightarrow> preds \<sigma> w \<noteq> {}"
proof (induction as arbitrary: p)
  case (Cons a as)
  obtain b :: pbuf where b: "p = Some a" "pbs \<sigma> a = Some b" "chain \<sigma> (pb_next b) as" using Cons.prems(1) by (cases "pbs \<sigma> a") auto
  have w: "w \<in> set as" using Cons.prems(2,3) b(1) by auto
  show ?case
  proof (cases "pb_next b = Some w")
    case True
    then show ?thesis using b(2) by (auto simp: preds_def)
  next
    case False
    then show ?thesis using Cons.IH [OF b(3) w] by simp
  qed
qed simp

lemma chain_not_waiting:
  assumes "packet_inv \<sigma> (with_q ext W)" "\<forall>w\<in>set W. queued_ok \<sigma> w" "0 < ext q" "chain \<sigma> (Some q) qs"
  shows "set qs \<inter> set W = {}"
proof (rule ccontr)
  assume "set qs \<inter> set W \<noteq> {}"
  then obtain w where w: "w \<in> set qs" "w \<in> set W" by blast
  note u = waiting_unlinked [OF assms(1) w(2)]
  have "queued_ok \<sigma> w" using assms(2) w(2) by blast
  then have "preds \<sigma> w = {}" and e0: "ext w = 0" using u by blast+
  moreover have "q \<noteq> w" using e0 assms(3) by auto
  ultimately show False using chain_preds [OF assms(4) w(1)] by auto
qed

lemma readable_others:
  assumes "others \<sigma> \<sigma>' A" "set as \<inter> A = {}" "apart \<sigma> as A"
  shows "readable \<sigma>' as = readable \<sigma> as"
proof -
  have "(\<exists>b. pbs \<sigma>' a = Some b \<and> in_block (pb_payload b) 0 (unat (pb_len b)) \<sigma>') \<longleftrightarrow> (\<exists>b. pbs \<sigma> a = Some b \<and> in_block (pb_payload b) 0 (unat (pb_len b)) \<sigma>)"
    if "a \<in> set as" for a
  proof -
    have e: "pbs \<sigma>' a = pbs \<sigma> a" using assms(1,2) that by (auto simp: others_def)
    show ?thesis
    proof (cases "pbs \<sigma> a")
      case (Some b)
      have "in_block (pb_payload b) 0 (unat (pb_len b)) \<sigma>' = in_block (pb_payload b) 0 (unat (pb_len b)) \<sigma>"
      proof (cases "pb_payload b")
        case (Some po)
        obtain blk off where po: "po = (blk, off)" by (cases po)
        have "blk \<notin> Own ` A" using assms(3) that \<open>pbs \<sigma> a = Some b\<close> Some unfolding apart_def po by blast
        then show ?thesis using assms(1) Some by (simp add: in_block_def po others_def)
      qed (simp add: in_block_def)
      then show ?thesis using e Some by simp
    qed (simp add: e)
  qed
  then show ?thesis by (simp add: readable_def)
qed

lemma sendable_apart: "sendable \<sigma> q as \<Longrightarrow> set (q # as) \<inter> A = {} \<Longrightarrow> apart \<sigma> (q # as) A"
proof -
  assume s: "sendable \<sigma> q as" and d: "set (q # as) \<inter> A = {}"
  have "apart \<sigma> as A" using s d plain_apart by (auto simp: sendable_def)
  moreover have "apart \<sigma> [q] A" using s d owns_apart [of \<sigma> "[q]" A] by (auto simp: sendable_def)
  ultimately show ?thesis by (simp add: apart_def)
qed

lemma packet_ok_others:
  assumes p: "packet_ok \<sigma> q as" and o: "others \<sigma> \<sigma>' A" and d: "set (q # as) \<inter> A = {}"
  shows "packet_ok \<sigma>' q as" "content \<sigma>' (q # as) = content \<sigma> (q # as)"
proof -
  have s: "sendable \<sigma> q as" using p by (simp add: packet_ok_def)
  note ap = sendable_apart [OF s d]
  have e: "pbs \<sigma>' a = pbs \<sigma> a" if "a \<in> set (q # as)" for a using o d that by (auto simp: others_def)
  have c: "chain \<sigma>' (Some q) (q # as)" using s e chain_cong [of "q # as" \<sigma>' \<sigma> "Some q"] unfolding sendable_def by simp
  have "Own q \<notin> Own ` A" using d by auto
  then have "owns \<sigma>' [q]" using s e [of q] o by (simp add: sendable_def owns_def others_def)
  moreover have "readable \<sigma>' as" using readable_others [OF o, of as] s d ap by (auto simp: sendable_def apart_def)
  moreover have "plain \<sigma>' as" using s e by (simp add: sendable_def plain_def)
  moreover have "plen \<sigma>' a = plen \<sigma> a" if "a \<in> set (q # as)" for a using e [OF that] by (simp add: plen_def)
  ultimately show "packet_ok \<sigma>' q as" using p c e [of q] by (simp add: packet_ok_def sendable_def nonempty_def)
  have "pdata \<sigma>' a = pdata \<sigma> a" if "a \<in> set (q # as)" for a
    by (rule others_pdata [OF o]) (use that d ap in \<open>auto simp: apart_def\<close>)
  then show "content \<sigma>' (q # as) = content \<sigma> (q # as)" by (simp add: content_def cong: map_cong)
qed

end
