(* ===== verification/Etharp_Output.thy ===== *)
theory Etharp_Output
  imports Etharp_Packets
begin

text \<open>
  Outgoing packets: \<open>arp_enqueue\<close>, \<open>etharp_query\<close> and \<open>etharp_output\<close> keep the invariant and send or queue what
  they are given.
\<close>

subsection \<open>Queueing a copy\<close>

lemma packet_chain: "packet_ok \<sigma> q as \<Longrightarrow> chain \<sigma> (Some q) (q # as)"
  by (simp add: packet_ok_def sendable_def del: chain.simps)

lemma copy_needed_ok:
  assumes "packet_ok \<sigma> q as" "len_inv \<sigma>"
  shows "copy_needed (Some q) \<sigma> = Some (Some q)"
proof -
  obtain b where b: "pbs \<sigma> q = Some b" "pb_type b = PBUF_RAM \<or> pb_type b = PBUF_POOL" using assms(1) by (auto simp: packet_ok_def)
  have "one_packet (Some q) \<sigma> = Some ()"
    using one_packet_ok [OF packet_chain [OF assms(1)] assms(2)] assms(1) by (simp add: packet_ok_def)
  then have "pb_len b \<noteq> pb_tot_len b \<or> pb_next b = None" using b(1) by (auto simp: one_packet_def guard_def split: if_splits)
  then show ?thesis using b by (subst copy_needed.simps) (auto simp: guard_def)
qed

lemma packet_apart:
  assumes "packet_ok \<sigma> q as"
  shows "apart \<sigma> (q # as) (- dom (pbs \<sigma>))" "readable \<sigma> (q # as)"
proof -
  have "set (q # as) \<subseteq> dom (pbs \<sigma>)" by (rule chain_dom [OF packet_chain [OF assms]])
  then show "apart \<sigma> (q # as) (- dom (pbs \<sigma>))" using assms by (intro sendable_apart) (auto simp: packet_ok_def)
  show "readable \<sigma> (q # as)" using assms by (intro sendable_readable) (simp add: packet_ok_def)
qed

lemma tab_inv_queue:
  assumes "tab_inv tab" "i < ARP_TABLE_SIZE" "ae_state (tab ! i) = ETHARP_STATE_PENDING"
  shows "tab_inv (tab[i := (tab ! i)\<lparr>ae_q := qs\<rparr>])"
proof (rule tab_inv_set [OF assms(1)])
  show "entry_ok ((tab ! i)\<lparr>ae_q := qs\<rparr>)" using assms by (simp add: tab_inv_def entry_ok_def)
  show "\<not> arp_match (Some (ae_ipaddr ((tab ! i)\<lparr>ae_q := qs\<rparr>))) (tab ! j)" if "j < ARP_TABLE_SIZE" "j \<noteq> i" for j
    using assms that unfolding tab_inv_def arp_match_def by auto
qed

lemma arp_enqueue_ok:
  assumes i: "arp_inv s ext" and k: "i < ARP_TABLE_SIZE" "ae_state (arp_table s ! i) = ETHARP_STATE_PENDING" and q: "packet_ok (arp_mem s) q as"
  shows "\<exists>r s'. arp_enqueue i q result s = Some (r, s') \<and> arp_inv s' ext \<and> others (arp_mem s) (arp_mem s') (- dom (pbs (arp_mem s))) \<and> same_link s s' \<and>
    (if memp_tab (arp_mem s) MEM_HEAP \<noteq> [] \<and> arp_free s > 0
     then r = 0 \<and> (\<exists>p. arp_table s' = (arp_table s)[i := (arp_table s ! i)\<lparr>ae_q := ae_q (arp_table s ! i) @ [p]\<rparr>] \<and>
       content (arp_mem s') [p] = content (arp_mem s) (q # as))
     else r = result \<and> arp_table s' = arp_table s)"
proof -
  let ?\<sigma> = "arp_mem s"
  let ?W = "waiting (arp_table s)"
  note I = arp_invD [OF i]
  have li: "len_inv ?\<sigma>" using I(5) by (simp add: packet_inv_def)
  note cn = copy_needed_ok [OF q li]
  obtain b where b: "pbs ?\<sigma> q = Some b" using q by (auto simp: packet_ok_def)
  have k': "i < length (arp_table s)" using k(1) I(2) by simp
  show ?thesis
  proof (cases "memp_tab ?\<sigma> MEM_HEAP")
    case Nil
    then have "pbuf_alloc PBUF_RAW (pb_tot_len b) PBUF_RAM ?\<sigma> = Some (None, ?\<sigma>)" by (simp add: pbuf_alloc_def pool_of_def memp_malloc_def)
    then have "arp_enqueue i q result s = Some (result, s)" using b cn by (simp add: arp_enqueue_def on_mem_def)
    then show ?thesis using i Nil by (simp add: same_link_def)
  next
    case (Cons p ps)
    obtain \<rho> \<tau> b' where t: "pbuf_alloc PBUF_RAW (pb_tot_len b) PBUF_RAM ?\<sigma> = Some (Some p, \<rho>)" "pbuf_copy (Some p) (Some q) \<rho> = Some (0, \<tau>)"
      "p \<notin> dom (pbs ?\<sigma>)" "packet_inv \<tau> ((with_q ext ?W)(p := 1))" "content \<tau> [p] = content ?\<sigma> (q # as)" "pbs \<tau> = (pbs ?\<sigma>)(p \<mapsto> b')"
      "pb_next b' = None" "pb_type b' = PBUF_RAM" "pb_ref b' = 1" "pb_len b' = pb_tot_len b"
      "\<forall>k. k \<noteq> Own p \<longrightarrow> bytes_of \<tau> k = bytes_of ?\<sigma> k"
      using alloc_copy_ok [OF I(5) packet_chain [OF q] packet_apart(2) [OF q] _ packet_apart(1) [OF q] b Cons, of PBUF_RAW] q
      unfolding packet_ok_def by blast
    have pw: "p \<notin> set ?W" using I(4) t(3) by (auto simp: mem_inv_def queued_ok_def)
    have len: "SIZEOF_ETH_HDR \<le> unat (pb_tot_len b)"
    proof -
      have "unat (pb_len b) \<le> unat (pb_tot_len b)" using li b by (simp add: len_inv_def)
      moreover have "SIZEOF_ETH_HDR \<le> unat (pb_len b)" using q b by (simp add: packet_ok_def sendable_def plen_def)
      ultimately show ?thesis by simp
    qed
    have qp: "queued_ok \<tau> p" using t(6-10) len by (simp add: queued_ok_def)
    have oth: "others ?\<sigma> \<tau> (- dom (pbs ?\<sigma>))" using t(3,6,11) by (auto simp: others_def)
    have ext0: "with_q ext ?W p = 0" using I(5) t(3) by (auto simp: packet_inv_def pbuf_inv_def ref_inv_def)
    have run: "arp_enqueue i q result s = (if arp_free s > 0
         then Some (0, set_entry i (\<lambda>e. e\<lparr>ae_q := ae_q e @ [p]\<rparr>) (s\<lparr>arp_mem := \<tau>, arp_free := arp_free s - 1\<rparr>))
         else Some (result, s\<lparr>arp_mem := memp_free MEM_HEAP p \<tau>\<rparr>))"
      using b cn t(1,2) free_queued [OF qp] by (simp add: arp_enqueue_def on_mem_def)
    have old: "queued_ok \<tau> x" if "x \<in> set ?W" for x using I(4) t(6) that pw by (auto simp: mem_inv_def queued_ok_def)
    show ?thesis
    proof (cases "arp_free s > 0")
      case True
      let ?s' = "set_entry i (\<lambda>e. e\<lparr>ae_q := ae_q e @ [p]\<rparr>) (s\<lparr>arp_mem := \<tau>, arp_free := arp_free s - 1\<rparr>)"
      have tab: "arp_table ?s' = (arp_table s)[i := (arp_table s ! i)\<lparr>ae_q := ae_q (arp_table s ! i) @ [p]\<rparr>]" by simp
      have "(with_q ext ?W)(p := 1) = with_q ext (p # ?W)" using ext0 by (auto simp: with_q_def split: if_splits)
      then have "mem_inv ?s' ext (p # ?W)" using I(4) t(4) pw qp old True by (simp add: mem_inv_def)
      moreover have "mset (waiting (arp_table ?s')) = mset (p # ?W)"
        using waiting_split [of i "arp_table ?s'"] waiting_split [OF k'] k' unfolding tab by simp
      ultimately have "mem_inv ?s' ext (waiting (arp_table ?s'))" using mem_inv_mset by blast
      moreover have "tab_inv (arp_table ?s')" unfolding tab by (rule tab_inv_queue [OF I(1) k])
      ultimately have "arp_inv ?s' ext" using I(3) by (simp add: arp_inv_def)
      then show ?thesis using run True oth t(5) Cons by (auto simp: same_link_def)
    next
      case False
      let ?s' = "s\<lparr>arp_mem := memp_free MEM_HEAP p \<tau>\<rparr>"
      have "packet_inv (memp_free MEM_HEAP p \<tau>) (((with_q ext ?W)(p := 1))(p := ((with_q ext ?W)(p := 1)) p - 1))"
        using packet_free_ok [OF t(4) _ queued_chain [OF qp]] free_queued [OF qp] by auto
      moreover have "((with_q ext ?W)(p := 1))(p := ((with_q ext ?W)(p := 1)) p - 1) = with_q ext ?W" using ext0 by auto
      moreover have "queued_ok (memp_free MEM_HEAP p \<tau>) x" if "x \<in> set ?W" for x
        using old [OF that] that pw by (auto simp: queued_ok_def)
      ultimately have "mem_inv ?s' ext ?W" using I(4) by (simp add: mem_inv_def)
      then have "arp_inv ?s' ext" using i by (simp add: arp_inv_def)
      moreover have "others ?\<sigma> (arp_mem ?s') (- dom (pbs ?\<sigma>))" using oth t(3) by (auto simp: others_def)
      ultimately show ?thesis using run False by (auto simp: same_link_def)
    qed
  qed
qed

subsection \<open>\<open>etharp_query\<close>\<close>

text \<open>What may change in the buffers when \<open>q\<close> is sent: waiting packets, new ones, and \<open>q\<close> itself.\<close>

definition mine :: "arp \<Rightarrow> paddr set" where
  "mine s = set (waiting (arp_table s)) \<union> - dom (pbs (arp_mem s))"

lemma arp_inv_mem:
  assumes "arp_inv s ext" "packet_inv \<sigma>' (with_q ext (waiting (arp_table s)))" "\<forall>p\<in>set (waiting (arp_table s)). pbs \<sigma>' p = pbs (arp_mem s) p"
    "arp_mem s' = \<sigma>'" "arp_free s' = arp_free s" "arp_table s' = arp_table s" "etharp_cached_entry s' = etharp_cached_entry s"
  shows "arp_inv s' ext"
  using assms by (simp add: arp_inv_def mem_inv_def queued_ok_def)

text \<open>Memory that is free stays free.\<close>

definition room :: "arp \<Rightarrow> bool" where
  "room s \<longleftrightarrow> memp_tab (arp_mem s) MEM_HEAP \<noteq> [] \<and> arp_free s > 0"

lemma free_etharp_q_room: "mem_inv s ext (q @ W) \<Longrightarrow> room s \<Longrightarrow> free_etharp_q q s = Some s' \<Longrightarrow> room s'"
proof (induction q arbitrary: s)
  case (Cons p q)
  let ?s = "s\<lparr>arp_mem := memp_free MEM_HEAP p (arp_mem s), arp_free := arp_free s + 1\<rparr>"
  have "queued_ok (arp_mem s) p" using Cons.prems(1) by (simp add: mem_inv_def)
  then have "free_etharp_q q ?s = Some s'" using Cons.prems(3) by (simp add: on_mem_def free_queued)
  moreover have "mem_inv ?s ext (q @ W)" using mem_inv_free [of s ext p "q @ W"] Cons.prems(1) by simp
  moreover have "room ?s" by (simp add: room_def)
  ultimately show ?case using Cons.IH by blast
qed simp

lemma find_hard_ok:
  assumes i: "arp_inv s ext"
  shows "\<exists>k s'. find_entry (Some a) ETHARP_TRY_HARD s = Some (int k, s') \<and> arp_inv s' ext \<and> others (arp_mem s) (arp_mem s') (set (waiting (arp_table s))) \<and>
    same_link s s' \<and> arp_entry s a k s' \<and> (room s \<longrightarrow> room s')"
proof -
  note I = arp_invD [OF i]
  obtain r s' where f: "find_entry (Some a) ETHARP_TRY_HARD s = Some (r, s')" "arp_inv s' ext" "others (arp_mem s) (arp_mem s') (set (waiting (arp_table s)))"
    "same_link s s'" "if r < 0 then r = ERR_MEM \<and> s' = s else arp_entry s a (nat r) s'"
    using find_entry_ok [OF i] by blast
  have "0 \<le> r \<and> (room s \<longrightarrow> room s')"
  proof (cases "\<exists>j<ARP_TABLE_SIZE. arp_match (Some a) (arp_table s ! j)")
    case True
    then obtain j where j: "j < ARP_TABLE_SIZE" "arp_match (Some a) (arp_table s ! j)" by blast
    then show ?thesis using find_entry_found [OF I(1,3) j, of ETHARP_TRY_HARD] f(1) by (auto simp: room_def)
  next
    case False
    have fl: "\<not> ((\<forall>i<ARP_TABLE_SIZE. ae_state (arp_table s ! i) \<noteq> ETHARP_STATE_EMPTY) \<and> ETHARP_TRY_HARD AND ETHARP_TRY_HARD = 0 \<or> ETHARP_TRY_HARD AND ETHARP_FIND_ONLY \<noteq> 0)"
      by (simp add: ETHARP_TRY_HARD_def ETHARP_FIND_ONLY_def)
    obtain k where c: "arp_choice (arp_table s) k" and n: "find_entry (Some a) ETHARP_TRY_HARD s =
        map_option (\<lambda>s'. (int k, (set_entry k (fresh_entry a) s')\<lparr>etharp_cached_entry := k\<rparr>)) (free_etharp_q (ae_q (arp_table s ! k)) s)"
      using find_entry_new [OF I(1,3) _ fl, of a] False by blast
    have "mem_inv s ext (ae_q (arp_table s ! k) @ rest (arp_table s) k)"
      using c I(2,4) mem_inv_split [of k s ext] by (simp add: arp_choice_def)
    then have "room s \<longrightarrow> room s1" if "free_etharp_q (ae_q (arp_table s ! k)) s = Some s1" for s1 using that free_etharp_q_room by blast
    then show ?thesis using f(1) n by (cases "free_etharp_q (ae_q (arp_table s ! k)) s") (auto simp: room_def)
  qed
  then have "0 \<le> r" and rm: "room s \<longrightarrow> room s'" by blast+
  then obtain k where "r = int k" using nonneg_int_cases by blast
  then show ?thesis using f rm by (intro exI [of _ k] exI [of _ s']) simp
qed

lemma arp_entry_queue:
  assumes e: "arp_entry s a k s'" and i: "arp_inv s ext" "arp_inv s' ext"
  shows "ae_q (arp_table s' ! k) = arp_queue (arp_table s) a" "k < ARP_TABLE_SIZE"
proof -
  have k: "k < ARP_TABLE_SIZE" "\<forall>j<ARP_TABLE_SIZE. j \<noteq> k \<longrightarrow> \<not> arp_match (Some a) (arp_table s' ! j)" using e by (simp_all add: arp_entry_def)
  show "k < ARP_TABLE_SIZE" by (rule k)
  show "ae_q (arp_table s' ! k) = arp_queue (arp_table s) a"
  proof (cases "arp_match (Some a) (arp_table s ! k)")
    case True
    then have "arp_table s' = arp_table s" using e by (simp add: arp_entry_def)
    then show ?thesis using arp_queue_match [OF arp_invD(1) [OF i(1)] k(1)] k(2) True by simp
  next
    case False
    then have "ae_state (arp_table s' ! k) = ETHARP_STATE_EMPTY" "\<forall>j<ARP_TABLE_SIZE. \<not> arp_match (Some a) (arp_table s ! j)"
      using e unfolding arp_entry_def if_not_P [OF False] by blast+
    then show ?thesis using arp_invD(6) [OF i(2) k(1)] arp_queue_match [OF arp_invD(1) [OF i(1)] k(1)] k(1) by (simp add: entry_ok_def)
  qed
qed

lemma sent_packet:
  assumes i: "arp_inv s ext" and q: "packet_ok (arp_mem s) q as" and d: "set (q # as) \<inter> set (waiting (arp_table s)) = {}"
    and m: "mac_ok netif mac"
  shows "\<exists>s'. etharp_send_ip netif q (nif_hwaddr netif) mac s = Some (link_result s, s') \<and> arp_inv s' ext \<and> others (arp_mem s) (arp_mem s') {q} \<and>
    packet_ok (arp_mem s') q as \<and> arp_table s' = arp_table s \<and> link_err s' = tl (link_err s) \<and>
    link_out s' = link_out s @ [ip_frame mac (nif_hwaddr netif) (content (arp_mem s) (q # as))]"
proof -
  note I = arp_invD [OF i]
  have sd: "sendable (arp_mem s) q as" and lo: "len_inv (arp_mem s)" using q I(5) by (simp_all add: packet_ok_def packet_inv_def)
  have hw: "unat (nif_hwaddr_len netif) = 6" "length (nif_hwaddr netif) = 6" "length mac = 6" using m by (simp_all add: mac_ok_def ETHARP_HWADDR_LEN_def)
  let ?f = "ip_frame mac (nif_hwaddr netif) (content (arp_mem s) (q # as))"
  obtain \<sigma>' where s: "etharp_send_ip netif q (nif_hwaddr netif) mac s = Some (link_result s, sent s \<sigma>' ?f)" "wrote (arp_mem s) \<sigma>' {q}"
    using etharp_send_ip_ok [OF sd lo hw] by blast
  have "arp_inv (sent s \<sigma>' ?f) ext"
    by (rule arp_inv_mem [OF i, of \<sigma>']) (use I(5) s(2) wrote_inv [OF s(2)] in \<open>simp_all add: wrote_def\<close>)
  moreover have "packet_ok \<sigma>' q as"
    using q s(2) unfolding packet_ok_def sendable_def nonempty_def
    by (simp add: wrote_chain [OF s(2)] wrote_owns [OF s(2)] wrote_readable [OF s(2)] wrote_plain [OF s(2)] wrote_plen [OF s(2)] del: chain.simps) (simp add: wrote_def)
  ultimately show ?thesis using s(1) wrote_others [OF s(2)] by (intro exI [of _ "sent s \<sigma>' ?f"]) simp
qed

definition arp_request :: "netif \<Rightarrow> u32_t \<Rightarrow> byte list" where
  "arp_request netif a = arp_packet (nif_hwaddr netif) ethbroadcast (nif_hwaddr netif) (nif_ip_addr netif) ethzero a ARP_REQUEST"

lemma etharp_request_ok:
  assumes i: "arp_inv s ext" and m: "mac_ok netif mac"
  shows "\<exists>r s'. etharp_request netif a s = Some (r, s') \<and> arp_inv s' ext \<and> others (arp_mem s) (arp_mem s') (- dom (pbs (arp_mem s))) \<and>
    arp_table s' = arp_table s \<and> pbs (arp_mem s') = pbs (arp_mem s) \<and> memp_tab (arp_mem s') = memp_tab (arp_mem s) \<and> arp_free s' = arp_free s \<and>
    (if memp_tab (arp_mem s) MEM_HEAP = [] then r = ERR_MEM \<and> s' = s
     else r = link_result s \<and> link_err s' = tl (link_err s) \<and> link_out s' = link_out s @ [arp_request netif a])"
proof -
  note I = arp_invD [OF i]
  have hw: "unat (nif_hwaddr_len netif) = 6" "length (nif_hwaddr netif) = 6" "length ethbroadcast = 6" "length (nif_hwaddr netif) = 6" "length ethzero = 6"
    using m by (simp_all add: mac_ok_def ETHARP_HWADDR_LEN_def ethbroadcast_def ethzero_def)
  obtain \<sigma>' where s: "etharp_request netif a s = Some (if memp_tab (arp_mem s) MEM_HEAP = [] then (ERR_MEM, s) else (link_result s, sent s \<sigma>' (arp_request netif a)))"
    "packet_inv \<sigma>' (with_q ext (waiting (arp_table s)))" "others (arp_mem s) \<sigma>' (- dom (pbs (arp_mem s)))" "pbs \<sigma>' = pbs (arp_mem s)" "memp_tab \<sigma>' = memp_tab (arp_mem s)"
    using etharp_raw_ok [OF I(5) hw] unfolding etharp_request_def arp_request_def by blast
  have "arp_inv (sent s \<sigma>' (arp_request netif a)) ext" by (rule arp_inv_mem [OF i, of \<sigma>']) (use s in simp_all)
  then show ?thesis using s i by (cases "memp_tab (arp_mem s) MEM_HEAP = []") simp_all
qed

lemma dom_others: "others \<sigma> \<sigma>' A \<Longrightarrow> - dom (pbs \<sigma>') \<subseteq> A \<union> - dom (pbs \<sigma>)"
  unfolding others_def by auto

definition arp_resolved :: "etharp_entry list \<Rightarrow> u32_t \<Rightarrow> eth_addr \<Rightarrow> bool" where
  "arp_resolved tab a mac \<longleftrightarrow> (\<exists>e\<in>set tab. is_stable e \<and> ae_ipaddr e = a \<and> ae_ethaddr e = mac)"

text \<open>The packet \<open>q\<close> waits, or it is dropped as memory is short.\<close>

definition packet_waits :: "netif \<Rightarrow> u32_t \<Rightarrow> byte list \<Rightarrow> arp \<Rightarrow> int \<Rightarrow> arp \<Rightarrow> bool" where
  "packet_waits netif a d s r s' \<longleftrightarrow> r = 0 \<and> link_out s' = link_out s @ [arp_request netif a] \<and>
     (\<exists>p. arp_queue (arp_table s') a = arp_queue (arp_table s) a @ [p] \<and> drop SIZEOF_ETH_HDR (content (arp_mem s') [p]) = d)"

definition packet_lost :: "netif \<Rightarrow> u32_t \<Rightarrow> arp \<Rightarrow> int \<Rightarrow> arp \<Rightarrow> bool" where
  "packet_lost netif a s r s' \<longleftrightarrow> arp_queue (arp_table s') a = arp_queue (arp_table s) a \<and> \<not> room s \<and>
     (r = ERR_MEM \<and> link_out s' = link_out s \<or> r = link_result s \<and> link_out s' = link_out s @ [arp_request netif a])"

definition eth_ip :: "eth_addr \<Rightarrow> eth_addr \<Rightarrow> byte list \<Rightarrow> byte list" where
  "eth_ip dst src d = dst @ src @ bytes16 (htons ETHTYPE_IP) @ d"

lemma ip_frame_eth: "ip_frame dst src c = eth_ip dst src (drop SIZEOF_ETH_HDR c)"
  by (simp add: ip_frame_def eth_ip_def)

text \<open>What becomes of a packet with the payload \<open>d\<close> that is to go to \<open>a\<close>.\<close>

definition query_result :: "netif \<Rightarrow> u32_t \<Rightarrow> byte list \<Rightarrow> arp \<Rightarrow> int \<Rightarrow> arp \<Rightarrow> bool" where
  "query_result netif a d s r s' \<longleftrightarrow>
     (if \<not> unicast netif a then r = ERR_ARG \<and> arp_table s' = arp_table s \<and> link_out s' = link_out s
      else if \<exists>mac. arp_resolved (arp_table s) a mac
      then \<exists>mac. arp_resolved (arp_table s) a mac \<and> r = link_result s \<and> arp_table s' = arp_table s \<and>
        link_out s' = link_out s @ [eth_ip mac (nif_hwaddr netif) d]
      else packet_waits netif a d s r s' \<or> packet_lost netif a s r s')"

lemma arp_entry_pending:
  assumes e: "arp_entry s a k s1" and i: "arp_inv s ext" "arp_inv s1 ext" and n: "ae_state (arp_table s1 ! k) \<noteq> ETHARP_STATE_STABLE"
  defines "s2 \<equiv> (if ae_state (arp_table s1 ! k) = ETHARP_STATE_EMPTY then set_entry k (\<lambda>e. e\<lparr>ae_state := ETHARP_STATE_PENDING\<rparr>) s1 else s1)"
  shows "arp_inv s2 ext" "ae_state (arp_table s2 ! k) = ETHARP_STATE_PENDING" "ae_ipaddr (arp_table s2 ! k) = a" "ae_q (arp_table s2 ! k) = arp_queue (arp_table s) a"
    "arp_mem s2 = arp_mem s1" "link_out s2 = link_out s1" "link_err s2 = link_err s1" "arp_free s2 = arp_free s1"
    "\<And>j. j < ARP_TABLE_SIZE \<Longrightarrow> j \<noteq> k \<Longrightarrow> \<not> arp_match (Some a) (arp_table s2 ! j)"
proof -
  have k: "k < ARP_TABLE_SIZE" "ae_ipaddr (arp_table s1 ! k) = a" "\<And>j. j < ARP_TABLE_SIZE \<Longrightarrow> j \<noteq> k \<Longrightarrow> \<not> arp_match (Some a) (arp_table s1 ! j)"
    using e by (simp_all add: arp_entry_def)
  note I = arp_invD [OF i(2)]
  show "ae_state (arp_table s2 ! k) = ETHARP_STATE_PENDING" using n k(1) I(2) by (cases "ae_state (arp_table s1 ! k)") (simp_all add: s2_def)
  show "ae_ipaddr (arp_table s2 ! k) = a" using k I(2) by (simp add: s2_def)
  show "ae_q (arp_table s2 ! k) = arp_queue (arp_table s) a" using arp_entry_queue [OF e i] I(2) by (simp add: s2_def)
  show "arp_mem s2 = arp_mem s1" "link_out s2 = link_out s1" "link_err s2 = link_err s1" "arp_free s2 = arp_free s1" by (simp_all add: s2_def)
  show "\<not> arp_match (Some a) (arp_table s2 ! j)" if "j < ARP_TABLE_SIZE" "j \<noteq> k" for j using k(3) [OF that] that by (simp add: s2_def)
  show "arp_inv s2 ext"
  proof (cases "ae_state (arp_table s1 ! k) = ETHARP_STATE_EMPTY")
    case True
    let ?e = "(arp_table s1 ! k)\<lparr>ae_state := ETHARP_STATE_PENDING\<rparr>"
    have c: "ae_ctime (arp_table s1 ! k) = 0"
    proof (cases "arp_match (Some a) (arp_table s ! k)")
      case True
      then have "arp_table s1 = arp_table s" using e by (simp add: arp_entry_def)
      then show ?thesis using True \<open>ae_state (arp_table s1 ! k) = ETHARP_STATE_EMPTY\<close> by (simp add: arp_match_def)
    next
      case False
      then have "arp_table s1 = (arp_table s)[k := fresh_entry a (arp_table s ! k)]" using e by (simp add: arp_entry_def)
      then show ?thesis using k(1) arp_invD(2) [OF i(1)] by (simp add: fresh_entry_def)
    qed
    have tab: "arp_table s2 = (arp_table s1)[k := ?e]" using True by (simp add: s2_def)
    have "tab_inv ((arp_table s1)[k := ?e])"
      by (rule tab_inv_set [OF I(1)]) (use k c I(6) [OF k(1)] True in \<open>simp_all add: entry_ok_def ARP_MAXPENDING_def\<close>)
    moreover have "waiting ((arp_table s1)[k := ?e]) = waiting (arp_table s1)"
    proof -
      have "map ae_q ((arp_table s1)[k := ?e]) = map ae_q (arp_table s1)" by (simp add: map_update list_update_same_conv k I(2))
      then show ?thesis unfolding waiting_def by simp
    qed
    ultimately show ?thesis using i(2) True by (simp add: arp_inv_def s2_def mem_inv_def)
  qed (use i(2) in \<open>simp add: s2_def\<close>)
qed

lemma etharp_query_ok:
  assumes i: "arp_inv s ext" and q: "packet_ok (arp_mem s) q as" and d: "set (q # as) \<inter> set (waiting (arp_table s)) = {}"
    and m: "mac_ok netif (nif_hwaddr netif)"
  shows "\<exists>r s'. etharp_query netif a (Some q) s = Some (r, s') \<and> arp_inv s' ext \<and> others (arp_mem s) (arp_mem s') (insert q (mine s)) \<and>
    packet_ok (arp_mem s') q as \<and>
    query_result netif a (drop SIZEOF_ETH_HDR (content (arp_mem s) (q # as))) s r s'"
proof (cases "unicast netif a")
  case False
  then show ?thesis using i q by (auto simp: etharp_query_def unicast_def query_result_def)
next
  case U: True
  then have u: "\<not> (ip_addr_isbroadcast a (netif_addr.truncate netif) \<or> ip_addr_ismulticast a \<or> a = 0)" by (auto simp: unicast_def)
  obtain k s1 where f: "find_entry (Some a) ETHARP_TRY_HARD s = Some (int k, s1)" "arp_inv s1 ext" "others (arp_mem s) (arp_mem s1) (set (waiting (arp_table s)))"
    "same_link s s1" "arp_entry s a k s1" "room s \<longrightarrow> room s1"
    using find_hard_ok [OF i] by blast
  note e = arp_entry_queue [OF f(5) i f(2)]
  note p1 = packet_ok_others [OF q f(3) d]
  have qd: "set (q # as) \<subseteq> dom (pbs (arp_mem s1))" by (rule chain_dom [OF packet_chain [OF p1(1)]])
  show ?thesis
  proof (cases "ae_state (arp_table s1 ! k) = ETHARP_STATE_STABLE")
    case True
    have mk: "arp_match (Some a) (arp_table s ! k)"
    proof (rule ccontr)
      assume "\<not> ?thesis"
      then show False using f(5) True by (simp add: arp_entry_def)
    qed
    then have s1: "s1 = s\<lparr>etharp_cached_entry := k\<rparr>" using f(5) by (simp add: arp_entry_def)
    let ?mac = "ae_ethaddr (arp_table s ! k)"
    have st: "is_stable (arp_table s ! k)" using True s1 by (simp add: is_stable_def)
    have kl: "k < length (arp_table s)" using e(2) arp_invD(2) [OF i] by simp
    have r: "arp_resolved (arp_table s) a ?mac" using st mk kl nth_mem [OF kl] by (auto simp: arp_resolved_def arp_match_def)
    have mm: "mac_ok netif ?mac" using arp_invD(6) [OF i e(2)] m st by (simp add: entry_ok_def is_stable_def mac_ok_def)
    have d1: "set (q # as) \<inter> set (waiting (arp_table s1)) = {}" using d s1 by simp
    obtain s' where s': "etharp_send_ip netif q (nif_hwaddr netif) ?mac s1 = Some (link_result s1, s')" "arp_inv s' ext" "others (arp_mem s1) (arp_mem s') {q}"
      "packet_ok (arp_mem s') q as" "arp_table s' = arp_table s1" "link_out s' = link_out s1 @ [ip_frame ?mac (nif_hwaddr netif) (content (arp_mem s1) (q # as))]"
      using sent_packet [OF f(2) p1(1) d1 mm] by blast
    have "etharp_query netif a (Some q) s = Some (link_result s, s')"
      using f(1) u True s'(1) s1 by (simp add: etharp_query_def link_result_def)
    moreover have "others (arp_mem s) (arp_mem s') (insert q (mine s))" using others_mono [OF s'(3)] s1 by (simp add: mine_def)
    ultimately show ?thesis using s'(2,4,5,6) s1 U r by (auto simp: query_result_def ip_frame_eth)
  next
    case False
    note P = arp_entry_pending [OF f(5) i f(2) False]
    define s2 where "s2 = (if ae_state (arp_table s1 ! k) = ETHARP_STATE_EMPTY then set_entry k (\<lambda>e. e\<lparr>ae_state := ETHARP_STATE_PENDING\<rparr>) s1 else s1)"
    note P = P [folded s2_def]
    have nr: "\<not> (\<exists>mac. arp_resolved (arp_table s) a mac)"
    proof (rule notI, elim exE)
      fix mac assume "arp_resolved (arp_table s) a mac"
      then obtain j where j: "j < ARP_TABLE_SIZE" "is_stable (arp_table s ! j)" "ae_ipaddr (arp_table s ! j) = a"
        using arp_invD(2) [OF i] by (auto simp: arp_resolved_def in_set_conv_nth)
      then have mj: "arp_match (Some a) (arp_table s ! j)" by (simp add: arp_match_def is_stable_def)
      show False
      proof (cases "arp_match (Some a) (arp_table s ! k)")
        case True
        then have "arp_table s1 = arp_table s" "j = k" using f(5) mj j(1) by (auto simp: arp_entry_def)
        then show ?thesis using False j(2) by (simp add: is_stable_def)
      next
        case False
        then show ?thesis using f(5) mj j(1) by (auto simp: arp_entry_def)
      qed
    qed
    obtain r3 s3 where s3: "etharp_request netif a s2 = Some (r3, s3)" "arp_inv s3 ext" "others (arp_mem s2) (arp_mem s3) (- dom (pbs (arp_mem s2)))"
      "arp_table s3 = arp_table s2" "pbs (arp_mem s3) = pbs (arp_mem s2)"
      "if memp_tab (arp_mem s2) MEM_HEAP = [] then r3 = ERR_MEM \<and> s3 = s2
       else r3 = link_result s2 \<and> link_err s3 = tl (link_err s2) \<and> link_out s3 = link_out s2 @ [arp_request netif a]"
      "memp_tab (arp_mem s3) = memp_tab (arp_mem s2)" "arp_free s3 = arp_free s2"
      using etharp_request_ok [OF P(1) m] by blast
    have p2: "packet_ok (arp_mem s2) q as" using p1(1) P(5) by simp
    have qd2: "set (q # as) \<inter> - dom (pbs (arp_mem s2)) = {}" using qd P(5) by auto
    note p3 = packet_ok_others [OF p2 s3(3) qd2]
    have pe: "ae_state (arp_table s3 ! k) = ETHARP_STATE_PENDING" using P(2) s3(4) by simp
    obtain r s' where s': "arp_enqueue k q r3 s3 = Some (r, s')" "arp_inv s' ext" "others (arp_mem s3) (arp_mem s') (- dom (pbs (arp_mem s3)))" "same_link s3 s'"
      "if memp_tab (arp_mem s3) MEM_HEAP \<noteq> [] \<and> arp_free s3 > 0
       then r = 0 \<and> (\<exists>p. arp_table s' = (arp_table s3)[k := (arp_table s3 ! k)\<lparr>ae_q := ae_q (arp_table s3 ! k) @ [p]\<rparr>] \<and>
         content (arp_mem s') [p] = content (arp_mem s3) (q # as))
       else r = r3 \<and> arp_table s' = arp_table s3"
      using arp_enqueue_ok [OF s3(2) e(2) pe p3(1), of r3] by blast
    have qd3: "set (q # as) \<inter> - dom (pbs (arp_mem s3)) = {}" using qd2 s3(5) by simp
    note p4 = packet_ok_others [OF p3(1) s'(3) qd3]
    have sub: "- dom (pbs (arp_mem s2)) \<subseteq> insert q (mine s)" using dom_others [OF f(3)] P(5) by (auto simp: mine_def)
    have "others (arp_mem s) (arp_mem s3) (insert q (mine s))"
      by (rule others_trans [OF f(3) s3(3) [unfolded P(5)]]) (use sub P(5) in \<open>auto simp: mine_def\<close>)
    then have oth: "others (arp_mem s) (arp_mem s') (insert q (mine s))"
      by (rule others_trans [OF _ s'(3)]) (use sub s3(5) in auto)
    have run: "etharp_query netif a (Some q) s = Some (r, s')"
      unfolding etharp_query_def if_not_P [OF u] using f(1) P(2) s3(1,4) s'(1) by (simp add: Let_def s2_def [symmetric])
    have cc: "content (arp_mem s3) (q # as) = content (arp_mem s) (q # as)" using p3(2) p1(2) P(5) by simp
    have lr: "link_result s2 = link_result s" "link_out s2 = link_out s" using P(6,7) f(4) by (simp_all add: same_link_def link_result_def)
    have al: "arp_queue (arp_table s') a = ae_q (arp_table s' ! k)"
      if "ae_ipaddr (arp_table s' ! k) = a" "ae_state (arp_table s' ! k) = ETHARP_STATE_PENDING" "\<And>j. j < ARP_TABLE_SIZE \<Longrightarrow> j \<noteq> k \<Longrightarrow> arp_table s' ! j = arp_table s2 ! j"
      using arp_queue_match [OF arp_invD(1) [OF s'(2)] e(2), of a] that P(9) by (simp add: arp_match_def)
    have kl: "k < length (arp_table s2)" using e(2) arp_invD(2) [OF P(1)] by simp
    have "packet_waits netif a (drop SIZEOF_ETH_HDR (content (arp_mem s) (q # as))) s r s' \<or> packet_lost netif a s r s'"
    proof (cases "memp_tab (arp_mem s3) MEM_HEAP \<noteq> [] \<and> arp_free s3 > 0")
      case True
      then obtain p where p: "r = 0" "arp_table s' = (arp_table s2)[k := (arp_table s2 ! k)\<lparr>ae_q := ae_q (arp_table s2 ! k) @ [p]\<rparr>]"
        "content (arp_mem s') [p] = content (arp_mem s3) (q # as)" using s'(5) s3(4) by auto
      have "arp_queue (arp_table s') a = arp_queue (arp_table s) a @ [p]" using al kl P(2-4) by (simp add: p(2))
      then have "packet_waits netif a (drop SIZEOF_ETH_HDR (content (arp_mem s) (q # as))) s r s'" unfolding packet_waits_def
        using p(1,3) cc True s3(6,7) s'(4) lr by (auto simp: same_link_def)
      then show ?thesis by blast
    next
      case False
      then have s5: "r = r3" "arp_table s' = arp_table s2"
        using s'(5) s3(4) unfolding if_not_P [OF False] by simp_all
      have "\<not> room s" using f(6) False s3(7,8) P(5,8) by (auto simp: room_def)
      moreover have "arp_queue (arp_table s') a = arp_queue (arp_table s) a" using al P(2-4) by (simp add: s5(2))
      ultimately have "packet_lost netif a s r s'" unfolding packet_lost_def
        using s5 s3(6) s'(4) lr by (simp add: same_link_def split: if_splits)
      then show ?thesis by blast
    qed
    then show ?thesis using run s'(2) oth p4(1) U nr by (intro exI [of _ r] exI [of _ s']) (simp add: query_result_def)
  qed
qed

subsection \<open>\<open>etharp_output\<close>\<close>

text \<open>A packet of the upper layer, which has memory of its own in front.\<close>

definition ip_packet :: "pmem \<Rightarrow> paddr \<Rightarrow> paddr list \<Rightarrow> bool" where
  "ip_packet \<sigma> q as \<longleftrightarrow> chain \<sigma> (Some q) (q # as) \<and> readable \<sigma> as \<and> plain \<sigma> as \<and> nonempty \<sigma> (q # as) \<and> preds \<sigma> q = {} \<and>
     tot_of \<sigma> (Some q) + SIZEOF_ETH_HDR < 65536 \<and> (\<exists>b. pbs \<sigma> q = Some b \<and> (pb_type b = PBUF_RAM \<or> pb_type b = PBUF_POOL))"

definition headroom :: "pmem \<Rightarrow> paddr \<Rightarrow> int" where
  "headroom \<sigma> q = snd (the (pb_payload (the (pbs \<sigma> q))))"

lemma link_header_ok:
  assumes i: "packet_inv \<sigma> ext" and q: "ip_packet \<sigma> q as"
  shows "if headroom \<sigma> q < int SIZEOF_ETH_HDR then pbuf_header (Some q) (int SIZEOF_ETH_HDR) \<sigma> = Some (1, \<sigma>)
    else \<exists>\<sigma>'. pbuf_header (Some q) (int SIZEOF_ETH_HDR) \<sigma> = Some (0, \<sigma>') \<and> packet_inv \<sigma>' ext \<and> others \<sigma> \<sigma>' {q} \<and> packet_ok \<sigma>' q as \<and> memp_tab \<sigma>' = memp_tab \<sigma> \<and>
      drop SIZEOF_ETH_HDR (content \<sigma>' (q # as)) = content \<sigma> (q # as)"
proof -
  obtain b where b: "pbs \<sigma> q = Some b" "pb_type b = PBUF_RAM \<or> pb_type b = PBUF_POOL" using q by (auto simp: ip_packet_def)
  have inv: "data_inv \<sigma>" "len_inv \<sigma>" using i by (simp_all add: packet_inv_def)
  obtain off where off: "pb_payload b = Some (Own q, off)" "0 \<le> off" "nat off + unat (pb_len b) \<le> length (bytes_of \<sigma> (Own q))"
    using inv(1) b by (auto simp: data_inv_def data_ok_def)
  have hr: "headroom \<sigma> q = off" by (simp add: headroom_def b(1) off(1))
  have "tot_of \<sigma> (Some q) + SIZEOF_ETH_HDR < 65536" using q unfolding ip_packet_def by blast
  then have "unat (pb_tot_len b) + 14 < 65536" using b(1) by (simp add: SIZEOF_ETH_HDR_def)
  moreover have "unat (pb_tot_len b) = unat (pb_len b) + tot_of \<sigma> (pb_next b)" using inv(2) b(1) unfolding len_inv_def by blast
  ultimately have tot: "uint (pb_len b) \<le> uint (pb_tot_len b)" "uint (pb_tot_len b) + 14 < 65536" unfolding uint_nat by linarith+
  show ?thesis
  proof (cases "off < 14")
    case True
    then have "pbuf_header (Some q) (int SIZEOF_ETH_HDR) \<sigma> = Some (1, \<sigma>)"
      using b off(1) by (auto simp: pbuf_header_def guard_def SIZEOF_ETH_HDR_def)
    then show ?thesis using True by (simp add: hr SIZEOF_ETH_HDR_def)
  next
    case False
    define b' where "b' = b\<lparr>pb_payload := Some (Own q, off - 14), pb_len := pb_len b + word_of_int 14, pb_tot_len := pb_tot_len b + word_of_int 14\<rparr>"
    let ?s = "put_pb q b' \<sigma>"
    have run: "pbuf_header (Some q) 14 \<sigma> = Some (0, ?s)"
      unfolding pbuf_header_def using False b(2) by (simp add: b(1) off(1) guard_def b'_def)
    have inc: "- uint (pb_len b) \<le> 14" using uint_ge_0 [of "pb_len b"] by linarith
    have pre: "preds \<sigma> q = {}" using q unfolding ip_packet_def by blast
    have h: "packet_inv ?s ext" "drop 14 (pdata ?s q) = pdata \<sigma> q"
      using pbuf_header_ok [OF i b pre inc tot(2)] run by auto
    have c: "chain \<sigma> (Some q) (q # as)" using q unfolding ip_packet_def by blast
    then have qn: "q \<notin> set as" using chain_distinct by fastforce
    have oth: "others \<sigma> ?s {q}" by (auto simp: others_def)
    have ap: "apart \<sigma> as {q}" by (rule plain_apart) (use q qn in \<open>auto simp: ip_packet_def\<close>)
    have pa: "pdata ?s a = pdata \<sigma> a" if "a \<in> set as" for a
      by (rule others_pdata [OF oth]) (use that qn ap in \<open>auto simp: apart_def\<close>)
    have l': "unat (pb_len b') = unat (pb_len b) + 14"
    proof -
      have "uint (pb_len b) + 14 < 65536" using tot by linarith
      then have "unat (pb_len b) + 14 < 65536" unfolding uint_nat by linarith
      then show ?thesis by (simp add: b'_def unat_word_ariths)
    qed
    have "chain ?s (Some q) (q # as)"
    proof -
      have "chain ?s (pb_next b) as = chain \<sigma> (pb_next b) as" by (rule chain_cong) (use qn in auto)
      then show ?thesis using c b(1) by (simp add: b'_def)
    qed
    moreover have "owns ?s [q]" using off(2,3) False l' by (auto simp: owns_def b'_def nat_diff_distrib)
    moreover have "readable ?s as" using readable_others [OF oth _ ap] q qn by (simp add: ip_packet_def)
    moreover have "plain ?s as" using q qn by (auto simp: ip_packet_def plain_def)
    moreover have "14 \<le> plen ?s q" using l' by (simp add: plen_def)
    moreover have "nonempty ?s (q # as)" using q qn l' by (auto simp: ip_packet_def nonempty_def plen_def)
    moreover have "pb_type b' = pb_type b" by (simp add: b'_def)
    ultimately have ok: "packet_ok ?s q as" using b(2) by (simp add: packet_ok_def sendable_def SIZEOF_ETH_HDR_def)
    have "content ?s as = content \<sigma> as" using pa by (simp add: content_def cong: map_cong)
    moreover have "14 \<le> length (pdata ?s q)" using length_pdata [of ?s q b'] \<open>owns ?s [q]\<close> owns_readable [of ?s "[q]"] l' by (simp add: readable_def)
    ultimately have "drop 14 (content ?s (q # as)) = content \<sigma> (q # as)" using h(2) by simp
    then show ?thesis using run h(1) oth ok False by (auto simp: hr SIZEOF_ETH_HDR_def)
  qed
qed

definition multicast_mac :: "u32_t \<Rightarrow> eth_addr" where
  "multicast_mac a = [0x01, 0x00, 0x5e, ucast (ip4_addr2 a AND 0x7f), ucast (ip4_addr3 a), ucast (ip4_addr4 a)]"

definition output_result :: "netif \<Rightarrow> u32_t \<Rightarrow> byte list \<Rightarrow> arp \<Rightarrow> int \<Rightarrow> arp \<Rightarrow> bool" where
  "output_result netif a d s r s' \<longleftrightarrow>
     (let frame = (\<lambda>mac. r = link_result s \<and> arp_table s' = arp_table s \<and> link_out s' = link_out s @ [eth_ip mac (nif_hwaddr netif) d]);
          local = ip_addr_netcmp a (nif_ip_addr netif) (nif_netmask netif) in
      if ip_addr_isbroadcast a (netif_addr.truncate netif) then frame ethbroadcast
      else if ip_addr_ismulticast a then frame (multicast_mac a)
      else if \<not> local \<and> nif_gw netif = 0 then r = ERR_RTE \<and> arp_table s' = arp_table s \<and> link_out s' = link_out s
      else query_result netif (if local then a else nif_gw netif) d s r s')"

lemma query_result_cong: "arp_table s1 = arp_table s \<Longrightarrow> link_out s1 = link_out s \<Longrightarrow> link_err s1 = link_err s \<Longrightarrow> room s1 = room s \<Longrightarrow>
    query_result netif a d s1 r s' = query_result netif a d s r s'"
  unfolding query_result_def packet_waits_def packet_lost_def link_result_def by (simp only:)

lemma etharp_output_ok:
  assumes i: "arp_inv s ext" and q: "ip_packet (arp_mem s) q as" "0 < ext q" and m: "mac_ok netif (nif_hwaddr netif)"
  shows "\<exists>r s'. etharp_output netif q a s = Some (r, s') \<and> arp_inv s' ext \<and> others (arp_mem s) (arp_mem s') (insert q (mine s)) \<and>
    (if headroom (arp_mem s) q < int SIZEOF_ETH_HDR then r = ERR_BUF \<and> s' = s
     else output_result netif a (content (arp_mem s) (q # as)) s r s')"
proof (cases "headroom (arp_mem s) q < int SIZEOF_ETH_HDR")
  case True
  then have "etharp_output netif q a s = Some (ERR_BUF, s)"
    using link_header_ok [OF arp_invD(5) [OF i] q(1)] by (simp add: etharp_output_def on_mem_def)
  then show ?thesis using i True by simp
next
  case False
  note I = arp_invD [OF i]
  let ?W = "set (waiting (arp_table s))"
  obtain \<sigma>' where h: "pbuf_header (Some q) (int SIZEOF_ETH_HDR) (arp_mem s) = Some (0, \<sigma>')" "packet_inv \<sigma>' (with_q ext (waiting (arp_table s)))"
    "others (arp_mem s) \<sigma>' {q}" "packet_ok \<sigma>' q as" "drop SIZEOF_ETH_HDR (content \<sigma>' (q # as)) = content (arp_mem s) (q # as)"
    "memp_tab \<sigma>' = memp_tab (arp_mem s)"
    using link_header_ok [OF I(5) q(1)] False by auto
  let ?s = "s\<lparr>arp_mem := \<sigma>'\<rparr>" and ?d = "content (arp_mem s) (q # as)" and ?hw = "nif_hwaddr netif"
  have qok: "\<forall>w\<in>?W. queued_ok (arp_mem s) w" using I(4) by (simp add: mem_inv_def)
  have ch: "chain (arp_mem s) (Some q) (q # as)" using q(1) unfolding ip_packet_def by blast
  have d: "set (q # as) \<inter> ?W = {}" by (rule chain_not_waiting [OF I(5) qok q(2) ch])
  have i1: "arp_inv ?s ext" by (rule arp_inv_mem [OF i h(2)]) (use h(3) d in \<open>auto simp: others_def\<close>)
  have p1: "packet_ok (arp_mem ?s) q as" and d1: "set (q # as) \<inter> set (waiting (arp_table ?s)) = {}" using h(4) d by simp_all
  have om: "others (arp_mem s) \<sigma> (insert q (mine s))" if "others (arp_mem ?s) \<sigma> (insert q (mine ?s))" for \<sigma>
    by (rule others_trans [OF h(3), of \<sigma> "insert q (mine ?s)"]) (use that dom_others [OF h(3)] in \<open>auto simp: mine_def\<close>)
  let ?B = "ip_addr_isbroadcast a (netif_addr.truncate netif)" and ?M = "ip_addr_ismulticast a"
    and ?L = "ip_addr_netcmp a (nif_ip_addr netif) (nif_netmask netif)"
  have send: ?thesis
    if mm: "mac_ok netif mac" and run: "etharp_output netif q a s = etharp_send_ip netif q ?hw mac ?s"
      and res: "\<And>r s'. r = link_result s \<Longrightarrow> arp_table s' = arp_table s \<Longrightarrow> link_out s' = link_out s @ [eth_ip mac ?hw ?d] \<Longrightarrow> output_result netif a ?d s r s'" for mac
  proof -
    obtain s' where s': "etharp_send_ip netif q ?hw mac ?s = Some (link_result ?s, s')" "arp_inv s' ext" "others (arp_mem ?s) (arp_mem s') {q}"
      "arp_table s' = arp_table ?s" "link_out s' = link_out ?s @ [ip_frame mac ?hw (content (arp_mem ?s) (q # as))]"
      using sent_packet [OF i1 p1 d1 mm] by blast
    have "others (arp_mem s) (arp_mem s') (insert q (mine s))" by (rule om) (rule others_mono [OF s'(3)], simp)
    moreover have "output_result netif a ?d s (link_result s) s'" by (rule res) (use s'(4,5) h(5) in \<open>simp_all add: ip_frame_eth\<close>)
    moreover have "link_result ?s = link_result s" by (simp add: link_result_def)
    ultimately show ?thesis using run s'(1,2) False by auto
  qed
  have query: ?thesis
    if run: "etharp_output netif q a s = etharp_query netif t (Some q) ?s"
      and res: "\<And>r s'. query_result netif t ?d s r s' \<Longrightarrow> output_result netif a ?d s r s'" for t
  proof -
    obtain r s' where s': "etharp_query netif t (Some q) ?s = Some (r, s')" "arp_inv s' ext" "others (arp_mem ?s) (arp_mem s') (insert q (mine ?s))"
      "query_result netif t (drop SIZEOF_ETH_HDR (content (arp_mem ?s) (q # as))) ?s r s'"
      using etharp_query_ok [OF i1 p1 d1 m] by blast
    have "query_result netif t ?d s r s'" using s'(4) h(5,6) query_result_cong [of ?s s] by (simp add: room_def)
    then show ?thesis using run s'(1,2) om [OF s'(3)] res False by auto
  qed
  have hw: "mac_ok netif ethbroadcast" "mac_ok netif (multicast_mac a)" using m by (simp_all add: mac_ok_def ethbroadcast_def multicast_mac_def ETHARP_HWADDR_LEN_def)
  have out: "etharp_output netif q a s = (if ?B then etharp_send_ip netif q ?hw ethbroadcast ?s
      else if ?M then etharp_send_ip netif q ?hw (multicast_mac a) ?s
      else if \<not> ?L then if nif_gw netif \<noteq> 0 then etharp_query netif (nif_gw netif) (Some q) ?s else Some (ERR_RTE, ?s)
      else etharp_query netif a (Some q) ?s)"
    using h(1) by (simp add: etharp_output_def on_mem_def multicast_mac_def)
  consider "?B" | "\<not> ?B" "?M" | "\<not> ?B" "\<not> ?M" "?L" | "\<not> ?B" "\<not> ?M" "\<not> ?L" "nif_gw netif \<noteq> 0" | "\<not> ?B" "\<not> ?M" "\<not> ?L" "nif_gw netif = 0" by blast
  then show ?thesis
  proof cases
    case 1
    then show ?thesis using out by (intro send [OF hw(1)]) (simp_all add: output_result_def)
  next
    case 2
    then show ?thesis using out by (intro send [OF hw(2)]) (simp_all add: output_result_def)
  next
    case 3
    then show ?thesis using out by (intro query [of a]) (simp_all add: output_result_def)
  next
    case 4
    then show ?thesis using out by (intro query [of "nif_gw netif"]) (simp_all add: output_result_def)
  next
    case 5
    then show ?thesis using out i1 False others_mono [OF h(3), of "insert q (mine s)"] by (intro exI [of _ ERR_RTE] exI [of _ ?s]) (simp add: output_result_def)
  qed
qed

end
