(* ===== verification/Etharp_Input.thy ===== *)
theory Etharp_Input
  imports Etharp_Output
begin

text \<open>
  Incoming frames: the fields of an ARP packet, the reply to a request, and \<open>etharp_arp_input\<close> and
  \<open>etharp_ip_input\<close> as a whole.
\<close>

subsection \<open>Reading a header\<close>

lemma get_bytes_ok:
  assumes "sendable (arp_mem s) p as" "k + n \<le> plen (arp_mem s) p"
  shows "get_bytes p k n s = Some (take n (drop k (pdata (arp_mem s) p)))"
proof -
  obtain b off where b: "pbs (arp_mem s) p = Some b" "pb_payload b = Some (Own p, off)" "0 \<le> off"
    "nat off + unat (pb_len b) \<le> length (bytes_of (arp_mem s) (Own p))"
    using assms(1) by (auto simp: sendable_def owns_def)
  have k: "k + n \<le> unat (pb_len b)" using assms(2) b(1) by (simp add: plen_def)
  have "take n (drop k (take (unat (pb_len b)) (drop (nat off) (bytes_of (arp_mem s) (Own p))))) = take n (drop (nat off + k) (bytes_of (arp_mem s) (Own p)))"
    using k by (simp add: drop_take min_absorb1 add.commute)
  moreover have "in_block (Some (Own p, off)) k n (arp_mem s)" using b(3,4) k by (simp add: in_block_def)
  ultimately show ?thesis using b(1,2) by (simp add: get_bytes_def load_def guard_def pdata_def)
qed

lemma segment:
  assumes "j < length segs" "k = sum_list (map length (take j segs))"
  shows "take (length (segs ! j)) (drop k (concat segs)) = segs ! j"
proof -
  have s: "segs = take j segs @ segs ! j # drop (Suc j) segs" by (rule id_take_nth_drop [OF assms(1)])
  have "length (concat (take j segs)) = k" using assms(2) by (simp add: length_concat)
  moreover have "concat segs = concat (take j segs) @ segs ! j @ concat (drop (Suc j) segs)" by (subst s) simp
  ultimately show ?thesis by simp
qed

lemma byte_bit: "8 \<le> n \<Longrightarrow> \<not> bit (b :: byte) n"
  using bit_imp_le_length [of b n] by auto

lemma bytes16_ld: "bytes16 (ld16 a b) = [a, b]"
  unfolding bytes16_def ld16_def by (simp, intro conjI; rule bit_word_eqI; auto simp: bit_simps byte_bit)

lemma bytes32_ld: "bytes32 (ld32 a b c d) = [a, b, c, d]"
  unfolding bytes32_def ld32_def by (simp, intro conjI; rule bit_word_eqI; auto simp: bit_simps byte_bit)

lemma ld32_bytes: "ld32 (ucast w) (ucast (drop_bit 8 w)) (ucast (drop_bit 16 w)) (ucast (drop_bit 24 w)) = (w :: u32_t)"
proof (rule bit_word_eqI)
  fix n assume n: "n < LENGTH(32)"
  consider "n < 8" | "8 \<le> n" "n < 16" | "16 \<le> n" "n < 24" | "24 \<le> n" by linarith
  then show "bit (ld32 (ucast w) (ucast (drop_bit 8 w)) (ucast (drop_bit 16 w)) (ucast (drop_bit 24 w))) n = bit w n"
    using n unfolding ld32_def by cases (auto simp: bit_simps)
qed

text \<open>The four fields that are tested, and the ones that are used.\<close>

definition arp_segs :: "eth_addr \<Rightarrow> eth_addr \<Rightarrow> eth_addr \<Rightarrow> u32_t \<Rightarrow> eth_addr \<Rightarrow> u32_t \<Rightarrow> u16_t \<Rightarrow> byte list list" where
  "arp_segs ethsrc ethdst hwsrc ipsrc hwdst ipdst opcode = [ethdst, ethsrc, bytes16 (htons ETHTYPE_ARP),
     bytes16 (htons HWTYPE_ETHERNET), bytes16 (htons ETHTYPE_IP), bytes16 (htons 0x0604), bytes16 (htons opcode),
     hwsrc, bytes32 ipsrc, hwdst, bytes32 ipdst]"

lemma arp_packet_segs: "arp_packet es ed hs ips hwd ipd opc @ r = concat (arp_segs es ed hs ips hwd ipd opc @ [r])"
  by (simp add: arp_packet_def arp_segs_def)

abbreviation mac6 :: "eth_addr \<Rightarrow> bool" where
  "mac6 a \<equiv> length a = 6"

lemma get_segment:
  assumes "sendable (arp_mem s) p as" "pdata (arp_mem s) p = concat segs" "j < length segs" "k = sum_list (map length (take j segs))"
    "x = segs ! j" "n = length x"
  shows "get_bytes p k n s = Some x"
proof -
  have "plen (arp_mem s) p = length (concat segs)"
    using length_pdata [of "arp_mem s" p] assms(1,2) owns_readable [of "arp_mem s" "[p]"] by (auto simp: sendable_def readable_def plen_def)
  moreover have "k + n \<le> length (concat segs)"
  proof -
    have "length (concat segs) = length (concat (take j segs)) + length (segs ! j) + length (concat (drop (Suc j) segs))"
      by (subst id_take_nth_drop [OF assms(3)]) simp
    then show ?thesis using assms(4-6) by (simp add: length_concat)
  qed
  ultimately have "get_bytes p k n s = Some (take n (drop k (concat segs)))" using get_bytes_ok [OF assms(1), of k n] assms(2) by simp
  then show ?thesis using segment [OF assms(3,4)] assms(5,6) by simp
qed

lemma arp_hdr_segs:
  assumes s: "sendable (arp_mem s) p as" and d: "pdata (arp_mem s) p = concat ([a0, a1, a2, a3, a4, a5, a6, a7, a8, a9, a10] @ [pad])"
    and l: "map length [a0, a1, a2, a3, a4, a5, a6, a7, a8, a9, a10] = arp_fields"
  shows "arp_hdr_ok p s = Some (a3 = bytes16 (htons HWTYPE_ETHERNET) \<and> a5 = bytes16 (htons 0x0604) \<and> a4 = bytes16 (htons ETHTYPE_IP) \<and> a2 = bytes16 (htons ETHTYPE_ARP))"
proof -
  have la: "length a0 = 6" "length a1 = 6" "length a2 = 2" "length a3 = 2" "length a4 = 2" "length a5 = 2" using l by simp_all
  have d': "pdata (arp_mem s) p = concat [a0, a1, a2, a3, a4, a5, a6, a7, a8, a9, a10, pad]" using d by simp
  note g = get_segment [OF s d']
  have two: "ld16 (a ! 0) (a ! Suc 0) = h \<longleftrightarrow> a = bytes16 h" if la: "length a = 2" for a h
  proof -
    obtain x y where "a = [x, y]" using la by (auto simp: numeral_2_eq_2 length_Suc_conv)
    then show ?thesis using bytes16_ld [of x y] ld16_bytes [of h] by (auto simp: bytes16_def)
  qed
  have six: "(push_bit 8 (of_nat ETHARP_HWADDR_LEN) OR 4 :: u16_t) = 0x0604" by (simp add: ETHARP_HWADDR_LEN_def)
  have "get_bytes p 14 2 s = Some a3" by (rule g [of 3]) (simp_all add: la)
  moreover have "get_bytes p 18 2 s = Some a5" by (rule g [of 5]) (simp_all add: la)
  moreover have "get_bytes p 16 2 s = Some a4" by (rule g [of 4]) (simp_all add: la)
  moreover have "get_bytes p 12 2 s = Some a2" by (rule g [of 2]) (simp_all add: la)
  ultimately show ?thesis unfolding arp_hdr_ok_def get16_def six by (simp add: two la)
qed

subsection \<open>The reply\<close>

lemma arp_reply_steps:
  assumes "unat (nif_hwaddr_len netif) = 6" "mac6 mac"
  shows "arp_reply netif mac p s = do {
     s \<leftarrow> put_all p [(20, bytes16 (htons ARP_REPLY))] s;
     sip \<leftarrow> get_bytes p 28 4 s;
     s \<leftarrow> put_all p [(38, sip), (28, bytes32 (nif_ip_addr netif))] s;
     shw \<leftarrow> get_bytes p 22 6 s;
     s \<leftarrow> put_all p [(32, shw), (0, shw), (22, mac), (6, mac)] s;
     (err, s) \<leftarrow> linkoutput p s;
     Some s }"
  using assms by (simp add: arp_reply_def guard_def ETHARP_HWADDR_LEN_def)

lemma arp_reply_ok:
  assumes s: "sendable (arp_mem s) p as" and inv: "len_inv (arp_mem s)" and hw: "unat (nif_hwaddr_len netif) = 6"
    and d: "pdata (arp_mem s) p = arp_packet es ed hs sip hwd dip opc @ pad"
    and l: "mac6 es" "mac6 ed" "mac6 hs" "mac6 hwd" "mac6 mac"
  shows "\<exists>\<sigma>'. arp_reply netif mac p s = Some (sent s \<sigma>' (arp_packet mac hs mac (nif_ip_addr netif) hs sip ARP_REPLY @ pad @ content (arp_mem s) as)) \<and>
    wrote (arp_mem s) \<sigma>' {p}"
proof -
  let ?\<sigma> = "arp_mem s" and ?rest = "content (arp_mem s) as"
  note segs = arp_packet_segs arp_segs_def
  note pc = patch_concat [of 6] patch_concat [of 7] patch_concat [of 8] patch_concat [of 9] patch_concat [of 10] patch_concat [of 0] patch_concat [of 1]
  have len: "plen ?\<sigma> p = length (arp_packet es ed hs sip hwd dip opc @ pad)"
    using length_pdata [of ?\<sigma> p] s d owns_readable [of ?\<sigma> "[p]"] by (auto simp: sendable_def readable_def plen_def)
  then have l42: "42 \<le> plen ?\<sigma> p" using l by (simp add: arp_packet_def)
  have c0: "content ?\<sigma> (p # as) = concat (arp_segs es ed hs sip hwd dip opc @ [pad @ ?rest])" using d by (simp add: segs)
  have d0: "pdata ?\<sigma> p = concat (arp_segs es ed hs sip hwd dip opc @ [pad])" using d by (simp add: arp_packet_segs)
  let ?k1 = "[(20, bytes16 (htons ARP_REPLY))]"
  obtain \<sigma>1 where 1: "put_all p ?k1 s = Some (s\<lparr>arp_mem := \<sigma>1\<rparr>)" "wrote ?\<sigma> \<sigma>1 {p}" "sendable \<sigma>1 p as"
    "content \<sigma>1 (p # as) = patch_all ?k1 (content ?\<sigma> (p # as))" "pdata \<sigma>1 p = patch_all ?k1 (pdata ?\<sigma> p)"
    using put_all_ok [OF s, of ?k1] l42 by auto
  have c1: "content \<sigma>1 (p # as) = concat (arp_segs es ed hs sip hwd dip ARP_REPLY @ [pad @ ?rest])"
    unfolding 1(4) c0 patch_all_def by (simp add: pc l arp_segs_def del: concat.simps)
  have d1: "pdata \<sigma>1 p = concat (arp_segs es ed hs sip hwd dip ARP_REPLY @ [pad])"
    unfolding 1(5) d0 patch_all_def by (simp add: pc l arp_segs_def del: concat.simps)
  have g1: "get_bytes p 28 4 (s\<lparr>arp_mem := \<sigma>1\<rparr>) = Some (bytes32 sip)"
    by (rule get_segment [of _ p as "arp_segs es ed hs sip hwd dip ARP_REPLY @ [pad]" 8]) (use 1(3) d1 l in \<open>simp_all add: arp_segs_def\<close>)
  let ?k2 = "[(38, bytes32 sip), (28, bytes32 (nif_ip_addr netif))]"
  have p1: "plen \<sigma>1 p = plen ?\<sigma> p" using wrote_plen [OF 1(2)] by simp
  obtain \<sigma>2 where 2: "put_all p ?k2 (s\<lparr>arp_mem := \<sigma>1\<rparr>) = Some (s\<lparr>arp_mem := \<sigma>2\<rparr>)" "wrote \<sigma>1 \<sigma>2 {p}" "sendable \<sigma>2 p as"
    "content \<sigma>2 (p # as) = patch_all ?k2 (content \<sigma>1 (p # as))" "pdata \<sigma>2 p = patch_all ?k2 (pdata \<sigma>1 p)"
    using put_all_ok [of "s\<lparr>arp_mem := \<sigma>1\<rparr>" p as ?k2] 1(3) l42 p1 by auto
  have c2: "content \<sigma>2 (p # as) = concat (arp_segs es ed hs (nif_ip_addr netif) hwd sip ARP_REPLY @ [pad @ ?rest])"
    unfolding 2(4) c1 patch_all_def by (simp add: pc l arp_segs_def del: concat.simps)
  have d2: "pdata \<sigma>2 p = concat (arp_segs es ed hs (nif_ip_addr netif) hwd sip ARP_REPLY @ [pad])"
    unfolding 2(5) d1 patch_all_def by (simp add: pc l arp_segs_def del: concat.simps)
  have g2: "get_bytes p 22 6 (s\<lparr>arp_mem := \<sigma>2\<rparr>) = Some hs"
    by (rule get_segment [of _ p as "arp_segs es ed hs (nif_ip_addr netif) hwd sip ARP_REPLY @ [pad]" 7]) (use 2(3) d2 l in \<open>simp_all add: arp_segs_def\<close>)
  let ?k3 = "[(32, hs), (0, hs), (22, mac), (6, mac)]"
  have p2: "plen \<sigma>2 p = plen ?\<sigma> p" using wrote_plen [OF 2(2)] p1 by simp
  obtain \<sigma>3 where 3: "put_all p ?k3 (s\<lparr>arp_mem := \<sigma>2\<rparr>) = Some (s\<lparr>arp_mem := \<sigma>3\<rparr>)" "wrote \<sigma>2 \<sigma>3 {p}" "sendable \<sigma>3 p as"
    "content \<sigma>3 (p # as) = patch_all ?k3 (content \<sigma>2 (p # as))"
    using put_all_ok [of "s\<lparr>arp_mem := \<sigma>2\<rparr>" p as ?k3] 2(3) l42 p2 l by auto
  have c3: "content \<sigma>3 (p # as) = concat (arp_segs mac hs mac (nif_ip_addr netif) hs sip ARP_REPLY @ [pad @ ?rest])"
    unfolding 3(4) c2 patch_all_def by (simp add: pc l arp_segs_def del: concat.simps)
  have w: "wrote ?\<sigma> \<sigma>3 {p}" using wrote_trans [OF wrote_trans [OF 1(2) 2(2)] 3(2)] by auto
  let ?f = "arp_packet mac hs mac (nif_ip_addr netif) hs sip ARP_REPLY @ pad @ ?rest"
  have cf: "content \<sigma>3 (p # as) = ?f" using c3 by (simp only: arp_packet_segs)
  have ch: "chain \<sigma>3 (Some p) (p # as)" using 3(3) unfolding sendable_def by blast
  have "linkoutput p (s\<lparr>arp_mem := \<sigma>3\<rparr>) = Some (link_result s, sent s \<sigma>3 ?f)"
    using linkoutput_ok [of "s\<lparr>arp_mem := \<sigma>3\<rparr>" p "p # as"] ch sendable_readable [OF 3(3)] inv wrote_len_inv [OF w] cf
    by (simp add: link_result_def sent_def)
  then have "arp_reply netif mac p s = Some (sent s \<sigma>3 ?f)"
    unfolding arp_reply_steps [OF hw l(5)] using 1(1) 2(1) 3(1) g1 g2 by (simp del: put_all.simps)
  then show ?thesis using w by blast
qed

subsection \<open>The handlers\<close>

lemma unref_other:
  assumes "x \<notin> set as"
  shows "unref \<sigma> as x = pbs \<sigma> x"
proof -
  have "x \<notin> set (freed \<sigma> as)" using assms set_takeWhileD unfolding freed_def by metis
  moreover have "\<not> (length (freed \<sigma> as) < length as \<and> x = as ! length (freed \<sigma> as))" using assms nth_mem by blast
  ultimately show ?thesis unfolding unref_def by (simp only: if_False)
qed

lemma free_frame:
  assumes i: "arp_inv s ext" and e: "0 < ext p" and c: "chain (arp_mem s) (Some p) (p # as)"
  shows "\<exists>s'. map_option snd (on_mem (pbuf_free (Some p)) s) = Some s' \<and> arp_inv s' (ext(p := ext p - 1)) \<and>
    others (arp_mem s) (arp_mem s') (set (p # as)) \<and> arp_table s' = arp_table s \<and> same_link s s'"
proof -
  note I = arp_invD [OF i]
  let ?W = "waiting (arp_table s)"
  have qok: "\<forall>w\<in>set ?W. queued_ok (arp_mem s) w" using I(4) by (simp add: mem_inv_def)
  have d: "set (p # as) \<inter> set ?W = {}" by (rule chain_not_waiting [OF I(5) qok e c])
  have e': "0 < with_q ext ?W p" using e by (simp add: with_q_def)
  obtain \<sigma>' where f: "pbuf_free (Some p) (arp_mem s) = Some (of_nat (length (freed (arp_mem s) (p # as))), \<sigma>')"
    "packet_inv \<sigma>' ((with_q ext ?W)(p := with_q ext ?W p - 1))" "pbs \<sigma>' = unref (arp_mem s) (p # as)" "bytes_of \<sigma>' = bytes_of (arp_mem s)"
    using packet_free_ok [OF I(5) e' c] by blast
  have un: "pbs \<sigma>' x = pbs (arp_mem s) x" if "x \<notin> set (p # as)" for x using unref_other [OF that] f(3) by simp
  have wq: "(with_q ext ?W)(p := with_q ext ?W p - 1) = with_q (ext(p := ext p - 1)) ?W" using d by (auto simp: with_q_def)
  have "mem_inv (s\<lparr>arp_mem := \<sigma>'\<rparr>) (ext(p := ext p - 1)) ?W"
  proof -
    have "queued_ok \<sigma>' w" if "w \<in> set ?W" for w
    proof -
      have "w \<notin> set (p # as)" using that d by blast
      then have "pbs \<sigma>' w = pbs (arp_mem s) w" by (rule un)
      then show ?thesis using qok that by (simp add: queued_ok_def)
    qed
    then show ?thesis using I(4) f(2) unfolding wq by (simp add: mem_inv_def)
  qed
  then have "arp_inv (s\<lparr>arp_mem := \<sigma>'\<rparr>) (ext(p := ext p - 1))" using i by (simp add: arp_inv_def)
  moreover have "others (arp_mem s) \<sigma>' (set (p # as))" using un f(4) by (simp add: others_def)
  ultimately show ?thesis using f(1) by (simp add: on_mem_def same_link_def)
qed

lemma arp_input_dropped:
  assumes i: "arp_inv s ext" and e: "0 < ext p" and q: "packet_ok (arp_mem s) p as"
    and bad: "plen (arp_mem s) p < SIZEOF_ETHARP_PACKET \<or> arp_hdr_ok p s = Some False"
  shows "\<exists>s'. etharp_arp_input netif mac p s = Some s' \<and> arp_inv s' (ext(p := ext p - 1)) \<and>
    others (arp_mem s) (arp_mem s') (set (p # as)) \<and> arp_table s' = arp_table s \<and> same_link s s'"
proof -
  obtain b where b: "pbs (arp_mem s) p = Some b" using q by (auto simp: packet_ok_def)
  have "etharp_arp_input netif mac p s = map_option snd (on_mem (pbuf_free (Some p)) s)"
    using b bad by (auto simp: etharp_arp_input_def plen_def)
  then show ?thesis using free_frame [OF i e packet_chain [OF q]] by simp
qed

definition arp_for_us :: "netif \<Rightarrow> u32_t \<Rightarrow> bool" where
  "arp_for_us netif dip \<longleftrightarrow> nif_ip_addr netif \<noteq> 0 \<and> dip = nif_ip_addr netif"

lemma arp_input_packet:
  assumes i: "arp_inv s ext" and e: "0 < ext p" and q: "packet_ok (arp_mem s) p as" and m: "mac_ok netif mac"
    and d: "pdata (arp_mem s) p = arp_packet es ed hs sip hwd dip opc @ pad" and l: "mac6 es" "mac6 ed" "mac6 hs" "mac6 hwd"
  shows "\<exists>r s1 s'. update_arp_entry netif sip hs (if arp_for_us netif dip then ETHARP_TRY_HARD else 0) s = Some (r, s1) \<and>
    etharp_arp_input netif mac p s = Some s' \<and> arp_inv s' (ext(p := ext p - 1)) \<and>
    others (arp_mem s) (arp_mem s') (set (waiting (arp_table s)) \<union> set (p # as)) \<and> arp_table s' = arp_table s1 \<and>
    link_out s' = link_out s1 @ (if opc = ARP_REQUEST \<and> arp_for_us netif dip
      then [arp_packet mac hs mac (nif_ip_addr netif) hs sip ARP_REPLY @ pad @ content (arp_mem s) as] else [])"
proof -
  note I = arp_invD [OF i]
  let ?W = "waiting (arp_table s)" and ?us = "arp_for_us netif dip" and ?cs = "content (arp_mem s) as"
  obtain b where b: "pbs (arp_mem s) p = Some b" using q by (auto simp: packet_ok_def)
  have sd: "sendable (arp_mem s) p as" using q by (simp add: packet_ok_def)
  have qok: "\<forall>w\<in>set ?W. queued_ok (arp_mem s) w" using I(4) by (simp add: mem_inv_def)
  have dj: "set (p # as) \<inter> set ?W = {}" by (rule chain_not_waiting [OF I(5) qok e packet_chain [OF q]])
  have lm: "mac6 mac" "unat (nif_hwaddr_len netif) = 6" using m by (simp_all add: mac_ok_def ETHARP_HWADDR_LEN_def)
  have len: "\<not> unat (pb_len b) < SIZEOF_ETHARP_PACKET"
  proof -
    have "unat (pb_len b) = length (arp_packet es ed hs sip hwd dip opc @ pad)"
      using length_pdata [OF b] sd b owns_readable [of "arp_mem s" "[p]"] d by (simp add: sendable_def readable_def)
    then show ?thesis using l by (simp add: arp_packet_def SIZEOF_ETHARP_PACKET_def SIZEOF_ETH_HDR_def SIZEOF_ETHARP_HDR_def)
  qed
  have ds: "pdata (arp_mem s) p = concat (arp_segs es ed hs sip hwd dip opc @ [pad])" using d by (simp add: arp_packet_segs)
  note g = get_segment [OF sd ds]
  have h: "arp_hdr_ok p s = Some True"
    using arp_hdr_segs [OF sd ds [unfolded arp_segs_def]] l by simp
  have g1: "get32 p 28 s = Some sip"
  proof -
    have "get_bytes p 28 4 s = Some (bytes32 sip)" by (rule g [of 8]) (use l in \<open>simp_all add: arp_segs_def\<close>)
    then show ?thesis using ld32_bytes [of sip] by (simp add: get32_def bytes32_def)
  qed
  have g2: "get32 p 38 s = Some dip"
  proof -
    have "get_bytes p 38 4 s = Some (bytes32 dip)" by (rule g [of 10]) (use l in \<open>simp_all add: arp_segs_def\<close>)
    then show ?thesis using ld32_bytes [of dip] by (simp add: get32_def bytes32_def)
  qed
  have g3: "get_bytes p 22 ETHARP_HWADDR_LEN s = Some hs" by (rule g [of 7]) (use l in \<open>simp_all add: arp_segs_def ETHARP_HWADDR_LEN_def\<close>)
  have mh: "mac_ok netif hs" using m l by (simp add: mac_ok_def ETHARP_HWADDR_LEN_def)
  obtain r s1 where u: "update_arp_entry netif sip hs (if ?us then ETHARP_TRY_HARD else 0) s = Some (r, s1)" "arp_inv s1 ext" "others (arp_mem s) (arp_mem s1) (set ?W)"
    using update_arp_entry_ok [OF i mh] by blast
  note q1 = packet_ok_others [OF q u(3) dj]
  have ap: "apart (arp_mem s) [a] (set ?W)" if "a \<in> set (p # as)" for a using sendable_apart [OF sd dj] that by (auto simp: apart_def)
  have pd: "pdata (arp_mem s1) a = pdata (arp_mem s) a" if "a \<in> set (p # as)" for a
    by (rule others_pdata [OF u(3)]) (use that dj ap in auto)
  have cs: "content (arp_mem s1) as = ?cs" using pd by (simp add: content_def cong: map_cong)
  have d1: "pdata (arp_mem s1) p = arp_packet es ed hs sip hwd dip opc @ pad" using pd d by simp
  have s1: "sendable (arp_mem s1) p as" using q1(1) by (simp add: packet_ok_def)
  have g4: "get16 p 20 s1 = Some (htons opc)"
  proof -
    have "get_bytes p 20 2 s1 = Some (bytes16 (htons opc))"
      by (rule get_segment [OF s1 d1 [unfolded arp_packet_segs], of 6]) (use l in \<open>simp_all add: arp_segs_def\<close>)
    then show ?thesis using ld16_bytes [of "htons opc"] by (simp add: get16_def bytes16_def)
  qed
  have li: "len_inv (arp_mem s1)" using arp_invD(5) [OF u(2)] by (simp add: packet_inv_def)
  let ?f = "arp_packet mac hs mac (nif_ip_addr netif) hs sip ARP_REPLY @ pad @ ?cs"
  let ?re = "opc = ARP_REQUEST \<and> ?us"
  obtain s2 where s2: "(if htons (htons opc) = ARP_REQUEST \<and> ?us then arp_reply netif mac p s1 else Some s1) = Some s2" "arp_inv s2 ext" "others (arp_mem s1) (arp_mem s2) {p}"
    "arp_table s2 = arp_table s1" "link_out s2 = link_out s1 @ (if ?re then [?f] else [])" "chain (arp_mem s2) (Some p) (p # as)"
  proof (cases ?re)
    case True
    obtain \<sigma>' where r: "arp_reply netif mac p s1 = Some (sent s1 \<sigma>' ?f)" "wrote (arp_mem s1) \<sigma>' {p}"
      using arp_reply_ok [OF s1 li lm(2) d1 l lm(1)] cs by auto
    have "arp_inv (sent s1 \<sigma>' ?f) ext"
      by (rule arp_inv_mem [OF u(2), of \<sigma>']) (use arp_invD(5) [OF u(2)] r(2) wrote_inv [OF r(2)] in \<open>simp_all add: wrote_def\<close>)
    moreover have "chain \<sigma>' (Some p) (p # as)" using packet_chain [OF q1(1)] wrote_chain [OF r(2)] by (simp del: chain.simps)
    ultimately show ?thesis using that [of "sent s1 \<sigma>' ?f"] r(1) True wrote_others [OF r(2)] by (simp add: htons_htons del: chain.simps)
  next
    case False
    have "(if htons (htons opc) = ARP_REQUEST \<and> ?us then arp_reply netif mac p s1 else Some s1) = Some s1"
      "link_out s1 = link_out s1 @ (if ?re then [?f] else [])"
      unfolding htons_htons if_not_P [OF False] by simp_all
    then show ?thesis using that [of s1] u(2) packet_chain [OF q1(1)] by (simp only: others_refl)
  qed
  obtain s' where f: "map_option snd (on_mem (pbuf_free (Some p)) s2) = Some s'" "arp_inv s' (ext(p := ext p - 1))"
    "others (arp_mem s2) (arp_mem s') (set (p # as))" "arp_table s' = arp_table s2" "same_link s2 s'"
    using free_frame [OF s2(2) e s2(6)] by blast
  have run: "etharp_arp_input netif mac p s = Some s'"
    unfolding etharp_arp_input_def using b len h g1 g2 g3 u(1) g4 s2(1) f(1) by (simp add: Let_def arp_for_us_def)
  have "others (arp_mem s) (arp_mem s2) (set ?W \<union> set (p # as))" by (rule others_trans [OF u(3) s2(3)]) auto
  then have "others (arp_mem s) (arp_mem s') (set ?W \<union> set (p # as))" by (rule others_trans [OF _ f(3)]) auto
  then show ?thesis using u(1) run f(2,4,5) s2(4,5) by (intro exI [of _ r] exI [of _ s1] exI [of _ s']) (simp add: same_link_def)
qed

text \<open>A frame that passes the tests is an ARP packet with some addresses.\<close>

lemma arp_frame_cases:
  assumes s: "sendable (arp_mem s) p as" and l: "42 \<le> plen (arp_mem s) p"
  shows "arp_hdr_ok p s = Some False \<or> (\<exists>es ed hs sip hwd dip opc pad. pdata (arp_mem s) p = arp_packet es ed hs sip hwd dip opc @ pad \<and>
    mac6 es \<and> mac6 ed \<and> mac6 hs \<and> mac6 hwd)"
proof -
  let ?c = "pdata (arp_mem s) p"
  have "length ?c = plen (arp_mem s) p"
    using length_pdata [of "arp_mem s" p] s owns_readable [of "arp_mem s" "[p]"] by (auto simp: sendable_def readable_def plen_def)
  then have lt: "length (take 42 ?c) = sum_list arp_fields" using l by simp
  have "map length (chop arp_fields (take 42 ?c)) = arp_fields" by (rule length_chop [OF lt])
  from eleven [OF this] obtain a0 a1 a2 a3 a4 a5 a6 a7 a8 a9 a10 where ch: "chop arp_fields (take 42 ?c) = [a0, a1, a2, a3, a4, a5, a6, a7, a8, a9, a10]"
    and la: "length a0 = 6" "length a1 = 6" "length a2 = 2" "length a3 = 2" "length a4 = 2" "length a5 = 2" "length a6 = 2" "length a7 = 6"
      "length a8 = 4" "length a9 = 6" "length a10 = 4" by (elim exE conjE) (rule that)
  have "?c = concat [a0, a1, a2, a3, a4, a5, a6, a7, a8, a9, a10] @ drop 42 ?c"
    using concat_chop [OF lt] unfolding ch by (metis append_take_drop_id)
  then have d: "?c = concat ([a0, a1, a2, a3, a4, a5, a6, a7, a8, a9, a10] @ [drop 42 ?c])" by simp
  have h: "arp_hdr_ok p s = Some (a3 = bytes16 (htons HWTYPE_ETHERNET) \<and> a5 = bytes16 (htons 0x0604) \<and> a4 = bytes16 (htons ETHTYPE_IP) \<and> a2 = bytes16 (htons ETHTYPE_ARP))"
    by (rule arp_hdr_segs [OF s d]) (simp add: la)
  obtain x y where "a6 = [x, y]" using la(7) by (auto simp: numeral_2_eq_2 length_Suc_conv)
  then have o: "bytes16 (ld16 x y) = a6" using bytes16_ld by simp
  have four: "\<exists>w. a = bytes32 w" if la: "length a = 4" for a
  proof -
    obtain x y z v where "a = [x, y, z, v]" using la by (auto simp: numeral_eq_Suc length_Suc_conv)
    then show ?thesis using bytes32_ld [of x y z v] by metis
  qed
  obtain sip dip where ip: "a8 = bytes32 sip" "a10 = bytes32 dip" using four la by blast
  show ?thesis
  proof (cases "arp_hdr_ok p s = Some False")
    case False
    then have f: "a3 = bytes16 (htons HWTYPE_ETHERNET)" "a5 = bytes16 (htons 0x0604)" "a4 = bytes16 (htons ETHTYPE_IP)" "a2 = bytes16 (htons ETHTYPE_ARP)"
      using h by simp_all
    have "?c = arp_packet a1 a0 a7 sip a9 dip (htons (ld16 x y)) @ drop 42 ?c"
      by (subst d) (simp add: arp_packet_segs arp_segs_def f ip o)
    then show ?thesis using la by blast
  qed simp
qed

lemma etharp_arp_input_ok:
  assumes i: "arp_inv s ext" and e: "0 < ext p" and q: "packet_ok (arp_mem s) p as" and m: "mac_ok netif mac"
  shows "\<exists>s'. etharp_arp_input netif mac p s = Some s' \<and> arp_inv s' (ext(p := ext p - 1)) \<and>
    others (arp_mem s) (arp_mem s') (set (waiting (arp_table s)) \<union> set (p # as))"
proof (cases "plen (arp_mem s) p < SIZEOF_ETHARP_PACKET \<or> arp_hdr_ok p s = Some False")
  case True
  obtain s' where "etharp_arp_input netif mac p s = Some s'" "arp_inv s' (ext(p := ext p - 1))" "others (arp_mem s) (arp_mem s') (set (p # as))"
    using arp_input_dropped [OF i e q True] by blast
  then show ?thesis using others_mono [of "arp_mem s" "arp_mem s'" "set (p # as)"] by blast
next
  case False
  then have "42 \<le> plen (arp_mem s) p" by (simp add: SIZEOF_ETHARP_PACKET_def SIZEOF_ETH_HDR_def SIZEOF_ETHARP_HDR_def)
  moreover have "sendable (arp_mem s) p as" using q by (simp add: packet_ok_def)
  ultimately obtain es ed hs sip hwd dip opc pad where "pdata (arp_mem s) p = arp_packet es ed hs sip hwd dip opc @ pad"
    "mac6 es" "mac6 ed" "mac6 hs" "mac6 hwd" using arp_frame_cases False by blast
  from arp_input_packet [OF i e q m this] show ?thesis by blast
qed

text \<open>An IP frame: its source is learned when it is on the local network.\<close>

lemma etharp_ip_input_ok:
  assumes i: "arp_inv s ext" and q: "packet_ok (arp_mem s) p as" and l: "30 \<le> plen (arp_mem s) p" and m: "mac_ok netif (nif_hwaddr netif)"
  shows "\<exists>s'. etharp_ip_input netif p s = Some s' \<and> arp_inv s' ext \<and> others (arp_mem s) (arp_mem s') (set (waiting (arp_table s)))"
proof -
  have sd: "sendable (arp_mem s) p as" using q by (simp add: packet_ok_def)
  let ?mac = "take 6 (drop 6 (pdata (arp_mem s) p))"
  have lp: "length (pdata (arp_mem s) p) = plen (arp_mem s) p"
    using length_pdata [of "arp_mem s" p] sd owns_readable [of "arp_mem s" "[p]"] by (auto simp: sendable_def readable_def plen_def)
  have "get_bytes p 26 4 s = Some (take 4 (drop 26 (pdata (arp_mem s) p)))" by (rule get_bytes_ok [OF sd]) (use l in simp)
  then obtain src where g1: "get32 p 26 s = Some src" by (simp add: get32_def)
  have g2: "get_bytes p 6 6 s = Some ?mac" by (rule get_bytes_ok [OF sd]) (use l in simp)
  have "mac_ok netif ?mac" using m lp l by (simp add: mac_ok_def ETHARP_HWADDR_LEN_def)
  then obtain r s' where u: "update_arp_entry netif src ?mac 0 s = Some (r, s')" "arp_inv s' ext" "others (arp_mem s) (arp_mem s') (set (waiting (arp_table s)))"
    using update_arp_entry_ok [OF i] by blast
  show ?thesis
  proof (cases "ip_addr_netcmp src (nif_ip_addr netif) (nif_netmask netif)")
    case True
    then show ?thesis using g1 g2 u by (simp add: etharp_ip_input_def SIZEOF_ETH_HDR_def ETHARP_HWADDR_LEN_def)
  next
    case False
    then show ?thesis using g1 i by (simp add: etharp_ip_input_def SIZEOF_ETH_HDR_def)
  qed
qed

end
