(* ===== verification/Runs.thy ===== *)
theory Runs
  imports Main
begin

text \<open>
  State machines: what a step relation owes to an invariant, and what the invariant then says of its runs. It is
  interpreted for the ARP module and for the timers.
\<close>

locale state_machine =
  fixes step :: "'c \<Rightarrow> 'c \<Rightarrow> bool" and inv :: "'c \<Rightarrow> bool"
  assumes keeps: "step c d \<Longrightarrow> inv c \<Longrightarrow> inv d"
begin

lemma run_keeps: "step\<^sup>*\<^sup>* c d \<Longrightarrow> inv c \<Longrightarrow> inv d"
  by (induction rule: rtranclp_induct) (auto intro: keeps)

end

end
