(* ===== verification/Etharp_Steps.thy ===== *)
theory Etharp_Steps
  imports Etharp_Input Runs
begin

text \<open>
  The ARP module as a state machine: its steps, the invariant of the states it reaches, and what its
  operations do.
\<close>

subsection \<open>The steps\<close>

definition empty_entry :: etharp_entry where
  "empty_entry = \<lparr>ae_q = [], ae_ipaddr = 0, ae_ethaddr = ethzero, ae_state = ETHARP_STATE_EMPTY, ae_ctime = 0, ae_netif = 0\<rparr>"

definition arp_start :: "pmem \<Rightarrow> arp" where
  "arp_start \<sigma> = \<lparr>arp_table = replicate ARP_TABLE_SIZE empty_entry, etharp_cached_entry = 0, arp_free = MEMP_NUM_ARP_QUEUE,
     arp_mem = \<sigma>, link_err = [], link_out = []\<rparr>"

text \<open>
  A configuration is a state with the number of references its clients hold to each buffer. A client may
  call an operation on a packet of its own; between the calls the clients change the buffers, but not
  those that wait here, and the driver may come to have other results in store.
\<close>

inductive arp_step :: "netif \<Rightarrow> arp \<times> (paddr \<Rightarrow> nat) \<Rightarrow> arp \<times> (paddr \<Rightarrow> nat) \<Rightarrow> bool" for netif where
  tmr: "etharp_tmr s = Some s' \<Longrightarrow> arp_step netif (s, ext) (s', ext)"
| out: "ip_packet (arp_mem s) q as \<Longrightarrow> 0 < ext q \<Longrightarrow> etharp_output netif q a s = Some (r, s') \<Longrightarrow> arp_step netif (s, ext) (s', ext)"
| arp_in: "packet_ok (arp_mem s) p as \<Longrightarrow> 0 < ext p \<Longrightarrow> etharp_arp_input netif (nif_hwaddr netif) p s = Some s' \<Longrightarrow>
     arp_step netif (s, ext) (s', ext(p := ext p - 1))"
| ip_in: "packet_ok (arp_mem s) p as \<Longrightarrow> 30 \<le> plen (arp_mem s) p \<Longrightarrow> etharp_ip_input netif p s = Some s' \<Longrightarrow> arp_step netif (s, ext) (s', ext)"
| request: "etharp_request netif a s = Some (r, s') \<Longrightarrow> arp_step netif (s, ext) (s', ext)"
| client: "packet_inv \<sigma> (with_q ext' (waiting (arp_table s))) \<Longrightarrow> \<forall>p\<in>set (waiting (arp_table s)). pbs \<sigma> p = pbs (arp_mem s) p \<Longrightarrow>
     arp_step netif (s, ext) (s\<lparr>arp_mem := \<sigma>, link_err := es\<rparr>, ext')"

definition arp_reach :: "netif \<Rightarrow> pmem \<Rightarrow> (paddr \<Rightarrow> nat) \<Rightarrow> arp \<Rightarrow> (paddr \<Rightarrow> nat) \<Rightarrow> bool" where
  "arp_reach netif \<sigma> ext s ext' \<longleftrightarrow> (arp_step netif)\<^sup>*\<^sup>* (arp_start \<sigma>, ext) (s, ext')"

lemma with_no_q [simp]: "with_q ext [] = ext"
  by (simp add: with_q_def fun_eq_iff)

lemma arp_start_inv:
  assumes "packet_inv \<sigma> ext"
  shows "arp_inv (arp_start \<sigma>) ext"
proof -
  have "tab_inv (arp_table (arp_start \<sigma>))" by (simp add: tab_inv_def arp_start_def entry_ok_def empty_entry_def)
  moreover have "waiting (arp_table (arp_start \<sigma>)) = []" by (simp add: waiting_def arp_start_def empty_entry_def)
  ultimately show ?thesis using assms by (simp add: arp_inv_def mem_inv_def) (simp add: arp_start_def ARP_TABLE_SIZE_def)
qed

lemma arp_step_inv:
  assumes "arp_step netif c d" "arp_inv (fst c) (snd c)" "mac_ok netif (nif_hwaddr netif)"
  shows "arp_inv (fst d) (snd d)"
  using assms
proof (induction rule: arp_step.induct)
  case (tmr s s' ext)
  then have i: "arp_inv s ext" by simp
  show ?case using etharp_tmr_ok [OF i] tmr.hyps by auto
next
  case (out s q as ext a r s')
  then have i: "arp_inv s ext" by simp
  show ?case using etharp_output_ok [OF i out.hyps(1,2) out.prems(2), of a] out.hyps(3) by auto
next
  case (arp_in s p as ext s')
  then have i: "arp_inv s ext" by simp
  obtain t where t: "etharp_arp_input netif (nif_hwaddr netif) p s = Some t" "arp_inv t (ext(p := ext p - 1))"
    using etharp_arp_input_ok [OF i arp_in.hyps(2,1) arp_in.prems(2)] by blast
  then have "t = s'" using arp_in.hyps(3) by simp
  then show ?case using t(2) by (simp only: fst_conv snd_conv)
next
  case (ip_in s p as s' ext)
  then have i: "arp_inv s ext" by simp
  show ?case using etharp_ip_input_ok [OF i ip_in.hyps(1,2) ip_in.prems(2)] ip_in.hyps(3) by auto
next
  case (request a s r s' ext)
  then have i: "arp_inv s ext" by simp
  show ?case using etharp_request_ok [OF i request.prems(2), of a] request.hyps by auto
next
  case (client \<sigma> ext' s ext es)
  then show ?case by (simp add: arp_inv_def mem_inv_def queued_ok_def)
qed

interpretation arp_run: state_machine "arp_step netif" "\<lambda>c. mac_ok netif (nif_hwaddr netif) \<and> arp_inv (fst c) (snd c)" for netif
  by unfold_locales (auto intro: arp_step_inv)

lemma arp_reach_inv:
  assumes "packet_inv \<sigma> ext" "mac_ok netif (nif_hwaddr netif)" "arp_reach netif \<sigma> ext s ext'"
  shows "arp_inv s ext'"
  using arp_run.run_keeps [OF assms(3) [unfolded arp_reach_def]] assms(2) arp_start_inv [OF assms(1)] by simp

subsection \<open>The timer and the table\<close>

fun tmr_times :: "nat \<Rightarrow> arp \<Rightarrow> arp option" where
  "tmr_times 0 s = Some s"
| "tmr_times (Suc n) s = do { s \<leftarrow> etharp_tmr s; tmr_times n s }"

lemma tmr_times_ok: "arp_inv s ext \<Longrightarrow> \<exists>s'. tmr_times n s = Some s' \<and> arp_inv s' ext \<and> arp_table s' = map (tick ^^ n) (arp_table s) \<and> same_link s s'"
proof (induction n arbitrary: s)
  case 0
  then show ?case by (simp add: same_link_def)
next
  case (Suc n)
  obtain s1 where s1: "etharp_tmr s = Some s1" "arp_inv s1 ext" "same_link s s1" "arp_table s1 = map tick (arp_table s)"
    using etharp_tmr_ok [OF Suc.prems] by blast
  obtain s' where s': "tmr_times n s1 = Some s'" "arp_inv s' ext" "arp_table s' = map (tick ^^ n) (arp_table s1)" "same_link s1 s'"
    using Suc.IH [OF s1(2)] by blast
  have "arp_table s' = map (tick ^^ Suc n) (arp_table s)" unfolding s'(3) s1(4) by (simp add: funpow_swap1)
  then show ?case using s1(1,3) s'(1,2,4) by (auto simp: same_link_def)
qed

lemma tick_state: "entry_ok e \<Longrightarrow> ae_state ((tick ^^ n) e) = ETHARP_STATE_EMPTY \<or> ae_state ((tick ^^ n) e) = ae_state e"
  using tick_power [of e n] by blast

text \<open>An update of an entry that may be made succeeds.\<close>

lemma update_hard_ok:
  assumes i: "arp_inv s ext" and m: "mac_ok netif mac" and u: "unicast netif a"
  shows "\<exists>s'. update_arp_entry netif a mac ETHARP_TRY_HARD s = Some (0, s') \<and> arp_inv s' ext \<and> others (arp_mem s) (arp_mem s') (set (waiting (arp_table s))) \<and>
    arp_resolved (arp_table s') a mac \<and>
    link_out s' = link_out s @ map (\<lambda>p. ip_frame mac (nif_hwaddr netif) (content (arp_mem s) [p])) (arp_queue (arp_table s) a)"
proof -
  obtain k s1 where f: "find_entry (Some a) ETHARP_TRY_HARD s = Some (int k, s1)" using find_hard_ok [OF i] by blast
  obtain r s' where s': "update_arp_entry netif a mac ETHARP_TRY_HARD s = Some (r, s')" "arp_inv s' ext"
    "others (arp_mem s) (arp_mem s') (set (waiting (arp_table s)))"
    "if \<not> unicast netif a then r = ERR_ARG \<and> s' = s
     else if r = 0 then (\<exists>i<ARP_TABLE_SIZE. stable_entry (arp_table s' ! i) a mac) \<and>
       link_out s' = link_out s @ map (\<lambda>p. ip_frame mac (nif_hwaddr netif) (content (arp_mem s) [p])) (arp_queue (arp_table s) a)
     else r = ERR_MEM \<and> s' = s"
    using update_arp_entry_ok [OF i m, of a ETHARP_TRY_HARD] by (elim exE conjE) (rule that)
  have "r = 0" using s'(1) f u by (auto simp: update_arp_entry_def unicast_def split: Option.bind_splits if_splits)
  then have e: "r = 0" "\<exists>i<ARP_TABLE_SIZE. stable_entry (arp_table s' ! i) a mac"
      "link_out s' = link_out s @ map (\<lambda>p. ip_frame mac (nif_hwaddr netif) (content (arp_mem s) [p])) (arp_queue (arp_table s) a)"
    using s'(4) u by simp_all
  then obtain i where i': "i < length (arp_table s')" "stable_entry (arp_table s' ! i) a mac" using arp_invD(2) [OF s'(2)] by auto
  then have "arp_resolved (arp_table s') a mac" using nth_mem by (auto simp: arp_resolved_def stable_entry_def is_stable_def)
  then show ?thesis using s'(1-3) e by auto
qed

subsection \<open>A concrete interface\<close>

text \<open>The interface 10.0.0.1/24 with the gateway 10.0.0.2, and a neighbour 10.0.0.3.\<close>

definition demo_netif :: netif where
  "demo_netif = \<lparr>nif_flags = 2, nif_ip_addr = 0x0100000a, nif_netmask = 0x00ffffff, nif_gw = 0x0200000a,
     nif_hwaddr = [2, 0, 0, 0, 0, 1], nif_hwaddr_len = 6, nif_num = 0\<rparr>"

definition peer_ip :: u32_t where "peer_ip = 0x0300000a"
definition peer_mac :: eth_addr where "peer_mac = [2, 0, 0, 0, 0, 3]"

text \<open>Block 5 is a packet with room in front, block 6 an ARP frame from the neighbour.\<close>

definition demo_frame :: "u16_t \<Rightarrow> byte list" where
  "demo_frame opc = arp_packet peer_mac (nif_hwaddr demo_netif) peer_mac peer_ip (nif_hwaddr demo_netif) (nif_ip_addr demo_netif) opc"

definition demo_link :: "u16_t \<Rightarrow> pmem" where
  "demo_link opc = \<lparr>pbs = [5 \<mapsto> new_pbuf (Some (Own 5, 14)) 20 20 PBUF_RAM, 6 \<mapsto> new_pbuf (Some (Own 6, 0)) 42 42 PBUF_RAM],
     memp_tab = (\<lambda>t. case t of MEMP_PBUF \<Rightarrow> [1, 2] | MEMP_PBUF_POOL \<Rightarrow> [3, 4] | MEM_HEAP \<Rightarrow> [7, 8, 9]),
     bytes_of = (\<lambda>_. [])(Own 5 := replicate 34 0, Own 6 := demo_frame opc), ooseq_queued = False, mbox_room = True\<rparr>"

definition demo_refs :: "paddr \<Rightarrow> nat" where
  "demo_refs = (\<lambda>_. 0)(5 := 1, 6 := 1)"

lemma demo_frame_length [simp]: "length (demo_frame opc) = 42"
  by (simp add: demo_frame_def arp_packet_def peer_mac_def demo_netif_def)

lemma demo_pbs: "pbs (demo_link opc) = [5 \<mapsto> new_pbuf (Some (Own 5, 14)) 20 20 PBUF_RAM, 6 \<mapsto> new_pbuf (Some (Own 6, 0)) 42 42 PBUF_RAM]"
  "bytes_of (demo_link opc) (Own 5) = replicate 34 0" "bytes_of (demo_link opc) (Own 6) = demo_frame opc"
  by (simp_all add: demo_link_def)

lemma demo_no_preds: "preds (demo_link opc) a = {}"
  by (auto simp: preds_def demo_pbs new_pbuf_def split: if_splits)

lemma demo_link_inv: "packet_inv (demo_link opc) demo_refs"
proof -
  have c: "\<exists>as. chain (demo_link opc) (Some a) as" if "pbs (demo_link opc) a = Some b" for a b
    by (rule exI [of _ "[a]"]) (use that in \<open>auto simp: demo_pbs new_pbuf_def split: if_splits\<close>)
  then have "ref_inv (demo_link opc) demo_refs"
    unfolding ref_inv_def demo_no_preds by (auto simp: demo_pbs new_pbuf_def demo_refs_def split: if_splits)
  moreover have "pool_inv (demo_link opc)" by (auto simp: pool_inv_def demo_link_def split: pool.splits)
  moreover have "len_inv (demo_link opc)" by (auto simp: len_inv_def demo_pbs new_pbuf_def split: if_splits)
  moreover have "data_inv (demo_link opc)" by (auto simp: data_inv_def data_ok_def demo_pbs new_pbuf_def split: if_splits)
  ultimately show ?thesis by (simp add: packet_inv_def pbuf_inv_def)
qed

lemma demo_mac: "mac_ok demo_netif (nif_hwaddr demo_netif)" "unicast demo_netif peer_ip" "nif_ip_addr demo_netif \<noteq> 0"
  by (simp_all add: mac_ok_def unicast_def demo_netif_def ETHARP_HWADDR_LEN_def peer_ip_def ip_addr_isbroadcast_def ip_addr_netcmp_def
      NETIF_FLAG_BROADCAST_def ip_addr_ismulticast_def ntohl_def htonl_def netif_addr.defs)

lemma demo_ip_packet: "ip_packet (demo_link opc) 5 []" "headroom (demo_link opc) 5 = int SIZEOF_ETH_HDR"
  using demo_no_preds
  by (simp_all add: ip_packet_def demo_pbs new_pbuf_def readable_def plain_def nonempty_def plen_def SIZEOF_ETH_HDR_def headroom_def)

lemma demo_packet_ok: "packet_ok (demo_link opc) 6 []" "pdata (demo_link opc) 6 = demo_frame opc" "plen (demo_link opc) 6 = 42"
  by (simp_all add: packet_ok_def sendable_def demo_pbs new_pbuf_def owns_def readable_def plain_def nonempty_def plen_def SIZEOF_ETH_HDR_def pdata_def)

lemma demo_arp_inv: "arp_inv (arp_start (demo_link opc)) demo_refs"
  by (rule arp_start_inv [OF demo_link_inv])

lemma arp_start_mem [simp]: "arp_mem (arp_start \<sigma>) = \<sigma>" "link_out (arp_start \<sigma>) = []" "link_err (arp_start \<sigma>) = []"
  by (simp_all add: arp_start_def)

lemma demo_refs_pos [simp]: "demo_refs 5 = 1" "demo_refs 6 = 1"
  by (simp_all add: demo_refs_def)

end
