(* ===== verification/Etharp_Correct.thy ===== *)
theory Etharp_Correct
  imports Etharp_Steps
begin

text \<open>
  The properties of the ARP module, with the concrete interface of \<open>Etharp_Steps\<close> as their witness.
\<close>

subsection \<open>Reachable states\<close>

text \<open>C20: In every state the ARP module reaches from start-up, whatever its clients call and whatever the driver
  answers, the table has ten entries of which no two in use have the same address, only pending entries hold packets,
  every entry is younger than its maximal age, each waiting packet is a buffer of its own
  with the queue's reference as its only one, it takes one of the 30 elements of the pool, and the reference counts, pools
  and lengths of all buffers are right.\<close>
theorem arp_reachable_inv:
  assumes "packet_inv \<sigma> ext" "mac_ok netif (nif_hwaddr netif)" "arp_reach netif \<sigma> ext s ext'"
  shows "tab_inv (arp_table s) \<and> etharp_cached_entry s < ARP_TABLE_SIZE \<and> distinct (waiting (arp_table s)) \<and>
    arp_free s + length (waiting (arp_table s)) = MEMP_NUM_ARP_QUEUE \<and> (\<forall>p\<in>set (waiting (arp_table s)). queued_ok (arp_mem s) p \<and> ext' p = 0) \<and>
    packet_inv (arp_mem s) (with_q ext' (waiting (arp_table s)))"
proof -
  have i: "arp_inv s ext'" by (rule arp_reach_inv [OF assms])
  then have m: "mem_inv s ext' (waiting (arp_table s))" by (simp add: arp_inv_def)
  then have "ext' p = 0" if "p \<in> set (waiting (arp_table s))" for p
    using waiting_unlinked(2) [OF arp_invD(5) [OF i] that] that by (auto simp: mem_inv_def)
  then show ?thesis using i m by (simp add: arp_inv_def mem_inv_def)
qed

theorem arp_reachable_inv_witness:
  "\<exists>s. arp_reach demo_netif (demo_link ARP_REPLY) demo_refs s demo_refs \<and> link_out s \<noteq> [] \<and>
    arp_free s + length (waiting (arp_table s)) = MEMP_NUM_ARP_QUEUE"
proof -
  let ?s = "arp_start (demo_link ARP_REPLY)"
  obtain r s' where r: "etharp_request demo_netif peer_ip ?s = Some (r, s')"
    "if memp_tab (arp_mem ?s) MEM_HEAP = [] then r = ERR_MEM \<and> s' = ?s
     else r = link_result ?s \<and> link_err s' = tl (link_err ?s) \<and> link_out s' = link_out ?s @ [arp_request demo_netif peer_ip]"
    using etharp_request_ok [OF demo_arp_inv [of ARP_REPLY] demo_mac(1), of peer_ip] by (elim exE conjE) (rule that)
  then have "link_out s' \<noteq> []" by (simp add: demo_link_def)
  have "arp_reach demo_netif (demo_link ARP_REPLY) demo_refs s' demo_refs"
    unfolding arp_reach_def by (rule r_into_rtranclp) (rule arp_step.request [OF r(1)])
  then show ?thesis using arp_reachable_inv [OF demo_link_inv demo_mac(1)] \<open>link_out s' \<noteq> []\<close> by blast
qed

text \<open>C21: In every state that calls with well-formed packets reach, the operations return: no assertion of the module, of \<open>pbuf.c\<close> or of the driver interface
  fails, no header is read or written outside of its buffer, and every loop ends. For \<open>etharp_tmr\<close> and \<open>etharp_request\<close> nothing more is
  needed. The packet given to \<open>etharp_output\<close> and the frame given to \<open>etharp_arp_input\<close> are held by the caller; their buffers are not empty, their payloads are memory of
  the buffers or outside of all buffers, and the first is a RAM or pool buffer; the packet is
  linked to by no other buffer and short enough for the link header, the frame has the 14 bytes of the link header in its first buffer. A frame for
  \<open>etharp_ip_input\<close>, which reads 30 bytes without testing the length, must have them in its first buffer. The interface has a hardware address of six bytes.\<close>
theorem arp_reachable_returns:
  assumes "packet_inv \<sigma> ext" "mac_ok netif (nif_hwaddr netif)" "arp_reach netif \<sigma> ext s ext'"
  shows "etharp_tmr s \<noteq> None \<and> etharp_request netif a s \<noteq> None \<and>
    (ip_packet (arp_mem s) q as \<and> 0 < ext' q \<longrightarrow> etharp_output netif q a s \<noteq> None) \<and>
    (packet_ok (arp_mem s) p ps \<and> 0 < ext' p \<longrightarrow> etharp_arp_input netif (nif_hwaddr netif) p s \<noteq> None) \<and>
    (packet_ok (arp_mem s) p ps \<and> 30 \<le> plen (arp_mem s) p \<longrightarrow> etharp_ip_input netif p s \<noteq> None)"
proof -
  have i: "arp_inv s ext'" by (rule arp_reach_inv [OF assms])
  show ?thesis
    using etharp_tmr_ok [OF i] etharp_request_ok [OF i assms(2), of a] etharp_output_ok [OF i _ _ assms(2), of q as a]
      etharp_arp_input_ok [OF i, of p ps netif "nif_hwaddr netif"] etharp_ip_input_ok [OF i, of p ps netif] assms(2) by blast
qed

theorem arp_reachable_returns_witness:
  "etharp_output demo_netif 5 peer_ip (arp_start (demo_link ARP_REPLY)) \<noteq> None \<and>
   etharp_arp_input demo_netif (nif_hwaddr demo_netif) 6 (arp_start (demo_link ARP_REPLY)) \<noteq> None"
proof -
  have "arp_reach demo_netif (demo_link ARP_REPLY) demo_refs (arp_start (demo_link ARP_REPLY)) demo_refs" by (simp add: arp_reach_def)
  from arp_reachable_returns [OF demo_link_inv demo_mac(1) this, of peer_ip 5 "[]" 6 "[]"]
  show ?thesis using demo_ip_packet(1) demo_packet_ok(1) by simp
qed

subsection \<open>Sending\<close>


lemma unresolved_waits:
  assumes "query_result netif a d s r s'" "unicast netif a" "\<forall>mac. \<not> arp_resolved (arp_table s) a mac" "room s"
  shows "packet_waits netif a d s r s'"
proof -
  have n: "\<not> (\<exists>mac. arp_resolved (arp_table s) a mac)" using assms(3) by blast
  show ?thesis using assms(1,2,4) unfolding query_result_def packet_lost_def if_not_P [OF n] by simp
qed

lemma demo_unresolved: "\<not> arp_resolved (arp_table (arp_start \<sigma>)) a mac" "room (arp_start (demo_link opc))" "arp_queue (arp_table (arp_start \<sigma>)) a = []"
  by (simp_all add: arp_resolved_def arp_start_def empty_entry_def is_stable_def room_def demo_link_def MEMP_NUM_ARP_QUEUE_def arp_queue_def arp_match_def)

lemma demo_local: "ip_addr_netcmp peer_ip (nif_ip_addr demo_netif) (nif_netmask demo_netif)"
  by (simp add: ip_addr_netcmp_def peer_ip_def demo_netif_def)

lemma demo_waits: "output_result demo_netif peer_ip d (arp_start (demo_link opc)) r s' \<Longrightarrow> packet_waits demo_netif peer_ip d (arp_start (demo_link opc)) r s'"
  using demo_mac(2) demo_local demo_unresolved(1,2) by (intro unresolved_waits) (auto simp: output_result_def unicast_def)




subsection \<open>Receiving\<close>

lemma find_addr_resolved:
  assumes i: "arp_inv s ext" and r: "arp_resolved (arp_table s) a mac"
  shows "\<exists>i s'. etharp_find_addr a s = Some ((i, Some (mac, a)), s')"
proof -
  note I = arp_invD [OF i]
  obtain j where j: "j < ARP_TABLE_SIZE" "is_stable (arp_table s ! j)" "ae_ipaddr (arp_table s ! j) = a" "ae_ethaddr (arp_table s ! j) = mac"
    using r I(2) by (auto simp: arp_resolved_def in_set_conv_nth)
  then have "arp_match (Some a) (arp_table s ! j)" by (simp add: arp_match_def is_stable_def)
  from find_entry_found [OF I(1,3) j(1) this, of ETHARP_FIND_ONLY] j show ?thesis by (simp add: etharp_find_addr_def is_stable_def)
qed

text \<open>C23: An ARP packet for this interface is answered and learned from. When it is from a unicast address, \<open>etharp_arp_input\<close> enters the
  sender's addresses, even if another entry has to go, sends the packets that waited for the sender in the order in which they
  came, answers a request by the same packet with the roles exchanged and the type reply, and gives up the
  caller's reference; a look-up then finds the sender's hardware address.\<close>
theorem etharp_arp_input_answers:
  assumes "arp_inv s ext" "0 < ext p" "packet_ok (arp_mem s) p ps" "mac_ok netif (nif_hwaddr netif)"
    "pdata (arp_mem s) p = arp_packet es ed hs sip hwd (nif_ip_addr netif) opc @ pad" "mac6 es" "mac6 ed" "mac6 hs" "mac6 hwd"
    "nif_ip_addr netif \<noteq> 0" "unicast netif sip"
  shows "\<exists>s'. etharp_arp_input netif (nif_hwaddr netif) p s = Some s' \<and> arp_inv s' (ext(p := ext p - 1)) \<and>
    link_out s' = link_out s @ map (\<lambda>w. ip_frame hs (nif_hwaddr netif) (content (arp_mem s) [w])) (arp_queue (arp_table s) sip) @
      (if opc = ARP_REQUEST then [arp_packet (nif_hwaddr netif) hs (nif_hwaddr netif) (nif_ip_addr netif) hs sip ARP_REPLY @ pad @ content (arp_mem s) ps] else []) \<and>
    (\<exists>i s''. etharp_find_addr sip s' = Some ((i, Some (hs, sip)), s''))"
proof -
  let ?hw = "nif_hwaddr netif"
  have us: "arp_for_us netif (nif_ip_addr netif)" using assms(10) by (simp add: arp_for_us_def)
  have mm: "mac_ok netif hs" using assms(4,8) by (simp add: mac_ok_def ETHARP_HWADDR_LEN_def)
  obtain r t s' where s: "update_arp_entry netif sip hs (if arp_for_us netif (nif_ip_addr netif) then ETHARP_TRY_HARD else 0) s = Some (r, t)"
    "etharp_arp_input netif ?hw p s = Some s'" "arp_inv s' (ext(p := ext p - 1))" "arp_table s' = arp_table t"
    "link_out s' = link_out t @ (if opc = ARP_REQUEST \<and> arp_for_us netif (nif_ip_addr netif)
      then [arp_packet ?hw hs ?hw (nif_ip_addr netif) hs sip ARP_REPLY @ pad @ content (arp_mem s) ps] else [])"
    using arp_input_packet [OF assms(1-5) assms(6-9)] by (elim exE conjE) (rule that)
  have t: "arp_resolved (arp_table t) sip hs" "link_out t = link_out s @ map (\<lambda>w. ip_frame hs ?hw (content (arp_mem s) [w])) (arp_queue (arp_table s) sip)"
    using update_hard_ok [OF assms(1) mm assms(11)] s(1) us by auto
  have "\<exists>i s''. etharp_find_addr sip s' = Some ((i, Some (hs, sip)), s'')" by (rule find_addr_resolved [OF s(3)]) (use t(1) s(4) in simp)
  moreover have "link_out s' = link_out s @ map (\<lambda>w. ip_frame hs ?hw (content (arp_mem s) [w])) (arp_queue (arp_table s) sip) @
      (if opc = ARP_REQUEST then [arp_packet ?hw hs ?hw (nif_ip_addr netif) hs sip ARP_REPLY @ pad @ content (arp_mem s) ps] else [])"
    using s(5) t(2) us by simp
  ultimately show ?thesis using s(2,3) by blast
qed

theorem etharp_arp_input_answers_witness:
  "\<exists>s' i s''. etharp_arp_input demo_netif (nif_hwaddr demo_netif) 6 (arp_start (demo_link ARP_REQUEST)) = Some s' \<and>
    link_out s' = [arp_packet (nif_hwaddr demo_netif) peer_mac (nif_hwaddr demo_netif) (nif_ip_addr demo_netif) peer_mac peer_ip ARP_REPLY] \<and>
    etharp_find_addr peer_ip s' = Some ((i, Some (peer_mac, peer_ip)), s'')"
proof -
  have "mac6 peer_mac" "mac6 (nif_hwaddr demo_netif)" by (simp_all add: peer_mac_def demo_netif_def)
  then show ?thesis
    using etharp_arp_input_answers [OF demo_arp_inv, of 6 ARP_REQUEST "[]" demo_netif peer_mac "nif_hwaddr demo_netif" peer_mac peer_ip
        "nif_hwaddr demo_netif" ARP_REQUEST "[]"] demo_unresolved(3) demo_packet_ok [of ARP_REQUEST] demo_mac
    by (auto simp: demo_frame_def)
qed

subsection \<open>The table\<close>

text \<open>C24: Entries that are not refreshed expire. However often the timer runs, it returns and keeps the invariant; after two runs no
  packet waits any more and all of the pool is free again, and after 240 runs the table is empty.\<close>
theorem etharp_tmr_expires:
  assumes "arp_inv s ext"
  shows "\<exists>s'. tmr_times n s = Some s' \<and> arp_inv s' ext \<and> link_out s' = link_out s \<and>
    (2 \<le> n \<longrightarrow> waiting (arp_table s') = [] \<and> arp_free s' = MEMP_NUM_ARP_QUEUE \<and> packet_inv (arp_mem s') ext) \<and>
    (240 \<le> n \<longrightarrow> (\<forall>e\<in>set (arp_table s'). ae_state e = ETHARP_STATE_EMPTY))"
proof -
  obtain s' where s: "tmr_times n s = Some s'" "arp_inv s' ext" "arp_table s' = map (tick ^^ n) (arp_table s)" "same_link s s'"
    using tmr_times_ok [OF assms] by blast
  have ok: "entry_ok e" if "e \<in> set (arp_table s)" for e
    using arp_invD(2,6) [OF assms] that by (auto simp: in_set_conv_nth)
  have q: "ae_q ((tick ^^ n) e) = []" if "2 \<le> n" "e \<in> set (arp_table s)" for e
  proof -
    have "entry_ok ((tick ^^ n) e)" using tick_power [OF ok [OF that(2)]] by blast
    moreover have "ae_state ((tick ^^ n) e) \<noteq> ETHARP_STATE_PENDING"
    proof
      assume p: "ae_state ((tick ^^ n) e) = ETHARP_STATE_PENDING"
      then have "ae_state e = ETHARP_STATE_PENDING" using tick_state [OF ok [OF that(2)], of n] by auto
      then have "ae_state ((tick ^^ n) e) = ETHARP_STATE_EMPTY" using tick_expires [OF ok [OF that(2)], of n] that(1) by simp
      then show False using p by simp
    qed
    ultimately show ?thesis by (simp add: entry_ok_def)
  qed
  then have w: "waiting (arp_table s') = []" if "2 \<le> n" using that unfolding waiting_def s(3) by simp
  moreover have "arp_free s' = MEMP_NUM_ARP_QUEUE \<and> packet_inv (arp_mem s') ext" if "2 \<le> n"
    using arp_invD(4) [OF s(2)] unfolding w [OF that] by (simp add: mem_inv_def)
  moreover have "\<forall>e\<in>set (arp_table s'). ae_state e = ETHARP_STATE_EMPTY" if "240 \<le> n"
    using tick_expires [OF ok, of _ n] that unfolding s(3) by auto
  ultimately show ?thesis using s by (auto simp: same_link_def)
qed

theorem etharp_tmr_expires_witness:
  "\<exists>s s'. etharp_output demo_netif 5 peer_ip (arp_start (demo_link ARP_REPLY)) = Some (0, s) \<and> waiting (arp_table s) \<noteq> [] \<and>
    tmr_times 2 s = Some s' \<and> waiting (arp_table s') = []"
proof -
  obtain r s where o: "etharp_output demo_netif 5 peer_ip (arp_start (demo_link ARP_REPLY)) = Some (r, s)" "arp_inv s demo_refs"
    "output_result demo_netif peer_ip (content (demo_link ARP_REPLY) [5]) (arp_start (demo_link ARP_REPLY)) r s"
    using etharp_output_ok [OF demo_arp_inv, of ARP_REPLY 5 "[]" demo_netif peer_ip] demo_ip_packet [of ARP_REPLY] demo_mac by auto
  then have s: "etharp_output demo_netif 5 peer_ip (arp_start (demo_link ARP_REPLY)) = Some (0, s)" "arp_inv s demo_refs"
    "arp_queue (arp_table s) peer_ip \<noteq> []"
    using demo_waits [OF o(3)] by (auto simp: packet_waits_def)
  have "set (arp_queue (arp_table s) peer_ip) \<subseteq> set (waiting (arp_table s))" by (auto simp: arp_queue_def waiting_def)
  then have "waiting (arp_table s) \<noteq> []" using s(3) by auto
  then show ?thesis using s(1) etharp_tmr_expires [OF s(2), of 2] by auto
qed

text \<open>C25: A new address takes the place that loses least. When no entry in use has the address, \<open>find_entry\<close> with \<open>ETHARP_TRY_HARD\<close> takes the
  first empty entry, else the oldest stable one, else the oldest pending one without packets, else the
  oldest pending one, whose packets it frees; only this entry changes, to an empty one with the address.\<close>
theorem find_entry_least_loss:
  assumes "arp_inv s ext" "\<forall>e\<in>set (arp_table s). \<not> arp_match (Some a) e"
  shows "\<exists>k s'. find_entry (Some a) ETHARP_TRY_HARD s = Some (int k, s') \<and> arp_choice (arp_table s) k \<and> arp_inv s' ext \<and>
    arp_table s' = (arp_table s)[k := fresh_entry a (arp_table s ! k)] \<and> arp_free s' = arp_free s + length (ae_q (arp_table s ! k))"
proof -
  note I = arp_invD [OF assms(1)]
  have m: "\<And>i. i < ARP_TABLE_SIZE \<Longrightarrow> \<not> arp_match (Some a) (arp_table s ! i)" using assms(2) I(2) nth_mem by simp
  have fl: "\<not> ((\<forall>i<ARP_TABLE_SIZE. ae_state (arp_table s ! i) \<noteq> ETHARP_STATE_EMPTY) \<and> ETHARP_TRY_HARD AND ETHARP_TRY_HARD = 0 \<or> ETHARP_TRY_HARD AND ETHARP_FIND_ONLY \<noteq> 0)"
    by (simp add: ETHARP_TRY_HARD_def ETHARP_FIND_ONLY_def)
  obtain k where k: "arp_choice (arp_table s) k" "find_entry (Some a) ETHARP_TRY_HARD s =
      map_option (\<lambda>s'. (int k, (set_entry k (fresh_entry a) s')\<lparr>etharp_cached_entry := k\<rparr>)) (free_etharp_q (ae_q (arp_table s ! k)) s)"
    using find_entry_new [OF I(1,3) m fl] by blast
  obtain r s' where f: "find_entry (Some a) ETHARP_TRY_HARD s = Some (r, s')" "arp_inv s' ext" using find_entry_ok [OF assms(1)] by blast
  then obtain s1 where s1: "free_etharp_q (ae_q (arp_table s ! k)) s = Some s1" "r = int k" "s' = (set_entry k (fresh_entry a) s1)\<lparr>etharp_cached_entry := k\<rparr>"
    using k(2) by auto
  have tab: "arp_table s' = (arp_table s)[k := fresh_entry a (arp_table s ! k)]" using s1(3) free_etharp_q_table [OF s1(1)] by simp
  have kl: "k < length (arp_table s)" using k(1) I(2) by (simp add: arp_choice_def)
  have "length (waiting (arp_table s)) = length (ae_q (arp_table s ! k)) + length (rest (arp_table s) k)"
    using arg_cong [OF waiting_split [OF kl], of size] by simp
  moreover have "length (waiting (arp_table s')) = length (rest (arp_table s) k)"
    using arg_cong [OF waiting_split [of k "arp_table s'"], of size] kl unfolding tab by (simp add: fresh_entry_def)
  moreover have "arp_free s + length (waiting (arp_table s)) = arp_free s' + length (waiting (arp_table s'))"
    using I(4) arp_invD(4) [OF f(2)] by (simp add: mem_inv_def)
  ultimately have "arp_free s' = arp_free s + length (ae_q (arp_table s ! k))" by simp
  then show ?thesis using f k(1) s1(2) tab by blast
qed

theorem find_entry_least_loss_witness:
  "\<exists>s'. find_entry (Some peer_ip) ETHARP_TRY_HARD (arp_start (demo_link ARP_REPLY)) = Some (0, s') \<and> ae_ipaddr (arp_table s' ! 0) = peer_ip"
proof -
  let ?s = "arp_start (demo_link ARP_REPLY)"
  have "\<forall>e\<in>set (arp_table ?s). \<not> arp_match (Some peer_ip) e" by (simp add: arp_start_def empty_entry_def arp_match_def)
  from find_entry_least_loss [OF demo_arp_inv this]
  obtain k s' where s: "find_entry (Some peer_ip) ETHARP_TRY_HARD ?s = Some (int k, s')" "arp_choice (arp_table ?s) k"
    "arp_table s' = (arp_table ?s)[k := fresh_entry peer_ip (arp_table ?s ! k)]" by blast
  have len: "length (arp_table ?s) = 10" by (simp add: arp_start_def ARP_TABLE_SIZE_def)
  have "rank (arp_table ?s ! j) = 0" if "j < 10" for j using that by (simp add: arp_start_def rank_def empty_entry_def ARP_TABLE_SIZE_def)
  then have "k = 0" using s(2) unfolding arp_choice_def by (auto simp: ARP_TABLE_SIZE_def dest!: spec [of _ 0])
  then show ?thesis using s(1,3) len by (simp add: fresh_entry_def)
qed

end
