(* ===== verification/Timeouts.thy ===== *)
theory Timeouts
  imports Pbuf Inet_Chksum
begin

text \<open>
  The timers of \<open>lwip/src/core/sys.c\<close>: the list of timeouts of a thread, in which each entry holds the time that
  it has left after the one before it, and the two functions that wait and run the timers that expire.

  The port is a parameter: \<open>sys_arch_mbox_fetch\<close> and \<open>sys_arch_sem_wait\<close> take the time they may wait (zero for ever) and
  return the milliseconds waited or \<open>SYS_ARCH_TIMEOUT\<close>, or never (\<open>None\<close>). \<open>sys_arch_timeouts\<close> of this port is never
  \<open>NULL\<close>. The handlers are called through the parameter \<open>call\<close>, except \<open>sswt_handler\<close>, which is the one of this file.
  The callback objects of \<open>sys_sem_wait_timeout\<close> are addresses with a flag and a semaphore. The state is that of one thread. The pool
  \<open>MEMP_SYS_TIMEOUT\<close> is shared by all threads: \<open>sys_free\<close> of its elements are free and \<open>sys_others\<close> are in the lists of the others, which change
  both between the steps of this thread.
\<close>

subsection \<open>State\<close>

definition SYS_ARCH_TIMEOUT :: u32_t where "SYS_ARCH_TIMEOUT = 0xffffffff"
definition MEMP_NUM_SYS_TIMEOUT :: nat where "MEMP_NUM_SYS_TIMEOUT = 3"

datatype handler = SSWT_HANDLER | HANDLER nat

record timeo =
  tm_time :: u32_t
  tm_h :: "handler option"
  tm_arg :: nat

record 'w sys =
  sys_next :: "timeo list"
  sys_free :: nat
  sys_others :: nat
  sys_flag :: "nat \<Rightarrow> bool"
  sys_psem :: "nat \<Rightarrow> nat"
  sys_world :: 'w

subsection \<open>Starting and stopping a timer\<close>

text \<open>The loop behind the first entry \<open>t\<close>, which is not later than the new one.\<close>

fun timeout_insert :: "timeo \<Rightarrow> timeo list \<Rightarrow> timeo list" where
  "timeout_insert n [] = []"
| "timeout_insert n [t] = [t, n\<lparr>tm_time := tm_time n - tm_time t\<rparr>]"
| "timeout_insert n (t # u # ts) =
     (let n = n\<lparr>tm_time := tm_time n - tm_time t\<rparr> in
      if tm_time u > tm_time n then t # n # u\<lparr>tm_time := tm_time u - tm_time n\<rparr> # ts else t # timeout_insert n (u # ts))"

definition sys_timeout :: "u32_t \<Rightarrow> handler option \<Rightarrow> nat \<Rightarrow> 'w sys \<Rightarrow> 'w sys option" where
  "sys_timeout msecs h arg s = do {
     guard (sys_free s > 0);
     let timeout = \<lparr>tm_time = msecs, tm_h = h, tm_arg = arg\<rparr>;
     Some (s\<lparr>sys_free := sys_free s - 1, sys_next := (case sys_next s of [] \<Rightarrow> [timeout]
       | t # ts \<Rightarrow> if tm_time t > msecs then timeout # t\<lparr>tm_time := tm_time t - msecs\<rparr> # ts else timeout_insert timeout (t # ts))\<rparr>) }"

text \<open>\<open>None\<close> when no entry matches.\<close>

fun untimeout_loop :: "handler option \<Rightarrow> nat \<Rightarrow> timeo list \<Rightarrow> timeo list option" where
  "untimeout_loop h arg [] = None"
| "untimeout_loop h arg (t # ts) =
     (if tm_h t = h \<and> tm_arg t = arg
      then Some (case ts of [] \<Rightarrow> [] | u # us \<Rightarrow> u\<lparr>tm_time := tm_time u + tm_time t\<rparr> # us)
      else map_option (Cons t) (untimeout_loop h arg ts))"

definition sys_untimeout :: "handler option \<Rightarrow> nat \<Rightarrow> 'w sys \<Rightarrow> 'w sys" where
  "sys_untimeout h arg s = (case untimeout_loop h arg (sys_next s) of None \<Rightarrow> s
     | Some ts \<Rightarrow> s\<lparr>sys_next := ts, sys_free := sys_free s + 1\<rparr>)"

subsection \<open>Waiting\<close>

text \<open>One pass of the loop of \<open>sys_mbox_fetch\<close> and \<open>sys_sem_wait\<close>: the timer that has expired, and is
  out of the list, or none when the wait is over.\<close>

definition sys_pass :: "(u32_t \<Rightarrow> 'w \<Rightarrow> (u32_t \<times> 'w) option) \<Rightarrow> 'w sys \<Rightarrow> (timeo option \<times> 'w sys) option" where
  "sys_pass wait s = (case sys_next s of
       [] \<Rightarrow> do { (time_needed, w) \<leftarrow> wait 0 (sys_world s); Some (None, s\<lparr>sys_world := w\<rparr>) }
     | t # ts \<Rightarrow> do {
         (time_needed, w) \<leftarrow> (if tm_time t > 0 then wait (tm_time t) (sys_world s) else Some (SYS_ARCH_TIMEOUT, sys_world s));
         let s = s\<lparr>sys_world := w\<rparr>;
         if time_needed = SYS_ARCH_TIMEOUT
         then Some (Some t, s\<lparr>sys_next := ts, sys_free := sys_free s + 1\<rparr>)
         else Some (None, s\<lparr>sys_next := t\<lparr>tm_time := if time_needed < tm_time t then tm_time t - time_needed else 0\<rparr> # ts\<rparr>) })"

definition sswt_handler :: "(nat \<Rightarrow> 'w \<Rightarrow> 'w) \<Rightarrow> nat \<Rightarrow> 'w sys \<Rightarrow> 'w sys" where
  "sswt_handler signal cb s = s\<lparr>sys_flag := (sys_flag s)(cb := True), sys_world := signal (sys_psem s cb) (sys_world s)\<rparr>"

definition call_timer :: "(nat \<Rightarrow> 'w \<Rightarrow> 'w) \<Rightarrow> (nat \<Rightarrow> nat \<Rightarrow> 'w sys \<Rightarrow> 'w sys option) \<Rightarrow> timeo \<Rightarrow> 'w sys \<Rightarrow> 'w sys option" where
  "call_timer signal call t s = (case tm_h t of None \<Rightarrow> Some s
     | Some SSWT_HANDLER \<Rightarrow> Some (sswt_handler signal (tm_arg t) s)
     | Some (HANDLER h) \<Rightarrow> call h (tm_arg t) s)"

partial_function (option) sys_mbox_fetch ::
    "(u32_t \<Rightarrow> 'w \<Rightarrow> (u32_t \<times> 'w) option) \<Rightarrow> (nat \<Rightarrow> 'w \<Rightarrow> 'w) \<Rightarrow> (nat \<Rightarrow> nat \<Rightarrow> 'w sys \<Rightarrow> 'w sys option) \<Rightarrow> 'w sys \<Rightarrow> 'w sys option" where
  "sys_mbox_fetch wait signal call s = do {
     (expired, s) \<leftarrow> sys_pass wait s;
     case expired of None \<Rightarrow> Some s
     | Some t \<Rightarrow> do { s \<leftarrow> call_timer signal call t s; sys_mbox_fetch wait signal call s } }"

partial_function (option) sys_sem_wait ::
    "(nat \<Rightarrow> u32_t \<Rightarrow> 'w \<Rightarrow> (u32_t \<times> 'w) option) \<Rightarrow> (nat \<Rightarrow> 'w \<Rightarrow> 'w) \<Rightarrow> (nat \<Rightarrow> nat \<Rightarrow> 'w sys \<Rightarrow> 'w sys option) \<Rightarrow> nat \<Rightarrow> 'w sys \<Rightarrow> 'w sys option" where
  "sys_sem_wait wait signal call sem s = do {
     (expired, s) \<leftarrow> sys_pass (wait sem) s;
     case expired of None \<Rightarrow> Some s
     | Some t \<Rightarrow> do { s \<leftarrow> call_timer signal call t s; sys_sem_wait wait signal call sem s } }"

text \<open>\<open>cb\<close> is the address of the callback object on the stack.\<close>

definition sys_sem_wait_timeout ::
    "(nat \<Rightarrow> u32_t \<Rightarrow> 'w \<Rightarrow> (u32_t \<times> 'w) option) \<Rightarrow> (nat \<Rightarrow> 'w \<Rightarrow> 'w) \<Rightarrow> (nat \<Rightarrow> nat \<Rightarrow> 'w sys \<Rightarrow> 'w sys option) \<Rightarrow> nat \<Rightarrow> nat \<Rightarrow> u32_t \<Rightarrow> 'w sys \<Rightarrow> (int \<times> 'w sys) option" where
  "sys_sem_wait_timeout wait signal call cb sem timeout s = do {
     let s = s\<lparr>sys_psem := (sys_psem s)(cb := sem), sys_flag := (sys_flag s)(cb := False)\<rparr>;
     s \<leftarrow> (if timeout > 0 then sys_timeout timeout (Some SSWT_HANDLER) cb s else Some s);
     s \<leftarrow> sys_sem_wait wait signal call sem s;
     Some (if sys_flag s cb then (0, s) else (1, sys_untimeout (Some SSWT_HANDLER) cb s)) }"

definition sys_msleep ::
    "(nat \<Rightarrow> u32_t \<Rightarrow> 'w \<Rightarrow> (u32_t \<times> 'w) option) \<Rightarrow> (nat \<Rightarrow> 'w \<Rightarrow> 'w) \<Rightarrow> (nat \<Rightarrow> nat \<Rightarrow> 'w sys \<Rightarrow> 'w sys option) \<Rightarrow>
     ('w \<Rightarrow> nat \<times> 'w) \<Rightarrow> (nat \<Rightarrow> 'w \<Rightarrow> 'w) \<Rightarrow> nat \<Rightarrow> u32_t \<Rightarrow> 'w sys \<Rightarrow> 'w sys option" where
  "sys_msleep wait signal call sem_new sem_free cb ms s = do {
     let (delaysem, w) = sem_new (sys_world s);
     (r, s) \<leftarrow> sys_sem_wait_timeout wait signal call cb delaysem ms (s\<lparr>sys_world := w\<rparr>);
     Some (s\<lparr>sys_world := sem_free delaysem (sys_world s)\<rparr>) }"

end
