(* ===== verification/Timeouts_Run.thy ===== *)
theory Timeouts_Run
  imports Timeouts Runs
begin

text \<open>
  The timers keep their times. A list of timers stands for the sorted list of the times at which they are due; starting
  and stopping a timer insert and delete one of these, waiting brings all of them nearer, and no timer is
  called before it is due.
\<close>

subsection \<open>Deadlines\<close>

type_synonym deadline = "nat \<times> handler option \<times> nat"

fun deadlines_from :: "nat \<Rightarrow> timeo list \<Rightarrow> deadline list" where
  "deadlines_from d [] = []"
| "deadlines_from d (t # ts) = (d + unat (tm_time t), tm_h t, tm_arg t) # deadlines_from (d + unat (tm_time t)) ts"

abbreviation deadlines :: "timeo list \<Rightarrow> deadline list" where
  "deadlines \<equiv> deadlines_from 0"

definition span :: "timeo list \<Rightarrow> nat" where
  "span ts = sum_list (map (unat \<circ> tm_time) ts)"

lemma span_simps [simp]: "span [] = 0" "span (t # ts) = unat (tm_time t) + span ts"
  by (simp_all add: span_def)

lemma deadlines_shift: "deadlines_from (d + c) ts = map (apfst ((+) c)) (deadlines_from d ts)"
proof (induction ts arbitrary: d)
  case (Cons t ts)
  have "d + c + unat (tm_time t) = d + unat (tm_time t) + c" by simp
  then show ?case using Cons [of "d + unat (tm_time t)"] by (simp only: deadlines_from.simps list.map) simp
qed simp

lemma length_deadlines [simp]: "length (deadlines_from d ts) = length ts"
  by (induction ts arbitrary: d) simp_all

lemma late_deadlines: "n < d \<Longrightarrow> takeWhile (\<lambda>x. fst x \<le> n) (deadlines_from d ts) = [] \<and> dropWhile (\<lambda>x. fst x \<le> n) (deadlines_from d ts) = deadlines_from d ts"
  by (cases ts) simp_all

lemma length_due: "length (takeWhile P xs @ [x] @ dropWhile P xs) = Suc (length xs)"
proof -
  have "length (takeWhile P xs @ dropWhile P xs) = length xs" by (simp only: takeWhile_dropWhile_id)
  then have "length (takeWhile P xs) + length (dropWhile P xs) = length xs" unfolding length_append .
  then show ?thesis by simp
qed

text \<open>Where a new timer goes: behind those that are due at the same time.\<close>

definition due_insert :: "deadline \<Rightarrow> deadline list \<Rightarrow> deadline list" where
  "due_insert x ds = takeWhile (\<lambda>y. fst y \<le> fst x) ds @ [x] @ dropWhile (\<lambda>y. fst y \<le> fst x) ds"

lemma timeout_insert_ok:
  "tm_time t \<le> tm_time n \<Longrightarrow> deadlines_from d (timeout_insert n (t # ts)) =
    due_insert (d + unat (tm_time n), tm_h n, tm_arg n) (deadlines_from d (t # ts)) \<and> span (timeout_insert n (t # ts)) = max (span (t # ts)) (unat (tm_time n))"
proof (induction n "t # ts" arbitrary: d t ts rule: timeout_insert.induct)
  case (2 n t)
  then show ?case by (simp add: due_insert_def unat_sub word_le_nat_alt)
next
  case (3 n t u ts)
  let ?n = "n\<lparr>tm_time := tm_time n - tm_time t\<rparr>"
  have le: "unat (tm_time t) \<le> unat (tm_time n)" using 3(2) by (simp add: word_le_nat_alt)
  have s: "unat (tm_time n - tm_time t) = unat (tm_time n) - unat (tm_time t)" by (rule unat_sub [OF 3(2)])
  show ?case
  proof (cases "tm_time u > tm_time ?n")
    case True
    then have lt: "unat (tm_time n) - unat (tm_time t) < unat (tm_time u)" by (simp add: word_less_nat_alt s)
    have su: "unat (tm_time u - (tm_time n - tm_time t)) = unat (tm_time u) - (unat (tm_time n) - unat (tm_time t))"
      using unat_sub [of "tm_time n - tm_time t" "tm_time u"] True s by simp
    have "d + unat (tm_time n) < d + unat (tm_time t) + unat (tm_time u)" using lt le by linarith
    then show ?thesis using True le lt su s by (auto simp: due_insert_def late_deadlines Let_def add.assoc) (simp add: add.commute)
  next
    case False
    then have "tm_time u \<le> tm_time ?n" by simp
    from 3(1) [OF refl _ this, of "d + unat (tm_time t)"] False
    have "deadlines_from (d + unat (tm_time t)) (timeout_insert ?n (u # ts)) =
        due_insert (d + unat (tm_time n), tm_h n, tm_arg n) (deadlines_from (d + unat (tm_time t)) (u # ts))"
      "span (timeout_insert ?n (u # ts)) = max (span (u # ts)) (unat (tm_time n) - unat (tm_time t))"
      using le s by simp_all
    then show ?thesis using False le by (simp add: due_insert_def Let_def)
  qed
qed

lemma sys_timeout_ok:
  assumes "0 < sys_free s"
  shows "\<exists>s'. sys_timeout msecs h arg s = Some s' \<and> deadlines (sys_next s') = due_insert (unat msecs, h, arg) (deadlines (sys_next s)) \<and>
    span (sys_next s') = max (span (sys_next s)) (unat msecs) \<and> sys_free s' = sys_free s - 1 \<and> sys_others s' = sys_others s \<and> sys_world s' = sys_world s \<and>
    length (sys_next s') = Suc (length (sys_next s))"
proof -
  let ?n = "\<lparr>tm_time = msecs, tm_h = h, tm_arg = arg\<rparr>"
  define ts' where "ts' = (case sys_next s of [] \<Rightarrow> [?n]
       | t # ts \<Rightarrow> if tm_time t > msecs then ?n # t\<lparr>tm_time := tm_time t - msecs\<rparr> # ts else timeout_insert ?n (t # ts))"
  have "deadlines ts' = due_insert (unat msecs, h, arg) (deadlines (sys_next s)) \<and> span ts' = max (span (sys_next s)) (unat msecs)"
  proof (cases "sys_next s")
    case Nil
    then show ?thesis by (simp add: ts'_def due_insert_def)
  next
    case (Cons t ts)
    show ?thesis
    proof (cases "tm_time t > msecs")
      case True
      then have "unat msecs < unat (tm_time t)" "unat (tm_time t - msecs) = unat (tm_time t) - unat msecs"
        using unat_sub [OF less_imp_le [OF True]] by (simp_all add: word_less_nat_alt)
      then show ?thesis using True Cons by (simp add: ts'_def due_insert_def)
    next
      case False
      then show ?thesis using timeout_insert_ok [of t ?n 0 ts] Cons by (simp add: ts'_def)
    qed
  qed
  moreover from this have "length ts' = Suc (length (sys_next s))"
  proof -
    have "length (deadlines ts') = length (due_insert (unat msecs, h, arg) (deadlines (sys_next s)))" using calculation by simp
    then show ?thesis unfolding due_insert_def length_due by simp
  qed
  moreover have "sys_timeout msecs h arg s = Some (s\<lparr>sys_free := sys_free s - 1, sys_next := ts'\<rparr>)"
    using assms unfolding sys_timeout_def ts'_def by (simp add: guard_def Let_def)
  ultimately show ?thesis by simp
qed

subsection \<open>Stopping\<close>

fun due_delete :: "handler option \<Rightarrow> nat \<Rightarrow> deadline list \<Rightarrow> deadline list" where
  "due_delete h arg [] = []"
| "due_delete h arg (x # xs) = (if snd x = (h, arg) then xs else x # due_delete h arg xs)"

lemma untimeout_loop_ok:
  assumes "span ts < 2 ^ 32"
  shows "case untimeout_loop h arg ts of
      None \<Rightarrow> (h, arg) \<notin> snd ` set (deadlines_from d ts) \<and> due_delete h arg (deadlines_from d ts) = deadlines_from d ts
    | Some ts' \<Rightarrow> deadlines_from d ts' = due_delete h arg (deadlines_from d ts) \<and> span ts' \<le> span ts \<and> Suc (length ts') = length ts"
  using assms
proof (induction ts arbitrary: d)
  case (Cons t ts)
  show ?case
  proof (cases "tm_h t = h \<and> tm_arg t = arg")
    case True
    have "unat (tm_time u + tm_time t) = unat (tm_time u) + unat (tm_time t)" if "ts = u # us" for u us
      using Cons.prems that by (simp add: unat_word_ariths)
    then show ?thesis using True by (cases ts) (simp_all add: add.assoc add.commute add.left_commute)
  next
    case False
    have "span ts < 2 ^ 32" using Cons.prems by simp
    from Cons.IH [OF this, of "d + unat (tm_time t)"] show ?thesis using False by (cases "untimeout_loop h arg ts") auto
  qed
qed simp

subsection \<open>Waiting\<close>

text \<open>A port that waits as long as it says, by the clock \<open>now\<close>.\<close>

definition waits :: "('w \<Rightarrow> nat) \<Rightarrow> (u32_t \<Rightarrow> 'w \<Rightarrow> (u32_t \<times> 'w) option) \<Rightarrow> bool" where
  "waits now wait \<longleftrightarrow> (\<forall>t w n w'. wait t w = Some (n, w') \<longrightarrow> now w + unat (if n = SYS_ARCH_TIMEOUT then t else n) \<le> now w')"

text \<open>The promised times \<open>A\<close>, by the clock, are kept by the deadlines of the list.\<close>

definition kept :: "('w \<Rightarrow> nat) \<Rightarrow> 'w sys \<Rightarrow> deadline list \<Rightarrow> bool" where
  "kept now s A \<longleftrightarrow> list_all2 (\<lambda>x y. fst y \<le> now (sys_world s) + fst x \<and> snd y = snd x) (deadlines (sys_next s)) A"

definition timers_ok :: "'w sys \<Rightarrow> bool" where
  "timers_ok s \<longleftrightarrow> span (sys_next s) < 2 ^ 32 \<and> sys_free s + length (sys_next s) + sys_others s = MEMP_NUM_SYS_TIMEOUT"

lemma kept_later: "kept now s A \<Longrightarrow> sys_next s' = sys_next s \<Longrightarrow> now (sys_world s) \<le> now (sys_world s') \<Longrightarrow> kept now s' A"
  unfolding kept_def by (auto elim!: list_all2_mono)

text \<open>The place of a new timer among the promised ones.\<close>

definition due_place :: "u32_t \<Rightarrow> 'w sys \<Rightarrow> nat" where
  "due_place msecs s = length (takeWhile (\<lambda>x. fst x \<le> unat msecs) (deadlines (sys_next s)))"

definition promise :: "('w \<Rightarrow> nat) \<Rightarrow> u32_t \<Rightarrow> handler option \<Rightarrow> nat \<Rightarrow> 'w sys \<Rightarrow> deadline list \<Rightarrow> deadline list" where
  "promise now msecs h arg s A = take (due_place msecs s) A @ [(now (sys_world s) + unat msecs, h, arg)] @ drop (due_place msecs s) A"

lemma kept_timeout:
  assumes "kept now s A" "timers_ok s" "sys_timeout msecs h arg s = Some s'"
  shows "kept now s' (promise now msecs h arg s A)" "timers_ok s'"
proof -
  have f: "0 < sys_free s" using assms(3) by (auto simp: sys_timeout_def guard_def split: if_splits)
  have o: "deadlines (sys_next s') = due_insert (unat msecs, h, arg) (deadlines (sys_next s))" "span (sys_next s') = max (span (sys_next s)) (unat msecs)"
    "sys_free s' = sys_free s - 1" "sys_others s' = sys_others s" "sys_world s' = sys_world s" "length (sys_next s') = Suc (length (sys_next s))"
    using sys_timeout_ok [OF f, of msecs h arg] assms(3) by auto
  let ?P = "\<lambda>x. fst x \<le> unat msecs" and ?R = "\<lambda>x y. fst y \<le> now (sys_world s) + fst x \<and> snd y = snd x"
  have k: "list_all2 ?R (deadlines (sys_next s)) A" using assms(1) by (simp add: kept_def)
  have "list_all2 ?R (takeWhile ?P (deadlines (sys_next s))) (take (due_place msecs s) A)"
    using list_all2_takeI [OF k, of "due_place msecs s"] takeWhile_eq_take [of ?P "deadlines (sys_next s)"] unfolding due_place_def by metis
  moreover have "list_all2 ?R (dropWhile ?P (deadlines (sys_next s))) (drop (due_place msecs s) A)"
    using list_all2_dropI [OF k, of "due_place msecs s"] dropWhile_eq_drop [of ?P "deadlines (sys_next s)"] unfolding due_place_def by metis
  ultimately show "kept now s' (promise now msecs h arg s A)"
    unfolding kept_def promise_def o(1,5) due_insert_def by (intro list_all2_appendI) simp_all
  show "timers_ok s'" using assms(2) f o(2,3,4,6) unsigned_less [of msecs] by (simp add: timers_ok_def)
qed

lemma kept_delete: "list_all2 (\<lambda>x y. fst y \<le> c + fst x \<and> snd y = snd x) ds A \<Longrightarrow> list_all2 (\<lambda>x y. fst y \<le> c + fst x \<and> snd y = snd x) (due_delete h arg ds) (due_delete h arg A)"
  by (induction rule: list_all2_induct) auto

lemma sys_untimeout_ok:
  assumes "timers_ok s"
  shows "deadlines (sys_next (sys_untimeout h arg s)) = due_delete h arg (deadlines (sys_next s)) \<and> timers_ok (sys_untimeout h arg s) \<and>
    sys_world (sys_untimeout h arg s) = sys_world s"
proof -
  have sp: "span (sys_next s) < 2 ^ 32" using assms by (simp add: timers_ok_def)
  show ?thesis using untimeout_loop_ok [OF sp, of h arg 0] assms
    by (cases "untimeout_loop h arg (sys_next s)") (auto simp: sys_untimeout_def timers_ok_def)
qed

text \<open>One pass of the waiting loop.\<close>

lemma sys_pass_ok:
  assumes w: "waits now wait" and k: "kept now s A" and t: "timers_ok s" and p: "sys_pass wait s = Some (r, s')"
  shows "timers_ok s' \<and> (case r of None \<Rightarrow> kept now s' A
    | Some t \<Rightarrow> A \<noteq> [] \<and> fst (hd A) \<le> now (sys_world s') \<and> snd (hd A) = (tm_h t, tm_arg t) \<and> kept now s' (tl A))"
proof (cases "sys_next s")
  case Nil
  obtain n w' where n: "wait 0 (sys_world s) = Some (n, w')" "r = None" "s' = s\<lparr>sys_world := w'\<rparr>"
    using p Nil by (auto simp: sys_pass_def split: Option.bind_splits)
  have "now (sys_world s) \<le> now w'" using w n(1) unfolding waits_def by fastforce
  then show ?thesis using kept_later [OF k, of s'] n t by (simp add: timers_ok_def)
next
  case (Cons t ts)
  let ?d = "unat (tm_time t)"
  obtain n w' where n: "(if tm_time t > 0 then wait (tm_time t) (sys_world s) else Some (SYS_ARCH_TIMEOUT, sys_world s)) = Some (n, w')"
    using p Cons by (auto simp: sys_pass_def split: Option.bind_splits)
  have nw: "now (sys_world s) + unat (if n = SYS_ARCH_TIMEOUT then tm_time t else n) \<le> now w'"
  proof (cases "tm_time t > 0")
    case True
    then show ?thesis using w n unfolding waits_def by simp
  next
    case False
    then have "tm_time t = 0" by (simp add: word_neq_0_conv [symmetric])
    then show ?thesis using n by auto
  qed
  obtain a B where A: "A = a # B" "fst a \<le> now (sys_world s) + ?d" "snd a = (tm_h t, tm_arg t)"
    "list_all2 (\<lambda>x y. fst y \<le> now (sys_world s) + fst x \<and> snd y = snd x) (deadlines_from ?d ts) B"
    using k Cons by (auto simp: kept_def list_all2_Cons1)
  have sh: "deadlines_from (e + c) ts = map (apfst ((+) c)) (deadlines_from e ts)" for e c by (rule deadlines_shift)
  show ?thesis
  proof (cases "n = SYS_ARCH_TIMEOUT")
    case True
    have res: "r = Some t" "s' = s\<lparr>sys_world := w', sys_next := ts, sys_free := sys_free s + 1\<rparr>"
      using p Cons n True by (auto simp: sys_pass_def Let_def split: if_splits)
    have "list_all2 (\<lambda>x y. fst y \<le> now w' + fst x \<and> snd y = snd x) (deadlines ts) B"
      using A(4) sh [of 0 ?d] nw True by (auto simp: list_all2_map1 elim!: list_all2_mono)
    then have "kept now s' B" using res by (simp add: kept_def)
    then show ?thesis using res A(1-3) nw True t Cons by (simp add: timers_ok_def)
  next
    case False
    let ?v = "if n < tm_time t then tm_time t - n else 0"
    have res: "r = None" "s' = s\<lparr>sys_world := w', sys_next := t\<lparr>tm_time := ?v\<rparr> # ts\<rparr>"
      using p Cons n False by (auto simp: sys_pass_def Let_def split: if_splits)
    have v: "?d \<le> unat ?v + unat n" "unat ?v \<le> ?d"
      using unat_sub [of n "tm_time t"] by (auto simp: word_less_nat_alt word_le_nat_alt)
    have nw': "now (sys_world s) + unat n \<le> now w'" using nw False by simp
    have "deadlines_from ?d ts = map (apfst ((+) (?d - unat ?v))) (deadlines_from (unat ?v) ts)" using sh [of "unat ?v" "?d - unat ?v"] v(2) by simp
    then have "list_all2 (\<lambda>x y. fst y \<le> now w' + fst x \<and> snd y = snd x) (deadlines_from (unat ?v) ts) B"
      using A(4) v(1) nw' by (auto simp: list_all2_map1 elim!: list_all2_mono)
    moreover have "fst a \<le> now w' + unat ?v" using A(2) v(1) nw' by linarith
    ultimately have "kept now s' A" using res A(1,3) by (simp add: kept_def)
    then show ?thesis using res t Cons v(2) by (simp add: timers_ok_def)
  qed
qed

subsection \<open>Runs\<close>

text \<open>
  A run of a thread, with the promised times as a ghost: it starts and stops timers, waits, takes out timers
  that expire, and its handlers and clients change the rest of the state, and the other threads take elements of the pool and give them back,
  while the clock goes on.
\<close>

inductive timer_step :: "('w \<Rightarrow> nat) \<Rightarrow> (u32_t \<Rightarrow> 'w \<Rightarrow> (u32_t \<times> 'w) option) \<Rightarrow> 'w sys \<times> deadline list \<Rightarrow> 'w sys \<times> deadline list \<Rightarrow> bool"
  for now wait where
  start: "sys_timeout msecs h arg s = Some s' \<Longrightarrow> timer_step now wait (s, A) (s', promise now msecs h arg s A)"
| stop: "timer_step now wait (s, A) (sys_untimeout h arg s, due_delete h arg A)"
| wake: "sys_pass wait s = Some (None, s') \<Longrightarrow> timer_step now wait (s, A) (s', A)"
| expire: "sys_pass wait s = Some (Some t, s') \<Longrightarrow> timer_step now wait (s, A) (s', tl A)"
| other: "sys_next s' = sys_next s \<Longrightarrow> sys_free s' + sys_others s' = sys_free s + sys_others s \<Longrightarrow> now (sys_world s) \<le> now (sys_world s') \<Longrightarrow> timer_step now wait (s, A) (s', A)"

definition no_timers :: "'w \<Rightarrow> 'w sys" where
  "no_timers w = \<lparr>sys_next = [], sys_free = MEMP_NUM_SYS_TIMEOUT, sys_others = 0, sys_flag = (\<lambda>_. False), sys_psem = (\<lambda>_. 0), sys_world = w\<rparr>"

lemma timer_step_ok:
  assumes "timer_step now wait c d" "waits now wait" "timers_ok (fst c)" "kept now (fst c) (snd c)"
  shows "timers_ok (fst d) \<and> kept now (fst d) (snd d)"
  using assms
proof (induction rule: timer_step.induct)
  case (start msecs h arg s s' A)
  then show ?case using kept_timeout [of now s A msecs h arg s'] by simp
next
  case (stop s A h arg)
  then show ?case using sys_untimeout_ok [of s h arg] kept_delete [of "now (sys_world s)" "deadlines (sys_next s)" A h arg] by (simp add: kept_def)
next
  case (wake s s' A)
  then show ?case using sys_pass_ok [of now wait s A None s'] by simp
next
  case (expire s t s' A)
  then show ?case using sys_pass_ok [of now wait s A "Some t" s'] by simp
next
  case (other s' s A)
  then show ?case using kept_later [of now s A s'] by (simp add: timers_ok_def)
qed

definition timer_reach :: "('w \<Rightarrow> nat) \<Rightarrow> (u32_t \<Rightarrow> 'w \<Rightarrow> (u32_t \<times> 'w) option) \<Rightarrow> 'w sys \<Rightarrow> deadline list \<Rightarrow> bool" where
  "timer_reach now wait s A \<longleftrightarrow> (\<exists>w. (timer_step now wait)\<^sup>*\<^sup>* (no_timers w, []) (s, A))"

interpretation timer_run: state_machine "timer_step now wait" "\<lambda>c. waits now wait \<and> timers_ok (fst c) \<and> kept now (fst c) (snd c)" for now wait
  by unfold_locales (use timer_step_ok in blast)

lemma timer_reach_ok:
  assumes "waits now wait" "timer_reach now wait s A"
  shows "timers_ok s" "kept now s A"
proof -
  obtain w where r: "(timer_step now wait)\<^sup>*\<^sup>* (no_timers w, []) (s, A)" using assms(2) by (auto simp: timer_reach_def)
  have "timers_ok (no_timers w)" "kept now (no_timers w) []" by (simp_all add: timers_ok_def kept_def no_timers_def)
  then show "timers_ok s" "kept now s A" using timer_run.run_keeps [OF r] assms(1) by simp_all
qed

text \<open>The function that waits is such a run, when the handlers are.\<close>

lemma fetch_runs:
  assumes h: "\<And>h a s A s'. call h a s = Some s' \<Longrightarrow> \<exists>A'. (timer_step now wait)\<^sup>*\<^sup>* (s, A) (s', A')"
    and n: "\<And>i w. now w \<le> now (signal i w)"
    and f: "sys_mbox_fetch wt sg cl s = Some s'" "wt = wait" "sg = signal" "cl = call"
  shows "\<exists>A'. (timer_step now wait)\<^sup>*\<^sup>* (s, A) (s', A')"
  using f
proof (induction arbitrary: A rule: sys_mbox_fetch.raw_induct [rotated, consumes 1, case_names run])
  case (run fetch wt sg cl s s')
  obtain r s1 where p: "sys_pass wait s = Some (r, s1)" using run(2,3) by (cases "sys_pass wait s") auto
  show ?case
  proof (cases r)
    case None
    then have "s' = s1" using run(2,3) p by simp
    moreover have "timer_step now wait (s, A) (s1, A)" using p None by (simp add: timer_step.wake)
    ultimately show ?thesis by blast
  next
    case (Some t)
    obtain s2 where c: "call_timer signal call t s1 = Some s2" "fetch wait signal call s2 = Some s'"
      using run(2-5) p Some by (cases "call_timer signal call t s1") auto
    have e: "timer_step now wait (s, A) (s1, tl A)" using p Some by (simp add: timer_step.expire)
    have "\<exists>B. (timer_step now wait)\<^sup>*\<^sup>* (s1, tl A) (s2, B)"
    proof (cases "tm_h t")
      case None
      then show ?thesis using c(1) by (auto simp: call_timer_def)
    next
      case (Some h)
      show ?thesis
      proof (cases h)
        case SSWT_HANDLER
        then have "s2 = sswt_handler signal (tm_arg t) s1" using c(1) Some by (simp add: call_timer_def)
        then have "timer_step now wait (s1, tl A) (s2, tl A)" using n by (intro timer_step.other) (simp_all add: sswt_handler_def)
        then show ?thesis by blast
      next
        case (HANDLER k)
        then show ?thesis using c(1) Some h [of k "tm_arg t" s1 s2] by (simp add: call_timer_def)
      qed
    qed
    then obtain B where "(timer_step now wait)\<^sup>*\<^sup>* (s1, tl A) (s2, B)" by blast
    moreover obtain A' where "(timer_step now wait)\<^sup>*\<^sup>* (s2, B) (s', A')" using run(1) [OF c(2) refl refl refl] by blast
    ultimately show ?thesis using e by (meson converse_rtranclp_into_rtranclp rtranclp_trans)
  qed
qed

lemma deadlines_inject: "deadlines_from d ts = deadlines_from d us \<Longrightarrow> ts = us"
proof (induction ts arbitrary: d us)
  case Nil
  then show ?case by (cases us) simp_all
next
  case (Cons t ts)
  then obtain u us' where u: "us = u # us'" by (cases us) simp_all
  then have e: "tm_time t = tm_time u" "tm_h t = tm_h u" "tm_arg t = tm_arg u" using Cons.prems by (simp_all add: word_unat_eq_iff)
  moreover have "ts = us'" using Cons.IH [of "d + unat (tm_time t)" us'] Cons.prems u by (simp add: e(1))
  ultimately show ?case using u by simp
qed

lemma due_delete_insert: "(h, arg) \<notin> snd ` set ds \<Longrightarrow> due_delete h arg (due_insert (c, h, arg) ds) = ds"
proof -
  have a: "(h, arg) \<notin> snd ` set xs \<Longrightarrow> due_delete h arg (xs @ ys) = xs @ due_delete h arg ys" for xs ys by (induction xs) auto
  assume "(h, arg) \<notin> snd ` set ds"
  then have "(h, arg) \<notin> snd ` set (takeWhile (\<lambda>y. fst y \<le> c) ds)" by (auto dest: set_takeWhileD)
  then show ?thesis by (simp add: due_insert_def a)
qed

lemma snd_deadlines: "snd ` set (deadlines_from d ts) = (\<lambda>t. (tm_h t, tm_arg t)) ` set ts"
  by (induction ts arbitrary: d) simp_all

end
