(* ===== verification/Timeouts_Correct.thy ===== *)
theory Timeouts_Correct
  imports Timeouts_Run
begin

text \<open>
  The properties of the timers, with a thread whose only events are timeouts as their witness.
\<close>

subsection \<open>A concrete thread\<close>

text \<open>Its world is the clock.\<close>

definition demo_wait :: "u32_t \<Rightarrow> nat \<Rightarrow> (u32_t \<times> nat) option" where
  "demo_wait t w = Some (SYS_ARCH_TIMEOUT, w + unat t)"

definition demo_timers :: "nat sys" where
  "demo_timers = (no_timers 100)\<lparr>sys_next := [\<lparr>tm_time = 5, tm_h = Some (HANDLER 1), tm_arg = 0\<rparr>], sys_free := 2\<rparr>"

definition demo_timers2 :: "nat sys" where
  "demo_timers2 = demo_timers\<lparr>sys_next := [\<lparr>tm_time = 3, tm_h = Some (HANDLER 2), tm_arg = 0\<rparr>, \<lparr>tm_time = 2, tm_h = Some (HANDLER 1), tm_arg = 0\<rparr>], sys_free := 1\<rparr>"

lemma demo_port_waits: "waits id demo_wait"
  by (simp add: waits_def demo_wait_def)

lemma demo_timers: "sys_timeout 5 (Some (HANDLER 1)) 0 (no_timers 100) = Some demo_timers" "timers_ok demo_timers"
  "sys_timeout 3 (Some (HANDLER 2)) 0 demo_timers = Some demo_timers2"
  by (simp_all add: sys_timeout_def no_timers_def MEMP_NUM_SYS_TIMEOUT_def guard_def demo_timers_def timers_ok_def demo_timers2_def)

subsection \<open>Properties\<close>

text \<open>C32: \<open>sys_timeout\<close> inserts into the sorted list of deadlines. The list of times left, each counted from the one before, stands
  for the list of the deadlines; a new timer goes behind those that are due no later than it, and no other deadline changes. When the pool
  of timeouts is used up, the assertion of the function fails.\<close>
theorem sys_timeout_inserts:
  "if sys_free s = 0 then sys_timeout msecs h arg s = None
   else \<exists>s'. sys_timeout msecs h arg s = Some s' \<and> sys_free s' = sys_free s - 1 \<and> sys_world s' = sys_world s \<and>
     deadlines (sys_next s') = takeWhile (\<lambda>y. fst y \<le> unat msecs) (deadlines (sys_next s)) @ [(unat msecs, h, arg)] @
       dropWhile (\<lambda>y. fst y \<le> unat msecs) (deadlines (sys_next s))"
  using sys_timeout_ok [of s msecs h arg] by (auto simp: due_insert_def sys_timeout_def guard_def)

text \<open>\<open>sys_untimeout\<close> undoes \<open>sys_timeout\<close>: when no other timer has the same handler and argument, stopping the timer that was just
  started gives the state back, with all times that were left, wherever in the list it was.\<close>
theorem sys_untimeout_undoes:
  assumes "timers_ok s" "sys_timeout msecs h arg s = Some s1" "(h, arg) \<notin> (\<lambda>t. (tm_h t, tm_arg t)) ` set (sys_next s)"
  shows "sys_untimeout h arg s1 = s"
proof -
  have f: "0 < sys_free s" using assms(2) by (auto simp: sys_timeout_def guard_def split: if_splits)
  have o: "deadlines (sys_next s1) = due_insert (unat msecs, h, arg) (deadlines (sys_next s))" "span (sys_next s1) = max (span (sys_next s)) (unat msecs)"
    using sys_timeout_ok [OF f, of msecs h arg] assms(2) by auto
  obtain us where s1: "s1 = s\<lparr>sys_free := sys_free s - 1, sys_next := us\<rparr>"
    using assms(2) by (auto simp: sys_timeout_def guard_def Let_def split: if_splits)
  have sp: "span us < 2 ^ 32" using assms(1) o(2) s1 unsigned_less [of msecs] by (simp add: timers_ok_def)
  have nin: "(h, arg) \<notin> snd ` set (deadlines (sys_next s))" using assms(3) by (simp only: snd_deadlines not_False_eq_True)
  have ous: "deadlines us = due_insert (unat msecs, h, arg) (deadlines (sys_next s))" using o(1) s1 by simp
  have "(h, arg) \<in> snd ` set (deadlines us)" unfolding ous due_insert_def by (simp add: image_iff)
  then obtain ts' where u: "untimeout_loop h arg us = Some ts'" "deadlines ts' = due_delete h arg (deadlines us)"
    using untimeout_loop_ok [OF sp, of h arg 0] by (cases "untimeout_loop h arg us") auto
  have "deadlines ts' = deadlines (sys_next s)" unfolding u(2) ous by (rule due_delete_insert [OF nin])
  then have "ts' = sys_next s" by (rule deadlines_inject)
  then show ?thesis using u(1) f by (simp add: s1 sys_untimeout_def)
qed

theorem sys_untimeout_undoes_witness:
  "sys_untimeout (Some (HANDLER 2)) 0 demo_timers2 = demo_timers"
  by (rule sys_untimeout_undoes [OF demo_timers(2,3)]) (simp add: demo_timers_def)

text \<open>C31: No timer runs early. In every state a thread reaches by starting and stopping timers, waiting and running their handlers, with a port
  that waits at least as long as it reports, a timer that expires is the first one promised, and the time at which it was to be called has
  come; the times left never wrap, and every entry that is not in the list is in the pool or in the list of another thread; the other threads may
  take elements of the pool and give them back at any time.\<close>
theorem timers_never_early:
  assumes "waits now wait" "timer_reach now wait s A" "sys_pass wait s = Some (Some t, s')"
  shows "A \<noteq> [] \<and> fst (hd A) \<le> now (sys_world s') \<and> snd (hd A) = (tm_h t, tm_arg t) \<and>
    span (sys_next s') < 2 ^ 32 \<and> sys_free s' + length (sys_next s') + sys_others s' = MEMP_NUM_SYS_TIMEOUT"
  using sys_pass_ok [OF assms(1) timer_reach_ok(2,1) [OF assms(1,2)] assms(3)] by (simp add: timers_ok_def)

theorem timers_never_early_witness:
  "\<exists>A t s'. timer_reach id demo_wait demo_timers A \<and> sys_pass demo_wait demo_timers = Some (Some t, s') \<and> fst (hd A) = 105 \<and>
    105 \<le> sys_world s' \<and> tm_h t = Some (HANDLER 1)"
proof -
  let ?A = "promise id 5 (Some (HANDLER 1)) 0 (no_timers 100) []"
  have st: "timer_step id demo_wait (no_timers 100, []) (demo_timers, ?A)" by (rule timer_step.start [OF demo_timers(1)])
  have r: "timer_reach id demo_wait demo_timers ?A"
    unfolding timer_reach_def using st by (intro exI [of _ 100] r_into_rtranclp)
  obtain t s' where p: "sys_pass demo_wait demo_timers = Some (Some t, s')"
    by (simp add: sys_pass_def demo_timers_def demo_wait_def)
  have "?A = [(105, Some (HANDLER 1), 0)]" by (simp add: promise_def no_timers_def)
  then show ?thesis using timers_never_early [OF demo_port_waits r p] r p by (intro exI [of _ ?A] exI [of _ t] exI [of _ s']) auto
qed

end
