(* ===== verification/Ip_Frag.thy ===== *)
theory Ip_Frag
  imports Etharp
begin

text \<open>
  The IP header of \<open>lwip/src/include/ipv4/lwip/ip.h\<close> and the fragmentation of outgoing packets, \<open>ip_frag\<close> of
  \<open>lwip/src/core/ipv4/ip_frag.c\<close> (\<open>IP_FRAG_USES_STATIC_BUF\<close> is 0).

  A chain is the list of the payloads of its pbufs, as for the checksums; the first one starts with the IP
  header. \<open>netif->output\<close> takes a chain and its result is ignored, so it is recorded. The outcomes of the coming
  calls of \<open>pbuf_alloc\<close> are a list; when it is used up they succeed.
\<close>

subsection \<open>The header\<close>

definition IP_HLEN :: nat where "IP_HLEN = 20"
definition IP_MF :: u16_t where "IP_MF = 0x2000"
definition IP_OFFMASK :: u16_t where "IP_OFFMASK = 0x1fff"

record ip_hdr =
  iph_v_hl_tos :: u16_t
  iph_len :: u16_t
  iph_id :: u16_t
  iph_offset :: u16_t
  iph_ttl_proto :: u16_t
  iph_chksum :: u16_t
  iph_src :: u32_t
  iph_dest :: u32_t

definition IPH_HL :: "ip_hdr \<Rightarrow> u16_t" where
  "IPH_HL h = drop_bit 8 (ntohs (iph_v_hl_tos h)) AND 0x0f"

text \<open>The bytes of a header in memory, and the header that a pointer to bytes sees.\<close>

definition hdr_bytes :: "ip_hdr \<Rightarrow> byte list" where
  "hdr_bytes h = bytes16 (iph_v_hl_tos h) @ bytes16 (iph_len h) @ bytes16 (iph_id h) @ bytes16 (iph_offset h) @
     bytes16 (iph_ttl_proto h) @ bytes16 (iph_chksum h) @ bytes32 (iph_src h) @ bytes32 (iph_dest h)"

definition hdr_of :: "byte list \<Rightarrow> ip_hdr" where
  "hdr_of bs = \<lparr>iph_v_hl_tos = ld16 (bs ! 0) (bs ! 1), iph_len = ld16 (bs ! 2) (bs ! 3), iph_id = ld16 (bs ! 4) (bs ! 5),
     iph_offset = ld16 (bs ! 6) (bs ! 7), iph_ttl_proto = ld16 (bs ! 8) (bs ! 9), iph_chksum = ld16 (bs ! 10) (bs ! 11),
     iph_src = ld32 (bs ! 12) (bs ! 13) (bs ! 14) (bs ! 15), iph_dest = ld32 (bs ! 16) (bs ! 17) (bs ! 18) (bs ! 19)\<rparr>"

text \<open>\<open>IPH_OFFSET_SET\<close>, \<open>IPH_LEN_SET\<close>, \<open>IPH_CHKSUM_SET\<close> to zero and to the checksum, as in \<open>ip_frag\<close> and \<open>ip_reass\<close>.\<close>

definition set_hdr :: "u16_t \<Rightarrow> u16_t \<Rightarrow> ip_hdr \<Rightarrow> ip_hdr" where
  "set_hdr off len h =
     (let h = h\<lparr>iph_offset := htons off, iph_len := htons len, iph_chksum := 0\<rparr>
      in h\<lparr>iph_chksum := inet_chksum (hdr_bytes h)\<rparr>)"

subsection \<open>Fragmentation\<close>

text \<open>
  The loop \<open>while (left_to_copy)\<close> with the remaining payloads of the chain from \<open>p\<close> on, \<open>newpbuflen\<close>, the chain \<open>rambuf\<close> and
  the allocations. It ends with \<open>p\<close>, \<open>newpbuflen\<close> and \<open>rambuf\<close>, or with an allocation that failed.
\<close>

fun mirror :: "byte list list \<Rightarrow> nat \<Rightarrow> nat \<Rightarrow> byte list list \<Rightarrow> bool list \<Rightarrow>
    ((byte list list \<times> nat \<times> byte list list) option \<times> bool list) option" where
  "mirror [] left newlen r m = (if left = 0 then Some (Some ([], newlen, r), m) else None)"
| "mirror (q # p) left newlen r m =
     (if left = 0 then Some (Some (q # p, newlen, r), m)
      else let newlen = (if left < length q then left else length q) in
        if newlen = 0 then mirror p left newlen r m
        else if m \<noteq> [] \<and> \<not> hd m then Some (None, tl m)
        else let r = r @ [take newlen q]; left = left - newlen in
          if left \<noteq> 0 then mirror p left newlen r (tl m) else Some (Some (q # p, newlen, r), tl m))"

text \<open>
  The loop \<open>while (left)\<close>. \<open>h\<close> is the original header, \<open>omf\<close> its flag, \<open>poff\<close> what the payload pointer of \<open>p\<close> moves by; the frames
  are those sent.
\<close>

partial_function (option) frag_loop :: "ip_hdr \<Rightarrow> u16_t \<Rightarrow> u16_t \<Rightarrow> byte list list \<Rightarrow> nat \<Rightarrow> u16_t \<Rightarrow> u16_t \<Rightarrow> bool list \<Rightarrow> byte list list list \<Rightarrow>
    (int \<times> byte list list list) option" where
  "frag_loop h mtu omf p poff left ofo m out =
     (if left = 0 then Some (0, out)
      else do {
        let nfb = word_of_int ((uint mtu - int IP_HLEN) div 8);
        let last = uint left \<le> uint mtu - int IP_HLEN;
        let tmp = omf OR (IP_OFFMASK AND ofo);
        let tmp = (if last then tmp else tmp OR IP_MF);
        let cop = (if last then left else nfb * 8);
        if m \<noteq> [] \<and> \<not> hd m then Some (ERR_MEM, out)
        else do {
          guard (p \<noteq> [] \<and> length (hd p) \<ge> IP_HLEN \<and> length (hd p) \<ge> poff);
          (r, m) \<leftarrow> mirror (drop poff (hd p) # tl p) (unat cop) 0 [] (tl m);
          case r of None \<Rightarrow> Some (ERR_MEM, out)
          | Some (p, poff, r) \<Rightarrow>
              frag_loop h mtu omf p poff (left - cop) (ofo + nfb) m (out @ [hdr_bytes (set_hdr tmp (cop + of_nat IP_HLEN) h) # r]) } })"

declare frag_loop.simps [code]

definition ip_frag :: "byte list list \<Rightarrow> u16_t \<Rightarrow> bool list \<Rightarrow> (int \<times> byte list list list) option" where
  "ip_frag p mtu m = do {
     guard (p \<noteq> [] \<and> length (hd p) \<ge> IP_HLEN \<and> uint mtu \<ge> int IP_HLEN);
     let h = hdr_of (hd p);
     let tmp = ntohs (iph_offset h);
     let tot_len = of_nat (length (concat p));
     frag_loop h mtu (tmp AND IP_MF) p IP_HLEN (tot_len - of_nat IP_HLEN) (tmp AND IP_OFFMASK) m [] }"

end
