(* ===== verification/Ip_Frag_Send.thy ===== *)
theory Ip_Frag_Send
  imports Ip_Frag Inet_Correct
begin

text \<open>
  What \<open>ip_frag\<close> sends: the pieces of the data, each behind a header of its own.
\<close>

subsection \<open>Headers\<close>

lemma length_hdr_bytes [simp]: "length (hdr_bytes h) = 20"
  by (simp add: hdr_bytes_def)

lemma ld32_of_bytes: "ld32 (ucast w) (ucast (drop_bit 8 w)) (ucast (drop_bit 16 w)) (ucast (drop_bit 24 w)) = w"
proof (rule bit_word_eqI)
  fix n assume "n < LENGTH(32)"
  then show "bit (ld32 (ucast w) (ucast (drop_bit 8 w)) (ucast (drop_bit 16 w)) (ucast (drop_bit 24 w))) n = bit w n"
    unfolding ld32_def by (cases "n < 8"; cases "n < 16"; cases "n < 24") (auto simp: bit_simps)
qed

lemma hdr_of_bytes [simp]: "hdr_of (hdr_bytes h @ xs) = h"
  by (simp add: hdr_of_def hdr_bytes_def bytes16_def bytes32_def ld16_bytes ld32_of_bytes)

lemma set_hdr_sel [simp]:
  "iph_v_hl_tos (set_hdr off len h) = iph_v_hl_tos h" "iph_len (set_hdr off len h) = htons len" "iph_id (set_hdr off len h) = iph_id h"
  "iph_offset (set_hdr off len h) = htons off" "iph_src (set_hdr off len h) = iph_src h" "iph_dest (set_hdr off len h) = iph_dest h"
  by (simp_all add: set_hdr_def Let_def)

lemma set_hdr_set_hdr [simp]: "set_hdr off len (set_hdr off' len' h) = set_hdr off len h"
  by (simp add: set_hdr_def Let_def)

lemma set_hdr_verifies: "inet_chksum (hdr_bytes (set_hdr off len h)) = 0"
  using inet_chksum_verifies [of "bytes16 (iph_v_hl_tos h) @ bytes16 (htons len) @ bytes16 (iph_id h) @ bytes16 (htons off) @ bytes16 (iph_ttl_proto h)"
      "bytes32 (iph_src h) @ bytes32 (iph_dest h)"]
  by (simp add: set_hdr_def Let_def hdr_bytes_def bytes16_def)

subsection \<open>The pieces\<close>

function pieces :: "nat \<Rightarrow> nat \<Rightarrow> 'a list \<Rightarrow> 'a list list" where
  "pieces k n xs = (if k = 0 \<or> length xs \<le> n then [xs] else take k xs # pieces k n (drop k xs))"
  by pat_completeness auto
termination by (relation "measure (\<lambda>(k, n, xs). length xs)") auto

declare pieces.simps [simp del]

lemma pieces_not_Nil [simp]: "pieces k n xs \<noteq> []"
  by (subst pieces.simps) simp

lemma concat_pieces [simp]: "concat (pieces k n xs) = xs"
  by (induction k n xs rule: pieces.induct) (subst pieces.simps, simp)

text \<open>A packet: the header with offset and length, then the data; the packets of a list of pieces.\<close>

definition ip_datagram :: "ip_hdr \<Rightarrow> u16_t \<Rightarrow> byte list \<Rightarrow> byte list" where
  "ip_datagram h off d = hdr_bytes (set_hdr off (of_nat (length d + IP_HLEN)) h) @ d"

fun frames :: "ip_hdr \<Rightarrow> u16_t \<Rightarrow> u16_t \<Rightarrow> byte list list \<Rightarrow> byte list list" where
  "frames h omf ofo [] = []"
| "frames h omf ofo (d # ds) =
     (let t = omf OR (IP_OFFMASK AND ofo)
      in ip_datagram h (if ds = [] then t else t OR IP_MF) d # frames h omf (ofo + of_nat (length d div 8)) ds)"

subsection \<open>The loops\<close>

text \<open>Chains \<open>ip_frag\<close> can cut: every pbuf is empty or has room for a header.\<close>

definition cuttable :: "byte list list \<Rightarrow> bool" where
  "cuttable p \<longleftrightarrow> (\<forall>q\<in>set p. q = [] \<or> IP_HLEN \<le> length q)"

text \<open>What is left of a chain from \<open>p\<close> on when the payload pointer of \<open>p\<close> still moves by \<open>poff\<close>.\<close>

definition rest_of :: "byte list list \<Rightarrow> nat \<Rightarrow> byte list" where
  "rest_of p poff = drop poff (hd p) @ concat (tl p)"

definition mirrored :: "byte list list \<Rightarrow> nat \<Rightarrow> byte list \<Rightarrow> bool list \<Rightarrow>
    ((byte list list \<times> nat \<times> byte list list) option \<times> bool list) option \<Rightarrow> bool" where
  "mirrored p left acc m res \<longleftrightarrow> (case res of None \<Rightarrow> False
     | Some (None, m') \<Rightarrow> False \<in> set m
     | Some (Some (p', newlen, r), m') \<Rightarrow> concat r = acc @ take left (concat p) \<and> rest_of p' newlen = drop left (concat p) \<and> p' \<noteq> [] \<and>
         newlen \<le> length (hd p') \<and> cuttable (tl p') \<and> (p' = p \<and> newlen = left \<or> IP_HLEN \<le> length (hd p')) \<and> set m' \<subseteq> set m)"

lemma mirrored_skip:
  assumes "mirrored p (left - length q) (acc @ q) m' res" "length q < left" "cuttable p" "set m' \<subseteq> set m"
  shows "mirrored (q # p) left acc m res"
proof -
  have "IP_HLEN \<le> length (hd p)" if "left - length q \<le> length (hd p)" "p \<noteq> []"
    using assms(2,3) that by (cases p) (auto simp: cuttable_def)
  moreover have "x \<in> set m" if "x \<in> set m'" for x using that assms(4) by blast
  ultimately show ?thesis using assms(1,2) unfolding mirrored_def by (auto simp: subset_iff split: option.splits prod.splits)
qed

lemma mirror_ok:
  assumes "0 < left" "left \<le> length (concat p)" "cuttable (tl p)"
  shows "mirrored p left (concat r) m (mirror p left newlen r m)"
  using assms
proof (induction p left newlen r m rule: mirror.induct)
  case (2 q p left newlen r m)
  have c: "cuttable p" "cuttable (tl p)" using 2(5) by (cases p; simp add: cuttable_def)+
  have tl: "set (tl m) \<subseteq> set m" by (cases m) auto
  consider "q = []" | "q \<noteq> []" "m \<noteq> [] \<and> \<not> hd m" | "q \<noteq> []" "\<not> (m \<noteq> [] \<and> \<not> hd m)" "left \<le> length q"
    | "q \<noteq> []" "\<not> (m \<noteq> [] \<and> \<not> hd m)" "length q < left" by linarith
  then show ?case
  proof cases
    case 1
    then have "mirrored p left (concat r) m (mirror p left 0 r m)" using 2(1) 2(3,4) c by simp
    then show ?thesis using mirrored_skip [of p left q "concat r" m] 1 2(3) c(1) by (simp add: Let_def)
  next
    case 2
    then show ?thesis using \<open>0 < left\<close> by (cases m) (auto simp: Let_def mirrored_def)
  next
    case 3
    then have "mirror (q # p) left newlen r m = Some (Some (q # p, left, r @ [take left q]), tl m)"
      using 2(3) by (auto simp: Let_def)
    then show ?thesis using 3 2(3,5) tl by (simp add: rest_of_def mirrored_def)
  next
    case 4
    then have e: "mirror (q # p) left newlen r m = mirror p (left - length q) (length q) (r @ [q]) (tl m)"
      using 2(3) by (auto simp: Let_def)
    have "mirrored p (left - length q) (concat (r @ [q])) (tl m) (mirror p (left - length q) (length q) (r @ [q]) (tl m))"
      using 2(2) [of "length q" "r @ [q]" "left - length q"] 2(3,4) 4 c by simp
    then show ?thesis using mirrored_skip [OF _ 4(3) c(1) tl] unfolding e by simp
  qed
qed simp

text \<open>The size of a full piece and of the last one.\<close>

definition nfb8 :: "u16_t \<Rightarrow> nat" where
  "nfb8 mtu = (unat mtu - IP_HLEN) div 8 * 8"

lemma nfb_words:
  assumes "44 \<le> unat mtu"
  shows "unat (word_of_int ((uint mtu - int IP_HLEN) div 8) :: u16_t) = (unat mtu - IP_HLEN) div 8"
    "unat (word_of_int ((uint mtu - int IP_HLEN) div 8) * 8 :: u16_t) = nfb8 mtu" "24 \<le> nfb8 mtu" "nfb8 mtu \<le> unat mtu - IP_HLEN"
proof -
  let ?w = "word_of_int ((uint mtu - int IP_HLEN) div 8) :: u16_t"
  have "uint mtu - int IP_HLEN = int (unat mtu - IP_HLEN)" using assms by (simp add: IP_HLEN_def of_nat_diff)
  then have e: "(uint mtu - int IP_HLEN) div 8 = int ((unat mtu - IP_HLEN) div 8)" by (simp only: zdiv_int of_nat_numeral)
  have lt: "(unat mtu - IP_HLEN) div 8 * 8 < 65536" using unat_half(1) [of mtu] by linarith
  show w: "unat ?w = (unat mtu - IP_HLEN) div 8"
    using lt unfolding e by (simp add: unsigned_of_nat take_bit_nat_eq_self)
  show "unat (?w * 8) = nfb8 mtu" using lt unfolding unat_word_ariths w by (simp add: nfb8_def)
  show "24 \<le> nfb8 mtu" "nfb8 mtu \<le> unat mtu - IP_HLEN" using assms by (simp_all add: nfb8_def IP_HLEN_def)
qed

lemma int_room:
  assumes "44 \<le> unat mtu"
  shows "uint left \<le> uint mtu - int IP_HLEN \<longleftrightarrow> unat (left :: u16_t) \<le> unat (mtu :: u16_t) - IP_HLEN"
proof -
  have "uint left = int (unat left)" "uint mtu = int (unat mtu)" by simp_all
  then show ?thesis using assms unfolding IP_HLEN_def by linarith
qed

definition sent_ok :: "int \<Rightarrow> byte list list list \<Rightarrow> byte list list \<Rightarrow> bool list \<Rightarrow> bool" where
  "sent_ok r sent fs m \<longleftrightarrow>
     (if r = 0 then map concat sent = fs else r = ERR_MEM \<and> False \<in> set m \<and> (\<exists>j. map concat sent = take j fs))"

lemma sent_ok_fail: "m \<noteq> [] \<and> \<not> hd m \<or> False \<in> set (tl m) \<Longrightarrow> sent_ok ERR_MEM [] fs m"
  by (cases m) (auto simp: sent_ok_def ERR_MEM_def intro: exI [of _ 0])

lemma sent_ok_Cons: "sent_ok r sent fs m' \<Longrightarrow> concat x = f \<Longrightarrow> set m' \<subseteq> set m \<Longrightarrow> sent_ok r (x # sent) (f # fs) m"
  by (auto simp: sent_ok_def split: if_splits intro: exI [of _ "Suc _"])

lemma mirror_cases:
  "Option.bind x (\<lambda>(r, m). case r of None \<Rightarrow> a | Some (p, poff, r) \<Rightarrow> b p poff r m) = (case x of None \<Rightarrow> None
     | Some (None, m) \<Rightarrow> a | Some (Some (p, poff, r), m) \<Rightarrow> b p poff r m)"
  by (simp split: option.split prod.split)

lemma frag_loop_step:
  assumes "left \<noteq> 0" "\<not> (m \<noteq> [] \<and> \<not> hd m)" "p \<noteq> []" "IP_HLEN \<le> length (hd p)" "poff \<le> length (hd p)" "44 \<le> unat mtu"
    "nfb = word_of_int ((uint mtu - int IP_HLEN) div 8)" "t = omf OR (IP_OFFMASK AND ofo)"
  shows "frag_loop h mtu omf p poff left ofo m out =
    (let last = unat left \<le> unat mtu - IP_HLEN; c = (if last then left else nfb * 8)
     in case mirror (drop poff (hd p) # tl p) (unat c) 0 [] (tl m) of
         None \<Rightarrow> None
       | Some (None, m') \<Rightarrow> Some (ERR_MEM, out)
       | Some (Some (p', poff', r), m') \<Rightarrow> frag_loop h mtu omf p' poff' (left - c) (ofo + nfb) m'
           (out @ [hdr_bytes (set_hdr (if last then t else t OR IP_MF) (c + of_nat IP_HLEN) h) # r]))"
proof -
  have "guard (p \<noteq> [] \<and> length (hd p) \<ge> IP_HLEN \<and> length (hd p) \<ge> poff) = Some ()" using assms(3-5) by (simp add: guard_def)
  then show ?thesis
    unfolding assms(7,8) int_room [OF assms(6), symmetric]
    by (subst frag_loop.simps) (simp only: Let_def if_not_P [OF assms(1)] if_not_P [OF assms(2)] Option.bind.simps mirror_cases)
qed

lemma frag_loop_ok:
  assumes "44 \<le> unat mtu" "p \<noteq> []" "IP_HLEN \<le> length (hd p)" "poff \<le> length (hd p)" "cuttable (tl p)" "unat left = length (rest_of p poff)"
  shows "\<exists>r sent. frag_loop h mtu omf p poff left ofo m out = Some (r, out @ sent) \<and>
    sent_ok r sent (if left = 0 then [] else frames h omf ofo (pieces (nfb8 mtu) (unat mtu - IP_HLEN) (rest_of p poff))) m"
  using assms(2-6)
proof (induction "unat left" arbitrary: p poff left ofo m out rule: less_induct)
  case less
  let ?pc = "pieces (nfb8 mtu) (unat mtu - IP_HLEN)"
  note n = nfb_words [OF assms(1)]
  show ?case
  proof (cases "left = 0 \<or> m \<noteq> [] \<and> \<not> hd m")
    case True
    then have "frag_loop h mtu omf p poff left ofo m out = Some (if left = 0 then 0 else ERR_MEM, out)"
      by (subst frag_loop.simps) auto
    then show ?thesis using True sent_ok_fail [of m] by (cases "left = 0") (auto simp: sent_ok_def)
  next
    case False
    define nfb where "nfb = (word_of_int ((uint mtu - int IP_HLEN) div 8) :: u16_t)"
    define t where "t = omf OR (IP_OFFMASK AND ofo)"
    define last where "last \<longleftrightarrow> unat left \<le> unat mtu - IP_HLEN"
    define c where "c = (if last then left else nfb * 8)"
    define q where "q = drop poff (hd p) # tl p"
    let ?h = "hdr_bytes (set_hdr (if last then t else t OR IP_MF) (c + of_nat IP_HLEN) h)"
    have c: "unat c = (if last then unat left else nfb8 mtu)" "0 < unat c" "unat c \<le> unat left"
      using n False by (auto simp: unat_gt_0 c_def nfb_def last_def)
    have l: "unat (left - c) = unat left - unat c" using c(3) by (simp add: unat_sub word_le_nat_alt)
    have dat: "concat q = rest_of p poff" "length (rest_of p poff) = unat left" using less.prems by (simp_all add: rest_of_def q_def)
    have pk: "?h @ take (unat c) (rest_of p poff) = ip_datagram h (if last then t else t OR IP_MF) (take (unat c) (rest_of p poff))"
      using c(3) dat(2) by (simp add: ip_datagram_def min_absorb2)
    have step: "frag_loop h mtu omf p poff left ofo m out = (case mirror q (unat c) 0 [] (tl m) of None \<Rightarrow> None
       | Some (None, m') \<Rightarrow> Some (ERR_MEM, out)
       | Some (Some (p', poff', r), m') \<Rightarrow> frag_loop h mtu omf p' poff' (left - c) (ofo + nfb) m' (out @ [?h # r]))"
      using frag_loop_step [OF _ _ less.prems(1-3) assms(1) nfb_def t_def, of left m h out] False
      unfolding Let_def q_def [symmetric] last_def [symmetric] c_def [symmetric] by blast
    have mi: "mirrored q (unat c) [] (tl m) (mirror q (unat c) 0 [] (tl m))"
    proof -
      have "unat c \<le> length (concat q)" using c(3) unfolding dat .
      moreover have "cuttable (tl q)" using less.prems(4) by (simp add: q_def)
      ultimately show ?thesis using mirror_ok [OF c(2), of q "[]" "tl m" 0] by simp
    qed
    consider m' where "mirror q (unat c) 0 [] (tl m) = Some (None, m')" "False \<in> set (tl m)"
      | p' poff' r m' where "mirror q (unat c) 0 [] (tl m) = Some (Some (p', poff', r), m')" "concat r = take (unat c) (rest_of p poff)"
        "rest_of p' poff' = drop (unat c) (rest_of p poff)" "p' \<noteq> []" "poff' \<le> length (hd p')" "cuttable (tl p')"
        "p' = q \<and> poff' = unat c \<or> IP_HLEN \<le> length (hd p')" "set m' \<subseteq> set (tl m)"
      using mi dat(1) unfolding mirrored_def by (auto split: option.splits prod.splits) (metis option.exhaust prod_cases3)
    then show ?thesis
    proof cases
      case 1
      then show ?thesis using step sent_ok_fail [of m] by auto
    next
      case 2
      have sm: "set m' \<subseteq> set m" using 2(8) by (cases m) auto
      show ?thesis
      proof (cases last)
        case True
        then have z: "left - c = 0" by (simp add: c_def)
        have f: "frames h omf ofo (?pc (rest_of p poff)) = [ip_datagram h t (rest_of p poff)]"
          using True dat(2) by (subst pieces.simps) (simp add: last_def t_def)
        have "frag_loop h mtu omf p poff left ofo m out = Some (0, out @ [?h # r])"
          unfolding step 2(1) z by (simp add: frag_loop.simps)
        then show ?thesis using f False pk c True dat(2) 2(2) by (auto simp: sent_ok_def)
      next
        case nl: False
        have hd: "IP_HLEN \<le> length (hd p')" using 2(5,7) c(1) n(3) nl by (auto simp: IP_HLEN_def)
        have len: "unat (left - c) = length (rest_of p' poff')" using l 2(3) dat(2) by simp
        have lt: "unat (left - c) < unat left" using l c(2,3) by simp
        obtain r' sent where ih: "frag_loop h mtu omf p' poff' (left - c) (ofo + nfb) m' (out @ [?h # r]) = Some (r', (out @ [?h # r]) @ sent)"
          "sent_ok r' sent (if left - c = 0 then [] else frames h omf (ofo + nfb) (?pc (rest_of p' poff'))) m'"
          using less.hyps [OF lt 2(4) hd 2(5,6) len, of "ofo + nfb" m' "out @ [?h # r]"] by blast
        have "nfb8 mtu < unat left" using nl n(4) by (simp add: last_def)
        then have nz: "left - c \<noteq> 0" using l c(1) nl by (auto simp: unat_eq_zero)
        have o: "of_nat (unat c div 8) = nfb" using c(1) nl n(1) by (metis nfb8_def nfb_def nonzero_mult_div_cancel_right of_nat_unat ucast_id zero_neq_numeral)
        have "?pc (rest_of p poff) = take (unat c) (rest_of p poff) # ?pc (rest_of p' poff')"
          using nl dat(2) c(1) n(3) 2(3) by (subst pieces.simps) (simp add: last_def)
        then have f: "frames h omf ofo (?pc (rest_of p poff)) = (?h @ take (unat c) (rest_of p poff)) # frames h omf (ofo + nfb) (?pc (rest_of p' poff'))"
          using o c(3) dat(2) nl unfolding pk by (simp add: t_def min_absorb2)
        have "frag_loop h mtu omf p poff left ofo m out = Some (r', out @ (?h # r) # sent)" using step 2(1) ih(1) by simp
        moreover have "sent_ok r' ((?h # r) # sent) (frames h omf ofo (?pc (rest_of p poff))) m"
          unfolding f by (rule sent_ok_Cons) (use ih(2) nz 2(2) sm in simp_all)
        ultimately show ?thesis using False by auto
      qed
    qed
  qed
qed

lemma ip_frag_ok:
  assumes "44 \<le> unat mtu" "p \<noteq> []" "IP_HLEN \<le> length (hd p)" "cuttable (tl p)" "length (concat p) \<le> 65535"
  shows "\<exists>r sent. ip_frag p mtu m = Some (r, sent) \<and>
    sent_ok r sent (if length (concat p) = IP_HLEN then [] else frames (hdr_of (hd p)) (ntohs (iph_offset (hdr_of (hd p))) AND IP_MF)
      (ntohs (iph_offset (hdr_of (hd p))) AND IP_OFFMASK) (pieces (nfb8 mtu) (unat mtu - IP_HLEN) (drop IP_HLEN (concat p)))) m"
proof -
  let ?left = "of_nat (length (concat p)) - of_nat IP_HLEN :: u16_t"
  have c: "concat p = hd p @ concat (tl p)" using assms(2) by (cases p) simp_all
  have dat: "rest_of p IP_HLEN = drop IP_HLEN (concat p)" unfolding c using assms(3) by (simp add: rest_of_def)
  have le: "IP_HLEN \<le> length (concat p)" unfolding c using assms(3) by simp
  have l: "unat ?left = length (rest_of p IP_HLEN)"
    unfolding dat of_nat_diff [OF le, symmetric] using assms(5) by (simp add: unsigned_of_nat take_bit_nat_eq_self)
  have z: "?left = 0 \<longleftrightarrow> length (concat p) = IP_HLEN" using l le unfolding dat by (simp add: word_unat_eq_iff)
  have "uint mtu = int (unat mtu)" by simp
  then have "int IP_HLEN \<le> uint mtu" using assms(1) unfolding IP_HLEN_def by linarith
  then show ?thesis
    using frag_loop_ok [OF assms(1-3) assms(3,4) l, of "hdr_of (hd p)" "ntohs (iph_offset (hdr_of (hd p))) AND IP_MF"
        "ntohs (iph_offset (hdr_of (hd p))) AND IP_OFFMASK" m "[]"] assms(2,3)
    unfolding z dat by (simp add: ip_frag_def guard_def Let_def)
qed

subsection \<open>Sizes\<close>

lemma pieces_length: "x \<in> set (pieces k n xs) \<Longrightarrow> k \<noteq> 0 \<Longrightarrow> k \<le> n \<Longrightarrow> length x \<le> n"
proof (induction k n xs rule: pieces.induct)
  case (1 k n xs)
  then show ?case using pieces.simps [of k n xs] by (cases "length xs \<le> n") (auto split: if_splits)
qed

lemma pieces_nonempty: "x \<in> set (pieces k n xs) \<Longrightarrow> xs \<noteq> [] \<Longrightarrow> k \<noteq> 0 \<Longrightarrow> k \<le> n \<Longrightarrow> x \<noteq> []"
proof (induction k n xs rule: pieces.induct)
  case (1 k n xs)
  then show ?case using pieces.simps [of k n xs] by (cases "length xs \<le> n") (auto split: if_splits)
qed

lemma pieces_butlast: "x \<in> set (butlast (pieces k n xs)) \<Longrightarrow> k \<noteq> 0 \<Longrightarrow> k \<le> n \<Longrightarrow> length x = k"
proof (induction k n xs rule: pieces.induct)
  case (1 k n xs)
  then show ?case using pieces.simps [of k n xs] by (cases "length xs \<le> n") (auto split: if_splits)
qed

lemma length_ip_datagram [simp]: "length (ip_datagram h off d) = IP_HLEN + length d"
  by (simp add: ip_datagram_def IP_HLEN_def)

lemma length_frames [simp]: "length (frames h omf ofo ds) = length ds"
  by (induction ds arbitrary: ofo) (simp_all add: Let_def)

lemma frames_packet: "f \<in> set (frames h omf ofo ds) \<Longrightarrow> \<exists>off d. f = ip_datagram h off d \<and> d \<in> set ds"
  by (induction ds arbitrary: ofo) (fastforce simp: Let_def)+

lemma frames_data: "concat (map (drop IP_HLEN) (frames h omf ofo ds)) = concat ds"
  by (induction ds arbitrary: ofo) (simp_all add: Let_def ip_datagram_def IP_HLEN_def)

end
