(* ===== verification/Ip_Reass.thy ===== *)
theory Ip_Reass
  imports Ip_Frag
begin

text \<open>
  The reassembly of IP datagrams in \<open>lwip/src/core/ipv4/ip_frag.c\<close>: the queue of incomplete datagrams, its timer, and
  \<open>ip_reass\<close>, with \<open>IP_REASS_CHECK_OVERLAP\<close> and \<open>IP_REASS_FREE_OLDEST\<close>.

  \<open>ip_reass\<close> owns the chains it is given, so a chain is the list of its payloads. The code
  keeps the next fragment, the start and the end of a fragment in a \<open>struct ip_reass_helper\<close>, which it writes over
  the IP header of the fragment; here a fragment is a record with these fields and the queue of a datagram is a
  list. The header bytes under the helper are not read again: the first fragment gets the saved header back,
  the others lose theirs. The list \<open>reassdatagrams\<close> is a list, a pointer into it an index. A failed \<open>LWIP_ASSERT\<close> aborts
  and has no result. \<open>icmp_time_exceeded\<close> is recorded with the packet it is given. The counters of statistics are off.
\<close>

subsection \<open>State\<close>

definition IP_REASS_MAXAGE :: u8_t where "IP_REASS_MAXAGE = 3"
definition IP_REASS_MAX_PBUFS :: nat where "IP_REASS_MAX_PBUFS = 10"
definition MEMP_NUM_REASSDATA :: nat where "MEMP_NUM_REASSDATA = 5"
definition IP_REASS_FLAG_LASTFRAG :: u8_t where "IP_REASS_FLAG_LASTFRAG = 1"

record frag =
  fr_start :: u16_t
  fr_end :: u16_t
  fr_pbuf :: "byte list list"

record ip_reassdata =
  ipr_p :: "frag list"
  ipr_iphdr :: ip_hdr
  ipr_datagram_len :: u16_t
  ipr_flags :: u8_t
  ipr_timer :: u8_t

record reass =
  reassdatagrams :: "ip_reassdata list"
  ip_reass_pbufcount :: u16_t
  reassdata_free :: nat
  time_exceeded :: "byte list list list"

definition chain_clen :: "byte list list \<Rightarrow> u8_t" where
  "chain_clen p = of_nat (length p)"

definition IP_ADDRESSES_AND_ID_MATCH :: "ip_hdr \<Rightarrow> ip_hdr \<Rightarrow> bool" where
  "IP_ADDRESSES_AND_ID_MATCH a b \<longleftrightarrow> iph_src a = iph_src b \<and> iph_dest a = iph_dest b \<and> iph_id a = iph_id b"

text \<open>\<open>SMEMCPY\<close> of a header into the first pbuf of a chain.\<close>

definition put_hdr :: "ip_hdr \<Rightarrow> byte list list \<Rightarrow> byte list list" where
  "put_hdr h p = (hdr_bytes h @ drop IP_HLEN (hd p)) # tl p"

definition upd_datagram :: "nat \<Rightarrow> (ip_reassdata \<Rightarrow> ip_reassdata) \<Rightarrow> reass \<Rightarrow> reass" where
  "upd_datagram i f s = s\<lparr>reassdatagrams := (reassdatagrams s)[i := f (reassdatagrams s ! i)]\<rparr>"

subsection \<open>Giving up datagrams\<close>

text \<open>\<open>prev->next = ipr->next\<close> takes \<open>ipr\<close> out when \<open>prev\<close> is the one before it; the callers see to that or abort.\<close>

definition ip_reass_dequeue_datagram :: "nat \<Rightarrow> nat option \<Rightarrow> reass \<Rightarrow> reass option" where
  "ip_reass_dequeue_datagram i prev s = do {
     guard (i = 0 \<or> prev = Some (i - 1));
     Some (s\<lparr>reassdatagrams := take i (reassdatagrams s) @ drop (Suc i) (reassdatagrams s), reassdata_free := reassdata_free s + 1\<rparr>) }"

text \<open>The loop over the fragments: all that is left of a fragment is its count.\<close>

fun frags_clen :: "frag list \<Rightarrow> int" where
  "frags_clen [] = 0"
| "frags_clen (f # fs) = uint (chain_clen (fr_pbuf f)) + frags_clen fs"

definition ip_reass_free_complete_datagram :: "nat \<Rightarrow> nat option \<Rightarrow> reass \<Rightarrow> (int \<times> reass) option" where
  "ip_reass_free_complete_datagram i prev s = do {
     guard (prev = None \<or> prev \<noteq> Some i \<and> prev = Some (i - 1));
     let ipr = reassdatagrams s ! i;
     guard (ipr_p ipr \<noteq> []);
     let f = hd (ipr_p ipr);
     let first = (fr_start f = 0);
     let s = (if first then s\<lparr>time_exceeded := time_exceeded s @ [put_hdr (ipr_iphdr ipr) (fr_pbuf f)]\<rparr> else s);
     let freed = (if first then uint (chain_clen (fr_pbuf f)) else 0);
     let pbufs_freed = freed + frags_clen (if first then tl (ipr_p ipr) else ipr_p ipr);
     s \<leftarrow> ip_reass_dequeue_datagram i prev s;
     guard (uint (ip_reass_pbufcount s) \<ge> pbufs_freed);
     Some (pbufs_freed, s\<lparr>ip_reass_pbufcount := ip_reass_pbufcount s - word_of_int pbufs_freed\<rparr>) }"

text \<open>The search for the oldest datagram: its index with its timer, \<open>prev\<close>, and the number of others.\<close>

fun find_oldest :: "ip_hdr \<Rightarrow> nat \<Rightarrow> ip_reassdata list \<Rightarrow> (nat \<times> u8_t) option \<Rightarrow> nat option \<Rightarrow> nat \<Rightarrow> (nat \<times> u8_t) option \<times> nat option \<times> nat" where
  "find_oldest fraghdr k [] oldest prev others = (oldest, prev, others)"
| "find_oldest fraghdr k (r # rs) oldest prev others =
     (let (oldest, others) = (if \<not> IP_ADDRESSES_AND_ID_MATCH (ipr_iphdr r) fraghdr
        then ((case oldest of None \<Rightarrow> Some (k, ipr_timer r)
                | Some (j, t) \<Rightarrow> if ipr_timer r \<le> t then Some (k, ipr_timer r) else oldest), others + 1)
        else (oldest, others));
        prev = (if rs \<noteq> [] then Some k else prev)
      in find_oldest fraghdr (Suc k) rs oldest prev others)"

partial_function (option) ip_reass_remove_oldest_datagram :: "ip_hdr \<Rightarrow> int \<Rightarrow> int \<Rightarrow> reass \<Rightarrow> (int \<times> reass) option" where
  "ip_reass_remove_oldest_datagram fraghdr pbufs_needed pbufs_freed s =
     (let (oldest, prev, others) = find_oldest fraghdr 0 (reassdatagrams s) None None 0 in do {
        (pbufs_freed, s) \<leftarrow> (case oldest of None \<Rightarrow> Some (pbufs_freed, s)
          | Some (i, t) \<Rightarrow> do { (n, s) \<leftarrow> ip_reass_free_complete_datagram i prev s; Some (pbufs_freed + n, s) });
        if pbufs_freed < pbufs_needed \<and> others > 1 then ip_reass_remove_oldest_datagram fraghdr pbufs_needed pbufs_freed s
        else Some (pbufs_freed, s) })"

declare ip_reass_remove_oldest_datagram.simps [code]

text \<open>\<open>ip_reass_tmr\<close>: the loop at index \<open>i\<close>.\<close>

partial_function (option) tmr_loop :: "nat option \<Rightarrow> nat \<Rightarrow> reass \<Rightarrow> reass option" where
  "tmr_loop prev i s =
     (if i < length (reassdatagrams s)
      then if ipr_timer (reassdatagrams s ! i) > 0
        then tmr_loop (Some i) (i + 1) (upd_datagram i (\<lambda>r. r\<lparr>ipr_timer := ipr_timer r - 1\<rparr>) s)
        else do { (n, s) \<leftarrow> ip_reass_free_complete_datagram i prev s; tmr_loop prev i s }
      else Some s)"

declare tmr_loop.simps [code]

definition ip_reass_tmr :: "reass \<Rightarrow> reass option" where
  "ip_reass_tmr s = tmr_loop None 0 s"

subsection \<open>Queueing a fragment\<close>

definition new_datagram :: "ip_hdr \<Rightarrow> ip_reassdata" where
  "new_datagram h = \<lparr>ipr_p = [], ipr_iphdr = h, ipr_datagram_len = 0, ipr_flags = 0, ipr_timer = IP_REASS_MAXAGE\<rparr>"

text \<open>The result says whether there is a new datagram; it is the first of the list.\<close>

definition ip_reass_enqueue_new_datagram :: "ip_hdr \<Rightarrow> int \<Rightarrow> reass \<Rightarrow> (bool \<times> reass) option" where
  "ip_reass_enqueue_new_datagram fraghdr clen s = do {
     (got, s) \<leftarrow> (if reassdata_free s > 0 then Some (True, s)
       else do {
         (n, s) \<leftarrow> ip_reass_remove_oldest_datagram fraghdr clen 0 s;
         Some (n \<ge> clen \<and> reassdata_free s > 0, s) });
     Some (if got then (True, s\<lparr>reassdata_free := reassdata_free s - 1, reassdatagrams := new_datagram fraghdr # reassdatagrams s\<rparr>)
       else (False, s)) }"

text \<open>
  The loop of \<open>ip_reass_chain_frag_into_datagram_and_validate\<close> over the queue: \<open>prev\<close> is \<open>iprh_prev\<close>. The result is \<open>None\<close> for the jump to
  \<open>freepbuf\<close>, else \<open>valid\<close> and the fragments before and after the new one.
\<close>

fun chain_walk :: "frag \<Rightarrow> frag option \<Rightarrow> frag list \<Rightarrow> (bool \<times> frag list \<times> frag list) option option" where
  "chain_walk n prev [] = (case prev of None \<Rightarrow> Some (Some (True, [], []))
     | Some p \<Rightarrow> do { guard (fr_end p \<le> fr_start n); Some (Some (fr_end p = fr_start n, [], [])) })"
| "chain_walk n prev (q # qs) =
     (if fr_start n < fr_start q
      then Some (case prev of None \<Rightarrow> Some (True, [], q # qs)
        | Some p \<Rightarrow> if fr_start n < fr_end p \<or> fr_end n > fr_start q then None else Some (True, [], q # qs))
      else if fr_start n = fr_start q then Some None
      else if fr_start n < fr_end q then Some None
      else do {
        r \<leftarrow> chain_walk n (Some q) qs;
        Some (map_option (\<lambda>(valid, bef, aft).
          ((case prev of None \<Rightarrow> True | Some p \<Rightarrow> fr_end p = fr_start q) \<and> valid, q # bef, aft)) r) })"

text \<open>No holes from a fragment on.\<close>

fun chain_ok :: "frag \<Rightarrow> frag list \<Rightarrow> bool" where
  "chain_ok p [] = True"
| "chain_ok p (q # qs) = (if fr_end p \<noteq> fr_start q then False else chain_ok q qs)"

text \<open>The validation, with the two assertions on the last fragment that can fail.\<close>

definition validate :: "bool \<Rightarrow> frag \<Rightarrow> frag list \<Rightarrow> frag list \<Rightarrow> ip_reassdata \<Rightarrow> bool option" where
  "validate valid n bef aft ipr =
     (if ipr_flags ipr AND IP_REASS_FLAG_LASTFRAG \<noteq> 0
      then if valid \<and> fr_start (hd (bef @ [n])) = 0 \<and> chain_ok n aft
        then do {
          guard (bef \<noteq> [] \<or> aft \<noteq> []);
          guard (fr_end (last (n # aft)) = ipr_datagram_len ipr);
          Some True }
        else Some False
      else Some False)"

definition frag_len :: "ip_hdr \<Rightarrow> u16_t" where
  "frag_len h = ntohs (iph_len h) - IPH_HL h * 4"

definition frag_offset :: "ip_hdr \<Rightarrow> u16_t" where
  "frag_offset h = (ntohs (iph_offset h) AND IP_OFFMASK) * 8"

definition ip_reass_chain_frag_into_datagram_and_validate :: "nat \<Rightarrow> byte list list \<Rightarrow> reass \<Rightarrow> (bool \<times> reass) option" where
  "ip_reass_chain_frag_into_datagram_and_validate i new_p s = do {
     guard (new_p \<noteq> [] \<and> length (hd new_p) \<ge> IP_HLEN);
     let h = hdr_of (hd new_p);
     let n = \<lparr>fr_start = frag_offset h, fr_end = frag_offset h + frag_len h, fr_pbuf = new_p\<rparr>;
     r \<leftarrow> chain_walk n None (ipr_p (reassdatagrams s ! i));
     case r of None \<Rightarrow> Some (False, s\<lparr>ip_reass_pbufcount := ip_reass_pbufcount s - ucast (chain_clen new_p)\<rparr>)
     | Some (valid, bef, aft) \<Rightarrow> do {
         let s = upd_datagram i (\<lambda>r. r\<lparr>ipr_p := bef @ n # aft\<rparr>) s;
         v \<leftarrow> validate valid n bef aft (reassdatagrams s ! i);
         Some (v, s) } }"

subsection \<open>\<open>ip_reass\<close>\<close>

fun find_datagram :: "ip_hdr \<Rightarrow> nat \<Rightarrow> ip_reassdata list \<Rightarrow> nat option" where
  "find_datagram h k [] = None"
| "find_datagram h k (r # rs) = (if IP_ADDRESSES_AND_ID_MATCH (ipr_iphdr r) h then Some k else find_datagram h (Suc k) rs)"

text \<open>The whole datagram: the first fragment with the saved header and the new length, the others behind it without theirs.\<close>

definition ip_reass_complete :: "nat \<Rightarrow> nat option \<Rightarrow> reass \<Rightarrow> (byte list list \<times> reass) option" where
  "ip_reass_complete i prev s = do {
     let s = upd_datagram i (\<lambda>r. r\<lparr>ipr_datagram_len := ipr_datagram_len r + of_nat IP_HLEN\<rparr>) s;
     let ipr = reassdatagrams s ! i;
     guard (ipr_p ipr \<noteq> []);
     let p = put_hdr (set_hdr 0 (ipr_datagram_len ipr) (ipr_iphdr ipr)) (fr_pbuf (hd (ipr_p ipr)));
     let p = p @ concat (map (\<lambda>f. drop IP_HLEN (hd (fr_pbuf f)) # tl (fr_pbuf f)) (tl (ipr_p ipr)));
     s \<leftarrow> ip_reass_dequeue_datagram i prev s;
     Some (p, s\<lparr>ip_reass_pbufcount := ip_reass_pbufcount s - ucast (chain_clen p)\<rparr>) }"

definition ip_reass :: "byte list list \<Rightarrow> reass \<Rightarrow> (byte list list option \<times> reass) option" where
  "ip_reass p s = do {
     guard (p \<noteq> [] \<and> length (hd p) \<ge> IP_HLEN);
     let fraghdr = hdr_of (hd p);
     if IPH_HL fraghdr * 4 \<noteq> of_nat IP_HLEN then Some (None, s)
     else do {
       let clen = uint (chain_clen p);
       (full, s) \<leftarrow> (if uint (ip_reass_pbufcount s) + clen > int IP_REASS_MAX_PBUFS
         then do {
           (n, s) \<leftarrow> ip_reass_remove_oldest_datagram fraghdr clen 0 s;
           Some (n = 0 \<or> uint (ip_reass_pbufcount s) + clen > int IP_REASS_MAX_PBUFS, s) }
         else Some (False, s));
       if full then Some (None, s)
       else do {
         (ipr, prev, s) \<leftarrow> (case find_datagram fraghdr 0 (reassdatagrams s) of
             None \<Rightarrow> do { (got, s) \<leftarrow> ip_reass_enqueue_new_datagram fraghdr clen s; Some (if got then Some 0 else None, None, s) }
           | Some i \<Rightarrow>
               let first = ntohs (iph_offset fraghdr) AND IP_OFFMASK = 0 \<and>
                 ntohs (iph_offset (ipr_iphdr (reassdatagrams s ! i))) AND IP_OFFMASK \<noteq> 0
               in Some (Some i, if i = 0 then None else Some (i - 1), if first then upd_datagram i (\<lambda>r. r\<lparr>ipr_iphdr := fraghdr\<rparr>) s else s));
         case ipr of None \<Rightarrow> Some (None, s)
         | Some i \<Rightarrow> do {
             let s = s\<lparr>ip_reass_pbufcount := ip_reass_pbufcount s + ucast (chain_clen p)\<rparr>;
             let s = (if ntohs (iph_offset fraghdr) AND IP_MF = 0
               then upd_datagram i (\<lambda>r. r\<lparr>ipr_flags := ipr_flags r OR IP_REASS_FLAG_LASTFRAG, ipr_datagram_len := frag_offset fraghdr + frag_len fraghdr\<rparr>) s
               else s);
             (valid, s) \<leftarrow> ip_reass_chain_frag_into_datagram_and_validate i p s;
             if valid then do { (p, s) \<leftarrow> ip_reass_complete i prev s; Some (Some p, s) }
             else Some (None, s) } } } }"

end
