(* ===== verification/Ip_Reass_Run.thy ===== *)
theory Ip_Reass_Run
  imports Ip_Frag_Send Ip_Reass
begin

text \<open>
  Reassembly of fragments that arrive in order: the queue of a datagram is a run without holes, and the last fragment
  completes it.
\<close>

subsection \<open>Runs\<close>

text \<open>Fragments without holes from byte \<open>a\<close> to byte \<open>b\<close>.\<close>

fun run :: "frag list \<Rightarrow> nat \<Rightarrow> nat \<Rightarrow> bool" where
  "run [] a b \<longleftrightarrow> a = b"
| "run (f # fs) a b \<longleftrightarrow> unat (fr_start f) = a \<and> a < unat (fr_end f) \<and> run fs (unat (fr_end f)) b"

lemma run_le: "run fs a b \<Longrightarrow> a \<le> b"
  by (induction fs arbitrary: a) (simp, fastforce)

lemma run_append [simp]: "run (fs @ gs) a c \<longleftrightarrow> (\<exists>b. run fs a b \<and> run gs b c)"
  by (induction fs arbitrary: a) auto

lemma chain_walk_run:
  assumes "run qs a (unat (fr_start n))" "case prev of None \<Rightarrow> True | Some p \<Rightarrow> unat (fr_end p) = a"
  shows "chain_walk n prev qs = Some (Some (True, qs, []))"
  using assms
proof (induction n prev qs arbitrary: a rule: chain_walk.induct)
  case (1 n prev)
  then show ?case by (auto simp: guard_def word_unat_eq_iff word_le_nat_alt split: option.splits)
next
  case (2 n prev q qs)
  have q: "unat (fr_start q) = a" "a < unat (fr_end q)" "run qs (unat (fr_end q)) (unat (fr_start n))" using 2(2) by simp_all
  then have le: "unat (fr_end q) \<le> unat (fr_start n)" by (simp add: run_le)
  then have c: "\<not> fr_start n < fr_start q" "fr_start n \<noteq> fr_start q" "\<not> fr_start n < fr_end q"
    using q by (auto simp: word_less_nat_alt)
  have "chain_walk n (Some q) qs = Some (Some (True, qs, []))" using 2(1) [OF c(1,2,3) q(3)] by simp
  moreover have "case prev of None \<Rightarrow> True | Some p \<Rightarrow> fr_end p = fr_start q"
    using 2(3) q(1) by (auto simp: word_unat_eq_iff split: option.splits)
  ultimately show ?case using c by (simp split: option.splits)
qed

subsection \<open>Headers of fragments\<close>

lemma offset_bits:
  assumes "w < 8192"
  shows "IP_OFFMASK AND w = w" "w AND IP_OFFMASK = w" "(w OR IP_MF) AND IP_OFFMASK = w" "w AND IP_MF = 0" "(w OR IP_MF) AND IP_MF \<noteq> 0"
proof -
  have m: "IP_OFFMASK = mask 13" "IP_MF = push_bit 13 1" by (simp_all add: IP_OFFMASK_def IP_MF_def mask_numeral push_bit_eq_mult)
  have mf: "bit IP_MF k \<longleftrightarrow> k = 13" for k unfolding m(2) bit_push_bit_iff by (auto simp: bit_1_iff)
  have "unat w < 2 ^ 13" using assms by (simp add: word_less_nat_alt)
  then have w: "take_bit 13 w = w" by (simp add: word_unat_eq_iff unat_take)
  then have hi: "\<not> bit w k" if "13 \<le> k" for k using that by (metis bit_take_bit_iff leD)
  show "w AND IP_OFFMASK = w" unfolding m using w by (simp add: take_bit_eq_mask)
  then show "IP_OFFMASK AND w = w" by (simp add: and.commute)
  show "w AND IP_MF = 0" by (rule bit_word_eqI) (auto simp: bit_and_iff mf hi)
  show "(w OR IP_MF) AND IP_OFFMASK = w" unfolding m(1) by (rule bit_word_eqI) (auto simp: bit_simps mf hi not_less intro: ccontr)
  have "bit ((w OR IP_MF) AND IP_MF) 13" by (simp add: bit_and_iff bit_or_iff mf)
  then show "(w OR IP_MF) AND IP_MF \<noteq> 0" by force
qed

text \<open>A chain that carries a packet, its header in the first pbuf.\<close>

definition carries :: "byte list list \<Rightarrow> byte list \<Rightarrow> bool" where
  "carries c f \<longleftrightarrow> c \<noteq> [] \<and> IP_HLEN \<le> length (hd c) \<and> concat c = f"

definition pkt_hdr :: "ip_hdr \<Rightarrow> u16_t \<Rightarrow> byte list \<Rightarrow> ip_hdr" where
  "pkt_hdr h off d = set_hdr off (of_nat (length d + IP_HLEN)) h"

lemma pkt_hdr_sel [simp]:
  "iph_offset (pkt_hdr h off d) = htons off" "iph_len (pkt_hdr h off d) = htons (of_nat (length d + IP_HLEN))" "IPH_HL (pkt_hdr h off d) = IPH_HL h"
  "iph_src (pkt_hdr h off d) = iph_src h" "iph_dest (pkt_hdr h off d) = iph_dest h" "iph_id (pkt_hdr h off d) = iph_id h"
  "IP_ADDRESSES_AND_ID_MATCH (pkt_hdr h off d) h' = IP_ADDRESSES_AND_ID_MATCH h h'"
  "IP_ADDRESSES_AND_ID_MATCH h' (pkt_hdr h off d) = IP_ADDRESSES_AND_ID_MATCH h' h"
  by (simp_all add: pkt_hdr_def IPH_HL_def IP_ADDRESSES_AND_ID_MATCH_def)

lemma carries_packet:
  assumes "carries c (ip_datagram h off d)"
  shows "c \<noteq> []" "IP_HLEN \<le> length (hd c)" "hdr_of (hd c) = pkt_hdr h off d" "drop IP_HLEN (hd c) @ concat (tl c) = d"
proof -
  have c: "hd c @ concat (tl c) = hdr_bytes (pkt_hdr h off d) @ d" "c \<noteq> []" "IP_HLEN \<le> length (hd c)"
    using assms by (cases c; simp add: carries_def ip_datagram_def pkt_hdr_def)+
  have "take IP_HLEN (hd c) = hdr_bytes (pkt_hdr h off d)"
    using arg_cong [OF c(1), of "take IP_HLEN"] c(3) by (simp add: IP_HLEN_def)
  then have "hd c = hdr_bytes (pkt_hdr h off d) @ drop IP_HLEN (hd c)" by (metis append_take_drop_id)
  then show "hdr_of (hd c) = pkt_hdr h off d" by (metis hdr_of_bytes)
  show "drop IP_HLEN (hd c) @ concat (tl c) = d" using arg_cong [OF c(1), of "drop IP_HLEN"] c(3) by (simp add: IP_HLEN_def)
qed (use assms in \<open>simp_all add: carries_def\<close>)

lemma pkt_frag:
  assumes "IPH_HL h = 5"
  shows "frag_len (pkt_hdr h off d) = of_nat (length d)"
    "w < 8192 \<Longrightarrow> off = w \<or> off = w OR IP_MF \<Longrightarrow> frag_offset (pkt_hdr h off d) = w * 8"
  using assms by (auto simp: frag_len_def frag_offset_def ntohs_def offset_bits IP_HLEN_def)

subsection \<open>Storing a fragment\<close>

lemma clen_small:
  assumes "length c \<le> 10"
  shows "uint (chain_clen c) = int (length c)" "ucast (chain_clen c) = (of_nat (length c) :: u16_t)"
proof -
  have u: "unat (chain_clen c) = length c" using assms by (simp add: chain_clen_def unsigned_of_nat take_bit_nat_eq_self)
  have "uint (chain_clen c) = int (unat (chain_clen c))" by simp
  then show "uint (chain_clen c) = int (length c)" unfolding u .
  have "ucast (chain_clen c) = (of_nat (unat (chain_clen c)) :: u16_t)" by simp
  then show "ucast (chain_clen c) = (of_nat (length c) :: u16_t)" unfolding u .
qed

lemma find_datagram_cong: "IP_ADDRESSES_AND_ID_MATCH h h' \<Longrightarrow> find_datagram h k rs = find_datagram h' k rs"
  by (induction rs arbitrary: k) (auto simp: IP_ADDRESSES_AND_ID_MATCH_def)

lemma find_datagram_pkt [simp]: "find_datagram (pkt_hdr h off d) k rs = find_datagram h k rs"
  by (rule find_datagram_cong) (simp add: IP_ADDRESSES_AND_ID_MATCH_def)

text \<open>A reassembly that has one datagram more than \<open>s\<close>, with \<open>k\<close> pbufs.\<close>

definition holding :: "reass \<Rightarrow> ip_reassdata \<Rightarrow> nat \<Rightarrow> reass" where
  "holding s r k = s\<lparr>reassdatagrams := r # reassdatagrams s, ip_reass_pbufcount := ip_reass_pbufcount s + of_nat k,
     reassdata_free := reassdata_free s - 1\<rparr>"

lemma holding_sel [simp]:
  "reassdatagrams (holding s r k) = r # reassdatagrams s" "upd_datagram 0 f (holding s r k) = holding s (f r) k"
  "holding s r k\<lparr>ip_reass_pbufcount := ip_reass_pbufcount (holding s r k) + of_nat j\<rparr> = holding s r (k + j)"
  by (simp_all add: holding_def upd_datagram_def add.assoc)

definition with_chain :: "u16_t \<Rightarrow> byte list \<Rightarrow> byte list list \<Rightarrow> frag" where
  "with_chain w d c = \<lparr>fr_start = w * 8, fr_end = w * 8 + of_nat (length d), fr_pbuf = c\<rparr>"

text \<open>The common start of \<open>ip_reass\<close>: the header is good and there is room.\<close>

lemma room_test:
  assumes "unat (ip_reass_pbufcount s) + length c \<le> 10"
  shows "\<not> uint (ip_reass_pbufcount s) + uint (chain_clen c) > int IP_REASS_MAX_PBUFS"
proof -
  have "uint (ip_reass_pbufcount s) = int (unat (ip_reass_pbufcount s))" by simp
  moreover have "uint (chain_clen c) = int (length c)" using assms by (simp add: clen_small)
  ultimately show ?thesis using assms unfolding IP_REASS_MAX_PBUFS_def by linarith
qed

lemma hl_test: "IPH_HL h = 5 \<Longrightarrow> IPH_HL h * 4 = of_nat IP_HLEN"
  by (simp add: IP_HLEN_def)

lemma put_frag:
  assumes c: "carries c (ip_datagram h off d)" and h: "IPH_HL h = 5" and w: "w < 8192" "off = w \<or> off = w OR IP_MF"
    and r: "chain_walk (with_chain w d c) None (ipr_p r) = Some (Some (True, ipr_p r, []))"
  shows "ip_reass_chain_frag_into_datagram_and_validate 0 c (holding s r k) =
    map_option (\<lambda>v. (v, holding s (r\<lparr>ipr_p := ipr_p r @ [with_chain w d c]\<rparr>) k))
      (validate True (with_chain w d c) (ipr_p r) [] (r\<lparr>ipr_p := ipr_p r @ [with_chain w d c]\<rparr>))"
proof -
  note C = carries_packet [OF c]
  have g: "guard (c \<noteq> [] \<and> length (hd c) \<ge> IP_HLEN) = Some ()" using C(1,2) by (simp add: guard_def)
  have n: "\<lparr>fr_start = frag_offset (pkt_hdr h off d), fr_end = frag_offset (pkt_hdr h off d) + frag_len (pkt_hdr h off d), fr_pbuf = c\<rparr> = with_chain w d c"
    using pkt_frag(2) [OF h w] pkt_frag(1) [OF h] by (simp add: with_chain_def)
  show ?thesis
    unfolding ip_reass_chain_frag_into_datagram_and_validate_def g C(3) Let_def n
    by (simp add: r Option.bind_map_option comp_def) (cases "validate True (with_chain w d c) (ipr_p r) [] (r\<lparr>ipr_p := ipr_p r @ [with_chain w d c]\<rparr>)"; simp)
qed

lemma first_fragment:
  assumes f: "find_datagram h 0 (reassdatagrams s) = None" "0 < reassdata_free s" and c: "carries c (ip_datagram h IP_MF d)" and h: "IPH_HL h = 5"
    and room: "unat (ip_reass_pbufcount s) + length c \<le> 10"
  shows "ip_reass c s = Some (None, holding s ((new_datagram (pkt_hdr h IP_MF d))\<lparr>ipr_p := [with_chain 0 d c]\<rparr>) (length c))"
proof -
  note C = carries_packet [OF c]
  have g: "guard (c \<noteq> [] \<and> length (hd c) \<ge> IP_HLEN) = Some ()" using C(1,2) by (simp add: guard_def)
  have q: "ip_reass_enqueue_new_datagram (pkt_hdr h IP_MF d) clen s = Some (True, holding s (new_datagram (pkt_hdr h IP_MF d)) 0)" for clen
    using f(2) by (simp add: ip_reass_enqueue_new_datagram_def holding_def)
  have u: "ucast (chain_clen c) = (of_nat (length c) :: u16_t)" using room by (simp add: clen_small)
  have mf: "ntohs (htons IP_MF) AND IP_MF \<noteq> 0" by (simp add: ntohs_def IP_MF_def)
  have p: "ip_reass_chain_frag_into_datagram_and_validate 0 c (holding s (new_datagram (pkt_hdr h IP_MF d)) k) =
      Some (False, holding s ((new_datagram (pkt_hdr h IP_MF d))\<lparr>ipr_p := [with_chain 0 d c]\<rparr>) k)" for k
    using put_frag [OF c h, of 0 "new_datagram (pkt_hdr h IP_MF d)" s k] by (simp add: new_datagram_def validate_def)
  show ?thesis
    unfolding ip_reass_def g C(3) Let_def
    using mf by (simp add: hl_test [OF h] room_test [OF room] f(1) q u p)
qed

lemma next_fragment:
  assumes m: "IP_ADDRESSES_AND_ID_MATCH (ipr_iphdr r) h" and fl: "ipr_flags r = 0" and c: "carries c (ip_datagram h (if mf then w OR IP_MF else w) d)"
    and h: "IPH_HL h = 5" and room: "unat (ip_reass_pbufcount s) + k + length c \<le> 10"
    and run: "ipr_p r \<noteq> []" "run (ipr_p r) 0 (unat w * 8)" and w: "w < 8192" "w \<noteq> 0"
  shows "ip_reass c (holding s r k) =
    (if mf then Some (None, holding s (r\<lparr>ipr_p := ipr_p r @ [with_chain w d c]\<rparr>) (k + length c))
     else map_option (\<lambda>(q, s). (Some q, s)) (ip_reass_complete 0 None (holding s
       (r\<lparr>ipr_flags := IP_REASS_FLAG_LASTFRAG, ipr_datagram_len := w * 8 + of_nat (length d), ipr_p := ipr_p r @ [with_chain w d c]\<rparr>) (k + length c))))"
proof -
  let ?off = "if mf then w OR IP_MF else w"
  let ?hd = "pkt_hdr h ?off d"
  note C = carries_packet [OF c]
  have g: "guard (c \<noteq> [] \<and> length (hd c) \<ge> IP_HLEN) = Some ()" using C(1,2) by (simp add: guard_def)
  have kk: "unat (ip_reass_pbufcount (holding s r k)) + length c \<le> 10"
    using room by (simp add: holding_def unat_word_ariths unsigned_of_nat take_bit_nat_eq_self)
  have u: "ucast (chain_clen c) = (of_nat (length c) :: u16_t)" using room by (simp add: clen_small)
  have off: "?off = w \<or> ?off = w OR IP_MF" by simp
  have mf: "ntohs (htons ?off) AND IP_MF = 0 \<longleftrightarrow> \<not> mf" "ntohs (htons ?off) AND IP_OFFMASK \<noteq> 0"
    using w by (simp_all add: ntohs_def offset_bits) (simp add: IP_MF_def)
  have st: "unat (fr_start (with_chain w d c)) = unat w * 8"
    using w(1) by (simp add: with_chain_def unat_word_ariths word_less_nat_alt)
  have wk: "chain_walk (with_chain w d c) None (ipr_p r) = Some (Some (True, ipr_p r, []))"
    using chain_walk_run [of "ipr_p r" 0 "with_chain w d c" None] run st by simp
  let ?r = "\<lambda>r. r\<lparr>ipr_p := ipr_p r @ [with_chain w d c]\<rparr>"
  let ?l = "r\<lparr>ipr_flags := IP_REASS_FLAG_LASTFRAG, ipr_datagram_len := w * 8 + of_nat (length d)\<rparr>"
  have hd0: "fr_start (hd (ipr_p r @ [with_chain w d c])) = 0" using run by (cases "ipr_p r") (simp_all add: word_unat_eq_iff)
  have v: "validate True (with_chain w d c) (ipr_p r) [] (?r r) = Some False"
    "validate True (with_chain w d c) (ipr_p r) [] (?r ?l) = Some True"
    using fl run hd0 by (simp_all add: validate_def guard_def IP_REASS_FLAG_LASTFRAG_def with_chain_def)
  have p: "ip_reass_chain_frag_into_datagram_and_validate 0 c (holding s r j) = Some (False, holding s (?r r) j)"
    "ip_reass_chain_frag_into_datagram_and_validate 0 c (holding s ?l j) = Some (True, holding s (?r ?l) j)" for j
    using put_frag [OF c h w(1) off, of r] put_frag [OF c h w(1) off, of ?l] wk v by simp_all
  have ln: "frag_offset ?hd + frag_len ?hd = w * 8 + of_nat (length d)" using pkt_frag [OF h] w(1) off by simp
  show ?thesis
  proof (cases mf)
    case True
    then show ?thesis
      unfolding ip_reass_def g C(3) Let_def using mf by (simp add: m hl_test [OF h] room_test [OF kk] u p)
  next
    case False
    have fin: "(x \<bind> (\<lambda>(p, s). Some (Some p, s))) = map_option (\<lambda>(q, s). (Some q, s)) x" for x :: "('a \<times> 'b) option"
      by (cases x) auto
    have l: "r\<lparr>ipr_flags := 0 OR IP_REASS_FLAG_LASTFRAG, ipr_datagram_len := w * 8 + of_nat (length d)\<rparr> = ?l" by simp
    show ?thesis
      unfolding ip_reass_def g C(3) Let_def ln
      using False mf by (simp add: m hl_test [OF h] room_test [OF kk] u p fl fin)
  qed
qed

subsection \<open>All fragments\<close>

text \<open>Feeding a sequence of chains: the results of the calls.\<close>

fun feed :: "byte list list list \<Rightarrow> reass \<Rightarrow> (byte list list option list \<times> reass) option" where
  "feed [] s = Some ([], s)"
| "feed (c # cs) s = do { (q, s) \<leftarrow> ip_reass c s; (qs, s) \<leftarrow> feed cs s; Some (q # qs, s) }"

text \<open>The data of a queue, and its number of pbufs.\<close>

definition frag_data :: "frag \<Rightarrow> byte list" where
  "frag_data f = drop IP_HLEN (hd (fr_pbuf f)) @ concat (tl (fr_pbuf f))"

definition queue_data :: "frag list \<Rightarrow> byte list" where
  "queue_data fs = concat (map frag_data fs)"

definition queue_pbufs :: "frag list \<Rightarrow> nat" where
  "queue_pbufs fs = sum_list (map (\<lambda>f. length (fr_pbuf f)) fs)"

lemma queue_simps [simp]:
  "queue_data [] = []" "queue_data (f # fs) = frag_data f @ queue_data fs" "queue_data (fs @ gs) = queue_data fs @ queue_data gs"
  "queue_pbufs [] = 0" "queue_pbufs (f # fs) = length (fr_pbuf f) + queue_pbufs fs" "queue_pbufs (fs @ gs) = queue_pbufs fs + queue_pbufs gs"
  by (simp_all add: queue_data_def queue_pbufs_def)

lemma hidden_chains:
  assumes "\<forall>f\<in>set fs. fr_pbuf f \<noteq> []"
  shows "concat (concat (map (\<lambda>f. drop IP_HLEN (hd (fr_pbuf f)) # tl (fr_pbuf f)) fs)) = queue_data fs"
    "length (concat (map (\<lambda>f. drop IP_HLEN (hd (fr_pbuf f)) # tl (fr_pbuf f)) fs)) = queue_pbufs fs"
  using assms by (induction fs) (auto simp: frag_data_def)

lemma complete_ok:
  assumes r: "ipr_p r \<noteq> []" "\<forall>f\<in>set (ipr_p r). fr_pbuf f \<noteq> []" and k: "queue_pbufs (ipr_p r) \<le> 10" and f: "0 < reassdata_free s"
  shows "\<exists>q. ip_reass_complete 0 None (holding s r (queue_pbufs (ipr_p r))) = Some (q, s) \<and>
    concat q = hdr_bytes (set_hdr 0 (ipr_datagram_len r + of_nat IP_HLEN) (ipr_iphdr r)) @ queue_data (ipr_p r)"
proof -
  let ?h = "set_hdr 0 (ipr_datagram_len r + of_nat IP_HLEN) (ipr_iphdr r)"
  let ?q = "put_hdr ?h (fr_pbuf (hd (ipr_p r))) @
    concat (map (\<lambda>f. drop IP_HLEN (hd (fr_pbuf f)) # tl (fr_pbuf f)) (tl (ipr_p r)))"
  obtain f fs where fs: "ipr_p r = f # fs" using r(1) by (cases "ipr_p r") auto
  have "concat ?q = hdr_bytes ?h @ queue_data (ipr_p r)" using hidden_chains(1) [of fs] r(2) by (simp add: fs put_hdr_def frag_data_def)
  moreover have l: "length ?q = queue_pbufs (ipr_p r)" using hidden_chains(2) [of fs] r(2) by (simp add: fs put_hdr_def)
  then have "ucast (chain_clen ?q) = (of_nat (queue_pbufs (ipr_p r)) :: u16_t)" using k by (simp add: clen_small)
  then have "ip_reass_complete 0 None (holding s r (queue_pbufs (ipr_p r))) = Some (?q, s)"
    using r(1) f by (simp add: ip_reass_complete_def guard_def ip_reass_dequeue_datagram_def Let_def) (simp add: holding_def)
  ultimately show ?thesis by blast
qed

lemma word_off:
  assumes "8 dvd b" "b < 65536"
  shows "unat (of_nat (b div 8) :: u16_t) * 8 = b" "(of_nat (b div 8) :: u16_t) < 8192" "0 < b \<Longrightarrow> (of_nat (b div 8) :: u16_t) \<noteq> 0"
proof -
  have u: "unat (of_nat (b div 8) :: u16_t) = b div 8" using assms(2) by (simp add: unsigned_of_nat take_bit_nat_eq_self)
  show "unat (of_nat (b div 8) :: u16_t) * 8 = b" using u assms(1) by simp
  show "(of_nat (b div 8) :: u16_t) < 8192" using u assms(2) by (simp add: word_less_nat_alt)
  show "(of_nat (b div 8) :: u16_t) \<noteq> 0" if "0 < b" using u assms(1) that by (auto simp: word_unat_eq_iff)
qed

lemma with_chain_ends:
  assumes "8 dvd b" "b + length d < 65536" "d \<noteq> []"
  shows "run [with_chain (of_nat (b div 8)) d c] b (b + length d)"
proof -
  let ?w = "of_nat (b div 8) :: u16_t"
  have b: "b < 65536" using assms(2) by simp
  have "?w * 8 = of_nat (b div 8 * 8)" by simp
  then have w: "?w * 8 = of_nat b" using assms(1) by simp
  then have e: "?w * 8 + of_nat (length d) = of_nat (b + length d)" by simp
  have u: "unat (of_nat x :: u16_t) = x" if "x < 65536" for x using that by (simp add: unsigned_of_nat take_bit_nat_eq_self)
  have "unat (?w * 8) = b" "unat (?w * 8 + of_nat (length d)) = b + length d"
    unfolding e unfolding w using u [OF b] u [OF assms(2)] by simp_all
  then show ?thesis using assms(3) by (simp add: with_chain_def)
qed

text \<open>The sizes \<open>ip_frag\<close> gives its pieces.\<close>

fun even_pieces :: "byte list list \<Rightarrow> bool" where
  "even_pieces [] = True"
| "even_pieces (d # ds) \<longleftrightarrow> d \<noteq> [] \<and> (ds \<noteq> [] \<longrightarrow> 8 dvd length d) \<and> even_pieces ds"

lemma feed_rest:
  assumes "IP_ADDRESSES_AND_ID_MATCH (ipr_iphdr r) h" "ipr_flags r = 0" "ipr_p r \<noteq> []" "\<forall>f\<in>set (ipr_p r). fr_pbuf f \<noteq> []" "run (ipr_p r) 0 b"
    "list_all2 carries cs (frames h 0 (of_nat (b div 8)) ds)" "ds \<noteq> []" "even_pieces ds" "8 dvd b" "0 < b" "b + length (concat ds) < 65536"
    "unat (ip_reass_pbufcount s) + queue_pbufs (ipr_p r) + sum_list (map length cs) \<le> 10" "0 < reassdata_free s" "IPH_HL h = 5"
  shows "\<exists>q. feed cs (holding s r (queue_pbufs (ipr_p r))) = Some (replicate (length cs - 1) None @ [Some q], s) \<and>
    concat q = hdr_bytes (set_hdr 0 (of_nat (b + length (concat ds) + IP_HLEN)) (ipr_iphdr r)) @ queue_data (ipr_p r) @ concat ds"
  using assms
proof (induction ds arbitrary: r b cs)
  case (Cons d ds)
  let ?w = "of_nat (b div 8) :: u16_t"
  have b: "b < 65536" "b + length d < 65536" using Cons.prems(11) by simp_all
  note w = word_off [OF Cons.prems(9) b(1)]
  have off: "0 OR (IP_OFFMASK AND ?w) = ?w" using w(2) by (simp add: offset_bits)
  obtain c cs' where cs: "cs = c # cs'" "carries c (ip_datagram h (if ds \<noteq> [] then ?w OR IP_MF else ?w) d)"
    "list_all2 carries cs' (frames h 0 (?w + of_nat (length d div 8)) ds)"
    using Cons.prems(6) off by (auto simp: list_all2_Cons2 Let_def split: if_splits)
  let ?n = "with_chain ?w d c"
  have C: "c \<noteq> []" "frag_data ?n = d" using carries_packet [OF cs(2)] by (simp_all add: frag_data_def with_chain_def)
  have room: "unat (ip_reass_pbufcount s) + queue_pbufs (ipr_p r) + length c \<le> 10" using Cons.prems(12) cs(1) by simp
  have nx: "ip_reass c (holding s r (queue_pbufs (ipr_p r))) =
    (if ds \<noteq> [] then Some (None, holding s (r\<lparr>ipr_p := ipr_p r @ [?n]\<rparr>) (queue_pbufs (ipr_p r) + length c))
     else map_option (\<lambda>(q, s). (Some q, s)) (ip_reass_complete 0 None (holding s
       (r\<lparr>ipr_flags := IP_REASS_FLAG_LASTFRAG, ipr_datagram_len := ?w * 8 + of_nat (length d), ipr_p := ipr_p r @ [?n]\<rparr>)
       (queue_pbufs (ipr_p r) + length c))))"
    using next_fragment [OF Cons.prems(1,2) cs(2) Cons.prems(14) room Cons.prems(3)] Cons.prems(5,10) w by simp
  have run: "run (ipr_p r @ [?n]) 0 (b + length d)"
    using Cons.prems(5) with_chain_ends [OF Cons.prems(9) b(2), of c] Cons.prems(8) by auto
  have pb: "\<forall>f\<in>set (ipr_p r @ [?n]). fr_pbuf f \<noteq> []" using Cons.prems(4) C(1) by (auto simp: with_chain_def)
  have qp: "queue_pbufs (ipr_p r @ [?n]) = queue_pbufs (ipr_p r) + length c" by (simp add: with_chain_def)
  show ?case
  proof (cases "ds = []")
    case True
    let ?r = "r\<lparr>ipr_flags := IP_REASS_FLAG_LASTFRAG, ipr_datagram_len := ?w * 8 + of_nat (length d), ipr_p := ipr_p r @ [?n]\<rparr>"
    have "?w * 8 = of_nat (b div 8 * 8)" by simp
    then have "?w * 8 = of_nat b" using Cons.prems(9) by simp
    then have len: "ipr_datagram_len ?r + of_nat IP_HLEN = of_nat (b + length (concat [d]) + IP_HLEN)" by simp
    obtain q where q: "ip_reass_complete 0 None (holding s ?r (queue_pbufs (ipr_p r) + length c)) = Some (q, s)"
      "concat q = hdr_bytes (set_hdr 0 (of_nat (b + length (concat [d]) + IP_HLEN)) (ipr_iphdr r)) @ queue_data (ipr_p r) @ d"
      using complete_ok [of ?r s] pb room Cons.prems(13) C(2) qp unfolding len by auto
    have "cs' = []" using cs(3) True by simp
    then show ?thesis using q nx True cs(1) by simp
  next
    case False
    let ?r = "r\<lparr>ipr_p := ipr_p r @ [?n]\<rparr>"
    have d8: "8 dvd length d" using Cons.prems(8) False by simp
    then have d8': "8 dvd b + length d" using Cons.prems(9) by simp
    have "(b + length d) div 8 = b div 8 + length d div 8" using d8 by (simp add: div_plus_div_distrib_dvd_right)
    then have cs': "list_all2 carries cs' (frames h 0 (of_nat ((b + length d) div 8)) ds)" using cs(3) by simp
    have ne: "cs' \<noteq> []" using cs(3) False by (cases ds) (auto simp: Let_def)
    obtain q where q: "feed cs' (holding s ?r (queue_pbufs (ipr_p ?r))) = Some (replicate (length cs' - 1) None @ [Some q], s)"
      "concat q = hdr_bytes (set_hdr 0 (of_nat (b + length d + length (concat ds) + IP_HLEN)) (ipr_iphdr ?r)) @ queue_data (ipr_p ?r) @ concat ds"
      using Cons.IH [of ?r "b + length d" cs'] Cons.prems cs' run pb d8' False qp cs(1) by auto
    have "replicate (length cs - 1) (None :: byte list list option) = None # replicate (length cs' - 1) None"
      using ne cs(1) by (cases cs') simp_all
    then show ?thesis using q nx False cs(1) C(2) qp by (auto simp: add.assoc)
  qed
qed simp

end
