(* ===== verification/Ip_Reass_Inv.thy ===== *)
theory Ip_Reass_Inv
  imports Ip_Reass_Run Runs
begin

text \<open>
  The invariant of the reassembly: the pool of \<open>struct ip_reassdata\<close> and the number of queued pbufs are accounted for, each
  datagram occurs once and has a queue of fragments in ascending order, and the oldest datagrams come last.
\<close>

subsection \<open>The invariant\<close>

definition queue_ok :: "frag list \<Rightarrow> bool" where
  "queue_ok fs \<longleftrightarrow> fs \<noteq> [] \<and> sorted_wrt (\<lambda>f g. fr_start f < fr_start g) fs \<and> (\<forall>f\<in>set fs. fr_pbuf f \<noteq> [] \<and> IP_HLEN \<le> length (hd (fr_pbuf f)))"

definition ip_key :: "ip_hdr \<Rightarrow> u32_t \<times> u32_t \<times> u16_t" where
  "ip_key h = (iph_src h, iph_dest h, iph_id h)"

lemma match_key: "IP_ADDRESSES_AND_ID_MATCH a b \<longleftrightarrow> ip_key a = ip_key b"
  by (simp add: IP_ADDRESSES_AND_ID_MATCH_def ip_key_def)

definition total_clen :: "ip_reassdata list \<Rightarrow> int" where
  "total_clen rs = sum_list (map (\<lambda>r. frags_clen (ipr_p r)) rs)"

definition list_ok :: "ip_reassdata list \<Rightarrow> bool" where
  "list_ok rs \<longleftrightarrow> (\<forall>r\<in>set rs. queue_ok (ipr_p r) \<and> ipr_timer r \<le> IP_REASS_MAXAGE) \<and> distinct (map (\<lambda>r. ip_key (ipr_iphdr r)) rs)"

definition accounted :: "reass \<Rightarrow> bool" where
  "accounted s \<longleftrightarrow> length (reassdatagrams s) + reassdata_free s = MEMP_NUM_REASSDATA \<and>
     uint (ip_reass_pbufcount s) = total_clen (reassdatagrams s) \<and> uint (ip_reass_pbufcount s) \<le> int IP_REASS_MAX_PBUFS"

definition by_age :: "ip_reassdata list \<Rightarrow> bool" where
  "by_age = sorted_wrt (\<lambda>a b. ipr_timer b \<le> ipr_timer a)"

definition reass_inv :: "reass \<Rightarrow> bool" where
  "reass_inv s \<longleftrightarrow> list_ok (reassdatagrams s) \<and> by_age (reassdatagrams s) \<and> accounted s"

lemma frags_clen_nonneg [simp]: "0 \<le> frags_clen fs"
  by (induction fs) simp_all

lemma frags_clen_append [simp]: "frags_clen (fs @ gs) = frags_clen fs + frags_clen gs"
  by (induction fs) simp_all

lemma total_clen_simps [simp]:
  "total_clen [] = 0" "total_clen (r # rs) = frags_clen (ipr_p r) + total_clen rs" "total_clen (rs @ ts) = total_clen rs + total_clen ts"
  by (simp_all add: total_clen_def)

lemma total_clen_nonneg [simp]: "0 \<le> total_clen rs"
  by (induction rs) simp_all

subsection \<open>Taking a datagram out\<close>

definition without :: "nat \<Rightarrow> 'a list \<Rightarrow> 'a list" where
  "without i xs = take i xs @ drop (Suc i) xs"

lemma without_split: "i < length xs \<Longrightarrow> xs = take i xs @ xs ! i # drop (Suc i) xs"
  by (rule id_take_nth_drop)

lemma list_ok_without:
  assumes "list_ok rs" "i < length rs"
  shows "list_ok (without i rs)" "total_clen rs = frags_clen (ipr_p (rs ! i)) + total_clen (without i rs)" "length rs = Suc (length (without i rs))"
proof -
  obtain as b cs where d: "rs = as @ b # cs" "as = take i rs" "b = rs ! i" "cs = drop (Suc i) rs" using without_split [OF assms(2)] by blast
  then have w: "without i rs = as @ cs" by (simp add: without_def)
  show "list_ok (without i rs)" using assms(1) unfolding w unfolding d(1) list_ok_def by auto
  show "total_clen rs = frags_clen (ipr_p (rs ! i)) + total_clen (without i rs)" unfolding w d(3) [symmetric] by (simp add: d(1))
  show "length rs = Suc (length (without i rs))" unfolding w using d(1) by simp
qed

lemma by_age_without:
  assumes "by_age rs" "i < length rs"
  shows "by_age (without i rs)"
proof -
  obtain as b cs where d: "rs = as @ b # cs" "as = take i rs" "cs = drop (Suc i) rs" using without_split [OF assms(2)] by blast
  then have w: "without i rs = as @ cs" by (simp add: without_def)
  show ?thesis using assms(1) unfolding w unfolding d(1) by_age_def by (auto simp: sorted_wrt_append)
qed

definition pred_of :: "nat \<Rightarrow> nat option" where
  "pred_of i = (if i = 0 then None else Some (i - 1))"

text \<open>What is sent when a datagram is given up: a message if its first fragment is there.\<close>

definition exceeded :: "ip_reassdata \<Rightarrow> byte list list list" where
  "exceeded r = (if fr_start (hd (ipr_p r)) = 0 then [put_hdr (ipr_iphdr r) (fr_pbuf (hd (ipr_p r)))] else [])"

definition given_up :: "nat \<Rightarrow> reass \<Rightarrow> reass" where
  "given_up i s = s\<lparr>reassdatagrams := without i (reassdatagrams s), reassdata_free := reassdata_free s + 1,
     ip_reass_pbufcount := ip_reass_pbufcount s - word_of_int (frags_clen (ipr_p (reassdatagrams s ! i))),
     time_exceeded := time_exceeded s @ exceeded (reassdatagrams s ! i)\<rparr>"

lemma uint_minus:
  assumes "0 \<le> k" "k \<le> uint (w :: u16_t)"
  shows "uint (w - word_of_int k) = uint w - k"
proof -
  have "uint w < 65536" using uint_bounded [of w] by simp
  then have "uint (word_of_int k :: u16_t) = k" using assms by (simp add: uint_word_of_int_eq take_bit_int_eq_self)
  then show ?thesis using assms(2) by (simp add: uint_sub_lem [THEN iffD1])
qed

lemma given_up_ok:
  assumes "list_ok (reassdatagrams s)" "accounted s" "i < length (reassdatagrams s)"
  shows "list_ok (reassdatagrams (given_up i s))" "accounted (given_up i s)"
proof -
  note I = assms(2) [unfolded accounted_def]
  note w = list_ok_without [OF assms(1,3)]
  let ?k = "frags_clen (ipr_p (reassdatagrams s ! i))"
  have "?k \<le> uint (ip_reass_pbufcount s)" using I w(2) by simp
  then have "uint (ip_reass_pbufcount s - word_of_int ?k) = uint (ip_reass_pbufcount s) - ?k" by (rule uint_minus [OF frags_clen_nonneg])
  moreover have "uint (ip_reass_pbufcount s) - ?k \<le> int IP_REASS_MAX_PBUFS" using I frags_clen_nonneg [of "ipr_p (reassdatagrams s ! i)"] by linarith
  ultimately show "accounted (given_up i s)" using I w unfolding accounted_def by (simp add: given_up_def)
  show "list_ok (reassdatagrams (given_up i s))" using w(1) by (simp add: given_up_def)
qed

lemma given_up_inv:
  assumes "reass_inv s" "i < length (reassdatagrams s)"
  shows "reass_inv (given_up i s)"
  using given_up_ok [of s i] by_age_without [of "reassdatagrams s" i] assms by (simp add: reass_inv_def) (simp add: given_up_def)

lemma free_complete_ok:
  assumes "list_ok (reassdatagrams s)" "accounted s" "i < length (reassdatagrams s)"
  shows "ip_reass_free_complete_datagram i prev s =
    (if prev = pred_of i then Some (frags_clen (ipr_p (reassdatagrams s ! i)), given_up i s) else None)"
proof -
  note I = assms(1) [unfolded list_ok_def] assms(2) [unfolded accounted_def]
  define r where "r = reassdatagrams s ! i"
  have "queue_ok (ipr_p r)" using I assms(3) by (simp add: r_def)
  then obtain f fs where fs: "ipr_p r = f # fs" by (cases "ipr_p r") (auto simp: queue_ok_def)
  have le: "frags_clen (ipr_p r) \<le> uint (ip_reass_pbufcount s)"
    using I list_ok_without(2) [OF assms(1,3)] by (simp add: r_def)
  show ?thesis
  proof (cases "prev = pred_of i")
    case True
    then show ?thesis
      unfolding ip_reass_free_complete_datagram_def given_up_def r_def [symmetric] Let_def using le
      by (cases "fr_start f = 0"; cases "i = 0")
        (simp_all add: guard_def ip_reass_dequeue_datagram_def pred_of_def fs without_def exceeded_def)
  next
    case False
    then show ?thesis
      by (cases "i = 0"; cases prev) (auto simp: ip_reass_free_complete_datagram_def guard_def ip_reass_dequeue_datagram_def pred_of_def Let_def)
  qed
qed

subsection \<open>The oldest datagram\<close>

text \<open>The last datagram of a list that is not the one of \<open>h\<close>.\<close>

definition last_other :: "ip_hdr \<Rightarrow> ip_reassdata list \<Rightarrow> nat \<Rightarrow> bool" where
  "last_other h rs j \<longleftrightarrow> j < length rs \<and> \<not> IP_ADDRESSES_AND_ID_MATCH (ipr_iphdr (rs ! j)) h \<and>
     (\<forall>l. j < l \<and> l < length rs \<longrightarrow> IP_ADDRESSES_AND_ID_MATCH (ipr_iphdr (rs ! l)) h)"

definition other_count :: "ip_hdr \<Rightarrow> ip_reassdata list \<Rightarrow> nat" where
  "other_count h rs = length (filter (\<lambda>r. \<not> IP_ADDRESSES_AND_ID_MATCH (ipr_iphdr r) h) rs)"

lemma other_count_simps [simp]:
  "other_count h [] = 0" "other_count h (r # rs) = (if IP_ADDRESSES_AND_ID_MATCH (ipr_iphdr r) h then 0 else 1) + other_count h rs"
  "other_count h (rs @ ts) = other_count h rs + other_count h ts"
  by (simp_all add: other_count_def)

lemma last_other_Cons: "last_other h rs j \<Longrightarrow> last_other h (r # rs) (Suc j)"
  by (auto simp: last_other_def nth_Cons split: nat.splits)

lemma last_other_first: "other_count h rs = 0 \<Longrightarrow> \<not> IP_ADDRESSES_AND_ID_MATCH (ipr_iphdr r) h \<Longrightarrow> last_other h (r # rs) 0"
  by (auto simp: last_other_def other_count_def filter_empty_conv nth_Cons split: nat.splits)

lemma find_oldest_ok:
  assumes "sorted_wrt (\<lambda>a b. ipr_timer b \<le> ipr_timer a) rs" "\<forall>j t. oldest = Some (j, t) \<longrightarrow> (\<forall>r\<in>set rs. ipr_timer r \<le> t)"
  shows "\<exists>oldest'. find_oldest h k rs oldest prev n = (oldest', if 2 \<le> length rs then Some (k + length rs - 2) else prev, n + other_count h rs) \<and>
    (if other_count h rs = 0 then oldest' = oldest else \<exists>j. last_other h rs j \<and> oldest' = Some (k + j, ipr_timer (rs ! j)))"
  using assms
proof (induction rs arbitrary: k oldest prev n)
  case (Cons r rs)
  let ?m = "IP_ADDRESSES_AND_ID_MATCH (ipr_iphdr r) h"
  let ?o = "if ?m then oldest else Some (k, ipr_timer r)"
  have o: "(case oldest of None \<Rightarrow> Some (k, ipr_timer r) | Some (j, t) \<Rightarrow> if ipr_timer r \<le> t then Some (k, ipr_timer r) else oldest) = Some (k, ipr_timer r)"
    using Cons.prems(2) by (auto split: option.splits prod.splits)
  have "\<forall>j t. ?o = Some (j, t) \<longrightarrow> (\<forall>r\<in>set rs. ipr_timer r \<le> t)" using Cons.prems by auto
  then obtain oldest' where ih: "find_oldest h (Suc k) rs ?o (if rs \<noteq> [] then Some k else prev) (if ?m then n else n + 1) =
      (oldest', if 2 \<le> length rs then Some (Suc k + length rs - 2) else if rs \<noteq> [] then Some k else prev, (if ?m then n else n + 1) + other_count h rs)"
    "if other_count h rs = 0 then oldest' = ?o else \<exists>j. last_other h rs j \<and> oldest' = Some (Suc k + j, ipr_timer (rs ! j))"
    using Cons.IH [of ?o "Suc k" "if rs \<noteq> [] then Some k else prev" "if ?m then n else n + 1"] Cons.prems(1) by auto
  have f: "find_oldest h k (r # rs) oldest prev n = find_oldest h (Suc k) rs ?o (if rs \<noteq> [] then Some k else prev) (if ?m then n else n + 1)"
    using o by (cases ?m) (simp_all add: Let_def)
  have p: "(if 2 \<le> length rs then Some (Suc k + length rs - 2) else if rs \<noteq> [] then Some k else prev) =
      (if 2 \<le> length (r # rs) then Some (k + length (r # rs) - 2) else prev)"
    by (cases rs; cases "tl rs") auto
  show ?case
  proof (cases "other_count h rs = 0")
    case True
    then show ?thesis using ih p unfolding f by (cases ?m) (auto intro!: exI [of _ 0] last_other_first)
  next
    case False
    then obtain j where j: "last_other h rs j" "oldest' = Some (Suc k + j, ipr_timer (rs ! j))" using ih(2) by auto
    then have "last_other h (r # rs) (Suc j) \<and> oldest' = Some (k + Suc j, ipr_timer ((r # rs) ! Suc j))" by (simp add: last_other_Cons)
    then show ?thesis using ih(1) p False unfolding f by (cases ?m) auto
  qed
qed simp

lemma last_other_place:
  assumes "last_other h rs j" "distinct (map (\<lambda>r. ip_key (ipr_iphdr r)) rs)"
  shows "if IP_ADDRESSES_AND_ID_MATCH (ipr_iphdr (last rs)) h then 2 \<le> length rs \<and> j = length rs - 2 else j = length rs - 1"
proof -
  have j: "j < length rs" "\<not> IP_ADDRESSES_AND_ID_MATCH (ipr_iphdr (rs ! j)) h" "\<And>l. j < l \<Longrightarrow> l < length rs \<Longrightarrow> IP_ADDRESSES_AND_ID_MATCH (ipr_iphdr (rs ! l)) h"
    using assms(1) by (auto simp: last_other_def)
  have last: "last rs = rs ! (length rs - 1)" using j(1) by (intro last_conv_nth) auto
  have one: "l = l'" if "j < l" "l < length rs" "j < l'" "l' < length rs" for l l'
    using j(3) [OF that(1,2)] j(3) [OF that(3,4)] assms(2) that unfolding match_key distinct_conv_nth by fastforce
  have "length rs - 1 \<le> Suc j"
  proof (rule ccontr)
    assume a: "\<not> length rs - 1 \<le> Suc j"
    then have "length rs - 1 = Suc j" by (intro one) auto
    then show False using a by simp
  qed
  then consider "j = length rs - 1" | "j = length rs - 2" "2 \<le> length rs" "j < length rs - 1" using j(1) by linarith
  then show ?thesis
  proof cases
    case 1
    then show ?thesis using j(2) last by simp
  next
    case 2
    then show ?thesis using j(3) [of "length rs - 1"] last by simp
  qed
qed

lemma remove_oldest_step:
  assumes i: "reass_inv s"
  shows "ip_reass_remove_oldest_datagram h need freed s =
    (let rs = reassdatagrams s; n = frags_clen (ipr_p (last rs)); s' = given_up (length rs - 1) s
     in if other_count h rs = 0 then Some (freed, s)
        else if IP_ADDRESSES_AND_ID_MATCH (ipr_iphdr (last rs)) h then None
        else if freed + n < need \<and> other_count h rs > 1 then ip_reass_remove_oldest_datagram h need (freed + n) s'
        else Some (freed + n, s'))"
proof -
  let ?rs = "reassdatagrams s"
  have I: "sorted_wrt (\<lambda>a b. ipr_timer b \<le> ipr_timer a) ?rs" "distinct (map (\<lambda>r. ip_key (ipr_iphdr r)) ?rs)"
    using i by (simp_all add: reass_inv_def list_ok_def by_age_def)
  have ok: "list_ok ?rs" "accounted s" using i by (simp_all add: reass_inv_def)
  obtain oldest where f: "find_oldest h 0 ?rs None None 0 = (oldest, if 2 \<le> length ?rs then Some (length ?rs - 2) else None, other_count h ?rs)"
    "if other_count h ?rs = 0 then oldest = None else \<exists>j. last_other h ?rs j \<and> oldest = Some (j, ipr_timer (?rs ! j))"
    using find_oldest_ok [OF I(1), of None h 0 None 0] unfolding add_0 by blast
  show ?thesis
  proof (cases "other_count h ?rs = 0")
    case True
    then show ?thesis using f by (subst ip_reass_remove_oldest_datagram.simps) simp
  next
    case False
    then obtain j where j: "last_other h ?rs j" "oldest = Some (j, ipr_timer (?rs ! j))" using f(2) by auto
    note pl = last_other_place [OF j(1) I(2)]
    have jl: "j < length ?rs" using j(1) by (simp add: last_other_def)
    have "?rs \<noteq> []" using jl by auto
    then have last: "last ?rs = ?rs ! (length ?rs - 1)" by (rule last_conv_nth)
    have fr: "ip_reass_free_complete_datagram j (if 2 \<le> length ?rs then Some (length ?rs - 2) else None) s =
        (if IP_ADDRESSES_AND_ID_MATCH (ipr_iphdr (last ?rs)) h then None else Some (frags_clen (ipr_p (last ?rs)), given_up (length ?rs - 1) s))"
    proof (cases "IP_ADDRESSES_AND_ID_MATCH (ipr_iphdr (last ?rs)) h")
      case True
      then have "2 \<le> length ?rs" "j = length ?rs - 2" using pl by simp_all
      then have "(if 2 \<le> length ?rs then Some (length ?rs - 2) else None) \<noteq> pred_of j" by (simp add: pred_of_def) linarith
      then show ?thesis unfolding free_complete_ok [OF ok jl] using True by simp
    next
      case False
      then have k: "j = length ?rs - 1" using pl by simp
      then have "(if 2 \<le> length ?rs then Some (length ?rs - 2) else None) = pred_of j" using jl by (simp add: pred_of_def) linarith
      then show ?thesis unfolding free_complete_ok [OF ok jl] last k [symmetric] using False last k by simp
    qed
    show ?thesis unfolding Let_def
      using False by (subst ip_reass_remove_oldest_datagram.simps) (simp add: f(1) j(2) fr Let_def)
  qed
qed

lemma without_last: "rs \<noteq> [] \<Longrightarrow> without (length rs - Suc 0) rs = butlast rs"
  by (simp add: without_def butlast_conv_take)

lemma remove_oldest_inv:
  assumes "reass_inv s" "ip_reass_remove_oldest_datagram h need freed s = Some (n, s')"
  shows "reass_inv s' \<and> (\<exists>k. reassdatagrams s' = take k (reassdatagrams s))"
  using assms
proof (induction "length (reassdatagrams s)" arbitrary: s freed rule: less_induct)
  case less
  let ?rs = "reassdatagrams s" and ?s = "given_up (length (reassdatagrams s) - 1) s"
  show ?case
  proof (cases "other_count h ?rs = 0 \<or> IP_ADDRESSES_AND_ID_MATCH (ipr_iphdr (last ?rs)) h")
    case True
    then show ?thesis using less.prems unfolding remove_oldest_step [OF less.prems(1)] Let_def
      by (auto split: if_splits intro: exI [of _ "length ?rs"])
  next
    case False
    then have ne: "?rs \<noteq> []" by auto
    have s: "reass_inv ?s" "reassdatagrams ?s = butlast ?rs"
      using given_up_inv [OF less.prems(1), of "length ?rs - 1"] ne by (simp_all add: given_up_def without_last)
    then have "length (reassdatagrams ?s) < length ?rs" using ne by simp
    then have "reass_inv s' \<and> (\<exists>k. reassdatagrams s' = take k (butlast ?rs))"
      using less.hyps [of ?s, OF _ s(1)] less.prems(2) s False unfolding remove_oldest_step [OF less.prems(1)] Let_def
      by (auto split: if_splits intro: exI [of _ "length ?rs"])
    then show ?thesis by (auto simp: butlast_conv_take)
  qed
qed

text \<open>No datagram is the one of \<open>h\<close>: the search returns.\<close>

lemma remove_oldest_returns:
  assumes "reass_inv s" "\<forall>r\<in>set (reassdatagrams s). \<not> IP_ADDRESSES_AND_ID_MATCH (ipr_iphdr r) h"
  shows "\<exists>n s'. ip_reass_remove_oldest_datagram h need freed s = Some (n, s')"
  using assms
proof (induction "length (reassdatagrams s)" arbitrary: s freed rule: less_induct)
  case less
  let ?rs = "reassdatagrams s" and ?s = "given_up (length (reassdatagrams s) - 1) s"
  show ?case
  proof (cases "?rs = []")
    case False
    have s: "reass_inv ?s" "reassdatagrams ?s = butlast ?rs"
      using given_up_inv [OF less.prems(1), of "length ?rs - 1"] False by (simp_all add: given_up_def without_last)
    then have lt: "length (reassdatagrams ?s) < length ?rs" using False by simp
    have "\<forall>r\<in>set (reassdatagrams ?s). \<not> IP_ADDRESSES_AND_ID_MATCH (ipr_iphdr r) h" using less.prems(2) s(2) by (auto dest: in_set_butlastD)
    then have "\<exists>n s'. ip_reass_remove_oldest_datagram h need f ?s = Some (n, s')" for f by (rule less.hyps [OF lt s(1)])
    then show ?thesis using less.prems(2) False unfolding remove_oldest_step [OF less.prems(1)] Let_def by auto
  qed (simp add: remove_oldest_step [OF less.prems(1)])
qed

subsection \<open>The timer\<close>

definition aged :: "ip_reassdata list \<Rightarrow> ip_reassdata list" where
  "aged rs = map (\<lambda>r. r\<lparr>ipr_timer := ipr_timer r - 1\<rparr>) (filter (\<lambda>r. ipr_timer r > 0) rs)"

lemma timer_minus:
  fixes a b :: u8_t
  assumes "0 < a" "a \<le> b"
  shows "a - 1 \<le> b - 1" "a - 1 \<le> a"
proof -
  have "a \<noteq> 0" "b \<noteq> 0" using assms by (auto simp: word_less_nat_alt word_le_nat_alt)
  then show "a - 1 \<le> b - 1" "a - 1 \<le> a" using assms(2) by (simp_all add: word_le_nat_alt unat_minus_one)
qed

lemma tick_ok:
  assumes "list_ok (reassdatagrams s)" "accounted s" "i < length (reassdatagrams s)" "ipr_timer (reassdatagrams s ! i) > 0"
  shows "list_ok (reassdatagrams (upd_datagram i (\<lambda>r. r\<lparr>ipr_timer := ipr_timer r - 1\<rparr>) s))"
    "accounted (upd_datagram i (\<lambda>r. r\<lparr>ipr_timer := ipr_timer r - 1\<rparr>) s)"
proof -
  let ?r = "reassdatagrams s ! i"
  have r: "queue_ok (ipr_p ?r)" "ipr_timer ?r \<le> IP_REASS_MAXAGE" using assms(1,3) by (simp_all add: list_ok_def)
  have "ipr_timer ?r - 1 \<le> IP_REASS_MAXAGE" using timer_minus(2) [OF assms(4) r(2)] r(2) by simp
  moreover have "map (\<lambda>r. ip_key (ipr_iphdr r)) ((reassdatagrams s)[i := ?r\<lparr>ipr_timer := ipr_timer ?r - 1\<rparr>]) = map (\<lambda>r. ip_key (ipr_iphdr r)) (reassdatagrams s)"
    using assms(3) by (simp add: map_update list_update_same_conv)
  ultimately show "list_ok (reassdatagrams (upd_datagram i (\<lambda>r. r\<lparr>ipr_timer := ipr_timer r - 1\<rparr>) s))"
    using assms(1) r(1) unfolding list_ok_def upd_datagram_def by (auto dest!: set_update_subset_insert [THEN subsetD])
  have "map (\<lambda>r. frags_clen (ipr_p r)) ((reassdatagrams s)[i := ?r\<lparr>ipr_timer := ipr_timer ?r - 1\<rparr>]) = map (\<lambda>r. frags_clen (ipr_p r)) (reassdatagrams s)"
    using assms(3) by (simp add: map_update list_update_same_conv)
  then show "accounted (upd_datagram i (\<lambda>r. r\<lparr>ipr_timer := ipr_timer r - 1\<rparr>) s)"
    using assms(2) by (simp add: accounted_def upd_datagram_def total_clen_def)
qed

lemma tmr_loop_ok:
  assumes "list_ok (reassdatagrams s)" "accounted s" "i \<le> length (reassdatagrams s)" "prev = pred_of i"
  shows "\<exists>s'. tmr_loop prev i s = Some s' \<and> list_ok (reassdatagrams s') \<and> accounted s' \<and>
    reassdatagrams s' = take i (reassdatagrams s) @ aged (drop i (reassdatagrams s))"
  using assms
proof (induction "length (reassdatagrams s) - i" arbitrary: s i prev)
  case 0
  then show ?case by (subst tmr_loop.simps) (simp add: aged_def)
next
  case (Suc n)
  let ?rs = "reassdatagrams s"
  have i: "i < length ?rs" "n = length ?rs - Suc i" using Suc.hyps(2) by simp_all
  note n = i(2)
  note i = i(1)
  have d: "drop i ?rs = ?rs ! i # drop (Suc i) ?rs" using i by (simp add: Cons_nth_drop_Suc)
  show ?case
  proof (cases "ipr_timer (?rs ! i) > 0")
    case True
    let ?s = "upd_datagram i (\<lambda>r. r\<lparr>ipr_timer := ipr_timer r - 1\<rparr>) s"
    have rs: "reassdatagrams ?s = ?rs[i := (?rs ! i)\<lparr>ipr_timer := ipr_timer (?rs ! i) - 1\<rparr>]" by (simp add: upd_datagram_def)
    obtain s' where s': "tmr_loop (Some i) (Suc i) ?s = Some s'" "list_ok (reassdatagrams s')" "accounted s'"
      "reassdatagrams s' = take (Suc i) (reassdatagrams ?s) @ aged (drop (Suc i) (reassdatagrams ?s))"
      using Suc.hyps(1) [of ?s "Suc i" "Some i"] tick_ok [OF Suc.prems(1,2) i True] n i rs by (auto simp: pred_of_def)
    have "reassdatagrams s' = take i ?rs @ aged (drop i ?rs)"
      using s'(4) i True unfolding rs d by (simp add: aged_def take_Suc_conv_app_nth)
    then show ?thesis using s' i True by (subst tmr_loop.simps) simp
  next
    case False
    have rs: "reassdatagrams (given_up i s) = without i ?rs" by (simp add: given_up_def)
    have t: "take i (without i ?rs) = take i ?rs" "drop i (without i ?rs) = drop (Suc i) ?rs" "length (without i ?rs) - i = n" "i \<le> length (without i ?rs)"
      using i Suc.hyps(2) by (simp_all add: without_def)
    obtain s' where s': "tmr_loop prev i (given_up i s) = Some s'" "list_ok (reassdatagrams s')" "accounted s'"
      "reassdatagrams s' = take i ?rs @ aged (drop (Suc i) ?rs)"
      using Suc.hyps(1) [of "given_up i s" i prev] given_up_ok [OF Suc.prems(1,2) i] t Suc.prems(4) unfolding rs by auto
    have "aged (drop i ?rs) = aged (drop (Suc i) ?rs)" using False unfolding d by (simp add: aged_def)
    then show ?thesis using s' i False free_complete_ok [OF Suc.prems(1,2) i, of prev] Suc.prems(4) by (subst tmr_loop.simps) simp
  qed
qed

lemma aged_by_age: "by_age rs \<Longrightarrow> by_age (aged rs)"
  by (induction rs) (auto simp: aged_def by_age_def timer_minus)

lemma ip_reass_tmr_ok:
  assumes "reass_inv s"
  shows "\<exists>s'. ip_reass_tmr s = Some s' \<and> reass_inv s' \<and> reassdatagrams s' = aged (reassdatagrams s)"
proof -
  have "list_ok (reassdatagrams s)" "accounted s" "by_age (reassdatagrams s)" using assms by (simp_all add: reass_inv_def)
  then show ?thesis using tmr_loop_ok [of s 0 None] aged_by_age by (auto simp: ip_reass_tmr_def reass_inv_def pred_of_def)
qed

end
