(* ===== verification/Ip_Reass_Keep.thy ===== *)
theory Ip_Reass_Keep
  imports Ip_Reass_Inv
begin

text \<open>
  \<open>ip_reass\<close> keeps the invariant of the reassembly.
\<close>

subsection \<open>Changes to one datagram\<close>

lemma upd_ok:
  assumes "list_ok (reassdatagrams s)" "by_age (reassdatagrams s)" "i < length (reassdatagrams s)"
    and f: "ipr_timer (f (reassdatagrams s ! i)) = ipr_timer (reassdatagrams s ! i)"
      "ip_key (ipr_iphdr (f (reassdatagrams s ! i))) = ip_key (ipr_iphdr (reassdatagrams s ! i))" "queue_ok (ipr_p (f (reassdatagrams s ! i)))"
  shows "list_ok (reassdatagrams (upd_datagram i f s))" "by_age (reassdatagrams (upd_datagram i f s))"
    "total_clen (reassdatagrams (upd_datagram i f s)) =
      total_clen (reassdatagrams s) - frags_clen (ipr_p (reassdatagrams s ! i)) + frags_clen (ipr_p (f (reassdatagrams s ! i)))"
proof -
  obtain as b cs where d: "reassdatagrams s = as @ b # cs" "b = reassdatagrams s ! i" "length as = i"
    using without_split [OF assms(3)] assms(3) by (metis length_take min.absorb4)
  have u: "reassdatagrams (upd_datagram i f s) = as @ f b # cs"
    using d(1,3) unfolding upd_datagram_def d(2) [symmetric] by (simp add: list_update_append)
  note f = f [folded d(2)]
  show "list_ok (reassdatagrams (upd_datagram i f s))" using assms(1) f unfolding u unfolding d(1) list_ok_def by auto
  show "by_age (reassdatagrams (upd_datagram i f s))" using assms(2) f unfolding u unfolding d(1) by_age_def by (auto simp: sorted_wrt_append)
  show "total_clen (reassdatagrams (upd_datagram i f s)) =
      total_clen (reassdatagrams s) - frags_clen (ipr_p (reassdatagrams s ! i)) + frags_clen (ipr_p (f (reassdatagrams s ! i)))"
    unfolding u d(2) [symmetric] by (simp add: d(1))
qed

lemma upd_sel [simp]:
  "reassdata_free (upd_datagram i f s) = reassdata_free s" "ip_reass_pbufcount (upd_datagram i f s) = ip_reass_pbufcount s"
  "length (reassdatagrams (upd_datagram i f s)) = length (reassdatagrams s)"
  "i < length (reassdatagrams s) \<Longrightarrow> reassdatagrams (upd_datagram i f s) ! i = f (reassdatagrams s ! i)"
  by (simp_all add: upd_datagram_def)

subsection \<open>The place of a fragment\<close>

lemma chain_walk_returns: "(\<forall>p. prev = Some p \<longrightarrow> fr_end p \<le> fr_start n) \<Longrightarrow> chain_walk n prev qs \<noteq> None"
  by (induction n prev qs rule: chain_walk.induct) (auto simp: guard_def not_less split: option.splits)

lemma chain_walk_place:
  assumes "chain_walk n prev qs = Some (Some (v, bef, aft))" "sorted_wrt (\<lambda>f g. fr_start f < fr_start g) qs"
  shows "qs = bef @ aft \<and> (\<forall>f\<in>set bef. fr_start f < fr_start n) \<and> (\<forall>f\<in>set aft. fr_start n < fr_start f)"
  using assms
proof (induction n prev qs arbitrary: v bef aft rule: chain_walk.induct)
  case (1 n prev)
  then show ?case by (auto simp: guard_def split: option.splits if_splits)
next
  case (2 n prev q qs)
  show ?case
  proof (cases "fr_start n < fr_start q")
    case True
    then have "bef = []" "aft = q # qs" using 2(2) by (auto split: option.splits if_splits)
    then show ?thesis using True 2(3) by (auto dest: less_trans)
  next
    case False
    then have c: "fr_start n \<noteq> fr_start q" "\<not> fr_start n < fr_end q" using 2(2) by (auto split: if_splits)
    then obtain v' bef' where r: "chain_walk n (Some q) qs = Some (Some (v', bef', aft))" "bef = q # bef'"
      using 2(2) False by (auto simp: bind_eq_Some_conv split: if_splits)
    then show ?thesis using 2(1) [OF False c r(1)] 2(3) False c(1) by auto
  qed
qed

lemma queue_insert:
  assumes "queue_ok (bef @ aft)" "\<forall>f\<in>set bef. fr_start f < fr_start n" "\<forall>f\<in>set aft. fr_start n < fr_start f"
    "fr_pbuf n \<noteq> []" "IP_HLEN \<le> length (hd (fr_pbuf n))"
  shows "queue_ok (bef @ n # aft)"
  using assms by (auto simp: queue_ok_def sorted_wrt_append intro: less_trans)

lemma chain_result:
  assumes "ip_reass_chain_frag_into_datagram_and_validate i p s = Some (v, s')" "i < length (reassdatagrams s)"
    "ipr_p (reassdatagrams s ! i) = [] \<or> queue_ok (ipr_p (reassdatagrams s ! i))"
  obtains "\<not> v" "s' = s\<lparr>ip_reass_pbufcount := ip_reass_pbufcount s - ucast (chain_clen p)\<rparr>" "ipr_p (reassdatagrams s ! i) \<noteq> []"
  | n bef aft where "s' = upd_datagram i (\<lambda>r. r\<lparr>ipr_p := bef @ n # aft\<rparr>) s" "ipr_p (reassdatagrams s ! i) = bef @ aft" "fr_pbuf n = p"
      "queue_ok (bef @ n # aft)" "v \<longrightarrow> bef \<noteq> [] \<or> aft \<noteq> []"
proof -
  have p: "p \<noteq> []" "IP_HLEN \<le> length (hd p)"
    using assms(1) by (auto simp: ip_reass_chain_frag_into_datagram_and_validate_def guard_def split: if_splits)
  define n where "n = \<lparr>fr_start = frag_offset (hdr_of (hd p)), fr_end = frag_offset (hdr_of (hd p)) + frag_len (hdr_of (hd p)), fr_pbuf = p\<rparr>"
  obtain r where r: "chain_walk n None (ipr_p (reassdatagrams s ! i)) = Some r"
    "(case r of None \<Rightarrow> Some (False, s\<lparr>ip_reass_pbufcount := ip_reass_pbufcount s - ucast (chain_clen p)\<rparr>)
     | Some (valid, bef, aft) \<Rightarrow> do {
         v \<leftarrow> validate valid n bef aft (reassdatagrams (upd_datagram i (\<lambda>r. r\<lparr>ipr_p := bef @ n # aft\<rparr>) s) ! i);
         Some (v, upd_datagram i (\<lambda>r. r\<lparr>ipr_p := bef @ n # aft\<rparr>) s) }) = Some (v, s')"
    using assms(1) p unfolding ip_reass_chain_frag_into_datagram_and_validate_def guard_def Let_def n_def [symmetric]
    by (auto simp: bind_eq_Some_conv)
  show thesis
  proof (cases r)
    case None
    then show thesis using r that(1) by (cases "ipr_p (reassdatagrams s ! i)") auto
  next
    case (Some x)
    then obtain valid bef aft where x: "r = Some (valid, bef, aft)" by (cases x) auto
    then have s': "s' = upd_datagram i (\<lambda>r. r\<lparr>ipr_p := bef @ n # aft\<rparr>) s" "v \<longrightarrow> bef \<noteq> [] \<or> aft \<noteq> []"
      using r(2) by (auto simp: bind_eq_Some_conv validate_def guard_def split: if_splits)
    have "sorted_wrt (\<lambda>f g. fr_start f < fr_start g) (ipr_p (reassdatagrams s ! i))" using assms(3) by (auto simp: queue_ok_def)
    note pl = chain_walk_place [OF r(1) [unfolded x] this]
    have n: "fr_pbuf n = p" by (simp add: n_def)
    have "queue_ok (bef @ n # aft)"
    proof (cases "ipr_p (reassdatagrams s ! i) = []")
      case True
      then show ?thesis using pl p n by (simp add: queue_ok_def)
    next
      case False
      then show ?thesis using queue_insert [of bef aft n] pl assms(3) p n by auto
    qed
    then show thesis using that(2) s' pl n by blast
  qed
qed

subsection \<open>\<open>ip_reass\<close>\<close>

lemma find_datagram_Some: "find_datagram h k rs = Some i \<Longrightarrow> k \<le> i \<and> i - k < length rs \<and> ip_key (ipr_iphdr (rs ! (i - k))) = ip_key h"
  by (induction rs arbitrary: k) (fastforce simp: match_key Suc_diff_le split: if_splits)+

lemma find_datagram_None: "find_datagram h k rs = None \<longleftrightarrow> (\<forall>r\<in>set rs. ip_key (ipr_iphdr r) \<noteq> ip_key h)"
  by (induction rs arbitrary: k) (auto simp: match_key)

lemma uint_plus:
  assumes "uint (w :: u16_t) + uint (v :: u8_t) \<le> 10"
  shows "uint (w + ucast v) = uint w + uint v"
proof -
  have u: "uint (ucast v :: u16_t) = uint v" by (simp add: uint_up_ucast is_up_def source_size_def target_size_def word_size)
  then have "uint w + uint (ucast v :: u16_t) < 2 ^ LENGTH(16)" using assms by simp
  then show ?thesis using u by (simp add: uint_add_lem [THEN iffD1])
qed

lemma clen_sum:
  assumes "frags_clen fs \<le> 10"
  shows "uint (of_nat (queue_pbufs fs) :: u8_t) = frags_clen fs"
proof -
  have "frags_clen fs mod 256 = int (queue_pbufs fs) mod 256"
  proof (induction fs)
    case (Cons f fs)
    have "uint (chain_clen (fr_pbuf f)) mod 256 = int (length (fr_pbuf f)) mod 256" by (simp add: chain_clen_def unsigned_of_nat take_bit_eq_mod zmod_int)
    then show ?case using Cons by simp (metis mod_add_cong)
  qed simp
  moreover have "frags_clen fs mod 256 = frags_clen fs" using assms frags_clen_nonneg [of fs] by (intro mod_pos_pos_trivial) linarith+
  ultimately show ?thesis by (simp add: take_bit_eq_mod unsigned_of_nat zmod_int)
qed

text \<open>The state in which a fragment is put in its queue: its pbufs are counted and not yet in a queue.\<close>

definition pending :: "nat \<Rightarrow> byte list list \<Rightarrow> reass \<Rightarrow> bool" where
  "pending i p s \<longleftrightarrow> (\<exists>as b cs. reassdatagrams s = as @ b # cs \<and> length as = i \<and> list_ok (as @ cs) \<and> by_age (as @ b # cs) \<and>
     (\<forall>r\<in>set (as @ cs). ip_key (ipr_iphdr r) \<noteq> ip_key (ipr_iphdr b)) \<and> ipr_timer b \<le> IP_REASS_MAXAGE \<and> (ipr_p b = [] \<or> queue_ok (ipr_p b)) \<and>
     length (reassdatagrams s) + reassdata_free s = MEMP_NUM_REASSDATA \<and>
     uint (ip_reass_pbufcount s) = total_clen (reassdatagrams s) + uint (chain_clen p) \<and> uint (ip_reass_pbufcount s) \<le> int IP_REASS_MAX_PBUFS)"

lemma list_ok_insert:
  assumes "list_ok (as @ cs)" "\<forall>r\<in>set (as @ cs). ip_key (ipr_iphdr r) \<noteq> ip_key (ipr_iphdr b)" "ipr_timer b \<le> IP_REASS_MAXAGE" "queue_ok (ipr_p b)"
  shows "list_ok (as @ b # cs)"
  using assms by (auto simp: list_ok_def)

lemma by_age_change: "by_age (as @ b # cs) \<Longrightarrow> ipr_timer b' = ipr_timer b \<Longrightarrow> by_age (as @ b' # cs)"
  by (auto simp: by_age_def sorted_wrt_append)

lemma complete_result:
  assumes "ip_reass_complete i prev s = Some (q, s')" "i < length (reassdatagrams s)" "queue_ok (ipr_p (reassdatagrams s ! i))"
  shows "reassdatagrams s' = without i (reassdatagrams s)" "reassdata_free s' = reassdata_free s + 1"
    "ip_reass_pbufcount s' = ip_reass_pbufcount s - ucast (of_nat (queue_pbufs (ipr_p (reassdatagrams s ! i))) :: u8_t)"
proof -
  define r where "r = reassdatagrams s ! i"
  obtain f fs where fs: "ipr_p r = f # fs" "\<forall>f\<in>set (f # fs). fr_pbuf f \<noteq> []"
    using assms(3) unfolding r_def [symmetric] by (cases "ipr_p r") (auto simp: queue_ok_def)
  have l: "length (put_hdr h (fr_pbuf f)) = length (fr_pbuf f)" for h using fs by (simp add: put_hdr_def)
  have l2: "length (concat (map (\<lambda>f. drop IP_HLEN (hd (fr_pbuf f)) # tl (fr_pbuf f)) fs)) = queue_pbufs fs" using hidden_chains(2) [of fs] fs by simp
  show "reassdatagrams s' = without i (reassdatagrams s)" "reassdata_free s' = reassdata_free s + 1"
    "ip_reass_pbufcount s' = ip_reass_pbufcount s - ucast (of_nat (queue_pbufs (ipr_p (reassdatagrams s ! i))) :: u8_t)"
    using assms(1,2) fs(1) l l2 unfolding ip_reass_complete_def Let_def r_def [symmetric]
    by (auto simp: guard_def ip_reass_dequeue_datagram_def bind_eq_Some_conv without_def chain_clen_def r_def [symmetric] upd_datagram_def split: if_splits)
qed

lemma chain_keeps:
  assumes pe: "pending i p s" and c: "ip_reass_chain_frag_into_datagram_and_validate i p s = Some (v, s1)"
    and e: "if v then ip_reass_complete i prev s1 = Some (q, s2) else s2 = s1"
  shows "reass_inv s2"
proof -
  obtain as b cs where d: "reassdatagrams s = as @ b # cs" "length as = i" "list_ok (as @ cs)" "by_age (as @ b # cs)"
    "\<forall>r\<in>set (as @ cs). ip_key (ipr_iphdr r) \<noteq> ip_key (ipr_iphdr b)" "ipr_timer b \<le> IP_REASS_MAXAGE" "ipr_p b = [] \<or> queue_ok (ipr_p b)"
    "length (as @ b # cs) + reassdata_free s = MEMP_NUM_REASSDATA"
    "uint (ip_reass_pbufcount s) = total_clen (as @ b # cs) + uint (chain_clen p)" "uint (ip_reass_pbufcount s) \<le> int IP_REASS_MAX_PBUFS"
    using pe unfolding pending_def by auto
  have nth: "reassdatagrams s ! i = b" "i < length (reassdatagrams s)" using d(1,2) by (auto simp: nth_append)
  show ?thesis
  proof (rule chain_result [OF c nth(2)])
    show "ipr_p (reassdatagrams s ! i) = [] \<or> queue_ok (ipr_p (reassdatagrams s ! i))" using d(7) nth by simp
  next
    assume a: "\<not> v" "s1 = s\<lparr>ip_reass_pbufcount := ip_reass_pbufcount s - ucast (chain_clen p)\<rparr>" "ipr_p (reassdatagrams s ! i) \<noteq> []"
    have u: "ucast (chain_clen p) = (word_of_int (uint (chain_clen p)) :: u16_t)" by simp
    have nn: "0 \<le> total_clen (as @ b # cs)" by simp
    have "uint (ip_reass_pbufcount s - ucast (chain_clen p)) = uint (ip_reass_pbufcount s) - uint (chain_clen p)"
      unfolding u by (rule uint_minus) (use d(9) nn in simp_all)
    moreover have "uint (ip_reass_pbufcount s) - uint (chain_clen p) \<le> int IP_REASS_MAX_PBUFS" by (rule order_trans [OF _ d(10)]) simp
    ultimately have "accounted s2" using a e d(1,8-10) by (simp add: accounted_def)
    then show ?thesis using a e d nth(1) list_ok_insert [OF d(3,5,6)] by (auto simp: reass_inv_def)
  next
    fix n bef aft
    assume a: "s1 = upd_datagram i (\<lambda>r. r\<lparr>ipr_p := bef @ n # aft\<rparr>) s" "ipr_p (reassdatagrams s ! i) = bef @ aft" "fr_pbuf n = p"
      "queue_ok (bef @ n # aft)" "v \<longrightarrow> bef \<noteq> [] \<or> aft \<noteq> []"
    let ?b = "b\<lparr>ipr_p := bef @ n # aft\<rparr>"
    have rs: "reassdatagrams s1 = as @ ?b # cs" using a(1) d(1,2) nth(1) by (simp add: upd_datagram_def list_update_append)
    have ba: "bef @ aft = ipr_p b" using a(2) nth(1) by simp
    have t: "frags_clen (bef @ n # aft) = frags_clen (ipr_p b) + uint (chain_clen p)" unfolding ba [symmetric] using a(3) by simp
    then have tot: "total_clen (as @ ?b # cs) = uint (ip_reass_pbufcount s)" using d(9) by simp
    have ac: "accounted s1" using tot rs a(1) d(8,10) by (simp add: accounted_def)
    have ok: "list_ok (as @ ?b # cs)" using list_ok_insert [OF d(3), of ?b] d(5,6) a(4) by simp
    have ag: "by_age (as @ ?b # cs)" by (rule by_age_change [OF d(4)]) simp
    have i1: "reass_inv s1" using ac ok ag rs by (simp add: reass_inv_def)
    show ?thesis
    proof (cases v)
      case True
      have nth1: "reassdatagrams s1 ! i = ?b" "i < length (reassdatagrams s1)" using rs d(2) by (auto simp: nth_append)
      note cr = complete_result [of i prev s1 q s2, OF _ nth1(2)]
      have "frags_clen (ipr_p ?b) \<le> total_clen (as @ ?b # cs)" using total_clen_nonneg [of as] total_clen_nonneg [of cs] by simp
      then have le: "frags_clen (ipr_p ?b) \<le> 10" using d(10) unfolding tot by (simp add: IP_REASS_MAX_PBUFS_def)
      have u: "ucast (of_nat (queue_pbufs (ipr_p ?b)) :: u8_t) = (word_of_int (frags_clen (ipr_p ?b)) :: u16_t)"
        unfolding clen_sum [OF le, symmetric] by simp
      have "reassdatagrams s2 = reassdatagrams (given_up i s1)" "reassdata_free s2 = reassdata_free (given_up i s1)"
        "ip_reass_pbufcount s2 = ip_reass_pbufcount (given_up i s1)"
        using cr e True a(4) nth1(1) u by (simp_all add: given_up_def)
      then show ?thesis using given_up_inv [OF i1 nth1(2)] by (simp add: reass_inv_def accounted_def)
    next
      case False
      then show ?thesis using e i1 by simp
    qed
  qed
qed

lemma total_clen_take: "total_clen (take k rs) \<le> total_clen rs"
  using total_clen_nonneg [of "drop k rs"] total_clen_simps(3) [of "take k rs" "drop k rs"] by simp

lemma enqueue_pending:
  assumes i: "reass_inv s" and room: "uint (ip_reass_pbufcount s) + uint (chain_clen p) \<le> int IP_REASS_MAX_PBUFS"
    and n: "find_datagram h 0 (reassdatagrams s) = None" and e: "ip_reass_enqueue_new_datagram h clen s = Some (got, s')"
  shows "if got then pending 0 p (s'\<lparr>ip_reass_pbufcount := ip_reass_pbufcount s' + ucast (chain_clen p)\<rparr>) \<and> ipr_iphdr (reassdatagrams s' ! 0) = h \<and>
    reassdatagrams s' \<noteq> [] else reass_inv s'"
proof -
  obtain s1 where s1: "reass_inv s1" "\<exists>k. reassdatagrams s1 = take k (reassdatagrams s)"
    "if got then 0 < reassdata_free s1 \<and> s' = s1\<lparr>reassdata_free := reassdata_free s1 - 1, reassdatagrams := new_datagram h # reassdatagrams s1\<rparr>
     else s' = s1"
  proof (cases "reassdata_free s > 0")
    case True
    moreover have "\<exists>k. reassdatagrams s = take k (reassdatagrams s)" by (rule exI [of _ "length (reassdatagrams s)"]) simp
    ultimately show thesis using that [of s] e i by (auto simp: ip_reass_enqueue_new_datagram_def)
  next
    case False
    then obtain m t where t: "ip_reass_remove_oldest_datagram h clen 0 s = Some (m, t)" "got = (clen \<le> m \<and> 0 < reassdata_free t)"
      "s' = (if got then t\<lparr>reassdata_free := reassdata_free t - 1, reassdatagrams := new_datagram h # reassdatagrams t\<rparr> else t)"
      using e by (auto simp: ip_reass_enqueue_new_datagram_def bind_eq_Some_conv split: if_splits) blast
    then show thesis using that [of t] remove_oldest_inv [OF i t(1)] by (auto split: if_splits)
  qed
  show ?thesis
  proof (cases got)
    case True
    have I: "list_ok (reassdatagrams s1)" "by_age (reassdatagrams s1)" "accounted s1" "uint (ip_reass_pbufcount s) = total_clen (reassdatagrams s)"
      "uint (ip_reass_pbufcount s1) = total_clen (reassdatagrams s1)"
      using s1(1) i by (simp_all add: reass_inv_def accounted_def)
    have le: "uint (ip_reass_pbufcount s1) + uint (chain_clen p) \<le> int IP_REASS_MAX_PBUFS"
    proof -
      obtain k where "reassdatagrams s1 = take k (reassdatagrams s)" using s1(2) by blast
      then have "uint (ip_reass_pbufcount s1) \<le> uint (ip_reass_pbufcount s)" using I(4,5) total_clen_take [of k "reassdatagrams s"] by simp
      then show ?thesis using room by linarith
    qed
    have up: "uint (ip_reass_pbufcount s1 + ucast (chain_clen p)) = uint (ip_reass_pbufcount s1) + uint (chain_clen p)"
      by (rule uint_plus) (use le in \<open>simp add: IP_REASS_MAX_PBUFS_def\<close>)
    have k: "\<forall>r\<in>set (reassdatagrams s1). ip_key (ipr_iphdr r) \<noteq> ip_key h"
      using n s1(2) unfolding find_datagram_None by (metis in_set_takeD)
    have ag: "by_age (new_datagram h # reassdatagrams s1)" using I(1,2) by (simp add: by_age_def list_ok_def new_datagram_def)
    have "pending 0 p (s'\<lparr>ip_reass_pbufcount := ip_reass_pbufcount s' + ucast (chain_clen p)\<rparr>)"
      unfolding pending_def
      by (intro exI [of _ "[]"] exI [of _ "new_datagram h"] exI [of _ "reassdatagrams s1"])
        (use True s1(3) I ag k le up in \<open>simp add: accounted_def, simp add: new_datagram_def\<close>)
    then show ?thesis using True s1(3) by (simp add: new_datagram_def)
  qed (use s1 in simp)
qed

lemma found_pending:
  assumes i: "reass_inv s" and room: "uint (ip_reass_pbufcount s) + uint (chain_clen p) \<le> int IP_REASS_MAX_PBUFS"
    and n: "find_datagram h 0 (reassdatagrams s) = Some i" and k: "ip_key h' = ip_key h"
  shows "pending i p ((if c then upd_datagram i (\<lambda>r. r\<lparr>ipr_iphdr := h'\<rparr>) s else s)
    \<lparr>ip_reass_pbufcount := ip_reass_pbufcount (if c then upd_datagram i (\<lambda>r. r\<lparr>ipr_iphdr := h'\<rparr>) s else s) + ucast (chain_clen p)\<rparr>)"
proof -
  have f: "i < length (reassdatagrams s)" "ip_key (ipr_iphdr (reassdatagrams s ! i)) = ip_key h" using find_datagram_Some [OF n] by simp_all
  obtain as b cs where d: "reassdatagrams s = as @ b # cs" "b = reassdatagrams s ! i" "length as = i"
    using without_split [OF f(1)] f(1) by (metis length_take min.absorb4)
  let ?b = "b\<lparr>ipr_iphdr := (if c then h' else ipr_iphdr b)\<rparr>"
  let ?s = "if c then upd_datagram i (\<lambda>r. r\<lparr>ipr_iphdr := h'\<rparr>) s else s"
  have I: "list_ok (as @ b # cs)" "by_age (as @ b # cs)" "accounted s" using i d(1) by (simp_all add: reass_inv_def)
  have up: "uint (ip_reass_pbufcount s + ucast (chain_clen p)) = uint (ip_reass_pbufcount s) + uint (chain_clen p)"
    by (rule uint_plus) (use room in \<open>simp add: IP_REASS_MAX_PBUFS_def\<close>)
  have key: "ip_key (ipr_iphdr ?b) = ip_key (ipr_iphdr b)" using f(2) k d(2) by simp
  have ls: "list_ok (as @ cs)" "\<forall>r\<in>set (as @ cs). ip_key (ipr_iphdr r) \<noteq> ip_key (ipr_iphdr b)" "ipr_timer b \<le> IP_REASS_MAXAGE" "queue_ok (ipr_p b)"
    using I(1) by (fastforce simp: list_ok_def image_iff)+
  have ag: "by_age (as @ ?b # cs)" by (rule by_age_change [OF I(2)]) simp
  define t where "t = ?s\<lparr>ip_reass_pbufcount := ip_reass_pbufcount ?s + ucast (chain_clen p)\<rparr>"
  have t1: "reassdatagrams t = as @ ?b # cs"
  proof (cases c)
    case True
    then have "reassdatagrams t = (reassdatagrams s)[i := b\<lparr>ipr_iphdr := h'\<rparr>]" by (simp add: t_def upd_datagram_def d(2))
    also have "\<dots> = as @ ?b # cs" using d(1,3) True by (simp add: list_update_append)
    finally show ?thesis .
  qed (simp add: t_def d(1))
  have t2: "reassdata_free t = reassdata_free s" "ip_reass_pbufcount t = ip_reass_pbufcount s + ucast (chain_clen p)"
    unfolding t_def by (cases c; simp)+
  note t = t1 t2
  have "pending i p t"
    unfolding pending_def t using I(3) room up ls key ag d(3)
    by (intro exI [of _ as] exI [of _ ?b] exI [of _ cs]) (simp add: accounted_def d(1))
  then show ?thesis unfolding t_def .
qed

lemma room_inv:
  assumes "reass_inv s" "(if uint (ip_reass_pbufcount s) + clen > int IP_REASS_MAX_PBUFS
         then do { (n, s) \<leftarrow> ip_reass_remove_oldest_datagram h clen 0 s;
           Some (n = 0 \<or> uint (ip_reass_pbufcount s) + clen > int IP_REASS_MAX_PBUFS, s) }
         else Some (False, s)) = Some (full, s')"
  shows "reass_inv s' \<and> (\<not> full \<longrightarrow> uint (ip_reass_pbufcount s') + clen \<le> int IP_REASS_MAX_PBUFS)"
  using assms remove_oldest_inv [OF assms(1)] by (auto simp: bind_eq_Some_conv split: if_splits)

lemma pending_flags:
  assumes "pending i p s"
  shows "pending i p (if c then upd_datagram i (\<lambda>r. r\<lparr>ipr_flags := f r, ipr_datagram_len := g r\<rparr>) s else s)"
proof (cases c)
  case True
  obtain as b cs where d: "reassdatagrams s = as @ b # cs" "length as = i" "list_ok (as @ cs)" "by_age (as @ b # cs)"
    "\<forall>r\<in>set (as @ cs). ip_key (ipr_iphdr r) \<noteq> ip_key (ipr_iphdr b)" "ipr_timer b \<le> IP_REASS_MAXAGE" "ipr_p b = [] \<or> queue_ok (ipr_p b)"
    "length (reassdatagrams s) + reassdata_free s = MEMP_NUM_REASSDATA"
    "uint (ip_reass_pbufcount s) = total_clen (reassdatagrams s) + uint (chain_clen p)" "uint (ip_reass_pbufcount s) \<le> int IP_REASS_MAX_PBUFS"
    using assms unfolding pending_def by auto
  let ?b = "b\<lparr>ipr_flags := f b, ipr_datagram_len := g b\<rparr>"
  have "reassdatagrams (upd_datagram i (\<lambda>r. r\<lparr>ipr_flags := f r, ipr_datagram_len := g r\<rparr>) s) = as @ ?b # cs"
    using d(1,2) by (auto simp: upd_datagram_def list_update_append nth_append)
  moreover have "by_age (as @ ?b # cs)" by (rule by_age_change [OF d(4)]) simp
  ultimately have "pending i p (upd_datagram i (\<lambda>r. r\<lparr>ipr_flags := f r, ipr_datagram_len := g r\<rparr>) s)"
    unfolding pending_def using d by (intro exI [of _ as] exI [of _ ?b] exI [of _ cs]) simp
  then show ?thesis using True by simp
qed (use assms in simp)

lemma tail_keeps:
  assumes "pending i p s" "do { (valid, s) \<leftarrow> ip_reass_chain_frag_into_datagram_and_validate i p s;
     if valid then do { (p, s) \<leftarrow> ip_reass_complete i prev s; Some (Some p, s) } else Some (None, s) } = Some (q, s')"
  shows "reass_inv s'"
proof -
  obtain v s1 where c: "ip_reass_chain_frag_into_datagram_and_validate i p s = Some (v, s1)"
    "(if v then do { (p, s) \<leftarrow> ip_reass_complete i prev s1; Some (Some p, s) } else Some (None, s1)) = Some (q, s')"
    using assms(2) by (auto simp: bind_eq_Some_conv)
  show ?thesis
  proof (cases v)
    case True
    then obtain q' where "ip_reass_complete i prev s1 = Some (q', s')" using c(2) by (auto simp: bind_eq_Some_conv)
    then show ?thesis using chain_keeps [OF assms(1) c(1), of prev q' s'] True by simp
  next
    case False
    then show ?thesis using chain_keeps [OF assms(1) c(1), of prev] c(2) by simp
  qed
qed

lemma ip_reass_keeps:
  assumes i: "reass_inv s" and e: "ip_reass p s = Some (q, s')"
  shows "reass_inv s'"
proof -
  define h where "h = hdr_of (hd p)"
  have g: "guard (p \<noteq> [] \<and> length (hd p) \<ge> IP_HLEN) = Some ()" using e by (auto simp: ip_reass_def guard_def split: if_splits)
  note body = e [unfolded ip_reass_def g Option.bind.simps Let_def h_def [symmetric]]
  show ?thesis
  proof (cases "IPH_HL h * 4 \<noteq> of_nat IP_HLEN")
    case True
    then show ?thesis using body i by simp
  next
    case False
    obtain full s1 where r: "(if uint (ip_reass_pbufcount s) + uint (chain_clen p) > int IP_REASS_MAX_PBUFS
         then do { (n, s) \<leftarrow> ip_reass_remove_oldest_datagram h (uint (chain_clen p)) 0 s;
           Some (n = 0 \<or> uint (ip_reass_pbufcount s) + uint (chain_clen p) > int IP_REASS_MAX_PBUFS, s) }
         else Some (False, s)) = Some (full, s1)"
      using body False by (auto simp: bind_eq_Some_conv split: if_splits)
    note body = body [unfolded if_not_P [OF False] r Option.bind.simps prod.case]
    note R = room_inv [OF i r]
    show ?thesis
    proof (cases full)
      case True
      then show ?thesis using body R by simp
    next
      case nf: False
      then have I: "reass_inv s1" "uint (ip_reass_pbufcount s1) + uint (chain_clen p) \<le> int IP_REASS_MAX_PBUFS" using R by auto
      note body = body [unfolded if_not_P [OF nf]]
      note flags = pending_flags [where c = "ntohs (iph_offset h) AND IP_MF = 0" and f = "\<lambda>r. ipr_flags r OR IP_REASS_FLAG_LASTFRAG" and
          g = "\<lambda>r. frag_offset h + frag_len h"]
      show ?thesis
      proof (cases "find_datagram h 0 (reassdatagrams s1)")
        case None
        then obtain got s2 where q: "ip_reass_enqueue_new_datagram h (uint (chain_clen p)) s1 = Some (got, s2)"
          using body by (auto simp: bind_eq_Some_conv)
        note E = enqueue_pending [OF I None q]
        show ?thesis
        proof (cases got)
          case True
          then have "pending 0 p (s2\<lparr>ip_reass_pbufcount := ip_reass_pbufcount s2 + ucast (chain_clen p)\<rparr>)" using E by simp
          from tail_keeps [OF flags [OF this]] show ?thesis using body None q True by simp
        next
          case False
          then show ?thesis using body None q E by simp
        qed
      next
        case (Some i)
        let ?c = "ntohs (iph_offset h) AND IP_OFFMASK = 0 \<and> ntohs (iph_offset (ipr_iphdr (reassdatagrams s1 ! i))) AND IP_OFFMASK \<noteq> 0"
        from tail_keeps [OF flags [OF found_pending [OF I Some refl, of ?c]]] show ?thesis using body Some by simp
      qed
    qed
  qed
qed

end
