(* ===== verification/Ip_Reass_Exact.thy ===== *)
theory Ip_Reass_Exact
  imports Ip_Reass_Keep
begin

text \<open>
  What \<open>ip_reass\<close> takes for a whole datagram, and when it returns.
\<close>

subsection \<open>Holes\<close>

definition gapless :: "frag list \<Rightarrow> bool" where
  "gapless fs \<longleftrightarrow> successively (\<lambda>f g. fr_end f = fr_start g) fs"

lemma gapless_simps [simp]: "gapless []" "gapless (f # fs) \<longleftrightarrow> chain_ok f fs"
proof -
  show "gapless []" by (simp add: gapless_def)
  show "gapless (f # fs) \<longleftrightarrow> chain_ok f fs" by (induction fs arbitrary: f) (auto simp: gapless_def)
qed

definition disjoint_queue :: "frag list \<Rightarrow> bool" where
  "disjoint_queue fs \<longleftrightarrow> sorted_wrt (\<lambda>f g. fr_end f \<le> fr_start g) fs \<and> (\<forall>f\<in>set fs. fr_start f < fr_end f)"

definition disjoint_from :: "frag \<Rightarrow> frag list \<Rightarrow> bool" where
  "disjoint_from n fs \<longleftrightarrow> fr_start n < fr_end n \<and> (\<forall>f\<in>set fs. fr_end f \<le> fr_start n \<or> fr_end n \<le> fr_start f)"

definition opt_list :: "'a option \<Rightarrow> 'a list" where
  "opt_list x = (case x of None \<Rightarrow> [] | Some a \<Rightarrow> [a])"

lemma opt_list_simps [simp]: "opt_list None = []" "opt_list (Some a) = [a]"
  by (simp_all add: opt_list_def)

lemma chain_walk_exact:
  assumes "disjoint_queue (opt_list prev @ qs)" "disjoint_from n qs" "\<forall>p. prev = Some p \<longrightarrow> fr_end p \<le> fr_start n"
  shows "\<exists>v bef aft. chain_walk n prev qs = Some (Some (v, bef, aft)) \<and> qs = bef @ aft \<and>
    (\<forall>f\<in>set bef. fr_end f \<le> fr_start n) \<and> (\<forall>f\<in>set aft. fr_end n \<le> fr_start f) \<and>
    (v \<longleftrightarrow> gapless (opt_list prev @ bef @ (if aft = [] then [n] else [])))"
  using assms
proof (induction n prev qs rule: chain_walk.induct)
  case (1 n prev)
  then show ?case by (auto simp: guard_def split: option.splits)
next
  case (2 n prev q qs)
  have q: "fr_start q < fr_end q" "\<forall>f\<in>set qs. fr_end q \<le> fr_start f" "\<forall>f\<in>set qs. fr_start f < fr_end f"
    using 2(2) by (auto simp: disjoint_queue_def sorted_wrt_append)
  have n: "fr_start n < fr_end n" "fr_end q \<le> fr_start n \<or> fr_end n \<le> fr_start q" using 2(3) by (auto simp: disjoint_from_def)
  show ?case
  proof (cases "fr_end q \<le> fr_start n")
    case False
    then have le: "fr_end n \<le> fr_start q" using n(2) by simp
    then have lt: "fr_start n < fr_start q" using n(1) by simp
    have "\<forall>f\<in>set (q # qs). fr_end n \<le> fr_start f" using le q(1,2) by (auto intro: order_trans less_imp_le)
    moreover have "chain_walk n prev (q # qs) = Some (Some (True, [], q # qs))" using lt le 2(4) by (auto split: option.splits)
    moreover have "gapless (opt_list prev)" by (cases prev) simp_all
    ultimately show ?thesis by (intro exI [of _ True] exI [of _ "[]"] exI [of _ "q # qs"]) simp
  next
    case True
    then have c: "\<not> fr_start n < fr_start q" "fr_start n \<noteq> fr_start q" "\<not> fr_start n < fr_end q" using q(1) by auto
    have "disjoint_queue (opt_list (Some q) @ qs)" "disjoint_from n qs"
      using 2(2,3) by (auto simp: disjoint_queue_def disjoint_from_def sorted_wrt_append)
    then obtain v bef aft where r: "chain_walk n (Some q) qs = Some (Some (v, bef, aft))" "qs = bef @ aft" "\<forall>f\<in>set bef. fr_end f \<le> fr_start n"
      "\<forall>f\<in>set aft. fr_end n \<le> fr_start f" "v \<longleftrightarrow> gapless (q # bef @ (if aft = [] then [n] else []))"
      using 2(1) [OF c] True by auto
    then show ?thesis using c True by (cases prev) auto
  qed
qed

definition new_frag :: "byte list list \<Rightarrow> frag" where
  "new_frag p = \<lparr>fr_start = frag_offset (hdr_of (hd p)), fr_end = frag_offset (hdr_of (hd p)) + frag_len (hdr_of (hd p)), fr_pbuf = p\<rparr>"

lemma chain_frag_unfold:
  assumes "p \<noteq> []" "IP_HLEN \<le> length (hd p)"
  shows "ip_reass_chain_frag_into_datagram_and_validate i p s = do {
     r \<leftarrow> chain_walk (new_frag p) None (ipr_p (reassdatagrams s ! i));
     case r of None \<Rightarrow> Some (False, s\<lparr>ip_reass_pbufcount := ip_reass_pbufcount s - ucast (chain_clen p)\<rparr>)
     | Some (valid, bef, aft) \<Rightarrow> do {
         let s = upd_datagram i (\<lambda>r. r\<lparr>ipr_p := bef @ new_frag p # aft\<rparr>) s;
         v \<leftarrow> validate valid (new_frag p) bef aft (reassdatagrams s ! i);
         Some (v, s) } }"
  using assms unfolding ip_reass_chain_frag_into_datagram_and_validate_def Let_def new_frag_def [symmetric] by (simp add: guard_def)

subsection \<open>Datagrams that are not known yet\<close>

lemma offset_nonzero:
  assumes "w AND IP_OFFMASK \<noteq> 0"
  shows "(w AND IP_OFFMASK) * 8 \<noteq> 0"
proof -
  have m: "w AND IP_OFFMASK = take_bit 13 w" by (simp add: IP_OFFMASK_def take_bit_eq_mask mask_numeral)
  have "unat (take_bit 13 w) * 8 < 65536" unfolding unat_take using mod_less_divisor [of 8192 "unat w"] by simp
  then have "unat (take_bit 13 w * 8) = unat (take_bit 13 w) * 8" by (simp add: unat_word_ariths)
  then show ?thesis using assms unfolding m by (metis mult_is_0 unsigned_0 unsigned_eq_0_iff zero_neq_numeral)
qed

lemma enqueue_first_returns:
  assumes "p \<noteq> []" "IP_HLEN \<le> length (hd p)" "ipr_p (reassdatagrams s ! 0) = []" "reassdatagrams s \<noteq> []"
    "ipr_flags (reassdatagrams s ! 0) AND IP_REASS_FLAG_LASTFRAG = 0 \<or> frag_offset (hdr_of (hd p)) \<noteq> 0"
  shows "\<exists>s'. ip_reass_chain_frag_into_datagram_and_validate 0 p s = Some (False, s')"
  using assms by (auto simp: chain_frag_unfold validate_def new_frag_def Let_def)

lemma unknown_returns:
  assumes i: "reass_inv s" and p: "p \<noteq> []" "IP_HLEN \<le> length (hd p)" and n: "find_datagram (hdr_of (hd p)) 0 (reassdatagrams s) = None"
    and f: "ntohs (iph_offset (hdr_of (hd p))) AND IP_MF \<noteq> 0 \<or> ntohs (iph_offset (hdr_of (hd p))) AND IP_OFFMASK \<noteq> 0"
  shows "\<exists>q s'. ip_reass p s = Some (q, s')"
proof -
  define h where "h = hdr_of (hd p)"
  let ?clen = "uint (chain_clen p)"
  have g: "guard (p \<noteq> [] \<and> length (hd p) \<ge> IP_HLEN) = Some ()" using p by (simp add: guard_def)
  have un: "\<forall>r\<in>set rs. \<not> IP_ADDRESSES_AND_ID_MATCH (ipr_iphdr r) h" if "find_datagram h 0 rs = None" for rs
    using that unfolding find_datagram_None match_key by simp
  have sub: "find_datagram h 0 (take k rs) = None" if "find_datagram h 0 rs = None" for k rs
    using that unfolding find_datagram_None by (auto dest: in_set_takeD)
  note n = n [folded h_def]
  obtain full s1 where r: "(if uint (ip_reass_pbufcount s) + ?clen > int IP_REASS_MAX_PBUFS
       then do { (n, s) \<leftarrow> ip_reass_remove_oldest_datagram h ?clen 0 s;
         Some (n = 0 \<or> uint (ip_reass_pbufcount s) + ?clen > int IP_REASS_MAX_PBUFS, s) }
       else Some (False, s)) = Some (full, s1)" "reass_inv s1" "find_datagram h 0 (reassdatagrams s1) = None"
  proof (cases "uint (ip_reass_pbufcount s) + ?clen > int IP_REASS_MAX_PBUFS")
    case True
    obtain m t where t: "ip_reass_remove_oldest_datagram h ?clen 0 s = Some (m, t)" using remove_oldest_returns [OF i un [OF n]] by blast
    then have "reass_inv t" "find_datagram h 0 (reassdatagrams t) = None" using remove_oldest_inv [OF i t] sub [OF n] by auto
    then show thesis using that True t by simp
  next
    case False
    then show thesis using that [of False s] i n by simp
  qed
  obtain got s2 where q: "ip_reass_enqueue_new_datagram h ?clen s1 = Some (got, s2)"
  proof (cases "reassdata_free s1 > 0")
    case True
    then show thesis using that by (simp add: ip_reass_enqueue_new_datagram_def)
  next
    case False
    obtain m t where t: "ip_reass_remove_oldest_datagram h ?clen 0 s1 = Some (m, t)" using remove_oldest_returns [OF r(2) un [OF r(3)]] by blast
    then have "\<exists>got s2. ip_reass_enqueue_new_datagram h ?clen s1 = Some (got, s2)" using False
      by (cases "?clen \<le> m \<and> 0 < reassdata_free t") (auto simp: ip_reass_enqueue_new_datagram_def)
    then show thesis using that by blast
  qed
  have st: "reassdatagrams s2 = new_datagram h # tl (reassdatagrams s2)" if got
    using q that by (auto simp: ip_reass_enqueue_new_datagram_def bind_eq_Some_conv split: if_splits)
  let ?s = "s2\<lparr>ip_reass_pbufcount := ip_reass_pbufcount s2 + ucast (chain_clen p)\<rparr>"
  let ?t = "if ntohs (iph_offset h) AND IP_MF = 0
    then upd_datagram 0 (\<lambda>r. r\<lparr>ipr_flags := ipr_flags r OR IP_REASS_FLAG_LASTFRAG, ipr_datagram_len := frag_offset h + frag_len h\<rparr>) ?s else ?s"
  have "\<exists>s'. ip_reass_chain_frag_into_datagram_and_validate 0 p ?t = Some (False, s')" if got
  proof (rule enqueue_first_returns [OF p])
    from st [OF that] obtain rs where s: "reassdatagrams s2 = new_datagram h # rs" by blast
    show "ipr_p (reassdatagrams ?t ! 0) = []" "reassdatagrams ?t \<noteq> []" using s by (auto simp: upd_datagram_def new_datagram_def)
    have "frag_offset h \<noteq> 0" if "ntohs (iph_offset h) AND IP_MF = 0"
      using offset_nonzero f that unfolding h_def [symmetric] frag_offset_def by blast
    then show "ipr_flags (reassdatagrams ?t ! 0) AND IP_REASS_FLAG_LASTFRAG = 0 \<or> frag_offset (hdr_of (hd p)) \<noteq> 0"
      using s unfolding h_def [symmetric] by (auto simp: new_datagram_def)
  qed
  then show ?thesis
    unfolding ip_reass_def g h_def [symmetric] Let_def using r q by (cases got) auto
qed

text \<open>The search for room aborts when the oldest datagram is the one the fragment is for.\<close>

lemma full_aborts:
  assumes i: "reass_inv s" and p: "p \<noteq> []" "IP_HLEN \<le> length (hd p)" "IPH_HL (hdr_of (hd p)) = 5" and two: "2 \<le> length (reassdatagrams s)"
    and m: "IP_ADDRESSES_AND_ID_MATCH (ipr_iphdr (last (reassdatagrams s))) (hdr_of (hd p))"
    and full: "uint (ip_reass_pbufcount s) + uint (chain_clen p) > 10"
  shows "ip_reass p s = None"
proof -
  let ?rs = "reassdatagrams s" and ?h = "hdr_of (hd p)"
  have d: "distinct (map (\<lambda>r. ip_key (ipr_iphdr r)) ?rs)" using i by (simp add: reass_inv_def list_ok_def)
  obtain a as where a: "?rs = a # as" "as \<noteq> []" using two by (cases ?rs; cases "tl ?rs") auto
  then have "last ?rs \<in> set as" by simp
  then have "ip_key (ipr_iphdr a) \<noteq> ip_key (ipr_iphdr (last ?rs))" using d a(1) by auto
  then have "other_count ?h ?rs \<noteq> 0" using m a(1) by (simp add: match_key)
  then have "ip_reass_remove_oldest_datagram ?h need freed s = None" for need freed
    using m by (subst remove_oldest_step [OF i]) (simp add: Let_def)
  then show ?thesis using p full by (simp add: ip_reass_def guard_def IP_HLEN_def IP_REASS_MAX_PBUFS_def Let_def)
qed

end
