(* ===== verification/Ip_Frag_Correct.thy ===== *)
theory Ip_Frag_Correct
  imports Ip_Reass_Exact
begin

text \<open>
  What fragmentation and reassembly promise, each with a witness, and where reassembly fails.
\<close>

subsection \<open>Runs\<close>

definition reass_start :: reass where
  "reass_start = \<lparr>reassdatagrams = [], ip_reass_pbufcount = 0, reassdata_free = MEMP_NUM_REASSDATA, time_exceeded = []\<rparr>"

text \<open>A fragment arrives, or the timer runs.\<close>

inductive reass_step :: "reass \<Rightarrow> reass \<Rightarrow> bool" where
  fragment: "ip_reass p s = Some (q, s') \<Longrightarrow> reass_step s s'"
| tick: "ip_reass_tmr s = Some s' \<Longrightarrow> reass_step s s'"

inductive_cases reass_stepE: "reass_step s s'"

interpretation reass_run: state_machine reass_step reass_inv
  by unfold_locales (auto elim!: reass_stepE dest: ip_reass_keeps ip_reass_tmr_ok)

lemma reass_start_inv: "reass_inv reass_start"
  by (simp add: reass_start_def reass_inv_def list_ok_def by_age_def accounted_def)

fun reass_ticks :: "nat \<Rightarrow> reass \<Rightarrow> reass option" where
  "reass_ticks 0 s = Some s"
| "reass_ticks (Suc n) s = do { s \<leftarrow> ip_reass_tmr s; reass_ticks n s }"

lemma reass_ticks_ok:
  "reass_inv s \<Longrightarrow> \<exists>s'. reass_ticks n s = Some s' \<and> reass_inv s' \<and> reassdatagrams s' = (aged ^^ n) (reassdatagrams s)"
proof (induction n arbitrary: s)
  case (Suc n)
  then obtain t where "ip_reass_tmr s = Some t" "reass_inv t" "reassdatagrams t = aged (reassdatagrams s)" using ip_reass_tmr_ok by blast
  then show ?case using Suc.IH [of t] by (auto simp: funpow_swap1)
qed simp

lemma aged_bound: "\<forall>r\<in>set rs. unat (ipr_timer r) \<le> k \<Longrightarrow> \<forall>r\<in>set (aged rs). unat (ipr_timer r) \<le> k - 1"
proof -
  assume a: "\<forall>r\<in>set rs. unat (ipr_timer r) \<le> k"
  have "unat (t - 1) = unat t - 1" if "0 < t" for t :: u8_t by (rule unat_minus_one) (use that in auto)
  then show ?thesis using a unfolding aged_def by (auto intro: diff_le_mono)
qed

lemma aged_empty: "\<forall>r\<in>set rs. unat (ipr_timer r) \<le> k \<Longrightarrow> k < n \<Longrightarrow> (aged ^^ n) rs = []"
proof (induction n arbitrary: rs k)
  case (Suc n)
  show ?case
  proof (cases k)
    case 0
    then have "aged rs = []" using Suc.prems(1) by (auto simp: aged_def filter_empty_conv word_less_nat_alt)
    moreover have "(aged ^^ n) [] = []" by (induction n) (simp_all add: aged_def)
    ultimately show ?thesis by (simp add: funpow_swap1)
  next
    case (Suc j)
    then have "(aged ^^ n) (aged rs) = []" using Suc.IH [OF aged_bound [OF Suc.prems(1)]] Suc.prems(2) by simp
    then show ?thesis by (simp add: funpow_swap1)
  qed
qed simp

subsection \<open>A datagram\<close>

text \<open>A UDP header with 40 bytes of data, and fragments of a datagram with its addresses.\<close>

definition demo_hdr :: ip_hdr where
  "demo_hdr = \<lparr>iph_v_hl_tos = htons 0x4500, iph_len = 0, iph_id = 7, iph_offset = 0, iph_ttl_proto = 0x11ff, iph_chksum = 0,
     iph_src = 0x0100000a, iph_dest = 0x0200000a\<rparr>"

definition demo_packet :: "byte list list" where
  "demo_packet = [ip_datagram demo_hdr 0 (replicate 40 7)]"

definition demo_frag :: "u16_t \<Rightarrow> bool \<Rightarrow> byte list \<Rightarrow> byte list list" where
  "demo_frag w mf d = [ip_datagram demo_hdr (if mf then w OR IP_MF else w) d]"

lemma demo_hl: "IPH_HL demo_hdr = 5"
  by code_simp

lemma demo_carries: "carries demo_packet (ip_datagram demo_hdr 0 (replicate 40 7))"
  by (simp add: carries_def demo_packet_def)

lemma demo_sent: "map_option (map_prod id (map (map length))) (ip_frag demo_packet 44 []) = Some (0, [[20, 24], [20, 16]])"
  by code_simp

subsection \<open>Fragments\<close>

lemma frames_verify: "f \<in> set (frames h omf ofo ds) \<Longrightarrow> inet_chksum (take IP_HLEN f) = 0"
  using frames_packet [of f h omf ofo ds] set_hdr_verifies by (auto simp: ip_datagram_def IP_HLEN_def)

text \<open>C28: For an MTU of at least 44 and a packet with at least 20 bytes in its first pbuf and in every later pbuf that is not empty, \<open>ip_frag\<close> returns and sends the
  data of the packet cut into pieces, in order. (With other pbufs an assertion can fail, and with an MTU from 20 to 27 the loop does not end.) Every
  piece but the last is a multiple of 8 bytes long; each goes behind a header of its own, a copy of the packet's with the offset of
  the piece, the length, the more-fragments flag (for the last piece, that of the packet) and a checksum that verifies, and no
  frame exceeds the MTU. When an allocation fails the result is \<open>ERR_MEM\<close> and the frames before it have been sent.\<close>

theorem ip_frag_sends:
  assumes "44 \<le> unat mtu" "p \<noteq> []" "IP_HLEN \<le> length (hd p)" "cuttable (tl p)" "IP_HLEN < length (concat p)" "length (concat p) \<le> 65535"
  shows "\<exists>r sent ds. ip_frag p mtu m = Some (r, sent) \<and> concat ds = drop IP_HLEN (concat p) \<and>
    (let h = hdr_of (hd p); tmp = ntohs (iph_offset h); fs = frames h (tmp AND IP_MF) (tmp AND IP_OFFMASK) ds
     in (\<forall>f\<in>set fs. length f \<le> unat mtu \<and> inet_chksum (take IP_HLEN f) = 0) \<and> (\<forall>d\<in>set (butlast ds). 8 dvd length d \<and> d \<noteq> []) \<and>
       (if r = 0 then map concat sent = fs else r = ERR_MEM \<and> False \<in> set m \<and> (\<exists>j. map concat sent = take j fs)))"
proof -
  let ?ds = "pieces (nfb8 mtu) (unat mtu - IP_HLEN) (drop IP_HLEN (concat p))"
  let ?tmp = "ntohs (iph_offset (hdr_of (hd p)))"
  let ?fs = "frames (hdr_of (hd p)) (?tmp AND IP_MF) (?tmp AND IP_OFFMASK) ?ds"
  note n = nfb_words(3,4) [OF assms(1)]
  obtain r sent where r: "ip_frag p mtu m = Some (r, sent)" "sent_ok r sent ?fs m" using ip_frag_ok [OF assms(1-4,6), of m] assms(5) by auto
  have "length f \<le> unat mtu" if f: "f \<in> set ?fs" for f
  proof -
    obtain off d where d: "f = ip_datagram (hdr_of (hd p)) off d" "d \<in> set ?ds" using frames_packet [OF f] by blast
    have "length d \<le> unat mtu - IP_HLEN" by (rule pieces_length [OF d(2)]) (use n in simp_all)
    then show ?thesis using d(1) assms(1) by (simp add: IP_HLEN_def)
  qed
  moreover have "8 dvd length d \<and> d \<noteq> []" if "d \<in> set (butlast ?ds)" for d
  proof -
    have "length d = nfb8 mtu" by (rule pieces_butlast [OF that]) (use n in simp_all)
    then show ?thesis using n(1) by (auto simp: nfb8_def)
  qed
  ultimately show ?thesis using r frames_verify unfolding sent_ok_def Let_def by (intro exI [of _ r] exI [of _ sent] exI [of _ ?ds]) auto
qed

theorem ip_frag_sends_witness:
  "\<exists>sent. ip_frag demo_packet 44 [] = Some (0, sent) \<and> (\<forall>f\<in>set (map concat sent). length f \<le> 44)"
proof -
  have l: "IP_HLEN \<le> length (hd demo_packet)" "length (concat demo_packet) = 60" "demo_packet \<noteq> []" "cuttable (tl demo_packet)"
    by (simp_all add: demo_packet_def cuttable_def IP_HLEN_def)
  obtain r sent where r: "ip_frag demo_packet 44 [] = Some (r, sent)"
    "\<exists>fs. (\<forall>f\<in>set fs. length f \<le> 44) \<and> (if r = 0 then map concat sent = fs else False)"
    using ip_frag_sends [of 44 demo_packet "[]"] l by (auto simp: Let_def IP_HLEN_def split: if_splits)
  then show ?thesis by (auto split: if_splits)
qed

subsection \<open>Round trip\<close>

lemma even_pieces_pieces: "xs \<noteq> [] \<Longrightarrow> 8 dvd k \<Longrightarrow> k \<noteq> 0 \<Longrightarrow> k \<le> n \<Longrightarrow> even_pieces (pieces k n xs)"
proof (induction k n xs rule: pieces.induct)
  case (1 k n xs)
  then show ?case using pieces.simps [of k n xs] by (cases "length xs \<le> n") auto
qed

lemma feed_frames:
  assumes h: "IPH_HL h = 5" and ds: "ds \<noteq> []" "even_pieces (d # ds)" "length (concat (d # ds)) + IP_HLEN \<le> 65535"
    and s: "find_datagram h 0 (reassdatagrams s) = None" "0 < reassdata_free s" "unat (ip_reass_pbufcount s) + sum_list (map length cs) \<le> 10"
    and c: "list_all2 carries cs (frames h 0 0 (d # ds))"
  shows "\<exists>q. feed cs s = Some (replicate (length cs - 1) None @ [Some q], s) \<and> concat q = ip_datagram h 0 (concat (d # ds))"
proof -
  obtain c0 cs' where cs: "cs = c0 # cs'" "carries c0 (ip_datagram h IP_MF d)" "list_all2 carries cs' (frames h 0 (of_nat (length d div 8)) ds)"
    using c ds(1) by (auto simp: list_all2_Cons2 Let_def)
  have ne: "cs' \<noteq> []" using cs(3) ds(1) by (cases ds) (auto simp: Let_def)
  let ?r = "(new_datagram (pkt_hdr h IP_MF d))\<lparr>ipr_p := [with_chain 0 d c0]\<rparr>"
  have room: "unat (ip_reass_pbufcount s) + length c0 \<le> 10" using s(3) cs(1) by simp
  have f: "ip_reass c0 s = Some (None, holding s ?r (length c0))" by (rule first_fragment [OF s(1,2) cs(2) h room])
  have d: "d \<noteq> []" "8 dvd length d" "even_pieces ds" using ds(1,2) by auto
  have len: "length d + length (concat ds) < 65536" "0 + length d < 65536" using ds(3) by (simp_all add: IP_HLEN_def)
  have run: "run (ipr_p ?r) 0 (length d)" using with_chain_ends [of 0 d c0] len(2) d(1) by simp
  have qp: "queue_pbufs (ipr_p ?r) = length c0" by (simp add: with_chain_def)
  have pb: "\<forall>f\<in>set (ipr_p ?r). fr_pbuf f \<noteq> []" using carries_packet(1) [OF cs(2)] by (simp add: with_chain_def)
  have dat: "queue_data (ipr_p ?r) = d" using carries_packet(4) [OF cs(2)] by (simp add: frag_data_def with_chain_def)
  have room': "unat (ip_reass_pbufcount s) + queue_pbufs (ipr_p ?r) + sum_list (map length cs') \<le> 10" using s(3) cs(1) qp by simp
  have r: "IP_ADDRESSES_AND_ID_MATCH (ipr_iphdr ?r) h" "ipr_flags ?r = 0" "ipr_p ?r \<noteq> []"
    by (simp_all add: new_datagram_def IP_ADDRESSES_AND_ID_MATCH_def)
  have d0: "0 < length d" using d(1) by simp
  obtain q where q: "feed cs' (holding s ?r (queue_pbufs (ipr_p ?r))) = Some (replicate (length cs' - 1) None @ [Some q], s)"
    "concat q = hdr_bytes (set_hdr 0 (of_nat (length d + length (concat ds) + IP_HLEN)) (ipr_iphdr ?r)) @ queue_data (ipr_p ?r) @ concat ds"
    using feed_rest [OF r pb run cs(3) ds(1) d(3,2) d0 len(1) room' s(2) h] by blast
  have rep: "replicate (length cs') None = None # replicate (length cs' - 1) (None :: byte list list option)" using ne by (cases cs') simp_all
  have "feed cs s = Some (replicate (length cs - 1) None @ [Some q], s)"
    using f q(1) rep unfolding qp cs(1) by simp
  moreover have "concat q = ip_datagram h 0 (concat (d # ds))"
    using q(2) unfolding dat by (simp add: new_datagram_def pkt_hdr_def ip_datagram_def)
  ultimately show ?thesis by blast
qed

text \<open>C26: Reassembly undoes fragmentation. The frames \<open>ip_frag\<close> sends of a datagram longer than the MTU, received in this order, in
  chains cut in any way and ten pbufs at most with those already queued, make \<open>ip_reass\<close> return nothing until the last, and then a chain with exactly
  the bytes of the datagram, header included; the datagrams under reassembly, the pool and the count are then as before. On the sending side the MTU is at least 44, every
  pbuf behind the first is empty or has at least 20 bytes, the header has no options and no allocation fails; on the receiving side no fragment of this
  datagram is queued before and the pool has an element left.\<close>

theorem fragments_reassemble:
  assumes "44 \<le> unat mtu" "carries p (ip_datagram h 0 data)" "cuttable (tl p)" "IPH_HL h = 5" "unat mtu < IP_HLEN + length data" "IP_HLEN + length data \<le> 65535"
    "find_datagram h 0 (reassdatagrams s) = None" "0 < reassdata_free s"
  shows "\<exists>sent. ip_frag p mtu [] = Some (0, sent) \<and>
    (\<forall>cs. list_all2 carries cs (map concat sent) \<longrightarrow> unat (ip_reass_pbufcount s) + sum_list (map length cs) \<le> 10 \<longrightarrow>
      (\<exists>q. feed cs s = Some (replicate (length cs - 1) None @ [Some q], s) \<and> concat q = ip_datagram h 0 data))"
proof -
  note n = nfb_words(3,4) [OF assms(1)]
  note C = carries_packet [OF assms(2)]
  have cp: "concat p = ip_datagram h 0 data" using assms(2) by (simp add: carries_def)
  have dat: "drop IP_HLEN (concat p) = data" unfolding cp by (simp add: ip_datagram_def IP_HLEN_def)
  let ?h = "pkt_hdr h 0 data" and ?ds = "pieces (nfb8 mtu) (unat mtu - IP_HLEN) data"
  have lp: "length (concat p) \<le> 65535" "length (concat p) \<noteq> IP_HLEN" unfolding cp using assms(1,5,6) by (auto simp: IP_HLEN_def)
  have off: "ntohs (iph_offset ?h) = 0" by (simp add: ntohs_def)
  obtain r sent where r: "ip_frag p mtu [] = Some (r, sent)" "sent_ok r sent (frames ?h 0 0 ?ds) []"
    using ip_frag_ok [OF assms(1) C(1,2) assms(3) lp(1), of "[]"] lp(2) unfolding C(3) off dat by auto
  then have sent: "r = 0" "map concat sent = frames ?h 0 0 ?ds" by (auto simp: sent_ok_def split: if_splits)
  have "length data > unat mtu - IP_HLEN" using assms(1,5) by (simp add: IP_HLEN_def)
  then obtain d ds where d: "?ds = d # ds" "ds \<noteq> []" using n(1) by (subst (asm) pieces.simps) auto
  have "data \<noteq> []" using assms(1,5) by (auto simp: IP_HLEN_def)
  then have ev: "even_pieces (d # ds)" using even_pieces_pieces [of data "nfb8 mtu" "unat mtu - IP_HLEN"] n unfolding d(1) by (auto simp: nfb8_def)
  have cd: "concat (d # ds) = data" unfolding d(1) [symmetric] by simp
  have "IPH_HL ?h = 5" "find_datagram ?h 0 (reassdatagrams s) = None" using assms(4,7) by simp_all
  note F = feed_frames [OF this(1) d(2) ev _ this(2) assms(8)]
  have "\<exists>q. feed cs s = Some (replicate (length cs - 1) None @ [Some q], s) \<and> concat q = ip_datagram h 0 data"
    if "list_all2 carries cs (map concat sent)" "unat (ip_reass_pbufcount s) + sum_list (map length cs) \<le> 10" for cs
    using F [of cs] that assms(6) unfolding cd sent(2) d(1) by (simp add: ip_datagram_def pkt_hdr_def add.commute)
  then show ?thesis using r(1) sent(1) by blast
qed

theorem fragments_reassemble_witness:
  "\<exists>sent q. ip_frag demo_packet 44 [] = Some (0, sent) \<and> feed (map (\<lambda>f. [concat f]) sent) reass_start =
    Some (replicate (length sent - 1) None @ [Some q], reass_start) \<and> concat q = ip_datagram demo_hdr 0 (replicate 40 7)"
proof -
  have st: "find_datagram demo_hdr 0 (reassdatagrams reass_start) = None" "0 < reassdata_free reass_start" "ip_reass_pbufcount reass_start = 0"
    by (simp_all add: reass_start_def MEMP_NUM_REASSDATA_def)
  have tl: "cuttable (tl demo_packet)" by (simp add: demo_packet_def cuttable_def)
  obtain sent where s: "ip_frag demo_packet 44 [] = Some (0, sent)"
    "\<And>cs. list_all2 carries cs (map concat sent) \<Longrightarrow> unat (ip_reass_pbufcount reass_start) + sum_list (map length cs) \<le> 10 \<Longrightarrow>
      \<exists>q. feed cs reass_start = Some (replicate (length cs - 1) None @ [Some q], reass_start) \<and> concat q = ip_datagram demo_hdr 0 (replicate 40 7)"
    using fragments_reassemble [of 44 demo_packet demo_hdr "replicate 40 7" reass_start, OF _ demo_carries tl demo_hl _ _ st(1,2)]
    by (auto simp: IP_HLEN_def)
  have "map (map length) sent = [[20, 24], [20, 16]]" using demo_sent s(1) by simp
  then obtain a b c d where x: "sent = [[a, b], [c, d]]" "length a = 20" "length c = 20" by (auto simp: map_eq_Cons_conv)
  have "list_all2 carries (map (\<lambda>f. [concat f]) sent) (map concat sent)" using x by (simp add: carries_def IP_HLEN_def)
  then show ?thesis using s(1) s(2) [of "map (\<lambda>f. [concat f]) sent"] st(3) x(1) by auto
qed

subsection \<open>Reassembly under all inputs\<close>

text \<open>C27: Whatever fragments arrive and however the timer runs in between, the reassembly stays in order: in every state it
  reaches, the number of queued pbufs is what the count says and at most ten, the elements of the pool are accounted for, no two
  datagrams have the same addresses and identification, the fragments of each are in ascending order, and the oldest datagrams come last.
  The timer returns, and so does \<open>ip_reass\<close> for a fragment of a datagram that is not known yet, also when room has to be made for it.\<close>

theorem reass_reachable_inv:
  assumes "reass_step\<^sup>*\<^sup>* reass_start s"
  shows "reass_inv s \<and> length (reassdatagrams s) \<le> MEMP_NUM_REASSDATA \<and> uint (ip_reass_pbufcount s) \<le> int IP_REASS_MAX_PBUFS \<and>
    (\<exists>s'. ip_reass_tmr s = Some s') \<and>
    (\<forall>p. p \<noteq> [] \<longrightarrow> IP_HLEN \<le> length (hd p) \<longrightarrow> find_datagram (hdr_of (hd p)) 0 (reassdatagrams s) = None \<longrightarrow>
      (ntohs (iph_offset (hdr_of (hd p))) AND IP_MF \<noteq> 0 \<or> ntohs (iph_offset (hdr_of (hd p))) AND IP_OFFMASK \<noteq> 0) \<longrightarrow> ip_reass p s \<noteq> None)"
proof -
  have i: "reass_inv s" by (rule reass_run.run_keeps [OF assms reass_start_inv])
  moreover have "\<exists>s'. ip_reass_tmr s = Some s'" using ip_reass_tmr_ok [OF i] by blast
  moreover have "ip_reass p s \<noteq> None" if "p \<noteq> []" "IP_HLEN \<le> length (hd p)" "find_datagram (hdr_of (hd p)) 0 (reassdatagrams s) = None"
    "ntohs (iph_offset (hdr_of (hd p))) AND IP_MF \<noteq> 0 \<or> ntohs (iph_offset (hdr_of (hd p))) AND IP_OFFMASK \<noteq> 0" for p
    using unknown_returns [OF i that] by auto
  ultimately show ?thesis by (simp add: reass_inv_def accounted_def)
qed

theorem reass_reachable_inv_witness:
  "\<exists>s. reass_step\<^sup>*\<^sup>* reass_start s \<and> length (reassdatagrams s) = 1 \<and> (\<exists>s'. ip_reass_tmr s = Some s')"
proof -
  let ?p = "demo_frag 0 True (replicate 8 1)"
  have "carries ?p (ip_datagram demo_hdr IP_MF (replicate 8 1))" by (simp add: carries_def demo_frag_def)
  then obtain s where s: "ip_reass ?p reass_start = Some (None, s)" "length (reassdatagrams s) = 1"
    using first_fragment [of demo_hdr reass_start ?p "replicate 8 1"] demo_hl
    by (auto simp: reass_start_def MEMP_NUM_REASSDATA_def demo_frag_def)
  then have "reass_step\<^sup>*\<^sup>* reass_start s" using fragment by blast
  then show ?thesis using s(2) reass_reachable_inv [of s] by blast
qed

text \<open>C30: Datagrams that are not completed are given up: after four runs of the timer without fragments in between nothing is
  queued, the count is zero and all of the pool is free again.\<close>

theorem ip_reass_expires:
  assumes "reass_inv s" "unat IP_REASS_MAXAGE < n"
  shows "\<exists>s'. reass_ticks n s = Some s' \<and> reassdatagrams s' = [] \<and> ip_reass_pbufcount s' = 0 \<and> reassdata_free s' = MEMP_NUM_REASSDATA"
proof -
  obtain s' where s: "reass_ticks n s = Some s'" "reass_inv s'" "reassdatagrams s' = (aged ^^ n) (reassdatagrams s)" using reass_ticks_ok [OF assms(1)] by blast
  have "\<forall>r\<in>set (reassdatagrams s). unat (ipr_timer r) \<le> unat IP_REASS_MAXAGE"
    using assms(1) by (auto simp: reass_inv_def list_ok_def word_le_nat_alt)
  then have "reassdatagrams s' = []" using aged_empty assms(2) unfolding s(3) by blast
  moreover from this have "ip_reass_pbufcount s' = 0" "reassdata_free s' = MEMP_NUM_REASSDATA"
    using s(2) by (simp_all add: reass_inv_def accounted_def uint_0_iff)
  ultimately show ?thesis using s(1) by blast
qed

theorem ip_reass_expires_witness:
  "\<exists>s s'. ip_reass (demo_frag 0 True (replicate 8 1)) reass_start = Some (None, s) \<and> reassdatagrams s \<noteq> [] \<and>
    reass_ticks 4 s = Some s' \<and> reassdatagrams s' = []"
proof -
  let ?p = "demo_frag 0 True (replicate 8 1)"
  have "carries ?p (ip_datagram demo_hdr IP_MF (replicate 8 1))" by (simp add: carries_def demo_frag_def)
  then obtain s where s: "ip_reass ?p reass_start = Some (None, s)" "reassdatagrams s \<noteq> []"
    using first_fragment [of demo_hdr reass_start ?p "replicate 8 1"] demo_hl
    by (auto simp: reass_start_def MEMP_NUM_REASSDATA_def demo_frag_def)
  then show ?thesis using ip_reass_expires [OF ip_reass_keeps [OF reass_start_inv s(1)], of 4] by (auto simp: IP_REASS_MAXAGE_def)
qed

subsection \<open>The place of a fragment\<close>

lemma disjoint_insert:
  assumes "disjoint_queue (bef @ aft)" "fr_start n < fr_end n" "\<forall>f\<in>set bef. fr_end f \<le> fr_start n" "\<forall>f\<in>set aft. fr_end n \<le> fr_start f"
  shows "disjoint_queue (bef @ n # aft)"
  using assms by (auto simp: disjoint_queue_def sorted_wrt_append)

text \<open>C29: A fragment that is not empty and overlaps no other fragment of a queue without overlaps is put in its place, and the exact
  test that follows. The datagram counts as whole when its last fragment has been seen, the queue starts at 0, and there is no hole in front of the new
  fragment's predecessor and none behind the new fragment; a hole between the new fragment and its predecessor is noticed only when the new fragment comes last
  in the queue. The result says whether it is whole. An assertion fails, and the call does not return, exactly when the datagram counts as whole
  but the new fragment is its only one or the end of the queue is not the length recorded with the last fragment.\<close>

theorem chain_frag_exact:
  assumes "p \<noteq> []" "IP_HLEN \<le> length (hd p)" "i < length (reassdatagrams s)" "r = reassdatagrams s ! i"
    "disjoint_queue (ipr_p r)" "disjoint_from (new_frag p) (ipr_p r)"
  shows "\<exists>bef aft. ipr_p r = bef @ aft \<and> disjoint_queue (bef @ new_frag p # aft) \<and>
    (let whole = (ipr_flags r AND IP_REASS_FLAG_LASTFRAG \<noteq> 0 \<and> fr_start (hd (bef @ [new_frag p])) = 0 \<and>
           gapless (if aft = [] then bef @ [new_frag p] else bef) \<and> gapless (new_frag p # aft))
     in ip_reass_chain_frag_into_datagram_and_validate i p s =
       (if whole \<and> (ipr_p r = [] \<or> fr_end (last (new_frag p # aft)) \<noteq> ipr_datagram_len r) then None
        else Some (whole, upd_datagram i (\<lambda>r. r\<lparr>ipr_p := bef @ new_frag p # aft\<rparr>) s)))"
proof -
  let ?n = "new_frag p"
  obtain v bef aft where w: "chain_walk ?n None (ipr_p r) = Some (Some (v, bef, aft))" "ipr_p r = bef @ aft" "\<forall>f\<in>set bef. fr_end f \<le> fr_start ?n"
    "\<forall>f\<in>set aft. fr_end ?n \<le> fr_start f" "v \<longleftrightarrow> gapless (bef @ (if aft = [] then [?n] else []))"
    using chain_walk_exact [of None "ipr_p r" ?n] assms(5,6) by auto
  have d: "disjoint_queue (bef @ ?n # aft)" using disjoint_insert [of bef aft ?n] assms(5,6) w by (simp add: disjoint_from_def)
  define whole where "whole \<longleftrightarrow> ipr_flags r AND IP_REASS_FLAG_LASTFRAG \<noteq> 0 \<and> fr_start (hd (bef @ [?n])) = 0 \<and>
      gapless (if aft = [] then bef @ [?n] else bef) \<and> gapless (?n # aft)"
  let ?u = "r\<lparr>ipr_p := bef @ ?n # aft\<rparr>"
  have "validate v ?n bef aft ?u = (if whole \<and> (ipr_p r = [] \<or> fr_end (last (?n # aft)) \<noteq> ipr_datagram_len r) then None else Some whole)"
    unfolding whole_def using w(2,5) by (auto simp: validate_def guard_def)
  then have "ip_reass_chain_frag_into_datagram_and_validate i p s =
      (if whole \<and> (ipr_p r = [] \<or> fr_end (last (?n # aft)) \<noteq> ipr_datagram_len r) then None
       else Some (whole, upd_datagram i (\<lambda>r. r\<lparr>ipr_p := bef @ ?n # aft\<rparr>) s))"
    using w(1) assms(3,4) by (simp add: chain_frag_unfold [OF assms(1,2)] Let_def)
  then show ?thesis using w(2) d unfolding whole_def Let_def by blast
qed

definition demo_queue :: reass where
  "demo_queue = reass_start\<lparr>reassdatagrams := [(new_datagram demo_hdr)\<lparr>ipr_p := [\<lparr>fr_start = 0, fr_end = 16, fr_pbuf = demo_frag 0 True (replicate 16 1)\<rparr>,
     \<lparr>fr_start = 24, fr_end = 32, fr_pbuf = demo_frag 3 False (replicate 8 4)\<rparr>], ipr_flags := IP_REASS_FLAG_LASTFRAG, ipr_datagram_len := 32\<rparr>]\<rparr>"

theorem chain_frag_exact_witness:
  "\<exists>s'. ip_reass_chain_frag_into_datagram_and_validate 0 (demo_frag 2 True (replicate 8 3)) demo_queue = Some (True, s') \<and>
    map fr_start (ipr_p (reassdatagrams s' ! 0)) = [0, 16, 24]"
proof -
  let ?p = "demo_frag 2 True (replicate 8 3)" and ?r = "reassdatagrams demo_queue ! 0"
  have n: "fr_start (new_frag ?p) = 16" "fr_end (new_frag ?p) = 24" by code_simp+
  have q: "0 < length (reassdatagrams demo_queue)" "map (\<lambda>f. (fr_start f, fr_end f)) (ipr_p ?r) = [(0, 16), (24, 32)]" "ipr_flags ?r = 1" "ipr_datagram_len ?r = 32"
    by (simp_all add: demo_queue_def IP_REASS_FLAG_LASTFRAG_def)
  then obtain f g where fg: "ipr_p ?r = [f, g]" "fr_start f = 0" "fr_end f = 16" "fr_start g = 24" "fr_end g = 32"
    by (auto simp: map_eq_Cons_conv)
  have p: "?p \<noteq> []" "IP_HLEN \<le> length (hd ?p)" by (simp_all add: demo_frag_def)
  obtain bef aft where c: "[f, g] = bef @ aft" "disjoint_queue (bef @ new_frag ?p # aft)"
    "let whole = (ipr_flags ?r AND IP_REASS_FLAG_LASTFRAG \<noteq> 0 \<and> fr_start (hd (bef @ [new_frag ?p])) = 0 \<and>
           gapless (if aft = [] then bef @ [new_frag ?p] else bef) \<and> gapless (new_frag ?p # aft))
     in ip_reass_chain_frag_into_datagram_and_validate 0 ?p demo_queue =
       (if whole \<and> (ipr_p ?r = [] \<or> fr_end (last (new_frag ?p # aft)) \<noteq> ipr_datagram_len ?r) then None
        else Some (whole, upd_datagram 0 (\<lambda>r. r\<lparr>ipr_p := bef @ new_frag ?p # aft\<rparr>) demo_queue))"
    using chain_frag_exact [OF p q(1) refl, unfolded fg(1)] fg n unfolding fg(1) by (auto simp: disjoint_queue_def disjoint_from_def)
  then have "bef = [f]" "aft = [g]" using fg n by (auto simp: disjoint_queue_def append_eq_Cons_conv Cons_eq_append_conv)
  then show ?thesis using c fg n q(1,3,4) by (simp add: IP_REASS_FLAG_LASTFRAG_def)
qed

subsection \<open>Where it fails\<close>

text \<open>Of a datagram of 32 bytes the second quarter is missing, and \<open>ip_reass\<close> hands out the other three.\<close>

lemma hole_is_delivered:
  "map_option (map (map_option (drop IP_HLEN \<circ> concat)) \<circ> fst)
     (feed [demo_frag 0 True (replicate 8 1), demo_frag 3 False (replicate 8 4), demo_frag 2 True (replicate 8 3)] reass_start) =
   Some [None, None, Some (replicate 8 1 @ replicate 8 3 @ replicate 8 4)]"
  by code_simp

text \<open>A last fragment that overlaps is thrown away, but its end is kept; the next fragment fails an assertion.\<close>

lemma discarded_last_aborts:
  "feed [demo_frag 0 True (replicate 16 1), demo_frag 1 False (replicate 8 2), demo_frag 2 True (replicate 8 3)] reass_start = None"
  by code_simp

text \<open>\<open>ip_frag\<close> fails an assertion when a piece ends in a pbuf with fewer than 20 bytes.\<close>

lemma small_pbuf_aborts:
  "ip_frag [hd demo_packet @ replicate 4 1, replicate 10 2, replicate 30 3] 68 [] = None"
  by code_simp

text \<open>With an MTU below 28 a piece has no bytes and \<open>ip_frag\<close> does not return, unless it runs out of memory.\<close>

lemma small_mtu_loops:
  assumes "20 \<le> uint mtu" "uint mtu < 28" "uint mtu - 20 < uint left"
  shows "frag_loop h mtu omf p poff left ofo [] out = None"
proof -
  have "m = [] \<longrightarrow> 20 \<le> uint mtu \<longrightarrow> uint mtu < 28 \<longrightarrow> uint mtu - 20 < uint left \<longrightarrow> False"
    if "frag_loop h mtu omf p poff left ofo m out = Some y" for h mtu omf p poff left ofo m out y
    using that
  proof (rule frag_loop.raw_induct [rotated, where P = "\<lambda>h mtu omf p poff left ofo m out y.
      m = [] \<longrightarrow> 20 \<le> uint mtu \<longrightarrow> uint mtu < 28 \<longrightarrow> uint mtu - 20 < uint left \<longrightarrow> False"], goal_cases)
    case (1 f h mtu omf p poff left ofo m out y)
    show ?case
    proof (intro impI)
      assume a: "m = []" "20 \<le> uint mtu" "uint mtu < 28" "uint mtu - 20 < uint left"
      then have l: "left \<noteq> 0" and d: "(uint mtu - int IP_HLEN) div 8 = 0" and n: "\<not> uint left \<le> uint mtu - int IP_HLEN"
        by (auto simp: IP_HLEN_def)
      have "\<exists>p poff ofo out. f h mtu omf p poff left ofo [] out = Some y"
        using 1(2) a(1) l n unfolding d by (auto simp: guard_def bind_eq_Some_conv Let_def split: if_splits)
      then show False using 1(1) a by blast
    qed
  qed
  then show ?thesis using assms by (cases "frag_loop h mtu omf p poff left ofo [] out") blast+
qed

end
