(* ===== verification/Spec2Isabelle.thy ===== *)
theory Spec2Isabelle
  imports Mpi_Number_Correct Rsa_Roundtrip Divergences Blowfish_Correct Inet_Correct Pbuf_Correct Etharp_Correct Timeouts_Correct Ip_Frag_Correct
begin

text \<open>
  A verification library for Sparkle: the cryptography of \<open>libsparkle/crypto\<close> and
  parts of the TCP/IP stack in \<open>lwip/\<close> that it is built with.

  \<^bold>\<open>The program.\<close> Sparkle is a peer-to-peer VPN. \<open>libsparkle\<close> (C++) authenticates nodes with RSA
  keys and encrypts traffic with Blowfish; both are C files of \<open>libsparkle/crypto\<close>, and
  \<open>rsa.c\<close> computes on the big numbers of \<open>bignum.c\<close>. \<open>sparkgap\<close> puts the traffic on a tap device or
  into the bundled lwIP stack. The call graph modelled here is
  \<open>rsa.c \<rightarrow> bignum.c \<rightarrow> bn_mul.h\<close>, \<open>blowfish.c\<close>, \<open>inet_chksum.c, inet.c, ip_addr.c\<close>,
  \<open>etharp.c \<rightarrow> pbuf.c\<close>, \<open>ip_frag.c \<rightarrow> inet_chksum.c\<close>, and \<open>sys.c\<close>.

  \<^bold>\<open>Machine.\<close> The model is the build for a 64-bit little-endian host: \<open>t_int\<close> is
  \<open>64 word\<close>, \<open>t_dbl\<close> is \<open>128 word\<close>, \<open>int\<close> is an integer whose range is written out where
  an overflow matters. The sizes of limb arrays and the bit counts of \<open>mpi_msb\<close> and \<open>mpi_shift_l\<close> are natural numbers: they are exact where the \<open>int\<close> arithmetic of
  the code does not overflow, which it does for numbers of \<open>2 ^ 25\<close> limbs or more (\<open>nblimbs * ciL\<close> in \<open>mpi_grow\<close>: \<open>2 ^ 28\<close>). Reading outside an array, dividing by zero and dereferencing a null pointer
  have no result (\<open>None\<close>).

  \<^bold>\<open>Store and errors\<close> (\<open>CStore\<close>). Big numbers are passed by pointer and may coincide (\<open>mpi_add_mpi( &A, &A,
  &B )\<close>), so a function of \<open>bignum.c\<close> is a function on a store of \<open>mpi\<close> objects, of type \<open>'a cm\<close>:
  no result, an error code (\<open>Inl\<close>) or a value (\<open>Inr\<close>), and the new store. \<open>MPI_CHK\<close> is \<open>bindc\<close> or \<open>seqc\<close>,
  local \<open>mpi\<close> variables with \<open>mpi_init\<close> and the \<open>cleanup:\<close> label are \<open>locals\<close>, loops are \<open>whilec\<close> (a
  \<open>partial_function\<close>, so a loop that does not end has no result) and \<open>forc\<close>. The store also holds
  the outcomes of the coming calls of \<open>malloc\<close> (\<open>oom\<close>; when the list is used up they
  succeed) and of the random callback (\<open>rng\<close>). \<open>ok f \<sigma> Q\<close> says that \<open>f\<close> returns without error from \<open>\<sigma>\<close>
  with a result and store in \<open>Q\<close>: it is a statement of total correctness, and its rules (the
  collection \<open>wp\<close>) carry the proofs.

  \<^bold>\<open>Theories and sources.\<close>
  \<^item> \<open>Limbs\<close>: the value \<open>nval\<close> of a limb array, the carry and borrow loops, and the three
    versions of \<open>MULADDC_CORE\<close> of \<open>bn_mul.h\<close>. The locale \<open>muladdc\<close> states what
    \<open>mpi_mul_hlp\<close> needs of the macro; it is interpreted for the portable, the double-limb and the amd64 code.
  \<^item> \<open>Mpi_Base\<close>, \<open>Mpi_AddSub\<close>, \<open>Mpi_Shift\<close>, \<open>Mpi_Mul\<close>: \<open>mpi_grow\<close> to \<open>mpi_cmp_int\<close>, addition,
    shifts and multiplication.
  \<^item> \<open>Mpi_Qhat\<close>, \<open>Mpi_Div\<close>, \<open>Mpi_Div_Setup\<close>, \<open>Mpi_Divmod\<close>, \<open>Mpi_Mod\<close>: the long division. The estimate of a quotient
    digit is a parameter of the division, and the locale \<open>digit_estimate\<close> states its contract (the
    estimate is exact for divisors in a set \<open>safe\<close>); it is interpreted for the double-limb
    estimate with every divisor safe and for the half-limb estimate with the set \<open>udiv_safe\<close>.
    The program is built without \<open>POLARSSL_HAVE_LONGLONG\<close>, that is with the half-limb estimate. \<open>Mpi_Digits\<close>: the hypothesis
    \<open>exact_digits\<close> under which the theorems on dividing functions hold for this build, and in the other build always.
  \<^item> \<open>Mpi_Mont\<close>, \<open>Mpi_Expm\<close>, \<open>Mpi_Exp_Mod\<close>: Montgomery multiplication and the sliding window.
  \<^item> \<open>Mpi_Gcd\<close>, \<open>Mpi_Gcd_Correct\<close>, \<open>Mpi_Inv_Correct\<close>: the binary gcd and inverse. \<open>Mpi_Prime\<close>, \<open>Mpi_Text\<close>: primality tests,
    prime generation, strings and files (definitions). \<open>Mpi_Octets\<close>: octet strings.
  \<^item> \<open>Rsa\<close>: \<open>rsa.c\<close>. \<open>Fermat\<close>: the number theory. \<open>Rsa_Correct\<close>, \<open>Rsa_Private\<close>: the key invariant
    \<open>rsa_key\<close> and the two operations. \<open>Rsa_Key\<close>: a concrete key with primes proved by Proth's criterion.
  \<^item> \<open>Blowfish\<close>: \<open>blowfish.c\<close> with its tables. \<open>Inet_Chksum\<close>, \<open>Inet_Addr\<close>: \<open>inet_chksum.c\<close>, \<open>inet.c\<close>, \<open>ip_addr.c\<close>.
  \<^item> \<open>Pbuf\<close> to \<open>Pbuf_Correct\<close>: packet buffers (\<open>pbuf.c\<close>). The store holds the descriptors by number and the
    payload memory; \<open>packet_inv\<close> says that the reference counts are what the pointers in the store
    and the holders outside account for, and that chains end and have the right \<open>tot_len\<close>.
  \<^item> \<open>Etharp\<close> to \<open>Etharp_Correct\<close>: address resolution (\<open>etharp.c\<close>), over the packet buffers. The driver's
    \<open>linkoutput\<close> and the stack's \<open>ip_input\<close> are parameters. \<open>arp_inv\<close> is the invariant of the
    cache table and its packet queues.
  \<^item> \<open>Timeouts\<close>, \<open>Timeouts_Run\<close>, \<open>Timeouts_Correct\<close>: the timeout list of \<open>sys.c\<close>, which the code keeps as
    differences and the specification as deadlines. The operating system's mailbox and semaphore waits and the handlers are parameters.
  \<^item> \<open>Ip_Frag\<close>, \<open>Ip_Frag_Send\<close>, \<open>Ip_Reass\<close> to \<open>Ip_Reass_Exact\<close>, \<open>Ip_Frag_Correct\<close>: fragmentation and reassembly of IP datagrams
    (\<open>ip_frag.c\<close>). Both own the chains they are given, so a chain is here the list of the payloads of its buffers; the
    outcomes of \<open>pbuf_alloc\<close> are a list, and what goes to \<open>netif->output\<close> and \<open>icmp_time_exceeded\<close> is recorded. \<open>reass_inv\<close> is
    the invariant of the queue of incomplete datagrams: its buffers and entries are
    counted, no two datagrams have the same addresses and identification, and they are in order of age.
  \<^item> \<open>Runs\<close>: the locale \<open>state_machine\<close>, steps that keep an invariant; it is interpreted for address resolution,
    the timers and reassembly.
  \<^item> \<open>Mpi_Correct\<close>, \<open>Mpi_Number_Correct\<close>, \<open>Rsa_Roundtrip\<close>, \<open>Blowfish_Correct\<close>, \<open>Inet_Correct\<close>: the properties, each
    with a witness. \<open>Divergences\<close>: inputs on which the code fails its purpose.

  \<^bold>\<open>What the lemmas show.\<close> Every \<open>_ok\<close> lemma gives the exact value a function writes and that it changes
  nothing else, so each property is an instance: the arithmetic of \<open>bignum.c\<close> is
  that of the integers, \<open>mpi_exp_mod\<close> is \<open>A ^ E mod N\<close>, \<open>rsa_private\<close> undoes \<open>rsa_public\<close>, padded messages
  and signatures come back, \<open>rsa_pkcs1_decrypt\<close> returns the message of a padded block and an error for every other, and every sequence of calls keeps the key. What
  divides by a number has \<open>exact_digits\<close> of it as a hypothesis, and all of this has the hypothesis that no allocation fails. The Blowfish block operations are
  inverse to each other and the key schedule reports exactly the keys with a repeated table entry. The three
  checksum routines agree and compute the ones-complement sum; checksums over chains do not
  depend on how a packet is cut into buffers.

  Packet buffers: every operation returns, keeps \<open>packet_inv\<close> and changes only the chains it is given, so that
  a packet is freed when its last holder lets it go. Address resolution: every sequence of calls keeps \<open>arp_inv\<close>,
  no call is stuck, a packet is sent to the hardware address the table or the group mapping gives, a packet that
  waits is sent once the reply arrives, requests are answered, entries expire after bounded calls of
  \<open>etharp_tmr\<close>, and \<open>find_entry\<close> gives up the entry that costs least. Timers of one thread, while others use the same pool: \<open>sys_timeout\<close> inserts at the
  deadline and moves no other, \<open>sys_untimeout\<close> undoes it, and no handler runs early.

  Fragments: \<open>ip_frag\<close> sends the data in order with headers that verify, and \<open>ip_reass\<close> puts exactly this data together again; every
  sequence of fragments and timer ticks keeps \<open>reass_inv\<close>; datagrams that stay incomplete are given up after four ticks. The
  test for completeness is stated exactly, with the hole it does not see. Loops are
  \<open>partial_function\<close>s that are proved to return, or recursions on a list.

  \<^bold>\<open>Not modelled.\<close> The C++ parts (link layer, router, applications) and the rest of lwIP (TCP, UDP, the routing and input of IP, ICMP and IGMP,
  DHCP and DNS, memory pools, statistics and interfaces, the sequential interface, PPP, SNMP, IPv6, the driver templates and the Qt
  port): the latter's files are listed in the manifest with the reason. The assembly of \<open>bn_mul.h\<close> for targets other than amd64, the
  SPARC and big-endian branches, \<open>burn_stack\<close>, and the self tests are left out.
\<close>

end
